(* ===== verification/Id8.thy ===== *)
theory Id8
  imports Prelude
begin

text \<open>
  The generator of 8 character identifiers, \<open>common/private/logger/id8generator.hpp\<close>.
  Its state is the atomic counter; the clock and the process id are arguments of the
  operation that reads them.  \<open>uint64_t\<close> is \<open>64 word\<close>, so additions and products wrap
  as in the code.
\<close>

section \<open>The generator\<close>

definition mix64 :: "u64 \<Rightarrow> u64" where
  "mix64 z =
     (let z1 = z + 0x9e3779b97f4a7c15;
          z2 = (z1 XOR drop_bit 30 z1) * 0xbf58476d1ce4e5b9;
          z3 = (z2 XOR drop_bit 27 z2) * 0x94d049bb133111eb
      in z3 XOR drop_bit 31 z3)"

fun pow62_loop :: "nat \<Rightarrow> u64 \<Rightarrow> u64" where
  "pow62_loop 0 r = r"
| "pow62_loop (Suc n) r = pow62_loop n (r * 62)"

definition pow62 :: "nat \<Rightarrow> u64" where
  "pow62 n = pow62_loop n 1"

definition base62_char :: "u64 \<Rightarrow> char" where
  "base62_char i =
     (if i < 10 then char_of (48 + unat i)
      else if i < 36 then char_of (65 + unat (i - 10))
      else char_of (97 + unat (i - 36)))"

text \<open>
  The constructor: two draws of \<open>std::random_device\<close>, the clock and the process id.
\<close>

definition id8_seed :: "u32 \<Rightarrow> u32 \<Rightarrow> u64 \<Rightarrow> u32 \<Rightarrow> u64" where
  "id8_seed rd1 rd2 now pid =
     (let seed = push_bit 32 (ucast rd1) XOR ucast rd2;
          seed = seed XOR now;
          seed = seed XOR push_bit 16 (ucast pid)
      in if seed \<noteq> 0 then seed else 1)"

text \<open>The loop from index 7 down to 0 fills the string from its last digit.\<close>

fun fill_digits :: "nat \<Rightarrow> u64 \<Rightarrow> string \<Rightarrow> string" where
  "fill_digits 0 val s = s"
| "fill_digits (Suc i) val s = fill_digits i (val div 62) (s[i := base62_char (val mod 62)])"

text \<open>\<open>operator()\<close>: the identifier and the counter after \<open>fetch_add\<close>.\<close>

definition id8_next :: "u64 \<Rightarrow> u64 \<Rightarrow> u32 \<Rightarrow> string \<times> u64" where
  "id8_next counter t get_pid =
     (let c = counter;
          pid = (ucast get_pid :: u64);
          mix = mix64 (c XOR t XOR push_bit 32 pid);
          val = mix mod pow62 8
      in (fill_digits 8 val (replicate 8 (CHR 0x00)), counter + 1))"

section \<open>The mixer loses nothing\<close>

lemma xorshift_zero:
  fixes d :: u64
  assumes "0 < k" and "d = drop_bit k d"
  shows "d = 0"
proof (rule ccontr)
  assume "d \<noteq> 0"
  then have pos: "0 < unat d" by (simp add: unat_gt_0)
  have "unat d = unat d div 2 ^ k"
    using assms(2) by (metis unat_drop_bit_eq drop_bit_eq_div)
  moreover have "unat d div 2 ^ k < unat d"
    using pos assms(1) by (intro div_less_dividend one_less_power) auto
  ultimately show False by simp
qed

lemma xor_zero_eq:
  fixes a b :: u64
  assumes "a XOR b = 0"
  shows "a = b"
proof -
  have "a = (a XOR b) XOR b" by (simp add: xor.assoc)
  then show ?thesis using assms by simp
qed

lemma xorshift_inject:
  fixes x y :: u64
  assumes "0 < k" and "x XOR drop_bit k x = y XOR drop_bit k y"
  shows "x = y"
proof -
  have "(x XOR y) XOR drop_bit k (x XOR y) = (x XOR drop_bit k x) XOR (y XOR drop_bit k y)"
    by (simp only: drop_bit_xor xor.assoc xor.left_commute [of y])
  then have "(x XOR y) XOR drop_bit k (x XOR y) = 0"
    unfolding assms(2) by (simp only: xor_self_eq)
  then have "x XOR y = drop_bit k (x XOR y)" by (rule xor_zero_eq)
  then have "x XOR y = 0" using assms(1) xorshift_zero by blast
  then show "x = y" by (rule xor_zero_eq)
qed

lemma odd_factor_inject:
  fixes x y c d :: u64
  assumes "c * d = 1" and "x * c = y * c"
  shows "x = y"
proof -
  have "x * c * d = y * c * d" using assms(2) by simp
  then show ?thesis using assms(1) by (simp add: mult.assoc)
qed

lemma mix64_inj: "inj mix64"
proof (rule injI)
  fix x y assume eq: "mix64 x = mix64 y"
  define a where "a z = z + (0x9e3779b97f4a7c15 :: u64)" for z
  define b where "b z = (a z XOR drop_bit 30 (a z)) * (0xbf58476d1ce4e5b9 :: u64)" for z
  define c where "c z = (b z XOR drop_bit 27 (b z)) * (0x94d049bb133111eb :: u64)" for z
  have m: "mix64 z = c z XOR drop_bit 31 (c z)" for z
    by (simp add: mix64_def a_def b_def c_def Let_def)
  have "c x = c y" using eq unfolding m by (rule xorshift_inject [rotated]) simp
  then have "b x XOR drop_bit 27 (b x) = b y XOR drop_bit 27 (b y)"
    unfolding c_def by (rule odd_factor_inject [rotated, where d = "0x319642b2d24d8ec3"]) simp
  then have "b x = b y" by (rule xorshift_inject [rotated]) simp
  then have "a x XOR drop_bit 30 (a x) = a y XOR drop_bit 30 (a y)"
    unfolding b_def by (rule odd_factor_inject [rotated, where d = "0x96de1b173f119089"]) simp
  then have "a x = a y" by (rule xorshift_inject [rotated]) simp
  then show "x = y" by (simp add: a_def)
qed

section \<open>The digits\<close>

definition base62_val :: "char \<Rightarrow> nat" where
  "base62_val ch =
     (let k = (of_char ch :: nat)
      in if k < 58 then k - 48 else if k < 91 then k - 55 else k - 61)"

definition base62_value :: "string \<Rightarrow> nat" where
  "base62_value s = foldl (\<lambda>a ch. a * 62 + base62_val ch) 0 s"

definition is_base62 :: "char \<Rightarrow> bool" where
  "is_base62 ch \<longleftrightarrow> is_digit ch \<or> ascii_upper ch \<or> ascii_lower ch"

lemma base62_char_code:
  assumes "v < 62"
  shows "(of_char (base62_char v) :: nat) =
    (if unat v < 10 then 48 + unat v else if unat v < 36 then 55 + unat v else 61 + unat v)"
proof -
  have b: "unat v < 62" using assms by (simp add: word_less_nat_alt)
  have s: "unat (v - 10) = unat v - 10" if "\<not> v < 10"
    using that by (simp add: unat_sub word_le_nat_alt word_less_nat_alt)
  have t: "unat (v - 36) = unat v - 36" if "\<not> v < 36"
    using that by (simp add: unat_sub word_le_nat_alt word_less_nat_alt)
  show ?thesis
    using b s t by (auto simp: base62_char_def word_less_nat_alt)
qed

lemma base62_val_char: "v < 62 \<Longrightarrow> base62_val (base62_char v) = unat v"
  using base62_char_code [of v]
  by (auto simp: base62_val_def Let_def word_less_nat_alt)

lemma is_base62_char: "v < 62 \<Longrightarrow> is_base62 (base62_char v)"
  using base62_char_code [of v]
  by (auto simp: is_base62_def is_digit_def ascii_upper_def ascii_lower_def word_less_nat_alt)

lemma word_mod_62: "(val :: u64) mod 62 < 62"
  by (simp add: word_less_nat_alt unat_mod_distrib)

lemma fill_digits_length [simp]: "length (fill_digits n val s) = length s"
  by (induction n val s rule: fill_digits.induct) auto

lemma fill_digits_append:
  "n = length xs \<Longrightarrow> fill_digits n val (xs @ ys) = fill_digits n val xs @ ys"
proof (induction n arbitrary: val xs ys)
  case 0
  then show ?case by simp
next
  case (Suc n)
  then obtain zs z where xs: "xs = zs @ [z]" "length zs = n"
    by (metis length_Suc_conv_rev)
  let ?c = "base62_char (val mod 62)"
  have "(zs @ [z] @ ys)[n := ?c] = zs @ [?c] @ ys" "(zs @ [z])[n := ?c] = zs @ [?c]"
    using xs(2) by (simp_all add: list_update_append)
  then show ?case
    using Suc.IH [of zs "val div 62" "?c # ys"] Suc.IH [of zs "val div 62" "[?c]"] xs by simp
qed

lemma fill_digits_Suc:
  assumes "length s = Suc n"
  shows "fill_digits (Suc n) val s =
    fill_digits n (val div 62) (take n s) @ [base62_char (val mod 62)]"
proof -
  obtain zs z where s: "s = zs @ [z]" "length zs = n"
    using assms by (metis length_Suc_conv_rev)
  then show ?thesis
    using fill_digits_append [of n zs "val div 62"] by (simp add: list_update_append)
qed

lemma fill_digits_correct:
  assumes "length s = n"
  shows "base62_value (fill_digits n val s) = unat val mod 62 ^ n
    \<and> (\<forall>ch \<in> set (fill_digits n val s). is_base62 ch)"
  using assms
proof (induction n arbitrary: val s)
  case 0
  then show ?case by (simp add: base62_value_def)
next
  case (Suc n)
  let ?f = "fill_digits n (val div 62) (take n s)" and ?c = "base62_char (val mod 62)"
  have f: "fill_digits (Suc n) val s = ?f @ [?c]" using Suc.prems by (rule fill_digits_Suc)
  have "length (take n s) = n" using Suc.prems by simp
  from Suc.IH [OF this, of "val div 62"]
  have ih: "base62_value ?f = unat (val div 62) mod 62 ^ n" "\<forall>ch \<in> set ?f. is_base62 ch"
    by blast+
  have c: "base62_val ?c = unat val mod 62" "is_base62 ?c"
    using base62_val_char [OF word_mod_62, of val] is_base62_char [OF word_mod_62, of val]
    by (simp_all add: unat_mod_distrib)
  have "base62_value (?f @ [?c]) = (unat val div 62 mod 62 ^ n) * 62 + unat val mod 62"
    using ih c by (simp add: base62_value_def unat_div_distrib)
  also have "\<dots> = unat val mod 62 ^ Suc n"
    by (simp add: mod_mult2_eq mult.commute)
  finally show ?case using f ih c by auto
qed

lemma pow62_8: "pow62 8 = 218340105584896"
  by (simp add: pow62_def numeral_eq_Suc)

lemma id8_value:
  "base62_value (fst (id8_next c t pid)) = unat (mix64 (c XOR t XOR push_bit 32 (ucast pid))) mod 62 ^ 8"
proof -
  let ?m = "mix64 (c XOR t XOR push_bit 32 (ucast pid))"
  have u: "unat (?m mod 218340105584896) = unat ?m mod 218340105584896"
    by (simp add: unat_mod_distrib)
  have "base62_value (fst (id8_next c t pid)) = unat (?m mod 218340105584896) mod 62 ^ 8"
    using fill_digits_correct [of "replicate 8 (CHR 0x00)" 8 "?m mod 218340105584896"]
    unfolding id8_next_def Let_def pow62_8 by simp
  then show ?thesis unfolding u by simp
qed

text \<open>
  C37. Every identifier has 8 characters, all of \<open>0-9A-Za-z\<close>, and is the base 62
  rendering, most significant digit first, of the mixed word modulo \<open>62 ^ 8\<close>.
\<close>

theorem id8_identifier:
  "length (fst (id8_next c t pid)) = 8
   \<and> set (fst (id8_next c t pid)) \<subseteq> Collect is_base62
   \<and> base62_value (fst (id8_next c t pid))
       = unat (mix64 (c XOR t XOR push_bit 32 (ucast pid))) mod 62 ^ 8"
proof (intro conjI)
  let ?v = "mix64 (c XOR t XOR push_bit 32 (ucast pid)) mod pow62 8"
  have d: "fst (id8_next c t pid) = fill_digits 8 ?v (replicate 8 (CHR 0x00))"
    by (simp add: id8_next_def Let_def)
  show "length (fst (id8_next c t pid)) = 8" unfolding d by simp
  show "set (fst (id8_next c t pid)) \<subseteq> Collect is_base62"
    unfolding d using fill_digits_correct [of "replicate 8 (CHR 0x00)" 8 ?v] by auto
  show "base62_value (fst (id8_next c t pid))
       = unat (mix64 (c XOR t XOR push_bit 32 (ucast pid))) mod 62 ^ 8"
    by (rule id8_value)
qed

lemma id8_same_iff:
  "fst (id8_next c t pid) = fst (id8_next c' t' pid') \<longleftrightarrow>
     unat (mix64 (c XOR t XOR push_bit 32 (ucast pid))) mod 62 ^ 8
     = unat (mix64 (c' XOR t' XOR push_bit 32 (ucast pid'))) mod 62 ^ 8"
  (is "?L = ?R")
proof
  assume ?L
  then show ?R by (metis id8_value)
next
  assume r: ?R
  let ?m = "\<lambda>c t pid. mix64 (c XOR t XOR push_bit 32 (ucast (pid :: u32)))"
  have "?m c t pid mod 218340105584896 = ?m c' t' pid' mod 218340105584896"
    using r by (simp add: word_unat_eq_iff unat_mod_distrib)
  then show ?L unfolding id8_next_def Let_def pow62_8 by simp
qed

text \<open>
  The mixer loses nothing: at one time in one process, different counter values
  give different mixed words, so two identifiers drawn there coincide only when the
  mixed words agree modulo \<open>62 ^ 8\<close>.
\<close>

theorem id8_mixing:
  "inj (\<lambda>c. mix64 (c XOR t XOR push_bit 32 (ucast (pid :: u32))))
   \<and> (fst (id8_next c t pid) = fst (id8_next c' t' pid') \<longleftrightarrow>
        unat (mix64 (c XOR t XOR push_bit 32 (ucast pid))) mod 62 ^ 8
        = unat (mix64 (c' XOR t' XOR push_bit 32 (ucast pid'))) mod 62 ^ 8)"
proof
  show "inj (\<lambda>c. mix64 (c XOR t XOR push_bit 32 (ucast (pid :: u32))))"
  proof (rule injI)
    fix a b :: u64
    let ?k = "t XOR push_bit 32 (ucast pid)"
    assume "mix64 (a XOR t XOR push_bit 32 (ucast pid)) = mix64 (b XOR t XOR push_bit 32 (ucast pid))"
    then have "a XOR ?k = b XOR ?k" using mix64_inj by (simp add: inj_eq)
    then have "(a XOR ?k) XOR ?k = (b XOR ?k) XOR ?k" by simp
    then show "a = b" by (simp only: xor.assoc xor_self_eq xor.right_neutral)
  qed
qed (rule id8_same_iff)

text \<open>
  C38. The identifier is called unique in the source, and is not: at any time, in any
  process, some two different counter values give the same identifier, because
  \<open>62 ^ 8 < 2 ^ 64\<close>.
\<close>

theorem id8_not_unique:
  "\<exists>c c'. c \<noteq> c' \<and> fst (id8_next c t pid) = fst (id8_next c' t pid)"
proof -
  let ?f = "\<lambda>c. base62_value (fst (id8_next c t pid))"
  have "?f ` UNIV \<subseteq> {..<62 ^ 8}"
    using id8_value [of _ t pid] by auto
  then have "card (?f ` UNIV) \<le> card {..<(62 ^ 8 :: nat)}" by (intro card_mono) auto
  also have "\<dots> < card (UNIV :: u64 set)" by (simp add: card_word)
  finally have "\<not> inj ?f" by (rule pigeonhole)
  then obtain c c' where "c \<noteq> c'" "?f c = ?f c'" by (auto simp: inj_def)
  moreover from this(2) have "fst (id8_next c t pid) = fst (id8_next c' t pid)"
    by (simp add: id8_same_iff id8_value)
  ultimately show ?thesis by blast
qed

end
