(* ===== verification/Filesystem.thy ===== *)
theory Filesystem
  imports Prelude
begin

text \<open>
  The file system as the log sinks use it: a map from path names to file
  contents, with the operations of \<open>std::filesystem\<close> and of spdlog's
  \<open>file_helper\<close> that \<open>common/private/logger\<close> calls, and the renaming chain
  \<open>base -> .1 -> .2 -> ... -> .N\<close> that both rotating sinks run.

  The operations take no fault: the sinks call the \<open>std::error_code\<close> overloads
  and carry on, and the model describes the runs in which removing and renaming
  an existing file succeed.  Directories carry no state here
  (\<open>create_directories\<close> creates the parent of every log file).
\<close>

section \<open>Paths\<close>

type_synonym path = string
type_synonym files = "path \<rightharpoonup> string"

text \<open>\<open>operator/\<close> of \<open>fs::path\<close>.\<close>

definition path_join :: "path \<Rightarrow> path \<Rightarrow> path" where
  "path_join d n =
     (if n \<noteq> [] \<and> hd n = CHR ''/'' then n
      else if d = [] \<or> last d = CHR ''/'' then d @ n
      else d @ CHR ''/'' # n)"

text \<open>\<open>filename()\<close>: what follows the last separator.\<close>

definition path_filename :: "path \<Rightarrow> string" where
  "path_filename p = rev (takeWhile (\<lambda>c. c \<noteq> CHR ''/'') (rev p))"

text \<open>
  \<open>parent_path()\<close>: what precedes the file name, without the separators before it,
  unless nothing else is left.
\<close>

definition path_parent :: "path \<Rightarrow> path" where
  "path_parent p =
     (let d = dropWhile (\<lambda>c. c \<noteq> CHR ''/'') (rev p);
          e = rev (dropWhile (\<lambda>c. c = CHR ''/'') d)
      in if e = [] \<and> d \<noteq> [] then ''/'' else e)"

definition has_parent_path :: "path \<Rightarrow> bool" where
  "has_parent_path p \<longleftrightarrow> path_parent p \<noteq> []"

lemma path_join_inject:
  assumes "path_join d m = path_join d n"
    and "m \<noteq> []" "hd m \<noteq> CHR ''/''" "n \<noteq> []" "hd n \<noteq> CHR ''/''"
  shows "m = n"
  using assms by (auto simp: path_join_def split: if_splits)

lemma path_join_stem_inject:
  assumes "path_join d (stem @ a) = path_join d (stem @ b)"
    and "a \<noteq> []" "hd a \<noteq> CHR ''/''" "b \<noteq> []" "hd b \<noteq> CHR ''/''"
  shows "a = b"
  using assms by (cases stem) (auto simp: path_join_def split: if_splits)

section \<open>Operations on files\<close>

definition fs_exists :: "files \<Rightarrow> path \<Rightarrow> bool" where
  "fs_exists m p \<longleftrightarrow> m p \<noteq> None"

definition fs_remove :: "files \<Rightarrow> path \<Rightarrow> files" where
  "fs_remove m p = m(p := None)"

definition fs_rename :: "files \<Rightarrow> path \<Rightarrow> path \<Rightarrow> files" where
  "fs_rename m src dst =
     (case m src of None \<Rightarrow> m | Some c \<Rightarrow> m(src := None, dst := Some c))"

text \<open>\<open>file_helper::open\<close> opens in mode \<open>ab\<close>: an absent file is created empty.\<close>

definition fs_open_append :: "files \<Rightarrow> path \<Rightarrow> files" where
  "fs_open_append m p = (case m p of None \<Rightarrow> m(p := Some []) | Some c \<Rightarrow> m)"

definition fs_append :: "files \<Rightarrow> path \<Rightarrow> string \<Rightarrow> files" where
  "fs_append m p s = (case m p of None \<Rightarrow> m(p := Some s) | Some c \<Rightarrow> m(p := Some (c @ s)))"

text \<open>The content of a file, an absent one read as empty.\<close>

definition content :: "files \<Rightarrow> path \<Rightarrow> string" where
  "content m p = (case m p of None \<Rightarrow> [] | Some c \<Rightarrow> c)"

lemma fs_exists_simps [simp]:
  "fs_exists (fs_remove m p) q \<longleftrightarrow> q \<noteq> p \<and> fs_exists m q"
  "fs_exists (fs_open_append m p) q \<longleftrightarrow> q = p \<or> fs_exists m q"
  "fs_exists (fs_append m p s) q \<longleftrightarrow> q = p \<or> fs_exists m q"
  by (auto simp: fs_exists_def fs_remove_def fs_open_append_def fs_append_def
      split: option.splits)

lemma content_open_append [simp]: "content (fs_open_append m p) q = content m q"
  by (auto simp: content_def fs_open_append_def split: option.splits)

lemma content_append [simp]:
  "content (fs_append m p s) q = (if q = p then content m p @ s else content m q)"
  by (auto simp: content_def fs_append_def split: option.splits)

lemma files_open_append_other [simp]: "q \<noteq> p \<Longrightarrow> fs_open_append m p q = m q"
  by (auto simp: fs_open_append_def split: option.splits)

lemma files_append_other [simp]: "q \<noteq> p \<Longrightarrow> fs_append m p s q = m q"
  by (auto simp: fs_append_def split: option.splits)

section \<open>The renaming chain\<close>

text \<open>
  What one rotation does to the files, whatever the order of its renames: the
  current file becomes backup 1, backup \<open>i\<close> becomes backup \<open>i + 1\<close>, the oldest
  one is dropped.  Slot 0 is the current file.
\<close>

definition chain_slots :: "path \<Rightarrow> (nat \<Rightarrow> path) \<Rightarrow> nat \<Rightarrow> path list" where
  "chain_slots base rp n = base # map rp [1..<Suc n]"

definition chain_view :: "path \<Rightarrow> (nat \<Rightarrow> path) \<Rightarrow> nat \<Rightarrow> files \<Rightarrow> string option list" where
  "chain_view base rp n m = map m (chain_slots base rp n)"

text \<open>The text of the chain, oldest backup first.\<close>

definition chain_text :: "path \<Rightarrow> (nat \<Rightarrow> path) \<Rightarrow> nat \<Rightarrow> files \<Rightarrow> string" where
  "chain_text base rp n m = concat (rev (map (content m) (chain_slots base rp n)))"

text \<open>One guarded step of a chain: remove the target, rename the source onto it.\<close>

definition shift_file :: "files \<Rightarrow> path \<Rightarrow> path \<Rightarrow> files" where
  "shift_file m src dst =
     (if fs_exists m src then fs_rename (fs_remove m dst) src dst else m)"

text \<open>
  A store of backups: distinct names for the slots, and a rotation that shifts
  the view by one.  The two rotating sinks provide it, each with its own loop.
\<close>

locale backup_chain =
  fixes base :: path
    and rp :: "nat \<Rightarrow> path"
    and rotate :: "nat \<Rightarrow> files \<Rightarrow> files"
  assumes rp_inject: "rp i = rp j \<Longrightarrow> i = j"
    and rp_base: "rp i \<noteq> base"
    and rotate_base: "0 < n \<Longrightarrow> rotate n m base = None"
    and rotate_first: "0 < n \<Longrightarrow> rotate n m (rp 1) = m base"
    and rotate_next: "0 < i \<Longrightarrow> i < n \<Longrightarrow> rotate n m (rp (Suc i)) = m (rp i)"
    and rotate_other: "0 < n \<Longrightarrow> p \<noteq> base \<Longrightarrow> \<forall>i \<in> {1..n}. p \<noteq> rp i \<Longrightarrow> rotate n m p = m p"
begin

lemma base_rp [simp]: "base \<noteq> rp i" "rp i \<noteq> base"
  using rp_base by auto

lemma rp_eq [simp]: "rp i = rp j \<longleftrightarrow> i = j"
  using rp_inject by auto

lemma view_rotate:
  assumes "0 < n"
  shows "chain_view base rp n (rotate n m) = None # butlast (chain_view base rp n m)"
proof -
  obtain k where n: "n = Suc k" using assms by (cases n) auto
  have "map (rotate n m) (map rp [1..<Suc n]) = m base # map m (map rp [1..<n])"
  proof (rule nth_equalityI)
    show "length (map (rotate n m) (map rp [1..<Suc n])) = length (m base # map m (map rp [1..<n]))"
      using assms by simp
  next
    fix i assume "i < length (map (rotate n m) (map rp [1..<Suc n]))"
    then have i: "i < n" by (simp del: upt_Suc)
    show "map (rotate n m) (map rp [1..<Suc n]) ! i = (m base # map m (map rp [1..<n])) ! i"
    proof (cases i)
      case 0
      with i show ?thesis using rotate_first [OF assms] by (simp del: upt_Suc)
    next
      case (Suc j)
      with i show ?thesis using rotate_next [of "Suc j" n m] by (simp del: upt_Suc)
    qed
  qed
  then show ?thesis
    using rotate_base [OF assms, of m]
    by (simp add: chain_view_def chain_slots_def n map_butlast [symmetric])
qed

lemma exists_rotate:
  "0 < n \<Longrightarrow> \<not> fs_exists (rotate n m) base"
  by (simp add: fs_exists_def rotate_base)

lemma text_slots_append:
  "chain_text base rp n m = concat (rev (map (content m \<circ> rp) [1..<Suc n])) @ content m base"
  by (simp add: chain_text_def chain_slots_def)

lemma text_rotate:
  assumes "0 < n"
  shows "suffix (chain_text base rp n (rotate n m)) (chain_text base rp n m)"
proof -
  let ?f = "\<lambda>x. case x of None \<Rightarrow> [] | Some c \<Rightarrow> c"
  have t: "chain_text base rp n m = concat (rev (map ?f (chain_view base rp n m)))" for m
    by (simp add: chain_text_def chain_view_def comp_def content_def [abs_def])
  have ne: "chain_view base rp n m \<noteq> []"
    by (simp add: chain_view_def chain_slots_def)
  have "chain_text base rp n m
      = ?f (last (chain_view base rp n m)) @ concat (rev (map ?f (butlast (chain_view base rp n m))))"
    by (subst t, subst append_butlast_last_id [OF ne, symmetric]) simp
  moreover have "chain_text base rp n (rotate n m)
      = concat (rev (map ?f (butlast (chain_view base rp n m))))"
    by (simp add: t view_rotate [OF assms])
  ultimately show ?thesis by (simp add: suffix_def)
qed

lemma text_append_base:
  "chain_text base rp n (fs_append m base s) = chain_text base rp n m @ s"
proof -
  have "map (content (fs_append m base s) \<circ> rp) xs = map (content m \<circ> rp) xs" for xs
    by (induction xs) auto
  then show ?thesis unfolding text_slots_append by (metis append.assoc content_append)
qed

lemma text_open_base:
  "chain_text base rp n (fs_open_append m base) = chain_text base rp n m"
  by (simp add: chain_text_def content_open_append [abs_def])

lemma content_rotate:
  "0 < n \<Longrightarrow> p \<in> set (chain_slots base rp n) \<Longrightarrow>
     content (rotate n m) p = [] \<or> (\<exists>q \<in> set (chain_slots base rp n). content (rotate n m) p = content m q)"
proof -
  assume n: "0 < n" and p: "p \<in> set (chain_slots base rp n)"
  then consider "p = base" | i where "p = rp i" "1 \<le> i" "i \<le> n"
    by (auto simp: chain_slots_def)
  then show ?thesis
  proof cases
    case 1
    then show ?thesis using rotate_base [OF n] by (simp add: content_def)
  next
    case (2 i)
    show ?thesis
    proof (cases "i = 1")
      case True
      then have "content (rotate n m) p = content m base"
        using 2 rotate_first [OF n] by (simp add: content_def)
      then show ?thesis by (auto simp: chain_slots_def)
    next
      case False
      then obtain j where j: "i = Suc j" "0 < j" "j < n" using 2 by (cases i) auto
      then have "content (rotate n m) p = content m (rp j)"
        using 2 rotate_next [of j n] by (simp add: content_def)
      then show ?thesis using j by (auto simp: chain_slots_def)
    qed
  qed
qed

end

section \<open>Facts about the guarded shift\<close>

lemma shift_file_at:
  assumes "src \<noteq> dst"
  shows "shift_file m src dst p =
    (if fs_exists m src then if p = src then None else if p = dst then m src else m p else m p)"
  using assms by (auto simp: shift_file_def fs_rename_def fs_remove_def fs_exists_def
      split: option.splits)

lemma shift_file_vacated:
  "src \<noteq> dst \<Longrightarrow> m dst = None \<Longrightarrow>
     shift_file m src dst = m(src := None, dst := m src)"
  by (auto simp: shift_file_at fs_exists_def fun_eq_iff)

section \<open>Shifting a range of slots\<close>

text \<open>
  Slots \<open>i, i - 1, ..., 1\<close> are moved one up, in this order.  When slot \<open>i + 1\<close> is
  vacant at the start, every slot ends up with what the slot below it held.
\<close>

fun shift_up :: "(nat \<Rightarrow> path) \<Rightarrow> nat \<Rightarrow> files \<Rightarrow> files" where
  "shift_up rp 0 m = m"
| "shift_up rp (Suc i) m = shift_up rp i (shift_file m (rp (Suc i)) (rp (Suc (Suc i))))"

lemma shift_up_other:
  assumes "inj rp" and "\<forall>j \<in> {1..Suc i}. p \<noteq> rp j"
  shows "shift_up rp i m p = m p"
  using assms(2)
proof (induction i arbitrary: m)
  case 0
  then show ?case by simp
next
  case (Suc i)
  have "rp (Suc i) \<noteq> rp (Suc (Suc i))" using assms(1) by (simp add: inj_eq)
  then have "shift_file m (rp (Suc i)) (rp (Suc (Suc i))) p = m p"
    using Suc.prems by (subst shift_file_at) auto
  then show ?case using Suc by auto
qed

lemma shift_up_first:
  assumes "inj rp"
  shows "m (rp (Suc i)) = None \<Longrightarrow> shift_up rp i m (rp (Suc 0)) = None"
proof (induction i arbitrary: m)
  case 0
  then show ?case by simp
next
  case (Suc i)
  let ?m = "shift_file m (rp (Suc i)) (rp (Suc (Suc i)))"
  have ne: "rp (Suc i) \<noteq> rp (Suc (Suc i))" using assms by (simp add: inj_eq)
  have "?m (rp (Suc i)) = None"
    using shift_file_vacated [OF ne, of m] Suc.prems ne by simp
  then show ?case by (simp add: Suc.IH)
qed

lemma shift_up_slots:
  assumes inj: "inj rp"
  shows "m (rp (Suc i)) = None \<Longrightarrow> 0 < j \<Longrightarrow> j \<le> i \<Longrightarrow> shift_up rp i m (rp (Suc j)) = m (rp j)"
proof (induction i arbitrary: m)
  case 0
  then show ?case by simp
next
  case (Suc i)
  let ?m = "shift_file m (rp (Suc i)) (rp (Suc (Suc i)))"
  have ne: "rp (Suc i) \<noteq> rp (Suc (Suc i))" using inj by (simp add: inj_eq)
  have m': "?m = m(rp (Suc i) := None, rp (Suc (Suc i)) := m (rp (Suc i)))"
    using shift_file_vacated [OF ne, of m] Suc.prems(1) by simp
  show ?case
  proof (cases "j = Suc i")
    case True
    have "shift_up rp i ?m (rp (Suc (Suc i))) = ?m (rp (Suc (Suc i)))"
      using inj by (intro shift_up_other) (auto simp: inj_eq)
    then show ?thesis using True m' by simp
  next
    case False
    have "?m (rp (Suc i)) = None" using m' ne by simp
    then have "shift_up rp i ?m (rp (Suc j)) = ?m (rp j)"
      using False Suc.prems by (intro Suc.IH) auto
    moreover have "?m (rp j) = m (rp j)"
      using m' Suc.prems False inj by (auto simp: inj_eq)
    ultimately show ?thesis by simp
  qed
qed

text \<open>
  A rotation: drop the oldest slot, shift the others, move the base to slot 1.
\<close>

definition chain_rotate :: "path \<Rightarrow> (nat \<Rightarrow> path) \<Rightarrow> nat \<Rightarrow> files \<Rightarrow> files" where
  "chain_rotate base rp n m =
     shift_file (shift_up rp (n - 1) (fs_remove m (rp n))) base (rp 1)"

lemma chain_rotate_fun:
  assumes inj: "inj rp" and nb: "\<And>i. base \<noteq> rp i" and n: "0 < n"
    and u_def: "u = shift_up rp (n - 1) (fs_remove m (rp n))"
  shows "chain_rotate base rp n m = u(base := None, rp 1 := m base)"
proof -
  have "u (rp 1) = None"
    using shift_up_first [of rp "fs_remove m (rp n)" "n - 1"] inj n
    by (simp add: u_def fs_remove_def)
  then have "chain_rotate base rp n m = u(base := None, rp 1 := u base)"
    unfolding chain_rotate_def u_def using nb by (intro shift_file_vacated)
  moreover have "u base = m base"
    using shift_up_other [OF inj, of "n - 1" base] nb by (simp add: u_def fs_remove_def)
  ultimately show ?thesis by simp
qed

lemma chain_rotate_next:
  assumes inj: "inj rp" and nb: "\<And>i. base \<noteq> rp i" and i: "0 < i" "i < n"
  shows "chain_rotate base rp n m (rp (Suc i)) = m (rp i)"
proof -
  have "rp (Suc i) \<noteq> base" "rp (Suc i) \<noteq> rp 1" using i nb [of "Suc i"] inj by (auto simp: inj_eq)
  moreover have "shift_up rp (n - 1) (fs_remove m (rp n)) (rp (Suc i)) = fs_remove m (rp n) (rp i)"
    using shift_up_slots [OF inj, of "fs_remove m (rp n)" "n - 1" i] i by (simp add: fs_remove_def)
  moreover have "fs_remove m (rp n) (rp i) = m (rp i)"
    using inj i by (auto simp: fs_remove_def inj_eq)
  ultimately show ?thesis using chain_rotate_fun [OF inj nb _ refl, of n m] i by simp
qed

lemma chain_rotate_other:
  assumes inj: "inj rp" and nb: "\<And>i. base \<noteq> rp i" and n: "0 < n"
    and p: "p \<noteq> base" "\<forall>i \<in> {1..n}. p \<noteq> rp i"
  shows "chain_rotate base rp n m p = m p"
proof -
  have "shift_up rp (n - 1) (fs_remove m (rp n)) p = fs_remove m (rp n) p"
    using shift_up_other [OF inj, of "n - 1" p] p n by simp
  moreover have "p \<noteq> rp 1" "p \<noteq> rp n" using p n by auto
  ultimately show ?thesis
    using chain_rotate_fun [OF inj nb n refl, of m] p by (simp add: fs_remove_def)
qed

lemma chain_rotate_backup_chain:
  assumes inj: "inj rp" and nb: "\<And>i. base \<noteq> rp i"
  shows "backup_chain base rp (chain_rotate base rp)"
proof unfold_locales
  show "i = j" if "rp i = rp j" for i j using that inj by (simp add: inj_eq)
  show "rp i \<noteq> base" for i using nb [of i] by simp
  show "chain_rotate base rp n m base = None" if "0 < n" for n m
    using nb that by (subst chain_rotate_fun [OF inj nb _ refl]) auto
  show "chain_rotate base rp n m (rp 1) = m base" if "0 < n" for n m
    using that by (subst chain_rotate_fun [OF inj nb _ refl]) auto
  show "chain_rotate base rp n m (rp (Suc i)) = m (rp i)" if "0 < i" "i < n" for n m i
    using that by (rule chain_rotate_next [OF inj nb])
  show "chain_rotate base rp n m p = m p"
    if "0 < n" "p \<noteq> base" "\<forall>i \<in> {1..n}. p \<noteq> rp i" for n m p
    using that by (rule chain_rotate_other [OF inj nb])
qed

end
