(* ===== verification/YamlTool.thy ===== *)
theory YamlTool
  imports Filesystem
begin

text \<open>
  The YAML access layer: \<open>private/yamltool/yamltool_p.cpp\<close> (reads, writes,
  defaults, loading and saving of a configuration tree) behind
  \<open>src/yamltool/yamltool.cpp\<close> and \<open>yamlnode.cpp\<close>, over the part of yaml-cpp it
  uses: node lookup with and without insertion (\<open>node/detail/impl.h\<close>,
  \<open>node/impl.h\<close>), conversion of scalars (\<open>node/convert.h\<close>, \<open>src/convert.cpp\<close>).

  A tree is the value a handle denotes; a handle that a failed lookup returned is
  a zombie.  Every operation returns the tree its first argument denotes
  afterwards; the nodes behind the handles and what they share are the theory
  \<open>YamlHeap\<close>, whose operations \<open>YamlRefine\<close> proves to implement those here.
\<close>

section \<open>Nodes\<close>

text \<open>\<open>NodeType\<close> with the data of each type.  \<open>YUndef\<close> is a node that a
  non-const lookup inserted and nothing was assigned to.\<close>

datatype ynode =
    YUndef
  | YNull
  | YScalar string
  | YSeq "ynode list"
  | YMap "(ynode \<times> ynode) list"

text \<open>\<open>YAML::Node\<close> as returned by a const lookup: a zombie remembers the key.\<close>

datatype yhandle = Zombie string | Live ynode

datatype yexn =
    InvalidNode string
  | BadConversion
  | BadSubscript string
  | BadPushback
  | RuntimeError string

definition is_defined :: "ynode \<Rightarrow> bool" where
  "is_defined n \<longleftrightarrow> n \<noteq> YUndef"

definition is_null :: "ynode \<Rightarrow> bool" where
  "is_null n \<longleftrightarrow> n = YNull"

definition is_scalar :: "ynode \<Rightarrow> bool" where
  "is_scalar n = (case n of YScalar _ \<Rightarrow> True | _ \<Rightarrow> False)"

definition is_map :: "ynode \<Rightarrow> bool" where
  "is_map n = (case n of YMap _ \<Rightarrow> True | _ \<Rightarrow> False)"

definition is_sequence :: "ynode \<Rightarrow> bool" where
  "is_sequence n = (case n of YSeq _ \<Rightarrow> True | _ \<Rightarrow> False)"

text \<open>\<open>Node::IsDefined\<close> and \<open>Node::Type\<close> of a handle.\<close>

definition h_defined :: "yhandle \<Rightarrow> bool" where
  "h_defined h = (case h of Zombie _ \<Rightarrow> False | Live n \<Rightarrow> is_defined n)"

definition h_is_null :: "yhandle \<Rightarrow> yexn + bool" where
  "h_is_null h = (case h of Zombie k \<Rightarrow> Inl (InvalidNode k) | Live n \<Rightarrow> Inr (is_null n))"

text \<open>\<open>node_data::size\<close>: the defined prefix of a sequence, the fully defined
  pairs of a map.\<close>

definition node_size :: "ynode \<Rightarrow> nat" where
  "node_size n = (case n of
      YSeq xs \<Rightarrow> length (takeWhile is_defined xs)
    | YMap kvs \<Rightarrow> length (filter (\<lambda>(k, v). is_defined k \<and> is_defined v) kvs)
    | _ \<Rightarrow> 0)"

section \<open>Lookup and insertion\<close>

text \<open>\<open>node::equals\<close>: only a scalar key equals a string.\<close>

definition key_is :: "string \<Rightarrow> ynode \<Rightarrow> bool" where
  "key_is k n \<longleftrightarrow> n = YScalar k"

fun kv_find :: "string \<Rightarrow> (ynode \<times> ynode) list \<Rightarrow> ynode option" where
  "kv_find k [] = None"
| "kv_find k ((a, v) # kvs) = (if key_is k a then Some v else kv_find k kvs)"

fun kv_put :: "string \<Rightarrow> ynode \<Rightarrow> (ynode \<times> ynode) list \<Rightarrow> (ynode \<times> ynode) list" where
  "kv_put k v [] = [(YScalar k, v)]"
| "kv_put k v ((a, w) # kvs) = (if key_is k a then (a, v) # kvs else (a, w) # kv_put k v kvs)"

text \<open>The const \<open>node_data::get\<close> for a string key.\<close>

definition node_get :: "ynode \<Rightarrow> string \<Rightarrow> yexn + yhandle" where
  "node_get n k = (case n of
      YMap kvs \<Rightarrow> Inr (case kv_find k kvs of Some v \<Rightarrow> Live v | None \<Rightarrow> Zombie k)
    | YUndef \<Rightarrow> Inr (Zombie k)
    | YNull \<Rightarrow> Inr (Zombie k)
    | YSeq _ \<Rightarrow> Inr (Zombie k)
    | YScalar _ \<Rightarrow> Inl (BadSubscript k))"

text \<open>The const lookup for an unsigned index.\<close>

definition node_index :: "ynode \<Rightarrow> nat \<Rightarrow> yexn + yhandle" where
  "node_index n i = (case n of
      YSeq xs \<Rightarrow> Inr (if i < length xs then Live (xs ! i) else Zombie (nat_dec i))
    | YScalar _ \<Rightarrow> Inl (BadSubscript (nat_dec i))
    | _ \<Rightarrow> Inr (Zombie (nat_dec i)))"

text \<open>\<open>convert_sequence_to_map\<close>: the elements under the keys 0, 1, ...\<close>

definition seq_to_pairs :: "ynode list \<Rightarrow> (ynode \<times> ynode) list" where
  "seq_to_pairs xs = map (\<lambda>(i, x). (YScalar (nat_dec i), x)) (enumerate 0 xs)"

text \<open>\<open>convert_to_map\<close>, the first half of the non-const \<open>node_data::get\<close>.\<close>

definition convert_to_map :: "ynode \<Rightarrow> string \<Rightarrow> yexn + (ynode \<times> ynode) list" where
  "convert_to_map n k = (case n of
      YMap kvs \<Rightarrow> Inr kvs
    | YUndef \<Rightarrow> Inr []
    | YNull \<Rightarrow> Inr []
    | YSeq xs \<Rightarrow> Inr (seq_to_pairs xs)
    | YScalar _ \<Rightarrow> Inl (BadSubscript k))"

text \<open>\<open>node[key]\<close> on a non-const node: a missing key is inserted with an undefined
  value.  An undefined node stays undefined until something is assigned.\<close>

definition node_touch :: "ynode \<Rightarrow> string \<Rightarrow> yexn + ynode \<times> ynode" where
  "node_touch n k = rbind (convert_to_map n k) (\<lambda>kvs.
     case kv_find k kvs of
       Some v \<Rightarrow> Inr (v, YMap kvs)
     | None \<Rightarrow> Inr (YUndef, if is_defined n then YMap (kv_put k YUndef kvs) else n))"

text \<open>\<open>node[key] = value\<close>.\<close>

definition node_assign :: "ynode \<Rightarrow> string \<Rightarrow> ynode \<Rightarrow> yexn + ynode" where
  "node_assign n k v = rbind (convert_to_map n k) (\<lambda>kvs. Inr (YMap (kv_put k v kvs)))"

definition node_push_back :: "ynode \<Rightarrow> ynode \<Rightarrow> yexn + ynode" where
  "node_push_back n v = (case n of
      YUndef \<Rightarrow> Inr (YSeq [v])
    | YNull \<Rightarrow> Inr (YSeq [v])
    | YSeq xs \<Rightarrow> Inr (YSeq (xs @ [v]))
    | _ \<Rightarrow> Inl BadPushback)"

section \<open>Scalars\<close>

text \<open>\<open>isspace\<close> in the classic locale.\<close>

definition is_space :: "char \<Rightarrow> bool" where
  "is_space c \<longleftrightarrow> (of_char c :: nat) = 32 \<or> (9 \<le> (of_char c :: nat) \<and> (of_char c :: nat) \<le> 13)"

definition base_digit :: "nat \<Rightarrow> char \<Rightarrow> nat option" where
  "base_digit b c = (let o' = (of_char c :: nat);
      d = (if is_digit c then o' - 48
           else if ascii_lower c then o' - 87
           else if ascii_upper c then o' - 55
           else 255)
     in if d < b then Some d else None)"

fun base_digits :: "nat \<Rightarrow> nat \<Rightarrow> string \<Rightarrow> nat \<times> string" where
  "base_digits b acc [] = (acc, [])"
| "base_digits b acc (c # cs) = (case base_digit b c of
      Some d \<Rightarrow> base_digits b (acc * b + d) cs
    | None \<Rightarrow> (acc, c # cs))"

text \<open>An integer extracted with no base set: \<open>0x\<close> is hexadecimal, a leading 0
  octal.  \<open>None\<close> when no number could be read.\<close>

definition read_magnitude :: "string \<Rightarrow> (nat \<times> string) option" where
  "read_magnitude s = (case s of
      [] \<Rightarrow> None
    | c # cs \<Rightarrow>
        if c = CHR ''0'' then
          (case cs of
             x # hs \<Rightarrow>
               if x = CHR ''x'' \<or> x = CHR ''X'' then
                 (case hs of
                    h # _ \<Rightarrow> if base_digit 16 h = None then None else Some (base_digits 16 0 hs)
                  | [] \<Rightarrow> None)
               else Some (base_digits 8 0 cs)
           | [] \<Rightarrow> Some (0, []))
        else if base_digit 10 c = None then None
        else Some (base_digits 10 0 s))"

definition split_sign :: "string \<Rightarrow> bool \<times> string" where
  "split_sign s = (case s of
      c # cs \<Rightarrow> if c = CHR ''-'' then (True, cs)
                else if c = CHR ''+'' then (False, cs) else (False, s)
    | [] \<Rightarrow> (False, []))"

text \<open>\<open>convert<int>::decode\<close>: the whole scalar but trailing blanks, within 32 bits.\<close>

definition decode_int :: "string \<Rightarrow> int option" where
  "decode_int s = (case split_sign s of (neg, r) \<Rightarrow>
     case read_magnitude r of
       None \<Rightarrow> None
     | Some (m, rest) \<Rightarrow>
         let v = (if neg then - int m else int m)
         in if - (2 ^ 31) \<le> v \<and> v < 2 ^ 31 \<and> list_all is_space rest then Some v else None)"

definition is_flexible_case :: "string \<Rightarrow> bool" where
  "is_flexible_case s \<longleftrightarrow> (case s of
      [] \<Rightarrow> True
    | c # rest \<Rightarrow> list_all ascii_lower s
        \<or> (ascii_upper c \<and> (list_all ascii_lower rest \<or> list_all ascii_upper rest)))"

definition bool_names :: "(string \<times> string) list" where
  "bool_names = [(''y'', ''n''), (''yes'', ''no''), (''true'', ''false''), (''on'', ''off'')]"

fun bool_lookup :: "string \<Rightarrow> (string \<times> string) list \<Rightarrow> bool option" where
  "bool_lookup s [] = None"
| "bool_lookup s ((t, f) # ns) =
     (if t = s then Some True else if f = s then Some False else bool_lookup s ns)"

definition decode_bool :: "string \<Rightarrow> bool option" where
  "decode_bool s = (if is_flexible_case s then bool_lookup (map to_lower s) bool_names else None)"

section \<open>The type registry\<close>

text \<open>The dynamically typed values the layer passes around.  \<open>AOther\<close> stands for a
  type nobody registered; the registered \<open>double\<close> is left out.\<close>

datatype aval = AInt int | ABool bool | AStr string | AOther string

text \<open>The type of the default or of the value, as \<open>std::any::type\<close> reports it.\<close>

datatype atype = TInt | TBool | TStr | TOther string

definition any_type :: "aval \<Rightarrow> atype" where
  "any_type a = (case a of AInt _ \<Rightarrow> TInt | ABool _ \<Rightarrow> TBool | AStr _ \<Rightarrow> TStr | AOther t \<Rightarrow> TOther t)"

definition conv_result :: "('a \<Rightarrow> aval) \<Rightarrow> 'a option \<Rightarrow> yexn + aval" where
  "conv_result f r = (case r of Some v \<Rightarrow> Inr (f v) | None \<Rightarrow> Inl BadConversion)"

text \<open>\<open>node.as<T>()\<close> on a live handle, by way of the registered reader.\<close>

definition registry_read :: "yhandle \<Rightarrow> atype \<Rightarrow> yexn + aval" where
  "registry_read h t = (case t of
      TOther name \<Rightarrow> Inl (RuntimeError (''unsupported type in read: '' @ name))
    | _ \<Rightarrow> (case h of
        Zombie k \<Rightarrow> Inl (InvalidNode k)
      | Live n \<Rightarrow> (case t of
            TInt \<Rightarrow> conv_result AInt (case n of YScalar s \<Rightarrow> decode_int s | _ \<Rightarrow> None)
          | TBool \<Rightarrow> conv_result ABool (case n of YScalar s \<Rightarrow> decode_bool s | _ \<Rightarrow> None)
          | _ \<Rightarrow> (case n of
                YUndef \<Rightarrow> Inl (InvalidNode [])
              | YNull \<Rightarrow> Inr (AStr ''null'')
              | YScalar s \<Rightarrow> Inr (AStr s)
              | _ \<Rightarrow> Inl BadConversion))))"

text \<open>The scalar a registered writer stores; \<open>None\<close> for an unregistered type.\<close>

definition encode_any :: "aval \<Rightarrow> string option" where
  "encode_any a = (case a of
      AInt i \<Rightarrow> Some (int_dec i)
    | ABool b \<Rightarrow> Some (if b then ''true'' else ''false'')
    | AStr s \<Rightarrow> Some s
    | AOther _ \<Rightarrow> None)"

definition registry_write :: "ynode \<Rightarrow> string \<Rightarrow> aval \<Rightarrow> yexn + ynode" where
  "registry_write n k a = (case encode_any a of
      Some s \<Rightarrow> node_assign n k (YScalar s)
    | None \<Rightarrow> Inl (RuntimeError (''unsupported type in write: ''
                 @ (case a of AOther t \<Rightarrow> t | _ \<Rightarrow> []))))"

section \<open>The operations of the tool\<close>

text \<open>\<open>return def\<close> on \<open>InvalidNode\<close>, a \<open>runtime_error\<close> on \<open>BadConversion\<close>; any
  other exception passes through.  The text of the inner exception, a place in the
  file, that the code appends in parentheses is left out.\<close>

definition catch_get :: "string \<Rightarrow> aval \<Rightarrow> yexn + aval \<Rightarrow> yexn + aval" where
  "catch_get key d r = (case r of
      Inl (InvalidNode _) \<Rightarrow> Inr d
    | Inl BadConversion \<Rightarrow> Inl (RuntimeError (''wrong type for key: '' @ key))
    | _ \<Rightarrow> r)"

definition get_def_p :: "ynode \<Rightarrow> string \<Rightarrow> aval \<Rightarrow> yexn + aval" where
  "get_def_p n key d = catch_get key d
     (rbind (node_get n key) (\<lambda>h.
      rbind (h_is_null h) (\<lambda>b.
        if b \<or> \<not> h_defined h then Inr d else registry_read h (any_type d))))"

text \<open>\<open>YamlTool::_getDef\<close>: a null node gives the default without a lookup.\<close>

definition get_def :: "ynode \<Rightarrow> string \<Rightarrow> aval \<Rightarrow> yexn + aval" where
  "get_def n key d = (if \<not> is_null n then get_def_p n key d else Inr d)"

definition set_any :: "ynode \<Rightarrow> string \<Rightarrow> aval \<Rightarrow> yexn + ynode" where
  "set_any n key a =
     (if \<not> is_defined n then Inl (RuntimeError ''invalid node'') else registry_write n key a)"

text \<open>\<open>_setDef\<close>: whether something was written, and the tree.\<close>

definition set_def :: "ynode \<Rightarrow> string \<Rightarrow> aval \<Rightarrow> yexn + bool \<times> ynode" where
  "set_def n key a = rbind (node_touch n key) (\<lambda>(child, n').
     if is_defined child \<and> is_scalar child then
       (case registry_read (Live child) (any_type a) of
          Inr _ \<Rightarrow> Inr (False, n')
        | Inl _ \<Rightarrow> Inl (RuntimeError (''wrong type for key: '' @ key)))
     else rbind (set_any n' key a) (\<lambda>n''. Inr (True, n'')))"

definition set_null :: "ynode \<Rightarrow> string \<Rightarrow> yexn + ynode" where
  "set_null n key = node_assign n key YNull"

definition set_null_def :: "ynode \<Rightarrow> string \<Rightarrow> yexn + bool \<times> ynode" where
  "set_null_def n key = rbind (node_touch n key) (\<lambda>(child, n').
     if is_defined child then Inr (False, n')
     else rbind (node_assign n' key YNull) (\<lambda>n''. Inr (True, n'')))"

definition add_node :: "ynode \<Rightarrow> string \<Rightarrow> ynode \<Rightarrow> yexn + ynode" where
  "add_node n key v =
     (if \<not> is_defined n \<or> \<not> is_defined v then Inl (RuntimeError ''invalid node'')
      else node_assign n key v)"

definition push_back :: "ynode \<Rightarrow> ynode \<Rightarrow> yexn + ynode" where
  "push_back n v =
     (if \<not> is_defined n \<or> \<not> is_defined v then Inl (RuntimeError ''invalid node'')
      else node_push_back n v)"

text \<open>\<open>getNode\<close> and \<open>getSequenceNode\<close> return a fresh null node when there is
  nothing to return.\<close>

definition live_or_null :: "yhandle \<Rightarrow> ynode" where
  "live_or_null h = (case h of Live n \<Rightarrow> if is_defined n then n else YNull | Zombie _ \<Rightarrow> YNull)"

definition get_node :: "ynode \<Rightarrow> string \<Rightarrow> yexn + ynode" where
  "get_node n name =
     (if \<not> is_null n \<and> is_defined n
      then rbind (node_get n name) (\<lambda>h. Inr (live_or_null h)) else Inr YNull)"

definition get_sequence_node :: "ynode \<Rightarrow> nat \<Rightarrow> yexn + ynode" where
  "get_sequence_node n i =
     (if \<not> is_null n \<and> is_defined n \<and> is_sequence n \<and> i < node_size n
      then rbind (node_index n i) (\<lambda>h. Inr (live_or_null h)) else Inr YNull)"

section \<open>Files\<close>

text \<open>\<open>YAML::LoadFile\<close>: the parser answers with an error, with no document at all,
  or with a tree; no document becomes a default-constructed (null) node.\<close>

definition yaml_load_file ::
  "(string \<Rightarrow> string + ynode option) \<Rightarrow> files \<Rightarrow> string \<Rightarrow> yexn + ynode" where
  "yaml_load_file parse fs path = (case fs path of
      None \<Rightarrow> Inl (RuntimeError (''bad file: '' @ path))
    | Some text \<Rightarrow> (case parse text of
          Inl what \<Rightarrow> Inl (RuntimeError what)
        | Inr None \<Rightarrow> Inr YNull
        | Inr (Some n) \<Rightarrow> Inr n))"

text \<open>\<open>loadFile\<close>: the success flag and the caller's node afterwards.\<close>

definition load_file ::
  "(string \<Rightarrow> string + ynode option) \<Rightarrow> files \<Rightarrow> ynode \<Rightarrow> string \<Rightarrow> bool \<times> ynode" where
  "load_file parse fs node path = (case yaml_load_file parse fs path of
      Inl _ \<Rightarrow> (False, node)
    | Inr n \<Rightarrow> if \<not> is_defined n then (False, n) else (True, n))"

text \<open>\<open>saveAsFile\<close>.  A stream that could not be opened discards the text without an
  exception; \<open>writable\<close> tells which paths can be opened.\<close>

definition save_as_file ::
  "(ynode \<Rightarrow> string) \<Rightarrow> (string \<Rightarrow> bool) \<Rightarrow> files \<Rightarrow> ynode \<Rightarrow> string \<Rightarrow> yexn + files" where
  "save_as_file emit writable fs n path =
     (if \<not> is_defined n \<or> is_null n
      then Inl (RuntimeError ''failed to save config file: node is invalid'')
      else Inr (if writable path then fs(path \<mapsto> emit n) else fs))"

section \<open>Scalars: decoding is a left inverse of encoding\<close>

lemma base_digit_dec: "is_digit c \<Longrightarrow> base_digit 10 c = Some (digit_val c)"
  by (auto simp: base_digit_def digit_val_def is_digit_def Let_def)

lemma base_digits_dec:
  "list_all is_digit s \<Longrightarrow>
     base_digits 10 acc s = (foldl (\<lambda>a c. a * 10 + digit_val c) acc s, [])"
  by (induction s arbitrary: acc) (auto simp: base_digit_dec)

lemma list_all_nat_dec [simp]: "list_all is_digit (nat_dec n)"
  by (simp add: list_all_iff nat_dec_digits)

lemma base_digits_nat_dec [simp]: "base_digits 10 0 (nat_dec n) = (n, [])"
  using dec_val_nat_dec [of n] by (simp add: base_digits_dec dec_val_def)

lemma digit_char_0 [simp]: "digit_char 0 = CHR ''0''"
  by (simp add: digit_char_def char_of_def bit_0)

lemma digit_char_zero: "d < 10 \<Longrightarrow> digit_char d = CHR ''0'' \<longleftrightarrow> d = 0"
  using digit_val_digit_char [of d] by (auto simp: digit_val_def)

lemma hd_nat_dec: "0 < n \<Longrightarrow> hd (nat_dec n) \<noteq> CHR ''0''"
proof (induction n rule: nat_dec.induct)
  case (1 n)
  then show ?case
    by (cases "n < 10") (simp_all add: nat_dec.simps [of n] digit_char_zero hd_append)
qed

lemma nat_dec_zero: "nat_dec 0 = ''0''"
  by (simp add: nat_dec.simps [of 0])

lemma nat_dec_Cons: "\<exists>c cs. nat_dec n = c # cs \<and> is_digit c \<and> (0 < n \<longrightarrow> c \<noteq> CHR ''0'')"
proof (cases "nat_dec n")
  case Nil
  then show ?thesis by simp
next
  case (Cons c cs)
  then show ?thesis using nat_dec_digits [of c n] hd_nat_dec [of n] by auto
qed

lemma read_magnitude_nat_dec: "read_magnitude (nat_dec n) = Some (n, [])"
proof (cases "n = 0")
  case True
  then show ?thesis by (simp add: nat_dec_zero read_magnitude_def)
next
  case False
  obtain c cs where "nat_dec n = c # cs" "is_digit c" "c \<noteq> CHR ''0''"
    using nat_dec_Cons [of n] False by auto
  moreover have "base_digits 10 0 (c # cs) = (n, [])"
    using base_digits_nat_dec [of n] \<open>nat_dec n = c # cs\<close> by simp
  ultimately show ?thesis
    by (simp add: read_magnitude_def base_digit_dec del: base_digits.simps)
qed

lemma split_sign_int_dec:
  "split_sign (int_dec i) = (i < 0, nat_dec (nat \<bar>i\<bar>))"
proof -
  obtain c cs where "nat_dec (nat i) = c # cs" "is_digit c"
    using nat_dec_Cons [of "nat i"] by auto
  moreover have "c \<noteq> CHR ''-''" "c \<noteq> CHR ''+''"
    using \<open>is_digit c\<close> by (auto simp: is_digit_def)
  ultimately show ?thesis by (simp add: split_sign_def int_dec_def)
qed

lemma decode_int_dec:
  "- (2 ^ 31) \<le> i \<Longrightarrow> i < 2 ^ 31 \<Longrightarrow> decode_int (int_dec i) = Some i"
  by (simp add: decode_int_def split_sign_int_dec read_magnitude_nat_dec Let_def)

lemma decode_int_range: "decode_int s = Some i \<Longrightarrow> - (2 ^ 31) \<le> i \<and> i < 2 ^ 31"
  by (auto simp: decode_int_def Let_def split: prod.splits option.splits if_splits)

lemma decode_bool_encode [simp]:
  "decode_bool ''true'' = Some True"
  "decode_bool ''false'' = Some False"
  by (simp_all add: decode_bool_def bool_names_def is_flexible_case_def
      ascii_lower_def ascii_upper_def to_lower_def)

section \<open>Maps\<close>

lemma kv_find_put [simp]:
  "kv_find k (kv_put k' v kvs) = (if k = k' then Some v else kv_find k kvs)"
  by (induction kvs rule: kv_find.induct) (auto simp: key_is_def)

lemma kv_put_put [simp]: "kv_put k w (kv_put k v kvs) = kv_put k w kvs"
  by (induction kvs rule: kv_find.induct) (auto simp: key_is_def)

lemma kv_put_same: "kv_find k kvs = Some v \<Longrightarrow> kv_put k v kvs = kvs"
  by (induction kvs rule: kv_find.induct) (auto simp: key_is_def split: if_splits)

lemma kv_find_seq:
  "kv_find (nat_dec i) (map (\<lambda>(i, x). (YScalar (nat_dec i), x)) (enumerate m xs)) =
     (if m \<le> i \<and> i < m + length xs then Some (xs ! (i - m)) else None)"
proof (induction xs arbitrary: m)
  case Nil
  then show ?case by simp
next
  case (Cons x xs)
  show ?case
  proof (cases "i = m")
    case True
    then show ?thesis by (simp add: key_is_def)
  next
    case False
    then have "(x # xs) ! (i - m) = xs ! (i - Suc m)" if "m \<le> i"
      using that by (simp add: nth_Cons')
    with False show ?thesis by (auto simp: key_is_def Cons.IH)
  qed
qed

lemma seq_to_pairs_find:
  "kv_find (nat_dec i) (seq_to_pairs xs) = (if i < length xs then Some (xs ! i) else None)"
  by (simp add: seq_to_pairs_def kv_find_seq)

section \<open>Reading with a default\<close>

text \<open>What a tree holds under a key, seen by a reader: nothing, or a defined value
  other than null.\<close>

definition field :: "ynode \<Rightarrow> string \<Rightarrow> ynode option" where
  "field n key = (case n of
      YMap kvs \<Rightarrow> (case kv_find key kvs of
          Some v \<Rightarrow> if v = YUndef \<or> v = YNull then None else Some v
        | None \<Rightarrow> None)
    | _ \<Rightarrow> None)"

definition read_error :: "string \<Rightarrow> aval \<Rightarrow> yexn" where
  "read_error key d = (case any_type d of
      TOther t \<Rightarrow> RuntimeError (''unsupported type in read: '' @ t)
    | _ \<Rightarrow> RuntimeError (''wrong type for key: '' @ key))"

lemma registry_read_type: "registry_read h t = Inr v \<Longrightarrow> any_type v = t"
  by (auto simp: registry_read_def conv_result_def any_type_def
      split: atype.splits yhandle.splits ynode.splits option.splits)

lemma registry_read_live_error:
  "v \<noteq> YUndef \<Longrightarrow> registry_read (Live v) t = Inl e \<Longrightarrow>
     (case t of TOther name \<Rightarrow> e = RuntimeError (''unsupported type in read: '' @ name)
      | _ \<Rightarrow> e = BadConversion)"
  by (auto simp: registry_read_def conv_result_def
      split: atype.splits yhandle.splits ynode.splits option.splits)

lemma catch_get_simps [simp]:
  "catch_get key d (Inr v) = Inr v"
  "catch_get key d (Inl (InvalidNode k)) = Inr d"
  "catch_get key d (Inl BadConversion) = Inl (RuntimeError (''wrong type for key: '' @ key))"
  "catch_get key d (Inl (RuntimeError m)) = Inl (RuntimeError m)"
  "catch_get key d (Inl (BadSubscript m)) = Inl (BadSubscript m)"
  by (simp_all add: catch_get_def)

lemma catch_get_read:
  "v \<noteq> YUndef \<Longrightarrow> catch_get key d (registry_read (Live v) (any_type d)) =
     (case registry_read (Live v) (any_type d) of Inr w \<Rightarrow> Inr w | Inl _ \<Rightarrow> Inl (read_error key d))"
  using registry_read_live_error [of v "any_type d"]
  by (cases "registry_read (Live v) (any_type d)")
     (auto simp: read_error_def split: atype.splits)

lemma get_def_eq:
  "get_def n key d =
     (if is_scalar n then Inl (BadSubscript key)
      else case field n key of
          None \<Rightarrow> Inr d
        | Some v \<Rightarrow> (case registry_read (Live v) (any_type d) of
              Inr w \<Rightarrow> Inr w | Inl _ \<Rightarrow> Inl (read_error key d)))"
  by (cases n) (auto simp: get_def_def get_def_p_def node_get_def is_null_def is_scalar_def
      field_def h_is_null_def h_defined_def is_defined_def catch_get_read
      split: option.splits if_splits)

text \<open>
  A read with a default answers in the type of the default whenever it
  answers (the cast in \<open>getDef\<close> cannot fail), answers with the default
  exactly when nothing but null is stored, and fails in two ways only: the
  node is a scalar, and then yaml-cpp's own exception escapes, or the stored
  value cannot be read in the default's type, and then it is a
  \<open>runtime_error\<close> naming the key (or the unregistered type).
\<close>
theorem get_def_outcomes:
  "(case get_def n key d of
      Inr v \<Rightarrow> any_type v = any_type d \<and> \<not> is_scalar n
        \<and> (case field n key of
              None \<Rightarrow> v = d
            | Some w \<Rightarrow> registry_read (Live w) (any_type d) = Inr v)
    | Inl e \<Rightarrow> (is_scalar n \<and> e = BadSubscript key)
        \<or> (\<exists>w x. field n key = Some w \<and> registry_read (Live w) (any_type d) = Inl x
            \<and> e = read_error key d))"
  by (auto simp: get_def_eq registry_read_type split: option.splits sum.splits)

section \<open>Writing\<close>

text \<open>Values the layer can store: registered types, integers of 32 bits.\<close>

definition storable :: "aval \<Rightarrow> bool" where
  "storable a = (case a of AInt i \<Rightarrow> - (2 ^ 31) \<le> i \<and> i < 2 ^ 31 | AOther _ \<Rightarrow> False | _ \<Rightarrow> True)"

lemma registry_read_encode:
  "storable a \<Longrightarrow> encode_any a = Some s \<Longrightarrow> registry_read (Live (YScalar s)) (any_type a) = Inr a"
  by (cases a) (auto simp: storable_def encode_any_def any_type_def registry_read_def
      conv_result_def decode_int_dec split: if_splits)

lemma storable_encode: "storable a \<Longrightarrow> \<exists>s. encode_any a = Some s"
  by (cases a) (simp_all add: storable_def encode_any_def)

lemma field_put:
  "field (YMap (kv_put key v kvs)) k =
     (if k = key then (if v = YUndef \<or> v = YNull then None else Some v) else field (YMap kvs) k)"
  by (simp add: field_def)

lemma convert_to_map_field:
  "\<not> is_sequence n \<Longrightarrow> convert_to_map n k = Inr kvs \<Longrightarrow> field (YMap kvs) j = field n j"
  by (cases n) (auto simp: convert_to_map_def is_sequence_def field_def)

lemma convert_to_map_not_scalar: "convert_to_map n k = Inr kvs \<Longrightarrow> \<not> is_scalar n"
  by (cases n) (auto simp: convert_to_map_def is_scalar_def)

lemma get_def_map: "get_def (YMap kvs) key d =
     (case field (YMap kvs) key of
          None \<Rightarrow> Inr d
        | Some v \<Rightarrow> (case registry_read (Live v) (any_type d) of
              Inr w \<Rightarrow> Inr w | Inl _ \<Rightarrow> Inl (read_error key d)))"
  by (simp add: get_def_eq is_scalar_def)

lemma get_def_cong: "\<not> is_scalar n \<Longrightarrow> field m k = field n k \<Longrightarrow> \<not> is_scalar m \<Longrightarrow> get_def m k d = get_def n k d"
  by (simp add: get_def_eq)

lemma get_def_put:
  assumes "storable a" and "encode_any a = Some s" and "any_type d = any_type a"
  shows "get_def (YMap (kv_put key (YScalar s) kvs)) key d = Inr a"
  using assms registry_read_encode [of a s] by (simp add: get_def_map field_put)

lemma set_any_eq:
  assumes "storable a" and "set_any n key a = Inr n'"
  obtains kvs s where "encode_any a = Some s" and "convert_to_map n key = Inr kvs"
    and "n' = YMap (kv_put key (YScalar s) kvs)"
  using assms storable_encode [OF assms(1)]
  by (auto simp: set_any_def registry_write_def node_assign_def result_simps split: if_splits)

text \<open>
  C25. A stored value reads back: after \<open>_set\<close> of a 32-bit integer, a boolean or a
  string, every read of that key with a default of the same type returns the
  value, every other key reads as before (unless the node was a sequence, whose
  elements move to the keys 0, 1, ...), and a second \<open>_set\<close> replaces the first.
\<close>
theorem set_get:
  assumes "storable a" and "set_any n key a = Inr n'" and "any_type d = any_type a"
  shows "get_def n' key d = Inr a
    \<and> (\<not> is_sequence n \<longrightarrow> (\<forall>k e. k \<noteq> key \<longrightarrow> get_def n' k e = get_def n k e))
    \<and> (\<forall>xs i. n = YSeq xs \<and> i < length xs \<and> nat_dec i \<noteq> key \<longrightarrow>
          get_node n' (nat_dec i) = Inr (if is_defined (xs ! i) then xs ! i else YNull))
    \<and> set_any n' key b = set_any n key b"
proof -
  obtain kvs s where *: "encode_any a = Some s" "convert_to_map n key = Inr kvs"
      "n' = YMap (kv_put key (YScalar s) kvs)"
    using set_any_eq [OF assms(1,2)] by blast
  have "get_def n' key d = Inr a"
    using * assms get_def_put by simp
  moreover have "get_def n' k e = get_def n k e" if "\<not> is_sequence n" "k \<noteq> key" for k e
    using * that convert_to_map_field [OF that(1) *(2)] convert_to_map_not_scalar [OF *(2)]
    by (simp add: get_def_eq field_put is_scalar_def)
  moreover have "get_node n' (nat_dec i) = Inr (if is_defined (xs ! i) then xs ! i else YNull)"
    if "n = YSeq xs" "i < length xs" "nat_dec i \<noteq> key" for xs i
    using * that by (auto simp: convert_to_map_def get_node_def node_get_def is_null_def
        is_defined_def live_or_null_def seq_to_pairs_find)
  moreover have "set_any n' key b = set_any n key b"
    using * assms(2) by (simp add: set_any_def registry_write_def node_assign_def
        is_defined_def convert_to_map_def split: option.splits if_splits)
  ultimately show ?thesis by blast
qed

theorem set_get_witness:
  "get_def (YMap [(YScalar ''a'', YNull), (YScalar ''size'', YScalar ''-42'')]) ''size'' (AInt 7)
     = Inr (AInt (-42))"
proof -
  have "set_any (YMap [(YScalar ''a'', YNull)]) ''size'' (AInt (-42))
      = Inr (YMap [(YScalar ''a'', YNull), (YScalar ''size'', YScalar ''-42'')])"
    by (simp add: set_any_def is_defined_def registry_write_def encode_any_def node_assign_def
        convert_to_map_def key_is_def int_dec_def) code_simp
  from set_get [OF _ this, of "AInt 7"] show ?thesis
    by (simp add: storable_def any_type_def)
qed

lemma node_touch_cases:
  assumes "node_touch n key = Inr (c, n')"
  obtains kvs where "convert_to_map n key = Inr kvs" "kv_find key kvs = Some c" "n' = YMap kvs"
  | kvs where "convert_to_map n key = Inr kvs" "kv_find key kvs = None" "c = YUndef"
      "n' = (if is_defined n then YMap (kv_put key YUndef kvs) else n)"
proof -
  from assms obtain kvs where k: "convert_to_map n key = Inr kvs"
    by (auto simp: node_touch_def result_simps)
  show thesis
  proof (cases "kv_find key kvs")
    case None
    with k assms show thesis by (intro that(2) [OF k None]) (auto simp: node_touch_def)
  next
    case (Some v)
    with k assms show thesis by (intro that(1) [OF k]) (auto simp: node_touch_def)
  qed
qed

lemma set_def_scalar:
  "field (YMap kvs) key = Some (YScalar s) \<Longrightarrow> set_def (YMap kvs) key b =
     (case registry_read (Live (YScalar s)) (any_type b) of
        Inr _ \<Rightarrow> Inr (False, YMap kvs)
      | Inl _ \<Rightarrow> Inl (RuntimeError (''wrong type for key: '' @ key)))"
  by (auto simp: set_def_def node_touch_def convert_to_map_def field_def is_defined_def
      is_scalar_def split: option.splits if_splits sum.splits)

text \<open>
  C26. \<open>_setDef\<close> is a default: it writes exactly when the key holds no scalar,
  afterwards the key reads as the default or as what was there, in the type of
  the default, and repeating the call with any default of that type changes
  nothing.  A scalar of another type is not overwritten but reported as an error
  (the comment on \<open>setDef\<close> says it is written over).
\<close>
theorem set_def_is_default:
  assumes "storable a" and "set_def n key a = Inr (w, n')" and "any_type b = any_type a"
  shows "(\<exists>v. get_def n' key b = Inr v \<and> any_type v = any_type a \<and> (w \<longrightarrow> v = a))
    \<and> set_def n' key b = Inr (False, n')
    \<and> (is_map n \<and> \<not> w \<longrightarrow> n' = n)
    \<and> (is_map n \<longrightarrow> (w \<longleftrightarrow> \<not> (\<exists>s. field n key = Some (YScalar s))))
    \<and> (field n key = Some (YScalar t) \<and> registry_read (Live (YScalar t)) (any_type c) = Inl x \<longrightarrow>
         set_def n key c = Inl (RuntimeError (''wrong type for key: '' @ key)))"
proof -
  obtain c0 n0 where t: "node_touch n key = Inr (c0, n0)"
    and rest: "(if is_defined c0 \<and> is_scalar c0 then
       (case registry_read (Live c0) (any_type a) of
          Inr _ \<Rightarrow> Inr (False, n0)
        | Inl _ \<Rightarrow> Inl (RuntimeError (''wrong type for key: '' @ key)))
     else rbind (set_any n0 key a) (\<lambda>n''. Inr (True, n''))) = Inr (w, n')"
    using assms(2) by (auto simp: set_def_def result_simps)
  have err: "set_def n key c = Inl (RuntimeError (''wrong type for key: '' @ key))"
    if "field n key = Some (YScalar t)" "registry_read (Live (YScalar t)) (any_type c) = Inl x"
    using that set_def_scalar [of _ key t c] by (cases n) (auto simp: field_def)
  show ?thesis
  proof (cases "is_defined c0 \<and> is_scalar c0")
    case True
    then obtain s where c0: "c0 = YScalar s" by (cases c0) (auto simp: is_scalar_def)
    from t obtain kvs where k: "convert_to_map n key = Inr kvs" "kv_find key kvs = Some (YScalar s)"
        "n0 = YMap kvs"
      by (rule node_touch_cases) (auto simp: c0)
    from True rest c0 obtain v where v: "registry_read (Live (YScalar s)) (any_type a) = Inr v"
        and w: "\<not> w" "n' = YMap kvs"
      by (auto simp: k split: sum.splits)
    have f: "field (YMap kvs) key = Some (YScalar s)" by (simp add: field_def k)
    have m: "is_map n \<longrightarrow> n = YMap kvs"
      using k(1) by (cases n) (auto simp: convert_to_map_def is_map_def)
    have "get_def n' key b = Inr v" using v f assms(3) by (simp add: w get_def_map)
    moreover have "any_type v = any_type a" using v by (rule registry_read_type)
    moreover have "set_def n' key b = Inr (False, n')"
      using set_def_scalar [OF f, of b] v assms(3) by (simp add: w)
    ultimately show ?thesis using err w m f by auto
  next
    case False
    with rest have s: "set_any n0 key a = Inr n'" and w: w by (auto simp: result_simps)
    obtain kvs s where *: "encode_any a = Some s" "n' = YMap (kv_put key (YScalar s) kvs)"
      using set_any_eq [OF assms(1) s] by metis
    have f: "field n' key = Some (YScalar s)" by (simp add: * field_put)
    have "\<not> (\<exists>s. field n key = Some (YScalar s))" if "is_map n"
      using t False that
      by (elim node_touch_cases; cases n)
         (auto simp: convert_to_map_def is_map_def field_def is_defined_def is_scalar_def
           split: option.splits if_splits)
    moreover have "get_def n' key b = Inr a"
      using * assms get_def_put by simp
    moreover have "set_def n' key b = Inr (False, n')"
      using set_def_scalar [of "kv_put key (YScalar s) kvs" key s b] f
        registry_read_encode [OF assms(1) *(1)] assms(3) by (simp add: *(2))
    ultimately show ?thesis using err w by auto
  qed
qed

theorem set_def_is_default_witness:
  "set_def (YMap [(YScalar ''level'', YScalar ''0x10'')]) ''level'' (AInt 3)
     = Inr (False, YMap [(YScalar ''level'', YScalar ''0x10'')])"
proof -
  have "set_def (YMap [(YScalar ''level'', YScalar ''0x10'')]) ''level'' (AInt 5)
      = Inr (False, YMap [(YScalar ''level'', YScalar ''0x10'')])"
    by code_simp
  from set_def_is_default [OF _ this, of "AInt 3"] show ?thesis
    by (simp add: storable_def any_type_def)
qed

section \<open>Loading and saving\<close>

text \<open>
  \<open>loadFile\<close> succeeds exactly when the file exists and parses, and otherwise
  leaves the caller's node alone; a tree that was saved loads again as itself
  when the parser reads what the emitter wrote.  The check for an empty document
  never fires: a file without a document loads successfully, as a null node.
\<close>
theorem load_file_outcomes:
  assumes "\<And>t. parse t \<noteq> Inr (Some YUndef)"
  shows "load_file parse fs m p =
      (case fs p of
         None \<Rightarrow> (False, m)
       | Some t \<Rightarrow> (case parse t of
             Inl _ \<Rightarrow> (False, m) | Inr None \<Rightarrow> (True, YNull) | Inr (Some n) \<Rightarrow> (True, n)))
    \<and> (writable p \<and> parse (emit n) = Inr (Some n) \<and> save_as_file emit writable fs n p = Inr fs' \<longrightarrow>
         load_file parse fs' m p = (True, n))
    \<and> (save_as_file emit writable fs n p = Inr fs' \<longrightarrow> (\<forall>q. q \<noteq> p \<longrightarrow> fs' q = fs q))"
  using assms
  by (auto simp: load_file_def yaml_load_file_def save_as_file_def is_defined_def
      split: option.splits sum.splits if_splits)

theorem load_file_outcomes_witness:
  "load_file (\<lambda>t. if t = [] then Inr None else Inr (Some (YScalar t)))
     [''a.yaml'' \<mapsto> ''x'', ''b.yaml'' \<mapsto> []] (YScalar ''old'') ''b.yaml'' = (True, YNull)"
  using load_file_outcomes [of "\<lambda>t. if t = [] then Inr None else Inr (Some (YScalar t))"
      "[''a.yaml'' \<mapsto> ''x'', ''b.yaml'' \<mapsto> []]" "YScalar ''old''" "''b.yaml''"]
  by simp

end
