(* ===== verification/YamlHeap.thy ===== *)
theory YamlHeap
  imports YamlTool
begin

text \<open>
  The objects behind the handles of the YAML access layer.  A \<open>YAML::Node\<close> points
  to a \<open>detail::node\<close>, which points to a \<open>node_ref\<close>, which points to a
  \<open>node_data\<close>; a collection holds pointers to nodes.  Assigning a node to a slot
  redirects the slot's \<open>node_ref\<close>, appending stores the pointer itself, so
  subtrees are shared between handles.  This theory models those objects
  (\<open>node/detail/node.h\<close>, \<open>node_ref.h\<close>, \<open>node_data.h\<close>, \<open>src/node_data.cpp\<close>,
  \<open>node/detail/impl.h\<close>, \<open>src/memory.cpp\<close>), the part of \<open>node/impl.h\<close> the layer
  uses, and the operations of the layer on handles, with the heap threaded
  through.

  Marks, tags and styles are left out: no operation of the layer reads them.
\<close>

section \<open>The objects\<close>

text \<open>\<open>NodeType\<close>.\<close>

datatype ntype = NUndefined | NNull | NScalar | NSequence | NMap

record ndata =
  m_isDefined :: bool
  m_type :: ntype
  m_scalar :: string
  m_sequence :: "nat list"
  m_seqSize :: nat
  m_map :: "(nat \<times> nat) list"
  m_undefinedPairs :: "(nat \<times> nat) list"

record hnode =
  m_pRef :: nat
  m_dependencies :: "nat list"
  m_index :: nat

text \<open>A node is created together with its \<open>node_ref\<close> and its \<open>node_data\<close>, and a
  \<open>memory_holder\<close> with its \<open>memory\<close>: the three, and the two, get the same number.
  \<open>h_ref\<close> is the \<open>m_pData\<close> of a reference, \<open>h_holder\<close> the \<open>m_pMemory\<close> of a holder,
  \<open>h_mem\<close> the nodes a memory owns.\<close>

record yheap =
  h_node :: "nat \<Rightarrow> hnode"
  h_ref :: "nat \<Rightarrow> nat"
  h_data :: "nat \<Rightarrow> ndata"
  lim :: nat
  h_holder :: "nat \<Rightarrow> nat"
  h_mem :: "nat \<Rightarrow> nat set"
  mlim :: nat
  m_amount :: nat

definition new_data :: ndata where
  "new_data = \<lparr>m_isDefined = False, m_type = NNull, m_scalar = [], m_sequence = [],
     m_seqSize = 0, m_map = [], m_undefinedPairs = []\<rparr>"

definition empty_heap :: yheap where
  "empty_heap = \<lparr>h_node = (\<lambda>n. \<lparr>m_pRef = n, m_dependencies = [], m_index = 0\<rparr>), h_ref = (\<lambda>r. r),
     h_data = (\<lambda>_. new_data), lim = 0, h_holder = (\<lambda>m. m), h_mem = (\<lambda>_. {}), mlim = 0,
     m_amount = 0\<rparr>"

section \<open>\<open>node_data\<close>\<close>

definition data_mark_defined :: "ndata \<Rightarrow> ndata" where
  "data_mark_defined d =
     d\<lparr>m_isDefined := True, m_type := (if m_type d = NUndefined then NNull else m_type d)\<rparr>"

definition reset_sequence :: "ndata \<Rightarrow> ndata" where
  "reset_sequence d = d\<lparr>m_sequence := [], m_seqSize := 0\<rparr>"

definition reset_map :: "ndata \<Rightarrow> ndata" where
  "reset_map d = d\<lparr>m_map := [], m_undefinedPairs := []\<rparr>"

definition data_set_type :: "ntype \<Rightarrow> ndata \<Rightarrow> ndata" where
  "data_set_type t d =
     (if t = NUndefined then d\<lparr>m_isDefined := False, m_type := t\<rparr>
      else let d = d\<lparr>m_isDefined := True\<rparr> in
        if t = m_type d then d
        else let d = d\<lparr>m_type := t\<rparr> in
          (case t of
             NScalar \<Rightarrow> d\<lparr>m_scalar := []\<rparr>
           | NSequence \<Rightarrow> reset_sequence d
           | NMap \<Rightarrow> reset_map d
           | _ \<Rightarrow> d))"

definition data_set_null :: "ndata \<Rightarrow> ndata" where
  "data_set_null d = d\<lparr>m_isDefined := True, m_type := NNull\<rparr>"

definition data_set_scalar :: "string \<Rightarrow> ndata \<Rightarrow> ndata" where
  "data_set_scalar s d = d\<lparr>m_isDefined := True, m_type := NScalar, m_scalar := s\<rparr>"

section \<open>Nodes in the heap\<close>

definition data_addr :: "yheap \<Rightarrow> nat \<Rightarrow> nat" where
  "data_addr h n = h_ref h (m_pRef (h_node h n))"

definition data_of :: "yheap \<Rightarrow> nat \<Rightarrow> ndata" where
  "data_of h n = h_data h (data_addr h n)"

definition upd_data :: "nat \<Rightarrow> (ndata \<Rightarrow> ndata) \<Rightarrow> yheap \<Rightarrow> yheap" where
  "upd_data n f h = h\<lparr>h_data := (h_data h)(data_addr h n := f (data_of h n))\<rparr>"

definition upd_node :: "nat \<Rightarrow> (hnode \<Rightarrow> hnode) \<Rightarrow> yheap \<Rightarrow> yheap" where
  "upd_node n f h = h\<lparr>h_node := (h_node h)(n := f (h_node h n))\<rparr>"

definition nd_is_defined :: "yheap \<Rightarrow> nat \<Rightarrow> bool" where
  "nd_is_defined h n \<longleftrightarrow> m_isDefined (data_of h n)"

definition nd_type :: "yheap \<Rightarrow> nat \<Rightarrow> ntype" where
  "nd_type h n = (if m_isDefined (data_of h n) then m_type (data_of h n) else NUndefined)"

definition nd_is :: "yheap \<Rightarrow> nat \<Rightarrow> nat \<Rightarrow> bool" where
  "nd_is h n m \<longleftrightarrow> m_pRef (h_node h n) = m_pRef (h_node h m)"

text \<open>\<open>node::mark_defined\<close> for a list of nodes still to be marked.  The
  dependencies of a node are cleared before they are marked, not after: the node
  is defined by then, so nothing looks at them in between.  A node whose data is
  not allocated is passed over; in a well-formed heap there is none.\<close>

function mark_all :: "yheap \<Rightarrow> nat list \<Rightarrow> yheap" where
  "mark_all h [] = h"
| "mark_all h (n # ns) =
     (if nd_is_defined h n \<or> lim h \<le> data_addr h n then mark_all h ns
      else mark_all (upd_node n (\<lambda>x. x\<lparr>m_dependencies := []\<rparr>) (upd_data n data_mark_defined h))
             (m_dependencies (h_node h n) @ ns))"
  by pat_completeness auto

definition undefined_datas :: "yheap \<Rightarrow> nat set" where
  "undefined_datas h = {d. d < lim h \<and> \<not> m_isDefined (h_data h d)}"

lemma finite_undefined_datas [simp]: "finite (undefined_datas h)"
  by (simp add: undefined_datas_def)

lemma undefined_datas_mark:
  "\<not> nd_is_defined h n \<Longrightarrow> data_addr h n < lim h \<Longrightarrow>
     undefined_datas (upd_node n f (upd_data n data_mark_defined h)) \<subset> undefined_datas h"
  by (auto simp: undefined_datas_def upd_node_def upd_data_def data_of_def nd_is_defined_def
      data_mark_defined_def)

termination mark_all
  by (relation "(\<lambda>(h, ns). card (undefined_datas h)) <*mlex*> measure (\<lambda>(h, ns). length ns)")
     (auto simp: wf_mlex mlex_prod_def intro!: psubset_card_mono undefined_datas_mark)

definition mark_defined :: "nat \<Rightarrow> yheap \<Rightarrow> yheap" where
  "mark_defined n h = mark_all h [n]"

text \<open>\<open>m_dependencies\<close> is a set ordered by \<open>m_index\<close>: a node with the index of a
  member is not inserted.\<close>

definition dep_insert :: "yheap \<Rightarrow> nat \<Rightarrow> nat list \<Rightarrow> nat list" where
  "dep_insert h m ds =
     (if \<exists>d \<in> set ds. m_index (h_node h d) = m_index (h_node h m) then ds
      else insort_key (\<lambda>d. m_index (h_node h d)) m ds)"

definition add_dependency :: "nat \<Rightarrow> nat \<Rightarrow> yheap \<Rightarrow> yheap" where
  "add_dependency n m h =
     (if nd_is_defined h n then mark_defined m h
      else upd_node n (\<lambda>x. x\<lparr>m_dependencies := dep_insert h m (m_dependencies x)\<rparr>) h)"

definition set_ref :: "nat \<Rightarrow> nat \<Rightarrow> yheap \<Rightarrow> yheap" where
  "set_ref n m h =
     (let h = (if nd_is_defined h m then mark_defined n h else h)
      in upd_node n (\<lambda>x. x\<lparr>m_pRef := m_pRef (h_node h m)\<rparr>) h)"

definition set_data :: "nat \<Rightarrow> nat \<Rightarrow> yheap \<Rightarrow> yheap" where
  "set_data n m h =
     (let h = (if nd_is_defined h m then mark_defined n h else h)
      in h\<lparr>h_ref := (h_ref h)(m_pRef (h_node h n) := data_addr h m)\<rparr>)"

definition nd_set_type :: "nat \<Rightarrow> ntype \<Rightarrow> yheap \<Rightarrow> yheap" where
  "nd_set_type n t h =
     upd_data n (data_set_type t) (if t \<noteq> NUndefined then mark_defined n h else h)"

definition nd_set_null :: "nat \<Rightarrow> yheap \<Rightarrow> yheap" where
  "nd_set_null n h = upd_data n data_set_null (mark_defined n h)"

definition nd_set_scalar :: "nat \<Rightarrow> string \<Rightarrow> yheap \<Rightarrow> yheap" where
  "nd_set_scalar n s h = upd_data n (data_set_scalar s) (mark_defined n h)"

section \<open>Memory\<close>

definition new_holder :: "yheap \<Rightarrow> yheap \<times> nat" where
  "new_holder h = (h\<lparr>h_holder := (h_holder h)(mlim h := mlim h),
     h_mem := (h_mem h)(mlim h := {}), mlim := Suc (mlim h)\<rparr>, mlim h)"

definition create_node :: "nat \<Rightarrow> yheap \<Rightarrow> yheap \<times> nat" where
  "create_node m h = (h\<lparr>
     h_node := (h_node h)(lim h := \<lparr>m_pRef = lim h, m_dependencies = [], m_index = 0\<rparr>),
     h_ref := (h_ref h)(lim h := lim h),
     h_data := (h_data h)(lim h := new_data),
     lim := Suc (lim h),
     h_mem := (h_mem h)(h_holder h m := insert (lim h) (h_mem h (h_holder h m)))\<rparr>, lim h)"

text \<open>\<open>memory_holder::merge\<close>.  A third holder of the smaller memory keeps it as it
  is.\<close>

definition mem_merge :: "nat \<Rightarrow> nat \<Rightarrow> yheap \<Rightarrow> yheap" where
  "mem_merge a b h =
     (let x = h_holder h a; y = h_holder h b in
      if x = y then h
      else let (x, y) = (if card (h_mem h x) < card (h_mem h y) then (y, x) else (x, y))
        in h\<lparr>h_holder := (h_holder h)(a := x, b := x),
             h_mem := (h_mem h)(x := h_mem h x \<union> h_mem h y)\<rparr>)"

section \<open>Collections\<close>

definition insert_map_pair :: "nat \<Rightarrow> nat \<Rightarrow> nat \<Rightarrow> yheap \<Rightarrow> yheap" where
  "insert_map_pair n k v h = upd_data n (\<lambda>d. d\<lparr>m_map := m_map d @ [(k, v)],
     m_undefinedPairs := m_undefinedPairs d @
       (if \<not> nd_is_defined h k \<or> \<not> nd_is_defined h v then [(k, v)] else [])\<rparr>) h"

text \<open>\<open>convert_sequence_to_map\<close>: the loop over the elements from \<open>i\<close> on.\<close>

fun seq_to_map_loop :: "nat \<Rightarrow> nat \<Rightarrow> nat \<Rightarrow> nat list \<Rightarrow> yheap \<Rightarrow> yheap" where
  "seq_to_map_loop m n i [] h = h"
| "seq_to_map_loop m n i (x # xs) h =
     (let (h, k) = create_node m h
      in seq_to_map_loop m n (Suc i) xs (insert_map_pair n k x (nd_set_scalar k (nat_dec i) h)))"

definition nd_seq_to_map :: "nat \<Rightarrow> nat \<Rightarrow> yheap \<Rightarrow> yheap" where
  "nd_seq_to_map m n h =
     upd_data n (\<lambda>d. (reset_sequence d)\<lparr>m_type := NMap\<rparr>)
       (seq_to_map_loop m n 0 (m_sequence (data_of h n)) (upd_data n reset_map h))"

definition nd_convert_to_map :: "nat \<Rightarrow> nat \<Rightarrow> yheap \<Rightarrow> yheap" where
  "nd_convert_to_map m n h = (case m_type (data_of h n) of
      NSequence \<Rightarrow> nd_seq_to_map m n h
    | NUndefined \<Rightarrow> upd_data n (\<lambda>d. (reset_map d)\<lparr>m_type := NMap\<rparr>) h
    | NNull \<Rightarrow> upd_data n (\<lambda>d. (reset_map d)\<lparr>m_type := NMap\<rparr>) h
    | _ \<Rightarrow> h)"

text \<open>\<open>node::equals\<close> with a string, \<open>std::find_if\<close> over the pairs.\<close>

definition key_equals :: "yheap \<Rightarrow> string \<Rightarrow> nat \<Rightarrow> bool" where
  "key_equals h key k \<longleftrightarrow> nd_type h k = NScalar \<and> m_scalar (data_of h k) = key"

fun key_find :: "yheap \<Rightarrow> string \<Rightarrow> (nat \<times> nat) list \<Rightarrow> nat option" where
  "key_find h key [] = None"
| "key_find h key ((k, v) # kvs) = (if key_equals h key k then Some v else key_find h key kvs)"

text \<open>The const \<open>node_data::get\<close>: a string key, an index into a sequence.\<close>

definition nd_get_const :: "yheap \<Rightarrow> nat \<Rightarrow> string \<Rightarrow> yexn + nat option" where
  "nd_get_const h n key = (case m_type (data_of h n) of
      NMap \<Rightarrow> Inr (key_find h key (m_map (data_of h n)))
    | NScalar \<Rightarrow> Inl (BadSubscript key)
    | _ \<Rightarrow> Inr None)"

definition seq_index :: "yheap \<Rightarrow> nat \<Rightarrow> nat \<Rightarrow> nat option" where
  "seq_index h n i = (let xs = m_sequence (data_of h n) in if i < length xs then Some (xs ! i) else None)"

text \<open>\<open>convert_to_node\<close> of a string key: a node in a memory of its own, merged into
  the memory of the collection.\<close>

definition convert_to_node :: "nat \<Rightarrow> string \<Rightarrow> yheap \<Rightarrow> yheap \<times> nat" where
  "convert_to_node m key h =
     (let (h, t) = new_holder h; (h, k) = create_node t h
      in (mem_merge m t (nd_set_scalar k key h), k))"

text \<open>The non-const \<open>node::get\<close> with a string key: \<open>node_data::get\<close>, then the
  dependency of the value on its collection.\<close>

definition nd_get :: "nat \<Rightarrow> nat \<Rightarrow> string \<Rightarrow> yheap \<Rightarrow> yexn + yheap \<times> nat" where
  "nd_get m n key h =
     (if m_type (data_of h n) = NScalar then Inl (BadSubscript key)
      else let h = nd_convert_to_map m n h in
        case key_find h key (m_map (data_of h n)) of
          Some v \<Rightarrow> Inr (add_dependency v n h, v)
        | None \<Rightarrow>
            let (h, k) = convert_to_node m key h; (h, v) = create_node m h
            in Inr (add_dependency v n (insert_map_pair n k v h), v))"

definition nd_push_back :: "nat \<Rightarrow> nat \<Rightarrow> yheap \<Rightarrow> yexn + yheap" where
  "nd_push_back n v h =
     (let h = (if m_type (data_of h n) = NUndefined \<or> m_type (data_of h n) = NNull
               then upd_data n (\<lambda>d. reset_sequence (d\<lparr>m_type := NSequence\<rparr>)) h else h) in
      if m_type (data_of h n) \<noteq> NSequence then Inl BadPushback
      else let h = upd_data n (\<lambda>d. d\<lparr>m_sequence := m_sequence d @ [v]\<rparr>) h;
               h = add_dependency v n h
        in Inr (upd_node n (\<lambda>x. x\<lparr>m_index := m_amount h\<rparr>) (h\<lparr>m_amount := Suc (m_amount h)\<rparr>)))"

definition nd_insert :: "nat \<Rightarrow> nat \<Rightarrow> nat \<Rightarrow> nat \<Rightarrow> yheap \<Rightarrow> yexn + yheap" where
  "nd_insert m n k v h =
     (if m_type (data_of h n) = NScalar then Inl (BadSubscript [])
      else let h = insert_map_pair n k v (nd_convert_to_map m n h)
        in Inr (add_dependency v n (add_dependency k n h)))"

text \<open>\<open>node_data::size\<close>: the caches are brought up to date on the way.\<close>

definition compute_seq_size :: "yheap \<Rightarrow> ndata \<Rightarrow> ndata" where
  "compute_seq_size h d = d\<lparr>m_seqSize := m_seqSize d
     + length (takeWhile (nd_is_defined h) (drop (m_seqSize d) (m_sequence d)))\<rparr>"

definition pair_undefined :: "yheap \<Rightarrow> nat \<times> nat \<Rightarrow> bool" where
  "pair_undefined h p \<longleftrightarrow> \<not> (nd_is_defined h (fst p) \<and> nd_is_defined h (snd p))"

definition compute_map_size :: "yheap \<Rightarrow> ndata \<Rightarrow> ndata" where
  "compute_map_size h d = d\<lparr>m_undefinedPairs := filter (pair_undefined h) (m_undefinedPairs d)\<rparr>"

definition nd_size :: "nat \<Rightarrow> yheap \<Rightarrow> yheap \<times> nat" where
  "nd_size n h =
     (if \<not> m_isDefined (data_of h n) then (h, 0)
      else case m_type (data_of h n) of
          NSequence \<Rightarrow> let h = upd_data n (compute_seq_size h) h in (h, m_seqSize (data_of h n))
        | NMap \<Rightarrow> let h = upd_data n (compute_map_size h) h
            in (h, length (m_map (data_of h n)) - length (m_undefinedPairs (data_of h n)))
        | _ \<Rightarrow> (h, 0))"

section \<open>Handles\<close>

text \<open>A \<open>YAML::Node\<close> with a node behind it: its memory holder and the node.  Every
  handle of the layer is one: the constructors of \<open>YamlNodePrivate\<close> assign a
  node, which makes \<open>EnsureNodeExists\<close> create one where there was none.  Copying
  or assigning a \<open>YamlNode\<close> yields another pointer to the same node, that is, the
  same pair.\<close>

type_synonym yhand = "nat \<times> nat"

type_synonym 'a yres = "(yexn + 'a) \<times> yheap"

text \<open>\<open>YAML::Node()\<close> once \<open>EnsureNodeExists\<close> was called on it: \<open>YamlNode()\<close>.\<close>

definition new_handle :: "yheap \<Rightarrow> yheap \<times> yhand" where
  "new_handle h =
     (let (h, m) = new_holder h; (h, n) = create_node m h in (nd_set_null n h, (m, n)))"

text \<open>\<open>Node::operator=(const Node&)\<close> and \<open>AssignNode\<close>; \<open>Assign\<close> of a string;
  \<open>AssignData\<close> of the node that encodes another value.\<close>

definition assign_node :: "yhand \<Rightarrow> yhand \<Rightarrow> yheap \<Rightarrow> yheap" where
  "assign_node s v h =
     (if nd_is h (snd s) (snd v) then h
      else mem_merge (fst s) (fst v) (set_ref (snd s) (snd v) h))"

definition assign_string :: "yhand \<Rightarrow> string \<Rightarrow> yheap \<Rightarrow> yheap" where
  "assign_string s str h = nd_set_scalar (snd s) str h"

definition assign_data :: "yhand \<Rightarrow> string \<Rightarrow> yheap \<Rightarrow> yheap" where
  "assign_data s str h =
     (let (h, t) = new_holder h; (h, x) = create_node t h; h = nd_set_scalar x str h
      in mem_merge (fst s) t (set_data (snd s) x h))"

text \<open>What the conversions look at: the type and the scalar of a node.\<close>

definition shape :: "yheap \<Rightarrow> nat \<Rightarrow> ynode" where
  "shape h n = (case nd_type h n of
      NUndefined \<Rightarrow> YUndef
    | NNull \<Rightarrow> YNull
    | NScalar \<Rightarrow> YScalar (m_scalar (data_of h n))
    | NSequence \<Rightarrow> YSeq []
    | NMap \<Rightarrow> YMap [])"

section \<open>The operations of the tool on handles\<close>

definition hs_fresh :: "yheap \<Rightarrow> yhand yres" where
  "hs_fresh h = (case new_handle h of (h, r) \<Rightarrow> (Inr r, h))"

definition hs_get_node :: "yhand \<Rightarrow> string \<Rightarrow> yheap \<Rightarrow> yhand yres" where
  "hs_get_node r name h =
     (if nd_type h (snd r) \<noteq> NNull \<and> nd_is_defined h (snd r) then
        (case nd_get_const h (snd r) name of
           Inl e \<Rightarrow> (Inl e, h)
         | Inr None \<Rightarrow> hs_fresh h
         | Inr (Some v) \<Rightarrow> if nd_is_defined h v then (Inr (fst r, v), h) else hs_fresh h)
      else hs_fresh h)"

definition hs_get_sequence_node :: "yhand \<Rightarrow> nat \<Rightarrow> yheap \<Rightarrow> yhand yres" where
  "hs_get_sequence_node r i h =
     (if nd_type h (snd r) \<noteq> NNull \<and> nd_is_defined h (snd r) \<and> nd_type h (snd r) = NSequence then
        (case nd_size (snd r) h of (h, k) \<Rightarrow>
           if i < k then
             (case seq_index h (snd r) i of
                None \<Rightarrow> hs_fresh h
              | Some v \<Rightarrow> if nd_is_defined h v then (Inr (fst r, v), h) else hs_fresh h)
           else hs_fresh h)
      else hs_fresh h)"

definition hs_add_node :: "yhand \<Rightarrow> string \<Rightarrow> yhand \<Rightarrow> yheap \<Rightarrow> unit yres" where
  "hs_add_node r key v h =
     (if \<not> nd_is_defined h (snd r) \<or> \<not> nd_is_defined h (snd v)
      then (Inl (RuntimeError ''invalid node''), h)
      else case nd_get (fst r) (snd r) key h of
          Inl e \<Rightarrow> (Inl e, h)
        | Inr (h, s) \<Rightarrow> (Inr (), assign_node (fst r, s) v h))"

definition hs_push_back :: "yhand \<Rightarrow> yhand \<Rightarrow> yheap \<Rightarrow> unit yres" where
  "hs_push_back r v h =
     (if \<not> nd_is_defined h (snd r) \<or> \<not> nd_is_defined h (snd v)
      then (Inl (RuntimeError ''invalid node''), h)
      else case nd_push_back (snd r) (snd v) h of
          Inl e \<Rightarrow> (Inl e, h)
        | Inr h \<Rightarrow> (Inr (), mem_merge (fst r) (fst v) h))"

text \<open>\<open>node[key] = YAML::Node()\<close>: the empty right-hand side gets its node in
  \<open>AssignNode\<close>.\<close>

definition assign_null :: "yhand \<Rightarrow> yheap \<Rightarrow> yheap" where
  "assign_null s h = (case new_handle h of (h, v) \<Rightarrow> assign_node s v h)"

definition hs_set_null :: "yhand \<Rightarrow> string \<Rightarrow> yheap \<Rightarrow> unit yres" where
  "hs_set_null r key h = (case nd_get (fst r) (snd r) key h of
      Inl e \<Rightarrow> (Inl e, h)
    | Inr (h, s) \<Rightarrow> (Inr (), assign_null (fst r, s) h))"

definition hs_set_null_def :: "yhand \<Rightarrow> string \<Rightarrow> yheap \<Rightarrow> bool yres" where
  "hs_set_null_def r key h = (case nd_get (fst r) (snd r) key h of
      Inl e \<Rightarrow> (Inl e, h)
    | Inr (h, s) \<Rightarrow>
        if nd_is_defined h s then (Inr False, h)
        else (case nd_get (fst r) (snd r) key h of
                Inl e \<Rightarrow> (Inl e, h)
              | Inr (h, s) \<Rightarrow> (Inr True, assign_null (fst r, s) h)))"

text \<open>\<open>_getDef\<close>: const lookups only, so the heap stays as it is.\<close>

definition hs_get_def :: "yhand \<Rightarrow> string \<Rightarrow> aval \<Rightarrow> yheap \<Rightarrow> yexn + aval" where
  "hs_get_def r key d h =
     (if nd_type h (snd r) \<noteq> NNull then
        catch_get key d
          (rbind (nd_get_const h (snd r) key) (\<lambda>c. case c of
              None \<Rightarrow> Inl (InvalidNode key)
            | Some v \<Rightarrow> if nd_type h v = NNull \<or> \<not> nd_is_defined h v then Inr d
                else registry_read (Live (shape h v)) (any_type d)))
      else Inr d)"

text \<open>The registered writer: a string is stored in the slot's data, another value
  replaces the data of the slot's reference.\<close>

definition hs_write :: "yhand \<Rightarrow> string \<Rightarrow> aval \<Rightarrow> yheap \<Rightarrow> unit yres" where
  "hs_write r key a h = (case encode_any a of
      None \<Rightarrow> (Inl (RuntimeError (''unsupported type in write: ''
                 @ (case a of AOther t \<Rightarrow> t | _ \<Rightarrow> []))), h)
    | Some str \<Rightarrow> (case nd_get (fst r) (snd r) key h of
          Inl e \<Rightarrow> (Inl e, h)
        | Inr (h, s) \<Rightarrow> (Inr (),
            (case a of AStr _ \<Rightarrow> assign_string (fst r, s) str h | _ \<Rightarrow> assign_data (fst r, s) str h))))"

definition hs_set :: "yhand \<Rightarrow> string \<Rightarrow> aval \<Rightarrow> yheap \<Rightarrow> unit yres" where
  "hs_set r key a h =
     (if \<not> nd_is_defined h (snd r) then (Inl (RuntimeError ''invalid node''), h)
      else hs_write r key a h)"

text \<open>\<open>_setDef\<close>: the repeated subscripts of its condition find the node the first
  one returned.\<close>

definition hs_set_def :: "yhand \<Rightarrow> string \<Rightarrow> aval \<Rightarrow> yheap \<Rightarrow> bool yres" where
  "hs_set_def r key a h = (case nd_get (fst r) (snd r) key h of
      Inl e \<Rightarrow> (Inl e, h)
    | Inr (h, s) \<Rightarrow>
        if nd_is_defined h s \<and> nd_type h s = NScalar then
          (case registry_read (Live (shape h s)) (any_type a) of
             Inr _ \<Rightarrow> (Inr False, h)
           | Inl _ \<Rightarrow> (Inl (RuntimeError (''wrong type for key: '' @ key)), h))
        else (case hs_set r key a h of
                (Inl e, h) \<Rightarrow> (Inl e, h)
              | (Inr _, h) \<Rightarrow> (Inr True, h)))"

end
