(* ===== verification/YamlStore.thy ===== *)
theory YamlStore
  imports YamlHeap
begin

text \<open>
  Well-formed heaps of YAML nodes, and the tree a node stands for.  Every
  operation on handles keeps the heap well formed and does to the tree what the
  operation of \<open>YamlTool\<close> does, as long as the tree shares nothing with itself.
\<close>

section \<open>Well-formed heaps\<close>

definition data_ok :: "yheap \<Rightarrow> ndata \<Rightarrow> bool" where
  "data_ok h d \<longleftrightarrow> m_type d \<noteq> NUndefined \<and> (m_isDefined d \<or> m_type d = NNull)
     \<and> (\<forall>x \<in> set (m_sequence d). x < lim h \<and> nd_is_defined h x)
     \<and> (\<forall>p \<in> set (m_map d). fst p < lim h \<and> snd p < lim h \<and> nd_is_defined h (fst p))
     \<and> m_seqSize d \<le> length (m_sequence d)
     \<and> set (m_undefinedPairs d) \<subseteq> set (m_map d)
     \<and> filter (pair_undefined h) (m_undefinedPairs d) = filter (pair_undefined h) (m_map d)"

definition node_ok :: "yheap \<Rightarrow> hnode \<Rightarrow> bool" where
  "node_ok h x \<longleftrightarrow> m_pRef x < lim h
     \<and> (\<forall>d \<in> set (m_dependencies x). d < lim h \<and> nd_is_defined h d)"

definition heap_ok :: "yheap \<Rightarrow> bool" where
  "heap_ok h \<longleftrightarrow> (\<forall>n < lim h. node_ok h (h_node h n)) \<and> (\<forall>r < lim h. h_ref h r < lim h)
     \<and> (\<forall>d < lim h. data_ok h (h_data h d))"

definition handle_ok :: "yheap \<Rightarrow> yhand \<Rightarrow> bool" where
  "handle_ok h r \<longleftrightarrow> snd r < lim h \<and> nd_is_defined h (snd r)"

text \<open>No operation frees a node, and a defined node stays defined.  That nothing is freed
  in the code either while a client keeps its handles is shown in \<open>YamlSystem\<close>.\<close>

definition grows :: "yheap \<Rightarrow> yheap \<Rightarrow> bool" where
  "grows h h' \<longleftrightarrow> lim h \<le> lim h' \<and> (\<forall>n < lim h. nd_is_defined h n \<longrightarrow> nd_is_defined h' n)"

lemma grows_refl [simp, intro]: "grows h h"
  by (simp add: grows_def)

lemma grows_trans [trans]: "grows h h' \<Longrightarrow> grows h' h'' \<Longrightarrow> grows h h''"
  by (auto simp: grows_def)

lemma grows_lim: "grows h h' \<Longrightarrow> n < lim h \<Longrightarrow> n < lim h'"
  by (auto simp: grows_def)

lemma grows_defined: "grows h h' \<Longrightarrow> n < lim h \<Longrightarrow> nd_is_defined h n \<Longrightarrow> nd_is_defined h' n"
  by (simp add: grows_def)

lemma handle_ok_grows: "handle_ok h r \<Longrightarrow> grows h h' \<Longrightarrow> handle_ok h' r"
  by (auto simp: handle_ok_def grows_def)

lemma filter_weaken:
  assumes "\<And>x. x \<in> set xs \<union> set ys \<Longrightarrow> Q x \<Longrightarrow> P x" and "filter P xs = filter P ys"
  shows "filter Q xs = filter Q ys"
proof -
  have "filter Q (filter P zs) = filter Q zs" if "set zs \<subseteq> set xs \<union> set ys" for zs
    using that assms(1) by (induction zs) auto
  from this [of xs] this [of ys] assms(2) show ?thesis by simp
qed

lemma data_ok_grows:
  assumes "data_ok h d" and g: "grows h h'"
  shows "data_ok h' d"
proof -
  have pairs: "fst p < lim h" "snd p < lim h" if "p \<in> set (m_map d) \<union> set (m_undefinedPairs d)" for p
    using assms(1) that by (auto simp: data_ok_def)
  have "filter (pair_undefined h') (m_undefinedPairs d) = filter (pair_undefined h') (m_map d)"
  proof (rule filter_weaken)
    fix p assume "p \<in> set (m_undefinedPairs d) \<union> set (m_map d)" and "pair_undefined h' p"
    then show "pair_undefined h p"
      using pairs [of p] grows_defined [OF g] by (auto simp: pair_undefined_def)
  next
    show "filter (pair_undefined h) (m_undefinedPairs d) = filter (pair_undefined h) (m_map d)"
      using assms(1) by (simp add: data_ok_def)
  qed
  then show ?thesis
    using assms(1) grows_lim [OF g] grows_defined [OF g] by (simp add: data_ok_def)
qed

lemma node_ok_grows: "node_ok h x \<Longrightarrow> grows h h' \<Longrightarrow> node_ok h' x"
  by (auto simp: node_ok_def grows_def)

lemma heap_okD:
  assumes "heap_ok h"
  shows "n < lim h \<Longrightarrow> m_pRef (h_node h n) < lim h"
    and "n < lim h \<Longrightarrow> d \<in> set (m_dependencies (h_node h n)) \<Longrightarrow> d < lim h \<and> nd_is_defined h d"
    and "r < lim h \<Longrightarrow> h_ref h r < lim h"
    and "n < lim h \<Longrightarrow> data_addr h n < lim h"
    and "n < lim h \<Longrightarrow> data_ok h (data_of h n)"
  using assms by (auto simp: heap_ok_def node_ok_def data_addr_def data_of_def)

lemma empty_heap_ok: "heap_ok empty_heap"
  by (simp add: heap_ok_def empty_heap_def)

section \<open>What each step changes\<close>

lemma data_addr_upd_data [simp]: "data_addr (upd_data n f h) x = data_addr h x"
  by (simp add: data_addr_def upd_data_def)

lemma data_of_upd_data:
  "data_of (upd_data n f h) x = (if data_addr h x = data_addr h n then f (data_of h n) else data_of h x)"
  by (simp add: data_of_def upd_data_def data_addr_def)

lemma upd_data_simps [simp]:
  "lim (upd_data n f h) = lim h" "h_node (upd_data n f h) = h_node h"
  "h_ref (upd_data n f h) = h_ref h" "h_mem (upd_data n f h) = h_mem h"
  "h_holder (upd_data n f h) = h_holder h" "mlim (upd_data n f h) = mlim h"
  by (simp_all add: upd_data_def)

lemma upd_node_simps [simp]:
  "lim (upd_node n f h) = lim h" "h_data (upd_node n f h) = h_data h"
  "h_ref (upd_node n f h) = h_ref h" "h_mem (upd_node n f h) = h_mem h"
  "h_node (upd_node n f h) = (h_node h)(n := f (h_node h n))"
  "h_holder (upd_node n f h) = h_holder h" "mlim (upd_node n f h) = mlim h"
  by (simp_all add: upd_node_def)

text \<open>A change of the node that keeps its reference.\<close>

lemma upd_node_keep:
  assumes "m_pRef (f (h_node h n)) = m_pRef (h_node h n)"
  shows "data_addr (upd_node n f h) x = data_addr h x" "data_of (upd_node n f h) x = data_of h x"
    "nd_is_defined (upd_node n f h) x = nd_is_defined h x" "nd_type (upd_node n f h) x = nd_type h x"
  using assms by (auto simp: data_addr_def upd_node_def data_of_def nd_is_defined_def nd_type_def)

lemma grows_upd_node:
  "m_pRef (f (h_node h n)) = m_pRef (h_node h n) \<Longrightarrow> grows h (upd_node n f h)"
  by (simp add: grows_def upd_node_keep)

lemma heap_ok_upd_node:
  assumes "heap_ok h" and "m_pRef (f (h_node h n)) = m_pRef (h_node h n)"
    and "n < lim h \<Longrightarrow> node_ok h (f (h_node h n))"
  shows "heap_ok (upd_node n f h)"
  using assms data_ok_grows [OF _ grows_upd_node [of f h n]] node_ok_grows [OF _ grows_upd_node [of f h n]]
  by (auto simp: heap_ok_def)

lemma defined_upd_data:
  "nd_is_defined (upd_data n f h) x \<longleftrightarrow>
     (if data_addr h x = data_addr h n then m_isDefined (f (data_of h n)) else nd_is_defined h x)"
  by (simp add: nd_is_defined_def data_of_upd_data)

lemma grows_upd_data:
  "m_isDefined (f (data_of h n)) \<or> \<not> m_isDefined (data_of h n) \<Longrightarrow> grows h (upd_data n f h)"
  unfolding grows_def defined_upd_data by (auto simp: nd_is_defined_def data_of_def)

lemma heap_ok_upd_data:
  assumes "heap_ok h" and "n < lim h"
    and "m_isDefined (f (data_of h n)) \<or> \<not> m_isDefined (data_of h n)"
    and "data_ok (upd_data n f h) (f (data_of h n))"
  shows "heap_ok (upd_data n f h)"
proof -
  have g: "grows h (upd_data n f h)" using assms(3) by (rule grows_upd_data)
  have "node_ok (upd_data n f h) (h_node h x)" if "x < lim h" for x
    using that assms(1) node_ok_grows [OF _ g] by (simp add: heap_ok_def)
  moreover have "data_ok (upd_data n f h) (h_data (upd_data n f h) d)" if "d < lim h" for d
    using that assms(1,4) data_ok_grows [OF _ g] by (simp add: heap_ok_def upd_data_def)
  ultimately show ?thesis using assms(1) by (simp add: heap_ok_def)
qed

text \<open>Changes outside nodes, references and data.\<close>

lemma heap_ok_cong:
  assumes "h_node h' = h_node h" "h_ref h' = h_ref h" "h_data h' = h_data h" "lim h' = lim h"
  shows "heap_ok h' = heap_ok h" "grows h h'" "data_addr h' x = data_addr h x"
    "data_of h' x = data_of h x" "nd_is_defined h' x = nd_is_defined h x" "nd_type h' x = nd_type h x"
    "data_ok h' d = data_ok h d" "node_ok h' y = node_ok h y"
proof -
  show a: "data_addr h' x = data_addr h x" for x using assms by (simp add: data_addr_def)
  show b: "data_of h' x = data_of h x" for x using assms a by (simp add: data_of_def)
  show c: "nd_is_defined h' x = nd_is_defined h x" for x using b by (simp add: nd_is_defined_def)
  show "nd_type h' x = nd_type h x" using b by (simp add: nd_type_def)
  have u: "pair_undefined h' = pair_undefined h" using c by (simp add: pair_undefined_def fun_eq_iff)
  show d: "data_ok h' d = data_ok h d" for d
    unfolding data_ok_def u c assms(4) by (rule refl)
  show e: "node_ok h' y = node_ok h y" for y using assms c by (simp add: node_ok_def)
  show "heap_ok h' = heap_ok h" using assms d e by (simp add: heap_ok_def)
  show "grows h h'" using assms c by (simp add: grows_def)
qed

text \<open>Marking: in a well-formed heap only the node itself changes.\<close>

lemma mark_all_defined: "\<forall>n \<in> set ns. nd_is_defined h n \<Longrightarrow> mark_all h ns = h"
  by (induction ns) auto

lemma mark_defined_eq:
  assumes "heap_ok h" and "n < lim h"
  shows "mark_defined n h =
    (if nd_is_defined h n then h
     else upd_node n (\<lambda>x. x\<lparr>m_dependencies := []\<rparr>) (upd_data n data_mark_defined h))"
proof -
  let ?h = "upd_node n (\<lambda>x. x\<lparr>m_dependencies := []\<rparr>) (upd_data n data_mark_defined h)"
  have "nd_is_defined ?h d" if "d \<in> set (m_dependencies (h_node h n))" for d
    using heap_okD(2) [OF assms that]
    by (simp add: upd_node_keep defined_upd_data data_mark_defined_def)
  then have "mark_all ?h (m_dependencies (h_node h n)) = ?h" by (intro mark_all_defined) blast
  moreover have "data_addr h n < lim h" using assms by (rule heap_okD)
  ultimately show ?thesis by (simp add: mark_defined_def)
qed

lemma mark_defined_id: "nd_is_defined h n \<Longrightarrow> mark_defined n h = h"
  by (simp add: mark_defined_def)

lemma lim_mark_all [simp]: "lim (mark_all h ns) = lim h"
  by (induction h ns rule: mark_all.induct) simp_all

lemma lim_mark_defined [simp]: "lim (mark_defined n h) = lim h"
  by (simp add: mark_defined_def)

section \<open>Footprints\<close>

text \<open>What an observer sees of a node, and a step that changes what is seen only of
  nodes whose data has an address in a set.\<close>

definition view :: "yheap \<Rightarrow> nat \<Rightarrow> nat \<times> ntype \<times> string \<times> nat list \<times> (nat \<times> nat) list" where
  "view h n = (data_addr h n, nd_type h n, m_scalar (data_of h n), m_sequence (data_of h n),
     m_map (data_of h n))"

definition hstep :: "yheap \<Rightarrow> yheap \<Rightarrow> nat set \<Rightarrow> bool" where
  "hstep h h' D \<longleftrightarrow> grows h h' \<and> (\<forall>x < lim h. data_addr h x \<notin> D \<longrightarrow> view h' x = view h x)"

lemma hstep_refl [simp, intro]: "hstep h h D"
  by (simp add: hstep_def)

lemma hstep_grows: "hstep h h' D \<Longrightarrow> grows h h'"
  by (simp add: hstep_def)

lemma hstep_view: "hstep h h' D \<Longrightarrow> x < lim h \<Longrightarrow> data_addr h x \<notin> D \<Longrightarrow> view h' x = view h x"
  by (simp add: hstep_def)

lemma hstep_trans:
  assumes 1: "hstep h h1 D1" and 2: "hstep h1 h2 D2"
  shows "hstep h h2 (D1 \<union> D2)"
proof -
  have "view h2 x = view h x" if x: "x < lim h" "data_addr h x \<notin> D1 \<union> D2" for x
  proof -
    have v: "view h1 x = view h x" using hstep_view [OF 1] x by blast
    then have "data_addr h1 x = data_addr h x" by (simp add: view_def)
    then show ?thesis
      using v hstep_view [OF 2, of x] x grows_lim [OF hstep_grows [OF 1]] by simp
  qed
  then show ?thesis
    using grows_trans [OF hstep_grows [OF 1] hstep_grows [OF 2]] by (simp add: hstep_def)
qed

lemma hstep_mono: "hstep h h' D \<Longrightarrow> D \<subseteq> E \<Longrightarrow> hstep h h' E"
  by (auto simp: hstep_def)

lemma hstep_then: "hstep h h1 D1 \<Longrightarrow> hstep h1 h2 D2 \<Longrightarrow> D1 \<union> D2 \<subseteq> D \<Longrightarrow> hstep h h2 D"
  using hstep_trans hstep_mono by blast

text \<open>Addresses that were not in use need no mention.\<close>

lemma hstep_fresh: "heap_ok h \<Longrightarrow> hstep h h' D \<Longrightarrow> D \<subseteq> E \<union> {lim h..} \<Longrightarrow> hstep h h' E"
  using heap_okD(4) [of h] unfolding hstep_def by (meson UnE atLeast_iff leD subsetD)

lemma view_eqD:
  assumes "view h' x = view h y"
  shows "data_addr h' x = data_addr h y" "nd_type h' x = nd_type h y"
    "m_scalar (data_of h' x) = m_scalar (data_of h y)"
    "m_sequence (data_of h' x) = m_sequence (data_of h y)"
    "m_map (data_of h' x) = m_map (data_of h y)"
  using assms by (simp_all add: view_def)

lemma view_data: "data_addr h' x = data_addr h y \<Longrightarrow> data_of h' x = data_of h y \<Longrightarrow> view h' x = view h y"
  by (simp add: view_def nd_type_def)

lemma nd_type_defined: "data_ok h (data_of h n) \<Longrightarrow> nd_is_defined h n \<longleftrightarrow> nd_type h n \<noteq> NUndefined"
  by (simp add: nd_is_defined_def nd_type_def data_ok_def)

lemma heap_defined_iff: "heap_ok h \<Longrightarrow> n < lim h \<Longrightarrow> nd_is_defined h n \<longleftrightarrow> nd_type h n \<noteq> NUndefined"
  by (rule nd_type_defined) (rule heap_okD)

lemma hstep_heap_cong:
  assumes "h_node h' = h_node h" "h_ref h' = h_ref h" "h_data h' = h_data h" "lim h' = lim h"
  shows "hstep h h' {}"
  using heap_ok_cong [OF assms] by (simp add: hstep_def view_def)

lemma hstep_upd_data:
  assumes "m_isDefined (f (data_of h n)) \<or> \<not> m_isDefined (data_of h n)"
  shows "hstep h (upd_data n f h) {data_addr h n}"
  using grows_upd_data [of f h n, OF assms]
  by (auto simp: hstep_def data_of_upd_data intro!: view_data)

lemma hstep_upd_node:
  assumes "m_pRef (f (h_node h n)) = m_pRef (h_node h n)"
  shows "hstep h (upd_node n f h) {}"
  using upd_node_keep [of f h n, OF assms] grows_upd_node [of f h n, OF assms]
  by (simp add: hstep_def view_def)

section \<open>The primitive steps\<close>

text \<open>Every primitive keeps the heap well formed; its footprint is the data it
  writes.\<close>

definition okstep :: "yheap \<Rightarrow> yheap \<Rightarrow> nat set \<Rightarrow> bool" where
  "okstep h h' D \<longleftrightarrow> heap_ok h' \<and> hstep h h' D"

lemma okstep_refl: "heap_ok h \<Longrightarrow> okstep h h D"
  by (simp add: okstep_def)

lemma okstepD: "okstep h h' D \<Longrightarrow> heap_ok h'" "okstep h h' D \<Longrightarrow> hstep h h' D"
    "okstep h h' D \<Longrightarrow> grows h h'" "okstep h h' D \<Longrightarrow> n < lim h \<Longrightarrow> n < lim h'"
    "okstep h h' D \<Longrightarrow> n < lim h \<Longrightarrow> nd_is_defined h n \<Longrightarrow> nd_is_defined h' n"
  by (auto simp: okstep_def hstep_def grows_def)

lemma okstep_trans: "okstep h h1 D1 \<Longrightarrow> okstep h1 h2 D2 \<Longrightarrow> D1 \<union> D2 \<subseteq> D \<Longrightarrow> okstep h h2 D"
  by (auto simp: okstep_def intro: hstep_then)

lemma okstep_fresh:
  "heap_ok h \<Longrightarrow> okstep h h' D \<Longrightarrow> D \<subseteq> E \<union> {lim h..} \<Longrightarrow> okstep h h' E"
  by (auto simp: okstep_def intro: hstep_fresh)

lemma okstep_cong:
  assumes "heap_ok h" "h_node h' = h_node h" "h_ref h' = h_ref h" "h_data h' = h_data h" "lim h' = lim h"
  shows "okstep h h' {}"
  using hstep_heap_cong [OF assms(2-)] heap_ok_cong [OF assms(2-)] assms(1) by (simp add: okstep_def)

lemma okstep_upd_data:
  assumes "heap_ok h" and "n < lim h"
    and "m_isDefined (f (data_of h n)) \<or> \<not> m_isDefined (data_of h n)"
    and "data_ok (upd_data n f h) (f (data_of h n))"
  shows "okstep h (upd_data n f h) {data_addr h n}"
  using heap_ok_upd_data [of h n f, OF assms] hstep_upd_data [of f h n, OF assms(3)]
  by (simp add: okstep_def)

lemma okstep_upd_node:
  assumes "heap_ok h" and "m_pRef (f (h_node h n)) = m_pRef (h_node h n)"
    and "n < lim h \<Longrightarrow> node_ok h (f (h_node h n))"
  shows "okstep h (upd_node n f h) {}"
  using heap_ok_upd_node [of h f n, OF assms] hstep_upd_node [of f h n, OF assms(2)]
  by (simp add: okstep_def)

lemma okstep_merge:
  assumes "heap_ok h"
  shows "okstep h (mem_merge a b h) {}"
  by (rule okstep_cong [OF assms]) (simp_all add: mem_merge_def Let_def)

lemma merge_simps [simp]:
  "h_node (mem_merge a b h) = h_node h" "h_ref (mem_merge a b h) = h_ref h"
  "h_data (mem_merge a b h) = h_data h" "lim (mem_merge a b h) = lim h"
  by (simp_all add: mem_merge_def Let_def)

lemma merge_data [simp]:
  "data_addr (mem_merge a b h) x = data_addr h x" "data_of (mem_merge a b h) x = data_of h x"
  "nd_is_defined (mem_merge a b h) x = nd_is_defined h x" "nd_type (mem_merge a b h) x = nd_type h x"
  "view (mem_merge a b h) x = view h x"
  using heap_ok_cong [of "mem_merge a b h" h] by (simp_all add: view_def)

lemma okstep_new_holder:
  assumes "heap_ok h" and "new_holder h = (h', m)"
  shows "okstep h h' {}" "lim h' = lim h" "view h' x = view h x"
  using assms okstep_cong [of h h'] heap_ok_cong [of h' h] by (auto simp: new_holder_def view_def)

lemma create_node_eq:
  assumes "heap_ok h" and "create_node m h = (h', n)"
  shows "n = lim h" "lim h' = Suc (lim h)" "data_addr h' n = n" "data_of h' n = new_data"
    "\<not> nd_is_defined h' n" "m_dependencies (h_node h' n) = []"
    "x < lim h \<Longrightarrow> data_addr h' x = data_addr h x" "x < lim h \<Longrightarrow> data_of h' x = data_of h x"
proof -
  show *: "n = lim h" "lim h' = Suc (lim h)" "data_addr h' n = n" "data_of h' n = new_data"
      "m_dependencies (h_node h' n) = []"
    using assms(2) by (auto simp: create_node_def data_addr_def data_of_def)
  show "\<not> nd_is_defined h' n" using * by (simp add: nd_is_defined_def new_data_def)
  show a: "data_addr h' x = data_addr h x" if "x < lim h" for x
    using assms(2) that heap_okD(1) [OF assms(1) that] by (auto simp: create_node_def data_addr_def)
  show "data_of h' x = data_of h x" if "x < lim h" for x
    using assms(2) a [OF that] heap_okD(4) [OF assms(1) that] by (auto simp: create_node_def data_of_def)
qed

lemma data_ok_new [simp]: "data_ok h new_data"
  by (simp add: data_ok_def new_data_def)

lemma okstep_create_node:
  assumes "heap_ok h" and "create_node m h = (h', n)"
  shows "okstep h h' {}"
proof -
  note * = create_node_eq [OF assms]
  have g: "grows h h'" using * by (simp add: grows_def nd_is_defined_def)
  have "view h' x = view h x" if "x < lim h" for x
    using * that by (intro view_data) auto
  moreover have "node_ok h' (h_node h' x)" if "x < lim h'" for x
  proof (cases "x < lim h")
    case True
    then show ?thesis
      using assms node_ok_grows [OF _ g] by (auto simp: heap_ok_def create_node_def)
  next
    case False
    then show ?thesis using that assms(2) by (auto simp: create_node_def node_ok_def less_Suc_eq)
  qed
  moreover have "data_ok h' (h_data h' d)" if "d < lim h'" for d
    using that assms data_ok_grows [OF _ g] by (auto simp: heap_ok_def create_node_def less_Suc_eq)
  moreover have "h_ref h' r < lim h'" if "r < lim h'" for r
    using that assms by (auto simp: heap_ok_def create_node_def less_Suc_eq)
  ultimately show ?thesis using g by (simp add: okstep_def hstep_def heap_ok_def)
qed

lemma data_ok_mark: "data_ok h d \<Longrightarrow> data_ok h (data_mark_defined d)"
  by (auto simp: data_ok_def data_mark_defined_def)

lemma data_ok_scalar: "data_ok h d \<Longrightarrow> data_ok h (data_set_scalar s d)"
  by (auto simp: data_ok_def data_set_scalar_def)

lemma data_ok_null: "data_ok h d \<Longrightarrow> data_ok h (data_set_null d)"
  by (auto simp: data_ok_def data_set_null_def)

text \<open>A change of the data that makes or leaves it defined, and keeps it sound.\<close>

lemma okstep_upd_defined:
  assumes "heap_ok h" and "n < lim h" and "m_isDefined (f (data_of h n))"
    and "\<And>h'. data_ok h' (data_of h n) \<Longrightarrow> data_ok h' (f (data_of h n))"
  shows "okstep h (upd_data n f h) {data_addr h n}"
proof (rule okstep_upd_data)
  have "grows h (upd_data n f h)" by (rule grows_upd_data) (simp add: assms)
  with heap_okD(5) [OF assms(1,2)] have "data_ok (upd_data n f h) (data_of h n)"
    by (rule data_ok_grows)
  then show "data_ok (upd_data n f h) (f (data_of h n))" by (rule assms)
qed (use assms in auto)

lemma okstep_clear: 
  assumes "heap_ok h"
  shows "okstep h (upd_node n (\<lambda>x. x\<lparr>m_dependencies := []\<rparr>) h) {}"
  using heap_okD(1) [OF assms] by (intro okstep_upd_node) (auto simp: assms node_ok_def)

lemma mark_defined_step:
  assumes "heap_ok h" and "n < lim h"
  shows "okstep h (mark_defined n h) {data_addr h n}"
    and "data_of (mark_defined n h) n = data_mark_defined (data_of h n)"
    and "data_addr (mark_defined n h) x = data_addr h x"
    and "data_addr h x \<noteq> data_addr h n \<Longrightarrow> data_of (mark_defined n h) x = data_of h x"
    and "m_pRef (h_node (mark_defined n h) x) = m_pRef (h_node h x)"
proof -
  let ?u = "upd_data n data_mark_defined h"
  have 1: "okstep h ?u {data_addr h n}"
    by (rule okstep_upd_defined [OF assms _ data_ok_mark]) (simp_all add: data_mark_defined_def)
  have 2: "okstep ?u (upd_node n (\<lambda>x. x\<lparr>m_dependencies := []\<rparr>) ?u) {}"
    using okstepD(1) [OF 1] by (rule okstep_clear)
  show "okstep h (mark_defined n h) {data_addr h n}"
    using okstep_trans [OF 1 2] okstep_refl [OF assms(1)] by (simp add: mark_defined_eq [OF assms])
  have d: "data_mark_defined (data_of h n) = data_of h n" if "nd_is_defined h n"
    using that heap_okD(5) [OF assms] by (simp add: data_mark_defined_def data_ok_def nd_is_defined_def)
  show "data_of (mark_defined n h) n = data_mark_defined (data_of h n)"
    by (simp add: mark_defined_eq [OF assms] upd_node_keep data_of_upd_data d)
  show "data_addr (mark_defined n h) x = data_addr h x"
    by (simp add: mark_defined_eq [OF assms] upd_node_keep)
  show "data_of (mark_defined n h) x = data_of h x" if "data_addr h x \<noteq> data_addr h n"
    using that by (simp add: mark_defined_eq [OF assms] upd_node_keep data_of_upd_data)
  show "m_pRef (h_node (mark_defined n h) x) = m_pRef (h_node h x)"
    by (simp add: mark_defined_eq [OF assms])
qed

text \<open>\<open>set_null\<close>, \<open>set_scalar\<close> and \<open>set_type\<close> mark, then write the data.\<close>

lemma mark_then_step:
  assumes "heap_ok h" and "n < lim h" and "\<And>d. m_isDefined (f d)"
    and "\<And>h' d. data_ok h' d \<Longrightarrow> data_ok h' (f d)"
  shows "okstep h (upd_data n f (mark_defined n h)) {data_addr h n}"
    and "data_of (upd_data n f (mark_defined n h)) n = f (data_mark_defined (data_of h n))"
    and "data_addr (upd_data n f (mark_defined n h)) x = data_addr h x"
    and "lim (upd_data n f (mark_defined n h)) = lim h"
    and "m_pRef (h_node (upd_data n f (mark_defined n h)) x) = m_pRef (h_node h x)"
proof -
  note m = mark_defined_step [OF assms(1,2)]
  have "okstep (mark_defined n h) (upd_data n f (mark_defined n h)) {data_addr (mark_defined n h) n}"
    by (rule okstep_upd_defined) (use m(1) assms okstepD in auto)
  then show "okstep h (upd_data n f (mark_defined n h)) {data_addr h n}"
    using okstep_trans [OF m(1)] by (simp add: m(3))
qed (simp_all add: mark_defined_step [OF assms(1,2)] data_of_upd_data)

lemma set_scalar_step:
  assumes "heap_ok h" and "n < lim h"
  shows "okstep h (nd_set_scalar n s h) {data_addr h n}"
    and "data_of (nd_set_scalar n s h) n = data_set_scalar s (data_mark_defined (data_of h n))"
    and "data_addr (nd_set_scalar n s h) x = data_addr h x"
    and "lim (nd_set_scalar n s h) = lim h"
    and "m_pRef (h_node (nd_set_scalar n s h) x) = m_pRef (h_node h x)"
  unfolding nd_set_scalar_def
  by (rule mark_then_step [OF assms]; simp add: data_set_scalar_def data_ok_scalar [unfolded data_set_scalar_def])+

lemma set_null_step:
  assumes "heap_ok h" and "n < lim h"
  shows "okstep h (nd_set_null n h) {data_addr h n}"
    and "data_of (nd_set_null n h) n = data_set_null (data_mark_defined (data_of h n))"
    and "data_addr (nd_set_null n h) x = data_addr h x"
    and "lim (nd_set_null n h) = lim h"
  unfolding nd_set_null_def
  by (rule mark_then_step [OF assms]; simp add: data_set_null_def data_ok_null [unfolded data_set_null_def])+

lemma dep_insert_set: "set (dep_insert h m ds) \<subseteq> insert m (set ds)"
  by (auto simp: dep_insert_def set_insort_key)

text \<open>The dependency of a node on a defined one.\<close>

lemma add_dependency_step:
  assumes "heap_ok h" and "m < lim h" and "nd_is_defined h m"
  shows "okstep h (add_dependency n m h) {}"
    and "data_addr (add_dependency n m h) x = data_addr h x"
    and "data_of (add_dependency n m h) x = data_of h x"
    and "lim (add_dependency n m h) = lim h"
proof -
  let ?f = "\<lambda>x. x\<lparr>m_dependencies := dep_insert h m (m_dependencies x)\<rparr>"
  have "node_ok h (?f (h_node h n))" if "n < lim h"
    using heap_okD(1,2) [OF assms(1) that] assms dep_insert_set [of h m "m_dependencies (h_node h n)"]
    by (auto simp: node_ok_def)
  then have "okstep h (upd_node n ?f h) {}"
    by (intro okstep_upd_node assms) simp_all
  then show "okstep h (add_dependency n m h) {}"
    by (simp add: add_dependency_def mark_defined_id assms okstep_refl)
qed (simp_all add: add_dependency_def mark_defined_id assms upd_node_keep)

text \<open>Redirecting a reference.\<close>

lemma okstep_set_pRef:
  assumes "heap_ok h" and "s < lim h" and "v < lim h" and "nd_is_defined h v"
  shows "okstep h (upd_node s (\<lambda>x. x\<lparr>m_pRef := m_pRef (h_node h v)\<rparr>) h) {data_addr h s}"
    (is "okstep h ?h _")
    and "view (upd_node s (\<lambda>x. x\<lparr>m_pRef := m_pRef (h_node h v)\<rparr>) h) s = view h v"
proof -
  have a: "data_addr ?h x = (if x = s then data_addr h v else data_addr h x)" for x
    by (simp add: data_addr_def)
  then have b: "data_of ?h x = (if x = s then data_of h v else data_of h x)" for x
    by (simp add: data_of_def)
  have g: "grows h ?h" using assms b by (simp add: grows_def nd_is_defined_def)
  have "node_ok ?h (h_node ?h x)" if "x < lim h" for x
    using that assms(1,3) node_ok_grows [OF _ g] heap_okD(1) [OF assms(1,3)]
    by (auto simp: heap_ok_def node_ok_def)
  moreover have "data_ok ?h (h_data ?h d)" if "d < lim h" for d
    using that assms(1) data_ok_grows [OF _ g] by (simp add: heap_ok_def)
  moreover have "view ?h x = view h x" if "data_addr h x \<noteq> data_addr h s" for x
    using that a b by (intro view_data) auto
  ultimately show "okstep h ?h {data_addr h s}"
    using assms(1) g by (simp add: okstep_def hstep_def heap_ok_def)
  show "view ?h s = view h v" using a b by (intro view_data) auto
qed

lemma set_ref_step:
  assumes "heap_ok h" and "s < lim h" and "v < lim h" and "nd_is_defined h v"
  shows "okstep h (set_ref s v h) {data_addr h s}"
    and "view (set_ref s v h) s = view h v"
    and "lim (set_ref s v h) = lim h"
proof -
  let ?m = "mark_defined s h"
  note m = mark_defined_step [OF assms(1,2)]
  have v: "data_of ?m v = data_of h v"
  proof (cases "data_addr h v = data_addr h s")
    case True
    then have "nd_is_defined h s" using assms(4) by (simp add: nd_is_defined_def data_of_def)
    then show ?thesis by (simp add: mark_defined_id)
  next
    case False
    then show ?thesis by (rule m(4))
  qed
  have vm: "view ?m v = view h v" using v m(3) by (intro view_data) auto
  have r: "set_ref s v h = upd_node s (\<lambda>x. x\<lparr>m_pRef := m_pRef (h_node ?m v)\<rparr>) ?m"
    using assms(4) by (simp add: set_ref_def m(5))
  have d: "nd_is_defined ?m v" using v assms(4) by (simp add: nd_is_defined_def)
  note p = okstep_set_pRef [of ?m s v, OF okstepD(1) [OF m(1)] _ _ d]
  show "okstep h (set_ref s v h) {data_addr h s}"
    unfolding r by (rule okstep_trans [OF m(1) p(1)]) (use assms m in simp_all)
  show "view (set_ref s v h) s = view h v"
    unfolding r using p(2) assms vm by simp
  show "lim (set_ref s v h) = lim h" by (simp add: r)
qed

text \<open>Replacing the data of a reference.\<close>

lemma okstep_set_href:
  assumes "heap_ok h" and "s < lim h" and "x < lim h" and "nd_is_defined h x"
  defines "h' \<equiv> h\<lparr>h_ref := (h_ref h)(m_pRef (h_node h s) := data_addr h x)\<rparr>"
  shows "okstep h h' {data_addr h s}" and "view h' s = view h x"
proof -
  have a: "data_addr h' y = (if m_pRef (h_node h y) = m_pRef (h_node h s) then data_addr h x
      else data_addr h y)" for y
    by (simp add: data_addr_def h'_def)
  then have b: "data_of h' y = (if m_pRef (h_node h y) = m_pRef (h_node h s) then data_of h x
      else data_of h y)" for y
    by (simp add: data_of_def h'_def)
  have g: "grows h h'" using assms b by (simp add: grows_def nd_is_defined_def)
  have "node_ok h' (h_node h' y)" if "y < lim h" for y
    using that assms(1) node_ok_grows [OF _ g] by (simp add: heap_ok_def h'_def)
  moreover have "data_ok h' (h_data h' d)" if "d < lim h" for d
    using that assms(1) data_ok_grows [OF _ g] by (simp add: heap_ok_def h'_def)
  moreover have "view h' y = view h y" if "data_addr h y \<noteq> data_addr h s" for y
    using that a b by (intro view_data) (auto simp: data_addr_def)
  moreover have "h_ref h' r < lim h" if "r < lim h" for r
    using that assms(1) heap_okD(4) [OF assms(1,3)] by (simp add: heap_ok_def h'_def)
  ultimately show "okstep h h' {data_addr h s}"
    using g by (simp add: okstep_def hstep_def heap_ok_def h'_def)
  show "view h' s = view h x" using a b by (intro view_data) auto
qed

lemma set_data_step:
  assumes "heap_ok h" and "s < lim h" and "x < lim h" and "nd_is_defined h x"
  shows "okstep h (set_data s x h) {data_addr h s}"
    and "view (set_data s x h) s = view h x"
    and "lim (set_data s x h) = lim h"
proof -
  let ?m = "mark_defined s h"
  note m = mark_defined_step [OF assms(1,2)]
  have v: "data_of ?m x = data_of h x"
  proof (cases "data_addr h x = data_addr h s")
    case True
    then have "nd_is_defined h s" using assms(4) by (simp add: nd_is_defined_def data_of_def)
    then show ?thesis by (simp add: mark_defined_id)
  next
    case False
    then show ?thesis by (rule m(4))
  qed
  have vm: "view ?m x = view h x" using v m(3) by (intro view_data) auto
  have r: "set_data s x h = ?m\<lparr>h_ref := (h_ref ?m)(m_pRef (h_node ?m s) := data_addr ?m x)\<rparr>"
    using assms(4) by (simp add: set_data_def Let_def)
  have d: "nd_is_defined ?m x" using v assms(4) by (simp add: nd_is_defined_def)
  note p = okstep_set_href [of ?m s x, OF okstepD(1) [OF m(1)] _ _ d]
  show "okstep h (set_data s x h) {data_addr h s}"
    unfolding r by (rule okstep_trans [OF m(1) p(1)]) (use assms m in simp_all)
  show "view (set_data s x h) s = view h x"
    unfolding r using p(2) assms vm by simp
  show "lim (set_data s x h) = lim h" by (simp add: r)
qed

lemma insert_map_pair_step:
  assumes "heap_ok h" and "n < lim h" and "k < lim h" and "v < lim h" and "nd_is_defined h k"
    and "nd_is_defined h n"
  shows "okstep h (insert_map_pair n k v h) {data_addr h n}"
    and "data_addr (insert_map_pair n k v h) x = data_addr h x"
    and "lim (insert_map_pair n k v h) = lim h"
    and "m_map (data_of (insert_map_pair n k v h) n) = m_map (data_of h n) @ [(k, v)]"
    and "m_type (data_of (insert_map_pair n k v h) n) = m_type (data_of h n)"
    and "m_sequence (data_of (insert_map_pair n k v h) n) = m_sequence (data_of h n)"
    and "nd_is_defined (insert_map_pair n k v h) x = nd_is_defined h x"
proof -
  let ?f = "\<lambda>d. d\<lparr>m_map := m_map d @ [(k, v)], m_undefinedPairs := m_undefinedPairs d @
       (if \<not> nd_is_defined h k \<or> \<not> nd_is_defined h v then [(k, v)] else [])\<rparr>"
  have d: "nd_is_defined (upd_data n ?f h) y = nd_is_defined h y" for y
    by (simp add: defined_upd_data) (simp add: nd_is_defined_def data_of_def)
  have u: "pair_undefined (upd_data n ?f h) = pair_undefined h"
    by (rule ext) (unfold pair_undefined_def d, rule refl)
  have "data_ok (upd_data n ?f h) (?f (data_of h n))"
    using heap_okD(5) [OF assms(1,2)] assms unfolding data_ok_def u d
    by (auto simp: pair_undefined_def)
  then show "okstep h (insert_map_pair n k v h) {data_addr h n}"
    unfolding insert_map_pair_def
    by (intro okstep_upd_data assms) (use assms(6) in \<open>simp_all add: nd_is_defined_def\<close>)
  show "nd_is_defined (insert_map_pair n k v h) x = nd_is_defined h x"
    using d by (simp add: insert_map_pair_def)
qed (simp_all add: insert_map_pair_def data_of_upd_data)

section \<open>The tree a node stands for\<close>

text \<open>\<open>rep h n t ds\<close>: following the pointers from node \<open>n\<close> gives the finite tree
  \<open>t\<close>; \<open>ds\<close> lists the addresses of the data met on the way, one entry per visit.
  Nothing is shared inside the tree when \<open>ds\<close> is distinct.\<close>

inductive rep :: "yheap \<Rightarrow> nat \<Rightarrow> ynode \<Rightarrow> nat list \<Rightarrow> bool"
  and rep_seq :: "yheap \<Rightarrow> nat list \<Rightarrow> ynode list \<Rightarrow> nat list \<Rightarrow> bool"
  and rep_map :: "yheap \<Rightarrow> (nat \<times> nat) list \<Rightarrow> (ynode \<times> ynode) list \<Rightarrow> nat list \<Rightarrow> bool"
  for h :: yheap
where
  rep_Undef: "n < lim h \<Longrightarrow> nd_type h n = NUndefined \<Longrightarrow> rep h n YUndef [data_addr h n]"
| rep_Null: "n < lim h \<Longrightarrow> nd_type h n = NNull \<Longrightarrow> rep h n YNull [data_addr h n]"
| rep_Scalar: "n < lim h \<Longrightarrow> nd_type h n = NScalar \<Longrightarrow>
    rep h n (YScalar (m_scalar (data_of h n))) [data_addr h n]"
| rep_Seq: "n < lim h \<Longrightarrow> nd_type h n = NSequence \<Longrightarrow> rep_seq h (m_sequence (data_of h n)) ts ds \<Longrightarrow>
    rep h n (YSeq ts) (data_addr h n # ds)"
| rep_Map: "n < lim h \<Longrightarrow> nd_type h n = NMap \<Longrightarrow> rep_map h (m_map (data_of h n)) kts ds \<Longrightarrow>
    rep h n (YMap kts) (data_addr h n # ds)"
| rep_seq_Nil: "rep_seq h [] [] []"
| rep_seq_Cons: "rep h n t ds \<Longrightarrow> rep_seq h ns ts es \<Longrightarrow> rep_seq h (n # ns) (t # ts) (ds @ es)"
| rep_map_Nil: "rep_map h [] [] []"
| rep_map_Cons: "rep h k a ds \<Longrightarrow> rep h v b es \<Longrightarrow> rep_map h kvs kts fs \<Longrightarrow>
    rep_map h ((k, v) # kvs) ((a, b) # kts) (ds @ es @ fs)"

inductive_cases rep_UndefE: "rep h n YUndef ds"
inductive_cases rep_NullE: "rep h n YNull ds"
inductive_cases rep_ScalarE: "rep h n (YScalar s) ds"
inductive_cases rep_SeqE: "rep h n (YSeq ts) ds"
inductive_cases rep_MapE: "rep h n (YMap kts) ds"
inductive_cases rep_seqE: "rep_seq h (n # ns) ts ds"
inductive_cases rep_mapE: "rep_map h (p # kvs) kts ds"
inductive_simps rep_seq_Nil_iff [simp]: "rep_seq h [] ts ds"
inductive_simps rep_map_Nil_iff [simp]: "rep_map h [] kts ds"

text \<open>A step whose footprint misses the data of a tree leaves the tree alone.\<close>

lemma rep_frame_all:
  assumes "hstep h h' D"
  shows "rep h n t ds \<Longrightarrow> set ds \<inter> D = {} \<Longrightarrow> rep h' n t ds"
    and "rep_seq h ns ts ds \<Longrightarrow> set ds \<inter> D = {} \<Longrightarrow> rep_seq h' ns ts ds"
    and "rep_map h kvs kts ds \<Longrightarrow> set ds \<inter> D = {} \<Longrightarrow> rep_map h' kvs kts ds"
proof (induction rule: rep_rep_seq_rep_map.inducts)
  case (rep_Undef n)
  have v: "view h' n = view h n" using rep_Undef by (intro hstep_view [OF assms]) auto
  show ?case
    using rep_rep_seq_rep_map.rep_Undef [of n h'] rep_Undef view_eqD [OF v] grows_lim [OF hstep_grows [OF assms]] by simp
next
  case (rep_Null n)
  have v: "view h' n = view h n" using rep_Null by (intro hstep_view [OF assms]) auto
  show ?case
    using rep_rep_seq_rep_map.rep_Null [of n h'] rep_Null view_eqD [OF v] grows_lim [OF hstep_grows [OF assms]] by simp
next
  case (rep_Scalar n)
  have v: "view h' n = view h n" using rep_Scalar by (intro hstep_view [OF assms]) auto
  show ?case
    using rep_rep_seq_rep_map.rep_Scalar [of n h'] rep_Scalar view_eqD [OF v] grows_lim [OF hstep_grows [OF assms]] by simp
next
  case (rep_Seq n ts ds)
  have v: "view h' n = view h n" using rep_Seq by (intro hstep_view [OF assms]) auto
  show ?case
    using rep_rep_seq_rep_map.rep_Seq [of n h' ts ds] rep_Seq view_eqD [OF v] grows_lim [OF hstep_grows [OF assms]] by simp
next
  case (rep_Map n kts ds)
  have v: "view h' n = view h n" using rep_Map by (intro hstep_view [OF assms]) auto
  show ?case
    using rep_rep_seq_rep_map.rep_Map [of n h' kts ds] rep_Map view_eqD [OF v] grows_lim [OF hstep_grows [OF assms]] by simp
qed (auto intro!: rep_rep_seq_rep_map.intros)

lemma rep_frame: "rep h n t ds \<Longrightarrow> okstep h h' D \<Longrightarrow> set ds \<inter> D = {} \<Longrightarrow> rep h' n t ds"
  using rep_frame_all(1) okstepD(2) by blast

lemma rep_scalar_node:
  assumes "n < lim h" and "data_of h n = data_set_scalar s d"
  shows "rep h n (YScalar s) [data_addr h n]"
  using rep_Scalar [of n h] assms by (simp add: nd_type_def data_set_scalar_def)

lemma rep_lim: "rep h n t ds \<Longrightarrow> n < lim h"
  by (erule rep.cases) auto

lemma rep_addr: "rep h n t ds \<Longrightarrow> data_addr h n \<in> set ds"
  by (erule rep.cases) auto

lemma rep_type: "rep h n t ds \<Longrightarrow>
    nd_type h n = (case t of YUndef \<Rightarrow> NUndefined | YNull \<Rightarrow> NNull | YScalar _ \<Rightarrow> NScalar
      | YSeq _ \<Rightarrow> NSequence | YMap _ \<Rightarrow> NMap)"
  by (erule rep.cases) auto

lemma rep_defined: "heap_ok h \<Longrightarrow> rep h n t ds \<Longrightarrow> nd_is_defined h n \<longleftrightarrow> is_defined t"
  using rep_type [of h n t ds] rep_lim [of h n t ds] heap_defined_iff [of h n]
  by (auto simp: is_defined_def split: ynode.splits)

lemma rep_data_type: "rep h n t ds \<Longrightarrow> nd_is_defined h n \<Longrightarrow> m_type (data_of h n) = nd_type h n"
  by (simp add: nd_type_def nd_is_defined_def)

lemma rep_lims:
  assumes "heap_ok h"
  shows "rep h n t ds \<Longrightarrow> set ds \<subseteq> {..<lim h}"
    and "rep_seq h ns ts ds \<Longrightarrow> set ds \<subseteq> {..<lim h}"
    and "rep_map h kvs kts ds \<Longrightarrow> set ds \<subseteq> {..<lim h}"
  by (induction rule: rep_rep_seq_rep_map.inducts) (auto intro: heap_okD(4) [OF assms])

lemma rep_fresh_node:
  assumes "heap_ok h" and "create_node m h = (h1, n)"
  shows "okstep h (nd_set_scalar n s h1) {}" "lim (nd_set_scalar n s h1) = Suc (lim h)"
    "rep (nd_set_scalar n s h1) n (YScalar s) [n]" "data_addr (nd_set_scalar n s h1) n = n"
    "x < lim h \<Longrightarrow> data_addr (nd_set_scalar n s h1) x = data_addr h x"
    "nd_is_defined (nd_set_scalar n s h1) n"
proof -
  note c = create_node_eq [OF assms]
  note o' = okstep_create_node [OF assms]
  have l: "n < lim h1" by (simp add: c)
  note w = set_scalar_step [OF okstepD(1) [OF o'] l, of s]
  show "okstep h (nd_set_scalar n s h1) {}"
  proof (rule okstep_fresh [OF assms(1)])
    show "okstep h (nd_set_scalar n s h1) {n}" using okstep_trans [OF o' w(1)] c(3) by simp
  qed (simp add: c(1))
  show "lim (nd_set_scalar n s h1) = Suc (lim h)" by (simp add: w c(2-))
  show "rep (nd_set_scalar n s h1) n (YScalar s) [n]"
    using rep_scalar_node [of n "nd_set_scalar n s h1" s] w l c(3) by simp
  show "data_addr (nd_set_scalar n s h1) n = n" by (simp add: w c(3))
  show "data_addr (nd_set_scalar n s h1) x = data_addr h x" if "x < lim h"
    using that by (simp add: w c(2-))
  show "nd_is_defined (nd_set_scalar n s h1) n" by (simp add: nd_is_defined_def w data_set_scalar_def)
qed

text \<open>The loop of \<open>convert_sequence_to_map\<close>.\<close>

lemma seq_to_map_loop_step:
  assumes "heap_ok h" and "n < lim h" and "nd_is_defined h n" and "\<forall>x \<in> set xs. x < lim h"
    and "h' = seq_to_map_loop m n i xs h"
  shows "okstep h h' {data_addr h n} \<and> lim h' = lim h + length xs
    \<and> (\<forall>x < lim h. data_addr h' x = data_addr h x)
    \<and> m_map (data_of h' n) = m_map (data_of h n) @ zip [lim h..<lim h + length xs] xs
    \<and> m_type (data_of h' n) = m_type (data_of h n)
    \<and> m_sequence (data_of h' n) = m_sequence (data_of h n)
    \<and> (\<forall>j < length xs. rep h' (lim h + j) (YScalar (nat_dec (i + j))) [lim h + j])"
  using assms
proof (induction xs arbitrary: h i)
  case Nil
  then show ?case by (simp add: okstep_refl)
next
  case (Cons x xs)
  obtain h1 k where c: "create_node m h = (h1, k)" by fastforce
  let ?h2 = "nd_set_scalar k (nat_dec i) h1"
  let ?h3 = "insert_map_pair n k x ?h2"
  note f = rep_fresh_node [OF Cons.prems(1) c, where s = "nat_dec i"]
  have k: "k = lim h" using create_node_eq [OF Cons.prems(1) c] by simp
  have n2: "data_addr ?h2 n = data_addr h n" and an: "data_addr h n < lim h"
    using Cons.prems f heap_okD(4) by auto
  have v2: "view ?h2 n = view h n" 
    using hstep_view [OF okstepD(2) [OF f(1)]] Cons.prems by simp
  have d2: "nd_is_defined ?h2 n"
    using okstepD(5) [OF f(1)] Cons.prems by simp
  have dn: "m_type (data_of ?h2 n) = m_type (data_of h n)"
    using view_eqD(2) [OF v2] d2 Cons.prems(3) by (simp add: nd_type_def nd_is_defined_def)
  have l: "n < lim ?h2" "k < lim ?h2" "x < lim ?h2"
    using Cons.prems f(2) k by auto
  note p = insert_map_pair_step [OF okstepD(1) [OF f(1)] l f(6) d2]
  have s3: "okstep h ?h3 {data_addr h n}"
    using okstep_trans [OF f(1) p(1)] n2 by simp
  have h': "h' = seq_to_map_loop m n (Suc i) xs ?h3" using Cons.prems(5) c by simp
  have IH: "okstep ?h3 h' {data_addr ?h3 n} \<and> lim h' = lim ?h3 + length xs
    \<and> (\<forall>x < lim ?h3. data_addr h' x = data_addr ?h3 x)
    \<and> m_map (data_of h' n) = m_map (data_of ?h3 n) @ zip [lim ?h3..<lim ?h3 + length xs] xs
    \<and> m_type (data_of h' n) = m_type (data_of ?h3 n)
    \<and> m_sequence (data_of h' n) = m_sequence (data_of ?h3 n)
    \<and> (\<forall>j < length xs. rep h' (lim ?h3 + j) (YScalar (nat_dec (Suc i + j))) [lim ?h3 + j])"
    by (rule Cons.IH [OF okstepD(1) [OF s3] _ _ _ h']) (use l p d2 Cons.prems f(2) in auto)
  have l3: "lim ?h3 = Suc (lim h)" using p(3) f(2) by simp
  have s: "okstep h h' {data_addr h n}"
    by (rule okstep_trans [OF s3 conjunct1 [OF IH]]) (simp add: p n2)
  have "rep h' k (YScalar (nat_dec i)) [k]"
  proof (rule rep_frame [OF rep_frame [OF f(3) p(1)] conjunct1 [OF IH]])
    show "set [k] \<inter> {data_addr ?h2 n} = {}" "set [k] \<inter> {data_addr ?h3 n} = {}"
      using n2 an k p(2) by simp_all
  qed
  then have r: "rep h' (lim h + j) (YScalar (nat_dec (i + j))) [lim h + j]" if "j < length (x # xs)" for j
    using that IH l3 k by (cases j) auto
  have "m_map (data_of h' n) = m_map (data_of h n) @ zip [lim h..<lim h + length (x # xs)] (x # xs)"
    using IH p(4) view_eqD(5) [OF v2] l3 k by (simp add: upt_conv_Cons del: upt_Suc)
  moreover have "\<forall>y < lim h. data_addr h' y = data_addr h y"
    using IH p(2) f(5) l3 by simp
  moreover have "m_type (data_of h' n) = m_type (data_of h n)"
      "m_sequence (data_of h' n) = m_sequence (data_of h n)"
    using IH p(5,6) dn view_eqD(4) [OF v2] by simp_all
  ultimately show ?case using s r IH l3 by simp
qed

lemma rep_map_zip:
  assumes "rep_seq h xs ts ds" and "distinct ds" and "set ds \<subseteq> {..<a}"
    and "\<forall>j < length xs. rep h (b + j) (YScalar (nat_dec (i + j))) [b + j]" and "a \<le> b"
  shows "\<exists>es. rep_map h (zip [b..<b + length xs] xs)
        (map (\<lambda>(i, x). (YScalar (nat_dec i), x)) (enumerate i ts)) es
      \<and> distinct es \<and> set es \<subseteq> set ds \<union> {b..}"
  using assms
proof (induction xs arbitrary: ts ds b i)
  case Nil
  then show ?case by (auto intro: rep_map_Nil)
next
  case (Cons x xs)
  from Cons.prems(1) obtain t ts' d1 d2 where *: "ts = t # ts'" "ds = d1 @ d2"
      "rep h x t d1" "rep_seq h xs ts' d2"
    by (auto elim: rep_seqE)
  have "\<forall>j < length xs. rep h (Suc b + j) (YScalar (nat_dec (Suc i + j))) [Suc b + j]"
    using Cons.prems(4) by (metis Suc_less_eq add_Suc_shift length_Cons)
  then obtain es where es: "rep_map h (zip [Suc b..<Suc b + length xs] xs)
        (map (\<lambda>(i, x). (YScalar (nat_dec i), x)) (enumerate (Suc i) ts')) es"
      "distinct es" "set es \<subseteq> set d2 \<union> {Suc b..}"
    using Cons.IH [OF *(4), of "Suc b" "Suc i"] Cons.prems * by auto
  have b: "rep h b (YScalar (nat_dec i)) [b]" using Cons.prems(4) by force
  then have r: "rep_map h (zip [b..<b + length (x # xs)] (x # xs))
        (map (\<lambda>(i, x). (YScalar (nat_dec i), x)) (enumerate i ts)) ([b] @ d1 @ es)"
    using rep_map_Cons [OF b *(3) es(1)] *(1) by (simp add: upt_conv_Cons del: upt_Suc)
  moreover have in_es: "y \<in> set d2 \<or> Suc b \<le> y" if "y \<in> set es" for y
    using es(3) that by auto
  moreover have in_ds: "y < b" if "y \<in> set d1 \<union> set d2" for y
    using Cons.prems(3,5) that *(2) by fastforce
  have "b \<notin> set d1 \<union> set es" using in_es [of b] in_ds [of b] by auto
  moreover have "set d1 \<inter> set es = {}"
    using in_es in_ds Cons.prems(2) *(2) by fastforce
  ultimately have "distinct ([b] @ d1 @ es)"
    using Cons.prems(2) *(2) es(2) by simp
  moreover have "set ([b] @ d1 @ es) \<subseteq> set ds \<union> {b..}"
    using in_es *(2) by force
  moreover note r
  ultimately show ?case by blast
qed

text \<open>\<open>convert_to_map\<close>: what the operation promises, for the heap and the tree.\<close>

definition maps_to ::
  "yheap \<Rightarrow> yheap \<Rightarrow> nat \<Rightarrow> nat list \<Rightarrow> (ynode \<times> ynode) list \<Rightarrow> bool" where
  "maps_to h h' n ds kts \<longleftrightarrow> okstep h h' {data_addr h n}
     \<and> (\<forall>x < lim h. data_addr h' x = data_addr h x) \<and> m_type (data_of h' n) = NMap
     \<and> (\<exists>es. rep_map h' (m_map (data_of h' n)) kts es \<and> distinct (data_addr h n # es)
          \<and> set es \<subseteq> set ds \<union> {lim h..})"

lemma seq_loop_of_rep:
  fixes m :: nat
  assumes ok: "heap_ok h" and n: "n < lim h" and dn: "nd_is_defined h n"
  defines "xs \<equiv> m_sequence (data_of h n)"
  defines "h1 \<equiv> upd_data n reset_map h"
  defines "h2 \<equiv> seq_to_map_loop m n 0 xs h1"
  shows "okstep h h2 {data_addr h n}" and "lim h2 = lim h + length xs"
    and "\<forall>x < lim h. data_addr h2 x = data_addr h x"
    and "m_map (data_of h2 n) = zip [lim h..<lim h + length xs] xs"
    and "\<forall>j < length xs. rep h2 (lim h + j) (YScalar (nat_dec j)) [lim h + j]"
proof -
  have s1: "okstep h h1 {data_addr h n}"
    unfolding h1_def by (rule okstep_upd_defined [OF ok n])
      (use dn in \<open>auto simp: nd_is_defined_def data_ok_def reset_map_def\<close>)
  have xs: "\<forall>x \<in> set xs. x < lim h1"
    using heap_okD(5) [OF ok n] by (simp add: data_ok_def xs_def h1_def)
  have "m_map (data_of h1 n) = []" by (simp add: data_of_upd_data reset_map_def h1_def)
  moreover have "lim h1 = lim h" "data_addr h1 x = data_addr h x" for x by (simp_all add: h1_def)
  ultimately have L: "okstep h1 h2 {data_addr h n} \<and> lim h2 = lim h + length xs
      \<and> (\<forall>x < lim h. data_addr h2 x = data_addr h x)
      \<and> m_map (data_of h2 n) = zip [lim h..<lim h + length xs] xs
      \<and> (\<forall>j < length xs. rep h2 (lim h + j) (YScalar (nat_dec j)) [lim h + j])"
    using seq_to_map_loop_step [OF okstepD(1) [OF s1] _ okstepD(5) [OF s1 n dn] xs, of h2 m 0] n
    by (simp add: h2_def)
  show "okstep h h2 {data_addr h n}" by (rule okstep_trans [OF s1 conjunct1 [OF L]]) simp
  show "lim h2 = lim h + length xs" "\<forall>x < lim h. data_addr h2 x = data_addr h x"
    "m_map (data_of h2 n) = zip [lim h..<lim h + length xs] xs"
    "\<forall>j < length xs. rep h2 (lim h + j) (YScalar (nat_dec j)) [lim h + j]"
    using L by simp_all
qed

lemma seq_maps_to:
  assumes ok: "heap_ok h" and r: "rep h n (YSeq ts) ds" "distinct ds" and dn: "nd_is_defined h n"
  shows "maps_to h (nd_seq_to_map m n h) n ds (seq_to_pairs ts)"
proof -
  let ?h1 = "upd_data n reset_map h"
  let ?xs = "m_sequence (data_of h n)"
  let ?h2 = "seq_to_map_loop m n 0 ?xs ?h1"
  let ?f = "\<lambda>d. (reset_sequence d)\<lparr>m_type := NMap\<rparr>"
  define h' where h': "h' = upd_data n ?f ?h2"
  have n: "n < lim h" using r(1) by (rule rep_lim)
  from r(1) obtain es where es: "ds = data_addr h n # es" "rep_seq h ?xs ts es" by (rule rep_SeqE)
  note L = seq_loop_of_rep [OF ok n dn, where m = m]
  have n2: "n < lim ?h2" "nd_is_defined ?h2 n" "data_addr ?h2 n = data_addr h n"
    using okstepD(4,5) [OF L(1)] n dn L(3) by simp_all
  have s3: "okstep ?h2 h' {data_addr h n}"
    unfolding h' n2(3) [symmetric] by (rule okstep_upd_defined [OF okstepD(1) [OF L(1)] n2(1)])
      (use n2(2) in \<open>auto simp: nd_is_defined_def data_ok_def reset_sequence_def\<close>)
  have s: "okstep h h' {data_addr h n}" by (rule okstep_trans [OF L(1) s3]) simp
  have nes: "data_addr h n \<notin> set es" "data_addr h n < lim h"
    using r(2) es(1) heap_okD(4) [OF ok n] by simp_all
  have 1: "rep_seq h' ?xs ts es"
    using rep_frame_all(2) [OF okstepD(2) [OF s] es(2)] nes by simp
  have 2: "rep h' (lim h + j) (YScalar (nat_dec (0 + j))) [lim h + j]" if "j < length ?xs" for j
  proof (rule rep_frame [OF _ s3])
    show "rep ?h2 (lim h + j) (YScalar (nat_dec (0 + j))) [lim h + j]" using L(5) that by simp
  qed (use nes in simp)
  have "distinct es" "set es \<subseteq> {..<lim h}" using r(2) es rep_lims(2) [OF ok] by auto
  then obtain fs where fs: "rep_map h' (zip [lim h..<lim h + length ?xs] ?xs) (seq_to_pairs ts) fs"
      "distinct fs" "set fs \<subseteq> set es \<union> {lim h..}"
    using rep_map_zip [OF 1, of "lim h" "lim h" 0] 2 by (auto simp: seq_to_pairs_def)
  have "rep_map h' (m_map (data_of h' n)) (seq_to_pairs ts) fs"
    using L(4) fs(1) by (simp add: h' data_of_upd_data reset_sequence_def)
  moreover have "distinct (data_addr h n # fs)" "set fs \<subseteq> set ds \<union> {lim h..}"
    using fs nes es(1) by auto
  moreover have "m_type (data_of h' n) = NMap" "\<forall>x < lim h. data_addr h' x = data_addr h x"
    using L(3) by (simp_all add: h' data_of_upd_data)
  ultimately show ?thesis
    unfolding maps_to_def nd_seq_to_map_def h' [symmetric] using s by blast
qed

lemma convert_maps_to:
  assumes ok: "heap_ok h" and r: "rep h n t ds" "distinct ds" and d: "is_defined t"
    and c: "convert_to_map t key = Inr kts"
  shows "maps_to h (nd_convert_to_map m n h) n ds kts"
proof -
  have n: "n < lim h" using r(1) by (rule rep_lim)
  have dn: "nd_is_defined h n" using rep_defined [OF ok r(1)] d by simp
  note ty = rep_data_type [OF r(1) dn] rep_type [OF r(1)]
  show ?thesis
  proof (cases t)
    case YUndef
    then show ?thesis using d by (simp add: is_defined_def)
  next
    case YNull
    let ?f = "\<lambda>d. (reset_map d)\<lparr>m_type := NMap\<rparr>"
    have "okstep h (upd_data n ?f h) {data_addr h n}"
      by (rule okstep_upd_defined [OF ok n])
         (use dn in \<open>auto simp: nd_is_defined_def data_ok_def reset_map_def\<close>)
    then show ?thesis
      using YNull c ty by (auto simp: maps_to_def nd_convert_to_map_def data_of_upd_data
          reset_map_def convert_to_map_def rep_map_Nil)
  next
    case (YScalar s)
    then show ?thesis using c by (simp add: convert_to_map_def)
  next
    case (YMap kvs)
    from r(1) obtain es where "ds = data_addr h n # es" "rep_map h (m_map (data_of h n)) kvs es"
      unfolding YMap by (rule rep_MapE)
    then show ?thesis using YMap c r(2) ty ok
      by (auto simp: maps_to_def nd_convert_to_map_def convert_to_map_def okstep_refl)
  next
    case (YSeq ts)
    then show ?thesis
      using seq_maps_to [OF ok _ r(2) dn, of ts m] r(1) c ty
      by (simp add: nd_convert_to_map_def convert_to_map_def)
  qed
qed

section \<open>Slots\<close>

lemma key_equals_rep: "rep h k a ds \<Longrightarrow> key_equals h key k \<longleftrightarrow> key_is key a"
  by (erule rep.cases) (auto simp: key_equals_def key_is_def)

lemma key_find_rep:
  assumes "rep_map h kvs kts es"
  shows "(case key_find h key kvs of
      None \<Rightarrow> kv_find key kts = None
    | Some s \<Rightarrow> \<exists>t ds. kv_find key kts = Some t \<and> rep h s t ds \<and> set ds \<subseteq> set es
        \<and> (distinct es \<longrightarrow> distinct ds))"
  using assms
proof (induction kvs arbitrary: kts es)
  case Nil
  then show ?case by auto
next
  case (Cons p kvs)
  from Cons.prems obtain k v a b kts' d1 d2 d3 where *: "p = (k, v)" "kts = (a, b) # kts'"
      "es = d1 @ d2 @ d3" "rep h k a d1" "rep h v b d2" "rep_map h kvs kts' d3"
    by (auto elim: rep_mapE)
  have e: "key_equals h key k \<longleftrightarrow> key_is key a" using *(4) by (rule key_equals_rep)
  show ?case
  proof (cases "key_is key a")
    case True
    then show ?thesis using * e by auto
  next
    case False
    then show ?thesis using Cons.IH [OF *(6)] * e by (auto split: option.splits)
  qed
qed

lemma key_find_mem: "key_find h key kvs = Some s \<Longrightarrow> s \<in> snd ` set kvs"
  by (induction h key kvs rule: key_find.induct) (auto split: if_splits)

lemma rep_map_append:
  "rep_map h kvs kts es \<Longrightarrow> rep_map h kvs' kts' es' \<Longrightarrow> rep_map h (kvs @ kvs') (kts @ kts') (es @ es')"
proof (induction kvs arbitrary: kts es)
  case Nil
  then show ?case by simp
next
  case (Cons p kvs)
  from Cons.prems(1) obtain k v a b kts1 d1 d2 d3 where *: "p = (k, v)" "kts = (a, b) # kts1"
      "es = d1 @ d2 @ d3" "rep h k a d1" "rep h v b d2" "rep_map h kvs kts1 d3"
    by (auto elim: rep_mapE)
  then show ?case using Cons.IH [OF *(6) Cons.prems(2)] rep_map_Cons by fastforce
qed

lemma key_find_append:
  "key_find h key kvs = None \<Longrightarrow> key_find h key (kvs @ kvs') = key_find h key kvs'"
  by (induction h key kvs rule: key_find.induct) (auto split: if_splits)

lemma kv_put_new: "kv_find key kts = None \<Longrightarrow> kv_put key v kts = kts @ [(YScalar key, v)]"
  by (induction key kts rule: kv_find.induct) (auto split: if_splits)

lemma rep_map_frame: "rep_map h kvs kts ds \<Longrightarrow> okstep h h' D \<Longrightarrow> set ds \<inter> D = {} \<Longrightarrow> rep_map h' kvs kts ds"
  using rep_frame_all(3) okstepD(2) by blast

text \<open>A node stands for at most one tree.\<close>

lemma rep_unique_all:
  shows "rep h n t ds \<Longrightarrow> rep h n t' ds' \<Longrightarrow> t = t' \<and> ds = ds'"
    and "rep_seq h ns ts ds \<Longrightarrow> rep_seq h ns ts' ds' \<Longrightarrow> ts = ts' \<and> ds = ds'"
    and "rep_map h kvs kts ds \<Longrightarrow> rep_map h kvs kts' ds' \<Longrightarrow> kts = kts' \<and> ds = ds'"
proof (induction arbitrary: t' ds' and ts' ds' and kts' ds' rule: rep_rep_seq_rep_map.inducts)
  case (rep_Seq n ts ds)
  from rep_Seq.prems obtain ts2 ds2 where "t' = YSeq ts2" "ds' = data_addr h n # ds2"
      "rep_seq h (m_sequence (data_of h n)) ts2 ds2"
    by cases (use rep_Seq(2) in simp_all)
  then show ?case using rep_Seq.IH by blast
next
  case (rep_Map n kts ds)
  from rep_Map.prems obtain kts2 ds2 where "t' = YMap kts2" "ds' = data_addr h n # ds2"
      "rep_map h (m_map (data_of h n)) kts2 ds2"
    by cases (use rep_Map(2) in simp_all)
  then show ?case using rep_Map.IH by blast
next
  case (rep_seq_Cons n t ds ns ts es)
  from rep_seq_Cons.prems show ?case
    by (rule rep_seqE) (use rep_seq_Cons.IH in blast)
next
  case (rep_map_Cons k a ds v b es kvs kts fs)
  from rep_map_Cons.prems show ?case
    by (rule rep_mapE) (use rep_map_Cons.IH in blast)
qed (auto elim: rep.cases)

lemmas rep_unique = rep_unique_all(1)

text \<open>A step that keeps to the subtree in the slot a key leads to.\<close>

lemma rep_map_put_in:
  assumes "rep_map h kvs kts es" and "key_find h key kvs = Some s" and "distinct es"
    and s: "rep h s c dc"
    and st: "okstep h h' D" and v: "rep h' s v dv" "distinct dv"
    and D: "D \<inter> set es \<subseteq> set dc" and dj: "set dv \<inter> set es \<subseteq> set dc"
  shows "\<exists>es'. rep_map h' kvs (kv_put key v kts) es' \<and> distinct es' \<and> set es' \<subseteq> set es \<union> set dv"
  using assms(1-3) D dj
proof (induction kvs arbitrary: kts es)
  case Nil
  then show ?case by simp
next
  case (Cons p kvs)
  from Cons.prems(1) obtain k w a b kts' d1 d2 d3 where *: "p = (k, w)" "kts = (a, b) # kts'"
      "es = d1 @ d2 @ d3" "rep h k a d1" "rep h w b d2" "rep_map h kvs kts' d3"
    by (auto elim: rep_mapE)
  have e: "key_equals h key k \<longleftrightarrow> key_is key a" using *(4) by (rule key_equals_rep)
  show ?case
  proof (cases "key_is key a")
    case True
    then have w: "w = s" using Cons.prems(2) * e by simp
    then have dc: "dc = d2" using rep_unique [OF s] *(5) by simp
    then have n: "set d1 \<inter> D = {}" "set d3 \<inter> D = {}" using Cons.prems(3,4) *(3) by auto
    have "rep h' k a d1" by (rule rep_frame [OF *(4) st n(1)])
    moreover have "rep_map h' kvs kts' d3" by (rule rep_map_frame [OF *(6) st n(2)])
    ultimately have "rep_map h' (p # kvs) (kv_put key v kts) (d1 @ dv @ d3)"
      using v(1) w True * by (auto intro: rep_map_Cons)
    moreover have "distinct (d1 @ dv @ d3)"
      using Cons.prems(3,5) *(3) v(2) dc by auto
    ultimately show ?thesis using *(3) by (intro exI [of _ "d1 @ dv @ d3"]) auto
  next
    case False
    then have f: "key_find h key kvs = Some s" using Cons.prems(2) * e by simp
    have dc: "set dc \<subseteq> set d3"
      using key_find_rep [OF *(6), of key] f rep_unique [OF s] by auto
    then have n: "set d1 \<inter> D = {}" "set d2 \<inter> D = {}" using Cons.prems(3,4) *(3) by auto
    obtain es' where es': "rep_map h' kvs (kv_put key v kts') es'" "distinct es'"
        "set es' \<subseteq> set d3 \<union> set dv"
      using Cons.IH [OF *(6) f] Cons.prems(3-5) *(3) by auto
    have "rep h' k a d1" "rep h' w b d2"
      by (rule rep_frame [OF *(4) st n(1)], rule rep_frame [OF *(5) st n(2)])
    then have "rep_map h' (p # kvs) (kv_put key v kts) (d1 @ d2 @ es')"
      using es'(1) False * by (auto intro: rep_map_Cons)
    moreover have "set d1 \<inter> set dv = {}" "set d2 \<inter> set dv = {}"
      using Cons.prems(3,5) *(3) dc by auto
    then have "distinct (d1 @ d2 @ es')"
      using Cons.prems(3) *(3) es'(2,3) by auto
    ultimately show ?thesis using *(3) es'(3) by (intro exI [of _ "d1 @ d2 @ es'"]) auto
  qed
qed

text \<open>Writing to the slot itself.\<close>

lemma rep_map_put:
  assumes "rep_map h kvs kts es" and "key_find h key kvs = Some s" and "distinct es"
    and st: "okstep h h' {data_addr h s}" and v: "rep h' s v dv" "distinct dv"
    and dj: "set dv \<inter> set es \<subseteq> {data_addr h s}"
  shows "\<exists>es'. rep_map h' kvs (kv_put key v kts) es' \<and> distinct es' \<and> set es' \<subseteq> set es \<union> set dv"
proof -
  obtain c dc where c: "rep h s c dc" using key_find_rep [OF assms(1), of key] assms(2) by auto
  have "data_addr h s \<in> set dc" using c by (rule rep_addr)
  then show ?thesis by (intro rep_map_put_in [OF assms(1-3) c st v]) (use dj in auto)
qed

lemma convert_to_node_step:
  assumes ok: "heap_ok h" and c: "convert_to_node m key h = (h', k)"
  shows "okstep h h' {}" "k = lim h" "lim h' = Suc (lim h)" "rep h' k (YScalar key) [k]"
    "x < lim h \<Longrightarrow> data_addr h' x = data_addr h x" "nd_is_defined h' k" "data_addr h' k = k"
proof -
  obtain h1 t where 1: "new_holder h = (h1, t)" by fastforce
  obtain h2 k' where 2: "create_node t h1 = (h2, k')" by fastforce
  note s1 = okstep_new_holder [OF ok 1]
  note ok1 = okstepD(1) [OF s1(1)]
  note f = rep_fresh_node [OF ok1 2, where s = key]
  have e: "k' = k" "h' = mem_merge m t (nd_set_scalar k key h2)"
    using c by (auto simp: convert_to_node_def 1 2)
  note mg = okstep_merge [OF okstepD(1) [OF f(1)], of m t]
  show "okstep h h' {}"
    using okstep_trans [OF okstep_trans [OF s1(1) f(1)] mg] e by simp
  show "k = lim h" using create_node_eq(1) [OF ok1 2] s1(2) e by simp
  show "lim h' = Suc (lim h)" using f(2) s1(2) e by simp
  show "rep h' k (YScalar key) [k]" using rep_frame [OF f(3) mg] e by simp
  show "data_addr h' x = data_addr h x" if "x < lim h"
    using f(5) [of x] that s1(2) view_eqD(1) [OF s1(3) [of x]] e by simp
  show "nd_is_defined h' k" "data_addr h' k = k" using f(4,6) e by simp_all
qed

text \<open>A collection with a slot under a key: the state \<open>node[key]\<close> leaves, a missing
  key having been inserted with an undefined value.\<close>

definition touched :: "string \<Rightarrow> (ynode \<times> ynode) list \<Rightarrow> (ynode \<times> ynode) list" where
  "touched key kts = (case kv_find key kts of Some _ \<Rightarrow> kts | None \<Rightarrow> kv_put key YUndef kts)"

definition slot_at ::
  "yheap \<Rightarrow> yheap \<Rightarrow> nat \<Rightarrow> nat list \<Rightarrow> (ynode \<times> ynode) list \<Rightarrow> string \<Rightarrow> nat \<Rightarrow> bool" where
  "slot_at h h' n ds kts key s \<longleftrightarrow> okstep h h' {data_addr h n}
     \<and> (\<forall>x < lim h. data_addr h' x = data_addr h x)
     \<and> m_type (data_of h' n) = NMap \<and> key_find h' key (m_map (data_of h' n)) = Some s
     \<and> (\<exists>es. rep_map h' (m_map (data_of h' n)) (touched key kts) es \<and> distinct (data_addr h n # es)
          \<and> set es \<subseteq> set ds \<union> {lim h..})"

lemma new_slot:
  assumes ok: "heap_ok h" and n: "n < lim h" "nd_is_defined h n"
    and 2: "convert_to_node m key h = (h2, k)" and 3: "create_node m h2 = (h3, v)"
  defines "h5 \<equiv> add_dependency v n (insert_map_pair n k v h3)"
  shows "okstep h h5 {data_addr h n}" "\<forall>x < lim h. data_addr h5 x = data_addr h x"
    and "m_map (data_of h5 n) = m_map (data_of h n) @ [(k, v)]"
    and "m_type (data_of h5 n) = m_type (data_of h n)"
    and "rep h5 k (YScalar key) [k]" "rep h5 v YUndef [v]" "k = lim h" "v = Suc (lim h)"
proof -
  note c2 = convert_to_node_step [OF ok 2]
  note c3 = create_node_eq [OF okstepD(1) [OF c2(1)] 3]
  note s3 = okstep_create_node [OF okstepD(1) [OF c2(1)] 3]
  have s23: "okstep h h3 {}" by (rule okstep_trans [OF c2(1) s3]) simp
  have lims: "n < lim h2" "n < lim h3" "k < lim h3" "v < lim h3"
    using n(1) okstepD(4) [OF c2(1) n(1)] okstepD(4) [OF s23 n(1)] c2(2,3) c3(1,2) by auto
  show kv: "k = lim h" "v = Suc (lim h)" using c2(2,3) c3(1) by simp_all
  have an: "data_addr h3 n = data_addr h n" using c2(5) [OF n(1)] c3(7) [OF lims(1)] by simp
  have an1: "data_addr h n < lim h" using heap_okD(4) [OF ok n(1)] .
  have d3: "nd_is_defined h3 k" "nd_is_defined h3 n"
    using c2(3,6,2) c3(8) [of k] okstepD(5) [OF s23 n] by (auto simp: nd_is_defined_def)
  have ak: "data_addr h3 v = v" using c3(3) .
  note p = insert_map_pair_step [OF okstepD(1) [OF s3] lims(2-4) d3]
  let ?h4 = "insert_map_pair n k v h3"
  have n4: "n < lim ?h4" "nd_is_defined ?h4 n" using lims(2) d3(2) p(3,7) by simp_all
  note q = add_dependency_step [OF okstepD(1) [OF p(1)] n4, of v]
  have s35: "okstep h3 h5 {data_addr h n}"
    using okstep_trans [OF p(1) q(1)] an by (simp add: h5_def)
  show "okstep h h5 {data_addr h n}" using okstep_trans [OF s23 s35] by simp
  have v3: "view h3 n = view h n" using hstep_view [OF okstepD(2) [OF s23] n(1)] by simp
  show "m_map (data_of h5 n) = m_map (data_of h n) @ [(k, v)]"
    using p(4) view_eqD(5) [OF v3] q(3) by (simp add: h5_def)
  show "m_type (data_of h5 n) = m_type (data_of h n)"
    using view_eqD(2) [OF v3] d3(2) n(2) p(5) q(3) by (simp add: h5_def nd_type_def nd_is_defined_def)
  show "rep h5 k (YScalar key) [k]"
    using an1 kv by (intro rep_frame [OF rep_frame [OF c2(4) s3] s35]) auto
  have rv3: "rep h3 v YUndef [v]"
    using rep_Undef [of v h3] lims(4) c3(5) ak by (simp add: nd_type_def nd_is_defined_def)
  show "rep h5 v YUndef [v]" using an1 kv by (intro rep_frame [OF rv3 s35]) auto
  show "\<forall>x < lim h. data_addr h5 x = data_addr h x"
    using q(2) p(2) c3(7) c2(3,5) by (simp add: h5_def)
qed

lemma slot_insert:
  assumes mt: "maps_to h h1 n ds kts" and ok: "heap_ok h" and n: "n < lim h" "nd_is_defined h n"
    and miss: "key_find h1 key (m_map (data_of h1 n)) = None"
    and 2: "convert_to_node m key h1 = (h2, k)" and 3: "create_node m h2 = (h3, v)"
  shows "slot_at h (add_dependency v n (insert_map_pair n k v h3)) n ds kts key v"
proof -
  let ?h5 = "add_dependency v n (insert_map_pair n k v h3)"
  have s1: "okstep h h1 {data_addr h n}" and ty: "m_type (data_of h1 n) = NMap"
    and a1: "\<forall>x < lim h. data_addr h1 x = data_addr h x"
    using mt by (simp_all add: maps_to_def)
  obtain es where es: "rep_map h1 (m_map (data_of h1 n)) kts es" "distinct (data_addr h n # es)"
      "set es \<subseteq> set ds \<union> {lim h..}"
    using mt by (auto simp: maps_to_def)
  note w = new_slot [OF okstepD(1) [OF s1] okstepD(4) [OF s1 n(1)] okstepD(5) [OF s1 n] 2 3]
  have l1: "lim h \<le> lim h1" using okstepD(3) [OF s1] by (simp add: grows_def)
  have an: "data_addr h1 n = data_addr h n" "data_addr h n < lim h"
    using a1 n(1) heap_okD(4) [OF ok n(1)] by simp_all
  have s15: "okstep h1 ?h5 {data_addr h n}" using w(1) an by simp
  have s: "okstep h ?h5 {data_addr h n}" by (rule okstep_trans [OF s1 s15]) simp
  have rs: "rep_map ?h5 (m_map (data_of h1 n)) kts es"
    using es(2) by (intro rep_map_frame [OF es(1) s15]) auto
  have rk: "rep_map ?h5 [(k, v)] [(YScalar key, YUndef)] ([k] @ [v] @ [])"
    by (intro rep_map_Cons w rep_map_Nil)
  have none: "kv_find key kts = None" using key_find_rep [OF es(1), of key] miss by simp
  then have r: "rep_map ?h5 (m_map (data_of ?h5 n)) (touched key kts) (es @ [k, v])"
    using rep_map_append [OF rs rk] by (simp add: touched_def kv_put_new w(3))
  have miss5: "key_find ?h5 key (m_map (data_of h1 n)) = None"
    using key_find_rep [OF rs, of key] none by (auto split: option.splits)
  have f: "key_find ?h5 key (m_map (data_of ?h5 n)) = Some v"
    using key_equals_rep [OF w(5), of key] by (simp add: w(3) key_find_append [OF miss5] key_is_def)
  have "k \<notin> set es" "v \<notin> set es"
    using rep_lims(3) [OF okstepD(1) [OF s1] es(1)] w(7,8) by auto
  then have d: "distinct (data_addr h n # es @ [k, v])" "set (es @ [k, v]) \<subseteq> set ds \<union> {lim h..}"
    using es(2,3) w(7,8) an(2) l1 by auto
  have "\<forall>x < lim h. data_addr ?h5 x = data_addr h x" using w(2) a1 l1 by auto
  then show ?thesis unfolding slot_at_def using s ty w(4) r d f by metis
qed

lemma slot_found:
  assumes mt: "maps_to h h1 n ds kts" and n: "n < lim h" "nd_is_defined h n"
    and f: "key_find h1 key (m_map (data_of h1 n)) = Some s"
  shows "slot_at h (add_dependency s n h1) n ds kts key s"
proof -
  have s1: "okstep h h1 {data_addr h n}" using mt by (simp add: maps_to_def)
  note n1 = okstepD(4) [OF s1 n(1)] okstepD(5) [OF s1 n]
  obtain es where es: "rep_map h1 (m_map (data_of h1 n)) kts es" "distinct (data_addr h n # es)"
      "set es \<subseteq> set ds \<union> {lim h..}"
    using mt by (auto simp: maps_to_def)
  note q = add_dependency_step [OF okstepD(1) [OF s1] n1, of s]
  have t: "touched key kts = kts"
    using key_find_rep [OF es(1), of key] f by (auto simp: touched_def)
  have r: "rep_map (add_dependency s n h1) (m_map (data_of h1 n)) kts es"
    by (rule rep_map_frame [OF es(1) q(1)]) simp
  have k: "key_find (add_dependency s n h1) key kvs = key_find h1 key kvs" for kvs
    by (induction kvs) (auto simp: key_equals_def nd_type_def q(3))
  have "okstep h (add_dependency s n h1) {data_addr h n}"
    by (rule okstep_trans [OF s1 q(1)]) simp
  then show ?thesis
    using mt es r f by (auto simp: slot_at_def maps_to_def q(2,3) k t)
qed

text \<open>\<open>node[key]\<close> on a non-const node.\<close>

lemma nd_get_slot:
  assumes ok: "heap_ok h" and r: "rep h n t ds" "distinct ds" and d: "is_defined t"
  shows "case convert_to_map t key of
      Inl e \<Rightarrow> nd_get m n key h = Inl e
    | Inr kts \<Rightarrow> \<exists>h' s. nd_get m n key h = Inr (h', s) \<and> slot_at h h' n ds kts key s"
proof (cases "convert_to_map t key")
  case (Inl e)
  then obtain s where t: "t = YScalar s" "e = BadSubscript key"
    by (auto simp: convert_to_map_def split: ynode.splits)
  then have "m_type (data_of h n) = NScalar"
    using rep_type [OF r(1)] rep_defined [OF ok r(1)] d rep_data_type [OF r(1)] by simp
  then show ?thesis using Inl t by (simp add: nd_get_def)
next
  case (Inr kts)
  have n: "n < lim h" "nd_is_defined h n" using rep_lim [OF r(1)] rep_defined [OF ok r(1)] d by simp_all
  have ty: "m_type (data_of h n) \<noteq> NScalar"
    using Inr rep_type [OF r(1)] rep_data_type [OF r(1) n(2)]
    by (auto simp: convert_to_map_def split: ynode.splits)
  let ?h1 = "nd_convert_to_map m n h"
  note mt = convert_maps_to [OF ok r d Inr, of m]
  show ?thesis
  proof (cases "key_find ?h1 key (m_map (data_of ?h1 n))")
    case (Some s)
    then show ?thesis using slot_found [OF mt n Some] Inr ty by (simp add: nd_get_def)
  next
    case None
    obtain h2 k where 2: "convert_to_node m key ?h1 = (h2, k)" by fastforce
    obtain h3 v where 3: "create_node m h2 = (h3, v)" by fastforce
    show ?thesis using slot_insert [OF mt ok n None 2 3] Inr ty None 2 3 by (simp add: nd_get_def)
  qed
qed

lemma slot_atD:
  assumes "slot_at h h' n ds kts key s" and "n < lim h" and "nd_is_defined h n"
  shows "okstep h h' {data_addr h n}" "n < lim h'" "nd_is_defined h' n"
    "data_addr h' n = data_addr h n" "nd_type h' n = NMap"
    "\<exists>es. rep h' n (YMap (touched key kts)) (data_addr h n # es) \<and> distinct (data_addr h n # es)
      \<and> set es \<subseteq> set ds \<union> {lim h..} \<and> data_addr h' s \<in> set es"
    "\<exists>ts dss. kv_find key (touched key kts) = Some ts \<and> rep h' s ts dss"
proof -
  show s: "okstep h h' {data_addr h n}" and a: "data_addr h' n = data_addr h n"
    using assms by (simp_all add: slot_at_def)
  show n: "n < lim h'" "nd_is_defined h' n" using okstepD(4,5) [OF s] assms by simp_all
  show ty: "nd_type h' n = NMap"
    using assms(1) n(2) by (simp add: slot_at_def nd_type_def nd_is_defined_def)
  obtain es where es: "rep_map h' (m_map (data_of h' n)) (touched key kts) es"
      "distinct (data_addr h n # es)" "set es \<subseteq> set ds \<union> {lim h..}"
      "key_find h' key (m_map (data_of h' n)) = Some s"
    using assms(1) by (auto simp: slot_at_def)
  obtain ts dss where t: "kv_find key (touched key kts) = Some ts" "rep h' s ts dss" "set dss \<subseteq> set es"
    using key_find_rep [OF es(1), of key] es(4) by auto
  then show "\<exists>ts dss. kv_find key (touched key kts) = Some ts \<and> rep h' s ts dss" by blast
  show "\<exists>es. rep h' n (YMap (touched key kts)) (data_addr h n # es) \<and> distinct (data_addr h n # es)
      \<and> set es \<subseteq> set ds \<union> {lim h..} \<and> data_addr h' s \<in> set es"
    using rep_Map [OF n(1) ty es(1)] es(2,3) a rep_addr [OF t(2)] t(3) by auto
qed

text \<open>Writing to the slot, seen from the collection.\<close>

lemma kv_put_touched [simp]: "kv_put key v (touched key kts) = kv_put key v kts"
  by (simp add: touched_def split: option.split)

lemma slot_put:
  assumes ok: "heap_ok h" and sl: "slot_at h h1 n ds kts key s" and n: "n < lim h" "nd_is_defined h n"
    and st: "okstep h1 h2 {data_addr h1 s}" and v: "rep h2 s v dv" "distinct dv"
    and dj: "set dv \<inter> (set ds \<union> {lim h..<lim h1}) \<subseteq> {data_addr h1 s}" "data_addr h n \<in> set ds"
  shows "\<exists>es. rep h2 n (YMap (kv_put key v kts)) (data_addr h n # es) \<and> distinct (data_addr h n # es)
      \<and> set es \<subseteq> set ds \<union> {lim h..} \<union> set dv"
proof -
  note sd = slot_atD [OF sl n]
  obtain es where es: "rep_map h1 (m_map (data_of h1 n)) (touched key kts) es"
      "distinct (data_addr h n # es)" "set es \<subseteq> set ds \<union> {lim h..}"
      "key_find h1 key (m_map (data_of h1 n)) = Some s"
    using sl by (auto simp: slot_at_def)
  have m: "data_addr h1 s \<in> set es"
    using key_find_rep [OF es(1), of key] es(4) rep_addr by fastforce
  have l: "set es \<subseteq> {..<lim h1}" using rep_lims(3) [OF okstepD(1) [OF sd(1)] es(1)] .
  have d: "set dv \<inter> set es \<subseteq> {data_addr h1 s}"
    using dj(1) es(3) l by fastforce
  obtain es' where es': "rep_map h2 (m_map (data_of h1 n)) (kv_put key v kts) es'" "distinct es'"
      "set es' \<subseteq> set es \<union> set dv"
    using rep_map_put [OF es(1,4) _ st v d] es(2) by auto
  have nv: "data_addr h n \<noteq> data_addr h1 s" "data_addr h n \<notin> set dv"
    using es(2) m dj by auto
  have vw: "view h2 n = view h1 n"
    using hstep_view [OF okstepD(2) [OF st] sd(2)] sd(4) nv(1) by simp
  have "rep h2 n (YMap (kv_put key v kts)) (data_addr h2 n # es')"
    by (rule rep_Map) (use es'(1) view_eqD [OF vw] sd(5) okstepD(4) [OF st sd(2)] in simp_all)
  moreover have "distinct (data_addr h n # es')" "set es' \<subseteq> set ds \<union> {lim h..} \<union> set dv"
    using es' es(2,3) nv by auto
  ultimately show ?thesis using view_eqD(1) [OF vw] sd(4) by metis
qed

end
