(* ===== verification/YamlRefine.thy ===== *)
theory YamlRefine
  imports YamlStore
begin

text \<open>
  The operations on handles implement the operations on trees: on a tree that
  shares nothing with itself each leaves the tree that \<open>YamlTool\<close> computes, or
  fails with the same exception, and leaves every tree elsewhere in the heap
  alone.
\<close>

section \<open>Assignments to a slot\<close>

lemma rep_view:
  assumes "rep h v t ds" and "view h' s = view h v" and "okstep h h' D"
    and "set (tl ds) \<inter> D = {}" and "s < lim h'"
  shows "rep h' s t ds"
  using assms(1)
proof cases
  case rep_Undef
  then show ?thesis using rep_rep_seq_rep_map.rep_Undef [of s h'] view_eqD [OF assms(2)] assms(5) by simp
next
  case rep_Null
  then show ?thesis using rep_rep_seq_rep_map.rep_Null [of s h'] view_eqD [OF assms(2)] assms(5) by simp
next
  case rep_Scalar
  then show ?thesis using rep_rep_seq_rep_map.rep_Scalar [of s h'] view_eqD [OF assms(2)] assms(5) by simp
next
  case (rep_Seq ts es)
  have "rep_seq h' (m_sequence (data_of h v)) ts es"
    by (rule rep_frame_all(2) [OF okstepD(2) [OF assms(3)] rep_Seq(5)]) (use rep_Seq assms(4) in auto)
  then show ?thesis
    using rep_rep_seq_rep_map.rep_Seq [of s h' ts es] view_eqD [OF assms(2)] assms(5) rep_Seq by simp
next
  case (rep_Map kts es)
  have "rep_map h' (m_map (data_of h v)) kts es"
    by (rule rep_frame_all(3) [OF okstepD(2) [OF assms(3)] rep_Map(5)]) (use rep_Map assms(4) in auto)
  then show ?thesis
    using rep_rep_seq_rep_map.rep_Map [of s h' kts es] view_eqD [OF assms(2)] assms(5) rep_Map by simp
qed

text \<open>Nodes with the same data stand for the same tree.\<close>

lemma same_data_view: "data_addr h x = data_addr h y \<Longrightarrow> view h x = view h y"
  by (rule view_data) (simp_all add: data_of_def)

lemma same_data_rep:
  assumes "heap_ok h" and "rep h x t ds" and "data_addr h y = data_addr h x" and "y < lim h"
  shows "rep h y t ds"
  by (rule rep_view [OF assms(2) same_data_view okstep_refl, where D = "{}"]) (use assms in simp_all)

lemma assign_string_step:
  assumes "heap_ok h" and "s < lim h"
  shows "okstep h (assign_string (m, s) str h) {data_addr h s}"
    and "rep (assign_string (m, s) str h) s (YScalar str) [data_addr h s]"
  using set_scalar_step [OF assms, of str] assms(2)
    rep_scalar_node [of s "nd_set_scalar s str h" str] by (simp_all add: assign_string_def)

lemma assign_node_step:
  assumes ok: "heap_ok h" and s: "s < lim h" and v: "rep h v t ds" "nd_is_defined h v"
    and dj: "data_addr h s \<notin> set ds"
  shows "okstep h (assign_node (m, s) (m', v) h) {data_addr h s}"
    and "rep (assign_node (m, s) (m', v) h) s t ds"
proof -
  have "\<not> nd_is h s v"
    using rep_addr [OF v(1)] dj by (auto simp: nd_is_def data_addr_def)
  then have e: "assign_node (m, s) (m', v) h = mem_merge m m' (set_ref s v h)"
    by (simp add: assign_node_def)
  note w = set_ref_step [OF ok s rep_lim [OF v(1)] v(2)]
  note mg = okstep_merge [OF okstepD(1) [OF w(1)], of m m']
  show st: "okstep h (assign_node (m, s) (m', v) h) {data_addr h s}"
    unfolding e by (rule okstep_trans [OF w(1) mg]) simp
  have "set (tl ds) \<subseteq> set ds" by (cases ds) auto
  then show "rep (assign_node (m, s) (m', v) h) s t ds"
    using dj by (intro rep_view [OF v(1) _ st]) (use w s in \<open>auto simp: e\<close>)
qed

lemma new_handle_step:
  assumes ok: "heap_ok h" and n: "new_handle h = (h', (m, v))"
  shows "okstep h h' {}" "v = lim h" "rep h' v YNull [v]" "lim h' = Suc (lim h)"
    "nd_is_defined h' v" "x < lim h \<Longrightarrow> data_addr h' x = data_addr h x"
proof -
  obtain h1 t where 1: "new_holder h = (h1, t)" by fastforce
  obtain h2 k where 2: "create_node t h1 = (h2, k)" by fastforce
  note s1 = okstep_new_holder [OF ok 1]
  note ok1 = okstepD(1) [OF s1(1)]
  note c = create_node_eq [OF ok1 2]
  note s2 = okstep_create_node [OF ok1 2]
  have e: "v = k" "h' = nd_set_null v h2" using n by (auto simp: new_handle_def 1 2)
  have l: "v < lim h2" using c(1,2) e(1) by simp
  note w = set_null_step [OF okstepD(1) [OF s2] l]
  have a: "data_addr h2 v = v" using c(3) e(1) by simp
  show v: "v = lim h" using c(1) s1(2) e(1) by simp
  show "okstep h h' {}"
  proof (rule okstep_fresh [OF ok])
    have "okstep h h2 {}" by (rule okstep_trans [OF s1(1) s2]) simp
    then show "okstep h h' {v}" using okstep_trans [OF _ w(1)] a e(2) by simp
  qed (simp add: v)
  show "lim h' = Suc (lim h)" using w(4) c(2) s1(2) e(2) by simp
  have d: "data_of h' v = data_set_null (data_mark_defined (data_of h2 v))" using w(2) e(2) by simp
  show "rep h' v YNull [v]"
    using rep_Null [of v h'] d w(3,4) a l e(2) by (simp add: nd_type_def data_set_null_def)
  show "nd_is_defined h' v" using d by (simp add: nd_is_defined_def data_set_null_def)
  show "data_addr h' x = data_addr h x" if "x < lim h"
    using w(3) c(7) [of x] that s1(2) view_eqD(1) [OF s1(3) [of x]] e(2) by simp
qed

lemma assign_null_step:
  assumes ok: "heap_ok h" and s: "s < lim h"
  shows "okstep h (assign_null (m, s) h) {data_addr h s}"
    and "rep (assign_null (m, s) h) s YNull [lim h]"
proof -
  obtain h1 m' v where n: "new_handle h = (h1, (m', v))" by (metis prod.exhaust)
  note w = new_handle_step [OF ok n]
  have a: "data_addr h1 s = data_addr h s" "s < lim h1" using w(4,6) s by simp_all
  have dj: "data_addr h1 s \<notin> set [v]" using heap_okD(4) [OF ok s] a w(2) by simp
  note q = assign_node_step [OF okstepD(1) [OF w(1)] a(2) w(3,5) dj, of m m']
  show "okstep h (assign_null (m, s) h) {data_addr h s}"
    using okstep_trans [OF w(1) q(1)] a by (simp add: assign_null_def n)
  show "rep (assign_null (m, s) h) s YNull [lim h]"
    using q(2) w(2) by (simp add: assign_null_def n)
qed

lemma assign_data_step:
  assumes ok: "heap_ok h" and s: "s < lim h"
  shows "okstep h (assign_data (m, s) str h) {data_addr h s}"
    and "rep (assign_data (m, s) str h) s (YScalar str) [lim h]"
proof -
  obtain h1 t where 1: "new_holder h = (h1, t)" by fastforce
  obtain h2 x where 2: "create_node t h1 = (h2, x)" by fastforce
  note s1 = okstep_new_holder [OF ok 1]
  note ok1 = okstepD(1) [OF s1(1)]
  note f = rep_fresh_node [OF ok1 2, where s = str]
  let ?h3 = "nd_set_scalar x str h2"
  let ?h4 = "set_data s x ?h3"
  have x: "x = lim h" using create_node_eq(1) [OF ok1 2] s1(2) by simp
  have l: "s < lim ?h3" "x < lim ?h3" using f(2) s1(2) s x by simp_all
  have a: "data_addr ?h3 s = data_addr h s"
    using f(5) [of s] s s1(2) view_eqD(1) [OF s1(3) [of s]] by simp
  note w = set_data_step [OF okstepD(1) [OF f(1)] l f(6)]
  note mg = okstep_merge [OF okstepD(1) [OF w(1)], of m t]
  have e: "assign_data (m, s) str h = mem_merge m t ?h4" by (simp add: assign_data_def 1 2)
  have s13: "okstep h ?h3 {}" by (rule okstep_trans [OF s1(1) f(1)]) simp
  have st: "okstep ?h3 (mem_merge m t ?h4) {data_addr h s}"
    using okstep_trans [OF w(1) mg] a by simp
  show "okstep h (assign_data (m, s) str h) {data_addr h s}"
    unfolding e by (rule okstep_trans [OF s13 st]) simp
  have "rep (mem_merge m t ?h4) s (YScalar str) [x]"
    by (rule rep_view [OF f(3) _ st]) (use w heap_okD(4) [OF ok s] l x in simp_all)
  then show "rep (assign_data (m, s) str h) s (YScalar str) [lim h]" by (simp add: e x)
qed

section \<open>Writing operations\<close>

text \<open>\<open>wrote h h' n ds t E\<close>: the step changes the tree at \<open>n\<close>, with data \<open>ds\<close>, into
  \<open>t\<close>, which shares nothing with itself; of data outside \<open>ds\<close> it comes to use
  only fresh data and \<open>E\<close>, trees outside \<open>ds\<close> stay as they are, and the nodes that
  shared the data of \<open>n\<close> still do.\<close>

definition aliases_kept :: "yheap \<Rightarrow> yheap \<Rightarrow> nat \<Rightarrow> bool" where
  "aliases_kept h h' a \<longleftrightarrow> (\<forall>x < lim h. data_addr h x = a \<longrightarrow> data_addr h' x = a)"

lemma aliases_refl [simp]: "aliases_kept h h a"
  by (simp add: aliases_kept_def)

lemma aliases_trans:
  "aliases_kept h h1 a \<Longrightarrow> aliases_kept h1 h2 a \<Longrightarrow> lim h \<le> lim h1 \<Longrightarrow> aliases_kept h h2 a"
  by (auto simp: aliases_kept_def)

lemma aliases_okstep:
  assumes "okstep h h' D" and "a \<notin> D"
  shows "aliases_kept h h' a"
  unfolding aliases_kept_def
proof (intro allI impI)
  fix x assume "x < lim h" "data_addr h x = a"
  then have "view h' x = view h x" using hstep_view [OF okstepD(2) [OF assms(1)]] assms(2) by simp
  then show "data_addr h' x = a" using view_eqD(1) \<open>data_addr h x = a\<close> by metis
qed

definition wrote :: "yheap \<Rightarrow> yheap \<Rightarrow> nat \<Rightarrow> nat list \<Rightarrow> ynode \<Rightarrow> nat set \<Rightarrow> bool" where
  "wrote h h' n ds t E \<longleftrightarrow> okstep h h' (set ds) \<and> aliases_kept h h' (data_addr h n)
     \<and> (\<exists>ds'. rep h' n t ds' \<and> distinct ds' \<and> set ds' \<subseteq> set ds \<union> {lim h..} \<union> E)"

lemma wroteD:
  assumes "wrote h h' n ds t E"
  shows "heap_ok h'" and "grows h h'"
    and "rep h x tx dx \<Longrightarrow> set dx \<inter> set ds = {} \<Longrightarrow> rep h' x tx dx"
    and "\<exists>ds'. rep h' n t ds' \<and> distinct ds' \<and> set ds' \<subseteq> set ds \<union> {lim h..} \<union> E"
  using assms okstepD rep_frame by (auto simp: wrote_def)

lemma wrote_trans:
  assumes ok: "heap_ok h" and n: "n < lim h" and w: "wrote h h1 n ds t1 {}"
    and r: "set ds1 \<subseteq> set ds \<union> {lim h..}" and 2: "wrote h1 h2 n ds1 t E"
  shows "wrote h h2 n ds t E"
proof -
  have 1: "okstep h h1 (set ds)" and a: "aliases_kept h h1 (data_addr h n)"
    using w by (simp_all add: wrote_def)
  have an: "data_addr h1 n = data_addr h n" using a n by (simp add: aliases_kept_def)
  have "okstep h h2 (set ds)"
  proof (rule okstep_fresh [OF ok])
    show "okstep h h2 (set ds \<union> set ds1)"
      using 2 by (intro okstep_trans [OF 1]) (auto simp: wrote_def)
  qed (use r in auto)
  moreover have l: "lim h \<le> lim h1" using okstepD(3) [OF 1] by (simp add: grows_def)
  obtain ds' where ds': "rep h2 n t ds'" "distinct ds'" "set ds' \<subseteq> set ds1 \<union> {lim h1..} \<union> E"
    using wroteD(4) [OF 2] by (elim exE conjE)
  have "{lim h1..} \<subseteq> {lim h..}" using l by simp
  with r have "set ds1 \<union> {lim h1..} \<union> E \<subseteq> set ds \<union> {lim h..} \<union> E"
    by (intro Un_mono Un_least subset_refl) (simp_all add: le_supI2)
  with ds'(3) have "set ds' \<subseteq> set ds \<union> {lim h..} \<union> E" by (rule subset_trans)
  moreover have "aliases_kept h h2 (data_addr h n)"
    using aliases_trans [OF a _ l] 2 an by (simp add: wrote_def)
  ultimately show ?thesis unfolding wrote_def by (intro conjI exI [of _ ds'] ds')
qed

lemma put_wrote:
  assumes ok: "heap_ok h" and r: "rep h n t ds" and n: "nd_is_defined h n"
    and sl: "slot_at h h1 n ds kts key s"
    and st: "okstep h1 h2 {data_addr h1 s}" and v: "rep h2 s v dv" "distinct dv"
    and dj: "set dv \<inter> (set ds \<union> {lim h..<lim h1}) \<subseteq> {data_addr h1 s}"
  shows "wrote h h2 n ds (YMap (kv_put key v kts)) (set dv)"
proof -
  have l: "n < lim h" using r by (rule rep_lim)
  have m: "data_addr h n \<in> set ds" using r by (rule rep_addr)
  note sd = slot_atD [OF sl l n]
  obtain es where es: "set es \<subseteq> set ds \<union> {lim h..}" "data_addr h1 s \<in> set es"
      "distinct (data_addr h n # es)"
    using sd(6) by blast
  then have nv: "data_addr h n \<noteq> data_addr h1 s" by auto
  have "okstep h h2 (set ds)"
  proof (rule okstep_fresh [OF ok])
    show "okstep h h2 {data_addr h n, data_addr h1 s}" by (rule okstep_trans [OF sd(1) st]) simp
  qed (use es m in auto)
  moreover have "aliases_kept h h2 (data_addr h n)"
  proof (rule aliases_trans)
    show "aliases_kept h h1 (data_addr h n)" using sl by (simp add: slot_at_def aliases_kept_def)
    show "aliases_kept h1 h2 (data_addr h n)" using nv by (intro aliases_okstep [OF st]) simp
    show "lim h \<le> lim h1" using okstepD(3) [OF sd(1)] by (simp add: grows_def)
  qed
  moreover obtain es where es: "rep h2 n (YMap (kv_put key v kts)) (data_addr h n # es)"
      "distinct (data_addr h n # es)" "set es \<subseteq> set ds \<union> {lim h..} \<union> set dv"
    using slot_put [OF ok sl l n st v dj m] by blast
  moreover have "set (data_addr h n # es) \<subseteq> set ds \<union> {lim h..} \<union> set dv" using es(3) m by auto
  ultimately show ?thesis unfolding wrote_def by blast
qed

lemma touch_wrote:
  assumes ok: "heap_ok h" and r: "rep h n t ds" and n: "nd_is_defined h n"
    and sl: "slot_at h h1 n ds kts key s"
  shows "wrote h h1 n ds (YMap (touched key kts)) {}"
proof -
  have m: "data_addr h n \<in> set ds" using r by (rule rep_addr)
  note sd = slot_atD [OF sl rep_lim [OF r] n]
  have "okstep h h1 (set ds)" using okstep_fresh [OF ok sd(1)] m by auto
  moreover have "aliases_kept h h1 (data_addr h n)" using sl by (simp add: slot_at_def aliases_kept_def)
  moreover obtain es where es: "rep h1 n (YMap (touched key kts)) (data_addr h n # es)"
      "distinct (data_addr h n # es)" "set es \<subseteq> set ds \<union> {lim h..}"
    using sd(6) by blast
  moreover have "set (data_addr h n # es) \<subseteq> set ds \<union> {lim h..} \<union> {}" using es(3) m by auto
  ultimately show ?thesis unfolding wrote_def by blast
qed

text \<open>A slot found and then written by a step that keeps to the slot.\<close>

lemma slot_write_wrote:
  assumes ok: "heap_ok h" and r: "rep h n t ds" "distinct ds" and n: "nd_is_defined h n"
    and sl: "slot_at h h1 n ds kts key s"
    and w: "okstep h1 h2 {data_addr h1 s}" "rep h2 s v [a]"
    and a: "a = data_addr h1 s \<or> a = lim h1"
  shows "wrote h h2 n ds (YMap (kv_put key v kts)) {}"
proof -
  note sd = slot_atD [OF sl rep_lim [OF r(1)] n]
  obtain es where es: "set es \<subseteq> set ds \<union> {lim h..}" "data_addr h1 s \<in> set es" using sd(6) by blast
  have l: "lim h \<le> lim h1" using okstepD(3) [OF sd(1)] by (simp add: grows_def)
  have "set ds \<subseteq> {..<lim h}" using rep_lims(1) [OF ok r(1)] .
  then have dj: "set [a] \<inter> (set ds \<union> {lim h..<lim h1}) \<subseteq> {data_addr h1 s}" using a l by auto
  have "wrote h h2 n ds (YMap (kv_put key v kts)) (set [a])"
    by (rule put_wrote [OF ok r(1) n sl w _ dj]) simp
  moreover have "set [a] \<subseteq> set ds \<union> {lim h..}" using a es l by auto
  ultimately show ?thesis unfolding wrote_def by (simp add: insert_absorb)
qed

lemma slot_lim:
  assumes "slot_at h h' n ds kts key s" and "n < lim h" and "nd_is_defined h n"
  shows "s < lim h'"
  using slot_atD(7) [OF assms] rep_lim by blast

lemma set_refines:
  assumes ok: "heap_ok h" and r: "rep h n t ds" "distinct ds"
  shows "case set_any t key a of
      Inl e \<Rightarrow> hs_set (m, n) key a h = (Inl e, h)
    | Inr t' \<Rightarrow> \<exists>h'. hs_set (m, n) key a h = (Inr (), h') \<and> wrote h h' n ds t' {}"
proof (cases "is_defined t")
  case False
  then show ?thesis using rep_defined [OF ok r(1)] by (simp add: set_any_def hs_set_def)
next
  case True
  then have n: "nd_is_defined h n" using rep_defined [OF ok r(1)] by simp
  show ?thesis
  proof (cases "encode_any a")
    case None
    then show ?thesis using True n
      by (simp add: set_any_def hs_set_def registry_write_def hs_write_def)
  next
    case (Some str)
    note g = nd_get_slot [OF ok r True, where key = key and m = m]
    show ?thesis
    proof (cases "convert_to_map t key")
      case (Inl e)
      then show ?thesis using g True n Some
        by (simp add: set_any_def hs_set_def registry_write_def hs_write_def node_assign_def)
    next
      case (Inr kts)
      then obtain h1 s where h1: "nd_get m n key h = Inr (h1, s)" "slot_at h h1 n ds kts key s"
        using g by auto
      have ok1: "heap_ok h1" and s: "s < lim h1"
        using slot_atD(1) [OF h1(2) rep_lim [OF r(1)] n] okstepD slot_lim [OF h1(2) rep_lim [OF r(1)] n]
        by auto
      have w1: "wrote h (assign_string (m, s) str h1) n ds (YMap (kv_put key (YScalar str) kts)) {}"
        by (rule slot_write_wrote [OF ok r n h1(2) assign_string_step [OF ok1 s]]) simp
      have w2: "wrote h (assign_data (m, s) str h1) n ds (YMap (kv_put key (YScalar str) kts)) {}"
        by (rule slot_write_wrote [OF ok r n h1(2) assign_data_step [OF ok1 s]]) simp
      show ?thesis using w1 w2 Inr h1(1) True n Some
        by (cases a) (simp_all add: set_any_def hs_set_def registry_write_def hs_write_def node_assign_def)
    qed
  qed
qed

lemma set_null_refines:
  assumes ok: "heap_ok h" and r: "rep h n t ds" "distinct ds" and d: "is_defined t"
  shows "case set_null t key of
      Inl e \<Rightarrow> hs_set_null (m, n) key h = (Inl e, h)
    | Inr t' \<Rightarrow> \<exists>h'. hs_set_null (m, n) key h = (Inr (), h') \<and> wrote h h' n ds t' {}"
proof -
  have n: "nd_is_defined h n" using rep_defined [OF ok r(1)] d by simp
  note g = nd_get_slot [OF ok r d, where key = key and m = m]
  show ?thesis
  proof (cases "convert_to_map t key")
    case (Inl e)
    then show ?thesis using g by (simp add: set_null_def hs_set_null_def node_assign_def)
  next
    case (Inr kts)
    then obtain h1 s where h1: "nd_get m n key h = Inr (h1, s)" "slot_at h h1 n ds kts key s"
      using g by auto
    have ok1: "heap_ok h1" and s: "s < lim h1"
      using slot_atD(1) [OF h1(2) rep_lim [OF r(1)] n] okstepD slot_lim [OF h1(2) rep_lim [OF r(1)] n]
      by auto
    have "wrote h (assign_null (m, s) h1) n ds (YMap (kv_put key YNull kts)) {}"
      by (rule slot_write_wrote [OF ok r n h1(2) assign_null_step [OF ok1 s]]) simp
    then show ?thesis using Inr h1(1) by (simp add: set_null_def hs_set_null_def node_assign_def)
  qed
qed

lemma add_node_refines:
  assumes ok: "heap_ok h" and r: "rep h n t ds" "distinct ds"
    and v: "rep h v tv dv" "distinct dv" "set dv \<inter> set ds = {}"
  shows "case add_node t key tv of
      Inl e \<Rightarrow> hs_add_node (m, n) key (m', v) h = (Inl e, h)
    | Inr t' \<Rightarrow> \<exists>h'. hs_add_node (m, n) key (m', v) h = (Inr (), h') \<and> wrote h h' n ds t' (set dv)
        \<and> rep h' v tv dv"
proof (cases "is_defined t \<and> is_defined tv")
  case False
  then show ?thesis using rep_defined [OF ok r(1)] rep_defined [OF ok v(1)]
    by (auto simp: add_node_def hs_add_node_def)
next
  case True
  then have n: "nd_is_defined h n" "nd_is_defined h v"
    using rep_defined [OF ok r(1)] rep_defined [OF ok v(1)] by simp_all
  note g = nd_get_slot [OF ok r conjunct1 [OF True], where key = key and m = m]
  show ?thesis
  proof (cases "convert_to_map t key")
    case (Inl e)
    then show ?thesis using g True n by (simp add: add_node_def hs_add_node_def node_assign_def)
  next
    case (Inr kts)
    then obtain h1 s where h1: "nd_get m n key h = Inr (h1, s)" "slot_at h h1 n ds kts key s"
      using g by auto
    note l = rep_lim [OF r(1)] and lv = rep_lim [OF v(1)]
    note sd = slot_atD [OF h1(2) l n(1)]
    have s: "s < lim h1" by (rule slot_lim [OF h1(2) l n(1)])
    have m: "data_addr h n \<in> set ds" using r(1) by (rule rep_addr)
    then have v1: "rep h1 v tv dv" using v(3) by (intro rep_frame [OF v(1) sd(1)]) auto
    obtain es where es: "set es \<subseteq> set ds \<union> {lim h..}" "data_addr h1 s \<in> set es" using sd(6) by blast
    have dl: "set dv \<subseteq> {..<lim h}" using rep_lims(1) [OF ok v(1)] .
    have sv: "data_addr h1 s \<notin> set dv" using es dl v(3) by fastforce
    note a = assign_node_step [OF okstepD(1) [OF sd(1)] s v1 okstepD(5) [OF sd(1) lv n(2)] sv, of m m']
    have "wrote h (assign_node (m, s) (m', v) h1) n ds (YMap (kv_put key tv kts)) (set dv)"
      by (rule put_wrote [OF ok r(1) n(1) h1(2) a v(2)]) (use v(3) dl in auto)
    moreover have "rep (assign_node (m, s) (m', v) h1) v tv dv"
      using sv by (intro rep_frame [OF v1 a(1)]) simp
    ultimately show ?thesis using Inr h1(1) True n
      by (simp add: add_node_def hs_add_node_def node_assign_def)
  qed
qed

lemma rep_seq_append:
  "rep_seq h xs ts es \<Longrightarrow> rep_seq h xs' ts' es' \<Longrightarrow> rep_seq h (xs @ xs') (ts @ ts') (es @ es')"
proof (induction xs arbitrary: ts es)
  case Nil
  then show ?case by simp
next
  case (Cons x xs)
  from Cons.prems(1) obtain t ts1 d1 d2 where "ts = t # ts1" "es = d1 @ d2" "rep h x t d1"
      "rep_seq h xs ts1 d2"
    by (auto elim: rep_seqE)
  then show ?case using Cons.IH [OF _ Cons.prems(2)] rep_seq_Cons by fastforce
qed

text \<open>The element appended to a sequence.\<close>

lemma append_step:
  assumes ok: "heap_ok h" and n: "n < lim h" "nd_is_defined h n" and ty: "m_type (data_of h n) = NSequence"
    and v: "v < lim h" "nd_is_defined h v"
  defines "h1 \<equiv> add_dependency v n (upd_data n (\<lambda>d. d\<lparr>m_sequence := m_sequence d @ [v]\<rparr>) h)"
  defines "h2 \<equiv> upd_node n (\<lambda>x. x\<lparr>m_index := m_amount h1\<rparr>) (h1\<lparr>m_amount := Suc (m_amount h1)\<rparr>)"
  shows "okstep h h2 {data_addr h n}" "m_sequence (data_of h2 n) = m_sequence (data_of h n) @ [v]"
    "nd_type h2 n = NSequence" "data_addr h2 x = data_addr h x"
proof -
  let ?f = "\<lambda>d. d\<lparr>m_sequence := m_sequence d @ [v]\<rparr>"
  let ?h = "upd_data n ?f h"
  have g: "grows h ?h" by (rule grows_upd_data) (use n(2) in \<open>simp add: nd_is_defined_def\<close>)
  have "data_ok ?h (data_of h n)" by (rule data_ok_grows [OF heap_okD(5) [OF ok n(1)] g])
  then have "data_ok ?h (?f (data_of h n))"
    using v grows_defined [OF g v] by (auto simp: data_ok_def)
  then have s1: "okstep h ?h {data_addr h n}"
    by (intro okstep_upd_data ok n(1)) (use n(2) in \<open>simp_all add: nd_is_defined_def\<close>)
  have h1: "h1 = ?h"
    using grows_defined [OF g v] grows_defined [OF g n] by (simp add: h1_def add_dependency_def mark_defined_id)
  have s2: "okstep ?h (?h\<lparr>m_amount := Suc (m_amount ?h)\<rparr>) {}"
    by (rule okstep_cong [OF okstepD(1) [OF s1]]) simp_all
  have s3: "okstep (?h\<lparr>m_amount := Suc (m_amount ?h)\<rparr>) h2 {}"
    unfolding h2_def h1
    by (rule okstep_upd_node [OF okstepD(1) [OF s2]])
       (use okstepD(1) [OF s2] in \<open>auto simp: heap_ok_def node_ok_def\<close>)
  have s23: "okstep ?h h2 {}" by (rule okstep_trans [OF s2 s3]) simp
  show "okstep h h2 {data_addr h n}" by (rule okstep_trans [OF s1 s23]) simp
  have vw: "view h2 n = view ?h n" using hstep_view [OF okstepD(2) [OF s23]] n(1) by simp
  show "m_sequence (data_of h2 n) = m_sequence (data_of h n) @ [v]"
    using view_eqD(4) [OF vw] by (simp add: data_of_upd_data)
  show "nd_type h2 n = NSequence"
    using view_eqD(1,2) [OF vw] n(2) ty by (simp_all add: nd_type_def data_of_upd_data nd_is_defined_def)
  show "data_addr h2 x = data_addr h x" by (simp add: h2_def h1 data_addr_def upd_node_def)
qed

definition seq_start :: "nat \<Rightarrow> yheap \<Rightarrow> yheap" where
  "seq_start n h = (if m_type (data_of h n) = NUndefined \<or> m_type (data_of h n) = NNull
      then upd_data n (\<lambda>d. reset_sequence (d\<lparr>m_type := NSequence\<rparr>)) h else h)"

lemma seq_start_step:
  assumes ok: "heap_ok h" and r: "rep h n t ds" and n: "nd_is_defined h n"
    and p: "node_push_back t v = Inr (YSeq (ts @ [v]))"
  shows "okstep h (seq_start n h) {data_addr h n}" "data_addr (seq_start n h) x = data_addr h x"
    "m_type (data_of (seq_start n h) n) = NSequence"
    "\<exists>es. ds = data_addr h n # es \<and> rep_seq h (m_sequence (data_of (seq_start n h) n)) ts es"
proof -
  have l: "n < lim h" using r by (rule rep_lim)
  note ty = rep_data_type [OF r n] rep_type [OF r]
  let ?f = "\<lambda>d. reset_sequence (d\<lparr>m_type := NSequence\<rparr>)"
  have s: "okstep h (upd_data n ?f h) {data_addr h n}"
    by (rule okstep_upd_defined [OF ok l])
       (use n in \<open>auto simp: nd_is_defined_def data_ok_def reset_sequence_def\<close>)
  show "data_addr (seq_start n h) x = data_addr h x" by (simp add: seq_start_def)
  have "t = YNull \<and> ts = [] \<or> t = YSeq ts"
    using p rep_defined [OF ok r] n by (auto simp: node_push_back_def is_defined_def split: ynode.splits)
  then consider "t = YNull" "ts = []" | "t = YSeq ts" by blast
  then have "okstep h (seq_start n h) {data_addr h n}
      \<and> m_type (data_of (seq_start n h) n) = NSequence
      \<and> (\<exists>es. ds = data_addr h n # es \<and> rep_seq h (m_sequence (data_of (seq_start n h) n)) ts es)"
  proof cases
    case 1
    have "ds = [data_addr h n]" using r 1(1) by (auto elim: rep_NullE)
    then show ?thesis using 1 s ty
      by (auto simp: seq_start_def data_of_upd_data reset_sequence_def rep_seq_Nil)
  next
    case 2
    then have q: "seq_start n h = h" using ty by (simp add: seq_start_def)
    show ?thesis using r 2 ty ok unfolding q by (auto elim: rep_SeqE simp: okstep_refl)
  qed
  then show "okstep h (seq_start n h) {data_addr h n}" "m_type (data_of (seq_start n h) n) = NSequence"
    "\<exists>es. ds = data_addr h n # es \<and> rep_seq h (m_sequence (data_of (seq_start n h) n)) ts es"
    by blast+
qed

lemma push_back_step:
  assumes ok: "heap_ok h" and r: "rep h n t ds" "distinct ds" and n: "nd_is_defined h n"
    and v: "rep h v tv dv" "distinct dv" "set dv \<inter> set ds = {}" "nd_is_defined h v"
    and p: "node_push_back t tv = Inr t'"
  shows "\<exists>h2. nd_push_back n v h = Inr h2 \<and> wrote h (mem_merge m m' h2) n ds t' (set dv)
    \<and> rep (mem_merge m m' h2) v tv dv"
proof -
  note l = rep_lim [OF r(1)] and lv = rep_lim [OF v(1)]
  obtain ts where t': "t' = YSeq (ts @ [tv])"
    using p by (auto simp: node_push_back_def split: ynode.splits)
  note st = seq_start_step [OF ok r(1) n p [unfolded t']]
  let ?h1 = "seq_start n h"
  obtain es where es: "ds = data_addr h n # es" "rep_seq h (m_sequence (data_of ?h1 n)) ts es"
    using st(4) by blast
  note ap = append_step [OF okstepD(1) [OF st(1)] okstepD(4) [OF st(1) l] okstepD(5) [OF st(1) l n]
      st(3) okstepD(4) [OF st(1) lv] okstepD(5) [OF st(1) lv v(4)]]
  obtain h2 where h2: "nd_push_back n v h = Inr h2" "okstep ?h1 h2 {data_addr h n}"
      "m_sequence (data_of h2 n) = m_sequence (data_of ?h1 n) @ [v]" "nd_type h2 n = NSequence"
      "\<forall>x. data_addr h2 x = data_addr h x"
    using ap st(2,3) by (simp add: nd_push_back_def seq_start_def Let_def)
  let ?h3 = "mem_merge m m' h2"
  have s2: "okstep h h2 {data_addr h n}" by (rule okstep_trans [OF st(1) h2(2)]) simp
  have s: "okstep h ?h3 {data_addr h n}"
    by (rule okstep_trans [OF s2 okstep_merge [OF okstepD(1) [OF s2]]]) simp
  have dj: "data_addr h n \<notin> set es" "data_addr h n \<notin> set dv" "set es \<inter> set dv = {}"
    using r(2) v(3) es(1) by auto
  have rv: "rep ?h3 v tv dv" using dj by (intro rep_frame [OF v(1) s]) simp
  have "rep_seq ?h3 (m_sequence (data_of ?h1 n)) ts es"
    using dj by (intro rep_frame_all(2) [OF okstepD(2) [OF s] es(2)]) simp
  then have "rep_seq ?h3 (m_sequence (data_of ?h3 n)) (ts @ [tv]) (es @ dv @ [])"
    unfolding merge_data h2(3) by (intro rep_seq_append rep_seq_Cons [OF rv] rep_seq_Nil)
  then have "rep ?h3 n t' (data_addr h n # es @ dv)"
    using rep_Seq [of n ?h3 "ts @ [tv]"] okstepD(4) [OF s l] h2(4,5) t' by simp
  moreover have "distinct (data_addr h n # es @ dv)" using r(2) v(2) dj es(1) by simp
  moreover have "okstep h ?h3 (set ds)" using okstep_fresh [OF ok s, of "set ds"] es(1) by simp
  moreover have "aliases_kept h ?h3 (data_addr h n)" using h2(5) by (simp add: aliases_kept_def)
  moreover have "set (data_addr h n # es @ dv) \<subseteq> set ds \<union> {lim h..} \<union> set dv" using es(1) by auto
  ultimately have "wrote h ?h3 n ds t' (set dv)" unfolding wrote_def by blast
  then show ?thesis using rv h2(1) by blast
qed

lemma push_back_refines:
  assumes ok: "heap_ok h" and r: "rep h n t ds" "distinct ds"
    and v: "rep h v tv dv" "distinct dv" "set dv \<inter> set ds = {}"
  shows "case push_back t tv of
      Inl e \<Rightarrow> hs_push_back (m, n) (m', v) h = (Inl e, h)
    | Inr t' \<Rightarrow> \<exists>h'. hs_push_back (m, n) (m', v) h = (Inr (), h') \<and> wrote h h' n ds t' (set dv)
        \<and> rep h' v tv dv"
proof (cases "is_defined t \<and> is_defined tv")
  case False
  then show ?thesis using rep_defined [OF ok r(1)] rep_defined [OF ok v(1)]
    by (auto simp: push_back_def hs_push_back_def)
next
  case True
  then have n: "nd_is_defined h n" "nd_is_defined h v"
    using rep_defined [OF ok r(1)] rep_defined [OF ok v(1)] by simp_all
  note ty = rep_data_type [OF r(1) n(1)] rep_type [OF r(1)]
  show ?thesis
  proof (cases "node_push_back t tv")
    case (Inl e)
    then show ?thesis using True n ty
      by (auto simp: push_back_def hs_push_back_def nd_push_back_def node_push_back_def Let_def
          split: ynode.splits)
  next
    case (Inr t')
    then show ?thesis
      using push_back_step [OF ok r n(1) v n(2) Inr, of m m'] True n
      by (auto simp: push_back_def hs_push_back_def)
  qed
qed

section \<open>Reading operations\<close>

lemma shape_read:
  "rep h n t ds \<Longrightarrow> registry_read (Live (shape h n)) ty = registry_read (Live t) ty"
  by (erule rep.cases) (simp_all add: shape_def registry_read_def split: atype.splits)

lemma rep_type_iff:
  assumes "rep h n t ds"
  shows "nd_type h n = NNull \<longleftrightarrow> is_null t" "nd_type h n = NScalar \<longleftrightarrow> is_scalar t"
    "nd_type h n = NMap \<longleftrightarrow> is_map t" "nd_type h n = NSequence \<longleftrightarrow> is_sequence t"
    "nd_type h n = NUndefined \<longleftrightarrow> \<not> is_defined t"
  using rep_type [OF assms]
  by (auto simp: is_null_def is_scalar_def is_map_def is_sequence_def is_defined_def split: ynode.splits)

text \<open>The const lookup finds what the tree holds.\<close>

lemma get_const_refines:
  assumes ok: "heap_ok h" and r: "rep h n t ds"
  shows "case node_get t key of
      Inl e \<Rightarrow> nd_get_const h n key = Inl e
    | Inr (Zombie k) \<Rightarrow> k = key \<and> nd_get_const h n key = Inr None
    | Inr (Live c) \<Rightarrow> \<exists>v dv. nd_get_const h n key = Inr (Some v) \<and> rep h v c dv \<and> set dv \<subseteq> set ds
        \<and> (distinct ds \<longrightarrow> distinct dv)"
proof (cases t)
  case YUndef
  have "m_type (data_of h n) = NNull"
    using heap_okD(5) [OF ok rep_lim [OF r]] rep_type [OF r] YUndef by (auto simp: data_ok_def nd_type_def split: if_splits)
  then show ?thesis using YUndef by (simp add: node_get_def nd_get_const_def)
next
  case (YMap kts)
  from r obtain es where es: "ds = data_addr h n # es" "rep_map h (m_map (data_of h n)) kts es"
    unfolding YMap by (rule rep_MapE)
  have "m_type (data_of h n) = NMap"
    using rep_type [OF r] YMap by (auto simp: nd_type_def split: if_splits)
  then show ?thesis
    using key_find_rep [OF es(2), of key] YMap es(1)
    by (fastforce simp: node_get_def nd_get_const_def split: option.splits)
qed (use rep_type [OF r] in \<open>auto simp: node_get_def nd_get_const_def nd_type_def split: if_splits\<close>)

lemma get_def_refines:
  assumes ok: "heap_ok h" and r: "rep h n t ds"
  shows "hs_get_def (m, n) key d h = get_def t key d"
proof -
  note g = get_const_refines [OF ok r, of key]
  show ?thesis
  proof (cases "node_get t key")
    case (Inl e)
    then show ?thesis using g rep_type_iff(1) [OF r]
      by (simp add: hs_get_def_def get_def_def get_def_p_def)
  next
    case (Inr hd)
    show ?thesis
    proof (cases hd)
      case (Zombie k)
      then show ?thesis using Inr g rep_type_iff(1) [OF r]
        by (simp add: hs_get_def_def get_def_def get_def_p_def h_is_null_def)
    next
      case (Live c)
      then obtain v dv where v: "nd_get_const h n key = Inr (Some v)" "rep h v c dv"
        using Inr g by auto
      then show ?thesis
        using Inr Live rep_type_iff(1) [OF r] rep_type_iff(1) [OF v(2)] rep_defined [OF ok v(2)]
        by (simp add: hs_get_def_def get_def_def get_def_p_def h_is_null_def h_defined_def
            shape_read)
    qed
  qed
qed

text \<open>What a handle-returning operation promises: a handle on a node that stands for
  the result, either inside the tree or fresh.\<close>

definition returned :: "yheap \<Rightarrow> yheap \<Rightarrow> nat list \<Rightarrow> yhand \<Rightarrow> ynode \<Rightarrow> bool" where
  "returned h h' ds r c \<longleftrightarrow> okstep h h' {} \<and> handle_ok h' r
     \<and> (\<exists>dc. rep h' (snd r) c dc \<and> distinct dc \<and> (set dc \<subseteq> set ds \<or> set dc \<subseteq> {lim h..}))"

lemma fresh_returned:
  assumes "heap_ok h"
  shows "\<exists>h' r. hs_fresh h = (Inr r, h') \<and> returned h h' ds r YNull"
proof -
  obtain h' m v where n: "new_handle h = (h', (m, v))" by (metis prod.exhaust)
  note w = new_handle_step [OF assms n]
  have "returned h h' ds (m, v) YNull"
    unfolding returned_def handle_ok_def using w by (auto intro!: exI [of _ "[v]"])
  then show ?thesis by (simp add: hs_fresh_def n)
qed

lemma member_returned:
  assumes "okstep h h' {}" and "rep h' v c dc" and "distinct dc" and "set dc \<subseteq> set ds"
    and "nd_is_defined h' v"
  shows "returned h h' ds (m, v) c"
  unfolding returned_def handle_ok_def using assms rep_lim by auto

lemma returned_after:
  assumes "heap_ok h" and "okstep h h1 {}" and "returned h1 h2 ds r c"
  shows "returned h h2 ds r c"
proof -
  have "lim h \<le> lim h1" using okstepD(3) [OF assms(2)] by (simp add: grows_def)
  then have "{lim h1..} \<subseteq> {lim h..}" by simp
  moreover have "okstep h h2 {}"
    by (rule okstep_trans [OF assms(2)]) (use assms(3) in \<open>auto simp: returned_def\<close>)
  ultimately show ?thesis using assms(3) subset_trans unfolding returned_def by metis
qed

lemma get_node_refines:
  assumes ok: "heap_ok h" and r: "rep h n t ds" "distinct ds"
  shows "case get_node t name of
      Inl e \<Rightarrow> hs_get_node (m, n) name h = (Inl e, h)
    | Inr c \<Rightarrow> \<exists>h' r. hs_get_node (m, n) name h = (Inr r, h') \<and> returned h h' ds r c"
proof (cases "\<not> is_null t \<and> is_defined t")
  case False
  then show ?thesis
    using fresh_returned [OF ok, of ds] rep_type_iff(1) [OF r(1)] rep_defined [OF ok r(1)]
    by (auto simp: hs_get_node_def get_node_def)
next
  case True
  note g = get_const_refines [OF ok r(1), of name]
  show ?thesis
  proof (cases "node_get t name")
    case (Inl e)
    then show ?thesis using g True rep_type_iff(1) [OF r(1)] rep_defined [OF ok r(1)]
      by (simp add: hs_get_node_def get_node_def)
  next
    case (Inr hd)
    show ?thesis
    proof (cases hd)
      case (Zombie k)
      then show ?thesis
        using Inr g True rep_type_iff(1) [OF r(1)] rep_defined [OF ok r(1)] fresh_returned [OF ok, of ds]
        by (simp add: hs_get_node_def get_node_def live_or_null_def)
    next
      case (Live c)
      then obtain v dv where v: "nd_get_const h n name = Inr (Some v)" "rep h v c dv" "set dv \<subseteq> set ds"
          "distinct dv"
        using Inr g r(2) by auto
      show ?thesis
        using Inr Live True v rep_type_iff(1) [OF r(1)] rep_defined [OF ok r(1)] rep_defined [OF ok v(2)]
          fresh_returned [OF ok, of ds] member_returned [OF okstep_refl [OF ok] v(2,4,3), of m]
        by (cases "is_defined c") (simp_all add: hs_get_node_def get_node_def live_or_null_def)
    qed
  qed
qed

text \<open>\<open>size\<close> brings the caches up to date and changes nothing else.\<close>

lemma okstep_cache:
  assumes ok: "heap_ok h" and n: "n < lim h"
    and f: "m_isDefined (f (data_of h n)) = m_isDefined (data_of h n)"
      "m_type (f (data_of h n)) = m_type (data_of h n)" "m_scalar (f (data_of h n)) = m_scalar (data_of h n)"
      "m_sequence (f (data_of h n)) = m_sequence (data_of h n)" "m_map (f (data_of h n)) = m_map (data_of h n)"
    and d: "data_ok h (f (data_of h n))"
  shows "okstep h (upd_data n f h) {}"
proof -
  have g: "grows h (upd_data n f h)" by (rule grows_upd_data) (simp add: f)
  have "heap_ok (upd_data n f h)"
    by (rule heap_ok_upd_data [OF ok n]) (simp_all add: f data_ok_grows [OF d g])
  moreover have "view (upd_data n f h) x = view h x" for x
  proof (cases "data_addr h x = data_addr h n")
    case True
    then have "data_of h x = data_of h n" by (simp add: data_of_def)
    then show ?thesis using True f by (simp add: view_def data_of_upd_data nd_type_def)
  next
    case False
    then show ?thesis by (simp add: view_def data_of_upd_data nd_type_def)
  qed
  ultimately show ?thesis using g by (simp add: okstep_def hstep_def)
qed

lemma takeWhile_all: "\<forall>x \<in> set xs. P x \<Longrightarrow> takeWhile P xs = xs"
  by (simp add: takeWhile_eq_all_conv)

lemma seq_size_data:
  assumes "data_ok h d"
  shows "m_seqSize (compute_seq_size h d) = length (m_sequence d)" "data_ok h (compute_seq_size h d)"
proof -
  have "\<forall>x \<in> set (drop (m_seqSize d) (m_sequence d)). nd_is_defined h x"
    using assms set_drop_subset by (fastforce simp: data_ok_def)
  then show "m_seqSize (compute_seq_size h d) = length (m_sequence d)"
    using assms by (simp add: compute_seq_size_def data_ok_def takeWhile_all)
  then show "data_ok h (compute_seq_size h d)"
    using assms by (simp add: compute_seq_size_def data_ok_def)
qed

lemma map_size_data:
  assumes "data_ok h d"
  shows "length (m_map (compute_map_size h d)) - length (m_undefinedPairs (compute_map_size h d))
      = length (filter (\<lambda>p. \<not> pair_undefined h p) (m_map d))"
    and "data_ok h (compute_map_size h d)"
proof -
  have "filter (pair_undefined h) (m_undefinedPairs d) = filter (pair_undefined h) (m_map d)"
    using assms by (simp add: data_ok_def)
  then show "length (m_map (compute_map_size h d)) - length (m_undefinedPairs (compute_map_size h d))
      = length (filter (\<lambda>p. \<not> pair_undefined h p) (m_map d))"
    using sum_length_filter_compl [of "pair_undefined h" "m_map d"]
    by (simp add: compute_map_size_def)
  show "data_ok h (compute_map_size h d)"
    using assms by (auto simp: compute_map_size_def data_ok_def)
qed

lemma rep_seq_length:
  assumes "heap_ok h" and "rep_seq h xs ts es" and "\<forall>x \<in> set xs. nd_is_defined h x"
  shows "length (takeWhile is_defined ts) = length xs" "length ts = length xs"
proof -
  have "length ts = length xs \<and> (\<forall>t \<in> set ts. is_defined t)" using assms(2,3)
  proof (induction xs arbitrary: ts es)
    case (Cons x xs)
    then show ?case using rep_defined [OF assms(1)] by (auto elim!: rep_seqE)
  qed simp
  then show "length (takeWhile is_defined ts) = length xs" "length ts = length xs"
    by (simp_all add: takeWhile_all)
qed

lemma rep_map_count:
  assumes "heap_ok h" and "rep_map h kvs kts es"
  shows "length (filter (\<lambda>p. \<not> pair_undefined h p) kvs)
    = length (filter (\<lambda>(k, v). is_defined k \<and> is_defined v) kts)"
  using assms(2)
proof (induction kvs arbitrary: kts es)
  case (Cons p kvs)
  then show ?case using rep_defined [OF assms(1)]
    by (auto elim!: rep_mapE simp: pair_undefined_def)
qed simp

lemma size_refines:
  assumes ok: "heap_ok h" and r: "rep h n t ds"
  shows "\<exists>h'. nd_size n h = (h', node_size t) \<and> okstep h h' {}"
proof -
  have l: "n < lim h" using r by (rule rep_lim)
  note dk = heap_okD(5) [OF ok l]
  have dt: "m_isDefined (data_of h n) \<longleftrightarrow> is_defined t"
    using rep_defined [OF ok r] by (simp add: nd_is_defined_def)
  have ty: "is_defined t \<Longrightarrow> m_type (data_of h n) = nd_type h n" using dt by (simp add: nd_type_def)
  show ?thesis
  proof (cases t)
    case (YSeq ts)
    from r obtain es where es: "rep_seq h (m_sequence (data_of h n)) ts es"
      unfolding YSeq by (rule rep_SeqE)
    have "\<forall>x \<in> set (m_sequence (data_of h n)). nd_is_defined h x" using dk by (simp add: data_ok_def)
    then have k: "node_size t = length (m_sequence (data_of h n))"
      using rep_seq_length [OF ok es] YSeq by (simp add: node_size_def)
    have "okstep h (upd_data n (compute_seq_size h) h) {}"
      by (rule okstep_cache [OF ok l]) (use seq_size_data [OF dk] in \<open>simp_all add: compute_seq_size_def\<close>)
    then show ?thesis
      using YSeq k seq_size_data(1) [OF dk] ty dt rep_type [OF r]
      by (simp add: nd_size_def Let_def data_of_upd_data is_defined_def)
  next
    case (YMap kts)
    from r obtain es where es: "rep_map h (m_map (data_of h n)) kts es"
      unfolding YMap by (rule rep_MapE)
    have k: "node_size t = length (filter (\<lambda>p. \<not> pair_undefined h p) (m_map (data_of h n)))"
      using rep_map_count [OF ok es] YMap by (simp add: node_size_def)
    have "okstep h (upd_data n (compute_map_size h) h) {}"
      by (rule okstep_cache [OF ok l]) (use map_size_data [OF dk] in \<open>simp_all add: compute_map_size_def\<close>)
    then show ?thesis
      using YMap k map_size_data(1) [OF dk] ty dt rep_type [OF r]
      by (simp add: nd_size_def Let_def data_of_upd_data is_defined_def)
  qed (use ty dt rep_type [OF r] ok in
        \<open>auto simp: nd_size_def node_size_def is_defined_def okstep_refl\<close>)
qed

lemma rep_seq_nth:
  assumes "rep_seq h xs ts es" and "i < length xs"
  shows "\<exists>ds. rep h (xs ! i) (ts ! i) ds \<and> set ds \<subseteq> set es \<and> (distinct es \<longrightarrow> distinct ds)"
  using assms
proof (induction xs arbitrary: ts es i)
  case (Cons x xs)
  from Cons.prems(1) obtain t ts1 d1 d2 where *: "ts = t # ts1" "es = d1 @ d2" "rep h x t d1"
      "rep_seq h xs ts1 d2"
    by (auto elim: rep_seqE)
  then show ?case using Cons.IH [OF *(4)] Cons.prems(2) by (cases i) fastforce+
qed simp

lemma get_sequence_node_refines:
  assumes ok: "heap_ok h" and r: "rep h n t ds" "distinct ds"
  shows "case get_sequence_node t i of
      Inl e \<Rightarrow> False
    | Inr c \<Rightarrow> \<exists>h' r. hs_get_sequence_node (m, n) i h = (Inr r, h') \<and> returned h h' ds r c"
proof (cases t)
  case (YSeq ts)
  from r(1) obtain es where es: "ds = data_addr h n # es" "rep_seq h (m_sequence (data_of h n)) ts es"
    unfolding YSeq by (rule rep_SeqE)
  have l: "n < lim h" using r(1) by (rule rep_lim)
  have dn: "nd_is_defined h n" "nd_type h n = NSequence"
    using rep_defined [OF ok r(1)] rep_type [OF r(1)] YSeq by (simp_all add: is_defined_def)
  obtain h1 where h1: "nd_size n h = (h1, node_size t)" "okstep h h1 {}"
    using size_refines [OF ok r(1)] by blast
  have all: "\<forall>x \<in> set (m_sequence (data_of h n)). nd_is_defined h x"
    using heap_okD(5) [OF ok l] by (simp add: data_ok_def)
  have k: "node_size t = length (m_sequence (data_of h n))" "length ts = length (m_sequence (data_of h n))"
    using rep_seq_length [OF ok es(2) all] YSeq by (simp_all add: node_size_def)
  have vw: "view h1 n = view h n" using hstep_view [OF okstepD(2) [OF h1(2)] l] by simp
  show ?thesis
  proof (cases "i < node_size t")
    case False
    obtain h2 r where "hs_fresh h1 = (Inr r, h2)" "returned h1 h2 ds r YNull"
      using fresh_returned [OF okstepD(1) [OF h1(2)]] by blast
    then show ?thesis
      using False YSeq dn h1 returned_after [OF ok h1(2)]
      by (simp add: hs_get_sequence_node_def get_sequence_node_def is_null_def is_sequence_def is_defined_def)
  next
    case True
    let ?v = "m_sequence (data_of h n) ! i"
    have i: "i < length (m_sequence (data_of h n))" using True k by simp
    obtain dv where dv: "rep h ?v (ts ! i) dv" "set dv \<subseteq> set es" "distinct dv"
      using rep_seq_nth [OF es(2) i] r(2) es(1) by auto
    have d: "nd_is_defined h ?v" using all i by simp
    have d1: "nd_is_defined h1 ?v" using okstepD(5) [OF h1(2) rep_lim [OF dv(1)] d] .
    have "rep h1 ?v (ts ! i) dv" by (rule rep_frame [OF dv(1) h1(2)]) simp
    then have "returned h h1 ds (m, ?v) (ts ! i)"
      by (rule member_returned [OF h1(2) _ dv(3) _ d1]) (use dv(2) es(1) in auto)
    then show ?thesis
      using True YSeq dn h1 d1 i k view_eqD(4) [OF vw] rep_defined [OF ok dv(1)] d
      by (simp add: hs_get_sequence_node_def get_sequence_node_def is_null_def is_sequence_def
          is_defined_def seq_index_def node_index_def live_or_null_def)
  qed
qed (use fresh_returned [OF ok, of ds] rep_type [OF r(1)] in
      \<open>simp_all add: hs_get_sequence_node_def get_sequence_node_def is_null_def is_sequence_def\<close>)

section \<open>Writing defaults\<close>

lemma wrote_refl: "heap_ok h \<Longrightarrow> rep h n t ds \<Longrightarrow> distinct ds \<Longrightarrow> wrote h h n ds t {}"
  unfolding wrote_def by (auto intro: okstep_refl)

lemma node_touch_touched:
  "is_defined t \<Longrightarrow> node_touch t key = rbind (convert_to_map t key) (\<lambda>kts.
     Inr (case kv_find key kts of Some v \<Rightarrow> v | None \<Rightarrow> YUndef, YMap (touched key kts)))"
  by (cases "convert_to_map t key") (simp_all add: node_touch_def touched_def split: option.split)

lemma kv_find_touched:
  "kv_find key (touched key kts) = Some (case kv_find key kts of Some v \<Rightarrow> v | None \<Rightarrow> YUndef)"
  by (simp add: touched_def split: option.split)

text \<open>The state after \<open>node[key]\<close>: the slot stands for the child.\<close>

lemma touch_refines:
  assumes ok: "heap_ok h" and r: "rep h n t ds" "distinct ds" and d: "is_defined t"
  shows "case node_touch t key of
      Inl e \<Rightarrow> nd_get m n key h = Inl e
    | Inr (c, t') \<Rightarrow> \<exists>h1 s dc. nd_get m n key h = Inr (h1, s) \<and> wrote h h1 n ds t' {}
        \<and> rep h1 s c dc"
proof -
  note g = nd_get_slot [OF ok r d, where key = key and m = m]
  have n: "nd_is_defined h n" using rep_defined [OF ok r(1)] d by simp
  show ?thesis
  proof (cases "convert_to_map t key")
    case (Inl e)
    then show ?thesis using g by (simp add: node_touch_touched [OF d])
  next
    case (Inr kts)
    then obtain h1 s where h1: "nd_get m n key h = Inr (h1, s)" "slot_at h h1 n ds kts key s"
      using g by auto
    show ?thesis
      using h1 Inr touch_wrote [OF ok r(1) n h1(2)] slot_atD(7) [OF h1(2) rep_lim [OF r(1)] n]
      by (auto simp: node_touch_touched [OF d] kv_find_touched)
  qed
qed

lemma touch_is_map: "node_touch t key = Inr (c, t') \<Longrightarrow> is_defined t \<Longrightarrow> is_map t' \<and> is_defined t'"
  by (auto simp: node_touch_touched result_simps is_map_def is_defined_def)

lemma set_def_refines:
  assumes ok: "heap_ok h" and r: "rep h n t ds" "distinct ds" and d: "is_defined t"
  shows "case set_def t key a of
      Inl e \<Rightarrow> \<exists>h' t'. hs_set_def (m, n) key a h = (Inl e, h') \<and> wrote h h' n ds t' {}
        \<and> (t' = t \<or> (\<exists>c. node_touch t key = Inr (c, t')))
    | Inr (w, t') \<Rightarrow> \<exists>h'. hs_set_def (m, n) key a h = (Inr w, h') \<and> wrote h h' n ds t' {}"
proof -
  note tr = touch_refines [OF ok r d, where key = key and m = m]
  show ?thesis
  proof (cases "node_touch t key")
    case (Inl e)
    then show ?thesis using tr wrote_refl [OF ok r] by (auto simp: set_def_def hs_set_def_def)
  next
    case (Inr p)
    obtain c t1 where p: "p = (c, t1)" by fastforce
    obtain h1 s dc where h1: "nd_get m n key h = Inr (h1, s)" "wrote h h1 n ds t1 {}" "rep h1 s c dc"
      using tr Inr p by auto
    have ok1: "heap_ok h1" using wroteD(1) [OF h1(2)] .
    obtain ds1 where ds1: "rep h1 n t1 ds1" "distinct ds1" "set ds1 \<subseteq> set ds \<union> {lim h..}"
      using wroteD(4) [OF h1(2)] by auto
    note st = set_refines [OF ok1 ds1(1,2), where key = key and a = a and m = m]
    have after: "wrote h h2 n ds t2 {}" if "wrote h1 h2 n ds1 t2 {}" for h2 t2
      by (rule wrote_trans [OF ok rep_lim [OF r(1)] h1(2) ds1(3) that])
    have cond: "nd_is_defined h1 s \<and> nd_type h1 s = NScalar \<longleftrightarrow> is_defined c \<and> is_scalar c"
      using rep_defined [OF ok1 h1(3)] rep_type_iff(2) [OF h1(3)] by simp
    show ?thesis
    proof (cases "is_defined c \<and> is_scalar c")
      case True
      then show ?thesis using Inr p h1 cond shape_read [OF h1(3)]
        by (auto simp: set_def_def hs_set_def_def split: sum.splits)
    next
      case False
      then have b: "set_def t key a = rbind (set_any t1 key a) (\<lambda>t2. Inr (True, t2))"
        "hs_set_def (m, n) key a h = (case hs_set (m, n) key a h1 of
            (Inl e, h) \<Rightarrow> (Inl e, h) | (Inr _, h) \<Rightarrow> (Inr True, h))"
        using Inr p h1(1) cond by (auto simp: set_def_def hs_set_def_def)
      show ?thesis
      proof (cases "set_any t1 key a")
        case (Inl e)
        then show ?thesis using b st h1(2) Inr p by auto
      next
        case (Inr t2)
        then show ?thesis using b st after by auto
      qed
    qed
  qed
qed

lemma set_null_def_refines:
  assumes ok: "heap_ok h" and r: "rep h n t ds" "distinct ds" and d: "is_defined t"
  shows "case set_null_def t key of
      Inl e \<Rightarrow> hs_set_null_def (m, n) key h = (Inl e, h)
    | Inr (w, t') \<Rightarrow> \<exists>h'. hs_set_null_def (m, n) key h = (Inr w, h') \<and> wrote h h' n ds t' {}"
proof -
  note tr = touch_refines [OF ok r d, where key = key and m = m]
  show ?thesis
  proof (cases "node_touch t key")
    case (Inl e)
    then show ?thesis using tr by (auto simp: set_null_def_def hs_set_null_def_def)
  next
    case (Inr p)
    obtain c t1 where p: "p = (c, t1)" by fastforce
    obtain h1 s dc where h1: "nd_get m n key h = Inr (h1, s)" "wrote h h1 n ds t1 {}" "rep h1 s c dc"
      using tr Inr p by auto
    have ok1: "heap_ok h1" using wroteD(1) [OF h1(2)] .
    obtain ds1 where ds1: "rep h1 n t1 ds1" "distinct ds1" "set ds1 \<subseteq> set ds \<union> {lim h..}"
      using wroteD(4) [OF h1(2)] by auto
    have t1: "is_defined t1" "is_map t1" using touch_is_map Inr p d by auto
    note st = set_null_refines [OF ok1 ds1(1,2) t1(1), where key = key and m = m]
    have after: "wrote h h2 n ds t2 {}" if "wrote h1 h2 n ds1 t2 {}" for h2 t2
      by (rule wrote_trans [OF ok rep_lim [OF r(1)] h1(2) ds1(3) that])
    obtain kvs where kvs: "t1 = YMap kvs" using t1(2) by (auto simp: is_map_def split: ynode.splits)
    have e: "set_null t1 key = Inr (YMap (kv_put key YNull kvs))"
      by (simp add: kvs set_null_def node_assign_def convert_to_map_def)
    then obtain h2 where h2: "hs_set_null (m, n) key h1 = (Inr (), h2)"
        "wrote h1 h2 n ds1 (YMap (kv_put key YNull kvs)) {}"
      using st by auto
    have "hs_set_null_def (m, n) key h =
        (if nd_is_defined h1 s then (Inr False, h1)
         else case hs_set_null (m, n) key h1 of (Inl e, h) \<Rightarrow> (Inl e, h) | (Inr _, h) \<Rightarrow> (Inr True, h))"
      using h1(1) by (simp add: hs_set_null_def_def hs_set_null_def split: sum.split prod.split)
    moreover have "set_null_def t key =
        (if is_defined c then Inr (False, t1) else Inr (True, YMap (kv_put key YNull kvs)))"
      using Inr p e by (simp add: set_null_def_def set_null_def)
    ultimately show ?thesis
      using h1(2) h2(1) rep_defined [OF ok1 h1(3)] after [OF h2(2)] by simp
  qed
qed

section \<open>Two small heaps\<close>

text \<open>A fresh handle, and the map with one null under a key it is turned into.\<close>

definition null_heap :: yheap where
  "null_heap = fst (new_handle empty_heap)"

definition map_heap :: yheap where
  "map_heap = snd (hs_set_null (0, 0) ''a'' null_heap)"

lemma null_heap_facts:
  "new_handle empty_heap = (null_heap, (0, 0))" "heap_ok null_heap" "rep null_heap 0 YNull [0]"
  "nd_is_defined null_heap 0" "lim null_heap = 1"
proof -
  show e: "new_handle empty_heap = (null_heap, (0, 0))"
    by (simp add: null_heap_def new_handle_def new_holder_def create_node_def empty_heap_def)
  note w = new_handle_step [OF empty_heap_ok e]
  show "heap_ok null_heap" "rep null_heap 0 YNull [0]" "nd_is_defined null_heap 0" "lim null_heap = 1"
    using okstepD(1) [OF w(1)] w(3,4,5) by (simp_all add: empty_heap_def)
qed

lemma map_heap_facts:
  "heap_ok map_heap" "\<exists>ds. rep map_heap 0 (YMap [(YScalar ''a'', YNull)]) ds \<and> distinct ds"
proof -
  have "set_null YNull ''a'' = Inr (YMap [(YScalar ''a'', YNull)])"
    by (simp add: set_null_def node_assign_def convert_to_map_def rbind_def)
  then have "\<exists>h'. hs_set_null (0, 0) ''a'' null_heap = (Inr (), h')
      \<and> wrote null_heap h' 0 [0] (YMap [(YScalar ''a'', YNull)]) {}"
    using set_null_refines [OF null_heap_facts(2,3), where key = "''a''" and m = 0]
    by (simp add: is_defined_def)
  then have w: "wrote null_heap map_heap 0 [0] (YMap [(YScalar ''a'', YNull)]) {}"
    by (auto simp: map_heap_def)
  show "heap_ok map_heap" "\<exists>ds. rep map_heap 0 (YMap [(YScalar ''a'', YNull)]) ds \<and> distinct ds"
    using wroteD(1,4) [OF w] by blast+
qed

end
