(* ===== verification/YamlAlias.thy ===== *)
theory YamlAlias
  imports YamlRefine
begin

text \<open>
  Sharing between handles, as a user of the layer meets it: a handle returned by
  \<open>getNode\<close> is the slot of the parent, a node given to \<open>addNode\<close> is shared with the
  parent from then on, a scalar written to such a slot is written into both, and a
  null written to it separates them.
\<close>

section \<open>Sequences of writes\<close>

datatype ywrite = WSet string aval | WSetDef string aval | WSetNull string | WSetNullDef string

fun write_tree :: "ywrite \<Rightarrow> ynode \<Rightarrow> yexn + ynode" where
  "write_tree (WSet k a) t = set_any t k a"
| "write_tree (WSetDef k a) t = rbind (set_def t k a) (\<lambda>(_, t'). Inr t')"
| "write_tree (WSetNull k) t = set_null t k"
| "write_tree (WSetNullDef k) t = rbind (set_null_def t k) (\<lambda>(_, t'). Inr t')"

fun write_heap :: "yhand \<Rightarrow> ywrite \<Rightarrow> yheap \<Rightarrow> unit yres" where
  "write_heap r (WSet k a) h = hs_set r k a h"
| "write_heap r (WSetDef k a) h =
     (case hs_set_def r k a h of (Inl e, h') \<Rightarrow> (Inl e, h') | (Inr _, h') \<Rightarrow> (Inr (), h'))"
| "write_heap r (WSetNull k) h = hs_set_null r k h"
| "write_heap r (WSetNullDef k) h =
     (case hs_set_null_def r k h of (Inl e, h') \<Rightarrow> (Inl e, h') | (Inr _, h') \<Rightarrow> (Inr (), h'))"

fun writes_tree :: "ywrite list \<Rightarrow> ynode \<Rightarrow> yexn + ynode" where
  "writes_tree [] t = Inr t"
| "writes_tree (w # ws) t = rbind (write_tree w t) (writes_tree ws)"

fun writes_heap :: "yhand \<Rightarrow> ywrite list \<Rightarrow> yheap \<Rightarrow> unit yres" where
  "writes_heap r [] h = (Inr (), h)"
| "writes_heap r (w # ws) h =
     (case write_heap r w h of (Inl e, h') \<Rightarrow> (Inl e, h') | (Inr _, h') \<Rightarrow> writes_heap r ws h')"

lemma node_assign_is_map: "node_assign t k v = Inr t' \<Longrightarrow> is_map t'"
  by (auto simp: node_assign_def result_simps is_map_def)

lemma set_any_is_map: "set_any t k a = Inr t' \<Longrightarrow> is_map t'"
  by (auto simp: set_any_def registry_write_def node_assign_is_map split: if_splits option.splits)

lemma map_is_defined: "is_map t \<Longrightarrow> is_defined t"
  by (auto simp: is_map_def is_defined_def)

lemma write_tree_is_map: "write_tree w t = Inr t' \<Longrightarrow> is_defined t \<Longrightarrow> is_map t'"
proof (cases w)
  case (WSetDef k a)
  assume "write_tree w t = Inr t'" "is_defined t"
  then show ?thesis
    using WSetDef touch_is_map set_any_is_map
    by (fastforce simp: set_def_def result_simps split: if_splits sum.splits)
next
  case (WSetNullDef k)
  assume "write_tree w t = Inr t'" "is_defined t"
  then show ?thesis
    using WSetNullDef touch_is_map node_assign_is_map
    by (fastforce simp: set_null_def_def result_simps split: if_splits sum.splits)
qed (auto simp: set_any_is_map set_null_def node_assign_is_map)

lemma write_refines:
  assumes ok: "heap_ok h" and r: "rep h n t ds" "distinct ds" and d: "is_defined t"
    and w: "write_tree w t = Inr t'"
  shows "\<exists>h'. write_heap (m, n) w h = (Inr (), h') \<and> wrote h h' n ds t' {}"
proof (cases w)
  case (WSet k a)
  then show ?thesis using set_refines [OF ok r, where key = k and a = a and m = m] w by simp
next
  case (WSetDef k a)
  then obtain b where "set_def t k a = Inr (b, t')" using w by (auto simp: result_simps)
  then show ?thesis
    using WSetDef set_def_refines [OF ok r d, where key = k and a = a and m = m] by auto
next
  case (WSetNull k)
  then show ?thesis using set_null_refines [OF ok r d, where key = k and m = m] w by simp
next
  case (WSetNullDef k)
  then obtain b where "set_null_def t k = Inr (b, t')" using w by (auto simp: result_simps)
  then show ?thesis
    using WSetNullDef set_null_def_refines [OF ok r d, where key = k and m = m] by auto
qed

lemma writes_wrote:
  assumes "heap_ok h" and "rep h n t ds" "distinct ds" and "is_defined t"
    and "writes_tree ws t = Inr t'"
  shows "\<exists>h'. writes_heap (m, n) ws h = (Inr (), h') \<and> wrote h h' n ds t' {}"
  using assms
proof (induction ws arbitrary: h t ds)
  case Nil
  then show ?case using wrote_refl by simp
next
  case (Cons w ws)
  then obtain t1 where t1: "write_tree w t = Inr t1" "writes_tree ws t1 = Inr t'"
    by (auto simp: result_simps)
  obtain h1 where h1: "write_heap (m, n) w h = (Inr (), h1)" "wrote h h1 n ds t1 {}"
    using write_refines [OF Cons.prems(1-4) t1(1)] by blast
  obtain ds1 where ds1: "rep h1 n t1 ds1" "distinct ds1" "set ds1 \<subseteq> set ds \<union> {lim h..}"
    using wroteD(4) [OF h1(2)] by auto
  have "is_defined t1" using write_tree_is_map [OF t1(1) Cons.prems(4)] by (rule map_is_defined)
  then obtain h2 where h2: "writes_heap (m, n) ws h1 = (Inr (), h2)" "wrote h1 h2 n ds1 t' {}"
    using Cons.IH [OF wroteD(1) [OF h1(2)] ds1(1,2) _ t1(2)] by blast
  have "wrote h h2 n ds t' {}"
    by (rule wrote_trans [OF Cons.prems(1) rep_lim [OF Cons.prems(2)] h1(2) ds1(3) h2(2)])
  then show ?case using h1(1) h2(1) by simp
qed

text \<open>
  C27. The operations on handles implement the operations on trees: on a node whose
  tree shares nothing with itself, any sequence of \<open>_set\<close>, \<open>_setDef\<close>, \<open>setNull\<close> and
  \<open>setNullDef\<close> that succeeds on the tree succeeds on the node, which then stands
  for the resulting tree; every read with a default answers as on that tree, and
  trees elsewhere in memory are untouched.
\<close>
theorem writes_refine_tree:
  assumes "heap_ok h" and "rep h n t ds" and "distinct ds" and "is_defined t"
    and "writes_tree ws t = Inr t'"
  shows "\<exists>h' ds'. writes_heap (m, n) ws h = (Inr (), h') \<and> heap_ok h' \<and> rep h' n t' ds' \<and> distinct ds'
    \<and> (\<forall>key d. hs_get_def (m, n) key d h' = get_def t' key d)
    \<and> (\<forall>x tx dx. rep h x tx dx \<and> set dx \<inter> set ds = {} \<longrightarrow> rep h' x tx dx)"
proof -
  obtain h' where h': "writes_heap (m, n) ws h = (Inr (), h')" "wrote h h' n ds t' {}"
    using writes_wrote [OF assms] by blast
  obtain ds' where ds': "rep h' n t' ds'" "distinct ds'" using wroteD(4) [OF h'(2)] by blast
  have 1: "\<forall>key d. hs_get_def (m, n) key d h' = get_def t' key d"
    using get_def_refines [OF wroteD(1) [OF h'(2)] ds'(1)] by (intro allI)
  have 2: "\<forall>x tx dx. rep h x tx dx \<and> set dx \<inter> set ds = {} \<longrightarrow> rep h' x tx dx"
    by (intro allI impI, elim conjE) (rule wroteD(3) [OF h'(2)])
  show ?thesis
    by (intro exI [of _ h'] exI [of _ ds'] conjI h'(1) ds' 1 2 wroteD(1) [OF h'(2)])
qed

theorem writes_refine_tree_witness:
  "\<exists>h' ds'. writes_heap (0, 0) [WSet ''k'' (AInt 7), WSetNullDef ''k'', WSetNull ''n''] null_heap = (Inr (), h')
    \<and> rep h' 0 (YMap [(YScalar ''k'', YScalar ''7''), (YScalar ''n'', YNull)]) ds' \<and> distinct ds'
    \<and> hs_get_def (0, 0) ''k'' (AInt 0) h' = Inr (AInt 7)"
proof -
  have t: "writes_tree [WSet ''k'' (AInt 7), WSetNullDef ''k'', WSetNull ''n''] YNull
      = Inr (YMap [(YScalar ''k'', YScalar ''7''), (YScalar ''n'', YNull)])"
    by code_simp
  have g: "get_def (YMap [(YScalar ''k'', YScalar ''7''), (YScalar ''n'', YNull)]) ''k'' (AInt 0) = Inr (AInt 7)"
    by code_simp
  show ?thesis
    using writes_refine_tree [OF null_heap_facts(2,3) _ _ t, where m = 0] g
    by (auto simp: is_defined_def)
qed

section \<open>Aliases\<close>

lemma rep_hd: "rep h n t ds \<Longrightarrow> hd ds = data_addr h n"
  by (erule rep.cases) auto

text \<open>A write through a node that shares the data of a slot is a write to the slot.\<close>

lemma alias_write:
  assumes ok: "heap_ok h" and r: "rep h n (YMap kts) ds" "distinct ds"
    and s: "key_find h key (m_map (data_of h n)) = Some s" "rep h s c dc"
    and v: "data_addr h v = data_addr h s" "v < lim h"
    and w: "wrote h h' v dc c' {}"
  shows "\<exists>ds'. rep h' n (YMap (kv_put key c' kts)) ds' \<and> distinct ds'"
proof -
  from r(1) obtain es where es: "ds = data_addr h n # es" "rep_map h (m_map (data_of h n)) kts es"
    by (rule rep_MapE)
  obtain c2 d2 where "rep h s c2 d2" "set d2 \<subseteq> set es"
    using key_find_rep [OF es(2), of key] s(1) by auto
  then have dc: "set dc \<subseteq> set es" using rep_unique [OF s(2), of c2 d2] by simp
  have st: "okstep h h' (set dc)" and a: "aliases_kept h h' (data_addr h v)"
    using w by (simp_all add: wrote_def)
  obtain dv where dv: "rep h' v c' dv" "distinct dv" "set dv \<subseteq> set dc \<union> {lim h..}"
    using wroteD(4) [OF w] by auto
  have sl: "s < lim h" using s(2) by (rule rep_lim)
  have "data_addr h' s = data_addr h' v" using a v sl by (simp add: aliases_kept_def)
  then have sv: "rep h' s c' dv"
    by (rule same_data_rep [OF okstepD(1) [OF st] dv(1)]) (rule okstepD(4) [OF st sl])
  have l: "set es \<subseteq> {..<lim h}" using rep_lims(3) [OF ok es(2)] .
  have "data_addr h n < lim h" using heap_okD(4) [OF ok rep_lim [OF r(1)]] .
  then have nd: "data_addr h n \<notin> set dc" "data_addr h n \<notin> set dv"
    using r(2) es(1) dc dv(3) by auto
  have dj: "set dv \<inter> set es \<subseteq> set dc"
  proof
    fix x assume "x \<in> set dv \<inter> set es"
    then show "x \<in> set dc" using subsetD [OF dv(3), of x] subsetD [OF l, of x] by auto
  qed
  obtain es' where es': "rep_map h' (m_map (data_of h n)) (kv_put key c' kts) es'" "distinct es'"
      "set es' \<subseteq> set es \<union> set dv"
    using rep_map_put_in [OF es(2) s(1) _ s(2) st sv dv(2) _ dj] r(2) es(1) by auto
  have vw: "view h' n = view h n"
    using hstep_view [OF okstepD(2) [OF st] rep_lim [OF r(1)]] nd(1) .
  have "nd_type h' n = NMap" using rep_type [OF r(1)] view_eqD(2) [OF vw] by simp
  then have "rep h' n (YMap (kv_put key c' kts)) (data_addr h' n # es')"
    using rep_Map [of n h'] es'(1) view_eqD [OF vw] okstepD(4) [OF st rep_lim [OF r(1)]] by simp
  moreover have "distinct (data_addr h' n # es')"
    using es' r(2) es(1) nd(2) view_eqD(1) [OF vw] by auto
  ultimately show ?thesis by blast
qed

text \<open>
  C29. A handle from \<open>getNode\<close> is an alias: if the parent holds something defined
  under the name, the handle stands for it, and whatever is written through the
  handle replaces it in the parent; if the parent holds nothing there, the
  handle is a null node of its own and writes through it leave the parent as it
  was.
\<close>
theorem get_node_alias:
  assumes ok: "heap_ok h" and r: "rep h n (YMap kts) ds" "distinct ds"
    and w: "writes_tree ws (live_or_null (case kv_find name kts of Some c \<Rightarrow> Live c | None \<Rightarrow> Zombie name))
        = Inr c'"
  shows "\<exists>v h1 h2. hs_get_node (m, n) name h = (Inr v, h1) \<and> writes_heap v ws h1 = (Inr (), h2)
    \<and> (\<exists>ds'. distinct ds' \<and> rep h2 n
          (case kv_find name kts of
             Some c \<Rightarrow> if is_defined c then YMap (kv_put name c' kts) else YMap kts
           | None \<Rightarrow> YMap kts) ds')"
proof -
  have dn: "nd_type h n \<noteq> NNull" "nd_is_defined h n"
    using rep_type [OF r(1)] rep_defined [OF ok r(1)] by (simp_all add: is_defined_def)
  have mt: "nd_get_const h n name = Inr (key_find h name (m_map (data_of h n)))"
    using rep_data_type [OF r(1) dn(2)] rep_type [OF r(1)] by (simp add: nd_get_const_def)
  from r(1) obtain es where es: "ds = data_addr h n # es" "rep_map h (m_map (data_of h n)) kts es"
    by (rule rep_MapE)
  note kf = key_find_rep [OF es(2), of name]
  show ?thesis
  proof (cases "\<exists>c. kv_find name kts = Some c \<and> is_defined c")
    case True
    then obtain c where c: "kv_find name kts = Some c" "is_defined c" by blast
    obtain s dc where s: "key_find h name (m_map (data_of h n)) = Some s" "rep h s c dc"
        "distinct dc" "set dc \<subseteq> set es"
      using kf c(1) r(2) es(1) by (auto split: option.splits)
    have g: "hs_get_node (m, n) name h = (Inr (m, s), h)"
      using dn mt s(1) rep_defined [OF ok s(2)] c(2) by (simp add: hs_get_node_def)
    have "writes_tree ws c = Inr c'" using w c by (simp add: live_or_null_def)
    then obtain h2 where h2: "writes_heap (m, s) ws h = (Inr (), h2)" "wrote h h2 s dc c' {}"
      using writes_wrote [OF ok s(2,3) c(2)] by blast
    have "\<exists>ds'. rep h2 n (YMap (kv_put name c' kts)) ds' \<and> distinct ds'"
      by (rule alias_write [OF ok r s(1,2) refl rep_lim [OF s(2)] h2(2)])
    then show ?thesis using g h2(1) c by auto
  next
    case False
    obtain h1 m' v where n: "new_handle h = (h1, (m', v))" by (metis prod.exhaust)
    note nh = new_handle_step [OF ok n]
    have "hs_get_node (m, n) name h = hs_fresh h"
      using dn mt kf False rep_defined [OF ok] by (auto simp: hs_get_node_def split: option.splits)
    then have g: "hs_get_node (m, n) name h = (Inr (m', v), h1)" by (simp add: hs_fresh_def n)
    have wn: "writes_tree ws YNull = Inr c'"
      using w False by (auto simp: live_or_null_def split: option.splits)
    obtain h2 where h2: "writes_heap (m', v) ws h1 = (Inr (), h2)" "wrote h1 h2 v [v] c' {}"
      using writes_wrote [OF okstepD(1) [OF nh(1)] nh(3) _ _ wn, of m'] by (auto simp: is_defined_def)
    have "rep h1 n (YMap kts) ds" by (rule rep_frame [OF r(1) nh(1)]) simp
    moreover have "set ds \<inter> set [v] = {}" using rep_lims(1) [OF ok r(1)] nh(2) by auto
    ultimately have "rep h2 n (YMap kts) ds" by (rule wroteD(3) [OF h2(2)])
    then show ?thesis using g h2(1) False r(2) by (auto split: option.splits)
  qed
qed

theorem get_node_alias_witness:
  "\<exists>v h1 h2. hs_get_node (0, 0) ''a'' map_heap = (Inr v, h1)
    \<and> writes_heap v [WSet ''k'' (ABool True)] h1 = (Inr (), h2)
    \<and> (\<exists>ds. rep h2 0 (YMap [(YScalar ''a'', YMap [(YScalar ''k'', YScalar ''true'')])]) ds)"
proof -
  obtain ds where ds: "rep map_heap 0 (YMap [(YScalar ''a'', YNull)]) ds" "distinct ds"
    using map_heap_facts(2) by blast
  have w: "writes_tree [WSet ''k'' (ABool True)]
      (live_or_null (case kv_find ''a'' [(YScalar ''a'', YNull)] of Some c \<Rightarrow> Live c | None \<Rightarrow> Zombie ''a''))
      = Inr (YMap [(YScalar ''k'', YScalar ''true'')])"
    by code_simp
  show ?thesis
    using get_node_alias [OF map_heap_facts(1) ds w, where m = 0]
    by (auto simp: key_is_def is_defined_def)
qed

lemma key_find_cong:
  "rep_map h kvs kts es \<Longrightarrow> rep_map h' kvs kts' es' \<Longrightarrow> map fst kts = map fst kts' \<Longrightarrow>
     key_find h key kvs = key_find h' key kvs"
proof (induction kvs arbitrary: kts es kts' es')
  case (Cons p kvs)
  from Cons.prems(1) obtain k v a b kts1 d1 d2 d3 where 1: "p = (k, v)" "kts = (a, b) # kts1"
      "rep h k a d1" "rep_map h kvs kts1 d3"
    by (auto elim: rep_mapE)
  from Cons.prems(2) 1(1) obtain a' b' kts2 e1 e3 where 2: "kts' = (a', b') # kts2"
      "rep h' k a' e1" "rep_map h' kvs kts2 e3"
    by (auto elim: rep_mapE)
  have "a = a'" "map fst kts1 = map fst kts2" using Cons.prems(3) 1(2) 2(1) by simp_all
  then show ?case
    using Cons.IH [OF 1(4) 2(3)] key_equals_rep [OF 1(3), of key] key_equals_rep [OF 2(2), of key] 1(1)
    by simp
qed simp

lemma kv_put_fst: "kv_find key kts = Some c \<Longrightarrow> map fst (kv_put key v kts) = map fst kts"
  by (induction key kts rule: kv_find.induct) (auto split: if_splits)

text \<open>A later subscript finds the slot and changes nothing.\<close>

lemma nd_get_found:
  assumes "nd_type h n = NMap" and "key_find h key (m_map (data_of h n)) = Some s"
    and "nd_is_defined h s" and "nd_is_defined h n"
  shows "nd_get m n key h = Inr (h, s)"
proof -
  have "m_type (data_of h n) = NMap" using assms(1) by (simp add: nd_type_def split: if_splits)
  then show ?thesis
    using assms(2-) by (simp add: nd_get_def nd_convert_to_map_def add_dependency_def mark_defined_id)
qed

text \<open>Redirecting or rewriting a defined slot: what another node sees of it.\<close>

lemma set_ref_other:
  assumes "nd_is_defined h s" and "x \<noteq> s"
  shows "view (set_ref s v h) x = view h x"
proof -
  have "set_ref s v h = upd_node s (\<lambda>y. y\<lparr>m_pRef := m_pRef (h_node h v)\<rparr>) h"
    using assms(1) by (simp add: set_ref_def mark_defined_id)
  moreover have "data_addr (upd_node s (\<lambda>y. y\<lparr>m_pRef := m_pRef (h_node h v)\<rparr>) h) x = data_addr h x"
    using assms(2) by (simp add: data_addr_def)
  ultimately show ?thesis by (intro view_data) (simp_all add: data_of_def)
qed

text \<open>The state \<open>addNode\<close> leaves: the slot refers to what the added node refers to.\<close>

definition shares :: "yheap \<Rightarrow> nat \<Rightarrow> string \<Rightarrow> nat \<Rightarrow> nat \<Rightarrow> bool" where
  "shares h n key s v \<longleftrightarrow> nd_type h n = NMap \<and> key_find h key (m_map (data_of h n)) = Some s
     \<and> m_pRef (h_node h s) = m_pRef (h_node h v) \<and> s \<noteq> v"

lemma set_ref_pRef:
  assumes "heap_ok h" and "s < lim h" and "v \<noteq> s"
  shows "m_pRef (h_node (set_ref s v h) s) = m_pRef (h_node (set_ref s v h) v)"
  using assms by (simp add: set_ref_def Let_def)

lemma slot_assign_shares:
  assumes sl: "slot_at h h1 n ds kts key s" and n: "n < lim h" "nd_is_defined h n"
    and v: "rep h1 v tv dv" "nd_is_defined h1 v" "data_addr h1 s \<notin> set dv"
    and w: "rep (assign_node (m, s) (m', v) h1) n (YMap (kv_put key tv kts)) ds2"
  shows "shares (assign_node (m, s) (m', v) h1) n key s v"
proof -
  let ?h2 = "assign_node (m, s) (m', v) h1"
  note sd = slot_atD [OF sl n]
  obtain es where es: "rep_map h1 (m_map (data_of h1 n)) (touched key kts) es"
      "distinct (data_addr h n # es)" "key_find h1 key (m_map (data_of h1 n)) = Some s"
    using sl by (auto simp: slot_at_def)
  have s: "s < lim h1" by (rule slot_lim [OF sl n])
  obtain c dc where c: "rep h1 s c dc" "set dc \<subseteq> set es" "kv_find key (touched key kts) = Some c"
    using key_find_rep [OF es(1), of key] es(3) by auto
  have ns: "s \<noteq> v" "\<not> nd_is h1 s v"
    using rep_addr [OF v(1)] v(3) by (auto simp: nd_is_def data_addr_def)
  have e: "?h2 = mem_merge m m' (set_ref s v h1)" using ns(2) by (simp add: assign_node_def)
  have st: "okstep h1 ?h2 {data_addr h1 s}"
    using assign_node_step(1) [OF okstepD(1) [OF sd(1)] s v] .
  have "data_addr h1 n \<noteq> data_addr h1 s" using rep_addr [OF c(1)] c(2) es(2) sd(4) by auto
  then have vw: "view ?h2 n = view h1 n" using hstep_view [OF okstepD(2) [OF st] sd(2)] by simp
  obtain es2 where es2: "rep_map ?h2 (m_map (data_of h1 n)) (kv_put key tv kts) es2"
    using w by (rule rep_MapE) (use view_eqD(5) [OF vw] in auto)
  have "map fst (touched key kts) = map fst (kv_put key tv kts)"
    using kv_put_fst [OF c(3), of tv] by simp
  then have "key_find ?h2 key (m_map (data_of ?h2 n)) = Some s"
    using key_find_cong [OF es(1) es2, of key] es(3) view_eqD(5) [OF vw] by simp
  moreover have "m_pRef (h_node ?h2 s) = m_pRef (h_node ?h2 v)"
    using set_ref_pRef [OF okstepD(1) [OF sd(1)] s] ns(1) by (simp add: e)
  moreover have "nd_type ?h2 n = NMap" using view_eqD(2) [OF vw] sd(5) by simp
  ultimately show ?thesis using ns(1) by (simp add: shares_def)
qed

lemma add_node_shares:
  assumes ok: "heap_ok h" and r: "rep h n t ds" "distinct ds"
    and v: "rep h v tv dv" "distinct dv" "set dv \<inter> set ds = {}"
    and a: "add_node t key tv = Inr t'"
  shows "\<exists>h1 s. hs_add_node (m, n) key (m', v) h = (Inr (), h1) \<and> wrote h h1 n ds t' (set dv)
    \<and> rep h1 v tv dv \<and> shares h1 n key s v \<and> s < lim h1 \<and> is_map t'"
proof -
  have d: "is_defined t" "is_defined tv" using a by (auto simp: add_node_def split: if_splits)
  then have n: "nd_is_defined h n" "nd_is_defined h v"
    using rep_defined [OF ok r(1)] rep_defined [OF ok v(1)] by simp_all
  obtain kts where k: "convert_to_map t key = Inr kts" "t' = YMap (kv_put key tv kts)"
    using a d by (auto simp: add_node_def node_assign_def result_simps)
  obtain h1 s where h1: "nd_get m n key h = Inr (h1, s)" "slot_at h h1 n ds kts key s"
    using nd_get_slot [OF ok r d(1), where key = key and m = m] k(1) by auto
  let ?h2 = "assign_node (m, s) (m', v) h1"
  have e: "hs_add_node (m, n) key (m', v) h = (Inr (), ?h2)"
    using n h1(1) by (simp add: hs_add_node_def)
  have w: "wrote h ?h2 n ds t' (set dv)" "rep ?h2 v tv dv"
    using add_node_refines [OF ok r v, where key = key and m = m and m' = m'] a e by auto
  note sd = slot_atD [OF h1(2) rep_lim [OF r(1)] n(1)]
  have s: "s < lim h1" by (rule slot_lim [OF h1(2) rep_lim [OF r(1)] n(1)])
  have v1: "rep h1 v tv dv"
    using v(3) rep_addr [OF r(1)] by (intro rep_frame [OF v(1) sd(1)]) auto
  have "set dv \<subseteq> {..<lim h}" using rep_lims(1) [OF ok v(1)] .
  then have sv: "data_addr h1 s \<notin> set dv" using sd(6) v(3) by fastforce
  have dv: "nd_is_defined h1 v" by (rule okstepD(5) [OF sd(1) rep_lim [OF v(1)] n(2)])
  obtain ds2 where "rep ?h2 n t' ds2" using wroteD(4) [OF w(1)] by blast
  then have "shares ?h2 n key s v"
    unfolding k(2) by (rule slot_assign_shares [OF h1(2) rep_lim [OF r(1)] n(1) v1 dv sv])
  moreover have "s < lim ?h2"
    using okstepD(4) [OF assign_node_step(1) [OF okstepD(1) [OF sd(1)] s v1 dv sv] s] .
  ultimately show ?thesis using e w k(2) by (auto simp: is_map_def)
qed

text \<open>Through the shared slot.\<close>

lemma shared_write:
  assumes ok: "heap_ok h" and r: "rep h n (YMap kts) ds" "distinct ds"
    and v: "rep h v c dv" and sh: "shares h n key s v" "s < lim h"
    and w: "wrote h h' v dv c' {}"
  shows "\<exists>ds'. rep h' n (YMap (kv_put key c' kts)) ds' \<and> distinct ds'"
proof -
  have a: "data_addr h v = data_addr h s" using sh(1) by (simp add: shares_def data_addr_def)
  have "rep h s c dv" by (rule same_data_rep [OF ok v(1) a [symmetric] sh(2)])
  then show ?thesis
    using alias_write [OF ok r _ _ a rep_lim [OF v] w] sh(1) by (simp add: shares_def)
qed

lemma assign_data_pRef:
  assumes ok: "heap_ok h" and s: "s < lim h" and x: "x < lim h"
  shows "m_pRef (h_node (assign_data (m, s) str h) x) = m_pRef (h_node h x)"
proof -
  obtain h1 t where 1: "new_holder h = (h1, t)" by fastforce
  obtain h2 k where 2: "create_node t h1 = (h2, k)" by fastforce
  note s1 = okstep_new_holder [OF ok 1]
  note ok1 = okstepD(1) [OF s1(1)]
  note c = create_node_eq [OF ok1 2]
  have ok2: "heap_ok h2" using okstep_create_node [OF ok1 2] by (rule okstepD)
  have k: "k < lim h2" "s < lim h2" using c(1,2) s1(2) s by simp_all
  note w = set_scalar_step [OF ok2 k(1), of str]
  have ok3: "heap_ok (nd_set_scalar k str h2)" using w(1) by (rule okstepD)
  have "m_pRef (h_node (set_data s k (nd_set_scalar k str h2)) x)
      = m_pRef (h_node (nd_set_scalar k str h2) x)"
    using mark_defined_step(5) [OF ok3, of s] k(2) w(4) by (simp add: set_data_def Let_def)
  moreover have "h_node h2 x = h_node h x"
    using 1 2 x by (auto simp: new_holder_def create_node_def)
  ultimately show ?thesis using w(5) by (simp add: assign_data_def 1 2)
qed

lemma shared_set:
  assumes ok: "heap_ok h" and v: "rep h v c dv" "is_defined c"
    and sh: "shares h n key s v" "s < lim h" and e: "encode_any a = Some str"
  shows "\<exists>h' dv'. hs_set (m, n) key a h = (Inr (), h') \<and> rep h' v (YScalar str) dv'"
proof -
  have vl: "v < lim h" using v(1) by (rule rep_lim)
  have p: "m_pRef (h_node h s) = m_pRef (h_node h v)" using sh by (simp add: shares_def)
  then have ad: "data_addr h s = data_addr h v" by (simp add: data_addr_def)
  have "nd_is_defined h v" using rep_defined [OF ok v(1)] v(2) by simp
  then have ds: "nd_is_defined h s" using ad by (simp add: nd_is_defined_def data_of_def)
  have dn: "nd_is_defined h n"
    using sh(1) by (auto simp: shares_def nd_type_def nd_is_defined_def split: if_splits)
  have g: "nd_get m n key h = Inr (h, s)"
    using sh(1) ds dn by (intro nd_get_found) (simp_all add: shares_def)
  let ?h1 = "assign_string (m, s) str h" and ?h2 = "assign_data (m, s) str h"
  note s1 = assign_string_step [OF ok sh(2), of m str] and s2 = assign_data_step [OF ok sh(2), of m str]
  have "data_addr ?h1 v = data_addr ?h1 s"
    using ad by (simp add: assign_string_def set_scalar_step(3) [OF ok sh(2)])
  then have r1: "rep ?h1 v (YScalar str) [data_addr h s]"
    by (rule same_data_rep [OF okstepD(1) [OF s1(1)] s1(2)]) (rule okstepD(4) [OF s1(1) vl])
  have "data_addr ?h2 v = data_addr ?h2 s"
    using assign_data_pRef [OF ok sh(2) vl] assign_data_pRef [OF ok sh(2) sh(2)] p
    by (simp add: data_addr_def)
  then have r2: "rep ?h2 v (YScalar str) [lim h]"
    by (rule same_data_rep [OF okstepD(1) [OF s2(1)] s2(2)]) (rule okstepD(4) [OF s2(1) vl])
  show ?thesis
    using r1 r2 g dn e by (cases a) (auto simp: hs_set_def hs_write_def)
qed

lemma shared_set_null:
  assumes ok: "heap_ok h" and v: "rep h v c dv" "is_defined c" "distinct dv"
    and sh: "shares h n key s v" "s < lim h"
  shows "\<exists>h'. hs_set_null (m, n) key h = (Inr (), h') \<and> rep h' v c dv"
proof -
  have vl: "v < lim h" using v(1) by (rule rep_lim)
  have ad: "data_addr h s = data_addr h v" using sh by (simp add: shares_def data_addr_def)
  have "nd_is_defined h v" using rep_defined [OF ok v(1)] v(2) by simp
  then have ds: "nd_is_defined h s" using ad by (simp add: nd_is_defined_def data_of_def)
  have dn: "nd_is_defined h n"
    using sh(1) by (auto simp: shares_def nd_type_def nd_is_defined_def split: if_splits)
  have g: "nd_get m n key h = Inr (h, s)"
    using sh(1) ds dn by (intro nd_get_found) (simp_all add: shares_def)
  obtain h1 m' x where n: "new_handle h = (h1, (m', x))" by (metis prod.exhaust)
  note nh = new_handle_step [OF ok n]
  have ds1: "nd_is_defined h1 s" by (rule okstepD(5) [OF nh(1) sh(2) ds])
  have st: "okstep h (assign_null (m, s) h) {data_addr h s}" by (rule assign_null_step [OF ok sh(2)])
  have "view (assign_node (m, s) (m', x) h1) v = view h1 v"
    using set_ref_other [OF ds1, of v x] sh(1) by (simp add: assign_node_def shares_def)
  moreover have "view h1 v = view h v" using hstep_view [OF okstepD(2) [OF nh(1)] vl] by simp
  ultimately have vw: "view (assign_null (m, s) h) v = view h v" by (simp add: assign_null_def n)
  have "data_addr h s \<notin> set (tl dv)"
    using rep_hd [OF v(1)] v(3) ad rep_addr [OF v(1)] by (cases dv) auto
  then have "rep (assign_null (m, s) h) v c dv"
    by (intro rep_view [OF v(1) vw st]) (use okstepD(4) [OF st vl] in simp_all)
  then show ?thesis using g by (simp add: hs_set_null_def)
qed

text \<open>
  C30. After \<open>addNode\<close> the added node and the parent's slot are one: the parent
  holds the added tree, and holds whatever is later written through the added
  handle; a value written to the key of the parent overwrites the added node
  itself, while \<open>setNull\<close> on the key leaves the added node as it was.
\<close>
theorem add_node_shared:
  assumes "heap_ok h" and "rep h n t ds" and "distinct ds"
    and "rep h v tv dv" and "distinct dv" and "set dv \<inter> set ds = {}"
    and "add_node t key tv = Inr (YMap kts)"
  shows "\<exists>h1 ds1. hs_add_node (m, n) key (m', v) h = (Inr (), h1) \<and> rep h1 n (YMap kts) ds1 \<and> distinct ds1
    \<and> (\<forall>ws c. writes_tree ws tv = Inr c \<longrightarrow> (\<exists>h2 ds2. writes_heap (m', v) ws h1 = (Inr (), h2)
         \<and> rep h2 n (YMap (kv_put key c kts)) ds2 \<and> distinct ds2))
    \<and> (\<forall>a str. encode_any a = Some str \<longrightarrow> (\<exists>h2 dv2. hs_set (m, n) key a h1 = (Inr (), h2)
         \<and> rep h2 v (YScalar str) dv2))
    \<and> (\<exists>h2. hs_set_null (m, n) key h1 = (Inr (), h2) \<and> rep h2 v tv dv)"
proof -
  obtain h1 s where h1: "hs_add_node (m, n) key (m', v) h = (Inr (), h1)"
      "wrote h h1 n ds (YMap kts) (set dv)" "rep h1 v tv dv" "shares h1 n key s v" "s < lim h1"
    using add_node_shares [OF assms, of m m'] by blast
  have ok1: "heap_ok h1" using wroteD(1) [OF h1(2)] .
  have d: "is_defined tv" using assms(7) by (auto simp: add_node_def split: if_splits)
  obtain ds1 where ds1: "rep h1 n (YMap kts) ds1" "distinct ds1" using wroteD(4) [OF h1(2)] by blast
  have 1: "\<exists>h2 ds2. writes_heap (m', v) ws h1 = (Inr (), h2)
         \<and> rep h2 n (YMap (kv_put key c kts)) ds2 \<and> distinct ds2" if c: "writes_tree ws tv = Inr c" for ws c
  proof -
    obtain h2 where h2: "writes_heap (m', v) ws h1 = (Inr (), h2)" "wrote h1 h2 v dv c {}"
      using writes_wrote [OF ok1 h1(3) assms(5) d c] by blast
    show ?thesis using shared_write [OF ok1 ds1 h1(3-5) h2(2)] h2(1) by blast
  qed
  have 2: "\<exists>h2 dv2. hs_set (m, n) key a h1 = (Inr (), h2) \<and> rep h2 v (YScalar str) dv2"
    if "encode_any a = Some str" for a str
    using shared_set [OF ok1 h1(3) d h1(4,5) that] .
  have 3: "\<exists>h2. hs_set_null (m, n) key h1 = (Inr (), h2) \<and> rep h2 v tv dv"
    using shared_set_null [OF ok1 h1(3) d assms(5) h1(4,5)] .
  show ?thesis
    by (intro exI [of _ h1] exI [of _ ds1] conjI allI impI h1(1) ds1 1 2 3)
qed

theorem add_node_shared_witness:
  "\<exists>h v h1. new_handle null_heap = (h, v) \<and> hs_add_node (0, 0) ''k'' v h = (Inr (), h1)
    \<and> (\<exists>h2 ds. writes_heap v [WSet ''x'' (AInt 1)] h1 = (Inr (), h2)
         \<and> rep h2 0 (YMap [(YScalar ''k'', YMap [(YScalar ''x'', YScalar ''1'')])]) ds)
    \<and> (\<exists>h2 ds. hs_set (0, 0) ''k'' (AStr ''s'') h1 = (Inr (), h2) \<and> rep h2 (snd v) (YScalar ''s'') ds)"
proof -
  obtain h m v where n: "new_handle null_heap = (h, (m, v))" by (metis prod.exhaust)
  note w = new_handle_step [OF null_heap_facts(2) n]
  have v: "v = 1" using w(2) null_heap_facts(5) by simp
  have r: "rep h 0 YNull [0]" by (rule rep_frame [OF null_heap_facts(3) w(1)]) simp
  have a: "add_node YNull ''k'' YNull = Inr (YMap [(YScalar ''k'', YNull)])" by code_simp
  have t: "writes_tree [WSet ''x'' (AInt 1)] YNull = Inr (YMap [(YScalar ''x'', YScalar ''1'')])" by code_simp
  obtain h1 ds1 where h1: "hs_add_node (0, 0) ''k'' (m, v) h = (Inr (), h1)"
    "\<forall>ws c. writes_tree ws YNull = Inr c \<longrightarrow> (\<exists>h2 ds2. writes_heap (m, v) ws h1 = (Inr (), h2)
         \<and> rep h2 0 (YMap (kv_put ''k'' c [(YScalar ''k'', YNull)])) ds2 \<and> distinct ds2)"
    "\<forall>a str. encode_any a = Some str \<longrightarrow> (\<exists>h2 dv2. hs_set (0, 0) ''k'' a h1 = (Inr (), h2)
         \<and> rep h2 v (YScalar str) dv2)"
    using add_node_shared [OF okstepD(1) [OF w(1)] r _ w(3) _ _ a, where m = 0 and m' = m] v by auto
  have "encode_any (AStr ''s'') = Some ''s''" by (simp add: encode_any_def)
  then show ?thesis using n h1(1,3) h1(2) [rule_format, OF t] by (auto simp: key_is_def)
qed

end
