(* ===== verification/YamlEvents.thy ===== *)
theory YamlEvents
  imports YamlRefine
begin

text \<open>
  Writing a node out and building one up: \<open>src/nodeevents.cpp\<close> turns the graph
  behind a handle into a stream of events, with an anchor for every reference
  met more than once, and \<open>src/nodebuilder.cpp\<close> builds nodes from such a stream.
  Both run when a file is saved and loaded, with the emitter's text in between,
  which is a parameter.
\<close>

section \<open>Events\<close>

datatype yevent =
    EvDocStart
  | EvDocEnd
  | EvNull nat
  | EvAlias nat
  | EvScalar nat string
  | EvSeqStart nat
  | EvSeqEnd
  | EvMapStart nat
  | EvMapEnd

definition node_ref :: "yheap \<Rightarrow> nat \<Rightarrow> nat" where
  "node_ref h n = m_pRef (h_node h n)"

text \<open>The nodes an iteration over a node meets: the elements of a sequence, the
  keys and values of the defined pairs of a map.\<close>

definition defined_pairs :: "yheap \<Rightarrow> nat \<Rightarrow> (nat \<times> nat) list" where
  "defined_pairs h n =
     filter (\<lambda>p. nd_is_defined h (fst p) \<and> nd_is_defined h (snd p)) (m_map (data_of h n))"

definition children :: "yheap \<Rightarrow> nat \<Rightarrow> nat list" where
  "children h n = (case nd_type h n of
      NSequence \<Rightarrow> m_sequence (data_of h n)
    | NMap \<Rightarrow> concat (map (\<lambda>p. [fst p, snd p]) (defined_pairs h n))
    | _ \<Rightarrow> [])"

text \<open>\<open>NodeEvents::Setup\<close> for a list of nodes still to be set up: a call sets up the
  children before it returns, so they go in front.  A reference that is not
  allocated is passed over; in a well-formed heap there is none.\<close>

function setup_refs :: "yheap \<Rightarrow> (nat \<Rightarrow> nat) \<Rightarrow> nat list \<Rightarrow> (nat \<Rightarrow> nat)" where
  "setup_refs h rc [] = rc"
| "setup_refs h rc (n # ns) =
     (let r = node_ref h n; rc' = rc(r := Suc (rc r)) in
      if 1 < rc' r \<or> lim h \<le> r then setup_refs h rc' ns else setup_refs h rc' (children h n @ ns))"
  by pat_completeness auto

definition unvisited :: "yheap \<Rightarrow> (nat \<Rightarrow> nat) \<Rightarrow> nat set" where
  "unvisited h rc = {r. r < lim h \<and> rc r = 0}"

lemma finite_unvisited [simp]: "finite (unvisited h rc)"
  by (simp add: unvisited_def)

lemma unvisited_less: "rc r = 0 \<Longrightarrow> r < lim h \<Longrightarrow> unvisited h (rc(r := Suc 0)) \<subset> unvisited h rc"
  by (auto simp: unvisited_def)

lemma unvisited_le: "card (unvisited h (rc(r := Suc k))) \<le> card (unvisited h rc)"
  by (rule card_mono) (auto simp: unvisited_def)

termination setup_refs
proof (relation "(\<lambda>(h, rc, ns). card (unvisited h rc)) <*mlex*> measure (\<lambda>(h, rc, ns). length ns)")
  show "wf ((\<lambda>(h, rc, ns). card (unvisited h rc)) <*mlex*> measure (\<lambda>(h, rc, ns). length ns))"
    by (simp add: wf_mlex)
next
  fix h :: yheap and rc :: "nat \<Rightarrow> nat" and n r :: nat and ns and rc'
  assume r: "r = node_ref h n" and rc': "rc' = rc(r := Suc (rc r))"
  show "((h, rc', ns), h, rc, n # ns)
      \<in> (\<lambda>(h, rc, ns). card (unvisited h rc)) <*mlex*> measure (\<lambda>(h, rc, ns). length ns)"
    using unvisited_le [of h rc r "rc r"] by (auto simp: mlex_prod_def rc')
  show "((h, rc', children h n @ ns), h, rc, n # ns)
      \<in> (\<lambda>(h, rc, ns). card (unvisited h rc)) <*mlex*> measure (\<lambda>(h, rc, ns). length ns)"
    if "\<not> (1 < rc' r \<or> lim h \<le> r)"
    using that psubset_card_mono [OF _ unvisited_less [of rc r h]]
    by (auto simp: mlex_prod_def rc')
qed

text \<open>\<open>NodeEvents::Emit\<close>, on a list of nodes still to be emitted and of closing
  events.  \<open>am\<close> is \<open>m_anchorByIdentity\<close>, with 0 for no anchor, \<open>cur\<close> the last
  anchor given out.\<close>

datatype todo = Visit nat | Close yevent

definition node_event :: "yheap \<Rightarrow> nat \<Rightarrow> nat \<Rightarrow> yevent list \<times> todo list" where
  "node_event h n anchor = (case nd_type h n of
      NUndefined \<Rightarrow> ([], [])
    | NNull \<Rightarrow> ([EvNull anchor], [])
    | NScalar \<Rightarrow> ([EvScalar anchor (m_scalar (data_of h n))], [])
    | NSequence \<Rightarrow> ([EvSeqStart anchor], map Visit (children h n) @ [Close EvSeqEnd])
    | NMap \<Rightarrow> ([EvMapStart anchor], map Visit (children h n) @ [Close EvMapEnd]))"

partial_function (option) emit_all ::
  "yheap \<Rightarrow> (nat \<Rightarrow> nat) \<Rightarrow> (nat \<Rightarrow> nat) \<Rightarrow> nat \<Rightarrow> todo list \<Rightarrow> yevent list option" where
  "emit_all h rc am cur ts = (case ts of
      [] \<Rightarrow> Some []
    | Close e # ts \<Rightarrow> Option.bind (emit_all h rc am cur ts) (\<lambda>es. Some (e # es))
    | Visit n # ts \<Rightarrow>
        let r = node_ref h n in
        if 1 < rc r then
          (if am r \<noteq> 0 then Option.bind (emit_all h rc am cur ts) (\<lambda>es. Some (EvAlias (am r) # es))
           else Option.bind (emit_all h rc (am(r := Suc cur)) (Suc cur) (snd (node_event h n (Suc cur)) @ ts))
                  (\<lambda>es. Some (fst (node_event h n (Suc cur)) @ es)))
        else Option.bind (emit_all h rc am cur (snd (node_event h n 0) @ ts))
               (\<lambda>es. Some (fst (node_event h n 0) @ es)))"

definition node_events :: "yheap \<Rightarrow> nat \<Rightarrow> yevent list option" where
  "node_events h n =
     Option.bind (emit_all h (setup_refs h (\<lambda>_. 0) [n]) (\<lambda>_. 0) 0 [Visit n])
       (\<lambda>es. Some (EvDocStart # es @ [EvDocEnd]))"

section \<open>The builder\<close>

text \<open>\<open>NodeBuilder\<close>: the back of \<open>m_stack\<close> and of \<open>m_keys\<close> is the head of the list.
  Anchors start at 1; the entry for 0 is the null pointer of the code.\<close>

record nbuilder =
  b_memory :: nat
  m_pRoot :: "nat option"
  m_stack :: "nat list"
  m_anchors :: "nat option list"
  m_keys :: "(nat \<times> bool) list"
  m_mapDepth :: nat

definition new_builder :: "yheap \<Rightarrow> yheap \<times> nbuilder" where
  "new_builder h = (let (h, m) = new_holder h in
     (h, \<lparr>b_memory = m, m_pRoot = None, m_stack = [], m_anchors = [None], m_keys = [], m_mapDepth = 0\<rparr>))"

text \<open>\<open>Push(node)\<close>, \<open>RegisterAnchor\<close> and \<open>Push(mark, anchor)\<close>.\<close>

definition b_push :: "yheap \<Rightarrow> nat \<Rightarrow> nbuilder \<Rightarrow> nbuilder" where
  "b_push h n b =
     (let needsKey = (m_stack b \<noteq> [] \<and> nd_type h (hd (m_stack b)) = NMap
        \<and> length (m_keys b) < m_mapDepth b)
      in b\<lparr>m_stack := n # m_stack b,
           m_keys := (if needsKey then (n, False) # m_keys b else m_keys b)\<rparr>)"

definition b_register :: "nat \<Rightarrow> nat \<Rightarrow> nbuilder \<Rightarrow> nbuilder" where
  "b_register anchor n b = (if anchor \<noteq> 0 then b\<lparr>m_anchors := m_anchors b @ [Some n]\<rparr> else b)"

definition b_push_new :: "nat \<Rightarrow> yheap \<times> nbuilder \<Rightarrow> yheap \<times> nbuilder \<times> nat" where
  "b_push_new anchor s = (case s of (h, b) \<Rightarrow>
     case create_node (b_memory b) h of (h, n) \<Rightarrow> (h, b_push h n (b_register anchor n b), n))"

text \<open>\<open>Pop\<close>.  A collection on the stack is a sequence or a map, so neither insertion
  fails.\<close>

definition b_pop :: "yheap \<times> nbuilder \<Rightarrow> yheap \<times> nbuilder" where
  "b_pop s = (case s of (h, b) \<Rightarrow> (case m_stack b of
      [] \<Rightarrow> (h, b)
    | [n] \<Rightarrow> (h, b\<lparr>m_pRoot := Some n, m_stack := []\<rparr>)
    | n # c # st \<Rightarrow>
        let b = b\<lparr>m_stack := c # st\<rparr> in
        if nd_type h c = NSequence then
          (case nd_push_back c n h of Inr h \<Rightarrow> (h, b) | Inl _ \<Rightarrow> (h, b))
        else if nd_type h c = NMap then
          (case m_keys b of
             [] \<Rightarrow> (h, b)
           | (k, done') # ks \<Rightarrow>
               if done' then
                 (case nd_insert (b_memory b) c k n h of
                    Inr h \<Rightarrow> (h, b\<lparr>m_keys := ks\<rparr>) | Inl _ \<Rightarrow> (h, b))
               else (h, b\<lparr>m_keys := (k, True) # ks\<rparr>))
        else (h, b\<lparr>m_stack := []\<rparr>)))"

definition b_event :: "yevent \<Rightarrow> yheap \<times> nbuilder \<Rightarrow> yheap \<times> nbuilder" where
  "b_event e s = (case e of
      EvDocStart \<Rightarrow> s
    | EvDocEnd \<Rightarrow> s
    | EvNull a \<Rightarrow> (case b_push_new a s of (h, b, n) \<Rightarrow> b_pop (nd_set_null n h, b))
    | EvAlias a \<Rightarrow> (case m_anchors (snd s) ! a of
          Some n \<Rightarrow> b_pop (fst s, b_push (fst s) n (snd s))
        | None \<Rightarrow> s)
    | EvScalar a v \<Rightarrow> (case b_push_new a s of (h, b, n) \<Rightarrow> b_pop (nd_set_scalar n v h, b))
    | EvSeqStart a \<Rightarrow> (case b_push_new a s of (h, b, n) \<Rightarrow> (nd_set_type n NSequence h, b))
    | EvSeqEnd \<Rightarrow> b_pop s
    | EvMapStart a \<Rightarrow> (case b_push_new a s of (h, b, n) \<Rightarrow>
          (nd_set_type n NMap h, b\<lparr>m_mapDepth := Suc (m_mapDepth b)\<rparr>))
    | EvMapEnd \<Rightarrow> (case s of (h, b) \<Rightarrow> b_pop (h, b\<lparr>m_mapDepth := m_mapDepth b - 1\<rparr>)))"

text \<open>\<open>Root\<close>, for a builder that saw the events of a document; without a root its nodes go
  with it, and only the counter of indices has moved.\<close>

definition build :: "yevent list \<Rightarrow> yheap \<Rightarrow> yheap \<times> yhand" where
  "build es h = (case fold b_event es (new_builder h) of (h', b) \<Rightarrow>
     (case m_pRoot b of
        None \<Rightarrow> new_handle (h\<lparr>m_amount := m_amount h'\<rparr>)
      | Some n \<Rightarrow> (h', (b_memory b, n))))"

text \<open>\<open>Clone\<close>.\<close>

definition clone_node :: "yhand \<Rightarrow> yheap \<Rightarrow> (yheap \<times> yhand) option" where
  "clone_node r h = map_option (\<lambda>es. build es h) (node_events h (snd r))"

section \<open>Files\<close>

text \<open>\<open>YamlNode(filePath)\<close>: the node of the new handle is redirected to the root of
  the document, the handle then points to that root; the parser answers with an
  error, with no document, or with the events of one.  After an exception the heap is
  what it was: the half-made handle is destroyed, and its node with it.\<close>

definition hs_load_file ::
  "(string \<Rightarrow> string + yevent list option) \<Rightarrow> files \<Rightarrow> string \<Rightarrow> yheap \<Rightarrow> yhand yres" where
  "hs_load_file parse fs path h =
     (case fs path of
        None \<Rightarrow> (Inl (RuntimeError (''bad file: '' @ path)), h)
      | Some text \<Rightarrow> (case parse text of
          Inl what \<Rightarrow> (Inl (RuntimeError what), h)
        | Inr evs \<Rightarrow>
            (case new_handle h of (h, r) \<Rightarrow>
               (case (case evs of None \<Rightarrow> new_handle h | Some es \<Rightarrow> build es h) of
                  (h, v) \<Rightarrow> (Inr (fst r, snd v), assign_node r v h)))))"

text \<open>\<open>loadFile\<close>: the flag, and the handle the caller's variable holds afterwards.\<close>

definition hs_load_node ::
  "(string \<Rightarrow> string + yevent list option) \<Rightarrow> files \<Rightarrow> yhand \<Rightarrow> string \<Rightarrow> yheap \<Rightarrow> (bool \<times> yhand) \<times> yheap" where
  "hs_load_node parse fs r path h = (case hs_load_file parse fs path h of
      (Inl _, h) \<Rightarrow> ((False, r), h)
    | (Inr v, h) \<Rightarrow> ((nd_is_defined h (snd v), v), h))"

text \<open>\<open>saveAsFile\<close>, with the emitter's rendering of the events a parameter.\<close>

definition hs_save_as_file ::
  "(yevent list \<Rightarrow> string) \<Rightarrow> (string \<Rightarrow> bool) \<Rightarrow> files \<Rightarrow> yhand \<Rightarrow> string \<Rightarrow> yheap
     \<Rightarrow> (yexn + files) option" where
  "hs_save_as_file render writable fs r path h =
     (if \<not> nd_is_defined h (snd r) \<or> nd_type h (snd r) = NNull
      then Some (Inl (RuntimeError ''failed to save config file: node is invalid''))
      else map_option (\<lambda>es. Inr (if writable path then fs(path \<mapsto> render es) else fs))
             (node_events h (snd r)))"

section \<open>Emission ends\<close>

lemma setup_step:
  obtains ms where "setup_refs h rc (n # ns) = setup_refs h (rc(node_ref h n := Suc (rc (node_ref h n)))) ms"
  by (cases "1 < (rc(node_ref h n := Suc (rc (node_ref h n)))) (node_ref h n) \<or> lim h \<le> node_ref h n")
     (simp_all only: setup_refs.simps Let_def if_True if_False)

lemma setup_mono: "rc r \<le> setup_refs h rc ns r"
proof (induction h rc ns rule: setup_refs.induct)
  case (2 h rc n ns)
  let ?x = "node_ref h n"
  let ?rc = "rc(?x := Suc (rc ?x))"
  have le: "rc r \<le> ?rc r" by simp
  have eq: "setup_refs h rc (n # ns) = (if 1 < ?rc ?x \<or> lim h \<le> ?x then setup_refs h ?rc ns
      else setup_refs h ?rc (children h n @ ns))"
    unfolding setup_refs.simps Let_def by (rule refl)
  show ?case
  proof (cases "1 < ?rc ?x \<or> lim h \<le> ?x")
    case True
    from 2(1) [OF refl refl True] le have "rc r \<le> setup_refs h ?rc ns r" by (rule order_trans [rotated])
    then show ?thesis unfolding eq if_P [OF True] .
  next
    case False
    from 2(2) [OF refl refl False] le have "rc r \<le> setup_refs h ?rc (children h n @ ns) r"
      by (rule order_trans [rotated])
    then show ?thesis unfolding eq if_not_P [OF False] .
  qed
qed simp

lemma setup_counts: "Suc (rc (node_ref h n)) \<le> setup_refs h rc (n # ns) (node_ref h n)"
proof -
  obtain ms where e: "setup_refs h rc (n # ns) = setup_refs h (rc(node_ref h n := Suc (rc (node_ref h n)))) ms"
    by (rule setup_step)
  have "(rc(node_ref h n := Suc (rc (node_ref h n)))) (node_ref h n) \<le> setup_refs h rc (n # ns) (node_ref h n)"
    unfolding e by (rule setup_mono)
  then show ?thesis by simp
qed

lemma children_ok:
  assumes "heap_ok h" and "n < lim h" and "x \<in> set (children h n)"
  shows "x < lim h \<and> nd_is_defined h x"
  using heap_okD(5) [OF assms(1,2)] assms(3)
  by (auto simp: children_def defined_pairs_def data_ok_def split: ntype.splits)

lemma node_ref_lim: "heap_ok h \<Longrightarrow> n < lim h \<Longrightarrow> node_ref h n < lim h"
  unfolding node_ref_def by (rule heap_okD)

lemma setup_expand:
  assumes "heap_ok h" and "n < lim h"
  shows "setup_refs h rc (n # ns) =
    setup_refs h (rc(node_ref h n := Suc (rc (node_ref h n))))
      (if rc (node_ref h n) = 0 then children h n @ ns else ns)"
  using node_ref_lim [OF assms] by (simp add: Let_def)

fun visits :: "todo list \<Rightarrow> nat list" where
  "visits [] = []"
| "visits (Visit n # ts) = n # visits ts"
| "visits (Close e # ts) = visits ts"

lemma visits_append [simp]: "visits (ts @ us) = visits ts @ visits us"
  by (induction ts rule: visits.induct) simp_all

lemma visits_map [simp]: "visits (map Visit ns) = ns"
  by (induction ns) simp_all

lemma visits_node_event [simp]: "visits (snd (node_event h n a)) = children h n"
  by (simp add: node_event_def children_def split: ntype.split)

lemma visits_Cons:
  "visits ts = n # ns \<Longrightarrow> \<exists>es us. ts = map Close es @ Visit n # us \<and> visits us = ns"
proof (induction ts rule: visits.induct)
  case (3 e ts)
  then obtain es us where "ts = map Close es @ Visit n # us" "visits us = ns" by auto
  then show ?case by (intro exI [of _ "e # es"] exI [of _ us]) simp
qed (auto intro: exI [of _ "[]"])

lemma visits_Nil: "visits ts = [] \<Longrightarrow> \<exists>es. ts = map Close es"
proof (induction ts rule: visits.induct)
  case (3 e ts)
  then obtain es where "ts = map Close es" by auto
  then show ?case by (intro exI [of _ "e # es"]) simp
qed auto

text \<open>A stream whose anchors are numbered in order and whose aliases refer back:
  what the assertion in \<open>RegisterAnchor\<close> asks for.\<close>

definition ev_anchor :: "yevent \<Rightarrow> nat" where
  "ev_anchor e = (case e of EvNull a \<Rightarrow> a | EvScalar a _ \<Rightarrow> a | EvSeqStart a \<Rightarrow> a
     | EvMapStart a \<Rightarrow> a | _ \<Rightarrow> 0)"

fun anchors_ok :: "nat \<Rightarrow> yevent list \<Rightarrow> bool" where
  "anchors_ok k [] \<longleftrightarrow> True"
| "anchors_ok k (EvAlias a # es) \<longleftrightarrow> 0 < a \<and> a \<le> k \<and> anchors_ok k es"
| "anchors_ok k (e # es) \<longleftrightarrow> (if ev_anchor e = 0 then anchors_ok k es
     else ev_anchor e = Suc k \<and> anchors_ok (Suc k) es)"

definition closing :: "todo list \<Rightarrow> bool" where
  "closing ts \<longleftrightarrow> (\<forall>e. Close e \<in> set ts \<longrightarrow> e = EvSeqEnd \<or> e = EvMapEnd)"

lemma closing_node_event [simp]: "closing (snd (node_event h n a))"
  by (auto simp: closing_def node_event_def split: ntype.split)

lemma closing_append [simp]: "closing (ts @ us) \<longleftrightarrow> closing ts \<and> closing us"
  by (auto simp: closing_def)

lemma closing_Visit [simp]: "closing (Visit n # us) \<longleftrightarrow> closing us"
  by (auto simp: closing_def)

lemma emit_closes:
  assumes "emit_all h rc am cur us = Some fs" and "closing (map Close es)" and "anchors_ok cur fs"
  shows "\<exists>gs. emit_all h rc am cur (map Close es @ us) = Some gs \<and> anchors_ok cur gs"
  using assms
proof (induction es)
  case (Cons e es)
  have "closing (map Close es)" "e = EvSeqEnd \<or> e = EvMapEnd"
    using Cons.prems(2) by (auto simp: closing_def)
  then show ?case
    using Cons.IH [OF Cons.prems(1) _ Cons.prems(3)]
    by (subst emit_all.simps) (auto simp: ev_anchor_def)
qed auto

lemma anchors_node_event:
  assumes "anchors_ok (if a = 0 then k else Suc k) es" and "a = 0 \<or> a = Suc k"
    and "fst (node_event h n a) = [] \<longrightarrow> a = 0"
  shows "anchors_ok k (fst (node_event h n a) @ es)"
  using assms by (auto simp: node_event_def ev_anchor_def split: ntype.splits if_splits)

text \<open>Emission follows the order of \<open>Setup\<close>: it expands a node where \<open>Setup\<close> met its
  reference for the first time, and writes an alias where \<open>Setup\<close> returned.\<close>

lemma emit_follows_setup:
  assumes "heap_ok h" and "\<forall>n \<in> set ns. n < lim h \<and> nd_is_defined h n" and "visits ts = ns" and "closing ts"
    and "F = setup_refs h rc ns" and "\<forall>r. am r \<noteq> 0 \<longleftrightarrow> 1 < F r \<and> 0 < rc r" and "\<forall>r. am r \<le> cur"
  shows "\<exists>es. emit_all h F am cur ts = Some es \<and> anchors_ok cur es"
  using assms
proof (induction h rc ns arbitrary: ts am cur rule: setup_refs.induct)
  case (1 h rc)
  then obtain cs where "ts = map Close cs" using visits_Nil by blast
  moreover have "emit_all h F am cur [] = Some []" by (subst emit_all.simps) simp
  ultimately show ?case using emit_closes [of h F am cur "[]" "[]" cs] "1.prems"(4) by simp
next
  case (2 h rc n ns)
  let ?r = "node_ref h n"
  let ?rc = "rc(?r := Suc (rc ?r))"
  obtain cs us where ts: "ts = map Close cs @ Visit n # us" and us: "visits us = ns"
    using visits_Cons [OF "2.prems"(3)] by blast
  have cl: "closing (map Close cs)" "closing us" using "2.prems"(4) by (simp_all add: ts)
  have n: "n < lim h" using "2.prems"(2) by simp
  have rl: "\<not> lim h \<le> ?r" using node_ref_lim [OF "2.prems"(1) n] by simp
  note F = "2.prems"(5) [unfolded setup_expand [OF "2.prems"(1) n]]
  have cnt: "Suc (rc ?r) \<le> F ?r" unfolding "2.prems"(5) by (rule setup_counts)
  have am: "am ?r \<noteq> 0 \<longleftrightarrow> 1 < F ?r \<and> 0 < rc ?r" using "2.prems"(6) by blast
  have "\<exists>es. emit_all h F am cur (Visit n # us) = Some es \<and> anchors_ok cur es"
  proof (cases "rc ?r = 0")
    case False
    then have g: "1 < F ?r" "am ?r \<noteq> 0" and c: "1 < ?rc ?r \<or> lim h \<le> ?r" using cnt am by auto
    have F': "F = setup_refs h ?rc ns" using F False by simp
    have "\<forall>r. am r \<noteq> 0 \<longleftrightarrow> 1 < F r \<and> 0 < ?rc r" using "2.prems"(6) g by auto
    then obtain es where "emit_all h F am cur us = Some es" "anchors_ok cur es"
      using "2.IH"(1) [OF refl refl c "2.prems"(1) _ us cl(2) F' _ "2.prems"(7)] "2.prems"(2) by auto
    then show ?thesis using g "2.prems"(7) by (subst emit_all.simps) (simp add: Let_def)
  next
    case True
    then have c: "\<not> (1 < ?rc ?r \<or> lim h \<le> ?r)" using rl by simp
    have F': "F = setup_refs h ?rc (children h n @ ns)" using F True by simp
    have lims: "\<forall>x \<in> set (children h n @ ns). x < lim h \<and> nd_is_defined h x"
      using "2.prems"(2) children_ok [OF "2.prems"(1) n] by auto
    have v: "visits (snd (node_event h n a) @ us) = children h n @ ns" for a using us by simp
    have cl2: "closing (snd (node_event h n a) @ us)" for a using cl(2) by simp
    note IH = "2.IH"(2) [OF refl refl c "2.prems"(1) lims v cl2 F']
    show ?thesis
    proof (cases "1 < F ?r")
      case shared: True
      let ?am = "am(?r := Suc cur)"
      have "\<forall>r. ?am r \<noteq> 0 \<longleftrightarrow> 1 < F r \<and> 0 < ?rc r" using "2.prems"(6) shared by auto
      moreover have "\<forall>r. ?am r \<le> Suc cur" using "2.prems"(7) by (simp add: le_SucI)
      ultimately obtain es where es: "emit_all h F ?am (Suc cur) (snd (node_event h n (Suc cur)) @ us) = Some es"
          "anchors_ok (Suc cur) es"
        using IH [of ?am "Suc cur" "Suc cur"] by blast
      have "nd_type h n \<noteq> NUndefined" using heap_defined_iff [OF "2.prems"(1) n] "2.prems"(2) by simp
      then have d: "fst (node_event h n (Suc cur)) \<noteq> []" by (simp add: node_event_def split: ntype.split)
      show ?thesis using es shared am True anchors_node_event [of "Suc cur" cur es h n] d
        by (subst emit_all.simps) (simp add: Let_def)
    next
      case single: False
      have "\<forall>r. am r \<noteq> 0 \<longleftrightarrow> 1 < F r \<and> 0 < ?rc r" using "2.prems"(6) single by auto
      then obtain es where es: "emit_all h F am cur (snd (node_event h n 0) @ us) = Some es"
          "anchors_ok cur es"
        using IH [of am cur 0] "2.prems"(7) by blast
      show ?thesis using es single anchors_node_event [of 0 cur es h n]
        by (subst emit_all.simps) (simp add: Let_def)
    qed
  qed
  then show ?case unfolding ts using emit_closes [OF _ cl(1)] by blast
qed

text \<open>
  C32. Writing out ends, whatever the handles share: for every node of a well-formed
  heap, cyclic or not, the events are a finite stream whose anchors are numbered
  1, 2, ... in the order of their appearance (so the builder's assertion holds)
  and whose aliases name an anchor seen before.
\<close>
theorem emission_ends:
  assumes "heap_ok h" and "handle_ok h r"
  shows "\<exists>es. node_events h (snd r) = Some (EvDocStart # es @ [EvDocEnd]) \<and> anchors_ok 0 es"
proof -
  have "\<exists>es. emit_all h (setup_refs h (\<lambda>_. 0) [snd r]) (\<lambda>_. 0) 0 [Visit (snd r)] = Some es
      \<and> anchors_ok 0 es"
    by (rule emit_follows_setup [OF assms(1) _ _ _ refl])
       (use assms(2) in \<open>auto simp: handle_ok_def closing_def\<close>)
  then show ?thesis by (auto simp: node_events_def)
qed

theorem emission_ends_witness:
  "\<exists>es. node_events map_heap 0 = Some (EvDocStart # es @ [EvDocEnd]) \<and> anchors_ok 0 es"
proof -
  have "handle_ok map_heap (0, 0)"
    using map_heap_facts rep_lim rep_defined by (fastforce simp: handle_ok_def is_defined_def)
  then show ?thesis using emission_ends [OF map_heap_facts(1)] by fastforce
qed

end
