(* ===== verification/YamlClone.thy ===== *)
theory YamlClone
  imports YamlEvents
begin

text \<open>
  The builder reads what the emission writes: running the events of a node
  through a builder yields a node that stands for the same tree, shared subtrees
  and all, without the undefined entries of its maps.
\<close>

section \<open>What survives\<close>

text \<open>Pairs with an undefined key or value are passed over by the iteration.\<close>

function prune :: "ynode \<Rightarrow> ynode"
  and prune_seq :: "ynode list \<Rightarrow> ynode list"
  and prune_map :: "(ynode \<times> ynode) list \<Rightarrow> (ynode \<times> ynode) list" where
  "prune YUndef = YUndef"
| "prune YNull = YNull"
| "prune (YScalar s) = YScalar s"
| "prune (YSeq ts) = YSeq (prune_seq ts)"
| "prune (YMap kts) = YMap (prune_map kts)"
| "prune_seq [] = []"
| "prune_seq (t # ts) = prune t # prune_seq ts"
| "prune_map [] = []"
| "prune_map ((a, b) # kts) =
     (if is_defined a \<and> is_defined b then (prune a, prune b) # prune_map kts else prune_map kts)"
  by pat_completeness auto

termination
  by (relation "measure (case_sum size (case_sum (size_list size) (size_list (size_prod size size))))")
     simp_all

lemma prune_defined [simp]: "is_defined (prune t) = is_defined t"
  by (cases t) (simp_all add: is_defined_def)

section \<open>Collections of the builder\<close>

lemma data_ok_set_type: "data_ok h d \<Longrightarrow> t \<noteq> NUndefined \<Longrightarrow> data_ok h (data_set_type t d)"
  by (cases t) (auto simp: data_ok_def data_set_type_def reset_sequence_def reset_map_def Let_def)

lemma set_type_defined: "t \<noteq> NUndefined \<Longrightarrow> m_isDefined (data_set_type t d)"
  by (cases t) (auto simp: data_set_type_def reset_sequence_def reset_map_def Let_def)

lemma fresh_collection:
  assumes ok: "heap_ok h" and c: "create_node m h = (h1, n)" and t: "ty = NSequence \<or> ty = NMap"
  defines "h2 \<equiv> nd_set_type n ty h1"
  shows "okstep h h2 {}" "n = lim h" "n < lim h2" "nd_is_defined h2 n" "nd_type h2 n = ty"
    "data_addr h2 n = n" "m_sequence (data_of h2 n) = []" "m_map (data_of h2 n) = []"
proof -
  note k = create_node_eq [OF ok c]
  note s1 = okstep_create_node [OF ok c]
  have l: "n < lim h1" using k(1,2) by simp
  have tu: "ty \<noteq> NUndefined" using t by auto
  note w = mark_then_step [OF okstepD(1) [OF s1] l set_type_defined [OF tu] data_ok_set_type [OF _ tu]]
  have e: "h2 = upd_data n (data_set_type ty) (mark_defined n h1)" using tu by (simp add: h2_def nd_set_type_def)
  show n: "n = lim h" by (rule k(1))
  have s2: "okstep h1 h2 {n}" using w(1) k(3) by (simp add: e)
  show "okstep h h2 {}"
  proof (rule okstep_fresh [OF ok])
    show "okstep h h2 {n}" by (rule okstep_trans [OF s1 s2]) simp
  qed (simp add: n)
  show "n < lim h2" using l w(4) by (simp add: e)
  show "data_addr h2 n = n" using w(3) k(3) by (simp add: e)
  have d: "data_of h2 n = data_set_type ty (data_mark_defined new_data)" using w(2) k(4) by (simp add: e)
  show "nd_is_defined h2 n" using set_type_defined [OF tu] by (simp add: nd_is_defined_def d)
  show "nd_type h2 n = ty" "m_sequence (data_of h2 n) = []" "m_map (data_of h2 n) = []"
    using t by (auto simp: nd_type_def d data_set_type_def data_mark_defined_def new_data_def
        reset_sequence_def reset_map_def Let_def)
qed

text \<open>Appending to a sequence and inserting into a map, without a condition on
  sharing.\<close>

lemma push_back_coll:
  assumes ok: "heap_ok h" and c: "c < lim h" "nd_is_defined h c" "nd_type h c = NSequence"
    and v: "v < lim h" "nd_is_defined h v"
  obtains h' where "nd_push_back c v h = Inr h'" "okstep h h' {data_addr h c}"
    "m_sequence (data_of h' c) = m_sequence (data_of h c) @ [v]" "nd_type h' c = NSequence"
    "data_addr h' c = data_addr h c"
proof -
  have ty: "m_type (data_of h c) = NSequence" using c(2,3) by (simp add: nd_type_def nd_is_defined_def)
  note a = append_step [OF ok c(1,2) ty v]
  show thesis by (rule that [OF _ a(1-3) a(4)]) (simp add: nd_push_back_def ty Let_def)
qed

lemma insert_coll:
  assumes ok: "heap_ok h" and c: "c < lim h" "nd_is_defined h c" "nd_type h c = NMap"
    and k: "k < lim h" "nd_is_defined h k" and v: "v < lim h" "nd_is_defined h v"
  obtains h' where "nd_insert m c k v h = Inr h'" "okstep h h' {data_addr h c}"
    "m_map (data_of h' c) = m_map (data_of h c) @ [(k, v)]" "nd_type h' c = NMap"
    "data_addr h' c = data_addr h c"
proof -
  have ty: "m_type (data_of h c) = NMap" using c(2,3) by (simp add: nd_type_def nd_is_defined_def)
  note p = insert_map_pair_step [OF ok c(1) k(1) v(1) k(2) c(2)]
  let ?h = "insert_map_pair c k v h"
  have d: "nd_is_defined ?h c" "nd_is_defined ?h k" "nd_is_defined ?h v" using p(7) c k v by simp_all
  have e: "nd_insert m c k v h = Inr ?h"
    using d by (simp add: nd_insert_def ty nd_convert_to_map_def add_dependency_def mark_defined_id)
  have "nd_type ?h c = NMap" using p(5) ty d(1) by (simp add: nd_type_def nd_is_defined_def)
  then show thesis by (rule that [OF e p(1) p(4) _ p(2)])
qed

section \<open>Items\<close>

text \<open>A finished node handed to the collection on top of the stack.\<close>

definition b_item :: "nat \<Rightarrow> yheap \<times> nbuilder \<Rightarrow> yheap \<times> nbuilder" where
  "b_item v s = b_pop (fst s, b_push (fst s) v (snd s))"

text \<open>A builder waiting for an item: every open map below the top has its key, and
  so has the one on top when it waits for a value.\<close>

definition waits_key :: "yheap \<Rightarrow> nbuilder \<Rightarrow> bool" where
  "waits_key h b \<longleftrightarrow> m_stack b \<noteq> [] \<and> nd_type h (hd (m_stack b)) = NMap
     \<and> length (m_keys b) < m_mapDepth b"

definition ready :: "yheap \<Rightarrow> nbuilder \<Rightarrow> bool" where
  "ready h b \<longleftrightarrow> (\<forall>c \<in> set (m_stack b). c < lim h)
     \<and> m_mapDepth b = (if waits_key h b then Suc (length (m_keys b)) else length (m_keys b))"

lemma ready_push: "ready h b \<Longrightarrow> length (m_keys (b_push h n b)) = m_mapDepth b"
  by (auto simp: ready_def waits_key_def b_push_def Let_def)

lemma nd_type_frame: "okstep h h' {} \<Longrightarrow> c < lim h \<Longrightarrow> nd_type h' c = nd_type h c"
  using hstep_view [OF okstepD(2)] view_eqD(2) by blast

lemma b_push_frame:
  assumes "okstep h h' {}" and "ready h b"
  shows "b_push h' n b = b_push h n b"
proof (cases "m_stack b")
  case (Cons c st)
  then have "nd_type h' c = nd_type h c" using assms by (intro nd_type_frame) (auto simp: ready_def)
  then show ?thesis using Cons by (simp add: b_push_def)
qed (simp add: b_push_def)

lemma b_push_anchors: "b_push h n (b\<lparr>m_anchors := xs\<rparr>) = (b_push h n b)\<lparr>m_anchors := xs\<rparr>"
  by (simp add: b_push_def Let_def)

lemma b_register_eq:
  "b_register a n b = b\<lparr>m_anchors := m_anchors b @ (if a = 0 then [] else [Some n])\<rparr>"
  by (simp add: b_register_def)

lemma ready_frame: "okstep h h' {} \<Longrightarrow> ready h b \<Longrightarrow> ready h' (b\<lparr>m_anchors := xs\<rparr>)"
proof -
  assume s: "okstep h h' {}" and r: "ready h b"
  have "waits_key h' (b\<lparr>m_anchors := xs\<rparr>) = waits_key h b"
    using r nd_type_frame [OF s] by (cases "m_stack b") (auto simp: waits_key_def ready_def)
  then show ?thesis using r okstepD(4) [OF s] by (auto simp: ready_def)
qed

text \<open>Emitting a list of pending items: the events, and where the anchors stand.\<close>

definition emits :: "yheap \<Rightarrow> (nat \<Rightarrow> nat) \<Rightarrow> (nat \<Rightarrow> nat) \<Rightarrow> nat \<Rightarrow> todo list \<Rightarrow> yevent list
    \<Rightarrow> (nat \<Rightarrow> nat) \<Rightarrow> nat \<Rightarrow> bool" where
  "emits h F am cur ts es am' cur' \<longleftrightarrow> (\<forall>us. emit_all h F am cur (ts @ us) =
     Option.bind (emit_all h F am' cur' us) (\<lambda>fs. Some (es @ fs)))"

lemma emits_Nil [simp]: "emits h F am cur [] [] am cur"
  by (simp add: emits_def)

lemma emits_append:
  "emits h F am cur ts es am1 cur1 \<Longrightarrow> emits h F am1 cur1 us fs am2 cur2 \<Longrightarrow>
     emits h F am cur (ts @ us) (es @ fs) am2 cur2"
  by (simp add: emits_def Option.bind_assoc)

lemma emits_Cons:
  "emits h F am cur [t] es am1 cur1 \<Longrightarrow> emits h F am1 cur1 us fs am2 cur2 \<Longrightarrow>
     emits h F am cur (t # us) (es @ fs) am2 cur2"
  using emits_append [of h F am cur "[t]"] by simp

lemma emits_close: "emits h F am cur [Close e] [e] am cur"
  unfolding emits_def by (intro allI, subst emit_all.simps) simp

lemma emits_alias:
  "1 < F (node_ref h n) \<Longrightarrow> am (node_ref h n) \<noteq> 0 \<Longrightarrow>
     emits h F am cur [Visit n] [EvAlias (am (node_ref h n))] am cur"
  unfolding emits_def by (intro allI, subst emit_all.simps) (simp add: Let_def)

lemma emits_shared:
  assumes "1 < F (node_ref h n)" and "am (node_ref h n) = 0"
    and "emits h F (am(node_ref h n := Suc cur)) (Suc cur) (snd (node_event h n (Suc cur))) es am' cur'"
  shows "emits h F am cur [Visit n] (fst (node_event h n (Suc cur)) @ es) am' cur'"
  using assms unfolding emits_def
  by (intro allI, subst emit_all.simps) (simp add: Let_def Option.bind_assoc)

lemma emits_single:
  assumes "\<not> 1 < F (node_ref h n)" and "emits h F am cur (snd (node_event h n 0)) es am' cur'"
  shows "emits h F am cur [Visit n] (fst (node_event h n 0) @ es) am' cur'"
  using assms unfolding emits_def
  by (intro allI, subst emit_all.simps) (simp add: Let_def Option.bind_assoc)

text \<open>What the collection on top does with an item.\<close>

lemma item_root:
  "m_stack b = [] \<Longrightarrow> b_item v (h, b) = (h, b\<lparr>m_pRoot := Some v, m_stack := []\<rparr>)"
  by (simp add: b_item_def b_push_def b_pop_def)

lemma item_seq:
  assumes "heap_ok h" and "m_stack b = c # st" and "c < lim h" "nd_is_defined h c" "nd_type h c = NSequence"
    and "v < lim h" "nd_is_defined h v"
  obtains h' where "b_item v (h, b) = (h', b)" "okstep h h' {data_addr h c}"
    "m_sequence (data_of h' c) = m_sequence (data_of h c) @ [v]" "nd_type h' c = NSequence"
    "data_addr h' c = data_addr h c"
proof -
  obtain h' where h': "nd_push_back c v h = Inr h'" "okstep h h' {data_addr h c}"
    "m_sequence (data_of h' c) = m_sequence (data_of h c) @ [v]" "nd_type h' c = NSequence"
    "data_addr h' c = data_addr h c"
    using push_back_coll [OF assms(1,3-)] .
  have "b_item v (h, b) = (h', b)"
    using assms(2,5) h'(1) by (cases b) (simp add: b_item_def b_push_def b_pop_def)
  then show thesis using h' that by blast
qed

lemma item_key:
  assumes "waits_key h b"
  shows "b_item v (h, b) = (h, b\<lparr>m_keys := (v, True) # m_keys b\<rparr>)"
  using assms by (cases "m_stack b"; cases b)
    (simp_all add: waits_key_def b_item_def b_push_def b_pop_def)

lemma item_value:
  assumes "heap_ok h" and "m_stack b = c # st" and "c < lim h" "nd_is_defined h c" "nd_type h c = NMap"
    and "m_keys b = (k, True) # ks" and "m_mapDepth b \<le> length (m_keys b)"
    and "k < lim h" "nd_is_defined h k" and "v < lim h" "nd_is_defined h v"
  obtains h' where "b_item v (h, b) = (h', b\<lparr>m_keys := ks\<rparr>)" "okstep h h' {data_addr h c}"
    "m_map (data_of h' c) = m_map (data_of h c) @ [(k, v)]" "nd_type h' c = NMap"
    "data_addr h' c = data_addr h c"
proof -
  obtain h' where h': "nd_insert (b_memory b) c k v h = Inr h'" "okstep h h' {data_addr h c}"
    "m_map (data_of h' c) = m_map (data_of h c) @ [(k, v)]" "nd_type h' c = NMap"
    "data_addr h' c = data_addr h c"
    using insert_coll [OF assms(1,3-5,8-)] .
  have "b_item v (h, b) = (h', b\<lparr>m_keys := ks\<rparr>)"
    using assms(2,5-7) h'(1) by (cases b) (simp add: b_item_def b_push_def b_pop_def)
  then show thesis using h' that by blast
qed

section \<open>What has been built\<close>

text \<open>The anchors given out so far lead to nodes that stand for what they were given
  out for, except those of the collections still open (\<open>P\<close>); nothing built uses
  the data of an open collection (\<open>D\<close>).\<close>

definition built :: "yheap \<Rightarrow> yheap \<Rightarrow> nat set \<Rightarrow> nat set \<Rightarrow> (nat \<Rightarrow> nat) \<Rightarrow> nat \<Rightarrow> nat option list \<Rightarrow> bool" where
  "built h H D P am cur anch \<longleftrightarrow> length anch = Suc cur \<and> (\<forall>r. am r \<le> cur)
     \<and> (\<forall>x t d. rep h x t d \<longrightarrow> am (node_ref h x) \<noteq> 0 \<longrightarrow> node_ref h x \<notin> P \<longrightarrow>
          (\<exists>w e. anch ! am (node_ref h x) = Some w \<and> rep H w (prune t) e \<and> nd_is_defined H w
             \<and> set e \<inter> D = {}))"

text \<open>A node met now lies below every open collection.\<close>

definition below :: "yheap \<Rightarrow> nat set \<Rightarrow> nat list \<Rightarrow> bool" where
  "below h P ds \<longleftrightarrow> (\<forall>x t d. rep h x t d \<longrightarrow> node_ref h x \<in> P \<longrightarrow> length ds < length d)"

definition extends :: "(nat \<Rightarrow> nat) \<Rightarrow> (nat \<Rightarrow> nat) \<Rightarrow> nat option list \<Rightarrow> nat option list \<Rightarrow> bool" where
  "extends am am' anch anch' \<longleftrightarrow> (\<forall>r. am r \<noteq> 0 \<longrightarrow> am' r = am r) \<and> (\<exists>xs. anch' = anch @ xs)"

lemma extends_refl [simp]: "extends am am anch anch"
  by (simp add: extends_def)

lemma extends_trans:
  "extends am am1 anch anch1 \<Longrightarrow> extends am1 am2 anch1 anch2 \<Longrightarrow> extends am am2 anch anch2"
  by (fastforce simp: extends_def)

lemma below_mono: "below h P ds \<Longrightarrow> length es \<le> length ds \<Longrightarrow> below h P es"
  unfolding below_def by (meson le_less_trans)

lemma builtD:
  assumes "built h H D P am cur anch" and "rep h x t d" and "am (node_ref h x) \<noteq> 0" and "node_ref h x \<notin> P"
  obtains w e where "anch ! am (node_ref h x) = Some w" "rep H w (prune t) e" "nd_is_defined H w"
    "set e \<inter> D = {}"
  using assms unfolding built_def by blast

lemma built_frame:
  assumes "built h H D P am cur anch" and st: "okstep H H' E" and "E \<subseteq> D"
  shows "built h H' D P am cur anch"
  unfolding built_def
proof (intro conjI allI impI)
  show "length anch = Suc cur" "am r \<le> cur" for r using assms(1) by (simp_all add: built_def)
  fix x t d assume "rep h x t d" "am (node_ref h x) \<noteq> 0" "node_ref h x \<notin> P"
  with assms(1) obtain w e where w: "anch ! am (node_ref h x) = Some w" "rep H w (prune t) e"
      "nd_is_defined H w" "set e \<inter> D = {}"
    by (rule builtD)
  have "rep H' w (prune t) e" by (rule rep_frame [OF w(2) st]) (use w(4) assms(3) in auto)
  moreover have "nd_is_defined H' w" by (rule okstepD(5) [OF st rep_lim [OF w(2)] w(3)])
  ultimately show "\<exists>w e. anch ! am (node_ref h x) = Some w \<and> rep H' w (prune t) e
      \<and> nd_is_defined H' w \<and> set e \<inter> D = {}"
    using w by blast
qed

lemma built_fresh:
  assumes "built h H D P am cur anch" and ok: "heap_ok H" and "lim H \<le> a"
  shows "built h H (insert a D) P am cur anch"
  unfolding built_def
proof (intro conjI allI impI)
  show "length anch = Suc cur" "am r \<le> cur" for r using assms(1) by (simp_all add: built_def)
  fix x t d assume "rep h x t d" "am (node_ref h x) \<noteq> 0" "node_ref h x \<notin> P"
  with assms(1) obtain w e where w: "anch ! am (node_ref h x) = Some w" "rep H w (prune t) e"
      "nd_is_defined H w" "set e \<inter> D = {}"
    by (rule builtD)
  have "a \<notin> set e" using rep_lims(1) [OF ok w(2)] assms(3) by auto
  then show "\<exists>w e. anch ! am (node_ref h x) = Some w \<and> rep H w (prune t) e
      \<and> nd_is_defined H w \<and> set e \<inter> insert a D = {}"
    using w by auto
qed

lemma built_mono: "built h H D P am cur anch \<Longrightarrow> E \<subseteq> D \<Longrightarrow> built h H E P am cur anch"
  unfolding built_def by fast

text \<open>Giving out an anchor, and the moment its node is finished.\<close>

lemma built_register:
  assumes "built h H D P am cur anch"
  shows "built h H D (insert r P) (am(r := Suc cur)) (Suc cur) (anch @ [Some v])"
  unfolding built_def
proof (intro conjI allI impI)
  show "length (anch @ [Some v]) = Suc (Suc cur)" using assms by (simp add: built_def)
  show "(am(r := Suc cur)) q \<le> Suc cur" for q using assms by (simp add: built_def le_SucI)
  fix x t d
  assume *: "rep h x t d" "(am(r := Suc cur)) (node_ref h x) \<noteq> 0" "node_ref h x \<notin> insert r P"
  then obtain w e where w: "anch ! am (node_ref h x) = Some w" "rep H w (prune t) e"
      "nd_is_defined H w" "set e \<inter> D = {}"
    using builtD [OF assms *(1)] by auto
  have "am (node_ref h x) < length anch" using assms by (simp add: built_def less_Suc_eq_le)
  then show "\<exists>w e. (anch @ [Some v]) ! (am(r := Suc cur)) (node_ref h x) = Some w
      \<and> rep H w (prune t) e \<and> nd_is_defined H w \<and> set e \<inter> D = {}"
    using w * by (auto simp: nth_append)
qed

lemma node_ref_rep:
  assumes "heap_ok h" and "rep h n t ds" and "rep h x t' ds'" and "node_ref h x = node_ref h n"
  shows "t' = t" "ds' = ds"
proof -
  have "data_addr h n = data_addr h x" using assms(4) by (simp add: data_addr_def node_ref_def)
  then have "rep h n t' ds'" using same_data_rep [OF assms(1,3)] rep_lim [OF assms(2)] by blast
  then show "t' = t" "ds' = ds" using rep_unique [OF assms(2)] by simp_all
qed

section \<open>One node at a time\<close>

text \<open>A builder in a state where the emission of a node of \<open>h\<close> can go on.\<close>

definition going_on :: "yheap \<Rightarrow> yheap \<Rightarrow> nbuilder \<Rightarrow> nat set \<Rightarrow> nat set \<Rightarrow> (nat \<Rightarrow> nat) \<Rightarrow> nat \<Rightarrow> bool" where
  "going_on h H b D P am cur \<longleftrightarrow> heap_ok H \<and> ready H b \<and> D \<subseteq> {..<lim H}
     \<and> built h H D P am cur (m_anchors b)"

definition clones :: "yheap \<Rightarrow> (nat \<Rightarrow> nat) \<Rightarrow> nat \<Rightarrow> ynode \<Rightarrow> nat list \<Rightarrow> bool" where
  "clones h F n t ds \<longleftrightarrow> (\<forall>am cur D P H b. below h P ds \<longrightarrow> going_on h H b D P am cur \<longrightarrow>
     (\<exists>es am' cur' v Hx anch e. emits h F am cur [Visit n] es am' cur'
        \<and> fold b_event es (H, b) = b_item v (Hx, b\<lparr>m_anchors := anch\<rparr>)
        \<and> okstep H Hx {} \<and> rep Hx v (prune t) e \<and> nd_is_defined Hx v \<and> set e \<inter> D = {}
        \<and> built h Hx D P am' cur' anch \<and> extends am am' (m_anchors b) anch))"

lemma clonesE:
  assumes "clones h F n t ds" and "below h P ds" and "going_on h H b D P am cur"
  obtains es am' cur' v Hx anch e where "emits h F am cur [Visit n] es am' cur'"
    "fold b_event es (H, b) = b_item v (Hx, b\<lparr>m_anchors := anch\<rparr>)" "okstep H Hx {}"
    "rep Hx v (prune t) e" "nd_is_defined Hx v" "set e \<inter> D = {}"
    "built h Hx D P am' cur' anch" "extends am am' (m_anchors b) anch"
  using assms(1) [unfolded clones_def, rule_format, OF assms(2,3)] by (elim exE conjE)

text \<open>The anchor a node gets when it is met for the first time.\<close>

definition reg_am :: "nat \<Rightarrow> nat \<Rightarrow> (nat \<Rightarrow> nat) \<Rightarrow> (nat \<Rightarrow> nat)" where
  "reg_am a r am = (if a = 0 then am else am(r := a))"

definition reg_cur :: "nat \<Rightarrow> nat \<Rightarrow> nat" where
  "reg_cur a cur = (if a = 0 then cur else a)"

definition reg_open :: "nat \<Rightarrow> nat \<Rightarrow> nat set \<Rightarrow> nat set" where
  "reg_open a r P = (if a = 0 then P else insert r P)"

definition reg_anch :: "nat \<Rightarrow> nat \<Rightarrow> nat option list \<Rightarrow> nat option list" where
  "reg_anch a v anch = anch @ (if a = 0 then [] else [Some v])"

lemma built_reg:
  assumes "built h H D P am cur anch" and "a = 0 \<or> a = Suc cur"
  shows "built h H D (reg_open a r P) (reg_am a r am) (reg_cur a cur) (reg_anch a v anch)"
  using assms built_register by (auto simp: reg_open_def reg_am_def reg_cur_def reg_anch_def)

lemma extends_reg: "a = 0 \<or> am r = 0 \<Longrightarrow> extends am (reg_am a r am) anch (reg_anch a v anch)"
  by (auto simp: extends_def reg_am_def reg_anch_def)

lemma below_reg:
  assumes ok: "heap_ok h" and r: "rep h n t (x # ds)" and b: "below h P (x # ds)"
  shows "below h (reg_open a (node_ref h n) P) ds"
  unfolding below_def
proof (intro allI impI)
  fix y t' d assume y: "rep h y t' d" "node_ref h y \<in> reg_open a (node_ref h n) P"
  show "length ds < length d"
  proof (cases "node_ref h y = node_ref h n")
    case True
    then show ?thesis using node_ref_rep(2) [OF ok r y(1)] by simp
  next
    case False
    then have "node_ref h y \<in> P" using y(2) by (simp add: reg_open_def split: if_splits)
    then show ?thesis using b y(1) unfolding below_def by fastforce
  qed
qed

lemma built_close:
  assumes ok: "heap_ok h" and r: "rep h n t ds"
    and bt: "built h H D (reg_open a (node_ref h n) P) am' cur' anch'" and a: "a = 0 \<or> a = length anch"
    and ex: "extends (reg_am a (node_ref h n) am) am' (reg_anch a v anch) anch'"
    and v: "rep H v (prune t) e" "nd_is_defined H v" "set e \<inter> D = {}"
  shows "built h H D P am' cur' anch'"
  unfolding built_def
proof (intro conjI allI impI)
  show "length anch' = Suc cur'" "am' q \<le> cur'" for q using bt by (simp_all add: built_def)
  fix x t' d assume x: "rep h x t' d" "am' (node_ref h x) \<noteq> 0" "node_ref h x \<notin> P"
  show "\<exists>w e. anch' ! am' (node_ref h x) = Some w \<and> rep H w (prune t') e \<and> nd_is_defined H w
      \<and> set e \<inter> D = {}"
  proof (cases "a \<noteq> 0 \<and> node_ref h x = node_ref h n")
    case True
    then have "am' (node_ref h x) = a" using ex by (simp add: extends_def reg_am_def)
    moreover have "anch' ! a = Some v"
      using ex True a by (auto simp: extends_def reg_anch_def nth_append)
    moreover have "t' = t" using node_ref_rep(1) [OF ok r x(1)] True by simp
    ultimately show ?thesis using v by auto
  next
    case False
    then have "node_ref h x \<notin> reg_open a (node_ref h n) P" using x(3) by (auto simp: reg_open_def)
    then show ?thesis using builtD [OF bt x(1,2)] by metis
  qed
qed

text \<open>Meeting a node for the first time.\<close>

definition first_anchor :: "yheap \<Rightarrow> (nat \<Rightarrow> nat) \<Rightarrow> nat \<Rightarrow> nat \<Rightarrow> nat" where
  "first_anchor h F n cur = (if 1 < F (node_ref h n) then Suc cur else 0)"

lemma emits_first:
  assumes "\<not> (1 < F (node_ref h n) \<and> am (node_ref h n) \<noteq> 0)" and "a = first_anchor h F n cur"
    and "emits h F (reg_am a (node_ref h n) am) (reg_cur a cur) (snd (node_event h n a)) es am' cur'"
  shows "emits h F am cur [Visit n] (fst (node_event h n a) @ es) am' cur'"
proof (cases "1 < F (node_ref h n)")
  case True
  then show ?thesis using assms emits_shared [of F h n am cur es am' cur']
    by (simp add: first_anchor_def reg_am_def reg_cur_def)
next
  case False
  then show ?thesis using assms emits_single [of F h n am cur es am' cur']
    by (simp add: first_anchor_def reg_am_def reg_cur_def)
qed

lemma alias_clones:
  assumes "heap_ok h" and r: "rep h n t ds" and b: "below h P ds"
    and g: "going_on h H b D P am cur" and s: "1 < F (node_ref h n)" "am (node_ref h n) \<noteq> 0"
  shows "\<exists>es am' cur' v Hx anch e. emits h F am cur [Visit n] es am' cur'
        \<and> fold b_event es (H, b) = b_item v (Hx, b\<lparr>m_anchors := anch\<rparr>)
        \<and> okstep H Hx {} \<and> rep Hx v (prune t) e \<and> nd_is_defined Hx v \<and> set e \<inter> D = {}
        \<and> built h Hx D P am' cur' anch \<and> extends am am' (m_anchors b) anch"
proof -
  have bt: "built h H D P am cur (m_anchors b)" using g by (simp add: going_on_def)
  have "node_ref h n \<notin> P" using b r unfolding below_def by blast
  with bt r s(2) obtain w e where w: "m_anchors b ! am (node_ref h n) = Some w" "rep H w (prune t) e"
      "nd_is_defined H w" "set e \<inter> D = {}"
    by (rule builtD)
  have "fold b_event [EvAlias (am (node_ref h n))] (H, b) = b_item w (H, b\<lparr>m_anchors := m_anchors b\<rparr>)"
    using w(1) by (simp add: b_event_def b_item_def)
  moreover have "okstep H H {}" using g by (simp add: going_on_def okstep_refl)
  moreover have "emits h F am cur [Visit n] [EvAlias (am (node_ref h n))] am cur"
    using s by (rule emits_alias)
  ultimately show ?thesis using w bt extends_refl by blast
qed

lemma fresh_null_node:
  assumes ok: "heap_ok h" and c: "create_node m h = (h1, n)"
  shows "okstep h (nd_set_null n h1) {}" "rep (nd_set_null n h1) n YNull [n]"
    "nd_is_defined (nd_set_null n h1) n"
proof -
  note k = create_node_eq [OF ok c]
  note s1 = okstep_create_node [OF ok c]
  have l: "n < lim h1" using k(1,2) by simp
  note w = set_null_step [OF okstepD(1) [OF s1] l]
  show "okstep h (nd_set_null n h1) {}"
  proof (rule okstep_fresh [OF ok])
    show "okstep h (nd_set_null n h1) {n}" using okstep_trans [OF s1 w(1)] k(3) by simp
  qed (simp add: k(1))
  show "nd_is_defined (nd_set_null n h1) n" by (simp add: nd_is_defined_def w(2) data_set_null_def)
  show "rep (nd_set_null n h1) n YNull [n]"
    using rep_Null [of n "nd_set_null n h1"] l w(2-4) k(3) by (simp add: nd_type_def data_set_null_def)
qed

lemma push_new_eq:
  assumes "ready H b" and "heap_ok H" and "create_node (b_memory b) H = (h1, v)"
  shows "b_push_new a (H, b) = (h1, b_push H v (b\<lparr>m_anchors := reg_anch a v (m_anchors b)\<rparr>), v)"
proof -
  have "okstep H h1 {}" using okstep_create_node [OF assms(2,3)] .
  then show ?thesis
    using assms(3) b_push_frame [OF _ assms(1)]
    by (simp add: b_push_new_def b_register_eq b_push_anchors reg_anch_def)
qed

lemma leaf_clones:
  assumes ok: "heap_ok h" and r: "rep h n t ds"
    and g: "going_on h H b D P am cur" and na: "\<not> (1 < F (node_ref h n) \<and> am (node_ref h n) \<noteq> 0)"
    and ev: "node_event h n a = ([evt], [])" "a = first_anchor h F n cur"
    and f: "\<And>s. b_event evt s = (case b_push_new a s of (h, b, n) \<Rightarrow> b_pop (f n h, b))"
    and w: "\<And>m h1 v. create_node m H = (h1, v) \<Longrightarrow>
        okstep H (f v h1) {} \<and> rep (f v h1) v (prune t) [v] \<and> nd_is_defined (f v h1) v"
  shows "\<exists>es am' cur' v Hx anch e. emits h F am cur [Visit n] es am' cur'
        \<and> fold b_event es (H, b) = b_item v (Hx, b\<lparr>m_anchors := anch\<rparr>)
        \<and> okstep H Hx {} \<and> rep Hx v (prune t) e \<and> nd_is_defined Hx v \<and> set e \<inter> D = {}
        \<and> built h Hx D P am' cur' anch \<and> extends am am' (m_anchors b) anch"
proof -
  have okH: "heap_ok H" and rd: "ready H b" and bt: "built h H D P am cur (m_anchors b)"
    and D: "D \<subseteq> {..<lim H}"
    using g by (simp_all add: going_on_def)
  let ?r = "node_ref h n"
  obtain h1 v where c: "create_node (b_memory b) H = (h1, v)" by fastforce
  let ?Hx = "f v h1" and ?am = "reg_am a ?r am" and ?cur = "reg_cur a cur"
  let ?anch = "reg_anch a v (m_anchors b)"
  have s: "okstep H ?Hx {}" and rp: "rep ?Hx v (prune t) [v]" and dv: "nd_is_defined ?Hx v"
    using w [OF c] by simp_all
  have ac: "a = 0 \<or> a = Suc cur" using ev(2) by (simp add: first_anchor_def)
  have a0: "a = 0 \<or> am ?r = 0" using ev(2) na by (simp add: first_anchor_def)
  have "emits h F am cur [Visit n] [evt] ?am ?cur"
    using emits_first [of F h n am a cur "[]" ?am ?cur] na ev by simp
  moreover have "fold b_event [evt] (H, b) = b_item v (?Hx, b\<lparr>m_anchors := ?anch\<rparr>)"
    using b_push_frame [OF s rd] by (simp add: f push_new_eq [OF rd okH c] b_item_def b_push_anchors)
  moreover have vD: "set [v] \<inter> D = {}" using create_node_eq(1) [OF okH c] D by auto
  moreover have "built h ?Hx D P ?am ?cur ?anch"
  proof (rule built_close [OF ok r _ _ extends_refl rp dv vD])
    show "built h ?Hx D (reg_open a ?r P) ?am ?cur ?anch"
      using built_frame [OF built_reg [OF bt ac] s] by simp
    show "a = 0 \<or> a = length (m_anchors b)" using ac bt by (simp add: built_def)
  qed
  moreover have "extends am ?am (m_anchors b) ?anch" using a0 by (rule extends_reg)
  ultimately show ?thesis using s rp dv by blast
qed

definition clones_seq :: "yheap \<Rightarrow> (nat \<Rightarrow> nat) \<Rightarrow> nat list \<Rightarrow> ynode list \<Rightarrow> nat list \<Rightarrow> bool" where
  "clones_seq h F ns ts ds \<longleftrightarrow> (\<forall>am cur D P H b c st us d0. below h P ds \<longrightarrow>
     going_on h H b D P am cur \<longrightarrow> m_stack b = c # st \<longrightarrow> nd_type H c = NSequence \<longrightarrow>
     nd_is_defined H c \<longrightarrow> data_addr H c \<in> D \<longrightarrow> rep_seq H (m_sequence (data_of H c)) us d0 \<longrightarrow>
     set d0 \<inter> D = {} \<longrightarrow>
     (\<exists>es am' cur' H' anch d1. emits h F am cur (map Visit ns) es am' cur'
        \<and> fold b_event es (H, b) = (H', b\<lparr>m_anchors := anch\<rparr>)
        \<and> okstep H H' {data_addr H c} \<and> nd_type H' c = NSequence \<and> data_addr H' c = data_addr H c
        \<and> rep_seq H' (m_sequence (data_of H' c)) (us @ prune_seq ts) d1 \<and> set d1 \<inter> D = {}
        \<and> built h H' D P am' cur' anch \<and> extends am am' (m_anchors b) anch))"

lemma ready_top:
  assumes "ready H b" and "okstep H H' E" and "m_stack b = c # st" and "nd_type H' c = nd_type H c"
  shows "ready H' (b\<lparr>m_anchors := anch\<rparr>)"
proof -
  have "waits_key H' (b\<lparr>m_anchors := anch\<rparr>) = waits_key H b" using assms(3,4) by (simp add: waits_key_def)
  then show ?thesis using assms(1) okstepD(4) [OF assms(2)] by (auto simp: ready_def)
qed

lemma clones_seq_Nil: "clones_seq h F [] [] []"
  unfolding clones_seq_def
proof (intro allI impI)
  fix am cur D P H b c st us d0
  assume *: "going_on h H b D P am cur" "nd_type H c = NSequence"
    "rep_seq H (m_sequence (data_of H c)) us d0" "set d0 \<inter> D = {}"
  have "okstep H H {data_addr H c}" using *(1) by (simp add: going_on_def okstep_refl)
  moreover have "fold b_event [] (H, b) = (H, b\<lparr>m_anchors := m_anchors b\<rparr>)" by simp
  moreover have "built h H D P am cur (m_anchors b)" using *(1) by (simp add: going_on_def)
  moreover have "emits h F am cur (map Visit []) [] am cur" by simp
  moreover have "rep_seq H (m_sequence (data_of H c)) (us @ prune_seq []) d0" using *(3) by simp
  ultimately show "\<exists>es am' cur' H' anch d1. emits h F am cur (map Visit []) es am' cur'
        \<and> fold b_event es (H, b) = (H', b\<lparr>m_anchors := anch\<rparr>)
        \<and> okstep H H' {data_addr H c} \<and> nd_type H' c = NSequence \<and> data_addr H' c = data_addr H c
        \<and> rep_seq H' (m_sequence (data_of H' c)) (us @ prune_seq []) d1 \<and> set d1 \<inter> D = {}
        \<and> built h H' D P am' cur' anch \<and> extends am am' (m_anchors b) anch"
    using *(2,4) extends_refl by blast
qed

lemma clones_seq_Cons:
  assumes 1: "clones h F n t ds" and 2: "clones_seq h F ns ts es"
  shows "clones_seq h F (n # ns) (t # ts) (ds @ es)"
  unfolding clones_seq_def
proof (intro allI impI)
  fix am cur D P H b c st us d0
  assume bl: "below h P (ds @ es)" and g: "going_on h H b D P am cur" and st: "m_stack b = c # st"
    and ty: "nd_type H c = NSequence" and dc: "nd_is_defined H c" and cD: "data_addr H c \<in> D"
    and r0: "rep_seq H (m_sequence (data_of H c)) us d0" and d0: "set d0 \<inter> D = {}"
  have cl: "c < lim H" and rd: "ready H b" and D: "D \<subseteq> {..<lim H}"
    using g st by (auto simp: going_on_def ready_def)
  have "below h P ds" using below_mono [OF bl] by simp
  from clonesE [OF 1 this g] obtain xs am1 cur1 v H1 an1 e where x: "emits h F am cur [Visit n] xs am1 cur1"
      "fold b_event xs (H, b) = b_item v (H1, b\<lparr>m_anchors := an1\<rparr>)" "okstep H H1 {}"
      "rep H1 v (prune t) e" "nd_is_defined H1 v" "set e \<inter> D = {}"
      "built h H1 D P am1 cur1 an1" "extends am am1 (m_anchors b) an1" .
  let ?b1 = "b\<lparr>m_anchors := an1\<rparr>"
  have c1: "nd_type H1 c = NSequence" "c < lim H1" "nd_is_defined H1 c" "view H1 c = view H c"
    using nd_type_frame [OF x(3) cl] ty okstepD(4,5) [OF x(3) cl] dc
      hstep_view [OF okstepD(2) [OF x(3)] cl] by simp_all
  obtain H2 where h2: "b_item v (H1, ?b1) = (H2, ?b1)" "okstep H1 H2 {data_addr H1 c}"
    "m_sequence (data_of H2 c) = m_sequence (data_of H1 c) @ [v]" "nd_type H2 c = NSequence"
    "data_addr H2 c = data_addr H1 c"
    using item_seq [OF okstepD(1) [OF x(3)] _ c1(2,3,1) rep_lim [OF x(4)] x(5), of ?b1 st] st by auto
  have ac: "data_addr H1 c = data_addr H c" using view_eqD(1) [OF c1(4)] .
  have s2: "okstep H H2 {data_addr H c}" using okstep_trans [OF x(3) h2(2)] ac by simp
  have "rep_seq H2 (m_sequence (data_of H c)) us d0"
    using cD d0 by (intro rep_frame_all(2) [OF okstepD(2) [OF s2] r0]) auto
  moreover have "rep H2 v (prune t) e" using cD x(6) ac by (intro rep_frame [OF x(4) h2(2)]) auto
  ultimately have r2: "rep_seq H2 (m_sequence (data_of H2 c)) (us @ [prune t]) (d0 @ e @ [])"
    unfolding h2(3) view_eqD(4) [OF c1(4)] by (intro rep_seq_append rep_seq_Cons rep_seq_Nil)
  have bt2: "built h H2 D P am1 cur1 an1" using cD ac by (intro built_frame [OF x(7) h2(2)]) simp
  have g2: "going_on h H2 ?b1 D P am1 cur1"
    using bt2 okstepD(1) [OF s2] ready_top [OF rd s2 st] h2(4) ty D okstepD(3) [OF s2]
    by (auto simp: going_on_def grows_def)
  have "below h P es" using below_mono [OF bl] by simp
  moreover have "nd_is_defined H2 c" using okstepD(5) [OF s2 cl dc] .
  moreover have "set (d0 @ e @ []) \<inter> D = {}" using d0 x(6) by auto
  moreover have "data_addr H2 c \<in> D" using cD ac h2(5) by simp
  ultimately obtain ys am2 cur2 H3 an2 d1 where y: "emits h F am1 cur1 (map Visit ns) ys am2 cur2"
      "fold b_event ys (H2, ?b1) = (H3, ?b1\<lparr>m_anchors := an2\<rparr>)" "okstep H2 H3 {data_addr H2 c}"
      "nd_type H3 c = NSequence" "data_addr H3 c = data_addr H2 c"
      "rep_seq H3 (m_sequence (data_of H3 c)) ((us @ [prune t]) @ prune_seq ts) d1" "set d1 \<inter> D = {}"
      "built h H3 D P am2 cur2 an2" "extends am1 am2 (m_anchors ?b1) an2"
    using 2 [unfolded clones_seq_def, rule_format, OF _ g2 _ h2(4) _ _ r2] st by auto
  have "emits h F am cur (map Visit (n # ns)) (xs @ ys) am2 cur2"
    using emits_Cons [OF x(1) y(1)] by simp
  moreover have "fold b_event (xs @ ys) (H, b) = (H3, b\<lparr>m_anchors := an2\<rparr>)"
    using x(2) h2(1) y(2) by simp
  moreover have "okstep H H3 {data_addr H c}" using okstep_trans [OF s2 y(3)] ac h2(5) by simp
  moreover have "data_addr H3 c = data_addr H c" using y(5) h2(5) ac by simp
  moreover have "rep_seq H3 (m_sequence (data_of H3 c)) (us @ prune_seq (t # ts)) d1" using y(6) by simp
  moreover have "extends am am2 (m_anchors b) an2" using extends_trans [OF x(8)] y(9) by simp
  ultimately show "\<exists>es am' cur' H' anch d1. emits h F am cur (map Visit (n # ns)) es am' cur'
        \<and> fold b_event es (H, b) = (H', b\<lparr>m_anchors := anch\<rparr>)
        \<and> okstep H H' {data_addr H c} \<and> nd_type H' c = NSequence \<and> data_addr H' c = data_addr H c
        \<and> rep_seq H' (m_sequence (data_of H' c)) (us @ prune_seq (t # ts)) d1 \<and> set d1 \<inter> D = {}
        \<and> built h H' D P am' cur' anch \<and> extends am am' (m_anchors b) anch"
    using y(4,7,8) by blast
qed

text \<open>The pairs of a map: key, then value.\<close>

definition pair_items :: "yheap \<Rightarrow> (nat \<times> nat) list \<Rightarrow> nat list" where
  "pair_items h kvs = concat (map (\<lambda>p. [fst p, snd p])
     (filter (\<lambda>p. nd_is_defined h (fst p) \<and> nd_is_defined h (snd p)) kvs))"

definition clones_map :: "yheap \<Rightarrow> (nat \<Rightarrow> nat) \<Rightarrow> (nat \<times> nat) list \<Rightarrow> (ynode \<times> ynode) list
    \<Rightarrow> nat list \<Rightarrow> bool" where
  "clones_map h F kvs kts ds \<longleftrightarrow> (\<forall>am cur D P H b c st us d0. below h P ds \<longrightarrow>
     going_on h H b D P am cur \<longrightarrow> m_stack b = c # st \<longrightarrow> nd_type H c = NMap \<longrightarrow>
     waits_key H b \<longrightarrow> nd_is_defined H c \<longrightarrow> data_addr H c \<in> D \<longrightarrow>
     rep_map H (m_map (data_of H c)) us d0 \<longrightarrow> set d0 \<inter> D = {} \<longrightarrow>
     (\<exists>es am' cur' H' anch d1. emits h F am cur (map Visit (pair_items h kvs)) es am' cur'
        \<and> fold b_event es (H, b) = (H', b\<lparr>m_anchors := anch\<rparr>)
        \<and> okstep H H' {data_addr H c} \<and> nd_type H' c = NMap \<and> data_addr H' c = data_addr H c
        \<and> rep_map H' (m_map (data_of H' c)) (us @ prune_map kts) d1 \<and> set d1 \<inter> D = {}
        \<and> built h H' D P am' cur' anch \<and> extends am am' (m_anchors b) anch))"

lemma clones_map_Nil: "clones_map h F [] [] []"
  unfolding clones_map_def
proof (intro allI impI)
  fix am cur D P H b c st us d0
  assume *: "going_on h H b D P am cur" "nd_type H c = NMap"
    "rep_map H (m_map (data_of H c)) us d0" "set d0 \<inter> D = {}"
  have "okstep H H {data_addr H c}" using *(1) by (simp add: going_on_def okstep_refl)
  moreover have "fold b_event [] (H, b) = (H, b\<lparr>m_anchors := m_anchors b\<rparr>)" by simp
  moreover have "built h H D P am cur (m_anchors b)" using *(1) by (simp add: going_on_def)
  moreover have "emits h F am cur (map Visit (pair_items h [])) [] am cur" by (simp add: pair_items_def)
  moreover have "rep_map H (m_map (data_of H c)) (us @ prune_map []) d0" using *(3) by simp
  ultimately show "\<exists>es am' cur' H' anch d1. emits h F am cur (map Visit (pair_items h [])) es am' cur'
        \<and> fold b_event es (H, b) = (H', b\<lparr>m_anchors := anch\<rparr>)
        \<and> okstep H H' {data_addr H c} \<and> nd_type H' c = NMap \<and> data_addr H' c = data_addr H c
        \<and> rep_map H' (m_map (data_of H' c)) (us @ prune_map []) d1 \<and> set d1 \<inter> D = {}
        \<and> built h H' D P am' cur' anch \<and> extends am am' (m_anchors b) anch"
    using *(2,4) extends_refl by blast
qed

text \<open>One pair: the key, kept by the builder, then the value.\<close>

lemma pair_clones:
  assumes 1: "clones h F k a ds" and 2: "clones h F v w es"
    and bl: "below h P ds" "below h P es" and g: "going_on h H b D P am cur" and st: "m_stack b = c # st"
    and ty: "nd_type H c = NMap" and wk: "waits_key H b" and dc: "nd_is_defined H c"
    and cD: "data_addr H c \<in> D" and r0: "rep_map H (m_map (data_of H c)) us d0" and d0: "set d0 \<inter> D = {}"
  obtains xs am2 cur2 H3 an2 d1 where "emits h F am cur [Visit k, Visit v] xs am2 cur2"
    "fold b_event xs (H, b) = (H3, b\<lparr>m_anchors := an2\<rparr>)" "okstep H H3 {data_addr H c}"
    "nd_type H3 c = NMap" "data_addr H3 c = data_addr H c"
    "rep_map H3 (m_map (data_of H3 c)) (us @ [(prune a, prune w)]) d1" "set d1 \<inter> D = {}"
    "built h H3 D P am2 cur2 an2" "extends am am2 (m_anchors b) an2"
proof -
  have cl: "c < lim H" and rd: "ready H b" and D: "D \<subseteq> {..<lim H}"
    using g st by (auto simp: going_on_def ready_def)
  from clonesE [OF 1 bl(1) g] obtain xs am1 cur1 p H1 an1 e where x: "emits h F am cur [Visit k] xs am1 cur1"
      "fold b_event xs (H, b) = b_item p (H1, b\<lparr>m_anchors := an1\<rparr>)" "okstep H H1 {}"
      "rep H1 p (prune a) e" "nd_is_defined H1 p" "set e \<inter> D = {}"
      "built h H1 D P am1 cur1 an1" "extends am am1 (m_anchors b) an1" .
  let ?b1 = "b\<lparr>m_anchors := an1\<rparr>" and ?b2 = "b\<lparr>m_anchors := an1, m_keys := (p, True) # m_keys b\<rparr>"
  have rd1: "ready H1 ?b1" by (rule ready_frame [OF x(3) rd])
  have ty1: "nd_type H1 c = NMap" using nd_type_frame [OF x(3) cl] ty by simp
  have wk1: "waits_key H1 ?b1" using wk ty1 st by (simp add: waits_key_def)
  have f1: "fold b_event xs (H, b) = (H1, ?b2)" using x(2) item_key [OF wk1] by simp
  have dep: "m_mapDepth b = Suc (length (m_keys b))" using rd wk by (simp add: ready_def)
  have rd2: "ready H1 ?b2" using rd1 dep by (auto simp: ready_def waits_key_def)
  have g2: "going_on h H1 ?b2 D P am1 cur1"
    using x(7) okstepD(1) [OF x(3)] rd2 D okstepD(4) [OF x(3)] by (auto simp: going_on_def)
  from clonesE [OF 2 bl(2) g2] obtain ys am2 cur2 q H2 an2 f where y: "emits h F am1 cur1 [Visit v] ys am2 cur2"
      "fold b_event ys (H1, ?b2) = b_item q (H2, ?b2\<lparr>m_anchors := an2\<rparr>)" "okstep H1 H2 {}"
      "rep H2 q (prune w) f" "nd_is_defined H2 q" "set f \<inter> D = {}"
      "built h H2 D P am2 cur2 an2" "extends am1 am2 (m_anchors ?b2) an2" .
  have s2: "okstep H H2 {}" using okstep_trans [OF x(3) y(3)] by simp
  have c2: "nd_type H2 c = NMap" "c < lim H2" "nd_is_defined H2 c" "view H2 c = view H c"
    using nd_type_frame [OF s2 cl] ty okstepD(4,5) [OF s2 cl] dc
      hstep_view [OF okstepD(2) [OF s2] cl] by simp_all
  have p2: "rep H2 p (prune a) e" using rep_frame [OF x(4) y(3)] by simp
  have pd: "nd_is_defined H2 p" using okstepD(5) [OF y(3) rep_lim [OF x(4)] x(5)] .
  obtain H3 where h3: "b_item q (H2, ?b2\<lparr>m_anchors := an2\<rparr>)
        = (H3, (?b2\<lparr>m_anchors := an2\<rparr>)\<lparr>m_keys := m_keys b\<rparr>)"
      "okstep H2 H3 {data_addr H2 c}" "m_map (data_of H3 c) = m_map (data_of H2 c) @ [(p, q)]"
      "nd_type H3 c = NMap" "data_addr H3 c = data_addr H2 c"
    using item_value [OF okstepD(1) [OF s2] _ c2(2,3,1) _ _ rep_lim [OF p2] pd rep_lim [OF y(4)] y(5),
        of "?b2\<lparr>m_anchors := an2\<rparr>" st "m_keys b"] st dep by auto
  have ac: "data_addr H2 c = data_addr H c" using view_eqD(1) [OF c2(4)] .
  have s3: "okstep H H3 {data_addr H c}" using okstep_trans [OF s2 h3(2)] ac by simp
  have m0: "rep_map H3 (m_map (data_of H c)) us d0"
    using cD d0 by (intro rep_map_frame [OF r0 s3]) auto
  have m1: "rep H3 p (prune a) e" using cD x(6) ac by (intro rep_frame [OF p2 h3(2)]) auto
  have m2: "rep H3 q (prune w) f" using cD y(6) ac by (intro rep_frame [OF y(4) h3(2)]) auto
  have r3: "rep_map H3 (m_map (data_of H3 c)) (us @ [(prune a, prune w)]) (d0 @ e @ f @ [])"
    unfolding h3(3) view_eqD(5) [OF c2(4)]
    by (intro rep_map_append rep_map_Cons rep_map_Nil m0 m1 m2)
  have b3: "built h H3 D P am2 cur2 an2" using cD ac by (intro built_frame [OF y(7) h3(2)]) simp
  have em: "emits h F am cur [Visit k, Visit v] (xs @ ys) am2 cur2"
    using emits_Cons [OF x(1) y(1)] by simp
  have fo: "fold b_event (xs @ ys) (H, b) = (H3, b\<lparr>m_anchors := an2\<rparr>)"
    using f1 y(2) h3(1) by (cases b) simp
  have ex: "extends am am2 (m_anchors b) an2" using extends_trans [OF x(8)] y(8) by simp
  have dd: "set (d0 @ e @ f @ []) \<inter> D = {}" using d0 x(6) y(6) by auto
  show thesis by (rule that [OF em fo s3 h3(4) _ r3 dd b3 ex]) (simp add: h3(5) ac)
qed

lemma clones_mapE:
  assumes "clones_map h F kvs kts ds" and "below h P ds" and "going_on h H b D P am cur"
    and "m_stack b = c # st" "nd_type H c = NMap" "waits_key H b" "nd_is_defined H c" "data_addr H c \<in> D"
    and "rep_map H (m_map (data_of H c)) us d0" "set d0 \<inter> D = {}"
  obtains es am' cur' H' anch d1 where "emits h F am cur (map Visit (pair_items h kvs)) es am' cur'"
    "fold b_event es (H, b) = (H', b\<lparr>m_anchors := anch\<rparr>)" "okstep H H' {data_addr H c}"
    "nd_type H' c = NMap" "data_addr H' c = data_addr H c"
    "rep_map H' (m_map (data_of H' c)) (us @ prune_map kts) d1" "set d1 \<inter> D = {}"
    "built h H' D P am' cur' anch" "extends am am' (m_anchors b) anch"
  using assms(1) [unfolded clones_map_def, rule_format, OF assms(2-)] by (elim exE conjE)

lemma clones_seqE:
  assumes "clones_seq h F ns ts ds" and "below h P ds" and "going_on h H b D P am cur"
    and "m_stack b = c # st" "nd_type H c = NSequence" "nd_is_defined H c" "data_addr H c \<in> D"
    and "rep_seq H (m_sequence (data_of H c)) us d0" "set d0 \<inter> D = {}"
  obtains es am' cur' H' anch d1 where "emits h F am cur (map Visit ns) es am' cur'"
    "fold b_event es (H, b) = (H', b\<lparr>m_anchors := anch\<rparr>)" "okstep H H' {data_addr H c}"
    "nd_type H' c = NSequence" "data_addr H' c = data_addr H c"
    "rep_seq H' (m_sequence (data_of H' c)) (us @ prune_seq ts) d1" "set d1 \<inter> D = {}"
    "built h H' D P am' cur' anch" "extends am am' (m_anchors b) anch"
  using assms(1) [unfolded clones_seq_def, rule_format, OF assms(2-)] by (elim exE conjE)

lemma clones_map_Cons:
  assumes ok: "heap_ok h" and ra: "rep h k a ds" and rw: "rep h v w es"
    and 1: "nd_is_defined h k \<longrightarrow> clones h F k a ds" and 2: "nd_is_defined h v \<longrightarrow> clones h F v w es"
    and 3: "clones_map h F kvs kts fs"
  shows "clones_map h F ((k, v) # kvs) ((a, w) # kts) (ds @ es @ fs)"
  unfolding clones_map_def
proof (intro allI impI)
  fix am cur D P H b c st us d0
  assume bl: "below h P (ds @ es @ fs)" and g: "going_on h H b D P am cur" and st: "m_stack b = c # st"
    and ty: "nd_type H c = NMap" and wk: "waits_key H b" and dc: "nd_is_defined H c"
    and cD: "data_addr H c \<in> D" and r0: "rep_map H (m_map (data_of H c)) us d0" and d0: "set d0 \<inter> D = {}"
  note df = rep_defined [OF ok ra] rep_defined [OF ok rw]
  have bs: "below h P ds" "below h P es" "below h P fs" using below_mono [OF bl] by simp_all
  show "\<exists>es am' cur' H' anch d1. emits h F am cur (map Visit (pair_items h ((k, v) # kvs))) es am' cur'
        \<and> fold b_event es (H, b) = (H', b\<lparr>m_anchors := anch\<rparr>)
        \<and> okstep H H' {data_addr H c} \<and> nd_type H' c = NMap \<and> data_addr H' c = data_addr H c
        \<and> rep_map H' (m_map (data_of H' c)) (us @ prune_map ((a, w) # kts)) d1 \<and> set d1 \<inter> D = {}
        \<and> built h H' D P am' cur' anch \<and> extends am am' (m_anchors b) anch"
  proof (cases "nd_is_defined h k \<and> nd_is_defined h v")
    case False
    then have "pair_items h ((k, v) # kvs) = pair_items h kvs" "prune_map ((a, w) # kts) = prune_map kts"
      using df by (auto simp: pair_items_def)
    then show ?thesis
      using 3 [unfolded clones_map_def, rule_format, OF bs(3) g st ty wk dc cD r0 d0] by simp
  next
    case True
    then have it: "pair_items h ((k, v) # kvs) = [k, v] @ pair_items h kvs"
      and pr: "prune_map ((a, w) # kts) = (prune a, prune w) # prune_map kts"
      using df by (auto simp: pair_items_def)
    have cl: "clones h F k a ds" "clones h F v w es" using True 1 2 by simp_all
    from pair_clones [OF cl bs(1,2) g st ty wk dc cD r0 d0] obtain xs am2 cur2 H3 an2 d1 where
      x: "emits h F am cur [Visit k, Visit v] xs am2 cur2"
        "fold b_event xs (H, b) = (H3, b\<lparr>m_anchors := an2\<rparr>)" "okstep H H3 {data_addr H c}"
        "nd_type H3 c = NMap" "data_addr H3 c = data_addr H c"
        "rep_map H3 (m_map (data_of H3 c)) (us @ [(prune a, prune w)]) d1" "set d1 \<inter> D = {}"
        "built h H3 D P am2 cur2 an2" "extends am am2 (m_anchors b) an2" .
    let ?b = "b\<lparr>m_anchors := an2\<rparr>"
    have rd: "ready H b" and D: "D \<subseteq> {..<lim H}" and cl: "c < lim H"
      using g st by (auto simp: going_on_def ready_def)
    have rd3: "ready H3 ?b" using ready_top [OF rd x(3) st] x(4) ty by simp
    have g3: "going_on h H3 ?b D P am2 cur2"
      using x(8) okstepD(1) [OF x(3)] rd3 D okstepD(4) [OF x(3)] by (auto simp: going_on_def)
    have st3: "m_stack ?b = c # st" using st by simp
    have wk3: "waits_key H3 ?b" using wk x(4) st by (simp add: waits_key_def)
    have dc3: "nd_is_defined H3 c" by (rule okstepD(5) [OF x(3) cl dc])
    have cD3: "data_addr H3 c \<in> D" using cD x(5) by simp
    from clones_mapE [OF 3 bs(3) g3 st3 x(4) wk3 dc3 cD3 x(6,7)] obtain ys am' cur' H' anch d2 where
      y: "emits h F am2 cur2 (map Visit (pair_items h kvs)) ys am' cur'"
        "fold b_event ys (H3, ?b) = (H', ?b\<lparr>m_anchors := anch\<rparr>)" "okstep H3 H' {data_addr H3 c}"
        "nd_type H' c = NMap" "data_addr H' c = data_addr H3 c"
        "rep_map H' (m_map (data_of H' c)) ((us @ [(prune a, prune w)]) @ prune_map kts) d2"
        "set d2 \<inter> D = {}" "built h H' D P am' cur' anch" "extends am2 am' (m_anchors ?b) anch" .
    have e: "emits h F am cur (map Visit (pair_items h ((k, v) # kvs))) (xs @ ys) am' cur'"
      using emits_append [OF x(1) y(1)] by (simp add: it)
    have f: "fold b_event (xs @ ys) (H, b) = (H', b\<lparr>m_anchors := anch\<rparr>)" using x(2) y(2) by simp
    have s: "okstep H H' {data_addr H c}" using okstep_trans [OF x(3) y(3)] x(5) by simp
    have r: "rep_map H' (m_map (data_of H' c)) (us @ prune_map ((a, w) # kts)) d2" using y(6) unfolding pr by simp
    have ex: "extends am am' (m_anchors b) anch" using extends_trans [OF x(9)] y(9) by simp
    have ad: "data_addr H' c = data_addr H c" using x(5) y(5) by simp
    show ?thesis by (intro exI conjI) (rule e f s y(4) ad r y(7,8) ex)+
  qed
qed

section \<open>Collections\<close>

lemma open_coll:
  assumes g: "going_on h H b D P am cur" and c: "create_node (b_memory b) H = (h1, v)"
    and t: "ty = NSequence \<or> ty = NMap" and a: "a = 0 \<or> a = Suc cur"
  defines "Hs \<equiv> nd_set_type v ty h1" and "bp \<equiv> b_push H v (b\<lparr>m_anchors := reg_anch a v (m_anchors b)\<rparr>)"
  defines "bs \<equiv> (if ty = NMap then bp\<lparr>m_mapDepth := Suc (m_mapDepth bp)\<rparr> else bp)"
  shows "going_on h Hs bs (insert v D) (reg_open a r P) (reg_am a r am) (reg_cur a cur)"
    "m_stack bs = v # m_stack b" "m_anchors bs = reg_anch a v (m_anchors b)" "okstep H Hs {}" "v \<notin> D"
    "waits_key Hs bs \<longleftrightarrow> ty = NMap"
proof -
  have okH: "heap_ok H" and rd: "ready H b" and bt: "built h H D P am cur (m_anchors b)"
    and D: "D \<subseteq> {..<lim H}"
    using g by (simp_all add: going_on_def)
  note fc = fresh_collection [OF okH c t, folded Hs_def]
  show st: "m_stack bs = v # m_stack b" and an: "m_anchors bs = reg_anch a v (m_anchors b)"
    by (simp_all add: bs_def bp_def b_push_def Let_def)
  show s: "okstep H Hs {}" by (rule fc(1))
  show "v \<notin> D" using fc(2) D by auto
  have "length (m_keys bp) = m_mapDepth bp"
    using ready_push [OF rd, of v] by (simp add: bp_def b_push_anchors) (simp add: b_push_def Let_def)
  then have dep: "m_mapDepth bs = (if ty = NMap then Suc (length (m_keys bs)) else length (m_keys bs))"
    by (simp add: bs_def)
  show wk: "waits_key Hs bs \<longleftrightarrow> ty = NMap" using dep st fc(5) by (auto simp: waits_key_def)
  have "\<forall>c \<in> set (m_stack bs). c < lim Hs"
    using rd fc(3) okstepD(4) [OF s] by (auto simp: st ready_def)
  then have "ready Hs bs" using dep wk by (simp add: ready_def)
  moreover have "built h Hs D (reg_open a r P) (reg_am a r am) (reg_cur a cur) (m_anchors bs)"
    unfolding an using built_frame [OF built_reg [OF bt a] s] by simp
  moreover have "built h H D (reg_open a r P) (reg_am a r am) (reg_cur a cur) (m_anchors bs)"
    unfolding an by (rule built_reg [OF bt a])
  then have "built h H (insert v D) (reg_open a r P) (reg_am a r am) (reg_cur a cur) (m_anchors bs)"
    by (rule built_fresh [OF _ okH]) (simp add: fc(2))
  then have "built h Hs (insert v D) (reg_open a r P) (reg_am a r am) (reg_cur a cur) (m_anchors bs)"
    using built_frame [OF _ s] by blast
  ultimately show "going_on h Hs bs (insert v D) (reg_open a r P) (reg_am a r am) (reg_cur a cur)"
    using okstepD(1) [OF s] fc(3) D okstepD(4) [OF s] by (auto simp: going_on_def)
qed

text \<open>Between the opening and the closing event of a collection.\<close>

definition between :: "yheap \<Rightarrow> yheap \<Rightarrow> nbuilder \<Rightarrow> nat \<Rightarrow> yheap \<Rightarrow> nbuilder \<Rightarrow> nat \<Rightarrow> ntype \<Rightarrow> bool" where
  "between h H b a Hs bs v ty \<longleftrightarrow> (\<exists>h1 bp. create_node (b_memory b) H = (h1, v)
     \<and> Hs = nd_set_type v ty h1 \<and> bp = b_push H v (b\<lparr>m_anchors := reg_anch a v (m_anchors b)\<rparr>)
     \<and> bs = (if ty = NMap then bp\<lparr>m_mapDepth := Suc (m_mapDepth bp)\<rparr> else bp))"

definition open_event :: "ntype \<Rightarrow> nat \<Rightarrow> yevent" where
  "open_event ty a = (if ty = NMap then EvMapStart a else EvSeqStart a)"

definition close_event :: "ntype \<Rightarrow> yevent" where
  "close_event ty = (if ty = NMap then EvMapEnd else EvSeqEnd)"

lemma opens:
  assumes "going_on h H b D P am cur" and t: "ty = NSequence \<or> ty = NMap"
  obtains Hs bs v where "b_event (open_event ty a) (H, b) = (Hs, bs)" "between h H b a Hs bs v ty"
proof -
  have ok: "heap_ok H" and rd: "ready H b" using assms(1) by (simp_all add: going_on_def)
  obtain h1 v where c: "create_node (b_memory b) H = (h1, v)" by fastforce
  let ?bp = "b_push H v (b\<lparr>m_anchors := reg_anch a v (m_anchors b)\<rparr>)"
  have "b_event (open_event ty a) (H, b) = (nd_set_type v ty h1,
      if ty = NMap then ?bp\<lparr>m_mapDepth := Suc (m_mapDepth ?bp)\<rparr> else ?bp)"
    using t push_new_eq [OF rd ok c, of a] by (auto simp: b_event_def open_event_def)
  then show thesis by (rule that) (use c in \<open>auto simp: between_def\<close>)
qed

lemma closes:
  assumes "between h H b a Hs bs v ty" and rd: "ready H b" and s: "okstep H H' {}"
    and t: "ty = NSequence \<or> ty = NMap"
  shows "b_event (close_event ty) (H', bs\<lparr>m_anchors := anch\<rparr>) = b_item v (H', b\<lparr>m_anchors := anch\<rparr>)"
proof -
  obtain bp where bp: "bp = b_push H v (b\<lparr>m_anchors := reg_anch a v (m_anchors b)\<rparr>)"
      "bs = (if ty = NMap then bp\<lparr>m_mapDepth := Suc (m_mapDepth bp)\<rparr> else bp)"
    using assms(1) unfolding between_def by blast
  have "b_push H' v (b\<lparr>m_anchors := anch\<rparr>) = bp\<lparr>m_anchors := anch\<rparr>"
    using b_push_frame [OF s rd, of v] by (simp add: bp(1) b_push_anchors)
  moreover have "b_event (close_event ty) (H', bs\<lparr>m_anchors := anch\<rparr>) = b_pop (H', bp\<lparr>m_anchors := anch\<rparr>)"
    using t by (auto simp: b_event_def close_event_def bp(2))
  ultimately show ?thesis by (simp add: b_item_def)
qed

lemma coll_clones:
  assumes ok: "heap_ok h" and r: "rep h n t (x # ds)" and b: "below h P (x # ds)"
    and g: "going_on h H b D P am cur"
    and t: "ty = NSequence \<or> ty = NMap"
    and ev: "\<And>a. node_event h n a = ([open_event ty a], map Visit ns @ [Close (close_event ty)])"
    and step: "\<And>a Hs bs v. between h H b a Hs bs v ty \<Longrightarrow> below h (reg_open a (node_ref h n) P) ds \<Longrightarrow>
      going_on h Hs bs (insert v D) (reg_open a (node_ref h n) P) (reg_am a (node_ref h n) am) (reg_cur a cur) \<Longrightarrow>
      m_stack bs = v # m_stack b \<Longrightarrow> (waits_key Hs bs \<longleftrightarrow> ty = NMap) \<Longrightarrow>
      \<exists>es am' cur' H' anch d1.
        emits h F (reg_am a (node_ref h n) am) (reg_cur a cur) (map Visit ns) es am' cur'
        \<and> fold b_event es (Hs, bs) = (H', bs\<lparr>m_anchors := anch\<rparr>)
        \<and> okstep Hs H' {v} \<and> nd_is_defined H' v \<and> rep H' v (prune t) (v # d1) \<and> set d1 \<inter> insert v D = {}
        \<and> built h H' (insert v D) (reg_open a (node_ref h n) P) am' cur' anch
        \<and> extends (reg_am a (node_ref h n) am) am' (m_anchors bs) anch"
  shows "\<exists>es am' cur' v Hx anch e. emits h F am cur [Visit n] es am' cur'
        \<and> fold b_event es (H, b) = b_item v (Hx, b\<lparr>m_anchors := anch\<rparr>)
        \<and> okstep H Hx {} \<and> rep Hx v (prune t) e \<and> nd_is_defined Hx v \<and> set e \<inter> D = {}
        \<and> built h Hx D P am' cur' anch \<and> extends am am' (m_anchors b) anch"
proof (cases "1 < F (node_ref h n) \<and> am (node_ref h n) \<noteq> 0")
  case True
  then show ?thesis using alias_clones [OF ok r b g] by blast
next
  case na: False
  define a where "a = first_anchor h F n cur"
  let ?r = "node_ref h n"
  have okH: "heap_ok H" and rd: "ready H b" and bt: "built h H D P am cur (m_anchors b)"
    using g by (simp_all add: going_on_def)
  have ac: "a = 0 \<or> a = Suc cur" by (simp add: a_def first_anchor_def)
  have a0: "a = 0 \<or> am ?r = 0" using na by (simp add: a_def first_anchor_def)
  obtain Hs bs v where o: "b_event (open_event ty a) (H, b) = (Hs, bs)" "between h H b a Hs bs v ty"
    using opens [OF g t] .
  obtain h1 where c: "create_node (b_memory b) H = (h1, v)" and Hs: "Hs = nd_set_type v ty h1"
    and bs: "bs = (let bp = b_push H v (b\<lparr>m_anchors := reg_anch a v (m_anchors b)\<rparr>)
       in if ty = NMap then bp\<lparr>m_mapDepth := Suc (m_mapDepth bp)\<rparr> else bp)"
    using o(2) unfolding between_def Let_def by blast
  note oc = open_coll [OF g c t ac, folded Hs, folded bs [unfolded Let_def]]
  obtain es am' cur' H' anch d1 where
    y: "emits h F (reg_am a ?r am) (reg_cur a cur) (map Visit ns) es am' cur'"
      "fold b_event es (Hs, bs) = (H', bs\<lparr>m_anchors := anch\<rparr>)" "okstep Hs H' {v}" "nd_is_defined H' v"
      "rep H' v (prune t) (v # d1)" "set d1 \<inter> insert v D = {}"
      "built h H' (insert v D) (reg_open a ?r P) am' cur' anch"
      "extends (reg_am a ?r am) am' (m_anchors bs) anch"
    using step [OF o(2) below_reg [OF ok r b] oc(1,2,6)] by (elim exE conjE)
  have s: "okstep H H' {}"
  proof (rule okstep_fresh [OF okH])
    show "okstep H H' {v}" by (rule okstep_trans [OF oc(4) y(3)]) simp
  qed (simp add: create_node_eq(1) [OF okH c])
  have vD: "set (v # d1) \<inter> D = {}" using oc(5) y(6) by auto
  have "emits h F (reg_am a ?r am) (reg_cur a cur) (map Visit ns @ [Close (close_event ty)])
      (es @ [close_event ty]) am' cur'"
    by (rule emits_append [OF y(1) emits_close])
  then have e: "emits h F am cur [Visit n] (open_event ty a # es @ [close_event ty]) am' cur'"
    using emits_first [of F h n am a cur "es @ [close_event ty]" am' cur'] na ev a_def by simp
  have f: "fold b_event (open_event ty a # es @ [close_event ty]) (H, b) = b_item v (H', b\<lparr>m_anchors := anch\<rparr>)"
    using closes [OF o(2) rd s t] o(1) y(2) by simp
  have b1: "built h H' D (reg_open a ?r P) am' cur' anch" using built_mono [OF y(7)] by blast
  have b2: "built h H' D P am' cur' anch"
    by (rule built_close [OF ok r b1 _ y(8) [unfolded oc(3)] y(5,4) vD])
       (use ac bt in \<open>simp add: built_def\<close>)
  have ex: "extends am am' (m_anchors b) anch"
    using extends_trans [OF extends_reg [of a am ?r] y(8) [unfolded oc(3)]] a0 by simp
  show ?thesis by (intro exI conjI) (rule e f s y(5,4) vD b2 ex)+
qed

lemma seq_clones:
  assumes ok: "heap_ok h" and n: "n < lim h" "nd_type h n = NSequence"
    and r: "rep_seq h (m_sequence (data_of h n)) ts ds" and IH: "clones_seq h F (m_sequence (data_of h n)) ts ds"
  shows "clones h F n (YSeq ts) (data_addr h n # ds)"
  unfolding clones_def
proof (intro allI impI)
  fix am cur D P H b
  assume bl: "below h P (data_addr h n # ds)" and g: "going_on h H b D P am cur"
  let ?ns = "m_sequence (data_of h n)"
  show "\<exists>es am' cur' v Hx anch e. emits h F am cur [Visit n] es am' cur'
        \<and> fold b_event es (H, b) = b_item v (Hx, b\<lparr>m_anchors := anch\<rparr>)
        \<and> okstep H Hx {} \<and> rep Hx v (prune (YSeq ts)) e \<and> nd_is_defined Hx v \<and> set e \<inter> D = {}
        \<and> built h Hx D P am' cur' anch \<and> extends am am' (m_anchors b) anch"
  proof (rule coll_clones [OF ok rep_Seq [OF n r] bl g])
    show "NSequence = NSequence \<or> NSequence = NMap" by simp
    show "node_event h n a = ([open_event NSequence a], map Visit ?ns @ [Close (close_event NSequence)])" for a
      using n by (simp add: node_event_def children_def open_event_def close_event_def)
    fix a Hs bs v
    assume bw: "between h H b a Hs bs v NSequence"
      and b1: "below h (reg_open a (node_ref h n) P) ds"
      and g1: "going_on h Hs bs (insert v D) (reg_open a (node_ref h n) P) (reg_am a (node_ref h n) am)
        (reg_cur a cur)"
      and st: "m_stack bs = v # m_stack b"
    obtain h1 where c: "create_node (b_memory b) H = (h1, v)" "Hs = nd_set_type v NSequence h1"
      using bw unfolding between_def by blast
    have okH: "heap_ok H" using g by (simp add: going_on_def)
    note fc = fresh_collection [OF okH c(1) disjI1 [OF refl], folded c(2)]
    have r0: "rep_seq Hs (m_sequence (data_of Hs v)) [] []" by (simp add: fc(7))
    have vD: "data_addr Hs v \<in> insert v D" "set [] \<inter> insert v D = {}" by (simp_all add: fc(6))
    from clones_seqE [OF IH b1 g1 st fc(5,4) vD(1) r0 vD(2)]
    obtain es am' cur' H' anch d1 where
      y: "emits h F (reg_am a (node_ref h n) am) (reg_cur a cur) (map Visit ?ns) es am' cur'"
        "fold b_event es (Hs, bs) = (H', bs\<lparr>m_anchors := anch\<rparr>)" "okstep Hs H' {data_addr Hs v}"
        "nd_type H' v = NSequence" "data_addr H' v = data_addr Hs v"
        "rep_seq H' (m_sequence (data_of H' v)) ([] @ prune_seq ts) d1" "set d1 \<inter> insert v D = {}"
        "built h H' (insert v D) (reg_open a (node_ref h n) P) am' cur' anch"
        "extends (reg_am a (node_ref h n) am) am' (m_anchors bs) anch" .
    have l: "v < lim H'" using okstepD(4) [OF y(3)] fc(3) by simp
    have "rep H' v (prune (YSeq ts)) (v # d1)" using rep_Seq [OF l y(4), of "prune_seq ts" d1] y(5,6) fc(6) by simp
    moreover have "nd_is_defined H' v" by (rule okstepD(5) [OF y(3) fc(3,4)])
    moreover have "okstep Hs H' {v}" using y(3) fc(6) by simp
    ultimately show "\<exists>es am' cur' H' anch d1.
        emits h F (reg_am a (node_ref h n) am) (reg_cur a cur) (map Visit ?ns) es am' cur'
        \<and> fold b_event es (Hs, bs) = (H', bs\<lparr>m_anchors := anch\<rparr>)
        \<and> okstep Hs H' {v} \<and> nd_is_defined H' v \<and> rep H' v (prune (YSeq ts)) (v # d1) \<and> set d1 \<inter> insert v D = {}
        \<and> built h H' (insert v D) (reg_open a (node_ref h n) P) am' cur' anch
        \<and> extends (reg_am a (node_ref h n) am) am' (m_anchors bs) anch"
      using y(1,2,7-9) by (intro exI conjI)
  qed
qed

lemma map_clones:
  assumes ok: "heap_ok h" and n: "n < lim h" "nd_type h n = NMap"
    and r: "rep_map h (m_map (data_of h n)) kts ds" and IH: "clones_map h F (m_map (data_of h n)) kts ds"
  shows "clones h F n (YMap kts) (data_addr h n # ds)"
  unfolding clones_def
proof (intro allI impI)
  fix am cur D P H b
  assume bl: "below h P (data_addr h n # ds)" and g: "going_on h H b D P am cur"
  let ?ns = "pair_items h (m_map (data_of h n))"
  show "\<exists>es am' cur' v Hx anch e. emits h F am cur [Visit n] es am' cur'
        \<and> fold b_event es (H, b) = b_item v (Hx, b\<lparr>m_anchors := anch\<rparr>)
        \<and> okstep H Hx {} \<and> rep Hx v (prune (YMap kts)) e \<and> nd_is_defined Hx v \<and> set e \<inter> D = {}
        \<and> built h Hx D P am' cur' anch \<and> extends am am' (m_anchors b) anch"
  proof (rule coll_clones [OF ok rep_Map [OF n r] bl g])
    show "NMap = NSequence \<or> NMap = NMap" by simp
    show "node_event h n a = ([open_event NMap a], map Visit ?ns @ [Close (close_event NMap)])" for a
      using n by (simp add: node_event_def children_def open_event_def close_event_def pair_items_def
          defined_pairs_def)
    fix a Hs bs v
    assume bw: "between h H b a Hs bs v NMap"
      and b1: "below h (reg_open a (node_ref h n) P) ds"
      and g1: "going_on h Hs bs (insert v D) (reg_open a (node_ref h n) P) (reg_am a (node_ref h n) am)
        (reg_cur a cur)"
      and st: "m_stack bs = v # m_stack b" and wk: "waits_key Hs bs \<longleftrightarrow> NMap = NMap"
    obtain h1 where c: "create_node (b_memory b) H = (h1, v)" "Hs = nd_set_type v NMap h1"
      using bw unfolding between_def by blast
    have okH: "heap_ok H" using g by (simp add: going_on_def)
    note fc = fresh_collection [OF okH c(1) disjI2 [OF refl], folded c(2)]
    have r0: "rep_map Hs (m_map (data_of Hs v)) [] []" by (simp add: fc(8))
    have vD: "data_addr Hs v \<in> insert v D" "set [] \<inter> insert v D = {}" by (simp_all add: fc(6))
    have wk': "waits_key Hs bs" using wk by simp
    from clones_mapE [OF IH b1 g1 st fc(5) wk' fc(4) vD(1) r0 vD(2)]
    obtain es am' cur' H' anch d1 where
      y: "emits h F (reg_am a (node_ref h n) am) (reg_cur a cur) (map Visit ?ns) es am' cur'"
        "fold b_event es (Hs, bs) = (H', bs\<lparr>m_anchors := anch\<rparr>)" "okstep Hs H' {data_addr Hs v}"
        "nd_type H' v = NMap" "data_addr H' v = data_addr Hs v"
        "rep_map H' (m_map (data_of H' v)) ([] @ prune_map kts) d1" "set d1 \<inter> insert v D = {}"
        "built h H' (insert v D) (reg_open a (node_ref h n) P) am' cur' anch"
        "extends (reg_am a (node_ref h n) am) am' (m_anchors bs) anch" .
    have l: "v < lim H'" using okstepD(4) [OF y(3)] fc(3) by simp
    have "rep H' v (prune (YMap kts)) (v # d1)" using rep_Map [OF l y(4), of "prune_map kts" d1] y(5,6) fc(6) by simp
    moreover have "nd_is_defined H' v" by (rule okstepD(5) [OF y(3) fc(3,4)])
    moreover have "okstep Hs H' {v}" using y(3) fc(6) by simp
    ultimately show "\<exists>es am' cur' H' anch d1.
        emits h F (reg_am a (node_ref h n) am) (reg_cur a cur) (map Visit ?ns) es am' cur'
        \<and> fold b_event es (Hs, bs) = (H', bs\<lparr>m_anchors := anch\<rparr>)
        \<and> okstep Hs H' {v} \<and> nd_is_defined H' v \<and> rep H' v (prune (YMap kts)) (v # d1) \<and> set d1 \<inter> insert v D = {}
        \<and> built h H' (insert v D) (reg_open a (node_ref h n) P) am' cur' anch
        \<and> extends (reg_am a (node_ref h n) am) am' (m_anchors bs) anch"
      using y(1,2,7-9) by (intro exI conjI)
  qed
qed

section \<open>Every node\<close>

lemma leaf_node_clones:
  assumes ok: "heap_ok h" and r: "rep h n t ds"
    and ev: "\<And>a. node_event h n a = ([mk a], [])"
    and f: "\<And>a s. b_event (mk a) s = (case b_push_new a s of (h, b, n) \<Rightarrow> b_pop (f n h, b))"
    and w: "\<And>m H h1 v. heap_ok H \<Longrightarrow> create_node m H = (h1, v) \<Longrightarrow>
        okstep H (f v h1) {} \<and> rep (f v h1) v (prune t) [v] \<and> nd_is_defined (f v h1) v"
  shows "clones h F n t ds"
  unfolding clones_def
proof (intro allI impI)
  fix am cur D P H b
  assume b: "below h P ds" and g: "going_on h H b D P am cur"
  show "\<exists>es am' cur' v Hx anch e. emits h F am cur [Visit n] es am' cur'
        \<and> fold b_event es (H, b) = b_item v (Hx, b\<lparr>m_anchors := anch\<rparr>)
        \<and> okstep H Hx {} \<and> rep Hx v (prune t) e \<and> nd_is_defined Hx v \<and> set e \<inter> D = {}
        \<and> built h Hx D P am' cur' anch \<and> extends am am' (m_anchors b) anch"
  proof (cases "1 < F (node_ref h n) \<and> am (node_ref h n) \<noteq> 0")
    case True
    then show ?thesis using alias_clones [OF ok r b g] by blast
  next
    case False
    have okH: "heap_ok H" using g by (simp add: going_on_def)
    note w' = w [OF okH]
    show ?thesis by (rule leaf_clones [where F = F and am = am and cur = cur and f = f
            and a = "first_anchor h F n cur" and evt = "mk (first_anchor h F n cur)"])
          (use ok r g False ev f w' in blast)+
  qed
qed

lemma null_clones:
  assumes "heap_ok h" and r: "rep h n YNull ds"
  shows "clones h F n YNull ds"
proof (rule leaf_node_clones [OF assms, where mk = EvNull and f = nd_set_null])
  show "node_event h n a = ([EvNull a], [])" for a using rep_type [OF r] by (simp add: node_event_def)
qed (simp_all add: b_event_def fresh_null_node)

lemma fresh_scalar_node:
  assumes ok: "heap_ok h" and c: "create_node m h = (h1, n)"
  shows "okstep h (nd_set_scalar n s h1) {}" "rep (nd_set_scalar n s h1) n (YScalar s) [n]"
    "nd_is_defined (nd_set_scalar n s h1) n"
proof -
  note k = create_node_eq [OF ok c]
  note s1 = okstep_create_node [OF ok c]
  have l: "n < lim h1" using k(1,2) by simp
  note w = set_scalar_step [OF okstepD(1) [OF s1] l, of s]
  show "okstep h (nd_set_scalar n s h1) {}"
  proof (rule okstep_fresh [OF ok])
    show "okstep h (nd_set_scalar n s h1) {n}" using okstep_trans [OF s1 w(1)] k(3) by simp
  qed (simp add: k(1))
  show "nd_is_defined (nd_set_scalar n s h1) n" by (simp add: nd_is_defined_def w(2) data_set_scalar_def)
  show "rep (nd_set_scalar n s h1) n (YScalar s) [n]"
    using rep_scalar_node [of n "nd_set_scalar n s h1"] l w(2-4) k(3) by simp
qed

lemma scalar_clones:
  assumes "heap_ok h" and r: "rep h n (YScalar s) ds"
  shows "clones h F n (YScalar s) ds"
proof (rule leaf_node_clones [OF assms, where mk = "\<lambda>a. EvScalar a s" and f = "\<lambda>n. nd_set_scalar n s"])
  have "m_scalar (data_of h n) = s" using r by (auto elim: rep_ScalarE)
  then show "node_event h n a = ([EvScalar a s], [])" for a
    using rep_type [OF r] by (simp add: node_event_def)
qed (simp_all add: b_event_def fresh_scalar_node)

text \<open>The elements of a sequence are defined.\<close>

lemma seq_defined:
  assumes "heap_ok h" and "n < lim h" and "nd_type h n = NSequence" and "x \<in> set (m_sequence (data_of h n))"
  shows "nd_is_defined h x"
  using children_ok [OF assms(1,2), of x] assms(3,4) by (simp add: children_def)

lemma node_clones:
  assumes ok: "heap_ok h"
  shows "rep h n t ds \<Longrightarrow> nd_is_defined h n \<longrightarrow> clones h F n t ds"
    and "rep_seq h ns ts ds \<Longrightarrow> (\<forall>x \<in> set ns. nd_is_defined h x) \<longrightarrow> clones_seq h F ns ts ds"
    and "rep_map h kvs kts ds \<Longrightarrow> clones_map h F kvs kts ds"
proof (induction rule: rep_rep_seq_rep_map.inducts)
  case (rep_Undef n)
  then show ?case using heap_defined_iff [OF ok, of n] by simp
next
  case (rep_Null n)
  then show ?case using null_clones [OF ok] rep_rep_seq_rep_map.rep_Null by blast
next
  case (rep_Scalar n)
  then show ?case using scalar_clones [OF ok] rep_rep_seq_rep_map.rep_Scalar by blast
next
  case (rep_Seq n ts ds)
  then show ?case using seq_clones [OF ok rep_Seq(1-3)] seq_defined [OF ok rep_Seq(1,2)] by blast
next
  case (rep_Map n kts ds)
  then show ?case using map_clones [OF ok rep_Map(1-3)] by blast
next
  case (rep_map_Cons k a ds v b es kvs kts fs)
  then show ?case using clones_map_Cons [OF ok] by blast
qed (simp_all add: clones_seq_Nil clones_map_Nil clones_seq_Cons)

lemma new_builder_going_on:
  assumes ok: "heap_ok H" and b: "new_builder H = (H1, b)" and D: "D \<subseteq> {..<lim H}"
  shows "going_on h H1 b D {} (\<lambda>_. 0) 0" "okstep H H1 {}" "m_stack b = []"
proof -
  obtain m where m: "new_holder H = (H1, m)" and e: "b = \<lparr>b_memory = m, m_pRoot = None, m_stack = [],
      m_anchors = [None], m_keys = [], m_mapDepth = 0\<rparr>"
    using b by (auto simp: new_builder_def split: prod.splits)
  show s: "okstep H H1 {}" using okstep_new_holder [OF ok] m by simp
  show "m_stack b = []" by (simp add: e)
  show "going_on h H1 b D {} (\<lambda>_. 0) 0"
    using okstepD(1) [OF s] D okstepD(4) [OF s]
    by (auto simp: going_on_def ready_def waits_key_def built_def e)
qed

text \<open>The events of a node of \<open>h\<close>, built up in any heap \<open>H\<close>.\<close>

lemma build_emitted:
  assumes ok: "heap_ok h" and r: "rep h n t ds" and d: "is_defined t"
    and okH: "heap_ok H" and D: "D \<subseteq> {..<lim H}"
  obtains es H' m v e where "node_events h n = Some es" "build es H = (H', (m, v))" "okstep H H' {}"
    "rep H' v (prune t) e" "nd_is_defined H' v" "set e \<inter> D = {}"
proof -
  let ?F = "setup_refs h (\<lambda>_. 0) [n]"
  have dn: "nd_is_defined h n" using rep_defined [OF ok r] d by simp
  obtain H1 b where nb: "new_builder H = (H1, b)" by fastforce
  note g = new_builder_going_on [OF okH nb D]
  have c: "clones h ?F n t ds" using node_clones(1) [OF ok r] dn by blast
  have "below h {} ds" by (simp add: below_def)
  from clonesE [OF c this g(1)] obtain es am' cur' v Hx anch e where
    x: "emits h ?F (\<lambda>_. 0) 0 [Visit n] es am' cur'"
      "fold b_event es (H1, b) = b_item v (Hx, b\<lparr>m_anchors := anch\<rparr>)" "okstep H1 Hx {}"
      "rep Hx v (prune t) e" "nd_is_defined Hx v" "set e \<inter> D = {}" .
  have "emit_all h ?F am' cur' [] = Some []" by (subst emit_all.simps) simp
  then have "emit_all h ?F (\<lambda>_. 0) 0 ([Visit n] @ []) = Some (es @ [])"
    using x(1) unfolding emits_def by simp
  then have ev: "node_events h n = Some (EvDocStart # es @ [EvDocEnd])" by (simp add: node_events_def)
  have "fold b_event (EvDocStart # es @ [EvDocEnd]) (new_builder H)
      = (Hx, b\<lparr>m_anchors := anch, m_pRoot := Some v, m_stack := []\<rparr>)"
    using x(2) g(3) item_root [of "b\<lparr>m_anchors := anch\<rparr>" v Hx] by (simp add: nb b_event_def)
  then have bu: "build (EvDocStart # es @ [EvDocEnd]) H = (Hx, (b_memory b, v))" by (simp add: build_def)
  have s: "okstep H Hx {}" using okstep_trans [OF g(2) x(3)] by simp
  show thesis by (rule that [OF ev bu s x(4-6)])
qed

text \<open>\<open>Clone\<close>: the same value, in nodes of its own.\<close>

lemma clone_copies:
  assumes ok: "heap_ok h" and r: "rep h n t ds" and d: "is_defined t"
  shows "\<exists>h' r' es. clone_node (m, n) h = Some (h', r') \<and> heap_ok h' \<and> handle_ok h' r'
    \<and> rep h' (snd r') (prune t) es \<and> set es \<inter> set ds = {}
    \<and> (\<forall>n' t' ds'. rep h n' t' ds' \<longrightarrow> rep h' n' t' ds')"
proof -
  from build_emitted [OF ok r d ok rep_lims(1) [OF ok r]] obtain es h' k v e where
    x: "node_events h n = Some es" "build es h = (h', (k, v))" "okstep h h' {}"
      "rep h' v (prune t) e" "nd_is_defined h' v" "set e \<inter> set ds = {}" .
  have c: "clone_node (m, n) h = Some (h', (k, v))" using x(1,2) by (simp add: clone_node_def)
  have fr: "rep h' n' t' ds'" if "rep h n' t' ds'" for n' t' ds' using rep_frame [OF that x(3)] by simp
  have "handle_ok h' (k, v)" using rep_lim [OF x(4)] x(5) by (simp add: handle_ok_def)
  with c okstepD(1) [OF x(3)] x(4,6) fr show ?thesis by auto
qed

text \<open>
  C31. Loading what was saved gives the same value: on a node that stands for a tree,
  however its subtrees are shared between keys and handles, \<open>saveAsFile\<close> succeeds,
  and loading the file, at any later time, gives a handle that stands for that
  tree, the map entries with an undefined side left out, built from nodes of its
  own: every tree the memory held is as before.  What the code relies on is that
  the parser reads from the emitter's text the events it was written from.
\<close>
theorem save_load_copies:
  assumes ok: "heap_ok h" and r: "rep h n t ds" and t: "t \<noteq> YUndef" "t \<noteq> YNull"
    and wr: "writable path"
    and rt: "\<And>es. node_events h n = Some es \<Longrightarrow> parse (render es) = Inr (Some es)"
  shows "\<exists>fs'. hs_save_as_file render writable fs (m, n) path h = Some (Inr fs')
    \<and> (\<forall>q. q \<noteq> path \<longrightarrow> fs' q = fs q)
    \<and> (\<forall>H. heap_ok H \<longrightarrow> (\<exists>H' r' e. hs_load_file parse fs' path H = (Inr r', H') \<and> heap_ok H'
         \<and> handle_ok H' r' \<and> rep H' (snd r') (prune t) e \<and> set e \<inter> {..<lim H} = {}
         \<and> (\<forall>n' t' ds'. rep H n' t' ds' \<longrightarrow> rep H' n' t' ds')))"
proof -
  have d: "is_defined t" using t by (simp add: is_defined_def)
  have dn: "nd_is_defined h n" using rep_defined [OF ok r] d by simp
  have ty: "nd_type h n \<noteq> NNull" using rep_type [OF r] t by (simp split: ynode.splits)
  obtain es where ev: "node_events h n = Some es" using build_emitted [OF ok r d ok, of "{}"] by blast
  let ?fs = "fs(path \<mapsto> render es)"
  have sv: "hs_save_as_file render writable fs (m, n) path h = Some (Inr ?fs)"
    using dn ty wr ev by (simp add: hs_save_as_file_def)
  have "\<exists>H' r' e. hs_load_file parse ?fs path H = (Inr r', H') \<and> heap_ok H'
         \<and> handle_ok H' r' \<and> rep H' (snd r') (prune t) e \<and> set e \<inter> {..<lim H} = {}
         \<and> (\<forall>n' t' ds'. rep H n' t' ds' \<longrightarrow> rep H' n' t' ds')" if okH: "heap_ok H" for H
  proof -
    obtain H0 m0 v0 where 0: "new_handle H = (H0, (m0, v0))" by (metis prod.exhaust)
    note w = new_handle_step [OF okH 0]
    have ok0: "heap_ok H0" using okstepD(1) [OF w(1)] .
    from build_emitted [OF ok r d ok0, of "{..<lim H0}"] obtain es' H1 k v e where
      x: "node_events h n = Some es'" "build es' H0 = (H1, (k, v))" "okstep H0 H1 {}"
        "rep H1 v (prune t) e" "nd_is_defined H1 v" "set e \<inter> {..<lim H0} = {}" by blast
    have es: "es' = es" using x(1) ev by simp
    have l0: "v0 < lim H0" using w(2,4) by simp
    have a: "data_addr H0 v0 = v0" using w(3) rep_addr by fastforce
    have v1: "view H1 v0 = view H0 v0" using hstep_view [OF okstepD(2) [OF x(3)] l0] by simp
    have a1: "data_addr H1 v0 = v0" using view_eqD(1) [OF v1] a by simp
    have dj: "data_addr H1 v0 \<notin> set e" using a1 l0 x(6) by auto
    note q = assign_node_step [OF okstepD(1) [OF x(3)] okstepD(4) [OF x(3) l0] x(4,5) dj, of m0 k]
    let ?H' = "assign_node (m0, v0) (k, v) H1"
    have ld: "hs_load_file parse ?fs path H = (Inr (m0, v), ?H')"
      using rt [OF ev] x(2) by (simp add: hs_load_file_def 0 es)
    have s1: "okstep H0 ?H' {v0}" using okstep_trans [OF x(3) q(1)] a1 by simp
    have s: "okstep H ?H' {}"
      using okstep_fresh [OF okH okstep_trans [OF w(1) s1 subset_refl]] w(2) by simp
    have rv: "rep ?H' v (prune t) e" by (rule rep_frame [OF x(4) q(1)]) (use dj in simp)
    have dv: "nd_is_defined ?H' v" by (rule okstepD(5) [OF q(1) rep_lim [OF x(4)] x(5)])
    have fr: "rep ?H' n' t' ds'" if "rep H n' t' ds'" for n' t' ds' using rep_frame [OF that s] by simp
    have "set e \<inter> {..<lim H} = {}" using x(6) w(4) by auto
    then show ?thesis using ld okstepD(1) [OF s] rv rep_lim [OF rv] dv fr
      by (intro exI [of _ ?H'] exI [of _ "(m0, v)"] exI [of _ e]) (simp add: handle_ok_def)
  qed
  then show ?thesis using sv by (intro exI [of _ ?fs]) simp
qed

theorem save_load_copies_witness:
  "\<exists>fs'. hs_save_as_file (\<lambda>_. ''doc'') (\<lambda>_. True) Map.empty (0, 0) ''f.yaml'' map_heap = Some (Inr fs')
    \<and> (\<exists>H' r' e. hs_load_file (\<lambda>_. Inr (node_events map_heap 0)) fs' ''f.yaml'' map_heap = (Inr r', H')
         \<and> rep H' (snd r') (YMap [(YScalar ''a'', YNull)]) e \<and> set e \<inter> {..<lim map_heap} = {})"
proof -
  obtain ds where ds: "rep map_heap 0 (YMap [(YScalar ''a'', YNull)]) ds" using map_heap_facts(2) by blast
  obtain fs' where 1: "hs_save_as_file (\<lambda>_. ''doc'') (\<lambda>_. True) Map.empty (0, 0) ''f.yaml'' map_heap = Some (Inr fs')"
    and 2: "\<forall>H. heap_ok H \<longrightarrow> (\<exists>H' r' e. hs_load_file (\<lambda>_. Inr (node_events map_heap 0)) fs' ''f.yaml'' H = (Inr r', H')
         \<and> heap_ok H' \<and> handle_ok H' r' \<and> rep H' (snd r') (prune (YMap [(YScalar ''a'', YNull)])) e
         \<and> set e \<inter> {..<lim H} = {} \<and> (\<forall>n' t' ds'. rep H n' t' ds' \<longrightarrow> rep H' n' t' ds'))"
    using save_load_copies [OF map_heap_facts(1) ds, where writable = "\<lambda>_. True" and path = "''f.yaml''"
        and parse = "\<lambda>_. Inr (node_events map_heap 0)" and render = "\<lambda>_. ''doc''" and fs = Map.empty and m = 0]
    by auto
  obtain H' r' e where "hs_load_file (\<lambda>_. Inr (node_events map_heap 0)) fs' ''f.yaml'' map_heap = (Inr r', H')"
      "rep H' (snd r') (prune (YMap [(YScalar ''a'', YNull)])) e" "set e \<inter> {..<lim map_heap} = {}"
    using 2 [rule_format, OF map_heap_facts(1)] by blast
  then show ?thesis using 1 by (cases r') (auto simp: is_defined_def)
qed

end
