(* ===== verification/YamlMemory.thy ===== *)
theory YamlMemory
  imports YamlClone
begin

text \<open>
  Who owns the nodes: \<open>memory.cpp\<close> and the memory holders of \<open>YAML::Node\<close>.  A node lives as
  long as a memory that owns it, a memory as long as a holder that points to it, a holder as
  long as a handle or a running operation that has it.  The holders an operation makes for
  itself are merged into the holder of a handle before it ends, so the handles a client
  holds own every node there is: nothing is freed under it.
\<close>

section \<open>Ownership\<close>

definition memory :: "yheap \<Rightarrow> nat \<times> nat \<times> (nat \<Rightarrow> nat) \<times> (nat \<Rightarrow> nat set)" where
  "memory h = (lim h, mlim h, h_holder h, h_mem h)"

text \<open>The nodes the holders \<open>M\<close> keep alive, and that these are all.\<close>

definition owned :: "yheap \<Rightarrow> nat set \<Rightarrow> nat set" where
  "owned h M = (\<Union>m \<in> M. h_mem h (h_holder h m))"

definition held :: "yheap \<Rightarrow> nat set \<Rightarrow> bool" where
  "held h M \<longleftrightarrow> (\<forall>m \<in> M. m < mlim h \<and> h_holder h m < mlim h) \<and> {..<lim h} \<subseteq> owned h M"

lemma held_same: "memory h' = memory h \<Longrightarrow> held h M \<Longrightarrow> held h' M"
  by (simp add: memory_def held_def owned_def)

lemma held_new_holder:
  assumes "held h M" and "new_holder h = (h', m)"
  shows "held h' (insert m M)"
proof -
  have e: "h' = h\<lparr>h_holder := (h_holder h)(mlim h := mlim h), h_mem := (h_mem h)(mlim h := {}), mlim := Suc (mlim h)\<rparr>"
    and m: "m = mlim h"
    using assms(2) by (auto simp: new_holder_def)
  have "h_mem h' (h_holder h' k) = h_mem h (h_holder h k)" if "k \<in> M" for k
    using assms(1) that by (auto simp: e held_def)
  then have "owned h M \<subseteq> owned h' (insert m M)" by (auto simp: owned_def)
  moreover have "k < mlim h' \<and> h_holder h' k < mlim h'" if "k \<in> insert m M" for k
    using assms(1) that by (auto simp: e m held_def less_Suc_eq)
  ultimately show ?thesis using assms(1) by (auto simp: held_def e)
qed

lemma held_create:
  assumes "held h M" and "create_node m h = (h', n)" and "m \<in> M"
  shows "held h' M"
proof -
  have e: "memory h' = (Suc (lim h), mlim h, h_holder h,
      (h_mem h)(h_holder h m := insert (lim h) (h_mem h (h_holder h m))))"
    using assms(2) by (auto simp: create_node_def memory_def)
  then have "owned h M \<subseteq> owned h' M" "lim h \<in> owned h' M"
    using assms(3) by (auto simp: owned_def memory_def)
  then show ?thesis using assms(1) e by (auto simp: held_def memory_def lessThan_Suc)
qed

lemma held_merge:
  assumes "held h (insert b M)" and "a \<in> M"
  shows "held (mem_merge a b h) M"
proof -
  let ?h = "mem_merge a b h"
  have l: "lim ?h = lim h" "mlim ?h = mlim h" by (simp_all add: mem_merge_def Let_def)
  have bound: "k < mlim h \<and> h_holder h k < mlim h" if "k \<in> insert b M" for k
    using assms(1) that by (auto simp: held_def)
  have mem: "h_mem h (h_holder h a) \<union> h_mem h (h_holder h b) \<subseteq> h_mem ?h (h_holder ?h a)"
    by (auto simp: mem_merge_def Let_def)
  have keep: "h_mem h (h_holder h k) \<subseteq> h_mem ?h (h_holder ?h k)" for k
    by (auto simp: mem_merge_def Let_def)
  have "owned h (insert b M) \<subseteq> owned ?h M"
    using mem keep assms(2) by (auto simp: owned_def)
  moreover have "k < mlim ?h \<and> h_holder ?h k < mlim ?h" if "k \<in> M" for k
    using bound [of k] bound [of a] bound [of b] that assms(2) by (simp add: mem_merge_def Let_def)
  ultimately show ?thesis using assms(1) l by (auto simp: held_def)
qed

section \<open>Steps that leave the memories alone\<close>

lemma memory_steps [simp]:
  "memory (upd_data n f h) = memory h" "memory (upd_node n g h) = memory h"
  "memory (h\<lparr>m_amount := k\<rparr>) = memory h" "memory (h\<lparr>h_ref := r\<rparr>) = memory h"
  by (simp_all add: memory_def)

lemma memory_mark_all [simp]: "memory (mark_all h ns) = memory h"
  by (induction h ns rule: mark_all.induct) simp_all

lemma memory_marks [simp]:
  "memory (mark_defined n h) = memory h" "memory (add_dependency n m h) = memory h"
  "memory (set_ref n m h) = memory h" "memory (set_data n m h) = memory h"
  "memory (nd_set_type n t h) = memory h" "memory (nd_set_null n h) = memory h"
  "memory (nd_set_scalar n s h) = memory h" "memory (insert_map_pair n k v h) = memory h"
  by (simp_all add: mark_defined_def add_dependency_def set_ref_def set_data_def nd_set_type_def
      nd_set_null_def nd_set_scalar_def insert_map_pair_def Let_def)

lemma memory_push_back: "nd_push_back n v h = Inr h' \<Longrightarrow> memory h' = memory h"
  by (auto simp: nd_push_back_def Let_def split: if_splits)

lemma memory_size [simp]: "memory (fst (nd_size n h)) = memory h"
  by (simp add: nd_size_def Let_def split: ntype.split)

text \<open>The same for the references of the nodes.\<close>

lemma ref_steps [simp]:
  "node_ref (upd_data n f h) = node_ref h" "node_ref (h\<lparr>m_amount := k\<rparr>) = node_ref h"
  "node_ref (h\<lparr>h_holder := ho, h_mem := me\<rparr>) = node_ref h"
  by (simp_all add: node_ref_def [abs_def])

lemma ref_upd_node [simp]: "(\<And>x. m_pRef (f x) = m_pRef x) \<Longrightarrow> node_ref (upd_node n f h) = node_ref h"
  by (auto simp: node_ref_def [abs_def] upd_node_def)

lemma ref_mark_all [simp]: "node_ref (mark_all h ns) = node_ref h"
  by (induction h ns rule: mark_all.induct) simp_all

lemma ref_marks [simp]:
  "node_ref (mark_defined n h) = node_ref h" "node_ref (add_dependency n m h) = node_ref h"
  "node_ref (nd_set_type n t h) = node_ref h" "node_ref (nd_set_null n h) = node_ref h"
  "node_ref (nd_set_scalar n s h) = node_ref h" "node_ref (insert_map_pair n k v h) = node_ref h"
  by (simp_all add: mark_defined_def add_dependency_def nd_set_type_def
      nd_set_null_def nd_set_scalar_def insert_map_pair_def)

lemma ref_push_back: "nd_push_back n v h = Inr h' \<Longrightarrow> node_ref h' = node_ref h"
  by (auto simp: nd_push_back_def Let_def split: if_splits)

lemma ref_create: "create_node m h = (h', n) \<Longrightarrow> node_ref h' = (node_ref h)(lim h := lim h)"
  by (auto simp: create_node_def node_ref_def [abs_def])

lemma ref_new_holder: "new_holder h = (h', m) \<Longrightarrow> node_ref h' = node_ref h \<and> lim h' = lim h"
  by (auto simp: new_holder_def node_ref_def [abs_def])

section \<open>The operations on nodes\<close>

lemma held_new_handle:
  assumes "held h M" and "new_handle h = (h', r)"
  shows "held h' (insert (fst r) M)"
proof -
  obtain h1 m where 1: "new_holder h = (h1, m)" by fastforce
  obtain h2 n where 2: "create_node m h1 = (h2, n)" by fastforce
  have "h' = nd_set_null n h2" "fst r = m" using assms(2) by (auto simp: new_handle_def 1 2)
  then show ?thesis
    using held_create [OF held_new_holder [OF assms(1) 1] 2] by (auto intro: held_same)
qed

lemma ref_new_handle:
  assumes "new_handle h = (h', r)"
  shows "node_ref h' = (node_ref h)(lim h := lim h)" "snd r = lim h" "lim h' = Suc (lim h)"
proof -
  obtain h1 m where 1: "new_holder h = (h1, m)" by fastforce
  obtain h2 n where 2: "create_node m h1 = (h2, n)" by fastforce
  have e: "h' = nd_set_null n h2" "snd r = n" using assms by (auto simp: new_handle_def 1 2)
  then show "node_ref h' = (node_ref h)(lim h := lim h)"
    using ref_create [OF 2] ref_new_holder [OF 1] by simp
  have "memory h' = memory h2" by (simp add: e)
  then show "snd r = lim h" "lim h' = Suc (lim h)"
    using 2 ref_new_holder [OF 1] e by (auto simp: create_node_def memory_def)
qed

lemma held_convert:
  assumes "held h M" and "m \<in> M" and "convert_to_node m key h = (h', k)"
  shows "held h' M"
proof -
  obtain h1 t where 1: "new_holder h = (h1, t)" by fastforce
  obtain h2 n where 2: "create_node t h1 = (h2, n)" by fastforce
  have e: "h' = mem_merge m t (nd_set_scalar n key h2)" using assms(3) by (auto simp: convert_to_node_def 1 2)
  have "held h2 (insert t M)" by (rule held_create [OF held_new_holder [OF assms(1) 1] 2]) simp
  then have "held (nd_set_scalar n key h2) (insert t M)" by (rule held_same [rotated]) simp
  then show ?thesis unfolding e using assms(2) by (rule held_merge)
qed

lemma held_seq_loop: "held h M \<Longrightarrow> m \<in> M \<Longrightarrow> held (seq_to_map_loop m n i xs h) M"
proof (induction m n i xs h rule: seq_to_map_loop.induct)
  case (2 m n i x xs h)
  obtain h1 k where 1: "create_node m h = (h1, k)" by fastforce
  have "held (insert_map_pair n k x (nd_set_scalar k (nat_dec i) h1)) M"
    by (rule held_same [OF _ held_create [OF 2(2) 1 2(3)]]) simp
  then show ?case using 2(1) [OF 1 [symmetric] refl] 2(3) by (simp add: 1)
qed simp

lemma held_to_map:
  assumes "held h M" and "m \<in> M"
  shows "held (nd_convert_to_map m n h) M"
proof -
  have upd: "held (upd_data k f g) M" if "held g M" for k f g by (rule held_same [OF _ that]) simp
  show ?thesis using assms
    by (auto simp: nd_convert_to_map_def nd_seq_to_map_def intro!: upd held_seq_loop split: ntype.split)
qed

lemma held_get:
  assumes "held h M" and "m \<in> M" and "nd_get m n key h = Inr (h', s)"
  shows "held h' M"
proof -
  let ?h = "nd_convert_to_map m n h"
  note c = held_to_map [OF assms(1,2), of n]
  show ?thesis
  proof (cases "key_find ?h key (m_map (data_of ?h n))")
    case (Some v)
    then show ?thesis using assms(3) c
      by (auto simp: nd_get_def Let_def split: if_splits intro: held_same)
  next
    case None
    obtain h1 k where 1: "convert_to_node m key ?h = (h1, k)" by fastforce
    obtain h2 v where 2: "create_node m h1 = (h2, v)" by fastforce
    have "held h2 M" by (rule held_create [OF held_convert [OF c assms(2) 1] 2 assms(2)])
    then show ?thesis using assms(3) None
      by (auto simp: nd_get_def Let_def 1 2 split: if_splits intro: held_same)
  qed
qed

lemma held_insert:
  assumes "held h M" and "m \<in> M" and "nd_insert m n k v h = Inr h'"
  shows "held h' M"
  using assms(3) held_to_map [OF assms(1,2), of n]
  by (auto simp: nd_insert_def Let_def split: if_splits intro: held_same)

text \<open>A handle assigned may be a temporary, as long as it has a node of its own.\<close>

lemma held_assign:
  assumes "held h (insert (fst v) M)" and "fst s \<in> M" and "fst v \<in> M \<or> \<not> nd_is h (snd s) (snd v)"
  shows "held (assign_node s v h) M"
proof (cases "nd_is h (snd s) (snd v)")
  case True
  then have "insert (fst v) M = M" using assms(3) by auto
  then show ?thesis using assms(1) True by (simp add: assign_node_def)
next
  case False
  have "held (set_ref (snd s) (snd v) h) (insert (fst v) M)" by (rule held_same [OF _ assms(1)]) simp
  then show ?thesis using False assms(2) by (simp add: assign_node_def held_merge)
qed

lemma held_assign_null:
  assumes "held h M" and "heap_ok h" and "fst s \<in> M" and "snd s < lim h"
  shows "held (assign_null s h) M"
proof -
  obtain h1 v where 1: "new_handle h = (h1, v)" by (cases "new_handle h")
  note r = ref_new_handle [OF 1]
  have "node_ref h (snd s) < lim h" using heap_okD(1) [OF assms(2,4)] by (simp add: node_ref_def)
  then have "\<not> nd_is h1 (snd s) (snd v)"
    using r assms(4) by (simp add: nd_is_def node_ref_def [abs_def] fun_eq_iff)
  then show ?thesis
    using held_assign [OF held_new_handle [OF assms(1) 1] assms(3)] by (simp add: assign_null_def 1)
qed

lemma held_assign_data:
  assumes "held h M" and "fst s \<in> M"
  shows "held (assign_data s str h) M"
proof -
  obtain h1 t where 1: "new_holder h = (h1, t)" by fastforce
  obtain h2 n where 2: "create_node t h1 = (h2, n)" by fastforce
  have "held h2 (insert t M)" by (rule held_create [OF held_new_holder [OF assms(1) 1] 2]) simp
  then have "held (set_data (snd s) n (nd_set_scalar n str h2)) (insert t M)" by (rule held_same [rotated]) simp
  then show ?thesis using assms(2) by (simp add: assign_data_def 1 2 held_merge)
qed

section \<open>The builder\<close>

text \<open>A builder at work from the heap \<open>h0\<close> on: with its own memory every node is held, its
  nodes are new and each is its own reference.\<close>

definition grown :: "yheap \<Rightarrow> nat set \<Rightarrow> yheap \<times> nbuilder \<Rightarrow> bool" where
  "grown h0 M s \<longleftrightarrow> held (fst s) (insert (b_memory (snd s)) M)
     \<and> lim h0 \<le> lim (fst s)
     \<and> node_ref (fst s) = (\<lambda>x. if lim h0 \<le> x \<and> x < lim (fst s) then x else node_ref h0 x)
     \<and> (\<forall>n. n \<in> set (m_stack (snd s)) \<or> Some n \<in> set (m_anchors (snd s)) \<or> m_pRoot (snd s) = Some n \<longrightarrow>
          lim h0 \<le> n \<and> n < lim (fst s))"

lemma grown_same:
  "memory h' = memory h \<Longrightarrow> node_ref h' = node_ref h \<Longrightarrow> grown h0 M (h, b) \<Longrightarrow> grown h0 M (h', b)"
  using held_same [of h' h] by (simp add: grown_def memory_def)

lemma grown_cong:
  "grown h0 M (h, b) \<Longrightarrow> b_memory b' = b_memory b \<Longrightarrow> set (m_stack b') \<subseteq> set (m_stack b) \<Longrightarrow>
     m_anchors b' = m_anchors b \<Longrightarrow> m_pRoot b' = m_pRoot b \<Longrightarrow> grown h0 M (h, b')"
  by (auto simp: grown_def)

lemma grown_new:
  assumes "held h M" and "new_builder h = (h1, b)"
  shows "grown h M (h1, b)"
proof -
  obtain h2 m where 1: "new_holder h = (h2, m)" by fastforce
  show ?thesis using assms(2) held_new_holder [OF assms(1) 1] ref_new_holder [OF 1]
    by (auto simp: new_builder_def 1 grown_def)
qed

lemma grown_push:
  "grown h0 M (h, b) \<Longrightarrow> lim h0 \<le> n \<and> n < lim h \<Longrightarrow> grown h0 M (h, b_push h' n b)"
  by (auto simp: grown_def b_push_def Let_def)

lemma grown_push_new:
  assumes "grown h0 M (h, b)" and "b_push_new a (h, b) = (h1, b1, n)"
  shows "grown h0 M (h1, b1)"
proof -
  have c: "create_node (b_memory b) h = (h1, n)" and b1: "b1 = b_push h1 n (b_register a n b)"
    using assms(2) by (simp_all add: b_push_new_def split: prod.splits)
  have n: "n = lim h" "lim h1 = Suc (lim h)" using c by (auto simp: create_node_def)
  have "held h1 (insert (b_memory b) M)" by (rule held_create [OF _ c]) (use assms(1) in \<open>simp_all add: grown_def\<close>)
  then have "grown h0 M (h1, b_register a n b)"
    using assms(1) ref_create [OF c] n by (auto simp: grown_def b_register_def fun_eq_iff less_Suc_eq)
  then show ?thesis unfolding b1 using assms(1) n by (intro grown_push) (auto simp: grown_def)
qed

lemma insert_map_same:
  "nd_type h c = NMap \<Longrightarrow> nd_insert m c k v h = Inr h' \<Longrightarrow> memory h' = memory h \<and> node_ref h' = node_ref h"
  by (auto simp: nd_insert_def Let_def nd_convert_to_map_def nd_type_def split: if_splits)

lemma grown_pop:
  assumes g: "grown h0 M (h, b)"
  shows "grown h0 M (b_pop (h, b))"
proof (cases "m_stack b")
  case Nil
  then show ?thesis using g by (simp add: b_pop_def)
next
  case (Cons n st)
  show ?thesis
  proof (cases st)
    case Nil
    then show ?thesis using Cons g by (auto simp: b_pop_def grown_def)
  next
    case st: (Cons c st')
    let ?b = "b\<lparr>m_stack := c # st'\<rparr>"
    have drop: "grown h0 M (h, b')" if "b_memory b' = b_memory b" "set (m_stack b') \<subseteq> set (c # st')"
      "m_anchors b' = m_anchors b" "m_pRoot b' = m_pRoot b" for b'
      by (rule grown_cong [OF g]) (use that Cons st in auto)
    have step: "grown h0 M (h', b')" if "memory h' = memory h" "node_ref h' = node_ref h" "b_memory b' = b_memory b"
      "set (m_stack b') \<subseteq> set (c # st')" "m_anchors b' = m_anchors b" "m_pRoot b' = m_pRoot b" for h' b'
      by (rule grown_same [OF that(1,2) drop]) (use that in auto)
    consider "nd_type h c = NSequence" | "nd_type h c = NMap" | "nd_type h c \<noteq> NSequence" "nd_type h c \<noteq> NMap"
      by blast
    then show ?thesis
    proof cases
      case 1
      show ?thesis
      proof (cases "nd_push_back c n h")
        case (Inr h')
        then show ?thesis using 1 Cons st step [OF memory_push_back ref_push_back] by (simp add: b_pop_def)
      qed (use 1 Cons st drop in \<open>simp add: b_pop_def\<close>)
    next
      case 2
      show ?thesis
      proof (cases "m_keys b")
        case Nil
        then show ?thesis using 2 Cons st drop by (simp add: b_pop_def)
      next
        case keys: (Cons p ks)
        obtain k dn where p: "p = (k, dn)" by fastforce
        show ?thesis
        proof (cases "nd_insert (b_memory b) c k n h")
          case (Inr h')
          then show ?thesis using 2 Cons st keys p insert_map_same [OF 2 Inr] step drop
            by (cases dn) (simp_all add: b_pop_def)
        qed (use 2 Cons st keys p drop in \<open>cases dn; simp add: b_pop_def\<close>)
      qed
    next
      case 3
      then show ?thesis using Cons st drop by (simp add: b_pop_def)
    qed
  qed
qed

lemma grown_event:
  assumes g: "grown h0 M (h, b)" and al: "\<forall>a. e = EvAlias a \<longrightarrow> a < length (m_anchors b)"
  shows "grown h0 M (b_event e (h, b))"
proof -
  have leaf: "grown h0 M (b_pop (f n h1, b1))"
    if "b_push_new a (h, b) = (h1, b1, n)" "memory (f n h1) = memory h1" "node_ref (f n h1) = node_ref h1"
    for f :: "nat \<Rightarrow> yheap \<Rightarrow> yheap" and a h1 b1 n
    by (rule grown_pop [OF grown_same [OF that(2,3) grown_push_new [OF g that(1)]]])
  have opened: "grown h0 M (nd_set_type n t h1, b2)"
    if "b_push_new a (h, b) = (h1, b1, n)" "b_memory b2 = b_memory b1" "set (m_stack b2) \<subseteq> set (m_stack b1)"
      "m_anchors b2 = m_anchors b1" "m_pRoot b2 = m_pRoot b1" for a h1 b1 b2 n t
    by (rule grown_cong [OF grown_same [OF _ _ grown_push_new [OF g that(1)]] that(2-5)]) simp_all
  show ?thesis
  proof (cases e)
    case (EvNull a)
    obtain h1 b1 n where p: "b_push_new a (h, b) = (h1, b1, n)" by (metis prod.exhaust)
    then show ?thesis using leaf [OF p, of nd_set_null] EvNull by (simp add: b_event_def)
  next
    case (EvScalar a s)
    obtain h1 b1 n where p: "b_push_new a (h, b) = (h1, b1, n)" by (metis prod.exhaust)
    then show ?thesis using leaf [OF p, of "\<lambda>n. nd_set_scalar n s"] EvScalar by (simp add: b_event_def)
  next
    case (EvAlias a)
    show ?thesis
    proof (cases "m_anchors b ! a")
      case (Some n)
      then have "Some n \<in> set (m_anchors b)" using al EvAlias nth_mem by metis
      then have "lim h0 \<le> n \<and> n < lim h" using g by (auto simp: grown_def)
      then show ?thesis using EvAlias Some grown_pop [OF grown_push [OF g]] by (simp add: b_event_def)
    qed (use EvAlias g in \<open>simp add: b_event_def\<close>)
  next
    case (EvSeqStart a)
    obtain h1 b1 n where p: "b_push_new a (h, b) = (h1, b1, n)" by (metis prod.exhaust)
    then show ?thesis using opened [OF p] EvSeqStart by (simp add: b_event_def)
  next
    case (EvMapStart a)
    obtain h1 b1 n where p: "b_push_new a (h, b) = (h1, b1, n)" by (metis prod.exhaust)
    then show ?thesis using opened [OF p] EvMapStart by (simp add: b_event_def)
  next
    case EvMapEnd
    have "grown h0 M (h, b\<lparr>m_mapDepth := m_mapDepth b - 1\<rparr>)" by (rule grown_cong [OF g]) simp_all
    then show ?thesis using EvMapEnd grown_pop by (simp add: b_event_def)
  qed (use g grown_pop [OF g] in \<open>simp_all add: b_event_def\<close>)
qed

end
