(* ===== verification/YamlSystem.thy ===== *)
theory YamlSystem
  imports YamlMemory
begin

text \<open>
  The access layer as a whole: a client that runs any sequence of operations on the
  handles it obtained, catching what they throw.  Whatever the handles share, cycles
  included, every handle points to a defined node of a well-formed heap, and every node
  is owned by the memory of a handle.
\<close>

section \<open>Operations of a client\<close>

text \<open>The client keeps a copy of every handle it obtains and names it by its place in the
  list of these.  \<open>OOpen\<close> is the constructor of \<open>YamlNode\<close> from a path; \<open>OLoad\<close> is \<open>loadFile\<close>
  into a copy of a handle, the new value of which joins the list; \<open>OSave\<close> is \<open>saveAsFile\<close>,
  whose answer holds the files.\<close>

datatype yop =
    ONew
  | OOpen string
  | OLoad nat string
  | OGet nat string
  | OIndex nat nat
  | OSize nat
  | OAdd nat string nat
  | OPush nat nat
  | OSet nat string aval
  | OSetDef nat string aval
  | OSetNull nat string
  | OSetNullDef nat string
  | OGetDef nat string aval
  | OSave nat string

datatype yout = OUnit | OBool bool | ONat nat | OVal aval | OFiles files

type_synonym yclient = "yheap \<times> yhand list"

definition used_handles :: "yop \<Rightarrow> nat list" where
  "used_handles op = (case op of
      ONew \<Rightarrow> []
    | OOpen _ \<Rightarrow> []
    | OLoad i _ \<Rightarrow> [i]
    | OGet i _ \<Rightarrow> [i]
    | OIndex i _ \<Rightarrow> [i]
    | OSize i \<Rightarrow> [i]
    | OAdd i _ j \<Rightarrow> [i, j]
    | OPush i j \<Rightarrow> [i, j]
    | OSet i _ _ \<Rightarrow> [i]
    | OSetDef i _ _ \<Rightarrow> [i]
    | OSetNull i _ \<Rightarrow> [i]
    | OSetNullDef i _ \<Rightarrow> [i]
    | OGetDef i _ _ \<Rightarrow> [i]
    | OSave i _ \<Rightarrow> [i])"

text \<open>An operation that returns a handle, and one that returns a value.\<close>

definition gives :: "yhand list \<Rightarrow> yhand yres \<Rightarrow> (yexn + yout) \<times> yclient" where
  "gives R x = (case x of (Inl e, h) \<Rightarrow> (Inl e, h, R) | (Inr r, h) \<Rightarrow> (Inr OUnit, h, R @ [r]))"

definition keeps :: "yhand list \<Rightarrow> ('a \<Rightarrow> yout) \<Rightarrow> 'a yres \<Rightarrow> (yexn + yout) \<times> yclient" where
  "keeps R f x = (case x of (Inl e, h) \<Rightarrow> (Inl e, h, R) | (Inr a, h) \<Rightarrow> (Inr (f a), h, R))"

text \<open>The answer and the state, or \<open>None\<close> if writing a node out does not come to an end.\<close>

definition client_exec ::
  "(string \<Rightarrow> string + yevent list option) \<Rightarrow> (yevent list \<Rightarrow> string) \<Rightarrow> (string \<Rightarrow> bool) \<Rightarrow> files \<Rightarrow> yop
     \<Rightarrow> yclient \<Rightarrow> ((yexn + yout) \<times> yclient) option" where
  "client_exec parse render writable fs op s = (case s of (h, R) \<Rightarrow> (case op of
      ONew \<Rightarrow> Some (gives R (hs_fresh h))
    | OOpen path \<Rightarrow> Some (gives R (hs_load_file parse fs path h))
    | OLoad i path \<Rightarrow> (case hs_load_node parse fs (R ! i) path h of
          ((b, v), h) \<Rightarrow> Some (Inr (OBool b), h, R @ [v]))
    | OGet i key \<Rightarrow> Some (gives R (hs_get_node (R ! i) key h))
    | OIndex i k \<Rightarrow> Some (gives R (hs_get_sequence_node (R ! i) k h))
    | OSize i \<Rightarrow> Some (keeps R ONat (case nd_size (snd (R ! i)) h of (h, k) \<Rightarrow> (Inr k, h)))
    | OAdd i key j \<Rightarrow> Some (keeps R (\<lambda>_. OUnit) (hs_add_node (R ! i) key (R ! j) h))
    | OPush i j \<Rightarrow> Some (keeps R (\<lambda>_. OUnit) (hs_push_back (R ! i) (R ! j) h))
    | OSet i key a \<Rightarrow> Some (keeps R (\<lambda>_. OUnit) (hs_set (R ! i) key a h))
    | OSetDef i key a \<Rightarrow> Some (keeps R OBool (hs_set_def (R ! i) key a h))
    | OSetNull i key \<Rightarrow> Some (keeps R (\<lambda>_. OUnit) (hs_set_null (R ! i) key h))
    | OSetNullDef i key \<Rightarrow> Some (keeps R OBool (hs_set_null_def (R ! i) key h))
    | OGetDef i key d \<Rightarrow> Some (keeps R OVal (hs_get_def (R ! i) key d h, h))
    | OSave i path \<Rightarrow>
        map_option (\<lambda>x. (case x of Inl e \<Rightarrow> Inl e | Inr fs \<Rightarrow> Inr (OFiles fs), h, R))
          (hs_save_as_file render writable fs (R ! i) path h)))"

text \<open>The states a client can reach: operations on handles it obtained, over files that
  may change in between.  It keeps its handles: one that is dropped can leave another with
  a pointer to a freed node, see \<open>push_back_orphans\<close> below.\<close>

inductive client_reach ::
  "(string \<Rightarrow> string + yevent list option) \<Rightarrow> (yevent list \<Rightarrow> string) \<Rightarrow> yclient \<Rightarrow> bool"
  for parse render where
  reach_start: "client_reach parse render (empty_heap, [])"
| reach_op: "client_reach parse render s \<Longrightarrow> \<forall>i \<in> set (used_handles op). i < length (snd s) \<Longrightarrow>
    client_exec parse render writable fs op s = Some (x, s') \<Longrightarrow> client_reach parse render s'"

text \<open>What the parser promises of a document's events: anchors are numbered in the
  order of their appearance and an alias names one that was seen.\<close>

definition parser_ok :: "(string \<Rightarrow> string + yevent list option) \<Rightarrow> bool" where
  "parser_ok parse \<longleftrightarrow> (\<forall>text es. parse text = Inr (Some es) \<longrightarrow> anchors_ok 0 es)"

section \<open>Nodes\<close>

lemma convert_okstep:
  assumes ok: "heap_ok h" and n: "n < lim h" "nd_is_defined h n"
  shows "okstep h (nd_convert_to_map m n h) {data_addr h n}"
proof -
  have c: "okstep h (upd_data n (\<lambda>d. (reset_map d)\<lparr>m_type := NMap\<rparr>) h) {data_addr h n}"
    by (rule okstep_upd_defined [OF ok n(1)])
       (use n(2) in \<open>auto simp: nd_is_defined_def data_ok_def reset_map_def\<close>)
  have "okstep h (nd_seq_to_map m n h) {data_addr h n}"
  proof -
    note L = seq_loop_of_rep [OF ok n, where m = m]
    let ?h2 = "seq_to_map_loop m n 0 (m_sequence (data_of h n)) (upd_data n reset_map h)"
    have a: "data_addr ?h2 n = data_addr h n" using L(3) n(1) by blast
    have "okstep ?h2 (upd_data n (\<lambda>d. (reset_sequence d)\<lparr>m_type := NMap\<rparr>) ?h2) {data_addr ?h2 n}"
      by (rule okstep_upd_defined [OF okstepD(1) [OF L(1)] okstepD(4) [OF L(1) n(1)]])
         (use okstepD(5) [OF L(1) n] in \<open>auto simp: nd_is_defined_def data_ok_def reset_sequence_def\<close>)
    then show ?thesis unfolding nd_seq_to_map_def a by (rule okstep_trans [OF L(1)]) simp
  qed
  then show ?thesis using c ok by (simp add: nd_convert_to_map_def okstep_refl split: ntype.split)
qed

lemma nd_get_okstep:
  assumes ok: "heap_ok h" and n: "n < lim h" "nd_is_defined h n" and g: "nd_get m n key h = Inr (h', s)"
  shows "okstep h h' {data_addr h n}" "s < lim h'" "m_type (data_of h' n) = NMap"
proof -
  let ?h1 = "nd_convert_to_map m n h"
  note s1 = convert_okstep [OF ok n, of m]
  note ok1 = okstepD(1) [OF s1] and n1 = okstepD(4) [OF s1 n(1)] okstepD(5) [OF s1 n]
  have a1: "data_addr ?h1 n = data_addr h n"
  proof (cases "m_type (data_of h n) = NSequence")
    case True
    have "\<forall>x < lim h. data_addr ?h1 x = data_addr h x"
      using seq_loop_of_rep(3) [OF ok n, where m = m] True by (simp add: nd_convert_to_map_def nd_seq_to_map_def)
    then show ?thesis using n(1) by blast
  qed (simp add: nd_convert_to_map_def split: ntype.split)
  have t1: "m_type (data_of ?h1 n) = NMap"
  proof (cases "m_type (data_of h n)")
    case NScalar
    then show ?thesis using g by (simp add: nd_get_def)
  qed (simp_all add: nd_convert_to_map_def nd_seq_to_map_def data_of_upd_data)
  have "okstep h h' {data_addr h n} \<and> s < lim h' \<and> m_type (data_of h' n) = NMap"
  proof (cases "key_find ?h1 key (m_map (data_of ?h1 n))")
    case (Some v)
    have e: "h' = add_dependency v n ?h1" "s = v" using g Some by (auto simp: nd_get_def split: if_splits)
    note q = add_dependency_step [OF ok1 n1, of v]
    have "v < lim ?h1" using key_find_mem [OF Some] heap_okD(5) [OF ok1 n1(1)] by (auto simp: data_ok_def)
    then show ?thesis using okstep_trans [OF s1 q(1)] q(3,4) t1 e by simp
  next
    case None
    obtain h2 k where 2: "convert_to_node m key ?h1 = (h2, k)" by fastforce
    obtain h3 v where 3: "create_node m h2 = (h3, v)" by fastforce
    have e: "h' = add_dependency v n (insert_map_pair n k v h3)" "s = v"
      using g None 2 3 by (auto simp: nd_get_def split: if_splits)
    note w = new_slot [OF ok1 n1 2 3]
    show ?thesis using okstep_trans [OF s1 w(1)] a1 rep_lim [OF w(6)] w(4) t1 e by simp
  qed
  then show "okstep h h' {data_addr h n}" "s < lim h'" "m_type (data_of h' n) = NMap" by simp_all
qed

lemma nd_get_error: "nd_get m n key h = Inl e \<Longrightarrow> e = BadSubscript key \<and> m_type (data_of h n) = NScalar"
  by (auto simp: nd_get_def Let_def split: if_splits option.splits prod.splits)

lemma assign_node_okstep:
  assumes ok: "heap_ok h" and s: "s < lim h" and v: "v < lim h" "nd_is_defined h v"
  shows "okstep h (assign_node (m, s) (m', v) h) {data_addr h s}"
proof (cases "nd_is h s v")
  case False
  note w = set_ref_step [OF ok s v]
  show ?thesis using okstep_trans [OF w(1) okstep_merge [OF okstepD(1) [OF w(1)], of m m']] False
    by (simp add: assign_node_def)
qed (simp add: assign_node_def okstep_refl ok)

lemma seq_start_okstep:
  assumes ok: "heap_ok h" and n: "n < lim h" "nd_is_defined h n"
  shows "okstep h (seq_start n h) {data_addr h n}"
proof -
  have "okstep h (upd_data n (\<lambda>d. reset_sequence (d\<lparr>m_type := NSequence\<rparr>)) h) {data_addr h n}"
    by (rule okstep_upd_defined [OF ok n(1)])
       (use n(2) in \<open>auto simp: nd_is_defined_def data_ok_def reset_sequence_def\<close>)
  then show ?thesis by (simp add: seq_start_def okstep_refl ok)
qed

lemma nd_push_back_okstep:
  assumes ok: "heap_ok h" and n: "n < lim h" "nd_is_defined h n" and v: "v < lim h" "nd_is_defined h v"
    and p: "nd_push_back n v h = Inr h'"
  shows "okstep h h' {data_addr h n}"
proof -
  let ?h1 = "seq_start n h"
  have s1: "okstep h ?h1 {data_addr h n}" by (rule seq_start_okstep [OF ok n])
  have ty: "m_type (data_of ?h1 n) = NSequence"
    using p by (auto simp: nd_push_back_def seq_start_def Let_def split: if_splits)
  note ap = append_step [OF okstepD(1) [OF s1] okstepD(4) [OF s1 n(1)] okstepD(5) [OF s1 n] ty
      okstepD(4) [OF s1 v(1)] okstepD(5) [OF s1 v]]
  have e: "h' = (let h1 = add_dependency v n (upd_data n (\<lambda>d. d\<lparr>m_sequence := m_sequence d @ [v]\<rparr>) ?h1)
      in upd_node n (\<lambda>x. x\<lparr>m_index := m_amount h1\<rparr>) (h1\<lparr>m_amount := Suc (m_amount h1)\<rparr>))"
    using p ty by (auto simp: nd_push_back_def seq_start_def Let_def split: if_splits)
  have "data_addr ?h1 n = data_addr h n" by (simp add: seq_start_def)
  then show ?thesis using okstep_trans [OF s1 ap(1)] e by (simp add: Let_def)
qed

lemma nd_push_back_error:
  "nd_push_back n v h = Inl e \<Longrightarrow> e = BadPushback \<and> m_type (data_of h n) \<in> {NScalar, NMap}"
  by (cases "m_type (data_of h n)") (auto simp: nd_push_back_def Let_def reset_sequence_def data_of_upd_data split: if_splits)

lemma nd_size_okstep:
  assumes ok: "heap_ok h" and n: "n < lim h" and z: "nd_size n h = (h', k)"
  shows "okstep h h' {}"
proof -
  note dk = heap_okD(5) [OF ok n]
  have 1: "okstep h (upd_data n (compute_seq_size h) h) {}"
    by (rule okstep_cache [OF ok n]) (use seq_size_data [OF dk] in \<open>simp_all add: compute_seq_size_def\<close>)
  have 2: "okstep h (upd_data n (compute_map_size h) h) {}"
    by (rule okstep_cache [OF ok n]) (use map_size_data [OF dk] in \<open>simp_all add: compute_map_size_def\<close>)
  show ?thesis using z 1 2 okstep_refl [OF ok]
    by (auto simp: nd_size_def Let_def split: if_splits ntype.splits)
qed

section \<open>Handles\<close>

text \<open>What an operation leaves, whatever it answers.\<close>

definition safe :: "yheap \<Rightarrow> 'a yres \<Rightarrow> bool" where
  "safe h x \<longleftrightarrow> heap_ok (snd x) \<and> grows h (snd x)"

definition safe_handle :: "yheap \<Rightarrow> yhand yres \<Rightarrow> bool" where
  "safe_handle h x \<longleftrightarrow> safe h x \<and> (\<forall>r. fst x = Inr r \<longrightarrow> handle_ok (snd x) r)"

lemma safe_okstep: "okstep h h' D \<Longrightarrow> safe h (x, h')"
  by (simp add: safe_def okstep_def hstep_def)

lemma fresh_safe:
  assumes "heap_ok h" and "grows h0 h"
  shows "safe_handle h0 (hs_fresh h)"
proof -
  obtain h1 m v where n: "new_handle h = (h1, (m, v))" by (metis prod.exhaust)
  note w = new_handle_step [OF assms(1) n]
  have "grows h0 h1" using grows_trans [OF assms(2) hstep_grows [OF okstepD(2) [OF w(1)]]] .
  then show ?thesis using okstepD(1) [OF w(1)] w(2,4,5)
    by (simp add: safe_handle_def safe_def hs_fresh_def n handle_ok_def)
qed

lemma get_const_lim:
  assumes "heap_ok h" and "n < lim h" and "nd_get_const h n key = Inr (Some v)"
  shows "v < lim h"
proof -
  have "key_find h key (m_map (data_of h n)) = Some v"
    using assms(3) by (simp add: nd_get_const_def split: ntype.splits)
  then show ?thesis using key_find_mem heap_okD(5) [OF assms(1,2)] by (fastforce simp: data_ok_def)
qed

lemma get_node_safe:
  assumes "heap_ok h" and "handle_ok h r"
  shows "safe_handle h (hs_get_node r key h)"
proof -
  have l: "snd r < lim h" using assms(2) by (simp add: handle_ok_def)
  have f: "safe_handle h (hs_fresh h)" by (rule fresh_safe [OF assms(1) grows_refl])
  show ?thesis
    using get_const_lim [OF assms(1) l, of key] f assms(1)
    by (auto simp: hs_get_node_def safe_handle_def safe_def handle_ok_def split: sum.splits option.splits)
qed

lemma get_sequence_node_safe:
  assumes ok: "heap_ok h" and "handle_ok h r"
  shows "safe_handle h (hs_get_sequence_node r i h)"
proof -
  have l: "snd r < lim h" using assms(2) by (simp add: handle_ok_def)
  obtain h1 k where z: "nd_size (snd r) h = (h1, k)" by fastforce
  note s = nd_size_okstep [OF ok l z]
  have l1: "snd r < lim h1" by (rule okstepD(4) [OF s l])
  have v: "v < lim h1" if "seq_index h1 (snd r) i = Some v" for v
    using that heap_okD(5) [OF okstepD(1) [OF s] l1]
    by (auto simp: seq_index_def data_ok_def Let_def split: if_splits)
  have f: "safe_handle h (hs_fresh h1)" by (rule fresh_safe [OF okstepD(1) [OF s] hstep_grows [OF okstepD(2) [OF s]]])
  have f0: "safe_handle h (hs_fresh h)" by (rule fresh_safe [OF ok grows_refl])
  show ?thesis
    using v f f0 okstepD(1) [OF s] hstep_grows [OF okstepD(2) [OF s]]
    by (auto simp: hs_get_sequence_node_def z safe_handle_def safe_def handle_ok_def split: option.splits)
qed

lemma add_node_safe:
  assumes ok: "heap_ok h" and r: "handle_ok h r" and v: "handle_ok h v"
  shows "safe h (hs_add_node r key v h)"
proof (cases "nd_get (fst r) (snd r) key h")
  case (Inl e)
  then show ?thesis using ok by (simp add: hs_add_node_def safe_def)
next
  case (Inr p)
  obtain h1 s where p: "p = (h1, s)" by fastforce
  have n: "snd r < lim h" "nd_is_defined h (snd r)" and w: "snd v < lim h" "nd_is_defined h (snd v)"
    using r v by (simp_all add: handle_ok_def)
  note g = nd_get_okstep [OF ok n Inr [unfolded p]]
  note a = assign_node_okstep [OF okstepD(1) [OF g(1)] g(2) okstepD(4) [OF g(1) w(1)] okstepD(5) [OF g(1) w],
      of "fst r" "fst v"]
  have "okstep h (assign_node (fst r, s) v h1) UNIV" using okstep_trans [OF g(1) a] by simp
  then show ?thesis using Inr p n w by (simp add: hs_add_node_def safe_okstep)
qed

lemma push_back_safe:
  assumes ok: "heap_ok h" and r: "handle_ok h r" and v: "handle_ok h v"
  shows "safe h (hs_push_back r v h)"
proof (cases "nd_push_back (snd r) (snd v) h")
  case (Inl e)
  then show ?thesis using ok by (simp add: hs_push_back_def safe_def)
next
  case (Inr h1)
  have n: "snd r < lim h" "nd_is_defined h (snd r)" and w: "snd v < lim h" "nd_is_defined h (snd v)"
    using r v by (simp_all add: handle_ok_def)
  note p = nd_push_back_okstep [OF ok n w Inr]
  have "okstep h (mem_merge (fst r) (fst v) h1) UNIV"
    using okstep_trans [OF p okstep_merge [OF okstepD(1) [OF p]]] by simp
  then show ?thesis using Inr n w by (simp add: hs_push_back_def safe_okstep)
qed

lemma write_safe:
  assumes ok: "heap_ok h" and r: "handle_ok h r"
  shows "safe h (hs_write r key a h)"
proof (cases "encode_any a")
  case None
  then show ?thesis using ok by (simp add: hs_write_def safe_def)
next
  case (Some str)
  show ?thesis
  proof (cases "nd_get (fst r) (snd r) key h")
    case (Inl e)
    then show ?thesis using ok Some by (simp add: hs_write_def safe_def)
  next
    case (Inr p)
    obtain h1 s where p: "p = (h1, s)" by fastforce
    have n: "snd r < lim h" "nd_is_defined h (snd r)" using r by (simp_all add: handle_ok_def)
    note g = nd_get_okstep [OF ok n Inr [unfolded p]]
    note a = assign_string_step(1) [OF okstepD(1) [OF g(1)] g(2), of "fst r" str]
      assign_data_step(1) [OF okstepD(1) [OF g(1)] g(2), of "fst r" str]
    have "okstep h (assign_string (fst r, s) str h1) UNIV" "okstep h (assign_data (fst r, s) str h1) UNIV"
      using okstep_trans [OF g(1) a(1)] okstep_trans [OF g(1) a(2)] by simp_all
    then show ?thesis using Some Inr p safe_okstep by (auto simp: hs_write_def split: aval.split)
  qed
qed

lemma set_safe: "heap_ok h \<Longrightarrow> handle_ok h r \<Longrightarrow> safe h (hs_set r key a h)"
  using write_safe by (simp add: hs_set_def handle_ok_def)

lemma safe_trans: "grows h h1 \<Longrightarrow> safe h1 x \<Longrightarrow> safe h x"
  using grows_trans by (auto simp: safe_def)

lemma set_def_safe:
  assumes ok: "heap_ok h" and r: "handle_ok h r"
  shows "safe h (hs_set_def r key a h)"
proof (cases "nd_get (fst r) (snd r) key h")
  case (Inl e)
  then show ?thesis using ok by (simp add: hs_set_def_def safe_def)
next
  case (Inr p)
  obtain h1 s where p: "p = (h1, s)" by fastforce
  have n: "snd r < lim h" "nd_is_defined h (snd r)" using r by (simp_all add: handle_ok_def)
  note g = nd_get_okstep [OF ok n Inr [unfolded p]]
  have gr: "grows h h1" using hstep_grows [OF okstepD(2) [OF g(1)]] .
  have "safe h1 (hs_set r key a h1)" by (rule set_safe [OF okstepD(1) [OF g(1)] handle_ok_grows [OF r gr]])
  then have "safe h (hs_set r key a h1)" by (rule safe_trans [OF gr])
  then show ?thesis using Inr p okstepD(1) [OF g(1)] gr
    by (auto simp: hs_set_def_def safe_def split: sum.splits prod.splits)
qed

lemma set_null_safe:
  assumes ok: "heap_ok h" and r: "handle_ok h r"
  shows "safe h (hs_set_null r key h)"
proof (cases "nd_get (fst r) (snd r) key h")
  case (Inl e)
  then show ?thesis using ok by (simp add: hs_set_null_def safe_def)
next
  case (Inr p)
  obtain h1 s where p: "p = (h1, s)" by fastforce
  have n: "snd r < lim h" "nd_is_defined h (snd r)" using r by (simp_all add: handle_ok_def)
  note g = nd_get_okstep [OF ok n Inr [unfolded p]]
  have "okstep h (assign_null (fst r, s) h1) UNIV"
    using okstep_trans [OF g(1) assign_null_step(1) [OF okstepD(1) [OF g(1)] g(2), of "fst r"]] by simp
  then show ?thesis using Inr p by (simp add: hs_set_null_def safe_okstep)
qed

lemma set_null_def_safe:
  assumes ok: "heap_ok h" and r: "handle_ok h r"
  shows "safe h (hs_set_null_def r key h)"
proof (cases "nd_get (fst r) (snd r) key h")
  case (Inl e)
  then show ?thesis using ok by (simp add: hs_set_null_def_def safe_def)
next
  case (Inr p)
  obtain h1 s where p: "p = (h1, s)" by fastforce
  have n: "snd r < lim h" "nd_is_defined h (snd r)" using r by (simp_all add: handle_ok_def)
  note g = nd_get_okstep [OF ok n Inr [unfolded p]]
  have gr: "grows h h1" using hstep_grows [OF okstepD(2) [OF g(1)]] .
  have "safe h1 (hs_set_null r key h1)"
    by (rule set_null_safe [OF okstepD(1) [OF g(1)] handle_ok_grows [OF r gr]])
  then have "safe h (hs_set_null r key h1)" by (rule safe_trans [OF gr])
  then show ?thesis using Inr p okstepD(1) [OF g(1)] gr
    by (auto simp: hs_set_null_def_def hs_set_null_def safe_def split: sum.splits prod.splits if_splits)
qed

section \<open>Documents\<close>

definition builder_ok :: "yheap \<Rightarrow> nbuilder \<Rightarrow> bool" where
  "builder_ok h b \<longleftrightarrow> (\<forall>n. n \<in> set (m_stack b) \<union> fst ` set (m_keys b)
      \<or> Some n \<in> set (m_anchors b) \<or> m_pRoot b = Some n \<longrightarrow> n < lim h \<and> nd_is_defined h n)"

definition build_ok :: "yheap \<Rightarrow> yheap \<times> nbuilder \<Rightarrow> bool" where
  "build_ok h0 s \<longleftrightarrow> heap_ok (fst s) \<and> grows h0 (fst s) \<and> builder_ok (fst s) (snd s)"

lemma builder_grows: "builder_ok h b \<Longrightarrow> grows h h' \<Longrightarrow> builder_ok h' b"
  unfolding builder_ok_def by (meson grows_lim grows_defined)

lemma builder_push:
  "builder_ok h b \<Longrightarrow> n < lim h \<Longrightarrow> nd_is_defined h n \<Longrightarrow> builder_ok h (b_push h' n b)"
  by (auto simp: builder_ok_def b_push_def Let_def)

lemma builder_register:
  "builder_ok h b \<Longrightarrow> n < lim h \<Longrightarrow> nd_is_defined h n \<Longrightarrow> builder_ok h (b_register a n b)"
  by (auto simp: builder_ok_def b_register_def)

lemma build_ok_trans: "build_ok h s \<Longrightarrow> grows h0 h \<Longrightarrow> build_ok h0 s"
  using grows_trans by (auto simp: build_ok_def)

lemma builder_cong:
  "builder_ok h b \<Longrightarrow> set (m_stack b') \<subseteq> set (m_stack b) \<Longrightarrow> fst ` set (m_keys b') \<subseteq> fst ` set (m_keys b) \<Longrightarrow>
     m_anchors b' = m_anchors b \<Longrightarrow> m_pRoot b' = m_pRoot b \<Longrightarrow> builder_ok h b'"
  unfolding builder_ok_def by simp blast

lemma build_okI: "heap_ok h \<Longrightarrow> builder_ok h b \<Longrightarrow> build_ok h (h, b)"
  by (simp add: build_ok_def)

lemma build_ok_step:
  assumes "okstep h h' D" and "builder_ok h b"
  shows "build_ok h (h', b)"
  using okstepD(1,2) [OF assms(1)] builder_grows [OF assms(2)] hstep_grows
  by (simp add: build_ok_def)

lemma pop_ok:
  assumes ok: "heap_ok h" and b: "builder_ok h b"
  shows "build_ok h (b_pop (h, b))"
proof (cases "m_stack b")
  case Nil
  then show ?thesis using build_okI [OF ok b] by (simp add: b_pop_def)
next
  case (Cons n st)
  show ?thesis
  proof (cases st)
    case Nil
    then have "builder_ok h (b\<lparr>m_pRoot := Some n, m_stack := []\<rparr>)"
      using Cons b by (auto simp: builder_ok_def)
    then show ?thesis using Nil Cons build_okI [OF ok] by (simp add: b_pop_def)
  next
    case st: (Cons c st')
    let ?b = "b\<lparr>m_stack := c # st'\<rparr>"
    have n: "n < lim h" "nd_is_defined h n" and c: "c < lim h" "nd_is_defined h c"
      using b Cons st by (auto simp: builder_ok_def)
    have b': "builder_ok h ?b" by (rule builder_cong [OF b]) (use Cons st in auto)
    note done' = build_okI [OF ok b']
    consider "nd_type h c = NSequence" | "nd_type h c = NMap"
      | "nd_type h c \<noteq> NSequence" "nd_type h c \<noteq> NMap" by blast
    then show ?thesis
    proof cases
      case 1
      obtain h' where "nd_push_back c n h = Inr h'" "okstep h h' {data_addr h c}"
        using push_back_coll [OF ok c 1 n] .
      then show ?thesis using build_ok_step [OF _ b'] 1 Cons st by (simp add: b_pop_def)
    next
      case 2
      show ?thesis
      proof (cases "m_keys b")
        case Nil
        then show ?thesis using done' 2 Cons st by (simp add: b_pop_def)
      next
        case keys: (Cons p ks)
        obtain k dn where p: "p = (k, dn)" by fastforce
        have k: "k < lim h" "nd_is_defined h k" using b keys p by (force simp: builder_ok_def)+
        show ?thesis
        proof (cases dn)
          case True
          obtain h' where i: "nd_insert (b_memory b) c k n h = Inr h'" "okstep h h' {data_addr h c}"
            using insert_coll [OF ok c 2 k n] .
          have "builder_ok h (?b\<lparr>m_keys := ks\<rparr>)" by (rule builder_cong [OF b']) (use keys in auto)
          then show ?thesis using build_ok_step [OF i(2)] i(1) 2 Cons st keys p True
            by (simp add: b_pop_def)
        next
          case False
          have "builder_ok h (?b\<lparr>m_keys := (k, True) # ks\<rparr>)"
            by (rule builder_cong [OF b']) (use keys p in auto)
          then show ?thesis using build_okI [OF ok] 2 Cons st keys p False by (simp add: b_pop_def)
        qed
      qed
    next
      case 3
      have "builder_ok h (b\<lparr>m_stack := []\<rparr>)" by (rule builder_cong [OF b]) simp_all
      then show ?thesis using build_okI [OF ok] 3 Cons st by (simp add: b_pop_def)
    qed
  qed
qed

text \<open>An event that starts a node.\<close>

lemma push_new_ok:
  assumes ok: "heap_ok h" and b: "builder_ok h b"
    and f: "\<forall>h1 n. create_node (b_memory b) h = (h1, n) \<longrightarrow> okstep h (f n h1) {} \<and> n < lim (f n h1)
      \<and> nd_is_defined (f n h1) n"
    and p: "b_push_new a (h, b) = (h1, b1, n)"
  shows "build_ok h (f n h1, b1)" "heap_ok (f n h1)" "builder_ok (f n h1) b1"
    "length (m_anchors b1) = (if a = 0 then length (m_anchors b) else Suc (length (m_anchors b)))"
proof -
  have c: "create_node (b_memory b) h = (h1, n)" and b1: "b1 = b_push h1 n (b_register a n b)"
    using p by (simp_all add: b_push_new_def split: prod.splits)
  have s: "okstep h (f n h1) {}" and n: "n < lim (f n h1)" "nd_is_defined (f n h1) n"
    using f c by blast+
  have g: "grows h (f n h1)" using hstep_grows [OF okstepD(2) [OF s]] .
  show bo: "builder_ok (f n h1) b1"
    unfolding b1 by (intro builder_push builder_register builder_grows [OF b g] n)
  show "heap_ok (f n h1)" by (rule okstepD(1) [OF s])
  then show "build_ok h (f n h1, b1)" using bo g by (simp add: build_ok_def)
  show "length (m_anchors b1) = (if a = 0 then length (m_anchors b) else Suc (length (m_anchors b)))"
    by (simp add: b1 b_push_def b_register_def Let_def)
qed

lemma pop_anchors: "length (m_anchors (snd (b_pop (h, b)))) = length (m_anchors b)"
  by (simp add: b_pop_def Let_def split: list.split prod.split sum.split)

lemma leaf_event_ok:
  assumes ok: "heap_ok h" and b: "builder_ok h b"
    and f: "\<forall>h1 n. create_node (b_memory b) h = (h1, n) \<longrightarrow> okstep h (f n h1) {} \<and> n < lim (f n h1)
      \<and> nd_is_defined (f n h1) n"
    and e: "b_event e (h, b) = (case b_push_new a (h, b) of (h, b, n) \<Rightarrow> b_pop (f n h, b))"
  shows "build_ok h (b_event e (h, b)) \<and> length (m_anchors (snd (b_event e (h, b))))
    = (if a = 0 then length (m_anchors b) else Suc (length (m_anchors b)))"
proof -
  obtain h1 b1 n where p: "b_push_new a (h, b) = (h1, b1, n)" by (metis prod.exhaust)
  note w = push_new_ok [where f = f, OF ok b f p]
  have "build_ok h (b_pop (f n h1, b1))"
    by (rule build_ok_trans [OF pop_ok [OF w(2,3)]]) (use w(1) in \<open>simp add: build_ok_def\<close>)
  then show ?thesis using e p pop_anchors [of "f n h1" b1] w(4) by simp
qed

definition anchors_after :: "yevent \<Rightarrow> nat \<Rightarrow> nat" where
  "anchors_after e k = (if ev_anchor e = 0 then k else Suc k)"

lemma event_ok:
  assumes ok: "heap_ok h" and b: "builder_ok h b"
    and al: "\<forall>a. e = EvAlias a \<longrightarrow> a < length (m_anchors b)"
  shows "build_ok h (b_event e (h, b))
    \<and> length (m_anchors (snd (b_event e (h, b)))) = anchors_after e (length (m_anchors b))"
proof (cases e)
  case (EvNull a)
  have "\<forall>h1 n. create_node (b_memory b) h = (h1, n) \<longrightarrow> okstep h (nd_set_null n h1) {}
      \<and> n < lim (nd_set_null n h1) \<and> nd_is_defined (nd_set_null n h1) n"
    using fresh_null_node [OF ok] rep_lim by blast
  note w = leaf_event_ok [where f = nd_set_null and e = "EvNull a" and a = a, OF ok b this]
  have "b_event (EvNull a) (h, b) = (case b_push_new a (h, b) of (h, b, n) \<Rightarrow> b_pop (nd_set_null n h, b))"
    by (simp add: b_event_def)
  from w [OF this] show ?thesis using EvNull by (simp add: anchors_after_def ev_anchor_def)
next
  case (EvScalar a s)
  have "\<forall>h1 n. create_node (b_memory b) h = (h1, n) \<longrightarrow> okstep h (nd_set_scalar n s h1) {}
      \<and> n < lim (nd_set_scalar n s h1) \<and> nd_is_defined (nd_set_scalar n s h1) n"
    using fresh_scalar_node [OF ok] rep_lim by blast
  note w = leaf_event_ok [where f = "\<lambda>n. nd_set_scalar n s" and e = "EvScalar a s" and a = a, OF ok b this]
  have "b_event (EvScalar a s) (h, b) = (case b_push_new a (h, b) of (h, b, n) \<Rightarrow> b_pop (nd_set_scalar n s h, b))"
    by (simp add: b_event_def)
  from w [OF this] show ?thesis using EvScalar by (simp add: anchors_after_def ev_anchor_def)
next
  case (EvAlias a)
  show ?thesis
  proof (cases "m_anchors b ! a")
    case None
    then show ?thesis using EvAlias build_okI [OF ok b]
      by (simp add: b_event_def anchors_after_def ev_anchor_def)
  next
    case (Some n)
    then have "Some n \<in> set (m_anchors b)" using al EvAlias nth_mem by metis
    then have n: "n < lim h" "nd_is_defined h n" using b by (auto simp: builder_ok_def)
    have "length (m_anchors (b_push h n b)) = length (m_anchors b)" by (simp add: b_push_def Let_def)
    then show ?thesis
      using EvAlias Some pop_ok [OF ok builder_push [OF b n, of h]] pop_anchors [of h "b_push h n b"]
      by (simp add: b_event_def anchors_after_def ev_anchor_def)
  qed
next
  case (EvSeqStart a)
  have f: "\<forall>h1 n. create_node (b_memory b) h = (h1, n) \<longrightarrow> okstep h (nd_set_type n NSequence h1) {}
      \<and> n < lim (nd_set_type n NSequence h1) \<and> nd_is_defined (nd_set_type n NSequence h1) n"
    using fresh_collection(1,3,4) [OF ok, of _ _ _ NSequence] by simp
  obtain h1 b1 n where p: "b_push_new a (h, b) = (h1, b1, n)" by (metis prod.exhaust)
  from push_new_ok [where f = "\<lambda>n. nd_set_type n NSequence", OF ok b f p] show ?thesis
    using EvSeqStart p by (simp add: b_event_def anchors_after_def ev_anchor_def)
next
  case (EvMapStart a)
  have f: "\<forall>h1 n. create_node (b_memory b) h = (h1, n) \<longrightarrow> okstep h (nd_set_type n NMap h1) {}
      \<and> n < lim (nd_set_type n NMap h1) \<and> nd_is_defined (nd_set_type n NMap h1) n"
    using fresh_collection(1,3,4) [OF ok, of _ _ _ NMap] by simp
  obtain h1 b1 n where p: "b_push_new a (h, b) = (h1, b1, n)" by (metis prod.exhaust)
  note w = push_new_ok [where f = "\<lambda>n. nd_set_type n NMap", OF ok b f p]
  have "builder_ok (nd_set_type n NMap h1) (b1\<lparr>m_mapDepth := Suc (m_mapDepth b1)\<rparr>)"
    by (rule builder_cong [OF w(3)]) simp_all
  then show ?thesis
    using EvMapStart p w by (simp add: b_event_def anchors_after_def ev_anchor_def build_ok_def)
next
  case EvSeqEnd
  then show ?thesis using pop_ok [OF ok b] pop_anchors
    by (simp add: b_event_def anchors_after_def ev_anchor_def)
next
  case EvMapEnd
  have "builder_ok h (b\<lparr>m_mapDepth := m_mapDepth b - 1\<rparr>)" by (rule builder_cong [OF b]) simp_all
  then show ?thesis using pop_ok [OF ok] pop_anchors [of h "b\<lparr>m_mapDepth := m_mapDepth b - 1\<rparr>"] EvMapEnd
    by (simp add: b_event_def anchors_after_def ev_anchor_def)
qed (use build_okI [OF ok b] in \<open>simp_all add: b_event_def anchors_after_def ev_anchor_def\<close>)

lemma anchors_ok_Cons:
  "anchors_ok k (e # es) \<Longrightarrow> (\<forall>a. e = EvAlias a \<longrightarrow> a \<le> k) \<and> anchors_ok (anchors_after e k) es"
  by (cases e) (auto simp: anchors_after_def ev_anchor_def split: if_splits)

lemma events_ok:
  assumes "heap_ok h" and "builder_ok h b" and "anchors_ok k es" and "length (m_anchors b) = Suc k"
  shows "build_ok h (fold b_event es (h, b))"
  using assms
proof (induction es arbitrary: h b k)
  case Nil
  then show ?case by (simp add: build_okI)
next
  case (Cons e es)
  obtain h1 b1 where e: "b_event e (h, b) = (h1, b1)" by fastforce
  note a = anchors_ok_Cons [OF Cons.prems(3)]
  have w: "build_ok h (h1, b1)" "length (m_anchors b1) = anchors_after e (Suc k)"
    using event_ok [OF Cons.prems(1,2), of e] a Cons.prems(4) e by (auto simp: less_Suc_eq_le)
  have "build_ok h1 (fold b_event es (h1, b1))"
    by (rule Cons.IH [of _ _ "anchors_after e k"])
       (use w a in \<open>simp_all add: build_ok_def anchors_after_def\<close>)
  then have "build_ok h (fold b_event es (h1, b1))"
    by (rule build_ok_trans) (use w in \<open>simp add: build_ok_def\<close>)
  then show ?case by (simp add: e)
qed

lemma build_safe:
  assumes ok: "heap_ok h" and es: "anchors_ok 0 es" and bu: "build es h = (h', r)"
  shows "heap_ok h'" "grows h h'" "handle_ok h' r"
proof -
  obtain h1 b where nb: "new_builder h = (h1, b)" by fastforce
  note s = new_builder_going_on(2) [OF ok nb, of "{}", simplified]
  have b: "builder_ok h1 b" "length (m_anchors b) = Suc 0"
    using nb by (auto simp: new_builder_def builder_ok_def split: prod.splits)
  have "build_ok h (fold b_event es (h1, b))"
    by (rule build_ok_trans [OF events_ok [OF okstepD(1) [OF s] b(1) es b(2)]])
       (use hstep_grows [OF okstepD(2) [OF s]] in simp)
  then obtain h2 b2 where f: "fold b_event es (new_builder h) = (h2, b2)"
      and o2: "heap_ok h2" "grows h h2" "builder_ok h2 b2"
    by (cases "fold b_event es (h1, b)") (auto simp: nb build_ok_def)
  show "heap_ok h'" "grows h h'" "handle_ok h' r"
  proof (atomize (full), cases "m_pRoot b2")
    case None
    then have n: "new_handle (h\<lparr>m_amount := m_amount h2\<rparr>) = (h', r)" using bu f by (simp add: build_def)
    have "heap_ok (h\<lparr>m_amount := m_amount h2\<rparr>)" "grows h (h\<lparr>m_amount := m_amount h2\<rparr>)"
      using ok heap_ok_cong [of "h\<lparr>m_amount := m_amount h2\<rparr>" h] by (simp_all add: grows_def)
    from fresh_safe [OF this] show "heap_ok h' \<and> grows h h' \<and> handle_ok h' r"
      using n by (simp add: safe_handle_def safe_def hs_fresh_def)
  next
    case (Some n)
    then show "heap_ok h' \<and> grows h h' \<and> handle_ok h' r"
      using bu f o2 by (auto simp: build_def builder_ok_def handle_ok_def)
  qed
qed

lemma load_safe:
  assumes ok: "heap_ok h" and p: "parser_ok parse"
  shows "safe_handle h (hs_load_file parse fs path h)"
proof -
  obtain h0 m0 v0 where 0: "new_handle h = (h0, (m0, v0))" by (metis prod.exhaust)
  note w = new_handle_step [OF ok 0]
  have ok0: "heap_ok h0" and g0: "grows h h0" using okstepD(1) hstep_grows [OF okstepD(2)] w(1) by blast+
  have fail: "safe_handle h (Inl e, h)" for e using ok by (simp add: safe_handle_def safe_def)
  have put: "safe_handle h (Inr (m0, snd v), assign_node (m0, v0) v h1)"
    if h1: "heap_ok h1" "grows h0 h1" "handle_ok h1 v" for h1 v
  proof -
    have v: "snd v < lim h1" "nd_is_defined h1 (snd v)" using h1(3) by (simp_all add: handle_ok_def)
    have l: "v0 < lim h1" using grows_lim [OF h1(2)] w(2,4) by simp
    note a = assign_node_okstep [OF h1(1) l v, of m0 "fst v"]
    have g: "grows h1 (assign_node (m0, v0) v h1)" using hstep_grows [OF okstepD(2) [OF a]] by simp
    then show ?thesis
      using okstepD(1) [OF a] grows_trans [OF grows_trans [OF g0 h1(2)] g] handle_ok_grows [OF h1(3) g]
      by (simp add: safe_handle_def safe_def handle_ok_def)
  qed
  show ?thesis
  proof (cases "fs path")
    case None
    then show ?thesis using fail by (simp add: hs_load_file_def 0)
  next
    case (Some str)
    show ?thesis
    proof (cases "parse str")
      case (Inl what)
      then show ?thesis using fail Some by (simp add: hs_load_file_def 0)
    next
      case (Inr evs)
      obtain h1 v where d: "(case evs of None \<Rightarrow> new_handle h0 | Some es \<Rightarrow> build es h0) = (h1, v)"
        by (metis prod.exhaust)
      have "heap_ok h1 \<and> grows h0 h1 \<and> handle_ok h1 v"
      proof (cases evs)
        case None
        then show ?thesis using d fresh_safe [OF ok0 grows_refl]
          by (simp add: safe_handle_def safe_def hs_fresh_def)
      next
        case (Some es)
        then have "anchors_ok 0 es" using p Inr by (simp add: parser_ok_def)
        then show ?thesis using build_safe [OF ok0] d Some by auto
      qed
      then show ?thesis using put [of h1 v] d Some Inr by (simp add: hs_load_file_def 0)
    qed
  qed
qed

section \<open>Ownership of the nodes a client can reach\<close>

text \<open>What an operation that returns a handle leaves: the new handle keeps its nodes.\<close>

definition holds :: "nat set \<Rightarrow> yhand yres \<Rightarrow> bool" where
  "holds M x \<longleftrightarrow> held (snd x) (M \<union> (case fst x of Inl e \<Rightarrow> {} | Inr r \<Rightarrow> {fst r}))"

lemma fresh_holds: "held h M \<Longrightarrow> holds M (hs_fresh h)"
  using held_new_handle [of h M] by (cases "new_handle h") (auto simp: holds_def hs_fresh_def)

lemma get_node_holds: "held h M \<Longrightarrow> fst r \<in> M \<Longrightarrow> holds M (hs_get_node r name h)"
  using fresh_holds [of h M]
  by (auto simp: hs_get_node_def holds_def insert_absorb split: sum.split option.split)

lemma get_sequence_node_holds:
  assumes "held h M" and "fst r \<in> M"
  shows "holds M (hs_get_sequence_node r i h)"
proof -
  obtain h1 k where z: "nd_size (snd r) h = (h1, k)" by fastforce
  have "held h1 M" using memory_size [of "snd r" h] z by (auto intro: held_same [OF _ assms(1)])
  then show ?thesis using assms fresh_holds
    by (auto simp: hs_get_sequence_node_def z holds_def insert_absorb split: option.split)
qed

lemma events_grown:
  assumes "heap_ok h" and "builder_ok h b" and "anchors_ok k es" and "length (m_anchors b) = Suc k"
    and "grown h0 M (h, b)"
  shows "grown h0 M (fold b_event es (h, b))"
  using assms
proof (induction es arbitrary: h b k)
  case (Cons e es)
  obtain h1 b1 where e: "b_event e (h, b) = (h1, b1)" by fastforce
  note a = anchors_ok_Cons [OF Cons.prems(3)]
  have al: "\<forall>a. e = EvAlias a \<longrightarrow> a < length (m_anchors b)" using a Cons.prems(4) by auto
  have w: "build_ok h (h1, b1)" "length (m_anchors b1) = anchors_after e (Suc k)"
    using event_ok [OF Cons.prems(1,2) al] Cons.prems(4) e by auto
  have "grown h0 M (h1, b1)" using grown_event [OF Cons.prems(5) al] e by simp
  then have "grown h0 M (fold b_event es (h1, b1))"
    by (intro Cons.IH [of _ _ "anchors_after e k"])
       (use w a in \<open>simp_all add: build_ok_def anchors_after_def\<close>)
  then show ?case by (simp add: e)
qed simp

text \<open>A document built: its nodes are held with the handle of the root, which is a new node.\<close>

lemma build_held:
  assumes ok: "heap_ok h" and es: "anchors_ok 0 es" and M: "held h M" and bu: "build es h = (h', v)"
  shows "held h' (insert (fst v) M)" "node_ref h' (snd v) = snd v" "lim h \<le> snd v"
    "x < lim h \<Longrightarrow> node_ref h' x = node_ref h x"
proof -
  obtain h1 b where nb: "new_builder h = (h1, b)" by fastforce
  have b: "builder_ok h1 b" "length (m_anchors b) = Suc 0"
    using nb by (auto simp: new_builder_def builder_ok_def split: prod.splits)
  have "heap_ok h1" using okstepD(1) [OF new_builder_going_on(2) [OF ok nb, of "{}", simplified]] .
  from events_grown [OF this b(1) es b(2) grown_new [OF M nb]]
  obtain h2 b2 where f: "fold b_event es (new_builder h) = (h2, b2)" and g: "grown h M (h2, b2)"
    by (cases "fold b_event es (h1, b)") (simp add: nb)
  have "held h' (insert (fst v) M) \<and> node_ref h' (snd v) = snd v \<and> lim h \<le> snd v
      \<and> (\<forall>x < lim h. node_ref h' x = node_ref h x)"
  proof (cases "m_pRoot b2")
    case None
    let ?h = "h\<lparr>m_amount := m_amount h2\<rparr>"
    have n: "new_handle ?h = (h', v)" using bu f None by (simp add: build_def)
    have "held ?h M" by (rule held_same [OF _ M]) simp
    then show ?thesis using held_new_handle [OF _ n] ref_new_handle [OF n] by simp
  next
    case (Some n)
    then have "h' = h2" "v = (b_memory b2, n)" using bu f by (simp_all add: build_def)
    then show ?thesis using g Some by (auto simp: grown_def)
  qed
  then show "held h' (insert (fst v) M)" "node_ref h' (snd v) = snd v" "lim h \<le> snd v"
    "x < lim h \<Longrightarrow> node_ref h' x = node_ref h x" by blast+
qed

lemma load_holds:
  assumes ok: "heap_ok h" and p: "parser_ok parse" and M: "held h M"
  shows "holds M (hs_load_file parse fs path h)"
proof -
  obtain h0 m0 v0 where 0: "new_handle h = (h0, (m0, v0))" by (metis prod.exhaust)
  note r = ref_new_handle [OF 0]
  have ok0: "heap_ok h0" using okstepD(1) [OF new_handle_step(1) [OF ok 0]] .
  have M0: "held h0 (insert m0 M)" using held_new_handle [OF M 0] by simp
  have v0: "v0 < lim h0" "node_ref h0 v0 = v0" using r by simp_all
  have put: "holds M (Inr (m0, snd v), assign_node (m0, v0) v h1)"
    if "held h1 (insert (fst v) (insert m0 M))" "node_ref h1 (snd v) = snd v" "lim h0 \<le> snd v"
      "node_ref h1 v0 = node_ref h0 v0" for h1 v
  proof -
    have "\<not> nd_is h1 v0 (snd v)" using that(2-4) v0 by (simp add: nd_is_def node_ref_def)
    then show ?thesis using held_assign [OF that(1), of "(m0, v0)"] by (simp add: holds_def)
  qed
  show ?thesis
  proof (cases "fs path")
    case (Some str)
    show ?thesis
    proof (cases "parse str")
      case (Inr evs)
      obtain h1 v where d: "(case evs of None \<Rightarrow> new_handle h0 | Some es \<Rightarrow> build es h0) = (h1, v)"
        by (metis prod.exhaust)
      have "held h1 (insert (fst v) (insert m0 M)) \<and> node_ref h1 (snd v) = snd v \<and> lim h0 \<le> snd v
          \<and> node_ref h1 v0 = node_ref h0 v0"
      proof (cases evs)
        case None
        then have n: "new_handle h0 = (h1, v)" using d by simp
        show ?thesis using held_new_handle [OF M0 n] ref_new_handle [OF n] v0(1) by simp
      next
        case (Some es)
        then have "anchors_ok 0 es" "build es h0 = (h1, v)" using p Inr d by (simp_all add: parser_ok_def)
        then show ?thesis using build_held [OF ok0 _ M0] v0(1) by blast
      qed
      then show ?thesis using put [of h1 v] d Some Inr by (simp add: hs_load_file_def 0)
    qed (use Some M in \<open>simp add: hs_load_file_def holds_def\<close>)
  qed (use M in \<open>simp add: hs_load_file_def holds_def\<close>)
qed

text \<open>The writing operations.\<close>

lemma add_node_held:
  assumes "held h M" and "fst r \<in> M" "fst v \<in> M"
  shows "held (snd (hs_add_node r key v h)) M"
proof -
  have "held (assign_node (fst r, s) v h1) M" if "nd_get (fst r) (snd r) key h = Inr (h1, s)" for h1 s
    using held_get [OF assms(1,2) that] assms(2,3) by (intro held_assign) (simp_all add: insert_absorb)
  then show ?thesis using assms(1) by (auto simp: hs_add_node_def split: sum.split)
qed

lemma push_back_held:
  assumes "held h M" and "fst r \<in> M" "fst v \<in> M"
  shows "held (snd (hs_push_back r v h)) M"
proof -
  have "held (mem_merge (fst r) (fst v) h1) M" if "nd_push_back (snd r) (snd v) h = Inr h1" for h1
    using held_same [OF memory_push_back [OF that] assms(1)] assms(2,3)
    by (intro held_merge) (simp_all add: insert_absorb)
  then show ?thesis using assms(1) by (auto simp: hs_push_back_def split: sum.split)
qed

lemma set_held:
  assumes "held h M" and "fst r \<in> M"
  shows "held (snd (hs_set r key a h)) M"
proof -
  have "held (assign_string (fst r, s) str h1) M \<and> held (assign_data (fst r, s) str h1) M"
    if "nd_get (fst r) (snd r) key h = Inr (h1, s)" for h1 s str
    using held_get [OF assms that] assms(2) held_assign_data [of h1 M "(fst r, s)"]
    by (auto simp: assign_string_def intro: held_same)
  then show ?thesis using assms(1) by (auto simp: hs_set_def hs_write_def split: option.split sum.split aval.split)
qed

lemma set_def_held:
  assumes "held h M" and "fst r \<in> M"
  shows "held (snd (hs_set_def r key a h)) M"
proof -
  have "held h2 M" if "nd_get (fst r) (snd r) key h = Inr (h1, s)" "hs_set r key a h1 = (x, h2)" for h1 s h2 x
    using set_held [OF held_get [OF assms that(1)] assms(2), of key a] that(2) by simp
  then show ?thesis using assms held_get [OF assms]
    by (auto simp: hs_set_def_def split: sum.split prod.split)
qed

lemma set_null_held:
  assumes "held h M" and "heap_ok h" and "handle_ok h r" and "fst r \<in> M"
  shows "held (snd (hs_set_null r key h)) M"
proof (cases "nd_get (fst r) (snd r) key h")
  case (Inr p)
  obtain h1 s where p: "p = (h1, s)" by fastforce
  have n: "snd r < lim h" "nd_is_defined h (snd r)" using assms(3) by (simp_all add: handle_ok_def)
  note g = nd_get_okstep [OF assms(2) n Inr [unfolded p]]
  show ?thesis using held_assign_null [OF held_get [OF assms(1,4) Inr [unfolded p]] okstepD(1) [OF g(1)], of "(fst r, s)"]
      g(2) assms(4) Inr p by (simp add: hs_set_null_def)
qed (use assms(1) in \<open>simp add: hs_set_null_def\<close>)

lemma set_null_def_held:
  assumes "held h M" and "heap_ok h" and "handle_ok h r" and "fst r \<in> M"
  shows "held (snd (hs_set_null_def r key h)) M"
proof (cases "nd_get (fst r) (snd r) key h")
  case (Inr p)
  obtain h1 s where p: "p = (h1, s)" by fastforce
  have n: "snd r < lim h" "nd_is_defined h (snd r)" using assms(3) by (simp_all add: handle_ok_def)
  note g = nd_get_okstep [OF assms(2) n Inr [unfolded p]]
  have "handle_ok h1 r" by (rule handle_ok_grows [OF assms(3) okstepD(3) [OF g(1)]])
  from set_null_held [OF held_get [OF assms(1,4) Inr [unfolded p]] okstepD(1) [OF g(1)] this assms(4), of key]
  show ?thesis using held_get [OF assms(1,4) Inr [unfolded p]] Inr p
    by (auto simp: hs_set_null_def_def hs_set_null_def split: sum.split)
qed (use assms(1) in \<open>simp add: hs_set_null_def_def\<close>)

section \<open>Clients\<close>

definition client_ok :: "yheap \<Rightarrow> yhand list \<Rightarrow> bool" where
  "client_ok h R \<longleftrightarrow> heap_ok h \<and> (\<forall>r \<in> set R. handle_ok h r) \<and> held h (fst ` set R)"

lemma gives_ok:
  assumes "gives R x = (y, (h', R'))" and "client_ok h R" and "safe_handle h x" and "holds (fst ` set R) x"
  shows "client_ok h' R'"
proof (cases "fst x")
  case (Inl e)
  then show ?thesis using assms handle_ok_grows
    by (auto simp: gives_def safe_handle_def safe_def client_ok_def holds_def split: prod.splits)
next
  case (Inr r)
  then have "h' = snd x" "R' = R @ [r]" using assms(1) by (auto simp: gives_def split: prod.splits)
  then show ?thesis using assms(2-4) Inr handle_ok_grows
    by (auto simp: safe_handle_def safe_def client_ok_def holds_def)
qed

lemma keeps_ok:
  assumes "keeps R f x = (y, (h', R'))" and "client_ok h R" and "safe h x" and "held (snd x) (fst ` set R)"
  shows "client_ok h' R'"
proof -
  have "h' = snd x" "R' = R" using assms(1) by (auto simp: keeps_def split: prod.splits sum.splits)
  then show ?thesis using assms(2-4) handle_ok_grows by (auto simp: safe_def client_ok_def)
qed

lemma load_ok:
  assumes ok: "client_ok h R" and p: "parser_ok parse" and r: "r \<in> set R"
    and x: "hs_load_node parse fs r path h = ((b, v), h')"
  shows "client_ok h' (R @ [v])"
proof -
  have h: "heap_ok h" "held h (fst ` set R)" using ok by (simp_all add: client_ok_def)
  obtain z h1 where z: "hs_load_file parse fs path h = (z, h1)" by fastforce
  note s = load_safe [OF h(1) p, of fs path, unfolded z] and o = load_holds [OF h(1) p h(2), of fs path, unfolded z]
  have "client_ok h1 (snd (snd (gives R (z, h1))))"
    by (rule gives_ok [OF _ ok s o, of "fst (gives R (z, h1))"]) (auto simp: gives_def split: sum.split)
  then show ?thesis using x z r by (auto simp: hs_load_node_def gives_def client_ok_def insert_absorb split: sum.splits)
qed

lemma exec_ok:
  assumes c: "client_ok h R" and p: "parser_ok parse"
    and u: "\<forall>i \<in> set (used_handles op). i < length R"
    and x: "client_exec parse render writable fs op (h, R) = Some (y, (h', R'))"
  shows "client_ok h' R'"
proof -
  have ok: "heap_ok h" and M: "held h (fst ` set R)" using c by (simp_all add: client_ok_def)
  have H: "handle_ok h (R ! i)" "R ! i \<in> set R" "fst (R ! i) \<in> fst ` set R" if "i \<in> set (used_handles op)" for i
    using that u c by (simp_all add: client_ok_def)
  note G = gives_ok [OF _ c] and K = keeps_ok [OF _ c]
  show ?thesis
  proof (cases op)
    case ONew
    with x show ?thesis using G [OF _ fresh_safe [OF ok grows_refl] fresh_holds [OF M]] by (simp add: client_exec_def)
  next
    case (OOpen path)
    with x show ?thesis using G [OF _ load_safe [OF ok p] load_holds [OF ok p M]] by (simp add: client_exec_def)
  next
    case (OLoad i path)
    obtain b v h1 where z: "hs_load_node parse fs (R ! i) path h = ((b, v), h1)" by (metis prod.exhaust)
    have "R ! i \<in> set R" using H OLoad by (simp add: used_handles_def)
    from load_ok [OF c p this z] show ?thesis using x OLoad z by (simp add: client_exec_def)
  next
    case (OGet i key)
    with x H show ?thesis using G [OF _ get_node_safe [OF ok] get_node_holds [OF M]]
      by (simp add: client_exec_def used_handles_def)
  next
    case (OIndex i k)
    with x H show ?thesis using G [OF _ get_sequence_node_safe [OF ok] get_sequence_node_holds [OF M]]
      by (simp add: client_exec_def used_handles_def)
  next
    case (OSize i)
    obtain h1 k where z: "nd_size (snd (R ! i)) h = (h1, k)" by fastforce
    have "snd (R ! i) < lim h" using H OSize by (simp add: used_handles_def handle_ok_def)
    note s = safe_okstep [OF nd_size_okstep [OF ok this z], of "Inr k"]
    have "held h1 (fst ` set R)" using memory_size [of "snd (R ! i)" h] z by (auto intro: held_same [OF _ M])
    then show ?thesis by (intro K [OF _ s]) (use x z OSize in \<open>simp_all add: client_exec_def\<close>)
  next
    case (OAdd i key j)
    with x H show ?thesis using K [OF _ add_node_safe [OF ok] add_node_held [OF M]]
      by (simp add: client_exec_def used_handles_def)
  next
    case (OPush i j)
    with x H show ?thesis using K [OF _ push_back_safe [OF ok] push_back_held [OF M]]
      by (simp add: client_exec_def used_handles_def)
  next
    case (OSet i key a)
    with x H show ?thesis using K [OF _ set_safe [OF ok] set_held [OF M]]
      by (simp add: client_exec_def used_handles_def)
  next
    case (OSetDef i key a)
    with x H show ?thesis using K [OF _ set_def_safe [OF ok] set_def_held [OF M]]
      by (simp add: client_exec_def used_handles_def)
  next
    case (OSetNull i key)
    with x H show ?thesis using K [OF _ set_null_safe [OF ok] set_null_held [OF M ok]]
      by (simp add: client_exec_def used_handles_def)
  next
    case (OSetNullDef i key)
    with x H show ?thesis using K [OF _ set_null_def_safe [OF ok] set_null_def_held [OF M ok]]
      by (simp add: client_exec_def used_handles_def)
  next
    case (OGetDef i key d)
    have s: "safe h (hs_get_def (R ! i) key d h, h)" using ok by (simp add: safe_def)
    show ?thesis by (rule K [OF _ s]) (use x M OGetDef in \<open>simp_all add: client_exec_def\<close>)
  next
    case (OSave i path)
    with x c show ?thesis by (auto simp: client_exec_def)
  qed
qed

lemma empty_client_ok: "client_ok empty_heap []"
  by (simp add: client_ok_def empty_heap_ok held_def) (simp add: empty_heap_def)

lemma reach_ok:
  assumes "client_reach parse render s" and p: "parser_ok parse"
  shows "client_ok (fst s) (snd s)"
  using assms(1)
proof (induction rule: client_reach.induct)
  case reach_start
  then show ?case by (simp add: empty_client_ok)
next
  case (reach_op s op writable fs x s')
  then show ?case using exec_ok [OF _ p, of "fst s" "snd s" op render writable fs x "fst s'" "snd s'"] by simp
qed

lemma node_events_end:
  assumes "heap_ok h" and "handle_ok h r"
  shows "\<exists>es. node_events h (snd r) = Some es"
proof -
  obtain es where "emit_all h (setup_refs h (\<lambda>_. 0) [snd r]) (\<lambda>_. 0) 0 [Visit (snd r)] = Some es"
    using emit_follows_setup [OF assms(1), of "[snd r]" "[Visit (snd r)]" _ "\<lambda>_. 0" "\<lambda>_. 0" 0] assms(2)
    by (auto simp: handle_ok_def closing_def)
  then show ?thesis by (simp add: node_events_def)
qed

text \<open>
  C28. A client that keeps the handles it obtains never meets a freed node.  After any
  sequence of loads, saves, reads and writes, with handles copied into each other's
  collections in any way, cycles included, every node there is is owned by the memory
  of one of its handles, although \<open>memory_holder::merge\<close> may swap memories and leave a
  third holder behind and the temporary nodes of the operations come with holders of
  their own; every handle points to a node that is defined, the nodes below it are there,
  sequence elements and map keys are defined, and writing the node out gives a finite
  stream of events.  What is asked of the parser is that its events number anchors in
  order and alias only anchors seen before.
\<close>
theorem handles_stay_good:
  assumes "client_reach parse render (h, R)" and "parser_ok parse"
  shows "(\<forall>x < lim h. \<exists>r \<in> set R. x \<in> h_mem h (h_holder h (fst r)))
    \<and> (\<forall>r \<in> set R. handle_ok h r \<and> (\<forall>x \<in> set (children h (snd r)). x < lim h \<and> nd_is_defined h x)
         \<and> (\<exists>es. node_events h (snd r) = Some es))"
proof -
  have ok: "heap_ok h" and R: "\<forall>r \<in> set R. handle_ok h r" and M: "{..<lim h} \<subseteq> owned h (fst ` set R)"
    using reach_ok [OF assms] by (simp_all add: client_ok_def held_def)
  have "\<exists>r \<in> set R. x \<in> h_mem h (h_holder h (fst r))" if "x < lim h" for x
    using that M by (auto simp: owned_def)
  then show ?thesis using R children_ok [OF ok] node_events_end [OF ok] by (auto simp: handle_ok_def)
qed

lemma one_handle: "client_reach parse render (null_heap, [(0, 0)])"
proof -
  have "client_exec parse render (\<lambda>_. True) Map.empty ONew (empty_heap, [])
      = Some (Inr OUnit, (null_heap, [(0, 0)]))"
    by (simp add: client_exec_def gives_def hs_fresh_def null_heap_facts)
  then show ?thesis by (rule reach_op [OF reach_start, rotated]) (simp add: used_handles_def)
qed

theorem handles_stay_good_witness:
  "0 \<in> h_mem null_heap (h_holder null_heap 0) \<and> handle_ok null_heap (0, 0)
    \<and> (\<exists>es. node_events null_heap 0 = Some es)"
  using handles_stay_good [OF one_handle, of "\<lambda>_. Inr None"]
  by (simp add: parser_ok_def handle_ok_def)

section \<open>Exceptions\<close>

text \<open>What an operation may throw in a state; as in \<open>catch_get\<close>, the place in the file
  that the text of a wrong-type error ends with is left out.\<close>

definition is_type :: "yclient \<Rightarrow> nat \<Rightarrow> ntype set \<Rightarrow> bool" where
  "is_type s i ts \<longleftrightarrow> nd_type (fst s) (snd (snd s ! i)) \<in> ts"

definition may_throw :: "yclient \<Rightarrow> yop \<Rightarrow> yexn \<Rightarrow> bool" where
  "may_throw s op e = (case op of
      ONew \<Rightarrow> False
    | OOpen path \<Rightarrow> (\<exists>what. e = RuntimeError what)
    | OLoad _ _ \<Rightarrow> False
    | OGet i key \<Rightarrow> e = BadSubscript key \<and> is_type s i {NScalar}
    | OIndex _ _ \<Rightarrow> False
    | OSize _ \<Rightarrow> False
    | OAdd i key _ \<Rightarrow> e = BadSubscript key \<and> is_type s i {NScalar}
    | OPush i _ \<Rightarrow> e = BadPushback \<and> is_type s i {NScalar, NMap}
    | OSet i key a \<Rightarrow> (e = BadSubscript key \<and> is_type s i {NScalar})
        \<or> (\<exists>t. a = AOther t \<and> e = RuntimeError (''unsupported type in write: '' @ t))
    | OSetDef i key a \<Rightarrow> (e = BadSubscript key \<and> is_type s i {NScalar})
        \<or> e = RuntimeError (''wrong type for key: '' @ key)
        \<or> (\<exists>t. a = AOther t \<and> e = RuntimeError (''unsupported type in write: '' @ t))
    | OSetNull i key \<Rightarrow> e = BadSubscript key \<and> is_type s i {NScalar}
    | OSetNullDef i key \<Rightarrow> e = BadSubscript key \<and> is_type s i {NScalar}
    | OGetDef i key d \<Rightarrow> (e = BadSubscript key \<and> is_type s i {NScalar})
        \<or> e = RuntimeError (''wrong type for key: '' @ key)
        \<or> (\<exists>t. d = AOther t \<and> e = RuntimeError (''unsupported type in read: '' @ t))
    | OSave i _ \<Rightarrow> e = RuntimeError ''failed to save config file: node is invalid'' \<and> is_type s i {NNull})"

lemma encode_None: "encode_any a = None \<longleftrightarrow> (\<exists>t. a = AOther t)"
  by (cases a) (simp_all add: encode_any_def)

lemma set_error:
  assumes "nd_is_defined h (snd r)" and "hs_set r key a h = (Inl e, h')"
  shows "(e = BadSubscript key \<and> m_type (data_of h (snd r)) = NScalar)
    \<or> (\<exists>t. a = AOther t \<and> e = RuntimeError (''unsupported type in write: '' @ t))"
  using assms nd_get_error [of "fst r" "snd r" key h]
  by (auto simp: hs_set_def hs_write_def encode_any_def split: option.splits sum.splits prod.splits
      aval.splits)

lemma const_error: "nd_get_const h n key = Inl e \<Longrightarrow> e = BadSubscript key \<and> m_type (data_of h n) = NScalar"
  by (simp add: nd_get_const_def split: ntype.splits)

lemma read_error: "registry_read c (any_type d) = Inl e \<Longrightarrow>
    (\<exists>k. e = InvalidNode k) \<or> e = BadConversion
    \<or> (\<exists>t. d = AOther t \<and> e = RuntimeError (''unsupported type in read: '' @ t))"
  by (cases d) (auto simp: registry_read_def any_type_def conv_result_def
      split: yhandle.splits ynode.splits option.splits)

lemma get_def_error:
  assumes "hs_get_def r key d h = Inl e"
  shows "(e = BadSubscript key \<and> m_type (data_of h (snd r)) = NScalar) \<or> e = RuntimeError (''wrong type for key: '' @ key)
    \<or> (\<exists>t. d = AOther t \<and> e = RuntimeError (''unsupported type in read: '' @ t))"
proof (cases "nd_get_const h (snd r) key")
  case (Inl e')
  then show ?thesis using assms const_error [OF Inl]
    by (simp add: hs_get_def_def catch_get_def rbind_def split: if_splits)
next
  case (Inr c)
  show ?thesis
  proof (cases c)
    case None
    then show ?thesis using assms Inr by (simp add: hs_get_def_def catch_get_def rbind_def split: if_splits)
  next
    case (Some v)
    show ?thesis
    proof (cases "registry_read (Live (shape h v)) (any_type d)")
      case rd: (Inl e')
      from read_error [OF rd] show ?thesis using assms Inr Some rd
        by (elim disjE exE) (simp_all add: hs_get_def_def catch_get_def rbind_def split: if_splits)
    next
      case rd: (Inr a)
      then show ?thesis using assms Inr Some
        by (simp add: hs_get_def_def catch_get_def rbind_def split: if_splits)
    qed
  qed
qed

lemma set_def_error:
  assumes ok: "heap_ok h" and r: "handle_ok h r" and e: "hs_set_def r key a h = (Inl e, h')"
  shows "(e = BadSubscript key \<and> m_type (data_of h (snd r)) = NScalar)
    \<or> e = RuntimeError (''wrong type for key: '' @ key)
    \<or> (\<exists>t. a = AOther t \<and> e = RuntimeError (''unsupported type in write: '' @ t))"
proof (cases "nd_get (fst r) (snd r) key h")
  case (Inl e')
  then show ?thesis using e nd_get_error [OF Inl] by (simp add: hs_set_def_def)
next
  case (Inr p)
  obtain h1 s where p: "p = (h1, s)" by fastforce
  have n: "snd r < lim h" "nd_is_defined h (snd r)" using r by (simp_all add: handle_ok_def)
  note g = nd_get_okstep [OF ok n Inr [unfolded p]]
  have d: "nd_is_defined h1 (snd r)" by (rule okstepD(5) [OF g(1) n])
  obtain x h2 where x: "hs_set r key a h1 = (x, h2)" by fastforce
  show ?thesis
  proof (cases "nd_is_defined h1 s \<and> nd_type h1 s = NScalar")
    case True
    then show ?thesis using e Inr p by (simp add: hs_set_def_def split: sum.splits)
  next
    case False
    then have "x = Inl e" using e Inr p x by (auto simp: hs_set_def_def split: sum.splits)
    then show ?thesis using set_error [OF d] x g(3) by auto
  qed
qed

lemma set_null_def_error:
  assumes ok: "heap_ok h" and r: "handle_ok h r" and e: "hs_set_null_def r key h = (Inl e, h')"
  shows "e = BadSubscript key \<and> m_type (data_of h (snd r)) = NScalar"
proof (cases "nd_get (fst r) (snd r) key h")
  case (Inl e')
  then show ?thesis using e nd_get_error [OF Inl] by (simp add: hs_set_null_def_def)
next
  case (Inr p)
  obtain h1 s where p: "p = (h1, s)" by fastforce
  have n: "snd r < lim h" "nd_is_defined h (snd r)" using r by (simp_all add: handle_ok_def)
  note g = nd_get_okstep [OF ok n Inr [unfolded p]]
  show ?thesis using e Inr p g(3) nd_get_error [of "fst r" "snd r" key h1]
    by (auto simp: hs_set_null_def_def split: if_splits sum.splits)
qed

lemma exec_returns:
  assumes "client_ok (fst s) (snd s)" and "\<forall>i \<in> set (used_handles op). i < length (snd s)"
  shows "client_exec parse render writable fs op s \<noteq> None"
proof -
  obtain h R where s: "s = (h, R)" by fastforce
  have "\<exists>es. node_events h (snd (R ! i)) = Some es" if "op = OSave i path" for i path
    using node_events_end [of h "R ! i"] assms that by (simp add: s used_handles_def client_ok_def)
  then show ?thesis by (cases op) (auto simp: s client_exec_def hs_save_as_file_def split: prod.splits)
qed

lemma save_throws:
  assumes "nd_is_defined h (snd (R ! i))"
    and "client_exec parse render writable fs (OSave i path) (h, R) = Some (x, s')"
  shows "isl x \<longleftrightarrow> nd_type h (snd (R ! i)) = NNull"
    and "x = Inl e \<Longrightarrow> e = RuntimeError ''failed to save config file: node is invalid'' \<and> s' = (h, R)"
proof -
  obtain z where z: "hs_save_as_file render writable fs (R ! i) path h = Some z"
    using assms(2) by (auto simp: client_exec_def)
  have "isl x \<longleftrightarrow> isl z" "x = Inl e \<Longrightarrow> z = Inl e \<and> s' = (h, R)"
    using assms(2) z by (cases z; auto simp: client_exec_def)+
  then show "isl x \<longleftrightarrow> nd_type h (snd (R ! i)) = NNull"
    and "x = Inl e \<Longrightarrow> e = RuntimeError ''failed to save config file: node is invalid'' \<and> s' = (h, R)"
    using assms(1) z by (auto simp: hs_save_as_file_def split: if_splits)
qed

lemma exec_throws:
  assumes c: "client_ok h R" and u: "\<forall>i \<in> set (used_handles op). i < length R"
    and x: "client_exec parse render writable fs op (h, R) = Some (Inl e, s')"
  shows "may_throw (h, R) op e \<and> snd s' = R"
proof -
  have ok: "heap_ok h" using c by (simp add: client_ok_def)
  have H: "handle_ok h (R ! i)" if "i \<in> set (used_handles op)" for i using that u c by (simp add: client_ok_def)
  have T: "is_type (h, R) i ts \<longleftrightarrow> m_type (data_of h (snd (R ! i))) \<in> ts" if "i \<in> set (used_handles op)" for i ts
    using H [OF that] by (simp add: is_type_def nd_type_def handle_ok_def nd_is_defined_def)
  show ?thesis
  proof (cases op)
    case (OAdd i key j)
    have "handle_ok h (R ! i)" "handle_ok h (R ! j)" using H OAdd by (simp_all add: used_handles_def)
    then show ?thesis using x T OAdd nd_get_error [of "fst (R ! i)" "snd (R ! i)" key h]
      by (auto simp: client_exec_def keeps_def hs_add_node_def may_throw_def handle_ok_def used_handles_def
          split: sum.splits prod.splits if_splits)
  next
    case (OPush i j)
    have "handle_ok h (R ! i)" "handle_ok h (R ! j)" using H OPush by (simp_all add: used_handles_def)
    then show ?thesis using x T OPush nd_push_back_error [of "snd (R ! i)" "snd (R ! j)" h]
      by (auto simp: client_exec_def keeps_def hs_push_back_def may_throw_def handle_ok_def used_handles_def
          split: sum.splits prod.splits if_splits)
  next
    case (OSet i key a)
    have "nd_is_defined h (snd (R ! i))" using H OSet by (simp add: used_handles_def handle_ok_def)
    then show ?thesis using x T OSet set_error [of h "R ! i" key a]
      by (auto simp: client_exec_def keeps_def may_throw_def used_handles_def split: sum.splits prod.splits)
  next
    case (OSetDef i key a)
    have "handle_ok h (R ! i)" using H OSetDef by (simp add: used_handles_def)
    then show ?thesis using x T OSetDef set_def_error [OF ok, of "R ! i" key a]
      by (auto simp: client_exec_def keeps_def may_throw_def used_handles_def split: sum.splits prod.splits)
  next
    case (OSetNull i key)
    then show ?thesis using x T nd_get_error [of "fst (R ! i)" "snd (R ! i)" key h]
      by (auto simp: client_exec_def keeps_def hs_set_null_def may_throw_def used_handles_def
          split: sum.splits prod.splits)
  next
    case (OSetNullDef i key)
    have "handle_ok h (R ! i)" using H OSetNullDef by (simp add: used_handles_def)
    then show ?thesis using x T OSetNullDef set_null_def_error [OF ok, of "R ! i" key]
      by (auto simp: client_exec_def keeps_def may_throw_def used_handles_def split: sum.splits prod.splits)
  next
    case (OGetDef i key d)
    then show ?thesis using x T get_def_error [of "R ! i" key d h]
      by (auto simp: client_exec_def keeps_def may_throw_def used_handles_def split: sum.splits prod.splits)
  next
    case (OGet i key)
    then show ?thesis using x T const_error [of h "snd (R ! i)" key]
      by (auto simp: client_exec_def gives_def hs_get_node_def hs_fresh_def may_throw_def used_handles_def
          split: sum.splits prod.splits if_splits option.splits)
  next
    case (OIndex i k)
    then show ?thesis using x
      by (auto simp: client_exec_def gives_def hs_get_sequence_node_def hs_fresh_def
          split: sum.splits prod.splits if_splits option.splits)
  next
    case (OOpen path)
    then show ?thesis using x
      by (auto simp: client_exec_def gives_def hs_load_file_def may_throw_def
          split: sum.splits prod.splits option.splits)
  next
    case (OLoad i path)
    then show ?thesis using x by (simp add: client_exec_def split: prod.splits)
  next
    case (OSave i path)
    have d: "nd_is_defined h (snd (R ! i))" using H OSave by (simp add: used_handles_def handle_ok_def)
    from save_throws [OF d x [unfolded OSave]] show ?thesis using OSave by (simp add: may_throw_def is_type_def)
  qed (use x in \<open>auto simp: client_exec_def gives_def keeps_def hs_fresh_def split: prod.splits\<close>)
qed

text \<open>
  C33. What a client that keeps its handles has to catch.  Every operation returns, and it
  throws only a \<open>BadSubscript\<close> for a key looked up in a scalar, a \<open>BadPushback\<close> for an
  append to a scalar or a map, a \<open>runtime_error\<close> for a wrong or an unsupported type, one
  for a file that cannot be loaded, and one from \<open>saveAsFile\<close>, exactly for a null node:
  of the checks for an invalid node it is the only one that fires, those of \<open>addNode\<close>,
  \<open>pushBack\<close> and \<open>set\<close> never do.  The handles are the same after an exception.
\<close>
theorem client_exceptions:
  assumes "client_reach parse render s" and "parser_ok parse"
    and u: "\<forall>i \<in> set (used_handles op). i < length (snd s)"
  shows "\<exists>x s'. client_exec parse render writable fs op s = Some (x, s')
    \<and> (\<forall>e. x = Inl e \<longrightarrow> may_throw s op e \<and> snd s' = snd s)
    \<and> (\<forall>i path. op = OSave i path \<longrightarrow> (isl x \<longleftrightarrow> nd_type (fst s) (snd (snd s ! i)) = NNull))"
proof -
  obtain h R where s: "s = (h, R)" by fastforce
  note c = reach_ok [OF assms(1,2)]
  obtain x s' where x: "client_exec parse render writable fs op s = Some (x, s')"
    using exec_returns [OF c u, of parse render writable fs] by auto
  have "nd_is_defined h (snd (R ! i))" if "op = OSave i path" for i path
    using c u that by (simp add: s used_handles_def client_ok_def handle_ok_def)
  then show ?thesis
    using x exec_throws [of h R op parse render writable fs _ s'] save_throws(1) [of h R _ parse render writable fs _ x s'] c u
    by (intro exI [of _ x] exI [of _ s']) (auto simp: s)
qed

theorem client_exceptions_witness:
  "\<exists>s'. client_exec (\<lambda>_. Inr None) (\<lambda>_. []) (\<lambda>_. True) Map.empty (OSave 0 ''f.yaml'') (null_heap, [(0, 0)])
      = Some (Inl (RuntimeError ''failed to save config file: node is invalid''), s')
    \<and> snd s' = [(0, 0)]"
proof -
  have u: "\<forall>i \<in> set (used_handles (OSave 0 ''f.yaml'')). i < length (snd (null_heap, [(0::nat, 0::nat)]))"
    by (simp add: used_handles_def)
  have p: "parser_ok (\<lambda>_. Inr None)" by (simp add: parser_ok_def)
  from client_exceptions [OF one_handle p u]
  obtain x s' where x: "client_exec (\<lambda>_. Inr None) (\<lambda>_. []) (\<lambda>_. True) Map.empty (OSave 0 ''f.yaml'') (null_heap, [(0, 0)])
      = Some (x, s')"
    and t: "\<forall>e. x = Inl e \<longrightarrow> may_throw (null_heap, [(0, 0)]) (OSave 0 ''f.yaml'') e \<and> snd s' = [(0, 0)]"
    and i: "isl x \<longleftrightarrow> nd_type null_heap 0 = NNull"
    unfolding fst_conv snd_conv by fastforce
  have "nd_type null_heap 0 = NNull" using null_heap_facts(3) by (rule rep.cases) simp_all
  then have "isl x" using i by simp
  then obtain e where "x = Inl e" by (auto simp: isl_def)
  then show ?thesis using x t by (auto simp: may_throw_def)
qed

section \<open>Memory\<close>

text \<open>Why the handles have to be kept: a node lives as long as a memory that owns it.  When a handle's memory is smaller than that of the node appended
  to it, \<open>memory_holder::merge\<close> swaps the two, and a third handle that shared the
  smaller memory goes on without the nodes of the larger one, though it reaches
  them: with the other two handles gone, it is left with a pointer to a freed
  node.\<close>

lemma merge_leaves_out:
  assumes "h_holder h a = h_holder h b" and "a \<noteq> b" "a \<noteq> c" and "h_holder h c \<noteq> h_holder h b"
    and "card (h_mem h (h_holder h b)) < card (h_mem h (h_holder h c))"
  shows "h_mem (mem_merge b c h) (h_holder (mem_merge b c h) a) = h_mem h (h_holder h a)"
    and "h_mem (mem_merge b c h) (h_holder (mem_merge b c h) b) = h_mem h (h_holder h c) \<union> h_mem h (h_holder h b)"
  using assms by (auto simp: mem_merge_def Let_def)

lemma push_back_mem: "nd_push_back n v h = Inr h' \<Longrightarrow> heap_ok h \<Longrightarrow> n < lim h \<Longrightarrow> nd_is_defined h v \<Longrightarrow>
    v < lim h \<Longrightarrow> nd_is_defined h n \<Longrightarrow>
    h_holder h' = h_holder h \<and> h_mem h' = h_mem h \<and> v \<in> set (m_sequence (data_of h' n)) \<and> nd_type h' n = NSequence"
proof -
  assume p: "nd_push_back n v h = Inr h'" and ok: "heap_ok h" and n: "n < lim h" "nd_is_defined h n"
    and v: "v < lim h" "nd_is_defined h v"
  have s1: "okstep h (seq_start n h) {data_addr h n}"
    by (rule seq_start_okstep [OF ok n])
  have ty: "m_type (data_of (seq_start n h) n) = NSequence"
    using p by (auto simp: nd_push_back_def seq_start_def Let_def split: if_splits)
  note ap = append_step [OF okstepD(1) [OF s1] okstepD(4) [OF s1 n(1)] okstepD(5) [OF s1 n] ty
      okstepD(4) [OF s1 v(1)] okstepD(5) [OF s1 v]]
  let ?h2 = "upd_data n (\<lambda>d. d\<lparr>m_sequence := m_sequence d @ [v]\<rparr>) (seq_start n h)"
  have g: "grows (seq_start n h) ?h2" 
    by (rule grows_upd_data) (use okstepD(5) [OF s1 n] in \<open>simp add: nd_is_defined_def\<close>)
  have d: "nd_is_defined ?h2 v" "nd_is_defined ?h2 n"
    using grows_defined [OF g okstepD(4) [OF s1 v(1)] okstepD(5) [OF s1 v]]
      grows_defined [OF g okstepD(4) [OF s1 n(1)] okstepD(5) [OF s1 n]] by simp_all
  have e: "h' = (let h1 = add_dependency v n ?h2
      in upd_node n (\<lambda>x. x\<lparr>m_index := m_amount h1\<rparr>) (h1\<lparr>m_amount := Suc (m_amount h1)\<rparr>))"
    using p ty by (auto simp: nd_push_back_def seq_start_def Let_def split: if_splits)
  have "h_holder h' = h_holder h \<and> h_mem h' = h_mem h"
    using d by (simp add: e Let_def add_dependency_def mark_defined_id upd_node_def upd_data_def seq_start_def)
  then show ?thesis using ap(2,3) e by (simp add: Let_def)
qed

lemma push_back_orphans:
  assumes ok: "heap_ok h" and r: "handle_ok h r" and v: "handle_ok h v"
    and p: "hs_push_back r v h = (Inr (), h')"
    and a: "h_holder h a = h_holder h (fst r)" "a \<noteq> fst r" "a \<noteq> fst v" "snd v \<notin> h_mem h (h_holder h a)"
    and c: "h_holder h (fst v) \<noteq> h_holder h (fst r)"
      "card (h_mem h (h_holder h (fst r))) < card (h_mem h (h_holder h (fst v)))"
  shows "snd v \<in> set (children h' (snd r)) \<and> snd v \<notin> h_mem h' (h_holder h' a)"
proof -
  have n: "snd r < lim h" "nd_is_defined h (snd r)" and w: "snd v < lim h" "nd_is_defined h (snd v)"
    using r v by (simp_all add: handle_ok_def)
  obtain h1 where h1: "nd_push_back (snd r) (snd v) h = Inr h1" "h' = mem_merge (fst r) (fst v) h1"
    using p n w by (auto simp: hs_push_back_def split: sum.splits)
  note m = push_back_mem [OF h1(1) ok n(1) w(2,1) n(2)]
  have "h_mem h' (h_holder h' a) = h_mem h (h_holder h a)"
    unfolding h1(2) using merge_leaves_out(1) [of h1 a "fst r" "fst v"] m a c by simp
  moreover have "children h' (snd r) = m_sequence (data_of h1 (snd r))"
  proof -
    have "nd_type h' (snd r) = nd_type h1 (snd r)" by (simp add: h1(2) nd_type_def)
    then show ?thesis using m by (simp add: children_def h1(2))
  qed
  ultimately show ?thesis using m a(4) by simp
qed

end
