(* ===== verification/YamlRegex.thy ===== *)
theory YamlRegex
  imports Prelude
begin

text \<open>
  Matching in yaml-cpp: the regular expressions of \<open>regex_yaml.cpp\<close> and \<open>regeximpl.h\<close>, the two
  sources they read (\<open>stringsource.h\<close>, \<open>streamcharsource.h\<close>), the expressions of \<open>exp.h\<close> that
  scalars need, and the input stream of \<open>stream.cpp\<close> as its bytes, column and line ending.
  A match is the number of characters, \<open>None\<close> is -1.
\<close>

section \<open>Regular expressions\<close>

datatype regex =
    REmpty
  | RMatch char
  | RRange char char
  | ROr "regex list"
  | RAnd "regex list"
  | RNot regex
  | RSeq "regex list"

text \<open>The character after the end: the terminator of a string, \<open>Stream::eof()\<close> of a stream, whose
  lookahead never ends.\<close>

datatype source = OfString | OfStream

definition end_char :: "source \<Rightarrow> char" where
  "end_char src = (case src of OfString \<Rightarrow> CHR 0x00 | OfStream \<Rightarrow> CHR 0x04)"

definition char_at0 :: "source \<Rightarrow> string \<Rightarrow> char" where
  "char_at0 src s = (case s of [] \<Rightarrow> end_char src | c # _ \<Rightarrow> c)"

text \<open>\<open>char\<close> is signed.\<close>

definition schar :: "char \<Rightarrow> int" where
  "schar c = (if (of_char c :: int) < 128 then of_char c else of_char c - 256)"

definition valid_source :: "source \<Rightarrow> regex \<Rightarrow> string \<Rightarrow> bool" where
  "valid_source src r s = (case src of OfStream \<Rightarrow> True
     | OfString \<Rightarrow> (case r of RMatch _ \<Rightarrow> s \<noteq> [] | RRange _ _ \<Rightarrow> s \<noteq> [] | _ \<Rightarrow> True))"

function match_unchecked :: "source \<Rightarrow> regex \<Rightarrow> string \<Rightarrow> nat option"
  and match_or :: "source \<Rightarrow> regex list \<Rightarrow> string \<Rightarrow> nat option"
  and match_and :: "source \<Rightarrow> regex list \<Rightarrow> string \<Rightarrow> nat option \<Rightarrow> nat option"
  and match_seq :: "source \<Rightarrow> regex list \<Rightarrow> string \<Rightarrow> nat \<Rightarrow> nat option" where
  "match_unchecked src REmpty s = (case src of
     OfString \<Rightarrow> (if s = [] then Some 0 else None)
   | OfStream \<Rightarrow> (if char_at0 src s = end_char OfStream then Some 0 else None))"
| "match_unchecked src (RMatch a) s = (if char_at0 src s \<noteq> a then None else Some 1)"
| "match_unchecked src (RRange a z) s =
     (if schar a > schar (char_at0 src s) \<or> schar z < schar (char_at0 src s) then None else Some 1)"
| "match_unchecked src (ROr rs) s = match_or src rs s"
| "match_unchecked src (RAnd rs) s = match_and src rs s None"
| "match_unchecked src (RNot r) s = (case match_unchecked src r s of Some _ \<Rightarrow> None | None \<Rightarrow> Some 1)"
| "match_unchecked src (RSeq rs) s = match_seq src rs s 0"
| "match_or src [] s = None"
| "match_or src (r # rs) s = (case match_unchecked src r s of Some n \<Rightarrow> Some n | None \<Rightarrow> match_or src rs s)"
| "match_and src [] s first = first"
| "match_and src (r # rs) s first = (case match_unchecked src r s of
     None \<Rightarrow> None
   | Some n \<Rightarrow> match_and src rs s (case first of None \<Rightarrow> Some n | Some k \<Rightarrow> Some k))"
| "match_seq src [] s offset = Some offset"
| "match_seq src (r # rs) s offset =
     (case (if valid_source src r (drop offset s) then match_unchecked src r (drop offset s) else None) of
        None \<Rightarrow> None
      | Some n \<Rightarrow> match_seq src rs s (offset + n))"
  by pat_completeness auto

termination
  by (relation "measure (case_sum (case_sum (\<lambda>(_, r, _). size r) (\<lambda>(_, rs, _). size_list size rs))
      (case_sum (\<lambda>(_, rs, _). size_list size rs) (\<lambda>(_, rs, _). size_list size rs)))") simp_all

definition rmatch :: "source \<Rightarrow> regex \<Rightarrow> string \<Rightarrow> nat option" where
  "rmatch src r s = (if valid_source src r s then match_unchecked src r s else None)"

definition matches :: "source \<Rightarrow> regex \<Rightarrow> string \<Rightarrow> bool" where
  "matches src r s \<longleftrightarrow> rmatch src r s \<noteq> None"

text \<open>The constructor from a string.\<close>

definition any_of :: "string \<Rightarrow> regex" where
  "any_of s = ROr (map RMatch s)"

definition word_of :: "string \<Rightarrow> regex" where
  "word_of s = RSeq (map RMatch s)"

definition r_or :: "regex \<Rightarrow> regex \<Rightarrow> regex" where
  "r_or a b = ROr [a, b]"

definition r_and :: "regex \<Rightarrow> regex \<Rightarrow> regex" where
  "r_and a b = RAnd [a, b]"

definition r_seq :: "regex \<Rightarrow> regex \<Rightarrow> regex" where
  "r_seq a b = RSeq [a, b]"

section \<open>The expressions\<close>

abbreviation TAB :: char where "TAB \<equiv> CHR 0x09"
abbreviation DQUOTE :: char where "DQUOTE \<equiv> CHR 0x22"
abbreviation SQUOTE :: char where "SQUOTE \<equiv> CHR 0x27"
abbreviation BSLASH :: char where "BSLASH \<equiv> CHR 0x5C"

definition exp_blank :: regex where
  "exp_blank = r_or (RMatch (CHR '' '')) (RMatch TAB)"

definition exp_break :: regex where
  "exp_break = r_or (r_or (RMatch LF) (word_of [CR, LF])) (RMatch CR)"

definition exp_blank_or_break :: regex where
  "exp_blank_or_break = r_or exp_blank exp_break"

definition exp_not_printable :: regex where
  "exp_not_printable = r_or (r_or (r_or (RMatch (CHR 0x00))
      (any_of [CHR 0x01, CHR 0x02, CHR 0x03, CHR 0x04, CHR 0x05, CHR 0x06, CHR 0x07, CHR 0x08, CHR 0x0B, CHR 0x0C, CHR 0x7F]))
      (RRange (CHR 0x0E) (CHR 0x1F)))
      (r_seq (RMatch (CHR 0xC2)) (r_or (RRange (CHR 0x80) (CHR 0x84)) (RRange (CHR 0x86) (CHR 0x9F))))"

definition exp_byte_order_mark :: regex where
  "exp_byte_order_mark = word_of [CHR 0xEF, CHR 0xBB, CHR 0xBF]"

definition exp_doc_start :: regex where
  "exp_doc_start = r_seq (word_of ''---'') (r_or exp_blank_or_break REmpty)"

definition exp_doc_end :: regex where
  "exp_doc_end = r_seq (word_of ''...'') (r_or exp_blank_or_break REmpty)"

definition exp_doc_indicator :: regex where
  "exp_doc_indicator = r_or exp_doc_start exp_doc_end"

definition exp_block_entry :: regex where
  "exp_block_entry = r_seq (RMatch (CHR ''-'')) (r_or exp_blank_or_break REmpty)"

definition exp_key :: regex where
  "exp_key = r_seq (RMatch (CHR ''?'')) exp_blank_or_break"

definition exp_value :: regex where
  "exp_value = r_seq (RMatch (CHR '':'')) (r_or exp_blank_or_break REmpty)"

definition exp_value_in_flow :: regex where
  "exp_value_in_flow = r_seq (RMatch (CHR '':'')) (r_or exp_blank_or_break (any_of '',]}''))"

definition exp_comment :: regex where
  "exp_comment = RMatch (CHR ''#'')"

definition plain_stop :: string where
  "plain_stop = '',[]{}#&*!|>'' @ [SQUOTE, DQUOTE] @ ''%@`''"

definition exp_plain_scalar :: regex where
  "exp_plain_scalar = RNot (r_or (r_or exp_blank_or_break (any_of plain_stop))
     (r_seq (any_of ''-?:'') (r_or exp_blank_or_break REmpty)))"

definition exp_plain_scalar_in_flow :: regex where
  "exp_plain_scalar_in_flow = RNot (r_or (r_or exp_blank_or_break (any_of (''?'' @ plain_stop)))
     (r_seq (any_of ''-:'') (r_or exp_blank REmpty)))"

definition exp_end_scalar :: regex where
  "exp_end_scalar = r_seq (RMatch (CHR '':'')) (r_or exp_blank_or_break REmpty)"

definition exp_end_scalar_in_flow :: regex where
  "exp_end_scalar_in_flow = r_or
     (r_seq (RMatch (CHR '':'')) (r_or (r_or exp_blank_or_break REmpty) (any_of '',]}'')))
     (any_of '',?[]{}'')"

definition exp_scan_scalar_end :: "bool \<Rightarrow> regex" where
  "exp_scan_scalar_end flow = r_or (if flow then exp_end_scalar_in_flow else exp_end_scalar) (r_seq exp_blank_or_break exp_comment)"

definition exp_esc_single_quote :: regex where
  "exp_esc_single_quote = word_of [SQUOTE, SQUOTE]"

definition exp_digit :: regex where
  "exp_digit = RRange (CHR ''0'') (CHR ''9'')"

definition exp_chomp_indicator :: regex where
  "exp_chomp_indicator = any_of ''+-''"

definition exp_chomp :: regex where
  "exp_chomp = r_or (r_or (r_or (r_seq exp_chomp_indicator exp_digit) (r_seq exp_digit exp_chomp_indicator)) exp_chomp_indicator) exp_digit"

definition exp_esc_break :: regex where
  "exp_esc_break = r_seq (RMatch BSLASH) exp_break"

section \<open>The input\<close>

record scan_in =
  in_rest :: string
  in_column :: nat
  in_line_ending :: "char option"

definition in_ok :: "scan_in \<Rightarrow> bool" where
  "in_ok i \<longleftrightarrow> in_rest i \<noteq> []"

definition in_peek :: "scan_in \<Rightarrow> char" where
  "in_peek i = char_at0 OfStream (in_rest i)"

definition in_get :: "scan_in \<Rightarrow> char \<times> scan_in" where
  "in_get i =
     (let ch = in_peek i; r = tl (in_rest i); col = in_column i + 1;
          e = (case in_line_ending i of
                 Some c \<Rightarrow> Some c
               | None \<Rightarrow> if ch = LF then Some LF
                   else if ch = CR then Some (if char_at0 OfStream r = LF then LF else CR) else None)
      in (ch, \<lparr>in_rest = r, in_column = (if ch = (case e of None \<Rightarrow> CHR 0x00 | Some c \<Rightarrow> c) then 0 else col), in_line_ending = e\<rparr>))"

fun in_eat :: "nat \<Rightarrow> scan_in \<Rightarrow> scan_in" where
  "in_eat 0 i = i"
| "in_eat (Suc n) i = in_eat n (snd (in_get i))"

fun in_take :: "nat \<Rightarrow> scan_in \<Rightarrow> string \<times> scan_in" where
  "in_take 0 i = ([], i)"
| "in_take (Suc n) i = (case in_get i of (c, i1) \<Rightarrow> (case in_take n i1 of (s, i2) \<Rightarrow> (c # s, i2)))"

definition in_match :: "regex \<Rightarrow> scan_in \<Rightarrow> nat option" where
  "in_match r i = rmatch OfStream r (in_rest i)"

definition in_matches :: "regex \<Rightarrow> scan_in \<Rightarrow> bool" where
  "in_matches r i \<longleftrightarrow> in_match r i \<noteq> None"

section \<open>What the expressions match\<close>

lemma match_simps [simp]:
  "match_unchecked src (r_or a b) s = (case match_unchecked src a s of Some n \<Rightarrow> Some n | None \<Rightarrow> match_unchecked src b s)"
  "match_unchecked src (r_seq a b) s = (case rmatch src a s of None \<Rightarrow> None
     | Some n \<Rightarrow> map_option ((+) n) (rmatch src b (drop n s)))"
  "match_unchecked src (r_and a b) s = (case match_unchecked src a s of None \<Rightarrow> None
     | Some n \<Rightarrow> (case match_unchecked src b s of None \<Rightarrow> None | Some _ \<Rightarrow> Some n))"
  by (auto simp: r_or_def r_seq_def r_and_def rmatch_def split: option.splits)

lemma match_any_of [simp]: "match_unchecked src (any_of cs) s = (if char_at0 src s \<in> set cs then Some 1 else None)"
proof -
  have "match_or src (map RMatch cs) s = (if char_at0 src s \<in> set cs then Some 1 else None)"
    by (induction cs) auto
  then show ?thesis by (simp add: any_of_def)
qed

lemma rmatch_stream [simp]: "rmatch OfStream r s = match_unchecked OfStream r s"
  by (simp add: rmatch_def valid_source_def)

lemma rmatch_string [simp]:
  "rmatch OfString (RMatch c) s = (if s \<noteq> [] \<and> hd s = c then Some 1 else None)"
  "rmatch OfString (RRange x z) s = (if s \<noteq> [] \<and> schar x \<le> schar (hd s) \<and> schar (hd s) \<le> schar z then Some 1 else None)"
  "rmatch OfString REmpty s = (if s = [] then Some 0 else None)"
  "rmatch OfString (r_or a b) s = match_unchecked OfString (r_or a b) s"
  "rmatch OfString (r_seq a b) s = match_unchecked OfString (r_seq a b) s"
  "rmatch OfString (any_of cs) s = match_unchecked OfString (any_of cs) s"
  "rmatch OfString (RNot r) s = match_unchecked OfString (RNot r) s"
  by (cases s; auto simp: rmatch_def valid_source_def r_or_def r_seq_def any_of_def char_at0_def)+

lemma char_at0_simps [simp]: "char_at0 src [] = end_char src" "char_at0 src (c # s) = c"
  by (simp_all add: char_at0_def)

lemma end_char_simps [simp]: "end_char OfString = CHR 0x00" "end_char OfStream = CHR 0x04"
  by (simp_all add: end_char_def)

lemma match_seq_word:
  "CHR 0x04 \<notin> set w \<Longrightarrow> match_seq src (map RMatch w) s n
     = (if take (length w) (drop n s) = w then Some (n + length w) else None)"
proof (induction w arbitrary: n)
  case (Cons c w)
  show ?case
  proof (cases "drop n s")
    case Nil
    then show ?thesis using Cons.prems by (cases src) (simp_all add: valid_source_def)
  next
    case (Cons d r)
    then have "drop (Suc n) s = r" by (metis drop_Suc list.sel(3) tl_drop)
    then show ?thesis using Cons.IH [of "Suc n"] Cons.prems \<open>drop n s = d # r\<close> by (simp add: valid_source_def split: source.split)
  qed
qed simp

lemma match_word_of [simp]:
  "CHR 0x04 \<notin> set w \<Longrightarrow> match_unchecked src (word_of w) s = (if take (length w) s = w then Some (length w) else None)"
  by (simp add: word_of_def match_seq_word)

definition is_blank :: "char \<Rightarrow> bool" where
  "is_blank c \<longleftrightarrow> c = CHR '' '' \<or> c = TAB"

definition is_break :: "char \<Rightarrow> bool" where
  "is_break c \<longleftrightarrow> c = LF \<or> c = CR"

lemma not_ends [simp]: "\<not> is_blank (end_char src)" "\<not> is_break (end_char src)"
  by (cases src; simp add: is_blank_def is_break_def)+

lemma match_blank: "match_unchecked src exp_blank s = (if is_blank (char_at0 src s) then Some 1 else None)"
  by (simp add: exp_blank_def is_blank_def)

lemma match_break: "match_unchecked src exp_break s
    = (if is_break (char_at0 src s) then Some (if take 2 s = [CR, LF] then 2 else 1) else None)"
  by (cases s; cases src) (auto simp: exp_break_def is_break_def numeral_2_eq_2 split: list.splits)

lemma match_blank_or_break:
  "match_unchecked src exp_blank_or_break s \<noteq> None \<longleftrightarrow> is_blank (char_at0 src s) \<or> is_break (char_at0 src s)"
  by (simp add: exp_blank_or_break_def match_blank match_break)

end
