(* ===== verification/YamlScalarOut.thy ===== *)
theory YamlScalarOut
  imports YamlRegex
begin

text \<open>
  Writing scalars, \<open>emitterutils.cpp\<close> of yaml-cpp: code points of a UTF-8 text, the test for
  plain scalars, quoting and escaping, and the choice of the format in \<open>Emitter::Write\<close>.
  \<open>char\<close> is a byte; a code point is a \<open>nat\<close>, as every branch that sets it keeps it in the range
  of \<open>int\<close> and above -1.
\<close>

section \<open>Code points\<close>

definition replacement_character :: nat where
  "replacement_character = 0xFFFD"

definition utf8_bytes_indicated :: "char \<Rightarrow> nat option" where
  "utf8_bytes_indicated c =
     (let h = drop_bit 4 (of_char c :: nat)
      in if h \<le> 7 then Some 1 else if h = 12 \<or> h = 13 then Some 2 else if h = 14 then Some 3
         else if h = 15 then Some 4 else None)"

definition is_trailing_byte :: "char \<Rightarrow> bool" where
  "is_trailing_byte c \<longleftrightarrow> (of_char c :: nat) AND 0xC0 = 0x80"

text \<open>The loop over the trailing bytes.\<close>

fun gather_bits :: "nat \<Rightarrow> nat \<Rightarrow> string \<Rightarrow> nat \<times> string" where
  "gather_bits 0 cp s = (cp, s)"
| "gather_bits (Suc n) cp [] = (replacement_character, [])"
| "gather_bits (Suc n) cp (c # s) =
     (if \<not> is_trailing_byte c then (replacement_character, c # s)
      else gather_bits n (push_bit 6 cp OR ((of_char c :: nat) AND 0x3F)) s)"

definition legal_code_point :: "nat \<Rightarrow> bool" where
  "legal_code_point cp \<longleftrightarrow> \<not> cp > 0x10FFFF \<and> \<not> (cp \<ge> 0xD800 \<and> cp \<le> 0xDFFF) \<and> \<not> cp AND 0xFFFE = 0xFFFE
     \<and> \<not> (cp \<ge> 0xFDD0 \<and> cp \<le> 0xFDEF)"

text \<open>\<open>GetNextCodePointAndAdvance\<close>.\<close>

definition next_code_point :: "string \<Rightarrow> (nat \<times> string) option" where
  "next_code_point s = (case s of [] \<Rightarrow> None
     | c # r \<Rightarrow> (case utf8_bytes_indicated c of
           None \<Rightarrow> Some (replacement_character, r)
         | Some n \<Rightarrow>
             if n = 1 then Some (of_char c, r)
             else (case gather_bits (n - 1) (take_bit (7 - n) (of_char c)) r of
                     (cp, r') \<Rightarrow> Some (if legal_code_point cp then cp else replacement_character, r'))))"

definition write_code_point :: "nat \<Rightarrow> string" where
  "write_code_point cp0 =
     (let cp = (if cp0 > 0x10FFFF then replacement_character else cp0)
      in if cp \<le> 0x7F then [char_of cp]
         else if cp \<le> 0x7FF then [char_of (0xC0 OR drop_bit 6 cp), char_of (0x80 OR (cp AND 0x3F))]
         else if cp \<le> 0xFFFF then
           [char_of (0xE0 OR drop_bit 12 cp), char_of (0x80 OR (drop_bit 6 cp AND 0x3F)), char_of (0x80 OR (cp AND 0x3F))]
         else [char_of (0xF0 OR drop_bit 18 cp), char_of (0x80 OR (drop_bit 12 cp AND 0x3F)),
           char_of (0x80 OR (drop_bit 6 cp AND 0x3F)), char_of (0x80 OR (cp AND 0x3F))])"

lemma gather_bits_length: "length (snd (gather_bits n cp s)) \<le> length s"
  by (induction n cp s rule: gather_bits.induct) auto

lemma next_code_point_length: "next_code_point s = Some (cp, r) \<Longrightarrow> length r < length s"
  using gather_bits_length [of _ _ "tl s"]
  by (auto simp: next_code_point_def split: list.splits option.splits if_splits prod.splits) (metis le_imp_less_Suc snd_conv)+

section \<open>Formats\<close>

datatype emitter_manip = ManipAuto | ManipSingleQuoted | ManipDoubleQuoted | ManipLiteral
datatype string_format = FmtPlain | FmtSingleQuoted | FmtDoubleQuoted | FmtLiteral
datatype string_escaping = EscNone | EscNonAscii | EscJSON

definition is_null_string :: "string \<Rightarrow> bool" where
  "is_null_string s \<longleftrightarrow> s = [] \<or> s = ''~'' \<or> s = ''null'' \<or> s = ''Null'' \<or> s = ''NULL''"

definition disallowed_scalar :: "bool \<Rightarrow> regex" where
  "disallowed_scalar flow =
     r_or (r_or (r_or (r_or (r_or (r_or (if flow then exp_end_scalar_in_flow else exp_end_scalar)
       (r_seq exp_blank_or_break exp_comment)) exp_not_printable) exp_byte_order_mark) exp_break) (RMatch TAB)) (RMatch (CHR ''&''))"

fun plain_loop :: "bool \<Rightarrow> bool \<Rightarrow> string \<Rightarrow> bool" where
  "plain_loop flow only_ascii [] = True"
| "plain_loop flow only_ascii (c # s) =
     (if matches OfString (disallowed_scalar flow) (c # s) then False
      else if only_ascii \<and> 0x80 \<le> (of_char c :: nat) then False
      else plain_loop flow only_ascii s)"

definition is_valid_plain_scalar :: "string \<Rightarrow> bool \<Rightarrow> bool \<Rightarrow> bool" where
  "is_valid_plain_scalar s flow only_ascii =
     (if is_null_string s then False
      else if \<not> matches OfString (if flow then exp_plain_scalar_in_flow else exp_plain_scalar) s then False
      else if s \<noteq> [] \<and> last s = CHR '' '' then False
      else plain_loop flow only_ascii s)"

definition is_valid_single_quoted_scalar :: "string \<Rightarrow> bool \<Rightarrow> bool" where
  "is_valid_single_quoted_scalar s escape_non_ascii \<longleftrightarrow>
     \<not> list_ex (\<lambda>c. (escape_non_ascii \<and> 0x80 \<le> (of_char c :: nat)) \<or> c = LF) s"

definition is_valid_literal_scalar :: "string \<Rightarrow> bool \<Rightarrow> bool \<Rightarrow> bool" where
  "is_valid_literal_scalar s flow escape_non_ascii =
     (if flow then False else \<not> list_ex (\<lambda>c. escape_non_ascii \<and> 0x80 \<le> (of_char c :: nat)) s)"

definition compute_string_format :: "string \<Rightarrow> emitter_manip \<Rightarrow> bool \<Rightarrow> bool \<Rightarrow> string_format" where
  "compute_string_format s fmt flow escape_non_ascii = (case fmt of
      ManipAuto \<Rightarrow> if is_valid_plain_scalar s flow escape_non_ascii then FmtPlain else FmtDoubleQuoted
    | ManipSingleQuoted \<Rightarrow> if is_valid_single_quoted_scalar s escape_non_ascii then FmtSingleQuoted else FmtDoubleQuoted
    | ManipDoubleQuoted \<Rightarrow> FmtDoubleQuoted
    | ManipLiteral \<Rightarrow> if is_valid_literal_scalar s flow escape_non_ascii then FmtLiteral else FmtDoubleQuoted)"

section \<open>Writing\<close>

definition encode_utf16_surrogate_pair :: "nat \<Rightarrow> nat \<times> nat" where
  "encode_utf16_surrogate_pair cp =
     ((0xD800 - drop_bit 10 0x10000) OR drop_bit 10 cp, 0xDC00 OR (cp AND 0x3FF))"

definition hex_digits :: string where
  "hex_digits = ''0123456789abcdef''"

text \<open>The digits, from the highest.\<close>

fun write_hex :: "nat \<Rightarrow> nat \<Rightarrow> string" where
  "write_hex 0 cp = []"
| "write_hex (Suc n) cp = hex_digits ! (drop_bit (4 * n) cp AND 0xF) # write_hex n cp"

text \<open>\<open>WriteDoubleQuoteEscapeSequence\<close>; the calls for a surrogate pair have two code units below
  0xFFFF each.\<close>

definition escape_unit :: "nat \<Rightarrow> string_escaping \<Rightarrow> string option" where
  "escape_unit cp style =
     (if cp < 0xFF \<and> style \<noteq> EscJSON then Some ([BSLASH, CHR ''x''] @ write_hex 2 cp)
      else if cp < 0xFFFF then Some ([BSLASH, CHR ''u''] @ write_hex 4 cp)
      else if style \<noteq> EscJSON then Some ([BSLASH, CHR ''U''] @ write_hex 8 cp)
      else None)"

definition write_double_quote_escape_sequence :: "nat \<Rightarrow> string_escaping \<Rightarrow> string" where
  "write_double_quote_escape_sequence cp style = (case escape_unit cp style of
      Some s \<Rightarrow> s
    | None \<Rightarrow> (case encode_utf16_surrogate_pair cp of (hi, lo) \<Rightarrow>
        [BSLASH] @ the (escape_unit hi style) @ the (escape_unit lo style)))"

definition single_quoted_char :: "nat \<Rightarrow> string" where
  "single_quoted_char cp = (if cp = 0x27 then [SQUOTE, SQUOTE] else write_code_point cp)"

function single_quoted_body :: "string \<Rightarrow> string \<times> bool" where
  "single_quoted_body s = (case next_code_point s of
      None \<Rightarrow> ([], True)
    | Some (cp, r) \<Rightarrow> if cp = 0x0A then ([], False) else apfst ((@) (single_quoted_char cp)) (single_quoted_body r))"
  by pat_completeness auto
termination by (relation "measure length") (auto dest: next_code_point_length)

definition double_quoted_char :: "string_escaping \<Rightarrow> nat \<Rightarrow> string" where
  "double_quoted_char style cp =
     (if cp = 0x22 then [BSLASH, DQUOTE]
      else if cp = 0x5C then [BSLASH, BSLASH]
      else if cp = 0x0A then [BSLASH, CHR ''n'']
      else if cp = 0x09 then [BSLASH, CHR ''t'']
      else if cp = 0x0D then [BSLASH, CHR ''r'']
      else if cp = 0x08 then [BSLASH, CHR ''b'']
      else if cp = 0x0C then [BSLASH, CHR ''f'']
      else if cp < 0x20 \<or> (cp \<ge> 0x80 \<and> cp \<le> 0xA0) then write_double_quote_escape_sequence cp style
      else if cp = 0xFEFF then write_double_quote_escape_sequence cp style
      else if style = EscNonAscii \<and> cp > 0x7E then write_double_quote_escape_sequence cp style
      else write_code_point cp)"

function double_quoted_body :: "string_escaping \<Rightarrow> string \<Rightarrow> string" where
  "double_quoted_body style s = (case next_code_point s of
      None \<Rightarrow> []
    | Some (cp, r) \<Rightarrow> double_quoted_char style cp @ double_quoted_body style r)"
  by pat_completeness auto
termination by (relation "measure (length \<circ> snd)") (auto dest: next_code_point_length)

declare single_quoted_body.simps [simp del] double_quoted_body.simps [simp del]

text \<open>What is written, and the result, which the emitter ignores.\<close>

definition write_single_quoted_string :: "string \<Rightarrow> string \<times> bool" where
  "write_single_quoted_string s = (case single_quoted_body s of
      (b, good) \<Rightarrow> ([SQUOTE] @ b @ (if good then [SQUOTE] else []), good))"

definition write_double_quoted_string :: "string_escaping \<Rightarrow> string \<Rightarrow> string" where
  "write_double_quoted_string style s = [DQUOTE] @ double_quoted_body style s @ [DQUOTE]"

text \<open>\<open>WriteLiteralString\<close>; \<open>col\<close> is the column of the stream, which \<open>IndentTo\<close> fills up.\<close>

function literal_body :: "nat \<Rightarrow> nat \<Rightarrow> string \<Rightarrow> string" where
  "literal_body indent col s = (case next_code_point s of
      None \<Rightarrow> []
    | Some (cp, r) \<Rightarrow>
        if cp = 0x0A then LF # literal_body indent 0 r
        else replicate (indent - col) (CHR '' '') @ write_code_point cp
          @ literal_body indent (max col indent + length (write_code_point cp)) r)"
  by pat_completeness auto
termination by (relation "measure (\<lambda>(_, _, s). length s)") (auto dest: next_code_point_length)

declare literal_body.simps [simp del]

text \<open>\<open>Emitter::Write\<close> of a string, the text alone.\<close>

definition emit_string :: "emitter_manip \<Rightarrow> string_escaping \<Rightarrow> bool \<Rightarrow> nat \<Rightarrow> string \<Rightarrow> string" where
  "emit_string fmt style flow indent s = (case compute_string_format s fmt flow (style = EscNonAscii) of
      FmtPlain \<Rightarrow> s
    | FmtSingleQuoted \<Rightarrow> fst (write_single_quoted_string s)
    | FmtDoubleQuoted \<Rightarrow> write_double_quoted_string style s
    | FmtLiteral \<Rightarrow> ''|'' @ [LF] @ literal_body indent 0 s)"

section \<open>Texts\<close>

text \<open>What the writing keeps: texts of legal code points in UTF-8.\<close>

definition utf8_of :: "nat list \<Rightarrow> string" where
  "utf8_of cps = concat (map write_code_point cps)"

definition utf8_text :: "string \<Rightarrow> bool" where
  "utf8_text s \<longleftrightarrow> (\<exists>cps. list_all legal_code_point cps \<and> s = utf8_of cps)"

lemma or_base:
  assumes "(b :: nat) < 2 ^ n"
  shows "a * 2 ^ n OR b = a * 2 ^ n + b"
  using or_low [OF assms, of a] by (simp add: push_bit_eq_mult)

lemma low_six: "x AND 0x3F = x mod (64 :: nat)"
  using take_bit_eq_mask [of 6 x] by (simp add: take_bit_eq_mod mask_eq_exp_minus_1 flip: and.commute)

lemma write_code_point_bytes:
  assumes "cp \<le> 0x10FFFF"
  shows "write_code_point cp =
    (if cp \<le> 0x7F then [char_of cp]
     else if cp \<le> 0x7FF then [char_of (0xC0 + cp div 64), char_of (0x80 + cp mod 64)]
     else if cp \<le> 0xFFFF then [char_of (0xE0 + cp div 4096), char_of (0x80 + cp div 64 mod 64), char_of (0x80 + cp mod 64)]
     else [char_of (0xF0 + cp div 262144), char_of (0x80 + cp div 4096 mod 64), char_of (0x80 + cp div 64 mod 64),
       char_of (0x80 + cp mod 64)])"
proof -
  have t: "0x80 OR y mod 64 = 0x80 + y mod 64" for y :: nat using or_base [of "y mod 64" 6 2] by simp
  have l2: "0xC0 OR x = 0xC0 + x" if "x < 32" for x :: nat using or_base [of x 5 6] that by simp
  have l3: "0xE0 OR x = 0xE0 + x" if "x < 16" for x :: nat using or_base [of x 4 14] that by simp
  have l4: "0xF0 OR x = 0xF0 + x" if "x < 8" for x :: nat using or_base [of x 3 30] that by simp
  have d: "drop_bit 6 cp = cp div 64" "drop_bit 12 cp = cp div 4096" "drop_bit 18 cp = cp div 262144"
    by (simp_all add: drop_bit_eq_div)
  have l: "cp \<le> 0x7FF \<Longrightarrow> 0xC0 OR cp div 64 = 0xC0 + cp div 64" "cp \<le> 0xFFFF \<Longrightarrow> 0xE0 OR cp div 4096 = 0xE0 + cp div 4096"
    "0xF0 OR cp div 262144 = 0xF0 + cp div 262144"
    using assms by (intro l2 l3 l4; simp)+
  show ?thesis using assms by (simp add: write_code_point_def Let_def low_six t d l)
qed

lemma of_char_char_of: "n < 256 \<Longrightarrow> (of_char (char_of n) :: nat) = n"
  by simp

lemma high_two: "x AND 0xC0 = x div 64 mod 4 * (64 :: nat)"
proof -
  have "x AND 0xC0 = push_bit 6 (take_bit 2 (drop_bit 6 x))"
  proof (rule bit_eqI)
    fix n
    have "bit (0xC0 :: nat) n \<longleftrightarrow> bit (push_bit 6 (mask 2) :: nat) n" by (simp add: mask_eq_exp_minus_1 push_bit_eq_mult)
    then show "bit (x AND 0xC0) n \<longleftrightarrow> bit (push_bit 6 (take_bit 2 (drop_bit 6 x))) n"
      by (auto simp: bit_and_iff bit_push_bit_iff bit_take_bit_iff bit_drop_bit_eq bit_mask_iff)
  qed
  then show ?thesis by (simp add: push_bit_eq_mult take_bit_eq_mod drop_bit_eq_div)
qed

lemma digit_split: "x < b \<Longrightarrow> (a * b + x) div b = a \<and> (a * b + x) mod b = (x :: nat)"
  by simp

lemma trailing_byte:
  assumes "x < 64"
  shows "is_trailing_byte (char_of (0x80 + x :: nat))" and "(of_char (char_of (0x80 + x :: nat)) :: nat) AND 0x3F = x"
proof -
  have v: "(of_char (char_of (0x80 + x :: nat)) :: nat) = 0x80 + x" using assms by (intro of_char_char_of) simp
  have d: "(0x80 + x) mod 64 = x" "(0x80 + x) div 64 = 2" using digit_split [OF assms, of 2] by simp_all
  show "is_trailing_byte (char_of (0x80 + x :: nat))" unfolding is_trailing_byte_def v high_two d by simp
  show "(of_char (char_of (0x80 + x :: nat)) :: nat) AND 0x3F = x" unfolding v low_six d by simp
qed

lemma gather_one:
  assumes "x < 64"
  shows "gather_bits (Suc n) cp (char_of (0x80 + x) # s) = gather_bits n (cp * 64 + x) s"
  unfolding gather_bits.simps trailing_byte(2) [OF assms] using trailing_byte(1) [OF assms] or_base [of x 6 cp] assms
  by (simp only: push_bit_eq_mult) simp

lemma gather_some:
  assumes "x < 64" "y < 64" "z < 64"
  shows "gather_bits 1 a (char_of (0x80 + x) # s) = (a * 64 + x, s)"
    and "gather_bits 2 a (char_of (0x80 + x) # char_of (0x80 + y) # s) = ((a * 64 + x) * 64 + y, s)"
    and "gather_bits 3 a (char_of (0x80 + x) # char_of (0x80 + y) # char_of (0x80 + z) # s) = (((a * 64 + x) * 64 + y) * 64 + z, s)"
  unfolding numeral_2_eq_2 numeral_3_eq_3 One_nat_def
  by (simp_all only: gather_one [OF assms(1)] gather_one [OF assms(2)] gather_one [OF assms(3)] gather_bits.simps(1))

lemma lead_byte:
  "x < 32 \<Longrightarrow> utf8_bytes_indicated (char_of (0xC0 + x :: nat)) = Some 2 \<and> take_bit 5 (of_char (char_of (0xC0 + x :: nat)) :: nat) = x"
  "x < 16 \<Longrightarrow> utf8_bytes_indicated (char_of (0xE0 + x :: nat)) = Some 3 \<and> take_bit 4 (of_char (char_of (0xE0 + x :: nat)) :: nat) = x"
  "x < 8 \<Longrightarrow> utf8_bytes_indicated (char_of (0xF0 + x :: nat)) = Some 4 \<and> take_bit 3 (of_char (char_of (0xF0 + x :: nat)) :: nat) = x"
  "x < 128 \<Longrightarrow> utf8_bytes_indicated (char_of (x :: nat)) = Some 1"
proof -
  have a: "(0xC0 + x) div 16 = 12 \<or> (0xC0 + x) div 16 = 13" "(0xC0 + x) mod 32 = x" if "x < 32"
  proof -
    have "(12 * 16 + x) div 16 = 12 + x div 16" by simp
    moreover have "x div 16 < 2" using that by simp
    ultimately show "(0xC0 + x) div 16 = 12 \<or> (0xC0 + x) div 16 = 13" by auto
    show "(0xC0 + x) mod 32 = x" using digit_split [OF that, of 6] by simp
  qed
  have b: "(0xE0 + x) div 16 = 14" "(0xE0 + x) mod 16 = x" if "x < 16" using digit_split [OF that, of 14] by simp_all
  have c: "(0xF0 + x) div 16 = 15" "(0xF0 + x) mod 8 = x" if "x < 8"
    using digit_split [of x 16 15] digit_split [OF that, of 30] that by simp_all
  show "x < 32 \<Longrightarrow> utf8_bytes_indicated (char_of (0xC0 + x :: nat)) = Some 2 \<and> take_bit 5 (of_char (char_of (0xC0 + x :: nat)) :: nat) = x"
    using a by (auto simp: utf8_bytes_indicated_def drop_bit_eq_div take_bit_eq_mod Let_def)
  show "x < 16 \<Longrightarrow> utf8_bytes_indicated (char_of (0xE0 + x :: nat)) = Some 3 \<and> take_bit 4 (of_char (char_of (0xE0 + x :: nat)) :: nat) = x"
    using b by (auto simp: utf8_bytes_indicated_def drop_bit_eq_div take_bit_eq_mod Let_def)
  show "x < 8 \<Longrightarrow> utf8_bytes_indicated (char_of (0xF0 + x :: nat)) = Some 4 \<and> take_bit 3 (of_char (char_of (0xF0 + x :: nat)) :: nat) = x"
    using c by (auto simp: utf8_bytes_indicated_def drop_bit_eq_div take_bit_eq_mod Let_def)
  show "x < 128 \<Longrightarrow> utf8_bytes_indicated (char_of (x :: nat)) = Some 1"
  proof -
    assume x: "x < 128"
    then have "x div 16 \<le> 7" by simp
    moreover have "(of_char (char_of x :: char) :: nat) = x" using x by (intro of_char_char_of) simp
    ultimately show ?thesis unfolding utf8_bytes_indicated_def by (simp only: drop_bit_eq_div Let_def) simp
  qed
qed

text \<open>Reading back one code point.\<close>

lemma next_code_point_write:
  assumes "legal_code_point cp"
  shows "next_code_point (write_code_point cp @ s) = Some (cp, s)"
proof -
  have cp: "cp \<le> 0x10FFFF" using assms by (simp add: legal_code_point_def)
  note w = write_code_point_bytes [OF cp]
  have "cp div 4096 = cp div 64 div 64" "cp div 262144 = cp div 64 div 64 div 64" by (simp_all flip: div_mult2_eq)
  note halves = this
  have m: "cp mod 64 < 64" "cp div 64 mod 64 < 64" "cp div 4096 mod 64 < 64" by simp_all
  show ?thesis
  proof -
    consider "cp \<le> 0x7F" | "0x7F < cp" "cp \<le> 0x7FF" | "0x7FF < cp" "cp \<le> 0xFFFF" | "0xFFFF < cp" by linarith
    then show ?thesis
    proof cases
      case 1
      then show ?thesis using lead_byte(4) [of cp] by (simp add: w next_code_point_def)
    next
      case 2
      then have l: "cp div 64 < 32" by simp
      show ?thesis using lead_byte(1) [OF l] 2 assms m by (simp add: w next_code_point_def gather_some(1) [unfolded One_nat_def] del: gather_bits.simps)
    next
      case 3
      then have l: "cp div 4096 < 16" by simp
      show ?thesis using lead_byte(2) [OF l] 3 assms m by (simp add: w next_code_point_def gather_some(2) halves del: gather_bits.simps)
    next
      case 4
      then have l: "cp div 262144 < 8" using cp by simp
      show ?thesis using lead_byte(3) [OF l] 4 assms m by (simp add: w next_code_point_def gather_some(3) halves del: gather_bits.simps)
    qed
  qed
qed

lemma next_code_point_Nil [simp]: "next_code_point [] = None"
  by (simp add: next_code_point_def)

lemma double_quoted_body_utf8:
  "list_all legal_code_point cps \<Longrightarrow> double_quoted_body style (utf8_of cps) = concat (map (double_quoted_char style) cps)"
  by (induction cps) (simp_all add: double_quoted_body.simps utf8_of_def next_code_point_write)

lemma single_quoted_body_utf8:
  "list_all legal_code_point cps \<Longrightarrow> 0x0A \<notin> set cps
    \<Longrightarrow> single_quoted_body (utf8_of cps) = (concat (map single_quoted_char cps), True)"
  by (induction cps) (simp_all add: single_quoted_body.simps utf8_of_def next_code_point_write)

end
