(* ===== verification/YamlScalarIn.thy ===== *)
theory YamlScalarIn
  imports YamlScalarOut
begin

text \<open>
  Scanning scalars: \<open>Exp::Escape\<close> (\<open>exp.cpp\<close>), \<open>ScanScalar\<close> (\<open>scanscalar.cpp\<close>) and the scanners
  of quoted, plain and block scalars (\<open>scantoken.cpp\<close>) with the branch of \<open>ScanNextToken\<close> that leads to
  them (\<open>scanner.cpp\<close>).  Exceptions are values of \<open>scan_error\<close>, without their marks.  The
  bookkeeping of simple keys is not part of it.  A byte 4 in the input, which the
  stream takes for its end, is outside of this model.
\<close>

datatype scan_error =
    InvalidHex
  | InvalidUnicode
  | InvalidEscape
  | DocInScalar
  | EofInScalar
  | TabInIndentation
  | ZeroIndentInBlock
  | CharInBlock
  | UnexpectedFlow
  | UnexpectedScalar
  | UnknownToken

section \<open>Escapes\<close>

definition hex_digit_value :: "char \<Rightarrow> nat option" where
  "hex_digit_value c = (let k = (of_char c :: nat) in
     if 97 \<le> k \<and> k \<le> 102 then Some (k - 97 + 10)
     else if 65 \<le> k \<and> k \<le> 70 then Some (k - 65 + 10)
     else if 48 \<le> k \<and> k \<le> 57 then Some (k - 48)
     else None)"

fun parse_hex :: "nat \<Rightarrow> string \<Rightarrow> nat option" where
  "parse_hex v [] = Some v"
| "parse_hex v (c # s) = (case hex_digit_value c of None \<Rightarrow> None | Some d \<Rightarrow> parse_hex ((v * 16 + d) mod 2 ^ 32) s)"

definition code_bytes :: "nat \<Rightarrow> string" where
  "code_bytes v =
     (if v \<le> 0x7F then [char_of v]
      else if v \<le> 0x7FF then [char_of (0xC0 + drop_bit 6 v), char_of (0x80 + (v AND 0x3F))]
      else if v \<le> 0xFFFF then
        [char_of (0xE0 + drop_bit 12 v), char_of (0x80 + (drop_bit 6 v AND 0x3F)), char_of (0x80 + (v AND 0x3F))]
      else [char_of (0xF0 + drop_bit 18 v), char_of (0x80 + (drop_bit 12 v AND 0x3F)),
        char_of (0x80 + (drop_bit 6 v AND 0x3F)), char_of (0x80 + (v AND 0x3F))])"

definition escape_code :: "nat \<Rightarrow> scan_in \<Rightarrow> scan_error + string \<times> scan_in" where
  "escape_code n i = (case in_take n i of (s, i') \<Rightarrow> (case parse_hex 0 s of
      None \<Rightarrow> Inl InvalidHex
    | Some v \<Rightarrow> if (v \<ge> 0xD800 \<and> v \<le> 0xDFFF) \<or> v > 0x10FFFF then Inl InvalidUnicode else Inr (code_bytes v, i')))"

text \<open>The characters that stand for themselves or one other, in the order of the switch.\<close>

definition escape_char :: "char \<Rightarrow> string option" where
  "escape_char ch =
     (if ch = CHR ''0'' then Some [CHR 0x00]
      else if ch = CHR ''a'' then Some [CHR 0x07]
      else if ch = CHR ''b'' then Some [CHR 0x08]
      else if ch = CHR ''t'' \<or> ch = TAB then Some [TAB]
      else if ch = CHR ''n'' then Some [LF]
      else if ch = CHR ''v'' then Some [CHR 0x0B]
      else if ch = CHR ''f'' then Some [CHR 0x0C]
      else if ch = CHR ''r'' then Some [CR]
      else if ch = CHR ''e'' then Some [CHR 0x1B]
      else if ch = CHR '' '' then Some [CHR '' '']
      else if ch = DQUOTE then Some [DQUOTE]
      else if ch = SQUOTE then Some [SQUOTE]
      else if ch = BSLASH then Some [BSLASH]
      else if ch = CHR ''/'' then Some [CHR ''/'']
      else if ch = CHR ''N'' then Some [CHR 0x85]
      else if ch = CHR ''_'' then Some [CHR 0xA0]
      else if ch = CHR ''L'' then Some [CHR 0xE2, CHR 0x80, CHR 0xA8]
      else if ch = CHR ''P'' then Some [CHR 0xE2, CHR 0x80, CHR 0xA9]
      else None)"

definition escape_seq :: "scan_in \<Rightarrow> scan_error + string \<times> scan_in" where
  "escape_seq i0 = (case in_get i0 of (escape, i1) \<Rightarrow> (case in_get i1 of (ch, i) \<Rightarrow>
     if escape = SQUOTE \<and> ch = SQUOTE then Inr ([SQUOTE], i)
     else (case escape_char ch of
         Some s \<Rightarrow> Inr (s, i)
       | None \<Rightarrow> if ch = CHR ''x'' then escape_code 2 i
           else if ch = CHR ''u'' then escape_code 4 i
           else if ch = CHR ''U'' then escape_code 8 i
           else Inl InvalidEscape)))"

section \<open>Scanning a scalar\<close>

datatype chomp = ChompStrip | ChompClip | ChompKeep
datatype scan_action = ActNone | ActBreak | ActThrow
datatype fold_mode = DontFold | FoldBlock | FoldFlow

record scan_params =
  p_end :: regex
  p_eat_end :: bool
  p_indent :: nat
  p_detect_indent :: bool
  p_eat_leading :: bool
  p_escape :: char
  p_fold :: fold_mode
  p_trim :: bool
  p_chomp :: chomp
  p_doc :: scan_action
  p_tab :: scan_action

text \<open>The local variables of \<open>ScanScalar\<close>, the input among them; \<open>params.indent\<close> and
  \<open>params.leadingSpaces\<close>, which it assigns, are variables as well.\<close>

record scan_st =
  v_in :: scan_in
  v_scalar :: string
  v_found_non_empty :: bool
  v_past_opening :: bool
  v_empty_line :: bool
  v_more_indented :: bool
  v_folded_count :: nat
  v_folded_more :: bool
  v_last_escaped :: "nat option"
  v_last_non_ws :: nat
  v_escaped_newline :: bool
  v_indent :: nat
  v_leading_spaces :: bool

lemma in_get_length: "in_ok i \<Longrightarrow> length (in_rest (snd (in_get i))) < length (in_rest i)"
  by (simp add: in_get_def in_ok_def Let_def)

lemma in_get_length_le: "length (in_rest (snd (in_get i))) \<le> length (in_rest i)"
  by (simp add: in_get_def Let_def)

lemma in_take_length: "length (in_rest (snd (in_take n i))) \<le> length (in_rest i)"
proof (induction n arbitrary: i)
  case (Suc n)
  from Suc [of "snd (in_get i)"] in_get_length_le [of i] show ?case by (simp add: split_beta)
qed simp

lemma in_eat_length_le: "length (in_rest (in_eat n i)) \<le> length (in_rest i)"
proof (induction n arbitrary: i)
  case (Suc n)
  from Suc [of "snd (in_get i)"] in_get_length_le [of i] show ?case by simp
qed simp

lemma in_eat_length: "in_ok i \<Longrightarrow> 0 < n \<Longrightarrow> length (in_rest (in_eat n i)) < length (in_rest i)"
  using in_eat_length_le [of "n - 1" "snd (in_get i)"] in_get_length [of i] by (cases n) auto

lemma escape_seq_length:
  assumes "in_ok i" "escape_seq i = Inr (s, i')"
  shows "length (in_rest i') < length (in_rest i)"
proof -
  have "length (in_rest j') \<le> length (in_rest j)" if "escape_code n j = Inr (t, j')" for n j t j'
    using that in_take_length [of n j] by (auto simp: escape_code_def split: prod.splits option.splits if_splits)
  then have "length (in_rest i') \<le> length (in_rest (snd (in_get (snd (in_get i)))))"
    using assms(2) by (auto simp: escape_seq_def split_beta split: if_splits option.splits)
  with in_get_length [OF assms(1)] in_get_length_le [of "snd (in_get i)"] show ?thesis by linarith
qed

text \<open>Phase 1, up to the end of the line.\<close>

function scan_line :: "scan_params \<Rightarrow> scan_st \<Rightarrow> scan_error + scan_st" where
  "scan_line p v =
     (let i = v_in v in
      if in_matches (p_end p) i \<or> in_matches exp_break i then Inr v
      else if \<not> in_ok i then Inr v
      else if in_column i = 0 \<and> in_matches exp_doc_indicator i \<and> p_doc p = ActBreak then Inr v
      else if in_column i = 0 \<and> in_matches exp_doc_indicator i \<and> p_doc p = ActThrow then Inl DocInScalar
      else let v = v\<lparr>v_found_non_empty := True, v_past_opening := True\<rparr> in
        if p_escape p = BSLASH \<and> in_matches exp_esc_break i
        then Inr (v\<lparr>v_in := snd (in_get i), v_last_non_ws := length (v_scalar v),
                    v_last_escaped := Some (length (v_scalar v)), v_escaped_newline := True\<rparr>)
        else if in_peek i = p_escape p
        then (case escape_seq i of
            Inl e \<Rightarrow> Inl e
          | Inr (s, i') \<Rightarrow> let t = v_scalar v @ s
              in scan_line p (v\<lparr>v_in := i', v_scalar := t, v_last_non_ws := length t, v_last_escaped := Some (length t)\<rparr>))
        else (case in_get i of (ch, i') \<Rightarrow> let t = v_scalar v @ [ch]
              in scan_line p (v\<lparr>v_in := i', v_scalar := t,
                   v_last_non_ws := (if is_blank ch then v_last_non_ws v else length t)\<rparr>)))"
  by pat_completeness auto

termination
proof (relation "measure (\<lambda>(_, v). length (in_rest (v_in v)))", goal_cases)
  case (2 p v i w e s i' t)
  then show ?case using escape_seq_length [of i s i'] by simp
next
  case (3 p v i w ch i' t)
  then show ?case using in_get_length [of i] by (simp add: prod_eq_iff)
qed simp

declare scan_line.simps [simp del]

lemma in_peek_ok: "in_peek i \<noteq> CHR 0x04 \<Longrightarrow> in_ok i"
  by (auto simp: in_peek_def in_ok_def)

lemma in_matches_blank: "in_matches exp_blank i \<longleftrightarrow> is_blank (in_peek i)"
  by (simp add: in_matches_def in_match_def match_blank in_peek_def)

lemma in_match_break: "in_match exp_break i = (if is_break (in_peek i) then Some (if take 2 (in_rest i) = [CR, LF] then 2 else 1) else None)"
  by (simp add: in_match_def match_break in_peek_def)

lemma in_matches_break: "in_matches exp_break i \<longleftrightarrow> is_break (in_peek i)"
  by (simp add: in_matches_def in_match_break)

text \<open>Phase 3: the indentation, then the other blanks.\<close>

function skip_indent :: "scan_params \<Rightarrow> nat \<Rightarrow> bool \<Rightarrow> scan_in \<Rightarrow> scan_in" where
  "skip_indent p indent found i =
     (if in_peek i = CHR '' '' \<and> (in_column i < indent \<or> (p_detect_indent p \<and> \<not> found)) \<and> \<not> in_matches (p_end p) i
      then skip_indent p indent found (in_eat 1 i) else i)"
  by pat_completeness auto

termination
proof (relation "measure (\<lambda>(_, _, _, i). length (in_rest i))", goal_cases)
  case (2 p indent found i)
  then have "in_ok i" by (intro in_peek_ok) simp
  then show ?case using in_eat_length [of i 1] by simp
qed simp

function skip_blanks :: "scan_params \<Rightarrow> nat \<Rightarrow> scan_in \<Rightarrow> scan_error + scan_in" where
  "skip_blanks p indent i =
     (if in_matches exp_blank i then
        if in_peek i = TAB \<and> in_column i < indent \<and> p_tab p = ActThrow then Inl TabInIndentation
        else if \<not> p_eat_leading p then Inr i
        else if in_matches (p_end p) i then Inr i
        else skip_blanks p indent (in_eat 1 i)
      else Inr i)"
  by pat_completeness auto

termination
proof (relation "measure (\<lambda>(_, _, i). length (in_rest i))", goal_cases)
  case (2 p indent i)
  then have "in_ok i" by (intro in_peek_ok) (auto simp: in_matches_blank is_blank_def)
  then show ?case using in_eat_length [of i 1] by simp
qed simp

declare skip_indent.simps [simp del] skip_blanks.simps [simp del]

text \<open>How a line break is kept: the scalar, the count of folded breaks.\<close>

definition fold_break :: "scan_params \<Rightarrow> bool \<Rightarrow> bool \<Rightarrow> scan_st \<Rightarrow> scan_st" where
  "fold_break p next_empty next_more v =
     (if \<not> v_past_opening v then v
      else case p_fold p of
        DontFold \<Rightarrow> v\<lparr>v_scalar := v_scalar v @ [LF]\<rparr>
      | FoldBlock \<Rightarrow>
          (let v = (if \<not> v_empty_line v \<and> \<not> next_empty \<and> \<not> v_more_indented v \<and> \<not> next_more
                      \<and> in_column (v_in v) \<ge> v_indent v
                    then v\<lparr>v_scalar := v_scalar v @ '' ''\<rparr>
                    else if next_empty then v\<lparr>v_folded_count := v_folded_count v + 1\<rparr>
                    else v\<lparr>v_scalar := v_scalar v @ [LF]\<rparr>)
           in if \<not> next_empty \<and> v_folded_count v > 0
              then v\<lparr>v_scalar := v_scalar v @ replicate (v_folded_count v - 1) LF
                       @ (if v_folded_more v \<or> next_more \<or> \<not> v_found_non_empty v then [LF] else []),
                     v_folded_count := 0\<rparr>
              else v)
      | FoldFlow \<Rightarrow>
          (if next_empty then v\<lparr>v_scalar := v_scalar v @ [LF]\<rparr>
           else if \<not> v_empty_line v \<and> \<not> v_escaped_newline v then v\<lparr>v_scalar := v_scalar v @ '' ''\<rparr>
           else v))"

text \<open>Phases 2 and 3 after a line that ended in a break.  The flag tells whether the loop goes on.\<close>

definition to_next_line :: "scan_params \<Rightarrow> scan_st \<Rightarrow> scan_st" where
  "to_next_line p v =
     (let v = (if p_fold p = FoldFlow then v\<lparr>v_scalar := take (v_last_non_ws v) (v_scalar v)\<rparr> else v);
          v = v\<lparr>v_in := in_eat (case in_match exp_break (v_in v) of None \<Rightarrow> 0 | Some n \<Rightarrow> n) (v_in v)\<rparr>;
          v = v\<lparr>v_in := skip_indent p (v_indent v) (v_found_non_empty v) (v_in v)\<rparr>
      in (if p_detect_indent p \<and> \<not> v_found_non_empty v then v\<lparr>v_indent := max (v_indent v) (in_column (v_in v))\<rparr> else v))"

definition begin_line :: "scan_params \<Rightarrow> scan_st \<Rightarrow> bool \<times> scan_st" where
  "begin_line p v =
     (let next_empty = in_matches exp_break (v_in v);
          next_more = in_matches exp_blank (v_in v);
          v = (if p_fold p = FoldBlock \<and> v_folded_count v = 0 \<and> next_empty
               then v\<lparr>v_folded_more := v_more_indented v\<rparr> else v);
          v = fold_break p next_empty next_more v;
          v = v\<lparr>v_empty_line := next_empty, v_more_indented := next_more, v_past_opening := True\<rparr>
      in if \<not> next_empty \<and> in_column (v_in v) < v_indent v then (False, v\<lparr>v_leading_spaces := True\<rparr>) else (True, v))"

definition next_line :: "scan_params \<Rightarrow> scan_st \<Rightarrow> scan_error + bool \<times> scan_st" where
  "next_line p v = (let v = to_next_line p v in
     case skip_blanks p (v_indent v) (v_in v) of
       Inl e \<Rightarrow> Inl e
     | Inr i \<Rightarrow> Inr (begin_line p (v\<lparr>v_in := i\<rparr>)))"

text \<open>The input never grows, and a break is eaten.\<close>

lemma skip_indent_length: "length (in_rest (skip_indent p k f i)) \<le> length (in_rest i)"
proof (induction p k f i rule: skip_indent.induct)
  case (1 p k f i)
  then show ?case using in_eat_length_le [of 1 i]
    by (subst skip_indent.simps) (auto dest: le_trans)
qed

lemma skip_blanks_length: "skip_blanks p k i = Inr j \<Longrightarrow> length (in_rest j) \<le> length (in_rest i)"
proof (induction p k i rule: skip_blanks.induct)
  case (1 p k i)
  then show ?case using in_eat_length_le [of 1 i] skip_blanks.simps [of p k i]
    by (auto split: if_splits dest: le_trans)
qed

lemma fold_break_in [simp]: "v_in (fold_break p a b v) = v_in v"
  by (simp add: fold_break_def Let_def split: fold_mode.split)

lemma begin_line_in [simp]: "v_in (snd (begin_line p v)) = v_in v"
  by (simp add: begin_line_def Let_def)

lemma to_next_line_in: "v_in (to_next_line p v) = skip_indent p (v_indent v) (v_found_non_empty v)
    (in_eat (case in_match exp_break (v_in v) of None \<Rightarrow> 0 | Some n \<Rightarrow> n) (v_in v))"
  by (simp add: to_next_line_def Let_def)

lemma next_line_length:
  assumes "next_line p v = Inr gw" "in_matches exp_break (v_in v)"
  shows "length (in_rest (v_in (snd gw))) < length (in_rest (v_in v))"
proof -
  obtain n where n: "in_match exp_break (v_in v) = Some n" "0 < n"
    using assms(2) by (auto simp: in_matches_def in_match_break split: if_splits)
  have "in_ok (v_in v)" using assms(2) by (intro in_peek_ok) (auto simp: in_matches_break is_break_def)
  from in_eat_length [OF this n(2)] skip_indent_length [of p "v_indent v" "v_found_non_empty v" "in_eat n (v_in v)"]
  have "length (in_rest (v_in (to_next_line p v))) < length (in_rest (v_in v))" by (simp add: to_next_line_in n(1))
  moreover obtain i where "skip_blanks p (v_indent (to_next_line p v)) (v_in (to_next_line p v)) = Inr i" "v_in (snd gw) = i"
    using assms(1) by (auto simp: next_line_def Let_def split: sum.splits)
  ultimately show ?thesis using skip_blanks_length by fastforce
qed

lemma in_matches_esc_break: "in_matches exp_esc_break i \<Longrightarrow> in_matches exp_break (snd (in_get i))"
  by (cases "in_rest i") (auto simp: in_matches_def in_match_def exp_esc_break_def match_break in_get_def Let_def split: if_splits)

text \<open>One turn of phase 1: it ends, or goes on with less input.\<close>

lemma scan_line_cases:
  assumes "scan_line p v = Inr w"
  obtains (stop) "w = v" "in_matches (p_end p) (v_in v) \<or> in_matches exp_break (v_in v) \<or> \<not> in_ok (v_in v)
      \<or> (p_doc p = ActBreak \<and> in_column (v_in v) = 0 \<and> in_matches exp_doc_indicator (v_in v))"
  | (newline) "v_in w = snd (in_get (v_in v))" "in_matches exp_break (v_in w)"
  | (more) u where "scan_line p u = Inr w" "length (in_rest (v_in u)) < length (in_rest (v_in v))"
proof -
  let ?i = "v_in v"
  consider "in_matches (p_end p) ?i \<or> in_matches exp_break ?i \<or> \<not> in_ok ?i
      \<or> (p_doc p = ActBreak \<and> in_column ?i = 0 \<and> in_matches exp_doc_indicator ?i)"
    | "\<not> (in_matches (p_end p) ?i \<or> in_matches exp_break ?i \<or> \<not> in_ok ?i
      \<or> (p_doc p = ActBreak \<and> in_column ?i = 0 \<and> in_matches exp_doc_indicator ?i))"
      "p_escape p = BSLASH \<and> in_matches exp_esc_break ?i"
    | "\<not> (in_matches (p_end p) ?i \<or> in_matches exp_break ?i \<or> \<not> in_ok ?i
      \<or> (p_doc p = ActBreak \<and> in_column ?i = 0 \<and> in_matches exp_doc_indicator ?i))"
      "\<not> (p_escape p = BSLASH \<and> in_matches exp_esc_break ?i)" by blast
  then show thesis
  proof cases
    case 1
    then show thesis using assms stop by (subst (asm) scan_line.simps) (auto simp: Let_def split: if_splits)
  next
    case 2
    then show thesis using assms newline in_matches_esc_break [of ?i]
      by (subst (asm) scan_line.simps) (auto simp: Let_def split: if_splits)
  next
    case 3
    then show thesis using assms more in_get_length [of ?i] escape_seq_length [of ?i]
      by (subst (asm) scan_line.simps) (fastforce simp: Let_def split: if_splits sum.splits prod.splits)
  qed
qed

lemma scan_line_end:
  "scan_line p v = Inr w \<Longrightarrow> length (in_rest (v_in w)) \<le> length (in_rest (v_in v))
     \<and> (in_matches (p_end p) (v_in w) \<or> in_matches exp_break (v_in w) \<or> \<not> in_ok (v_in w)
        \<or> (p_doc p = ActBreak \<and> in_column (v_in w) = 0 \<and> in_matches exp_doc_indicator (v_in w)))"
proof (induction "length (in_rest (v_in v))" arbitrary: v rule: less_induct)
  case less
  from less.prems show ?case
  proof (cases rule: scan_line_cases)
    case newline
    then show ?thesis using in_get_length_le [of "v_in v"] by simp
  next
    case (more u)
    then show ?thesis using less.hyps [of u] by auto
  qed auto
qed

definition scan_vars :: "scan_params \<Rightarrow> scan_in \<Rightarrow> scan_st" where
  "scan_vars p i = \<lparr>v_in = i, v_scalar = [], v_found_non_empty = False, v_past_opening = (p_fold p = FoldFlow),
     v_empty_line = False, v_more_indented = False, v_folded_count = 0, v_folded_more = False, v_last_escaped = None,
     v_last_non_ws = 0, v_escaped_newline = False, v_indent = p_indent p, v_leading_spaces = False\<rparr>"

text \<open>The loop over the lines.\<close>

function scan_lines :: "scan_params \<Rightarrow> scan_st \<Rightarrow> scan_error + scan_st" where
  "scan_lines p v =
     (if \<not> in_ok (v_in v) then Inr v
      else case scan_line p (v\<lparr>v_last_non_ws := length (v_scalar v), v_escaped_newline := False\<rparr>) of
        Inl e \<Rightarrow> Inl e
      | Inr w \<Rightarrow>
          if \<not> in_ok (v_in w) then (if p_eat_end p then Inl EofInScalar else Inr w)
          else if p_doc p = ActBreak \<and> in_column (v_in w) = 0 \<and> in_matches exp_doc_indicator (v_in w) then Inr w
          else (case in_match (p_end p) (v_in w) of
              Some n \<Rightarrow> Inr (if p_eat_end p then w\<lparr>v_in := in_eat n (v_in w)\<rparr> else w)
            | None \<Rightarrow> (case next_line p w of
                Inl e \<Rightarrow> Inl e
              | Inr (go, x) \<Rightarrow> if go then scan_lines p x else Inr x)))"
  by pat_completeness auto

termination
proof (relation "measure (\<lambda>(_, v). length (in_rest (v_in v)))", goal_cases)
  case (2 p v w gx go x)
  note e = scan_line_end [OF 2(2)]
  then have "in_matches exp_break (v_in w)" using 2 by (auto simp: in_matches_def)
  from next_line_length [OF 2(6) this] e 2 show ?case by auto
qed simp

declare scan_lines.simps [simp del]

section \<open>After the last line\<close>

definition find_last_not_of :: "string \<Rightarrow> string \<Rightarrow> nat option" where
  "find_last_not_of cs s = (case dropWhile (\<lambda>c. c \<in> set cs) (rev s) of [] \<Rightarrow> None | c # r \<Rightarrow> Some (length r))"

text \<open>\<open>pos\<close>, not before an escaped character.\<close>

definition keep_escaped :: "nat option \<Rightarrow> nat option \<Rightarrow> nat option" where
  "keep_escaped last_escaped pos = (case last_escaped of
      None \<Rightarrow> pos
    | Some e \<Rightarrow> (case pos of None \<Rightarrow> Some e | Some q \<Rightarrow> if q < e then Some e else Some q))"

definition finish_scalar :: "scan_params \<Rightarrow> nat option \<Rightarrow> string \<Rightarrow> string" where
  "finish_scalar p last_escaped s0 =
     (let s = (if p_trim p then (case keep_escaped last_escaped (find_last_not_of [CHR '' '', TAB] s0) of
                  Some q \<Rightarrow> if q < length s0 then take (q + 1) s0 else s0 | None \<Rightarrow> s0) else s0);
          pos = keep_escaped last_escaped (find_last_not_of [LF] s)
      in (case p_chomp p of
          ChompClip \<Rightarrow> (case pos of None \<Rightarrow> [] | Some q \<Rightarrow> if q + 1 < length s then take (q + 2) s else s)
        | ChompStrip \<Rightarrow> (case pos of None \<Rightarrow> [] | Some q \<Rightarrow> if q < length s then take (q + 1) s else s)
        | ChompKeep \<Rightarrow> s))"

text \<open>\<open>ScanScalar\<close>: the scalar, \<open>leadingSpaces\<close> and the rest of the input.\<close>

definition scan_scalar :: "scan_params \<Rightarrow> scan_in \<Rightarrow> scan_error + string \<times> bool \<times> scan_in" where
  "scan_scalar p i = (case scan_lines p (scan_vars p i) of
      Inl e \<Rightarrow> Inl e
    | Inr v \<Rightarrow> Inr (finish_scalar p (v_last_escaped v) (v_scalar v), v_leading_spaces v, v_in v))"

section \<open>Scalar tokens\<close>

definition quoted_params :: "bool \<Rightarrow> scan_params" where
  "quoted_params single = \<lparr>p_end = (if single then r_and (RMatch SQUOTE) (RNot exp_esc_single_quote) else RMatch DQUOTE),
     p_eat_end = True, p_indent = 0, p_detect_indent = False, p_eat_leading = True,
     p_escape = (if single then SQUOTE else BSLASH), p_fold = FoldFlow, p_trim = False, p_chomp = ChompClip,
     p_doc = ActThrow, p_tab = ActNone\<rparr>"

text \<open>\<open>ScanQuotedScalar\<close>, and \<open>ScanPlainScalar\<close> under the indentation of \<open>GetTopIndent\<close>, -1 at the
  top.\<close>

definition scan_quoted_scalar :: "scan_in \<Rightarrow> scan_error + string \<times> scan_in" where
  "scan_quoted_scalar i = (case scan_scalar (quoted_params (in_peek i = SQUOTE)) (snd (in_get i)) of
      Inl e \<Rightarrow> Inl e | Inr (s, _, i') \<Rightarrow> Inr (s, i'))"

definition plain_params :: "bool \<Rightarrow> int \<Rightarrow> scan_params" where
  "plain_params flow top_indent = \<lparr>p_end = exp_scan_scalar_end flow, p_eat_end = False,
     p_indent = (if flow then 0 else nat (top_indent + 1)), p_detect_indent = False, p_eat_leading = True,
     p_escape = CHR 0x00, p_fold = FoldFlow, p_trim = True, p_chomp = ChompStrip, p_doc = ActBreak, p_tab = ActThrow\<rparr>"

definition scan_plain_scalar :: "bool \<Rightarrow> int \<Rightarrow> scan_in \<Rightarrow> scan_error + string \<times> bool \<times> scan_in" where
  "scan_plain_scalar flow top_indent i = scan_scalar (plain_params flow top_indent) i"

text \<open>\<open>ScanBlockScalar\<close>: the indicators for chomping and indentation, blanks and a comment, then
  the lines.\<close>

fun block_indicators :: "string \<Rightarrow> chomp \<times> nat \<times> bool \<Rightarrow> scan_error + chomp \<times> nat \<times> bool" where
  "block_indicators [] x = Inr x"
| "block_indicators (ch # s) (chomp, indent, detect) =
     (if ch = CHR ''+'' then block_indicators s (ChompKeep, indent, detect)
      else if ch = CHR ''-'' then block_indicators s (ChompStrip, indent, detect)
      else if matches OfString exp_digit [ch] then
        (if ch = CHR ''0'' then Inl ZeroIndentInBlock else block_indicators s (chomp, of_char ch - 48, False))
      else block_indicators s (chomp, indent, detect))"

function eat_blanks :: "scan_in \<Rightarrow> scan_in" where
  "eat_blanks i = (if in_matches exp_blank i then eat_blanks (in_eat 1 i) else i)"
  by pat_completeness auto

termination
proof (relation "measure (\<lambda>i. length (in_rest i))", goal_cases)
  case (2 i)
  then have "in_ok i" by (intro in_peek_ok) (auto simp: in_matches_blank is_blank_def)
  then show ?case using in_eat_length [of i 1] by simp
qed simp

function eat_to_break :: "scan_in \<Rightarrow> scan_in" where
  "eat_to_break i = (if in_ok i \<and> \<not> in_matches exp_break i then eat_to_break (in_eat 1 i) else i)"
  by pat_completeness auto

termination
proof (relation "measure (\<lambda>i. length (in_rest i))", goal_cases)
  case (2 i)
  then show ?case using in_eat_length [of i 1] by simp
qed simp

declare eat_blanks.simps [simp del] eat_to_break.simps [simp del]

definition block_header :: "int \<Rightarrow> scan_in \<Rightarrow> scan_error + scan_params \<times> scan_in" where
  "block_header top_indent i0 = (case in_get i0 of (indicator, i1) \<Rightarrow>
     (case in_take (case in_match exp_chomp i1 of None \<Rightarrow> 0 | Some n \<Rightarrow> n) i1 of (s, i2) \<Rightarrow>
     (case block_indicators s (ChompClip, 1, True) of
         Inl e \<Rightarrow> Inl e
       | Inr (chomp, indent, detect) \<Rightarrow>
           (let i3 = eat_blanks i2; i = (if in_matches exp_comment i3 then eat_to_break i3 else i3)
            in if in_ok i \<and> \<not> in_matches exp_break i then Inl CharInBlock
               else Inr (\<lparr>p_end = REmpty, p_eat_end = False,
                   p_indent = (if top_indent \<ge> 0 then indent + nat top_indent else indent), p_detect_indent = detect,
                   p_eat_leading = False, p_escape = CHR 0x00, p_fold = (if indicator = CHR ''>'' then FoldBlock else DontFold),
                   p_trim = False, p_chomp = chomp, p_doc = ActNone, p_tab = ActThrow\<rparr>, i)))))"

definition scan_block_scalar :: "int \<Rightarrow> scan_in \<Rightarrow> scan_error + string \<times> scan_in" where
  "scan_block_scalar top_indent i0 = (case block_header top_indent i0 of
      Inl e \<Rightarrow> Inl e
    | Inr (p, i) \<Rightarrow> (case scan_scalar p i of Inl e \<Rightarrow> Inl e | Inr (s, _, i') \<Rightarrow> Inr (s, i')))"

text \<open>\<open>ScanNextToken\<close> after \<open>ScanToNextToken\<close> and \<open>PopIndentToHere\<close>: which token is scanned.
  \<open>json\<close> is \<open>m_canBeJSONFlow\<close>, \<open>allowed\<close> is \<open>m_scalarValueAllowed\<close>.\<close>

datatype scan_branch =
    BrEndStream | BrDirective | BrDocStart | BrDocEnd | BrFlowStart | BrFlowEnd | BrFlowEntry | BrBlockEntry
  | BrKey | BrValue | BrAnchorOrAlias | BrTag | BrBlockScalar | BrQuotedScalar | BrPlainScalar

definition get_value_regex :: "bool \<Rightarrow> bool \<Rightarrow> regex" where
  "get_value_regex flow json = (if \<not> flow then exp_value else if json then RMatch (CHR '':'') else exp_value_in_flow)"

definition token_branch :: "bool \<Rightarrow> bool \<Rightarrow> bool \<Rightarrow> scan_in \<Rightarrow> scan_error + scan_branch" where
  "token_branch flow json allowed i =
     (let ch = in_peek i in
      if \<not> in_ok i then Inr BrEndStream
      else if in_column i = 0 \<and> ch = CHR ''%'' then Inr BrDirective
      else if in_column i = 0 \<and> in_matches exp_doc_start i then Inr BrDocStart
      else if in_column i = 0 \<and> in_matches exp_doc_end i then Inr BrDocEnd
      else if ch = CHR ''['' \<or> ch = CHR ''{'' then Inr BrFlowStart
      else if ch = CHR '']'' \<or> ch = CHR ''}'' then Inr BrFlowEnd
      else if ch = CHR '','' then
        (if in_column i = 0 then Inl UnexpectedFlow else if \<not> allowed then Inl UnexpectedScalar else Inr BrFlowEntry)
      else if in_matches exp_block_entry i then Inr BrBlockEntry
      else if in_matches exp_key i then Inr BrKey
      else if in_matches (get_value_regex flow json) i then Inr BrValue
      else if ch = CHR ''*'' \<or> ch = CHR ''&'' then Inr BrAnchorOrAlias
      else if ch = CHR ''!'' then Inr BrTag
      else if \<not> flow \<and> (ch = CHR ''|'' \<or> ch = CHR ''>'') then Inr BrBlockScalar
      else if \<not> allowed then Inl UnexpectedScalar
      else if ch = SQUOTE \<or> ch = DQUOTE then Inr BrQuotedScalar
      else if in_matches (if flow then exp_plain_scalar_in_flow else exp_plain_scalar) i then Inr BrPlainScalar
      else Inl UnknownToken)"

text \<open>The token, when it is a scalar: plain or not, its value, the rest.\<close>

definition scalar_token :: "bool \<Rightarrow> bool \<Rightarrow> int \<Rightarrow> scan_in \<Rightarrow> (scan_error + bool \<times> string \<times> scan_in) option" where
  "scalar_token flow json top_indent i = (case token_branch flow json True i of
      Inr BrBlockScalar \<Rightarrow> Some (case scan_block_scalar top_indent i of Inl e \<Rightarrow> Inl e | Inr (s, i') \<Rightarrow> Inr (False, s, i'))
    | Inr BrQuotedScalar \<Rightarrow> Some (case scan_quoted_scalar i of Inl e \<Rightarrow> Inl e | Inr (s, i') \<Rightarrow> Inr (False, s, i'))
    | Inr BrPlainScalar \<Rightarrow> Some (case scan_plain_scalar flow top_indent i of Inl e \<Rightarrow> Inl e | Inr (s, _, i') \<Rightarrow> Inr (True, s, i'))
    | _ \<Rightarrow> None)"

end
