(* ===== verification/YamlScalarRead.thy ===== *)
theory YamlScalarRead
  imports YamlScalarIn
begin

text \<open>
  Reading back quoted and plain scalars: phase 1 of \<open>ScanScalar\<close> on characters that keep the
  line, the escapes, and then each kind of scalar up to its end.
\<close>

section \<open>Reading characters that are no breaks\<close>

definition good_in :: "scan_in \<Rightarrow> bool" where
  "good_in i \<longleftrightarrow> in_line_ending i \<in> {None, Some LF, Some CR} \<and> 0 < in_column i"

text \<open>Characters that leave the line as it is; before the first line break a NUL is one that does not.\<close>

definition keeps_line :: "char \<Rightarrow> bool" where
  "keeps_line c \<longleftrightarrow> \<not> is_break c \<and> c \<noteq> CHR 0x00"

definition advance :: "string \<Rightarrow> nat \<Rightarrow> scan_in \<Rightarrow> scan_in" where
  "advance r n i = i\<lparr>in_rest := r, in_column := in_column i + n\<rparr>"

lemma advance_simps [simp]: "in_rest (advance r n i) = r" "in_column (advance r n i) = in_column i + n"
  "advance r n (advance r' m i) = advance r (m + n) i"
  by (simp_all add: advance_def)

lemma advance_0: "in_rest i = r \<Longrightarrow> advance r 0 i = i"
  by (simp add: advance_def)

lemma good_advance [simp]: "good_in i \<Longrightarrow> good_in (advance r n i)"
  by (simp add: good_in_def advance_def)

lemma in_peek_Cons: "in_rest i = c # r \<Longrightarrow> in_peek i = c"
  by (simp add: in_peek_def)

lemma in_get_plain:
  assumes "in_line_ending i \<in> {None, Some LF, Some CR}" "in_rest i = c # r" "keeps_line c"
  shows "in_get i = (c, advance r 1 i)"
  using assms by (cases i) (auto simp: in_get_def in_peek_def advance_def is_break_def keeps_line_def Let_def)

lemma in_take_plain:
  "good_in i \<Longrightarrow> in_rest i = t @ r \<Longrightarrow> \<forall>c \<in> set t. keeps_line c \<Longrightarrow> in_take (length t) i = (t, advance r (length t) i)"
proof (induction t arbitrary: i)
  case (Cons c t)
  have "in_get i = (c, advance (t @ r) 1 i)"
    by (rule in_get_plain) (use Cons.prems in \<open>auto simp: good_in_def\<close>)
  then show ?case using Cons.IH [of "advance (t @ r) 1 i"] Cons.prems by simp
qed (simp add: advance_0)

section \<open>Escapes\<close>

lemma hex_digit_round: "d < 16 \<Longrightarrow> hex_digit_value (hex_digits ! d) = Some d \<and> keeps_line (hex_digits ! d)"
proof -
  have "\<forall>d \<in> set [0..<16]. hex_digit_value (hex_digits ! d) = Some d \<and> keeps_line (hex_digits ! d)" by code_simp
  then show "d < 16 \<Longrightarrow> hex_digit_value (hex_digits ! d) = Some d \<and> keeps_line (hex_digits ! d)" by simp
qed

lemma low_four: "x AND 0xF = x mod (16 :: nat)"
  using take_bit_eq_mask [of 4 x] by (simp add: take_bit_eq_mod mask_eq_exp_minus_1 flip: and.commute)

lemma length_write_hex [simp]: "length (write_hex n cp) = n"
  by (induction n) simp_all

lemma write_hex_no_break: "c \<in> set (write_hex n cp) \<Longrightarrow> keeps_line c"
  using hex_digit_round by (induction n) (auto simp: low_four)

lemma parse_hex_write: "n \<le> 8 \<Longrightarrow> v < 16 ^ (8 - n) \<Longrightarrow> parse_hex v (write_hex n cp) = Some (v * 16 ^ n + cp mod 16 ^ n)"
proof (induction n arbitrary: v)
  case (Suc n)
  have d: "hex_digit_value (hex_digits ! (drop_bit (4 * n) cp AND 0xF)) = Some (cp div 16 ^ n mod 16)"
    using hex_digit_round [of "cp div 16 ^ n mod 16"] by (simp add: low_four drop_bit_eq_div power_mult)
  have e: "8 - n = Suc (8 - Suc n)" using Suc.prems by simp
  have b: "v * 16 + cp div 16 ^ n mod 16 < 16 ^ (8 - n)"
  proof -
    have "v + 1 \<le> 16 ^ (8 - Suc n)" using Suc.prems by simp
    then have "v * 16 + 16 \<le> 16 ^ (8 - n)" unfolding e by simp
    moreover have "cp div 16 ^ n mod 16 < 16" by simp
    ultimately show ?thesis by (meson add_strict_left_mono less_le_trans)
  qed
  have "(16 :: nat) ^ (8 - n) \<le> 16 ^ 8" by (rule power_increasing) simp_all
  then have m: "(v * 16 + cp div 16 ^ n mod 16) mod 2 ^ 32 = v * 16 + cp div 16 ^ n mod 16" using b by simp
  have "parse_hex v (write_hex (Suc n) cp) = Some ((v * 16 + cp div 16 ^ n mod 16) * 16 ^ n + cp mod 16 ^ n)"
    using Suc.IH [OF _ b] Suc.prems(1) by (simp only: write_hex.simps parse_hex.simps d m option.case)
  moreover have "cp mod 16 ^ Suc n = cp div 16 ^ n mod 16 * 16 ^ n + cp mod 16 ^ n"
    using mod_mult2_eq [of cp "16 ^ n" 16] by (simp add: mult.commute)
  ultimately show ?case by (simp add: algebra_simps)
qed simp

lemma code_bytes_write: "cp \<le> 0x10FFFF \<Longrightarrow> code_bytes cp = write_code_point cp"
  by (simp add: code_bytes_def write_code_point_bytes low_six drop_bit_eq_div)

lemma escape_code_write:
  assumes "good_in i" "in_rest i = write_hex n cp @ r" "n \<le> 8" "cp < 16 ^ n" "legal_code_point cp"
  shows "escape_code n i = Inr (write_code_point cp, advance r n i)"
proof -
  have "in_take n i = (write_hex n cp, advance r n i)"
    using in_take_plain [OF assms(1,2)] write_hex_no_break by simp
  moreover have "parse_hex 0 (write_hex n cp) = Some cp" using parse_hex_write [OF assms(3), of 0 cp] assms(4) by simp
  moreover have "\<not> ((0xD800 \<le> cp \<and> cp \<le> 0xDFFF) \<or> 0x10FFFF < cp)" using assms(5) by (auto simp: legal_code_point_def)
  ultimately show ?thesis using assms(5) code_bytes_write [of cp] by (auto simp: escape_code_def legal_code_point_def)
qed

definition hex_kind :: "char \<Rightarrow> nat \<Rightarrow> bool" where
  "hex_kind k n \<longleftrightarrow> (k = CHR ''x'' \<and> n = 2) \<or> (k = CHR ''u'' \<and> n = 4) \<or> (k = CHR ''U'' \<and> n = 8)"

lemma escape_seq_code:
  assumes "good_in i" "in_rest i = BSLASH # k # write_hex n cp @ r" "n \<le> 8" "cp < 16 ^ n" "legal_code_point cp"
    "hex_kind k n"
  shows "escape_seq i = Inr (write_code_point cp, advance r (n + 2) i)"
proof -
  have g1: "in_get i = (BSLASH, advance (k # write_hex n cp @ r) 1 i)"
    by (rule in_get_plain) (use assms in \<open>auto simp: good_in_def is_break_def keeps_line_def\<close>)
  have g2: "in_get (advance (k # write_hex n cp @ r) 1 i) = (k, advance (write_hex n cp @ r) 1 (advance (k # write_hex n cp @ r) 1 i))"
    by (rule in_get_plain) (use assms in \<open>auto simp: good_in_def advance_def is_break_def keeps_line_def hex_kind_def\<close>)
  have c: "escape_code n (advance (write_hex n cp @ r) 2 i) = Inr (write_code_point cp, advance r n (advance (write_hex n cp @ r) 2 i))"
    by (rule escape_code_write) (use assms in simp_all)
  show ?thesis using assms(6) c unfolding escape_seq_def g1 prod.case g2 hex_kind_def
    by (auto simp: escape_char_def simp flip: numeral_2_eq_2)
qed

lemma escape_seq_char:
  assumes "good_in i" "in_rest i = BSLASH # k # r" "keeps_line k" "escape_char k = Some s"
  shows "escape_seq i = Inr (s, advance r 2 i)"
proof -
  have g1: "in_get i = (BSLASH, advance (k # r) 1 i)"
    by (rule in_get_plain) (use assms in \<open>auto simp: good_in_def is_break_def keeps_line_def\<close>)
  have g2: "in_get (advance (k # r) 1 i) = (k, advance r 1 (advance (k # r) 1 i))"
    by (rule in_get_plain) (use assms in \<open>auto simp: good_in_def advance_def\<close>)
  show ?thesis using assms(4) unfolding escape_seq_def g1 prod.case g2 by (simp flip: numeral_2_eq_2)
qed

section \<open>A line without a break\<close>

text \<open>Phase 1 where no document marker can stand.\<close>

definition passes :: "scan_params \<Rightarrow> scan_st \<Rightarrow> bool" where
  "passes p v \<longleftrightarrow> good_in (v_in v) \<and> \<not> in_matches (p_end p) (v_in v) \<and> keeps_line (in_peek (v_in v)) \<and> in_ok (v_in v)"

definition after_char :: "char \<Rightarrow> string \<Rightarrow> scan_st \<Rightarrow> scan_st" where
  "after_char c r v = v\<lparr>v_found_non_empty := True, v_past_opening := True, v_in := advance r 1 (v_in v),
     v_scalar := v_scalar v @ [c], v_last_non_ws := (if is_blank c then v_last_non_ws v else length (v_scalar v) + 1)\<rparr>"

lemma scan_line_char:
  assumes "passes p v" "in_rest (v_in v) = c # r" "c \<noteq> p_escape p" "p_escape p = BSLASH \<longrightarrow> c \<noteq> BSLASH"
  shows "scan_line p v = scan_line p (after_char c r v)"
proof -
  have g: "in_get (v_in v) = (c, advance r 1 (v_in v))"
    by (rule in_get_plain) (use assms in \<open>auto simp: passes_def good_in_def in_peek_Cons\<close>)
  have b: "in_matches exp_esc_break (v_in v) \<Longrightarrow> c = BSLASH"
    using assms(2) by (auto simp: in_matches_def in_match_def exp_esc_break_def split: if_splits)
  have "0 < in_column (v_in v)" using assms(1) by (simp add: passes_def good_in_def)
  then show ?thesis using assms g b
    by (subst scan_line.simps) (auto simp: passes_def keeps_line_def in_matches_break in_peek_Cons Let_def after_char_def cong: if_cong)
qed

definition after_escape :: "string \<Rightarrow> scan_in \<Rightarrow> scan_st \<Rightarrow> scan_st" where
  "after_escape s i v = v\<lparr>v_found_non_empty := True, v_past_opening := True, v_in := i,
     v_scalar := v_scalar v @ s, v_last_non_ws := length (v_scalar v @ s), v_last_escaped := Some (length (v_scalar v @ s))\<rparr>"

lemma scan_line_escape:
  assumes "passes p v" "in_peek (v_in v) = p_escape p" "\<not> in_matches exp_esc_break (v_in v)"
    "escape_seq (v_in v) = Inr (s, i)"
  shows "scan_line p v = scan_line p (after_escape s i v)"
proof -
  have "0 < in_column (v_in v)" using assms(1) by (simp add: passes_def good_in_def)
  then show ?thesis using assms
    by (subst scan_line.simps) (simp add: passes_def keeps_line_def in_matches_break Let_def after_escape_def)
qed

lemma scan_line_stops:
  "in_matches (p_end p) (v_in v) \<or> in_matches exp_break (v_in v) \<or> \<not> in_ok (v_in v) \<Longrightarrow> scan_line p v = Inr v"
  by (subst scan_line.simps) (auto simp: Let_def)

section \<open>Double-quoted scalars\<close>

abbreviation dq :: scan_params where "dq \<equiv> quoted_params False"

lemma dq_params [simp]: "p_end dq = RMatch DQUOTE" "p_escape dq = BSLASH" "p_eat_end dq" "p_fold dq = FoldFlow"
  "\<not> p_trim dq" "p_chomp dq = ChompClip" "p_doc dq = ActThrow" "p_indent dq = 0"
  by (simp_all add: quoted_params_def)

lemma in_matches_char: "in_matches (RMatch c) i \<longleftrightarrow> in_peek i = c"
  by (simp add: in_matches_def in_match_def in_peek_def)

text \<open>A line break at the end of the scalar so far comes from an escape.\<close>

definition line_fits :: "scan_st \<Rightarrow> bool" where
  "line_fits v \<longleftrightarrow> good_in (v_in v) \<and> (v_scalar v \<noteq> [] \<and> last (v_scalar v) = LF \<longrightarrow> v_last_escaped v = Some (length (v_scalar v)))"

definition goes :: "scan_params \<Rightarrow> string \<Rightarrow> string \<Rightarrow> scan_st \<Rightarrow> bool" where
  "goes p s r v \<longleftrightarrow> (\<exists>w. scan_line p v = scan_line p w \<and> line_fits w \<and> in_rest (v_in w) = r \<and> v_scalar w = v_scalar v @ s)"

lemma goes_Nil: "line_fits v \<Longrightarrow> in_rest (v_in v) = r \<Longrightarrow> goes p [] r v"
  by (auto simp: goes_def)

lemma goes_trans: "goes p s r v \<Longrightarrow> (\<And>w. line_fits w \<Longrightarrow> in_rest (v_in w) = r \<Longrightarrow> goes p t q w) \<Longrightarrow> goes p (s @ t) q v"
  unfolding goes_def by (metis append.assoc)

text \<open>Characters that are neither an end nor an escape, and escapes.\<close>

lemma goes_raw:
  assumes "\<And>i. good_in i \<Longrightarrow> in_matches (p_end p) i \<Longrightarrow> in_peek i = q"
  shows "line_fits v \<Longrightarrow> in_rest (v_in v) = bs @ r \<Longrightarrow> \<forall>c \<in> set bs. c \<noteq> q \<and> c \<noteq> p_escape p \<and> keeps_line c \<Longrightarrow> goes p bs r v"
proof (induction bs arbitrary: v)
  case Nil
  then show ?case by (simp add: goes_Nil)
next
  case (Cons c bs)
  have p: "passes p v" using Cons.prems assms [of "v_in v"]
    by (auto simp: passes_def line_fits_def in_peek_Cons in_ok_def)
  have "scan_line p v = scan_line p (after_char c (bs @ r) v)"
    by (rule scan_line_char [OF p]) (use Cons.prems in auto)
  moreover have "goes p bs r (after_char c (bs @ r) v)"
    by (rule Cons.IH) (use Cons.prems in \<open>auto simp: line_fits_def after_char_def is_break_def keeps_line_def\<close>)
  ultimately show ?case by (auto simp: goes_def after_char_def)
qed

lemma goes_escape:
  assumes "line_fits v" "in_rest (v_in v) = p_escape p # k # t" "keeps_line k" "keeps_line (p_escape p)"
    "\<not> in_matches (p_end p) (v_in v)" "escape_seq (v_in v) = Inr (s, advance r n (v_in v))"
  shows "goes p s r v"
proof -
  have p: "passes p v" using assms(1,2,4,5)
    by (auto simp: passes_def line_fits_def in_peek_Cons in_ok_def)
  have "\<not> in_matches exp_esc_break (v_in v)" using assms(2,3)
    by (auto simp: in_matches_def in_match_def exp_esc_break_def match_break keeps_line_def)
  from scan_line_escape [OF p _ this assms(6)] assms(2)
  have "scan_line p v = scan_line p (after_escape s (advance r n (v_in v)) v)" by (simp add: in_peek_Cons)
  then show ?thesis using assms(1) by (auto simp: goes_def line_fits_def after_escape_def)
qed

lemma dq_raw:
  "line_fits v \<Longrightarrow> in_rest (v_in v) = bs @ r \<Longrightarrow> \<forall>c \<in> set bs. c \<noteq> DQUOTE \<and> c \<noteq> BSLASH \<and> keeps_line c \<Longrightarrow> goes dq bs r v"
  by (rule goes_raw [where q = DQUOTE]) (simp_all add: in_matches_char)

lemma dq_escape:
  assumes "line_fits v" "in_rest (v_in v) = BSLASH # k # t" "keeps_line k" "escape_seq (v_in v) = Inr (s, advance r n (v_in v))"
  shows "goes dq s r v"
  by (rule goes_escape [of v dq k t]) (use assms in \<open>simp_all add: in_matches_char in_peek_Cons is_break_def keeps_line_def\<close>)

lemma escape_unit_hex:
  assumes "legal_code_point cp" "style \<noteq> EscJSON \<or> cp < 0xFFFF"
  shows "\<exists>k n. write_double_quote_escape_sequence cp style = BSLASH # k # write_hex n cp \<and> n \<le> 8 \<and> cp < 16 ^ n
    \<and> keeps_line k \<and> hex_kind k n"
proof -
  have "cp < 16 ^ 8" using assms(1) by (simp add: legal_code_point_def)
  then show ?thesis using assms(2)
    unfolding write_double_quote_escape_sequence_def escape_unit_def hex_kind_def
    by (cases "cp < 0xFF \<and> style \<noteq> EscJSON"; cases "cp < 0xFFFF") (auto simp: is_break_def keeps_line_def)
qed

lemma raw_bytes:
  assumes "cp \<le> 0x10FFFF" "c \<in> set (write_code_point cp)"
  shows "c = char_of cp \<and> cp < 0x80 \<or> 0x80 \<le> (of_char c :: nat)"
proof -
  have "cp div 262144 < 16" using assms(1) by simp
  then have "(240 + cp div 262144) mod 256 = 240 + cp div 262144" by simp
  then show ?thesis using assms(2) unfolding write_code_point_bytes [OF assms(1)]
    by (auto split: if_splits)
qed

lemma escape_chars:
  "escape_char DQUOTE = Some (write_code_point 0x22)" "escape_char BSLASH = Some (write_code_point 0x5C)"
  "escape_char (CHR ''n'') = Some (write_code_point 0x0A)" "escape_char (CHR ''t'') = Some (write_code_point 0x09)"
  "escape_char (CHR ''r'') = Some (write_code_point 0x0D)" "escape_char (CHR ''b'') = Some (write_code_point 0x08)"
  "escape_char (CHR ''f'') = Some (write_code_point 0x0C)"
proof -
  have "char_of (34 :: nat) = DQUOTE" "char_of (92 :: nat) = BSLASH" "char_of (10 :: nat) = LF" "char_of (9 :: nat) = TAB"
    "char_of (13 :: nat) = CR" "char_of (8 :: nat) = CHR 0x08" "char_of (12 :: nat) = CHR 0x0C"
    by code_simp+
  then show "escape_char DQUOTE = Some (write_code_point 0x22)" "escape_char BSLASH = Some (write_code_point 0x5C)"
    "escape_char (CHR ''n'') = Some (write_code_point 0x0A)" "escape_char (CHR ''t'') = Some (write_code_point 0x09)"
    "escape_char (CHR ''r'') = Some (write_code_point 0x0D)" "escape_char (CHR ''b'') = Some (write_code_point 0x08)"
    "escape_char (CHR ''f'') = Some (write_code_point 0x0C)"
    by (simp_all add: escape_char_def write_code_point_def Let_def)
qed

lemma double_quoted_char_cases:
  "cp \<in> {0x22, 0x5C, 0x0A, 0x09, 0x0D, 0x08, 0x0C}
   \<or> double_quoted_char style cp = write_double_quote_escape_sequence cp style \<and> (style \<noteq> EscJSON \<or> cp < 0xFFFF)
   \<or> double_quoted_char style cp = write_code_point cp \<and> cp \<notin> {0, 0x22, 0x5C, 0x0A, 0x0D}"
  by (simp add: double_quoted_char_def)

text \<open>Every written code point is read back.\<close>

lemma dq_code_point:
  assumes "legal_code_point cp" "line_fits v" "in_rest (v_in v) = double_quoted_char style cp @ r"
  shows "goes dq (write_code_point cp) r v"
proof -
  have i: "good_in (v_in v)" using assms(2) by (simp add: line_fits_def)
  have short: "goes dq (write_code_point cp) r v"
    if "double_quoted_char style cp = [BSLASH, k]" "escape_char k = Some (write_code_point cp)" "keeps_line k" for k
  proof (rule dq_escape [OF assms(2)])
    show "in_rest (v_in v) = BSLASH # k # r" using assms(3) that(1) by simp
    then show "escape_seq (v_in v) = Inr (write_code_point cp, advance r 2 (v_in v))"
      by (rule escape_seq_char [OF i _ that(3,2)])
  qed (rule that(3))
  have hex: "goes dq (write_code_point cp) r v"
    if h: "double_quoted_char style cp = write_double_quote_escape_sequence cp style" "style \<noteq> EscJSON \<or> cp < 0xFFFF"
  proof -
    obtain k n where
      w: "write_double_quote_escape_sequence cp style = BSLASH # k # write_hex n cp" and n: "n \<le> 8" "cp < 16 ^ n" and k: "keeps_line k"
      and kn: "hex_kind k n"
      using escape_unit_hex [OF assms(1) h(2)] by blast
    have "in_rest (v_in v) = BSLASH # k # write_hex n cp @ r" using assms(3) h(1) w by simp
    from dq_escape [OF assms(2) this k] escape_seq_code [OF i this n assms(1) kn] show ?thesis by blast
  qed
  consider "cp \<in> {0x22, 0x5C, 0x0A, 0x09, 0x0D, 0x08, 0x0C}"
    | "double_quoted_char style cp = write_double_quote_escape_sequence cp style" "style \<noteq> EscJSON \<or> cp < 0xFFFF"
    | "double_quoted_char style cp = write_code_point cp" "cp \<notin> {0, 0x22, 0x5C, 0x0A, 0x0D}"
    using double_quoted_char_cases [of cp style] by blast
  then show ?thesis
  proof cases
    case 1
    then show ?thesis using short escape_chars by (auto simp: double_quoted_char_def is_break_def keeps_line_def)
  next
    case 2
    then show ?thesis by (rule hex)
  next
    case 3
    have "c \<noteq> DQUOTE \<and> c \<noteq> BSLASH \<and> keeps_line c" if "c \<in> set (write_code_point cp)" for c
      using raw_bytes [OF _ that] 3(2) assms(1) by (auto simp: is_break_def keeps_line_def legal_code_point_def char_of_eq_iff take_bit_eq_mod)
    then show ?thesis using dq_raw [OF assms(2)] assms(3) 3(1) by simp
  qed
qed

lemma dq_code_points:
  "list_all legal_code_point cps \<Longrightarrow> line_fits v \<Longrightarrow> in_rest (v_in v) = concat (map (double_quoted_char style) cps) @ r
    \<Longrightarrow> goes dq (utf8_of cps) r v"
proof (induction cps arbitrary: v)
  case Nil
  then show ?case by (simp add: goes_Nil utf8_of_def)
next
  case (Cons cp cps)
  have "goes dq (write_code_point cp @ utf8_of cps) r v"
    by (rule goes_trans [OF dq_code_point]) (use Cons in auto)
  then show ?case by (simp add: utf8_of_def)
qed

lemma find_last_not_of_last: "s \<noteq> [] \<Longrightarrow> last s \<notin> set cs \<Longrightarrow> find_last_not_of cs s = Some (length s - 1)"
  by (cases s rule: rev_cases) (simp_all add: find_last_not_of_def)

lemma find_last_not_of_less: "find_last_not_of cs s = Some q \<Longrightarrow> q < length s"
  using length_dropWhile_le [of "\<lambda>c. c \<in> set cs" "rev s"] by (auto simp: find_last_not_of_def split: list.splits)

lemma finish_scalar_dq:
  assumes "s \<noteq> [] \<and> last s = LF \<longrightarrow> e = Some (length s)"
  shows "finish_scalar dq e s = s"
proof (cases "s = []")
  case True
  then show ?thesis by (simp add: finish_scalar_def split: option.split)
next
  case False
  define pos where "pos = keep_escaped e (find_last_not_of [LF] s)"
  have "\<exists>q. pos = Some q \<and> length s \<le> q + 1"
  proof (cases "last s = LF")
    case True
    with False assms have "e = Some (length s)" by simp
    then show ?thesis using find_last_not_of_less [of "[LF]" s]
      by (auto simp: pos_def keep_escaped_def split: option.splits)
  next
    case nl: False
    then have "find_last_not_of [LF] s = Some (length s - 1)" using False by (intro find_last_not_of_last) simp_all
    then show ?thesis by (auto simp: pos_def keep_escaped_def split: option.splits)
  qed
  then obtain q where "pos = Some q" "length s \<le> q + 1" by blast
  then show ?thesis by (simp add: finish_scalar_def pos_def)
qed

text \<open>The end of a single-quoted scalar: a quote that no other quote follows.\<close>

abbreviation sq :: scan_params where "sq \<equiv> quoted_params True"

lemma quoted_params_simps [simp]: "p_eat_end (quoted_params single)" "p_fold (quoted_params single) = FoldFlow"
  "\<not> p_trim (quoted_params single)" "p_chomp (quoted_params single) = ChompClip" "p_doc (quoted_params single) = ActThrow"
  "p_indent (quoted_params single) = 0"
  by (simp_all add: quoted_params_def)

lemma sq_end: "in_match (p_end sq) i = (if in_peek i = SQUOTE \<and> take 2 (in_rest i) \<noteq> [SQUOTE, SQUOTE] then Some 1 else None)"
proof -
  have "take 2 xs = [SQUOTE, SQUOTE] \<longleftrightarrow> (\<exists>t. xs = SQUOTE # SQUOTE # t)" for xs
    by (cases xs; cases "tl xs") auto
  then show ?thesis
    by (cases "in_rest i"; cases "tl (in_rest i)")
      (auto simp: quoted_params_def in_match_def in_peek_def exp_esc_single_quote_def split: option.splits)
qed

lemma finish_scalar_quoted:
  assumes "s \<noteq> [] \<and> last s = LF \<longrightarrow> e = Some (length s)"
  shows "finish_scalar (quoted_params single) e s = s"
  using finish_scalar_dq [OF assms] by (simp add: finish_scalar_def)

text \<open>From the opening to the closing quote.\<close>

lemma scan_quoted_body:
  assumes "q = (if single then SQUOTE else DQUOTE)" "in_line_ending i \<in> {None, Some LF, Some CR}"
    "in_rest i = q # body @ q # r" "single \<longrightarrow> char_at0 OfStream r \<noteq> SQUOTE"
    "\<And>v. line_fits v \<Longrightarrow> in_rest (v_in v) = body @ q # r \<Longrightarrow> goes (quoted_params single) s (q # r) v"
  shows "\<exists>i'. scan_quoted_scalar i = Inr (s, i') \<and> in_rest i' = r"
proof -
  let ?p = "quoted_params single"
  have get: "in_get i = (q, advance (body @ q # r) 1 i)"
    by (rule in_get_plain) (use assms(1-3) in \<open>auto simp: is_break_def keeps_line_def\<close>)
  define i1 where "i1 = advance (body @ q # r) 1 i"
  define v where "v = (scan_vars ?p i1)\<lparr>v_last_non_ws := 0, v_escaped_newline := False\<rparr>"
  have "line_fits v" using assms(2) by (simp add: v_def line_fits_def scan_vars_def good_in_def i1_def advance_def)
  from assms(5) [OF this] have "goes ?p s (q # r) v" by (simp add: v_def scan_vars_def i1_def)
  then obtain w where w: "scan_line ?p v = scan_line ?p w" "line_fits w" "in_rest (v_in w) = q # r" "v_scalar w = s"
    by (auto simp: goes_def v_def scan_vars_def)
  have m: "in_match (p_end ?p) (v_in w) = Some 1"
  proof (cases single)
    case True
    then show ?thesis using assms(1,4) w(3) by (cases r) (simp_all add: sq_end in_peek_Cons)
  next
    case False
    then show ?thesis using assms(1) w(3) by (simp add: in_match_def)
  qed
  then have "scan_line ?p w = Inr w" by (intro scan_line_stops) (simp add: in_matches_def)
  with w(1) have line: "scan_line ?p v = Inr w" by simp
  have "in_ok (v_in w)" "in_ok i1" by (simp_all add: in_ok_def w(3) i1_def)
  with m have "scan_lines ?p (scan_vars ?p i1) = Inr (w\<lparr>v_in := snd (in_get (v_in w))\<rparr>)"
    using line by (subst scan_lines.simps) (simp add: v_def scan_vars_def)
  moreover have "in_rest (snd (in_get (v_in w))) = r" by (simp add: in_get_def Let_def w(3))
  moreover have "finish_scalar ?p (v_last_escaped w) s = s"
    by (rule finish_scalar_quoted) (use w(2,4) in \<open>simp add: line_fits_def\<close>)
  moreover have "snd (in_get i) = i1" by (simp add: get i1_def)
  moreover have "(in_peek i = SQUOTE) = single" using in_peek_Cons [OF assms(3)] assms(1) by simp
  ultimately show ?thesis using w(4) by (simp add: scan_quoted_scalar_def scan_scalar_def)
qed

lemma scan_double_quoted_written:
  assumes "list_all legal_code_point cps" "in_line_ending i \<in> {None, Some LF, Some CR}"
    "in_rest i = write_double_quoted_string style (utf8_of cps) @ r"
  shows "\<exists>i'. scan_quoted_scalar i = Inr (utf8_of cps, i') \<and> in_rest i' = r"
  by (rule scan_quoted_body [where q = DQUOTE and single = False and body = "concat (map (double_quoted_char style) cps)"])
    (use assms dq_code_points double_quoted_body_utf8 in \<open>simp_all add: write_double_quoted_string_def\<close>)

section \<open>Single-quoted scalars\<close>

lemma sq_code_point:
  assumes "legal_code_point cp" "cp \<notin> {0, 0x0A, 0x0D}" "line_fits v" "in_rest (v_in v) = single_quoted_char cp @ r"
  shows "goes sq (write_code_point cp) r v"
proof (cases "cp = 0x27")
  case True
  have i: "in_rest (v_in v) = SQUOTE # SQUOTE # r" using assms(4) True by (simp add: single_quoted_char_def)
  have g: "in_get (v_in v) = (SQUOTE, advance (SQUOTE # r) 1 (v_in v))"
    by (rule in_get_plain) (use assms(3) i in \<open>auto simp: line_fits_def good_in_def is_break_def keeps_line_def\<close>)
  have h: "in_get (advance (SQUOTE # r) 1 (v_in v)) = (SQUOTE, advance r 1 (advance (SQUOTE # r) 1 (v_in v)))"
    by (rule in_get_plain) (use assms(3) in \<open>auto simp: line_fits_def good_in_def advance_def is_break_def keeps_line_def\<close>)
  have "escape_seq (v_in v) = Inr ([SQUOTE], advance r 2 (v_in v))"
    unfolding escape_seq_def g prod.case h by (simp flip: numeral_2_eq_2)
  moreover have "write_code_point cp = [SQUOTE]"
  proof -
    have "char_of (39 :: nat) = SQUOTE" by code_simp
    then show ?thesis using True by (simp add: write_code_point_def Let_def)
  qed
  moreover have "\<not> in_matches (p_end sq) (v_in v)" using i by (simp add: in_matches_def sq_end)
  ultimately show ?thesis
    by (intro goes_escape [of v sq SQUOTE r]) (use assms(3) i in \<open>simp_all add: quoted_params_def is_break_def keeps_line_def\<close>)
next
  case False
  have b: "c \<noteq> SQUOTE \<and> c \<noteq> p_escape sq \<and> keeps_line c" if "c \<in> set (write_code_point cp)" for c
    using raw_bytes [OF _ that] False assms(1,2)
    by (auto simp: is_break_def keeps_line_def legal_code_point_def char_of_eq_iff take_bit_eq_mod quoted_params_def)
  show ?thesis
    by (rule goes_raw [where q = SQUOTE])
      (use assms(3,4) False b in \<open>auto simp: in_matches_def sq_end single_quoted_char_def split: if_splits\<close>)
qed

lemma sq_code_points:
  "list_all legal_code_point cps \<Longrightarrow> set cps \<inter> {0, 0x0A, 0x0D} = {} \<Longrightarrow> line_fits v
    \<Longrightarrow> in_rest (v_in v) = concat (map single_quoted_char cps) @ r \<Longrightarrow> goes sq (utf8_of cps) r v"
proof (induction cps arbitrary: v)
  case Nil
  then show ?case by (simp add: goes_Nil utf8_of_def)
next
  case (Cons cp cps)
  have "goes sq (write_code_point cp @ utf8_of cps) r v"
    by (rule goes_trans [OF sq_code_point]) (use Cons in auto)
  then show ?case by (simp add: utf8_of_def)
qed

lemma scan_single_quoted_written:
  assumes "list_all legal_code_point cps" "set cps \<inter> {0, 0x0A, 0x0D} = {}" "in_line_ending i \<in> {None, Some LF, Some CR}"
    "in_rest i = fst (write_single_quoted_string (utf8_of cps)) @ r" "char_at0 OfStream r \<noteq> SQUOTE"
  shows "\<exists>i'. scan_quoted_scalar i = Inr (utf8_of cps, i') \<and> in_rest i' = r"
  by (rule scan_quoted_body [where q = SQUOTE and single = True and body = "concat (map single_quoted_char cps)"])
    (use assms sq_code_points single_quoted_body_utf8 [OF assms(1)] in \<open>simp_all add: write_single_quoted_string_def\<close>)

section \<open>Plain scalars\<close>

lemma valid_simps [simp]: "valid_source src (r_or a b) s" "valid_source src (any_of cs) s" "valid_source src r (c # s)"
  by (simp_all add: valid_source_def r_or_def any_of_def split: source.split regex.split)

definition hits :: "source \<Rightarrow> regex \<Rightarrow> string \<Rightarrow> bool" where
  "hits src r s \<longleftrightarrow> match_unchecked src r s \<noteq> None"

lemma hits_or: "hits src (r_or a b) s \<longleftrightarrow> hits src a s \<or> hits src b s"
  by (simp add: hits_def split: option.split)

lemma hits_simps:
  "hits src (r_or a b) s \<longleftrightarrow> hits src a s \<or> hits src b s"
  "hits src (RMatch x) s \<longleftrightarrow> char_at0 src s = x"
  "hits src (any_of cs) s \<longleftrightarrow> char_at0 src s \<in> set cs"
  "hits src (RNot a) s \<longleftrightarrow> \<not> hits src a s"
  "hits src exp_blank s \<longleftrightarrow> is_blank (char_at0 src s)"
  "hits src exp_break s \<longleftrightarrow> is_break (char_at0 src s)"
  "hits src REmpty s \<longleftrightarrow> (case src of OfString \<Rightarrow> s = [] | OfStream \<Rightarrow> char_at0 src s = CHR 0x04)"
  by (rule hits_or, simp_all add: hits_def match_blank match_break split: option.split source.split)

lemma hits_blank_or_break: "hits src exp_blank_or_break s \<longleftrightarrow> is_blank (char_at0 src s) \<or> is_break (char_at0 src s)"
  by (simp add: exp_blank_or_break_def hits_simps)

lemma rmatch_Cons: "rmatch src r (c # s) = match_unchecked src r (c # s)"
  by (simp add: rmatch_def)

lemma rmatch_or: "rmatch src (r_or a b) s = match_unchecked src (r_or a b) s"
  by (simp add: rmatch_def del: match_simps)

lemma hits_after:
  "hits src (r_seq (RMatch x) (r_or a b)) (c # s) \<longleftrightarrow> c = x \<and> hits src (r_or a b) s"
  "hits src (r_seq (any_of cs) (r_or a b)) (c # s) \<longleftrightarrow> c \<in> set cs \<and> hits src (r_or a b) s"
  by (simp_all add: hits_def match_simps(2) rmatch_Cons rmatch_or del: match_simps(1))

lemma hits_comment:
  assumes "\<not> is_break c"
  shows "hits src (r_seq exp_blank_or_break exp_comment) (c # s) \<longleftrightarrow> is_blank c \<and> char_at0 src s = CHR ''#''"
proof -
  have "match_unchecked src exp_blank_or_break (c # s) = (if is_blank c then Some 1 else None)"
    using assms by (simp add: exp_blank_or_break_def match_blank match_break)
  moreover have "rmatch src exp_comment s \<noteq> None \<longleftrightarrow> char_at0 src s = CHR ''#''"
    by (cases s; cases src) (simp_all add: rmatch_def valid_source_def exp_comment_def)
  ultimately show ?thesis by (simp add: hits_def rmatch_Cons)
qed

lemma in_matches_hits: "in_matches r i \<longleftrightarrow> hits OfStream r (in_rest i)"
  by (simp add: in_matches_def in_match_def hits_def)

lemma matches_hits: "s \<noteq> [] \<Longrightarrow> matches OfString r s \<longleftrightarrow> hits OfString r s"
  by (cases s) (simp_all add: matches_def hits_def rmatch_Cons)

lemma plain_loop_Cons: "plain_loop flow oa (c # s) \<Longrightarrow> \<not> hits OfString (disallowed_scalar flow) (c # s) \<and> plain_loop flow oa s"
  by (auto simp: matches_hits split: if_splits)

lemma disallowed_chars:
  assumes "\<not> hits OfString (disallowed_scalar flow) (c # s)"
  shows "c \<noteq> CHR 0x00" "c \<noteq> CHR 0x04" "\<not> is_break c" "c \<noteq> TAB"
    "\<not> hits OfString (if flow then exp_end_scalar_in_flow else exp_end_scalar) (c # s)"
    "\<not> (is_blank c \<and> char_at0 OfString s = CHR ''#'')"
proof -
  have n: "\<not> hits OfString exp_not_printable (c # s)" and b: "\<not> is_break c" and "c \<noteq> TAB"
    "\<not> hits OfString (if flow then exp_end_scalar_in_flow else exp_end_scalar) (c # s)"
    and h: "\<not> hits OfString (r_seq exp_blank_or_break exp_comment) (c # s)"
    using assms by (auto simp: disallowed_scalar_def hits_simps)
  then show "\<not> is_break c" "c \<noteq> TAB" "\<not> hits OfString (if flow then exp_end_scalar_in_flow else exp_end_scalar) (c # s)"
    by blast+
  show "c \<noteq> CHR 0x00" "c \<noteq> CHR 0x04" using n by (auto simp: exp_not_printable_def hits_simps)
  show "\<not> (is_blank c \<and> char_at0 OfString s = CHR ''#'')" using h hits_comment [OF b] by blast
qed

lemma plain_chars: "plain_loop flow oa s \<Longrightarrow> c \<in> set s \<Longrightarrow> c \<noteq> CHR 0x00 \<and> c \<noteq> CHR 0x04 \<and> \<not> is_break c \<and> c \<noteq> TAB"
proof (induction s)
  case (Cons d s)
  with plain_loop_Cons [OF Cons.prems(1)] disallowed_chars [of flow d s] show ?case by auto
qed simp

text \<open>Inside the scalar the scanner sees no end, whatever follows.\<close>

lemma plain_no_end:
  assumes "plain_loop flow oa (c # s)" "s = [] \<longrightarrow> c \<noteq> CHR '' ''"
  shows "\<not> hits OfStream (exp_scan_scalar_end flow) (c # s @ t)"
proof -
  note p = plain_loop_Cons [OF assms(1)]
  note d = disallowed_chars [OF conjunct1 [OF p]]
  have 4: "\<forall>x \<in> set s. x \<noteq> CHR 0x04" using plain_chars p by blast
  have "\<not> hits OfStream (if flow then exp_end_scalar_in_flow else exp_end_scalar) (c # s @ t)"
    using d(5) 4 by (cases s; cases flow) (auto simp: exp_end_scalar_def exp_end_scalar_in_flow_def hits_simps hits_after hits_blank_or_break)
  moreover have "\<not> (is_blank c \<and> char_at0 OfStream (s @ t) = CHR ''#'')"
    using d(4,6) assms(2) by (cases s) (auto simp: is_blank_def)
  ultimately show ?thesis using hits_comment [OF d(3)] by (simp add: exp_scan_scalar_end_def hits_simps)
qed

lemma plain_start:
  assumes "hits OfString (if flow then exp_plain_scalar_in_flow else exp_plain_scalar) (c # s)" "plain_loop flow oa (c # s)"
  shows "hits OfStream (if flow then exp_plain_scalar_in_flow else exp_plain_scalar) (c # s @ t)"
    and "\<not> is_blank c" "c \<notin> set plain_stop"
    and "\<not> hits OfStream exp_block_entry (c # s @ t)" "\<not> hits OfStream exp_key (c # s @ t)"
    "\<not> hits OfStream (get_value_regex flow False) (c # s @ t)"
proof -
  note p = plain_loop_Cons [OF assms(2)]
  note d = disallowed_chars [OF conjunct1 [OF p]]
  have 4: "\<forall>x \<in> set s. x \<noteq> CHR 0x04 \<and> \<not> is_break x" using plain_chars p by blast
  show "hits OfStream (if flow then exp_plain_scalar_in_flow else exp_plain_scalar) (c # s @ t)"
    using assms(1) 4
    by (cases s; cases flow) (auto simp: exp_plain_scalar_def exp_plain_scalar_in_flow_def hits_simps hits_after hits_blank_or_break)
  show "\<not> is_blank c" "c \<notin> set plain_stop"
    using assms(1) by (auto simp: exp_plain_scalar_def exp_plain_scalar_in_flow_def hits_simps hits_blank_or_break split: if_splits)
  show "\<not> hits OfStream exp_block_entry (c # s @ t)"
    using assms(1) 4 by (cases s; cases flow) (auto simp: exp_plain_scalar_def exp_plain_scalar_in_flow_def exp_block_entry_def hits_simps hits_after hits_blank_or_break)
  show "\<not> hits OfStream exp_key (c # s @ t)"
    using assms(1) 4 by (cases s; cases flow) (auto simp: exp_plain_scalar_def exp_plain_scalar_in_flow_def exp_key_def exp_blank_or_break_def hits_simps hits_after)
  show "\<not> hits OfStream (get_value_regex flow False) (c # s @ t)"
    using assms(1) d(5) 4 by (cases s; cases flow) (auto simp: exp_plain_scalar_def exp_plain_scalar_in_flow_def get_value_regex_def exp_value_def exp_value_in_flow_def
      exp_end_scalar_in_flow_def hits_simps hits_after hits_blank_or_break)
qed

lemma plain_params_simps [simp]:
  "p_end (plain_params flow ti) = exp_scan_scalar_end flow" "\<not> p_eat_end (plain_params flow ti)"
  "p_indent (plain_params flow ti) = (if flow then 0 else nat (ti + 1))" "\<not> p_detect_indent (plain_params flow ti)"
  "p_eat_leading (plain_params flow ti)" "p_escape (plain_params flow ti) = CHR 0x00"
  "p_fold (plain_params flow ti) = FoldFlow" "p_trim (plain_params flow ti)" "p_chomp (plain_params flow ti) = ChompStrip"
  "p_doc (plain_params flow ti) = ActBreak"
  by (simp_all add: plain_params_def)

definition after_text :: "string \<Rightarrow> string \<Rightarrow> scan_st \<Rightarrow> scan_st" where
  "after_text s t v = v\<lparr>v_found_non_empty := True, v_past_opening := True, v_in := advance t (length s) (v_in v),
     v_scalar := v_scalar v @ s, v_last_non_ws := length (v_scalar v @ s)\<rparr>"

lemma scan_line_plain:
  assumes "plain_loop flow oa s" "s \<noteq> []" "last s \<noteq> CHR '' ''" "good_in (v_in v)" "in_rest (v_in v) = s @ t"
  shows "scan_line (plain_params flow ti) v = scan_line (plain_params flow ti) (after_text s t v)"
  using assms
proof (induction s arbitrary: v)
  case (Cons c s)
  note d = disallowed_chars [OF conjunct1 [OF plain_loop_Cons [OF Cons.prems(1)]]]
  have "passes (plain_params flow ti) v"
    using Cons.prems d(1,3) plain_no_end [OF Cons.prems(1), of t]
    by (auto simp: passes_def keeps_line_def in_matches_hits in_ok_def in_peek_Cons split: if_splits)
  from scan_line_char [OF this] Cons.prems(5) d(1)
  have step: "scan_line (plain_params flow ti) v = scan_line (plain_params flow ti) (after_char c (s @ t) v)" by simp
  show ?case
  proof (cases "s = []")
    case True
    then have "after_char c (s @ t) v = after_text [c] t v" using Cons.prems(3) d(4)
      by (simp add: after_char_def after_text_def is_blank_def)
    then show ?thesis using step True by simp
  next
    case False
    have "scan_line (plain_params flow ti) (after_char c (s @ t) v)
        = scan_line (plain_params flow ti) (after_text s t (after_char c (s @ t) v))"
      by (rule Cons.IH) (use Cons.prems plain_loop_Cons False in \<open>auto simp: after_char_def\<close>)
    moreover have "after_text s t (after_char c (s @ t) v) = after_text (c # s) t v"
      by (simp add: after_char_def after_text_def)
    ultimately show ?thesis using step by simp
  qed
qed simp

lemma finish_scalar_plain:
  assumes "s \<noteq> []" "\<not> is_blank (last s)" "\<not> is_break (last s)"
  shows "finish_scalar (plain_params flow ti) None s = s" "finish_scalar (plain_params flow ti) None (s @ '' '') = s"
proof -
  have l: "last s \<notin> set [CHR '' '', TAB]" "last s \<notin> set [LF]" using assms by (auto simp: is_blank_def is_break_def)
  note f = find_last_not_of_last [OF assms(1) l(1)] find_last_not_of_last [OF assms(1) l(2)]
  have g: "find_last_not_of [CHR '' '', TAB] (s @ '' '') = Some (length s - 1)"
    using f(1) by (simp add: find_last_not_of_def)
  show "finish_scalar (plain_params flow ti) None s = s" using f assms(1)
    by (simp add: finish_scalar_def keep_escaped_def)
  have "length s - 1 < length (s @ '' '')" "take (length s - 1 + 1) (s @ '' '') = s" using assms(1) by simp_all
  then show "finish_scalar (plain_params flow ti) None (s @ '' '') = s" using f(2) g assms(1)
    unfolding finish_scalar_def Let_def keep_escaped_def by (simp split: option.split)
qed

text \<open>What may follow a plain scalar: the end of the input, an end that the scanner knows (a colon
  with a blank, a comment, a flow indicator), or in block context a new line with less
  indentation.\<close>

definition plain_follow :: "bool \<Rightarrow> int \<Rightarrow> scan_in \<Rightarrow> string \<Rightarrow> bool" where
  "plain_follow flow top_indent i t \<longleftrightarrow> t = [] \<or> hits OfStream (exp_scan_scalar_end flow) t
     \<or> (\<not> flow \<and> in_line_ending i \<noteq> Some CR \<and>
        (\<exists>k r. t = LF # replicate k (CHR '' '') @ r \<and> int k \<le> top_indent \<and> \<not> is_blank (char_at0 OfStream r)
           \<and> \<not> is_break (char_at0 OfStream r) \<and> char_at0 OfStream r \<noteq> CHR ''#''))"

lemma plain_next_char: "\<not> hits OfStream (exp_scan_scalar_end False) (CHR '' '' # t) \<longleftrightarrow> char_at0 OfStream t \<noteq> CHR ''#''"
  by (simp add: exp_scan_scalar_end_def exp_end_scalar_def hits_or hits_after hits_comment is_break_def is_blank_def)

lemma skip_indent_spaces:
  "in_rest i = replicate k (CHR '' '') @ r \<Longrightarrow> in_line_ending i = Some LF \<Longrightarrow> in_column i + k \<le> indent
     \<Longrightarrow> char_at0 OfStream r \<noteq> CHR '' '' \<Longrightarrow> char_at0 OfStream r \<noteq> CHR ''#''
     \<Longrightarrow> skip_indent (plain_params False ti) indent f i = advance r k i"
proof (induction k arbitrary: i)
  case 0
  then show ?case by (subst skip_indent.simps) (simp add: in_peek_def advance_0)
next
  case (Suc k)
  have g: "in_get i = (CHR '' '', advance (replicate k (CHR '' '') @ r) 1 i)"
    by (rule in_get_plain) (use Suc.prems in \<open>auto simp: is_break_def keeps_line_def\<close>)
  have "\<not> in_matches (p_end (plain_params False ti)) i" using Suc.prems
    by (cases k) (simp_all add: in_matches_hits plain_next_char)
  then have "skip_indent (plain_params False ti) indent f i
      = skip_indent (plain_params False ti) indent f (advance (replicate k (CHR '' '') @ r) 1 i)"
    using Suc.prems g by (subst skip_indent.simps) (simp add: in_peek_Cons)
  also have "\<dots> = advance r k (advance (replicate k (CHR '' '') @ r) 1 i)"
    by (rule Suc.IH) (use Suc.prems in \<open>simp_all add: advance_def\<close>)
  finally show ?case by simp
qed

lemma skip_blanks_none: "\<not> is_blank (in_peek i) \<Longrightarrow> skip_blanks p k i = Inr i"
  by (subst skip_blanks.simps) (simp add: in_matches_blank)

text \<open>A line break and less indentation end the scalar.\<close>

lemma next_line_plain:
  assumes "in_rest (v_in v) = LF # replicate k (CHR '' '') @ r" "in_line_ending (v_in v) \<in> {None, Some LF}"
    "k < v_indent v" "\<not> is_blank (char_at0 OfStream r)" "\<not> is_break (char_at0 OfStream r)" "char_at0 OfStream r \<noteq> CHR ''#''"
    "v_last_non_ws v = length (v_scalar v)" "v_past_opening v" "\<not> v_empty_line v" "\<not> v_escaped_newline v"
  shows "\<exists>w. next_line (plain_params False ti) v = Inr (False, w) \<and> v_scalar w = v_scalar v @ '' '' \<and> v_last_escaped w = v_last_escaped v
    \<and> in_rest (v_in w) = r"
proof -
  let ?t = "replicate k (CHR '' '') @ r"
  define i where "i = \<lparr>in_rest = ?t, in_column = 0, in_line_ending = Some LF\<rparr>"
  have "in_eat 1 (v_in v) = i" using assms(1,2) by (auto simp: in_get_def in_peek_def i_def Let_def)
  then have e: "in_eat (case in_match exp_break (v_in v) of None \<Rightarrow> 0 | Some n \<Rightarrow> n) (v_in v) = i"
    using assms(1) by (simp add: in_match_break in_peek_Cons is_break_def)
  have s: "skip_indent (plain_params False ti) (v_indent v) (v_found_non_empty v) i = advance r k i"
    by (rule skip_indent_spaces) (use assms in \<open>auto simp: i_def is_blank_def\<close>)
  have t: "to_next_line (plain_params False ti) v = v\<lparr>v_in := advance r k i\<rparr>"
    using assms(7) e s by (simp add: to_next_line_def)
  have b: "\<not> is_blank (in_peek (advance r k i))" "\<not> is_break (in_peek (advance r k i))"
    using assms(4,5) by (simp_all add: in_peek_def)
  have c: "in_column (advance r k i) = k" by (simp add: i_def)
  have d: "begin_line (plain_params False ti) (v\<lparr>v_in := advance r k i\<rparr>)
      = (False, v\<lparr>v_in := advance r k i, v_scalar := v_scalar v @ '' '', v_empty_line := False, v_more_indented := False,
           v_past_opening := True, v_leading_spaces := True\<rparr>)"
    using b c assms(3,8-10) by (simp add: begin_line_def fold_break_def in_matches_blank in_matches_break Let_def)
  show ?thesis using skip_blanks_none [OF b(1)] d by (simp add: next_line_def t Let_def)
qed

text \<open>The scanner leaves what follows, or drops white space before it.\<close>

definition left_over :: "string \<Rightarrow> string \<Rightarrow> bool" where
  "left_over t r \<longleftrightarrow> (\<exists>ws. t = ws @ r \<and> (\<forall>c \<in> set ws. is_blank c \<or> is_break c))"

lemma left_over_same [simp]: "left_over t t"
  by (auto simp: left_over_def)

lemma left_over_line [simp]: "left_over (LF # replicate k (CHR '' '') @ r) r"
  unfolding left_over_def by (rule exI [of _ "LF # replicate k (CHR '' '')"]) (auto simp: is_blank_def is_break_def)

lemma scan_plain_written:
  assumes "is_valid_plain_scalar s flow oa" "good_in i" "in_rest i = s @ t" "plain_follow flow ti i t"
  shows "\<exists>b i'. scan_plain_scalar flow ti i = Inr (s, b, i') \<and> left_over t (in_rest i')"
proof -
  let ?p = "plain_params flow ti"
  define v where "v = scan_vars ?p i"
  define w where "w = after_text s t v"
  have l: "plain_loop flow oa s" "s \<noteq> []" "last s \<noteq> CHR '' ''"
    using assms(1) by (auto simp: is_valid_plain_scalar_def is_null_string_def split: if_splits)
  have c: "\<not> is_blank (last s)" "\<not> is_break (last s)"
    using plain_chars [OF l(1) last_in_set [OF l(2)]] l(3) by (auto simp: is_blank_def)
  have v: "v_in v = i" "v_scalar v = []" "v\<lparr>v_last_non_ws := 0, v_escaped_newline := False\<rparr> = v"
    "v_last_escaped v = None" "\<not> v_empty_line v" "\<not> v_escaped_newline v" "v_indent v = p_indent ?p"
    by (simp_all add: v_def scan_vars_def)
  have w: "in_rest (v_in w) = t" "v_scalar w = s" "v_last_escaped w = None" "0 < in_column (v_in w)"
    using v assms(2) by (simp_all add: w_def after_text_def good_in_def)
  have u: "v_last_non_ws w = length (v_scalar w)" "v_past_opening w" "\<not> v_empty_line w" "\<not> v_escaped_newline w"
    "v_indent w = p_indent ?p"
    using v by (simp_all add: w_def after_text_def)
  have s: "scan_line ?p v = scan_line ?p w" unfolding w_def
    by (rule scan_line_plain [OF l]) (use v assms in simp_all)
  have ok: "in_ok i" using l(2) assms(3) by (simp add: in_ok_def)
  have lines: "scan_lines ?p v = (case scan_line ?p w of Inl e \<Rightarrow> Inl e
      | Inr w \<Rightarrow>
          if \<not> in_ok (v_in w) then Inr w
          else if in_column (v_in w) = 0 \<and> in_matches exp_doc_indicator (v_in w) then Inr w
          else (case in_match (p_end ?p) (v_in w) of
              Some n \<Rightarrow> Inr w
            | None \<Rightarrow> (case next_line ?p w of
                Inl e \<Rightarrow> Inl e
              | Inr (go, x) \<Rightarrow> if go then scan_lines ?p x else Inr x)))"
    using ok by (subst scan_lines.simps) (simp add: v s cong: sum.case_cong option.case_cong if_cong)
  have fin: ?thesis if "scan_lines ?p v = Inr x" "v_last_escaped x = None" "v_scalar x \<in> {s, s @ '' ''}" "left_over t (in_rest (v_in x))" for x
    using that finish_scalar_plain [OF l(2) c, of flow ti] by (auto simp: scan_plain_scalar_def scan_scalar_def simp flip: v_def)
  consider (nil) "t = []" | (hit) "t \<noteq> []" "hits OfStream (exp_scan_scalar_end flow) t"
    | (line) k r where "t = LF # replicate k (CHR '' '') @ r" "\<not> flow" "in_line_ending i \<noteq> Some CR" "int k \<le> ti"
       "\<not> is_blank (char_at0 OfStream r)" "\<not> is_break (char_at0 OfStream r)" "char_at0 OfStream r \<noteq> CHR ''#''"
       "\<not> hits OfStream (exp_scan_scalar_end flow) t"
    using assms(4) unfolding plain_follow_def by blast
  then show ?thesis
  proof cases
    case nil
    then have "scan_line ?p w = Inr w" using w by (intro scan_line_stops) (simp add: in_ok_def)
    then show ?thesis using nil w lines by (intro fin [of w]) (simp_all add: in_ok_def)
  next
    case hit
    then have "in_matches (p_end ?p) (v_in w)" using w by (simp add: in_matches_hits)
    moreover from this have "scan_line ?p w = Inr w" by (intro scan_line_stops) blast
    ultimately show ?thesis using hit w lines by (intro fin [of w]) (auto simp: in_ok_def in_matches_def)
  next
    case line
    have "in_matches exp_break (v_in w)" using w line(1) by (simp add: in_matches_break in_peek_Cons is_break_def)
    then have 1: "scan_line ?p w = Inr w" by (intro scan_line_stops) simp
    have 2: "in_match (p_end ?p) (v_in w) = None" using w line(8) in_matches_hits [of "p_end ?p" "v_in w"]
      by (simp add: in_matches_def)
    have 3: "in_line_ending (v_in w) \<in> {None, Some LF}" using assms(2) line(3) v
      by (auto simp: w_def after_text_def good_in_def advance_def)
    have i: "k < v_indent w" using line(2,4) u by simp
    have "\<exists>x. next_line (plain_params False ti) w = Inr (False, x) \<and> v_scalar x = v_scalar w @ '' '' \<and> v_last_escaped x = v_last_escaped w
        \<and> in_rest (v_in x) = r"
      by (rule next_line_plain [of w k r]) (use line(1,4-7) w(1) 3 u i in simp_all)
    then obtain x where x: "next_line ?p w = Inr (False, x)" "v_scalar x = s @ '' ''" "v_last_escaped x = None" "in_rest (v_in x) = r"
      using line(2) w by auto
    then show ?thesis using 1 2 w line(1) lines by (intro fin [of x]) (simp_all add: in_ok_def)
  qed
qed

end
