(* ===== verification/YamlScalarBlock.thy ===== *)
theory YamlScalarBlock
  imports YamlScalarRead
begin

text \<open>
  Reading back literal block scalars: the lines that \<open>WriteLiteralString\<close> writes, and
  \<open>ScanScalar\<close> with the parameters of \<open>ScanBlockScalar\<close> on them.
\<close>

section \<open>The lines that are written\<close>

text \<open>The spaces before the first character of a line, on bytes.\<close>

fun indent_lines :: "nat \<Rightarrow> bool \<Rightarrow> string \<Rightarrow> string" where
  "indent_lines n fresh [] = []"
| "indent_lines n fresh (c # s) =
     (if c = LF then LF # indent_lines n True s
      else (if fresh then replicate n (CHR '' '') else []) @ c # indent_lines n False s)"

lemma indent_lines_inside: "\<forall>c \<in> set s. c \<noteq> LF \<Longrightarrow> indent_lines n False (s @ t) = s @ indent_lines n False t"
  by (induction s) simp_all

lemma indent_lines_append:
  "\<forall>c \<in> set s. c \<noteq> LF \<Longrightarrow> s \<noteq> [] \<Longrightarrow>
   indent_lines n fresh (s @ t) = (if fresh then replicate n (CHR '' '') else []) @ s @ indent_lines n False t"
  by (cases s) (simp_all add: indent_lines_inside)

lemma write_no_line_feed:
  assumes "cp \<le> 0x10FFFF" "cp \<noteq> 0x0A"
  shows "write_code_point cp \<noteq> []" "\<forall>c \<in> set (write_code_point cp). c \<noteq> LF"
proof -
  show "write_code_point cp \<noteq> []" by (simp add: write_code_point_def Let_def)
  have "(of_char LF :: nat) = 10" by simp
  then show "\<forall>c \<in> set (write_code_point cp). c \<noteq> LF"
    using raw_bytes [OF assms(1), of LF] assms(2) by (auto dest!: arg_cong [of LF _ "of_char :: char \<Rightarrow> nat"])
qed

lemma literal_body_utf8:
  "list_all legal_code_point cps \<Longrightarrow> 0 < n \<Longrightarrow> col = 0 \<or> n \<le> col \<Longrightarrow>
   literal_body n col (utf8_of cps) = indent_lines n (col = 0) (utf8_of cps)"
proof (induction cps arbitrary: col)
  case Nil
  then show ?case by (subst literal_body.simps) (simp add: utf8_of_def next_code_point_def)
next
  case (Cons cp cps)
  then have cp: "legal_code_point cp" and u: "utf8_of (cp # cps) = write_code_point cp @ utf8_of cps"
    by (simp_all add: utf8_of_def)
  have nx: "next_code_point (utf8_of (cp # cps)) = Some (cp, utf8_of cps)"
    using cp by (simp add: u next_code_point_write)
  show ?case
  proof (cases "cp = 0x0A")
    case True
    have "write_code_point 0x0A = [LF]"
    proof -
      have "char_of (10 :: nat) = LF" by code_simp
      then show ?thesis by (simp add: write_code_point_def Let_def)
    qed
    then have "indent_lines n (col = 0) (utf8_of (cp # cps)) = LF # indent_lines n True (utf8_of cps)"
      unfolding u using True by simp
    then show ?thesis using nx True Cons.IH [of 0] Cons.prems by (subst literal_body.simps) simp
  next
    case False
    note w = write_no_line_feed [OF _ False]
    have l: "cp \<le> 0x10FFFF" using cp by (simp add: legal_code_point_def)
    have "literal_body n (max col n + length (write_code_point cp)) (utf8_of cps) = indent_lines n False (utf8_of cps)"
      using Cons.IH [of "max col n + length (write_code_point cp)"] Cons.prems by (simp add: max_def)
    then show ?thesis using nx False Cons.prems(2,3) indent_lines_append [OF w(2) [OF l] w(1) [OF l], of n "col = 0" "utf8_of cps"]
      by (subst literal_body.simps) (auto simp: u)
  qed
qed

text \<open>Texts of whole lines.\<close>

definition whole_lines :: "string list \<Rightarrow> string" where
  "whole_lines ls = concat (map (\<lambda>l. l @ [LF]) ls)"

definition indented :: "nat \<Rightarrow> string \<Rightarrow> string" where
  "indented n l = (if l = [] then [] else replicate n (CHR '' '') @ l) @ [LF]"

lemma indent_whole_lines:
  "\<forall>l \<in> set ls. LF \<notin> set l \<Longrightarrow> indent_lines n True (whole_lines ls) = concat (map (indented n) ls)"
proof (induction ls)
  case (Cons l ls)
  have "indent_lines n True (l @ LF # whole_lines ls) = indented n l @ indent_lines n True (whole_lines ls)"
    using Cons.prems indent_lines_append [of l n True "LF # whole_lines ls"] by (cases "l = []") (auto simp: indented_def)
  then show ?case using Cons by (simp add: whole_lines_def)
qed (simp add: whole_lines_def)

section \<open>One line\<close>

definition literal_params :: "nat \<Rightarrow> scan_params" where
  "literal_params indent = \<lparr>p_end = REmpty, p_eat_end = False, p_indent = indent, p_detect_indent = True, p_eat_leading = False,
     p_escape = CHR 0x00, p_fold = DontFold, p_trim = False, p_chomp = ChompClip, p_doc = ActNone, p_tab = ActThrow\<rparr>"

lemma literal_params_simps [simp]:
  "p_end (literal_params d) = REmpty" "\<not> p_eat_end (literal_params d)" "p_indent (literal_params d) = d"
  "p_detect_indent (literal_params d)" "\<not> p_eat_leading (literal_params d)" "p_escape (literal_params d) = CHR 0x00"
  "p_fold (literal_params d) = DontFold" "\<not> p_trim (literal_params d)" "p_chomp (literal_params d) = ChompClip"
  "p_doc (literal_params d) = ActNone"
  by (simp_all add: literal_params_def)

lemma in_matches_empty: "in_matches REmpty i \<longleftrightarrow> in_peek i = CHR 0x04"
  by (simp add: in_matches_hits hits_simps in_peek_def)

definition plain_line :: "string \<Rightarrow> bool" where
  "plain_line l \<longleftrightarrow> (\<forall>c \<in> set l. keeps_line c \<and> c \<noteq> CHR 0x04)"

definition line_read :: "string \<Rightarrow> string \<Rightarrow> scan_st \<Rightarrow> scan_st \<Rightarrow> bool" where
  "line_read l u v w \<longleftrightarrow> v_in w = advance (LF # u) (length l) (v_in v) \<and> v_scalar w = v_scalar v @ l
     \<and> v_found_non_empty w = (v_found_non_empty v \<or> l \<noteq> []) \<and> v_past_opening w = (v_past_opening v \<or> l \<noteq> [])
     \<and> v_indent w = v_indent v \<and> v_last_escaped w = v_last_escaped v"

lemma scan_line_text:
  "plain_line l \<Longrightarrow> in_rest (v_in v) = l @ LF # u \<Longrightarrow> l = [] \<or> good_in (v_in v)
     \<Longrightarrow> \<exists>w. scan_line (literal_params d) v = Inr w \<and> line_read l u v w"
proof (induction l arbitrary: v)
  case Nil
  then have "in_matches exp_break (v_in v)" by (simp add: in_matches_break in_peek_Cons is_break_def)
  then have "scan_line (literal_params d) v = Inr v" by (intro scan_line_stops) simp
  then show ?case using Nil by (simp add: line_read_def advance_0)
next
  case (Cons c l)
  have p: "passes (literal_params d) v" using Cons.prems
    by (simp add: passes_def in_matches_empty in_peek_Cons plain_line_def in_ok_def)
  have s: "scan_line (literal_params d) v = scan_line (literal_params d) (after_char c (l @ LF # u) v)"
    by (rule scan_line_char [OF p]) (use Cons.prems in \<open>auto simp: plain_line_def keeps_line_def\<close>)
  have "\<exists>w. scan_line (literal_params d) (after_char c (l @ LF # u) v) = Inr w \<and> line_read l u (after_char c (l @ LF # u) v) w"
    by (rule Cons.IH) (use Cons.prems in \<open>auto simp: plain_line_def after_char_def\<close>)
  then show ?case unfolding s by (auto simp: line_read_def after_char_def)
qed

lemma skip_indent_literal:
  "in_rest i = replicate k (CHR '' '') @ r \<Longrightarrow> in_line_ending i = Some LF
     \<Longrightarrow> char_at0 OfStream r \<noteq> CHR '' '' \<or> found \<and> in_column i + k = indent \<Longrightarrow> found \<longrightarrow> in_column i + k \<le> indent
     \<Longrightarrow> skip_indent (literal_params d) indent found i = advance r k i"
proof (induction k arbitrary: i)
  case 0
  then show ?case by (subst skip_indent.simps) (auto simp: in_peek_def advance_0)
next
  case (Suc k)
  have g: "in_get i = (CHR '' '', advance (replicate k (CHR '' '') @ r) 1 i)"
    by (rule in_get_plain) (use Suc.prems in \<open>auto simp: is_break_def keeps_line_def\<close>)
  have "skip_indent (literal_params d) indent found i
      = skip_indent (literal_params d) indent found (advance (replicate k (CHR '' '') @ r) 1 i)"
    using Suc.prems g by (subst skip_indent.simps) (auto simp: in_peek_Cons in_matches_empty)
  also have "\<dots> = advance r k (advance (replicate k (CHR '' '') @ r) 1 i)"
    by (rule Suc.IH) (use Suc.prems in \<open>auto simp: advance_def\<close>)
  finally show ?case by simp
qed

definition line_begun :: "nat \<Rightarrow> string \<Rightarrow> scan_st \<Rightarrow> scan_st \<Rightarrow> bool" where
  "line_begun k r v x \<longleftrightarrow> v_in x = \<lparr>in_rest = r, in_column = k, in_line_ending = Some LF\<rparr>
     \<and> v_scalar x = v_scalar v @ (if v_past_opening v then [LF] else []) \<and> v_found_non_empty x = v_found_non_empty v
     \<and> v_past_opening x \<and> v_indent x = (if v_found_non_empty v then v_indent v else max (v_indent v) k)
     \<and> v_last_escaped x = v_last_escaped v"

lemma next_line_literal:
  assumes "in_rest (v_in v) = LF # replicate k (CHR '' '') @ r" "in_line_ending (v_in v) \<in> {None, Some LF}"
    "char_at0 OfStream r \<noteq> CHR '' '' \<or> v_found_non_empty v \<and> k = v_indent v" "v_found_non_empty v \<longrightarrow> k \<le> v_indent v"
    "indent = (if v_found_non_empty v then v_indent v else max (v_indent v) k)"
    "\<not> (char_at0 OfStream r = TAB \<and> k < indent)"
  shows "\<exists>x. next_line (literal_params d) v = Inr (is_break (char_at0 OfStream r) \<or> indent \<le> k, x) \<and> line_begun k r v x"
proof -
  define i where "i = \<lparr>in_rest = replicate k (CHR '' '') @ r, in_column = 0, in_line_ending = Some LF\<rparr>"
  define j where "j = \<lparr>in_rest = r, in_column = k, in_line_ending = Some LF\<rparr>"
  have "in_eat 1 (v_in v) = i" using assms(1,2) by (auto simp: in_get_def in_peek_def i_def Let_def)
  then have e: "in_eat (case in_match exp_break (v_in v) of None \<Rightarrow> 0 | Some n \<Rightarrow> n) (v_in v) = i"
    using assms(1) by (simp add: in_match_break in_peek_Cons is_break_def)
  have "skip_indent (literal_params d) (v_indent v) (v_found_non_empty v) i = advance r k i"
    by (rule skip_indent_literal) (use assms in \<open>auto simp: i_def\<close>)
  also have "\<dots> = j" by (simp add: advance_def i_def j_def)
  finally have t: "to_next_line (literal_params d) v = v\<lparr>v_in := j, v_indent := indent\<rparr>"
    using e assms(5) by (simp add: to_next_line_def j_def)
  have "in_peek j = char_at0 OfStream r" by (simp add: in_peek_def j_def)
  then have b: "skip_blanks (literal_params d) indent j = Inr j" using assms(6)
    by (subst skip_blanks.simps) (auto simp: j_def)
  show ?thesis using b \<open>in_peek j = _\<close> assms(5)
    by (auto simp: next_line_def t Let_def begin_line_def fold_break_def line_begun_def in_matches_break j_def not_less)
qed


section \<open>All lines\<close>

text \<open>Before line \<open>l\<close>: the column, and the indentation, which the first line with text settles.\<close>

definition at_line :: "nat \<Rightarrow> string \<Rightarrow> string list \<Rightarrow> scan_st \<Rightarrow> bool" where
  "at_line n l ls v \<longleftrightarrow> in_line_ending (v_in v) \<in> {None, Some LF} \<and> (l \<noteq> [] \<longrightarrow> 0 < in_column (v_in v))
     \<and> (if v_found_non_empty v \<or> l \<noteq> [] then v_indent v = n
        else v_indent v \<le> n \<and> concat ls \<noteq> [] \<and> hd (concat ls) \<noteq> CHR '' '')
     \<and> v_last_escaped v = None"

lemma at_line_start:
  "in_line_ending i \<in> {None, Some LF} \<Longrightarrow> d \<le> n \<Longrightarrow> concat ls \<noteq> [] \<Longrightarrow> hd (concat ls) \<noteq> CHR '' ''
    \<Longrightarrow> at_line n [] ls (scan_vars (literal_params d) i)"
  unfolding at_line_def scan_vars_def by (simp del: concat_eq_Nil_conv)

lemma at_line_Cons:
  assumes "at_line n l (l' # ls) v" "line_read l u v w" "line_begun (if l' = [] then 0 else n) r w x" "0 < n"
  shows "at_line n l' ls x"
  using assms unfolding at_line_def line_read_def line_begun_def by (auto split: if_splits)

lemma scan_lines_literal:
  assumes "0 < n" "k < n" "\<not> is_blank (char_at0 OfStream r)" "\<not> is_break (char_at0 OfStream r)"
  shows "\<forall>l' \<in> set (l # ls). plain_line l' \<Longrightarrow> at_line n l ls v
    \<Longrightarrow> in_rest (v_in v) = l @ LF # concat (map (indented n) ls) @ replicate k (CHR '' '') @ r
    \<Longrightarrow> \<exists>w. scan_lines (literal_params d) v = Inr w \<and> v_last_escaped w = None \<and> in_rest (v_in w) = r
      \<and> v_scalar w = v_scalar v @ (if v_past_opening v \<or> l \<noteq> [] then l @ [LF] else []) @ whole_lines ls"
proof (induction ls arbitrary: l v)
  case Nil
  let ?u = "replicate k (CHR '' '') @ r"
  let ?v = "v\<lparr>v_last_non_ws := length (v_scalar v), v_escaped_newline := False\<rparr>"
  obtain w where w: "scan_line (literal_params d) ?v = Inr w" "line_read l ?u ?v w"
    using scan_line_text [of l ?v ?u d] Nil by (auto simp: at_line_def good_in_def)
  have wi: "in_rest (v_in w) = LF # ?u" "in_line_ending (v_in w) \<in> {None, Some LF}" "v_found_non_empty w" "v_indent w = n"
    using w(2) Nil.prems(2) by (auto simp: line_read_def at_line_def advance_def split: if_splits)
  have "\<exists>x. next_line (literal_params d) w = Inr (is_break (char_at0 OfStream r) \<or> n \<le> k, x) \<and> line_begun k r w x"
    by (rule next_line_literal) (use wi assms in \<open>auto simp: is_blank_def\<close>)
  then obtain x where x: "next_line (literal_params d) w = Inr (False, x)" "line_begun k r w x"
    using assms by auto
  have m: "in_match REmpty (v_in w) = None" using wi(1) in_matches_empty [of "v_in w"] by (simp add: in_matches_def in_peek_Cons)
  have "scan_lines (literal_params d) v = Inr x" using Nil.prems(3) w(1) wi(1) x(1) m
    by (subst scan_lines.simps) (simp add: in_ok_def)
  then show ?case using x(2) w(2) Nil.prems(2) by (auto simp: line_begun_def line_read_def at_line_def whole_lines_def)
next
  case (Cons l' ls)
  let ?z = "LF # concat (map (indented n) ls) @ replicate k (CHR '' '') @ r"
  let ?k = "if l' = [] then 0 else n"
  let ?u = "replicate ?k (CHR '' '') @ l' @ ?z"
  let ?v = "v\<lparr>v_last_non_ws := length (v_scalar v), v_escaped_newline := False\<rparr>"
  have "indented n l' = replicate ?k (CHR '' '') @ l' @ [LF]" by (simp add: indented_def)
  then have u: "in_rest (v_in v) = l @ LF # ?u" using Cons.prems(3) by simp
  obtain w where w: "scan_line (literal_params d) ?v = Inr w" "line_read l ?u ?v w"
    using scan_line_text [of l ?v ?u d] Cons.prems(1,2) u by (auto simp: at_line_def good_in_def)
  have wi: "in_rest (v_in w) = LF # ?u" "in_line_ending (v_in w) \<in> {None, Some LF}"
    "if v_found_non_empty w then v_indent w = n else v_indent w \<le> n \<and> concat (l' # ls) \<noteq> [] \<and> hd (concat (l' # ls)) \<noteq> CHR '' ''"
    using w(2) Cons.prems(2) by (auto simp: line_read_def at_line_def advance_def split: if_splits)
  have p: "plain_line l'" using Cons.prems(1) by simp
  let ?d = "if v_found_non_empty w then v_indent w else max (v_indent w) ?k"
  have "\<exists>x. next_line (literal_params d) w = Inr (is_break (char_at0 OfStream (l' @ ?z)) \<or> ?d \<le> ?k, x) \<and> line_begun ?k (l' @ ?z) w x"
    by (rule next_line_literal; use wi p in \<open>cases l'; auto simp: char_at0_def split: if_splits\<close>)
  moreover have "is_break (char_at0 OfStream (l' @ ?z)) \<or> ?d \<le> ?k" using wi(3) by (cases l') (auto simp: char_at0_def is_break_def)
  ultimately obtain x where x: "next_line (literal_params d) w = Inr (True, x)" "line_begun ?k (l' @ ?z) w x" by auto
  have m: "in_match REmpty (v_in w) = None" using wi(1) in_matches_empty [of "v_in w"] by (simp add: in_matches_def in_peek_Cons)
  have s: "scan_lines (literal_params d) v = scan_lines (literal_params d) x" using u w(1) wi(1) x(1) m
    by (subst scan_lines.simps) (simp add: in_ok_def)
  have a: "at_line n l' ls x"
    by (rule at_line_Cons [of n l l' ls ?v ?u w, OF _ w(2) x(2) assms(1)]) (use Cons.prems(2) in \<open>auto simp: at_line_def\<close>)
  have "in_rest (v_in x) = l' @ ?z" using x(2) by (simp add: line_begun_def)
  from Cons.IH [OF _ a this] Cons.prems(1) obtain y where
    "scan_lines (literal_params d) x = Inr y" "v_last_escaped y = None" "in_rest (v_in y) = r"
    "v_scalar y = v_scalar x @ (if v_past_opening x \<or> l' \<noteq> [] then l' @ [LF] else []) @ whole_lines ls" by auto
  then show ?case using s x(2) w(2) by (auto simp: line_begun_def line_read_def whole_lines_def)
qed

section \<open>The whole scalar\<close>

lemma finish_scalar_literal:
  assumes "LF \<notin> set l" "l \<noteq> []"
  shows "finish_scalar (literal_params d) None (s @ l @ LF # replicate m LF) = s @ l @ [LF]"
proof -
  obtain a c where l: "l = a @ [c]" "c \<noteq> LF" using assms by (cases l rule: rev_cases) auto
  have "dropWhile (\<lambda>x. x = LF) (replicate m LF @ LF # c # x) = c # x" for x using l(2) by (induction m) simp_all
  then have "find_last_not_of [LF] (s @ l @ LF # replicate m LF) = Some (length (s @ a))"
    by (simp add: find_last_not_of_def l)
  then show ?thesis by (simp add: finish_scalar_def keep_escaped_def l)
qed

text \<open>Lines that a block can hold: the first with text starts with no space, which would be taken for
  indentation, and the last is not empty.\<close>

definition literal_lines :: "string list \<Rightarrow> bool" where
  "literal_lines ls \<longleftrightarrow> ls \<noteq> [] \<and> last ls \<noteq> [] \<and> (\<forall>l \<in> set ls. plain_line l) \<and> hd (concat ls) \<noteq> CHR '' ''"

lemma block_header_literal:
  assumes "in_rest i = CHR ''|'' # LF # u" "in_line_ending i \<in> {None, Some LF, Some CR}"
  shows "block_header ti i = Inr (literal_params (if ti \<ge> 0 then 1 + nat ti else 1), advance (LF # u) 1 i)"
proof -
  define j where "j = advance (LF # u) 1 i"
  have r: "in_rest j = LF # u" by (simp add: j_def)
  have g: "in_get i = (CHR ''|'', j)" unfolding j_def
    by (rule in_get_plain) (use assms in \<open>auto simp: is_break_def keeps_line_def\<close>)
  have c: "in_match exp_chomp j = None"
    by (simp add: in_match_def exp_chomp_def exp_chomp_indicator_def exp_digit_def schar_def rmatch_def r)
  have e: "eat_blanks j = j" by (subst eat_blanks.simps) (simp add: in_matches_blank in_peek_Cons [OF r] is_blank_def)
  have "\<not> in_matches exp_comment j" "in_matches exp_break j"
    by (simp_all add: exp_comment_def in_matches_char in_matches_break in_peek_Cons [OF r] is_break_def)
  then show ?thesis by (simp only: j_def [symmetric]) (simp add: block_header_def g c e literal_params_def)
qed

lemma scan_literal_written:
  assumes "literal_lines ls" "0 < n" "ti < int n" "k < n" "\<not> is_blank (char_at0 OfStream r)" "\<not> is_break (char_at0 OfStream r)"
    "in_rest i = CHR ''|'' # LF # indent_lines n True (whole_lines ls) @ replicate m LF @ replicate k (CHR '' '') @ r"
    "in_line_ending i \<in> {None, Some LF}"
  shows "\<exists>i'. scan_block_scalar ti i = Inr (whole_lines ls, i') \<and> in_rest i' = r"
proof -
  define d where "d = (if ti \<ge> 0 then 1 + nat ti else 1)"
  define ms where "ms = ls @ replicate m []"
  have lf: "\<forall>l \<in> set ls. LF \<notin> set l" using assms(1) by (auto simp: literal_lines_def plain_line_def keeps_line_def is_break_def)
  have b: "indent_lines n True (whole_lines ls) @ replicate m LF = concat (map (indented n) ms)"
  proof -
    have "concat (map (indented n) (replicate m [])) = replicate m LF" by (induction m) (simp_all add: indented_def)
    then show ?thesis by (simp add: ms_def indent_whole_lines [OF lf])
  qed
  define i1 where "i1 = advance (LF # concat (map (indented n) ms) @ replicate k (CHR '' '') @ r) 1 i"
  have h: "block_header ti i = Inr (literal_params d, i1)"
    using block_header_literal [of i "concat (map (indented n) ms) @ replicate k (CHR '' '') @ r" ti] assms(7,8)
    by (auto simp: d_def i1_def simp flip: b)
  have ne: "concat ls \<noteq> []" using assms(1) by (auto simp: literal_lines_def)
  have c: "concat ms = concat ls" by (simp add: ms_def)
  have hd: "hd (concat ls) \<noteq> CHR '' ''" using assms(1) by (simp add: literal_lines_def)
  have "d \<le> n" using assms(2,3) by (simp add: d_def nat_less_iff Suc_le_eq)
  have a: "at_line n [] ms (scan_vars (literal_params d) i1)"
    by (rule at_line_start) (use assms(8) in \<open>simp add: i1_def advance_def\<close>, fact, unfold c, fact+)
  have "plain_line []" "\<forall>l \<in> set ls. plain_line l" using assms(1) unfolding literal_lines_def by (simp add: plain_line_def, blast)
  then have "\<forall>l \<in> set ([] # ms). plain_line l" by (simp add: ms_def ball_Un)
  from scan_lines_literal [OF assms(2,4-6) this a, of d]
  obtain w where w: "scan_lines (literal_params d) (scan_vars (literal_params d) i1) = Inr w" "v_last_escaped w = None"
    "in_rest (v_in w) = r" "v_scalar w = whole_lines ms"
    by (auto simp: scan_vars_def i1_def)
  obtain l ks where l: "ls = ks @ [l]" "l \<noteq> []" using assms(1) by (cases ls rule: rev_cases) (auto simp: literal_lines_def)
  have "whole_lines ms = whole_lines ks @ l @ LF # replicate m LF"
    by (simp add: ms_def l whole_lines_def map_replicate concat_replicate_trivial)
  then have "finish_scalar (literal_params d) None (v_scalar w) = whole_lines ls"
    using finish_scalar_literal [of l d "whole_lines ks" m] lf l w(4) by (simp add: whole_lines_def)
  then show ?thesis using w by (simp add: scan_block_scalar_def h scan_scalar_def)
qed

end
