(* ===== verification/YamlScalarRound.thy ===== *)
theory YamlScalarRound
  imports YamlScalarBlock
begin

text \<open>
  What the emitter writes for a string the scanner reads back: a plain scalar is scanned as
  itself, a quoted one code point by code point, whatever follows it, a literal one line by line.
\<close>

section \<open>What is written is read\<close>

lemma utf8_of_low: "cp \<in> set cps \<Longrightarrow> write_code_point cp = [c] \<Longrightarrow> c \<in> set (utf8_of cps)"
  by (auto simp: utf8_of_def intro!: bexI [of _ cp])

lemma write_breaks: "write_code_point 0x0A = [LF]" "write_code_point 0x0D = [CR]" "write_code_point 0 = [CHR 0x00]"
proof -
  have "char_of (10 :: nat) = LF" "char_of (13 :: nat) = CR" "char_of (0 :: nat) = CHR 0x00" by code_simp+
  then show "write_code_point 0x0A = [LF]" "write_code_point 0x0D = [CR]" "write_code_point 0 = [CHR 0x00]" by (simp_all add: write_code_point_def Let_def)
qed

lemma utf8_ordinary:
  assumes "s = utf8_of cps" "{LF, CR, CHR 0x00} \<inter> set s = {}"
  shows "set cps \<inter> {0, 0x0A, 0x0D} = {}"
  using utf8_of_low [OF _ write_breaks(1), of cps] utf8_of_low [OF _ write_breaks(2), of cps]
    utf8_of_low [OF _ write_breaks(3), of cps] assms by auto

text \<open>Where a format is read back: a plain scalar not in the first column, where a document
  marker could stand, and before something that ends it; a single-quoted one without carriage
  returns and NULs, not before a quote; a literal one of whole lines, deeper than the lines around
  it, before empty lines and a line with less indentation.\<close>

definition literal_follow :: "nat \<Rightarrow> string \<Rightarrow> bool" where
  "literal_follow n t \<longleftrightarrow> (\<exists>m k r. t = replicate m LF @ replicate k (CHR '' '') @ r \<and> k < n
     \<and> \<not> is_blank (char_at0 OfStream r) \<and> \<not> is_break (char_at0 OfStream r))"

definition readable :: "string_format \<Rightarrow> bool \<Rightarrow> nat \<Rightarrow> int \<Rightarrow> scan_in \<Rightarrow> string \<Rightarrow> string \<Rightarrow> bool" where
  "readable k flow n top_indent i s t \<longleftrightarrow> (case k of
      FmtPlain \<Rightarrow> 0 < in_column i \<and> plain_follow flow top_indent i t
    | FmtSingleQuoted \<Rightarrow> CR \<notin> set s \<and> CHR 0x00 \<notin> set s \<and> char_at0 OfStream t \<noteq> SQUOTE
    | FmtDoubleQuoted \<Rightarrow> True
    | FmtLiteral \<Rightarrow> in_line_ending i \<noteq> Some CR \<and> top_indent < int n \<and> 0 < n
        \<and> (\<exists>ls. s = whole_lines ls \<and> literal_lines ls) \<and> literal_follow n t)"

lemma hits_word:
  "hits OfStream exp_doc_start (c # s) \<Longrightarrow> c = CHR ''-''" "hits OfStream exp_doc_end (c # s) \<Longrightarrow> c = CHR ''.''"
  "hits OfStream exp_block_entry (c # s) \<Longrightarrow> c = CHR ''-''" "hits OfStream exp_key (c # s) \<Longrightarrow> c = CHR ''?''"
  "hits OfStream (get_value_regex flow json) (c # s) \<Longrightarrow> c = CHR '':''"
  by (auto simp: hits_def exp_doc_start_def exp_doc_end_def exp_block_entry_def exp_key_def get_value_regex_def
      exp_value_def exp_value_in_flow_def split: if_splits option.splits)

lemma quoted_branch:
  assumes "in_rest i = q # r" "q = SQUOTE \<or> q = DQUOTE"
  shows "token_branch flow json True i = Inr BrQuotedScalar"
proof -
  have "\<not> hits OfStream exp_doc_start (q # r)" "\<not> hits OfStream exp_doc_end (q # r)" "\<not> hits OfStream exp_block_entry (q # r)"
    "\<not> hits OfStream exp_key (q # r)" "\<not> hits OfStream (get_value_regex flow json) (q # r)"
    using hits_word assms(2) by blast+
  then show ?thesis using assms(2)
    by (auto simp: token_branch_def in_matches_hits assms(1) in_peek_Cons [OF assms(1)] in_ok_def Let_def)
qed

lemma plain_branch:
  assumes "is_valid_plain_scalar s flow oa" "0 < in_column i" "in_rest i = s @ t"
  shows "token_branch flow False True i = Inr BrPlainScalar"
proof -
  obtain c u where s: "s = c # u" using assms(1) by (cases s) (auto simp: is_valid_plain_scalar_def is_null_string_def)
  have p: "hits OfString (if flow then exp_plain_scalar_in_flow else exp_plain_scalar) (c # u)" "plain_loop flow oa (c # u)"
    using assms(1) by (auto simp: is_valid_plain_scalar_def matches_hits s split: if_splits)
  note d = plain_start [OF p] plain_start(1,4-6) [OF p, of t]
  have i: "in_rest i = c # u @ t" using assms(3) s by simp
  show ?thesis using d assms(2)
    by (auto simp: token_branch_def in_matches_hits i in_peek_Cons [OF i] in_ok_def Let_def plain_stop_def)
qed

lemma and_le_nat: "(n :: nat) AND k \<le> n"
  using AND_upper1 [of "int n" "int k"] by (simp flip: of_nat_and_eq)

lemma literal_branch:
  assumes "in_rest i = CHR ''|'' # r"
  shows "token_branch False json True i = Inr BrBlockScalar"
proof -
  have "\<not> hits OfStream exp_doc_start (CHR ''|'' # r)" "\<not> hits OfStream exp_doc_end (CHR ''|'' # r)"
    "\<not> hits OfStream exp_block_entry (CHR ''|'' # r)" "\<not> hits OfStream exp_key (CHR ''|'' # r)"
    "\<not> hits OfStream (get_value_regex False json) (CHR ''|'' # r)"
    using hits_word by blast+
  then show ?thesis
    by (simp add: token_branch_def in_matches_hits assms in_peek_Cons [OF assms] in_ok_def Let_def)
qed

lemma literal_body_text: "utf8_text s \<Longrightarrow> 0 < n \<Longrightarrow> literal_body n 0 s = indent_lines n True s"
  using literal_body_utf8 [of _ n 0] by (auto simp: utf8_text_def)

lemma scan_literal_emitted:
  assumes "utf8_text s" "readable FmtLiteral False n ti i s t" "in_line_ending i \<in> {None, Some LF, Some CR}"
    "in_rest i = ''|'' @ [LF] @ literal_body n 0 s @ t"
  shows "\<exists>i'. scan_block_scalar ti i = Inr (s, i') \<and> left_over t (in_rest i')"
proof -
  obtain ls where l: "s = whole_lines ls" "literal_lines ls" using assms(2) by (auto simp: readable_def)
  obtain m k r where t: "t = replicate m LF @ replicate k (CHR '' '') @ r" "k < n"
    "\<not> is_blank (char_at0 OfStream r)" "\<not> is_break (char_at0 OfStream r)"
    using assms(2) by (auto simp: readable_def literal_follow_def)
  have n: "0 < n" "ti < int n" "in_line_ending i \<in> {None, Some LF}" using assms(2,3) by (auto simp: readable_def)
  have "in_rest i = CHR ''|'' # LF # indent_lines n True (whole_lines ls) @ replicate m LF @ replicate k (CHR '' '') @ r"
    using assms(4) l(1) t(1) literal_body_text [OF assms(1) n(1)] by simp
  from scan_literal_written [OF l(2) n(1,2) t(2-4) this n(3)]
  obtain i' where i: "scan_block_scalar ti i = Inr (s, i')" "in_rest i' = r" using l(1) by auto
  have "left_over t r" unfolding left_over_def t(1)
    by (rule exI [of _ "replicate m LF @ replicate k (CHR '' '')"]) (auto simp: is_blank_def is_break_def)
  then show ?thesis using i by blast
qed

section \<open>What is not kept\<close>

text \<open>The surrogates of U+1F600 are D83D and DE00; \<open>\N\<close> stands for U+0085; a scalar of the first
  column can be read as a document marker; a carriage return in single quotes is folded.\<close>

lemma surrogate_pair_off: "encode_utf16_surrogate_pair 0x1F600 = (0xD7FD, 0xDE00)"
  by (simp add: encode_utf16_surrogate_pair_def)

lemma next_line_escape_one_byte: "escape_char (CHR ''N'') = Some [CHR 0x85] \<and> code_bytes 0x85 = [CHR 0xC2, CHR 0x85]"
proof -
  have "char_of (0xC2 :: nat) = CHR 0xC2" "char_of (0x85 :: nat) = CHR 0x85" by code_simp+
  then show ?thesis by (simp add: escape_char_def code_bytes_def)
qed

lemma root_marker_plain:
  "is_valid_plain_scalar ''--- a'' False False
   \<and> scalar_token False False (-1) \<lparr>in_rest = ''--- a'', in_column = 0, in_line_ending = None\<rparr> = None"
  by code_simp

lemma single_quoted_return_folded:
  "write_single_quoted_string [CHR ''a'', CR, CHR ''b''] = ([SQUOTE, CHR ''a'', CR, CHR ''b'', SQUOTE], True)"
  "map_sum id fst (scan_quoted_scalar \<lparr>in_rest = [SQUOTE, CHR ''a'', CR, CHR ''b'', SQUOTE], in_column = 0, in_line_ending = None\<rparr>)
     = Inr ''a b''"
proof -
  have c: "char_of (97 :: nat) = CHR ''a''" "char_of (13 :: nat) = CR" "char_of (98 :: nat) = CHR ''b''" by code_simp+
  have "list_all legal_code_point [97, 13, 98]" using and_le_nat [where k = "0xFFFE"]
    by (auto simp: legal_code_point_def dest: order_trans)
  from single_quoted_body_utf8 [OF this] c
  show "write_single_quoted_string [CHR ''a'', CR, CHR ''b''] = ([SQUOTE, CHR ''a'', CR, CHR ''b'', SQUOTE], True)"
    by (simp add: write_single_quoted_string_def utf8_of_def write_code_point_def single_quoted_char_def Let_def)
  show "map_sum id fst (scan_quoted_scalar \<lparr>in_rest = [SQUOTE, CHR ''a'', CR, CHR ''b'', SQUOTE], in_column = 0, in_line_ending = None\<rparr>)
     = Inr ''a b''"
    by code_simp
qed

text \<open>A line feed of two bytes passes the check for single quotes, and the writing stops at it.\<close>

lemma overlong_line_feed_unclosed:
  "compute_string_format [CHR 0xC0, CHR 0x8A] ManipSingleQuoted False False = FmtSingleQuoted"
  "emit_string ManipSingleQuoted EscNone False 0 [CHR 0xC0, CHR 0x8A] = [SQUOTE]"
proof -
  show f: "compute_string_format [CHR 0xC0, CHR 0x8A] ManipSingleQuoted False False = FmtSingleQuoted"
    by (simp add: compute_string_format_def is_valid_single_quoted_scalar_def)
  have "legal_code_point 10" using and_le_nat [where n = 10 and k = "0xFFFE"] by (auto simp: legal_code_point_def)
  then have "next_code_point [CHR 0xC0, CHR 0x8A] = Some (0x0A, [])"
    by (simp add: next_code_point_def utf8_bytes_indicated_def is_trailing_byte_def Let_def)
  then show "emit_string ManipSingleQuoted EscNone False 0 [CHR 0xC0, CHR 0x8A] = [SQUOTE]"
    using f by (simp add: emit_string_def write_single_quoted_string_def single_quoted_body.simps)
qed

text \<open>A NUL before the first line break sets the column to 0, where dashes are a document marker.\<close>

lemma nul_starts_line:
  "map_sum id fst (scan_quoted_scalar \<lparr>in_rest = [SQUOTE, CHR 0x00] @ ''--- '' @ [SQUOTE], in_column = 0, in_line_ending = None\<rparr>)
     = Inl DocInScalar"
  by code_simp

lemma utf8_text_ascii: "\<forall>c \<in> set s. (of_char c :: nat) < 128 \<Longrightarrow> utf8_text s"
  unfolding utf8_text_def
proof (rule exI [of _ "map of_char s"], induction s)
  case (Cons a s)
  have "legal_code_point (of_char a)" using Cons.prems and_le_nat [where n = "of_char a" and k = "0xFFFE"] by (auto simp: legal_code_point_def)
  then show ?case using Cons by (simp add: utf8_of_def write_code_point_def Let_def)
qed (simp add: utf8_of_def)

text \<open>A literal without a line feed at the end gains one when another line follows; spaces at the start
  are lost, and with them the rest of the lines.\<close>

lemma literal_gains_line_feed:
  "literal_body 2 0 ''a'' = ''  a''"
  "map_sum id fst (scan_block_scalar 0 \<lparr>in_rest = ''|'' @ [LF] @ ''  a'' @ [LF] @ ''b'', in_column = 3, in_line_ending = None\<rparr>)
     = Inr (''a'' @ [LF])"
proof -
  have "utf8_text ''a''" by (rule utf8_text_ascii) simp
  then show "literal_body 2 0 ''a'' = ''  a''" by (simp add: literal_body_text numeral_2_eq_2)
  show "map_sum id fst (scan_block_scalar 0 \<lparr>in_rest = ''|'' @ [LF] @ ''  a'' @ [LF] @ ''b'', in_column = 3, in_line_ending = None\<rparr>)
     = Inr (''a'' @ [LF])"
    by code_simp
qed

lemma literal_leading_space_lost:
  "literal_body 2 0 ('' a'' @ [LF] @ ''b'' @ [LF]) = ''   a'' @ [LF] @ ''  b'' @ [LF]"
  "map_sum id fst (scan_block_scalar 0 \<lparr>in_rest = ''|'' @ [LF] @ ''   a'' @ [LF] @ ''  b'' @ [LF], in_column = 3, in_line_ending = None\<rparr>)
     = Inr (''a'' @ [LF])"
proof -
  have "utf8_text ('' a'' @ [LF] @ ''b'' @ [LF])" by (rule utf8_text_ascii) simp
  then show "literal_body 2 0 ('' a'' @ [LF] @ ''b'' @ [LF]) = ''   a'' @ [LF] @ ''  b'' @ [LF]"
    by (simp add: literal_body_text numeral_2_eq_2)
  show "map_sum id fst (scan_block_scalar 0 \<lparr>in_rest = ''|'' @ [LF] @ ''   a'' @ [LF] @ ''  b'' @ [LF], in_column = 3, in_line_ending = None\<rparr>)
     = Inr (''a'' @ [LF])"
    by code_simp
qed

section \<open>The round trip\<close>

text \<open>C24. Write and read: every UTF-8 text of legal code points that the emitter writes, plain, single-quoted,
  double-quoted in any escaping style or as a literal block, is read back where its format can be read (a
  plain scalar after the first column and before something that ends it, a single-quoted one without
  carriage returns and NULs, a literal one of whole lines that begin with no space):
  \<open>ScanNextToken\<close> takes it for the right kind of scalar, scans exactly that text and leaves what
  follows, up to white space.\<close>

theorem written_string_scanned:
  assumes "utf8_text s" "in_rest i = emit_string fmt style flow n s @ t" "in_line_ending i \<in> {None, Some LF, Some CR}"
    "readable (compute_string_format s fmt flow (style = EscNonAscii)) flow n ti i s t"
  shows "\<exists>i'. scalar_token flow False ti i
      = Some (Inr (compute_string_format s fmt flow (style = EscNonAscii) = FmtPlain, s, i')) \<and> left_over t (in_rest i')"
proof -
  obtain cps where c: "list_all legal_code_point cps" "s = utf8_of cps" using assms(1) by (auto simp: utf8_text_def)
  let ?f = "compute_string_format s fmt flow (style = EscNonAscii)"
  show ?thesis
  proof (cases ?f)
    case FmtPlain
    then have v: "is_valid_plain_scalar s flow (style = EscNonAscii)"
      by (auto simp: compute_string_format_def split: emitter_manip.splits if_splits)
    have w: "in_rest i = s @ t" "0 < in_column i" "plain_follow flow ti i t" "good_in i"
      using assms FmtPlain by (auto simp: emit_string_def readable_def good_in_def)
    from scan_plain_written [OF v w(4,1,3)] plain_branch [OF v w(2,1)] FmtPlain show ?thesis
      by (auto simp: scalar_token_def)
  next
    case FmtSingleQuoted
    then have w: "in_rest i = fst (write_single_quoted_string s) @ t" "char_at0 OfStream t \<noteq> SQUOTE"
      using assms by (auto simp: emit_string_def readable_def)
    have "{LF, CR, CHR 0x00} \<inter> set s = {}" using assms(4) FmtSingleQuoted
      by (auto simp: readable_def compute_string_format_def is_valid_single_quoted_scalar_def list_ex_iff
          split: emitter_manip.splits if_splits)
    from scan_single_quoted_written [OF c(1) utf8_ordinary [OF c(2) this] assms(3)] w c(2)
    obtain i' where "scan_quoted_scalar i = Inr (s, i')" "in_rest i' = t" by blast
    moreover obtain b where "in_rest i = SQUOTE # b" using w(1) by (auto simp: write_single_quoted_string_def split: prod.splits)
    ultimately show ?thesis using quoted_branch [of i SQUOTE b flow False] FmtSingleQuoted
      by (auto simp: scalar_token_def)
  next
    case FmtDoubleQuoted
    then have w: "in_rest i = write_double_quoted_string style s @ t" using assms(2) by (simp add: emit_string_def)
    from scan_double_quoted_written [OF c(1) assms(3)] c(2) w
    obtain i' where "scan_quoted_scalar i = Inr (s, i')" "in_rest i' = t" by blast
    then show ?thesis using quoted_branch [of i DQUOTE _ flow False] FmtDoubleQuoted w
      by (auto simp: scalar_token_def write_double_quoted_string_def)
  next
    case FmtLiteral
    then have f: "\<not> flow"
      by (auto simp: compute_string_format_def is_valid_literal_scalar_def split: emitter_manip.splits if_splits)
    have w: "in_rest i = ''|'' @ [LF] @ literal_body n 0 s @ t" using assms(2) FmtLiteral by (simp add: emit_string_def)
    have "readable FmtLiteral False n ti i s t" using assms(4) FmtLiteral f by simp
    from scan_literal_emitted [OF assms(1) this assms(3) w]
    obtain i' where "scan_block_scalar ti i = Inr (s, i')" "left_over t (in_rest i')" by blast
    then show ?thesis using literal_branch [of i "LF # literal_body n 0 s @ t" False] w f FmtLiteral
      by (auto simp: scalar_token_def)
  qed
qed

lemma written_string_scanned_witness:
  "\<exists>i'. scalar_token False False 0 \<lparr>in_rest = ''a: b'', in_column = 2, in_line_ending = None\<rparr>
     = Some (Inr (True, ''a'', i')) \<and> left_over '': b'' (in_rest i')"
proof -
  have u: "utf8_text ''a''" by (rule utf8_text_ascii) simp
  have v: "is_valid_plain_scalar ''a'' False False" by code_simp
  then have f: "compute_string_format ''a'' ManipAuto False (EscNone = EscNonAscii) = FmtPlain"
    by (simp add: compute_string_format_def)
  have "hits OfStream (exp_scan_scalar_end False) '': b''" unfolding hits_def by code_simp
  then have r: "readable FmtPlain False 0 0 \<lparr>in_rest = ''a: b'', in_column = 2, in_line_ending = None\<rparr> ''a'' '': b''"
    by (simp add: readable_def plain_follow_def)
  have "emit_string ManipAuto EscNone False 0 ''a'' = ''a''" using f by (simp add: emit_string_def)
  with written_string_scanned [OF u, of "\<lparr>in_rest = ''a: b'', in_column = 2, in_line_ending = None\<rparr>" ManipAuto EscNone False 0 "'': b''" 0] f r
  show ?thesis by simp
qed

end
