(* ===== verification/CountSink.thy ===== *)
theory CountSink
  imports Filesystem
begin

text \<open>
  The log sink that rotates by message count:
  \<open>common/private/logger/count_rotating_file_mt_sink.hpp\<close>.  The record holds the
  fields of \<open>count_rotating_file_mt\<close>; every operation takes the sink and the files
  and returns both.  \<open>size_t\<close> counters are \<open>nat\<close>: a count of written messages
  stays far below \<open>2 ^ 64\<close>.  The formatter is outside the sink, so \<open>sink_it_\<close> takes
  the formatted bytes.  The field \<open>extension_\<close> is assigned \<open>.log\<close> by the constructor
  and never again; it is the constant \<open>log_extension\<close>.
\<close>

section \<open>Helpers of the file\<close>

definition ends_with :: "string \<Rightarrow> string \<Rightarrow> bool" where
  "ends_with s suf =
     (if length s < length suf then False else take (length suf) (rev s) = rev suf)"

definition starts_with :: "string \<Rightarrow> string \<Rightarrow> bool" where
  "starts_with s pre \<longleftrightarrow> take (length pre) s = pre"

lemma ends_with_iff: "ends_with s suf \<longleftrightarrow> (\<exists>t. s = t @ suf)"
proof
  assume "ends_with s suf"
  then have "rev s = rev suf @ drop (length suf) (rev s)"
    by (metis append_take_drop_id ends_with_def)
  then have "s = rev (drop (length suf) (rev s)) @ suf"
    by (metis rev_append rev_rev_ident)
  then show "\<exists>t. s = t @ suf" ..
qed (auto simp: ends_with_def)

lemma starts_with_iff: "starts_with s pre \<longleftrightarrow> (\<exists>t. s = pre @ t)"
  by (metis append_eq_conv_conj append_take_drop_id starts_with_def)

definition log_extension :: string where
  "log_extension = ''.log''"

section \<open>State\<close>

record count_sink =
  c_fd :: "path option"
  c_dir :: path
  c_stem :: string
  c_max_count :: nat
  c_max_files :: nat
  c_rotate_on_open :: bool
  c_strict_count_on_open :: bool
  c_log_count :: nat
  c_opened :: bool
  c_rotated_on_open_done :: bool

text \<open>The constructor: directory, stem without \<open>.log\<close>, nothing opened yet.\<close>

definition make_count_sink :: "string \<Rightarrow> nat \<Rightarrow> nat \<Rightarrow> bool \<Rightarrow> bool \<Rightarrow> count_sink" where
  "make_count_sink base_filename max_count max_files rotate_on_open strict_count_on_open =
     (let fname = path_filename base_filename
      in \<lparr> c_fd = None,
           c_dir = (if has_parent_path base_filename then path_parent base_filename else ''.''),
           c_stem = (if ends_with fname ''.log'' then take (length fname - 4) fname else fname),
           c_max_count = max_count,
           c_max_files = max_files,
           c_rotate_on_open = rotate_on_open,
           c_strict_count_on_open = strict_count_on_open,
           c_log_count = 0,
           c_opened = False,
           c_rotated_on_open_done = False \<rparr>)"

definition c_base_path :: "count_sink \<Rightarrow> path" where
  "c_base_path s = path_join (c_dir s) (c_stem s @ log_extension)"

definition c_rotated_path :: "count_sink \<Rightarrow> nat \<Rightarrow> path" where
  "c_rotated_path s index =
     path_join (c_dir s) (c_stem s @ ''.'' @ nat_dec index @ log_extension)"

section \<open>Counting lines\<close>

text \<open>
  \<open>count_lines_in_file_\<close> reads blocks of 64 KiB; the state of its loop is the
  bytes not read yet, the newlines seen, whether a byte was read, and the last one.
\<close>

definition k_buf :: nat where
  "k_buf = 64 * 1024"

function count_lines_loop :: "string \<Rightarrow> nat \<Rightarrow> bool \<Rightarrow> char \<Rightarrow> nat \<times> bool \<times> char" where
  "count_lines_loop rest lines has_any last_c =
     (let buf = take k_buf rest
      in if buf = [] then (lines, has_any, last_c)
         else count_lines_loop (drop k_buf rest)
                (lines + length (filter (\<lambda>c. c = CHR 0x0A) buf)) True (last buf))"
  by pat_completeness auto
termination
  by (relation "measure (\<lambda>(rest, _). length rest)") (auto simp: k_buf_def)

declare count_lines_loop.simps [simp del]

definition count_lines_in_file :: "files \<Rightarrow> path \<Rightarrow> nat" where
  "count_lines_in_file m p =
     (case m p of
        None \<Rightarrow> 0
      | Some c \<Rightarrow>
          (case count_lines_loop c 0 False (CHR 0x00) of
             (lines, has_any, last_c) \<Rightarrow>
               if has_any \<and> last_c \<noteq> CHR 0x0A then lines + 1 else lines))"

section \<open>Rotation and opening\<close>

text \<open>The loop \<open>for (i = max_files_ - 1; i >= 1; --i)\<close>, with its \<open>break\<close> at 1.\<close>

fun c_shift_loop :: "(nat \<Rightarrow> path) \<Rightarrow> nat \<Rightarrow> files \<Rightarrow> files" where
  "c_shift_loop rp i m =
     (if i \<ge> 1 then
        (let src = rp i; dst = rp (i + 1);
             m' = (if fs_exists m src then fs_rename (fs_remove m dst) src dst else m)
         in if i = 1 then m' else c_shift_loop rp (i - 1) m')
      else m)"

declare c_shift_loop.simps [simp del]

definition c_rename_chain :: "path \<Rightarrow> (nat \<Rightarrow> path) \<Rightarrow> nat \<Rightarrow> files \<Rightarrow> files" where
  "c_rename_chain base rp max_files m =
     (let m1 = fs_remove m (rp max_files);
          m2 = c_shift_loop rp (max_files - 1) m1;
          src = base; dst = rp 1
      in if fs_exists m2 src then fs_rename (fs_remove m2 dst) src dst else m2)"

definition c_rotate_files :: "count_sink \<Rightarrow> files \<Rightarrow> count_sink \<times> files" where
  "c_rotate_files s m =
     (let s1 = s\<lparr>c_fd := None, c_opened := False, c_log_count := 0\<rparr>
      in if c_max_files s = 0 then (s1, m)
         else (s1, c_rename_chain (c_base_path s) (c_rotated_path s) (c_max_files s) m))"

definition c_adjust_for_strict_on_open :: "count_sink \<Rightarrow> files \<Rightarrow> count_sink \<times> files" where
  "c_adjust_for_strict_on_open s m =
     (if \<not> c_strict_count_on_open s \<or> c_max_count s = 0 then (s\<lparr>c_log_count := 0\<rparr>, m)
      else if \<not> fs_exists m (c_base_path s) then (s\<lparr>c_log_count := 0\<rparr>, m)
      else (let lines = count_lines_in_file m (c_base_path s)
            in if lines \<ge> c_max_count s
               then (case c_rotate_files s m of (s1, m1) \<Rightarrow> (s1\<lparr>c_log_count := 0\<rparr>, m1))
               else (s\<lparr>c_log_count := lines\<rparr>, m)))"

definition c_ensure_opened :: "count_sink \<Rightarrow> files \<Rightarrow> count_sink \<times> files" where
  "c_ensure_opened s m =
     (if c_opened s then (s, m)
      else (case c_adjust_for_strict_on_open s m of
              (s1, m1) \<Rightarrow>
                (s1\<lparr>c_fd := Some (c_base_path s1), c_opened := True\<rparr>,
                 fs_open_append m1 (c_base_path s1))))"

text \<open>\<open>file_helper::write\<close> does nothing on a closed file.\<close>

definition c_write :: "count_sink \<Rightarrow> files \<Rightarrow> string \<Rightarrow> files" where
  "c_write s m buf = (case c_fd s of None \<Rightarrow> m | Some p \<Rightarrow> fs_append m p buf)"

section \<open>Writing one message\<close>

definition c_rotate_on_first_write :: "count_sink \<Rightarrow> files \<Rightarrow> count_sink \<times> files" where
  "c_rotate_on_first_write s m =
     (if c_rotated_on_open_done s then (s, m)
      else (let (s1, m1) =
                  (if c_rotate_on_open s \<and> c_max_files s > 0 \<and> fs_exists m (c_base_path s)
                   then c_rotate_files s m else (s, m))
            in (s1\<lparr>c_rotated_on_open_done := True\<rparr>, m1)))"

definition c_make_room :: "count_sink \<Rightarrow> files \<Rightarrow> count_sink \<times> files" where
  "c_make_room s m =
     (if c_log_count s \<ge> c_max_count s then
        (if c_max_files s > 0
         then (case c_rotate_files s m of (s1, m1) \<Rightarrow> c_ensure_opened s1 m1)
         else (s\<lparr>c_log_count := c_max_count s\<rparr>, m))
      else (s, m))"

definition c_room_after_open :: "count_sink \<Rightarrow> files \<Rightarrow> count_sink \<times> files" where
  "c_room_after_open s m =
     (if c_log_count s \<ge> c_max_count s
      then (case c_rotate_files s m of (s1, m1) \<Rightarrow> c_ensure_opened s1 m1)
      else (s, m))"

definition c_put :: "string \<Rightarrow> count_sink \<Rightarrow> files \<Rightarrow> count_sink \<times> files" where
  "c_put buf s m =
     (let m1 = c_write s m buf;
          s1 = s\<lparr>c_log_count := c_log_count s + 1\<rparr>
      in if c_log_count s1 \<ge> c_max_count s1 then c_rotate_files s1 m1 else (s1, m1))"

definition c_sink_it :: "string \<Rightarrow> count_sink \<times> files \<Rightarrow> count_sink \<times> files" where
  "c_sink_it buf sm =
     (case sm of (s, m) \<Rightarrow>
        (let (s1, m1) = c_rotate_on_first_write s m;
             (s2, m2) = c_make_room s1 m1;
             (s3, m3) = c_ensure_opened s2 m2;
             (s4, m4) = c_room_after_open s3 m3
         in c_put buf s4 m4))"

definition c_run :: "string list \<Rightarrow> count_sink \<times> files \<Rightarrow> count_sink \<times> files" where
  "c_run bufs sm = fold c_sink_it bufs sm"

section \<open>Line counting is right\<close>

definition newlines :: "string \<Rightarrow> nat" where
  "newlines c = length (filter (\<lambda>c. c = CHR 0x0A) c)"

text \<open>Complete lines, and one more for an unterminated last line.\<close>

definition line_count :: "string \<Rightarrow> nat" where
  "line_count c = newlines c + (if c \<noteq> [] \<and> last c \<noteq> CHR 0x0A then 1 else 0)"

definition is_line :: "string \<Rightarrow> bool" where
  "is_line b \<longleftrightarrow> (\<exists>t. b = t @ [CHR 0x0A] \<and> CHR 0x0A \<notin> set t)"

lemma newlines_append [simp]: "newlines (a @ b) = newlines a + newlines b"
  by (simp add: newlines_def)

lemma line_count_Nil [simp]: "line_count [] = 0"
  by (simp add: line_count_def newlines_def)

lemma newlines_absent: "CHR 0x0A \<notin> set t \<Longrightarrow> newlines t = 0"
  by (auto simp: newlines_def filter_empty_conv)

lemma newlines_single [simp]: "newlines [CHR 0x0A] = 1"
  by (simp add: newlines_def)

lemma line_count_snoc_line: "is_line b \<Longrightarrow> line_count (c @ b) \<le> line_count c + 1"
  by (auto simp: is_line_def line_count_def newlines_absent)

lemma count_lines_loop_eq:
  "count_lines_loop rest l h c =
     (l + newlines rest, h \<or> rest \<noteq> [], if rest = [] then c else last rest)"
proof (induction rest l h c rule: count_lines_loop.induct)
  case (1 rest l h c)
  let ?buf = "take k_buf rest"
  have k: "k_buf > 0" by (simp add: k_buf_def)
  show ?case
  proof (cases "rest = []")
    case True
    then show ?thesis by (subst count_lines_loop.simps) (simp add: newlines_def)
  next
    case False
    then have ne: "?buf \<noteq> []" using k by simp
    have nl: "newlines rest = newlines ?buf + newlines (drop k_buf rest)"
      by (metis append_take_drop_id newlines_append)
    have la: "drop k_buf rest = [] \<Longrightarrow> last ?buf = last rest"
      by simp
    have lb: "drop k_buf rest \<noteq> [] \<Longrightarrow> last (drop k_buf rest) = last rest"
      by (simp add: last_drop)
    show ?thesis
      using "1" [OF refl ne] ne False nl la lb
      by (subst count_lines_loop.simps) (simp add: Let_def newlines_def)
  qed
qed

lemma count_lines_in_file_eq: "count_lines_in_file m p = line_count (content m p)"
  by (auto simp: count_lines_in_file_def count_lines_loop_eq line_count_def content_def
      newlines_def split: option.splits)

section \<open>The renaming chain of the sink\<close>

lemma c_shift_loop_eq: "c_shift_loop rp i m = shift_up rp i m"
proof (induction i arbitrary: m)
  case 0
  then show ?case by (simp add: c_shift_loop.simps [of rp 0])
next
  case (Suc i)
  then show ?case
    by (simp add: c_shift_loop.simps [of rp "Suc i"] shift_file_def Let_def)
qed

lemma c_rename_chain_eq: "c_rename_chain base rp n m = chain_rotate base rp n m"
  by (simp add: c_rename_chain_def chain_rotate_def c_shift_loop_eq shift_file_def Let_def)

lemma c_rotated_path_inj: "inj (c_rotated_path s)"
proof (rule injI)
  fix i j assume "c_rotated_path s i = c_rotated_path s j"
  then have "''.'' @ nat_dec i @ log_extension = ''.'' @ nat_dec j @ log_extension"
    unfolding c_rotated_path_def by (rule path_join_stem_inject) auto
  then show "i = j" by simp
qed

lemma c_base_rotated: "c_base_path s \<noteq> c_rotated_path s i"
proof
  assume "c_base_path s = c_rotated_path s i"
  then have "log_extension = ''.'' @ nat_dec i @ log_extension"
    unfolding c_rotated_path_def c_base_path_def
    by (rule path_join_stem_inject) (auto simp: log_extension_def)
  then have "length log_extension = length (''.'' @ nat_dec i @ log_extension)" by simp
  then show False by simp
qed

interpretation cs: backup_chain "c_base_path s" "c_rotated_path s"
  "c_rename_chain (c_base_path s) (c_rotated_path s)" for s
proof -
  have "c_rename_chain (c_base_path s) (c_rotated_path s)
      = chain_rotate (c_base_path s) (c_rotated_path s)"
    by (simp add: fun_eq_iff c_rename_chain_eq)
  then show "backup_chain (c_base_path s) (c_rotated_path s)
      (c_rename_chain (c_base_path s) (c_rotated_path s))"
    using chain_rotate_backup_chain [OF c_rotated_path_inj c_base_rotated, of s] by simp
qed

section \<open>What the operations leave alone\<close>

lemma c_paths_update [simp]:
  "c_base_path (s\<lparr>c_fd := x\<rparr>) = c_base_path s"
  "c_base_path (s\<lparr>c_opened := b\<rparr>) = c_base_path s"
  "c_base_path (s\<lparr>c_log_count := k\<rparr>) = c_base_path s"
  "c_base_path (s\<lparr>c_rotated_on_open_done := b\<rparr>) = c_base_path s"
  "c_rotated_path (s\<lparr>c_fd := x\<rparr>) = c_rotated_path s"
  "c_rotated_path (s\<lparr>c_opened := b\<rparr>) = c_rotated_path s"
  "c_rotated_path (s\<lparr>c_log_count := k\<rparr>) = c_rotated_path s"
  "c_rotated_path (s\<lparr>c_rotated_on_open_done := b\<rparr>) = c_rotated_path s"
  by (simp_all add: c_base_path_def c_rotated_path_def fun_eq_iff)

text \<open>The configuration a sink is built with.\<close>

definition c_config :: "count_sink \<Rightarrow> path \<times> string \<times> nat \<times> nat \<times> bool \<times> bool" where
  "c_config s = (c_dir s, c_stem s, c_max_count s, c_max_files s,
                 c_rotate_on_open s, c_strict_count_on_open s)"

lemma c_config_paths:
  "c_config s = c_config t \<Longrightarrow> c_base_path s = c_base_path t"
  "c_config s = c_config t \<Longrightarrow> c_rotated_path s = c_rotated_path t"
  "c_config s = c_config t \<Longrightarrow> c_max_files s = c_max_files t"
  "c_config s = c_config t \<Longrightarrow> c_max_count s = c_max_count t"
  "c_config s = c_config t \<Longrightarrow> c_strict_count_on_open s = c_strict_count_on_open t"
  by (simp_all add: c_config_def c_base_path_def c_rotated_path_def fun_eq_iff)

text \<open>A file is open exactly when the sink says so, and it is the current file.\<close>

definition c_handle_ok :: "count_sink \<Rightarrow> bool" where
  "c_handle_ok s \<longleftrightarrow> c_fd s = (if c_opened s then Some (c_base_path s) else None)"

definition c_text :: "count_sink \<Rightarrow> files \<Rightarrow> string" where
  "c_text s m = chain_text (c_base_path s) (c_rotated_path s) (c_max_files s) m"

text \<open>
  A step that keeps the configuration and the handle discipline and, with backups
  enabled, loses nothing but the oldest text.
\<close>

definition c_quiet :: "count_sink \<times> files \<Rightarrow> count_sink \<times> files \<Rightarrow> bool" where
  "c_quiet a b \<longleftrightarrow> c_config (fst b) = c_config (fst a)
     \<and> (c_handle_ok (fst a) \<longrightarrow> c_handle_ok (fst b))
     \<and> (0 < c_max_files (fst a) \<longrightarrow> suffix (c_text (fst b) (snd b)) (c_text (fst a) (snd a)))
     \<and> (c_max_files (fst a) = 0 \<longrightarrow>
          content (snd b) (c_base_path (fst a)) = content (snd a) (c_base_path (fst a)))"

lemma c_quiet_refl [simp, intro]: "c_quiet a a"
  by (simp add: c_quiet_def)

lemma c_quiet_trans [trans]: "c_quiet a b \<Longrightarrow> c_quiet b c \<Longrightarrow> c_quiet a c"
  using c_config_paths(1) [of "fst b" "fst a"] c_config_paths(3) [of "fst b" "fst a"]
  by (auto simp: c_quiet_def intro: suffix_order.trans)

lemma c_quietI:
  assumes "c_config t = c_config s"
    and "c_handle_ok s \<Longrightarrow> c_handle_ok t"
    and "0 < c_max_files s \<Longrightarrow>
      suffix (chain_text (c_base_path s) (c_rotated_path s) (c_max_files s) n)
             (chain_text (c_base_path s) (c_rotated_path s) (c_max_files s) m)"
    and "c_max_files s = 0 \<Longrightarrow> content n (c_base_path s) = content m (c_base_path s)"
  shows "c_quiet (s, m) (t, n)"
  using assms c_config_paths [OF assms(1)] by (simp add: c_quiet_def c_text_def)

lemma c_rotate_files_quiet: "c_quiet (s, m) (c_rotate_files s m)"
proof (cases "c_max_files s = 0")
  case True
  then show ?thesis
    by (simp add: c_rotate_files_def Let_def, intro c_quietI)
      (simp_all add: c_config_def c_handle_ok_def)
next
  case False
  then show ?thesis
    using cs.text_rotate [of "c_max_files s" s m]
    by (simp add: c_rotate_files_def Let_def, intro c_quietI)
      (simp_all add: c_config_def c_handle_ok_def)
qed

lemma c_adjust_quiet: "c_quiet (s, m) (c_adjust_for_strict_on_open s m)"
proof -
  have set: "c_quiet (t, n) (t\<lparr>c_log_count := k\<rparr>, n)" for t n k
    by (intro c_quietI) (simp_all add: c_config_def c_handle_ok_def)
  obtain s1 m1 where r: "c_rotate_files s m = (s1, m1)" by fastforce
  have "c_quiet (s, m) (s1\<lparr>c_log_count := 0\<rparr>, m1)"
    using c_rotate_files_quiet [of s m] set [of s1 m1 0] r by (metis c_quiet_trans)
  then show ?thesis
    using set r by (simp add: c_adjust_for_strict_on_open_def Let_def)
qed

lemma c_ensure_quiet: "c_quiet (s, m) (c_ensure_opened s m)"
proof (cases "c_opened s")
  case True
  then show ?thesis by (simp add: c_ensure_opened_def)
next
  case False
  obtain s1 m1 where a: "c_adjust_for_strict_on_open s m = (s1, m1)" by fastforce
  have "c_quiet (s1, m1) (s1\<lparr>c_fd := Some (c_base_path s1), c_opened := True\<rparr>,
      fs_open_append m1 (c_base_path s1))"
    using cs.text_open_base [of s1 "c_max_files s1" m1]
    by (intro c_quietI) (simp_all add: c_config_def c_handle_ok_def)
  then show ?thesis
    using c_adjust_quiet [of s m] False a by (auto simp: c_ensure_opened_def intro: c_quiet_trans)
qed

lemma c_first_quiet: "c_quiet (s, m) (c_rotate_on_first_write s m)"
proof -
  have set: "c_quiet (t, n) (t\<lparr>c_rotated_on_open_done := True\<rparr>, n)" for t n
    by (intro c_quietI) (simp_all add: c_config_def c_handle_ok_def)
  obtain s1 m1 where r: "c_rotate_files s m = (s1, m1)" by fastforce
  have "c_quiet (s, m) (s1\<lparr>c_rotated_on_open_done := True\<rparr>, m1)"
    using c_rotate_files_quiet [of s m] set [of s1 m1] r by (metis c_quiet_trans)
  then show ?thesis
    using set r by (auto simp: c_rotate_on_first_write_def Let_def)
qed

lemma c_rotate_ensure_quiet:
  assumes "c_rotate_files s m = (s1, m1)"
  shows "c_quiet (s, m) (c_ensure_opened s1 m1)"
  using c_rotate_files_quiet [of s m] c_ensure_quiet [of s1 m1] assms
  by (metis c_quiet_trans)

lemma c_make_room_quiet: "c_quiet (s, m) (c_make_room s m)"
proof -
  have set: "c_quiet (s, m) (s\<lparr>c_log_count := k\<rparr>, m)" for k
    by (intro c_quietI) (simp_all add: c_config_def c_handle_ok_def)
  obtain s1 m1 where r: "c_rotate_files s m = (s1, m1)" by fastforce
  from c_rotate_ensure_quiet [OF r] set show ?thesis
    by (simp add: c_make_room_def r)
qed

lemma c_room_after_open_quiet: "c_quiet (s, m) (c_room_after_open s m)"
proof -
  obtain s1 m1 where r: "c_rotate_files s m = (s1, m1)" by fastforce
  from c_rotate_ensure_quiet [OF r] show ?thesis
    by (simp add: c_room_after_open_def r)
qed

lemma c_ensure_opens: "c_opened (fst (c_ensure_opened s m))"
  by (auto simp: c_ensure_opened_def split: prod.splits)

lemma c_room_after_open_opens:
  "c_opened s \<Longrightarrow> c_opened (fst (c_room_after_open s m))"
  by (auto simp: c_room_after_open_def c_ensure_opens split: prod.splits)

text \<open>What \<open>sink_it_\<close> does is a quiet preparation, then the write.\<close>

definition c_prepare :: "count_sink \<times> files \<Rightarrow> count_sink \<times> files" where
  "c_prepare sm =
     (case sm of (s, m) \<Rightarrow>
        (let (s1, m1) = c_rotate_on_first_write s m;
             (s2, m2) = c_make_room s1 m1;
             (s3, m3) = c_ensure_opened s2 m2
         in c_room_after_open s3 m3))"

lemma c_sink_it_prepare:
  "c_sink_it buf sm = (case c_prepare sm of (s, m) \<Rightarrow> c_put buf s m)"
  by (auto simp: c_sink_it_def c_prepare_def Let_def split: prod.splits)

lemma c_prepare_quiet: "c_quiet sm (c_prepare sm)"
proof -
  obtain s m where sm: "sm = (s, m)" by fastforce
  obtain s1 m1 where 1: "c_rotate_on_first_write s m = (s1, m1)" by fastforce
  obtain s2 m2 where 2: "c_make_room s1 m1 = (s2, m2)" by fastforce
  obtain s3 m3 where 3: "c_ensure_opened s2 m2 = (s3, m3)" by fastforce
  have "c_quiet (s, m) (s1, m1)" using c_first_quiet [of s m] 1 by simp
  also have "c_quiet (s1, m1) (s2, m2)" using c_make_room_quiet [of s1 m1] 2 by simp
  also have "c_quiet (s2, m2) (s3, m3)" using c_ensure_quiet [of s2 m2] 3 by simp
  also have "c_quiet (s3, m3) (c_room_after_open s3 m3)" by (rule c_room_after_open_quiet)
  finally show ?thesis by (simp add: c_prepare_def sm 1 2 3 Let_def)
qed

lemma c_prepare_opens: "c_opened (fst (c_prepare sm))"
proof -
  obtain s m where sm: "sm = (s, m)" by fastforce
  obtain s1 m1 where 1: "c_rotate_on_first_write s m = (s1, m1)" by fastforce
  obtain s2 m2 where 2: "c_make_room s1 m1 = (s2, m2)" by fastforce
  obtain s3 m3 where 3: "c_ensure_opened s2 m2 = (s3, m3)" by fastforce
  have "c_opened s3" using c_ensure_opens [of s2 m2] 3 by simp
  from c_room_after_open_opens [OF this] show ?thesis
    by (simp add: c_prepare_def sm 1 2 3 Let_def)
qed

text \<open>The write appends to the current file; a rotation after it keeps the text.\<close>

lemma c_put_quiet:
  assumes "c_handle_ok s" "c_opened s"
  shows "c_quiet (s, fs_append m (c_base_path s) buf) (c_put buf s m)"
proof -
  let ?s = "s\<lparr>c_log_count := c_log_count s + 1\<rparr>" and ?m = "fs_append m (c_base_path s) buf"
  have w: "c_write s m buf = ?m" using assms by (simp add: c_write_def c_handle_ok_def)
  have q: "c_quiet (s, ?m) (?s, ?m)"
    by (intro c_quietI) (simp_all add: c_config_def c_handle_ok_def)
  also have "c_quiet (?s, ?m) (c_rotate_files ?s ?m)" by (rule c_rotate_files_quiet)
  finally show ?thesis using q by (auto simp: c_put_def w Let_def)
qed

lemma c_put_text_end:
  assumes "c_handle_ok s" "c_opened s" "0 < c_max_files s" "c_put buf s m = (s', m')"
  shows "suffix buf (c_text s' m')"
proof -
  let ?m = "fs_append m (c_base_path s) buf"
  have w: "c_write s m buf = ?m" using assms by (simp add: c_write_def c_handle_ok_def)
  show ?thesis
  proof (cases "c_log_count s + 1 \<ge> c_max_count s")
    case False
    then have "s' = s\<lparr>c_log_count := c_log_count s + 1\<rparr>" "m' = ?m"
      using assms(4) by (auto simp: c_put_def w Let_def)
    then show ?thesis
      using cs.text_append_base [of s "c_max_files s" m buf] by (simp add: c_text_def suffix_def)
  next
    case True
    let ?n = "c_max_files s" and ?s = "s\<lparr>c_log_count := c_log_count s + 1\<rparr>"
    have s': "c_config s' = c_config s" and m': "m' = c_rename_chain (c_base_path s) (c_rotated_path s) ?n ?m"
      using assms(3,4) True
      by (auto simp: c_put_def w c_rotate_files_def c_config_def Let_def split: if_splits)
    have one: "m' (c_rotated_path s 1) = ?m (c_base_path s)" and base: "m' (c_base_path s) = None"
      using cs.rotate_first [of ?n s ?m] cs.rotate_base [of ?n s ?m] assms(3) m' by auto
    have "content m' (c_rotated_path s 1) = content ?m (c_base_path s)"
      by (simp only: content_def one)
    then have "content m' (c_rotated_path s 1) = content m (c_base_path s) @ buf"
      by (simp only: content_append simp_thms if_True)
    moreover have "[1..<Suc ?n] = 1 # [Suc 1..<Suc ?n]"
      by (rule upt_conv_Cons) (use assms(3) in simp)
    ultimately have "suffix buf (chain_text (c_base_path s) (c_rotated_path s) ?n m')"
      using base by (simp add: cs.text_slots_append content_def suffix_def del: upt_Suc)
    then show ?thesis
      using c_config_paths [OF s'] by (simp add: c_text_def)
  qed
qed

lemma c_sink_it_text:
  assumes "0 < c_max_files s" "c_handle_ok s" "c_sink_it buf (s, m) = (s', m')"
  shows "c_config s' = c_config s" "c_handle_ok s'"
    "suffix (c_text s' m') (c_text s m @ buf)" "suffix buf (c_text s' m')"
proof -
  obtain s1 m1 where p: "c_prepare (s, m) = (s1, m1)" by fastforce
  have q1: "c_quiet (s, m) (s1, m1)" using c_prepare_quiet [of "(s, m)"] p by simp
  then have c1: "c_config s1 = c_config s" and h1: "c_handle_ok s1"
    and t1: "suffix (c_text s1 m1) (c_text s m)"
    using assms by (auto simp: c_quiet_def)
  have o1: "c_opened s1" using c_prepare_opens [of "(s, m)"] p by simp
  have mf: "0 < c_max_files s1" using assms(1) c_config_paths(3) [OF c1] by simp
  have put: "c_put buf s1 m1 = (s', m')" using assms(3) p by (simp add: c_sink_it_prepare)
  let ?m = "fs_append m1 (c_base_path s1) buf"
  have q2: "c_quiet (s1, ?m) (s', m')" using c_put_quiet [OF h1 o1, of m1 buf] put by simp
  have "c_text s1 ?m = c_text s1 m1 @ buf"
    unfolding c_text_def by (rule cs.text_append_base)
  then have "suffix (c_text s' m') (c_text s1 m1 @ buf)" using q2 mf by (simp add: c_quiet_def)
  also have "suffix (c_text s1 m1 @ buf) (c_text s m @ buf)" by (rule suffix_append_same [OF t1])
  finally show "suffix (c_text s' m') (c_text s m @ buf)" .
  show "c_config s' = c_config s" "c_handle_ok s'" using q2 c1 h1 by (auto simp: c_quiet_def)
  show "suffix buf (c_text s' m')" by (rule c_put_text_end [OF h1 o1 mf put])
qed

section \<open>The strict line bound\<close>

definition c_bounded :: "count_sink \<Rightarrow> files \<Rightarrow> bool" where
  "c_bounded s m \<longleftrightarrow>
     (\<forall>p \<in> set (chain_slots (c_base_path s) (c_rotated_path s) (c_max_files s)).
        line_count (content m p) \<le> c_max_count s)"

definition c_strict_inv :: "count_sink \<Rightarrow> files \<Rightarrow> bool" where
  "c_strict_inv s m \<longleftrightarrow> 0 < c_max_files s \<and> 0 < c_max_count s \<and> c_strict_count_on_open s
     \<and> c_handle_ok s \<and> c_bounded s m
     \<and> (if c_opened s
        then line_count (content m (c_base_path s)) \<le> c_log_count s \<and> c_log_count s < c_max_count s
        else c_log_count s = 0)"

lemma c_rotate_files_inv:
  assumes "0 < c_max_files s" "0 < c_max_count s" "c_strict_count_on_open s" "c_bounded s m"
    and r: "c_rotate_files s m = (s', m')"
  shows "c_strict_inv s' m'" "\<not> c_opened s'" "c_config s' = c_config s"
    "\<not> fs_exists m' (c_base_path s)"
proof -
  have s': "s' = s\<lparr>c_fd := None, c_opened := False, c_log_count := 0\<rparr>"
    and m': "m' = c_rename_chain (c_base_path s) (c_rotated_path s) (c_max_files s) m"
    using r assms(1) by (auto simp: c_rotate_files_def Let_def)
  have "c_bounded s m'"
    unfolding c_bounded_def m'
    using cs.content_rotate [OF assms(1), of _ s m] assms(4)
    by (metis c_bounded_def line_count_Nil zero_le)
  then show "c_strict_inv s' m'"
    using assms(1-3) by (simp add: s' c_strict_inv_def c_handle_ok_def c_bounded_def)
  show "\<not> c_opened s'" "c_config s' = c_config s" by (simp_all add: s' c_config_def)
  show "\<not> fs_exists m' (c_base_path s)" unfolding m' by (rule cs.exists_rotate [OF assms(1)])
qed

lemma c_adjust_inv:
  assumes inv: "c_strict_inv s m" "\<not> c_opened s"
    and a: "c_adjust_for_strict_on_open s m = (s', m')"
  shows "c_config s' = c_config s \<and> \<not> c_opened s' \<and> c_handle_ok s' \<and> c_bounded s' m'
    \<and> line_count (content m' (c_base_path s')) \<le> c_log_count s' \<and> c_log_count s' < c_max_count s'"
proof -
  have h: "0 < c_max_files s" "0 < c_max_count s" "c_strict_count_on_open s" "c_bounded s m"
    "c_handle_ok s" using inv by (auto simp: c_strict_inv_def)
  have frame: "c_bounded (s\<lparr>c_log_count := k\<rparr>) m" "c_handle_ok (s\<lparr>c_log_count := k\<rparr>)"
    "c_config (s\<lparr>c_log_count := k\<rparr>) = c_config s" for k
    using h by (simp_all add: c_bounded_def c_handle_ok_def c_config_def)
  consider "\<not> fs_exists m (c_base_path s)"
    | "fs_exists m (c_base_path s)" "line_count (content m (c_base_path s)) \<ge> c_max_count s"
    | "fs_exists m (c_base_path s)" "line_count (content m (c_base_path s)) < c_max_count s"
    by linarith
  then show ?thesis
  proof cases
    case 1
    then have "s' = s\<lparr>c_log_count := 0\<rparr>" "m' = m"
      using a h by (auto simp: c_adjust_for_strict_on_open_def)
    moreover have "content m (c_base_path s) = []" using 1 by (simp add: content_def fs_exists_def)
    ultimately show ?thesis using frame h inv(2) by simp
  next
    case 2
    obtain s1 m1 where r: "c_rotate_files s m = (s1, m1)" by fastforce
    have "s' = s1\<lparr>c_log_count := 0\<rparr>" "m' = m1"
      using a 2 h r by (auto simp: c_adjust_for_strict_on_open_def count_lines_in_file_eq Let_def)
    moreover have "s1 = s\<lparr>c_fd := None, c_opened := False, c_log_count := 0\<rparr>"
      using r h(1) by (auto simp: c_rotate_files_def Let_def)
    moreover have "c_bounded s1 m1" "\<not> fs_exists m1 (c_base_path s)"
      using c_rotate_files_inv [OF h(1-4) r] by (auto simp: c_strict_inv_def)
    ultimately show ?thesis
      using h(2) by (simp add: c_handle_ok_def c_bounded_def c_config_def content_def fs_exists_def)
  next
    case 3
    then have "s' = s\<lparr>c_log_count := line_count (content m (c_base_path s))\<rparr>" "m' = m"
      using a h by (auto simp: c_adjust_for_strict_on_open_def count_lines_in_file_eq Let_def)
    then show ?thesis using frame h inv(2) 3 by simp
  qed
qed

lemma c_ensure_inv:
  assumes inv: "c_strict_inv s m" and e: "c_ensure_opened s m = (s', m')"
  shows "c_strict_inv s' m' \<and> c_opened s' \<and> c_config s' = c_config s"
proof (cases "c_opened s")
  case True
  then show ?thesis using inv e by (simp add: c_ensure_opened_def)
next
  case False
  obtain s1 m1 where a: "c_adjust_for_strict_on_open s m = (s1, m1)" by fastforce
  note c_adjust_inv [OF inv False a]
  moreover from this have "c_config s1 = c_config s" by simp
  moreover note c_config_paths [OF this]
  ultimately show ?thesis
    using inv e False a
    by (auto simp: c_ensure_opened_def c_strict_inv_def c_handle_ok_def c_bounded_def c_config_def)
qed

lemma c_first_inv:
  assumes inv: "c_strict_inv s m" and f: "c_rotate_on_first_write s m = (s', m')"
  shows "c_strict_inv s' m' \<and> c_config s' = c_config s"
proof -
  have set: "c_strict_inv (t\<lparr>c_rotated_on_open_done := True\<rparr>) n \<longleftrightarrow> c_strict_inv t n"
    "c_config (t\<lparr>c_rotated_on_open_done := True\<rparr>) = c_config t" for t n
    by (simp_all add: c_strict_inv_def c_handle_ok_def c_bounded_def c_config_def)
  obtain s1 m1 where r: "c_rotate_files s m = (s1, m1)" by fastforce
  have "c_strict_inv s1 m1" "c_config s1 = c_config s"
    using c_rotate_files_inv [OF _ _ _ _ r] inv by (auto simp: c_strict_inv_def)
  then show ?thesis
    using inv f r set by (auto simp: c_rotate_on_first_write_def Let_def split: if_splits)
qed

lemma c_prepare_inv:
  assumes inv: "c_strict_inv s m" and p: "c_prepare (s, m) = (s', m')"
  shows "c_strict_inv s' m' \<and> c_opened s' \<and> c_config s' = c_config s"
proof -
  obtain s1 m1 where 1: "c_rotate_on_first_write s m = (s1, m1)" by fastforce
  have i1: "c_strict_inv s1 m1" and c1: "c_config s1 = c_config s" using c_first_inv [OF inv 1] by auto
  have 2: "c_make_room s1 m1 = (s1, m1)"
    using i1 by (auto simp: c_make_room_def c_strict_inv_def split: if_splits)
  obtain s3 m3 where 3: "c_ensure_opened s1 m1 = (s3, m3)" by fastforce
  have i3: "c_strict_inv s3 m3 \<and> c_opened s3 \<and> c_config s3 = c_config s1"
    by (rule c_ensure_inv [OF i1 3])
  then have 4: "c_room_after_open s3 m3 = (s3, m3)"
    by (auto simp: c_room_after_open_def c_strict_inv_def)
  show ?thesis using p i3 c1 by (simp add: c_prepare_def 1 2 3 4 Let_def)
qed

lemma c_put_inv:
  assumes inv: "c_strict_inv s m" "c_opened s" and b: "is_line buf" and p: "c_put buf s m = (s', m')"
  shows "c_strict_inv s' m' \<and> c_config s' = c_config s"
proof -
  let ?m = "fs_append m (c_base_path s) buf" and ?s = "s\<lparr>c_log_count := c_log_count s + 1\<rparr>"
  have w: "c_write s m buf = ?m" using inv by (simp add: c_write_def c_handle_ok_def c_strict_inv_def)
  have grow: "line_count (content m (c_base_path s) @ buf) \<le> c_log_count s + 1"
    using line_count_snoc_line [OF b, of "content m (c_base_path s)"] inv by (simp add: c_strict_inv_def)
  have "c_bounded s ?m"
    using inv grow by (auto simp: c_bounded_def c_strict_inv_def)
  then have bd: "c_bounded ?s ?m" by (simp add: c_bounded_def)
  have cfg: "c_config ?s = c_config s" by (simp add: c_config_def)
  show ?thesis
  proof (cases "c_log_count s + 1 \<ge> c_max_count s")
    case True
    then have "c_rotate_files ?s ?m = (s', m')" using p by (simp add: c_put_def w Let_def)
    from c_rotate_files_inv [OF _ _ _ bd this] show ?thesis
      using inv cfg by (simp add: c_strict_inv_def)
  next
    case False
    then have "s' = ?s" "m' = ?m" using p by (auto simp: c_put_def w Let_def)
    then show ?thesis using inv bd grow False cfg by (simp add: c_strict_inv_def c_handle_ok_def)
  qed
qed

lemma c_run_inv:
  assumes "c_strict_inv s m" "\<forall>b \<in> set bufs. is_line b" "c_run bufs (s, m) = (s', m')"
  shows "c_strict_inv s' m' \<and> c_config s' = c_config s"
  using assms
proof (induction bufs arbitrary: s m)
  case Nil
  then show ?case by (simp add: c_run_def)
next
  case (Cons b bufs)
  obtain s1 m1 where p: "c_prepare (s, m) = (s1, m1)" by fastforce
  obtain s2 m2 where q: "c_put b s1 m1 = (s2, m2)" by fastforce
  have i1: "c_strict_inv s1 m1 \<and> c_opened s1 \<and> c_config s1 = c_config s"
    by (rule c_prepare_inv [OF Cons.prems(1) p])
  have i2: "c_strict_inv s2 m2 \<and> c_config s2 = c_config s1"
    using i1 Cons.prems(2) by (intro c_put_inv [OF _ _ _ q]) auto
  have "c_run bufs (s2, m2) = (s', m')"
    using Cons.prems(3) by (simp add: c_run_def c_sink_it_prepare p q)
  then have "c_strict_inv s' m' \<and> c_config s' = c_config s2"
    using i2 Cons.prems(2) by (intro Cons.IH) auto
  then show ?case using i1 i2 by simp
qed

section \<open>Runs of the sink\<close>

lemma c_run_text:
  assumes "0 < c_max_files s" "c_handle_ok s" "c_run bufs (s, m) = (s', m')"
  shows "suffix (c_text s' m') (c_text s m @ concat bufs) \<and> c_config s' = c_config s
    \<and> (bufs \<noteq> [] \<longrightarrow> suffix (last bufs) (c_text s' m'))"
  using assms
proof (induction bufs arbitrary: s m)
  case Nil
  then show ?case by (simp add: c_run_def)
next
  case (Cons b bufs)
  obtain s1 m1 where w: "c_sink_it b (s, m) = (s1, m1)" by fastforce
  note t = c_sink_it_text [OF Cons.prems(1,2) w]
  have "0 < c_max_files s1" using Cons.prems(1) c_config_paths(3) [OF t(1)] by simp
  moreover have r: "c_run bufs (s1, m1) = (s', m')" using Cons.prems(3) w by (simp add: c_run_def)
  ultimately have ih: "suffix (c_text s' m') (c_text s1 m1 @ concat bufs)" "c_config s' = c_config s1"
    "bufs \<noteq> [] \<longrightarrow> suffix (last bufs) (c_text s' m')"
    using Cons.IH t(2) by blast+
  have "suffix (c_text s1 m1 @ concat bufs) (c_text s m @ b @ concat bufs)"
    using suffix_append_same [OF t(3), of "concat bufs"] by simp
  with ih(1) have "suffix (c_text s' m') (c_text s m @ concat (b # bufs))"
    by (simp add: suffix_order.trans)
  moreover have "suffix (last (b # bufs)) (c_text s' m')"
    using ih(3) t(4) r by (cases "bufs = []") (auto simp: c_run_def)
  ultimately show ?case using ih(2) t(1) by simp
qed

lemma c_run_append_only:
  assumes "c_max_files s = 0" "c_handle_ok s" "c_run bufs (s, m) = (s', m')"
  shows "content m' (c_base_path s) = content m (c_base_path s) @ concat bufs"
  using assms
proof (induction bufs arbitrary: s m)
  case Nil
  then show ?case by (simp add: c_run_def)
next
  case (Cons b bufs)
  obtain s1 m1 where p: "c_prepare (s, m) = (s1, m1)" by fastforce
  obtain s2 m2 where q: "c_put b s1 m1 = (s2, m2)" by fastforce
  have q1: "c_quiet (s, m) (s1, m1)" using c_prepare_quiet [of "(s, m)"] p by simp
  have o1: "c_opened s1" using c_prepare_opens [of "(s, m)"] p by simp
  have h1: "c_handle_ok s1" and cfg1: "c_config s1 = c_config s"
    and t1: "content m1 (c_base_path s) = content m (c_base_path s)"
    using q1 Cons.prems by (auto simp: c_quiet_def)
  have q2: "c_quiet (s1, fs_append m1 (c_base_path s1) b) (s2, m2)"
    using c_put_quiet [OF h1 o1, of m1 b] q by simp
  have e: "c_base_path s1 = c_base_path s" "c_max_files s1 = 0"
    using c_config_paths [OF cfg1] Cons.prems by auto
  have h2: "c_handle_ok s2" "c_config s2 = c_config s1"
    and t2: "content m2 (c_base_path s) = content m1 (c_base_path s) @ b"
    using q2 h1 e by (auto simp: c_quiet_def)
  have "c_run bufs (s2, m2) = (s', m')"
    using Cons.prems(3) by (simp add: c_run_def c_sink_it_prepare p q)
  then have "content m' (c_base_path s2) = content m2 (c_base_path s2) @ concat bufs"
    using h2 e c_config_paths [OF h2(2)] by (intro Cons.IH) auto
  then show ?case using e t1 t2 c_config_paths [OF h2(2)] by simp
qed

lemma c_run_keeps_paths:
  assumes "c_config s' = c_config s"
  shows "c_text s' m = c_text s m"
  using c_config_paths [OF assms] by (simp add: c_text_def)

text \<open>
  C4. With strict counting, a line limit and at least one backup, no file of the
  rotation chain ever exceeds \<open>max_count\<close> lines, whatever messages are written and
  whether or not the sink rotates on open, provided the files found at the start
  were within the limit.  (\<open>strict_count_on_open\<close> of the header comment.)
\<close>

theorem count_sink_line_bound:
  assumes "0 < max_count" "0 < max_files"
    and s: "s = make_count_sink file max_count max_files rotate_on_open True"
    and "\<forall>p \<in> set (chain_slots (c_base_path s) (c_rotated_path s) max_files).
           line_count (content m p) \<le> max_count"
    and "\<forall>b \<in> set bufs. is_line b"
    and "p \<in> set (chain_slots (c_base_path s) (c_rotated_path s) max_files)"
  shows "line_count (content (snd (c_run bufs (s, m))) p) \<le> max_count"
proof -
  have f: "c_max_count s = max_count" "c_max_files s = max_files" "c_strict_count_on_open s"
    "\<not> c_opened s" "c_log_count s = 0" "c_fd s = None"
    by (simp_all add: s make_count_sink_def Let_def)
  obtain s' m' where r: "c_run bufs (s, m) = (s', m')" by fastforce
  have "c_strict_inv s m"
    using assms(1,2,4) f by (simp add: c_strict_inv_def c_bounded_def c_handle_ok_def)
  from c_run_inv [OF this assms(5) r]
  have "c_bounded s' m'" and cfg: "c_config s' = c_config s" by (auto simp: c_strict_inv_def)
  then show ?thesis
    using assms(6) f r c_config_paths [OF cfg] by (simp add: c_bounded_def)
qed

theorem count_sink_line_bound_witness:
  "line_count (content (snd (c_run [''a'' @ [CHR 0x0A], ''b'' @ [CHR 0x0A]]
      (make_count_sink ''logs/app.log'' 1 1 False True, Map.empty)))
      (c_base_path (make_count_sink ''logs/app.log'' 1 1 False True))) \<le> 1"
  by (rule count_sink_line_bound [OF _ _ refl])
    (auto simp: is_line_def chain_slots_def content_def)

text \<open>
  With at least one backup no message is lost except by dropping the oldest
  text: what the chain holds afterwards, read from the oldest backup to the current
  file, is a suffix of what it held before followed by the messages in order, and
  it ends with the last message written.
\<close>

theorem count_sink_keeps_order:
  assumes "0 < max_files"
    and s: "s = make_count_sink file max_count max_files rotate_on_open strict"
    and "c_run bufs (s, m) = (s', m')"
    and "bufs \<noteq> []"
  shows "suffix (c_text s m') (c_text s m @ concat bufs) \<and> suffix (last bufs) (c_text s m')"
proof -
  have "0 < c_max_files s" "c_handle_ok s"
    using assms(1) by (simp_all add: s make_count_sink_def c_handle_ok_def Let_def)
  from c_run_text [OF this assms(3)] show ?thesis
    using assms(4) c_run_keeps_paths by metis
qed

theorem count_sink_keeps_order_witness:
  "\<exists>m'. suffix (c_text (make_count_sink ''app'' 2 3 True False) m')
          (c_text (make_count_sink ''app'' 2 3 True False) Map.empty @ concat [''x'', ''y''])
     \<and> suffix ''y'' (c_text (make_count_sink ''app'' 2 3 True False) m')"
  using count_sink_keeps_order [of 3 "make_count_sink ''app'' 2 3 True False" "''app''" 2 True False
      "[''x'', ''y'']" Map.empty]
  by (cases "c_run [''x'', ''y''] (make_count_sink ''app'' 2 3 True False, Map.empty)") auto

text \<open>
  With \<open>max_files = 0\<close> rotation is disabled: the current file only grows, by
  exactly the messages written, whatever the line limit.
\<close>

theorem count_sink_no_backups_appends:
  assumes s: "s = make_count_sink file max_count 0 rotate_on_open strict"
  shows "content (snd (c_run bufs (s, m))) (c_base_path s) = content m (c_base_path s) @ concat bufs"
proof -
  have "c_max_files s = 0" "c_handle_ok s"
    by (simp_all add: s make_count_sink_def c_handle_ok_def Let_def)
  then show ?thesis using c_run_append_only by (metis prod.exhaust_sel)
qed

theorem count_sink_no_backups_appends_witness:
  "content (snd (c_run [''x'', ''y''] (make_count_sink ''app'' 1 0 True False, Map.empty)))
      (c_base_path (make_count_sink ''app'' 1 0 True False)) = ''xy''"
  using count_sink_no_backups_appends [OF refl, of "[''x'', ''y'']" "''app''" 1 True False Map.empty]
  by (simp add: content_def)

text \<open>
  A line limit of 0 (\<open>max_count: 0\<close> in the configuration) rotates three times
  per message: the message ends in backup 1 and an empty file in backup 2, so half
  of the backups kept are empty and older messages leave the chain twice as fast.
\<close>

theorem count_sink_zero_limit:
  assumes s: "s = make_count_sink file 0 max_files False strict"
    and mf: "2 \<le> max_files" and "m (c_base_path s) = None"
    and "c_sink_it buf (s, m) = (s', m')"
  shows "m' (c_rotated_path s 1) = Some buf \<and> m' (c_rotated_path s 2) = Some []"
proof -
  let ?b = "c_base_path s" and ?rp = "c_rotated_path s"
  let ?R = "c_rename_chain ?b ?rp max_files"
  let ?x = "fs_append (fs_open_append (?R (fs_open_append (?R m) ?b)) ?b) ?b buf"
  have f: "c_max_count s = 0" "c_max_files s = max_files" "\<not> c_opened s" "c_log_count s = 0"
    "\<not> c_rotate_on_open s" "\<not> c_rotated_on_open_done s"
    by (simp_all add: s make_count_sink_def Let_def)
  have m': "m' = ?R ?x"
    using assms(4) f mf
    by (simp add: c_sink_it_def c_rotate_on_first_write_def c_make_room_def c_rotate_files_def
        c_ensure_opened_def c_adjust_for_strict_on_open_def c_room_after_open_def c_put_def
        c_write_def Let_def)
  have n: "0 < max_files" "1 < max_files" using mf by auto
  have x: "?x ?b = Some buf" "?x (?rp 1) = Some []"
    using cs.rotate_base [OF n(1), of s] cs.rotate_first [OF n(1), of s]
    by (simp_all add: fs_append_def fs_open_append_def)
  have "m' (?rp 1) = Some buf" using cs.rotate_first [OF n(1), of s ?x] x m' by simp
  moreover have "m' (?rp 2) = Some []"
    using cs.rotate_next [of 1 max_files s ?x] n x m' by (simp add: numeral_2_eq_2)
  ultimately show ?thesis by simp
qed

theorem count_sink_zero_limit_witness:
  "case c_sink_it ''hello'' (make_count_sink ''app'' 0 2 False True, Map.empty) of (s, m) \<Rightarrow>
     m (c_rotated_path (make_count_sink ''app'' 0 2 False True) 1) = Some ''hello''
     \<and> m (c_rotated_path (make_count_sink ''app'' 0 2 False True) 2) = Some []"
  using count_sink_zero_limit [OF refl, of 2 Map.empty "''app''" True "''hello''"]
  by (auto split: prod.splits)

end
