(* ===== verification/DateTime.thy ===== *)
theory DateTime
  imports Prelude
begin

text \<open>
  The hand-written date formatter and the text replacement of
  \<open>common/private/logger/daily_size_rotating_file_mt_sink.hpp\<close> (lines 42 to 242), and
  the calendar record of the C library it reads.  The time zone is outside the
  program: \<open>localtime_r\<close> and \<open>mktime\<close> are the two fields of \<open>tz\<close>, a parameter of
  every definition that uses them.  A \<open>system_clock\<close> time point is an \<open>int\<close> of
  nanoseconds since the epoch.
\<close>

section \<open>Calendar time\<close>

record tm_parts =
  tm_sec :: int
  tm_min :: int
  tm_hour :: int
  tm_mday :: int
  tm_mon :: int
  tm_year :: int
  tm_wday :: int

record tz =
  localtime :: "int \<Rightarrow> tm_parts"
  mktime :: "tm_parts \<Rightarrow> int"

text \<open>Integer division and remainder of C, which truncate towards zero.\<close>

definition c_div :: "int \<Rightarrow> int \<Rightarrow> int" where
  "c_div a b = sgn a * sgn b * (\<bar>a\<bar> div \<bar>b\<bar>)"

definition c_rem :: "int \<Rightarrow> int \<Rightarrow> int" where
  "c_rem a b = sgn a * (\<bar>a\<bar> mod \<bar>b\<bar>)"

definition ns_per_sec :: int where
  "ns_per_sec = 1000000000"

definition to_time_t :: "int \<Rightarrow> int" where
  "to_time_t tp = c_div tp ns_per_sec"

definition hours24 :: int where
  "hours24 = 86400 * ns_per_sec"

section \<open>Formatting\<close>

definition append_int :: "string \<Rightarrow> int \<Rightarrow> nat \<Rightarrow> char \<Rightarrow> string" where
  "append_int out v width pad =
     (let t = int_dec v in out @ replicate (width - length t) pad @ t)"

definition clamp_ms :: "int \<Rightarrow> int" where
  "clamp_ms ms = (if ms < 0 then 0 else if ms > 999 then 999 else ms)"

definition to_local_parts :: "tz \<Rightarrow> int \<Rightarrow> tm_parts \<times> int" where
  "to_local_parts z tp =
     (let ms_since_epoch = c_div tp 1000000;
          sec_since_epoch = c_div ms_since_epoch 1000;
          ms = ms_since_epoch - sec_since_epoch * 1000
      in (localtime z (to_time_t tp), clamp_ms ms))"

definition month_short :: "string list" where
  "month_short = [''Jan'', ''Feb'', ''Mar'', ''Apr'', ''May'', ''Jun'',
                  ''Jul'', ''Aug'', ''Sep'', ''Oct'', ''Nov'', ''Dec'']"

definition month_long :: "string list" where
  "month_long = [''January'', ''February'', ''March'', ''April'', ''May'', ''June'',
                 ''July'', ''August'', ''September'', ''October'', ''November'', ''December'']"

definition weekday_short :: "string list" where
  "weekday_short = [''Mon'', ''Tue'', ''Wed'', ''Thu'', ''Fri'', ''Sat'', ''Sun'']"

definition weekday_long :: "string list" where
  "weekday_long = [''Monday'', ''Tuesday'', ''Wednesday'', ''Thursday'', ''Friday'',
                   ''Saturday'', ''Sunday'']"

definition hour12 :: "int \<Rightarrow> int" where
  "hour12 hour24 = (let h = c_rem hour24 12 in if h = 0 then 12 else h)"

definition ampm :: "int \<Rightarrow> bool \<Rightarrow> string" where
  "ampm hour24 upper =
     (let is_pm = (hour24 \<ge> 12)
      in if upper then (if is_pm then ''PM'' else ''AM'') else (if is_pm then ''pm'' else ''am''))"

text \<open>The \<open>switch\<close> on a run of \<open>n\<close> equal letters \<open>c\<close>.\<close>

definition format_token :: "tm_parts \<times> int \<Rightarrow> char \<Rightarrow> nat \<Rightarrow> string" where
  "format_token parts c n =
     (let t = fst parts;
          year = tm_year t + 1900; month = tm_mon t + 1; day = tm_mday t;
          wday = tm_wday t; hour24 = tm_hour t; minute = tm_min t; second = tm_sec t;
          qt_wday = (if wday = 0 then 6 else wday - 1);
          num = (\<lambda>v w. append_int [] v w (CHR ''0''))
      in if c = CHR ''y'' then
           (if n \<ge> 4 then num year 4 else if n = 2 then num (c_rem year 100) 2 else num year 0)
         else if c = CHR ''M'' then
           (if n = 1 then num month 0 else if n = 2 then num month 2
            else if n = 3 then month_short ! nat (month - 1) else month_long ! nat (month - 1))
         else if c = CHR ''d'' then
           (if n = 1 then num day 0 else if n = 2 then num day 2
            else if n = 3 then weekday_short ! nat qt_wday else weekday_long ! nat qt_wday)
         else if c = CHR ''H'' then (if n = 1 then num hour24 0 else num hour24 2)
         else if c = CHR ''h'' then
           (if n = 1 then num (hour12 hour24) 0 else num (hour12 hour24) 2)
         else if c = CHR ''m'' then (if n = 1 then num minute 0 else num minute 2)
         else if c = CHR ''s'' then (if n = 1 then num second 0 else num second 2)
         else if c = CHR ''z'' then
           (let ms = snd parts
            in if n = 1 then num (c_div ms 100) 0 else if n = 2 then num (c_div ms 10) 2
               else num ms 3)
         else replicate n c)"

text \<open>The main loop; the flag is \<open>in_quote\<close>.\<close>

function format_loop :: "tm_parts \<times> int \<Rightarrow> bool \<Rightarrow> string \<Rightarrow> string" where
  "format_loop parts in_quote [] = []"
| "format_loop parts in_quote (c # cs) =
     (if c = CHR 0x27 then
        (if cs \<noteq> [] \<and> hd cs = CHR 0x27 then CHR 0x27 # format_loop parts in_quote (tl cs)
         else format_loop parts (\<not> in_quote) cs)
      else if in_quote then c # format_loop parts in_quote cs
      else if cs \<noteq> [] \<and> ((c = CHR ''A'' \<and> hd cs = CHR ''P'') \<or> (c = CHR ''a'' \<and> hd cs = CHR ''p''))
        then ampm (tm_hour (fst parts)) (c = CHR ''A'') @ format_loop parts in_quote (tl cs)
      else (let run = takeWhile (\<lambda>d. d = c) cs; n = 1 + length run
            in format_token parts c n @ format_loop parts in_quote (dropWhile (\<lambda>d. d = c) cs)))"
  by pat_completeness auto
termination
  by (relation "measure (\<lambda>(_, _, f). length f)")
     (auto simp: le_imp_less_Suc length_dropWhile_le)

declare format_loop.simps [simp del]

definition qt_datetime_format_subset :: "tz \<Rightarrow> int \<Rightarrow> string \<Rightarrow> string" where
  "qt_datetime_format_subset z tp fmt = format_loop (to_local_parts z tp) False fmt"

section \<open>Replacing text\<close>

text \<open>\<open>std::string::find\<close> from a position.\<close>

function find_from :: "string \<Rightarrow> string \<Rightarrow> nat \<Rightarrow> nat option" where
  "find_from s old pos =
     (if pos + length old > length s then None
      else if take (length old) (drop pos s) = old then Some pos
      else find_from s old (pos + 1))"
  by pat_completeness auto
termination
  by (relation "measure (\<lambda>(s, old, pos). Suc (length s) - pos)") auto

declare find_from.simps [simp del]

lemma find_from_Some:
  "find_from s old pos = Some i \<Longrightarrow>
     pos \<le> i \<and> i + length old \<le> length s \<and> take (length old) (drop i s) = old"
proof (induction s old pos rule: find_from.induct)
  case (1 s old pos)
  then show ?case
    by (auto simp: find_from.simps [of s old pos] split: if_splits)
qed

text \<open>The loop \<open>while ((pos = s.find(from, pos)) != npos)\<close>.\<close>

function replace_loop :: "string \<Rightarrow> string \<Rightarrow> string \<Rightarrow> nat \<Rightarrow> string" where
  "replace_loop old new s pos =
     (if old = [] then s
      else (case find_from s old pos of
              None \<Rightarrow> s
            | Some i \<Rightarrow>
                replace_loop old new (take i s @ new @ drop (i + length old) s) (i + length new)))"
  by pat_completeness auto
termination
  by (relation "measure (\<lambda>(old, new, s, pos). length s - pos)")
     (auto dest!: find_from_Some simp: min_def simp flip: length_greater_0_conv)

declare replace_loop.simps [simp del]

definition replace_all :: "string \<Rightarrow> string \<Rightarrow> string \<Rightarrow> string" where
  "replace_all s old new = (if old = [] then s else replace_loop old new s 0)"

text \<open>What the loop computes: one pass from left to right, the inserted text skipped.\<close>

function replace_scan :: "string \<Rightarrow> string \<Rightarrow> string \<Rightarrow> string" where
  "replace_scan old new s =
     (if old \<noteq> [] \<and> length old \<le> length s \<and> take (length old) s = old
      then new @ replace_scan old new (drop (length old) s)
      else (case s of [] \<Rightarrow> [] | c # cs \<Rightarrow> c # replace_scan old new cs))"
  by pat_completeness auto
termination
  by (relation "measure (\<lambda>(old, new, s). length s)")
     (auto simp flip: length_greater_0_conv)

declare replace_scan.simps [simp del]

lemma replace_scan_skip:
  "length s < length old \<or> take (length old) s \<noteq> old \<Longrightarrow> old \<noteq> [] \<Longrightarrow>
     replace_scan old new s = (case s of [] \<Rightarrow> [] | c # cs \<Rightarrow> c # replace_scan old new cs)"
  by (subst replace_scan.simps) auto

lemma replace_scan_hit:
  "old \<noteq> [] \<Longrightarrow> replace_scan old new (old @ t) = new @ replace_scan old new t"
  by (subst replace_scan.simps) simp

lemma replace_scan_short: "length s < length old \<Longrightarrow> replace_scan old new s = s"
proof (induction s)
  case Nil
  then show ?case by (subst replace_scan.simps) auto
next
  case (Cons c s)
  then show ?case by (subst replace_scan_skip) auto
qed

lemma find_from_scan:
  "pos \<le> length s \<Longrightarrow> old \<noteq> [] \<Longrightarrow> replace_scan old new (drop pos s) =
    (case find_from s old pos of
       None \<Rightarrow> drop pos s
     | Some i \<Rightarrow> take (i - pos) (drop pos s) @ new @ replace_scan old new (drop (i + length old) s))"
proof (induction s old pos rule: find_from.induct)
  case (1 s old pos)
  consider (short) "pos + length old > length s"
    | (hit) "pos + length old \<le> length s" "take (length old) (drop pos s) = old"
    | (miss) "pos + length old \<le> length s" "take (length old) (drop pos s) \<noteq> old"
    by linarith
  then show ?case
  proof cases
    case short
    then have "length (drop pos s) < length old" using "1.prems"(1) by simp
    then show ?thesis using short
      by (simp add: replace_scan_short find_from.simps [of s old pos])
  next
    case hit
    have "drop pos s = old @ drop (pos + length old) s"
      using hit(2) by (metis append_take_drop_id drop_drop add.commute)
    then have "replace_scan old new (drop pos s) = new @ replace_scan old new (drop (pos + length old) s)"
      using replace_scan_hit [OF "1.prems"(2), of new "drop (pos + length old) s"] by simp
    then show ?thesis using hit by (simp add: find_from.simps [of s old pos])
  next
    case miss
    then have len: "pos < length s" using "1.prems"(2)
      by (metis add_leD1 le_neq_implies_less length_greater_0_conv less_add_same_cancel1 not_less)
    then have d: "drop pos s = s ! pos # drop (Suc pos) s" by (simp add: Cons_nth_drop_Suc)
    have f: "find_from s old pos = find_from s old (pos + 1)"
      using miss by (simp add: find_from.simps [of s old pos])
    have "replace_scan old new (drop pos s) = s ! pos # replace_scan old new (drop (Suc pos) s)"
      using replace_scan_skip [of "drop pos s" old new] miss(2) "1.prems"(2) d by simp
    also have "replace_scan old new (drop (Suc pos) s) =
      (case find_from s old (pos + 1) of
         None \<Rightarrow> drop (Suc pos) s
       | Some i \<Rightarrow> take (i - Suc pos) (drop (Suc pos) s) @ new @ replace_scan old new (drop (i + length old) s))"
      using "1.IH" miss len "1.prems"(2) by (simp split: option.split)
    finally show ?thesis
      unfolding f by (auto simp: d take_Cons' dest: find_from_Some split: option.splits)
  qed
qed

lemma replace_loop_scan:
  "pos \<le> length s \<Longrightarrow> old \<noteq> [] \<Longrightarrow>
     replace_loop old new s pos = take pos s @ replace_scan old new (drop pos s)"
proof (induction old new s pos rule: replace_loop.induct)
  case (1 old new s pos)
  show ?case
  proof (cases "find_from s old pos")
    case None
    then show ?thesis
      using find_from_scan [OF "1.prems", of new] "1.prems"
      by (simp add: replace_loop.simps [of old new s pos])
  next
    case (Some i)
    let ?s = "take i s @ new @ drop (i + length old) s"
    note i = find_from_Some [OF Some]
    have "replace_loop old new ?s (i + length new) = take (i + length new) ?s
        @ replace_scan old new (drop (i + length new) ?s)"
      using i "1.prems"(2) by (intro "1.IH" [OF _ Some]) auto
    also have "\<dots> = take i s @ new @ replace_scan old new (drop (i + length old) s)"
      using i by simp
    also have "\<dots> = take pos s @ take (i - pos) (drop pos s) @ new @ replace_scan old new (drop (i + length old) s)"
      using i take_add [of pos "i - pos" s] by simp
    finally show ?thesis
      using find_from_scan [OF "1.prems", of new] Some "1.prems"(2)
      by (simp add: replace_loop.simps [of old new s pos])
  qed
qed

lemma replace_all_scan: "replace_all s old new = (if old = [] then s else replace_scan old new s)"
  using replace_loop_scan [of 0 s old new] by (simp add: replace_all_def)

lemma replace_scan_absent:
  assumes "old = c # rest" "c \<notin> set s"
  shows "replace_scan old new (s @ t) = s @ replace_scan old new t"
  using assms(2)
proof (induction s)
  case Nil
  then show ?case by simp
next
  case (Cons d s)
  then have "replace_scan old new ((d # s) @ t) = d # replace_scan old new (s @ t)"
    using assms(1) by (subst replace_scan_skip) auto
  then show ?case using Cons by simp
qed

text \<open>
  C39. \<open>replace_all_\<close> makes a single pass: the loop over positions computes the
  left-to-right replacement of disjoint occurrences, never looking at inserted text
  again.
\<close>

theorem replace_all_single_pass:
  "replace_all s old new = (if old = [] then s else replace_scan old new s)"
  by (rule replace_all_scan)

section \<open>Widths and the default date format\<close>

lemma nat_dec_length:
  assumes "0 < w"
  shows "n < 10 ^ w \<Longrightarrow> length (nat_dec n) \<le> w"
  using assms
proof (induction w arbitrary: n)
  case 0
  then show ?case by simp
next
  case (Suc w)
  show ?case
  proof (cases "n < 10")
    case True
    then show ?thesis by (simp add: nat_dec.simps [of n])
  next
    case False
    then have "w \<noteq> 0" using Suc.prems by (cases w) auto
    moreover have "n div 10 < 10 ^ w" using Suc.prems by (simp add: less_mult_imp_div_less mult.commute)
    ultimately show ?thesis using Suc.IH False by (simp add: nat_dec.simps [of n])
  qed
qed

lemma dec_val_zeros: "dec_val (replicate k (CHR ''0'') @ s) = dec_val s"
  by (induction k) (simp_all add: dec_val_def digit_val_def)

lemma append_int_dec_val: "0 \<le> v \<Longrightarrow> dec_val (append_int [] v w (CHR ''0'')) = nat v"
  by (simp add: append_int_def int_dec_def dec_val_zeros Let_def)

lemma append_int_length:
  "0 \<le> v \<Longrightarrow> v < 10 ^ w \<Longrightarrow> 0 < w \<Longrightarrow> length (append_int [] v w (CHR ''0'')) = w"
proof -
  assume v: "0 \<le> v" "v < 10 ^ w" and w: "0 < w"
  have "nat v < 10 ^ w" using v by (simp add: nat_less_iff)
  from nat_dec_length [OF w this] show ?thesis
    using v by (simp add: append_int_def int_dec_def Let_def)
qed

lemma append_int_inject:
  assumes "append_int [] v w (CHR ''0'') = append_int [] v' w (CHR ''0'')" "0 \<le> v" "0 \<le> v'"
  shows "v = v'"
  using assms append_int_dec_val [of v w] append_int_dec_val [of v' w] by (metis int_nat_eq)

lemma default_format:
  "format_loop (t, ms) False ''yyyy-MM-dd'' =
     append_int [] (tm_year t + 1900) 4 (CHR ''0'') @ ''-''
     @ append_int [] (tm_mon t + 1) 2 (CHR ''0'') @ ''-''
     @ append_int [] (tm_mday t) 2 (CHR ''0'')"
  by (simp add: format_loop.simps format_token_def Let_def)

text \<open>A calendar date as \<open>localtime_r\<close> returns it, in years of four digits.\<close>

definition valid_date :: "tm_parts \<Rightarrow> bool" where
  "valid_date t \<longleftrightarrow> - 1900 \<le> tm_year t \<and> tm_year t < 8100 \<and> 0 \<le> tm_mon t \<and> tm_mon t \<le> 11
     \<and> 1 \<le> tm_mday t \<and> tm_mday t \<le> 31"

text \<open>
  The default date format \<open>yyyy-MM-dd\<close> has 10 characters and tells any two days
  apart: equal texts come from the same year, month and day, so two days never share
  a group of log files.
\<close>

theorem default_date_injective:
  assumes "valid_date t" "valid_date t'"
    and "format_loop (t, ms) False ''yyyy-MM-dd'' = format_loop (t', ms') False ''yyyy-MM-dd''"
  shows "length (format_loop (t, ms) False ''yyyy-MM-dd'') = 10
    \<and> tm_year t = tm_year t' \<and> tm_mon t = tm_mon t' \<and> tm_mday t = tm_mday t'"
proof -
  let ?n = "\<lambda>v w. append_int [] v w (CHR ''0'')"
  have len: "length (?n (tm_year t + 1900) 4) = 4" "length (?n (tm_mon t + 1) 2) = 2"
    "length (?n (tm_mday t) 2) = 2"
    if "valid_date t" for t
    using that by (simp_all add: append_int_length valid_date_def)
  have "?n (tm_year t + 1900) 4 = ?n (tm_year t' + 1900) 4" "?n (tm_mon t + 1) 2 = ?n (tm_mon t' + 1) 2"
    "?n (tm_mday t) 2 = ?n (tm_mday t') 2"
    using assms(3) len [OF assms(1)] len [OF assms(2)] by (auto simp: default_format)
  then show ?thesis
    using append_int_inject assms(1,2) len [OF assms(1)]
    by (force simp: valid_date_def default_format)
qed

theorem default_date_injective_witness:
  "length (format_loop (\<lparr>tm_sec = 0, tm_min = 5, tm_hour = 1, tm_mday = 9, tm_mon = 2, tm_year = 125,
      tm_wday = 0\<rparr>, 7) False ''yyyy-MM-dd'') = 10"
  using default_date_injective [of "\<lparr>tm_sec = 0, tm_min = 5, tm_hour = 1, tm_mday = 9, tm_mon = 2,
      tm_year = 125, tm_wday = 0\<rparr>" "\<lparr>tm_sec = 0, tm_min = 5, tm_hour = 1, tm_mday = 9, tm_mon = 2,
      tm_year = 125, tm_wday = 0\<rparr>" 7 7]
  by (simp add: valid_date_def)

lemma format_loop_quoted:
  "CHR 0x27 \<notin> set s \<Longrightarrow> format_loop parts True (s @ CHR 0x27 # t) =
     (if t \<noteq> [] \<and> hd t = CHR 0x27 then s @ format_loop parts True (CHR 0x27 # t)
      else s @ format_loop parts False t)"
  by (induction s) (auto simp: format_loop.simps)

end
