(* ===== verification/IndexedSink.thy ===== *)
theory IndexedSink
  imports CountSink DateTime
begin

text \<open>
  The first version of the daily sink, \<open>daily_count_rotating_file_sink.hpp\<close>, which no
  source includes: every day a group of files with rising indices, the highest one written.
  Its helpers \<open>ends_with\<close> and \<open>starts_with\<close> are those of the count sink, word by word.  A
  reading of the directory is an argument of the operations that may scan it, in whatever
  order the file system lists it.  A file that is removed while open is written to no more
  path.
\<close>

section \<open>State\<close>

datatype ofile = Closed | At path | Unlinked

record indexed_sink =
  x_file :: ofile
  x_dir :: path
  x_stem :: string
  x_max_size :: nat
  x_max_files :: nat
  x_rotate_on_open :: bool
  x_current_date :: string
  x_current_index :: nat
  x_current_size :: nat
  x_files :: "string list"

text \<open>\<open>%0wd\<close>, and the date in a buffer of 11 bytes.\<close>

definition fmt_0d :: "nat \<Rightarrow> int \<Rightarrow> string" where
  "fmt_0d w v = (if v < 0 then CHR ''-'' # replicate (w - 1 - length (nat_dec (nat (- v)))) (CHR ''0'') @ nat_dec (nat (- v))
     else replicate (w - length (nat_dec (nat v))) (CHR ''0'') @ nat_dec (nat v))"

definition local_date_yyyy_mm_dd :: "tz \<Rightarrow> int \<Rightarrow> string" where
  "local_date_yyyy_mm_dd z t = (let p = localtime z t in
     take 10 (fmt_0d 4 (tm_year p + 1900) @ ''-'' @ fmt_0d 2 (tm_mon p + 1) @ ''-'' @ fmt_0d 2 (tm_mday p)))"

definition today_prefix :: "indexed_sink \<Rightarrow> string" where
  "today_prefix s = x_stem s @ ''_'' @ x_current_date s"

definition make_filename :: "indexed_sink \<Rightarrow> nat \<Rightarrow> string" where
  "make_filename s index =
     (if index = 0 then today_prefix s @ log_extension
      else today_prefix s @ ''.'' @ nat_dec index @ log_extension)"

definition make_path :: "indexed_sink \<Rightarrow> nat \<Rightarrow> path" where
  "make_path s index = path_join (x_dir s) (make_filename s index)"

section \<open>Indices of files\<close>

text \<open>\<open>std::stoull\<close>: blanks, a sign, digits, anything; \<open>None\<close> is a thrown
  \<open>invalid_argument\<close> or \<open>out_of_range\<close>.\<close>

definition is_c_space :: "char \<Rightarrow> bool" where
  "is_c_space c \<longleftrightarrow> c = CHR '' '' \<or> (9 \<le> (of_char c :: nat) \<and> (of_char c :: nat) \<le> 13)"

definition stoull :: "string \<Rightarrow> nat option" where
  "stoull str =
     (let s = dropWhile is_c_space str;
          neg = (s \<noteq> [] \<and> hd s = CHR ''-'');
          t = (if s \<noteq> [] \<and> (hd s = CHR ''-'' \<or> hd s = CHR ''+'') then tl s else s);
          ds = takeWhile is_digit t; v = dec_val ds
      in if ds = [] \<or> 2 ^ 64 \<le> v then None
         else Some (if neg then (2 ^ 64 - v) mod 2 ^ 64 else v))"

definition extract_index :: "indexed_sink \<Rightarrow> string \<Rightarrow> nat option" where
  "extract_index s filename =
     (let prefix = today_prefix s; pfx = prefix @ ''.''
      in if filename = prefix @ log_extension then Some 0
         else if starts_with filename pfx \<and> ends_with filename log_extension
         then (let start = length pfx; fin = length filename - length log_extension
               in stoull (take (fin - start) (drop start filename)))
         else Some 0)"

text \<open>The scan, of the names of the regular files of the directory.  Comparing throws what
  \<open>extract_index_\<close> throws; with two names or more every name is compared.\<close>

definition scan_existing_files :: "indexed_sink \<Rightarrow> string list \<Rightarrow> string list option" where
  "scan_existing_files s names =
     (let prefix = today_prefix s;
          found = filter (\<lambda>n. n = prefix @ log_extension
            \<or> starts_with n (prefix @ ''.'') \<and> ends_with n log_extension) names
      in if length found \<ge> 2 \<and> (\<exists>n \<in> set found. extract_index s n = None) then None
         else Some (sort_key (\<lambda>n. the (extract_index s n)) found))"

section \<open>Files\<close>

definition size_now :: "files \<Rightarrow> path \<Rightarrow> nat" where
  "size_now m p = (if fs_exists m p then length (content m p) else 0)"

definition open_current_file :: "indexed_sink \<Rightarrow> files \<Rightarrow> indexed_sink \<times> files" where
  "open_current_file s m =
     (let p = make_path s (x_current_index s); m1 = fs_open_append m p;
          name = make_filename s (x_current_index s)
      in (s\<lparr>x_file := At p, x_current_size := size_now m1 p,
            x_files := if x_files s = [] \<or> last (x_files s) \<noteq> name then x_files s @ [name] else x_files s\<rparr>, m1))"

fun cleanup_loop :: "nat \<Rightarrow> path \<Rightarrow> ofile \<Rightarrow> files \<Rightarrow> string list \<Rightarrow> ofile \<times> files \<times> string list" where
  "cleanup_loop max_files dir f m [] = (f, m, [])"
| "cleanup_loop max_files dir f m (n # ns) =
     (if length (n # ns) > max_files
      then (let p = path_join dir n
            in cleanup_loop max_files dir (if f = At p then Unlinked else f) (fs_remove m p) ns)
      else (f, m, n # ns))"

definition cleanup_old_files :: "indexed_sink \<Rightarrow> files \<Rightarrow> indexed_sink \<times> files" where
  "cleanup_old_files s m =
     (if x_max_files s = 0 then (s, m)
      else case cleanup_loop (x_max_files s) (x_dir s) (x_file s) m (x_files s) of
             (f, m', ns) \<Rightarrow> (s\<lparr>x_file := f, x_files := ns\<rparr>, m'))"

definition open_new_file :: "indexed_sink \<Rightarrow> files \<Rightarrow> indexed_sink \<times> files" where
  "open_new_file s m =
     (let i = (x_current_index s + 1) mod 2 ^ 64; p = make_path s i; m1 = fs_open_append m p
      in cleanup_old_files (s\<lparr>x_current_index := i, x_file := At p, x_current_size := size_now m1 p,
           x_files := x_files s @ [make_filename s i]\<rparr>) m1)"

definition x_rotate_file :: "indexed_sink \<Rightarrow> files \<Rightarrow> indexed_sink \<times> files" where
  "x_rotate_file s m = open_new_file (s\<lparr>x_file := Closed\<rparr>) m"

text \<open>Scan and open, at the end of the constructor and at the change of the day; \<open>None\<close>
  when something throws.\<close>

definition start_day :: "indexed_sink \<Rightarrow> string list \<Rightarrow> files \<Rightarrow> (indexed_sink \<times> files) option" where
  "start_day s names m = (case scan_existing_files s names of
      None \<Rightarrow> None
    | Some found \<Rightarrow>
        (let s1 = s\<lparr>x_files := found\<rparr>
         in if x_rotate_on_open s \<and> found \<noteq> [] then Some (open_new_file s1 m)
            else if found = [] then Some (open_current_file (s1\<lparr>x_current_index := 0\<rparr>) m)
            else (case extract_index s1 (last found) of
                    None \<Rightarrow> None
                  | Some i \<Rightarrow> Some (open_current_file (s1\<lparr>x_current_index := i\<rparr>) m))))"

definition make_indexed_sink ::
  "tz \<Rightarrow> int \<Rightarrow> string \<Rightarrow> nat \<Rightarrow> nat \<Rightarrow> bool \<Rightarrow> string list \<Rightarrow> files \<Rightarrow> (indexed_sink \<times> files) option" where
  "make_indexed_sink z t base_filename max_size max_files rotate_on_open names m =
     (let fname = path_filename base_filename
      in start_day \<lparr> x_file = Closed,
           x_dir = (if has_parent_path base_filename then path_parent base_filename else ''.''),
           x_stem = (if ends_with fname ''.log'' then take (length fname - 4) fname else fname),
           x_max_size = max_size, x_max_files = max_files, x_rotate_on_open = rotate_on_open,
           x_current_date = local_date_yyyy_mm_dd z t, x_current_index = 0, x_current_size = 0,
           x_files = [] \<rparr> names m)"

text \<open>\<open>maybe_roll_day_\<close>; the flag tells whether it returned.\<close>

definition maybe_roll_day :: "tz \<Rightarrow> int \<Rightarrow> string list \<Rightarrow> indexed_sink \<times> files \<Rightarrow> bool \<times> indexed_sink \<times> files" where
  "maybe_roll_day z t names sm = (case sm of (s, m) \<Rightarrow>
     (let today = local_date_yyyy_mm_dd z t
      in if today = x_current_date s then (True, s, m)
         else (let s1 = s\<lparr>x_file := Closed, x_current_date := today, x_current_index := 0, x_current_size := 0\<rparr>
               in case start_day s1 names m of None \<Rightarrow> (False, s1, m) | Some (s2, m2) \<Rightarrow> (True, s2, m2))))"

definition x_line :: "string \<Rightarrow> string" where
  "x_line buf = rev (dropWhile (\<lambda>c. c = CHR 0x0A \<or> c = CHR 0x0D) (rev buf)) @ [CHR 0x0A]"

definition x_write :: "ofile \<Rightarrow> files \<Rightarrow> string \<Rightarrow> files" where
  "x_write f m xs = (case f of At p \<Rightarrow> fs_append m p xs | _ \<Rightarrow> m)"

definition x_sink_it :: "tz \<Rightarrow> int \<times> string list \<times> string \<Rightarrow> indexed_sink \<times> files \<Rightarrow> indexed_sink \<times> files" where
  "x_sink_it z ev sm = (case ev of (t, names, buf) \<Rightarrow>
     (case maybe_roll_day z t names sm of
        (ok, s, m) \<Rightarrow>
          if \<not> ok then (s, m)
          else (let m1 = x_write (x_file s) m (x_line buf);
                    s1 = s\<lparr>x_current_size := x_current_size s + length (x_line buf)\<rparr>
                in if x_max_size s > 0 \<and> x_current_size s1 \<ge> x_max_size s then x_rotate_file s1 m1 else (s1, m1))))"

definition x_run :: "tz \<Rightarrow> (int \<times> string list \<times> string) list \<Rightarrow> indexed_sink \<times> files \<Rightarrow> indexed_sink \<times> files" where
  "x_run z evs sm = fold (x_sink_it z) evs sm"

section \<open>Names\<close>

lemma make_path_inj: "make_path s i = make_path s j \<longleftrightarrow> i = j"
proof
  assume eq: "make_path s i = make_path s j"
  define suf where "suf = (\<lambda>i. if i = 0 then log_extension else ''.'' @ nat_dec i @ log_extension)"
  have f: "make_filename s i = today_prefix s @ suf i" for i by (simp add: make_filename_def suf_def)
  have ne: "suf i \<noteq> []" "hd (suf i) \<noteq> CHR ''/''" for i by (auto simp: suf_def log_extension_def)
  have "suf i = suf j"
    using eq unfolding make_path_def f by (rule path_join_stem_inject) (rule ne)+
  then have "suf i = suf j" .
  moreover have "length (suf i) > 4" if "i \<noteq> 0" for i using that by (simp add: suf_def log_extension_def)
  moreover have "length (suf 0) = 4" by (simp add: suf_def log_extension_def)
  ultimately show "i = j" by (cases "i = 0"; cases "j = 0") (auto simp: suf_def)
qed simp

lemma make_filename_inj: "make_filename s i = make_filename s j \<longleftrightarrow> i = j"
  using make_path_inj [of s i j] by (auto simp: make_path_def)

lemma names_update [simp]:
  "make_path (s\<lparr>x_file := f\<rparr>) = make_path s" "make_path (s\<lparr>x_files := ns\<rparr>) = make_path s"
  "make_path (s\<lparr>x_current_size := k\<rparr>) = make_path s" "make_path (s\<lparr>x_current_index := k\<rparr>) = make_path s"
  "make_filename (s\<lparr>x_file := f\<rparr>) = make_filename s" "make_filename (s\<lparr>x_files := ns\<rparr>) = make_filename s"
  "make_filename (s\<lparr>x_current_size := k\<rparr>) = make_filename s" "make_filename (s\<lparr>x_current_index := k\<rparr>) = make_filename s"
  by (simp_all add: fun_eq_iff make_path_def make_filename_def today_prefix_def)

lemma cleanup_names:
  assumes "lo \<le> idx" and "0 < mx" and "f = At (make_path s idx)"
  shows "cleanup_loop mx (x_dir s) f m (map (make_filename s) [lo..<Suc idx])
    = (f, (\<lambda>p. if \<exists>i. lo \<le> i \<and> i + mx < Suc idx \<and> p = make_path s i then None else m p),
       map (make_filename s) [max lo (Suc idx - mx)..<Suc idx])"
  using assms(1)
proof (induction "Suc idx - mx - lo" arbitrary: lo m)
  case 0
  have "map (make_filename s) [lo..<Suc idx] \<noteq> []" using 0(2) by simp
  then obtain n ns where ns: "map (make_filename s) [lo..<Suc idx] = n # ns" by (meson neq_Nil_conv)
  have "length (n # ns) = Suc idx - lo" unfolding ns [symmetric] using 0(2) by (simp add: Suc_diff_le)
  then have "\<not> length (n # ns) > mx" using 0 by simp
  moreover have "(\<lambda>p. if \<exists>i. lo \<le> i \<and> i + mx < Suc idx \<and> p = make_path s i then None else m p) = m"
    using 0(1) by (auto simp: fun_eq_iff)
  moreover have "max lo (Suc idx - mx) = lo" using 0(1) by simp
  ultimately show ?case unfolding ns by (simp del: upt_Suc add: ns)
next
  case (Suc k)
  have lt: "lo < idx" using Suc.hyps(2) assms(2) by linarith
  have u: "map (make_filename s) [lo..<Suc idx] = make_filename s lo # map (make_filename s) [Suc lo..<Suc idx]"
    using lt by (simp add: upt_conv_Cons)
  have long: "length (make_filename s lo # map (make_filename s) [Suc lo..<Suc idx]) > mx" using Suc.hyps(2) lt by simp
  have p: "path_join (x_dir s) (make_filename s lo) = make_path s lo" by (simp add: make_path_def)
  have nf: "f \<noteq> At (make_path s lo)" using assms(3) lt by (simp add: make_path_inj)
  have ih: "cleanup_loop mx (x_dir s) f (fs_remove m (make_path s lo)) (map (make_filename s) [Suc lo..<Suc idx])
    = (f, (\<lambda>p. if \<exists>i. Suc lo \<le> i \<and> i + mx < Suc idx \<and> p = make_path s i then None else fs_remove m (make_path s lo) p),
       map (make_filename s) [max (Suc lo) (Suc idx - mx)..<Suc idx])"
    using Suc.hyps lt by (intro Suc.hyps(1)) simp_all
  have "max (Suc lo) (Suc idx - mx) = max lo (Suc idx - mx)" using Suc.hyps(2) by linarith
  moreover have "(\<lambda>p. if \<exists>i. Suc lo \<le> i \<and> i + mx < Suc idx \<and> p = make_path s i then None else fs_remove m (make_path s lo) p)
     = (\<lambda>p. if \<exists>i. lo \<le> i \<and> i + mx < Suc idx \<and> p = make_path s i then None else m p)"
  proof
    fix q
    have "lo + mx < Suc idx" using Suc.hyps(2) by linarith
    moreover have "(\<exists>i. lo \<le> i \<and> i + mx < Suc idx \<and> q = make_path s i)
      \<longleftrightarrow> (lo + mx < Suc idx \<and> q = make_path s lo) \<or> (\<exists>i. Suc lo \<le> i \<and> i + mx < Suc idx \<and> q = make_path s i)"
      by (metis Suc_leD le_antisym not_less_eq_eq order_refl)
    ultimately show "(if \<exists>i. Suc lo \<le> i \<and> i + mx < Suc idx \<and> q = make_path s i then None else fs_remove m (make_path s lo) q)
      = (if \<exists>i. lo \<le> i \<and> i + mx < Suc idx \<and> q = make_path s i then None else m q)"
      by (auto simp: fs_remove_def)
  qed
  ultimately show ?case using ih long nf p unfolding u by (simp add: Let_def del: upt_Suc)
qed

section \<open>A day of messages\<close>

text \<open>The files of the group are those with an index from \<open>lo\<close> to the current one.\<close>

definition x_text :: "indexed_sink \<Rightarrow> nat \<Rightarrow> files \<Rightarrow> string" where
  "x_text s lo m = concat (map (\<lambda>i. content m (make_path s i)) [lo..<Suc (x_current_index s)])"

definition x_ok :: "indexed_sink \<Rightarrow> nat \<Rightarrow> files \<Rightarrow> bool" where
  "x_ok s lo m \<longleftrightarrow> lo \<le> x_current_index s \<and> x_file s = At (make_path s (x_current_index s))
     \<and> x_files s = map (make_filename s) [lo..<Suc (x_current_index s)]
     \<and> (\<forall>i. fs_exists m (make_path s i) \<longleftrightarrow> lo \<le> i \<and> i \<le> x_current_index s)
     \<and> x_current_size s = length (content m (make_path s (x_current_index s)))
     \<and> (0 < x_max_files s \<longrightarrow> length (x_files s) \<le> x_max_files s)
     \<and> (x_max_files s = 0 \<longrightarrow> lo = 0)
     \<and> (0 < x_max_size s \<longrightarrow> x_current_size s < x_max_size s
          \<and> (\<forall>i. lo \<le> i \<and> i < x_current_index s \<longrightarrow> x_max_size s \<le> length (content m (make_path s i))))"

definition x_group :: "indexed_sink \<Rightarrow> path \<times> string \<times> string \<times> nat \<times> nat" where
  "x_group s = (x_dir s, x_stem s, x_current_date s, x_max_size s, x_max_files s)"

lemma x_group_names:
  assumes "x_group s = x_group t"
  shows "make_path s = make_path t" and "make_filename s = make_filename t" and "x_max_size s = x_max_size t"
    and "x_max_files s = x_max_files t" and "x_current_date s = x_current_date t"
  using assms by (simp_all add: x_group_def make_path_def make_filename_def today_prefix_def fun_eq_iff)

text \<open>A write to the current file.\<close>

lemma x_text_append:
  "lo \<le> x_current_index s \<Longrightarrow>
     x_text s lo (fs_append m (make_path s (x_current_index s)) xs) = x_text s lo m @ xs"
proof -
  assume "lo \<le> x_current_index s"
  then have a: "[lo..<Suc (x_current_index s)] = [lo..<x_current_index s] @ [x_current_index s]" by simp
  have b: "map (\<lambda>i. content (fs_append m (make_path s (x_current_index s)) xs) (make_path s i)) [lo..<x_current_index s]
    = map (\<lambda>i. content m (make_path s i)) [lo..<x_current_index s]"
    by (auto simp: make_path_inj)
  show ?thesis unfolding x_text_def a map_append concat_append b by simp
qed

text \<open>A rotation from a state whose current file is full.\<close>

definition x_full :: "indexed_sink \<Rightarrow> nat \<Rightarrow> files \<Rightarrow> bool" where
  "x_full s lo m \<longleftrightarrow> lo \<le> x_current_index s
     \<and> x_files s = map (make_filename s) [lo..<Suc (x_current_index s)]
     \<and> (\<forall>i. fs_exists m (make_path s i) \<longleftrightarrow> lo \<le> i \<and> i \<le> x_current_index s)
     \<and> (x_max_files s = 0 \<longrightarrow> lo = 0) \<and> 0 < x_max_size s
     \<and> (\<forall>i. lo \<le> i \<and> i \<le> x_current_index s \<longrightarrow> x_max_size s \<le> length (content m (make_path s i)))"

lemma concat_suffix: "lo \<le> k \<Longrightarrow> suffix (concat (map f [k..<n])) (concat (map f [lo..<n]))"
proof (cases "k \<le> n")
  case True
  assume "lo \<le> k"
  then have "[lo..<n] = [lo..<k] @ [k..<n]" using True by (metis le_Suc_ex upt_add_eq_append)
  then show ?thesis by (simp add: suffix_def)
qed simp

lemma x_rotate_ok:
  assumes "x_full s lo m" and "x_current_index s + 1 < 2 ^ 64" and "x_rotate_file s m = (s', m')"
  shows "\<exists>lo'. x_ok s' lo' m' \<and> x_group s' = x_group s \<and> suffix (x_text s' lo' m') (x_text s lo m)
    \<and> (x_max_files s = 0 \<longrightarrow> x_text s' lo' m' = x_text s lo m) \<and> x_current_index s' = x_current_index s + 1"
proof -
  define i where "i = x_current_index s + 1"
  define p where "p = make_path s i"
  define mx where "mx = x_max_files s"
  have f: "lo \<le> x_current_index s" "x_files s = map (make_filename s) [lo..<i]"
    "\<forall>j. fs_exists m (make_path s j) \<longleftrightarrow> lo \<le> j \<and> j < i" "mx = 0 \<longrightarrow> lo = 0" "0 < x_max_size s"
    "\<forall>j. lo \<le> j \<and> j < i \<longrightarrow> x_max_size s \<le> length (content m (make_path s j))"
    using assms(1) by (auto simp: x_full_def i_def mx_def less_Suc_eq_le)
  have new: "m p = None" using f(3) by (auto simp: p_def fs_exists_def)
  then have m1: "fs_open_append m p = m(p := Some [])" by (simp add: fs_open_append_def)
  let ?m1 = "m(p := Some [])"
  define t where "t = s\<lparr>x_current_index := i, x_file := At p, x_current_size := 0, x_files := map (make_filename s) [lo..<Suc i]\<rparr>"
  have i: "(x_current_index s + 1) mod 2 ^ 64 = i" using assms(2) by (simp add: i_def)
  have lo: "lo \<le> i" using f(1) by (simp add: i_def)
  have r: "(s', m') = cleanup_old_files t ?m1"
    using assms(3) i lo f(2) m1
    by (simp add: x_rotate_file_def open_new_file_def Let_def p_def [symmetric] t_def size_now_def content_def fs_exists_def)
  define lo' where "lo' = (if mx = 0 then lo else max lo (Suc i - mx))"
  have lo': "lo \<le> lo'" "lo' \<le> i" using lo by (auto simp: lo'_def)
  have m': "m' = (\<lambda>q. if \<exists>j. lo \<le> j \<and> j < lo' \<and> q = make_path s j then None else ?m1 q)"
    and s': "s' = t\<lparr>x_files := map (make_filename s) [lo'..<Suc i]\<rparr>"
  proof -
    have "(m' = (\<lambda>q. if \<exists>j. lo \<le> j \<and> j < lo' \<and> q = make_path s j then None else ?m1 q))
      \<and> s' = t\<lparr>x_files := map (make_filename s) [lo'..<Suc i]\<rparr>"
    proof (cases "mx = 0")
      case True
      then have "(\<lambda>q. if \<exists>j. lo \<le> j \<and> j < lo' \<and> q = make_path s j then None else ?m1 q) = ?m1"
        by (auto simp: lo'_def fun_eq_iff)
      with True show ?thesis using r by (auto simp: cleanup_old_files_def t_def mx_def [symmetric] lo'_def)
    next
      case False
      have c: "cleanup_loop mx (x_dir t) (At p) ?m1 (map (make_filename t) [lo..<Suc i])
        = (At p, (\<lambda>q. if \<exists>j. lo \<le> j \<and> j + mx < Suc i \<and> q = make_path t j then None else ?m1 q),
           map (make_filename t) [max lo (Suc i - mx)..<Suc i])"
        using False by (intro cleanup_names [OF lo]) (simp_all add: p_def t_def)
      have t: "x_files t = map (make_filename t) [lo..<Suc i]" "x_file t = At p" "x_max_files t = mx"
        "make_path t = make_path s" "make_filename t = make_filename s"
        by (simp_all add: t_def mx_def)
      have "(\<lambda>q. if \<exists>j. lo \<le> j \<and> j + mx < Suc i \<and> q = make_path s j then None else ?m1 q)
        = (\<lambda>q. if \<exists>j. lo \<le> j \<and> j < lo' \<and> q = make_path s j then None else ?m1 q)"
      proof -
        have "lo \<le> j \<and> j + mx < Suc i \<longleftrightarrow> lo \<le> j \<and> j < lo'" for j using False by (auto simp: lo'_def)
        then have "(\<exists>j. lo \<le> j \<and> j + mx < Suc i \<and> q = make_path s j) \<longleftrightarrow> (\<exists>j. lo \<le> j \<and> j < lo' \<and> q = make_path s j)" for q
          by blast
        then show ?thesis by simp
      qed
      then show ?thesis
        using r False c t by (auto simp: cleanup_old_files_def lo'_def)
    qed
    then show "m' = (\<lambda>q. if \<exists>j. lo \<le> j \<and> j < lo' \<and> q = make_path s j then None else ?m1 q)"
      "s' = t\<lparr>x_files := map (make_filename s) [lo'..<Suc i]\<rparr>" by blast+
  qed
  have idx: "x_current_index s' = i" "make_path s' = make_path s" "make_filename s' = make_filename s"
    "x_max_size s' = x_max_size s" "x_max_files s' = mx" by (simp_all add: s' t_def mx_def)
  have at: "m' (make_path s j) = (if lo \<le> j \<and> j < lo' then None else if j = i then Some [] else m (make_path s j))" for j
    by (auto simp: m' p_def make_path_inj)
  have c: "content m' (make_path s j) = (if j = i then [] else content m (make_path s j))" if "lo' \<le> j" for j
    using that lo' by (simp add: content_def at)
  have ok: "x_ok s' lo' m'"
  proof -
    have "0 < mx \<longrightarrow> length [lo'..<Suc i] \<le> mx" by (auto simp: lo'_def max_def simp del: upt_Suc)
    moreover have "fs_exists m' (make_path s j) \<longleftrightarrow> lo' \<le> j \<and> j \<le> i" for j
      using f(3) lo' lo by (auto simp: fs_exists_def at)
    moreover have "lo' \<le> j \<and> j < i \<longrightarrow> x_max_size s \<le> length (content m' (make_path s j))" for j
      using f(6) lo' c [of j] by simp
    ultimately show ?thesis
      using lo' f(4,5) c [of i] by (simp add: x_ok_def idx) (simp add: s' t_def p_def lo'_def)
  qed
  have "x_text s' lo' m' = concat (map (\<lambda>j. content m (make_path s j)) [lo'..<i])"
  proof -
    have a: "[lo'..<Suc i] = [lo'..<i] @ [i]" using lo' by simp
    have b: "map (\<lambda>j. content m' (make_path s j)) [lo'..<i] = map (\<lambda>j. content m (make_path s j)) [lo'..<i]"
      by (simp add: c)
    show ?thesis using lo' c [of i] unfolding x_text_def idx a map_append concat_append b by simp
  qed
  moreover have "x_text s lo m = concat (map (\<lambda>j. content m (make_path s j)) [lo..<i])"
    by (simp add: x_text_def i_def)
  ultimately have "suffix (x_text s' lo' m') (x_text s lo m)" "mx = 0 \<longrightarrow> x_text s' lo' m' = x_text s lo m"
    using concat_suffix [OF lo'(1)] by (auto simp: lo'_def)
  moreover have "x_group s' = x_group s" by (simp add: s' t_def x_group_def)
  ultimately show ?thesis using ok idx(1) by (auto simp: mx_def i_def)
qed

text \<open>A message of the same day.\<close>

lemma x_sink_it_ok:
  assumes "x_ok s lo m" and "x_current_index s + 1 < 2 ^ 64"
    and "local_date_yyyy_mm_dd z t = x_current_date s" and "x_sink_it z (t, names, buf) (s, m) = (s', m')"
  shows "\<exists>lo'. x_ok s' lo' m' \<and> x_group s' = x_group s \<and> suffix (x_text s' lo' m') (x_text s lo m @ x_line buf)
    \<and> (x_max_files s = 0 \<longrightarrow> x_text s' lo' m' = x_text s lo m @ x_line buf)
    \<and> x_current_index s' \<le> x_current_index s + 1"
proof -
  define p where "p = make_path s (x_current_index s)"
  define n where "n = x_current_size s + length (x_line buf)"
  define s1 where "s1 = s\<lparr>x_current_size := n\<rparr>"
  define m1 where "m1 = fs_append m p (x_line buf)"
  have ok: "lo \<le> x_current_index s" "x_file s = At p" "x_files s = map (make_filename s) [lo..<Suc (x_current_index s)]"
    "\<forall>i. fs_exists m (make_path s i) \<longleftrightarrow> lo \<le> i \<and> i \<le> x_current_index s" "x_current_size s = length (content m p)"
    "0 < x_max_files s \<longrightarrow> length (x_files s) \<le> x_max_files s" "x_max_files s = 0 \<longrightarrow> lo = 0"
    "0 < x_max_size s \<longrightarrow> (\<forall>i. lo \<le> i \<and> i < x_current_index s \<longrightarrow> x_max_size s \<le> length (content m (make_path s i)))"
    using assms(1) unfolding x_ok_def p_def by blast+
  have r: "(s', m') = (if x_max_size s > 0 \<and> n \<ge> x_max_size s then x_rotate_file s1 m1 else (s1, m1))"
    using assms(3,4) ok(2)
    by (auto simp: x_sink_it_def maybe_roll_day_def x_write_def n_def s1_def m1_def Let_def split: if_splits)
  have nm: "make_path s1 = make_path s" "make_filename s1 = make_filename s" "x_current_index s1 = x_current_index s"
    "x_max_size s1 = x_max_size s" "x_max_files s1 = x_max_files s" "x_files s1 = x_files s" "x_group s1 = x_group s"
    by (simp_all add: s1_def x_group_def)
  have ex: "fs_exists m1 (make_path s i) \<longleftrightarrow> lo \<le> i \<and> i \<le> x_current_index s" for i
  proof -
    have "fs_exists m (make_path s i) \<longleftrightarrow> lo \<le> i \<and> i \<le> x_current_index s" using ok(4) by blast
    then show ?thesis using ok(1) by (auto simp: m1_def p_def make_path_inj)
  qed
  have c: "content m1 (make_path s i) = (if i = x_current_index s then content m p @ x_line buf else content m (make_path s i))" for i
    by (simp add: m1_def p_def make_path_inj)
  have t1: "x_text s1 lo m1 = x_text s lo m @ x_line buf"
    using x_text_append [OF ok(1)] by (simp add: x_text_def nm(1,3) m1_def p_def)
  show ?thesis
  proof (cases "x_max_size s > 0 \<and> n \<ge> x_max_size s")
    case True
    have "x_max_size s \<le> length (content m1 (make_path s i))" if "lo \<le> i" "i \<le> x_current_index s" for i
      using that True ok(5,8) by (cases "i = x_current_index s") (simp_all add: c n_def)
    then have "x_full s1 lo m1" using True ok(1,3,7) ex by (simp add: x_full_def nm)
    from x_rotate_ok [OF this _, of s' m'] r True assms(2) obtain lo' where
      "x_ok s' lo' m'" "x_group s' = x_group s1" "suffix (x_text s' lo' m') (x_text s1 lo m1)"
      "x_max_files s1 = 0 \<longrightarrow> x_text s' lo' m' = x_text s1 lo m1" "x_current_index s' = x_current_index s1 + 1"
      by (auto simp: nm)
    then show ?thesis using t1 nm by auto
  next
    case False
    then have e: "s' = s1" "m' = m1" using r by (auto split: if_splits)
    have "x_ok s1 lo m1"
      using False ok ex by (auto simp: x_ok_def nm c n_def) (simp_all add: s1_def n_def p_def)
    then show ?thesis using e t1 nm by auto
  qed
qed

lemma x_run_ok:
  "x_ok s lo m \<Longrightarrow> x_current_index s + length evs < 2 ^ 64 \<Longrightarrow>
   \<forall>(t, names, buf) \<in> set evs. local_date_yyyy_mm_dd z t = x_current_date s \<Longrightarrow> x_run z evs (s, m) = (s', m') \<Longrightarrow>
     \<exists>lo'. x_ok s' lo' m' \<and> x_group s' = x_group s
       \<and> suffix (x_text s' lo' m') (x_text s lo m @ concat (map (\<lambda>(t, names, buf). x_line buf) evs))
       \<and> (x_max_files s = 0 \<longrightarrow> x_text s' lo' m' = x_text s lo m @ concat (map (\<lambda>(t, names, buf). x_line buf) evs))"
proof (induction evs arbitrary: s lo m)
  case Nil
  then show ?case by (auto simp: x_run_def)
next
  case (Cons ev evs)
  obtain t names buf where ev: "ev = (t, names, buf)" by (metis prod_cases3)
  obtain s1 m1 where s1: "x_sink_it z (t, names, buf) (s, m) = (s1, m1)" by fastforce
  have "x_current_index s + 1 < 2 ^ 64" "local_date_yyyy_mm_dd z t = x_current_date s" using Cons.prems(2,3) ev by auto
  note step = x_sink_it_ok [OF Cons.prems(1) this s1]
  obtain lo1 where 1: "x_ok s1 lo1 m1" "x_group s1 = x_group s"
    "suffix (x_text s1 lo1 m1) (x_text s lo m @ x_line buf)"
    "x_max_files s = 0 \<longrightarrow> x_text s1 lo1 m1 = x_text s lo m @ x_line buf"
    "x_current_index s1 \<le> x_current_index s + 1" using step by (elim exE conjE)
  note g = x_group_names [OF 1(2)]
  let ?rest = "concat (map (\<lambda>(t, names, buf). x_line buf) evs)"
  have a: "x_current_index s1 + length evs < 2 ^ 64" using Cons.prems(2) 1(5) by simp
  have b: "\<forall>(t, names, buf) \<in> set evs. local_date_yyyy_mm_dd z t = x_current_date s1" using Cons.prems(3) g(5) by auto
  have c: "x_run z evs (s1, m1) = (s', m')" using Cons.prems(4) s1 ev by (simp add: x_run_def)
  obtain lo' where 2: "x_ok s' lo' m'" "x_group s' = x_group s1" "suffix (x_text s' lo' m') (x_text s1 lo1 m1 @ ?rest)"
    "x_max_files s1 = 0 \<longrightarrow> x_text s' lo' m' = x_text s1 lo1 m1 @ ?rest" using Cons.IH [OF 1(1) a b c] by (elim exE conjE)
  have "suffix (x_text s1 lo1 m1 @ ?rest) (x_text s lo m @ x_line buf @ ?rest)"
    using suffix_append_same [OF 1(3), of ?rest] by simp
  with 2(3) have "suffix (x_text s' lo' m') (x_text s lo m @ x_line buf @ ?rest)" by (rule suffix_order.trans)
  moreover have "x_max_files s = 0 \<longrightarrow> x_text s' lo' m' = x_text s lo m @ x_line buf @ ?rest"
    using 2(4) 1(4) g(4) by simp
  moreover have "x_group s' = x_group s" using 2(2) 1(2) by simp
  ultimately show ?case using 2(1) by (intro exI [of _ lo']) (simp add: ev)
qed

text \<open>A day that starts with no file of its group.\<close>

lemma start_day_fresh:
  assumes "scan_existing_files s names = Some []" and "\<forall>i. m (make_path s i) = None" and "start_day s names m = Some (s', m')"
  shows "x_ok s' 0 m' \<and> x_group s' = x_group s \<and> x_text s' 0 m' = [] \<and> x_current_index s' = 0"
proof -
  let ?p = "make_path s 0"
  have m': "m' = m(?p := Some [])" and s': "s' = s\<lparr>x_files := [], x_current_index := 0, x_file := At ?p, x_current_size := 0,
      x_files := [make_filename s 0]\<rparr>"
    using assms(1-3)
    by (auto simp: start_day_def open_current_file_def Let_def fs_open_append_def size_now_def content_def split: if_splits)
  have nm: "make_path s' = make_path s" "make_filename s' = make_filename s" by (simp_all add: s')
  have "fs_exists m' (make_path s i) \<longleftrightarrow> i = 0" for i
    using assms(2) by (auto simp: m' fs_exists_def make_path_inj)
  then show ?thesis
    unfolding x_ok_def nm x_text_def by (simp add: s' m' content_def x_group_def)
qed

text \<open>
  A day of the indexed sink that starts with no file of its group ends, whatever is
  logged, with files of consecutive indices up to the current one, at most as many as
  configured, each of them but the current one full; their text in the order of the indices is
  the newest part of the messages, all of them when the number of files is not limited.
\<close>

theorem indexed_sink_keeps_newest:
  assumes "make_indexed_sink z t0 base max_size max_files rotate_on_open [] m = Some (s0, m0)"
    and "\<forall>i. m (make_path s0 i) = None" and "0 < max_size" and "length evs < 2 ^ 64"
    and "\<forall>(t, names, buf) \<in> set evs. local_date_yyyy_mm_dd z t = local_date_yyyy_mm_dd z t0"
    and "x_run z evs (s0, m0) = (s', m')"
  shows "\<exists>lo. x_ok s' lo m' \<and> (0 < max_files \<longrightarrow> x_current_index s' - lo < max_files)
    \<and> suffix (x_text s' lo m') (concat (map (\<lambda>(t, names, buf). x_line buf) evs))
    \<and> (max_files = 0 \<longrightarrow> x_text s' lo m' = concat (map (\<lambda>(t, names, buf). x_line buf) evs))"
proof -
  obtain s where st: "start_day s [] m = Some (s0, m0)" and s: "x_max_files s = max_files" "x_max_size s = max_size"
    "x_current_date s = local_date_yyyy_mm_dd z t0"
    using assms(1) by (auto simp: make_indexed_sink_def Let_def)
  have sc: "scan_existing_files s [] = Some []" by (simp add: scan_existing_files_def)
  have nm: "make_path s = make_path s0"
    using st sc by (auto simp: start_day_def open_current_file_def Let_def fun_eq_iff make_path_def make_filename_def today_prefix_def)
  have f: "x_ok s0 0 m0" "x_group s0 = x_group s" "x_text s0 0 m0 = []" "x_current_index s0 = 0"
    using start_day_fresh [OF sc _ st] assms(2) nm by auto
  note g = x_group_names [OF f(2)]
  from x_run_ok [OF f(1) _ _ assms(6)] assms(4,5) f g s obtain lo where
    r: "x_ok s' lo m'" "x_group s' = x_group s0" "suffix (x_text s' lo m') (concat (map (\<lambda>(t, names, buf). x_line buf) evs))"
    "max_files = 0 \<longrightarrow> x_text s' lo m' = concat (map (\<lambda>(t, names, buf). x_line buf) evs)" by auto
  have "x_max_files s' = max_files" using x_group_names(4) [OF r(2)] g(4) s by simp
  then have "0 < max_files \<longrightarrow> x_current_index s' - lo < max_files" using r(1) by (auto simp: x_ok_def)
  with r show ?thesis by blast
qed

definition tz_one_day :: tz where
  "tz_one_day = \<lparr>localtime = (\<lambda>t. \<lparr>tm_sec = 0, tm_min = 0, tm_hour = 0, tm_mday = 1, tm_mon = 0, tm_year = 70, tm_wday = 4\<rparr>),
      mktime = (\<lambda>p. 0)\<rparr>"

theorem indexed_sink_keeps_newest_witness:
  "\<exists>s0 m0 s' m' lo. make_indexed_sink tz_one_day 0 ''app'' 4 2 True [] Map.empty = Some (s0, m0)
    \<and> x_run tz_one_day [(1, [], ''one''), (2, [], ''two''), (3, [], ''three'')] (s0, m0) = (s', m')
    \<and> x_ok s' lo m' \<and> x_current_index s' - lo < 2
    \<and> suffix (x_text s' lo m') (''one'' @ [CHR 0x0A] @ ''two'' @ [CHR 0x0A] @ ''three'' @ [CHR 0x0A])"
proof -
  have "\<exists>s0 m0. make_indexed_sink tz_one_day 0 ''app'' 4 2 True [] Map.empty = Some (s0, m0) \<and> (\<forall>i. make_path s0 i = make_path s0 i)"
    by (auto simp: make_indexed_sink_def start_day_def scan_existing_files_def Let_def open_current_file_def)
  then obtain s0 m0 where c: "make_indexed_sink tz_one_day 0 ''app'' 4 2 True [] Map.empty = Some (s0, m0)" by blast
  obtain s' m' where r: "x_run tz_one_day [(1, [], ''one''), (2, [], ''two''), (3, [], ''three'')] (s0, m0) = (s', m')" by fastforce
  have l: "x_line ''one'' = ''one'' @ [CHR 0x0A]" "x_line ''two'' = ''two'' @ [CHR 0x0A]" "x_line ''three'' = ''three'' @ [CHR 0x0A]"
    by (simp_all add: x_line_def)
  have "\<forall>(t, names, buf) \<in> set [(1, [], ''one''), (2, [], ''two''), (3, [], ''three'')].
      local_date_yyyy_mm_dd tz_one_day t = local_date_yyyy_mm_dd tz_one_day 0"
    by (simp add: local_date_yyyy_mm_dd_def tz_one_day_def)
  from indexed_sink_keeps_newest [OF c _ _ _ this r] show ?thesis using c r by (simp add: l)
qed

section \<open>Opening with rotation\<close>

text \<open>
  The counter of the indices is 0 when the constructor rotates, whatever it found: with files
  0 to \<open>n\<close> of the day in the directory it opens file 1 once more and, when fewer than
  \<open>n + 1\<close> files are kept, deletes it at once, with the oldest ones.  What is logged until the
  next rotation goes to a file without a name.
\<close>

lemma indexed_sink_deletes_current:
  assumes "scan_existing_files s names = Some (map (make_filename s) [0..<Suc n])" and "0 < n"
    and "x_rotate_on_open s" and "x_current_index s = 0" and "0 < x_max_files s" and "x_max_files s \<le> n"
  shows "\<exists>s' m'. start_day s names m = Some (s', m') \<and> x_file s' = Unlinked \<and> m' (make_path s 1) = None"
proof -
  define g where "g = fs_open_append m (make_path s 1)"
  define t where "t = s\<lparr>x_files := map (make_filename s) [0..<Suc n], x_current_index := 1, x_file := At (make_path s 1),
    x_current_size := size_now g (make_path s 1), x_files := map (make_filename s) [0..<Suc n] @ [make_filename s 1]\<rparr>"
  have st: "start_day s names m = Some (cleanup_old_files t g)"
    using assms(1-4) by (simp add: start_day_def Let_def open_new_file_def t_def g_def)
  have ns: "map (make_filename s) [0..<Suc n] @ [make_filename s 1]
    = make_filename s 0 # make_filename s 1 # (map (make_filename s) [2..<Suc n] @ [make_filename s 1])"
    using assms(2) by (simp add: upt_conv_Cons eval_nat_numeral del: upt_Suc)
  have p: "path_join (x_dir s) (make_filename s i) = make_path s i" for i by (simp add: make_path_def)
  have keep: "m (make_path s 1) = None \<and> f = Unlinked \<Longrightarrow> cleanup_loop k (x_dir s) f m ns = (f', m', ns') \<Longrightarrow>
      m' (make_path s 1) = None \<and> f' = Unlinked" for k f m ns f' m' ns'
    by (induction k "x_dir s" f m ns arbitrary: f' m' ns' rule: cleanup_loop.induct)
       (auto simp: Let_def fs_remove_def split: if_splits)
  have "x_max_files s < length (map (make_filename s) [2..<Suc n] @ [make_filename s 1]) + 1" using assms(2,6) by (auto simp del: upt_Suc)
  moreover have "make_path s 0 \<noteq> make_path s 1" by (simp add: make_path_inj)
  ultimately obtain m2 where l: "cleanup_loop (x_max_files s) (x_dir s) (At (make_path s 1)) g
       (map (make_filename s) [0..<Suc n] @ [make_filename s 1])
     = cleanup_loop (x_max_files s) (x_dir s) Unlinked m2 (map (make_filename s) [2..<Suc n] @ [make_filename s 1])"
    "m2 (make_path s 1) = None"
    unfolding ns by (auto simp: Let_def p fs_remove_def simp del: upt_Suc)
  obtain f' m' ns' where e: "cleanup_loop (x_max_files s) (x_dir s) Unlinked m2 (map (make_filename s) [2..<Suc n] @ [make_filename s 1])
     = (f', m', ns')" by (metis prod_cases3)
  have "cleanup_old_files t g = (t\<lparr>x_file := f', x_files := ns'\<rparr>, m')"
    using l(1) e assms(5) by (simp add: cleanup_old_files_def t_def del: upt_Suc)
  with st keep [OF _ e] l(2) show ?thesis by simp
qed

lemma unlinked_loses:
  assumes "x_file s = Unlinked" and "local_date_yyyy_mm_dd z t = x_current_date s"
    and "x_max_size s = 0 \<or> x_current_size s + length (x_line buf) < x_max_size s"
  shows "\<exists>s'. x_sink_it z (t, names, buf) (s, m) = (s', m) \<and> x_file s' = Unlinked"
  using assms by (auto simp: x_sink_it_def maybe_roll_day_def x_write_def Let_def)

end
