(* ===== verification/DailySizeSink.thy ===== *)
theory DailySizeSink
  imports Filesystem DateTime
begin

text \<open>
  The log sink that starts a new group of files every day and rotates by size within
  the day: class \<open>daily_size_rotating_file_mt\<close> of
  \<open>common/private/logger/daily_size_rotating_file_mt_sink.hpp\<close>.  The clock is an
  argument of the operations that read it, one reading per call, as in the code; the
  time zone is the parameter \<open>z\<close>.  File sizes are \<open>nat\<close> (a file stays below
  \<open>2 ^ 64\<close> bytes); the conversion of the configured bits to bytes, which can wrap, is on
  \<open>64 word\<close>.
\<close>

section \<open>State\<close>

datatype sink_error = Invalid_argument string

record daily_sink =
  d_fd :: "path option"
  d_dir :: path
  d_name_pattern :: string
  d_date_format :: string
  d_rotation_hour :: int
  d_rotation_min :: int
  d_max_size_bytes :: nat
  d_max_files :: nat
  d_rotate_on_open :: bool
  d_current_basename :: string
  d_next_rotation :: int
  d_current_size_bytes :: nat
  d_opened :: bool
  d_rotated_on_open_done :: bool

definition d_extension :: string where
  "d_extension = ''.log''"

definition make_basename_for_tp :: "tz \<Rightarrow> daily_sink \<Rightarrow> int \<Rightarrow> string" where
  "make_basename_for_tp z s tp =
     replace_all (d_name_pattern s) ''{date}'' (qt_datetime_format_subset z tp (d_date_format s))"

definition d_base_path :: "daily_sink \<Rightarrow> path" where
  "d_base_path s = path_join (d_dir s) (d_current_basename s @ d_extension)"

definition d_rotated_path :: "daily_sink \<Rightarrow> nat \<Rightarrow> path" where
  "d_rotated_path s index =
     path_join (d_dir s) (d_current_basename s @ ''.'' @ nat_dec index @ d_extension)"

section \<open>The daily switch\<close>

definition compute_next_rotation :: "tz \<Rightarrow> daily_sink \<Rightarrow> int \<Rightarrow> int" where
  "compute_next_rotation z s tp_now =
     (let local = localtime z (to_time_t tp_now);
          rot_tm = local\<lparr>tm_hour := d_rotation_hour s, tm_min := d_rotation_min s, tm_sec := 0\<rparr>;
          tp_rot_today = mktime z rot_tm * ns_per_sec
      in if tp_now < tp_rot_today then tp_rot_today else tp_rot_today + hours24)"

definition update_targets_for_now :: "tz \<Rightarrow> int \<Rightarrow> daily_sink \<Rightarrow> daily_sink" where
  "update_targets_for_now z tp s =
     s\<lparr>d_current_basename := make_basename_for_tp z s tp,
       d_next_rotation := compute_next_rotation z s tp\<rparr>"

text \<open>The constructor; it throws \<open>std::invalid_argument\<close> in two cases.\<close>

definition bits_to_bytes :: "u64 \<Rightarrow> u64" where
  "bits_to_bytes max_size_bits = (max_size_bits + 7) div 8"

definition make_daily_sink ::
  "tz \<Rightarrow> int \<Rightarrow> path \<Rightarrow> string \<Rightarrow> string \<Rightarrow> int \<Rightarrow> int \<Rightarrow> u64 \<Rightarrow> nat \<Rightarrow> bool
     \<Rightarrow> sink_error + daily_sink" where
  "make_daily_sink z tp dir name_pattern date_format rotation_hour rotation_min max_size_bits
     max_files rotate_on_open =
     (if rotation_hour < 0 \<or> rotation_hour > 23 \<or> rotation_min < 0 \<or> rotation_min > 59
      then Inl (Invalid_argument ''rotation time invalid'')
      else if bits_to_bytes max_size_bits = 0
      then Inl (Invalid_argument ''max_size_bits must be > 0'')
      else Inr (update_targets_for_now z tp
        \<lparr> d_fd = None, d_dir = dir, d_name_pattern = name_pattern, d_date_format = date_format,
          d_rotation_hour = rotation_hour, d_rotation_min = rotation_min,
          d_max_size_bytes = unat (bits_to_bytes max_size_bits), d_max_files = max_files,
          d_rotate_on_open = rotate_on_open, d_current_basename = [], d_next_rotation = 0,
          d_current_size_bytes = 0, d_opened = False, d_rotated_on_open_done = False \<rparr>))"

text \<open>The loop \<open>while (next_rotation_ <= tp) next_rotation_ += 24h\<close>.\<close>

function push_forward :: "int \<Rightarrow> int \<Rightarrow> int" where
  "push_forward tp next = (if next \<le> tp then push_forward tp (next + hours24) else next)"
  by pat_completeness auto
termination
  by (relation "measure (\<lambda>(tp, next). nat (tp - next + 1))")
     (auto simp: hours24_def ns_per_sec_def)

declare push_forward.simps [simp del]

definition d_close_file :: "daily_sink \<Rightarrow> daily_sink" where
  "d_close_file s = s\<lparr>d_fd := None, d_opened := False, d_current_size_bytes := 0\<rparr>"

definition rotate_if_needed_by_time :: "tz \<Rightarrow> int \<Rightarrow> daily_sink \<Rightarrow> daily_sink" where
  "rotate_if_needed_by_time z tp s =
     (if tp < d_next_rotation s then s
      else (let s1 = d_close_file s;
                s2 = s1\<lparr>d_current_basename := make_basename_for_tp z s1 tp\<rparr>;
                s3 = s2\<lparr>d_next_rotation := push_forward tp (compute_next_rotation z s2 tp)\<rparr>
            in s3\<lparr>d_rotated_on_open_done := False\<rparr>))"

section \<open>Opening and the size chain\<close>

definition d_ensure_opened :: "daily_sink \<Rightarrow> files \<Rightarrow> daily_sink \<times> files" where
  "d_ensure_opened s m =
     (if d_opened s then (s, m)
      else (let p = d_base_path s; m1 = fs_open_append m p
            in (s\<lparr>d_fd := Some p, d_opened := True, d_current_size_bytes := length (content m1 p)\<rparr>, m1)))"

text \<open>The loop \<open>for (i = max_files_; i > 1; --i)\<close>.\<close>

fun d_shift_loop :: "(nat \<Rightarrow> path) \<Rightarrow> nat \<Rightarrow> files \<Rightarrow> files" where
  "d_shift_loop rp i m =
     (if i > 1 then
        (let src = rp (i - 1); dst = rp i
         in d_shift_loop rp (i - 1)
              (if fs_exists m src then fs_rename (fs_remove m dst) src dst else m))
      else m)"

declare d_shift_loop.simps [simp del]

definition d_rename_chain :: "path \<Rightarrow> (nat \<Rightarrow> path) \<Rightarrow> nat \<Rightarrow> files \<Rightarrow> files" where
  "d_rename_chain base rp max_files m =
     (let m1 = fs_remove m (rp max_files);
          m2 = d_shift_loop rp max_files m1;
          src = base; dst = rp 1
      in if fs_exists m2 src then fs_rename (fs_remove m2 dst) src dst else m2)"

definition rotate_by_size_chain :: "daily_sink \<Rightarrow> files \<Rightarrow> daily_sink \<times> files" where
  "rotate_by_size_chain s m =
     (if d_max_files s = 0 then (s, m)
      else (d_close_file s,
            d_rename_chain (d_base_path s) (d_rotated_path s) (d_max_files s) m))"

section \<open>Writing one message\<close>

definition d_write :: "daily_sink \<Rightarrow> files \<Rightarrow> string \<Rightarrow> files" where
  "d_write s m buf = (case d_fd s of None \<Rightarrow> m | Some p \<Rightarrow> fs_append m p buf)"

definition d_rotate_on_first_write :: "daily_sink \<Rightarrow> files \<Rightarrow> daily_sink \<times> files" where
  "d_rotate_on_first_write s m =
     (if d_rotated_on_open_done s then (s, m)
      else (let (s1, m1) =
                  (if d_rotate_on_open s \<and> d_max_files s > 0 \<and> fs_exists m (d_base_path s)
                   then rotate_by_size_chain s m else (s, m))
            in (s1\<lparr>d_rotated_on_open_done := True\<rparr>, m1)))"

definition d_make_room :: "nat \<Rightarrow> daily_sink \<Rightarrow> files \<Rightarrow> daily_sink \<times> files" where
  "d_make_room will_write s m =
     (if d_max_files s > 0 \<and> d_current_size_bytes s + will_write > d_max_size_bytes s
      then (case rotate_by_size_chain s m of (s1, m1) \<Rightarrow> d_ensure_opened s1 m1)
      else (s, m))"

definition d_sink_it :: "tz \<Rightarrow> int \<Rightarrow> string \<Rightarrow> daily_sink \<times> files \<Rightarrow> daily_sink \<times> files" where
  "d_sink_it z tp buf sm =
     (case sm of (s, m) \<Rightarrow>
        (let s0 = rotate_if_needed_by_time z tp s;
             (s1, m1) = d_rotate_on_first_write s0 m;
             (s2, m2) = d_ensure_opened s1 m1;
             will_write = length buf;
             (s3, m3) = d_make_room will_write s2 m2
         in (s3\<lparr>d_current_size_bytes := d_current_size_bytes s3 + will_write\<rparr>,
             d_write s3 m3 buf)))"

definition d_run :: "tz \<Rightarrow> (int \<times> string) list \<Rightarrow> daily_sink \<times> files \<Rightarrow> daily_sink \<times> files" where
  "d_run z evs sm = fold (\<lambda>(tp, buf). d_sink_it z tp buf) evs sm"

section \<open>The chain of the sink\<close>

lemma d_shift_loop_eq: "d_shift_loop rp i m = shift_up rp (i - 1) m"
proof (induction i arbitrary: m)
  case 0
  then show ?case by (simp add: d_shift_loop.simps [of rp 0])
next
  case (Suc i)
  show ?case
  proof (cases i)
    case 0
    then show ?thesis by (simp add: d_shift_loop.simps [of rp "Suc 0"])
  next
    case (Suc j)
    then show ?thesis
      using Suc.IH by (simp add: d_shift_loop.simps [of rp "Suc (Suc j)"] shift_file_def Let_def)
  qed
qed

lemma d_rename_chain_eq: "d_rename_chain base rp n m = chain_rotate base rp n m"
  by (simp add: d_rename_chain_def chain_rotate_def d_shift_loop_eq shift_file_def Let_def)

lemma d_rotated_path_inj: "inj (d_rotated_path s)"
proof (rule injI)
  fix i j assume "d_rotated_path s i = d_rotated_path s j"
  then have "''.'' @ nat_dec i @ d_extension = ''.'' @ nat_dec j @ d_extension"
    unfolding d_rotated_path_def by (rule path_join_stem_inject) auto
  then show "i = j" by simp
qed

lemma d_base_rotated: "d_base_path s \<noteq> d_rotated_path s i"
proof
  assume "d_base_path s = d_rotated_path s i"
  then have "d_extension = ''.'' @ nat_dec i @ d_extension"
    unfolding d_rotated_path_def d_base_path_def
    by (rule path_join_stem_inject) (auto simp: d_extension_def)
  then have "length d_extension = length (''.'' @ nat_dec i @ d_extension)" by simp
  then show False by simp
qed

interpretation ds: backup_chain "d_base_path s" "d_rotated_path s"
  "d_rename_chain (d_base_path s) (d_rotated_path s)" for s
proof -
  have "d_rename_chain (d_base_path s) (d_rotated_path s)
      = chain_rotate (d_base_path s) (d_rotated_path s)"
    by (simp add: fun_eq_iff d_rename_chain_eq)
  then show "backup_chain (d_base_path s) (d_rotated_path s)
      (d_rename_chain (d_base_path s) (d_rotated_path s))"
    using chain_rotate_backup_chain [OF d_rotated_path_inj d_base_rotated, of s] by simp
qed

section \<open>What the steps keep\<close>

lemma d_paths_update [simp]:
  "d_base_path (s\<lparr>d_fd := x\<rparr>) = d_base_path s"
  "d_base_path (s\<lparr>d_opened := b\<rparr>) = d_base_path s"
  "d_base_path (s\<lparr>d_current_size_bytes := k\<rparr>) = d_base_path s"
  "d_base_path (s\<lparr>d_rotated_on_open_done := b\<rparr>) = d_base_path s"
  "d_rotated_path (s\<lparr>d_fd := x\<rparr>) = d_rotated_path s"
  "d_rotated_path (s\<lparr>d_opened := b\<rparr>) = d_rotated_path s"
  "d_rotated_path (s\<lparr>d_current_size_bytes := k\<rparr>) = d_rotated_path s"
  "d_rotated_path (s\<lparr>d_rotated_on_open_done := b\<rparr>) = d_rotated_path s"
  by (simp_all add: d_base_path_def d_rotated_path_def fun_eq_iff)

text \<open>The part of a sink that stays as it is within a day.\<close>

definition d_group :: "daily_sink \<Rightarrow> path \<times> string \<times> nat \<times> nat \<times> int" where
  "d_group s = (d_dir s, d_current_basename s, d_max_size_bytes s, d_max_files s, d_next_rotation s)"

lemma d_group_update [simp]:
  "d_group (s\<lparr>d_fd := x\<rparr>) = d_group s"
  "d_group (s\<lparr>d_opened := b\<rparr>) = d_group s"
  "d_group (s\<lparr>d_current_size_bytes := k\<rparr>) = d_group s"
  "d_group (s\<lparr>d_rotated_on_open_done := b\<rparr>) = d_group s"
  by (simp_all add: d_group_def)

lemma d_group_paths:
  assumes "d_group s = d_group t"
  shows "d_base_path s = d_base_path t" "d_rotated_path s = d_rotated_path t"
    "d_max_files s = d_max_files t" "d_max_size_bytes s = d_max_size_bytes t"
    "d_next_rotation s = d_next_rotation t"
  using assms by (simp_all add: d_group_def d_base_path_def d_rotated_path_def fun_eq_iff)

definition d_slots :: "daily_sink \<Rightarrow> path list" where
  "d_slots s = chain_slots (d_base_path s) (d_rotated_path s) (d_max_files s)"

definition d_text :: "daily_sink \<Rightarrow> files \<Rightarrow> string" where
  "d_text s m = chain_text (d_base_path s) (d_rotated_path s) (d_max_files s) m"

definition d_handle_ok :: "daily_sink \<Rightarrow> files \<Rightarrow> bool" where
  "d_handle_ok s m \<longleftrightarrow>
     (if d_opened s
      then d_fd s = Some (d_base_path s) \<and> fs_exists m (d_base_path s)
        \<and> d_current_size_bytes s = length (content m (d_base_path s))
      else d_fd s = None)"

text \<open>
  A step within a day: the group and the handle discipline are kept, no file outside
  the group is touched, and only the oldest text of the group may go.
\<close>

definition d_quiet :: "daily_sink \<times> files \<Rightarrow> daily_sink \<times> files \<Rightarrow> bool" where
  "d_quiet a b \<longleftrightarrow> d_group (fst b) = d_group (fst a)
     \<and> (d_handle_ok (fst a) (snd a) \<longrightarrow> d_handle_ok (fst b) (snd b))
     \<and> suffix (d_text (fst b) (snd b)) (d_text (fst a) (snd a))
     \<and> (\<forall>p. p \<notin> set (d_slots (fst a)) \<longrightarrow> snd b p = snd a p)
     \<and> (d_max_files (fst a) = 0 \<longrightarrow>
          content (snd b) (d_base_path (fst a)) = content (snd a) (d_base_path (fst a)))"

lemma d_quietI:
  assumes "d_group t = d_group s"
    and "d_handle_ok s m \<Longrightarrow> d_handle_ok t n"
    and "suffix (chain_text (d_base_path s) (d_rotated_path s) (d_max_files s) n)
                (chain_text (d_base_path s) (d_rotated_path s) (d_max_files s) m)"
    and "\<And>p. p \<notin> set (d_slots s) \<Longrightarrow> n p = m p"
    and "d_max_files s = 0 \<Longrightarrow> content n (d_base_path s) = content m (d_base_path s)"
  shows "d_quiet (s, m) (t, n)"
  using assms d_group_paths [OF assms(1)] by (simp add: d_quiet_def d_text_def)

lemma d_quiet_refl [simp, intro]: "d_quiet a a"
  by (simp add: d_quiet_def)

lemma d_quiet_trans [trans]: "d_quiet a b \<Longrightarrow> d_quiet b c \<Longrightarrow> d_quiet a c"
  using d_group_paths [of "fst b" "fst a"]
  by (auto simp: d_quiet_def d_slots_def intro: suffix_order.trans)

lemma d_slots_iff:
  "p \<in> set (d_slots s) \<longleftrightarrow> p = d_base_path s \<or> (\<exists>i \<in> {1..d_max_files s}. p = d_rotated_path s i)"
  by (auto simp: d_slots_def chain_slots_def)

lemma rotate_by_size_chain_quiet:
  assumes "0 < d_max_files s" "rotate_by_size_chain s m = (t, n)"
  shows "d_quiet (s, m) (t, n)" "\<not> d_opened t" "n (d_base_path s) = None"
proof -
  have t: "t = d_close_file s"
    and n: "n = d_rename_chain (d_base_path s) (d_rotated_path s) (d_max_files s) m"
    using assms by (auto simp: rotate_by_size_chain_def)
  show "\<not> d_opened t" "n (d_base_path s) = None"
    using ds.rotate_base [OF assms(1)] by (simp_all add: t n d_close_file_def)
  have "suffix (chain_text (d_base_path s) (d_rotated_path s) (d_max_files s) n)
               (chain_text (d_base_path s) (d_rotated_path s) (d_max_files s) m)"
    unfolding n by (rule ds.text_rotate [OF assms(1)])
  moreover have "n p = m p" if "p \<notin> set (d_slots s)" for p
    unfolding n using that assms(1) by (intro ds.rotate_other) (auto simp: d_slots_iff)
  ultimately show "d_quiet (s, m) (t, n)"
    using assms(1) by (intro d_quietI) (simp_all add: t d_close_file_def d_handle_ok_def)
qed

lemma d_first_quiet: "d_quiet (s, m) (d_rotate_on_first_write s m)"
proof -
  have set: "d_quiet (t, n) (t\<lparr>d_rotated_on_open_done := True\<rparr>, n)" for t n
    by (intro d_quietI) (simp_all add: d_handle_ok_def)
  obtain s1 m1 where r: "rotate_by_size_chain s m = (s1, m1)" by fastforce
  have "d_quiet (s, m) (s1\<lparr>d_rotated_on_open_done := True\<rparr>, m1)" if "0 < d_max_files s"
    using rotate_by_size_chain_quiet(1) [OF that r] set [of s1 m1] by (rule d_quiet_trans)
  then show ?thesis
    using set r by (auto simp: d_rotate_on_first_write_def Let_def)
qed

lemma d_ensure_quiet:
  assumes "d_ensure_opened s m = (t, n)"
  shows "d_quiet (s, m) (t, n)" "d_opened t"
    "\<not> d_opened s \<Longrightarrow> d_current_size_bytes t = length (content m (d_base_path s))"
proof -
  have "d_quiet (s, m) (t, n) \<and> d_opened t"
  proof (cases "d_opened s")
    case True
    then show ?thesis using assms by (simp add: d_ensure_opened_def)
  next
    case False
    then have tn: "t = s\<lparr>d_fd := Some (d_base_path s), d_opened := True,
        d_current_size_bytes := length (content m (d_base_path s))\<rparr>"
      "n = fs_open_append m (d_base_path s)"
      using assms by (auto simp: d_ensure_opened_def Let_def)
    have "n p = m p" if "p \<notin> set (d_slots s)" for p
      unfolding tn using that by (intro files_open_append_other) (auto simp: d_slots_iff)
    then show ?thesis
      using ds.text_open_base [of s "d_max_files s" m]
      by (intro conjI d_quietI) (simp_all add: tn d_handle_ok_def)
  qed
  then show "d_quiet (s, m) (t, n)" "d_opened t" by auto
  show "d_current_size_bytes t = length (content m (d_base_path s))" if "\<not> d_opened s"
    using that assms by (auto simp: d_ensure_opened_def Let_def)
qed

lemma d_make_room_quiet:
  assumes h: "d_handle_ok s m" "d_opened s" and r: "d_make_room w s m = (t, n)"
  shows "d_quiet (s, m) (t, n)" "d_opened t"
    "0 < d_max_files s \<Longrightarrow> d_current_size_bytes t + w \<le> max (d_max_size_bytes s) w"
proof -
  have "d_quiet (s, m) (t, n) \<and> d_opened t \<and>
    (0 < d_max_files s \<longrightarrow> d_current_size_bytes t + w \<le> max (d_max_size_bytes s) w)"
  proof (cases "d_max_files s > 0 \<and> d_current_size_bytes s + w > d_max_size_bytes s")
    case False
    then show ?thesis using h r by (auto simp: d_make_room_def)
  next
    case True
    obtain s1 m1 where 1: "rotate_by_size_chain s m = (s1, m1)" by fastforce
    have 2: "d_ensure_opened s1 m1 = (t, n)" using r True 1 by (simp add: d_make_room_def)
    note q1 = rotate_by_size_chain_quiet [OF _ 1]
    note q2 = d_ensure_quiet [OF 2]
    have "d_base_path s1 = d_base_path s"
      using q1(1) True d_group_paths(1) [of s1 s] by (simp add: d_quiet_def)
    then have "d_current_size_bytes t = 0"
      using q1(2,3) q2(3) True by (simp add: content_def)
    then show ?thesis
      using d_quiet_trans [OF q1(1) q2(1)] q2(2) True by simp
  qed
  then show "d_quiet (s, m) (t, n)" "d_opened t"
    "0 < d_max_files s \<Longrightarrow> d_current_size_bytes t + w \<le> max (d_max_size_bytes s) w" by auto
qed

lemma push_forward_gt: "tp < push_forward tp next"
proof (induction tp "next" rule: push_forward.induct)
  case (1 tp "next")
  then show ?case by (simp add: push_forward.simps [of tp "next"])
qed

lemma rotate_if_needed_by_time_next: "tp < d_next_rotation (rotate_if_needed_by_time z tp s)"
  using push_forward_gt by (simp add: rotate_if_needed_by_time_def Let_def)

lemma rotate_if_needed_handle:
  "d_handle_ok s m \<Longrightarrow> d_handle_ok (rotate_if_needed_by_time z tp s) m"
  by (auto simp: rotate_if_needed_by_time_def d_handle_ok_def d_close_file_def Let_def)

lemma rotate_if_needed_limits:
  "d_max_files (rotate_if_needed_by_time z tp s) = d_max_files s"
  "d_max_size_bytes (rotate_if_needed_by_time z tp s) = d_max_size_bytes s"
  by (simp_all add: rotate_if_needed_by_time_def d_close_file_def Let_def)

text \<open>
  One message: the quiet steps lead to an open current file with room, to which the
  message is appended.
\<close>

lemma d_sink_it_steps:
  assumes h: "d_handle_ok s m" and r: "d_sink_it z tp buf (s, m) = (s', m')"
  defines "s0 \<equiv> rotate_if_needed_by_time z tp s"
  obtains t n where "d_quiet (s0, m) (t, n)" "d_opened t" "d_handle_ok t n"
    "0 < d_max_files s \<Longrightarrow> d_current_size_bytes t + length buf \<le> max (d_max_size_bytes s) (length buf)"
    "s' = t\<lparr>d_current_size_bytes := d_current_size_bytes t + length buf\<rparr>"
    "m' = fs_append n (d_base_path s0) buf" "d_group t = d_group s0"
proof -
  obtain s1 m1 where 1: "d_rotate_on_first_write s0 m = (s1, m1)" by fastforce
  obtain s2 m2 where 2: "d_ensure_opened s1 m1 = (s2, m2)" by fastforce
  obtain t n where 3: "d_make_room (length buf) s2 m2 = (t, n)" by fastforce
  have q1: "d_quiet (s0, m) (s1, m1)" using d_first_quiet [of s0 m] 1 by simp
  note q2 = d_ensure_quiet(1,2) [OF 2]
  have q12: "d_quiet (s0, m) (s2, m2)" by (rule d_quiet_trans [OF q1 q2(1)])
  have h0: "d_handle_ok s0 m" unfolding s0_def by (rule rotate_if_needed_handle [OF h])
  have h2: "d_handle_ok s2 m2" and g2: "d_group s2 = d_group s0" using q12 h0 by (auto simp: d_quiet_def)
  note q3 = d_make_room_quiet [OF h2 q2(2) 3]
  have q: "d_quiet (s0, m) (t, n)" by (rule d_quiet_trans [OF q12 q3(1)])
  have ht: "d_handle_ok t n" and gt: "d_group t = d_group s0" using q h0 by (auto simp: d_quiet_def)
  have lim: "d_max_files s2 = d_max_files s" "d_max_size_bytes s2 = d_max_size_bytes s"
    using d_group_paths [OF g2] rotate_if_needed_limits by (simp_all add: s0_def)
  have "s' = t\<lparr>d_current_size_bytes := d_current_size_bytes t + length buf\<rparr>" "m' = d_write t n buf"
    using r 1 2 3 by (auto simp: d_sink_it_def s0_def Let_def)
  moreover have "d_fd t = Some (d_base_path s0)"
    using ht q3(2) d_group_paths(1) [OF gt] by (simp add: d_handle_ok_def)
  ultimately show ?thesis
    using that q q3(2,3) ht gt lim by (simp add: d_write_def)
qed

section \<open>Properties\<close>

lemma d_sink_it_current:
  assumes "d_handle_ok s m" and "d_sink_it z tp buf (s, m) = (s', m')"
  shows "d_opened s' \<and> d_handle_ok s' m' \<and> fs_exists m' (d_base_path s')
    \<and> suffix buf (content m' (d_base_path s'))
    \<and> d_current_size_bytes s' = length (content m' (d_base_path s'))
    \<and> tp < d_next_rotation s'
    \<and> (d_max_files s = 0
        \<or> length (content m' (d_base_path s')) \<le> max (d_max_size_bytes s) (length buf))"
proof -
  let ?s0 = "rotate_if_needed_by_time z tp s"
  obtain t n where q: "d_quiet (?s0, m) (t, n)" "d_opened t" "d_handle_ok t n"
    and room: "0 < d_max_files s \<Longrightarrow>
      d_current_size_bytes t + length buf \<le> max (d_max_size_bytes s) (length buf)"
    and s': "s' = t\<lparr>d_current_size_bytes := d_current_size_bytes t + length buf\<rparr>"
    and m': "m' = fs_append n (d_base_path ?s0) buf" and g: "d_group t = d_group ?s0"
    using d_sink_it_steps [OF assms] by blast
  have b: "d_base_path t = d_base_path ?s0" and nr: "d_next_rotation t = d_next_rotation ?s0"
    using d_group_paths [OF g] by auto
  have c: "content m' (d_base_path s') = content n (d_base_path t) @ buf"
    using b by (simp add: s' m')
  have sz: "d_current_size_bytes s' = length (content m' (d_base_path s'))"
    using q(2,3) c by (simp add: d_handle_ok_def s')
  moreover have "d_handle_ok s' m'" "d_opened s'" "fs_exists m' (d_base_path s')"
    using q(2,3) sz b by (simp_all add: d_handle_ok_def s' m')
  moreover have "tp < d_next_rotation s'"
    using rotate_if_needed_by_time_next [of tp z s] nr by (simp add: s')
  moreover have "0 < d_max_files s \<Longrightarrow> d_current_size_bytes s' \<le> max (d_max_size_bytes s) (length buf)"
    using room by (simp add: s')
  ultimately show ?thesis using c by (auto simp: suffix_def)
qed

lemma d_sink_it_limits:
  assumes "d_handle_ok s m" and "d_sink_it z tp buf (s, m) = (s', m')"
  shows "d_max_files s' = d_max_files s" "d_max_size_bytes s' = d_max_size_bytes s"
proof -
  obtain t n where "s' = t\<lparr>d_current_size_bytes := d_current_size_bytes t + length buf\<rparr>"
    "d_group t = d_group (rotate_if_needed_by_time z tp s)"
    using d_sink_it_steps [OF assms] by blast
  then show "d_max_files s' = d_max_files s" "d_max_size_bytes s' = d_max_size_bytes s"
    using d_group_paths [of t] rotate_if_needed_limits by simp_all
qed

lemma d_run_handle:
  assumes "d_handle_ok s m" "d_run z evs (s, m) = (s', m')"
  shows "d_handle_ok s' m' \<and> d_max_files s' = d_max_files s \<and> d_max_size_bytes s' = d_max_size_bytes s"
  using assms
proof (induction evs arbitrary: s m)
  case Nil
  then show ?case by (simp add: d_run_def)
next
  case (Cons ev evs)
  obtain tp buf where ev: "ev = (tp, buf)" by fastforce
  obtain s1 m1 where 1: "d_sink_it z tp buf (s, m) = (s1, m1)" by fastforce
  have "d_handle_ok s1 m1" using d_sink_it_current [OF Cons.prems(1) 1] by simp
  moreover have "d_run z evs (s1, m1) = (s', m')" using Cons.prems(2) 1 by (simp add: d_run_def ev)
  ultimately show ?case using Cons.IH d_sink_it_limits [OF Cons.prems(1) 1] by metis
qed

lemma make_daily_sink_fresh:
  "make_daily_sink z tp dir pat fmt h mi bits n roo = Inr s \<Longrightarrow>
     d_handle_ok s m \<and> d_max_files s = n \<and> d_max_size_bytes s = unat (bits_to_bytes bits)"
  by (auto simp: make_daily_sink_def update_targets_for_now_def d_handle_ok_def split: if_splits)

text \<open>
  After every message of every run the file without suffix is the open current file:
  it exists, ends with the message, the sink's byte counter is its length, the next
  rotation time is in the future, and with backups enabled it is no larger than the
  configured size, or than the message when that alone is larger.  This holds for every
  sequence of clock readings and in every time zone.
\<close>

theorem daily_sink_current_file:
  assumes "make_daily_sink z tp0 dir pat fmt h mi bits n roo = Inr s"
    and "d_run z (evs @ [(tp, buf)]) (s, m) = (s', m')"
  shows "d_opened s' \<and> fs_exists m' (d_base_path s')
    \<and> suffix buf (content m' (d_base_path s'))
    \<and> d_current_size_bytes s' = length (content m' (d_base_path s'))
    \<and> tp < d_next_rotation s'
    \<and> (n = 0
        \<or> length (content m' (d_base_path s')) \<le> max (unat (bits_to_bytes bits)) (length buf))"
proof -
  obtain s1 m1 where 1: "d_run z evs (s, m) = (s1, m1)" by fastforce
  have "d_handle_ok s m" using make_daily_sink_fresh [OF assms(1)] by simp
  from d_run_handle [OF this 1] make_daily_sink_fresh [OF assms(1)]
  have h: "d_handle_ok s1 m1" and l: "d_max_files s1 = n" "d_max_size_bytes s1 = unat (bits_to_bytes bits)"
    by auto
  have "d_sink_it z tp buf (s1, m1) = (s', m')" using assms(2) 1 by (simp add: d_run_def)
  from d_sink_it_current [OF h this] l show ?thesis by auto
qed

definition tz_utc_day :: tz where
  "tz_utc_day =
     \<lparr>localtime = (\<lambda>t. \<lparr>tm_sec = t mod 60, tm_min = t div 60 mod 60, tm_hour = t div 3600 mod 24,
                       tm_mday = 1 + t div 86400, tm_mon = 0, tm_year = 70, tm_wday = 4\<rparr>),
      mktime = (\<lambda>p. (tm_mday p - 1) * 86400 + tm_hour p * 3600 + tm_min p * 60 + tm_sec p)\<rparr>"

theorem daily_sink_current_file_witness:
  "\<exists>s s' m'. make_daily_sink tz_utc_day 5 ''logs'' ''{date}'' ''yyyy'' 0 0 16 3 False = Inr s
     \<and> d_run tz_utc_day ([(6, ''a'')] @ [(7, ''bc'')]) (s, Map.empty) = (s', m')
     \<and> length (content m' (d_base_path s')) \<le> 2 \<and> fs_exists m' (d_base_path s')"
proof -
  obtain s where s: "make_daily_sink tz_utc_day 5 ''logs'' ''{date}'' ''yyyy'' 0 0 16 3 False = Inr s"
    by (simp add: make_daily_sink_def bits_to_bytes_def)
  obtain s' m' where r: "d_run tz_utc_day ([(6, ''a'')] @ [(7, ''bc'')]) (s, Map.empty) = (s', m')"
    by fastforce
  from daily_sink_current_file [OF s r] show ?thesis
    using s r by (auto simp: bits_to_bytes_def)
qed

text \<open>
  C5. A message touches only the files of the day it is written on, with the backups of
  that day; within the day nothing is lost but the oldest backup: the text of the group
  afterwards is a suffix of its text before followed by the message.
\<close>

theorem daily_sink_only_today:
  assumes "d_handle_ok s m" and "d_sink_it z tp buf (s, m) = (s', m')"
  defines "s0 \<equiv> rotate_if_needed_by_time z tp s"
  shows "d_group s' = d_group s0
    \<and> (\<forall>p. p \<notin> set (d_slots s0) \<longrightarrow> m' p = m p)
    \<and> suffix (d_text s0 m') (d_text s0 m @ buf)
    \<and> (d_max_files s = 0 \<longrightarrow> content m' (d_base_path s0) = content m (d_base_path s0) @ buf)"
proof -
  obtain t n where q: "d_quiet (s0, m) (t, n)"
    and s': "s' = t\<lparr>d_current_size_bytes := d_current_size_bytes t + length buf\<rparr>"
    and m': "m' = fs_append n (d_base_path s0) buf" and g: "d_group t = d_group s0"
    using d_sink_it_steps [OF assms(1,2)] unfolding s0_def by blast
  have t: "d_text s0 m' = d_text s0 n @ buf"
    unfolding m' d_text_def by (rule ds.text_append_base)
  have "suffix (d_text s0 n) (d_text s0 m)"
    using q d_group_paths [OF g] by (simp add: d_quiet_def d_text_def)
  then have "suffix (d_text s0 m') (d_text s0 m @ buf)"
    unfolding t by (rule suffix_append_same)
  moreover have "m' p = m p" if p: "p \<notin> set (d_slots s0)" for p
  proof -
    have "p \<noteq> d_base_path s0" using p by (auto simp: d_slots_iff)
    then show ?thesis using q p by (simp add: m' d_quiet_def)
  qed
  moreover have "d_max_files s0 = d_max_files s" by (simp add: s0_def rotate_if_needed_limits)
  ultimately show ?thesis
    using q g s' by (auto simp: m' d_quiet_def)
qed

theorem daily_sink_only_today_witness:
  "\<exists>s s' m'. d_handle_ok s Map.empty
     \<and> d_sink_it tz_utc_day 6 ''a'' (s, Map.empty) = (s', m')
     \<and> suffix (d_text (rotate_if_needed_by_time tz_utc_day 6 s) m')
         (d_text (rotate_if_needed_by_time tz_utc_day 6 s) Map.empty @ ''a'')"
proof -
  obtain s where s: "make_daily_sink tz_utc_day 5 ''logs'' ''{date}'' ''yyyy'' 0 0 16 3 False = Inr s"
    by (simp add: make_daily_sink_def bits_to_bytes_def)
  have h: "d_handle_ok s Map.empty" using make_daily_sink_fresh [OF s] by simp
  obtain s' m' where r: "d_sink_it tz_utc_day 6 ''a'' (s, Map.empty) = (s', m')" by fastforce
  from daily_sink_only_today [OF h r] show ?thesis using h r by blast
qed

lemma unat_bits_to_bytes: "unat (bits_to_bytes b) = (unat b + 7) mod 2 ^ 64 div 8"
  by (simp add: bits_to_bytes_def unat_div_distrib unat_word_ariths)

lemma bits_to_bytes_zero_iff: "bits_to_bytes b = 0 \<longleftrightarrow> unat b = 0 \<or> 2 ^ 64 - 7 \<le> unat b"
proof -
  have lt: "unat b < 2 ^ 64" by (rule order_less_le_trans [OF unsigned_less]) simp
  have "bits_to_bytes b = 0 \<longleftrightarrow> (unat b + 7) mod 2 ^ 64 < 8"
    by (metis div_eq_0_iff unat_bits_to_bytes unat_eq_zero zero_neq_numeral)
  also have "\<dots> \<longleftrightarrow> unat b = 0 \<or> 2 ^ 64 - 7 \<le> unat b"
  proof (cases "unat b + 7 < 2 ^ 64")
    case True
    then show ?thesis by auto
  next
    case False
    then have "(unat b + 7) mod 2 ^ 64 = unat b + 7 - 2 ^ 64"
      using lt by (subst mod_if) auto
    then show ?thesis using False lt by auto
  qed
  finally show ?thesis .
qed

text \<open>
  The constructor accepts a configuration exactly when the rotation time is a time
  of day and the size in bits, as an unsigned 64 bit number, is neither 0 nor one of the
  seven largest values, whose rounding up wraps to 0; the limit is then the size in
  bytes rounded up, and nothing is opened yet.
\<close>

theorem daily_sink_constructor:
  "case make_daily_sink z tp dir pat fmt h mi bits n roo of
     Inl e \<Rightarrow> h < 0 \<or> 23 < h \<or> mi < 0 \<or> 59 < mi \<or> unat bits = 0 \<or> 2 ^ 64 - 7 \<le> unat bits
   | Inr s \<Rightarrow> 0 \<le> h \<and> h \<le> 23 \<and> 0 \<le> mi \<and> mi \<le> 59 \<and> 0 < unat bits \<and> unat bits < 2 ^ 64 - 7
       \<and> d_max_size_bytes s = (unat bits + 7) div 8 \<and> d_max_files s = n \<and> \<not> d_opened s"
proof -
  have "unat (bits_to_bytes bits) = (unat bits + 7) div 8" if "unat bits < 2 ^ 64 - 7"
    using that by (simp add: unat_bits_to_bytes)
  then show ?thesis
    using bits_to_bytes_zero_iff [of bits]
    by (auto simp: make_daily_sink_def update_targets_for_now_def not_le not_less)
qed

end
