(* ===== verification/SpdRotating.thy ===== *)
theory SpdRotating
  imports CountSink DailySizeSink
begin

text \<open>
  The sinks of spdlog that write a fixed chain of files: \<open>sinks/basic_file_sink-inl.h\<close>
  and \<open>sinks/rotating_file_sink-inl.h\<close>, with \<open>details/file_helper-inl.h\<close> below them.  A
  sink is a record of its members; an operation takes the files and returns them.  A
  \<open>file_helper\<close> is the name of the file it has open.  Locking, formatting and failures of
  the system calls other than opening are outside, as for the other sinks.  A rotation skips
  an absent file without emptying the slot above, so this chain is not the \<open>backup_chain\<close> of
  the program's own sinks.
\<close>

section \<open>Errors and limits\<close>

text \<open>The messages of \<open>spdlog_ex\<close>, the program's own among them.\<close>

datatype spd_error =
    LoadFailed | LogConfigMissing | LoggerMissing | SinksInvalid
  | ZeroMaxSize | TooManyFiles | BadRotationTime | BadThreadCount | OpenFailed path

definition max_rotating_files :: nat where
  "max_rotating_files = 200000"

section \<open>Names of files\<close>

text \<open>\<open>rfind\<close> and \<open>find_last_of\<close> with one character.\<close>

definition rfind :: "char \<Rightarrow> string \<Rightarrow> nat option" where
  "rfind c s = (if c \<in> set s then Some (length s - 1 - length (takeWhile (\<lambda>x. x \<noteq> c) (rev s))) else None)"

definition split_by_extension :: "string \<Rightarrow> string \<times> string" where
  "split_by_extension fname = (case rfind (CHR ''.'') fname of
      None \<Rightarrow> (fname, [])
    | Some ext \<Rightarrow>
        if ext = 0 \<or> ext = length fname - 1 then (fname, [])
        else (case rfind (CHR ''/'') fname of
            Some folder \<Rightarrow> if folder \<ge> ext - 1 then (fname, []) else (take ext fname, drop ext fname)
          | None \<Rightarrow> (take ext fname, drop ext fname)))"

text \<open>\<open>rotating_file_sink::calc_filename\<close>.\<close>

definition calc_filename :: "string \<Rightarrow> nat \<Rightarrow> string" where
  "calc_filename fname index =
     (if index = 0 then fname
      else case split_by_extension fname of (base, ext) \<Rightarrow> base @ ''.'' @ nat_dec index @ ext)"

lemma split_concat: "split_by_extension fname = (base, ext) \<Longrightarrow> base @ ext = fname"
  by (auto simp: split_by_extension_def split: option.splits if_splits)

lemma calc_filename_inject [simp]: "calc_filename f i = calc_filename f j \<longleftrightarrow> i = j"
proof -
  obtain b e where s: "split_by_extension f = (b, e)" by fastforce
  have n: "calc_filename f (Suc k) \<noteq> f" for k
    using split_concat [OF s] by (auto simp: calc_filename_def s)
  show ?thesis
  proof (cases i; cases j)
    fix k l assume "i = Suc k" "j = Suc l"
    then show ?thesis by (simp add: calc_filename_def s)
  qed (use n in \<open>auto simp: calc_filename_def\<close>, metis n)
qed

lemma inj_calc_filename: "inj (calc_filename f)"
  by (simp add: inj_def)

section \<open>\<open>file_helper\<close>\<close>

definition fh_open :: "files \<Rightarrow> path \<Rightarrow> bool \<Rightarrow> files" where
  "fh_open m p trunc = fs_open_append (if trunc then m(p := Some []) else m) p"

text \<open>A file removed while it is open takes what is written with it.\<close>

definition fh_write :: "files \<Rightarrow> path \<Rightarrow> string \<Rightarrow> files" where
  "fh_write m p buf = (case m p of None \<Rightarrow> m | Some c \<Rightarrow> m(p := Some (c @ buf)))"

lemma fh_write_open [simp]: "fs_exists m p \<Longrightarrow> fh_write m p buf = fs_append m p buf"
  by (auto simp: fh_write_def fs_append_def fs_exists_def split: option.split)

lemma fh_open_exists [simp]: "fs_exists (fh_open m p t) q \<longleftrightarrow> q = p \<or> fs_exists m q"
  by (auto simp: fh_open_def fs_exists_def fs_open_append_def split: option.split)

lemma content_fh_open [simp]:
  "content (fh_open m p t) q = (if t \<and> q = p then [] else content m q)"
  by (auto simp: fh_open_def content_def fs_open_append_def split: option.split)

lemma fh_open_other [simp]: "q \<noteq> p \<Longrightarrow> fh_open m p t q = m q"
  by (simp add: fh_open_def)

section \<open>\<open>basic_file_sink\<close>\<close>

definition open_basic :: "path \<Rightarrow> bool \<Rightarrow> files \<Rightarrow> files" where
  "open_basic p trunc m = fh_open m p trunc"

definition b_sink_it :: "path \<Rightarrow> string \<Rightarrow> files \<Rightarrow> files" where
  "b_sink_it p buf m = fh_write m p buf"

definition b_truncate :: "path \<Rightarrow> files \<Rightarrow> files" where
  "b_truncate p m = fh_open m p True"

section \<open>\<open>rotating_file_sink\<close>\<close>

record rot_sink =
  r_base :: path
  r_max_size :: nat
  r_max_files :: nat
  r_current_size :: nat

text \<open>The loop of \<open>rotate_\<close>, from \<open>max_files_\<close> down to 1; slot 0 is the current file.\<close>

fun r_shift :: "(nat \<Rightarrow> path) \<Rightarrow> nat \<Rightarrow> files \<Rightarrow> files" where
  "r_shift f 0 m = m"
| "r_shift f (Suc i) m =
     r_shift f i (if \<not> fs_exists m (f i) then m
                  else fs_rename (fs_remove m (f (Suc i))) (f i) (f (Suc i)))"

definition r_rotate :: "rot_sink \<Rightarrow> files \<Rightarrow> files" where
  "r_rotate s m = fh_open (r_shift (calc_filename (r_base s)) (r_max_files s) m) (r_base s) True"

definition open_rotating ::
  "path \<Rightarrow> nat \<Rightarrow> nat \<Rightarrow> bool \<Rightarrow> files \<Rightarrow> spd_error + (rot_sink \<times> files)" where
  "open_rotating base max_size max_files rotate_on_open m =
     (if max_size = 0 then Inl ZeroMaxSize
      else if max_rotating_files < max_files then Inl TooManyFiles
      else
        let m = fh_open m (calc_filename base 0) False;
            s = \<lparr>r_base = base, r_max_size = max_size, r_max_files = max_files,
                 r_current_size = length (content m base)\<rparr>
        in if rotate_on_open \<and> 0 < r_current_size s
           then Inr (s\<lparr>r_current_size := 0\<rparr>, r_rotate s m)
           else Inr (s, m))"

definition r_sink_it :: "string \<Rightarrow> rot_sink \<times> files \<Rightarrow> rot_sink \<times> files" where
  "r_sink_it buf sm = (case sm of (s, m) \<Rightarrow>
     let new_size = r_current_size s + length buf;
         (new_size, m) =
           (if r_max_size s < new_size \<and> 0 < length (content m (r_base s))
            then (length buf, r_rotate s m) else (new_size, m))
     in (s\<lparr>r_current_size := new_size\<rparr>, fh_write m (r_base s) buf))"

text \<open>\<open>rotate_now\<close> leaves the size as it was; the setters.\<close>

definition r_rotate_now :: "rot_sink \<times> files \<Rightarrow> rot_sink \<times> files" where
  "r_rotate_now sm = (case sm of (s, m) \<Rightarrow> (s, r_rotate s m))"

definition r_set_max_size :: "nat \<Rightarrow> rot_sink \<Rightarrow> spd_error + rot_sink" where
  "r_set_max_size n s = (if n = 0 then Inl ZeroMaxSize else Inr (s\<lparr>r_max_size := n\<rparr>))"

definition r_set_max_files :: "nat \<Rightarrow> rot_sink \<Rightarrow> spd_error + rot_sink" where
  "r_set_max_files n s = (if max_rotating_files < n then Inl TooManyFiles else Inr (s\<lparr>r_max_files := n\<rparr>))"

definition r_run :: "string list \<Rightarrow> rot_sink \<times> files \<Rightarrow> rot_sink \<times> files" where
  "r_run = fold r_sink_it"

text \<open>The text of the chain, oldest backup first.\<close>

definition slots_text :: "(nat \<Rightarrow> path) \<Rightarrow> nat \<Rightarrow> files \<Rightarrow> string" where
  "slots_text f n m = concat (rev (map (\<lambda>i. content m (f i)) [0..<Suc n]))"

lemma slots_text_at:
  assumes "i < n"
  shows "slots_text f n m = concat (rev (map (\<lambda>i. content m (f i)) [Suc (Suc i)..<Suc n]))
    @ content m (f (Suc i)) @ content m (f i) @ concat (rev (map (\<lambda>i. content m (f i)) [0..<i]))"
proof -
  have "[0..<Suc n] = [0..<i] @ [i, Suc i] @ [Suc (Suc i)..<Suc n]"
  proof -
    have "[0..<Suc n] = [0..<i] @ [i..<Suc n]" using assms using upt_add_eq_append [of 0 i "Suc n - i"] by simp
    moreover have "[i..<Suc n] = [i, Suc i] @ [Suc (Suc i)..<Suc n]"
      using assms by (simp add: upt_conv_Cons del: upt_Suc)
    ultimately show ?thesis by simp
  qed
  then show ?thesis by (simp add: slots_text_def del: upt_Suc)
qed

lemma content_shift_file:
  "src \<noteq> dst \<Longrightarrow> content (shift_file m src dst) p =
    (if fs_exists m src then if p = src then [] else if p = dst then content m src else content m p
     else content m p)"
  by (simp add: content_def shift_file_at)

lemma r_shift_Suc: "r_shift f (Suc i) m = r_shift f i (shift_file m (f i) (f (Suc i)))"
  by (simp add: shift_file_def)

declare r_shift.simps(2) [simp del]

lemma content_absent: "\<not> fs_exists m p \<Longrightarrow> content m p = []"
  by (simp add: content_def fs_exists_def)

text \<open>Moving a file into an empty slot leaves the text as it is; into slot \<open>n\<close>, it drops
  what was there.\<close>

lemma shift_text:
  assumes inj: "inj f" and i: "i < n"
  shows "content m (f (Suc i)) = [] \<Longrightarrow> slots_text f n (shift_file m (f i) (f (Suc i))) = slots_text f n m"
    and "n = Suc i \<Longrightarrow> suffix (slots_text f n (shift_file m (f i) (f (Suc i)))) (slots_text f n m)"
proof -
  let ?m = "shift_file m (f i) (f (Suc i))"
  have ne: "f i \<noteq> f (Suc i)" using inj by (simp add: inj_eq)
  have same: "map (\<lambda>j. content ?m (f j)) xs = map (\<lambda>j. content m (f j)) xs"
    if "i \<notin> set xs" "Suc i \<notin> set xs" for xs
    using that inj by (auto simp: content_shift_file [OF ne] inj_eq)
  have two: "content ?m (f (Suc i)) @ content ?m (f i) =
      (if fs_exists m (f i) then content m (f i) else content m (f (Suc i)) @ content m (f i))"
    using ne by (simp add: content_shift_file [OF ne])
  have e: "slots_text f n ?m = concat (rev (map (\<lambda>i. content m (f i)) [Suc (Suc i)..<Suc n]))
      @ (if fs_exists m (f i) then content m (f i) else content m (f (Suc i)) @ content m (f i))
      @ concat (rev (map (\<lambda>i. content m (f i)) [0..<i]))"
    unfolding slots_text_at [OF i] two [symmetric] by (simp add: same del: upt_Suc)
  show "slots_text f n ?m = slots_text f n m" if "content m (f (Suc i)) = []"
    using that by (simp add: e slots_text_at [OF i, of f m] del: upt_Suc)
  show "suffix (slots_text f n ?m) (slots_text f n m)" if "n = Suc i"
    unfolding suffix_def using that e slots_text_at [OF i, of f m]
    by (cases "fs_exists m (f i)") (auto simp del: upt_Suc)
qed

lemma r_shift_text_empty:
  assumes "inj f"
  shows "i \<le> n \<Longrightarrow> content m (f i) = [] \<Longrightarrow> slots_text f n (r_shift f i m) = slots_text f n m"
proof (induction i arbitrary: m)
  case (Suc i)
  let ?m = "shift_file m (f i) (f (Suc i))"
  have "content ?m (f i) = []"
    using content_shift_file [of "f i" "f (Suc i)" m] assms content_absent [of m "f i"] by (auto simp: inj_eq)
  then have "slots_text f n (r_shift f i ?m) = slots_text f n ?m" using Suc by simp
  also have "\<dots> = slots_text f n m" using Suc.prems by (intro shift_text(1) assms) simp_all
  finally show ?case by (simp add: r_shift_Suc)
qed simp

lemma r_shift_text:
  assumes "inj f"
  shows "suffix (slots_text f n (r_shift f n m)) (slots_text f n m)"
proof (cases n)
  case (Suc i)
  let ?m = "shift_file m (f i) (f (Suc i))"
  have "content ?m (f i) = []"
    using content_shift_file [of "f i" "f (Suc i)" m] assms content_absent [of m "f i"] by (auto simp: inj_eq)
  then have "slots_text f n (r_shift f n m) = slots_text f n ?m"
    using r_shift_text_empty [OF assms, of i n ?m] Suc by (simp add: r_shift_Suc)
  then show ?thesis using shift_text(2) [OF assms, of i n m] Suc by simp
qed simp

lemma r_shift_other: "(\<And>i. i \<le> n \<Longrightarrow> p \<noteq> f i) \<Longrightarrow> inj f \<Longrightarrow> r_shift f n m p = m p"
proof (induction n arbitrary: m)
  case (Suc n)
  have "shift_file m (f n) (f (Suc n)) p = m p"
    using Suc.prems by (subst shift_file_at) (auto simp: inj_eq)
  then show ?case using Suc by (simp add: r_shift_Suc)
qed simp

text \<open>The current file has moved away, and every file is one of the old ones.\<close>

lemma r_shift_first:
  assumes "inj f"
  shows "0 < n \<Longrightarrow> \<not> fs_exists (r_shift f n m) (f 0)"
proof (induction n arbitrary: m)
  case (Suc n)
  show ?case
  proof (cases n)
    case 0
    have "f 0 \<noteq> f (Suc 0)" using assms by (simp add: inj_eq)
    then show ?thesis by (auto simp: 0 r_shift_Suc shift_file_at fs_exists_def)
  next
    case (Suc k)
    then show ?thesis using Suc.IH by (simp add: r_shift_Suc)
  qed
qed simp

lemma r_shift_content:
  assumes "inj f" and "\<And>i. i \<le> n \<Longrightarrow> length (content m (f i)) \<le> b" and "i \<le> n"
  shows "length (content (r_shift f n m) (f i)) \<le> b"
proof -
  have "length (content (r_shift f k m) (f i)) \<le> b"
    if "\<And>i. i \<le> n \<Longrightarrow> length (content m (f i)) \<le> b" "k \<le> n" for k m
    using that
  proof (induction k arbitrary: m)
    case 0
    then show ?case using assms(3) by simp
  next
    case (Suc k)
    have "length (content (shift_file m (f k) (f (Suc k))) (f j)) \<le> b" if "j \<le> n" for j
      using Suc.prems that assms(1) content_shift_file [of "f k" "f (Suc k)" m "f j"] by (auto simp: inj_eq)
    then show ?case using Suc by (simp add: r_shift_Suc)
  qed
  then show ?thesis using assms(2) by blast
qed

section \<open>Runs of the rotating sink\<close>

definition r_ok :: "rot_sink \<Rightarrow> files \<Rightarrow> bool" where
  "r_ok s m \<longleftrightarrow> fs_exists m (r_base s) \<and> r_current_size s = length (content m (r_base s))"

abbreviation r_text :: "rot_sink \<Rightarrow> files \<Rightarrow> string" where
  "r_text s m \<equiv> slots_text (calc_filename (r_base s)) (r_max_files s) m"

lemma calc_filename_0 [simp]: "calc_filename f 0 = f" "calc_filename f (Suc i) \<noteq> f" "f \<noteq> calc_filename f (Suc i)"
proof -
  show 0: "calc_filename f 0 = f" by (simp add: calc_filename_def)
  have "calc_filename f (Suc i) \<noteq> calc_filename f 0" by simp
  then show "calc_filename f (Suc i) \<noteq> f" "f \<noteq> calc_filename f (Suc i)" using 0 by simp_all
qed

lemma slots_text_base: "slots_text (calc_filename p) n m =
    concat (rev (map (\<lambda>i. content m (calc_filename p i)) [1..<Suc n])) @ content m p"
  by (simp add: slots_text_def upt_conv_Cons del: upt_Suc)

lemma slots_text_upd:
  assumes "\<And>q. q \<noteq> p \<Longrightarrow> content m' q = content m q" and "content m' p = t"
  shows "slots_text (calc_filename p) n m' =
    concat (rev (map (\<lambda>i. content m (calc_filename p i)) [1..<Suc n])) @ t"
proof -
  have "map (\<lambda>i. content m' (calc_filename p i)) [1..<Suc n] = map (\<lambda>i. content m (calc_filename p i)) [1..<Suc n]"
  proof (rule map_cong [OF refl])
    fix i assume "i \<in> set [1..<Suc n]"
    then have "0 < i" unfolding set_upt by simp
    then obtain j where "i = Suc j" by (cases i) simp_all
    then show "content m' (calc_filename p i) = content m (calc_filename p i)" by (simp add: assms(1))
  qed
  then show ?thesis unfolding slots_text_base assms(2) by (rule arg_cong)
qed

lemma r_rotate_facts:
  assumes "inj (calc_filename (r_base s))"
  shows "fs_exists (r_rotate s m) (r_base s)" "content (r_rotate s m) (r_base s) = []"
    "suffix (r_text s (r_rotate s m)) (r_text s m)"
    "(\<And>i. i \<le> r_max_files s \<Longrightarrow> p \<noteq> calc_filename (r_base s) i) \<Longrightarrow> r_rotate s m p = m p"
    "(\<And>i. i \<le> r_max_files s \<Longrightarrow> length (content m (calc_filename (r_base s) i)) \<le> b) \<Longrightarrow>
       i \<le> r_max_files s \<Longrightarrow> length (content (r_rotate s m) (calc_filename (r_base s) i)) \<le> b"
proof -
  let ?f = "calc_filename (r_base s)" and ?n = "r_max_files s"
  let ?m = "r_shift ?f ?n m"
  show "fs_exists (r_rotate s m) (r_base s)" "content (r_rotate s m) (r_base s) = []"
    by (simp_all add: r_rotate_def)
  have "slots_text ?f ?n (r_rotate s m) = concat (rev (map (\<lambda>i. content ?m (?f i)) [1..<Suc ?n])) @ []"
    by (rule slots_text_upd) (simp_all add: r_rotate_def)
  moreover have "suffix (concat (rev (map (\<lambda>i. content ?m (?f i)) [1..<Suc ?n])) @ []) (slots_text ?f ?n m)"
  proof (cases "?n = 0")
    case False
    then have "content ?m (r_base s) = []"
      using r_shift_first [OF assms, of ?n m] content_absent by simp
    then have "slots_text ?f ?n ?m = concat (rev (map (\<lambda>i. content ?m (?f i)) [1..<Suc ?n])) @ []"
      by (simp add: slots_text_base del: upt_Suc)
    then show ?thesis using r_shift_text [OF assms, of ?n m] by simp
  qed simp
  ultimately show "suffix (r_text s (r_rotate s m)) (r_text s m)" by simp
  show "r_rotate s m p = m p" if "\<And>i. i \<le> ?n \<Longrightarrow> p \<noteq> ?f i"
  proof -
    have "p \<noteq> r_base s" using that [of 0] by simp
    then show ?thesis using r_shift_other [OF that assms] by (simp add: r_rotate_def)
  qed
  show "length (content (r_rotate s m) (?f i)) \<le> b"
    if "\<And>i. i \<le> ?n \<Longrightarrow> length (content m (?f i)) \<le> b" "i \<le> ?n"
    using r_shift_content [OF assms that] by (simp add: r_rotate_def)
qed


text \<open>With a backup to keep, the current file becomes backup 1.\<close>

lemma r_shift_second:
  assumes "inj f"
  shows "0 < n \<Longrightarrow> fs_exists m (f 0) \<Longrightarrow> content (r_shift f n m) (f (Suc 0)) = content m (f 0)"
proof (induction n arbitrary: m)
  case (Suc n)
  show ?case
  proof (cases n)
    case 0
    have "f 0 \<noteq> f (Suc 0)" using assms by (simp add: inj_eq)
    then show ?thesis using Suc.prems by (simp add: 0 r_shift_Suc content_shift_file)
  next
    case (Suc k)
    have ne: "f n \<noteq> f (Suc n)" using assms by (simp add: inj_eq)
    have "f 0 \<noteq> f n" "f 0 \<noteq> f (Suc n)" using assms Suc by (auto simp: inj_eq)
    then have "shift_file m (f n) (f (Suc n)) (f 0) = m (f 0)" by (simp add: shift_file_at [OF ne])
    then show ?thesis
      using Suc.IH [of "shift_file m (f n) (f (Suc n))"] Suc Suc.prems
      by (simp add: r_shift_Suc fs_exists_def content_def)
  qed
qed simp

lemma r_rotate_second:
  assumes "0 < r_max_files s" and "fs_exists m (r_base s)"
  shows "content (r_rotate s m) (calc_filename (r_base s) 1) = content m (r_base s)"
  using r_shift_second [OF inj_calc_filename assms(1), of m "r_base s"] assms(2)
  by (simp add: r_rotate_def)

lemma slots_text_append: "slots_text (calc_filename p) n (fs_append m p t) = slots_text (calc_filename p) n m @ t"
proof -
  have "slots_text (calc_filename p) n (fs_append m p t)
      = concat (rev (map (\<lambda>i. content m (calc_filename p i)) [1..<Suc n])) @ (content m p @ t)"
    by (rule slots_text_upd) simp_all
  then show ?thesis unfolding slots_text_base by simp
qed

lemma slots_text_recent:
  "0 < n \<Longrightarrow> length (content m (calc_filename p 1)) + length (content m p) \<le> length (slots_text (calc_filename p) n m)"
  using slots_text_at [of 0 n "calc_filename p" m] by (simp del: upt_Suc)

text \<open>One write, in a sink that knows the size of its file.\<close>

lemma r_sink_it_cases:
  assumes "r_ok s m" and "r_sink_it buf (s, m) = (s', m')"
  obtains (room) "r_current_size s + length buf \<le> r_max_size s \<or> content m (r_base s) = []"
      "m' = fs_append m (r_base s) buf" "s' = s\<lparr>r_current_size := r_current_size s + length buf\<rparr>"
  | (rotated) "r_max_size s < length (content m (r_base s)) + length buf"
      "m' = fs_append (r_rotate s m) (r_base s) buf" "s' = s\<lparr>r_current_size := length buf\<rparr>"
  using assms r_rotate_facts(1) [OF inj_calc_filename, of s m]
  by (auto simp: r_sink_it_def r_ok_def Let_def not_less split: if_splits)

lemma r_sink_it_step:
  assumes ok: "r_ok s m" and st: "r_sink_it buf (s, m) = (s', m')"
  shows "r_ok s' m' \<and> r_base s' = r_base s \<and> r_max_size s' = r_max_size s \<and> r_max_files s' = r_max_files s
    \<and> suffix (r_text s' m') (r_text s m @ buf) \<and> suffix buf (content m' (r_base s))
    \<and> (\<forall>p. (\<forall>i \<le> r_max_files s. p \<noteq> calc_filename (r_base s) i) \<longrightarrow> m' p = m p)"
  using ok st
proof (cases rule: r_sink_it_cases)
  case room
  have "p \<noteq> r_base s" if "\<forall>i \<le> r_max_files s. p \<noteq> calc_filename (r_base s) i" for p
    using that [rule_format, of 0] by simp
  then show ?thesis
    using room ok by (simp add: r_ok_def slots_text_append suffix_def)
next
  case rotated
  note f = r_rotate_facts [OF inj_calc_filename, of s]
  have "p \<noteq> r_base s \<and> r_rotate s m p = m p" if "\<forall>i \<le> r_max_files s. p \<noteq> calc_filename (r_base s) i" for p
    using that [rule_format, of 0] f(4) [of p m] that by simp
  moreover have "suffix (r_text s (r_rotate s m) @ buf) (r_text s m @ buf)"
    using f(3) [of m] by (auto simp: suffix_def)
  ultimately show ?thesis
    using rotated f(1,2) [of m] by (simp add: r_ok_def slots_text_append suffix_def)
qed

text \<open>No file outgrows the larger of \<open>max_size_\<close> and the longest message.\<close>

lemma r_sink_it_bound:
  assumes "r_ok s m" and "r_sink_it buf (s, m) = (s', m')"
    and b: "\<forall>i \<le> r_max_files s. length (content m (calc_filename (r_base s) i)) \<le> b"
    and "r_max_size s \<le> b" "length buf \<le> b" and i: "i \<le> r_max_files s"
  shows "length (content m' (calc_filename (r_base s) i)) \<le> b"
  using assms(1,2)
proof (cases rule: r_sink_it_cases)
  case room
  have "length (content m (r_base s) @ buf) \<le> b"
    using room(1) assms(1,4,5) by (auto simp: r_ok_def)
  then show ?thesis using room(2) b i by (cases i) simp_all
next
  case rotated
  have "length (content (r_rotate s m) (calc_filename (r_base s) i)) \<le> b"
    using r_rotate_facts(5) [OF inj_calc_filename, of s m b i] b i by simp
  then show ?thesis
    using rotated(2) assms(5) r_rotate_facts(2) [OF inj_calc_filename, of s m] by (cases i) simp_all
qed

text \<open>A sink with a backup keeps everything, or more than \<open>max_size_\<close> characters.\<close>

definition r_kept :: "rot_sink \<Rightarrow> files \<Rightarrow> string \<Rightarrow> bool" where
  "r_kept s m t \<longleftrightarrow> r_text s m = t
     \<or> r_max_size s < length (content m (calc_filename (r_base s) 1)) + length (content m (r_base s))"

lemma r_sink_it_kept:
  assumes "r_ok s m" and "r_sink_it buf (s, m) = (s', m')" and "0 < r_max_files s" and "r_kept s m t"
  shows "r_kept s' m' (t @ buf)"
  using assms(1,2)
proof (cases rule: r_sink_it_cases)
  case room
  then show ?thesis using assms(4) by (auto simp: r_kept_def slots_text_append)
next
  case rotated
  then show ?thesis
    using r_rotate_second [OF assms(3), of m] r_rotate_facts(2) [OF inj_calc_filename, of s m] assms(1)
    by (simp add: r_kept_def r_ok_def)
qed

text \<open>Runs.\<close>

lemma suffix_append_mono: "suffix a (b @ c) \<Longrightarrow> suffix b d \<Longrightarrow> suffix a (d @ c)"
  by (rule suffix_order.trans [of _ "b @ c"]) (auto simp: suffix_def)

lemma r_run_step:
  assumes "r_ok s m" and "r_run bufs (s, m) = (s', m')"
  shows "r_ok s' m' \<and> r_base s' = r_base s \<and> r_max_size s' = r_max_size s \<and> r_max_files s' = r_max_files s
    \<and> suffix (r_text s' m') (r_text s m @ concat bufs)
    \<and> (bufs \<noteq> [] \<longrightarrow> suffix (last bufs) (content m' (r_base s)))
    \<and> (\<forall>p. (\<forall>i \<le> r_max_files s. p \<noteq> calc_filename (r_base s) i) \<longrightarrow> m' p = m p)"
  using assms
proof (induction bufs arbitrary: s m)
  case (Cons buf bufs)
  obtain s1 m1 where st: "r_sink_it buf (s, m) = (s1, m1)" by fastforce
  note one = r_sink_it_step [OF Cons.prems(1) st]
  have "r_run bufs (s1, m1) = (s', m')" using Cons.prems(2) st by (simp add: r_run_def)
  have same: "r_base s1 = r_base s" "r_max_size s1 = r_max_size s" "r_max_files s1 = r_max_files s"
    using one by blast+
  note rest = Cons.IH [OF conjunct1 [OF one] \<open>r_run bufs (s1, m1) = (s', m')\<close>, unfolded same]
  have all: "suffix (r_text s' m') (r_text s m1 @ concat bufs)"
    and lst: "bufs \<noteq> [] \<Longrightarrow> suffix (last bufs) (content m' (r_base s))"
    using rest by blast+
  have mid: "suffix (r_text s m1) (r_text s m @ buf)" "suffix buf (content m1 (r_base s))"
    using one unfolding same by blast+
  have "suffix (r_text s' m') ((r_text s m @ buf) @ concat bufs)"
    by (rule suffix_append_mono [OF all mid(1)])
  moreover have "suffix (last (buf # bufs)) (content m' (r_base s))"
  proof (cases bufs)
    case Nil
    with \<open>r_run bufs (s1, m1) = (s', m')\<close> have "m' = m1" by (simp add: r_run_def)
    with mid(2) show ?thesis by (simp add: Nil)
  qed (use lst in simp)
  moreover have "\<forall>p. (\<forall>i \<le> r_max_files s. p \<noteq> calc_filename (r_base s) i) \<longrightarrow> m' p = m p"
    using rest one by metis
  ultimately show ?case using rest by (simp only: list.distinct concat.simps append_assoc) blast
qed (simp add: r_run_def)

lemma r_run_bound:
  assumes "r_ok s m" and "r_run bufs (s, m) = (s', m')"
    and "\<forall>i \<le> r_max_files s. length (content m (calc_filename (r_base s) i)) \<le> b"
    and "r_max_size s \<le> b" and "\<forall>buf \<in> set bufs. length buf \<le> b" and "i \<le> r_max_files s"
  shows "length (content m' (calc_filename (r_base s) i)) \<le> b"
  using assms
proof (induction bufs arbitrary: s m)
  case (Cons buf bufs)
  obtain s1 m1 where st: "r_sink_it buf (s, m) = (s1, m1)" by fastforce
  note one = r_sink_it_step [OF Cons.prems(1) st]
  have "\<forall>i \<le> r_max_files s. length (content m1 (calc_filename (r_base s) i)) \<le> b"
    using r_sink_it_bound [OF Cons.prems(1) st Cons.prems(3,4)] Cons.prems(5) by simp
  then show ?case
    using Cons.IH [of s1 m1] one Cons.prems st by (simp add: r_run_def)
qed (simp add: r_run_def)

lemma r_run_kept:
  assumes "r_ok s m" and "r_run bufs (s, m) = (s', m')" and "0 < r_max_files s" and "r_kept s m t"
  shows "r_kept s' m' (t @ concat bufs)"
  using assms
proof (induction bufs arbitrary: s m t)
  case (Cons buf bufs)
  obtain s1 m1 where st: "r_sink_it buf (s, m) = (s1, m1)" by fastforce
  note one = r_sink_it_step [OF Cons.prems(1) st]
  show ?case
    using Cons.IH [of s1 m1 "t @ buf"] one Cons.prems st r_sink_it_kept [OF Cons.prems(1) st Cons.prems(3,4)]
    by (simp add: r_run_def)
qed (simp add: r_run_def)

section \<open>The sink from its construction on\<close>

lemma open_rotating_ok:
  assumes "open_rotating base max_size max_files rotate_on_open m = Inr (s, m0)"
  shows "r_base s = base" "r_max_size s = max_size" "r_max_files s = max_files" "r_ok s m0"
    "suffix (r_text s m0) (r_text s m)" "\<not> rotate_on_open \<Longrightarrow> r_text s m0 = r_text s m"
    "\<forall>p. (\<forall>i \<le> max_files. p \<noteq> calc_filename base i) \<longrightarrow> m0 p = m p"
    "(\<forall>i \<le> max_files. length (content m (calc_filename base i)) \<le> b) \<Longrightarrow>
       \<forall>i \<le> max_files. length (content m0 (calc_filename base i)) \<le> b"
proof -
  let ?m = "fh_open m base False"
  let ?s = "\<lparr>r_base = base, r_max_size = max_size, r_max_files = max_files, r_current_size = length (content m base)\<rparr>"
  consider (kept) "s = ?s" "m0 = ?m" | (rotated) "rotate_on_open" "s = ?s\<lparr>r_current_size := 0\<rparr>" "m0 = r_rotate ?s ?m"
    using assms by (auto simp: open_rotating_def Let_def split: if_splits)
  note cs = this
  have same: "slots_text f n ?m = slots_text f n m" for f n
    by (simp add: slots_text_def del: upt_Suc)
  have oth: "?m p = m p" if "\<forall>i \<le> max_files. p \<noteq> calc_filename base i" for p
    using that [rule_format, of 0] by simp
  note f = r_rotate_facts [OF inj_calc_filename, of ?s]
  show "r_base s = base" "r_max_size s = max_size" "r_max_files s = max_files"
    using cs by (cases, simp_all)+
  show "r_ok s m0" "suffix (r_text s m0) (r_text s m)" "\<not> rotate_on_open \<Longrightarrow> r_text s m0 = r_text s m"
    using cs f(1-3) [of ?m] by (cases; simp add: r_ok_def same)+
  show "\<forall>p. (\<forall>i \<le> max_files. p \<noteq> calc_filename base i) \<longrightarrow> m0 p = m p"
    using cs f(4) [of _ ?m] oth by cases simp_all
  show "\<forall>i \<le> max_files. length (content m0 (calc_filename base i)) \<le> b"
    if "\<forall>i \<le> max_files. length (content m (calc_filename base i)) \<le> b"
    using cs f(5) [of ?m b] that by cases simp_all
qed

text \<open>After \<open>rotate_now\<close> the size still counts the file that was moved away, so a second
  message rotates again although both fit.\<close>

lemma rotate_now_rotates_early:
  assumes "r_ok s m" and "a \<noteq> []" and "length a + length b \<le> r_max_size s"
    and "r_max_size s < r_current_size s + length a + length b"
  shows "content (snd (r_run [a, b] (r_rotate_now (s, m)))) (r_base s) = b"
    and "0 < r_max_files s \<Longrightarrow>
      content (snd (r_run [a, b] (r_rotate_now (s, m)))) (calc_filename (r_base s) 1) = a"
proof -
  note f = r_rotate_facts [OF inj_calc_filename]
  let ?s = "s\<lparr>r_current_size := r_current_size s + length a\<rparr>"
  let ?m = "fs_append (r_rotate s m) (r_base s) a"
  have one: "r_sink_it a (s, r_rotate s m) = (?s, ?m)"
    using f(1,2) [of s m] by (simp add: r_sink_it_def)
  have two: "r_sink_it b (?s, ?m) = (?s\<lparr>r_current_size := length b\<rparr>, fs_append (r_rotate ?s ?m) (r_base s) b)"
    using assms f(1,2) [of ?s ?m] f(1,2) [of s m] by (simp add: r_sink_it_def)
  have run: "snd (r_run [a, b] (r_rotate_now (s, m))) = fs_append (r_rotate ?s ?m) (r_base s) b"
    by (simp add: r_run_def r_rotate_now_def one two)
  show "content (snd (r_run [a, b] (r_rotate_now (s, m)))) (r_base s) = b"
    unfolding run using f(2) [of ?s ?m] by simp
  show "content (snd (r_run [a, b] (r_rotate_now (s, m)))) (calc_filename (r_base s) 1) = a"
    if "0 < r_max_files s"
    unfolding run using r_rotate_second [of ?s ?m] that f(1,2) [of s m] by simp
qed

text \<open>C8. What a rotating sink of spdlog leaves in its files, from its construction through any
  run: the files, oldest first, hold the end of what they held followed by the messages; the
  last message ends the current file; unless it rotated on opening, a sink with a backup holds
  everything or more than \<open>max_size\<close> characters; no file outgrows the largest of \<open>max_size\<close>, a
  message and the files found; and no other file is touched.\<close>

theorem rotating_sink_files:
  assumes "open_rotating base max_size max_files rotate_on_open m = Inr (s, m0)"
    and "r_run bufs (s, m0) = (s', m')"
    and "max_size \<le> b" and "\<forall>buf \<in> set bufs. length buf \<le> b"
    and "\<forall>i \<le> max_files. length (content m (calc_filename base i)) \<le> b"
  shows "suffix (slots_text (calc_filename base) max_files m')
           (slots_text (calc_filename base) max_files m @ concat bufs)
    \<and> (bufs \<noteq> [] \<longrightarrow> suffix (last bufs) (content m' base))
    \<and> (\<not> rotate_on_open \<and> 0 < max_files \<longrightarrow>
         slots_text (calc_filename base) max_files m' = slots_text (calc_filename base) max_files m @ concat bufs
         \<or> max_size < length (slots_text (calc_filename base) max_files m'))
    \<and> (\<forall>i \<le> max_files. length (content m' (calc_filename base i)) \<le> b)
    \<and> (\<forall>p. (\<forall>i \<le> max_files. p \<noteq> calc_filename base i) \<longrightarrow> m' p = m p)"
proof (intro conjI)
  note o = open_rotating_ok [OF assms(1)]
  note run = r_run_step [OF o(4) assms(2), unfolded o(1-3)]
  have same: "r_base s' = base" "r_max_size s' = max_size" "r_max_files s' = max_files"
    using run by blast+
  have part: "suffix (slots_text (calc_filename base) max_files m')
      (slots_text (calc_filename base) max_files m0 @ concat bufs)"
    using run unfolding same by blast
  show "suffix (slots_text (calc_filename base) max_files m')
      (slots_text (calc_filename base) max_files m @ concat bufs)"
    by (rule suffix_append_mono [OF part o(5) [unfolded o(1,3)]])
  show "bufs \<noteq> [] \<longrightarrow> suffix (last bufs) (content m' base)" using run by blast
  show "\<forall>p. (\<forall>i \<le> max_files. p \<noteq> calc_filename base i) \<longrightarrow> m' p = m p"
    using run o(7) by metis
  show "\<forall>i \<le> max_files. length (content m' (calc_filename base i)) \<le> b"
    using r_run_bound [OF o(4) assms(2), unfolded o(1-3)] o(8) [of b] assms(3-5) by blast
  show "\<not> rotate_on_open \<and> 0 < max_files \<longrightarrow>
      slots_text (calc_filename base) max_files m' = slots_text (calc_filename base) max_files m @ concat bufs
      \<or> max_size < length (slots_text (calc_filename base) max_files m')"
  proof (intro impI)
    assume a: "\<not> rotate_on_open \<and> 0 < max_files"
    have "r_kept s m0 (slots_text (calc_filename base) max_files m)"
      using o(6) a by (simp add: r_kept_def o(1-3))
    then have "r_kept s' m' (slots_text (calc_filename base) max_files m @ concat bufs)"
      using r_run_kept [OF o(4) assms(2)] a by (simp add: o(3))
    then show "slots_text (calc_filename base) max_files m' = slots_text (calc_filename base) max_files m @ concat bufs
        \<or> max_size < length (slots_text (calc_filename base) max_files m')"
      using slots_text_recent [of max_files m' base] a by (auto simp: r_kept_def same)
  qed
qed

lemma rotating_sink_files_witness:
  "\<exists>s m0 s' m'. open_rotating ''l.txt'' 3 1 False Map.empty = Inr (s, m0)
     \<and> r_run [''ab'', ''cd'', ''ef''] (s, m0) = (s', m')
     \<and> suffix (slots_text (calc_filename ''l.txt'') 1 m') ''abcdef''
     \<and> suffix ''ef'' (content m' ''l.txt'')
     \<and> 3 < length (slots_text (calc_filename ''l.txt'') 1 m')
     \<and> calc_filename ''l.txt'' 1 = ''l.1.txt''"
proof -
  obtain s m0 where o: "open_rotating ''l.txt'' 3 1 False Map.empty = Inr (s, m0)"
    by (simp add: open_rotating_def max_rotating_files_def)
  obtain s' m' where r: "r_run [''ab'', ''cd'', ''ef''] (s, m0) = (s', m')" by fastforce
  have e: "slots_text (calc_filename ''l.txt'') (Suc 0) (\<lambda>x. None) = []"
    by (simp add: slots_text_def content_def del: upt_Suc)
  have "calc_filename ''l.txt'' 1 = ''l.1.txt''" by code_simp
  then show ?thesis
    using o r rotating_sink_files [OF o r, of 3] by (auto simp: e content_def)
qed

end
