(* ===== verification/SpdDaily.thy ===== *)
theory SpdDaily
  imports SpdRotating IndexedSink
begin

text \<open>
  The daily sink of spdlog, \<open>sinks/daily_file_sink.h\<close>, and the ring buffer
  \<open>details/circular_q.h\<close> in which it keeps the names of its last files.  The clock is read
  where the code reads it: the constructor reads it for the name, for the next rotation and
  for the search of older files, a write once when it rotates.  The sink relies on the ring
  only through the locale \<open>ring\<close>.
\<close>

section \<open>A bounded queue\<close>

text \<open>The contract: \<open>qs\<close> lists the elements, at most \<open>cap\<close> of them, and pushing onto a full
  queue drops the oldest.\<close>

definition push_last :: "nat \<Rightarrow> 'a \<Rightarrow> 'a list \<Rightarrow> 'a list" where
  "push_last cap x xs = (if length xs < cap then xs @ [x] else tl (xs @ [x]))"

locale ring =
  fixes ok :: "nat \<Rightarrow> 'q \<Rightarrow> bool" and qs :: "'q \<Rightarrow> 'a list"
    and push :: "'a \<Rightarrow> 'q \<Rightarrow> 'q" and pop :: "'q \<Rightarrow> 'q" and front :: "'q \<Rightarrow> 'a" and full :: "'q \<Rightarrow> bool"
  assumes qs_bound: "ok cap q \<Longrightarrow> length (qs q) \<le> cap"
    and ok_push: "ok cap q \<Longrightarrow> ok cap (push x q)"
    and qs_push: "ok cap q \<Longrightarrow> qs (push x q) = push_last cap x (qs q)"
    and ok_pop: "ok cap q \<Longrightarrow> qs q \<noteq> [] \<Longrightarrow> ok cap (pop q)"
    and qs_pop: "ok cap q \<Longrightarrow> qs q \<noteq> [] \<Longrightarrow> qs (pop q) = tl (qs q)"
    and qs_front: "ok cap q \<Longrightarrow> qs q \<noteq> [] \<Longrightarrow> front q = hd (qs q)"
    and full_iff: "ok cap q \<Longrightarrow> full q \<longleftrightarrow> length (qs q) = cap"
begin

text \<open>What a client keeps: the last \<open>cap\<close> elements pushed.\<close>

lemma ok_pushes: "ok cap q \<Longrightarrow> ok cap (fold push xs q)"
  by (induction xs arbitrary: q) (simp_all add: ok_push)

lemma qs_pushes:
  "ok cap q \<Longrightarrow> qs (fold push xs q) = drop (length (qs q) + length xs - cap) (qs q @ xs)"
proof (induction xs arbitrary: q)
  case Nil
  then show ?case using qs_bound by simp
next
  case (Cons x xs)
  note b = qs_bound [OF Cons.prems]
  have "qs (fold push (x # xs) q) = drop (length (push_last cap x (qs q)) + length xs - cap) (push_last cap x (qs q) @ xs)"
    using Cons ok_push by (simp add: qs_push)
  also have "\<dots> = drop (length (qs q) + length (x # xs) - cap) (qs q @ x # xs)"
  proof (cases "length (qs q) < cap")
    case False
    then have "length (qs q) = cap" using b by simp
    then show ?thesis by (cases "qs q") (auto simp: push_last_def)
  qed (simp add: push_last_def)
  finally show ?case .
qed

text \<open>The idiom of \<open>delete_old_\<close>: take the front off a full queue before pushing.\<close>

lemma qs_make_room:
  assumes "ok cap q" and "0 < cap"
  shows "qs (push x (if full q then pop q else q)) = push_last cap x (qs q)"
    "ok cap (push x (if full q then pop q else q))"
    "full q \<Longrightarrow> front q = hd (qs q)"
proof -
  have ne: "qs q \<noteq> []" if "full q" using that full_iff [OF assms(1)] assms(2) by auto
  show "ok cap (push x (if full q then pop q else q))"
    using assms(1) ok_push ok_pop ne by simp
  show "full q \<Longrightarrow> front q = hd (qs q)" using qs_front [OF assms(1)] ne by simp
  show "qs (push x (if full q then pop q else q)) = push_last cap x (qs q)"
    using assms ne full_iff [OF assms(1)] qs_push [OF ok_pop [OF assms(1)]] qs_pop [OF assms(1)]
      qs_push [OF assms(1)]
    by (cases "full q") (auto simp: push_last_def neq_Nil_conv)
qed

end

section \<open>\<open>circular_q\<close>\<close>

record 'a circ_q =
  q_max_items :: nat
  q_head :: nat
  q_tail :: nat
  q_overrun :: nat
  q_v :: "'a list"

definition circ_disabled :: "'a circ_q" where
  "circ_disabled = \<lparr>q_max_items = 0, q_head = 0, q_tail = 0, q_overrun = 0, q_v = []\<rparr>"

text \<open>\<open>d\<close> is the value of a default-constructed element.\<close>

definition circ_new :: "'a \<Rightarrow> nat \<Rightarrow> 'a circ_q" where
  "circ_new d max_items = \<lparr>q_max_items = max_items + 1, q_head = 0, q_tail = 0, q_overrun = 0,
     q_v = replicate (max_items + 1) d\<rparr>"

definition circ_push_back :: "'a \<Rightarrow> 'a circ_q \<Rightarrow> 'a circ_q" where
  "circ_push_back x q =
     (if 0 < q_max_items q
      then let q = q\<lparr>q_v := (q_v q)[q_tail q := x], q_tail := (q_tail q + 1) mod q_max_items q\<rparr>
           in if q_tail q = q_head q
              then q\<lparr>q_head := (q_head q + 1) mod q_max_items q, q_overrun := q_overrun q + 1\<rparr>
              else q
      else q)"

definition circ_front :: "'a circ_q \<Rightarrow> 'a" where
  "circ_front q = q_v q ! q_head q"

definition circ_size :: "'a circ_q \<Rightarrow> nat" where
  "circ_size q = (if q_head q \<le> q_tail q then q_tail q - q_head q
     else q_max_items q - (q_head q - q_tail q))"

definition circ_at :: "'a circ_q \<Rightarrow> nat \<Rightarrow> 'a" where
  "circ_at q i = q_v q ! ((q_head q + i) mod q_max_items q)"

definition circ_pop_front :: "'a circ_q \<Rightarrow> 'a circ_q" where
  "circ_pop_front q = q\<lparr>q_head := (q_head q + 1) mod q_max_items q\<rparr>"

definition circ_empty :: "'a circ_q \<Rightarrow> bool" where
  "circ_empty q \<longleftrightarrow> q_tail q = q_head q"

definition circ_full :: "'a circ_q \<Rightarrow> bool" where
  "circ_full q \<longleftrightarrow> 0 < q_max_items q \<and> (q_tail q + 1) mod q_max_items q = q_head q"

text \<open>The elements, and when a queue is one.\<close>

definition circ_list :: "'a circ_q \<Rightarrow> 'a list" where
  "circ_list q = map (circ_at q) [0..<circ_size q]"

definition circ_ok :: "nat \<Rightarrow> 'a circ_q \<Rightarrow> bool" where
  "circ_ok cap q \<longleftrightarrow> q_max_items q = cap + 1 \<and> length (q_v q) = cap + 1 \<and> q_head q \<le> cap \<and> q_tail q \<le> cap"

lemma circ_new_ok [simp]: "circ_ok cap (circ_new d cap)" "circ_list (circ_new d cap) = []"
  by (simp_all add: circ_ok_def circ_new_def circ_list_def circ_size_def)

lemma circ_size_bound: "circ_ok cap q \<Longrightarrow> circ_size q \<le> cap"
  by (auto simp: circ_ok_def circ_size_def)

text \<open>The tail is the head plus the size, around the vector.\<close>

lemma circ_tail: "circ_ok cap q \<Longrightarrow> q_tail q = (q_head q + circ_size q) mod (cap + 1)"
proof -
  assume ok: "circ_ok cap q"
  show ?thesis
  proof (cases "q_head q \<le> q_tail q")
    case False
    then have "q_head q + circ_size q = q_tail q + (cap + 1)"
      using ok by (simp add: circ_size_def circ_ok_def)
    then show ?thesis using ok by (simp only: mod_add_self2) (simp add: circ_ok_def)
  qed (use ok in \<open>simp add: circ_size_def circ_ok_def\<close>)
qed

lemma circ_size_unique:
  assumes "q_max_items q = cap + 1" "q_head q \<le> cap" "k \<le> cap" "q_tail q = (q_head q + k) mod (cap + 1)"
  shows "circ_size q = k"
proof (cases "q_head q + k \<le> cap")
  case False
  then have "(q_head q + k) mod (cap + 1) = q_head q + k - (cap + 1)"
    using assms by (simp add: mod_if)
  then show ?thesis using assms False by (simp add: circ_size_def)
qed (use assms in \<open>simp add: circ_size_def\<close>)

lemma circ_full_size: "circ_ok cap q \<Longrightarrow> circ_full q \<longleftrightarrow> circ_size q = cap"
  by (auto simp: circ_full_def circ_ok_def circ_size_def mod_if)

lemma circ_empty_list: "circ_ok cap q \<Longrightarrow> circ_empty q \<longleftrightarrow> circ_list q = []"
  by (auto simp: circ_empty_def circ_ok_def circ_list_def circ_size_def)

lemma circ_at_list: "i < circ_size q \<Longrightarrow> circ_list q ! i = circ_at q i"
  by (simp add: circ_list_def)

lemma circ_pop:
  assumes ok: "circ_ok cap q" and ne: "circ_list q \<noteq> []"
  shows "circ_ok cap (circ_pop_front q)" "circ_list (circ_pop_front q) = tl (circ_list q)"
    "circ_front q = hd (circ_list q)"
proof -
  let ?q = "circ_pop_front q"
  obtain k where k: "circ_size q = Suc k" using ne by (cases "circ_size q") (simp_all add: circ_list_def)
  have h: "(q_head q + 1) mod (cap + 1) \<le> cap" by (simp add: less_Suc_eq_le [symmetric])
  then show "circ_ok cap ?q" using ok by (simp add: circ_ok_def circ_pop_front_def)
  have "q_tail ?q = (q_head ?q + k) mod (cap + 1)"
    using circ_tail [OF ok] ok k by (simp add: circ_pop_front_def circ_ok_def mod_simps)
  then have "circ_size ?q = k"
    using ok h circ_size_bound [OF ok] k by (intro circ_size_unique) (simp_all add: circ_ok_def circ_pop_front_def)
  moreover have "circ_at ?q i = circ_at q (Suc i)" for i
    using ok by (simp add: circ_at_def circ_pop_front_def mod_simps)
  ultimately show "circ_list ?q = tl (circ_list q)"
    by (simp add: circ_list_def k upt_conv_Cons map_Suc_upt [symmetric] comp_def del: upt_Suc)
  show "circ_front q = hd (circ_list q)"
    using ok by (simp add: circ_list_def k upt_conv_Cons circ_front_def circ_at_def circ_ok_def del: upt_Suc)
qed

text \<open>After the write the slots hold the elements and then \<open>x\<close>.\<close>

lemma circ_written:
  assumes ok: "circ_ok cap q" and i: "i \<le> cap"
  shows "(q_v q)[q_tail q := x] ! ((q_head q + i) mod (cap + 1)) = (if i = circ_size q then x else circ_at q i)"
proof -
  have "(q_head q + i) mod (cap + 1) = (q_head q + j) mod (cap + 1) \<longleftrightarrow> i = j" if "j \<le> cap" for j
    using ok i that by (auto simp: circ_ok_def mod_if)
  then have "(q_head q + i) mod (cap + 1) = q_tail q \<longleftrightarrow> i = circ_size q"
    using circ_tail [OF ok] circ_size_bound [OF ok] by simp
  moreover have "(q_head q + i) mod (cap + 1) < length (q_v q)" using ok by (simp add: circ_ok_def)
  ultimately show ?thesis using ok
    by (cases "i = circ_size q") (auto simp: circ_at_def circ_ok_def nth_list_update)
qed

lemma circ_push:
  assumes ok: "circ_ok cap q"
  shows "circ_ok cap (circ_push_back x q)"
    "circ_list (circ_push_back x q) = push_last cap x (circ_list q)"
    "q_overrun (circ_push_back x q) = q_overrun q + (if circ_size q = cap then 1 else 0)"
proof -
  let ?q = "circ_push_back x q"
  let ?n = "circ_size q" and ?t = "(q_tail q + 1) mod (cap + 1)" and ?h = "(q_head q + 1) mod (cap + 1)"
  let ?e = "\<lambda>i. (q_v q)[q_tail q := x] ! ((q_head q + i) mod (cap + 1))"
  note b = circ_size_bound [OF ok]
  have m: "q_max_items q = cap + 1" and l: "length (q_v q) = cap + 1" using ok by (simp_all add: circ_ok_def)
  have le: "?t \<le> cap" "?h \<le> cap" by (simp_all add: less_Suc_eq_le [symmetric])
  have eq: "?t = q_head q \<longleftrightarrow> ?n = cap" using circ_full_size [OF ok] m by (simp add: circ_full_def)
  have t: "?t = (q_head q + Suc ?n) mod (cap + 1)" using circ_tail [OF ok] by (simp add: mod_simps)
  have elems: "map ?e [0..<?n] = circ_list q"
    using b by (simp add: circ_list_def circ_written [OF ok, simplified])
  show "circ_ok cap ?q" "q_overrun ?q = q_overrun q + (if ?n = cap then 1 else 0)"
    using ok le eq by (auto simp: circ_ok_def circ_push_back_def Let_def)
  show "circ_list ?q = push_last cap x (circ_list q)"
  proof (cases "?n = cap")
    case False
    then have "circ_size ?q = Suc ?n"
      using m l le eq t b ok by (intro circ_size_unique [of _ cap]) (simp_all add: circ_push_back_def circ_ok_def Let_def)
    moreover have "circ_at ?q i = ?e i" for i
      using m eq False by (simp add: circ_at_def circ_push_back_def Let_def)
    ultimately have "circ_list ?q = map ?e [0..<Suc ?n]" unfolding circ_list_def by simp
    also have "\<dots> = circ_list q @ [x]" using b elems by (simp add: circ_written [OF ok, simplified])
    finally show ?thesis using False b by (simp add: push_last_def circ_list_def)
  next
    case True
    have "?t = (?h + cap) mod (cap + 1)"
      using eq True ok mod_add_self2 [of "q_head q" "Suc cap"] by (simp add: mod_simps circ_ok_def)
    then have "circ_size ?q = cap"
      using m le eq True by (intro circ_size_unique [of _ cap]) (simp_all add: circ_push_back_def Let_def)
    moreover have "circ_at ?q i = ?e (Suc i)" for i
      using m eq True by (simp add: circ_at_def circ_push_back_def Let_def mod_simps)
    ultimately have "circ_list ?q = map (\<lambda>i. ?e (Suc i)) [0..<cap]" unfolding circ_list_def by simp
    also have "\<dots> = tl (map ?e [0..<Suc cap])"
      by (simp add: upt_conv_Cons map_Suc_upt [symmetric] comp_def del: upt_Suc)
    also have "map ?e [0..<Suc cap] = circ_list q @ [x]"
      using elems True circ_written [OF ok, of cap x, simplified] by simp
    finally show ?thesis using True by (simp add: push_last_def circ_list_def)
  qed
qed

interpretation circ: ring circ_ok circ_list circ_push_back circ_pop_front circ_front circ_full
proof unfold_locales
  show "length (circ_list q) \<le> cap" if "circ_ok cap q" for cap and q :: "'a circ_q"
    using circ_size_bound [OF that] by (simp add: circ_list_def)
  show "circ_full q \<longleftrightarrow> length (circ_list q) = cap" if "circ_ok cap q" for cap and q :: "'a circ_q"
    using circ_full_size [OF that] by (simp add: circ_list_def)
qed (simp_all add: circ_push circ_pop)

section \<open>\<open>daily_file_sink\<close>\<close>

record spd_daily =
  g_base :: path
  g_rotation_h :: int
  g_rotation_m :: int
  g_tp :: int
  g_file :: path
  g_truncate :: bool
  g_max_files :: nat
  g_names :: "path circ_q"

definition daily_filename :: "string \<Rightarrow> tm_parts \<Rightarrow> string" where
  "daily_filename fname t = (case split_by_extension fname of (base, ext) \<Rightarrow>
     base @ ''_'' @ fmt_0d 4 (tm_year t + 1900) @ ''-'' @ fmt_0d 2 (tm_mon t + 1) @ ''-'' @ fmt_0d 2 (tm_mday t) @ ext)"

definition g_name :: "tz \<Rightarrow> path \<Rightarrow> int \<Rightarrow> path" where
  "g_name z base tp = daily_filename base (localtime z (to_time_t tp))"

definition g_next_rotation :: "tz \<Rightarrow> int \<Rightarrow> int \<Rightarrow> int \<Rightarrow> int" where
  "g_next_rotation z h mi now =
     (let date = (localtime z (to_time_t now))\<lparr>tm_hour := h, tm_min := mi, tm_sec := 0\<rparr>;
          rotation_time = mktime z date * ns_per_sec
      in if now < rotation_time then rotation_time else rotation_time + hours24)"

text \<open>The loop of \<open>init_filenames_q_\<close>, for at most \<open>n\<close> names, newest first.\<close>

fun existing_days :: "tz \<Rightarrow> path \<Rightarrow> files \<Rightarrow> int \<Rightarrow> nat \<Rightarrow> path list" where
  "existing_days z base m now 0 = []"
| "existing_days z base m now (Suc n) =
     (let f = g_name z base now
      in if fs_exists m f then f # existing_days z base m (now - hours24) n else [])"

definition init_filenames :: "tz \<Rightarrow> path \<Rightarrow> files \<Rightarrow> int \<Rightarrow> nat \<Rightarrow> path circ_q" where
  "init_filenames z base m now max_files =
     fold circ_push_back (rev (existing_days z base m now max_files)) (circ_new [] max_files)"

text \<open>\<open>now1\<close> to \<open>now3\<close> are the readings of the clock.\<close>

definition open_daily ::
  "tz \<Rightarrow> int \<times> int \<times> int \<Rightarrow> path \<Rightarrow> int \<Rightarrow> int \<Rightarrow> bool \<Rightarrow> nat \<Rightarrow> files \<Rightarrow> spd_error + (spd_daily \<times> files)" where
  "open_daily z clock base h mi trunc max_files m =
     (case clock of (now1, now2, now3) \<Rightarrow>
      if h < 0 \<or> h > 23 \<or> mi < 0 \<or> mi > 59 then Inl BadRotationTime
      else let f = g_name z base now1; m = fh_open m f trunc
           in Inr (\<lparr>g_base = base, g_rotation_h = h, g_rotation_m = mi, g_tp = g_next_rotation z h mi now2,
                    g_file = f, g_truncate = trunc, g_max_files = max_files,
                    g_names = if 0 < max_files then init_filenames z base m now3 max_files else circ_disabled\<rparr>, m))"

definition g_delete_old :: "spd_daily \<times> files \<Rightarrow> spd_daily \<times> files" where
  "g_delete_old sm = (case sm of (s, m) \<Rightarrow>
     let (q, m) = (if circ_full (g_names s)
                   then (circ_pop_front (g_names s), fs_remove m (circ_front (g_names s)))
                   else (g_names s, m))
     in (s\<lparr>g_names := circ_push_back (g_file s) q\<rparr>, m))"

text \<open>\<open>t\<close> is the time of the message, \<open>now\<close> the clock when the next rotation is set.\<close>

definition g_sink_it :: "tz \<Rightarrow> int \<times> int \<times> string \<Rightarrow> spd_daily \<times> files \<Rightarrow> spd_daily \<times> files" where
  "g_sink_it z msg sm = (case (msg, sm) of ((t, now, buf), (s, m)) \<Rightarrow>
     let should_rotate = g_tp s \<le> t;
         (s, m) = (if should_rotate
                   then (s\<lparr>g_file := g_name z (g_base s) t,
                           g_tp := g_next_rotation z (g_rotation_h s) (g_rotation_m s) now\<rparr>,
                         fh_open m (g_name z (g_base s) t) (g_truncate s))
                   else (s, m));
         m = fh_write m (g_file s) buf
     in if should_rotate \<and> 0 < g_max_files s then g_delete_old (s, m) else (s, m))"

definition g_run :: "tz \<Rightarrow> (int \<times> int \<times> string) list \<Rightarrow> spd_daily \<times> files \<Rightarrow> spd_daily \<times> files" where
  "g_run z = fold (g_sink_it z)"

text \<open>The names a run opens.\<close>

fun g_opened :: "tz \<Rightarrow> (int \<times> int \<times> string) list \<Rightarrow> spd_daily \<Rightarrow> path list" where
  "g_opened z [] s = []"
| "g_opened z ((t, now, buf) # msgs) s =
     (if g_tp s \<le> t
      then g_name z (g_base s) t
        # g_opened z msgs (s\<lparr>g_tp := g_next_rotation z (g_rotation_h s) (g_rotation_m s) now\<rparr>)
      else g_opened z msgs s)"

lemma g_tp_commute:
  "s\<lparr>g_file := f, g_tp := x\<rparr> = s\<lparr>g_tp := x, g_file := f\<rparr>"
  "s\<lparr>g_names := q, g_tp := x\<rparr> = s\<lparr>g_tp := x, g_names := q\<rparr>" for s :: spd_daily
  by simp_all

lemma g_opened_cong [simp]:
  "g_opened z msgs (s\<lparr>g_file := f\<rparr>) = g_opened z msgs s"
  "g_opened z msgs (s\<lparr>g_names := q\<rparr>) = g_opened z msgs s"
  by (induction z msgs s rule: g_opened.induct) (simp_all add: g_tp_commute)

section \<open>The last files are kept\<close>

text \<open>A sink that limits its files, between two calls: the queue ends with the open file, and
  its files exist.\<close>

definition g_ok :: "spd_daily \<Rightarrow> files \<Rightarrow> bool" where
  "g_ok s m \<longleftrightarrow> 0 < g_max_files s \<and> circ_ok (g_max_files s) (g_names s)
     \<and> circ_list (g_names s) \<noteq> [] \<and> last (circ_list (g_names s)) = g_file s
     \<and> (\<forall>p \<in> set (circ_list (g_names s)). fs_exists m p)"

abbreviation names_text :: "files \<Rightarrow> path list \<Rightarrow> string" where
  "names_text m ps \<equiv> concat (map (content m) ps)"

lemma existing_days_exist: "p \<in> set (existing_days z base m now n) \<Longrightarrow> fs_exists m p"
  by (induction z base m now n rule: existing_days.induct) (auto simp: Let_def split: if_splits)

lemma length_existing_days: "length (existing_days z base m now n) \<le> n"
  by (induction z base m now n rule: existing_days.induct) (auto simp: Let_def)

lemma circ_init:
  "circ_ok n (init_filenames z base m now n)"
  "circ_list (init_filenames z base m now n) = rev (existing_days z base m now n)"
  using circ.qs_pushes [OF circ_new_ok(1), where cap = n and xs = "rev (existing_days z base m now n)"]
    length_existing_days [of z base m now n]
  by (simp_all add: init_filenames_def circ.ok_pushes)

lemma open_daily_ok:
  assumes "open_daily z (now1, now2, now3) base h mi trunc max_files m = Inr (s, m0)"
    and "0 < max_files" and "g_name z base now1 = g_name z base now3"
  shows "g_ok s m0" "g_max_files s = max_files"
    "circ_list (g_names s) = rev (existing_days z base m0 now3 max_files)"
    "m0 = fh_open m (g_name z base now1) trunc"
proof -
  obtain k where k: "max_files = Suc k" using assms(2) by (cases max_files) auto
  show m: "m0 = fh_open m (g_name z base now1) trunc" and "g_max_files s = max_files"
    and l: "circ_list (g_names s) = rev (existing_days z base m0 now3 max_files)"
    using assms(1,2) by (auto simp: open_daily_def Let_def circ_init split: if_splits)
  have "existing_days z base m0 now3 max_files
      = g_name z base now1 # existing_days z base m0 (now3 - hours24) k"
    using assms(3) by (simp add: k m Let_def)
  then show "g_ok s m0"
    using assms(1,2) l existing_days_exist [of _ z base m0 now3 max_files]
    by (auto simp: g_ok_def open_daily_def Let_def circ_init split: if_splits)
qed

text \<open>A write that does not rotate.\<close>

lemma g_stay:
  assumes ok: "g_ok s m" and t: "\<not> g_tp s \<le> t" and d: "distinct (circ_list (g_names s))"
  shows "g_sink_it z (t, now, buf) (s, m) = (s, fs_append m (g_file s) buf)"
    "g_ok s (fs_append m (g_file s) buf)"
    "names_text (fs_append m (g_file s) buf) (circ_list (g_names s)) = names_text m (circ_list (g_names s)) @ buf"
    "g_file s \<in> set (circ_list (g_names s))"
proof -
  obtain ps where ps: "circ_list (g_names s) = ps @ [g_file s]"
    using ok append_butlast_last_id [of "circ_list (g_names s)"] by (metis g_ok_def)
  then show mem: "g_file s \<in> set (circ_list (g_names s))" by simp
  have "fs_exists m (g_file s)" using ok mem by (simp add: g_ok_def)
  then show "g_sink_it z (t, now, buf) (s, m) = (s, fs_append m (g_file s) buf)"
    using t by (simp add: g_sink_it_def)
  show "g_ok s (fs_append m (g_file s) buf)" using ok by (simp add: g_ok_def)
  have "map (content (fs_append m (g_file s) buf)) ps = map (content m) ps"
    using d ps by auto
  then show "names_text (fs_append m (g_file s) buf) (circ_list (g_names s))
      = names_text m (circ_list (g_names s)) @ buf"
    by (simp only: ps map_append concat_append) simp
qed

text \<open>A write that rotates, whatever file it opens.\<close>

definition g_rotated :: "tz \<Rightarrow> int \<Rightarrow> int \<Rightarrow> spd_daily \<Rightarrow> spd_daily" where
  "g_rotated z t now s = s\<lparr>g_tp := g_next_rotation z (g_rotation_h s) (g_rotation_m s) now,
     g_file := g_name z (g_base s) t,
     g_names := circ_push_back (g_name z (g_base s) t)
       (if circ_full (g_names s) then circ_pop_front (g_names s) else g_names s)\<rparr>"

lemma g_rotate:
  fixes z :: tz
  assumes max: "0 < g_max_files s" and c: "circ_ok (g_max_files s) (g_names s)" and t: "g_tp s \<le> t"
  defines "f \<equiv> g_name z (g_base s) t" and "q \<equiv> circ_list (g_names s)"
  shows "g_sink_it z (t, now, buf) (s, m) = (g_rotated z t now s,
      if length q = g_max_files s then fs_remove (fs_append (fh_open m f (g_truncate s)) f buf) (hd q)
      else fs_append (fh_open m f (g_truncate s)) f buf)"
    "circ_ok (g_max_files s) (g_names (g_rotated z t now s))"
    "circ_list (g_names (g_rotated z t now s)) = push_last (g_max_files s) f q"
    "g_file (g_rotated z t now s) = f" "g_max_files (g_rotated z t now s) = g_max_files s"
    "g_opened z ((t, now, buf) # msgs) s = f # g_opened z msgs (g_rotated z t now s)"
proof -
  note room = circ.qs_make_room(1,2) [OF c max, where x = f] circ.qs_make_room(3) [OF c max]
  note full = circ.full_iff [OF c]
  show "g_sink_it z (t, now, buf) (s, m) = (g_rotated z t now s,
      if length q = g_max_files s then fs_remove (fs_append (fh_open m f (g_truncate s)) f buf) (hd q)
      else fs_append (fh_open m f (g_truncate s)) f buf)"
    using t max full room(3) by (simp add: g_sink_it_def g_delete_old_def g_rotated_def f_def q_def g_tp_commute)
  show "circ_ok (g_max_files s) (g_names (g_rotated z t now s))"
    "circ_list (g_names (g_rotated z t now s)) = push_last (g_max_files s) f q"
    using room(1,2) by (simp_all add: g_rotated_def f_def q_def)
  show "g_file (g_rotated z t now s) = f" "g_max_files (g_rotated z t now s) = g_max_files s"
    "g_opened z ((t, now, buf) # msgs) s = f # g_opened z msgs (g_rotated z t now s)"
    using t by (simp_all add: g_rotated_def f_def)
qed

text \<open>The same for a file that is new.\<close>

lemma g_rotate_new:
  fixes z :: tz
  assumes ok: "g_ok s m" and t: "g_tp s \<le> t"
  defines "f \<equiv> g_name z (g_base s) t" and "q \<equiv> circ_list (g_names s)"
  assumes d: "distinct (q @ [f])" and new: "m f = None"
    and st: "g_sink_it z (t, now, buf) (s, m) = (s', m')"
  defines "q' \<equiv> push_last (g_max_files s) f q"
  shows "g_ok s' m'" "suffix (names_text m' q') (names_text m q @ buf)"
    "content m' f = buf" "\<forall>p. p \<notin> set (q @ [f]) \<longrightarrow> m' p = m p"
    "\<forall>p \<in> set (q @ [f]) - set q'. m' p = None"
proof -
  have max: "0 < g_max_files s" and c: "circ_ok (g_max_files s) (g_names s)" and ne: "q \<noteq> []"
    and ex: "\<forall>p \<in> set q. fs_exists m p"
    using ok by (simp_all add: g_ok_def q_def)
  note r = g_rotate [OF max c t, of z, folded f_def q_def]
  let ?m = "fs_append (fh_open m f (g_truncate s)) f buf"
  obtain x xs where q: "q = x # xs" using ne by (cases q) auto
  have cf: "content ?m f = buf" using new by simp (simp add: content_def)
  have co: "content ?m p = content m p" "?m p = m p" if "p \<noteq> f" for p using that by simp_all
  have map: "map (content ?m) ps = map (content m) ps" if "f \<notin> set ps" for ps
    using that co by auto
  have le: "length q \<le> g_max_files s" using circ.qs_bound [OF c] by (simp add: q_def)
  have s': "s' = g_rotated z t now s" and m': "m' = (if length q = g_max_files s then fs_remove ?m x else ?m)"
    using st r(1) [of now buf m] unfolding q list.sel by auto
  have q': "q' = (if length q = g_max_files s then xs else q) @ [f]"
    using le by (simp add: q'_def push_last_def q)
  have rest: "map (content (fs_remove ?m x)) xs = map (content m) xs"
    using d map [of xs] by (auto simp: q content_def fs_remove_def)
  have nx: "f \<noteq> x" using d by (auto simp: q)
  show "content m' f = buf" using cf nx by (simp add: m' content_def fs_remove_def)
  note cont = this
  have "names_text m' (ps @ [f]) = names_text m' ps @ buf" for ps using cont by simp
  moreover have "names_text (fs_remove ?m x) xs = names_text m xs" by (rule arg_cong [OF rest])
  moreover have "names_text ?m q = names_text m q" using d by (intro arg_cong [OF map]) simp
  ultimately show "suffix (names_text m' q') (names_text m q @ buf)"
    unfolding q' m' by (cases "length q = g_max_files s") (simp_all add: q suffix_def)
  show "\<forall>p. p \<notin> set (q @ [f]) \<longrightarrow> m' p = m p"
    using co by (auto simp: m' q fs_remove_def)
  show "\<forall>p \<in> set (q @ [f]) - set q'. m' p = None"
    using d by (auto simp: q' m' q fs_remove_def split: if_splits)
  have "fs_exists m' p" if "p \<in> set q'" for p
    using that ex d by (auto simp: q' m' q split: if_splits)
  then show "g_ok s' m'"
    using max r(2-5) [of now] by (simp add: g_ok_def s' q'_def [symmetric]) (simp add: q')
qed

text \<open>Both kinds of write.\<close>

definition g_new :: "tz \<Rightarrow> int \<Rightarrow> spd_daily \<Rightarrow> path list" where
  "g_new z t s = (if g_tp s \<le> t then [g_name z (g_base s) t] else [])"

lemma g_step:
  fixes z :: tz
  assumes ok: "g_ok s m" and st: "g_sink_it z (t, now, buf) (s, m) = (s', m')"
  defines "q \<equiv> circ_list (g_names s)" and "new \<equiv> g_new z t s"
  assumes d: "distinct (q @ new)" and fresh: "\<forall>p \<in> set new. m p = None"
  shows "g_ok s' m'" "g_max_files s' = g_max_files s"
    "g_opened z ((t, now, buf) # msgs) s = new @ g_opened z msgs s'"
    "circ_list (g_names s') = drop (length q + length new - g_max_files s) (q @ new)"
    "suffix (names_text m' (circ_list (g_names s'))) (names_text m q @ buf)"
    "suffix buf (content m' (g_file s'))"
    "\<forall>p. p \<notin> set (q @ new) \<longrightarrow> m' p = m p"
    "\<forall>p \<in> set (q @ new) - set (circ_list (g_names s')). m' p = None"
proof (atomize (full), goal_cases)
  case 1
  have max: "0 < g_max_files s" and c: "circ_ok (g_max_files s) (g_names s)" and ne: "q \<noteq> []"
    using ok by (simp_all add: g_ok_def q_def)
  have le: "length q \<le> g_max_files s" using circ.qs_bound [OF c] by (simp add: q_def)
  show ?case
  proof (cases "g_tp s \<le> t")
    case False
    have n: "new = []" using False by (simp add: new_def g_new_def)
    have dq: "distinct (circ_list (g_names s))" using d by (simp add: q_def)
    note stay = g_stay [OF ok False dq]
    have e: "s' = s" "m' = fs_append m (g_file s) buf" using stay(1) [of z now buf] st by simp_all
    have "p \<notin> set q \<Longrightarrow> fs_append m (g_file s) buf p = m p" for p
      using stay(4) files_append_other [of p "g_file s"] by (metis q_def)
    then show ?thesis
      using stay(2,3) [of buf] stay(4) False n le by (auto simp: e q_def suffix_def)
  next
    case True
    have n: "new = [g_name z (g_base s) t]" using True by (simp add: new_def g_new_def)
    note r = g_rotate [OF max c True, of z now, folded q_def]
    note k = g_rotate_new [OF ok True, of z, folded q_def, OF d [unfolded n] _ st]
    have s': "s' = g_rotated z t now s" using r(1) [of buf m] st by simp
    have l: "circ_list (g_names s') = push_last (g_max_files s) (g_name z (g_base s) t) q"
      using r(3) s' by simp
    have "push_last (g_max_files s) x q = drop (length q + 1 - g_max_files s) (q @ [x])" for x
      using le max ne by (cases q) (auto simp: push_last_def)
    then show ?thesis
      using k fresh r(4,5) r(6) [of buf msgs] l by (simp add: n s')
  qed
qed

text \<open>A run whose files are all new.\<close>

definition keeps_last ::
  "nat \<Rightarrow> path list \<Rightarrow> string \<Rightarrow> files \<Rightarrow> files \<Rightarrow> path list \<Rightarrow> bool" where
  "keeps_last n ps txt0 m m' qs \<longleftrightarrow> qs = drop (length ps - n) ps
     \<and> (\<forall>p \<in> set qs. fs_exists m' p) \<and> (\<forall>p \<in> set ps - set qs. m' p = None)
     \<and> (\<forall>p. p \<notin> set ps \<longrightarrow> m' p = m p) \<and> suffix (names_text m' qs) txt0"

lemma drop_last_trans:
  "drop (length (drop (length a - n) a @ b) - n) (drop (length a - n) a @ b) = drop (length (a @ b) - n) (a @ b)"
proof (cases "length a \<le> n")
  case False
  have "drop (length a - n) a @ b = drop (length a - n) (a @ b)" by simp
  then show ?thesis using False by (simp only: drop_drop) (simp add: add.commute)
qed simp

lemma keeps_last_trans:
  assumes "keeps_last n (ps @ ns) t1 m m1 qs" and "keeps_last n (qs @ rs) (t1' @ t2) m1 m2 zs"
    and "suffix t1' t1"
  shows "keeps_last n (ps @ ns @ rs) (t1 @ t2) m m2 zs"
proof -
  note one = assms(1) [unfolded keeps_last_def] and two = assms(2) [unfolded keeps_last_def]
  have qs: "qs = drop (length (ps @ ns) - n) (ps @ ns)" using one by blast
  have "zs = drop (length (qs @ rs) - n) (qs @ rs)" using two by blast
  then have zs: "zs = drop (length (ps @ ns @ rs) - n) (ps @ ns @ rs)"
    unfolding qs drop_last_trans by (simp only: append_assoc)
  have sub: "set qs \<subseteq> set (ps @ ns)" unfolding qs by (rule set_drop_subset)
  have "suffix (names_text m2 zs) (t1' @ t2)" using two by blast
  then have end2: "suffix (names_text m2 zs) (t1 @ t2)" by (rule suffix_append_mono [OF _ assms(3)])
  have gone: "m2 p = None" if "p \<in> set (ps @ ns @ rs)" "p \<notin> set zs" for p
  proof (cases "p \<in> set (qs @ rs)")
    case True
    then show ?thesis using two that(2) by blast
  next
    case False
    then have "m1 p = None" using one that(1) by (metis Un_iff DiffI set_append)
    then show ?thesis using two False by metis
  qed
  have same: "m2 p = m p" if "p \<notin> set (ps @ ns @ rs)" for p
  proof -
    have "p \<notin> set (ps @ ns)" "p \<notin> set (qs @ rs)" using that sub by auto
    then show ?thesis using one two by metis
  qed
  have "\<forall>p \<in> set zs. fs_exists m2 p" using two by blast
  then show ?thesis unfolding keeps_last_def using zs end2 gone same by blast
qed

lemma g_run_keeps:
  assumes "g_ok s m" and "g_run z msgs (s, m) = (s', m')"
    and "distinct (circ_list (g_names s) @ g_opened z msgs s)"
    and "\<forall>p \<in> set (g_opened z msgs s). m p = None"
  shows "g_ok s' m' \<and> keeps_last (g_max_files s) (circ_list (g_names s) @ g_opened z msgs s)
       (names_text m (circ_list (g_names s)) @ concat (map (snd \<circ> snd) msgs)) m m' (circ_list (g_names s'))
    \<and> (msgs \<noteq> [] \<longrightarrow> suffix (snd (snd (last msgs))) (content m' (g_file s')))"
  using assms
proof (induction msgs arbitrary: s m)
  case Nil
  then show ?case by (auto simp: g_run_def g_ok_def keeps_last_def dest: circ.qs_bound)
next
  case (Cons msg msgs)
  obtain t now buf where msg: "msg = (t, now, buf)" using prod_cases3 by blast
  obtain s1 m1 where st: "g_sink_it z (t, now, buf) (s, m) = (s1, m1)" by fastforce
  have run: "g_run z msgs (s1, m1) = (s', m')" using Cons.prems(2) st by (simp add: g_run_def msg)
  let ?q = "circ_list (g_names s)" and ?q1 = "circ_list (g_names s1)" and ?n = "g_max_files s"
  let ?new = "g_new z t s" and ?bufs = "concat (map (snd \<circ> snd) msgs)"
  obtain more where "g_opened z (msg # msgs) s = ?new @ more"
    by (cases "g_tp s \<le> t") (auto simp: msg g_new_def)
  then have d: "distinct (?q @ ?new)" and fr: "\<forall>p \<in> set ?new. m p = None"
    using Cons.prems(3,4) by auto
  note step = g_step [OF Cons.prems(1) st d fr]
  have o: "g_opened z (msg # msgs) s = ?new @ g_opened z msgs s1" using step(3) by (simp add: msg)
  have all: "distinct (?q @ ?new @ g_opened z msgs s1)" using Cons.prems(3) o by simp
  have fr1: "\<forall>p \<in> set (g_opened z msgs s1). m1 p = None"
    using step(7) Cons.prems(4) all by (auto simp: o)
  have d1: "distinct (?q1 @ g_opened z msgs s1)"
    using all set_drop_subset [of "length ?q + length ?new - ?n" "?q @ ?new"] distinct_drop [OF d, of "length ?q + length ?new - ?n"]
    unfolding step(4) by auto
  note ih = Cons.IH [OF step(1) run d1 fr1, unfolded step(2)]
  have "keeps_last ?n (?q @ ?new) (names_text m ?q @ buf) m m1 ?q1"
    using step(1,4,5,7,8) by (simp add: keeps_last_def g_ok_def)
  then have "keeps_last ?n (?q @ ?new @ g_opened z msgs s1) ((names_text m ?q @ buf) @ ?bufs) m m' (circ_list (g_names s'))"
    by (rule keeps_last_trans [OF _ conjunct1 [OF conjunct2 [OF ih]] step(5)])
  moreover have "suffix (snd (snd (last (msg # msgs)))) (content m' (g_file s'))"
  proof (cases msgs)
    case Nil
    then have "s' = s1" "m' = m1" using run by (simp_all add: g_run_def)
    then show ?thesis using step(6) Nil by (simp add: msg)
  qed (use ih in simp)
  moreover have "concat (map (snd \<circ> snd) (msg # msgs)) = buf @ ?bufs" by (simp add: msg)
  ultimately show ?case using ih unfolding o append_assoc by (simp add: comp_def)
qed

section \<open>One file to keep\<close>

text \<open>
  The first rotation of a sink started before the rotation time of the day opens the file of that
  day once more.  With one file to keep, \<open>delete_old_\<close> then removes the file it has just
  written, and what is logged until the next rotation goes to a file without a name.
\<close>

lemma g_run_unlinked:
  assumes "m (g_file s) = None" and "\<forall>msg \<in> set msgs. fst msg < g_tp s"
  shows "g_run z msgs (s, m) = (s, m)"
  using assms(2)
proof (induction msgs)
  case (Cons msg msgs)
  obtain t now buf where msg: "msg = (t, now, buf)" using prod_cases3 by blast
  have "g_sink_it z msg (s, m) = (s, m)"
    using Cons.prems assms(1) by (simp add: msg g_sink_it_def fh_write_def)
  then show ?case using Cons by (simp add: g_run_def)
qed (simp add: g_run_def)

lemma one_file_removed:
  assumes "open_daily z (now1, now2, now3) base h mi trunc 1 m = Inr (s, m0)"
    and "g_name z base now1 = g_name z base now3"
    and "g_tp s \<le> t" and "g_name z base t = g_name z base now1"
    and "\<forall>msg \<in> set later. fst msg < g_next_rotation z h mi now"
    and "g_run z ((t, now, buf) # later) (s, m0) = (s', m')"
  shows "g_file s' = g_name z base now1 \<and> m' (g_file s') = None"
proof -
  let ?f = "g_name z base now1"
  note o = open_daily_ok [OF assms(1) _ assms(2)]
  have s: "g_base s = base" "g_rotation_h s = h" "g_rotation_m s = mi"
    using assms(1) by (auto simp: open_daily_def Let_def split: if_splits)
  have max: "g_max_files s = 1" and q: "circ_list (g_names s) = [?f]" and c: "circ_ok 1 (g_names s)"
    using o assms(2) by (simp_all add: g_ok_def Let_def)
  note r = g_rotate [of s t z, unfolded s max, OF _ c assms(3)]
  obtain m1 where st: "g_sink_it z (t, now, buf) (s, m0) = (g_rotated z t now s, m1)" and m1: "m1 ?f = None"
    using r(1) [of now buf m0] q by (simp add: fs_remove_def)
  have run: "g_run z later (g_rotated z t now s, m1) = (s', m')"
    using assms(6) st by (simp add: g_run_def)
  have f: "g_file (g_rotated z t now s) = ?f" using r(4) assms(4) by simp
  have "g_tp (g_rotated z t now s) = g_next_rotation z h mi now" by (simp add: g_rotated_def s)
  then have "g_run z later (g_rotated z t now s, m1) = (g_rotated z t now s, m1)"
    using assms(5) m1 f by (intro g_run_unlinked) simp_all
  then show ?thesis using run f m1 by simp
qed

section \<open>Properties\<close>

text \<open>C9. A daily sink of spdlog that keeps \<open>n\<close> files, from its construction through any run whose
  days are different and whose files are new: it has kept exactly the last \<open>n\<close> of the files it
  found and of those it opened; the others of them are gone and no other file is touched; the
  text of the kept ones is the end of what was there and of the messages; the last message ends
  the open file.\<close>

theorem daily_sink_keeps_last:
  assumes "open_daily z (now1, now2, now3) base h mi trunc n m = Inr (s, m0)"
    and "0 < n" and "g_name z base now1 = g_name z base now3"
    and "g_run z msgs (s, m0) = (s', m')"
    and "distinct (existing_days z base m0 now3 n @ g_opened z msgs s)"
    and "\<forall>p \<in> set (g_opened z msgs s). m0 p = None"
  shows "(let found = rev (existing_days z base m0 now3 n); all = found @ g_opened z msgs s;
              kept = drop (length all - n) all
     in circ_list (g_names s') = kept \<and> last kept = g_file s'
        \<and> (\<forall>p \<in> set kept. fs_exists m' p) \<and> (\<forall>p \<in> set all - set kept. m' p = None)
        \<and> (\<forall>p. p \<notin> set all \<longrightarrow> m' p = m p)
        \<and> suffix (names_text m' kept) (names_text m0 found @ concat (map (snd \<circ> snd) msgs))
        \<and> (msgs \<noteq> [] \<longrightarrow> suffix (snd (snd (last msgs))) (content m' (g_file s'))))"
proof -
  note o = open_daily_ok [OF assms(1-3)]
  note run = g_run_keeps [OF o(1) assms(4), unfolded o(2,3)]
  have "distinct (rev (existing_days z base m0 now3 n) @ g_opened z msgs s)" using assms(5) by simp
  note run = run [OF this assms(6)]
  have first: "g_name z base now1 \<in> set (existing_days z base m0 now3 n)"
    using assms(2,3) o(4) by (cases n) (simp_all add: Let_def)
  have m0: "m0 p = m p" if "p \<notin> set (existing_days z base m0 now3 n)" for p
  proof -
    have "p \<noteq> g_name z base now1" using that first by blast
    then show ?thesis unfolding o(4) by simp
  qed
  have "last (circ_list (g_names s')) = g_file s'" using run unfolding g_ok_def by blast
  then show ?thesis
    using run m0 unfolding keeps_last_def Let_def set_append set_rev by (metis Un_iff)
qed

lemma daily_sink_keeps_last_witness:
  "\<exists>s m0 s' m'. open_daily tz_utc_day (0, 0, 0) ''a.txt'' 0 0 False 1 Map.empty = Inr (s, m0)
     \<and> g_run tz_utc_day [(1, 1, ''x''), (86400000000001, 86400000000001, ''y'')] (s, m0) = (s', m')
     \<and> suffix ''y'' (content m' (g_file s')) \<and> circ_list (g_names s') = [''a_1970-01-02.txt'']
     \<and> m' ''a_1970-01-01.txt'' = None"
proof -
  have n: "g_name tz_utc_day ''a.txt'' 0 = ''a_1970-01-01.txt''"
    "g_name tz_utc_day ''a.txt'' 86400000000001 = ''a_1970-01-02.txt''"
  proof -
    have "split_by_extension ''a.txt'' = (''a'', ''.txt'')" by code_simp
    moreover have "char_of (48 :: nat) = CHR ''0''" "char_of (49 :: nat) = CHR ''1''" "char_of (50 :: nat) = CHR ''2''"
      "char_of (55 :: nat) = CHR ''7''" "char_of (57 :: nat) = CHR ''9''"
      by code_simp+
    ultimately show "g_name tz_utc_day ''a.txt'' 0 = ''a_1970-01-01.txt''"
      "g_name tz_utc_day ''a.txt'' 86400000000001 = ''a_1970-01-02.txt''"
      by (simp_all add: g_name_def daily_filename_def tz_utc_day_def to_time_t_def c_div_def ns_per_sec_def
          fmt_0d_def nat_dec.simps digit_char_def numeral_2_eq_2)
  qed
  have r: "g_next_rotation tz_utc_day 0 0 0 = 86400000000000" by code_simp
  obtain s m0 where o: "open_daily tz_utc_day (0, 0, 0) ''a.txt'' 0 0 False 1 Map.empty = Inr (s, m0)"
    by (simp add: open_daily_def Let_def)
  then have s: "g_tp s = 86400000000000" "g_base s = ''a.txt''"
    and m0: "m0 = fh_open Map.empty ''a_1970-01-01.txt'' False"
    by (auto simp: open_daily_def Let_def r n)
  let ?msgs = "[(1, 1, ''x''), (86400000000001, 86400000000001, ''y'')]"
  obtain s' m' where run: "g_run tz_utc_day ?msgs (s, m0) = (s', m')" by fastforce
  have opened: "g_opened tz_utc_day ?msgs s = [''a_1970-01-02.txt'']" by (simp add: s n)
  have found: "existing_days tz_utc_day ''a.txt'' m0 0 1 = [''a_1970-01-01.txt'']"
    by (simp add: n m0 Let_def)
  have "distinct (existing_days tz_utc_day ''a.txt'' m0 0 1 @ g_opened tz_utc_day ?msgs s)"
    "\<forall>p \<in> set (g_opened tz_utc_day ?msgs s). m0 p = None"
    unfolding found opened by (simp_all add: m0)
  from daily_sink_keeps_last [OF o _ refl run this] show ?thesis
    using o run unfolding found opened by (simp add: Let_def)
qed

end
