(* ===== verification/LogConfig.thy ===== *)
theory LogConfig
  imports CountSink DailySizeSink YamlTool SpdDaily
begin

text \<open>
  Configuration of the logger: \<open>LogPrivate::loadConfigFile\<close>, \<open>loadDefaultConfig\<close>,
  \<open>deleteOldConfig\<close>, \<open>setConfigPath\<close> and the constructor of
  \<open>private/logger/logger_p.cpp\<close>, over the YAML layer and the custom sinks.  The
  parser and the emitter of yaml-cpp, what can be opened, the clock and the build
  mode are fields of an environment.  One file map holds the configuration files and
  the log files: the constructor of each sink does to it what it does in
  \<open>SpdRotating\<close> and \<open>SpdDaily\<close>, in the order of the configuration, also when a later
  sink fails.  The fixed message of each exception is a constructor.
\<close>

section \<open>Levels\<close>

text \<open>\<open>spdlog::level::level_enum\<close>; \<open>LogLevel\<close> is the same without \<open>Off\<close>.\<close>

datatype level = Trace | Debug | Info | Warn | Err | Critical | Off

fun level_num :: "level \<Rightarrow> nat" where
  "level_num Trace = 0"
| "level_num Debug = 1"
| "level_num Info = 2"
| "level_num Warn = 3"
| "level_num Err = 4"
| "level_num Critical = 5"
| "level_num Off = 6"

lemma level_num_inject: "level_num a = level_num b \<longleftrightarrow> a = b"
  by (cases a; cases b) simp_all

instantiation level :: linorder
begin

definition less_eq_level :: "level \<Rightarrow> level \<Rightarrow> bool" where
  "less_eq_level a b \<longleftrightarrow> level_num a \<le> level_num b"

definition less_level :: "level \<Rightarrow> level \<Rightarrow> bool" where
  "less_level a b \<longleftrightarrow> level_num a < level_num b"

instance
  by standard (auto simp: less_eq_level_def less_level_def level_num_inject)

end

definition level_names :: "(string \<times> level) list" where
  "level_names = [(''trace'', Trace), (''debug'', Debug), (''info'', Info), (''warning'', Warn),
     (''error'', Err), (''critical'', Critical), (''off'', Off)]"

definition level_from_str :: "string \<Rightarrow> level" where
  "level_from_str name = (case map_of level_names name of
      Some l \<Rightarrow> l
    | None \<Rightarrow> if name = ''warn'' then Warn else if name = ''err'' then Err else Off)"

section \<open>Sinks, logger, state\<close>

datatype sink_kind =
    StdoutColor
  | BasicFile path bool
  | RotatingFile path nat nat bool
  | DailyFile path int int bool nat
  | CountRotating count_sink
  | DailySize daily_sink
  | OstreamSink bool
  | CallbackSink nat

record lsink =
  sk_level :: level
  sk_kind :: sink_kind

record logger =
  lg_name :: string
  lg_async :: bool
  lg_sinks :: "lsink list"
  lg_level :: level
  lg_flush_on :: level
  lg_pattern :: string

record show_lines =
  show_trace :: bool
  show_debug :: bool
  show_info :: bool
  show_warn :: bool
  show_error :: bool
  show_critical :: bool

text \<open>The static members and the singleton.  A callback sink is its pointer number;
  \<open>m_next_ptr\<close> is the next one.\<close>

record log_state =
  m_logger :: "logger option"
  m_config_path :: string
  m_show :: show_lines
  m_callbacks :: "string \<rightharpoonup> nat"
  m_next_ptr :: nat
  m_counter :: u64
  m_files :: files

record env =
  e_parse :: "string \<Rightarrow> string + ynode option"
  e_emit :: "ynode \<Rightarrow> string"
  e_writable :: "path \<Rightarrow> bool"
  e_open_log :: "path \<Rightarrow> bool"
  e_tz :: tz
  e_now :: int
  e_debug :: bool

text \<open>What can be thrown while configuring.  Only \<open>Spdlog\<close> is a \<open>spdlog_ex\<close>.\<close>

datatype lexn = Spdlog spd_error | Yaml yexn | Std sink_error

section \<open>Typed reads\<close>

definition lift_yaml :: "yexn + 'a \<Rightarrow> lexn + 'a" where
  "lift_yaml r = (case r of Inl e \<Rightarrow> Inl (Yaml e) | Inr v \<Rightarrow> Inr v)"

text \<open>\<open>getDef<T>\<close>: the cast of the result, with the default if it failed.\<close>

definition get_str :: "ynode \<Rightarrow> string \<Rightarrow> string \<Rightarrow> lexn + string" where
  "get_str n key d = rbind (lift_yaml (get_def n key (AStr d)))
     (\<lambda>v. Inr (case v of AStr s \<Rightarrow> s | _ \<Rightarrow> d))"

definition get_int :: "ynode \<Rightarrow> string \<Rightarrow> int \<Rightarrow> lexn + int" where
  "get_int n key d = rbind (lift_yaml (get_def n key (AInt d)))
     (\<lambda>v. Inr (case v of AInt i \<Rightarrow> i | _ \<Rightarrow> d))"

definition get_bool :: "ynode \<Rightarrow> string \<Rightarrow> bool \<Rightarrow> lexn + bool" where
  "get_bool n key d = rbind (lift_yaml (get_def n key (ABool d)))
     (\<lambda>v. Inr (case v of ABool b \<Rightarrow> b | _ \<Rightarrow> d))"

text \<open>An \<open>int\<close> passed as \<open>size_t\<close>, as \<open>uint16_t\<close>, and \<open>max_size * 8 * 1024\<close> in
  32 bits.\<close>

definition as_size_t :: "int \<Rightarrow> u64" where
  "as_size_t i = word_of_int i"

definition as_uint16 :: "int \<Rightarrow> nat" where
  "as_uint16 i = unat (word_of_int i :: 16 word)"

definition kb_to_bits :: "int \<Rightarrow> int" where
  "kb_to_bits i = sint (word_of_int i * 8 * 1024 :: 32 word)"

section \<open>The constructors of spdlog's sinks\<close>

definition open_log :: "env \<Rightarrow> path \<Rightarrow> lexn + unit" where
  "open_log e p = (if e_open_log e p then Inr () else Inl (Spdlog (OpenFailed p)))"

definition make_basic :: "env \<Rightarrow> path \<Rightarrow> bool \<Rightarrow> lexn + sink_kind" where
  "make_basic e p trunc = rbind (open_log e p) (\<lambda>_. Inr (BasicFile p trunc))"

definition make_rotating :: "env \<Rightarrow> path \<Rightarrow> u64 \<Rightarrow> u64 \<Rightarrow> bool \<Rightarrow> lexn + sink_kind" where
  "make_rotating e p max_size max_files rotate_on_open =
     (if max_size = 0 then Inl (Spdlog ZeroMaxSize)
      else if max_rotating_files < unat max_files then Inl (Spdlog TooManyFiles)
      else rbind (open_log e p)
        (\<lambda>_. Inr (RotatingFile p (unat max_size) (unat max_files) rotate_on_open)))"

definition make_daily :: "env \<Rightarrow> path \<Rightarrow> int \<Rightarrow> int \<Rightarrow> bool \<Rightarrow> nat \<Rightarrow> lexn + sink_kind" where
  "make_daily e p hour minute trunc max_days =
     (if hour < 0 \<or> hour > 23 \<or> minute < 0 \<or> minute > 59 then Inl (Spdlog BadRotationTime)
      else rbind (open_log e (g_name (e_tz e) p (e_now e)))
        (\<lambda>_. Inr (DailyFile p hour minute trunc max_days)))"

text \<open>What a constructor that succeeds does to the files: the sinks of spdlog open theirs
  at once, the others with the first message.\<close>

definition construct_files :: "env \<Rightarrow> sink_kind \<Rightarrow> files \<Rightarrow> files" where
  "construct_files e k m = (case k of
      BasicFile p trunc \<Rightarrow> open_basic p trunc m
    | RotatingFile p max_size max_files rotate_on_open \<Rightarrow>
        (case open_rotating p max_size max_files rotate_on_open m of Inl _ \<Rightarrow> m | Inr (_, m') \<Rightarrow> m')
    | DailyFile p hour minute trunc max_days \<Rightarrow>
        (case open_daily (e_tz e) (e_now e, e_now e, e_now e) p hour minute trunc max_days m of
           Inl _ \<Rightarrow> m | Inr (_, m') \<Rightarrow> m')
    | _ \<Rightarrow> m)"

section \<open>One sink of the configuration\<close>

text \<open>Each branch of the sink loop: \<open>None\<close> is the \<open>continue\<close> for an empty path.\<close>

definition read_daily_sink :: "env \<Rightarrow> ynode \<Rightarrow> lexn + sink_kind option" where
  "read_daily_sink e n =
     rbind (get_str n ''file_path'' []) (\<lambda>file_path.
     if file_path = [] then Inr None else
     rbind (get_int n ''rotation_hour'' 0) (\<lambda>hour.
     rbind (get_int n ''rotation_min'' 0) (\<lambda>minute.
     rbind (get_int n ''max_days'' 0) (\<lambda>max_days.
     rbind (get_bool n ''truncate'' False) (\<lambda>trunc.
     rbind (make_daily e file_path hour minute trunc (as_uint16 max_days)) (\<lambda>k.
     Inr (Some k)))))))"

definition read_rotating_sink :: "env \<Rightarrow> ynode \<Rightarrow> lexn + sink_kind option" where
  "read_rotating_sink e n =
     rbind (get_str n ''file_path'' []) (\<lambda>file_path.
     if file_path = [] then Inr None else
     rbind (get_int n ''max_size'' 52428800) (\<lambda>max_size.
     rbind (get_int n ''max_files'' 10) (\<lambda>max_files.
     rbind (get_bool n ''rotate_on_open'' False) (\<lambda>rotate_on_open.
     rbind (make_rotating e file_path (as_size_t (kb_to_bits max_size)) (as_size_t max_files)
              rotate_on_open) (\<lambda>k.
     Inr (Some k))))))"

definition read_basic_sink :: "env \<Rightarrow> ynode \<Rightarrow> lexn + sink_kind option" where
  "read_basic_sink e n =
     rbind (get_str n ''file_path'' []) (\<lambda>file_path.
     if file_path = [] then Inr None else
     rbind (get_bool n ''truncate'' False) (\<lambda>trunc.
     rbind (make_basic e file_path trunc) (\<lambda>k.
     Inr (Some k))))"

definition read_count_sink :: "env \<Rightarrow> ynode \<Rightarrow> lexn + sink_kind option" where
  "read_count_sink e n =
     rbind (get_str n ''file_path'' []) (\<lambda>file_path.
     if file_path = [] then Inr None else
     rbind (get_int n ''max_count'' 100000) (\<lambda>max_count.
     rbind (get_int n ''max_files'' 10) (\<lambda>max_files.
     rbind (get_bool n ''rotate_on_open'' False) (\<lambda>rotate_on_open.
     rbind (get_bool n ''strict_count_on_open'' True) (\<lambda>strict_count_on_open.
     Inr (Some (CountRotating (make_count_sink file_path (unat (as_size_t max_count))
       (unat (as_size_t max_files)) rotate_on_open strict_count_on_open))))))))"

definition read_daily_size_sink :: "env \<Rightarrow> ynode \<Rightarrow> lexn + sink_kind option" where
  "read_daily_size_sink e n =
     rbind (get_str n ''root_dir'' []) (\<lambda>root_dir.
     if root_dir = [] then Inr None else
     rbind (get_str n ''name'' ''{date}'') (\<lambda>name.
     rbind (get_str n ''date_name_format'' ''yyyy-MM-dd'') (\<lambda>date_name_format.
     rbind (get_int n ''rotation_hour'' 0) (\<lambda>hour.
     rbind (get_int n ''rotation_min'' 0) (\<lambda>minute.
     rbind (get_int n ''max_size'' 52428800) (\<lambda>max_size.
     rbind (get_int n ''max_files'' 10) (\<lambda>max_files.
     rbind (get_bool n ''rotate_on_open'' False) (\<lambda>rotate_on_open.
     case make_daily_sink (e_tz e) (e_now e) root_dir name date_name_format hour minute
            (as_size_t (kb_to_bits max_size)) (unat (as_size_t max_files)) rotate_on_open of
       Inl x \<Rightarrow> Inl (Std x)
     | Inr s \<Rightarrow> Inr (Some (DailySize s))))))))))"

definition read_sink :: "env \<Rightarrow> ynode \<Rightarrow> lexn + lsink option" where
  "read_sink e n =
     rbind (get_str n ''type'' []) (\<lambda>type.
     rbind (get_str n ''level'' ''trace'') (\<lambda>level_name.
     rbind (if type = ''stdout_color_sink_mt'' then Inr (Some StdoutColor)
            else if type = ''daily_file_mt'' then read_daily_sink e n
            else if type = ''rotating_file_mt'' then read_rotating_sink e n
            else if type = ''basic_file_sink_mt'' then read_basic_sink e n
            else if type = ''count_rotating_file_mt'' then read_count_sink e n
            else if type = ''daily_size_rotating_file_mt'' then read_daily_size_sink e n
            else Inr None) (\<lambda>k.
     Inr (map_option (\<lambda>k. \<lparr> sk_level = level_from_str level_name, sk_kind = k \<rparr>) k))))"

text \<open>One element of the sequence; null elements are skipped.\<close>

definition read_element :: "env \<Rightarrow> ynode \<Rightarrow> nat \<Rightarrow> lexn + lsink option" where
  "read_element e sinks_node i =
     rbind (lift_yaml (get_sequence_node sinks_node i)) (\<lambda>n.
     if \<not> is_defined n \<or> is_null n then Inr None else read_sink e n)"

text \<open>The loop, with the files.  A sink is constructed when its element has been read, and
  stays constructed when a later one fails.\<close>

fun read_sinks :: "env \<Rightarrow> ynode \<Rightarrow> nat list \<Rightarrow> files \<Rightarrow> (lexn + lsink list) \<times> files" where
  "read_sinks e sinks_node [] m = (Inr [], m)"
| "read_sinks e sinks_node (i # is) m =
     (case read_element e sinks_node i of
        Inl x \<Rightarrow> (Inl x, m)
      | Inr None \<Rightarrow> read_sinks e sinks_node is m
      | Inr (Some s) \<Rightarrow>
          (case read_sinks e sinks_node is (construct_files e (sk_kind s) m) of
             (Inl x, m) \<Rightarrow> (Inl x, m)
           | (Inr ss, m) \<Rightarrow> (Inr (s # ss), m)))"

section \<open>The logger section\<close>

definition default_pattern :: string where
  "default_pattern = ''[%Y-%m-%d %H:%M:%S.%e][%n][%^%l%$][thread %t]%v''"

record settings =
  set_name :: string
  set_debug :: level
  set_release :: level
  set_flush :: level
  set_pattern :: string
  set_async :: bool
  set_queue :: int
  set_threads :: int

text \<open>\<open>std::stoi\<close>: leading blanks, a sign, digits, anything after; \<open>None\<close> when it
  throws.\<close>

definition stoi :: "string \<Rightarrow> int option" where
  "stoi s = (case split_sign (dropWhile is_space s) of (neg, r) \<Rightarrow>
     let ds = takeWhile is_digit r; v = (if neg then - int (dec_val ds) else int (dec_val ds))
     in if ds = [] \<or> v < - (2 ^ 31) \<or> 2 ^ 31 \<le> v then None else Some v)"

definition int_or :: "int \<Rightarrow> lexn + string \<Rightarrow> int" where
  "int_or d r = (case r of
      Inl _ \<Rightarrow> d
    | Inr s \<Rightarrow> (case stoi s of Some v \<Rightarrow> v | None \<Rightarrow> d))"

definition read_settings :: "ynode \<Rightarrow> lexn + settings" where
  "read_settings n =
     rbind (get_str n ''name'' ''default-logger'') (\<lambda>name.
     rbind (get_str n ''debug_level'' ''trace'') (\<lambda>debug_level.
     rbind (get_str n ''release_level'' ''info'') (\<lambda>release_level.
     rbind (get_str n ''flush_on'' ''trace'') (\<lambda>flush_on.
     rbind (get_str n ''pattern'' default_pattern) (\<lambda>pattern.
     Inr \<lparr> set_name = name,
           set_debug = level_from_str debug_level,
           set_release = level_from_str release_level,
           set_flush = level_from_str flush_on,
           set_pattern = pattern,
           set_async = (case get_str n ''async'' ''false'' of
              Inl _ \<Rightarrow> False | Inr s \<Rightarrow> s = ''true'' \<or> s = ''1''),
           set_queue = int_or 8192 (get_str n ''async_queue_size'' ''8192''),
           set_threads = int_or 1 (get_str n ''async_thread_count'' ''1'') \<rparr>)))))"

text \<open>The six flags are assigned one after the other, so an exception leaves the
  earlier ones assigned.\<close>

fun read_flags :: "ynode \<Rightarrow> (string \<times> bool \<times> (bool \<Rightarrow> show_lines \<Rightarrow> show_lines)) list
    \<Rightarrow> show_lines \<Rightarrow> show_lines \<times> lexn option" where
  "read_flags n [] f = (f, None)"
| "read_flags n ((key, d, upd) # ks) f = (case get_bool n key d of
      Inl e \<Rightarrow> (f, Some e)
    | Inr b \<Rightarrow> read_flags n ks (upd b f))"

definition flag_table :: "(string \<times> bool \<times> (bool \<Rightarrow> show_lines \<Rightarrow> show_lines)) list" where
  "flag_table =
     [(''trace'', False, \<lambda>b f. f\<lparr>show_trace := b\<rparr>),
      (''debug'', False, \<lambda>b f. f\<lparr>show_debug := b\<rparr>),
      (''info'', False, \<lambda>b f. f\<lparr>show_info := b\<rparr>),
      (''warn'', True, \<lambda>b f. f\<lparr>show_warn := b\<rparr>),
      (''error'', True, \<lambda>b f. f\<lparr>show_error := b\<rparr>),
      (''critical'', True, \<lambda>b f. f\<lparr>show_critical := b\<rparr>)]"

text \<open>\<open>spdlog::init_thread_pool\<close>: the number of threads is a \<open>size_t\<close>.\<close>

definition init_thread_pool :: "settings \<Rightarrow> lexn + unit" where
  "init_thread_pool s =
     (let n = unat (as_size_t (set_threads s))
      in if n = 0 \<or> n > 1000 then Inl (Spdlog BadThreadCount) else Inr ())"

section \<open>Loading a configuration file\<close>

text \<open>The part of \<open>loadConfigFile\<close> that reads the sinks and builds the logger.  With
  an empty sequence a console logger is built first and then replaced, as in the
  code, by the logger of the (empty) list of sinks.\<close>

definition make_logger :: "env \<Rightarrow> settings \<Rightarrow> lsink list \<Rightarrow> logger" where
  "make_logger e s sinks =
     \<lparr> lg_name = set_name s, lg_async = set_async s, lg_sinks = sinks,
       lg_level = (if e_debug e then set_debug s else set_release s),
       lg_flush_on = set_flush s, lg_pattern = set_pattern s \<rparr>"

definition build_logger :: "env \<Rightarrow> settings \<Rightarrow> ynode \<Rightarrow> files \<Rightarrow> (lexn + logger) \<times> files" where
  "build_logger e s sinks_node m =
     (if \<not> is_defined sinks_node \<or> is_null sinks_node \<or> \<not> is_sequence sinks_node
      then (Inl (Spdlog SinksInvalid), m)
      else
        (case (if node_size sinks_node = 0 \<and> set_async s then init_thread_pool s else Inr ()) of
           Inl x \<Rightarrow> (Inl x, m)
         | Inr _ \<Rightarrow>
             (case read_sinks e sinks_node [0..<node_size sinks_node] m of
                (Inl x, m) \<Rightarrow> (Inl x, m)
              | (Inr sinks, m) \<Rightarrow>
                  (rbind (if set_async s then init_thread_pool s else Inr ())
                     (\<lambda>_. Inr (make_logger e s sinks)), m))))"

text \<open>The nodes \<open>log_config\<close> and \<open>log_config.logger\<close> of a file.\<close>

definition config_nodes :: "env \<Rightarrow> files \<Rightarrow> path \<Rightarrow> lexn + ynode \<times> ynode" where
  "config_nodes e fs p =
     (case load_file (e_parse e) fs YNull p of
        (False, _) \<Rightarrow> Inl (Spdlog LoadFailed)
      | (True, root) \<Rightarrow>
          rbind (lift_yaml (get_node root ''log_config'')) (\<lambda>log_config.
          if \<not> is_defined log_config \<or> is_null log_config then Inl (Spdlog LogConfigMissing)
          else rbind (lift_yaml (get_node log_config ''logger'')) (\<lambda>logger.
          if \<not> is_defined logger \<or> is_null logger then Inl (Spdlog LoggerMissing)
          else Inr (log_config, logger))))"

text \<open>The state and the exception: the logger is reset first, the path is recorded
  once the sections are found, the flags are assigned before the sinks are read, the
  files stay as the constructors of the sinks left them.\<close>

definition load_config_file :: "env \<Rightarrow> log_state \<Rightarrow> path \<Rightarrow> log_state \<times> lexn option" where
  "load_config_file e st p =
     (let st = st\<lparr>m_logger := None\<rparr>
      in case config_nodes e (m_files st) p of
        Inl x \<Rightarrow> (st, Some x)
      | Inr (log_config, logger_node) \<Rightarrow>
          let st = st\<lparr>m_config_path := p\<rparr>
          in case read_settings logger_node of
            Inl x \<Rightarrow> (st, Some x)
          | Inr s \<Rightarrow>
            (case lift_yaml (get_node log_config ''showCodeLine'') of
              Inl x \<Rightarrow> (st, Some x)
            | Inr show_node \<Rightarrow>
              (let (flags, exc) = (if is_defined show_node \<and> \<not> is_null show_node
                                   then read_flags show_node flag_table (m_show st)
                                   else (m_show st, None));
                   st = st\<lparr>m_show := flags\<rparr>
               in case exc of
                 Some x \<Rightarrow> (st, Some x)
               | None \<Rightarrow>
                 (case lift_yaml (get_node log_config ''sinks'') of
                    Inl x \<Rightarrow> (st, Some x)
                  | Inr sinks_node \<Rightarrow>
                    (case build_logger e s sinks_node (m_files st) of
                       (Inl x, m) \<Rightarrow> (st\<lparr>m_files := m\<rparr>, Some x)
                     | (Inr lg, m) \<Rightarrow> (st\<lparr>m_files := m, m_logger := Some lg\<rparr>, None))))))"

section \<open>The default configuration\<close>

text \<open>A run of \<open>setDef<std::string>\<close> calls on one node.\<close>

fun set_strings :: "ynode \<Rightarrow> (string \<times> string) list \<Rightarrow> yexn + ynode" where
  "set_strings n [] = Inr n"
| "set_strings n ((k, v) # kvs) =
     rbind (set_def n k (AStr v)) (\<lambda>(_, n'). set_strings n' kvs)"

fun push_nodes :: "ynode \<Rightarrow> (string \<times> string) list list \<Rightarrow> yexn + ynode" where
  "push_nodes n [] = Inr n"
| "push_nodes n (kvs # rest) =
     rbind (set_strings YNull kvs) (\<lambda>v. rbind (push_back n v) (\<lambda>n'. push_nodes n' rest))"

definition default_logger_strings :: "(string \<times> string) list" where
  "default_logger_strings =
     [(''name'', ''default-log''), (''debug_level'', ''trace''), (''release_level'', ''info''),
      (''flush_on'', ''trace''), (''pattern'', default_pattern), (''async'', ''false''),
      (''async_queue_size'', ''8192''), (''async_thread_count'', ''1'')]"

definition default_show_strings :: "(string \<times> string) list" where
  "default_show_strings =
     [(''trace'', ''false''), (''debug'', ''false''), (''info'', ''false''),
      (''warn'', ''true''), (''error'', ''true''), (''critical'', ''true'')]"

definition default_sink_strings :: "(string \<times> string) list list" where
  "default_sink_strings =
     [[(''type'', ''stdout_color_sink_mt''), (''level'', ''trace'')],
      [(''type'', ''basic_file_sink_mt''), (''level'', ''trace''),
       (''file_path'', ''./logs/basic_file_sink_mt.log''), (''truncate'', ''false'')],
      [(''type'', ''rotating_file_mt''), (''level'', ''trace''),
       (''file_path'', ''./logs/rotating_file_mt.log''), (''max_size'', ''10240''),
       (''max_files'', ''5''), (''rotate_on_open'', ''false'')],
      [(''type'', ''daily_file_mt''), (''level'', ''trace''),
       (''file_path'', ''./logs/daily_file_mt.log''), (''rotation_hour'', ''0''),
       (''rotation_min'', ''0''), (''max_days'', ''7''), (''truncate'', ''false'')],
      [(''type'', ''count_rotating_file_mt''), (''level'', ''trace''),
       (''file_path'', ''./logs/count_rotating_file_mt.log''), (''max_count'', ''100000''),
       (''max_files'', ''5''), (''rotate_on_open'', ''false''),
       (''strict_count_on_open'', ''true'')],
      [(''type'', ''daily_size_rotating_file_mt''), (''level'', ''trace''),
       (''root_dir'', ''./logs''), (''name'', ''{date}''),
       (''date_name_format'', ''yyyy-MM-dd''), (''rotation_hour'', ''0''),
       (''rotation_min'', ''0''), (''max_size'', ''10240''), (''max_files'', ''5''),
       (''rotate_on_open'', ''false'')]]"

definition default_tree :: "yexn + ynode" where
  "default_tree =
     rbind (set_strings YNull default_logger_strings) (\<lambda>logger.
     rbind (set_strings YNull default_show_strings) (\<lambda>show_code_line.
     rbind (push_nodes YNull default_sink_strings) (\<lambda>sinks.
     rbind (add_node YNull ''logger'' logger) (\<lambda>log_config.
     rbind (add_node log_config ''showCodeLine'' show_code_line) (\<lambda>log_config.
     rbind (add_node log_config ''sinks'' sinks) (\<lambda>log_config.
     add_node YNull ''log_config'' log_config))))))"

text \<open>The logger the code installs before it writes the file: no sinks, level
  \<open>Warn\<close> (\<open>MZ_LOG_DEBUG\<close> is defined nowhere).\<close>

definition fallback_logger :: logger where
  "fallback_logger =
     \<lparr> lg_name = ''log-default'', lg_async = False, lg_sinks = [], lg_level = Warn,
       lg_flush_on = Off, lg_pattern = default_pattern \<rparr>"

definition default_flags :: show_lines where
  "default_flags =
     \<lparr> show_trace = False, show_debug = False, show_info = False,
       show_warn = True, show_error = True, show_critical = True \<rparr>"

text \<open>\<open>loadDefaultConfig\<close>.  Building the tree is outside the \<open>try\<close>; saving and
  loading are inside, and everything they throw is swallowed.\<close>

definition load_default_config :: "env \<Rightarrow> log_state \<Rightarrow> path \<Rightarrow> log_state \<times> lexn option" where
  "load_default_config e st p =
     (let st = st\<lparr>m_logger := Some fallback_logger, m_show := default_flags\<rparr>
      in case lift_yaml default_tree of
        Inl x \<Rightarrow> (st, Some x)
      | Inr root \<Rightarrow>
        (case save_as_file (e_emit e) (e_writable e) (m_files st) root p of
           Inl _ \<Rightarrow> (st, None)
         | Inr fs \<Rightarrow>
           (let st = st\<lparr>m_files := fs, m_config_path := p\<rparr>
            in (fst (load_config_file e st p), None))))"

definition delete_old_config :: "files \<Rightarrow> path \<Rightarrow> files" where
  "delete_old_config fs p =
     (if p \<noteq> [] \<and> fs_exists fs p then fs_remove fs p else fs)"

section \<open>Setting the path, and the constructor\<close>

text \<open>The handler both share: \<open>spdlog_ex\<close> selects the default configuration, any other
  exception passes through.\<close>

definition load_or_default :: "env \<Rightarrow> log_state \<Rightarrow> path \<Rightarrow> log_state \<times> lexn option" where
  "load_or_default e st p =
     (case load_config_file e st p of
        (st', None) \<Rightarrow> (st', None)
      | (st', Some (Spdlog _)) \<Rightarrow> load_default_config e st' p
      | (st', Some x) \<Rightarrow> (st', Some x))"

definition set_config_path :: "env \<Rightarrow> log_state \<Rightarrow> path \<Rightarrow> bool \<Rightarrow> log_state \<times> lexn option" where
  "set_config_path e st p is_delete_old_config =
     (let old_config_path = m_config_path st
      in case load_or_default e st p of
        (st', Some x) \<Rightarrow> (st', Some x)
      | (st', None) \<Rightarrow>
          (if is_delete_old_config
           then st'\<lparr>m_files := delete_old_config (m_files st') old_config_path\<rparr>
           else st', None))"

definition initial_path :: path where
  "initial_path = ''./log_config.yaml''"

text \<open>The static initialisers, then \<open>LogPrivate::LogPrivate\<close>.\<close>

definition initial_state :: "u64 \<Rightarrow> files \<Rightarrow> log_state" where
  "initial_state seed fs =
     \<lparr> m_logger = None, m_config_path = initial_path, m_show = default_flags,
       m_callbacks = Map.empty, m_next_ptr = 0, m_counter = seed, m_files = fs \<rparr>"

definition construct :: "env \<Rightarrow> u64 \<Rightarrow> files \<Rightarrow> log_state \<times> lexn option" where
  "construct e seed fs = load_or_default e (initial_state seed fs) initial_path"

section \<open>Typed reads of scalars\<close>

lemma get_str_scalar:
  "kv_find key kvs = Some (YScalar s) \<Longrightarrow> get_str (YMap kvs) key d = Inr s"
  by (simp add: get_str_def lift_yaml_def get_def_map field_def registry_read_def any_type_def)

lemma get_int_scalar:
  "kv_find key kvs = Some (YScalar s) \<Longrightarrow> decode_int s = Some i \<Longrightarrow> get_int (YMap kvs) key d = Inr i"
  by (simp add: get_int_def lift_yaml_def get_def_map field_def registry_read_def any_type_def
      conv_result_def)

lemma get_bool_scalar:
  "kv_find key kvs = Some (YScalar s) \<Longrightarrow> decode_bool s = Some b \<Longrightarrow> get_bool (YMap kvs) key d = Inr b"
  by (simp add: get_bool_def lift_yaml_def get_def_map field_def registry_read_def any_type_def
      conv_result_def)

lemma get_int_missing: "field n key = None \<Longrightarrow> \<not> is_scalar n \<Longrightarrow> get_int n key d = Inr d"
  by (simp add: get_int_def lift_yaml_def get_def_eq)

lemmas typed_reads = get_str_scalar get_int_scalar get_bool_scalar key_is_def

section \<open>The size limit\<close>

lemma kb_to_bits_eq: "kb_to_bits i = signed_take_bit 31 (i * 8192)"
proof -
  have "word_of_int i * 8 * 1024 = (word_of_int (i * 8192) :: 32 word)"
    by (simp add: mult.assoc)
  then show ?thesis unfolding kb_to_bits_def by (simp only: sint_sbintrunc') simp
qed

lemma kb_to_bits_zero: "kb_to_bits i = 0 \<longleftrightarrow> 524288 dvd i"
proof -
  have "kb_to_bits i = 0 \<longleftrightarrow> signed_take_bit 31 (i * 8192) = signed_take_bit 31 0"
    by (simp add: kb_to_bits_eq)
  also have "\<dots> \<longleftrightarrow> take_bit 32 (i * 8192) = 0"
    using signed_take_bit_eq_iff_take_bit_eq [of 31 "i * 8192" 0] by simp
  also have "\<dots> \<longleftrightarrow> 524288 * 8192 dvd i * 8192"
    by (simp add: take_bit_eq_0_iff)
  also have "\<dots> \<longleftrightarrow> 524288 dvd i"
    by (subst dvd_mult_cancel_right) simp
  finally show ?thesis .
qed

lemma get_str_not_scalar: "get_str n key d = Inr s \<Longrightarrow> \<not> is_scalar n"
  by (auto simp: get_str_def lift_yaml_def get_def_eq)

lemma max_size_missing:
  assumes "field n ''max_size'' = None" and "get_str n key d = Inr s"
  shows "get_int n ''max_size'' 52428800 = Inr 52428800" and "as_size_t (kb_to_bits 52428800) = 0"
  using get_int_missing [OF assms(1) get_str_not_scalar [OF assms(2)]] kb_to_bits_zero [of 52428800]
  by (simp_all add: as_size_t_def)

text \<open>
  C20. The multiplication by 8 * 1024 in \<open>int\<close> keeps the configured size exactly
  when the size is below 262144 in absolute value; it gives 0 exactly for the
  multiples of 524288, among them the default 52428800.  So a sink without a
  \<open>max_size\<close> cannot be built: the rotating sink throws a \<open>spdlog_ex\<close>, the daily
  one a \<open>std::invalid_argument\<close>.
\<close>
theorem max_size_wraps:
  "(kb_to_bits v = v * 8192 \<longleftrightarrow> - 262144 \<le> v \<and> v < 262144)
    \<and> (kb_to_bits v = 0 \<longleftrightarrow> 524288 dvd v)
    \<and> (field n ''max_size'' = None \<and> get_str n ''file_path'' [] = Inr (c # cs)
         \<and> get_int n ''max_files'' 10 = Inr f \<and> get_bool n ''rotate_on_open'' False = Inr b \<longrightarrow>
         read_rotating_sink e n = Inl (Spdlog ZeroMaxSize))
    \<and> (field n ''max_size'' = None \<and> get_str n ''root_dir'' [] = Inr (c # cs)
         \<and> get_str n ''name'' ''{date}'' = Inr m
         \<and> get_str n ''date_name_format'' ''yyyy-MM-dd'' = Inr d
         \<and> get_int n ''rotation_hour'' 0 = Inr 0 \<and> get_int n ''rotation_min'' 0 = Inr 0
         \<and> get_int n ''max_files'' 10 = Inr f \<and> get_bool n ''rotate_on_open'' False = Inr b \<longrightarrow>
         read_daily_size_sink e n = Inl (Std (Invalid_argument ''max_size_bits must be > 0'')))"
proof (intro conjI impI; (elim conjE)?)
  show "kb_to_bits v = v * 8192 \<longleftrightarrow> - 262144 \<le> v \<and> v < 262144"
    by (auto simp: kb_to_bits_eq signed_take_bit_int_eq_self_iff)
  show "kb_to_bits v = 0 \<longleftrightarrow> 524288 dvd v" by (rule kb_to_bits_zero)
next
  assume "field n ''max_size'' = None" and p: "get_str n ''file_path'' [] = Inr (c # cs)"
    and "get_int n ''max_files'' 10 = Inr f" and "get_bool n ''rotate_on_open'' False = Inr b"
  then show "read_rotating_sink e n = Inl (Spdlog ZeroMaxSize)"
    using max_size_missing [OF _ p] by (simp add: read_rotating_sink_def make_rotating_def)
next
  assume "field n ''max_size'' = None" and p: "get_str n ''root_dir'' [] = Inr (c # cs)"
    and "get_str n ''name'' ''{date}'' = Inr m"
    and "get_str n ''date_name_format'' ''yyyy-MM-dd'' = Inr d"
    and "get_int n ''rotation_hour'' 0 = Inr 0" and "get_int n ''rotation_min'' 0 = Inr 0"
    and "get_int n ''max_files'' 10 = Inr f" and "get_bool n ''rotate_on_open'' False = Inr b"
  then show "read_daily_size_sink e n = Inl (Std (Invalid_argument ''max_size_bits must be > 0''))"
    using max_size_missing [OF _ p]
    by (simp add: read_daily_size_sink_def make_daily_sink_def bits_to_bytes_def)
qed

theorem max_size_wraps_witness:
  "\<forall>e. read_rotating_sink e (YMap [(YScalar ''file_path'', YScalar ''a.log'')])
     = Inl (Spdlog ZeroMaxSize)"
proof -
  let ?n = "YMap [(YScalar ''file_path'', YScalar ''a.log'')]"
  have "get_str ?n ''file_path'' [] = Inr ''a.log''" by (simp add: typed_reads)
  moreover have "field ?n ''max_size'' = None" by (simp add: field_def key_is_def)
  moreover have "get_int ?n ''max_files'' 10 = Inr 10" "get_bool ?n ''rotate_on_open'' False = Inr False"
    by code_simp+
  ultimately show ?thesis using max_size_wraps by blast
qed

section \<open>The sinks of a configuration and their files\<close>

text \<open>The files the constructor of a sink may create, empty, move or replace.\<close>

definition ctor_foot :: "env \<Rightarrow> sink_kind \<Rightarrow> path set" where
  "ctor_foot e k = (case k of
      BasicFile p trunc \<Rightarrow> {p}
    | RotatingFile p max_size max_files rotate_on_open \<Rightarrow>
        (if rotate_on_open then calc_filename p ` {..max_files} else {p})
    | DailyFile p hour minute trunc max_days \<Rightarrow> {g_name (e_tz e) p (e_now e)}
    | _ \<Rightarrow> {})"

lemma construct_files_frame: "q \<notin> ctor_foot e k \<Longrightarrow> construct_files e k m q = m q"
proof (cases k)
  case (RotatingFile p max_size max_files rotate_on_open)
  assume q: "q \<notin> ctor_foot e k"
  show ?thesis
  proof (cases "open_rotating p max_size max_files rotate_on_open m")
    case (Inr sm)
    obtain s m' where sm: "sm = (s, m')" by fastforce
    have "m' q = m q"
    proof (cases rotate_on_open)
      case True
      then have "\<forall>i \<le> max_files. q \<noteq> calc_filename p i" using q RotatingFile by (auto simp: ctor_foot_def)
      then show ?thesis using open_rotating_ok(7) [OF Inr [unfolded sm]] by blast
    next
      case False
      then show ?thesis using q RotatingFile Inr
        by (auto simp: sm ctor_foot_def open_rotating_def Let_def split: if_splits)
    qed
    then show ?thesis by (simp add: construct_files_def RotatingFile Inr sm)
  qed (simp add: construct_files_def RotatingFile)
qed (auto simp: construct_files_def ctor_foot_def open_basic_def open_daily_def Let_def)

text \<open>The constructor accepts what the configuration accepts.\<close>

lemma make_rotating_opens:
  assumes "make_rotating e p (of_nat max_size) (of_nat max_files) rotate_on_open = Inr k"
    and "max_size < 2 ^ 64" "max_files < 2 ^ 64"
  shows "k = RotatingFile p max_size max_files rotate_on_open"
    and "\<exists>s m0. open_rotating p max_size max_files rotate_on_open m = Inr (s, m0)"
proof -
  have "max_size \<noteq> 0" using assms(1) by (cases "max_size = 0") (simp_all add: make_rotating_def)
  then show "k = RotatingFile p max_size max_files rotate_on_open"
    and "\<exists>s m0. open_rotating p max_size max_files rotate_on_open m = Inr (s, m0)"
    using assms
    by (auto simp: make_rotating_def open_rotating_def open_log_def rbind_def unat_of_nat Let_def
        split: if_splits)
qed

text \<open>The sinks constructed before the loop ends, with or without an exception.\<close>

fun opened_sinks :: "env \<Rightarrow> ynode \<Rightarrow> nat list \<Rightarrow> lsink list" where
  "opened_sinks e n [] = []"
| "opened_sinks e n (i # is) = (case read_element e n i of
      Inl x \<Rightarrow> []
    | Inr None \<Rightarrow> opened_sinks e n is
    | Inr (Some s) \<Rightarrow> s # opened_sinks e n is)"

lemma read_sinks_files:
  "snd (read_sinks e n is m) = fold (construct_files e) (map sk_kind (opened_sinks e n is)) m"
  by (induction "is" arbitrary: m) (auto split: sum.split option.split prod.split, (metis snd_conv)+)

text \<open>What the loop answers: every element has to be readable, and each gives at most one
  sink.\<close>

definition readable_element :: "env \<Rightarrow> ynode \<Rightarrow> nat \<Rightarrow> bool" where
  "readable_element e n i \<longleftrightarrow> \<not> isl (read_element e n i)"

definition element_sink :: "env \<Rightarrow> ynode \<Rightarrow> nat \<Rightarrow> lsink option" where
  "element_sink e n i = (case read_element e n i of Inl x \<Rightarrow> None | Inr s \<Rightarrow> s)"

lemma read_sinks_answer:
  "fst (read_sinks e n is m) = Inr ss \<longleftrightarrow>
     (\<forall>i \<in> set is. readable_element e n i) \<and> ss = List.map_filter (element_sink e n) is"
proof (induction "is" arbitrary: m ss)
  case (Cons i "is")
  show ?case
  proof (cases "read_element e n i")
    case (Inr r)
    show ?thesis
    proof (cases r)
      case None
      then show ?thesis using Cons.IH Inr
        by (simp add: readable_element_def element_sink_def List.map_filter_simps)
    next
      case (Some s)
      have "fst (read_sinks e n (i # is) m) = Inr ss \<longleftrightarrow>
          (\<exists>ts. fst (read_sinks e n is (construct_files e (sk_kind s) m)) = Inr ts \<and> ss = s # ts)"
        by (auto simp: Inr Some split: sum.split prod.split)
      then show ?thesis using Cons.IH Inr Some
        by (auto simp: readable_element_def element_sink_def List.map_filter_simps)
    qed
  qed (simp add: readable_element_def)
qed (auto simp: List.map_filter_simps)

lemma opened_sinks_all:
  "\<forall>i \<in> set is. readable_element e n i \<Longrightarrow> opened_sinks e n is = List.map_filter (element_sink e n) is"
  by (induction "is")
     (auto simp: readable_element_def element_sink_def List.map_filter_simps split: sum.split option.split)

text \<open>The sinks a document names, as far as they are constructed when it is loaded.\<close>

definition text_sinks :: "env \<Rightarrow> string option \<Rightarrow> lsink list" where
  "text_sinks e t = (case config_nodes e (\<lambda>_. t) [] of
      Inl x \<Rightarrow> []
    | Inr (log_config, logger) \<Rightarrow> (case get_node log_config ''sinks'' of
        Inl x \<Rightarrow> []
      | Inr n \<Rightarrow> opened_sinks e n [0..<node_size n]))"

definition text_foot :: "env \<Rightarrow> string option \<Rightarrow> path set" where
  "text_foot e t = (\<Union>s \<in> set (text_sinks e t). ctor_foot e (sk_kind s))"

lemma config_nodes_text: "config_nodes e fs p = config_nodes e (\<lambda>_. fs p) []"
  by (simp add: config_nodes_def load_file_def yaml_load_file_def split: option.split sum.split)

lemma fold_construct_frame:
  "\<forall>k \<in> set ks. q \<notin> ctor_foot e k \<Longrightarrow> fold (construct_files e) ks m q = m q"
  by (induction ks arbitrary: m) (simp_all add: construct_files_frame)

lemma build_logger_files:
  "snd (build_logger e s n m) = m
     \<or> snd (build_logger e s n m) = fold (construct_files e) (map sk_kind (opened_sinks e n [0..<node_size n])) m"
  using read_sinks_files [of e n "[0..<node_size n]" m]
  by (auto simp: build_logger_def split: sum.split prod.split)

lemma build_logger_answer:
  "build_logger e s n m = (Inr lg, m') \<longleftrightarrow>
     is_defined n \<and> \<not> is_null n \<and> is_sequence n
     \<and> (\<forall>i < node_size n. readable_element e n i)
     \<and> (set_async s \<longrightarrow> init_thread_pool s = Inr ())
     \<and> lg = make_logger e s (List.map_filter (element_sink e n) [0..<node_size n])
     \<and> m' = fold (construct_files e) (map sk_kind (lg_sinks lg)) m"
proof -
  let ?is = "[0..<node_size n]"
  obtain r m1 where r: "read_sinks e n ?is m = (r, m1)" by fastforce
  have f: "m1 = fold (construct_files e) (map sk_kind (opened_sinks e n ?is)) m"
    using read_sinks_files [of e n ?is m] r by simp
  have a: "r = Inr ss \<longleftrightarrow> (\<forall>i < node_size n. readable_element e n i) \<and> ss = List.map_filter (element_sink e n) ?is" for ss
    using read_sinks_answer [of e n ?is m ss] r by auto
  have o: "opened_sinks e n ?is = List.map_filter (element_sink e n) ?is"
    if "\<forall>i < node_size n. readable_element e n i"
    by (rule opened_sinks_all) (use that in simp)
  have z: "r = Inr [] \<and> m1 = m" if "node_size n = 0" using r that by auto
  have "build_logger e s n m = (Inr lg, m') \<longleftrightarrow>
      is_defined n \<and> \<not> is_null n \<and> is_sequence n \<and> (set_async s \<longrightarrow> init_thread_pool s = Inr ())
      \<and> (\<exists>ss. r = Inr ss \<and> lg = make_logger e s ss) \<and> m' = m1"
    using z by (cases r) (auto simp: build_logger_def r result_simps split: sum.split if_splits)
  then show ?thesis unfolding a using f o by (auto simp: make_logger_def)
qed

lemma build_logger_done:
  "build_logger e s n m = (Inr lg, m') \<Longrightarrow> m' = fold (construct_files e) (map sk_kind (lg_sinks lg)) m"
  by (simp add: build_logger_answer)

section \<open>What the handlers do with failures\<close>

lemma load_config_file_fail:
  "config_nodes e (m_files st) p = Inl x \<Longrightarrow>
     load_config_file e st p = (st\<lparr>m_logger := None\<rparr>, Some x)"
  by (simp add: load_config_file_def)

lemma load_config_file_files:
  assumes "q \<notin> text_foot e (m_files st p)"
  shows "m_files (fst (load_config_file e st p)) q = m_files st q"
proof (cases "config_nodes e (m_files st) p")
  case (Inr cl)
  obtain c l where cl: "cl = (c, l)" by fastforce
  show ?thesis
  proof (cases "get_node c ''sinks''")
    case (Inl x)
    then show ?thesis using Inr
      by (auto simp: load_config_file_def Let_def lift_yaml_def cl split: sum.splits option.splits prod.splits)
  next
    case sn: (Inr n)
    let ?ks = "map sk_kind (opened_sinks e n [0..<node_size n])"
    have "config_nodes e (\<lambda>_. m_files st p) [] = Inr (c, l)"
      using Inr cl config_nodes_text [of e "m_files st" p] by simp
    then have "\<forall>k \<in> set ?ks. q \<notin> ctor_foot e k"
      using assms sn by (auto simp: text_foot_def text_sinks_def)
    from fold_construct_frame [OF this, of "m_files st"]
    have b: "snd (build_logger e s n (m_files st)) q = m_files st q" for s
      using build_logger_files [of e s n "m_files st"] by (elim disjE) simp_all
    have b': "m' q = m_files st q" if "build_logger e s n (m_files st) = (r, m')" for s r m'
      using b [of s] that by simp
    then show ?thesis using Inr sn
      by (auto simp: load_config_file_def Let_def lift_yaml_def cl split: sum.splits option.splits prod.splits)
  qed
qed (simp add: load_config_file_fail)

lemma load_config_file_frame:
  "m_callbacks (fst (load_config_file e st p)) = m_callbacks st"
  "m_next_ptr (fst (load_config_file e st p)) = m_next_ptr st"
  "m_counter (fst (load_config_file e st p)) = m_counter st"
  by (auto simp: load_config_file_def Let_def split: sum.splits option.splits prod.splits)

lemma load_config_file_logger:
  "snd (load_config_file e st p) = Some x \<Longrightarrow> m_logger (fst (load_config_file e st p)) = None"
  "snd (load_config_file e st p) = None \<Longrightarrow> m_logger (fst (load_config_file e st p)) \<noteq> None"
  by (auto simp: load_config_file_def Let_def split: sum.splits option.splits prod.splits)

lemma load_config_file_done:
  assumes "snd (load_config_file e st p) = None"
  shows "\<exists>lg. m_logger (fst (load_config_file e st p)) = Some lg
    \<and> m_files (fst (load_config_file e st p)) = fold (construct_files e) (map sk_kind (lg_sinks lg)) (m_files st)"
    "m_config_path (fst (load_config_file e st p)) = p"
  using assms
  by (auto simp: load_config_file_def Let_def dest: build_logger_done split: sum.splits option.splits prod.splits)

text \<open>The tree of the default configuration, written out.\<close>

definition string_map :: "(string \<times> string) list \<Rightarrow> ynode" where
  "string_map kvs = YMap (map (\<lambda>(k, v). (YScalar k, YScalar v)) kvs)"

definition default_node :: ynode where
  "default_node = YMap [(YScalar ''log_config'', YMap
     [(YScalar ''logger'', string_map default_logger_strings),
      (YScalar ''showCodeLine'', string_map default_show_strings),
      (YScalar ''sinks'', YSeq (map string_map default_sink_strings))])]"

lemma default_tree_eq: "default_tree = Inr default_node"
  by code_simp

lemma load_default_config_files:
  assumes "q \<noteq> p" and "q \<notin> text_foot e (Some (e_emit e default_node))" and "q \<notin> text_foot e (m_files st p)"
  shows "m_files (fst (load_default_config e st p)) q = m_files st q"
proof -
  let ?st = "st\<lparr>m_logger := Some fallback_logger, m_show := default_flags\<rparr>"
  let ?fs = "if e_writable e p then (m_files st)(p \<mapsto> e_emit e default_node) else m_files st"
  have "fst (load_default_config e st p)
      = fst (load_config_file e (?st\<lparr>m_files := ?fs, m_config_path := p\<rparr>) p)"
    by (simp add: load_default_config_def Let_def default_tree_eq lift_yaml_def save_as_file_def
        default_node_def is_defined_def is_null_def)
  moreover have "q \<notin> text_foot e (?fs p)" using assms by simp
  ultimately show ?thesis
    using load_config_file_files [of q e "?st\<lparr>m_files := ?fs, m_config_path := p\<rparr>" p] assms(1) by simp
qed

lemma load_default_config_frame:
  "m_callbacks (fst (load_default_config e st p)) = m_callbacks st"
  "m_next_ptr (fst (load_default_config e st p)) = m_next_ptr st"
  "m_counter (fst (load_default_config e st p)) = m_counter st"
  "snd (load_default_config e st p) = None"
  by (auto simp: load_default_config_def Let_def default_tree_eq lift_yaml_def
      load_config_file_frame save_as_file_def split: sum.splits if_splits)

lemma load_or_default_cases:
  obtains st1 where "load_config_file e st p = (st1, None)" "load_or_default e st p = (st1, None)"
  | st1 x where "load_config_file e st p = (st1, Some (Spdlog x))"
      "load_or_default e st p = load_default_config e st1 p"
  | st1 x where "load_config_file e st p = (st1, Some x)" "\<forall>s. x \<noteq> Spdlog s"
      "load_or_default e st p = (st1, Some x)"
proof (cases "load_config_file e st p")
  case (Pair st1 r)
  then show thesis
  proof (cases r)
    case (Some x)
    with Pair that(2,3) show thesis by (cases x) (auto simp: load_or_default_def)
  qed (use Pair that(1) in \<open>auto simp: load_or_default_def\<close>)
qed

lemma load_or_default_frame:
  "m_callbacks (fst (load_or_default e st p)) = m_callbacks st"
  "m_next_ptr (fst (load_or_default e st p)) = m_next_ptr st"
  "m_counter (fst (load_or_default e st p)) = m_counter st"
  using load_config_file_frame [of e st p]
  by (rule_tac [!] load_or_default_cases [of e st p]) (auto simp: load_default_config_frame)

text \<open>The texts from which sinks may be constructed: what the path holds, what it holds after
  a failed attempt, the default configuration.\<close>

definition config_texts :: "env \<Rightarrow> log_state \<Rightarrow> path \<Rightarrow> string option set" where
  "config_texts e st p =
     {m_files st p, m_files (fst (load_config_file e st p)) p, Some (e_emit e default_node)}"

lemma load_or_default_files:
  assumes "q \<notin> \<Union> (text_foot e ` config_texts e st p)"
    and "q \<noteq> p \<or> snd (load_config_file e st p) = None"
  shows "m_files (fst (load_or_default e st p)) q = m_files st q"
proof -
  have f: "m_files (fst (load_config_file e st p)) q = m_files st q"
    by (rule load_config_file_files) (use assms(1) in \<open>simp add: config_texts_def\<close>)
  show ?thesis
  proof (rule load_or_default_cases [of e st p])
    fix st1 x
    assume 1: "load_config_file e st p = (st1, Some (Spdlog x))"
      "load_or_default e st p = load_default_config e st1 p"
    then have "q \<noteq> p" "q \<notin> text_foot e (Some (e_emit e default_node))" "q \<notin> text_foot e (m_files st1 p)"
      using assms by (auto simp: config_texts_def)
    from load_default_config_files [OF this] show ?thesis using 1 f by simp
  qed (use f in simp_all)
qed

text \<open>
  C18. Of the exceptions raised while configuring only \<open>spdlog_ex\<close> is handled.  If
  one escapes it is of another kind and the process is left without a logger;
  a scalar document raises such an exception.  The default configuration itself
  ends without a logger when the file cannot be written and there is none to
  load.
\<close>
theorem configuration_failures:
  "(snd (load_or_default e st p) = Some x \<longrightarrow>
      (\<forall>s. x \<noteq> Spdlog s) \<and> m_logger (fst (load_or_default e st p)) = None)
   \<and> (m_files st p = Some t \<and> e_parse e t = Inr (Some (YScalar v)) \<longrightarrow>
      load_or_default e st p
        = (st\<lparr>m_logger := None\<rparr>, Some (Yaml (BadSubscript ''log_config''))))
   \<and> (m_files st p = None \<and> \<not> e_writable e p \<longrightarrow>
      snd (load_or_default e st p) = None \<and> m_logger (fst (load_or_default e st p)) = None)"
proof (intro conjI impI; (elim conjE)?)
  assume x: "snd (load_or_default e st p) = Some x"
  show "\<forall>s. x \<noteq> Spdlog s"
    by (rule load_or_default_cases [of e st p]) (use x load_default_config_frame(4) in auto)
  show "m_logger (fst (load_or_default e st p)) = None"
    by (rule load_or_default_cases [of e st p])
       (use x load_default_config_frame(4) load_config_file_logger(1) [of e st p] in auto)
next
  assume "m_files st p = Some t" and "e_parse e t = Inr (Some (YScalar v))"
  then have "config_nodes e (m_files st) p = Inl (Yaml (BadSubscript ''log_config''))"
    by (simp add: config_nodes_def load_file_def yaml_load_file_def is_defined_def get_node_def
        is_null_def node_get_def lift_yaml_def)
  then show "load_or_default e st p
      = (st\<lparr>m_logger := None\<rparr>, Some (Yaml (BadSubscript ''log_config'')))"
    by (simp add: load_or_default_def load_config_file_fail)
next
  assume none: "m_files st p = None" and "\<not> e_writable e p"
  have nodes: "config_nodes e fs p = Inl (Spdlog LoadFailed)" if "fs p = None" for fs
    using that by (simp add: config_nodes_def load_file_def yaml_load_file_def)
  have "load_or_default e st p = load_default_config e (st\<lparr>m_logger := None\<rparr>) p"
    using nodes [of "m_files st"] none by (simp add: load_or_default_def load_config_file_fail)
  also have "\<dots> = (st\<lparr>m_logger := None, m_show := default_flags, m_config_path := p\<rparr>, None)"
    using nodes [of "m_files st"] none \<open>\<not> e_writable e p\<close>
    by (simp add: load_default_config_def default_tree_eq lift_yaml_def save_as_file_def
        is_defined_def is_null_def default_node_def load_config_file_fail)
  finally show "snd (load_or_default e st p) = None" "m_logger (fst (load_or_default e st p)) = None"
    by simp_all
qed

theorem configuration_failures_witness:
  "\<exists>st. snd (load_or_default \<lparr>e_parse = (\<lambda>t. Inr (Some (YScalar t))), e_emit = (\<lambda>_. []),
       e_writable = (\<lambda>_. True), e_open_log = (\<lambda>_. True), e_tz = tz_utc_day, e_now = 0,
       e_debug = True\<rparr> st ''c.yaml'') = Some (Yaml (BadSubscript ''log_config''))"
proof -
  let ?e = "\<lparr>e_parse = (\<lambda>t. Inr (Some (YScalar t))), e_emit = (\<lambda>_. []),
       e_writable = (\<lambda>_. True), e_open_log = (\<lambda>_. True), e_tz = tz_utc_day, e_now = 0,
       e_debug = True\<rparr> :: env"
  let ?st = "initial_state 0 [''c.yaml'' \<mapsto> ''hello'']"
  have "m_files ?st ''c.yaml'' = Some ''hello''" by (simp add: initial_state_def)
  moreover have "e_parse ?e ''hello'' = Inr (Some (YScalar ''hello''))" by simp
  ultimately have "load_or_default ?e ?st ''c.yaml''
      = (?st\<lparr>m_logger := None\<rparr>, Some (Yaml (BadSubscript ''log_config'')))"
    using configuration_failures [of ?e ?st "''c.yaml''" _ "''hello''" "''hello''"] by blast
  then show ?thesis by (metis snd_conv)
qed

text \<open>
  C17. Setting the configuration path touches no file but those the constructors of the
  configured sinks open or rotate, the new configuration file, which only the default
  configuration overwrites, and the old one, which is deleted when the caller asks for it
  (as the default argument does) and nothing escaped.  When the configuration loads, the
  files are exactly what the constructors of the sinks of the new logger, in their order,
  make of the files there were, without the old configuration.  In particular the path
  already in use can be set again only at the price of its file: it is loaded and then
  deleted.
\<close>
theorem set_config_path_files:
  assumes "set_config_path e st p del = (st', exc)"
  shows "(q \<notin> \<Union> (text_foot e ` config_texts e st p)
        \<and> (q \<noteq> p \<or> snd (load_config_file e st p) = None)
        \<and> (q \<noteq> m_config_path st \<or> \<not> del \<or> exc \<noteq> None) \<longrightarrow> m_files st' q = m_files st q)
    \<and> (exc = None \<and> del \<and> m_config_path st \<noteq> [] \<longrightarrow> m_files st' (m_config_path st) = None)
    \<and> (snd (load_config_file e st p) = None \<longrightarrow> exc = None \<and> m_config_path st' = p
        \<and> (\<exists>lg. m_logger st' = Some lg
          \<and> m_files st' = (let fs = fold (construct_files e) (map sk_kind (lg_sinks lg)) (m_files st)
              in if del \<and> m_config_path st \<noteq> [] then fs(m_config_path st := None) else fs)))"
proof (intro conjI impI; (elim conjE)?)
  note l = assms [unfolded set_config_path_def Let_def]
  show "m_files st' q = m_files st q"
    if "q \<notin> \<Union> (text_foot e ` config_texts e st p)" "q \<noteq> p \<or> snd (load_config_file e st p) = None"
      "q \<noteq> m_config_path st \<or> \<not> del \<or> exc \<noteq> None"
    using l that(3) load_or_default_files [OF that(1,2)]
    by (auto simp: delete_old_config_def fs_remove_def split: prod.splits option.splits if_splits)
  show "m_files st' (m_config_path st) = None" if "exc = None" "del" "m_config_path st \<noteq> []"
    using l that
    by (auto simp: delete_old_config_def fs_remove_def fs_exists_def
        split: prod.splits option.splits if_splits)
  assume ok: "snd (load_config_file e st p) = None"
  then have ld: "load_or_default e st p = (fst (load_config_file e st p), None)"
    by (auto simp: load_or_default_def split: prod.splits)
  obtain lg where lg: "m_logger (fst (load_config_file e st p)) = Some lg"
      "m_files (fst (load_config_file e st p)) = fold (construct_files e) (map sk_kind (lg_sinks lg)) (m_files st)"
    using load_config_file_done(1) [OF ok] by blast
  show "exc = None" "m_config_path st' = p"
    using l load_config_file_done(2) [OF ok] by (auto simp: ld split: if_splits)
  have "delete_old_config fs old = (if old \<noteq> [] then fs(old := None) else fs)" for fs old
    by (auto simp: delete_old_config_def fs_remove_def fs_exists_def)
  then show "\<exists>lg. m_logger st' = Some lg
      \<and> m_files st' = (let fs = fold (construct_files e) (map sk_kind (lg_sinks lg)) (m_files st)
          in if del \<and> m_config_path st \<noteq> [] then fs(m_config_path st := None) else fs)"
    using l lg by (auto simp: ld Let_def split: if_splits)
qed

text \<open>An environment whose parser knows the text \<open>T\<close> of one tree.\<close>

definition one_text_env :: "ynode \<Rightarrow> env" where
  "one_text_env n =
     \<lparr> e_parse = (\<lambda>t. if t = ''T'' then Inr (Some n) else Inl ''error''), e_emit = (\<lambda>_. ''T''),
       e_writable = (\<lambda>_. True), e_open_log = (\<lambda>_. True), e_tz = tz_utc_day, e_now = 0,
       e_debug = True \<rparr>"

section \<open>The default configuration loads\<close>

lemma kv_find_string_map:
  "kv_find k (map (\<lambda>(k, v). (YScalar k, YScalar v)) kvs) = map_option YScalar (map_of kvs k)"
  by (induction kvs) (auto simp: key_is_def)

lemma get_str_string_map: "map_of kvs key = Some s \<Longrightarrow> get_str (string_map kvs) key d = Inr s"
  by (simp add: string_map_def get_str_scalar kv_find_string_map)

lemma get_int_string_map:
  "map_of kvs key = Some s \<Longrightarrow> decode_int s = Some i \<Longrightarrow> get_int (string_map kvs) key d = Inr i"
  by (simp add: string_map_def get_int_scalar kv_find_string_map)

lemma get_bool_string_map:
  "map_of kvs key = Some ''true'' \<Longrightarrow> get_bool (string_map kvs) key d = Inr True"
  "map_of kvs key = Some ''false'' \<Longrightarrow> get_bool (string_map kvs) key d = Inr False"
  using get_bool_scalar [OF _ decode_bool_encode(1)] get_bool_scalar [OF _ decode_bool_encode(2)]
  by (simp_all add: string_map_def kv_find_string_map)

lemma decode_default_numbers:
  "decode_int ''0'' = Some 0" "decode_int ''5'' = Some 5" "decode_int ''7'' = Some 7"
  "decode_int ''10240'' = Some 10240" "decode_int ''100000'' = Some 100000"
  by (simp_all add: decode_int_def split_sign_def read_magnitude_def base_digit_def is_digit_def
      ascii_lower_def ascii_upper_def Let_def)

lemma size_t_default_numbers:
  "kb_to_bits 10240 = 83886080"
  "as_size_t 83886080 = 83886080" "as_size_t 5 = 5" "as_size_t 100000 = 100000"
  "as_uint16 7 = 7"
  by (simp_all add: kb_to_bits_eq signed_take_bit_int_eq_self as_size_t_def as_uint16_def)

lemma level_from_trace: "level_from_str ''trace'' = Trace"
  by (simp add: level_from_str_def level_names_def)

lemmas default_reads = get_str_string_map get_int_string_map get_bool_string_map
  decode_default_numbers size_t_default_numbers level_from_trace open_log_def

text \<open>The sinks of the default configuration.\<close>

definition default_daily_size :: "env \<Rightarrow> daily_sink" where
  "default_daily_size e = (case make_daily_sink (e_tz e) (e_now e) ''./logs'' ''{date}'' ''yyyy-MM-dd'' 0 0
       83886080 5 False of Inr s \<Rightarrow> s | Inl _ \<Rightarrow> undefined)"

definition default_kinds :: "env \<Rightarrow> sink_kind list" where
  "default_kinds e =
     [StdoutColor, BasicFile ''./logs/basic_file_sink_mt.log'' False,
      RotatingFile ''./logs/rotating_file_mt.log'' 83886080 5 False,
      DailyFile ''./logs/daily_file_mt.log'' 0 0 False 7,
      CountRotating (make_count_sink ''./logs/count_rotating_file_mt.log'' 100000 5 False True),
      DailySize (default_daily_size e)]"


lemma make_default_daily_size:
  "make_daily_sink (e_tz e) (e_now e) ''./logs'' ''{date}'' ''yyyy-MM-dd'' 0 0 83886080 5 False
     = Inr (default_daily_size e)"
  by (simp add: default_daily_size_def make_daily_sink_def bits_to_bytes_def)

lemma read_default_sinks:
  assumes "\<And>q. e_open_log e q"
  shows "read_sink e (string_map (default_sink_strings ! 0)) = Inr (Some \<lparr>sk_level = Trace, sk_kind = default_kinds e ! 0\<rparr>)"
    and "read_sink e (string_map (default_sink_strings ! 1)) = Inr (Some \<lparr>sk_level = Trace, sk_kind = default_kinds e ! 1\<rparr>)"
    and "read_sink e (string_map (default_sink_strings ! 2)) = Inr (Some \<lparr>sk_level = Trace, sk_kind = default_kinds e ! 2\<rparr>)"
    and "read_sink e (string_map (default_sink_strings ! 3)) = Inr (Some \<lparr>sk_level = Trace, sk_kind = default_kinds e ! 3\<rparr>)"
    and "read_sink e (string_map (default_sink_strings ! 4)) = Inr (Some \<lparr>sk_level = Trace, sk_kind = default_kinds e ! 4\<rparr>)"
    and "read_sink e (string_map (default_sink_strings ! 5)) = Inr (Some \<lparr>sk_level = Trace, sk_kind = default_kinds e ! 5\<rparr>)"
  by (simp_all add: read_sink_def read_basic_sink_def make_basic_def read_rotating_sink_def
      make_rotating_def read_daily_sink_def make_daily_def read_count_sink_def read_daily_size_sink_def
      default_sink_strings_def default_kinds_def default_reads max_rotating_files_def
      make_default_daily_size assms)

lemma read_element_seq:
  assumes "\<forall>x \<in> set xs. x \<noteq> YUndef" and "i < length xs"
  shows "read_element e (YSeq xs) i = (if xs ! i = YNull then Inr None else read_sink e (xs ! i))"
proof -
  have "takeWhile is_defined xs = xs"
    using assms(1) by (auto simp: takeWhile_eq_all_conv is_defined_def)
  then have "length (takeWhile is_defined xs) = length xs" by presburger
  moreover have "xs ! i \<noteq> YUndef" using assms by auto
  ultimately show ?thesis using assms(2)
    by (simp add: read_element_def get_sequence_node_def is_null_def is_defined_def is_sequence_def
        node_size_def node_index_def lift_yaml_def live_or_null_def)
qed

lemma read_default_elements:
  assumes "\<And>q. e_open_log e q" and "i < 6"
  shows "read_element e (YSeq (map string_map default_sink_strings)) i
    = Inr (Some \<lparr>sk_level = Trace, sk_kind = default_kinds e ! i\<rparr>)"
proof -
  have len: "length default_sink_strings = 6" by (simp add: default_sink_strings_def)
  have six: "i = 0 \<or> i = 1 \<or> i = 2 \<or> i = 3 \<or> i = 4 \<or> i = 5" using assms(2) by auto
  have "read_element e (YSeq (map string_map default_sink_strings)) i
      = read_sink e (string_map (default_sink_strings ! i))"
    using assms(2) by (subst read_element_seq) (auto simp: len string_map_def)
  then show ?thesis using six read_default_sinks [OF assms(1)] by auto
qed

lemma read_default_sink_list:
  assumes "\<And>q. e_open_log e q"
  shows "List.map_filter (element_sink e (YSeq (map string_map default_sink_strings))) [0..<6]
    = map (\<lambda>k. \<lparr>sk_level = Trace, sk_kind = k\<rparr>) (default_kinds e)"
proof -
  have "element_sink e (YSeq (map string_map default_sink_strings)) i
      = Some \<lparr>sk_level = Trace, sk_kind = default_kinds e ! i\<rparr>" if "i < 6" for i
    using read_default_elements [OF assms that] by (simp add: element_sink_def)
  then show ?thesis by (simp add: upt_conv_Cons List.map_filter_simps) (simp add: default_kinds_def)
qed

definition default_settings :: settings where
  "default_settings =
     \<lparr> set_name = ''default-log'', set_debug = Trace, set_release = Info, set_flush = Trace,
       set_pattern = default_pattern, set_async = False, set_queue = 8192, set_threads = 1 \<rparr>"

lemma stoi_default: "stoi ''8192'' = Some 8192" "stoi ''1'' = Some 1"
  by (simp_all add: stoi_def split_sign_def is_space_def is_digit_def dec_val_def digit_val_def Let_def)

lemma level_from_info: "level_from_str ''info'' = Info"
  by (simp add: level_from_str_def level_names_def)

lemma read_default_settings: "read_settings (string_map default_logger_strings) = Inr default_settings"
  by (simp add: read_settings_def default_reads default_logger_strings_def default_settings_def
      level_from_info int_or_def stoi_default)

lemma read_default_flags:
  "read_flags (string_map default_show_strings) flag_table f = (default_flags, None)"
  by (simp add: flag_table_def default_show_strings_def default_reads default_flags_def)

text \<open>What the default configuration asks for.\<close>

definition default_logger :: "env \<Rightarrow> logger" where
  "default_logger e = make_logger e default_settings
     (map (\<lambda>k. \<lparr>sk_level = Trace, sk_kind = k\<rparr>) (default_kinds e))"

text \<open>Opening the default sinks leaves every file outside \<open>./logs\<close> as it is.\<close>

lemma default_files_kept:
  assumes "\<not> prefix ''./logs/'' q"
  shows "fold (construct_files e) (default_kinds e) m q = m q"
proof (rule fold_construct_frame, rule ballI)
  fix k assume k: "k \<in> set (default_kinds e)"
  have "split_by_extension ''./logs/daily_file_mt.log'' = (''./logs/daily_file_mt'', ''.log'')" by code_simp
  then have "prefix ''./logs/'' (g_name z ''./logs/daily_file_mt.log'' t)" for z t
    by (simp add: g_name_def daily_filename_def)
  then show "q \<notin> ctor_foot e k" using k assms by (auto simp: default_kinds_def ctor_foot_def)
qed

lemma load_default_node:
  assumes "\<And>q. e_open_log e q" and "m_files st p = Some t" and "e_parse e t = Inr (Some default_node)"
  shows "load_config_file e st p =
    (st\<lparr>m_logger := Some (default_logger e), m_config_path := p, m_show := default_flags,
       m_files := fold (construct_files e) (default_kinds e) (m_files st)\<rparr>, None)"
proof -
  let ?cfg = "YMap [(YScalar ''logger'', string_map default_logger_strings),
      (YScalar ''showCodeLine'', string_map default_show_strings),
      (YScalar ''sinks'', YSeq (map string_map default_sink_strings))]"
  have live: "is_defined (string_map kvs)" "\<not> is_null (string_map kvs)" for kvs
    by (simp_all add: string_map_def is_defined_def is_null_def)
  have nodes: "config_nodes e (m_files st) p = Inr (?cfg, string_map default_logger_strings)"
    using assms(2,3) live
    by (simp add: config_nodes_def load_file_def yaml_load_file_def default_node_def get_node_def
        is_defined_def is_null_def node_get_def key_is_def lift_yaml_def live_or_null_def)
  have size: "node_size (YSeq (map string_map default_sink_strings)) = 6"
    by (simp add: node_size_def default_sink_strings_def string_map_def is_defined_def)
  have kinds: "map sk_kind (lg_sinks (default_logger e)) = default_kinds e"
    by (simp add: default_logger_def make_logger_def comp_def)
  have build: "build_logger e default_settings (YSeq (map string_map default_sink_strings)) fs
      = (Inr (default_logger e), fold (construct_files e) (default_kinds e) fs)" for fs
    unfolding build_logger_answer size
    using read_default_sink_list [OF assms(1)] read_default_elements [OF assms(1)]
    by (simp add: is_defined_def is_null_def is_sequence_def default_logger_def default_settings_def
        readable_element_def) (simp add: make_logger_def comp_def)
  have "get_node ?cfg ''showCodeLine'' = Inr (string_map default_show_strings)"
    "get_node ?cfg ''sinks'' = Inr (YSeq (map string_map default_sink_strings))"
    using live by (simp_all add: get_node_def is_defined_def is_null_def node_get_def key_is_def
        live_or_null_def)
  then show ?thesis
    by (simp add: load_config_file_def nodes read_default_settings read_default_flags live build
        lift_yaml_def)
qed

text \<open>
  C16. When a configuration cannot be used (a \<open>spdlog_ex\<close> was raised), the path is
  overwritten with the default configuration, which then loads: the logger has the
  six default sinks at level trace with their configured limits, the default
  flags are set and nothing is thrown, provided the path can be written, the
  parser reads what the emitter wrote and the log files can be opened.  The files are
  what the constructors of the six sinks make of the files with the new configuration;
  the failed attempt changed at most the log files of the sinks it had constructed.
\<close>
theorem default_configuration_installed:
  assumes "snd (load_config_file e st p) = Some (Spdlog x)" and "e_writable e p"
    and "e_parse e (e_emit e default_node) = Inr (Some default_node)" and "\<And>q. e_open_log e q"
    and "set_config_path e st p False = (st', exc)"
  shows "exc = None
    \<and> m_files st' = fold (construct_files e) (default_kinds e)
        ((m_files (fst (load_config_file e st p)))(p \<mapsto> e_emit e default_node))
    \<and> (\<forall>q. q \<notin> text_foot e (m_files st p) \<longrightarrow> m_files (fst (load_config_file e st p)) q = m_files st q)
    \<and> m_config_path st' = p \<and> m_show st' = default_flags
    \<and> m_logger st' = Some (default_logger e)
    \<and> map sk_kind (lg_sinks (default_logger e)) = default_kinds e
    \<and> lg_level (default_logger e) = (if e_debug e then Trace else Info)
    \<and> m_callbacks st' = m_callbacks st"
proof -
  obtain st1 where st1: "load_config_file e st p = (st1, Some (Spdlog x))"
    using assms(1) by (cases "load_config_file e st p") simp
  note frame = load_config_file_frame [of e st p, unfolded st1 fst_conv]
  let ?st2 = "st1\<lparr>m_logger := Some fallback_logger, m_show := default_flags,
      m_files := (m_files st1)(p \<mapsto> e_emit e default_node), m_config_path := p\<rparr>"
  have save: "save_as_file (e_emit e) (e_writable e) (m_files st1) default_node p
      = Inr ((m_files st1)(p \<mapsto> e_emit e default_node))"
    using assms(2) by (simp add: save_as_file_def default_node_def is_defined_def is_null_def)
  have "load_config_file e ?st2 p = (?st2\<lparr>m_logger := Some (default_logger e), m_config_path := p,
      m_show := default_flags, m_files := fold (construct_files e) (default_kinds e) (m_files ?st2)\<rparr>, None)"
    by (rule load_default_node [OF assms(4) _ assms(3)]) simp
  then have "set_config_path e st p False = (?st2\<lparr>m_logger := Some (default_logger e),
      m_files := fold (construct_files e) (default_kinds e) (m_files ?st2)\<rparr>, None)"
    by (simp add: set_config_path_def load_or_default_def st1 load_default_config_def
        default_tree_eq lift_yaml_def save)
  moreover have "m_files st1 q = m_files st q" if "q \<notin> text_foot e (m_files st p)" for q
    using load_config_file_files [OF that] st1 by simp
  ultimately show ?thesis using assms(5) st1
    by (auto simp: frame default_logger_def make_logger_def default_settings_def comp_def)
qed

theorem default_configuration_installed_witness:
  "\<exists>st st' :: log_state. m_logger st = None
    \<and> set_config_path (one_text_env default_node) st ''a.yaml'' False = (st', None)
    \<and> m_logger st' = Some (default_logger (one_text_env default_node))"
proof -
  let ?e = "one_text_env default_node"
  let ?st = "initial_state 0 Map.empty"
  obtain st' exc where r: "set_config_path ?e ?st ''a.yaml'' False = (st', exc)" by fastforce
  have "config_nodes ?e (m_files ?st) ''a.yaml'' = Inl (Spdlog LoadFailed)"
    by (simp add: config_nodes_def load_file_def yaml_load_file_def initial_state_def)
  then have "snd (load_config_file ?e ?st ''a.yaml'') = Some (Spdlog LoadFailed)"
    by (simp add: load_config_file_fail)
  note * = default_configuration_installed [OF this _ _ _ r]
  have "e_writable ?e ''a.yaml''" "e_open_log ?e q"
    "e_parse ?e (e_emit ?e default_node) = Inr (Some default_node)" for q
    by (simp_all add: one_text_env_def)
  with * have "exc = None" "m_logger st' = Some (default_logger ?e)" by blast+
  moreover have "m_logger ?st = None" by (simp add: initial_state_def)
  ultimately show ?thesis using r by blast
qed

theorem set_config_path_files_witness:
  "\<exists>st st' :: log_state. m_config_path st = ''a.yaml'' \<and> m_files st ''a.yaml'' = Some ''T''
    \<and> set_config_path (one_text_env default_node) st ''a.yaml'' True = (st', None)
    \<and> m_files st' ''a.yaml'' = None"
proof -
  let ?e = "one_text_env default_node"
  let ?st = "initial_state 0 [''a.yaml'' \<mapsto> ''T'']\<lparr>m_config_path := ''a.yaml''\<rparr>"
  have f: "m_files ?st ''a.yaml'' = Some ''T''" "m_config_path ?st = ''a.yaml''"
    by (simp_all add: initial_state_def)
  have "load_config_file ?e ?st ''a.yaml'' = (?st\<lparr>m_logger := Some (default_logger ?e),
      m_config_path := ''a.yaml'', m_show := default_flags,
      m_files := fold (construct_files ?e) (default_kinds ?e) (m_files ?st)\<rparr>, None)"
    by (rule load_default_node [OF _ f(1)]) (simp_all add: one_text_env_def)
  then obtain st' where r: "set_config_path ?e ?st ''a.yaml'' True = (st', None)"
    by (simp add: set_config_path_def load_or_default_def)
  show ?thesis
    using set_config_path_files [OF r] f r by (intro exI [of _ ?st] exI [of _ st']) auto
qed

section \<open>The sinks of a loaded logger\<close>






end
