(* ===== verification/PatternFormatter.thy ===== *)
theory PatternFormatter
  imports LogConfig
begin

text \<open>
  The pattern formatter of spdlog, \<open>pattern_formatter-inl.h\<close> with \<open>details/fmt_helper.h\<close>: a
  pattern is compiled to a list of formatters, each with its padding and, for three of them,
  a cache; formatting a message runs them over a buffer.  A formatter object is a value of the
  datatype \<open>formatter\<close>, updated by its \<open>format\<close>.  The process id, the diagnostic context of the
  thread, the conversions of time and the offset of the time zone are the fields of \<open>fmt_env\<close>.
  No custom flags are installed, as in this program.
\<close>

section \<open>Numbers\<close>

text \<open>\<open>fmt_helper\<close>: the paddings of an \<open>int\<close>, a \<open>size_t\<close> and a \<open>uint32_t\<close>.\<close>

definition pad2 :: "int \<Rightarrow> string" where
  "pad2 n = (if 0 \<le> n \<and> n < 100 then [digit_char (nat (n div 10)), digit_char (nat (n mod 10))] else fmt_0d 2 n)"

definition pad_uint :: "nat \<Rightarrow> nat \<Rightarrow> string" where
  "pad_uint n width = replicate (width - length (nat_dec n)) (CHR ''0'') @ nat_dec n"

definition pad3 :: "nat \<Rightarrow> string" where
  "pad3 n = (if n < 1000 then [digit_char (n div 100), digit_char (n mod 100 div 10), digit_char (n mod 100 mod 10)]
     else nat_dec n)"

text \<open>\<open>time_fraction\<close>, in units of \<open>u\<close> nanoseconds.\<close>

definition time_fraction :: "int \<Rightarrow> int \<Rightarrow> int" where
  "time_fraction u tp = c_div tp u - c_div tp ns_per_sec * (ns_per_sec div u)"

section \<open>Messages and buffers\<close>

record source_loc =
  sl_file :: string
  sl_line :: int
  sl_func :: string

definition sl_empty :: "source_loc \<Rightarrow> bool" where
  "sl_empty s \<longleftrightarrow> sl_line s \<le> 0"

record fmt_msg =
  fm_name :: string
  fm_level :: level
  fm_time :: int
  fm_tid :: nat
  fm_source :: source_loc
  fm_payload :: string

text \<open>The buffer and the color range of the message.\<close>

record fmt_buf =
  fb_text :: string
  fb_start :: nat
  fb_end :: nat

record fmt_env =
  fe_pid :: nat
  fe_mdc :: "(string \<times> string) list"
  fe_tz :: tz
  fe_gmtime :: "int \<Rightarrow> tm_parts"
  fe_offset :: "tm_parts \<Rightarrow> int"

section \<open>Padding\<close>

datatype pad_side = PadLeft | PadRight | PadCenter

record padding_info =
  pd_width :: nat
  pd_side :: pad_side
  pd_truncate :: bool
  pd_enabled :: bool

definition no_padding :: padding_info where
  "no_padding = \<lparr>pd_width = 0, pd_side = PadLeft, pd_truncate = False, pd_enabled = False\<rparr>"

text \<open>\<open>scoped_padder\<close> around appending \<open>body\<close> to the buffer: the constructor, the body, the
  destructor.  Without padding the \<open>null_scoped_padder\<close> does nothing.\<close>

definition padded :: "padding_info \<Rightarrow> nat \<Rightarrow> string \<Rightarrow> string \<Rightarrow> string" where
  "padded p wrapped_size body dest =
     (if \<not> pd_enabled p then dest @ body
      else let remaining = int (pd_width p) - int wrapped_size in
        if remaining < 0 then
          (if pd_truncate p then take (nat (int (length (dest @ body)) + remaining)) (dest @ body) else dest @ body)
        else let n = nat remaining; sp = (\<lambda>k. replicate k (CHR '' '')) in
          (case pd_side p of
             PadLeft \<Rightarrow> dest @ sp n @ body
           | PadCenter \<Rightarrow> dest @ sp (n div 2) @ body @ sp (n div 2 + n mod 2)
           | PadRight \<Rightarrow> dest @ body @ sp n))"

section \<open>Fields\<close>

datatype text_flag = FlName | FlLevel | FlShortLevel | FlThread | FlText | FlPid
datatype date_flag = Fl_a | Fl_A | Fl_b | Fl_B | Fl_c | Fl_C | Fl_D | Fl_Y | Fl_m | Fl_d
datatype clock_flag = Fl_H | Fl_I | Fl_M | Fl_S | Fl_p | Fl_r | Fl_R | Fl_T
datatype frac_flag = Fl_e | Fl_f | Fl_F | Fl_E
datatype source_flag = FlLocation | FlShortFile | FlFile | FlLine | FlFunc

definition level_string_views :: "string list" where
  "level_string_views = [''trace'', ''debug'', ''info'', ''warning'', ''error'', ''critical'', ''off'']"

definition short_level_names :: "string list" where
  "short_level_names = [''T'', ''D'', ''I'', ''W'', ''E'', ''C'', ''O'']"

definition to_string_view :: "level \<Rightarrow> string" where
  "to_string_view l = level_string_views ! level_num l"

definition to_short_c_str :: "level \<Rightarrow> string" where
  "to_short_c_str l = short_level_names ! level_num l"

definition days :: "string list" where
  "days = [''Sun'', ''Mon'', ''Tue'', ''Wed'', ''Thu'', ''Fri'', ''Sat'']"

definition full_days :: "string list" where
  "full_days = [''Sunday'', ''Monday'', ''Tuesday'', ''Wednesday'', ''Thursday'', ''Friday'', ''Saturday'']"

definition ampm_name :: "tm_parts \<Rightarrow> string" where
  "ampm_name t = (if tm_hour t \<ge> 12 then ''PM'' else ''AM'')"

definition to12h :: "tm_parts \<Rightarrow> int" where
  "to12h t = (if tm_hour t > 12 then tm_hour t - 12 else tm_hour t)"

text \<open>Each formatter class: the size it tells the padder and what it appends.\<close>

fun text_field :: "fmt_env \<Rightarrow> text_flag \<Rightarrow> fmt_msg \<Rightarrow> nat \<times> string" where
  "text_field e FlName msg = (length (fm_name msg), fm_name msg)"
| "text_field e FlLevel msg = (length (to_string_view (fm_level msg)), to_string_view (fm_level msg))"
| "text_field e FlShortLevel msg = (length (to_short_c_str (fm_level msg)), to_short_c_str (fm_level msg))"
| "text_field e FlThread msg = (length (nat_dec (fm_tid msg)), nat_dec (fm_tid msg))"
| "text_field e FlText msg = (length (fm_payload msg), fm_payload msg)"
| "text_field e FlPid msg = (length (nat_dec (fe_pid e)), nat_dec (fe_pid e))"

fun date_field :: "date_flag \<Rightarrow> tm_parts \<Rightarrow> nat \<times> string" where
  "date_field Fl_a t = (length (days ! nat (tm_wday t)), days ! nat (tm_wday t))"
| "date_field Fl_A t = (length (full_days ! nat (tm_wday t)), full_days ! nat (tm_wday t))"
| "date_field Fl_b t = (length (month_short ! nat (tm_mon t)), month_short ! nat (tm_mon t))"
| "date_field Fl_B t = (length (month_long ! nat (tm_mon t)), month_long ! nat (tm_mon t))"
| "date_field Fl_c t = (24, days ! nat (tm_wday t) @ '' '' @ month_short ! nat (tm_mon t) @ '' '' @ int_dec (tm_mday t) @ '' ''
     @ pad2 (tm_hour t) @ '':'' @ pad2 (tm_min t) @ '':'' @ pad2 (tm_sec t) @ '' '' @ int_dec (tm_year t + 1900))"
| "date_field Fl_C t = (2, pad2 (c_rem (tm_year t) 100))"
| "date_field Fl_D t = (8, pad2 (tm_mon t + 1) @ ''/'' @ pad2 (tm_mday t) @ ''/'' @ pad2 (c_rem (tm_year t) 100))"
| "date_field Fl_Y t = (4, int_dec (tm_year t + 1900))"
| "date_field Fl_m t = (2, pad2 (tm_mon t + 1))"
| "date_field Fl_d t = (2, pad2 (tm_mday t))"

fun clock_field :: "clock_flag \<Rightarrow> tm_parts \<Rightarrow> nat \<times> string" where
  "clock_field Fl_H t = (2, pad2 (tm_hour t))"
| "clock_field Fl_I t = (2, pad2 (to12h t))"
| "clock_field Fl_M t = (2, pad2 (tm_min t))"
| "clock_field Fl_S t = (2, pad2 (tm_sec t))"
| "clock_field Fl_p t = (2, ampm_name t)"
| "clock_field Fl_r t = (11, pad2 (to12h t) @ '':'' @ pad2 (tm_min t) @ '':'' @ pad2 (tm_sec t) @ '' '' @ ampm_name t)"
| "clock_field Fl_R t = (5, pad2 (tm_hour t) @ '':'' @ pad2 (tm_min t))"
| "clock_field Fl_T t = (8, pad2 (tm_hour t) @ '':'' @ pad2 (tm_min t) @ '':'' @ pad2 (tm_sec t))"

fun frac_field :: "frac_flag \<Rightarrow> int \<Rightarrow> nat \<times> string" where
  "frac_field Fl_e tp = (3, pad3 (nat (time_fraction 1000000 tp mod 2 ^ 32)))"
| "frac_field Fl_f tp = (6, pad_uint (nat (time_fraction 1000 tp mod 2 ^ 64)) 6)"
| "frac_field Fl_F tp = (9, pad_uint (nat (time_fraction 1 tp mod 2 ^ 64)) 9)"
| "frac_field Fl_E tp = (10, int_dec (c_div tp ns_per_sec))"

definition file_basename :: "string \<Rightarrow> string" where
  "file_basename f = (case rfind (CHR ''/'') f of None \<Rightarrow> f | Some i \<Rightarrow> drop (i + 1) f)"

fun source_text :: "source_flag \<Rightarrow> source_loc \<Rightarrow> string" where
  "source_text FlLocation s = sl_file s @ '':'' @ int_dec (sl_line s)"
| "source_text FlShortFile s = file_basename (sl_file s)"
| "source_text FlFile s = sl_file s"
| "source_text FlLine s = int_dec (sl_line s)"
| "source_text FlFunc s = sl_func s"

definition source_field :: "source_flag \<Rightarrow> source_loc \<Rightarrow> nat \<times> string" where
  "source_field f s = (if sl_empty s then (0, []) else (length (source_text f s), source_text f s))"

section \<open>Formatters\<close>

text \<open>The cached members are the last arguments: the update and the offset of \<open>z_formatter\<close>, the
  unit and the last time of \<open>elapsed_formatter\<close>, the second and the text of \<open>full_formatter\<close>.\<close>

datatype formatter =
    TextF text_flag padding_info
  | DateF date_flag padding_info
  | ClockF clock_flag padding_info
  | FracF frac_flag padding_info
  | SourceF source_flag padding_info
  | ZoneF padding_info bool int int
  | ElapsedF padding_info int int
  | MdcF padding_info
  | FullF int string
  | ColorStart
  | ColorStop
  | Ch char
  | Aggregate string

definition put :: "padding_info \<Rightarrow> nat \<times> string \<Rightarrow> fmt_buf \<Rightarrow> fmt_buf" where
  "put p sz b = b\<lparr>fb_text := padded p (fst sz) (snd sz) (fb_text b)\<rparr>"

fun format_mdc :: "padding_info \<Rightarrow> (string \<times> string) list \<Rightarrow> fmt_buf \<Rightarrow> fmt_buf" where
  "format_mdc p [] b = b"
| "format_mdc p [(k, v)] b = put p (length k + length v + 1, k @ '':'' @ v) b"
| "format_mdc p ((k, v) # kvs) b = format_mdc p kvs (put p (length k + length v + 1 + 1, k @ '':'' @ v @ '' '') b)"

definition zone_text :: "int \<Rightarrow> string" where
  "zone_text total_minutes =
     (let n = \<bar>total_minutes\<bar>
      in (if total_minutes < 0 then ''-'' else ''+'') @ pad2 (c_div n 60) @ '':'' @ pad2 (c_rem n 60))"

definition format_zone :: "fmt_env \<Rightarrow> fmt_msg \<Rightarrow> tm_parts \<Rightarrow> padding_info \<Rightarrow> bool \<Rightarrow> int \<Rightarrow> int \<Rightarrow> fmt_buf \<Rightarrow> formatter \<times> fmt_buf" where
  "format_zone e msg t p utc last_update offset b =
     (if utc then (ZoneF p utc last_update offset, put p (6, ''+00:00'') b)
      else let (last_update, offset) =
             (if fm_time msg - last_update \<ge> 10 * ns_per_sec then (fm_time msg, fe_offset e t) else (last_update, offset))
           in (ZoneF p utc last_update offset, put p (6, zone_text offset) b))"

definition format_elapsed :: "fmt_msg \<Rightarrow> padding_info \<Rightarrow> int \<Rightarrow> int \<Rightarrow> fmt_buf \<Rightarrow> formatter \<times> fmt_buf" where
  "format_elapsed msg p u last_message_time b =
     (let delta = max (fm_time msg - last_message_time) 0; count = nat (c_div delta u)
      in (ElapsedF p u (fm_time msg), put p (length (nat_dec count), nat_dec count) b))"

definition full_date :: "tm_parts \<Rightarrow> string" where
  "full_date t = ''['' @ int_dec (tm_year t + 1900) @ ''-'' @ pad2 (tm_mon t + 1) @ ''-'' @ pad2 (tm_mday t) @ '' ''
     @ pad2 (tm_hour t) @ '':'' @ pad2 (tm_min t) @ '':'' @ pad2 (tm_sec t) @ ''.''"

definition append_text :: "string \<Rightarrow> fmt_buf \<Rightarrow> fmt_buf" where
  "append_text s b = b\<lparr>fb_text := fb_text b @ s\<rparr>"

definition format_full :: "fmt_env \<Rightarrow> fmt_msg \<Rightarrow> tm_parts \<Rightarrow> int \<Rightarrow> string \<Rightarrow> fmt_buf \<Rightarrow> formatter \<times> fmt_buf" where
  "format_full e msg t cache_timestamp cached_datetime b =
     (let secs = c_div (fm_time msg) ns_per_sec;
          (cache_timestamp, cached_datetime) =
            (if cache_timestamp \<noteq> secs \<or> cached_datetime = [] then (secs, full_date t) else (cache_timestamp, cached_datetime));
          b = append_text (cached_datetime @ pad3 (nat (time_fraction 1000000 (fm_time msg) mod 2 ^ 32)) @ ''] '') b;
          b = (if fm_name msg \<noteq> [] then append_text (''['' @ fm_name msg @ ''] '') b else b);
          b = append_text ''['' b;
          b = b\<lparr>fb_start := length (fb_text b)\<rparr>;
          b = append_text (to_string_view (fm_level msg)) b;
          b = b\<lparr>fb_end := length (fb_text b)\<rparr>;
          b = append_text ''] '' b;
          b = (if \<not> sl_empty (fm_source msg)
               then append_text (''['' @ file_basename (sl_file (fm_source msg)) @ '':'' @ int_dec (sl_line (fm_source msg)) @ ''] '') b
               else b);
          b = (if fe_mdc e \<noteq> [] then append_text ''] '' (format_mdc no_padding (fe_mdc e) (append_text ''['' b)) else b)
      in (FullF cache_timestamp cached_datetime, append_text (fm_payload msg) b))"

text \<open>\<open>flag_formatter::format\<close>.\<close>

fun format_one :: "fmt_env \<Rightarrow> fmt_msg \<Rightarrow> tm_parts \<Rightarrow> formatter \<Rightarrow> fmt_buf \<Rightarrow> formatter \<times> fmt_buf" where
  "format_one e msg t (TextF f p) b = (TextF f p, put p (text_field e f msg) b)"
| "format_one e msg t (DateF f p) b = (DateF f p, put p (date_field f t) b)"
| "format_one e msg t (ClockF f p) b = (ClockF f p, put p (clock_field f t) b)"
| "format_one e msg t (FracF f p) b = (FracF f p, put p (frac_field f (fm_time msg)) b)"
| "format_one e msg t (SourceF f p) b = (SourceF f p, put p (source_field f (fm_source msg)) b)"
| "format_one e msg t (ZoneF p utc l k) b = format_zone e msg t p utc l k b"
| "format_one e msg t (ElapsedF p u l) b = format_elapsed msg p u l b"
| "format_one e msg t (MdcF p) b = (MdcF p, if fe_mdc e = [] then put p (0, []) b else format_mdc p (fe_mdc e) b)"
| "format_one e msg t (FullF ts c) b = format_full e msg t ts c b"
| "format_one e msg t ColorStart b = (ColorStart, b\<lparr>fb_start := length (fb_text b)\<rparr>)"
| "format_one e msg t ColorStop b = (ColorStop, b\<lparr>fb_end := length (fb_text b)\<rparr>)"
| "format_one e msg t (Ch c) b = (Ch c, append_text [c] b)"
| "format_one e msg t (Aggregate s) b = (Aggregate s, append_text s b)"

fun run_formatters :: "fmt_env \<Rightarrow> fmt_msg \<Rightarrow> tm_parts \<Rightarrow> formatter list \<Rightarrow> fmt_buf \<Rightarrow> formatter list \<times> fmt_buf" where
  "run_formatters e msg t [] b = ([], b)"
| "run_formatters e msg t (f # fs) b =
     (case format_one e msg t f b of (f', b1) \<Rightarrow> (case run_formatters e msg t fs b1 of (fs', b2) \<Rightarrow> (f' # fs', b2)))"

section \<open>Compiling a pattern\<close>

text \<open>\<open>handle_padspec_\<close>: the padding and what follows it.\<close>

definition handle_padspec :: "string \<Rightarrow> padding_info \<times> string" where
  "handle_padspec s =
     (let (side, r) = (case s of [] \<Rightarrow> (PadLeft, [])
                       | c # cs \<Rightarrow> if c = CHR ''-'' then (PadRight, cs) else if c = CHR ''='' then (PadCenter, cs) else (PadLeft, s))
      in if r = [] \<or> \<not> is_digit (hd r) then (no_padding, r)
         else let width = foldl (\<lambda>w c. (w * 10 + digit_val c) mod 2 ^ 64) 0 (takeWhile is_digit r);
                  r = dropWhile is_digit r;
                  trunc = (r \<noteq> [] \<and> hd r = CHR ''!'')
              in (\<lparr>pd_width = min width 64, pd_side = side, pd_truncate = trunc, pd_enabled = True\<rparr>,
                  if trunc then tl r else r))"

text \<open>\<open>handle_flag_\<close>: the formatters it adds, and whether they need the calendar time.\<close>

definition handle_flag :: "bool \<Rightarrow> int \<Rightarrow> char \<Rightarrow> padding_info \<Rightarrow> formatter list \<times> bool" where
  "handle_flag utc now c p =
     (if c = CHR ''+'' then ([FullF 0 []], True)
      else if c = CHR ''n'' then ([TextF FlName p], False)
      else if c = CHR ''l'' then ([TextF FlLevel p], False)
      else if c = CHR ''L'' then ([TextF FlShortLevel p], False)
      else if c = CHR ''t'' then ([TextF FlThread p], False)
      else if c = CHR ''v'' then ([TextF FlText p], False)
      else if c = CHR ''a'' then ([DateF Fl_a p], True)
      else if c = CHR ''A'' then ([DateF Fl_A p], True)
      else if c = CHR ''b'' \<or> c = CHR ''h'' then ([DateF Fl_b p], True)
      else if c = CHR ''B'' then ([DateF Fl_B p], True)
      else if c = CHR ''c'' then ([DateF Fl_c p], True)
      else if c = CHR ''C'' then ([DateF Fl_C p], True)
      else if c = CHR ''Y'' then ([DateF Fl_Y p], True)
      else if c = CHR ''D'' \<or> c = CHR ''x'' then ([DateF Fl_D p], True)
      else if c = CHR ''m'' then ([DateF Fl_m p], True)
      else if c = CHR ''d'' then ([DateF Fl_d p], True)
      else if c = CHR ''H'' then ([ClockF Fl_H p], True)
      else if c = CHR ''I'' then ([ClockF Fl_I p], True)
      else if c = CHR ''M'' then ([ClockF Fl_M p], True)
      else if c = CHR ''S'' then ([ClockF Fl_S p], True)
      else if c = CHR ''e'' then ([FracF Fl_e p], False)
      else if c = CHR ''f'' then ([FracF Fl_f p], False)
      else if c = CHR ''F'' then ([FracF Fl_F p], False)
      else if c = CHR ''E'' then ([FracF Fl_E p], False)
      else if c = CHR ''p'' then ([ClockF Fl_p p], True)
      else if c = CHR ''r'' then ([ClockF Fl_r p], True)
      else if c = CHR ''R'' then ([ClockF Fl_R p], True)
      else if c = CHR ''T'' \<or> c = CHR ''X'' then ([ClockF Fl_T p], True)
      else if c = CHR ''z'' then ([ZoneF p utc 0 0], True)
      else if c = CHR ''P'' then ([TextF FlPid p], False)
      else if c = CHR ''^'' then ([ColorStart], False)
      else if c = CHR ''$'' then ([ColorStop], False)
      else if c = CHR ''@'' then ([SourceF FlLocation p], False)
      else if c = CHR ''s'' then ([SourceF FlShortFile p], False)
      else if c = CHR ''g'' then ([SourceF FlFile p], False)
      else if c = CHR ''#'' then ([SourceF FlLine p], False)
      else if c = CHR ''!'' then ([SourceF FlFunc p], False)
      else if c = CHR ''%'' then ([Ch (CHR ''%'')], False)
      else if c = CHR ''u'' then ([ElapsedF p 1 now], False)
      else if c = CHR ''i'' then ([ElapsedF p 1000 now], False)
      else if c = CHR ''o'' then ([ElapsedF p 1000000 now], False)
      else if c = CHR ''O'' then ([ElapsedF p ns_per_sec now], False)
      else if c = CHR ''&'' then ([MdcF p], False)
      else if \<not> pd_truncate p then ([Aggregate [CHR ''%'', c]], False)
      else ([SourceF FlFunc (p\<lparr>pd_truncate := False\<rparr>), Aggregate [c]], False))"

lemma handle_padspec_length: "length (snd (handle_padspec s)) \<le> length s"
  using length_dropWhile_le [of is_digit s] length_dropWhile_le [of is_digit "tl s"]
  by (cases s) (auto simp: handle_padspec_def Let_def intro: le_trans [OF diff_le_self])

text \<open>\<open>compile_pattern_\<close>; \<open>uc\<close> is the pointer \<open>user_chars\<close>, \<open>now k\<close> the reading of the clock when
  formatter \<open>k\<close> is built.\<close>

definition flush_chars :: "string option \<Rightarrow> formatter list" where
  "flush_chars uc = (case uc of None \<Rightarrow> [] | Some s \<Rightarrow> [Aggregate s])"

function compile_loop ::
  "bool \<Rightarrow> (nat \<Rightarrow> int) \<Rightarrow> string \<Rightarrow> string option \<Rightarrow> formatter list \<Rightarrow> bool \<Rightarrow> formatter list \<times> bool" where
  "compile_loop utc now [] uc fs need = (fs @ flush_chars uc, need)"
| "compile_loop utc now (c # cs) uc fs need =
     (if c = CHR ''%'' then
        (let fs = fs @ flush_chars uc in
         case handle_padspec cs of
           (p, []) \<Rightarrow> (fs, need)
         | (p, d # ds) \<Rightarrow> (case handle_flag utc (now (length fs)) d p of
             (new, lt) \<Rightarrow> compile_loop utc now ds None (fs @ new) (need \<or> lt)))
      else compile_loop utc now cs (Some ((case uc of None \<Rightarrow> [] | Some s \<Rightarrow> s) @ [c])) fs need)"
  by pat_completeness auto
termination
proof (relation "measure (\<lambda>(utc, now, s, _). length s)", goal_cases)
  case (2 utc now c cs uc fs need x p x2 d ds new lt)
  then have "snd (handle_padspec cs) = d # ds" by (metis snd_conv)
  then show ?case using handle_padspec_length [of cs] by simp
qed auto

section \<open>The formatter\<close>

record pattern_formatter =
  pf_pattern :: string
  pf_eol :: string
  pf_utc :: bool
  pf_need_localtime :: bool
  pf_cached_tm :: tm_parts
  pf_last_secs :: int
  pf_formatters :: "formatter list"

definition zero_tm :: tm_parts where
  "zero_tm = \<lparr>tm_sec = 0, tm_min = 0, tm_hour = 0, tm_mday = 0, tm_mon = 0, tm_year = 0, tm_wday = 0\<rparr>"

definition default_eol :: string where
  "default_eol = [CHR 0x0A]"

definition compile_pattern :: "(nat \<Rightarrow> int) \<Rightarrow> pattern_formatter \<Rightarrow> pattern_formatter" where
  "compile_pattern now pf =
     (case compile_loop (pf_utc pf) now (pf_pattern pf) None [] (pf_need_localtime pf) of
        (fs, need) \<Rightarrow> pf\<lparr>pf_formatters := fs, pf_need_localtime := need\<rparr>)"

definition new_pattern :: "(nat \<Rightarrow> int) \<Rightarrow> string \<Rightarrow> bool \<Rightarrow> string \<Rightarrow> pattern_formatter" where
  "new_pattern now pattern utc eol = compile_pattern now
     \<lparr>pf_pattern = pattern, pf_eol = eol, pf_utc = utc, pf_need_localtime = False, pf_cached_tm = zero_tm,
      pf_last_secs = 0, pf_formatters = []\<rparr>"

definition new_default :: "bool \<Rightarrow> string \<Rightarrow> pattern_formatter" where
  "new_default utc eol =
     \<lparr>pf_pattern = ''%+'', pf_eol = eol, pf_utc = utc, pf_need_localtime = True, pf_cached_tm = zero_tm,
      pf_last_secs = 0, pf_formatters = [FullF 0 []]\<rparr>"

definition pf_clone :: "(nat \<Rightarrow> int) \<Rightarrow> pattern_formatter \<Rightarrow> pattern_formatter" where
  "pf_clone now pf = (new_pattern now (pf_pattern pf) (pf_utc pf) (pf_eol pf))\<lparr>pf_need_localtime := pf_need_localtime pf\<rparr>"

definition pf_set_pattern :: "(nat \<Rightarrow> int) \<Rightarrow> string \<Rightarrow> pattern_formatter \<Rightarrow> pattern_formatter" where
  "pf_set_pattern now pattern pf = compile_pattern now (pf\<lparr>pf_pattern := pattern, pf_need_localtime := False\<rparr>)"

definition get_time :: "fmt_env \<Rightarrow> bool \<Rightarrow> int \<Rightarrow> tm_parts" where
  "get_time e utc tp = (if utc then fe_gmtime e (to_time_t tp) else localtime (fe_tz e) (to_time_t tp))"

definition pf_format :: "fmt_env \<Rightarrow> fmt_msg \<Rightarrow> pattern_formatter \<times> fmt_buf \<Rightarrow> pattern_formatter \<times> fmt_buf" where
  "pf_format e msg pb = (case pb of (pf, b) \<Rightarrow>
     let secs = c_div (fm_time msg) ns_per_sec;
         pf = (if pf_need_localtime pf \<and> secs \<noteq> pf_last_secs pf
               then pf\<lparr>pf_cached_tm := get_time e (pf_utc pf) (fm_time msg), pf_last_secs := secs\<rparr> else pf)
     in case run_formatters e msg (pf_cached_tm pf) (pf_formatters pf) b of
          (fs, b) \<Rightarrow> (pf\<lparr>pf_formatters := fs\<rparr>, append_text (pf_eol pf) b))"

end
