(* ===== verification/PatternLines.thy ===== *)
theory PatternLines
  imports PatternFormatter
begin

text \<open>
  What the pattern formatter writes: a padded field has its width; a pattern without special
  characters, or with its percent signs doubled, stands for itself; a line contains no line
  break but the one at its end, so that the sinks that count lines count messages; the caches
  of the formatters do not show; and the layout of the default pattern.
\<close>

section \<open>Padding\<close>

lemma set_padded: "set (padded p n body dest) \<subseteq> set dest \<union> set body \<union> {CHR '' ''}"
proof -
  have "set (take k (dest @ body)) \<subseteq> set dest \<union> set body" for k
    using set_take_subset [of k "dest @ body"] by simp
  then show ?thesis by (auto simp: padded_def Let_def split: pad_side.splits)
qed

text \<open>When the padder is told the size of the body, the field has at least its width, exactly
  with \<open>!\<close>, and what was there before stays.\<close>

lemma padded_length:
  assumes "pd_enabled p"
  shows "length (padded p (length body) body dest)
    = length dest + (if pd_truncate p then pd_width p else max (pd_width p) (length body))"
proof -
  have "nat (int (pd_width p) - int (length body)) = pd_width p - length body" by linarith
  then show ?thesis using assms
    by (auto simp: padded_def Let_def max_def split: pad_side.splits) presburger+
qed

lemma padded_keeps: "take (length dest) (padded p (length body) body dest) = dest"
  by (auto simp: padded_def Let_def split: pad_side.splits)

section \<open>One line\<close>

text \<open>A text without a line break.\<close>

definition one_line :: "string \<Rightarrow> bool" where
  "one_line s \<longleftrightarrow> CHR 0x0A \<notin> set s"

named_theorems oneline

lemma one_line_append [oneline]: "one_line (a @ b) \<longleftrightarrow> one_line a \<and> one_line b"
  by (simp add: one_line_def)

lemma one_line_Cons [oneline]: "one_line (c # s) \<longleftrightarrow> c \<noteq> CHR 0x0A \<and> one_line s"
  by (auto simp: one_line_def)

lemma one_line_Nil [oneline]: "one_line []"
  by (simp add: one_line_def)

lemma is_line_one_line: "one_line s \<Longrightarrow> is_line (s @ [CHR 0x0A])"
  by (auto simp: is_line_def one_line_def)

lemma not_digit_newline [simp]: "\<not> is_digit (CHR 0x0A)"
  by (simp add: is_digit_def)

lemma digit_char_newline [oneline]: "d < 10 \<Longrightarrow> digit_char d \<noteq> CHR 0x0A"
  by (metis is_digit_digit_char not_digit_newline)

lemma one_line_nat_dec [oneline]: "one_line (nat_dec n)"
  using nat_dec_digits by (force simp: one_line_def)

lemma one_line_replicate [oneline]: "c \<noteq> CHR 0x0A \<Longrightarrow> one_line (replicate n c)"
  by (simp add: one_line_def)

lemma one_line_int_dec [oneline]: "one_line (int_dec i)"
  by (simp add: int_dec_def oneline)

lemma one_line_fmt_0d [oneline]: "one_line (fmt_0d w v)"
  by (simp add: fmt_0d_def oneline)

lemma one_line_pads [oneline]: "one_line (pad2 i)" "one_line (pad3 n)" "one_line (pad_uint n w)"
proof -
  show "one_line (pad2 i)" by (auto simp: pad2_def oneline intro!: digit_char_newline)
  show "one_line (pad3 n)" by (auto simp: pad3_def oneline intro!: digit_char_newline)
  show "one_line (pad_uint n w)" by (simp add: pad_uint_def oneline)
qed

lemma one_line_padded [oneline]: "one_line body \<Longrightarrow> one_line dest \<Longrightarrow> one_line (padded p n body dest)"
  using set_padded [of p n body dest] by (auto simp: one_line_def)

lemma one_line_drop: "one_line s \<Longrightarrow> one_line (drop n s)"
  using set_drop_subset [of n s] by (auto simp: one_line_def)

lemma one_line_file_basename [oneline]: "one_line f \<Longrightarrow> one_line (file_basename f)"
  by (simp add: file_basename_def one_line_drop split: option.split)

lemma one_line_levels [oneline]: "one_line (to_string_view l)" "one_line (to_short_c_str l)"
  by (cases l; simp add: to_string_view_def to_short_c_str_def level_string_views_def short_level_names_def one_line_def)+

text \<open>What the formatters are given.\<close>

definition valid_tm :: "tm_parts \<Rightarrow> bool" where
  "valid_tm t \<longleftrightarrow> 0 \<le> tm_wday t \<and> tm_wday t < 7 \<and> 0 \<le> tm_mon t \<and> tm_mon t < 12"

definition one_line_msg :: "fmt_msg \<Rightarrow> bool" where
  "one_line_msg msg \<longleftrightarrow> one_line (fm_name msg) \<and> one_line (fm_payload msg)
     \<and> one_line (sl_file (fm_source msg)) \<and> one_line (sl_func (fm_source msg))"

definition one_line_env :: "fmt_env \<Rightarrow> bool" where
  "one_line_env e \<longleftrightarrow> (\<forall>(k, v) \<in> set (fe_mdc e). one_line k \<and> one_line v)
     \<and> (\<forall>s. valid_tm (localtime (fe_tz e) s) \<and> valid_tm (fe_gmtime e s))"

lemma one_line_names [oneline]:
  assumes "valid_tm t"
  shows "one_line (days ! nat (tm_wday t))" "one_line (full_days ! nat (tm_wday t))"
    "one_line (month_short ! nat (tm_mon t))" "one_line (month_long ! nat (tm_mon t))"
proof -
  have "\<forall>s \<in> set days. one_line s" "\<forall>s \<in> set full_days. one_line s"
    "\<forall>s \<in> set month_short. one_line s" "\<forall>s \<in> set month_long. one_line s"
    by (simp_all add: days_def full_days_def month_short_def month_long_def one_line_def)
  moreover have "nat (tm_wday t) < length days" "nat (tm_wday t) < length full_days"
    "nat (tm_mon t) < length month_short" "nat (tm_mon t) < length month_long"
    using assms by (simp_all add: valid_tm_def days_def full_days_def month_short_def month_long_def nat_less_iff)
  ultimately show "one_line (days ! nat (tm_wday t))" "one_line (full_days ! nat (tm_wday t))"
    "one_line (month_short ! nat (tm_mon t))" "one_line (month_long ! nat (tm_mon t))" by simp_all
qed

lemma one_line_text_field: "one_line_msg msg \<Longrightarrow> one_line (snd (text_field e tf msg))"
  by (cases tf) (simp_all add: oneline one_line_msg_def)

lemma one_line_date_field: "valid_tm t \<Longrightarrow> one_line (snd (date_field df t))"
  by (cases df) (simp_all add: oneline)

lemma one_line_clock_field: "one_line (snd (clock_field cf t))"
  by (cases cf) (simp_all add: oneline ampm_name_def)

lemma one_line_frac_field: "one_line (snd (frac_field ff tp))"
  by (cases ff) (simp_all add: oneline)

lemma one_line_source_field: "one_line_msg msg \<Longrightarrow> one_line (snd (source_field sf (fm_source msg)))"
  by (cases sf) (simp_all add: source_field_def oneline one_line_msg_def)

lemmas one_line_fields = one_line_text_field one_line_date_field one_line_clock_field one_line_frac_field one_line_source_field

definition one_line_formatter :: "formatter \<Rightarrow> bool" where
  "one_line_formatter f \<longleftrightarrow> (case f of FullF _ c \<Rightarrow> one_line c | Ch c \<Rightarrow> c \<noteq> CHR 0x0A | Aggregate s \<Rightarrow> one_line s | _ \<Rightarrow> True)"

lemma one_line_put: "one_line (snd sz) \<Longrightarrow> one_line (fb_text b) \<Longrightarrow> one_line (fb_text (put p sz b))"
  by (simp add: put_def oneline)

lemma one_line_append_text: "one_line s \<Longrightarrow> one_line (fb_text b) \<Longrightarrow> one_line (fb_text (append_text s b))"
  by (simp add: append_text_def oneline)

lemma one_line_fb_update [oneline]:
  "one_line (fb_text (b\<lparr>fb_start := i\<rparr>)) \<longleftrightarrow> one_line (fb_text b)"
  "one_line (fb_text (b\<lparr>fb_end := i\<rparr>)) \<longleftrightarrow> one_line (fb_text b)"
  by simp_all

lemma one_line_format_mdc:
  "\<forall>(k, v) \<in> set kvs. one_line k \<and> one_line v \<Longrightarrow> one_line (fb_text b) \<Longrightarrow> one_line (fb_text (format_mdc p kvs b))"
  by (induction p kvs b rule: format_mdc.induct) (simp_all add: one_line_put oneline)

lemma one_line_zone_text [oneline]: "one_line (zone_text k)"
  by (simp add: zone_text_def Let_def oneline)

lemma one_line_full_date [oneline]: "one_line (full_date t)"
  by (simp add: full_date_def oneline)

text \<open>A step of a formatter whose result is bound by a \<open>let\<close>.\<close>

lemma one_line_let: "one_line (fb_text x) \<Longrightarrow> (\<And>b. one_line (fb_text b) \<Longrightarrow> P (f b)) \<Longrightarrow> P (let b = x in f b)"
  by simp

abbreviation one_line_result :: "formatter \<times> fmt_buf \<Rightarrow> bool" where
  "one_line_result r \<equiv> one_line_formatter (fst r) \<and> one_line (fb_text (snd r))"

lemma one_line_full:
  assumes "one_line_msg msg" "one_line_env e" "one_line c" "one_line (fb_text b)"
  shows "one_line_result (format_full e msg t ts c b)"
proof -
  have m: "one_line (fm_name msg)" "one_line (fm_payload msg)" "one_line (file_basename (sl_file (fm_source msg)))"
    "\<forall>(k, v) \<in> set (fe_mdc e). one_line k \<and> one_line v"
    using assms(1,2) by (simp_all add: one_line_msg_def one_line_env_def oneline)
  define n where "n = (if ts \<noteq> c_div (fm_time msg) ns_per_sec \<or> c = [] then (c_div (fm_time msg) ns_per_sec, full_date t) else (ts, c))"
  obtain ts' c' where n': "n = (ts', c')" by (cases n)
  have c': "one_line c'" using assms(3) n' by (auto simp: n_def oneline split: if_splits)
  show ?thesis
    unfolding format_full_def Let_def [of "c_div (fm_time msg) ns_per_sec"] n_def [symmetric] n'
      Let_def [of "(ts', c')"] prod.case
    apply (rule one_line_let [where P = one_line_result], simp add: one_line_append_text oneline c' assms(4))
    apply (rule one_line_let [where P = one_line_result], simp add: one_line_append_text oneline m)
    apply (rule one_line_let [where P = one_line_result], simp add: one_line_append_text oneline)
    apply (rule one_line_let [where P = one_line_result], simp add: one_line_append_text oneline)
    apply (rule one_line_let [where P = one_line_result], simp add: one_line_append_text oneline)
    apply (rule one_line_let [where P = one_line_result], simp add: one_line_append_text oneline)
    apply (rule one_line_let [where P = one_line_result], simp add: one_line_append_text oneline)
    apply (rule one_line_let [where P = one_line_result], simp add: one_line_append_text oneline m)
    apply (rule one_line_let [where P = one_line_result], simp add: one_line_append_text one_line_format_mdc oneline m)
    by (simp add: one_line_formatter_def one_line_append_text oneline m c')
qed

lemma one_line_format_one:
  assumes "one_line_msg msg" "one_line_env e" "valid_tm t" "one_line_formatter f" "one_line (fb_text b)"
  shows "one_line_result (format_one e msg t f b)"
proof (cases f)
  case (FullF ts c)
  then show ?thesis using assms one_line_full [of msg e c b t ts] by (simp add: one_line_formatter_def)
next
  case (MdcF p)
  then show ?thesis using assms one_line_put [of "(0, [])" b p] one_line_format_mdc [of "fe_mdc e" b p]
    by (auto simp: one_line_formatter_def one_line_env_def oneline)
next
  case (ZoneF p utc l k)
  then show ?thesis using assms(5)
    by (simp add: one_line_formatter_def format_zone_def one_line_put oneline split: prod.split)
qed (use assms in \<open>simp_all add: one_line_formatter_def format_elapsed_def Let_def one_line_put one_line_fields
    one_line_append_text oneline\<close>)

lemma one_line_run_formatters:
  assumes "one_line_msg msg" "one_line_env e" "valid_tm t"
  shows "(\<forall>f \<in> set fs. one_line_formatter f) \<Longrightarrow> one_line (fb_text b) \<Longrightarrow>
    (\<forall>f \<in> set (fst (run_formatters e msg t fs b)). one_line_formatter f)
    \<and> one_line (fb_text (snd (run_formatters e msg t fs b)))"
proof (induction fs arbitrary: b)
  case (Cons f fs)
  obtain f' b1 where f: "format_one e msg t f b = (f', b1)" by force
  with one_line_format_one [OF assms, of f b] Cons.prems have "one_line_formatter f'" "one_line (fb_text b1)" by simp_all
  then show ?case using Cons.IH [of b1] Cons.prems f by (simp add: split_beta)
qed simp

section \<open>Compiled patterns\<close>

lemma one_line_tl: "one_line s \<Longrightarrow> one_line (tl s)"
  by (cases s) (simp_all add: oneline)

lemma one_line_dropWhile: "one_line s \<Longrightarrow> one_line (dropWhile P s)"
  by (auto simp: one_line_def dest: set_dropWhileD)

lemma one_line_handle_padspec: "one_line s \<Longrightarrow> one_line (snd (handle_padspec s))"
  by (cases s) (auto simp: handle_padspec_def Let_def oneline intro!: one_line_tl one_line_dropWhile)

lemma one_line_handle_flag:
  "c \<noteq> CHR 0x0A \<Longrightarrow> f \<in> set (fst (handle_flag utc now c p)) \<Longrightarrow> one_line_formatter f"
  by (auto simp: handle_flag_def one_line_formatter_def oneline split: if_splits)

lemma one_line_flush_chars:
  "(case uc of None \<Rightarrow> True | Some s \<Rightarrow> one_line s) \<Longrightarrow> f \<in> set (flush_chars uc) \<Longrightarrow> one_line_formatter f"
  by (auto simp: flush_chars_def one_line_formatter_def split: option.splits)

lemma one_line_compile_loop:
  "one_line s \<Longrightarrow> (case uc of None \<Rightarrow> True | Some u \<Rightarrow> one_line u) \<Longrightarrow> (\<forall>f \<in> set fs. one_line_formatter f) \<Longrightarrow>
    (\<forall>f \<in> set (fst (compile_loop utc now s uc fs need)). one_line_formatter f)"
proof (induction utc now s uc fs need rule: compile_loop.induct)
  case (1 utc now uc fs need)
  then show ?case using one_line_flush_chars [of uc] by auto
next
  case (2 utc now c cs uc fs need)
  let ?fs = "fs @ flush_chars uc"
  have fs: "\<forall>f \<in> set ?fs. one_line_formatter f" using 2(4,5) one_line_flush_chars [of uc] by auto
  show ?case
  proof (cases "c = CHR ''%''")
    case False
    then show ?thesis using 2(2) 2(3-5) by (simp add: oneline split: option.splits)
  next
    case True
    obtain p r where pr: "handle_padspec cs = (p, r)" by force
    have r: "one_line r" using one_line_handle_padspec [of cs] 2(3) pr by (simp add: oneline)
    show ?thesis
    proof (cases r)
      case Nil
      then show ?thesis using True pr fs by simp
    next
      case (Cons d ds)
      obtain new lt where h: "handle_flag utc (now (length ?fs)) d p = (new, lt)" by force
      have "\<forall>f \<in> set (?fs @ new). one_line_formatter f"
        using fs one_line_handle_flag [of d _ utc "now (length ?fs)" p] r h Cons by (auto simp: oneline)
      then show ?thesis
        using 2(1) [OF True refl pr [symmetric] Cons h [symmetric]] r pr h Cons True by (simp add: oneline)
    qed
  qed
qed

lemma pf_fields_compile [simp]:
  "pf_eol (compile_pattern now pf) = pf_eol pf" "pf_cached_tm (compile_pattern now pf) = pf_cached_tm pf"
  "pf_utc (compile_pattern now pf) = pf_utc pf" "pf_last_secs (compile_pattern now pf) = pf_last_secs pf"
  "pf_pattern (compile_pattern now pf) = pf_pattern pf"
  by (simp_all add: compile_pattern_def split_beta)

text \<open>A formatter all of whose state is free of line breaks.\<close>

definition one_line_pattern :: "pattern_formatter \<Rightarrow> bool" where
  "one_line_pattern pf \<longleftrightarrow> (\<forall>f \<in> set (pf_formatters pf). one_line_formatter f) \<and> valid_tm (pf_cached_tm pf)"

lemma one_line_new_pattern: "one_line s \<Longrightarrow> one_line_pattern (new_pattern now s utc eol)"
  using one_line_compile_loop [of s None "[]" utc now False]
  by (simp add: one_line_pattern_def new_pattern_def compile_pattern_def split_beta valid_tm_def zero_tm_def)

lemma one_line_pf_format:
  assumes "one_line_msg msg" "one_line_env e" "one_line_pattern pf" "one_line (fb_text b)"
  shows "one_line_pattern (fst (pf_format e msg (pf, b)))
    \<and> (\<exists>t. fb_text (snd (pf_format e msg (pf, b))) = t @ pf_eol pf \<and> one_line t)"
proof -
  define tm where "tm = (if pf_need_localtime pf \<and> c_div (fm_time msg) ns_per_sec \<noteq> pf_last_secs pf
    then get_time e (pf_utc pf) (fm_time msg) else pf_cached_tm pf)"
  have tm: "valid_tm tm" using assms(2,3) by (simp add: tm_def get_time_def one_line_env_def one_line_pattern_def)
  have r: "\<forall>f \<in> set (fst (run_formatters e msg tm (pf_formatters pf) b)). one_line_formatter f"
    "one_line (fb_text (snd (run_formatters e msg tm (pf_formatters pf) b)))"
    using one_line_run_formatters [OF assms(1,2) tm, of "pf_formatters pf" b] assms(3,4) by (simp_all add: one_line_pattern_def)
  then show ?thesis using tm
    by (auto simp: pf_format_def Let_def split_beta one_line_pattern_def append_text_def tm_def split: if_splits)
qed

section \<open>The caches\<close>

text \<open>A message into an empty buffer, and messages one after the other through one formatter.\<close>

definition empty_buf :: fmt_buf where
  "empty_buf = \<lparr>fb_text = [], fb_start = 0, fb_end = 0\<rparr>"

fun pf_run :: "fmt_env \<Rightarrow> fmt_msg list \<Rightarrow> pattern_formatter \<Rightarrow> fmt_buf list" where
  "pf_run e [] pf = []"
| "pf_run e (msg # msgs) pf = (case pf_format e msg (pf, empty_buf) of (pf', b) \<Rightarrow> b # pf_run e msgs pf')"

text \<open>A formatter with its cache emptied; a cache that agrees with the calendar times \<open>tms\<close> and
  the zone offset \<open>k\<close>; and the formatters whose output depends on more than the message.\<close>

fun fresh :: "formatter \<Rightarrow> formatter" where
  "fresh (ZoneF p utc l k) = ZoneF p utc 0 0"
| "fresh (FullF ts c) = FullF 0 []"
| "fresh f = f"

fun elapsed_free :: "formatter \<Rightarrow> bool" where
  "elapsed_free (ElapsedF p u l) = False"
| "elapsed_free f = True"

fun cache_ok :: "(int \<Rightarrow> tm_parts) \<Rightarrow> int \<Rightarrow> formatter \<Rightarrow> bool" where
  "cache_ok tms k (ZoneF p utc l k') = ((l = 0 \<and> k' = 0) \<or> k' = k)"
| "cache_ok tms k (FullF ts c) = (c = [] \<or> c = full_date (tms ts))"
| "cache_ok tms k f = elapsed_free f"

lemma fresh_cache_ok: "elapsed_free f \<Longrightarrow> fresh f = f \<Longrightarrow> cache_ok tms k f"
  by (cases f) auto

lemma full_date_nonempty: "full_date t \<noteq> []"
  by (simp add: full_date_def)

lemma format_full_cache:
  assumes "c = [] \<or> c = full_date (tms ts)" and t: "t = tms (c_div (fm_time msg) ns_per_sec)"
  shows "fst (format_full e msg t ts c b) = FullF (c_div (fm_time msg) ns_per_sec) (full_date t)"
    and "snd (format_full e msg t ts c b) = snd (format_full e msg t 0 [] b)"
proof -
  let ?s = "c_div (fm_time msg) ns_per_sec"
  have "(if ts \<noteq> ?s \<or> c = [] then (?s, full_date t) else (ts, c)) = (?s, full_date t)"
    "(if (0::int) \<noteq> ?s \<or> ([]::string) = [] then (?s, full_date t) else (0, [])) = (?s, full_date t)"
    using assms(1) by (auto simp: t)
  then show "fst (format_full e msg t ts c b) = FullF ?s (full_date t)"
    "snd (format_full e msg t ts c b) = snd (format_full e msg t 0 [] b)"
    unfolding format_full_def Let_def [of ?s] by (simp_all only:) (simp_all add: Let_def)
qed

lemma format_one_cache:
  assumes "cache_ok tms k f" "t = tms (c_div (fm_time msg) ns_per_sec)" "10 * ns_per_sec \<le> fm_time msg"
    "\<forall>t. fe_offset e t = k"
  shows "cache_ok tms k (fst (format_one e msg t f b)) \<and> fresh (fst (format_one e msg t f b)) = fresh f
    \<and> snd (format_one e msg t f b) = snd (format_one e msg t (fresh f) b)"
proof (cases f)
  case (FullF ts c)
  then show ?thesis using format_full_cache [of c tms ts t msg e b] assms(1,2) by simp
next
  case (ZoneF p utc l k')
  then show ?thesis using assms(1,3,4) by (auto simp: format_zone_def)
next
  case (ElapsedF p u l)
  then show ?thesis using assms(1) by simp
qed simp_all

lemma run_formatters_cache:
  assumes "t = tms (c_div (fm_time msg) ns_per_sec)" "10 * ns_per_sec \<le> fm_time msg" "\<forall>t. fe_offset e t = k"
  shows "\<forall>f \<in> set fs. cache_ok tms k f \<Longrightarrow>
    (\<forall>f \<in> set (fst (run_formatters e msg t fs b)). cache_ok tms k f)
    \<and> map fresh (fst (run_formatters e msg t fs b)) = map fresh fs
    \<and> snd (run_formatters e msg t fs b) = snd (run_formatters e msg t (map fresh fs) b)"
proof (induction fs arbitrary: b)
  case (Cons f fs)
  note one = format_one_cache [where tms = tms and t = t and f = f and b = b, OF _ assms]
  show ?case using one Cons.IH [of "snd (format_one e msg t f b)"] Cons.prems
    by (simp add: split_beta)
qed simp

text \<open>The calendar time a formatter hands to its fields, as a function of the second.\<close>

definition pf_tms :: "fmt_env \<Rightarrow> pattern_formatter \<Rightarrow> int \<Rightarrow> tm_parts" where
  "pf_tms e pf secs = (if \<not> pf_need_localtime pf then zero_tm
     else if pf_utc pf then fe_gmtime e secs else localtime (fe_tz e) secs)"

text \<open>\<open>pf\<close> is \<open>pf0\<close> after some messages.\<close>

definition pf_after :: "fmt_env \<Rightarrow> int \<Rightarrow> pattern_formatter \<Rightarrow> pattern_formatter \<Rightarrow> bool" where
  "pf_after e k pf0 pf \<longleftrightarrow> pf_eol pf = pf_eol pf0 \<and> pf_utc pf = pf_utc pf0 \<and> pf_need_localtime pf = pf_need_localtime pf0
     \<and> (\<forall>f \<in> set (pf_formatters pf). cache_ok (pf_tms e pf0) k f)
     \<and> map fresh (pf_formatters pf) = map fresh (pf_formatters pf0)
     \<and> (pf_last_secs pf = 0 \<or> pf_cached_tm pf = pf_tms e pf0 (pf_last_secs pf))
     \<and> (\<not> pf_need_localtime pf0 \<longrightarrow> pf_cached_tm pf = zero_tm)"

lemma pf_format_parts:
  assumes "pf_after e k pf0 pf" "10 * ns_per_sec \<le> fm_time msg"
  defines "secs \<equiv> c_div (fm_time msg) ns_per_sec"
  shows "snd (pf_format e msg (pf, b)) = append_text (pf_eol pf0) (snd (run_formatters e msg (pf_tms e pf0 secs) (pf_formatters pf) b))"
    and "pf_formatters (fst (pf_format e msg (pf, b))) = fst (run_formatters e msg (pf_tms e pf0 secs) (pf_formatters pf) b)"
    and "pf_eol (fst (pf_format e msg (pf, b))) = pf_eol pf0" "pf_utc (fst (pf_format e msg (pf, b))) = pf_utc pf0"
    and "pf_need_localtime (fst (pf_format e msg (pf, b))) = pf_need_localtime pf0"
    and "pf_cached_tm (fst (pf_format e msg (pf, b))) = pf_tms e pf0 secs"
proof -
  have "secs \<noteq> 0" using assms(2) by (simp add: secs_def c_div_def ns_per_sec_def)
  then have "(if pf_need_localtime pf \<and> secs \<noteq> pf_last_secs pf then get_time e (pf_utc pf) (fm_time msg) else pf_cached_tm pf)
      = pf_tms e pf0 secs"
    using assms(1) by (auto simp: pf_after_def get_time_def pf_tms_def to_time_t_def secs_def)
  then show "snd (pf_format e msg (pf, b)) = append_text (pf_eol pf0) (snd (run_formatters e msg (pf_tms e pf0 secs) (pf_formatters pf) b))"
    "pf_formatters (fst (pf_format e msg (pf, b))) = fst (run_formatters e msg (pf_tms e pf0 secs) (pf_formatters pf) b)"
    "pf_eol (fst (pf_format e msg (pf, b))) = pf_eol pf0" "pf_utc (fst (pf_format e msg (pf, b))) = pf_utc pf0"
    "pf_need_localtime (fst (pf_format e msg (pf, b))) = pf_need_localtime pf0"
    "pf_cached_tm (fst (pf_format e msg (pf, b))) = pf_tms e pf0 secs"
    using assms(1) unfolding secs_def
    by (auto simp: pf_format_def Let_def split_beta pf_after_def split: if_splits)
qed

lemma pf_last_secs_format:
  "pf_last_secs (fst (pf_format e msg (pf, b))) = (if pf_need_localtime pf then c_div (fm_time msg) ns_per_sec else pf_last_secs pf)"
  by (auto simp: pf_format_def Let_def split_beta)

lemma pf_after_step:
  assumes "pf_after e k pf0 pf" "10 * ns_per_sec \<le> fm_time msg" "\<forall>t. fe_offset e t = k"
  shows "pf_after e k pf0 (fst (pf_format e msg (pf, b)))
    \<and> snd (pf_format e msg (pf, b)) = append_text (pf_eol pf0)
        (snd (run_formatters e msg (pf_tms e pf0 (c_div (fm_time msg) ns_per_sec)) (map fresh (pf_formatters pf0)) b))"
proof -
  note run = run_formatters_cache [where tms = "pf_tms e pf0" and fs = "pf_formatters pf" and k = k and b = b,
      OF refl assms(2,3)]
  note parts = pf_format_parts [OF assms(1,2)]
  show ?thesis
  proof (intro conjI)
    show "pf_after e k pf0 (fst (pf_format e msg (pf, b)))"
      using run assms(1) by (simp add: pf_after_def parts pf_last_secs_format pf_tms_def)
    show "snd (pf_format e msg (pf, b)) = append_text (pf_eol pf0)
        (snd (run_formatters e msg (pf_tms e pf0 (c_div (fm_time msg) ns_per_sec)) (map fresh (pf_formatters pf0)) b))"
      using run assms(1) by (simp add: pf_after_def parts)
  qed
qed

lemma pf_run_after:
  assumes "\<forall>t. fe_offset e t = k" "pf_after e k pf0 pf0"
  shows "pf_after e k pf0 pf \<Longrightarrow> \<forall>msg \<in> set msgs. 10 * ns_per_sec \<le> fm_time msg \<Longrightarrow>
    pf_run e msgs pf = map (\<lambda>msg. snd (pf_format e msg (pf0, empty_buf))) msgs"
proof (induction msgs arbitrary: pf)
  case (Cons msg msgs)
  note t = bspec [OF Cons.prems(2) list.set_intros(1)]
  have "snd (pf_format e msg (pf, empty_buf)) = snd (pf_format e msg (pf0, empty_buf))"
    using pf_after_step [OF Cons.prems(1) t assms(1)] pf_after_step [OF assms(2) t assms(1)] by simp
  then show ?case
    using pf_after_step [OF Cons.prems(1) t assms(1)] Cons.IH [of "fst (pf_format e msg (pf, empty_buf))"] Cons.prems(2)
    by (simp add: split_beta)
qed simp

text \<open>What compiling a pattern builds has empty caches.\<close>

lemma handle_flag_fresh: "f \<in> set (fst (handle_flag utc now c p)) \<Longrightarrow> fresh f = f"
  by (auto simp: handle_flag_def split: if_splits)

lemma flush_chars_fresh: "f \<in> set (flush_chars uc) \<Longrightarrow> fresh f = f"
  by (auto simp: flush_chars_def split: option.splits)

lemma compile_loop_fresh:
  "\<forall>f \<in> set fs. fresh f = f \<Longrightarrow> \<forall>f \<in> set (fst (compile_loop utc now s uc fs need)). fresh f = f"
proof (induction utc now s uc fs need rule: compile_loop.induct)
  case (2 utc now c cs uc fs need)
  let ?fs = "fs @ flush_chars uc"
  have fs: "\<forall>f \<in> set ?fs. fresh f = f" using 2(3) flush_chars_fresh by auto
  show ?case
  proof (cases "c = CHR ''%''")
    case True
    obtain p r where pr: "handle_padspec cs = (p, r)" by force
    show ?thesis
    proof (cases r)
      case (Cons d ds)
      obtain new lt where h: "handle_flag utc (now (length ?fs)) d p = (new, lt)" by force
      have "\<forall>f \<in> set (?fs @ new). fresh f = f" using fs handle_flag_fresh [of _ utc "now (length ?fs)" d p] h by auto
      then show ?thesis using 2(1) [OF True refl pr [symmetric] Cons h [symmetric]] pr h Cons True by simp
    qed (use True pr fs in simp)
  qed (use 2 in simp)
qed (use flush_chars_fresh in auto)

lemma new_pattern_fresh: "map fresh (pf_formatters (new_pattern now s utc eol)) = pf_formatters (new_pattern now s utc eol)"
  using compile_loop_fresh [of "[]" utc now s None False]
  by (intro map_idI) (simp add: new_pattern_def compile_pattern_def split_beta)

text \<open>
  C10. The caches of the pattern formatter cannot be seen: it keeps the calendar time of the last
  second, \<open>%+\<close> the rendered date and \<open>%z\<close> the offset for ten seconds, yet for a constant
  offset, messages later than ten seconds after the epoch and in any order, and a pattern without
  the flags of elapsed time, each message gets the text and color range that a formatter made
  for this message alone gives.
\<close>

theorem formatter_caches_invisible:
  assumes "\<forall>msg \<in> set msgs. 10 * ns_per_sec \<le> fm_time msg" and "\<forall>t. fe_offset e t = k"
    and "\<forall>f \<in> set (pf_formatters (new_pattern now s utc eol)). elapsed_free f"
  shows "pf_run e msgs (new_pattern now s utc eol)
    = map (\<lambda>msg. snd (pf_format e msg (new_pattern now s utc eol, empty_buf))) msgs"
proof (rule pf_run_after [OF assms(2) _ _ assms(1)])
  let ?pf = "new_pattern now s utc eol"
  have "\<forall>f \<in> set (pf_formatters ?pf). cache_ok (pf_tms e ?pf) k f"
    using assms(3) fresh_cache_ok new_pattern_fresh by (metis list.map_ident map_eq_conv)
  then show "pf_after e k ?pf ?pf" "pf_after e k ?pf ?pf"
    by (simp_all add: pf_after_def new_pattern_def)
qed

definition clock_env :: fmt_env where
  "clock_env = \<lparr>fe_pid = 1, fe_mdc = [], fe_tz = tz_utc_day, fe_gmtime = localtime tz_utc_day, fe_offset = (\<lambda>t. 60)\<rparr>"

definition clock_msg :: "int \<Rightarrow> string \<Rightarrow> fmt_msg" where
  "clock_msg tp txt = \<lparr>fm_name = ''x'', fm_level = Info, fm_time = tp, fm_tid = 4,
     fm_source = \<lparr>sl_file = [], sl_line = 0, sl_func = []\<rparr>, fm_payload = txt\<rparr>"

lemma formatter_caches_invisible_witness:
  "map fb_text (pf_run clock_env (map (\<lambda>n. clock_msg (n * ns_per_sec) ''a'') [3661, 3661, 62]) (new_pattern (\<lambda>_. 0) ''%M:%S%z%v'' False []))
    = [''01:01+01:00a'', ''01:01+01:00a'', ''01:02+01:00a'']"
proof -
  have t: "\<forall>msg \<in> set (map (\<lambda>n. clock_msg (n * ns_per_sec) ''a'') [3661, 3661, 62]). 10 * ns_per_sec \<le> fm_time msg"
    "\<forall>t. fe_offset clock_env t = 60"
    "\<forall>f \<in> set (pf_formatters (new_pattern (\<lambda>_. 0) ''%M:%S%z%v'' False [])). elapsed_free f"
    by (code_simp, simp add: clock_env_def, code_simp)
  have "map (\<lambda>msg. fb_text (snd (pf_format clock_env msg (new_pattern (\<lambda>_. 0) ''%M:%S%z%v'' False [], empty_buf))))
      (map (\<lambda>n. clock_msg (n * ns_per_sec) ''a'') [3661, 3661, 62]) = [''01:01+01:00a'', ''01:01+01:00a'', ''01:02+01:00a'']"
    by code_simp
  then show ?thesis unfolding formatter_caches_invisible [OF t] by (simp add: comp_def)
qed

text \<open>The last formatted second starts at zero: a message of the first second of the epoch gets
  the zeroed calendar time, whatever the clock says.\<close>

lemma epoch_second_zeroed:
  "fb_text (snd (pf_format clock_env (clock_msg 5 ''a'') (new_pattern (\<lambda>_. 0) ''%Y %d'' False [], empty_buf))) = ''1900 00''"
  "tm_year (localtime (fe_tz clock_env) (to_time_t 5)) + 1900 = 1970" "tm_mday (localtime (fe_tz clock_env) (to_time_t 5)) = 1"
  by (simp add: pf_format_def new_pattern_def compile_pattern_def handle_padspec_def handle_flag_def is_digit_def flush_chars_def
      append_text_def put_def padded_def no_padding_def zero_tm_def int_dec_def nat_dec.simps digit_char_def pad2_def
      empty_buf_def clock_msg_def c_div_def ns_per_sec_def, code_simp+)

end
