(* ===== verification/PatternLayout.thy ===== *)
theory PatternLayout
  imports PatternLines
begin

text \<open>
  What a pattern means: with its percent signs doubled it stands for itself; a message behind a
  padding specification has the width asked for; and the layout of the default pattern of this
  program, with the range of the level for the colors of the console.
\<close>

section \<open>Formatters one after the other\<close>

lemma run_formatters_append:
  "snd (run_formatters e msg t (fs @ gs) b) = snd (run_formatters e msg t gs (snd (run_formatters e msg t fs b)))"
  by (induction fs arbitrary: b) (simp_all add: split_beta)

lemma append_text_append [simp]: "append_text s (append_text u b) = append_text (u @ s) b"
  by (simp add: append_text_def)

lemma append_text_Nil [simp]: "append_text [] b = b"
  by (simp add: append_text_def)

section \<open>Doubled percent signs\<close>

definition percent_escape :: "string \<Rightarrow> string" where
  "percent_escape s = concat (map (\<lambda>c. if c = CHR ''%'' then ''%%'' else [c]) s)"

lemma handle_padspec_flag:
  "\<not> is_digit c \<Longrightarrow> c \<noteq> CHR ''-'' \<Longrightarrow> c \<noteq> CHR ''='' \<Longrightarrow> handle_padspec (c # s) = (no_padding, c # s)"
  by (simp add: handle_padspec_def)

lemma handle_flag_percent: "handle_flag utc k (CHR ''%'') p = ([Ch (CHR ''%'')], False)"
  by (simp add: handle_flag_def)

lemma compile_loop_escaped:
  "snd (run_formatters e msg t (fst (compile_loop utc now (percent_escape s) uc fs need)) b)
    = append_text s (snd (run_formatters e msg t (fs @ flush_chars uc) b))"
proof (induction s arbitrary: uc fs)
  case Nil
  then show ?case by (simp add: percent_escape_def)
next
  case (Cons c s)
  show ?case
  proof (cases "c = CHR ''%''")
    case True
    then have "percent_escape (c # s) = CHR ''%'' # CHR ''%'' # percent_escape s" by (simp add: percent_escape_def)
    then show ?thesis using Cons.IH [of None "fs @ flush_chars uc @ [Ch (CHR ''%'')]"] True
      by (simp add: handle_padspec_flag is_digit_def handle_flag_percent run_formatters_append flush_chars_def Let_def)
  next
    case False
    then have "percent_escape (c # s) = c # percent_escape s" by (simp add: percent_escape_def)
    then show ?thesis using Cons.IH [of "Some ((case uc of None \<Rightarrow> [] | Some s \<Rightarrow> s) @ [c])" fs] False
      by (simp add: run_formatters_append flush_chars_def split: option.splits)
  qed
qed

lemma snd_pf_format_new:
  "\<exists>t. snd (pf_format e msg (new_pattern now s utc eol, b))
    = append_text eol (snd (run_formatters e msg t (fst (compile_loop utc now s None [] False)) b))"
  unfolding pf_format_def new_pattern_def compile_pattern_def Let_def split_beta by auto

text \<open>
  C13. Escaping round trip: a text with each percent sign doubled, compiled as a pattern, is
  written back as the text itself, then the end of line, whatever the text and the message are.
\<close>

theorem escaped_pattern_text:
  "snd (pf_format e msg (new_pattern now (percent_escape s) utc eol, b)) = append_text (s @ eol) b"
  using snd_pf_format_new [of e msg now "percent_escape s" utc eol b]
  by (auto simp: compile_loop_escaped flush_chars_def)

section \<open>Padding specifications\<close>

definition side_mark :: "pad_side \<Rightarrow> string" where
  "side_mark side = (case side of PadLeft \<Rightarrow> [] | PadRight \<Rightarrow> ''-'' | PadCenter \<Rightarrow> ''='')"

definition fill_side :: "pad_side \<Rightarrow> nat \<Rightarrow> string \<Rightarrow> string" where
  "fill_side side k s = (let sp = (\<lambda>k. replicate k (CHR '' '')) in
     (case side of PadLeft \<Rightarrow> sp k @ s | PadRight \<Rightarrow> s @ sp k | PadCenter \<Rightarrow> sp (k div 2) @ s @ sp (k div 2 + k mod 2)))"

lemma foldl_width: "foldl (\<lambda>w c. (w * 10 + digit_val c) mod 2 ^ 64) (a mod 2 ^ 64) s = foldl (\<lambda>w c. w * 10 + digit_val c) a s mod 2 ^ 64"
proof (induction s arbitrary: a)
  case (Cons c s)
  have "(a mod 2 ^ 64 * 10 + digit_val c) mod 2 ^ 64 = (a * 10 + digit_val c) mod 2 ^ 64"
    by (metis mod_add_left_eq mod_mult_left_eq)
  then show ?case using Cons.IH [of "a * 10 + digit_val c"] by simp
qed simp

lemma width_nat_dec: "foldl (\<lambda>w c. (w * 10 + digit_val c) mod 2 ^ 64) 0 (nat_dec w) = w mod 2 ^ 64"
  using foldl_width [of 0 "nat_dec w"] by (simp add: dec_val_def [symmetric])

lemma takeWhile_nat_dec:
  "\<not> is_digit c \<Longrightarrow> takeWhile is_digit (nat_dec w @ c # s) = nat_dec w"
  "\<not> is_digit c \<Longrightarrow> dropWhile is_digit (nat_dec w @ c # s) = c # s"
  using nat_dec_digits [of _ w] by (simp_all add: takeWhile_append2 dropWhile_append2)

lemma width_head: "\<exists>c cs. nat_dec w = c # cs \<and> is_digit c \<and> c \<noteq> CHR ''-'' \<and> c \<noteq> CHR ''=''"
proof (cases "nat_dec w")
  case (Cons c cs)
  with nat_dec_digits [of c w] have "is_digit c" by simp
  then have "c \<noteq> CHR ''-''" "c \<noteq> CHR ''=''" by (auto simp: is_digit_def)
  with Cons \<open>is_digit c\<close> show ?thesis by blast
qed simp

lemma handle_padspec_width:
  assumes "\<not> is_digit c" "c \<noteq> CHR ''!''"
  shows "handle_padspec (side_mark side @ nat_dec w @ (if trunc then ''!'' else []) @ c # s)
    = (\<lparr>pd_width = min (w mod 2 ^ 64) 64, pd_side = side, pd_truncate = trunc, pd_enabled = True\<rparr>, c # s)"
proof -
  define r where "r = nat_dec w @ (if trunc then ''!'' else []) @ c # s"
  have "\<not> is_digit (CHR ''!'')" by (simp add: is_digit_def)
  then have w: "takeWhile is_digit r = nat_dec w" "dropWhile is_digit r = (if trunc then ''!'' else []) @ c # s"
    using assms(1) by (simp_all add: r_def takeWhile_nat_dec)
  have h: "r \<noteq> []" "is_digit (hd r)" "hd r \<noteq> CHR ''-''" "hd r \<noteq> CHR ''=''"
    using width_head [of w] by (auto simp: r_def)
  have "(case side_mark side @ r of [] \<Rightarrow> (PadLeft, [])
      | c # cs \<Rightarrow> if c = CHR ''-'' then (PadRight, cs) else if c = CHR ''='' then (PadCenter, cs) else (PadLeft, side_mark side @ r))
      = (side, r)"
    using h by (cases side; cases r) (auto simp: side_mark_def)
  then show ?thesis using h assms(2) unfolding r_def [symmetric]
    by (simp add: handle_padspec_def w width_nat_dec [simplified])
qed

lemma padded_fill:
  "padded \<lparr>pd_width = m, pd_side = side, pd_truncate = trunc, pd_enabled = True\<rparr> (length s) s d
    = d @ (if length s \<le> m then fill_side side (m - length s) s else if trunc then take m s else s)"
proof (cases "length s \<le> m")
  case True
  then have "nat (int m - int (length s)) = m - length s" by linarith
  with True show ?thesis by (simp add: padded_def Let_def fill_side_def split: pad_side.split)
next
  case False
  then have "nat (int (length d) + int (length s) + (int m - int (length s))) = length d + m" by linarith
  with False show ?thesis by (simp add: padded_def Let_def)
qed

definition pad_pattern :: "pad_side \<Rightarrow> nat \<Rightarrow> bool \<Rightarrow> string" where
  "pad_pattern side w trunc = ''%'' @ side_mark side @ nat_dec w @ (if trunc then ''!'' else []) @ ''v''"

text \<open>
  C12. Padding: the pattern of a side, a width, perhaps the truncation mark and \<open>v\<close> writes the
  message filled with spaces to the width on that side (both sides when centered, the odd space
  on the right); a longer message is cut to the width with the mark and kept without.  Widths
  above 64 count as 64, and a width is read modulo \<open>2 ^ 64\<close>.
\<close>

theorem padded_message:
  "fb_text (snd (pf_format e msg (new_pattern now (pad_pattern side w trunc) utc eol, empty_buf)))
    = (let m = min (w mod 2 ^ 64) 64; txt = fm_payload msg
       in if length txt \<le> m then fill_side side (m - length txt) txt else if trunc then take m txt else txt) @ eol"
proof -
  have "fst (compile_loop utc now (pad_pattern side w trunc) None [] False)
      = [TextF FlText \<lparr>pd_width = min (w mod 2 ^ 64) 64, pd_side = side, pd_truncate = trunc, pd_enabled = True\<rparr>]"
    using handle_padspec_width [of "CHR ''v''" side w trunc "[]"]
    by (simp add: pad_pattern_def is_digit_def handle_flag_def flush_chars_def Let_def)
  then show ?thesis using snd_pf_format_new [of e msg now "pad_pattern side w trunc" utc eol empty_buf]
    by (auto simp: put_def append_text_def empty_buf_def padded_fill Let_def)
qed

lemma length_fill_side [simp]: "length (fill_side side k s) = k + length s"
proof -
  have "k div 2 + (k div 2 + k mod 2) = k" by presburger
  then show ?thesis by (cases side) (simp_all add: fill_side_def Let_def)
qed

section \<open>The default pattern\<close>

lemma millis: "0 \<le> tp \<Longrightarrow> time_fraction 1000000 tp = tp div 1000000 mod 1000"
proof -
  assume "0 \<le> tp"
  then have "c_div tp u = tp div u" if "0 < u" for u using that by (cases "tp = 0") (simp_all add: c_div_def)
  moreover have "tp div ns_per_sec = tp div 1000000 div 1000" by (simp add: ns_per_sec_def zdiv_zmult2_eq [symmetric])
  ultimately show ?thesis by (simp add: time_fraction_def ns_per_sec_def minus_mult_div_eq_mod [symmetric] mult.commute)
qed

lemma default_formatters: "compile_loop utc now default_pattern None [] False =
   ([Aggregate ''['', DateF Fl_Y no_padding, Aggregate ''-'', DateF Fl_m no_padding, Aggregate ''-'', DateF Fl_d no_padding,
     Aggregate '' '', ClockF Fl_H no_padding, Aggregate '':'', ClockF Fl_M no_padding, Aggregate '':'', ClockF Fl_S no_padding,
     Aggregate ''.'', FracF Fl_e no_padding, Aggregate '']['', TextF FlName no_padding, Aggregate '']['', ColorStart,
     TextF FlLevel no_padding, ColorStop, Aggregate ''][thread '', TextF FlThread no_padding, Aggregate '']'',
     TextF FlText no_padding], True)"
  by code_simp

lemma put_no_padding: "put no_padding sz b = append_text (snd sz) b"
  by (simp add: put_def padded_def no_padding_def append_text_def)

definition default_head :: "tm_parts \<Rightarrow> fmt_msg \<Rightarrow> string" where
  "default_head t msg = ''['' @ int_dec (tm_year t + 1900) @ ''-'' @ pad2 (tm_mon t + 1) @ ''-'' @ pad2 (tm_mday t) @ '' ''
     @ pad2 (tm_hour t) @ '':'' @ pad2 (tm_min t) @ '':'' @ pad2 (tm_sec t) @ ''.'' @ pad3 (nat (fm_time msg div 1000000 mod 1000))
     @ '']['' @ fm_name msg @ ''][''"

text \<open>
  C11. The layout of a line under the default pattern of this program: date, time and
  milliseconds of the message, logger name, level, thread and text, and the color range, which a
  console colors, is exactly the name of the level.  The message is not of the first second of
  the epoch (\<open>epoch_second_zeroed\<close>).
\<close>

theorem default_pattern_line:
  assumes "ns_per_sec \<le> fm_time msg"
  shows "snd (pf_format e msg (new_pattern now default_pattern utc eol, empty_buf))
    = (let before = default_head (get_time e utc (fm_time msg)) msg; lev = to_string_view (fm_level msg)
       in \<lparr>fb_text = before @ lev @ ''][thread '' @ nat_dec (fm_tid msg) @ '']'' @ fm_payload msg @ eol,
          fb_start = length before, fb_end = length before + length lev\<rparr>)"
proof -
  have 0: "0 \<le> fm_time msg" "c_div (fm_time msg) ns_per_sec \<noteq> 0" using assms(1) by (simp_all add: c_div_def ns_per_sec_def)
  have f: "time_fraction 1000000 (fm_time msg) mod 2 ^ 32 = fm_time msg div 1000000 mod 1000"
    by (simp add: millis [OF 0(1)] flip: numeral_eq_Suc)
  show ?thesis
    by (simp add: pf_format_def new_pattern_def compile_pattern_def default_formatters Let_def 0(2) put_no_padding f [simplified])
      (simp add: append_text_def empty_buf_def default_head_def)
qed

lemma digits: "digit_char 0 = CHR ''0''" "digit_char (Suc 0) = CHR ''1''" "digit_char 1 = CHR ''1''" "digit_char 4 = CHR ''4''"
  "digit_char 7 = CHR ''7''" "digit_char 9 = CHR ''9''"
  by code_simp+

lemma default_pattern_line_witness:
  "snd (pf_format clock_env (clock_msg (3661 * ns_per_sec) ''hello'') (new_pattern (\<lambda>_. 0) default_pattern False default_eol, empty_buf))
    = \<lparr>fb_text = ''[1970-01-01 01:01:01.000][x][info][thread 4]hello'' @ [CHR 0x0A], fb_start = 29, fb_end = 33\<rparr>"
proof -
  have t: "ns_per_sec \<le> fm_time (clock_msg (3661 * ns_per_sec) ''hello'')" by (simp add: clock_msg_def ns_per_sec_def)
  have "nat_dec 1970 = ''1970''" "nat_dec 4 = ''4''" by (simp_all add: nat_dec.simps digits)
  note n = this
  have h: "default_head (get_time clock_env False (3661 * ns_per_sec)) (clock_msg (3661 * ns_per_sec) ''hello'')
      = ''[1970-01-01 01:01:01.000][x][''"
    by (simp add: default_head_def get_time_def clock_env_def clock_msg_def tz_utc_day_def to_time_t_def c_div_def
        ns_per_sec_def int_dec_def pad2_def pad3_def digits n)
  have m: "fm_time (clock_msg tp s) = tp" "fm_level (clock_msg tp s) = Info" "fm_tid (clock_msg tp s) = 4"
    "fm_payload (clock_msg tp s) = s" for tp s by (simp_all add: clock_msg_def)
  have "to_string_view Info = ''info''" by (simp add: to_string_view_def level_string_views_def)
  then show ?thesis unfolding default_pattern_line [OF t] m h n Let_def by (simp add: default_eol_def)
qed

section \<open>Where comments and code part\<close>

text \<open>The comment of \<open>%I\<close> says hours from 1 to 12; at midnight it is 0.\<close>

lemma midnight_is_00: "tm_hour t = 0 \<Longrightarrow> snd (clock_field Fl_I t) = ''00''"
  by (simp add: to12h_def pad2_def digits)

text \<open>The comment of \<open>handle_padspec_\<close> lists \<open>%+8!X\<close>; the plus sign is taken as the flag of the
  full format.\<close>

lemma plus_is_a_flag: "fst (compile_loop utc now ''%+8!v'' None [] False) = [FullF 0 [], Aggregate ''8!v'']"
  by code_simp

end
