(* ===== verification/Logging.thy ===== *)
theory Logging
  imports LogConfig Id8
begin

text \<open>
  Emitting messages and the callback registry: \<open>LogPrivate::trace\<close> ...
  \<open>critical\<close>, \<open>logImpl\<close>, \<open>linkString\<close>, \<open>anyToString\<close>, \<open>setStreamOutPut\<close>,
  \<open>addCallBackSink\<close> and \<open>removeCallBackSink\<close> of \<open>private/logger/logger_p.cpp\<close>,
  with \<open>include/common/logger/anytostring.hpp\<close>.  A call is described by what
  reaches which sink (the payload, before the pattern is applied) or, for a
  callback, by the fields of the \<open>LogMsg\<close> it gets; \<open>None\<close> means that a null logger
  was dereferenced.
\<close>

section \<open>Message parts\<close>

text \<open>The dynamic types \<open>getConverters\<close> knows, floating point and wide strings
  apart; \<open>MOther\<close> carries the name of any other type.\<close>

datatype msg_any =
    MEmpty
  | MNullptr
  | MString string
  | MInt int
  | MUnsigned nat
  | MBool bool
  | MOther string

definition convert_any :: "msg_any \<Rightarrow> string option" where
  "convert_any a = (case a of
      MString s \<Rightarrow> Some s
    | MInt i \<Rightarrow> Some (int_dec i)
    | MUnsigned n \<Rightarrow> Some (nat_dec n)
    | MBool b \<Rightarrow> Some (if b then ''true'' else ''false'')
    | _ \<Rightarrow> None)"

text \<open>\<open>fmt\<close> of \<open>[{}:{}][{}]\<close>.\<close>

definition code_line :: "string \<Rightarrow> int \<Rightarrow> string \<Rightarrow> string" where
  "code_line file line func = ''['' @ file @ '':'' @ int_dec line @ '']['' @ func @ '']''"

text \<open>The text of one part, and the line it logs on the side when it has none.\<close>

definition any_to_string ::
  "string \<Rightarrow> int \<Rightarrow> string \<Rightarrow> msg_any \<Rightarrow> string \<times> (level \<times> string) list" where
  "any_to_string file line func a = (case a of
      MEmpty \<Rightarrow> ([], [(Debug, code_line file line func @ '' anyToString: empty std::any'')])
    | MNullptr \<Rightarrow> ([], [(Warn, code_line file line func
         @ '' anyToString: std::any holds nullptr_t (prefer empty std::any)'')])
    | _ \<Rightarrow> (case convert_any a of
          Some s \<Rightarrow> (s, [])
        | None \<Rightarrow> ([], [(Debug, code_line file line func @ '' anyToString: convert failed, type=''
            @ (case a of MOther t \<Rightarrow> t | _ \<Rightarrow> []))])))"

fun link_string ::
  "string \<Rightarrow> int \<Rightarrow> string \<Rightarrow> msg_any list \<Rightarrow> string \<times> (level \<times> string) list" where
  "link_string file line func [] = ([], [])"
| "link_string file line func (a # as) =
     (let (s, side) = any_to_string file line func a;
          (rest, sides) = link_string file line func as
      in (s @ rest, side @ sides))"

section \<open>One call\<close>

text \<open>The UTF-8 bytes of the two fixed messages (empty content; failed conversion).\<close>

definition utf8 :: "nat list \<Rightarrow> string" where
  "utf8 bs = map char_of bs"

definition text_empty :: string where
  "text_empty = utf8
     [0x20, 0xE6, 0x97, 0xA5, 0xE5, 0xBF, 0x97, 0xE5, 0x86, 0x85, 0xE5, 0xAE, 0xB9, 0xE4, 0xB8, 0xBA,
      0xE7, 0xA9, 0xBA]"

definition text_failed :: string where
  "text_failed = utf8
     [0x20, 0xE6, 0x97, 0xA5, 0xE5, 0xBF, 0x97, 0xE6, 0x89, 0x93, 0xE5, 0x8D, 0xB0, 0xE5, 0xA4, 0xB1,
      0xE8, 0xB4, 0xA5, 0xEF, 0xBC, 0x8C, 0xE6, 0x95, 0xB0, 0xE6, 0x8D, 0xAE, 0xE7, 0xB1, 0xBB, 0xE5,
      0x9E, 0x8B, 0xE8, 0xBD, 0xAC, 0xE6, 0x8D, 0xA2, 0xE9, 0x94, 0x99, 0xE8, 0xAF, 0xAF]"

text \<open>The sinks of a logger that take a message: both levels let it through.\<close>

definition deliver :: "logger \<Rightarrow> level \<times> string \<Rightarrow> (sink_kind \<times> level \<times> string) list" where
  "deliver lg lm = (case lm of (l, text) \<Rightarrow>
     if lg_level lg \<le> l
     then map (\<lambda>s. (sk_kind s, l, text)) (filter (\<lambda>s. sk_level s \<le> l) (lg_sinks lg))
     else [])"

definition log_text :: "string \<Rightarrow> int \<Rightarrow> string \<Rightarrow> msg_any list \<Rightarrow> bool \<Rightarrow> string" where
  "log_text file line func msgs show_line =
     (let msg = fst (link_string file line func msgs)
      in if length msgs = 1 \<and> msg = [] then code_line file line func @ text_empty
         else if length msgs > 1 \<and> msg = [] then code_line file line func @ text_failed
         else if \<not> show_line then msg
         else code_line file line func @ msg)"

definition log_impl :: "log_state \<Rightarrow> string \<Rightarrow> int \<Rightarrow> string \<Rightarrow> msg_any list \<Rightarrow> bool \<Rightarrow> level
    \<Rightarrow> (sink_kind \<times> level \<times> string) list option" where
  "log_impl st file line func msgs show_line l = (case m_logger st of
      None \<Rightarrow> None
    | Some lg \<Rightarrow> Some (concat (map (deliver lg)
        (snd (link_string file line func msgs) @ [(l, log_text file line func msgs show_line)]))))"

text \<open>\<open>trace\<close>, \<open>debug\<close>, \<open>info\<close>, \<open>warn\<close>, \<open>error\<close>, \<open>critical\<close>: the flag and the level
  each passes on.\<close>

definition show_line_of :: "show_lines \<Rightarrow> level \<Rightarrow> bool" where
  "show_line_of f l = (case l of
      Trace \<Rightarrow> show_trace f | Debug \<Rightarrow> show_debug f | Info \<Rightarrow> show_info f
    | Warn \<Rightarrow> show_warn f | Err \<Rightarrow> show_error f | Critical \<Rightarrow> show_critical f | Off \<Rightarrow> False)"

definition log_at :: "log_state \<Rightarrow> level \<Rightarrow> string \<Rightarrow> int \<Rightarrow> string \<Rightarrow> msg_any list
    \<Rightarrow> (sink_kind \<times> level \<times> string) list option" where
  "log_at st l file line func msgs =
     log_impl st file line func msgs (show_line_of (m_show st) l) l"

text \<open>What a callback sink hands to its callback.  The logger passes no source
  location, so the first three fields are those of an empty location.\<close>

record log_msg =
  fileName :: string
  codeLine :: string
  funcName :: string
  threadId :: string
  msg_level :: level
  msgFormatted :: string
  msg_payload :: string

definition callback_msg :: "string \<Rightarrow> (level \<Rightarrow> string \<Rightarrow> string) \<Rightarrow> level \<Rightarrow> string \<Rightarrow> log_msg" where
  "callback_msg thread format l payload =
     \<lparr> fileName = [], codeLine = ''0'', funcName = [], threadId = thread, msg_level = l,
       msgFormatted = format l payload, msg_payload = payload \<rparr>"

section \<open>Adding and removing sinks\<close>

definition push_sink :: "lsink \<Rightarrow> logger \<Rightarrow> logger" where
  "push_sink s lg = lg\<lparr>lg_sinks := lg_sinks lg @ [s]\<rparr>"

text \<open>\<open>std::remove\<close> of a pointer, then \<open>erase\<close>.\<close>

definition erase_sink :: "nat \<Rightarrow> logger \<Rightarrow> logger" where
  "erase_sink ptr lg = lg\<lparr>lg_sinks := filter (\<lambda>s. sk_kind s \<noteq> CallbackSink ptr) (lg_sinks lg)\<rparr>"

text \<open>\<open>setStreamOutPut\<close>: a level outside the switch becomes \<open>trace\<close>.\<close>

definition set_stream_output :: "log_state \<Rightarrow> bool \<Rightarrow> level \<Rightarrow> log_state option" where
  "set_stream_output st flush l = (case m_logger st of
      None \<Rightarrow> None
    | Some lg \<Rightarrow> Some (st\<lparr>m_logger := Some (push_sink
        \<lparr>sk_level = (if l = Off then Trace else l), sk_kind = OstreamSink flush\<rparr> lg)\<rparr>))"

text \<open>Without a logger nothing happens; the counter of the identifiers moves only
  when one is drawn.\<close>

definition add_callback_sink :: "log_state \<Rightarrow> u64 \<Rightarrow> u32 \<Rightarrow> level \<Rightarrow> string \<times> log_state" where
  "add_callback_sink st clock pid l = (case m_logger st of
      None \<Rightarrow> ([], st)
    | Some lg \<Rightarrow>
        (let (sink_id, counter) = id8_next (m_counter st) clock pid;
             (lg, cbs) = (case m_callbacks st sink_id of
                Some ptr \<Rightarrow> (erase_sink ptr lg, (m_callbacks st)(sink_id := None))
              | None \<Rightarrow> (lg, m_callbacks st));
             ptr = m_next_ptr st
         in (sink_id,
             st\<lparr>m_logger := Some (push_sink \<lparr>sk_level = l, sk_kind = CallbackSink ptr\<rparr> lg),
                m_callbacks := cbs(sink_id \<mapsto> ptr), m_next_ptr := ptr + 1,
                m_counter := counter\<rparr>)))"

definition remove_callback_sink :: "log_state \<Rightarrow> string \<Rightarrow> log_state" where
  "remove_callback_sink st sink_id = (case m_logger st of
      None \<Rightarrow> st
    | Some lg \<Rightarrow> (case m_callbacks st sink_id of
          Some ptr \<Rightarrow> st\<lparr>m_logger := Some (erase_sink ptr lg),
             m_callbacks := (m_callbacks st)(sink_id := None)\<rparr>
        | None \<Rightarrow> st))"

section \<open>What a call delivers\<close>

lemma link_string_converted:
  "\<forall>a \<in> set msgs. convert_any a \<noteq> None \<Longrightarrow>
     link_string file line func msgs = (concat (map (the \<circ> convert_any) msgs), [])"
proof (induction msgs)
  case (Cons a msgs)
  then have "any_to_string file line func a = (the (convert_any a), [])"
    by (cases a) (auto simp: any_to_string_def convert_any_def)
  with Cons show ?case by simp
qed simp

lemma link_string_levels: "(l, t) \<in> set (snd (link_string file line func msgs)) \<Longrightarrow> l = Debug \<or> l = Warn"
proof (induction msgs)
  case (Cons a msgs)
  then show ?case
    by (cases a) (auto simp: any_to_string_def convert_any_def split: prod.splits option.splits)
qed simp

lemma deliver_filter:
  "deliver lg (l, t) = map (\<lambda>s. (sk_kind s, l, t)) (filter (\<lambda>s. max (lg_level lg) (sk_level s) \<le> l) (lg_sinks lg))"
  by (simp add: deliver_def)

text \<open>
  C14. A call fails only when there is no logger.  Otherwise, when every part has a
  text, each sink whose level and whose logger's level let the message through
  gets exactly one line, in the order of the sinks: the parts in order, behind the
  code line when the flag of the level asks for it, and a fixed text when the parts
  are empty.  A part without a text adds lines of level debug or warn only.
\<close>
theorem log_delivery:
  "(log_at st l file line func msgs = None \<longleftrightarrow> m_logger st = None)
   \<and> (m_logger st = Some lg \<and> (\<forall>a \<in> set msgs. convert_any a \<noteq> None) \<longrightarrow>
        log_at st l file line func msgs = Some (map (\<lambda>s. (sk_kind s, l,
            let txt = concat (map (the \<circ> convert_any) msgs);
                loc = code_line file line func
            in if txt = [] \<and> msgs \<noteq> [] then loc @ (if length msgs = 1 then text_empty else text_failed)
               else if show_line_of (m_show st) l then loc @ txt else txt))
          (filter (\<lambda>s. max (lg_level lg) (sk_level s) \<le> l) (lg_sinks lg))))
   \<and> (log_at st l file line func msgs = Some ds \<and> (k, l', t) \<in> set ds \<longrightarrow>
        l' = l \<or> l' = Debug \<or> l' = Warn)"
proof (intro conjI impI; (elim conjE)?)
  show "log_at st l file line func msgs = None \<longleftrightarrow> m_logger st = None"
    by (simp add: log_at_def log_impl_def split: option.splits)
next
  assume lg: "m_logger st = Some lg" and all: "\<forall>a \<in> set msgs. convert_any a \<noteq> None"
  show "log_at st l file line func msgs = Some (map (\<lambda>s. (sk_kind s, l,
            let txt = concat (map (the \<circ> convert_any) msgs);
                loc = code_line file line func
            in if txt = [] \<and> msgs \<noteq> [] then loc @ (if length msgs = 1 then text_empty else text_failed)
               else if show_line_of (m_show st) l then loc @ txt else txt))
          (filter (\<lambda>s. max (lg_level lg) (sk_level s) \<le> l) (lg_sinks lg)))"
    using lg link_string_converted [OF all, of "file" "line" "func"]
    by (cases msgs) (auto simp: log_at_def log_impl_def deliver_filter log_text_def Let_def)
next
  assume ds: "log_at st l file line func msgs = Some ds" and "(k, l', t) \<in> set ds"
  then show "l' = l \<or> l' = Debug \<or> l' = Warn"
    using link_string_levels [of _ _ "file" "line" "func" msgs]
    by (fastforce simp: log_at_def log_impl_def deliver_def split: option.splits if_splits)
qed

theorem log_delivery_witness:
  "\<exists>st. log_at st Warn ''a.cpp'' 7 ''f'' [MString ''n='', MInt (-3)]
     = Some [(StdoutColor, Warn, ''[a.cpp:7][f]n=-3'')]"
proof -
  let ?lg = "\<lparr>lg_name = ''x'', lg_async = False,
      lg_sinks = [\<lparr>sk_level = Off, sk_kind = OstreamSink True\<rparr>, \<lparr>sk_level = Info, sk_kind = StdoutColor\<rparr>],
      lg_level = Debug, lg_flush_on = Trace, lg_pattern = []\<rparr>"
  let ?st = "initial_state 0 Map.empty\<lparr>m_logger := Some ?lg\<rparr>"
  have d: "nat_dec 7 = ''7''" "nat_dec 3 = ''3''" by code_simp+
  have "max Debug Off \<le> Warn = False" "max Debug Info \<le> Warn"
    by (simp_all add: less_eq_level_def)
  then have "log_at ?st Warn ''a.cpp'' 7 ''f'' [MString ''n='', MInt (-3)]
      = Some [(StdoutColor, Warn, ''[a.cpp:7][f]n=-3'')]"
    using log_delivery [of ?st Warn "''a.cpp''" 7 "''f''" "[MString ''n='', MInt (-3)]" ?lg]
    by (simp add: convert_any_def initial_state_def default_flags_def show_line_of_def code_line_def
        int_dec_def d)
  then show ?thesis by blast
qed

section \<open>The callback registry\<close>

text \<open>The states the module can be in: constructed, then any sequence of calls that
  add or remove sinks or set another configuration.\<close>

inductive reach :: "log_state \<Rightarrow> bool" where
  reach_start: "construct e seed fs = (st, None) \<Longrightarrow> reach st"
| reach_add: "reach st \<Longrightarrow> add_callback_sink st clock pid l = (sink_id, st') \<Longrightarrow> reach st'"
| reach_remove: "reach st \<Longrightarrow> reach (remove_callback_sink st sink_id)"
| reach_stream: "reach st \<Longrightarrow> set_stream_output st flush l = Some st' \<Longrightarrow> reach st'"
| reach_config: "reach st \<Longrightarrow> set_config_path e st p del = (st', exc) \<Longrightarrow> reach st'"

definition cb_ptrs :: "lsink list \<Rightarrow> nat set" where
  "cb_ptrs ss = {ptr. CallbackSink ptr \<in> sk_kind ` set ss}"

definition logger_sinks :: "log_state \<Rightarrow> lsink list" where
  "logger_sinks st = (case m_logger st of None \<Rightarrow> [] | Some lg \<Rightarrow> lg_sinks lg)"

text \<open>No two identifiers share a sink, and every callback sink of the logger is
  registered.\<close>

definition registry_ok :: "log_state \<Rightarrow> bool" where
  "registry_ok st \<longleftrightarrow> inj_on (m_callbacks st) (dom (m_callbacks st))
     \<and> ran (m_callbacks st) \<subseteq> {..<m_next_ptr st}
     \<and> cb_ptrs (logger_sinks st) \<subseteq> ran (m_callbacks st)"

lemma cb_ptrs_simps [simp]:
  "cb_ptrs [] = {}"
  "cb_ptrs (ss @ ss') = cb_ptrs ss \<union> cb_ptrs ss'"
  "cb_ptrs (s # ss) = (case sk_kind s of CallbackSink ptr \<Rightarrow> {ptr} | _ \<Rightarrow> {}) \<union> cb_ptrs ss"
  "cb_ptrs (filter (\<lambda>s. sk_kind s \<noteq> CallbackSink ptr) ss) = cb_ptrs ss - {ptr}"
  by (auto simp: cb_ptrs_def image_iff split: sink_kind.splits)

lemma read_daily_size_kind: "read_daily_size_sink e n = Inr (Some k) \<Longrightarrow> \<exists>s. k = DailySize s"
  by (auto simp: read_daily_size_sink_def result_simps split: if_split_asm sum.split_asm)
     (metis sum.exhaust)

lemma read_sink_no_callback: "read_sink e n = Inr (Some s) \<Longrightarrow> sk_kind s \<noteq> CallbackSink ptr"
  by (auto simp: read_sink_def read_daily_sink_def read_rotating_sink_def read_basic_sink_def
      read_count_sink_def make_daily_def make_rotating_def make_basic_def
      result_simps dest: read_daily_size_kind split: if_splits)

lemma build_logger_no_callback:
  assumes "build_logger e s n m = (Inr lg, m')"
  shows "cb_ptrs (lg_sinks lg) = {}"
proof -
  have "sk_kind k \<noteq> CallbackSink ptr" if "element_sink e n i = Some k" for i k ptr
    using that read_sink_no_callback
    by (auto simp: element_sink_def read_element_def lift_yaml_def split: sum.splits if_splits)
  moreover have "\<exists>i. element_sink e n i = Some k" if "k \<in> set (lg_sinks lg)" for k
    using assms that by (auto simp: build_logger_answer make_logger_def List.map_filter_def)
  ultimately show ?thesis unfolding cb_ptrs_def by (metis (no_types, lifting) imageE Collect_empty_eq)
qed

lemma load_config_no_callback: "cb_ptrs (logger_sinks (fst (load_config_file e st p))) = {}"
  by (auto simp: load_config_file_def Let_def logger_sinks_def build_logger_no_callback result_simps
      split: sum.splits option.splits prod.splits)

lemma load_default_no_callback: "cb_ptrs (logger_sinks (fst (load_default_config e st p))) = {}"
  by (auto simp: load_default_config_def Let_def default_tree_eq lift_yaml_def
      load_config_no_callback logger_sinks_def [of "m_config_path_update _ _"]
      split: sum.splits) (simp_all add: logger_sinks_def fallback_logger_def)

lemma load_or_default_no_callback: "cb_ptrs (logger_sinks (fst (load_or_default e st p))) = {}"
  using load_config_no_callback [of e st p]
  by (rule_tac load_or_default_cases [of e st p]) (auto simp: load_default_no_callback)

lemma set_config_path_callbacks:
  assumes "set_config_path e st p del = (st', exc)"
  shows "cb_ptrs (logger_sinks st') = {}" and "m_callbacks st' = m_callbacks st"
    and "m_next_ptr st' = m_next_ptr st"
  using assms load_or_default_no_callback [of e st p] load_or_default_frame(1,2) [of e st p]
  by (auto simp: set_config_path_def Let_def logger_sinks_def split: prod.splits option.splits if_splits)

lemma registry_ok_config:
  "registry_ok st \<Longrightarrow> set_config_path e st p del = (st', exc) \<Longrightarrow> registry_ok st'"
  by (auto simp: registry_ok_def set_config_path_callbacks)

lemma ran_remove:
  assumes "inj_on m (dom m)" and "m i = Some p"
  shows "ran (m(i := None)) = ran m - {p}"
proof (rule set_eqI)
  fix x
  have only: "a = i" if "m a = Some p" for a
    using inj_onD [OF assms(1)] assms(2) that by (metis domI)
  show "x \<in> ran (m(i := None)) \<longleftrightarrow> x \<in> ran m - {p}"
  proof (cases "x = p")
    case True
    then show ?thesis using only by (auto simp: ran_def)
  next
    case False
    then have "m a = Some x \<Longrightarrow> a \<noteq> i" for a using assms(2) by auto
    with False show ?thesis by (auto simp: ran_def)
  qed
qed

lemma registry_ok_remove:
  assumes "registry_ok st"
  shows "registry_ok (remove_callback_sink st sink_id)"
proof (cases "m_logger st = None \<or> m_callbacks st sink_id = None")
  case True
  then have "remove_callback_sink st sink_id = st"
    by (auto simp: remove_callback_sink_def split: option.splits)
  with assms show ?thesis by simp
next
  case False
  then obtain lg ptr where lg: "m_logger st = Some lg" and ptr: "m_callbacks st sink_id = Some ptr" by auto
  let ?st' = "remove_callback_sink st sink_id"
  have st': "?st' = st\<lparr>m_logger := Some (erase_sink ptr lg), m_callbacks := (m_callbacks st)(sink_id := None)\<rparr>"
    by (simp add: remove_callback_sink_def lg ptr)
  have inj: "inj_on (m_callbacks st) (dom (m_callbacks st))" using assms by (simp add: registry_ok_def)
  have ran: "ran ((m_callbacks st)(sink_id := None)) = ran (m_callbacks st) - {ptr}"
    using inj ptr by (rule ran_remove)
  show ?thesis
    using assms lg inj_on_subset [OF inj, of "dom (m_callbacks st) - {sink_id}"]
    unfolding registry_ok_def st'
    by (auto simp: ran logger_sinks_def erase_sink_def inj_on_def)
qed

lemma registry_ok_stream:
  assumes "registry_ok st" and "set_stream_output st flush l = Some st'"
  shows "registry_ok st'"
proof -
  obtain lg where lg: "m_logger st = Some lg"
    using assms(2) by (auto simp: set_stream_output_def split: option.splits)
  then have "cb_ptrs (logger_sinks st') = cb_ptrs (logger_sinks st)"
    and "m_callbacks st' = m_callbacks st" and "m_next_ptr st' = m_next_ptr st"
    using assms(2) by (auto simp: set_stream_output_def logger_sinks_def push_sink_def)
  with assms(1) show ?thesis by (simp add: registry_ok_def)
qed

lemma fresh_ptr_registered:
  assumes "inj_on m (dom m)" and "ran m \<subseteq> {..<n}"
  shows "inj_on (m(i \<mapsto> n)) (dom (m(i \<mapsto> n)))" and "ran (m(i \<mapsto> n)) \<subseteq> {..<Suc n}"
proof -
  have "m x \<noteq> Some n" for x using assms(2) by (auto simp: ran_def)
  then show "inj_on (m(i \<mapsto> n)) (dom (m(i \<mapsto> n)))"
    using assms(1) by (auto simp: inj_on_def dom_def)
  show "ran (m(i \<mapsto> n)) \<subseteq> {..<Suc n}" using assms(2) by (auto simp: ran_def)
qed

lemma add_callback_steps:
  assumes "add_callback_sink st clock pid l = (sink_id, st')" and "m_logger st = Some lg"
  shows "st' = (remove_callback_sink st sink_id)
      \<lparr>m_logger := Some (push_sink \<lparr>sk_level = l, sk_kind = CallbackSink (m_next_ptr st)\<rparr>
          (the (m_logger (remove_callback_sink st sink_id)))),
       m_callbacks := (m_callbacks st)(sink_id \<mapsto> m_next_ptr st),
       m_next_ptr := m_next_ptr st + 1, m_counter := m_counter st + 1\<rparr>
    \<and> sink_id = fst (id8_next (m_counter st) clock pid)"
  using assms by (auto simp: add_callback_sink_def remove_callback_sink_def id8_next_def Let_def
      split: option.splits)

lemma registry_ok_add:
  assumes "registry_ok st" and "add_callback_sink st clock pid l = (sink_id, st')"
  shows "registry_ok st'"
proof (cases "m_logger st")
  case None
  with assms show ?thesis by (simp add: add_callback_sink_def)
next
  case (Some lg)
  let ?st1 = "remove_callback_sink st sink_id"
  have ok: "registry_ok ?st1" using assms(1) by (rule registry_ok_remove)
  have frame: "m_next_ptr ?st1 = m_next_ptr st" "m_logger ?st1 = Some (the (m_logger ?st1))"
      "m_callbacks ?st1 sink_id = None"
      "(m_callbacks ?st1)(sink_id \<mapsto> k) = (m_callbacks st)(sink_id \<mapsto> k)" for k
    using Some by (auto simp: remove_callback_sink_def split: option.splits)
  have sub: "ran (m_callbacks ?st1) \<subseteq> ran ((m_callbacks ?st1)(sink_id \<mapsto> k))" for k
    by (simp add: ran_map_upd frame(3) subset_insertI)
  have "cb_ptrs (lg_sinks (the (m_logger ?st1))) \<subseteq> ran (m_callbacks ?st1)"
    using ok frame(2) by (metis registry_ok_def logger_sinks_def option.simps(5))
  moreover have "m_callbacks st' = (m_callbacks ?st1)(sink_id \<mapsto> m_next_ptr st)"
    and "m_next_ptr st' = Suc (m_next_ptr st)"
    and "logger_sinks st' = lg_sinks (the (m_logger ?st1))
        @ [\<lparr>sk_level = l, sk_kind = CallbackSink (m_next_ptr st)\<rparr>]"
    using conjunct1 [OF add_callback_steps [OF assms(2) Some]]
    by (simp_all add: frame(4) logger_sinks_def push_sink_def)
  ultimately show ?thesis
    using ok fresh_ptr_registered [of "m_callbacks ?st1" "m_next_ptr st" sink_id]
    by (simp add: registry_ok_def frame(1) ran_map_upd frame(3) subset_insertI2)
qed

lemma reach_registry_ok: "reach st \<Longrightarrow> registry_ok st"
proof (induction rule: reach.induct)
  case (reach_start e seed fs st)
  then have "m_callbacks st = Map.empty" "cb_ptrs (logger_sinks st) = {}"
    using load_or_default_frame(1) [of e "initial_state seed fs" initial_path]
      load_or_default_no_callback [of e "initial_state seed fs" initial_path]
    by (simp_all add: construct_def initial_state_def)
  then show ?case by (simp add: registry_ok_def)
qed (auto intro: registry_ok_add registry_ok_remove registry_ok_stream registry_ok_config)

lemma remove_callback_sinks:
  assumes "m_callbacks st sink_id = Some ptr" and "m_logger st \<noteq> None"
  shows "logger_sinks (remove_callback_sink st sink_id)
      = filter (\<lambda>s. sk_kind s \<noteq> CallbackSink ptr) (logger_sinks st)"
    and "m_callbacks (remove_callback_sink st sink_id) = (m_callbacks st)(sink_id := None)"
  using assms by (auto simp: remove_callback_sink_def logger_sinks_def erase_sink_def)

lemma filter_no_ptr: "ptr \<notin> cb_ptrs ss \<Longrightarrow> filter (\<lambda>s. sk_kind s \<noteq> CallbackSink ptr) ss = ss"
  by (auto simp: cb_ptrs_def filter_id_conv image_iff)

lemma add_remove_callback:
  assumes "registry_ok st" and "m_logger st \<noteq> None" and "m_callbacks st sink_id = None"
    and "add_callback_sink st clock pid l = (sink_id, st')"
  shows "logger_sinks (remove_callback_sink st' sink_id) = logger_sinks st"
    and "m_callbacks (remove_callback_sink st' sink_id) = m_callbacks st"
proof -
  obtain lg where lg: "m_logger st = Some lg" using assms(2) by auto
  have un: "remove_callback_sink st sink_id = st"
    using assms(3) lg by (simp add: remove_callback_sink_def)
  have st': "m_callbacks st' = (m_callbacks st)(sink_id \<mapsto> m_next_ptr st)"
    "m_logger st' = Some (push_sink \<lparr>sk_level = l, sk_kind = CallbackSink (m_next_ptr st)\<rparr> lg)"
    using conjunct1 [OF add_callback_steps [OF assms(4) lg]] by (simp_all add: un lg)
  have "m_next_ptr st \<notin> cb_ptrs (lg_sinks lg)"
    using assms(1) lg by (auto simp: registry_ok_def logger_sinks_def)
  then show "logger_sinks (remove_callback_sink st' sink_id) = logger_sinks st"
    by (subst remove_callback_sinks [where ptr = "m_next_ptr st"])
       (simp_all add: st' logger_sinks_def push_sink_def filter_no_ptr lg)
  show "m_callbacks (remove_callback_sink st' sink_id) = m_callbacks st"
    by (subst remove_callback_sinks [where ptr = "m_next_ptr st"])
       (simp_all add: st' assms(3) fun_upd_idem)
qed

text \<open>
  C15. In every reachable state a callback sink of the logger is registered under
  exactly one identifier; removing an identifier takes its own sink out of the
  logger and leaves every other sink, in order, and every other registration;
  removing a callback just added under a new identifier restores both.  But a
  change of configuration, whatever its outcome, leaves no callback in the new
  logger while all identifiers stay registered: callbacks are lost silently.
\<close>
theorem callback_registry:
  assumes "reach st"
  shows "(CallbackSink ptr \<in> sk_kind ` set (logger_sinks st) \<longrightarrow> (\<exists>!i. m_callbacks st i = Some ptr))
    \<and> (m_callbacks st i = Some ptr \<and> m_logger st \<noteq> None \<longrightarrow>
        logger_sinks (remove_callback_sink st i)
          = filter (\<lambda>s. sk_kind s \<noteq> CallbackSink ptr) (logger_sinks st)
        \<and> (\<forall>j. j \<noteq> i \<longrightarrow> m_callbacks (remove_callback_sink st i) j = m_callbacks st j)
        \<and> (\<forall>j q. j \<noteq> i \<and> m_callbacks st j = Some q \<longrightarrow> q \<noteq> ptr))
    \<and> (m_logger st \<noteq> None \<and> m_callbacks st j = None \<and> add_callback_sink st clock pid l = (j, st') \<longrightarrow>
        logger_sinks (remove_callback_sink st' j) = logger_sinks st
        \<and> m_callbacks (remove_callback_sink st' j) = m_callbacks st)
    \<and> (set_config_path e st p del = (st'', exc) \<longrightarrow>
        (\<forall>q. CallbackSink q \<notin> sk_kind ` set (logger_sinks st''))
        \<and> m_callbacks st'' = m_callbacks st)"
proof (intro conjI impI allI; (elim conjE)?)
  have ok: "registry_ok st" using assms by (rule reach_registry_ok)
  have inj: "m_callbacks st a = Some q \<Longrightarrow> m_callbacks st b = Some q \<Longrightarrow> a = b" for a b q
    using ok by (auto simp: registry_ok_def inj_on_def dom_def)
  show "\<exists>!i. m_callbacks st i = Some ptr" if "CallbackSink ptr \<in> sk_kind ` set (logger_sinks st)"
  proof -
    have "ptr \<in> ran (m_callbacks st)" using ok that by (auto simp: registry_ok_def cb_ptrs_def)
    then obtain i where "m_callbacks st i = Some ptr" by (auto simp: ran_def)
    then show ?thesis using inj by blast
  qed
  show "logger_sinks (remove_callback_sink st i)
      = filter (\<lambda>s. sk_kind s \<noteq> CallbackSink ptr) (logger_sinks st)"
    if "m_callbacks st i = Some ptr" "m_logger st \<noteq> None"
    using that remove_callback_sinks [of st i ptr] by auto
  show "m_callbacks (remove_callback_sink st i) j = m_callbacks st j"
    if "m_callbacks st i = Some ptr" "m_logger st \<noteq> None" "j \<noteq> i" for j
    using that remove_callback_sinks [of st i ptr] by auto
  show "q \<noteq> ptr" if "m_callbacks st i = Some ptr" "m_logger st \<noteq> None" "j \<noteq> i" "m_callbacks st j = Some q" for j q
    using that inj by blast
  show "logger_sinks (remove_callback_sink st' j) = logger_sinks st"
    if "m_logger st \<noteq> None" "m_callbacks st j = None" "add_callback_sink st clock pid l = (j, st')"
    using add_remove_callback [OF ok that] by auto
  show "m_callbacks (remove_callback_sink st' j) = m_callbacks st"
    if "m_logger st \<noteq> None" "m_callbacks st j = None" "add_callback_sink st clock pid l = (j, st')"
    using add_remove_callback [OF ok that] by auto
  show "CallbackSink q \<notin> sk_kind ` set (logger_sinks st'')"
    if "set_config_path e st p del = (st'', exc)" for q
    using set_config_path_callbacks [OF that] by (auto simp: cb_ptrs_def)
  show "m_callbacks st'' = m_callbacks st" if "set_config_path e st p del = (st'', exc)"
    using set_config_path_callbacks [OF that] by (auto simp: cb_ptrs_def)
qed

theorem callback_registry_witness:
  "\<exists>st st' :: log_state. reach st \<and> m_callbacks st ''0'' = None
    \<and> set_config_path (one_text_env default_node) st ''b.yaml'' False = (st', None)
    \<and> (\<forall>q. CallbackSink q \<notin> sk_kind ` set (logger_sinks st'))"
proof -
  let ?e = "one_text_env default_node"
  have e: "e_writable ?e ''b.yaml''" "e_open_log ?e q"
    "e_parse ?e (e_emit ?e default_node) = Inr (Some default_node)" "e_parse ?e ''T'' = Inr (Some default_node)" for q
    by (simp_all add: one_text_env_def)
  let ?fs = "[initial_path \<mapsto> ''T'', ''b.yaml'' \<mapsto> ''T'']"
  let ?st = "initial_state 0 ?fs\<lparr>m_logger := Some (default_logger ?e),
      m_files := fold (construct_files ?e) (default_kinds ?e) ?fs\<rparr>"
  have "load_config_file ?e (initial_state 0 ?fs) initial_path = (?st, None)"
    by (subst load_default_node [OF e(2) _ e(4)]) (auto simp: initial_state_def initial_path_def)
  then have "construct ?e 0 ?fs = (?st, None)" by (simp add: construct_def load_or_default_def)
  then have r: "reach ?st" by (rule reach_start)
  have "m_files ?st ''b.yaml'' = Some ''T''" by (simp add: default_files_kept initial_path_def)
  from load_default_node [OF e(2) this e(4)] obtain st1 where "load_config_file ?e ?st ''b.yaml'' = (st1, None)"
    by blast
  then obtain st' where s: "set_config_path ?e ?st ''b.yaml'' False = (st', None)"
    by (simp add: set_config_path_def load_or_default_def)
  have "\<forall>q. CallbackSink q \<notin> sk_kind ` set (logger_sinks st')"
    using callback_registry [OF r] s by blast
  with r s show ?thesis by (intro exI [of _ ?st] exI [of _ st']) (simp add: initial_state_def)
qed

end
