(* ===== verification/Pipeline.thy ===== *)
theory Pipeline
  imports Logging
begin

text \<open>
  From a log call to the files: the lines of \<open>LogPrivate::logImpl\<close> go through
  \<open>spdlog::logger\<close> to the sinks, and the two sinks of this program write them.  \<open>fmt\<close> is the
  formatter of the pattern, from the clock reading, the level and the text of a line; \<open>z\<close> the
  time zone.  Lines are written in the order of the calls, as a synchronous logger does, and an
  asynchronous one whose pool has one thread (the default of \<open>async_thread_count\<close>).
\<close>

section \<open>Writing a line\<close>

type_synonym fmt = "int \<Rightarrow> level \<Rightarrow> string \<Rightarrow> string"

text \<open>The files of spdlog's own file sinks are in \<open>LiveSinks\<close>, the other sinks have none.\<close>

definition write_kind :: "tz \<Rightarrow> int \<Rightarrow> string \<Rightarrow> sink_kind \<times> files \<Rightarrow> sink_kind \<times> files" where
  "write_kind z tp buf km = (case km of (k, m) \<Rightarrow> (case k of
      CountRotating s \<Rightarrow> (case c_sink_it buf (s, m) of (s', m') \<Rightarrow> (CountRotating s', m'))
    | DailySize s \<Rightarrow> (case d_sink_it z tp buf (s, m) of (s', m') \<Rightarrow> (DailySize s', m'))
    | _ \<Rightarrow> (k, m)))"

type_synonym log_line = "int \<times> level \<times> string"

fun write_sinks :: "tz \<Rightarrow> fmt \<Rightarrow> log_line \<Rightarrow> lsink list \<Rightarrow> files \<Rightarrow> lsink list \<times> files" where
  "write_sinks z fmt ln [] m = ([], m)"
| "write_sinks z fmt ln (s # ss) m =
     (case (if sk_level s \<le> fst (snd ln)
            then write_kind z (fst ln) (fmt (fst ln) (fst (snd ln)) (snd (snd ln))) (sk_kind s, m)
            else (sk_kind s, m)) of
        (k, m1) \<Rightarrow> (case write_sinks z fmt ln ss m1 of (ss', m2) \<Rightarrow> (s\<lparr>sk_kind := k\<rparr> # ss', m2)))"

definition write_line :: "tz \<Rightarrow> fmt \<Rightarrow> log_line \<Rightarrow> logger \<times> files \<Rightarrow> logger \<times> files" where
  "write_line z fmt ln lm = (case lm of (lg, m) \<Rightarrow>
     if lg_level lg \<le> fst (snd ln)
     then (case write_sinks z fmt ln (lg_sinks lg) m of (ss, m') \<Rightarrow> (lg\<lparr>lg_sinks := ss\<rparr>, m'))
     else (lg, m))"

section \<open>Calls\<close>

text \<open>A call: the clock, the level, the place in the code and the parts of the message.\<close>

type_synonym log_call = "int \<times> level \<times> string \<times> int \<times> string \<times> msg_any list"

definition call_lines :: "show_lines \<Rightarrow> log_call \<Rightarrow> log_line list" where
  "call_lines fl c = (case c of (tp, l, file, line, func, msgs) \<Rightarrow>
     map (\<lambda>lt. (tp, lt))
       (snd (link_string file line func msgs) @ [(l, log_text file line func msgs (show_line_of fl l))]))"

text \<open>These are the lines that \<open>log_at\<close> delivers.\<close>

lemma log_at_lines:
  "log_at st l file line func msgs = (case m_logger st of None \<Rightarrow> None
     | Some lg \<Rightarrow> Some (concat (map (\<lambda>ln. deliver lg (snd ln)) (call_lines (m_show st) (tp, l, file, line, func, msgs)))))"
  by (simp add: log_at_def log_impl_def call_lines_def comp_def split: option.split)

definition log_calls :: "tz \<Rightarrow> fmt \<Rightarrow> log_call list \<Rightarrow> log_state \<times> files \<Rightarrow> (log_state \<times> files) option" where
  "log_calls z fmt calls sm = (case sm of (st, m) \<Rightarrow> (case m_logger st of
      None \<Rightarrow> if calls = [] then Some (st, m) else None
    | Some lg \<Rightarrow> (case fold (write_line z fmt) (concat (map (call_lines (m_show st)) calls)) (lg, m) of
        (lg', m') \<Rightarrow> Some (st\<lparr>m_logger := Some lg'\<rparr>, m'))))"

section \<open>A logger with one of this program's sinks\<close>

definition no_file :: "lsink \<Rightarrow> bool" where
  "no_file s \<longleftrightarrow> (case sk_kind s of StdoutColor \<Rightarrow> True | OstreamSink _ \<Rightarrow> True | CallbackSink _ \<Rightarrow> True | _ \<Rightarrow> False)"

definition admitted :: "level \<Rightarrow> log_line list \<Rightarrow> log_line list" where
  "admitted k = filter (\<lambda>ln. k \<le> fst (snd ln))"

definition formatted :: "fmt \<Rightarrow> log_line \<Rightarrow> string" where
  "formatted fmt ln = fmt (fst ln) (fst (snd ln)) (snd (snd ln))"

lemma write_sinks_no_file: "list_all no_file ss \<Longrightarrow> write_sinks z fmt ln ss m = (ss, m)"
  by (induction ss) (auto simp: no_file_def write_kind_def split: sink_kind.splits prod.splits)

lemma write_sinks_one:
  assumes "list_all no_file pre" and "list_all no_file post"
  shows "write_sinks z fmt ln (pre @ x # post) m =
    (case (if sk_level x \<le> fst (snd ln) then write_kind z (fst ln) (formatted fmt ln) (sk_kind x, m) else (sk_kind x, m)) of
       (k, m') \<Rightarrow> (pre @ x\<lparr>sk_kind := k\<rparr> # post, m'))"
  using assms(1)
proof (induction pre)
  case Nil
  then show ?case using write_sinks_no_file [OF assms(2)] by (auto simp: formatted_def split: prod.splits)
next
  case (Cons s pre)
  then have q: "(if sk_level s \<le> fst (snd ln) then write_kind z (fst ln) (fmt (fst ln) (fst (snd ln)) (snd (snd ln))) (sk_kind s, m)
      else (sk_kind s, m)) = (sk_kind s, m)"
    by (auto simp: no_file_def write_kind_def split: sink_kind.splits)
  from Cons show ?case by (auto simp: q split: prod.splits)
qed

lemma write_lines_one:
  assumes "list_all no_file pre" and "list_all no_file post" and "lg_sinks lg = pre @ x # post"
    and "fold (write_line z fmt) lns (lg, m) = (lg', m')"
  shows "\<exists>k'. fold (\<lambda>ln. write_kind z (fst ln) (formatted fmt ln)) (admitted (max (lg_level lg) (sk_level x)) lns) (sk_kind x, m) = (k', m')
    \<and> lg' = lg\<lparr>lg_sinks := pre @ x\<lparr>sk_kind := k'\<rparr> # post\<rparr>"
  using assms(3,4)
proof (induction lns arbitrary: lg x m)
  case Nil
  then show ?case by (cases lg; cases x) (auto simp: admitted_def)
next
  case (Cons ln lns)
  obtain lg1 m1 where w: "write_line z fmt ln (lg, m) = (lg1, m1)" by fastforce
  define k1 where "k1 = (if max (lg_level lg) (sk_level x) \<le> fst (snd ln)
    then write_kind z (fst ln) (formatted fmt ln) (sk_kind x, m) else (sk_kind x, m))"
  have s: "lg1 = lg\<lparr>lg_sinks := pre @ x\<lparr>sk_kind := fst k1\<rparr> # post\<rparr>" "m1 = snd k1"
    using w Cons.prems(1) write_sinks_one [OF assms(1,2), of z fmt ln x m]
    by (cases lg; cases x; auto simp: write_line_def k1_def split: prod.splits if_splits)+
  have "fold (write_line z fmt) lns (lg1, m1) = (lg', m')" using Cons.prems(2) w by simp
  from Cons.IH [OF _ this, of "x\<lparr>sk_kind := fst k1\<rparr>"] s show ?case
    by (auto simp: admitted_def k1_def split: if_splits)
qed

lemma fold_count: "fold (\<lambda>ln. write_kind z (fst ln) (formatted fmt ln)) lns (CountRotating s, m)
    = (CountRotating (fst (c_run (map (formatted fmt) lns) (s, m))), snd (c_run (map (formatted fmt) lns) (s, m)))"
proof (induction lns arbitrary: s m)
  case (Cons ln lns)
  obtain s1 m1 where "c_sink_it (formatted fmt ln) (s, m) = (s1, m1)" by fastforce
  with Cons show ?case by (simp add: write_kind_def c_run_def)
qed (simp add: c_run_def)

lemma fold_daily: "fold (\<lambda>ln. write_kind z (fst ln) (formatted fmt ln)) lns (DailySize s, m)
    = (DailySize (fst (d_run z (map (\<lambda>ln. (fst ln, formatted fmt ln)) lns) (s, m))),
       snd (d_run z (map (\<lambda>ln. (fst ln, formatted fmt ln)) lns) (s, m)))"
proof (induction lns arbitrary: s m)
  case (Cons ln lns)
  obtain s1 m1 where "d_sink_it z (fst ln) (formatted fmt ln) (s, m) = (s1, m1)" by fastforce
  with Cons show ?case by (simp add: write_kind_def d_run_def)
qed (simp add: d_run_def)

text \<open>What the sink of such a logger is given by a series of calls.\<close>

definition sink_lines :: "log_state \<Rightarrow> logger \<Rightarrow> level \<Rightarrow> log_call list \<Rightarrow> log_line list" where
  "sink_lines st lg k calls = admitted (max (lg_level lg) k) (concat (map (call_lines (m_show st)) calls))"

lemma log_calls_one:
  assumes "list_all no_file pre" and "list_all no_file post"
    and "m_logger st = Some lg" and "lg_sinks lg = pre @ \<lparr>sk_level = k, sk_kind = kd\<rparr> # post"
    and "log_calls z fmt calls (st, m) = Some (st', m')"
  shows "\<exists>kd'. fold (\<lambda>ln. write_kind z (fst ln) (formatted fmt ln)) (sink_lines st lg k calls) (kd, m) = (kd', m')
    \<and> m_logger st' = Some (lg\<lparr>lg_sinks := pre @ \<lparr>sk_level = k, sk_kind = kd'\<rparr> # post\<rparr>)"
proof -
  obtain lg' where "fold (write_line z fmt) (concat (map (call_lines (m_show st)) calls)) (lg, m) = (lg', m')"
    "st' = st\<lparr>m_logger := Some lg'\<rparr>" using assms(3,5) by (auto simp: log_calls_def split: prod.splits)
  with write_lines_one [OF assms(1,2,4) this(1)] show ?thesis by (auto simp: sink_lines_def)
qed

end
