(* ===== verification/LiveSinks.thy ===== *)
theory LiveSinks
  imports SpdDaily Pipeline
begin

text \<open>
  All the file sinks of a configuration at work: a live sink is the state of one of the two
  sinks of this program or of one of spdlog's three, with the files they share.  Each sink keeps
  to its own files, its footprint, and reads no others; sinks with disjoint footprints write
  as if each were alone.
\<close>

section \<open>Keeping to one's files\<close>

text \<open>\<open>patch F m n\<close>: the files \<open>F\<close> of \<open>m\<close> among the others of \<open>n\<close>.  A step that keeps to \<open>F\<close>
  does the same whatever the others are, and leaves them.\<close>

definition patch :: "path set \<Rightarrow> files \<Rightarrow> files \<Rightarrow> files" where
  "patch F m n = (\<lambda>p. if p \<in> F then m p else n p)"

named_theorems keeps_to

lemma patch_at [keeps_to]: "p \<in> F \<Longrightarrow> patch F m n p = m p"
  by (simp add: patch_def)

lemma patch_outside: "p \<notin> F \<Longrightarrow> patch F m n p = n p"
  by (simp add: patch_def)

lemma patch_self [simp]: "patch F m m = m"
  by (simp add: patch_def)

lemma patch_ops [keeps_to]:
  assumes "p \<in> F"
  shows "fs_exists (patch F m n) p = fs_exists m p"
    "content (patch F m n) p = content m p"
    "fs_remove (patch F m n) p = patch F (fs_remove m p) n"
    "fs_open_append (patch F m n) p = patch F (fs_open_append m p) n"
    "fs_append (patch F m n) p b = patch F (fs_append m p b) n"
    "fh_write (patch F m n) p b = patch F (fh_write m p b) n"
    "fh_open (patch F m n) p t = patch F (fh_open m p t) n"
    "q \<in> F \<Longrightarrow> fs_rename (patch F m n) p q = patch F (fs_rename m p q) n"
    "q \<in> F \<Longrightarrow> shift_file (patch F m n) p q = patch F (shift_file m p q) n"
  using assms
  by (auto simp: patch_def fs_exists_def content_def fs_remove_def fs_open_append_def fs_append_def
      fh_write_def fh_open_def fs_rename_def shift_file_def fun_eq_iff split: option.splits)

lemma patch_shift_up [keeps_to]:
  "\<forall>i. rp (Suc i) \<in> F \<Longrightarrow> shift_up rp n (patch F m k) = patch F (shift_up rp n m) k"
  by (induction n arbitrary: m) (simp_all add: keeps_to)

lemma patch_chain_rotate [keeps_to]:
  "base \<in> F \<Longrightarrow> \<forall>i. rp i \<in> F \<Longrightarrow> chain_rotate base rp n (patch F m k) = patch F (chain_rotate base rp n m) k"
  by (simp add: chain_rotate_def keeps_to Let_def)

lemma patch_r_shift [keeps_to]:
  "\<forall>i. f i \<in> F \<Longrightarrow> r_shift f n (patch F m k) = patch F (r_shift f n m) k"
  by (induction n arbitrary: m) (simp_all add: keeps_to r_shift_Suc)

text \<open>The contract of a sink: what it may touch, and that it keeps to it.\<close>

locale file_sink =
  fixes ok :: "'s \<Rightarrow> bool" and foot :: "'s \<Rightarrow> path set" and wr :: "'x \<Rightarrow> 's \<times> files \<Rightarrow> 's \<times> files"
  assumes ok_write: "ok s \<Longrightarrow> ok (fst (wr x (s, m)))"
    and foot_write: "ok s \<Longrightarrow> foot (fst (wr x (s, m))) \<subseteq> foot s"
    and write_patch: "ok s \<Longrightarrow> foot s \<subseteq> F \<Longrightarrow>
      wr x (s, patch F m n) = (fst (wr x (s, m)), patch F (snd (wr x (s, m))) n)"
begin

lemma write_frame: "ok s \<Longrightarrow> p \<notin> foot s \<Longrightarrow> snd (wr x (s, m)) p = m p"
  by (metis order.refl patch_outside patch_self snd_conv write_patch)

lemma write_agree:
  assumes "ok s" and "\<forall>p \<in> foot s. m p = n p"
  shows "fst (wr x (s, m)) = fst (wr x (s, n))" "p \<in> foot s \<Longrightarrow> snd (wr x (s, m)) p = snd (wr x (s, n)) p"
proof -
  have "patch (foot s) n m = m" using assms(2) by (auto simp: patch_def fun_eq_iff)
  then have w: "wr x (s, m) = (fst (wr x (s, n)), patch (foot s) (snd (wr x (s, n))) m)"
    using write_patch [OF assms(1) order.refl, of x n m] by simp
  show "fst (wr x (s, m)) = fst (wr x (s, n))" using arg_cong [OF w, of fst] by simp
  show "snd (wr x (s, m)) p = snd (wr x (s, n)) p" if "p \<in> foot s"
    using arg_cong [OF w, of snd] that by (simp add: patch_at)
qed

lemma fold_keeps: "ok s \<Longrightarrow> ok (fst (fold wr xs (s, m))) \<and> foot (fst (fold wr xs (s, m))) \<subseteq> foot s"
proof (induction xs arbitrary: s m)
  case (Cons x xs)
  obtain s1 m1 where "wr x (s, m) = (s1, m1)" by fastforce
  then show ?case using Cons.IH [of s1 m1] ok_write [OF Cons.prems, of x m] foot_write [OF Cons.prems, of x m] by auto
qed simp

lemma fold_frame: "ok s \<Longrightarrow> p \<notin> foot s \<Longrightarrow> snd (fold wr xs (s, m)) p = m p"
proof (induction xs arbitrary: s m)
  case (Cons x xs)
  obtain s1 m1 where 1: "wr x (s, m) = (s1, m1)" by fastforce
  have "ok s1" "p \<notin> foot s1" "m1 p = m p"
    using ok_write [OF Cons.prems(1), of x m] foot_write [OF Cons.prems(1), of x m]
      write_frame [OF Cons.prems, of x m] Cons.prems(2) 1 by auto
  then show ?case using Cons.IH [of s1 m1] 1 by simp
qed simp

lemma fold_agree:
  "ok s \<Longrightarrow> \<forall>p \<in> foot s. m p = n p \<Longrightarrow>
     fst (fold wr xs (s, m)) = fst (fold wr xs (s, n))
     \<and> (\<forall>p \<in> foot s. snd (fold wr xs (s, m)) p = snd (fold wr xs (s, n)) p)"
proof (induction xs arbitrary: s m n)
  case (Cons x xs)
  obtain s1 m1 where 1: "wr x (s, m) = (s1, m1)" by fastforce
  obtain n1 where 2: "wr x (s, n) = (s1, n1)" using write_agree(1) [OF Cons.prems, of x] 1
    by (metis fst_conv prod.collapse)
  have eq: "\<forall>p \<in> foot s. m1 p = n1 p" using write_agree(2) [OF Cons.prems, of _ x] 1 2 by simp
  have ok: "ok s1" and sub: "foot s1 \<subseteq> foot s"
    using ok_write [OF Cons.prems(1), of x m] foot_write [OF Cons.prems(1), of x m] 1 by auto
  note ih = Cons.IH [OF ok, of m1 n1]
  have "snd (fold wr xs (s1, m1)) p = snd (fold wr xs (s1, n1)) p" if "p \<in> foot s" for p
  proof (cases "p \<in> foot s1")
    case True
    then show ?thesis using ih eq sub by blast
  next
    case False
    then show ?thesis using fold_frame [OF ok] eq that by simp
  qed
  then show ?case using ih eq sub 1 2 by auto
qed simp

end

section \<open>The sinks\<close>

definition c_foot :: "count_sink \<Rightarrow> path set" where
  "c_foot s = insert (c_base_path s) (range (c_rotated_path s))"

lemma c_foot_config: "c_config s = c_config t \<Longrightarrow> c_foot s = c_foot t"
  by (simp add: c_foot_def c_config_def c_base_path_def c_rotated_path_def [abs_def])

lemma c_foot_paths: "c_foot s \<subseteq> F \<Longrightarrow> c_base_path s \<in> F" "c_foot s \<subseteq> F \<Longrightarrow> c_rotated_path s i \<in> F"
  by (auto simp: c_foot_def)

text \<open>An operation on a sink with the files patched.\<close>

abbreviation onto :: "path set \<Rightarrow> files \<Rightarrow> 's \<times> files \<Rightarrow> 's \<times> files" where
  "onto F n \<equiv> map_prod (\<lambda>s. s) (\<lambda>m. patch F m n)"

lemma c_rotate_files_patch:
  "c_foot s \<subseteq> F \<Longrightarrow> c_rotate_files s (patch F m n) = onto F n (c_rotate_files s m)"
  by (simp add: c_rotate_files_def Let_def c_rename_chain_eq keeps_to c_foot_paths)

lemma c_adjust_patch:
  "c_foot s \<subseteq> F \<Longrightarrow> c_adjust_for_strict_on_open s (patch F m n) = onto F n (c_adjust_for_strict_on_open s m)"
  by (simp add: c_adjust_for_strict_on_open_def Let_def count_lines_in_file_eq keeps_to c_foot_paths
      c_rotate_files_patch split: prod.split)

lemma c_ensure_patch:
  assumes "c_foot s \<subseteq> F"
  shows "c_ensure_opened s (patch F m n) = onto F n (c_ensure_opened s m)"
proof -
  obtain s1 m1 where a: "c_adjust_for_strict_on_open s m = (s1, m1)" by fastforce
  have "c_foot s1 = c_foot s" using c_adjust_quiet [of s m] a by (intro c_foot_config) (simp add: c_quiet_def)
  then show ?thesis using assms by (simp add: c_ensure_opened_def c_adjust_patch a keeps_to c_foot_paths)
qed

lemma c_first_patch:
  "c_foot s \<subseteq> F \<Longrightarrow> c_rotate_on_first_write s (patch F m n) = onto F n (c_rotate_on_first_write s m)"
  by (simp add: c_rotate_on_first_write_def Let_def keeps_to c_foot_paths c_rotate_files_patch split: prod.split)

lemma c_rotate_ensure_patch:
  assumes "c_foot s \<subseteq> F"
  shows "(case c_rotate_files s (patch F m n) of (s1, m1) \<Rightarrow> c_ensure_opened s1 m1)
    = onto F n (case c_rotate_files s m of (s1, m1) \<Rightarrow> c_ensure_opened s1 m1)"
proof -
  obtain s1 m1 where a: "c_rotate_files s m = (s1, m1)" by fastforce
  have "c_foot s1 = c_foot s" using c_rotate_files_quiet [of s m] a by (intro c_foot_config) (simp add: c_quiet_def)
  then show ?thesis using assms by (simp add: c_rotate_files_patch a c_ensure_patch)
qed

lemma c_room_patch:
  assumes "c_foot s \<subseteq> F"
  shows "c_make_room s (patch F m n) = onto F n (c_make_room s m)"
    "c_room_after_open s (patch F m n) = onto F n (c_room_after_open s m)"
  using c_rotate_ensure_patch [OF assms, of m n]
  by (simp_all add: c_make_room_def c_room_after_open_def)

lemma c_put_patch:
  assumes "c_foot s \<subseteq> F" and "c_handle_ok s"
  shows "c_put buf s (patch F m n) = onto F n (c_put buf s m)"
proof -
  have "c_write s (patch F m n) buf = patch F (c_write s m buf) n"
    using assms by (simp add: c_write_def c_handle_ok_def keeps_to c_foot_paths split: option.split)
  moreover have "c_foot (s\<lparr>c_log_count := k\<rparr>) = c_foot s" for k
    by (rule c_foot_config) (simp add: c_config_def)
  ultimately show ?thesis
    using assms c_rotate_files_patch [of "s\<lparr>c_log_count := c_log_count s + 1\<rparr>"] by (simp add: c_put_def Let_def)
qed

lemma c_put_keeps:
  assumes "c_handle_ok s"
  shows "c_config (fst (c_put buf s m)) = c_config s" "c_handle_ok (fst (c_put buf s m))"
proof -
  let ?s = "s\<lparr>c_log_count := c_log_count s + 1\<rparr>" and ?m = "c_write s m buf"
  have "c_config ?s = c_config s" "c_handle_ok ?s" using assms by (simp_all add: c_config_def c_handle_ok_def)
  moreover from this have "c_config (fst (c_rotate_files ?s ?m)) = c_config s" "c_handle_ok (fst (c_rotate_files ?s ?m))"
    using c_rotate_files_quiet [of ?s ?m] unfolding c_quiet_def fst_conv by simp_all
  ultimately show "c_config (fst (c_put buf s m)) = c_config s" "c_handle_ok (fst (c_put buf s m))"
    by (simp_all add: c_put_def Let_def)
qed

lemma c_sink_it_patch:
  assumes "c_handle_ok s"
  shows "c_foot s \<subseteq> F \<Longrightarrow> c_sink_it buf (s, patch F m n) = onto F n (c_sink_it buf (s, m))"
    "c_handle_ok (fst (c_sink_it buf (s, m)))" "c_foot (fst (c_sink_it buf (s, m))) = c_foot s"
proof -
  obtain s1 m1 where 1: "c_rotate_on_first_write s m = (s1, m1)" by fastforce
  obtain s2 m2 where 2: "c_make_room s1 m1 = (s2, m2)" by fastforce
  obtain s3 m3 where 3: "c_ensure_opened s2 m2 = (s3, m3)" by fastforce
  obtain s4 m4 where 4: "c_room_after_open s3 m3 = (s4, m4)" by fastforce
  have c1: "c_config s1 = c_config s" "c_handle_ok s1"
    using c_first_quiet [of s m] assms by (simp_all add: c_quiet_def 1)
  have c2: "c_config s2 = c_config s" "c_handle_ok s2"
    using c_make_room_quiet [of s1 m1] c1 by (simp_all add: c_quiet_def 2)
  have c3: "c_config s3 = c_config s" "c_handle_ok s3"
    using c_ensure_quiet [of s2 m2] c2 by (simp_all add: c_quiet_def 3)
  have c4: "c_config s4 = c_config s" "c_handle_ok s4"
    using c_room_after_open_quiet [of s3 m3] c3 by (simp_all add: c_quiet_def 4)
  note feet = c1(1) [THEN c_foot_config] c2(1) [THEN c_foot_config] c3(1) [THEN c_foot_config] c4(1) [THEN c_foot_config]
  show "c_sink_it buf (s, patch F m n) = onto F n (c_sink_it buf (s, m))" if "c_foot s \<subseteq> F"
    using that c4(2)
    by (simp add: c_sink_it_def c_first_patch 1 c_room_patch 2 c_ensure_patch 3 4 c_put_patch feet)
  have e: "c_sink_it buf (s, m) = c_put buf s4 m4" by (simp add: c_sink_it_def 1 2 3 4)
  have "c_config (fst (c_put buf s4 m4)) = c_config s" "c_handle_ok (fst (c_put buf s4 m4))"
    using c_put_keeps [OF c4(2), of buf m4] c4(1) by simp_all
  then show "c_handle_ok (fst (c_sink_it buf (s, m)))" "c_foot (fst (c_sink_it buf (s, m))) = c_foot s"
    unfolding e by (simp, intro c_foot_config)
qed

text \<open>The daily sink of this program: the files of all days.\<close>

definition d_day :: "path \<Rightarrow> string \<Rightarrow> path set" where
  "d_day dir b = insert (path_join dir (b @ d_extension))
     (range (\<lambda>i. path_join dir (b @ ''.'' @ nat_dec i @ d_extension)))"

definition d_foot :: "tz \<Rightarrow> daily_sink \<Rightarrow> path set" where
  "d_foot z s = (\<Union>b \<in> insert (d_current_basename s) (range (make_basename_for_tp z s)). d_day (d_dir s) b)"

definition d_fd_ok :: "daily_sink \<Rightarrow> bool" where
  "d_fd_ok s \<longleftrightarrow> d_fd s = (if d_opened s then Some (d_base_path s) else None)"

text \<open>What names the files of a sink, without the day.\<close>

definition d_naming :: "daily_sink \<Rightarrow> path \<times> string \<times> string" where
  "d_naming s = (d_dir s, d_name_pattern s, d_date_format s)"

definition d_same :: "daily_sink \<Rightarrow> daily_sink \<Rightarrow> bool" where
  "d_same s t \<longleftrightarrow> d_naming t = d_naming s \<and> d_current_basename t = d_current_basename s \<and> (d_fd_ok s \<longrightarrow> d_fd_ok t)"

lemma d_same_foot: "d_same s t \<Longrightarrow> d_foot z t = d_foot z s"
proof -
  assume a: "d_same s t"
  then have "make_basename_for_tp z t = make_basename_for_tp z s"
    by (simp add: make_basename_for_tp_def d_same_def d_naming_def fun_eq_iff)
  then show ?thesis using a by (simp add: d_foot_def d_same_def d_naming_def)
qed

lemma d_foot_paths: "d_foot z s \<subseteq> F \<Longrightarrow> d_base_path s \<in> F" "d_foot z s \<subseteq> F \<Longrightarrow> d_rotated_path s i \<in> F"
  by (auto simp: d_foot_def d_day_def d_base_path_def d_rotated_path_def)

lemma d_size_chain_patch:
  "d_foot z s \<subseteq> F \<Longrightarrow> rotate_by_size_chain s (patch F m n) = onto F n (rotate_by_size_chain s m)"
  by (simp add: rotate_by_size_chain_def d_rename_chain_eq keeps_to d_foot_paths)

lemma d_size_chain_same: "d_same s (fst (rotate_by_size_chain s m))"
  by (simp add: rotate_by_size_chain_def d_close_file_def d_same_def d_naming_def d_fd_ok_def)

lemma d_ensure_patch:
  "d_foot z s \<subseteq> F \<Longrightarrow> d_ensure_opened s (patch F m n) = onto F n (d_ensure_opened s m)"
  by (simp add: d_ensure_opened_def Let_def keeps_to d_foot_paths)

lemma d_ensure_same: "d_same s (fst (d_ensure_opened s m))"
  by (simp add: d_ensure_opened_def Let_def d_same_def d_naming_def d_fd_ok_def)

lemma d_first_patch:
  "d_foot z s \<subseteq> F \<Longrightarrow> d_rotate_on_first_write s (patch F m n) = onto F n (d_rotate_on_first_write s m)"
  by (simp add: d_rotate_on_first_write_def keeps_to d_foot_paths d_size_chain_patch split: prod.split)

lemma d_same_trans: "d_same a b \<Longrightarrow> d_same b c \<Longrightarrow> d_same a c"
  by (simp add: d_same_def)

lemma d_first_same: "d_same s (fst (d_rotate_on_first_write s m))"
proof -
  obtain s1 m1 where r: "rotate_by_size_chain s m = (s1, m1)" by fastforce
  have "d_same t (t\<lparr>d_rotated_on_open_done := b\<rparr>)" for t b
    by (simp add: d_same_def d_naming_def d_fd_ok_def)
  then show ?thesis using d_size_chain_same [of s m] d_same_trans [of s s1] r
    by (simp add: d_rotate_on_first_write_def d_same_def)
qed

lemma d_room_patch:
  assumes "d_foot z s \<subseteq> F"
  shows "d_make_room k s (patch F m n) = onto F n (d_make_room k s m)"
proof -
  obtain s1 m1 where r: "rotate_by_size_chain s m = (s1, m1)" by fastforce
  have "d_foot z s1 = d_foot z s" using d_size_chain_same [of s m] r by (intro d_same_foot) simp
  then show ?thesis using assms d_ensure_patch [of z s1] by (simp add: d_make_room_def d_size_chain_patch r)
qed

lemma d_room_same: "d_same s (fst (d_make_room k s m))"
proof -
  obtain s1 m1 where r: "rotate_by_size_chain s m = (s1, m1)" by fastforce
  have "d_same s s1" using d_size_chain_same [of s m] r by simp
  then show ?thesis using d_same_trans [OF _ d_ensure_same, of s s1 m1]
    by (simp add: d_make_room_def r) (simp add: d_same_def)
qed

lemma d_time_foot:
  assumes "d_fd_ok s"
  shows "d_foot z (rotate_if_needed_by_time z tp s) \<subseteq> d_foot z s" "d_fd_ok (rotate_if_needed_by_time z tp s)"
    "d_naming (rotate_if_needed_by_time z tp s) = d_naming s"
proof -
  let ?s = "rotate_if_needed_by_time z tp s"
  show n: "d_naming ?s = d_naming s" and "d_fd_ok ?s"
    using assms by (simp_all add: rotate_if_needed_by_time_def Let_def d_close_file_def d_naming_def d_fd_ok_def)
  from n have f: "make_basename_for_tp z ?s = make_basename_for_tp z s"
    by (simp add: make_basename_for_tp_def d_naming_def fun_eq_iff)
  have "d_current_basename ?s \<in> insert (d_current_basename s) (range (make_basename_for_tp z s))"
    by (auto simp: rotate_if_needed_by_time_def Let_def d_close_file_def make_basename_for_tp_def)
  then show "d_foot z ?s \<subseteq> d_foot z s" using n by (auto simp: d_foot_def f d_naming_def)
qed

lemma d_sink_it_patch:
  assumes "d_fd_ok s"
  shows "d_foot z s \<subseteq> F \<Longrightarrow> d_sink_it z tp buf (s, patch F m n) = onto F n (d_sink_it z tp buf (s, m))"
    "d_fd_ok (fst (d_sink_it z tp buf (s, m)))" "d_foot z (fst (d_sink_it z tp buf (s, m))) \<subseteq> d_foot z s"
proof -
  let ?s = "rotate_if_needed_by_time z tp s"
  obtain s1 m1 where 1: "d_rotate_on_first_write ?s m = (s1, m1)" by fastforce
  obtain s2 m2 where 2: "d_ensure_opened s1 m1 = (s2, m2)" by fastforce
  obtain s3 m3 where 3: "d_make_room (length buf) s2 m2 = (s3, m3)" by fastforce
  let ?t = "s3\<lparr>d_current_size_bytes := d_current_size_bytes s3 + length buf\<rparr>"
  note t = d_time_foot [OF assms, of z tp]
  have s1: "d_same ?s s1" and s2: "d_same s1 s2" and s3: "d_same s2 s3" and s4: "d_same s3 ?t"
    using d_first_same [of ?s m] d_ensure_same [of s1 m1] d_room_same [of s2 "length buf" m2] 1 2 3
    by (simp_all add: d_same_def d_naming_def d_fd_ok_def)
  have ok: "d_fd_ok s1" "d_fd_ok s2" "d_fd_ok s3" "d_fd_ok ?t"
    using t(2) s1 s2 s3 s4 unfolding d_same_def by blast+
  note feet = d_same_foot [OF s1, of z] d_same_foot [OF s2, of z] d_same_foot [OF s3, of z] d_same_foot [OF s4, of z]
  show "d_sink_it z tp buf (s, patch F m n) = onto F n (d_sink_it z tp buf (s, m))" if "d_foot z s \<subseteq> F"
  proof -
    have F: "d_foot z ?s \<subseteq> F" using t(1) that by blast
    have "d_write s3 (patch F m3 n) buf = patch F (d_write s3 m3 buf) n"
      using ok(3) F d_foot_paths(1) [of z s3 F] by (simp add: d_write_def d_fd_ok_def feet keeps_to split: option.split)
    then show ?thesis
      using F d_first_patch [of z ?s] d_ensure_patch [of z s1] d_room_patch [of z s2]
      by (simp add: d_sink_it_def Let_def 1 2 3 feet)
  qed
  have e: "fst (d_sink_it z tp buf (s, m)) = ?t" by (simp add: d_sink_it_def Let_def 1 2 3)
  show "d_fd_ok (fst (d_sink_it z tp buf (s, m)))" using ok(4) e by simp
  show "d_foot z (fst (d_sink_it z tp buf (s, m))) \<subseteq> d_foot z s"
    using t(1) unfolding e feet .
qed

text \<open>The sinks of spdlog.\<close>

definition r_foot :: "rot_sink \<Rightarrow> path set" where
  "r_foot s = range (calc_filename (r_base s))"

lemma r_sink_it_patch:
  assumes "r_foot s \<subseteq> F"
  shows "r_sink_it buf (s, patch F m n) = onto F n (r_sink_it buf (s, m))"
proof -
  have F: "\<forall>i. calc_filename (r_base s) i \<in> F" using assms by (auto simp: r_foot_def)
  then have b: "r_base s \<in> F" using calc_filename_0(1) by metis
  have r: "r_rotate s (patch F m n) = patch F (r_rotate s m) n" by (simp add: r_rotate_def keeps_to F b)
  show ?thesis by (simp add: r_sink_it_def Let_def r keeps_to b)
qed

lemma r_sink_it_base: "r_base (fst (r_sink_it buf (s, m))) = r_base s"
  by (simp add: r_sink_it_def Let_def split: if_splits)

definition g_live_ok :: "spd_daily \<Rightarrow> bool" where
  "g_live_ok s \<longleftrightarrow> (0 < g_max_files s \<longrightarrow> circ_ok (g_max_files s) (g_names s))"

definition g_foot :: "tz \<Rightarrow> spd_daily \<Rightarrow> path set" where
  "g_foot z s = insert (g_file s) (range (g_name z (g_base s)))
     \<union> (if 0 < g_max_files s then set (circ_list (g_names s)) else {})"

lemma set_push_last: "set (push_last n x xs) \<subseteq> insert x (set xs)"
  by (cases xs) (auto simp: push_last_def)

lemma g_sink_it_patch:
  assumes ok: "g_live_ok s"
  shows "g_foot z s \<subseteq> F \<Longrightarrow> g_sink_it z (t, now, buf) (s, patch F m n) = onto F n (g_sink_it z (t, now, buf) (s, m))"
    "g_live_ok (fst (g_sink_it z (t, now, buf) (s, m)))"
    "g_foot z (fst (g_sink_it z (t, now, buf) (s, m))) \<subseteq> g_foot z s"
proof -
  let ?f = "g_name z (g_base s) t"
  have room: "circ_front (g_names s) \<in> set (circ_list (g_names s))" if "circ_full (g_names s)" "0 < g_max_files s"
    using that ok circ.full_iff [of "g_max_files s" "g_names s"] circ.qs_front [of "g_max_files s" "g_names s"]
    by (cases "circ_list (g_names s)") (auto simp: g_live_ok_def)
  show "g_sink_it z (t, now, buf) (s, patch F m n) = onto F n (g_sink_it z (t, now, buf) (s, m))"
    if F: "g_foot z s \<subseteq> F"
  proof -
    have "?f \<in> F" "g_file s \<in> F" "circ_full (g_names s) \<Longrightarrow> 0 < g_max_files s \<Longrightarrow> circ_front (g_names s) \<in> F"
      using F room by (auto simp: g_foot_def split: if_splits)
    then show ?thesis by (simp add: g_sink_it_def g_delete_old_def Let_def keeps_to)
  qed
  have "g_live_ok (fst (g_sink_it z (t, now, buf) (s, m)))
    \<and> g_foot z (fst (g_sink_it z (t, now, buf) (s, m))) \<subseteq> g_foot z s"
  proof (cases "g_tp s \<le> t \<and> 0 < g_max_files s")
    case True
    then have c: "circ_ok (g_max_files s) (g_names s)" using ok by (simp add: g_live_ok_def)
    note r = g_rotate [OF conjunct2 [OF True] c conjunct1 [OF True], of z now]
    have "g_base (g_rotated z t now s) = g_base s" by (simp add: g_rotated_def)
    then show ?thesis
      using r(1) [of buf m] r(2-5) set_push_last [of "g_max_files s" ?f "circ_list (g_names s)"]
      by (auto simp: g_live_ok_def g_foot_def)
  next
    case False
    then show ?thesis using ok by (auto simp: g_sink_it_def Let_def g_live_ok_def g_foot_def)
  qed
  then show "g_live_ok (fst (g_sink_it z (t, now, buf) (s, m)))"
    "g_foot z (fst (g_sink_it z (t, now, buf) (s, m))) \<subseteq> g_foot z s" by simp_all
qed

section \<open>Live sinks\<close>

text \<open>\<open>LQuiet\<close> has no file: the console, a stream, a callback.\<close>

datatype live = LCount count_sink | LDailySize daily_sink | LBasic path | LRotating rot_sink
  | LDaily spd_daily | LQuiet

text \<open>Constructing the sink that a configuration names; \<open>clock\<close> are the readings of a daily one.\<close>

definition open_live :: "tz \<Rightarrow> int \<times> int \<times> int \<Rightarrow> sink_kind \<Rightarrow> files \<Rightarrow> spd_error + (live \<times> files)" where
  "open_live z clock k m = (case k of
      CountRotating s \<Rightarrow> Inr (LCount s, m)
    | DailySize s \<Rightarrow> Inr (LDailySize s, m)
    | BasicFile p trunc \<Rightarrow> Inr (LBasic p, open_basic p trunc m)
    | RotatingFile p max_size max_files roo \<Rightarrow>
        rbind (open_rotating p max_size max_files roo m) (\<lambda>(s, m). Inr (LRotating s, m))
    | DailyFile p h mi trunc max_days \<Rightarrow>
        rbind (open_daily z clock p h mi trunc max_days m) (\<lambda>(s, m). Inr (LDaily s, m))
    | _ \<Rightarrow> Inr (LQuiet, m))"

text \<open>\<open>sink_it_\<close> of each; \<open>t\<close> is the time of the message, \<open>now\<close> what the sink reads from the clock.\<close>

definition write_live :: "tz \<Rightarrow> int \<times> int \<times> string \<Rightarrow> live \<times> files \<Rightarrow> live \<times> files" where
  "write_live z msg km = (case (msg, km) of ((t, now, buf), (k, m)) \<Rightarrow> (case k of
      LCount s \<Rightarrow> map_prod LCount (\<lambda>m. m) (c_sink_it buf (s, m))
    | LDailySize s \<Rightarrow> map_prod LDailySize (\<lambda>m. m) (d_sink_it z now buf (s, m))
    | LBasic p \<Rightarrow> (LBasic p, b_sink_it p buf m)
    | LRotating s \<Rightarrow> map_prod LRotating (\<lambda>m. m) (r_sink_it buf (s, m))
    | LDaily s \<Rightarrow> map_prod LDaily (\<lambda>m. m) (g_sink_it z msg (s, m))
    | LQuiet \<Rightarrow> (LQuiet, m)))"

definition live_ok :: "live \<Rightarrow> bool" where
  "live_ok k = (case k of LCount s \<Rightarrow> c_handle_ok s | LDailySize s \<Rightarrow> d_fd_ok s | LDaily s \<Rightarrow> g_live_ok s | _ \<Rightarrow> True)"

definition live_foot :: "tz \<Rightarrow> live \<Rightarrow> path set" where
  "live_foot z k = (case k of LCount s \<Rightarrow> c_foot s | LDailySize s \<Rightarrow> d_foot z s | LBasic p \<Rightarrow> {p}
    | LRotating s \<Rightarrow> r_foot s | LDaily s \<Rightarrow> g_foot z s | LQuiet \<Rightarrow> {})"

interpretation live: file_sink live_ok "live_foot z" "write_live z" for z
proof unfold_locales
  fix s :: live and msg :: "int \<times> int \<times> string" and m n :: files and F
  obtain t now buf where msg: "msg = (t, now, buf)" using prod_cases3 by blast
  assume ok: "live_ok s"
  note parts = c_sink_it_patch d_sink_it_patch g_sink_it_patch
  show "live_ok (fst (write_live z msg (s, m)))"
    using ok by (cases s) (simp_all add: msg write_live_def live_ok_def parts split: prod.split)
  show "live_foot z (fst (write_live z msg (s, m))) \<subseteq> live_foot z s"
    using ok d_sink_it_patch(3) g_sink_it_patch(3)
    by (cases s) (simp_all add: msg write_live_def live_ok_def live_foot_def c_sink_it_patch(3) r_foot_def r_sink_it_base)
  show "write_live z msg (s, patch F m n) = (fst (write_live z msg (s, m)), patch F (snd (write_live z msg (s, m))) n)"
    if "live_foot z s \<subseteq> F"
    using ok that
    by (cases s) (simp_all add: msg write_live_def live_ok_def live_foot_def c_sink_it_patch(1) d_sink_it_patch(1)
        g_sink_it_patch(1) r_sink_it_patch b_sink_it_def keeps_to map_prod_def split_beta)
qed

section \<open>A logger with any sinks\<close>

text \<open>A line with the clock reading of the sinks that take one; \<open>spdlog::logger::sink_it_\<close> with
  the level of the logger and of each sink.\<close>

type_synonym timed_line = "int \<times> log_line"

definition line_msg :: "fmt \<Rightarrow> timed_line \<Rightarrow> int \<times> int \<times> string" where
  "line_msg fmt ln = (fst (snd ln), fst ln, formatted fmt (snd ln))"

definition takes :: "level \<Rightarrow> timed_line \<Rightarrow> bool" where
  "takes k ln \<longleftrightarrow> k \<le> fst (snd (snd ln))"

fun write_lives :: "tz \<Rightarrow> fmt \<Rightarrow> timed_line \<Rightarrow> (level \<times> live) list \<Rightarrow> files \<Rightarrow> (level \<times> live) list \<times> files" where
  "write_lives z fmt ln [] m = ([], m)"
| "write_lives z fmt ln ((k, x) # xs) m =
     (case (if takes k ln then write_live z (line_msg fmt ln) (x, m) else (x, m)) of
        (x', m1) \<Rightarrow> (case write_lives z fmt ln xs m1 of (xs', m2) \<Rightarrow> ((k, x') # xs', m2)))"

definition run_lives ::
  "tz \<Rightarrow> fmt \<Rightarrow> level \<Rightarrow> timed_line list \<Rightarrow> (level \<times> live) list \<times> files \<Rightarrow> (level \<times> live) list \<times> files" where
  "run_lives z fmt lv = fold (\<lambda>ln (xs, m). if takes lv ln then write_lives z fmt ln xs m else (xs, m))"

text \<open>One sink by itself.\<close>

definition own_run :: "tz \<Rightarrow> fmt \<Rightarrow> level \<Rightarrow> timed_line list \<Rightarrow> live \<times> files \<Rightarrow> live \<times> files" where
  "own_run z fmt k lns = fold (write_live z) (map (line_msg fmt) (filter (takes k) lns))"

definition apart :: "tz \<Rightarrow> (level \<times> live) list \<Rightarrow> bool" where
  "apart z = sorted_wrt (\<lambda>a b. live_foot z (snd a) \<inter> live_foot z (snd b) = {})"

lemma own_run_one: "own_run z fmt k [ln] (x, m) = (if takes k ln then write_live z (line_msg fmt ln) (x, m) else (x, m))"
  by (simp add: own_run_def)

lemma own_run_Cons: "own_run z fmt k (ln # lns) xm = own_run z fmt k lns (own_run z fmt k [ln] xm)"
  by (simp add: own_run_def)

lemma own_run_keeps:
  "live_ok x \<Longrightarrow> live_ok (fst (own_run z fmt k lns (x, m))) \<and> live_foot z (fst (own_run z fmt k lns (x, m))) \<subseteq> live_foot z x"
  unfolding own_run_def by (rule live.fold_keeps)

lemma own_run_frame: "live_ok x \<Longrightarrow> p \<notin> live_foot z x \<Longrightarrow> snd (own_run z fmt k lns (x, m)) p = m p"
  unfolding own_run_def by (rule live.fold_frame)

lemma own_run_agree:
  assumes "live_ok x" and "\<forall>p \<in> live_foot z x. m p = n p"
  shows "fst (own_run z fmt k lns (x, m)) = fst (own_run z fmt k lns (x, n))"
    "p \<in> live_foot z x \<Longrightarrow> snd (own_run z fmt k lns (x, m)) p = snd (own_run z fmt k lns (x, n)) p"
  using live.fold_agree [OF assms] unfolding own_run_def by blast+

text \<open>What a run of all sinks did, compared with the runs of each from the same files.\<close>

definition as_alone ::
  "tz \<Rightarrow> fmt \<Rightarrow> level \<Rightarrow> timed_line list \<Rightarrow> (level \<times> live) list \<times> files \<Rightarrow> (level \<times> live) list \<times> files \<Rightarrow> bool" where
  "as_alone z fmt lv lns xm xm' \<longleftrightarrow>
     fst xm' = map (\<lambda>(k, x). (k, fst (own_run z fmt (max lv k) lns (x, snd xm)))) (fst xm)
     \<and> (\<forall>(k, x) \<in> set (fst xm). \<forall>p \<in> live_foot z x. snd xm' p = snd (own_run z fmt (max lv k) lns (x, snd xm)) p)
     \<and> (\<forall>p. p \<notin> (\<Union>(k, x) \<in> set (fst xm). live_foot z x) \<longrightarrow> snd xm' p = snd xm p)"

lemma takes_max: "takes (max lv k) ln \<longleftrightarrow> takes lv ln \<and> takes k ln"
  by (simp add: takes_def)

lemma write_lives_as_alone:
  assumes "\<forall>(k, x) \<in> set xs. live_ok x" and "apart z xs" and "takes lv ln"
  shows "as_alone z fmt lv [ln] (xs, m) (write_lives z fmt ln xs m)"
  using assms(1,2)
proof (induction xs arbitrary: m)
  case (Cons kx xs)
  obtain k x where kx: "kx = (k, x)" by fastforce
  obtain x1 m1 where 1: "own_run z fmt (max lv k) [ln] (x, m) = (x1, m1)" by fastforce
  obtain xs2 m2 where 2: "write_lives z fmt ln xs m1 = (xs2, m2)" by fastforce
  have w: "write_lives z fmt ln (kx # xs) m = ((k, x1) # xs2, m2)"
    using 1 2 assms(3) by (auto simp: kx own_run_one takes_max)
  have ok: "live_ok x" and disj: "\<And>j y. (j, y) \<in> set xs \<Longrightarrow> live_foot z x \<inter> live_foot z y = {} \<and> live_ok y"
    using Cons.prems by (fastforce simp: kx apart_def)+
  have "as_alone z fmt lv [ln] (xs, m1) (xs2, m2)"
    using Cons.IH [of m1] Cons.prems by (simp add: 2 apart_def)
  note ih = this [unfolded as_alone_def fst_conv snd_conv]
  have m1: "m1 p = m p" if "p \<notin> live_foot z x" for p
    using own_run_frame [OF ok that, of fmt "max lv k" "[ln]" m] 1 by simp
  have agree: "\<forall>p \<in> live_foot z y. m1 p = m p" if "(j, y) \<in> set xs" for j y
    using m1 disj [OF that] by blast
  have "xs2 = map (\<lambda>(k, x). (k, fst (own_run z fmt (max lv k) [ln] (x, m)))) xs"
    using ih own_run_agree(1) [OF _ agree] disj by auto
  moreover have "m2 p = snd (own_run z fmt (max lv j) [ln] (y, m)) p" if "(j, y) \<in> set xs" "p \<in> live_foot z y" for j y p
    using ih own_run_agree(2) [OF _ agree [OF that(1)] that(2), of fmt "max lv j" "[ln]"] disj [OF that(1)] that by fastforce
  moreover have "m2 p = m1 p" if "p \<in> live_foot z x" for p
    using ih disj that by blast
  moreover have "m2 p = m p" if "p \<notin> live_foot z x" "p \<notin> (\<Union>(k, x) \<in> set xs. live_foot z x)" for p
    using ih m1 [OF that(1)] that(2) by metis
  ultimately show ?case
    unfolding w unfolding kx as_alone_def fst_conv snd_conv by (auto simp: 1)
qed (simp add: as_alone_def)

lemma apart_same:
  "apart z xs \<Longrightarrow> a \<in> set xs \<Longrightarrow> b \<in> set xs \<Longrightarrow> p \<in> live_foot z (snd a) \<Longrightarrow> p \<in> live_foot z (snd b) \<Longrightarrow> a = b"
  by (induction xs) (auto simp: apart_def)

lemma as_alone_keeps:
  assumes "\<forall>(k, x) \<in> set xs. live_ok x" and "apart z xs" and "as_alone z fmt lv lns (xs, m) (xs', m')"
  shows "\<forall>(k, x) \<in> set xs'. live_ok x" "apart z xs'"
proof -
  let ?f = "\<lambda>(k, x). (k, fst (own_run z fmt (max lv k) lns (x, m)))"
  have xs': "xs' = map ?f xs" using assms(3) by (simp add: as_alone_def)
  have k: "live_ok (snd (?f a))" "live_foot z (snd (?f a)) \<subseteq> live_foot z (snd a)" if "a \<in> set xs" for a
    using own_run_keeps [of "snd a" z fmt "max lv (fst a)" lns m] assms(1) that by (auto simp: split_beta)
  show "\<forall>(k, x) \<in> set xs'. live_ok x" using k(1) by (auto simp: xs')
  have "sorted_wrt (\<lambda>a b. live_foot z (snd (?f a)) \<inter> live_foot z (snd (?f b)) = {}) xs"
    using assms(2) k(2) unfolding apart_def by (elim sorted_wrt_mono_rel [rotated]) blast
  then show "apart z xs'" by (simp add: apart_def xs' sorted_wrt_map)
qed

lemma as_alone_Cons:
  assumes ok: "\<forall>(k, x) \<in> set xs. live_ok x" and ap: "apart z xs"
    and one: "as_alone z fmt lv [ln] (xs, m) (xs1, m1)" and rest: "as_alone z fmt lv lns (xs1, m1) (xs2, m2)"
  shows "as_alone z fmt lv (ln # lns) (xs, m) (xs2, m2)"
proof -
  note one = one [unfolded as_alone_def fst_conv snd_conv] and rest = rest [unfolded as_alone_def fst_conv snd_conv]
  let ?own = "\<lambda>k lns. own_run z fmt (max lv k) lns"
  have xs1: "xs1 = map (\<lambda>(k, x). (k, fst (?own k [ln] (x, m)))) xs" using one by blast
  have sub: "\<exists>y. (k, y) \<in> set xs \<and> x1 = fst (?own k [ln] (y, m)) \<and> live_foot z x1 \<subseteq> live_foot z y"
    if "(k, x1) \<in> set xs1" for k x1
    using that ok own_run_keeps by (fastforce simp: xs1)
  have both: "fst (?own k lns (fst (?own k [ln] (x, m)), m1)) = fst (?own k (ln # lns) (x, m))
      \<and> (\<forall>p \<in> live_foot z x. m2 p = snd (?own k (ln # lns) (x, m)) p)" if x: "(k, x) \<in> set xs" for k x
  proof -
    obtain x1 n1 where 1: "?own k [ln] (x, m) = (x1, n1)" by fastforce
    have okx: "live_ok x" using ok x by blast
    have ok1: "live_ok x1" and sub1: "live_foot z x1 \<subseteq> live_foot z x"
      using own_run_keeps [OF okx, of z fmt "max lv k" "[ln]" m] 1 by simp_all
    have x1: "(k, x1) \<in> set xs1" using x 1 by (force simp: xs1)
    have eq: "\<forall>p \<in> live_foot z x. m1 p = n1 p" using one x 1 by fastforce
    then have eq1: "\<forall>p \<in> live_foot z x1. m1 p = n1 p" using sub1 by blast
    note agree = own_run_agree(1) [OF ok1 eq1, where fmt = fmt and k = "max lv k" and lns = lns]
      own_run_agree(2) [OF ok1 eq1, where fmt = fmt and k = "max lv k" and lns = lns]
    have "m2 p = snd (?own k lns (x1, n1)) p" if p: "p \<in> live_foot z x" for p
    proof (cases "p \<in> live_foot z x1")
      case True
      then show ?thesis using rest x1 agree(2) by fastforce
    next
      case False
      have "p \<notin> live_foot z y1" if y1: "(j, y1) \<in> set xs1" for j y1
      proof
        assume "p \<in> live_foot z y1"
        moreover obtain y where y: "(j, y) \<in> set xs" "y1 = fst (?own j [ln] (y, m))" "live_foot z y1 \<subseteq> live_foot z y"
          using sub [OF y1] by blast
        ultimately have "(j, y) = (k, x)" using apart_same [OF ap y(1) x] p by auto
        then have "y1 = x1" using y(2) 1 by simp
        then show False using False \<open>p \<in> live_foot z y1\<close> by simp
      qed
      then have "m2 p = m1 p" using rest by blast
      then show ?thesis using eq p own_run_frame [OF ok1 False] by simp
    qed
    then show ?thesis using agree(1) by (simp add: own_run_Cons [of z fmt "max lv k" ln lns] 1)
  qed
  have "xs2 = map (\<lambda>(k, x). (k, fst (?own k lns (x, m1)))) xs1" using rest by blast
  also have "\<dots> = map (\<lambda>(k, x). (k, fst (?own k (ln # lns) (x, m)))) xs"
    using both unfolding xs1 by (auto simp: split_beta)
  finally have "xs2 = map (\<lambda>(k, x). (k, fst (?own k (ln # lns) (x, m)))) xs" .
  moreover have "m2 p = m p" if p: "p \<notin> (\<Union>(k, x) \<in> set xs. live_foot z x)" for p
  proof -
    have "p \<notin> (\<Union>(k, x) \<in> set xs1. live_foot z x)" using p sub by blast
    then show ?thesis using one rest p by metis
  qed
  ultimately show ?thesis using both unfolding as_alone_def fst_conv snd_conv by blast
qed

lemma run_lives_as_alone:
  assumes "\<forall>(k, x) \<in> set xs. live_ok x" and "apart z xs"
  shows "as_alone z fmt lv lns (xs, m) (run_lives z fmt lv lns (xs, m))"
  using assms
proof (induction lns arbitrary: xs m)
  case Nil
  have "map (\<lambda>(k, x). (k, x)) xs = xs" by (simp add: case_prod_eta)
  then show ?case by (auto simp: as_alone_def run_lives_def own_run_def)
next
  case (Cons ln lns)
  obtain xs1 m1 where 1: "(if takes lv ln then write_lives z fmt ln xs m else (xs, m)) = (xs1, m1)" by fastforce
  have one: "as_alone z fmt lv [ln] (xs, m) (xs1, m1)"
  proof (cases "takes lv ln")
    case True
    then show ?thesis using write_lives_as_alone [OF Cons.prems True, of fmt m] 1 by simp
  next
    case False
    have "map (\<lambda>(k, x). (k, x)) xs = xs" by (simp add: case_prod_eta)
    then show ?thesis using False 1 by (auto simp: as_alone_def own_run_one takes_max)
  qed
  have "run_lives z fmt lv (ln # lns) (xs, m) = run_lives z fmt lv lns (xs1, m1)"
    using 1 by (simp add: run_lives_def)
  then show ?case
    using as_alone_Cons [OF Cons.prems one, of lns] Cons.IH [OF as_alone_keeps [OF Cons.prems one], of m1]
    by (metis prod.collapse)
qed

text \<open>The sinks of a configuration, constructed in turn; what is constructed is in order.\<close>

fun open_lives ::
  "tz \<Rightarrow> int \<times> int \<times> int \<Rightarrow> lsink list \<Rightarrow> files \<Rightarrow> spd_error + ((level \<times> live) list \<times> files)" where
  "open_lives z clock [] m = Inr ([], m)"
| "open_lives z clock (s # ss) m =
     rbind (open_live z clock (sk_kind s) m) (\<lambda>(x, m1).
     rbind (open_lives z clock ss m1) (\<lambda>(xs, m2). Inr ((sk_level s, x) # xs, m2)))"

text \<open>The files are those the configuration left: \<open>construct_files\<close> is what is seen of this
  in \<open>LogConfig\<close>.\<close>

lemma open_live_files:
  "open_live (e_tz e) (e_now e, e_now e, e_now e) k m = Inr (x, m') \<Longrightarrow> m' = construct_files e k m"
  by (cases k) (auto simp: open_live_def construct_files_def result_simps)

lemma open_lives_files:
  "open_lives (e_tz e) (e_now e, e_now e, e_now e) ss m = Inr (xs, m') \<Longrightarrow>
     m' = fold (construct_files e) (map sk_kind ss) m"
  by (induction ss arbitrary: m xs) (auto simp: result_simps dest!: open_live_files)

definition fresh_kind :: "sink_kind \<Rightarrow> bool" where
  "fresh_kind k = (case k of CountRotating s \<Rightarrow> c_handle_ok s | DailySize s \<Rightarrow> d_fd_ok s | _ \<Rightarrow> True)"

lemma open_live_ok: "open_live z clock k m = Inr (x, m1) \<Longrightarrow> fresh_kind k \<Longrightarrow> live_ok x"
  by (cases k; cases clock)
    (auto simp: open_live_def live_ok_def fresh_kind_def rbind_def open_daily_def Let_def g_live_ok_def circ_init
      split: sum.splits if_splits)

lemma open_lives_ok:
  "open_lives z clock ss m = Inr (xs, m') \<Longrightarrow> \<forall>s \<in> set ss. fresh_kind (sk_kind s) \<Longrightarrow>
     (\<forall>(k, x) \<in> set xs. live_ok x) \<and> map fst xs = map sk_level ss"
proof (induction ss arbitrary: m xs)
  case (Cons s ss)
  obtain x m1 ys where o: "open_live z clock (sk_kind s) m = Inr (x, m1)"
    and r: "open_lives z clock ss m1 = Inr (ys, m')" and xs: "xs = (sk_level s, x) # ys"
    using Cons.prems(1) by (auto simp: rbind_def split: sum.splits)
  show ?case using Cons.IH [OF r] Cons.prems(2) open_live_ok [OF o] xs
    by (auto simp: rbind_def)
qed simp

section \<open>Properties\<close>

text \<open>C6. The file sinks of a logger do not disturb each other: when no two may touch the same
  file, a run of lines through all of them leaves each sink in the state, and its files with the
  content, that the lines it takes would have left if it had been alone with the files as they
  were; and no file is touched that is none of theirs.\<close>

theorem sinks_as_alone:
  assumes "open_lives z clock ss m0 = Inr (xs, m)" and "\<forall>s \<in> set ss. fresh_kind (sk_kind s)"
    and "apart z xs" and "run_lives z fmt lv lns (xs, m) = (xs', m')"
  shows "xs' = map (\<lambda>(k, x). (k, fst (own_run z fmt (max lv k) lns (x, m)))) xs
    \<and> (\<forall>(k, x) \<in> set xs. \<forall>p \<in> live_foot z x. m' p = snd (own_run z fmt (max lv k) lns (x, m)) p)
    \<and> (\<forall>p. (\<forall>(k, x) \<in> set xs. p \<notin> live_foot z x) \<longrightarrow> m' p = m p)"
proof -
  have "\<forall>(k, x) \<in> set xs. live_ok x" using open_lives_ok [OF assms(1,2)] by blast
  from run_lives_as_alone [OF this assms(3), of fmt lv lns m] show ?thesis
    unfolding assms(4) as_alone_def fst_conv snd_conv by blast
qed

lemma sinks_as_alone_witness:
  "\<exists>xs m xs' m'. open_lives tz_utc_day (0, 0, 0)
       [\<lparr>sk_level = Info, sk_kind = BasicFile ''a'' False\<rparr>, \<lparr>sk_level = Err, sk_kind = BasicFile ''b'' False\<rparr>] Map.empty
       = Inr (xs, m)
     \<and> run_lives tz_utc_day (\<lambda>t l s. s) Trace [(0, 0, Info, ''x''), (0, 0, Err, ''y'')] (xs, m) = (xs', m')
     \<and> m' ''a'' = Some ''xy'' \<and> m' ''b'' = Some ''y'' \<and> m' ''c'' = None"
proof -
  let ?ss = "[\<lparr>sk_level = Info, sk_kind = BasicFile ''a'' False\<rparr>, \<lparr>sk_level = Err, sk_kind = BasicFile ''b'' False\<rparr>]"
  let ?fmt = "(\<lambda>t l s. s) :: fmt" and ?lns = "[(0, 0, Info, ''x''), (0, 0, Err, ''y'')] :: timed_line list"
  let ?m = "[''a'' \<mapsto> [], ''b'' \<mapsto> []] :: files" and ?xs = "[(Info, LBasic ''a''), (Err, LBasic ''b'')]"
  have o: "open_lives tz_utc_day (0, 0, 0) ?ss Map.empty = Inr (?xs, ?m)"
    by (simp add: open_live_def open_basic_def fh_open_def fs_open_append_def rbind_def fun_upd_twist)
  have f: "\<forall>s \<in> set ?ss. fresh_kind (sk_kind s)" by (simp add: fresh_kind_def)
  have ap: "apart tz_utc_day ?xs" by (simp add: apart_def live_foot_def)
  obtain xs' m' where r: "run_lives tz_utc_day ?fmt Trace ?lns (?xs, ?m) = (xs', m')" by fastforce
  have own: "snd (own_run tz_utc_day ?fmt (max Trace Info) ?lns (LBasic ''a'', ?m)) ''a'' = Some ''xy''"
    "snd (own_run tz_utc_day ?fmt (max Trace Err) ?lns (LBasic ''b'', ?m)) ''b'' = Some ''y''"
    by code_simp+
  from sinks_as_alone [OF o f ap r] own show ?thesis
    using o r by (auto simp: live_foot_def)
qed

lemma own_run_rotating:
  "own_run z fmt k lns (LRotating s, m)
     = map_prod LRotating (\<lambda>m. m) (r_run (map (\<lambda>ln. formatted fmt (snd ln)) (filter (takes k) lns)) (s, m))"
proof (induction lns arbitrary: s m)
  case (Cons ln lns)
  obtain s1 m1 where "r_sink_it (formatted fmt (snd ln)) (s, m) = (s1, m1)" by fastforce
  then show ?case using Cons
    by (simp add: own_run_Cons [of z fmt k ln lns] own_run_one write_live_def line_msg_def r_run_def)
qed (simp add: own_run_def r_run_def)

text \<open>C7. From the lines of a logger to the files of a rotating sink of spdlog, whatever other
  sinks the logger has, as long as their files are others: the chain of files holds the end of
  what it held followed by the lines the sink takes, in order, and the last one ends the current
  file.\<close>

theorem lines_to_rotating_file:
  assumes "\<forall>(k, x) \<in> set xs. live_ok x" and "apart z xs" and "(k, LRotating s) \<in> set xs"
    and "r_ok s m" and "run_lives z fmt lv lns (xs, m) = (xs', m')"
  defines "written \<equiv> map (\<lambda>ln. formatted fmt (snd ln)) (filter (takes (max lv k)) lns)"
  shows "suffix (r_text s m') (r_text s m @ concat written)
    \<and> (written \<noteq> [] \<longrightarrow> suffix (last written) (content m' (r_base s)))"
proof -
  obtain s1 m1 where r: "r_run written (s, m) = (s1, m1)" by fastforce
  note run = r_run_step [OF assms(4) r]
  have "\<forall>p \<in> live_foot z (LRotating s). m' p = snd (own_run z fmt (max lv k) lns (LRotating s, m)) p"
    using run_lives_as_alone [OF assms(1,2), of fmt lv lns m] assms(3)
    unfolding assms(5) as_alone_def fst_conv snd_conv by blast
  then have eq: "content m' (calc_filename (r_base s) i) = content m1 (calc_filename (r_base s) i)" for i
    using r by (simp add: live_foot_def r_foot_def own_run_rotating written_def [symmetric] content_def)
  have "r_base s1 = r_base s" "r_max_files s1 = r_max_files s" using run by blast+
  then have "r_text s m' = r_text s1 m1" by (simp add: slots_text_def eq del: upt_Suc)
  moreover have "content m' (r_base s) = content m1 (r_base s)" using eq [of 0] by simp
  moreover have "suffix (r_text s1 m1) (r_text s m @ concat written)"
    "written \<noteq> [] \<longrightarrow> suffix (last written) (content m1 (r_base s))"
    using run by blast+
  ultimately show ?thesis by simp
qed

lemma lines_to_rotating_file_witness:
  "\<exists>xs' m'. run_lives tz_utc_day (\<lambda>t l s. s) Trace [(0, 0, Info, ''x''), (0, 0, Debug, ''y'')]
       ([(Warn, LQuiet),
         (Info, LRotating \<lparr>r_base = ''l.txt'', r_max_size = 3, r_max_files = 1, r_current_size = 0\<rparr>)], [''l.txt'' \<mapsto> []])
       = (xs', m')
     \<and> suffix ''x'' (content m' ''l.txt'')"
proof -
  let ?s = "\<lparr>r_base = ''l.txt'', r_max_size = 3, r_max_files = 1, r_current_size = 0\<rparr>"
  let ?xs = "[(Warn, LQuiet), (Info, LRotating ?s)]" and ?m = "[''l.txt'' \<mapsto> []] :: files"
  let ?fmt = "(\<lambda>t l s. s) :: fmt" and ?lns = "[(0, 0, Info, ''x''), (0, 0, Debug, ''y'')] :: timed_line list"
  have ok: "\<forall>(k, x) \<in> set ?xs. live_ok x" "apart tz_utc_day ?xs"
    by (simp_all add: live_ok_def apart_def live_foot_def)
  have m: "r_ok ?s ?m" by (simp add: r_ok_def fs_exists_def content_def)
  obtain xs' m' where r: "run_lives tz_utc_day ?fmt Trace ?lns (?xs, ?m) = (xs', m')" by fastforce
  have t: "takes (max Trace Info) (0, 0, Info, ''x'')" "\<not> takes (max Trace Info) (0, 0, Debug, ''y'')"
    by code_simp+
  from lines_to_rotating_file [OF ok _ m r, of Info] show ?thesis using r by (simp add: t formatted_def)
qed

end
