(* ===== verification/PatternPipeline.thy ===== *)
theory PatternPipeline
  imports PatternLayout LiveSinks
begin

text \<open>
  Log calls, the pattern formatter and the count-rotating sink together: under a pattern, a
  logger name and messages without line breaks every call writes lines of one line each, so the
  line limit of the sink is a limit of messages.  The formatter of the pipeline is a function of
  the clock, the level and the text; that the formatter object is one, caches included, is shown
  in \<open>PatternLines\<close>.
\<close>

section \<open>The formatter of a logger\<close>

text \<open>\<open>log_msg\<close> of a call, which passes no source location, and the text of \<open>format\<close> on it, for
  the pattern set in \<open>LogPrivate::setup\<close>.\<close>

definition call_msg :: "nat \<Rightarrow> logger \<Rightarrow> int \<Rightarrow> level \<Rightarrow> string \<Rightarrow> fmt_msg" where
  "call_msg tid lg tp l s =
     \<lparr>fm_name = lg_name lg, fm_level = l, fm_time = tp, fm_tid = tid,
      fm_source = \<lparr>sl_file = [], sl_line = 0, sl_func = []\<rparr>, fm_payload = s\<rparr>"

definition pattern_fmt :: "fmt_env \<Rightarrow> (nat \<Rightarrow> int) \<Rightarrow> nat \<Rightarrow> logger \<Rightarrow> fmt" where
  "pattern_fmt e now tid lg tp l s =
     fb_text (snd (pf_format e (call_msg tid lg tp l s) (new_pattern now (lg_pattern lg) False default_eol, empty_buf)))"

text \<open>\<open>logger::set_formatter\<close>: the last sink gets the formatter, the others clones of it;
  \<open>logger::set_pattern\<close> builds it.\<close>

fun share_formatter :: "(nat \<Rightarrow> nat \<Rightarrow> int) \<Rightarrow> pattern_formatter \<Rightarrow> nat \<Rightarrow> pattern_formatter list" where
  "share_formatter now f 0 = []"
| "share_formatter now f (Suc 0) = [f]"
| "share_formatter now f (Suc (Suc n)) = pf_clone (now n) f # share_formatter now f (Suc n)"

definition logger_set_pattern :: "(nat \<Rightarrow> nat \<Rightarrow> int) \<Rightarrow> string \<Rightarrow> bool \<Rightarrow> nat \<Rightarrow> pattern_formatter list" where
  "logger_set_pattern now pattern utc n = share_formatter now (new_pattern (now n) pattern utc default_eol) n"

lemma pf_clone_new: "pf_clone now (new_pattern now s utc eol) = new_pattern now s utc eol"
  by (simp add: pf_clone_def new_pattern_def compile_pattern_def split_beta)

text \<open>So every sink of a logger formats with the same pattern from an empty cache.\<close>

lemma logger_set_pattern_sinks:
  "logger_set_pattern (\<lambda>_. now) pattern utc n = replicate n (new_pattern now pattern utc default_eol)"
proof -
  have "share_formatter (\<lambda>_. now) (new_pattern now pattern utc default_eol) n = replicate n (new_pattern now pattern utc default_eol)"
    by (induction n rule: share_formatter.induct [of "\<lambda>_ _ n. P n" for P, case_names 0 1 2]) (simp_all add: pf_clone_new)
  then show ?thesis by (simp add: logger_set_pattern_def)
qed

section \<open>Messages of one line\<close>

fun one_line_any :: "msg_any \<Rightarrow> bool" where
  "one_line_any (MString s) = one_line s"
| "one_line_any (MOther t) = one_line t"
| "one_line_any a = True"

definition one_line_call :: "log_call \<Rightarrow> bool" where
  "one_line_call c \<longleftrightarrow> (case c of (tp, l, file, line, func, msgs) \<Rightarrow>
     one_line file \<and> one_line func \<and> list_all one_line_any msgs)"

lemma one_line_code_line [oneline]: "one_line file \<Longrightarrow> one_line func \<Longrightarrow> one_line (code_line file line func)"
  by (simp add: code_line_def oneline)

lemma one_line_any_to_string:
  assumes "one_line file" "one_line func" "one_line_any a"
  shows "one_line (fst (any_to_string file line func a)) \<and> (\<forall>lt \<in> set (snd (any_to_string file line func a)). one_line (snd lt))"
  using assms by (cases a) (simp_all add: any_to_string_def convert_any_def oneline)

lemma one_line_link_string:
  assumes "one_line file" "one_line func"
  shows "list_all one_line_any msgs \<Longrightarrow>
    one_line (fst (link_string file line func msgs)) \<and> (\<forall>lt \<in> set (snd (link_string file line func msgs)). one_line (snd lt))"
proof (induction msgs)
  case (Cons a msgs)
  then show ?case using one_line_any_to_string [OF assms, of a line] by (auto simp: split_beta oneline)
qed (simp add: oneline)

lemma one_line_fixed_texts [oneline]: "one_line text_empty" "one_line text_failed"
proof -
  have "one_line (utf8 bs)" if "\<forall>n \<in> set bs. n < 256 \<and> n \<noteq> 10" for bs
  proof -
    have "char_of n \<noteq> CHR 0x0A" if "n < 256" "n \<noteq> 10" for n :: nat
      using that by (auto dest: arg_cong [where f = "of_char :: char \<Rightarrow> nat"])
    then show ?thesis using that by (force simp: one_line_def utf8_def)
  qed
  then show "one_line text_empty" "one_line text_failed"
    unfolding text_empty_def text_failed_def by simp_all
qed

lemma one_line_log_text:
  assumes "one_line file" "one_line func" "list_all one_line_any msgs"
  shows "one_line (log_text file line func msgs b)"
  using one_line_link_string [OF assms] assms(1,2) by (simp add: log_text_def Let_def oneline)

lemma one_line_call_lines:
  assumes "one_line_call c" "ln \<in> set (call_lines fl c)"
  shows "one_line (snd (snd ln))"
proof -
  obtain tp l "file" line func msgs where c: "c = (tp, l, file, line, func, msgs)" by (cases c)
  then have o: "one_line file" "one_line func" "list_all one_line_any msgs" using assms(1) by (simp_all add: one_line_call_def)
  from assms(2) one_line_link_string [OF o, of line] one_line_log_text [OF o] show ?thesis
    by (auto simp: c call_lines_def)
qed

lemma pattern_fmt_is_line:
  assumes "one_line_env e" "one_line (lg_name lg)" "one_line (lg_pattern lg)" "one_line s"
  shows "is_line (pattern_fmt e now tid lg tp l s)"
proof -
  have "one_line_msg (call_msg tid lg tp l s)" using assms(2,4) by (simp add: one_line_msg_def call_msg_def oneline)
  from one_line_pf_format [OF this assms(1) one_line_new_pattern [OF assms(3)], of empty_buf now False default_eol]
  obtain t where "pattern_fmt e now tid lg tp l s = t @ default_eol" "one_line t"
    by (auto simp: pattern_fmt_def empty_buf_def oneline new_pattern_def)
  then show ?thesis by (simp add: default_eol_def is_line_one_line)
qed

section \<open>The line limit\<close>

lemma log_calls_count_limit:
  assumes "m_logger st = Some lg" and "lg_sinks lg = pre @ \<lparr>sk_level = k, sk_kind = CountRotating s\<rparr> # post"
    and "list_all no_file pre" and "list_all no_file post"
    and s: "s = make_count_sink file max_count max_files rotate_on_open True" and "0 < max_files" "0 < max_count"
    and "log_calls z fmt calls (st, m) = Some (st', m')"
    and lines: "\<forall>b \<in> set (map (formatted fmt) (sink_lines st lg k calls)). is_line b"
    and "\<forall>p \<in> set (chain_slots (c_base_path s) (c_rotated_path s) max_files). line_count (content m p) \<le> max_count"
  shows "\<forall>p \<in> set (chain_slots (c_base_path s) (c_rotated_path s) max_files). line_count (content m' p) \<le> max_count"
proof -
  let ?w = "map (formatted fmt) (sink_lines st lg k calls)"
  have f: "c_max_count s = max_count" "c_max_files s = max_files" "c_strict_count_on_open s"
    "\<not> c_opened s" "c_log_count s = 0" "c_fd s = None" by (simp_all add: s make_count_sink_def Let_def)
  obtain s' where r: "c_run ?w (s, m) = (s', m')"
    using log_calls_one [OF assms(3,4,1,2,8)] unfolding fold_count by (metis prod.exhaust_sel prod.inject)
  have "c_strict_inv s m" using f assms(6,7,10) by (simp add: c_strict_inv_def c_bounded_def c_handle_ok_def)
  from c_run_inv [OF this lines r] have "c_bounded s' m'" and cfg: "c_config s' = c_config s"
    by (auto simp: c_strict_inv_def)
  then show ?thesis using f c_config_paths [OF cfg] by (simp add: c_bounded_def)
qed

text \<open>
  C3. From the log calls to the line limit, formatter included: a logger whose name and pattern
  have no line break, writing messages without line breaks to a count-rotating sink with strict
  counting, hands the sink buffers of exactly one line each, whatever the flags of the pattern,
  and no file of the sink ever holds more than \<open>max_count\<close> of them.
\<close>

theorem pattern_lines_bound_messages:
  assumes "m_logger st = Some lg" and "lg_sinks lg = pre @ \<lparr>sk_level = k, sk_kind = CountRotating s\<rparr> # post"
    and "list_all no_file pre" and "list_all no_file post"
    and "s = make_count_sink file max_count max_files rotate_on_open True" and "0 < max_files" "0 < max_count"
    and "log_calls z (pattern_fmt e now tid lg) calls (st, m) = Some (st', m')"
    and env: "one_line_env e" and name: "one_line (lg_name lg)" "one_line (lg_pattern lg)" and calls: "\<forall>c \<in> set calls. one_line_call c"
    and "\<forall>p \<in> set (chain_slots (c_base_path s) (c_rotated_path s) max_files). line_count (content m p) \<le> max_count"
  shows "(\<forall>b \<in> set (map (formatted (pattern_fmt e now tid lg)) (sink_lines st lg k calls)). is_line b)
    \<and> (\<forall>p \<in> set (chain_slots (c_base_path s) (c_rotated_path s) max_files). line_count (content m' p) \<le> max_count)"
proof -
  have "\<forall>ln \<in> set (sink_lines st lg k calls). one_line (snd (snd ln))"
    using calls one_line_call_lines by (fastforce simp: sink_lines_def admitted_def)
  then have "\<forall>b \<in> set (map (formatted (pattern_fmt e now tid lg)) (sink_lines st lg k calls)). is_line b"
    using pattern_fmt_is_line [OF env name] by (auto simp: formatted_def)
  with log_calls_count_limit [OF assms(1-8) this assms(13)] show ?thesis by blast
qed

definition line_logger :: logger where
  "line_logger = \<lparr>lg_name = ''x'', lg_async = False,
     lg_sinks = [\<lparr>sk_level = Trace, sk_kind = CountRotating (make_count_sink ''app'' 1 2 False True)\<rparr>],
     lg_level = Trace, lg_flush_on = Trace, lg_pattern = ''[%H:%M:%S] %v''\<rparr>"

lemma pattern_lines_bound_messages_witness:
  "\<exists>st' m'. log_calls tz_utc_day (pattern_fmt clock_env (\<lambda>_. 0) 4 line_logger)
      [(1, Warn, ''a.cpp'', 7, ''f'', [MString ''one'']), (2, Err, ''a.cpp'', 8, ''f'', [MString ''two''])]
      (initial_state 0 Map.empty\<lparr>m_logger := Some line_logger\<rparr>, Map.empty) = Some (st', m')
    \<and> line_count (content m' (c_base_path (make_count_sink ''app'' 1 2 False True))) \<le> 1"
proof -
  let ?s = "make_count_sink ''app'' 1 2 False True" and ?st = "initial_state 0 Map.empty\<lparr>m_logger := Some line_logger\<rparr>"
  let ?calls = "[(1, Warn, ''a.cpp'', 7, ''f'', [MString ''one'']), (2, Err, ''a.cpp'', 8, ''f'', [MString ''two''])] :: log_call list"
  let ?fmt = "pattern_fmt clock_env (\<lambda>_. 0) 4 line_logger"
  obtain st' m' where r: "log_calls tz_utc_day ?fmt ?calls (?st, Map.empty) = Some (st', m')"
    by (cases "fold (write_line tz_utc_day ?fmt) (concat (map (call_lines (m_show ?st)) ?calls)) (line_logger, Map.empty)")
       (auto simp: log_calls_def)
  have lg: "m_logger ?st = Some line_logger" "lg_sinks line_logger = [] @ \<lparr>sk_level = Trace, sk_kind = CountRotating ?s\<rparr> # []"
    by (simp_all add: line_logger_def)
  have env: "one_line_env clock_env" by (simp add: one_line_env_def clock_env_def valid_tm_def tz_utc_day_def)
  have name: "one_line (lg_name line_logger)" "one_line (lg_pattern line_logger)" by (simp_all add: line_logger_def one_line_def)
  have calls: "\<forall>c \<in> set ?calls. one_line_call c" by (simp add: one_line_call_def one_line_def)
  have slots: "c_base_path ?s \<in> set (chain_slots (c_base_path ?s) (c_rotated_path ?s) 2)"
    by (simp add: chain_slots_def)
  have e: "line_count (content Map.empty p) = 0" for p by (simp add: content_def line_count_def newlines_def)
  from pattern_lines_bound_messages [OF lg _ _ refl _ _ r env name calls] slots r show ?thesis by (auto simp: e)
qed

end
