(* ===== verification/CurlText.thy ===== *)
theory CurlText
  imports Prelude
begin

text \<open>
  The text primitives of libcurl that its parsers and the HTTPS client share:
  character classes (\<open>lib/curl_ctype.h\<close>), locale-free case mapping and
  comparison (\<open>lib/strcase.c\<close>, \<open>lib/strequal.c\<close>), the cursor functions of
  \<open>lib/curlx/strparse.c\<close>.  A C string is a list of its bytes without the final
  zero; a cursor is the rest of the string.  Values are \<open>nat\<close>: the code checks
  every number against a maximum before it can exceed \<open>curl_off_t\<close>.
\<close>

section \<open>Character classes\<close>

definition cc :: "char \<Rightarrow> nat" where
  "cc c = of_char c"

definition is_lower :: "char \<Rightarrow> bool" where "is_lower c \<longleftrightarrow> 97 \<le> cc c \<and> cc c \<le> 122"
definition is_upper :: "char \<Rightarrow> bool" where "is_upper c \<longleftrightarrow> 65 \<le> cc c \<and> cc c \<le> 90"
definition is_alpha :: "char \<Rightarrow> bool" where "is_alpha c \<longleftrightarrow> is_lower c \<or> is_upper c"
definition is_alnum :: "char \<Rightarrow> bool" where "is_alnum c \<longleftrightarrow> is_digit c \<or> is_lower c \<or> is_upper c"
definition is_blank :: "char \<Rightarrow> bool" where "is_blank c \<longleftrightarrow> cc c = 32 \<or> cc c = 9"
definition is_newline :: "char \<Rightarrow> bool" where "is_newline c \<longleftrightarrow> cc c = 10 \<or> cc c = 13"

definition is_xdigit :: "char \<Rightarrow> bool" where
  "is_xdigit c \<longleftrightarrow> is_digit c \<or> (97 \<le> cc c \<and> cc c \<le> 102) \<or> (65 \<le> cc c \<and> cc c \<le> 70)"

definition is_urlpunct :: "char \<Rightarrow> bool" where
  "is_urlpunct c \<longleftrightarrow> c = CHR ''-'' \<or> c = CHR ''.'' \<or> c = CHR ''_'' \<or> c = CHR ''~''"

definition is_unreserved :: "char \<Rightarrow> bool" where
  "is_unreserved c \<longleftrightarrow> is_alnum c \<or> is_urlpunct c"

lemma cc_less [simp]: "cc c < 256"
  by (simp add: cc_def)

lemma cc_char_of [simp]: "n < 256 \<Longrightarrow> cc (char_of n) = n"
  by (simp add: cc_def)

lemma cc_inject: "cc c = cc d \<longleftrightarrow> c = d"
  by (simp add: cc_def)

lemma char_of_cc [simp]: "char_of (cc c) = c"
  by (simp add: cc_def)

section \<open>Case\<close>

definition raw_toupper :: "char \<Rightarrow> char" where
  "raw_toupper c = (if is_lower c then char_of (cc c - 32) else c)"

definition raw_tolower :: "char \<Rightarrow> char" where
  "raw_tolower c = (if is_upper c then char_of (cc c + 32) else c)"

text \<open>\<open>Curl_strntoupper\<close> and \<open>Curl_strntolower\<close>: what is written to the
  destination; the terminating zero is written when it is reached.\<close>

fun strnto :: "(char \<Rightarrow> char) \<Rightarrow> string \<Rightarrow> nat \<Rightarrow> string" where
  "strnto f s 0 = []"
| "strnto f [] (Suc n) = [f (CHR 0x00)]"
| "strnto f (c # cs) (Suc n) = f c # strnto f cs n"

definition strntoupper :: "string \<Rightarrow> nat \<Rightarrow> string" where
  "strntoupper s n = strnto raw_toupper s n"

definition strntolower :: "string \<Rightarrow> nat \<Rightarrow> string" where
  "strntolower s n = strnto raw_tolower s n"

fun casecompare :: "string \<Rightarrow> string \<Rightarrow> bool" where
  "casecompare [] second = (second = [])"
| "casecompare (a # first) [] = False"
| "casecompare (a # first) (b # second) =
     (if raw_toupper a \<noteq> raw_toupper b then False else casecompare first second)"

fun ncasecompare :: "string \<Rightarrow> string \<Rightarrow> nat \<Rightarrow> bool" where
  "ncasecompare first second 0 = True"
| "ncasecompare [] second (Suc n) = (second = [])"
| "ncasecompare (a # first) [] (Suc n) = False"
| "ncasecompare (a # first) (b # second) (Suc n) =
     (if raw_toupper a \<noteq> raw_toupper b then False else ncasecompare first second n)"

text \<open>A null pointer is \<open>None\<close>.\<close>

definition curl_strequal :: "string option \<Rightarrow> string option \<Rightarrow> bool" where
  "curl_strequal s1 s2 = (case (s1, s2) of
      (Some a, Some b) \<Rightarrow> casecompare a b
    | _ \<Rightarrow> s1 = None \<and> s2 = None)"

definition curl_strnequal :: "string option \<Rightarrow> string option \<Rightarrow> nat \<Rightarrow> bool" where
  "curl_strnequal s1 s2 n = (case (s1, s2) of
      (Some a, Some b) \<Rightarrow> ncasecompare a b n
    | _ \<Rightarrow> s1 = None \<and> s2 = None \<and> n \<noteq> 0)"

definition safecmp :: "string option \<Rightarrow> string option \<Rightarrow> bool" where
  "safecmp a b = (case (a, b) of (Some x, Some y) \<Rightarrow> x = y | _ \<Rightarrow> a = None \<and> b = None)"

text \<open>\<open>Curl_timestrcmp\<close>: the differences are collected over the common length and
  the terminating zero.\<close>

fun timestr_loop :: "nat \<Rightarrow> string \<Rightarrow> string \<Rightarrow> nat" where
  "timestr_loop m [] [] = m"
| "timestr_loop m (a # as) [] = m OR cc a"
| "timestr_loop m [] (b # bs) = m OR cc b"
| "timestr_loop m (a # as) (b # bs) = timestr_loop (m OR (cc a XOR cc b)) as bs"

definition timestrcmp :: "string option \<Rightarrow> string option \<Rightarrow> nat" where
  "timestrcmp a b = (case (a, b) of
      (Some x, Some y) \<Rightarrow> timestr_loop 0 x y
    | _ \<Rightarrow> if a \<noteq> None \<or> b \<noteq> None then 1 else 0)"

section \<open>Cursors\<close>

datatype strerr =
    STRE_BIG | STRE_SHORT | STRE_BEGQUOTE | STRE_ENDQUOTE | STRE_BYTE
  | STRE_NEWLINE | STRE_OVERFLOW | STRE_NO_NUM

text \<open>The scanning loop of \<open>curlx_str_until\<close> and \<open>curlx_str_untilnl\<close>: \<open>None\<close> when the
  word gets longer than \<open>mx\<close>.\<close>

fun word_loop :: "(char \<Rightarrow> bool) \<Rightarrow> nat \<Rightarrow> nat \<Rightarrow> string \<Rightarrow> (nat \<times> string) option" where
  "word_loop stop mx len [] = Some (len, [])"
| "word_loop stop mx len (c # cs) =
     (if stop c then Some (len, c # cs)
      else if len + 1 > mx then None else word_loop stop mx (len + 1) cs)"

definition take_word :: "(char \<Rightarrow> bool) \<Rightarrow> nat \<Rightarrow> string \<Rightarrow> strerr + string \<times> string" where
  "take_word stop mx s = (case word_loop stop mx 0 s of
      None \<Rightarrow> Inl STRE_BIG
    | Some (len, rest) \<Rightarrow> if len = 0 then Inl STRE_SHORT else Inr (take len s, rest))"

definition str_until :: "string \<Rightarrow> nat \<Rightarrow> char \<Rightarrow> strerr + string \<times> string" where
  "str_until s mx delim = take_word (\<lambda>c. c = delim) mx s"

definition str_word :: "string \<Rightarrow> nat \<Rightarrow> strerr + string \<times> string" where
  "str_word s mx = str_until s mx (CHR '' '')"

definition str_untilnl :: "string \<Rightarrow> nat \<Rightarrow> strerr + string \<times> string" where
  "str_untilnl s mx = take_word is_newline mx s"

text \<open>The loop of \<open>curlx_str_quotedword\<close>: the length so far, the rest.\<close>

fun quoted_loop :: "nat \<Rightarrow> nat \<Rightarrow> string \<Rightarrow> (nat \<times> string) option" where
  "quoted_loop mx len [] = Some (len, [])"
| "quoted_loop mx len (c # cs) =
     (if c = CHR 0x22 then Some (len, c # cs)
      else if c = CHR 0x5C \<and> cs \<noteq> [] then
        (if len + 1 > mx then None
         else if len + 2 > mx then None else quoted_loop mx (len + 2) (tl cs))
      else if len + 1 > mx then None else quoted_loop mx (len + 1) cs)"

definition str_quotedword :: "string \<Rightarrow> nat \<Rightarrow> strerr + string \<times> string" where
  "str_quotedword s mx = (case s of
      [] \<Rightarrow> Inl STRE_BEGQUOTE
    | c # cs \<Rightarrow>
        if c \<noteq> CHR 0x22 then Inl STRE_BEGQUOTE
        else (case quoted_loop mx 0 cs of
            None \<Rightarrow> Inl STRE_BIG
          | Some (len, rest) \<Rightarrow> (case rest of
                [] \<Rightarrow> Inl STRE_ENDQUOTE
              | _ # rest' \<Rightarrow> Inr (take len cs, rest'))))"

definition str_single :: "string \<Rightarrow> char \<Rightarrow> strerr + string" where
  "str_single s b = (case s of
      c # cs \<Rightarrow> if c \<noteq> b then Inl STRE_BYTE else Inr cs
    | [] \<Rightarrow> Inl STRE_BYTE)"

definition str_singlespace :: "string \<Rightarrow> strerr + string" where
  "str_singlespace s = str_single s (CHR '' '')"

definition str_newline :: "string \<Rightarrow> strerr + string" where
  "str_newline s = (case s of
      c # cs \<Rightarrow> if is_newline c then Inr cs else Inl STRE_NEWLINE
    | [] \<Rightarrow> Inl STRE_NEWLINE)"

section \<open>Numbers\<close>

text \<open>\<open>curlx_hexasciitable\<close>, from the character 0 on; 16 stands for the digit 0.\<close>

definition hexasciitable :: "nat list" where
  "hexasciitable =
     [16, 1, 2, 3, 4, 5, 6, 7, 8, 9,
      0, 0, 0, 0, 0, 0, 0,
      10, 11, 12, 13, 14, 15,
      0, 0, 0, 0, 0, 0, 0, 0, 0, 0, 0, 0, 0, 0, 0, 0, 0, 0, 0, 0, 0, 0, 0, 0, 0, 0,
      10, 11, 12, 13, 14, 15]"

definition valid_digit :: "char \<Rightarrow> char \<Rightarrow> bool" where
  "valid_digit x m \<longleftrightarrow> 48 \<le> cc x \<and> cc x \<le> cc m \<and> hexasciitable ! (cc x - 48) \<noteq> 0"

definition hexval :: "char \<Rightarrow> nat" where
  "hexval c = (hexasciitable ! (cc c - 48)) AND 15"

definition largest_digit :: "nat \<Rightarrow> char" where
  "largest_digit base = (if base = 10 then CHR ''9'' else if base = 16 then CHR ''f'' else CHR ''7'')"

text \<open>The two loops of \<open>str_num_base\<close>; the caller has checked that the first
  character is a digit.\<close>

fun num_loop_low :: "nat \<Rightarrow> nat \<Rightarrow> nat \<Rightarrow> string \<Rightarrow> strerr + nat \<times> string" where
  "num_loop_low base mx num [] = Inr (num, [])"
| "num_loop_low base mx num (c # cs) =
     (if valid_digit c (largest_digit base) then
        (let num = num * base + hexval c
         in if num > mx then Inl STRE_OVERFLOW else num_loop_low base mx num cs)
      else Inr (num, c # cs))"

fun num_loop :: "nat \<Rightarrow> nat \<Rightarrow> nat \<Rightarrow> string \<Rightarrow> strerr + nat \<times> string" where
  "num_loop base mx num [] = Inr (num, [])"
| "num_loop base mx num (c # cs) =
     (if valid_digit c (largest_digit base) then
        (let n = hexval c
         in if num > (mx - n) div base then Inl STRE_OVERFLOW
            else num_loop base mx (num * base + n) cs)
      else Inr (num, c # cs))"

definition str_num_base :: "string \<Rightarrow> nat \<Rightarrow> nat \<Rightarrow> strerr + nat \<times> string" where
  "str_num_base s mx base = (case s of
      [] \<Rightarrow> Inl STRE_NO_NUM
    | c # _ \<Rightarrow>
        if \<not> valid_digit c (largest_digit base) then Inl STRE_NO_NUM
        else if mx < base then num_loop_low base mx 0 s
        else num_loop base mx 0 s)"

definition str_number :: "string \<Rightarrow> nat \<Rightarrow> strerr + nat \<times> string" where
  "str_number s mx = str_num_base s mx 10"

definition str_hex :: "string \<Rightarrow> nat \<Rightarrow> strerr + nat \<times> string" where
  "str_hex s mx = str_num_base s mx 16"

definition str_octal :: "string \<Rightarrow> nat \<Rightarrow> strerr + nat \<times> string" where
  "str_octal s mx = str_num_base s mx 8"

definition curl_off_t_max :: nat where
  "curl_off_t_max = 2 ^ 63 - 1"

definition str_passblanks :: "string \<Rightarrow> string" where
  "str_passblanks s = dropWhile is_blank s"

definition str_numblanks :: "string \<Rightarrow> strerr + nat \<times> string" where
  "str_numblanks s = str_number (str_passblanks s) curl_off_t_max"

section \<open>Parsed strings\<close>

definition str_casecompare :: "string \<Rightarrow> string option \<Rightarrow> bool" where
  "str_casecompare s check =
     (let clen = (case check of None \<Rightarrow> 0 | Some c \<Rightarrow> length c)
      in length s = clen \<and> curl_strnequal (Some s) check clen)"

definition str_cmp :: "string \<Rightarrow> string option \<Rightarrow> bool" where
  "str_cmp s check = (case check of Some c \<Rightarrow> s = c | None \<Rightarrow> s \<noteq> [])"

definition str_nudge :: "string \<Rightarrow> nat \<Rightarrow> strerr + string" where
  "str_nudge s num = (if num \<le> length s then Inr (drop num s) else Inl STRE_OVERFLOW)"

definition str_cspn :: "string \<Rightarrow> string \<Rightarrow> strerr + string \<times> string" where
  "str_cspn s reject =
     (let w = takeWhile (\<lambda>c. c \<notin> set reject) s
      in if w = [] then Inl STRE_SHORT else Inr (w, drop (length w) s))"

definition str_trimblanks :: "string \<Rightarrow> string" where
  "str_trimblanks s = rev (dropWhile is_blank (rev (dropWhile is_blank s)))"

definition str_trim :: "string \<Rightarrow> nat \<Rightarrow> string" where
  "str_trim s len = take (length s - len) s"

section \<open>Comparison\<close>

lemma casecompare_map: "casecompare a b \<longleftrightarrow> map raw_toupper a = map raw_toupper b"
  by (induction a b rule: casecompare.induct) auto

lemma ncasecompare_map: "ncasecompare a b n \<longleftrightarrow> map raw_toupper (take n a) = map raw_toupper (take n b)"
  by (induction a b n rule: ncasecompare.induct) auto

lemma timestr_loop_mono: "timestr_loop m a b = 0 \<Longrightarrow> m = 0"
  by (induction m a b rule: timestr_loop.induct) (auto simp: or_eq_0_iff)

lemma nat_xor_eq_0: "(a :: nat) XOR b = 0 \<longleftrightarrow> a = b"
proof
  assume "a XOR b = 0"
  then have "(a XOR b) XOR b = b" by simp
  then show "a = b" by (simp add: xor.assoc)
qed simp

lemma timestr_loop_zero:
  "CHR 0x00 \<notin> set a \<Longrightarrow> CHR 0x00 \<notin> set b \<Longrightarrow> timestr_loop m a b = 0 \<longleftrightarrow> m = 0 \<and> a = b"
proof (induction m a b rule: timestr_loop.induct)
  case (2 m a as)
  then have "cc a \<noteq> 0" using cc_inject [of a "CHR 0x00"] by (auto simp: cc_def)
  then show ?case by (simp add: or_eq_0_iff)
next
  case (3 m b bs)
  then have "cc b \<noteq> 0" using cc_inject [of b "CHR 0x00"] by (auto simp: cc_def)
  then show ?case by (simp add: or_eq_0_iff)
qed (auto simp: or_eq_0_iff nat_xor_eq_0 cc_inject)

section \<open>Numbers: the digits are read exactly\<close>

definition digits_val :: "nat \<Rightarrow> nat \<Rightarrow> string \<Rightarrow> nat" where
  "digits_val base acc s = foldl (\<lambda>a c. a * base + hexval c) acc s"

lemma digits_val_simps [simp]:
  "digits_val base acc [] = acc"
  "digits_val base acc (c # cs) = digits_val base (acc * base + hexval c) cs"
  by (simp_all add: digits_val_def)

lemma digits_val_mono: "1 \<le> base \<Longrightarrow> acc \<le> digits_val base acc s"
proof (induction s arbitrary: acc)
  case (Cons c cs)
  have "acc \<le> acc * base + hexval c" using Cons.prems by (simp add: trans_le_add1)
  also have "\<dots> \<le> digits_val base acc (c # cs)" using Cons by simp
  finally show ?case .
qed simp

text \<open>A digit of the base has a value below it.\<close>

lemma hexval_decimal:
  assumes "48 \<le> cc c" and "cc c \<le> 57"
  shows "hexval c = cc c - 48"
proof -
  have "list_all (\<lambda>k. hexasciitable ! k AND 15 = k) [0..<10]" by code_simp
  moreover have "cc c - 48 < 10" using assms by simp
  ultimately show ?thesis by (simp add: list_all_iff hexval_def)
qed

lemma hexval_less:
  assumes "base \<in> {8, 10, 16}" and "valid_digit c (largest_digit base)"
  shows "hexval c < base"
proof (cases "base = 16")
  case True
  have "hexval c = take_bit 4 (hexasciitable ! (cc c - 48))"
    by (simp add: hexval_def take_bit_eq_mask mask_eq_exp_minus_1)
  then show ?thesis using True take_bit_nat_less_exp [of 4] by simp
next
  case False
  then have *: "base = 8 \<and> largest_digit base = CHR ''7'' \<or> base = 10 \<and> largest_digit base = CHR ''9''"
    using assms(1) by (auto simp: largest_digit_def)
  then have "48 \<le> cc c" "cc c \<le> 57" "cc c < 48 + base"
    using assms(2) by (auto simp: valid_digit_def cc_def)
  then show ?thesis using hexval_decimal [of c] by simp
qed

definition base_digit_of :: "nat \<Rightarrow> char \<Rightarrow> bool" where
  "base_digit_of base c \<longleftrightarrow> valid_digit c (largest_digit base)"

lemma num_loop_low_eq:
  assumes "1 \<le> base" and "num \<le> mx"
  shows "num_loop_low base mx num s =
    (let v = digits_val base num (takeWhile (base_digit_of base) s)
     in if v > mx then Inl STRE_OVERFLOW else Inr (v, dropWhile (base_digit_of base) s))"
  using assms(2)
proof (induction s arbitrary: num)
  case (Cons c cs)
  show ?case
  proof (cases "base_digit_of base c \<and> num * base + hexval c > mx")
    case True
    then show ?thesis
      using digits_val_mono [OF assms(1), of "num * base + hexval c" "takeWhile (base_digit_of base) cs"]
      by (auto simp flip: base_digit_of_def)
  next
    case False
    then show ?thesis using Cons by (auto simp: Let_def simp flip: base_digit_of_def)
  qed
qed simp

lemma num_loop_eq:
  assumes "base \<in> {8, 10, 16}" and "base \<le> mx" and "num \<le> mx"
  shows "num_loop base mx num s =
    (let v = digits_val base num (takeWhile (base_digit_of base) s)
     in if v > mx then Inl STRE_OVERFLOW else Inr (v, dropWhile (base_digit_of base) s))"
  using assms(3)
proof (induction s arbitrary: num)
  case (Cons c cs)
  have base: "0 < base" using assms(1) by auto
  have iff: "num > (mx - hexval c) div base \<longleftrightarrow> num * base + hexval c > mx" if "base_digit_of base c"
  proof -
    have "hexval c \<le> mx"
      using hexval_less [OF assms(1), of c] that assms(2) by (simp add: base_digit_of_def)
    then show ?thesis
      using base by (simp add: div_less_iff_less_mult) linarith
  qed
  show ?case
  proof (cases "base_digit_of base c \<and> num * base + hexval c > mx")
    case True
    then show ?thesis
      using iff digits_val_mono [of base "num * base + hexval c" "takeWhile (base_digit_of base) cs"] base
      by (auto simp: Let_def simp flip: base_digit_of_def)
  next
    case False
    then show ?thesis using Cons iff by (auto simp: Let_def simp flip: base_digit_of_def)
  qed
qed simp

text \<open>
  Reading a number in base 8, 10 or 16 takes all the digits there are, as many
  as they may be: without one it reports \<open>STRE_NO_NUM\<close>, it reports an overflow
  exactly when their value exceeds the maximum, and otherwise returns the value and
  the rest.  Both loops of the code agree on this, and the intermediate values stay
  below the maximum.
\<close>
theorem str_num_base_exact:
  assumes "base \<in> {8, 10, 16}"
  shows "str_num_base s mx base =
    (let ds = takeWhile (base_digit_of base) s; v = digits_val base 0 ds
     in if ds = [] then Inl STRE_NO_NUM
        else if v > mx then Inl STRE_OVERFLOW
        else Inr (v, dropWhile (base_digit_of base) s))"
proof (cases s)
  case Nil
  then show ?thesis by (simp add: str_num_base_def)
next
  case (Cons c cs)
  have "1 \<le> base" using assms by auto
  then show ?thesis
    using num_loop_low_eq [of base 0 mx s] num_loop_eq [OF assms, of mx 0 s]
    by (auto simp: Cons str_num_base_def base_digit_of_def [symmetric] Let_def
        simp del: num_loop.simps num_loop_low.simps)
qed

theorem str_num_base_exact_witness:
  "str_num_base ''65536x'' 65535 10 = Inl STRE_OVERFLOW"
proof -
  have "takeWhile (base_digit_of 10) ''65536x'' = ''65536''"
    by (simp add: base_digit_of_def valid_digit_def largest_digit_def cc_def hexasciitable_def)
  moreover have "digits_val 10 0 ''65536'' = 65536"
    by (simp add: hexval_decimal cc_def)
  ultimately show ?thesis using str_num_base_exact [of 10 "''65536x''" 65535] by simp
qed

text \<open>
  The comparisons are what they promise, on strings without zero bytes:
  \<open>curl_strequal\<close> and \<open>curl_strnequal\<close> compare up to the case of ASCII letters,
  the latter at most \<open>n\<close> characters, and the constant-time comparison returns 0
  exactly for equal strings.
\<close>
theorem string_comparisons:
  assumes "CHR 0x00 \<notin> set a" and "CHR 0x00 \<notin> set b"
  shows "(curl_strequal (Some a) (Some b) \<longleftrightarrow> map raw_toupper a = map raw_toupper b)
    \<and> (curl_strnequal (Some a) (Some b) n \<longleftrightarrow>
         map raw_toupper (take n a) = map raw_toupper (take n b))
    \<and> (timestrcmp (Some a) (Some b) = 0 \<longleftrightarrow> a = b)
    \<and> (timestrcmp None (Some b) \<noteq> 0 \<and> timestrcmp (Some a) None \<noteq> 0 \<and> timestrcmp None None = 0)"
  using timestr_loop_zero [OF assms, of 0]
  by (simp add: curl_strequal_def curl_strnequal_def casecompare_map ncasecompare_map timestrcmp_def)

theorem string_comparisons_witness:
  "curl_strequal (Some ''Content-Type'') (Some ''content-TYPE'')"
proof -
  have "map raw_toupper ''Content-Type'' = map raw_toupper ''content-TYPE''" by code_simp
  then show ?thesis using string_comparisons [of "''Content-Type''" "''content-TYPE''"] by simp
qed

end
