(* ===== verification/CurlBuffer.thy ===== *)
theory CurlBuffer
  imports CurlText
begin

text \<open>
  libcurl's growing buffer (\<open>lib/curlx/dynbuf.c\<close>), its string lists
  (\<open>lib/slist.c\<close>) and URL escaping (\<open>lib/escape.c\<close>), which the HTTPS client calls
  for headers and form bodies.  \<open>mem n\<close> tells whether an allocation of \<open>n\<close> bytes
  succeeds.  A buffer is its content, the size of its allocation and its limit;
  the zero after the content is not part of it.
\<close>

section \<open>Result codes\<close>

datatype curle =
    CURLE_OK | CURLE_FAILED_INIT | CURLE_URL_MALFORMAT | CURLE_OUT_OF_MEMORY
  | CURLE_BAD_FUNCTION_ARGUMENT | CURLE_BAD_CONTENT_ENCODING | CURLE_TOO_LARGE | CURLE_AGAIN
  | CURLE_WRITE_ERROR | CURLE_RECV_ERROR | CURLE_SEND_ERROR | CURLE_WEIRD_SERVER_REPLY
  | CURLE_PARTIAL_FILE | CURLE_READ_ERROR | CURLE_ABORTED_BY_CALLBACK

section \<open>The growing buffer\<close>

record dynbuf =
  db_data :: string
  db_allc :: nat
  db_toobig :: nat

definition dyn_init :: "nat \<Rightarrow> dynbuf" where
  "dyn_init toobig = \<lparr> db_data = [], db_allc = 0, db_toobig = toobig \<rparr>"

definition dyn_free :: "dynbuf \<Rightarrow> dynbuf" where
  "dyn_free s = s\<lparr> db_data := [], db_allc := 0 \<rparr>"

definition min_first_alloc :: nat where
  "min_first_alloc = 32"

text \<open>The loop \<open>while(a < fit) a *= 2\<close>; the code enters it with \<open>a > 0\<close>.\<close>

function grow :: "nat \<Rightarrow> nat \<Rightarrow> nat" where
  "grow fit a = (if a = 0 \<or> fit \<le> a then a else grow fit (a * 2))"
  by pat_completeness auto
termination by (relation "measure (\<lambda>(fit, a). fit - a)") auto

declare grow.simps [simp del]

definition dyn_alloc :: "dynbuf \<Rightarrow> nat \<Rightarrow> nat" where
  "dyn_alloc s fit =
     (if db_allc s = 0 then
        (if min_first_alloc > db_toobig s then db_toobig s
         else if fit < min_first_alloc then min_first_alloc else fit)
      else (let a = grow fit (db_allc s) in if a > db_toobig s then db_toobig s else a))"

definition dyn_nappend :: "(nat \<Rightarrow> bool) \<Rightarrow> dynbuf \<Rightarrow> string \<Rightarrow> curle \<times> dynbuf" where
  "dyn_nappend mem s bytes =
     (let fit = length bytes + length (db_data s) + 1
      in if fit > db_toobig s then (CURLE_TOO_LARGE, dyn_free s)
         else (let a = dyn_alloc s fit
               in if a \<noteq> db_allc s \<and> \<not> mem a then (CURLE_OUT_OF_MEMORY, dyn_free s)
                  else (CURLE_OK, s\<lparr> db_data := db_data s @ bytes, db_allc := a \<rparr>)))"

definition dyn_addn :: "(nat \<Rightarrow> bool) \<Rightarrow> dynbuf \<Rightarrow> string \<Rightarrow> nat \<Rightarrow> curle \<times> dynbuf" where
  "dyn_addn mem s bytes n = dyn_nappend mem s (take n bytes)"

text \<open>\<open>curlx_dyn_add\<close> appends a C string: up to the first zero byte.\<close>

definition c_string :: "string \<Rightarrow> string" where
  "c_string s = takeWhile (\<lambda>c. c \<noteq> CHR 0x00) s"

definition dyn_add :: "(nat \<Rightarrow> bool) \<Rightarrow> dynbuf \<Rightarrow> string \<Rightarrow> curle \<times> dynbuf" where
  "dyn_add mem s str = dyn_nappend mem s (c_string str)"

definition dyn_reset :: "dynbuf \<Rightarrow> dynbuf" where
  "dyn_reset s = s\<lparr> db_data := [] \<rparr>"

definition dyn_tail :: "dynbuf \<Rightarrow> nat \<Rightarrow> curle \<times> dynbuf" where
  "dyn_tail s trail =
     (if trail > length (db_data s) then (CURLE_BAD_FUNCTION_ARGUMENT, s)
      else if trail = length (db_data s) then (CURLE_OK, s)
      else if trail = 0 then (CURLE_OK, dyn_reset s)
      else (CURLE_OK, s\<lparr> db_data := drop (length (db_data s) - trail) (db_data s) \<rparr>))"

definition dyn_setlen :: "dynbuf \<Rightarrow> nat \<Rightarrow> curle \<times> dynbuf" where
  "dyn_setlen s n =
     (if n > length (db_data s) then (CURLE_BAD_FUNCTION_ARGUMENT, s)
      else (CURLE_OK, s\<lparr> db_data := take n (db_data s) \<rparr>))"

text \<open>\<open>curlx_dyn_ptr\<close>: a null pointer before the first append.\<close>

definition dyn_ptr :: "dynbuf \<Rightarrow> string option" where
  "dyn_ptr s = (if db_allc s = 0 then None else Some (db_data s))"

definition dyn_len :: "dynbuf \<Rightarrow> nat" where
  "dyn_len s = length (db_data s)"

definition dyn_take :: "dynbuf \<Rightarrow> string option \<times> nat \<times> dynbuf" where
  "dyn_take s = (dyn_ptr s, dyn_len s, dyn_free s)"

section \<open>String lists\<close>

text \<open>\<open>NULL\<close> is the empty list.  An append that finds no memory returns \<open>NULL\<close>: the
  caller that assigns the result loses the list.\<close>

definition slist_node_size :: nat where
  "slist_node_size = 16"

definition slist_get_last :: "string list \<Rightarrow> string option" where
  "slist_get_last l = (if l = [] then None else Some (last l))"

definition slist_append_nodup :: "(nat \<Rightarrow> bool) \<Rightarrow> string list \<Rightarrow> string \<Rightarrow> string list" where
  "slist_append_nodup mem l data = (if \<not> mem slist_node_size then [] else l @ [data])"

definition slist_append :: "(nat \<Rightarrow> bool) \<Rightarrow> string list \<Rightarrow> string \<Rightarrow> string list" where
  "slist_append mem l data =
     (let d = c_string data
      in if \<not> mem (length d + 1) then [] else slist_append_nodup mem l d)"

fun slist_duplicate_loop :: "(nat \<Rightarrow> bool) \<Rightarrow> string list \<Rightarrow> string list \<Rightarrow> string list" where
  "slist_duplicate_loop mem out [] = out"
| "slist_duplicate_loop mem out (d # ds) =
     (let tmp = slist_append mem out d
      in if tmp = [] then [] else slist_duplicate_loop mem tmp ds)"

definition slist_duplicate :: "(nat \<Rightarrow> bool) \<Rightarrow> string list \<Rightarrow> string list" where
  "slist_duplicate mem l = slist_duplicate_loop mem [] l"

section \<open>Escaping\<close>

definition udigits :: string where "udigits = ''0123456789ABCDEF''"
definition ldigits :: string where "ldigits = ''0123456789abcdef''"

definition hexbyte :: "char \<Rightarrow> string" where
  "hexbyte c = [udigits ! (cc c div 16), udigits ! (cc c mod 16)]"

definition escape_char :: "char \<Rightarrow> string" where
  "escape_char c = (if is_unreserved c then [c] else CHR ''%'' # hexbyte c)"

fun escape_loop :: "(nat \<Rightarrow> bool) \<Rightarrow> dynbuf \<Rightarrow> string \<Rightarrow> string option" where
  "escape_loop mem d [] = dyn_ptr d"
| "escape_loop mem d (c # cs) =
     (case dyn_nappend mem d (escape_char c) of
        (CURLE_OK, d') \<Rightarrow> escape_loop mem d' cs
      | _ \<Rightarrow> None)"

definition size_max :: nat where
  "size_max = 2 ^ 64 - 1"

text \<open>The memory behind the pointer is \<open>s\<close> and a zero byte; a length of 0 means up to
  the first zero.\<close>

definition curl_easy_escape :: "(nat \<Rightarrow> bool) \<Rightarrow> string \<Rightarrow> int \<Rightarrow> string option" where
  "curl_easy_escape mem s len =
     (if len < 0 then None
      else let bytes = (if len = 0 then c_string s else take (nat len) s)
           in if bytes = [] then (if mem 1 then Some [] else None)
              else if length bytes > size_max div 16 then None
              else escape_loop mem (dyn_init (length bytes * 3 + 1)) bytes)"

datatype urlreject = REJECT_NADA | REJECT_CTRL | REJECT_ZERO

definition rejected :: "urlreject \<Rightarrow> char \<Rightarrow> bool" where
  "rejected ctrl c \<longleftrightarrow> (ctrl = REJECT_CTRL \<and> cc c < 32) \<or> (ctrl = REJECT_ZERO \<and> cc c = 0)"

definition hex_pair :: "char \<Rightarrow> char \<Rightarrow> char" where
  "hex_pair h l = char_of ((hexval h * 16 + hexval l) mod 256)"

fun urldecode_loop :: "urlreject \<Rightarrow> string \<Rightarrow> curle + string" where
  "urldecode_loop ctrl [] = Inr []"
| "urldecode_loop ctrl (c # cs) =
     (if c = CHR ''%'' \<and> length cs > 1 \<and> is_xdigit (cs ! 0) \<and> is_xdigit (cs ! 1) then
        (let v = hex_pair (cs ! 0) (cs ! 1)
         in if rejected ctrl v then Inl CURLE_URL_MALFORMAT
            else rbind (urldecode_loop ctrl (drop 2 cs)) (\<lambda>r. Inr (v # r)))
      else if rejected ctrl c then Inl CURLE_URL_MALFORMAT
      else rbind (urldecode_loop ctrl cs) (\<lambda>r. Inr (c # r)))"

definition curl_urldecode :: "(nat \<Rightarrow> bool) \<Rightarrow> string \<Rightarrow> nat \<Rightarrow> urlreject \<Rightarrow> curle + string" where
  "curl_urldecode mem s len ctrl =
     (let bytes = (if len = 0 then c_string s else take len s)
      in if \<not> mem (length bytes + 1) then Inl CURLE_OUT_OF_MEMORY
         else urldecode_loop ctrl bytes)"

definition curl_easy_unescape :: "(nat \<Rightarrow> bool) \<Rightarrow> string \<Rightarrow> int \<Rightarrow> string option" where
  "curl_easy_unescape mem s inlength =
     (if inlength < 0 then None
      else case curl_urldecode mem s (nat inlength) REJECT_NADA of
        Inl _ \<Rightarrow> None
      | Inr r \<Rightarrow> if length r \<le> 2 ^ 31 - 1 then Some r else None)"

text \<open>\<open>Curl_hexencode\<close>: two digits per byte while they fit before the zero.\<close>

fun hexencode_loop :: "string \<Rightarrow> nat \<Rightarrow> string" where
  "hexencode_loop [] olen = []"
| "hexencode_loop (c # cs) olen =
     (if olen \<ge> 3
      then ldigits ! (cc c div 16) # ldigits ! (cc c mod 16) # hexencode_loop cs (olen - 2)
      else [])"

definition hexencode :: "string \<Rightarrow> nat \<Rightarrow> string" where
  "hexencode src olen = (if src \<noteq> [] \<and> olen \<ge> 3 then hexencode_loop src olen else [])"

section \<open>The buffer keeps within its limit\<close>

definition dyn_ok :: "dynbuf \<Rightarrow> bool" where
  "dyn_ok s \<longleftrightarrow> 0 < db_toobig s \<and> db_allc s \<le> db_toobig s
     \<and> (if db_allc s = 0 then db_data s = [] else length (db_data s) < db_allc s)"

lemma grow_ge: "0 < a \<Longrightarrow> fit \<le> grow fit a"
  by (induction fit a rule: grow.induct) (subst grow.simps, auto)

lemma grow_pos: "0 < a \<Longrightarrow> a \<le> grow fit a"
proof (induction fit a rule: grow.induct)
  case (1 fit a)
  then show ?case by (subst grow.simps) fastforce
qed

lemma dyn_alloc_bounds:
  assumes "dyn_ok s" and "fit \<le> db_toobig s" and "0 < fit"
  shows "fit \<le> dyn_alloc s fit" and "dyn_alloc s fit \<le> db_toobig s"
  using assms grow_ge [of "db_allc s" fit]
  by (auto simp: dyn_alloc_def dyn_ok_def min_first_alloc_def Let_def)

text \<open>
  Appending to a well-formed buffer leaves it well formed, with the same limit.
  It succeeds exactly when the content and its terminating zero fit the limit and
  the allocation, when one is needed, succeeds; then the content is extended and
  the allocation holds it without exceeding the limit.  Otherwise the error says
  which of the two failed and the buffer is emptied.
\<close>
theorem dynbuf_append:
  assumes "dyn_ok s" and "dyn_nappend mem s bytes = (r, s')"
  shows "dyn_ok s' \<and> db_toobig s' = db_toobig s
    \<and> (let fit = length bytes + length (db_data s) + 1; a = dyn_alloc s fit
       in r = (if fit > db_toobig s then CURLE_TOO_LARGE
               else if a = db_allc s \<or> mem a then CURLE_OK else CURLE_OUT_OF_MEMORY))
    \<and> (if r = CURLE_OK
       then db_data s' = db_data s @ bytes \<and> length (db_data s') < db_allc s' \<and> db_allc s' \<le> db_toobig s'
       else db_data s' = [] \<and> db_allc s' = 0)"
  using assms dyn_alloc_bounds [OF assms(1), of "length bytes + length (db_data s) + 1"]
  by (auto simp: dyn_nappend_def dyn_free_def dyn_ok_def Let_def split: if_splits)

theorem dynbuf_append_witness:
  "\<exists>s. dyn_nappend (\<lambda>n. n = 32) (dyn_init 40) ''GET'' = (CURLE_OK, s) \<and> dyn_ok s"
proof -
  obtain r s where rs: "dyn_nappend (\<lambda>n. n = 32) (dyn_init 40) ''GET'' = (r, s)" by fastforce
  have "dyn_ok (dyn_init 40)" by (simp add: dyn_ok_def dyn_init_def)
  from dynbuf_append [OF this rs] have "dyn_ok s" "r = CURLE_OK"
    by (simp_all add: dyn_init_def dyn_alloc_def min_first_alloc_def)
  with rs show ?thesis by blast
qed

lemma dyn_nappend_total:
  assumes "dyn_ok s" and "\<And>n. mem n" and "length bytes + length (db_data s) + 1 \<le> db_toobig s"
  obtains s' where "dyn_nappend mem s bytes = (CURLE_OK, s')" and "dyn_ok s'" and "db_allc s' \<noteq> 0"
    and "db_data s' = db_data s @ bytes" and "db_toobig s' = db_toobig s"
proof -
  let ?a = "dyn_alloc s (length bytes + length (db_data s) + 1)"
  have "dyn_nappend mem s bytes = (CURLE_OK, s\<lparr>db_data := db_data s @ bytes, db_allc := ?a\<rparr>)"
    using assms(2,3) by (auto simp: dyn_nappend_def Let_def)
  moreover have "dyn_ok (s\<lparr>db_data := db_data s @ bytes, db_allc := ?a\<rparr>)" "?a \<noteq> 0"
    using dyn_alloc_bounds [OF assms(1,3)] assms(1) by (auto simp: dyn_ok_def)
  ultimately show thesis
    by (intro that [of "s\<lparr>db_data := db_data s @ bytes, db_allc := ?a\<rparr>"]) simp_all
qed

section \<open>Escaping and decoding\<close>

lemma length_escape_char: "length (escape_char c) \<le> 3"
  by (simp add: escape_char_def hexbyte_def)

lemma escape_loop_total:
  assumes "\<And>n. mem n"
  shows "dyn_ok d \<Longrightarrow> length (db_data d) + 3 * length cs + 1 \<le> db_toobig d \<Longrightarrow>
    cs \<noteq> [] \<or> db_allc d \<noteq> 0 \<Longrightarrow>
    escape_loop mem d cs = Some (db_data d @ concat (map escape_char cs))"
proof (induction cs arbitrary: d)
  case Nil
  then show ?case by (simp add: dyn_ptr_def)
next
  case (Cons c cs)
  have fits: "length (escape_char c) + length (db_data d) + 1 \<le> db_toobig d"
    using Cons.prems(2) length_escape_char [of c] by simp
  obtain d' where d': "dyn_nappend mem d (escape_char c) = (CURLE_OK, d')" "dyn_ok d'" "db_allc d' \<noteq> 0"
      "db_data d' = db_data d @ escape_char c" "db_toobig d' = db_toobig d"
    by (rule dyn_nappend_total [OF Cons.prems(1) assms fits]) (rule that)
  have "length (db_data d') + 3 * length cs + 1 \<le> db_toobig d'"
    using Cons.prems(2) length_escape_char [of c] by (simp add: d'(4,5))
  then have "escape_loop mem d' cs = Some (db_data d' @ concat (map escape_char cs))"
    using d'(2,3) by (intro Cons.IH) auto
  then show ?case by (simp add: d'(1,4))
qed

lemma udigits_ok: "k < 16 \<Longrightarrow> is_xdigit (udigits ! k) \<and> hexval (udigits ! k) = k"
proof -
  have "list_all (\<lambda>k. is_xdigit (udigits ! k) \<and> hexval (udigits ! k) = k) [0..<16]" by code_simp
  then show "k < 16 \<Longrightarrow> ?thesis" by (simp add: list_all_iff)
qed

lemma percent_reserved: "\<not> is_unreserved (CHR ''%'')"
  by (simp add: is_unreserved_def is_alnum_def is_digit_def is_lower_def is_upper_def is_urlpunct_def
      cc_def)

lemma urldecode_escape_char:
  "urldecode_loop REJECT_NADA (escape_char c @ s) = rbind (urldecode_loop REJECT_NADA s) (\<lambda>r. Inr (c # r))"
proof (cases "is_unreserved c")
  case True
  then have "c \<noteq> CHR ''%''" using percent_reserved by auto
  with True show ?thesis by (simp add: escape_char_def rejected_def)
next
  case False
  have "cc c div 16 < 16" using cc_less [of c] by linarith
  moreover have "hex_pair (udigits ! (cc c div 16)) (udigits ! (cc c mod 16)) = c"
    using udigits_ok [of "cc c div 16"] udigits_ok [of "cc c mod 16"] \<open>cc c div 16 < 16\<close>
    by (simp add: hex_pair_def)
  ultimately show ?thesis
    using False udigits_ok by (simp add: escape_char_def hexbyte_def rejected_def)
qed

lemma urldecode_escape: "urldecode_loop REJECT_NADA (concat (map escape_char s)) = Inr s"
  by (induction s) (simp_all add: urldecode_escape_char)

lemma escape_charset: "c \<in> set (escape_char d) \<Longrightarrow> is_unreserved c \<or> c = CHR ''%''"
proof -
  have "list_all (\<lambda>k. is_unreserved (udigits ! k)) [0..<16]" by code_simp
  then have "k < 16 \<Longrightarrow> is_unreserved (udigits ! k)" for k by (simp add: list_all_iff)
  moreover have "cc d div 16 < 16" using cc_less [of d] by linarith
  ultimately show "c \<in> set (escape_char d) \<Longrightarrow> ?thesis"
    by (auto simp: escape_char_def hexbyte_def split: if_splits)
qed

lemma curl_easy_escape_total:
  assumes "\<And>n. mem n" and "0 \<le> len" and "int (length s) \<le> len \<or> len = 0"
    and "length s \<le> size_max div 16"
  shows "curl_easy_escape mem s len
    = Some (concat (map escape_char (if len = 0 then c_string s else s)))"
proof -
  let ?b = "if len = 0 then c_string s else take (nat len) s"
  have b: "?b = (if len = 0 then c_string s else s)" using assms(3) by auto
  have "length ?b \<le> length s" by (simp add: c_string_def length_takeWhile_le)
  then have "\<not> length ?b > size_max div 16" using assms(4) by linarith
  moreover have "escape_loop mem (dyn_init (length ?b * 3 + 1)) ?b = Some (concat (map escape_char ?b))"
    if "?b \<noteq> []"
    using that by (subst escape_loop_total [OF assms(1)]) (auto simp: dyn_init_def dyn_ok_def)
  ultimately show ?thesis
    using assms(1,2) unfolding b [symmetric] by (simp add: curl_easy_escape_def Let_def)
qed

text \<open>
  Escaping never fails on a string of the given length while memory lasts, its
  output has only unreserved characters and percent signs, and decoding it with
  \<open>curl_easy_unescape\<close> gives the string back; the buffer's limit of three bytes
  for each character is never exceeded.
\<close>
theorem escape_roundtrip:
  assumes "\<And>n. mem n" and "len = int (length s)" and "0 < len" and "len < 2 ^ 31"
  shows "\<exists>e. curl_easy_escape mem s len = Some e
    \<and> (\<forall>c \<in> set e. is_unreserved c \<or> c = CHR ''%'')
    \<and> length s \<le> length e \<and> length e \<le> 3 * length s
    \<and> (length e < 2 ^ 31 \<longrightarrow> curl_easy_unescape mem e (int (length e)) = Some s)"
proof -
  let ?e = "concat (map escape_char s)"
  have "length s \<le> size_max div 16" using assms(2,4) by (simp add: size_max_def)
  then have "curl_easy_escape mem s len = Some ?e"
    using curl_easy_escape_total [OF assms(1)] assms(2,3) by simp
  moreover have "\<forall>c \<in> set ?e. is_unreserved c \<or> c = CHR ''%''"
    using escape_charset by auto
  moreover have "length t \<le> length (concat (map escape_char t))
      \<and> length (concat (map escape_char t)) \<le> 3 * length t" for t
    by (induction t) (auto simp: escape_char_def hexbyte_def)
  moreover have "curl_easy_unescape mem ?e (int (length ?e)) = Some s"
  proof -
    have "0 < length s" using assms(2,3) by simp
    then have "length ?e \<noteq> 0" using calculation(3) [of s] by linarith
    then have "curl_urldecode mem ?e (length ?e) REJECT_NADA = Inr s"
      by (simp only: curl_urldecode_def urldecode_escape assms(1) Let_def take_all order_refl if_False
          not_True_eq_False)
    then show ?thesis using assms(2,4) by (simp add: curl_easy_unescape_def)
  qed
  ultimately show ?thesis by blast
qed

theorem escape_roundtrip_witness:
  "\<exists>e. curl_easy_escape (\<lambda>_. True) ''a b&c=d'' 7 = Some e \<and> length e \<le> 21"
  using escape_roundtrip [of "\<lambda>_. True" 7 "''a b&c=d''"] by fastforce

end
