(* ===== verification/CurlStrerror.thy ===== *)
theory CurlStrerror
  imports Prelude
begin

text \<open>
  The messages of libcurl's result codes: \<open>curl_easy_strerror\<close>,
  \<open>curl_multi_strerror\<close>, \<open>curl_share_strerror\<close> and \<open>curl_url_strerror\<close> of
  \<open>lib/strerror.c\<close>, as built with \<open>CURLVERBOSE\<close> (the default), the switches as
  tables from the numbers of the enumerations.  The HTTPS client reports a failed
  transfer by the first of them.
\<close>

section \<open>The tables\<close>

text \<open>\<open>curl_easy_strerror\<close>, its cases in two halves.\<close>

definition easy_messages_1 :: "(int \<times> string) list" where
  "easy_messages_1 =
     [(0, ''No error''),
      (1, ''Unsupported protocol''),
      (2, ''Failed initialization''),
      (3, ''URL using bad/illegal format or missing URL''),
      (4, ''A requested feature, protocol or option was not found built-in in this libcurl due to a build-time decision.''),
      (5, ''Could not resolve proxy name''),
      (6, ''Could not resolve hostname''),
      (7, ''Could not connect to server''),
      (8, ''Weird server reply''),
      (9, ''Access denied to remote resource''),
      (10, ''FTP: The server failed to connect to data port''),
      (12, ''FTP: Accepting server connect has timed out''),
      (84, ''FTP: The server did not accept the PRET command.''),
      (11, ''FTP: unknown PASS reply''),
      (13, ''FTP: unknown PASV reply''),
      (14, ''FTP: unknown 227 response format''),
      (15, ''FTP: cannot figure out the host in the PASV response''),
      (16, ''Error in the HTTP2 framing layer''),
      (17, ''FTP: could not set file type''),
      (18, ''Transferred a partial file''),
      (19, ''FTP: could not retrieve (RETR failed) the specified file''),
      (21, ''Quote command returned error''),
      (22, ''HTTP response code said error''),
      (23, ''Failed writing received data to disk/application''),
      (25, ''Upload failed (at start/before it took off)''),
      (26, ''Failed to open/read local data from file/application''),
      (27, ''Out of memory''),
      (28, ''Timeout was reached''),
      (30, ''FTP: command PORT failed''),
      (31, ''FTP: command REST failed''),
      (33, ''Requested range was not delivered by the server''),
      (35, ''SSL connect error''),
      (36, ''Could not resume download''),
      (37, ''Could not read a file:// file''),
      (38, ''LDAP: cannot bind''),
      (39, ''LDAP: search failed''),
      (42, ''Operation was aborted by an application callback''),
      (43, ''A libcurl function was given a bad argument''),
      (45, ''Failed binding local connection end''),
      (47, ''Number of redirects hit maximum amount''),
      (48, ''An unknown option was passed in to libcurl''),
      (49, ''Malformed option provided in a setopt''),
      (52, ''Server returned nothing (no headers, no data)''),
      (53, ''SSL crypto engine not found'')]"

definition easy_messages_2 :: "(int \<times> string) list" where
  "easy_messages_2 =
     [(54, ''Can not set SSL crypto engine as default''),
      (66, ''Failed to initialize SSL crypto engine''),
      (55, ''Failed sending data to the peer''),
      (56, ''Failure when receiving data from the peer''),
      (58, ''Problem with the local SSL certificate''),
      (59, ''Could not use specified SSL cipher''),
      (60, ''SSL peer certificate or SSH remote key was not OK''),
      (77, ''Problem with the SSL CA cert (path? access rights?)''),
      (61, ''Unrecognized or bad HTTP Content or Transfer-Encoding''),
      (63, ''Maximum file size exceeded''),
      (64, ''Requested SSL level failed''),
      (80, ''Failed to shut down the SSL connection''),
      (82, ''Failed to load CRL file (path? access rights?, format?)''),
      (83, ''Issuer check against peer certificate failed''),
      (65, ''Send failed since rewinding of the data stream failed''),
      (67, ''Login denied''),
      (68, ''TFTP: File Not Found''),
      (69, ''TFTP: Access Violation''),
      (70, ''Disk full or allocation exceeded''),
      (71, ''TFTP: Illegal operation''),
      (72, ''TFTP: Unknown transfer ID''),
      (73, ''Remote file already exists''),
      (74, ''TFTP: No such user''),
      (78, ''Remote file not found''),
      (79, ''Error in the SSH layer''),
      (81, ''Socket not ready for send/recv''),
      (85, ''RTSP CSeq mismatch or invalid CSeq''),
      (86, ''RTSP session error''),
      (87, ''Unable to parse FTP file list''),
      (88, ''Chunk callback failed''),
      (89, ''The max connection limit is reached''),
      (90, ''SSL public key does not match pinned public key''),
      (91, ''SSL server certificate status verification FAILED''),
      (92, ''Stream error in the HTTP/2 framing layer''),
      (93, ''API function called from within callback''),
      (94, ''An authentication function returned an error''),
      (95, ''HTTP/3 error''),
      (96, ''QUIC connection error''),
      (97, ''proxy handshake error''),
      (98, ''SSL Client Certificate required''),
      (99, ''Unrecoverable error in select/poll''),
      (100, ''A value or data field grew larger than allowed''),
      (101, ''ECH attempted but failed'')]"

definition curl_easy_strerror :: "int \<Rightarrow> string" where
  "curl_easy_strerror e = (case map_of (easy_messages_1 @ easy_messages_2) e of
      Some s \<Rightarrow> s | None \<Rightarrow> ''Unknown error'')"

definition multi_messages :: "(int \<times> string) list" where
  "multi_messages =
     [(-1, ''Please call curl_multi_perform() soon''),
      (0, ''No error''),
      (1, ''Invalid multi handle''),
      (2, ''Invalid easy handle''),
      (3, ''Out of memory''),
      (4, ''Internal error''),
      (5, ''Invalid socket argument''),
      (6, ''Unknown option''),
      (7, ''The easy handle is already added to a multi handle''),
      (8, ''API function called from within callback''),
      (9, ''Wakeup is unavailable or failed''),
      (10, ''A libcurl function was given a bad argument''),
      (11, ''Operation was aborted by an application callback''),
      (12, ''Unrecoverable error in select/poll'')]"

definition curl_multi_strerror :: "int \<Rightarrow> string" where
  "curl_multi_strerror e = (case map_of multi_messages e of
      Some s \<Rightarrow> s | None \<Rightarrow> ''Unknown error'')"

definition share_messages :: "(int \<times> string) list" where
  "share_messages =
     [(0, ''No error''),
      (1, ''Unknown share option''),
      (2, ''Share currently in use''),
      (3, ''Invalid share handle''),
      (4, ''Out of memory''),
      (5, ''Feature not enabled in this library'')]"

definition curl_share_strerror :: "int \<Rightarrow> string" where
  "curl_share_strerror e = (case map_of share_messages e of
      Some s \<Rightarrow> s | None \<Rightarrow> ''CURLSHcode unknown'')"

definition url_messages :: "(int \<times> string) list" where
  "url_messages =
     [(0, ''No error''),
      (1, ''An invalid CURLU pointer was passed as argument''),
      (2, ''An invalid 'part' argument was passed as argument''),
      (3, ''Malformed input to a URL function''),
      (4, ''Port number was not a decimal number between 0 and 65535''),
      (5, ''Unsupported URL scheme''),
      (6, ''URL decode error, most likely because of rubbish in the input''),
      (7, ''A memory function failed''),
      (8, ''Credentials was passed in the URL when prohibited''),
      (9, ''An unknown part ID was passed to a URL API function''),
      (10, ''No scheme part in the URL''),
      (11, ''No user part in the URL''),
      (12, ''No password part in the URL''),
      (13, ''No options part in the URL''),
      (14, ''No host part in the URL''),
      (15, ''No port part in the URL''),
      (16, ''No query part in the URL''),
      (17, ''No fragment part in the URL''),
      (18, ''No zoneid part in the URL''),
      (23, ''Bad login part''),
      (22, ''Bad IPv6 address''),
      (21, ''Bad hostname''),
      (19, ''Bad file:// URL''),
      (28, ''Unsupported number of slashes following scheme''),
      (27, ''Bad scheme''),
      (25, ''Bad path''),
      (20, ''Bad fragment''),
      (26, ''Bad query''),
      (24, ''Bad password''),
      (29, ''Bad user''),
      (30, ''libcurl lacks IDN support''),
      (31, ''A value or data field is larger than allowed'')]"

definition curl_url_strerror :: "int \<Rightarrow> string" where
  "curl_url_strerror e = (case map_of url_messages e of
      Some s \<Rightarrow> s | None \<Rightarrow> ''CURLUcode unknown'')"

section \<open>The messages tell success from failure\<close>

lemma map_of_list_all:
  "list_all P tab \<Longrightarrow> map_of tab e = Some s \<Longrightarrow> P (e, s)"
  by (auto simp: list_all_iff dest: map_of_SomeD)

definition entry_ok :: "int \<times> string \<Rightarrow> bool" where
  "entry_ok p \<longleftrightarrow> snd p \<noteq> [] \<and> (snd p = ''No error'' \<longleftrightarrow> fst p = 0)"

lemma tables_ok:
  "list_all entry_ok (easy_messages_1 @ easy_messages_2)"
  "list_all entry_ok multi_messages"
  "list_all entry_ok share_messages"
  "list_all entry_ok url_messages"
  by (simp_all add: entry_ok_def easy_messages_1_def easy_messages_2_def multi_messages_def
      share_messages_def url_messages_def)

lemma easy_first: "map_of (easy_messages_1 @ easy_messages_2) 0 = Some ''No error''"
  "map_of multi_messages 0 = Some ''No error''" "map_of share_messages 0 = Some ''No error''"
  "map_of url_messages 0 = Some ''No error''"
  by (simp_all add: easy_messages_1_def multi_messages_def share_messages_def url_messages_def)

lemma curl_easy_strerror_nonempty: "curl_easy_strerror e \<noteq> []"
  using map_of_list_all [OF tables_ok(1), of e]
  by (auto simp: entry_ok_def curl_easy_strerror_def split: option.splits)

text \<open>
  Every result code of the four interfaces has a nonempty message, unknown
  codes included, and the message is the one of success exactly for the code 0.
\<close>
theorem strerror_messages:
  "curl_easy_strerror e \<noteq> [] \<and> (curl_easy_strerror e = ''No error'' \<longleftrightarrow> e = 0)
   \<and> curl_multi_strerror e \<noteq> [] \<and> (curl_multi_strerror e = ''No error'' \<longleftrightarrow> e = 0)
   \<and> curl_share_strerror e \<noteq> [] \<and> (curl_share_strerror e = ''No error'' \<longleftrightarrow> e = 0)
   \<and> curl_url_strerror e \<noteq> [] \<and> (curl_url_strerror e = ''No error'' \<longleftrightarrow> e = 0)"
  using map_of_list_all [OF tables_ok(1), of e] map_of_list_all [OF tables_ok(2), of e]
    map_of_list_all [OF tables_ok(3), of e] map_of_list_all [OF tables_ok(4), of e] easy_first
  by (auto simp: entry_ok_def curl_easy_strerror_def curl_multi_strerror_def
      curl_share_strerror_def curl_url_strerror_def split: option.splits)

end
