(* ===== verification/HttpClient.thy ===== *)
theory HttpClient
  imports CurlBuffer CurlStrerror
begin

text \<open>
  The HTTPS client: \<open>private/httpclient/httpclient_p.cpp\<close> behind
  \<open>src/httpclient/httpclient.cpp\<close>.  A libcurl easy handle is the record of the
  options the client sets on it; escaping, string lists and error messages are
  libcurl's own, from the theories on them.  The transfer itself
  (\<open>curl_easy_perform\<close>) is a parameter: from the options it gives the result code,
  the calls of the two callbacks in order (one header line or one block of body
  each) and the response code.  A \<open>std::map\<close> is its list of pairs in iteration
  order.  The log messages are not represented.
\<close>

section \<open>Maps with string keys\<close>

text \<open>The order of \<open>std::string\<close>: bytes as unsigned characters.\<close>

fun str_less :: "string \<Rightarrow> string \<Rightarrow> bool" where
  "str_less s [] = False"
| "str_less [] (b # bs) = True"
| "str_less (a # as) (b # bs) = (cc a < cc b \<or> (a = b \<and> str_less as bs))"

type_synonym smap = "(string \<times> string) list"

text \<open>\<open>m[k] = v\<close>.\<close>

fun smap_put :: "string \<Rightarrow> string \<Rightarrow> smap \<Rightarrow> smap" where
  "smap_put k v [] = [(k, v)]"
| "smap_put k v ((a, w) # m) =
     (if k = a then (a, v) # m
      else if str_less k a then (k, v) # (a, w) # m
      else (a, w) # smap_put k v m)"

section \<open>Requests, responses, configuration\<close>

record http_config =
  s_verifySsl :: bool
  s_caBundlePath :: string
  s_timeout :: int
  s_connectTimeout :: int

definition default_config :: http_config where
  "default_config =
     \<lparr> s_verifySsl = True, s_caBundlePath = [], s_timeout = 30, s_connectTimeout = 10 \<rparr>"

definition setVerifySsl :: "bool \<Rightarrow> http_config \<Rightarrow> http_config" where
  "setVerifySsl verify c = c\<lparr> s_verifySsl := verify \<rparr>"

definition setCaBundlePath :: "string \<Rightarrow> http_config \<Rightarrow> http_config" where
  "setCaBundlePath caPath c = c\<lparr> s_caBundlePath := caPath \<rparr>"

definition setTimeout :: "int \<Rightarrow> http_config \<Rightarrow> http_config" where
  "setTimeout timeoutSecs c = c\<lparr> s_timeout := timeoutSecs \<rparr>"

definition setConnectTimeout :: "int \<Rightarrow> http_config \<Rightarrow> http_config" where
  "setConnectTimeout timeoutSecs c = c\<lparr> s_connectTimeout := timeoutSecs \<rparr>"

record http_response =
  statusCode :: int
  body :: string
  headers :: smap
  error :: string

definition empty_response :: http_response where
  "empty_response = \<lparr> statusCode = 0, body = [], headers = [], error = [] \<rparr>"

definition ok :: "http_response \<Rightarrow> bool" where
  "ok r \<longleftrightarrow> statusCode r \<ge> 200 \<and> statusCode r < 300 \<and> error r = []"

text \<open>The options of a handle, \<open>None\<close> while not set.\<close>

record easy =
  o_url :: "string option"
  o_httpget :: bool
  o_post :: bool
  o_postfields :: "string option"
  o_postfieldsize :: "int option"
  o_httpheader :: "string list option"
  o_verifypeer :: "int option"
  o_verifyhost :: "int option"
  o_cainfo :: "string option"
  o_timeout :: "int option"
  o_connecttimeout :: "int option"
  o_followlocation :: bool
  o_maxredirs :: "int option"

definition fresh_easy :: easy where
  "fresh_easy =
     \<lparr> o_url = None, o_httpget = False, o_post = False, o_postfields = None,
       o_postfieldsize = None, o_httpheader = None, o_verifypeer = None, o_verifyhost = None,
       o_cainfo = None, o_timeout = None, o_connecttimeout = None, o_followlocation = False,
       o_maxredirs = None \<rparr>"

datatype event = HeaderLine string | BodyData string

record transport =
  t_init :: bool
  t_mem :: "nat \<Rightarrow> bool"
  t_perform :: "easy \<Rightarrow> int \<times> event list \<times> int"

section \<open>Callbacks\<close>

definition writeCallback :: "string \<Rightarrow> string \<Rightarrow> string" where
  "writeCallback buffer data = buffer @ data"

definition is_crlf :: "char \<Rightarrow> bool" where
  "is_crlf c \<longleftrightarrow> c = CHR 0x0D \<or> c = CHR 0x0A"

text \<open>The loop that pops line ends from the back.\<close>

definition strip_crlf :: "string \<Rightarrow> string" where
  "strip_crlf line = rev (dropWhile is_crlf (rev line))"

definition headerCallback :: "smap \<Rightarrow> string \<Rightarrow> smap" where
  "headerCallback hs line =
     (if take 5 line = ''HTTP/'' then hs
      else if line = [CHR 0x0D, CHR 0x0A] \<or> line = [CHR 0x0A] then hs
      else let line = strip_crlf line
           in if CHR '':'' \<notin> set line then hs
              else let key = takeWhile (\<lambda>c. c \<noteq> CHR '':'') line;
                       val = drop (length key + 1) line
                   in smap_put (map to_lower key)
                        (dropWhile (\<lambda>c. c = CHR '' '' \<or> c = CHR 0x09) val) hs)"

definition run_event :: "string \<times> smap \<Rightarrow> event \<Rightarrow> string \<times> smap" where
  "run_event st ev = (case ev of
      BodyData d \<Rightarrow> (writeCallback (fst st) d, snd st)
    | HeaderLine l \<Rightarrow> (fst st, headerCallback (snd st) l))"

section \<open>Options and transfer\<close>

text \<open>\<open>setopt_set_timeout_sec\<close>, in milliseconds: a negative number is refused, and the client
  does not look at the result.  The other options are accepted as they are (a path of a CA
  bundle up to 8 MB).\<close>

definition timediff_max :: int where
  "timediff_max = 2 ^ 63 - 1"

definition set_timeout_sec :: "int \<Rightarrow> int option \<Rightarrow> int option" where
  "set_timeout_sec secs old =
     (if secs < 0 then old
      else if secs > timediff_max div 1000 then Some timediff_max
      else Some (secs * 1000))"

definition applyGlobalConfig :: "http_config \<Rightarrow> easy \<Rightarrow> easy" where
  "applyGlobalConfig c e =
     (let e = e\<lparr> o_verifypeer := Some (if s_verifySsl c then 1 else 0),
                o_verifyhost := Some (if s_verifySsl c then 2 else 0) \<rparr>;
          e = (if s_caBundlePath c \<noteq> [] then e\<lparr> o_cainfo := Some (c_string (s_caBundlePath c)) \<rparr> else e)
      in e\<lparr> o_timeout := set_timeout_sec (s_timeout c) (o_timeout e),
           o_connecttimeout := set_timeout_sec (s_connectTimeout c) (o_connecttimeout e) \<rparr>)"

fun header_list :: "(nat \<Rightarrow> bool) \<Rightarrow> smap \<Rightarrow> string list \<Rightarrow> string list" where
  "header_list mem [] slist = slist"
| "header_list mem ((key, val) # m) slist =
     header_list mem m (slist_append mem slist (key @ '': '' @ val))"

definition setHeaders :: "(nat \<Rightarrow> bool) \<Rightarrow> smap \<Rightarrow> easy \<Rightarrow> easy" where
  "setHeaders mem hs e =
     (let slist = header_list mem hs []
      in if slist \<noteq> [] then e\<lparr> o_httpheader := Some slist \<rparr> else e)"

definition perform :: "transport \<Rightarrow> http_config \<Rightarrow> easy \<Rightarrow> http_response" where
  "perform t c e =
     (let e = applyGlobalConfig c (e\<lparr> o_followlocation := True, o_maxredirs := Some 5 \<rparr>);
          (res, events, code) = t_perform t e;
          (bodyBuffer, headerBuffer) = foldl run_event ([], []) events
      in if res = 0
         then empty_response\<lparr> statusCode := code, body := bodyBuffer, headers := headerBuffer \<rparr>
         else empty_response\<lparr> error := curl_easy_strerror res, statusCode := 0, body := bodyBuffer \<rparr>)"

text \<open>The bytes of the error text around the word NULL.\<close>

definition init_failed :: string where
  "init_failed = ''curl_easy_init()''
     @ map char_of [0x20::nat, 0xE8, 0xBF, 0x94, 0xE5, 0x9B, 0x9E, 0x20] @ ''NULL''"

definition get_options :: "transport \<Rightarrow> string \<Rightarrow> smap \<Rightarrow> easy" where
  "get_options t url hs =
     setHeaders (t_mem t) hs (fresh_easy\<lparr> o_url := Some (c_string url), o_httpget := True \<rparr>)"

definition http_get :: "transport \<Rightarrow> http_config \<Rightarrow> string \<Rightarrow> smap \<Rightarrow> http_response" where
  "http_get t c url hs =
     (if \<not> t_init t then empty_response\<lparr> error := init_failed \<rparr>
      else perform t c (get_options t url hs))"

definition postJson_options :: "transport \<Rightarrow> string \<Rightarrow> string \<Rightarrow> smap \<Rightarrow> easy" where
  "postJson_options t url jsonBody extraHeaders =
     setHeaders (t_mem t) (smap_put ''Content-Type'' ''application/json'' extraHeaders)
       (fresh_easy\<lparr> o_url := Some (c_string url), o_post := True,
          o_postfields := Some jsonBody, o_postfieldsize := Some (int (length jsonBody)) \<rparr>)"

definition postJson :: "transport \<Rightarrow> http_config \<Rightarrow> string \<Rightarrow> string \<Rightarrow> smap \<Rightarrow> http_response" where
  "postJson t c url jsonBody extraHeaders =
     (if \<not> t_init t then empty_response\<lparr> error := init_failed \<rparr>
      else perform t c (postJson_options t url jsonBody extraHeaders))"

text \<open>\<open>static_cast<int>\<close> of a size; the escaped text, nothing when escaping fails.\<close>

definition size_as_int :: "string \<Rightarrow> int" where
  "size_as_int s = sint (word_of_nat (length s) :: 32 word)"

definition escaped :: "transport \<Rightarrow> string \<Rightarrow> string" where
  "escaped t s = (case curl_easy_escape (t_mem t) s (size_as_int s) of Some e \<Rightarrow> e | None \<Rightarrow> [])"

fun form_loop :: "transport \<Rightarrow> bool \<Rightarrow> smap \<Rightarrow> string" where
  "form_loop t first [] = []"
| "form_loop t first ((key, val) # m) =
     (if \<not> first then ''&'' else []) @ escaped t key @ ''='' @ escaped t val @ form_loop t False m"

definition postForm_options :: "transport \<Rightarrow> string \<Rightarrow> smap \<Rightarrow> smap \<Rightarrow> easy" where
  "postForm_options t url formData extraHeaders =
     (let formBody = form_loop t True formData
      in setHeaders (t_mem t)
           (smap_put ''Content-Type'' ''application/x-www-form-urlencoded'' extraHeaders)
           (fresh_easy\<lparr> o_url := Some (c_string url), o_post := True,
              o_postfields := Some formBody, o_postfieldsize := Some (int (length formBody)) \<rparr>))"

definition postForm :: "transport \<Rightarrow> http_config \<Rightarrow> string \<Rightarrow> smap \<Rightarrow> smap \<Rightarrow> http_response" where
  "postForm t c url formData extraHeaders =
     (if \<not> t_init t then empty_response\<lparr> error := init_failed \<rparr>
      else perform t c (postForm_options t url formData extraHeaders))"

section \<open>Responses\<close>

definition body_of :: "event list \<Rightarrow> string" where
  "body_of evs = concat (map (\<lambda>ev. case ev of BodyData d \<Rightarrow> d | HeaderLine _ \<Rightarrow> []) evs)"

definition headers_of :: "event list \<Rightarrow> smap \<Rightarrow> smap" where
  "headers_of evs hs = foldl (\<lambda>hs ev. case ev of HeaderLine l \<Rightarrow> headerCallback hs l | BodyData _ \<Rightarrow> hs) hs evs"

lemma foldl_run_event: "foldl run_event (b, hs) evs = (b @ body_of evs, headers_of evs hs)"
  by (induction evs arbitrary: b hs)
     (auto simp: run_event_def body_of_def headers_of_def writeCallback_def split: event.splits)

text \<open>What the transfer is given by \<open>perform\<close>.\<close>

definition sent_options :: "http_config \<Rightarrow> easy \<Rightarrow> easy" where
  "sent_options c e = applyGlobalConfig c (e\<lparr> o_followlocation := True, o_maxredirs := Some 5 \<rparr>)"

lemma perform_eq:
  "t_perform t (sent_options c e) = (res, evs, code) \<Longrightarrow> perform t c e =
     (if res = 0
      then \<lparr> statusCode = code, body = body_of evs, headers = headers_of evs [], error = [] \<rparr>
      else \<lparr> statusCode = 0, body = body_of evs, headers = [], error = curl_easy_strerror res \<rparr>)"
  by (simp add: perform_def sent_options_def Let_def foldl_run_event empty_response_def)

lemma set_timeout_sec_eq:
  "set_timeout_sec secs None = (if secs < 0 then None else Some (min (secs * 1000) timediff_max))"
  by (simp add: set_timeout_sec_def timediff_max_def)

text \<open>
  C21. A response is \<open>ok\<close> exactly when a handle could be made, the transfer returned
  \<open>CURLE_OK\<close> and its code is between 200 and 299.  Whatever the result, the body is
  everything the write callback was given, in order; a failed transfer has status 0,
  no headers and a message, even when it delivered some body.  Every transfer follows
  at most five redirects and carries the current timeouts and verification switches; the
  timeouts are in milliseconds, as far as they can be counted, and a negative one leaves
  the transfer without a limit.
\<close>
theorem http_outcome:
  assumes "t_perform t (sent_options c (get_options t url hs)) = (res, evs, code)"
  shows "(ok (http_get t c url hs) \<longleftrightarrow> t_init t \<and> res = 0 \<and> 200 \<le> code \<and> code < 300)
    \<and> (t_init t \<longrightarrow> body (http_get t c url hs) = body_of evs
         \<and> error (http_get t c url hs) = (if res = 0 then [] else curl_easy_strerror res)
         \<and> statusCode (http_get t c url hs) = (if res = 0 then code else 0)
         \<and> (res \<noteq> 0 \<longrightarrow> headers (http_get t c url hs) = []))
    \<and> (let e = sent_options c (get_options t url hs)
       in o_maxredirs e = Some 5
          \<and> o_timeout e = (if s_timeout c < 0 then None else Some (min (s_timeout c * 1000) timediff_max))
          \<and> o_connecttimeout e
              = (if s_connectTimeout c < 0 then None else Some (min (s_connectTimeout c * 1000) timediff_max))
          \<and> o_verifypeer e = Some (if s_verifySsl c then 1 else 0)
          \<and> o_verifyhost e = Some (if s_verifySsl c then 2 else 0)
          \<and> o_url e = Some (c_string url) \<and> o_httpget e \<and> \<not> o_post e)"
  using perform_eq [OF assms] curl_easy_strerror_nonempty [of res]
  by (auto simp: http_get_def ok_def empty_response_def init_failed_def sent_options_def set_timeout_sec_eq
      applyGlobalConfig_def get_options_def setHeaders_def fresh_easy_def Let_def)

theorem http_outcome_witness:
  "\<not> ok (http_get \<lparr>t_init = True, t_mem = (\<lambda>_. True), t_perform = (\<lambda>_. (28, [BodyData ''par''], 200))\<rparr>
     default_config ''https://x/'' [])"
  using http_outcome [of "\<lparr>t_init = True, t_mem = (\<lambda>_. True), t_perform = (\<lambda>_. (28, [BodyData ''par''], 200))\<rparr>"
      default_config "''https://x/''" "[]" 28 "[BodyData ''par'']" 200]
  by simp

section \<open>Response headers\<close>

lemma map_of_smap_put: "map_of (smap_put k v m) = (map_of m)(k \<mapsto> v)"
  by (induction k v m rule: smap_put.induct) auto

lemma smap_put_set: "set (smap_put k v m) \<subseteq> insert (k, v) (set m)"
  by (induction k v m rule: smap_put.induct) auto

lemma strip_crlf_line: "v = [] \<or> \<not> is_crlf (last v) \<Longrightarrow> strip_crlf (k @ CHR '':'' # sp @ v @ [CHR 0x0D, CHR 0x0A])
    = (if v = [] then strip_crlf (k @ CHR '':'' # sp) else k @ CHR '':'' # sp @ v)"
proof (cases v rule: rev_cases)
  case (snoc w c)
  moreover assume "v = [] \<or> \<not> is_crlf (last v)"
  ultimately show ?thesis by (simp add: strip_crlf_def is_crlf_def)
qed (simp add: strip_crlf_def is_crlf_def)

lemma headerCallback_line:
  assumes "CHR '':'' \<notin> set k" and "take 5 k \<noteq> ''HTTP/''" and "v \<noteq> []" and "\<not> is_crlf (last v)"
    and "hd v \<noteq> CHR '' ''" and "hd v \<noteq> CHR 0x09"
  shows "headerCallback hs (k @ '': '' @ v @ [CHR 0x0D, CHR 0x0A]) = smap_put (map to_lower k) v hs"
proof -
  let ?line = "k @ '': '' @ v @ [CHR 0x0D, CHR 0x0A]"
  have http: "take 5 ?line \<noteq> ''HTTP/''"
  proof
    assume eq: "take 5 ?line = ''HTTP/''"
    show False
    proof (cases "length k < 5")
      case True
      then have "take 5 ?line = k @ take (5 - length k) ('': '' @ v @ [CHR 0x0D, CHR 0x0A])" by simp
      moreover have "CHR '':'' \<in> set (take (5 - length k) ('': '' @ v @ [CHR 0x0D, CHR 0x0A]))"
        using True by (cases "5 - length k") auto
      ultimately have "CHR '':'' \<in> set ''HTTP/''" using eq by (metis UnCI set_append)
      then show False by simp
    next
      case False
      then show False using eq assms(2) by simp
    qed
  qed
  have strip: "strip_crlf ?line = k @ CHR '':'' # CHR '' '' # v"
    using strip_crlf_line [of v k "[CHR '' '']"] assms(3,4) by simp
  have key: "takeWhile (\<lambda>c. c \<noteq> CHR '':'') (k @ CHR '':'' # CHR '' '' # v) = k"
    using assms(1) by (intro takeWhile_dropWhile_split(1)) auto
  have val: "dropWhile (\<lambda>c. c = CHR '' '' \<or> c = CHR 0x09) (CHR '' '' # v) = v"
    using assms(3,5,6) by (cases v) auto
  have crlf: "?line \<noteq> [CHR 0x0D, CHR 0x0A]" "?line \<noteq> [CHR 0x0A]"
    by (cases k; simp)+
  show ?thesis
    unfolding headerCallback_def Let_def strip key
    using http crlf val by simp
qed

lemma headerCallback_keys:
  "(a, b) \<in> set (headerCallback hs line) \<Longrightarrow> (a, b) \<in> set hs \<or> (\<forall>c \<in> set a. \<not> ascii_upper c)"
  using smap_put_set by (fastforce simp: headerCallback_def Let_def to_lower_not_upper split: if_splits)

lemma headers_of_keys:
  "(a, b) \<in> set (headers_of evs hs) \<Longrightarrow> (a, b) \<in> set hs \<or> (\<forall>c \<in> set a. \<not> ascii_upper c)"
proof (induction evs arbitrary: hs)
  case (Cons ev evs)
  then show ?case
    using headerCallback_keys by (cases ev) (fastforce simp: headers_of_def)+
qed (simp add: headers_of_def)

lemma headerCallback_other:
  "map_of (headerCallback [] line) key = None \<Longrightarrow> map_of (headerCallback hs line) key = map_of hs key"
  by (auto simp: headerCallback_def Let_def map_of_smap_put split: if_splits)

lemma headers_of_other:
  "\<forall>l. HeaderLine l \<in> set evs \<longrightarrow> map_of (headerCallback [] l) key = None \<Longrightarrow>
     map_of (headers_of evs hs) key = map_of hs key"
proof (induction evs arbitrary: hs)
  case (Cons ev evs)
  then show ?case
    by (cases ev) (simp_all add: headers_of_def headerCallback_other)
qed (simp add: headers_of_def)

text \<open>
  C23. In the headers of a response every name is in lower case, and a name has the
  value of the last header line that carries it, in any case of letters, among all
  responses the transfer went through: the status line of a later response does
  not clear what an earlier one (a redirect, say) has set.
\<close>
theorem response_headers:
  assumes "t_perform t (sent_options c e) = (0, evs @ HeaderLine line # evs', code)"
    and "line = k @ '': '' @ v @ [CHR 0x0D, CHR 0x0A]"
    and "CHR '':'' \<notin> set k" and "take 5 k \<noteq> ''HTTP/''" and "v \<noteq> []" and "\<not> is_crlf (last v)"
    and "hd v \<noteq> CHR '' ''" and "hd v \<noteq> CHR 0x09"
    and "\<forall>l. HeaderLine l \<in> set evs' \<longrightarrow> map_of (headerCallback [] l) (map to_lower k) = None"
  shows "map_of (headers (perform t c e)) (map to_lower k) = Some v
    \<and> (\<forall>(a, b) \<in> set (headers (perform t c e)). \<forall>c \<in> set a. \<not> ascii_upper c)"
proof -
  let ?hs = "headers_of evs []"
  have all: "headers (perform t c e) = headers_of (evs @ HeaderLine line # evs') []"
    using perform_eq [OF assms(1)] by simp
  then have "headers (perform t c e) = headers_of evs' (headerCallback ?hs line)"
    by (simp add: headers_of_def)
  moreover have "headerCallback ?hs line = smap_put (map to_lower k) v ?hs"
    unfolding assms(2) by (rule headerCallback_line [OF assms(3-8)])
  moreover have "map_of (headers_of evs' (smap_put (map to_lower k) v ?hs)) (map to_lower k) = Some v"
    using headers_of_other [OF assms(9)] by (simp add: map_of_smap_put)
  ultimately have "map_of (headers (perform t c e)) (map to_lower k) = Some v" by simp
  moreover have "\<not> ascii_upper ch" if "(a, b) \<in> set (headers (perform t c e))" "ch \<in> set a" for a b ch
    using headers_of_keys [of a b "evs @ HeaderLine line # evs'" "[]"] that by (auto simp: all)
  ultimately show ?thesis by blast
qed

theorem response_headers_witness:
  "map_of (headers (perform \<lparr>t_init = True, t_mem = (\<lambda>_. True), t_perform = (\<lambda>_. (0,
      [HeaderLine ''HTTP/1.1 302 Found'', HeaderLine (''Location: /a'' @ [CHR 0x0D, CHR 0x0A]),
       HeaderLine ''HTTP/1.1 200 OK''], 200))\<rparr> default_config fresh_easy)) ''location'' = Some ''/a''"
proof -
  have low: "map to_lower ''Location'' = ''location''" by code_simp
  have "is_crlf (last ''/a'') = False" by (simp add: is_crlf_def)
  moreover have "map_of (headerCallback [] ''HTTP/1.1 200 OK'') (map to_lower ''Location'') = None"
    by (simp add: headerCallback_def)
  ultimately show ?thesis
    unfolding low [symmetric]
    by (intro conjunct1 [OF response_headers [where evs = "[HeaderLine ''HTTP/1.1 302 Found'']"
          and evs' = "[HeaderLine ''HTTP/1.1 200 OK'']" and k = "''Location''" and v = "''/a''"]])
       (simp_all)
qed

section \<open>Request headers\<close>

lemma header_list_total:
  "\<forall>n. mem n \<Longrightarrow> header_list mem hs sl = sl @ map (\<lambda>(k, v). c_string (k @ '': '' @ v)) hs"
  by (induction mem hs sl rule: header_list.induct)
     (auto simp: slist_append_def slist_append_nodup_def Let_def)

lemma smap_put_nonempty [simp]: "smap_put k v m \<noteq> []"
  by (cases m) (auto split: if_splits)

lemma smap_put_keeps: "a \<noteq> k \<Longrightarrow> (a, b) \<in> set (smap_put k v m) \<longleftrightarrow> (a, b) \<in> set m"
  by (induction k v m rule: smap_put.induct) auto

text \<open>
  While memory lasts a POST carries one line for each header, in the order of
  the map, with the content type of its kind in place of a \<open>Content-Type\<close> of the
  caller, and the whole body with its size.  A content type the caller spelled with
  other capitals is sent as well.
\<close>
theorem post_requests:
  assumes "\<forall>n. t_mem t n"
  shows "o_httpheader (postJson_options t url json hs)
      = Some (map (\<lambda>(k, v). c_string (k @ '': '' @ v)) (smap_put ''Content-Type'' ''application/json'' hs))
    \<and> o_postfields (postJson_options t url json hs) = Some json
    \<and> o_postfieldsize (postJson_options t url json hs) = Some (int (length json))
    \<and> o_post (postJson_options t url json hs)
    \<and> o_httpheader (postForm_options t url form hs)
      = Some (map (\<lambda>(k, v). c_string (k @ '': '' @ v))
          (smap_put ''Content-Type'' ''application/x-www-form-urlencoded'' hs))
    \<and> (\<forall>ct. map_of (smap_put ''Content-Type'' ct hs) ''Content-Type'' = Some ct)
    \<and> (\<forall>ct v. (''content-type'', v) \<in> set hs \<longrightarrow> (''content-type'', v) \<in> set (smap_put ''Content-Type'' ct hs))
    \<and> (hs = [] \<longrightarrow> o_httpheader (get_options t url hs) = None)"
  using header_list_total [OF assms]
  by (auto simp: postJson_options_def postForm_options_def get_options_def setHeaders_def fresh_easy_def
      map_of_smap_put smap_put_keeps Let_def)

theorem post_requests_witness:
  "o_httpheader (postJson_options \<lparr>t_init = True, t_mem = (\<lambda>_. True), t_perform = (\<lambda>_. (0, [], 200))\<rparr>
      ''https://x/'' ''{}'' [(''Content-Type'', ''text/plain'')]) = Some [''Content-Type: application/json'']"
  using post_requests [of "\<lparr>t_init = True, t_mem = (\<lambda>_. True), t_perform = (\<lambda>_. (0, [], 200))\<rparr>"
      "''https://x/''" "''{}''" "[(''Content-Type'', ''text/plain'')]"]
  by (simp add: c_string_def)

section \<open>Form bodies\<close>

text \<open>What a receiver does with a form: split at ampersands, then at the first equals
  sign, and decode both sides.\<close>

fun split_on :: "char \<Rightarrow> string \<Rightarrow> string list" where
  "split_on c [] = [[]]"
| "split_on c (x # xs) =
     (if x = c then [] # split_on c xs
      else (case split_on c xs of p # ps \<Rightarrow> (x # p) # ps | [] \<Rightarrow> [[x]]))"

definition form_field :: "string \<Rightarrow> (curle + string) \<times> (curle + string)" where
  "form_field s = (let k = takeWhile (\<lambda>c. c \<noteq> CHR ''='') s
     in (urldecode_loop REJECT_NADA k, urldecode_loop REJECT_NADA (drop (length k + 1) s)))"

definition form_decode :: "string \<Rightarrow> ((curle + string) \<times> (curle + string)) list" where
  "form_decode s = map form_field (split_on (CHR ''&'') s)"

lemma split_on_nonempty: "split_on c s \<noteq> []"
  by (induction s) (auto split: list.splits)

lemma split_on_none: "c \<notin> set a \<Longrightarrow> split_on c a = [a]"
  by (induction a) auto

lemma split_on_sep: "c \<notin> set a \<Longrightarrow> split_on c (a @ c # b) = a # split_on c b"
  by (induction a) auto

definition pair_text :: "string \<times> string \<Rightarrow> string" where
  "pair_text kv = concat (map escape_char (fst kv)) @ ''='' @ concat (map escape_char (snd kv))"

lemma escaped_eq:
  assumes "\<And>n. t_mem t n" and "length s < 2 ^ 31"
  shows "escaped t s = concat (map escape_char s)"
proof -
  have "size_as_int s = int (length s)"
    using assms(2) by (simp add: size_as_int_def signed_of_nat signed_take_bit_int_eq_self)
  moreover have "length s \<le> size_max div 16" using assms(2) by (simp add: size_max_def)
  ultimately show ?thesis
    using curl_easy_escape_total [OF assms(1), of "int (length s)" s]
    by (cases "s = []") (simp_all add: escaped_def c_string_def)
qed

lemma escaped_chars: "c \<in> set (concat (map escape_char s)) \<Longrightarrow> c \<noteq> CHR ''&'' \<and> c \<noteq> CHR ''=''"
proof -
  have "\<not> is_unreserved (CHR ''&'')" "\<not> is_unreserved (CHR ''='')"
    by (simp_all add: is_unreserved_def is_alnum_def is_digit_def is_lower_def is_upper_def
        is_urlpunct_def cc_def)
  then show "c \<in> set (concat (map escape_char s)) \<Longrightarrow> ?thesis"
    using escape_charset by fastforce
qed

lemma form_field_pair: "form_field (pair_text (k, v)) = (Inr k, Inr v)"
proof -
  have "takeWhile (\<lambda>c. c \<noteq> CHR ''='') (concat (map escape_char k) @ CHR ''='' # concat (map escape_char v))
      = concat (map escape_char k)"
    using escaped_chars [of _ k] by (intro takeWhile_dropWhile_split(1)) auto
  then show ?thesis
    by (simp add: form_field_def pair_text_def Let_def urldecode_escape)
qed

lemma form_loop_decode:
  assumes "\<And>n. t_mem t n" and "form \<noteq> []"
    and "\<forall>(k, v) \<in> set form. length k < 2 ^ 31 \<and> length v < 2 ^ 31"
  shows "split_on (CHR ''&'') (form_loop t True form) = map pair_text form"
  using assms(2,3)
proof (induction form)
  case (Cons kv form)
  obtain k v where kv: "kv = (k, v)" by fastforce
  have ptext: "escaped t k @ ''='' @ escaped t v = pair_text kv"
    using Cons.prems(2) escaped_eq [OF assms(1)] by (simp add: kv pair_text_def)
  have amp: "CHR ''&'' \<notin> set (pair_text kv)"
    using escaped_chars by (auto simp: pair_text_def)
  show ?case
  proof (cases form)
    case Nil
    then show ?thesis using ptext amp by (simp add: kv split_on_none)
  next
    case (Cons kv' form')
    have "form_loop t True (kv # form) = pair_text kv @ CHR ''&'' # form_loop t True form"
      using ptext by (cases kv') (simp add: kv Cons)
    then show ?thesis
      using Cons.IH Cons.prems Cons amp by (simp add: split_on_sep)
  qed
qed simp

text \<open>
  C22. A form body is decoded by a receiver to exactly the pairs of the form, in
  order, whatever bytes the keys and values are made of (each shorter than 2 GiB).
\<close>
theorem post_form_roundtrip:
  assumes "\<And>n. t_mem t n" and "form \<noteq> []"
    and "\<forall>(k, v) \<in> set form. length k < 2 ^ 31 \<and> length v < 2 ^ 31"
  shows "\<exists>b. o_postfields (postForm_options t url form hs) = Some b
    \<and> o_postfieldsize (postForm_options t url form hs) = Some (int (length b))
    \<and> form_decode b = map (\<lambda>(k, v). (Inr k, Inr v)) form"
proof -
  have "form_decode (form_loop t True form) = map (\<lambda>(k, v). (Inr k, Inr v)) form"
    using form_loop_decode [OF assms] form_field_pair by (auto simp: form_decode_def)
  then show ?thesis
    by (auto simp: postForm_options_def setHeaders_def fresh_easy_def Let_def)
qed

theorem post_form_roundtrip_witness:
  "\<exists>b. o_postfields (postForm_options \<lparr>t_init = True, t_mem = (\<lambda>_. True), t_perform = (\<lambda>_. (0, [], 200))\<rparr>
      ''https://x/'' [(''a&b'', ''1=2''), (''q'', ''x y'')] []) = Some b
    \<and> form_decode b = [(Inr ''a&b'', Inr ''1=2''), (Inr ''q'', Inr ''x y'')]"
  using post_form_roundtrip [of "\<lparr>t_init = True, t_mem = (\<lambda>_. True), t_perform = (\<lambda>_. (0, [], 200))\<rparr>"
      "[(''a&b'', ''1=2''), (''q'', ''x y'')]" "''https://x/''" "[]"]
  by auto

end
