(* ===== verification/CurlHash.thy ===== *)
theory CurlHash
  imports CurlText "HOL-Library.Multiset"
begin

text \<open>
  libcurl's two chained hash tables, \<open>lib/hash.c\<close> (byte-string keys, an optional
  destructor for each entry) and \<open>lib/uint-hash.c\<close> (32-bit keys).  A slot is the list
  of its entries from the head; both tables insert at the head.  What a destructor is
  called on is returned, in order.  The contract of a map and what its clients get from
  it are the locale \<open>map_store\<close>; both tables are interpretations of it.
\<close>

section \<open>The contract\<close>

datatype ('k, 'v) map_op = Put 'k 'v | Del 'k

locale map_store =
  fixes inv :: "'s \<Rightarrow> bool"
    and lookup :: "'s \<Rightarrow> 'k \<Rightarrow> 'v option"
    and insert :: "'k \<Rightarrow> 'v \<Rightarrow> 's \<Rightarrow> 's"
    and delete :: "'k \<Rightarrow> 's \<Rightarrow> 's"
    and count :: "'s \<Rightarrow> nat"
  assumes inv_insert: "inv s \<Longrightarrow> inv (insert k v s)"
    and inv_delete: "inv s \<Longrightarrow> inv (delete k s)"
    and lookup_insert: "inv s \<Longrightarrow> lookup (insert k v s) j = (if j = k then Some v else lookup s j)"
    and lookup_delete: "inv s \<Longrightarrow> lookup (delete k s) j = (if j = k then None else lookup s j)"
    and count_lookup: "inv s \<Longrightarrow> finite (dom (lookup s)) \<and> count s = card (dom (lookup s))"
begin

definition run :: "('k, 'v) map_op \<Rightarrow> 's \<Rightarrow> 's" where
  "run oper s = (case oper of Put k v \<Rightarrow> insert k v s | Del k \<Rightarrow> delete k s)"

definition run_map :: "('k, 'v) map_op \<Rightarrow> ('k \<rightharpoonup> 'v) \<Rightarrow> ('k \<rightharpoonup> 'v)" where
  "run_map oper m = (case oper of Put k v \<Rightarrow> m(k \<mapsto> v) | Del k \<Rightarrow> m(k := None))"

lemma run_refines: "inv s \<Longrightarrow> inv (run oper s) \<and> lookup (run oper s) = run_map oper (lookup s)"
  by (cases oper)
     (auto simp: run_def run_map_def inv_insert inv_delete lookup_insert lookup_delete fun_eq_iff)

lemma history: "inv s \<Longrightarrow> inv (fold run opers s) \<and> lookup (fold run opers s) = fold run_map opers (lookup s)"
proof (induction opers arbitrary: s)
  case (Cons oper opers)
  with run_refines [of s oper] show ?case by simp
qed simp

lemma history_count:
  "inv s \<Longrightarrow> count (fold run opers s) = card (dom (fold run_map opers (lookup s)))"
  using history [of s opers] count_lookup [of "fold run opers s"] by simp

end

section \<open>Chains\<close>

fun chain_find :: "'k \<Rightarrow> ('k \<times> 'p) list \<Rightarrow> 'p option" where
  "chain_find k [] = None"
| "chain_find k ((a, p) # es) = (if a = k then Some p else chain_find k es)"

text \<open>Overwriting an entry in place, with what it held; unlinking an entry.\<close>

fun chain_set :: "'k \<Rightarrow> 'p \<Rightarrow> ('k \<times> 'p) list \<Rightarrow> (('k \<times> 'p) list \<times> 'p) option" where
  "chain_set k p [] = None"
| "chain_set k p ((a, q) # es) =
     (if a = k then Some ((a, p) # es, q)
      else map_option (\<lambda>(es', old). ((a, q) # es', old)) (chain_set k p es))"

fun chain_del :: "'k \<Rightarrow> ('k \<times> 'p) list \<Rightarrow> (('k \<times> 'p) list \<times> 'p) option" where
  "chain_del k [] = None"
| "chain_del k ((a, q) # es) =
     (if a = k then Some (es, q)
      else map_option (\<lambda>(es', old). ((a, q) # es', old)) (chain_del k es))"

record ('k, 'p) htab =
  ht_table :: "('k \<times> 'p) list list option"
  ht_size :: nat
  ht_slots :: nat

definition ht_init :: "nat \<Rightarrow> ('k, 'p) htab" where
  "ht_init slots = \<lparr> ht_table = None, ht_size = 0, ht_slots = slots \<rparr>"

text \<open>Setting an entry: the table is allocated on the first call, a new entry after
  its key was not found.  The result is whether it worked, the table, and what an
  overwritten entry held.  \<open>mem\<close> answers the two allocations.\<close>

definition ht_set :: "('k \<Rightarrow> nat \<Rightarrow> nat) \<Rightarrow> (bool \<Rightarrow> bool) \<Rightarrow> 'k \<Rightarrow> 'p \<Rightarrow> ('k, 'p) htab
    \<Rightarrow> bool \<times> ('k, 'p) htab \<times> 'p option" where
  "ht_set hf mem k p h =
     (case (case ht_table h of
              Some t \<Rightarrow> Some t
            | None \<Rightarrow> if mem True then Some (replicate (ht_slots h) []) else None) of
        None \<Rightarrow> (False, h, None)
      | Some t \<Rightarrow>
          (let i = hf k (ht_slots h)
           in case chain_set k p (t ! i) of
                Some (es, old) \<Rightarrow> (True, h\<lparr>ht_table := Some (t[i := es])\<rparr>, Some old)
              | None \<Rightarrow>
                  (if mem False
                   then (True, h\<lparr>ht_table := Some (t[i := (k, p) # t ! i]), ht_size := ht_size h + 1\<rparr>, None)
                   else (False, h\<lparr>ht_table := Some t\<rparr>, None))))"

definition ht_remove :: "('k \<Rightarrow> nat \<Rightarrow> nat) \<Rightarrow> 'k \<Rightarrow> ('k, 'p) htab \<Rightarrow> bool \<times> ('k, 'p) htab \<times> 'p option" where
  "ht_remove hf k h = (case ht_table h of
      None \<Rightarrow> (False, h, None)
    | Some t \<Rightarrow>
        (let i = hf k (ht_slots h)
         in case chain_del k (t ! i) of
              Some (es, old) \<Rightarrow> (True, h\<lparr>ht_table := Some (t[i := es]), ht_size := ht_size h - 1\<rparr>, Some old)
            | None \<Rightarrow> (False, h, None)))"

definition ht_get :: "('k \<Rightarrow> nat \<Rightarrow> nat) \<Rightarrow> 'k \<Rightarrow> ('k, 'p) htab \<Rightarrow> 'p option" where
  "ht_get hf k h = (case ht_table h of
      None \<Rightarrow> None
    | Some t \<Rightarrow> chain_find k (t ! hf k (ht_slots h)))"

definition ht_clear :: "('k, 'p) htab \<Rightarrow> ('k, 'p) htab \<times> ('k \<times> 'p) list" where
  "ht_clear h = (case ht_table h of
      None \<Rightarrow> (h, [])
    | Some t \<Rightarrow> (h\<lparr>ht_table := Some (map (\<lambda>_. []) t), ht_size := ht_size h - length (concat t)\<rparr>,
                 concat t))"

definition ht_destroy :: "('k, 'p) htab \<Rightarrow> ('k, 'p) htab \<times> ('k \<times> 'p) list" where
  "ht_destroy h = (case ht_table h of
      None \<Rightarrow> (h\<lparr>ht_slots := 0\<rparr>, [])
    | Some _ \<Rightarrow> (case ht_clear h of (h', gone) \<Rightarrow> (h'\<lparr>ht_table := None, ht_slots := 0\<rparr>, gone)))"

section \<open>The general table\<close>

text \<open>An entry holds a pointer (\<open>None\<close> for null) and the destructor it brought.\<close>

type_synonym ('v, 'd) hpay = "'v option \<times> 'd option"
type_synonym ('v, 'd) chash = "(string, ('v, 'd) hpay) htab"

text \<open>\<open>Curl_hash_str\<close> in \<open>size_t\<close>; a \<open>char\<close> is signed.\<close>

fun hash_str_loop :: "u64 \<Rightarrow> string \<Rightarrow> u64" where
  "hash_str_loop h [] = h"
| "hash_str_loop h (c # cs) =
     hash_str_loop ((h + push_bit 5 h) XOR (scast (word_of_nat (cc c) :: u8) :: u64)) cs"

definition curl_hash_str :: "string \<Rightarrow> nat \<Rightarrow> nat" where
  "curl_hash_str key slots_num = unat (hash_str_loop 5381 key) mod slots_num"

text \<open>What \<open>hash_elem_clear_ptr\<close> destroys: nothing for a null pointer, otherwise the
  pointer by its own destructor or by that of the table.\<close>

definition hash_elem_clear_ptr :: "('v, 'd) hpay \<Rightarrow> ('d option \<times> 'v) list" where
  "hash_elem_clear_ptr p = (case fst p of None \<Rightarrow> [] | Some v \<Rightarrow> [(snd p, v)])"

definition curl_hash_add2 :: "(bool \<Rightarrow> bool) \<Rightarrow> string \<Rightarrow> 'v option \<Rightarrow> 'd option \<Rightarrow> ('v, 'd) chash
    \<Rightarrow> 'v option \<times> ('v, 'd) chash \<times> ('d option \<times> 'v) list" where
  "curl_hash_add2 mem key p dtor h =
     (case ht_set curl_hash_str mem key (p, dtor) h of
        (done, h', old) \<Rightarrow>
          (if done then p else None, h', case old of None \<Rightarrow> [] | Some q \<Rightarrow> hash_elem_clear_ptr q))"

definition curl_hash_add :: "(bool \<Rightarrow> bool) \<Rightarrow> string \<Rightarrow> 'v option \<Rightarrow> ('v, 'd) chash
    \<Rightarrow> 'v option \<times> ('v, 'd) chash \<times> ('d option \<times> 'v) list" where
  "curl_hash_add mem key p h = curl_hash_add2 mem key p None h"

definition curl_hash_delete :: "string \<Rightarrow> ('v, 'd) chash \<Rightarrow> int \<times> ('v, 'd) chash \<times> ('d option \<times> 'v) list" where
  "curl_hash_delete key h = (case ht_remove curl_hash_str key h of
      (done, h', old) \<Rightarrow>
        (if done then 0 else 1, h', case old of None \<Rightarrow> [] | Some q \<Rightarrow> hash_elem_clear_ptr q))"

definition curl_hash_pick :: "string \<Rightarrow> ('v, 'd) chash \<Rightarrow> 'v option" where
  "curl_hash_pick key h = (case ht_get curl_hash_str key h of None \<Rightarrow> None | Some q \<Rightarrow> fst q)"

definition curl_hash_clean :: "('v, 'd) chash \<Rightarrow> ('v, 'd) chash \<times> ('d option \<times> 'v) list" where
  "curl_hash_clean h = (case ht_clear h of
      (h', gone) \<Rightarrow> (h', concat (map (\<lambda>e. hash_elem_clear_ptr (snd e)) gone)))"

definition curl_hash_destroy :: "('v, 'd) chash \<Rightarrow> ('v, 'd) chash \<times> ('d option \<times> 'v) list" where
  "curl_hash_destroy h = (case ht_destroy h of
      (h', gone) \<Rightarrow> (h', concat (map (\<lambda>e. hash_elem_clear_ptr (snd e)) gone)))"

definition curl_hash_count :: "('v, 'd) chash \<Rightarrow> nat" where
  "curl_hash_count h = ht_size h"

text \<open>\<open>crit\<close> is asked with the entry's pointer; without it every entry goes.\<close>

definition curl_hash_clean_with_criterium :: "('v option \<Rightarrow> bool) option \<Rightarrow> ('v, 'd) chash
    \<Rightarrow> ('v, 'd) chash \<times> ('d option \<times> 'v) list" where
  "curl_hash_clean_with_criterium crit h = (case ht_table h of
      None \<Rightarrow> (h, [])
    | Some t \<Rightarrow>
        (let goes = (\<lambda>e. case crit of None \<Rightarrow> True | Some f \<Rightarrow> f (fst (snd e)));
             gone = filter goes (concat t)
         in (h\<lparr>ht_table := Some (map (filter (\<lambda>e. \<not> goes e)) t), ht_size := ht_size h - length gone\<rparr>,
             concat (map (\<lambda>e. hash_elem_clear_ptr (snd e)) gone))))"

text \<open>Iteration: the next slot to look at and the chain from the current entry on.\<close>

record ('k, 'p) hiter =
  it_slot :: nat
  it_current :: "('k \<times> 'p) list"

definition start_iterate :: "('k, 'p) hiter" where
  "start_iterate = \<lparr> it_slot = 0, it_current = [] \<rparr>"

fun next_slot :: "('k \<times> 'p) list list \<Rightarrow> nat \<Rightarrow> (nat \<times> ('k \<times> 'p) list) option" where
  "next_slot [] i = None"
| "next_slot (es # t) i = (if es \<noteq> [] then Some (i, es) else next_slot t (i + 1))"

definition next_element :: "('k, 'p) htab \<Rightarrow> ('k, 'p) hiter \<Rightarrow> ('k \<times> 'p) option \<times> ('k, 'p) hiter" where
  "next_element h it = (case ht_table h of
      None \<Rightarrow> (None, it)
    | Some t \<Rightarrow>
        (let rest = tl (it_current it)
         in if rest \<noteq> [] then (Some (hd rest), it\<lparr>it_current := rest\<rparr>)
            else case next_slot (drop (it_slot it) t) (it_slot it) of
                Some (i, es) \<Rightarrow> (Some (hd es), \<lparr>it_slot = i + 1, it_current = es\<rparr>)
              | None \<Rightarrow> (None, it\<lparr>it_current := []\<rparr>)))"

section \<open>The table of 32-bit keys\<close>

type_synonym 'v uhash = "(u32, 'v option) htab"

definition uint32_hash_hash :: "u32 \<Rightarrow> nat \<Rightarrow> nat" where
  "uint32_hash_hash key slots = unat key mod slots"

definition uint32_hash_entry_clear :: "u32 \<times> 'v option \<Rightarrow> (u32 \<times> 'v) list" where
  "uint32_hash_entry_clear e = (case snd e of None \<Rightarrow> [] | Some v \<Rightarrow> [(fst e, v)])"

definition uint32_hash_set :: "(bool \<Rightarrow> bool) \<Rightarrow> u32 \<Rightarrow> 'v option \<Rightarrow> 'v uhash
    \<Rightarrow> bool \<times> 'v uhash \<times> (u32 \<times> 'v) list" where
  "uint32_hash_set mem key v h = (case ht_set uint32_hash_hash mem key v h of
      (done, h', old) \<Rightarrow>
        (done, h', case old of None \<Rightarrow> [] | Some q \<Rightarrow> uint32_hash_entry_clear (key, q)))"

definition uint32_hash_remove :: "u32 \<Rightarrow> 'v uhash \<Rightarrow> bool \<times> 'v uhash \<times> (u32 \<times> 'v) list" where
  "uint32_hash_remove key h = (case ht_remove uint32_hash_hash key h of
      (done, h', old) \<Rightarrow>
        (done, h', case old of None \<Rightarrow> [] | Some q \<Rightarrow> uint32_hash_entry_clear (key, q)))"

definition uint32_hash_get :: "u32 \<Rightarrow> 'v uhash \<Rightarrow> 'v option" where
  "uint32_hash_get key h = (case ht_get uint32_hash_hash key h of None \<Rightarrow> None | Some q \<Rightarrow> q)"

definition uint_hash_clear :: "'v uhash \<Rightarrow> 'v uhash \<times> (u32 \<times> 'v) list" where
  "uint_hash_clear h = (case ht_clear h of
      (h', gone) \<Rightarrow> (h', concat (map uint32_hash_entry_clear gone)))"

definition uint32_hash_destroy :: "'v uhash \<Rightarrow> 'v uhash \<times> (u32 \<times> 'v) list" where
  "uint32_hash_destroy h = (case ht_destroy h of
      (h', gone) \<Rightarrow> (h', concat (map uint32_hash_entry_clear gone)))"

definition uint32_hash_count :: "'v uhash \<Rightarrow> nat" where
  "uint32_hash_count h = ht_size h"

text \<open>The entries a visit shows to its callback: up to the first refusal.\<close>

fun visit_loop :: "(u32 \<Rightarrow> 'v option \<Rightarrow> bool) \<Rightarrow> (u32 \<times> 'v option) list \<Rightarrow> (u32 \<times> 'v option) list" where
  "visit_loop cb [] = []"
| "visit_loop cb (e # es) = e # (if cb (fst e) (snd e) then visit_loop cb es else [])"

definition uint32_hash_visit :: "(u32 \<Rightarrow> 'v option \<Rightarrow> bool) \<Rightarrow> 'v uhash \<Rightarrow> (u32 \<times> 'v option) list" where
  "uint32_hash_visit cb h = (case ht_table h of None \<Rightarrow> [] | Some t \<Rightarrow> visit_loop cb (concat t))"

section \<open>The table is a map\<close>

lemma chain_find_map_of: "chain_find k es = map_of es k"
  by (induction k es rule: chain_find.induct) auto

lemma chain_set_None: "chain_set k p es = None \<longleftrightarrow> k \<notin> fst ` set es"
  by (induction k p es rule: chain_set.induct) auto

lemma chain_set_Some:
  "chain_set k p es = Some (es', old) \<Longrightarrow>
     map fst es' = map fst es \<and> map_of es k = Some old \<and> map_of es' = (map_of es)(k \<mapsto> p)"
  by (induction k p es arbitrary: es' rule: chain_set.induct) (auto split: if_splits)

lemma chain_del_None: "chain_del k es = None \<longleftrightarrow> k \<notin> fst ` set es"
  by (induction k es rule: chain_del.induct) auto

lemma chain_del_Some:
  "chain_del k es = Some (es', old) \<Longrightarrow> distinct (map fst es) \<Longrightarrow>
     map fst es' = filter (\<lambda>a. a \<noteq> k) (map fst es) \<and> length es = Suc (length es')
     \<and> map_of es k = Some old \<and> map_of es' = (map_of es)(k := None) \<and> set es' \<subseteq> set es"
proof (induction k es arbitrary: es' rule: chain_del.induct)
  case (2 k a q es)
  show ?case
  proof (cases "a = k")
    case True
    then have "filter (\<lambda>x. x \<noteq> k) (map fst es) = map fst es" "map_of es k = None"
      using 2(3) by (auto simp: filter_id_conv map_of_eq_None_iff)
    then show ?thesis using 2 True by (auto simp: fun_eq_iff)
  next
    case False
    then obtain es1 where "chain_del k es = Some (es1, old)" "es' = (a, q) # es1"
      using 2(2) by auto
    with 2(1) [OF False this(1)] 2(3) False show ?thesis by auto
  qed
qed simp

definition ht_inv :: "('k \<Rightarrow> nat \<Rightarrow> nat) \<Rightarrow> ('k, 'p) htab \<Rightarrow> bool" where
  "ht_inv hf h \<longleftrightarrow> 0 < ht_slots h \<and>
     (case ht_table h of
        None \<Rightarrow> ht_size h = 0
      | Some t \<Rightarrow> length t = ht_slots h \<and> ht_size h = length (concat t)
          \<and> distinct (map fst (concat t))
          \<and> (\<forall>i < length t. \<forall>e \<in> set (t ! i). hf (fst e) (ht_slots h) = i))"

lemma in_concat_nth: "e \<in> set (concat t) \<Longrightarrow> \<exists>k. k < length t \<and> e \<in> set (t ! k)"
  by (auto simp: in_set_conv_nth [of _ t])

lemma concat_update:
  assumes "i < length t"
  shows "concat t = concat (take i t) @ t ! i @ concat (drop (Suc i) t)"
    and "concat (t[i := es]) = concat (take i t) @ es @ concat (drop (Suc i) t)"
  using assms by (metis concat.simps(2) concat_append id_take_nth_drop, simp add: upd_conv_take_nth_drop)

lemma distinct_replace_middle:
  assumes "distinct (map f (A @ B @ C))" and "distinct (map f es)"
    and "\<And>e a. e \<in> set es \<Longrightarrow> a \<in> set A \<union> set C \<Longrightarrow> f e \<noteq> f a"
  shows "distinct (map f (A @ es @ C))"
proof -
  have "f ` set es \<inter> f ` set A = {}" "f ` set es \<inter> f ` set C = {}" using assms(3) by auto
  then show ?thesis using assms(1,2) by (auto simp: Int_commute)
qed

text \<open>Replacing the chain of a slot by one whose keys are new or were there.\<close>

lemma ht_inv_update:
  assumes "length t = n" and "0 < n" and "distinct (map fst (concat t))"
    and "\<forall>i < n. \<forall>e \<in> set (t ! i). hf (fst e) n = i"
    and "i < n" and "distinct (map fst es)" and "\<forall>e \<in> set es. hf (fst e) n = i"
  shows "distinct (map fst (concat (t[i := es]))) \<and>
    (\<forall>j < n. \<forall>e \<in> set (t[i := es] ! j). hf (fst e) n = j)"
proof -
  let ?A = "concat (take i t)" and ?C = "concat (drop (Suc i) t)"
  have other: "hf (fst e) n \<noteq> i" if "e \<in> set (t ! j)" "j < n" "j \<noteq> i" for e j
    using assms(4) [rule_format, OF that(2,1)] that(3) by simp
  have A: "hf (fst e) n \<noteq> i" if e: "e \<in> set ?A" for e
  proof -
    obtain k where "k < length (take i t)" "e \<in> set (take i t ! k)" using in_concat_nth [OF e] by blast
    then have "k < n" "k \<noteq> i" "e \<in> set (t ! k)" using assms(1) by auto
    then show ?thesis using other by blast
  qed
  have C: "hf (fst e) n \<noteq> i" if e: "e \<in> set ?C" for e
  proof -
    obtain k where "k < length (drop (Suc i) t)" "e \<in> set (drop (Suc i) t ! k)"
      using in_concat_nth [OF e] by blast
    then have "Suc i + k < n" "Suc i + k \<noteq> i" "e \<in> set (t ! (Suc i + k))" using assms(1) by auto
    then show ?thesis using other by blast
  qed
  have "distinct (map fst (?A @ t ! i @ ?C))"
    using assms(1,3,5) concat_update(1) [of i t] by simp
  then have "distinct (map fst (?A @ es @ ?C))"
  proof (rule distinct_replace_middle [OF _ assms(6)])
    fix e a assume "e \<in> set es" "a \<in> set ?A \<union> set ?C"
    then show "fst e \<noteq> fst a" using assms(7) A C by (metis Un_iff)
  qed
  moreover have "\<forall>j < n. \<forall>e \<in> set (t[i := es] ! j). hf (fst e) n = j"
    using assms(1,4,5,7) by (auto simp: nth_list_update)
  ultimately show ?thesis using concat_update(2) [of i t es] assms(1,5) by simp
qed

lemma slot_distinct:
  assumes "i < length t" and "distinct (map fst (concat t))"
  shows "distinct (map fst (t ! i))"
  using assms concat_update(1) [of i t] by simp

definition ht_rows :: "('k, 'p) htab \<Rightarrow> ('k \<times> 'p) list list" where
  "ht_rows h = (case ht_table h of Some t \<Rightarrow> t | None \<Rightarrow> replicate (ht_slots h) [])"

lemma concat_replicate_Nil [simp]: "concat (replicate n []) = []"
  by (induction n) auto

lemma ht_inv_rows:
  "ht_inv hf h \<Longrightarrow> 0 < ht_slots h \<and> length (ht_rows h) = ht_slots h
     \<and> ht_size h = length (concat (ht_rows h)) \<and> distinct (map fst (concat (ht_rows h)))
     \<and> (\<forall>i < ht_slots h. \<forall>e \<in> set (ht_rows h ! i). hf (fst e) (ht_slots h) = i)"
  by (auto simp: ht_inv_def ht_rows_def split: option.splits)

lemma ht_get_rows:
  "ht_inv hf h \<Longrightarrow> hf k (ht_slots h) < ht_slots h \<Longrightarrow>
     ht_get hf k h = map_of (ht_rows h ! hf k (ht_slots h)) k"
  by (auto simp: ht_get_def ht_rows_def chain_find_map_of split: option.splits)

lemma ht_inv_step:
  assumes "ht_inv hf h" and "i < ht_slots h" and "distinct (map fst es)"
    and "\<forall>e \<in> set es. hf (fst e) (ht_slots h) = i"
    and "n + length (ht_rows h ! i) = ht_size h + length es"
    and "h' = h\<lparr>ht_table := Some ((ht_rows h)[i := es]), ht_size := n\<rparr>"
  shows "ht_inv hf h'" and "ht_rows h' = (ht_rows h)[i := es]" and "ht_slots h' = ht_slots h"
proof -
  note r = ht_inv_rows [OF assms(1)]
  have "ht_size h = length (concat (ht_rows h))" and l: "i < length (ht_rows h)"
    using r assms(2) by auto
  then have "n = length (concat ((ht_rows h)[i := es]))"
    using concat_update(1) [OF l] concat_update(2) [OF l, of es] assms(5) by simp
  moreover have "distinct (map fst (concat ((ht_rows h)[i := es]))) \<and>
      (\<forall>j < ht_slots h. \<forall>e \<in> set ((ht_rows h)[i := es] ! j). hf (fst e) (ht_slots h) = j)"
    using r assms(2-4) by (intro ht_inv_update) blast+
  ultimately show "ht_inv hf h'"
    using conjunct1 [OF r] conjunct1 [OF conjunct2 [OF r]] by (simp add: assms(6) ht_inv_def)
  show "ht_rows h' = (ht_rows h)[i := es]" "ht_slots h' = ht_slots h"
    by (simp_all add: assms(6) ht_rows_def)
qed

lemma ht_get_update:
  assumes "ht_inv hf h" and "\<And>k. hf k (ht_slots h) < ht_slots h"
    and "ht_inv hf h'" and "ht_slots h' = ht_slots h" and "ht_rows h' = (ht_rows h)[i := es]"
  shows "ht_get hf j h' = (if hf j (ht_slots h) = i then map_of es j else ht_get hf j h)"
  using ht_get_rows [OF assms(1,2), of j] ht_get_rows [OF assms(3), of j] assms(2) [of j]
    ht_inv_rows [OF assms(1)]
  by (simp add: assms(4,5))

lemma ht_set_correct:
  assumes "ht_inv hf h" and "\<And>k. hf k (ht_slots h) < ht_slots h" and "\<And>b. mem b"
    and "ht_set hf mem k p h = (done, h', old)"
  shows "done \<and> ht_inv hf h' \<and> ht_slots h' = ht_slots h \<and> old = ht_get hf k h
    \<and> (\<forall>j. ht_get hf j h' = (if j = k then Some p else ht_get hf j h))"
proof -
  let ?n = "ht_slots h" and ?t = "ht_rows h"
  let ?i = "hf k ?n"
  note r = ht_inv_rows [OF assms(1)]
  have i: "?i < ?n" by (rule assms(2))
  have tab: "(case ht_table h of Some t \<Rightarrow> Some t | None \<Rightarrow> if mem True then Some (replicate ?n []) else None)
      = Some ?t"
    using assms(3) by (auto simp: ht_rows_def split: option.splits)
  have dist: "distinct (map fst (?t ! ?i))" using r i slot_distinct by metis
  have hash: "\<forall>e \<in> set (?t ! ?i). hf (fst e) ?n = ?i" using r i by blast
  show ?thesis
  proof (cases "chain_set k p (?t ! ?i)")
    case None
    then have res: "done" "old = None"
      "h' = h\<lparr>ht_table := Some (?t[?i := (k, p) # ?t ! ?i]), ht_size := ht_size h + 1\<rparr>"
      using assms(3,4) by (simp_all add: ht_set_def tab Let_def)
    have nk: "k \<notin> fst ` set (?t ! ?i)" using None by (simp add: chain_set_None)
    have "distinct (map fst ((k, p) # ?t ! ?i))" using dist nk by simp
    moreover have "\<forall>e \<in> set ((k, p) # ?t ! ?i). hf (fst e) ?n = ?i" using hash by auto
    moreover have "ht_size h + 1 + length (?t ! ?i) = ht_size h + length ((k, p) # ?t ! ?i)" by simp
    ultimately have st: "ht_inv hf h'" "ht_rows h' = ?t[?i := (k, p) # ?t ! ?i]" "ht_slots h' = ?n"
      using ht_inv_step [OF assms(1) i _ _ _ res(3)] by blast+
    have get: "ht_get hf j h' = (if hf j ?n = ?i then map_of ((k, p) # ?t ! ?i) j else ht_get hf j h)" for j
      by (rule ht_get_update [OF assms(1,2) st(1,3,2)])
    have "map_of (?t ! ?i) k = None" using nk by (simp add: map_of_eq_None_iff)
    then show ?thesis
      using st(1,3) ht_get_rows [OF assms(1,2)] res(1,2) by (simp add: get)
  next
    case (Some x)
    obtain es old' where x: "x = (es, old')" by fastforce
    note c = chain_set_Some [OF Some [unfolded x]]
    have same: "h\<lparr>ht_table := a\<rparr> = h\<lparr>ht_table := a, ht_size := ht_size h\<rparr>" for a by (cases h) simp
    have h': "h' = h\<lparr>ht_table := Some (?t[?i := es])\<rparr>" and old: "done" "old = Some old'"
      using assms(4) Some x by (simp_all add: ht_set_def tab Let_def)
    have h'': "h' = h\<lparr>ht_table := Some (?t[?i := es]), ht_size := ht_size h\<rparr>"
      unfolding h' by (rule same)
    note res = old h''
    have "fst ` set es = fst ` set (?t ! ?i)" using c by (metis set_map)
    then have "\<forall>e \<in> set es. hf (fst e) ?n = ?i" using hash by (metis imageE imageI)
    moreover have "distinct (map fst es)" using c dist by simp
    moreover have "ht_size h + length (?t ! ?i) = ht_size h + length es" using c by (metis length_map)
    ultimately have st: "ht_inv hf h'" "ht_rows h' = ?t[?i := es]" "ht_slots h' = ?n"
      using ht_inv_step [OF assms(1) i _ _ _ res(3)] by blast+
    have get: "ht_get hf j h' = (if hf j ?n = ?i then map_of es j else ht_get hf j h)" for j
      by (rule ht_get_update [OF assms(1,2) st(1,3,2)])
    have "map_of es = (map_of (?t ! ?i))(k \<mapsto> p)" "map_of (?t ! ?i) k = Some old'" using c by auto
    then show ?thesis
      using st(1,3) ht_get_rows [OF assms(1,2)] res(1,2) by (simp add: get)
  qed
qed

lemma ht_remove_correct:
  assumes "ht_inv hf h" and "\<And>k. hf k (ht_slots h) < ht_slots h"
    and "ht_remove hf k h = (done, h', old)"
  shows "ht_inv hf h' \<and> ht_slots h' = ht_slots h \<and> old = ht_get hf k h \<and> (done \<longleftrightarrow> old \<noteq> None)
    \<and> (\<forall>j. ht_get hf j h' = (if j = k then None else ht_get hf j h))"
proof (cases "ht_get hf k h")
  case None
  then have "h' = h \<and> \<not> done \<and> old = None"
    using assms(3) by (auto simp: ht_remove_def ht_get_def chain_find_map_of map_of_eq_None_iff
        chain_del_None [symmetric] Let_def split: option.splits)
  with None assms(1) show ?thesis by auto
next
  case (Some old')
  let ?n = "ht_slots h" and ?t = "ht_rows h"
  let ?i = "hf k ?n"
  note r = ht_inv_rows [OF assms(1)]
  have i: "?i < ?n" by (rule assms(2))
  have tab: "ht_table h = Some ?t" using Some by (auto simp: ht_get_def ht_rows_def split: option.splits)
  have m: "map_of (?t ! ?i) k = Some old'" using Some ht_get_rows [OF assms(1,2)] by simp
  have "chain_del k (?t ! ?i) \<noteq> None"
    unfolding chain_del_None using m by (metis map_of_eq_None_iff option.distinct(1))
  then obtain es old1 where c: "chain_del k (?t ! ?i) = Some (es, old1)" by fastforce
  have dist: "distinct (map fst (?t ! ?i))" using r i slot_distinct by metis
  note d = chain_del_Some [OF c dist]
  have res: "done" "old = Some old'" "h' = h\<lparr>ht_table := Some (?t[?i := es]), ht_size := ht_size h - 1\<rparr>"
    using assms(3) c d m by (simp_all add: ht_remove_def tab Let_def)
  have "length (?t ! ?i) \<le> ht_size h" using concat_update(1) [of ?i ?t] r i by simp
  then have "ht_size h - 1 + length (?t ! ?i) = ht_size h + length es" using d by linarith
  moreover have "distinct (map fst es)" using d dist by simp
  moreover have "\<forall>e \<in> set es. hf (fst e) ?n = ?i" using d r i by blast
  ultimately have inv: "ht_inv hf h'" "ht_rows h' = ?t[?i := es]" "ht_slots h' = ?n"
    using ht_inv_step [OF assms(1) i _ _ _ res(3)] by blast+
  have get: "ht_get hf j h' = (if hf j ?n = ?i then map_of es j else ht_get hf j h)" for j
    by (rule ht_get_update [OF assms(1,2) inv(1,3,2)])
  have "map_of es = (map_of (?t ! ?i))(k := None)" using d by simp
  then show ?thesis
    using inv(1,3) ht_get_rows [OF assms(1,2)] res(1,2) m by (simp add: get)
qed

lemma ht_get_concat:
  assumes "ht_inv hf h" and "\<And>k. hf k (ht_slots h) < ht_slots h"
  shows "ht_get hf k h = map_of (concat (ht_rows h)) k"
proof -
  let ?n = "ht_slots h" and ?t = "ht_rows h"
  let ?i = "hf k ?n"
  note r = ht_inv_rows [OF assms(1)]
  have i: "?i < length ?t" using assms(2) r by simp
  have "map_of (concat ?t) k = Some v" if "map_of (?t ! ?i) k = Some v" for v
  proof -
    have "(k, v) \<in> set (concat ?t)" using map_of_SomeD [OF that] i by auto
    then show ?thesis using r by (intro map_of_is_SomeI) auto
  qed
  moreover have "map_of (?t ! ?i) k \<noteq> None" if kv: "(k, v) \<in> set (concat ?t)" for v
  proof -
    obtain j where "j < ?n" "(k, v) \<in> set (?t ! j)" using in_concat_nth [OF kv] r by auto
    then have "(k, v) \<in> set (?t ! ?i)" using r by (metis fst_conv)
    then show ?thesis by (metis weak_map_of_SomeI option.distinct(1))
  qed
  moreover have "map_of (concat ?t) k = Some v \<Longrightarrow> (k, v) \<in> set (concat ?t)" for v by (rule map_of_SomeD)
  ultimately have "map_of (?t ! ?i) k = map_of (concat ?t) k"
    by (cases "map_of (?t ! ?i) k"; cases "map_of (concat ?t) k") fastforce+
  then show ?thesis using ht_get_rows [OF assms] by simp
qed

lemma ht_count:
  assumes "ht_inv hf h" and "\<And>k. hf k (ht_slots h) < ht_slots h"
  shows "finite (dom (\<lambda>k. ht_get hf k h)) \<and> ht_size h = card (dom (\<lambda>k. ht_get hf k h))"
proof -
  have "dom (\<lambda>k. ht_get hf k h) = fst ` set (concat (ht_rows h))"
    using ht_get_concat [OF assms] dom_map_of_conv_image_fst [of "concat (ht_rows h)"] by simp
  then show ?thesis
    using ht_inv_rows [OF assms(1)] distinct_card [of "map fst (concat (ht_rows h))"] by simp
qed

section \<open>Both tables are maps\<close>

lemma curl_hash_str_less: "0 < n \<Longrightarrow> curl_hash_str k n < n"
  by (simp add: curl_hash_str_def)

lemma uint32_hash_less: "0 < n \<Longrightarrow> uint32_hash_hash k n < n"
  by (simp add: uint32_hash_hash_def)

lemma ht_inv_slots: "ht_inv hf h \<Longrightarrow> 0 < ht_slots h"
  by (simp add: ht_inv_def)

definition hash_ok :: "('v, 'd) chash \<Rightarrow> bool" where
  "hash_ok h \<longleftrightarrow> ht_inv curl_hash_str h \<and> (\<forall>k q. ht_get curl_hash_str k h = Some q \<longrightarrow> fst q \<noteq> None)"

definition uhash_ok :: "'v uhash \<Rightarrow> bool" where
  "uhash_ok h \<longleftrightarrow> ht_inv uint32_hash_hash h \<and> (\<forall>k q. ht_get uint32_hash_hash k h = Some q \<longrightarrow> q \<noteq> None)"

abbreviation plenty :: "bool \<Rightarrow> bool" where
  "plenty \<equiv> \<lambda>_. True"

definition hash_put :: "string \<Rightarrow> 'v \<Rightarrow> ('v, 'd) chash \<Rightarrow> ('v, 'd) chash" where
  "hash_put k v h = fst (snd (curl_hash_add plenty k (Some v) h))"

definition hash_drop :: "string \<Rightarrow> ('v, 'd) chash \<Rightarrow> ('v, 'd) chash" where
  "hash_drop k h = fst (snd (curl_hash_delete k h))"

definition uhash_put :: "u32 \<Rightarrow> 'v \<Rightarrow> 'v uhash \<Rightarrow> 'v uhash" where
  "uhash_put k v h = fst (snd (uint32_hash_set plenty k (Some v) h))"

definition uhash_drop :: "u32 \<Rightarrow> 'v uhash \<Rightarrow> 'v uhash" where
  "uhash_drop k h = fst (snd (uint32_hash_remove k h))"

lemma ht_put_fst:
  assumes "ht_inv hf h" and "\<And>k n. 0 < n \<Longrightarrow> hf k n < n"
  shows "ht_inv hf (fst (snd (ht_set hf plenty k p h)))"
    and "ht_get hf j (fst (snd (ht_set hf plenty k p h))) = (if j = k then Some p else ht_get hf j h)"
proof -
  obtain fin h' old where r: "ht_set hf plenty k p h = (fin, h', old)" by (metis prod_cases3)
  have "\<And>k. hf k (ht_slots h) < ht_slots h" using assms ht_inv_slots by metis
  note c = ht_set_correct [OF assms(1) this TrueI r]
  show "ht_inv hf (fst (snd (ht_set hf plenty k p h)))" using c r by simp
  show "ht_get hf j (fst (snd (ht_set hf plenty k p h))) = (if j = k then Some p else ht_get hf j h)"
    using c r by simp
qed

lemma ht_drop_fst:
  assumes "ht_inv hf h" and "\<And>k n. 0 < n \<Longrightarrow> hf k n < n"
  shows "ht_inv hf (fst (snd (ht_remove hf k h)))"
    and "ht_get hf j (fst (snd (ht_remove hf k h))) = (if j = k then None else ht_get hf j h)"
proof -
  obtain fin h' old where r: "ht_remove hf k h = (fin, h', old)" by (metis prod_cases3)
  have "\<And>k. hf k (ht_slots h) < ht_slots h" using assms ht_inv_slots by metis
  note c = ht_remove_correct [OF assms(1) this r]
  show "ht_inv hf (fst (snd (ht_remove hf k h)))" using c r by simp
  show "ht_get hf j (fst (snd (ht_remove hf k h))) = (if j = k then None else ht_get hf j h)"
    using c r by simp
qed

lemma hash_put_set: "hash_put k v h = fst (snd (ht_set curl_hash_str plenty k (Some v, None) h))"
  by (simp add: hash_put_def curl_hash_add_def curl_hash_add2_def split: prod.split)

lemma hash_drop_remove: "hash_drop k h = fst (snd (ht_remove curl_hash_str k h))"
  by (simp add: hash_drop_def curl_hash_delete_def split: prod.split)

lemma uhash_put_set: "uhash_put k v h = fst (snd (ht_set uint32_hash_hash plenty k (Some v) h))"
  by (simp add: uhash_put_def uint32_hash_set_def split: prod.split)

lemma uhash_drop_remove: "uhash_drop k h = fst (snd (ht_remove uint32_hash_hash k h))"
  by (simp add: uhash_drop_def uint32_hash_remove_def split: prod.split)

lemma hash_ok_dom: "hash_ok h \<Longrightarrow> dom (\<lambda>k. curl_hash_pick k h) = dom (\<lambda>k. ht_get curl_hash_str k h)"
  by (fastforce simp: hash_ok_def curl_hash_pick_def dom_def split: option.splits)

lemma uhash_ok_dom: "uhash_ok h \<Longrightarrow> dom (\<lambda>k. uint32_hash_get k h) = dom (\<lambda>k. ht_get uint32_hash_hash k h)"
  by (fastforce simp: uhash_ok_def uint32_hash_get_def dom_def split: option.splits)

interpretation chash: map_store hash_ok "\<lambda>h k. curl_hash_pick k h" hash_put hash_drop curl_hash_count
proof unfold_locales
  fix s :: "('v, 'd) chash" and k j :: string and v :: 'v
  assume ok: "hash_ok s"
  then have i: "ht_inv curl_hash_str s" by (simp add: hash_ok_def)
  note put = ht_put_fst [OF i curl_hash_str_less, where k = k and p = "(Some v, None)", folded hash_put_set]
  note drp = ht_drop_fst [OF i curl_hash_str_less, folded hash_drop_remove]
  show "hash_ok (hash_put k v s)" using ok by (simp add: hash_ok_def put)
  show "hash_ok (hash_drop k s)" using ok by (simp add: hash_ok_def drp)
  show "curl_hash_pick j (hash_put k v s) = (if j = k then Some v else curl_hash_pick j s)"
    by (simp add: curl_hash_pick_def put)
  show "curl_hash_pick j (hash_drop k s) = (if j = k then None else curl_hash_pick j s)"
    by (simp add: curl_hash_pick_def drp)
  show "finite (dom (\<lambda>k. curl_hash_pick k s)) \<and> curl_hash_count s = card (dom (\<lambda>k. curl_hash_pick k s))"
    using ht_count [OF i] curl_hash_str_less [OF ht_inv_slots [OF i]]
    by (simp add: hash_ok_dom [OF ok] curl_hash_count_def)
qed

interpretation uhash: map_store uhash_ok "\<lambda>h k. uint32_hash_get k h" uhash_put uhash_drop uint32_hash_count
proof unfold_locales
  fix s :: "'v uhash" and k j :: u32 and v :: 'v
  assume ok: "uhash_ok s"
  then have i: "ht_inv uint32_hash_hash s" by (simp add: uhash_ok_def)
  note put = ht_put_fst [OF i uint32_hash_less, where k = k and p = "Some v", folded uhash_put_set]
  note drp = ht_drop_fst [OF i uint32_hash_less, folded uhash_drop_remove]
  show "uhash_ok (uhash_put k v s)" using ok by (simp add: uhash_ok_def put)
  show "uhash_ok (uhash_drop k s)" using ok by (simp add: uhash_ok_def drp)
  show "uint32_hash_get j (uhash_put k v s) = (if j = k then Some v else uint32_hash_get j s)"
    by (simp add: uint32_hash_get_def put)
  show "uint32_hash_get j (uhash_drop k s) = (if j = k then None else uint32_hash_get j s)"
    by (simp add: uint32_hash_get_def drp)
  show "finite (dom (\<lambda>k. uint32_hash_get k s)) \<and> uint32_hash_count s = card (dom (\<lambda>k. uint32_hash_get k s))"
    using ht_count [OF i] uint32_hash_less [OF ht_inv_slots [OF i]]
    by (simp add: uhash_ok_dom [OF ok] uint32_hash_count_def)
qed

lemma ht_init_ok: "0 < n \<Longrightarrow> hash_ok (ht_init n)" "0 < n \<Longrightarrow> uhash_ok (ht_init n)"
  by (simp_all add: hash_ok_def uhash_ok_def ht_inv_def ht_init_def ht_get_def)

fun apply_op :: "('k \<Rightarrow> 'v \<Rightarrow> 's \<Rightarrow> 's) \<Rightarrow> ('k \<Rightarrow> 's \<Rightarrow> 's) \<Rightarrow> ('k, 'v) map_op \<Rightarrow> 's \<Rightarrow> 's" where
  "apply_op ins del (Put k v) s = ins k v s"
| "apply_op ins del (Del k) s = del k s"

definition map_after :: "('k, 'v) map_op list \<Rightarrow> ('k \<rightharpoonup> 'v)" where
  "map_after opers = fold (apply_op (\<lambda>k v m. m(k \<mapsto> v)) (\<lambda>k m. m(k := None))) opers Map.empty"

lemma chash_run_map: "map_store.run_map = apply_op (\<lambda>(k :: string) v m. m(k \<mapsto> v)) (\<lambda>k m. m(k := None))"
proof (intro ext)
  fix oper :: "(string, 'a) map_op" and m x
  show "map_store.run_map oper m x = apply_op (\<lambda>k v m. m(k \<mapsto> v)) (\<lambda>k m. m(k := None)) oper m x"
    by (cases oper) (simp_all add: chash.run_map_def)
qed

lemma uhash_run_map: "map_store.run_map = apply_op (\<lambda>(k :: u32) v m. m(k \<mapsto> v)) (\<lambda>k m. m(k := None))"
proof (intro ext)
  fix oper :: "(u32, 'a) map_op" and m x
  show "map_store.run_map oper m x = apply_op (\<lambda>k v m. m(k \<mapsto> v)) (\<lambda>k m. m(k := None)) oper m x"
    by (cases oper) (simp_all add: uhash.run_map_def)
qed

lemma chash_run: "chash.run = apply_op hash_put hash_drop"
  by (intro ext) (auto simp: chash.run_def split: map_op.split)

lemma uhash_run: "uhash.run = apply_op uhash_put uhash_drop"
  by (intro ext) (auto simp: uhash.run_def split: map_op.split)

text \<open>
  C40. After any history of additions and deletions, looking a key up in either hash table
  gives the value added last if it was not deleted since, and nothing otherwise; the count
  is the number of such keys.  This is the map contract's history, for the table of byte
  strings and the table of 32-bit keys.
\<close>

theorem hash_histories:
  assumes "0 < slots"
  shows "(\<forall>k. curl_hash_pick k (fold (apply_op hash_put hash_drop) opers (ht_init slots) :: ('v, 'd) chash) = map_after opers k)
    \<and> curl_hash_count (fold (apply_op hash_put hash_drop) opers (ht_init slots) :: ('v, 'd) chash)
        = card (dom (map_after opers))
    \<and> (\<forall>k. uint32_hash_get k (fold (apply_op uhash_put uhash_drop) uopers (ht_init slots)) = map_after uopers k)
    \<and> uint32_hash_count (fold (apply_op uhash_put uhash_drop) uopers (ht_init slots)) = card (dom (map_after uopers))"
proof -
  have e: "(\<lambda>k. curl_hash_pick k (ht_init slots)) = Map.empty"
    "(\<lambda>k. uint32_hash_get k (ht_init slots)) = Map.empty"
    by (simp_all add: curl_hash_pick_def uint32_hash_get_def ht_get_def ht_init_def)
  note h = chash.history [OF ht_init_ok(1) [OF assms], of opers]
    chash.history_count [OF ht_init_ok(1) [OF assms], of opers]
  note u = uhash.history [OF ht_init_ok(2) [OF assms], of uopers]
    uhash.history_count [OF ht_init_ok(2) [OF assms], of uopers]
  show ?thesis
    using h u unfolding e chash_run uhash_run chash_run_map uhash_run_map map_after_def [symmetric]
    by (auto dest: fun_cong)
qed

theorem hash_histories_witness:
  "curl_hash_pick ''b'' (fold (apply_op hash_put hash_drop)
      [Put ''a'' (1::nat), Put ''b'' 2, Put ''a'' 3, Del ''a''] (ht_init 1 :: (nat, unit) chash)) = Some 2
   \<and> curl_hash_count (fold (apply_op hash_put hash_drop)
      [Put ''a'' (1::nat), Put ''b'' 2, Put ''a'' 3, Del ''a''] (ht_init 1 :: (nat, unit) chash)) = 1
   \<and> uint32_hash_get 7 (fold (apply_op uhash_put uhash_drop) [Put (7::u32) True] (ht_init 4)) = Some True"
proof -
  let ?o = "[Put ''a'' (1::nat), Put ''b'' 2, Put ''a'' 3, Del ''a'']" and ?u = "[Put (7::u32) True]"
  have "0 < (1 :: nat)" "0 < (4 :: nat)" by simp_all
  note w = hash_histories [OF this(1), of ?o "[] :: (u32, unit) map_op list", where ?'d = unit]
    hash_histories [OF this(2), of "[] :: (string, unit) map_op list" ?u, where ?'d = unit]
  have m: "map_after ?o ''b'' = Some 2" "dom (map_after ?o) = {''b''}" "map_after ?u 7 = Some True"
    by (auto simp: map_after_def split: if_splits)
  show ?thesis using w(1) w(2) unfolding m(2) by (simp only: m card_insert_disjoint) simp
qed

section \<open>Ownership of the entries\<close>

datatype ('v, 'd) hash_op =
    HAdd "bool \<Rightarrow> bool" string "'v option" "'d option"
  | HDelete string
  | HClean
  | HCleanIf "('v option \<Rightarrow> bool) option"

definition own :: "'d option \<Rightarrow> 'v option \<Rightarrow> ('d option \<times> 'v) list" where
  "own d p = hash_elem_clear_ptr (p, d)"

text \<open>One operation, with what the table accepted and what it destroyed.\<close>

fun hash_step :: "('v, 'd) hash_op \<Rightarrow> ('v, 'd) chash
    \<Rightarrow> ('v, 'd) chash \<times> ('d option \<times> 'v) list \<times> ('d option \<times> 'v) list" where
  "hash_step (HAdd mem k p d) h = (case curl_hash_add2 mem k p d h of (r, h', gone) \<Rightarrow> (h', own d r, gone))"
| "hash_step (HDelete k) h = (case curl_hash_delete k h of (r, h', gone) \<Rightarrow> (h', [], gone))"
| "hash_step HClean h = (case curl_hash_clean h of (h', gone) \<Rightarrow> (h', [], gone))"
| "hash_step (HCleanIf crit) h = (case curl_hash_clean_with_criterium crit h of (h', gone) \<Rightarrow> (h', [], gone))"

fun hash_run :: "('v, 'd) hash_op list \<Rightarrow> ('v, 'd) chash
    \<Rightarrow> ('v, 'd) chash \<times> ('d option \<times> 'v) list \<times> ('d option \<times> 'v) list" where
  "hash_run [] h = (h, [], [])"
| "hash_run (oper # opers) h = (case hash_step oper h of (h1, t1, g1) \<Rightarrow>
     (case hash_run opers h1 of (h2, t2, g2) \<Rightarrow> (h2, t1 @ t2, g1 @ g2)))"

definition ht_shape :: "('k, 'p) htab \<Rightarrow> bool" where
  "ht_shape h \<longleftrightarrow> 0 < ht_slots h \<and> length (ht_rows h) = ht_slots h"

definition owned :: "(string \<times> ('v, 'd) hpay) list \<Rightarrow> ('d option \<times> 'v) multiset" where
  "owned es = mset (concat (map (\<lambda>e. hash_elem_clear_ptr (snd e)) es))"

lemma owned_simps [simp]:
  "owned [] = {#}"
  "owned (e # es) = mset (hash_elem_clear_ptr (snd e)) + owned es"
  "owned (es @ fs) = owned es + owned fs"
  by (simp_all add: owned_def)

lemma owned_filter: "owned es = owned (filter P es) + owned (filter (\<lambda>e. \<not> P e) es)"
  by (induction es) auto

lemma owned_set:
  "chain_set k p es = Some (es', old) \<Longrightarrow>
     owned es' + mset (hash_elem_clear_ptr old) = owned es + mset (hash_elem_clear_ptr p)"
  by (induction k p es arbitrary: es' rule: chain_set.induct) (fastforce split: if_splits)+

lemma owned_del:
  "chain_del k es = Some (es', old) \<Longrightarrow> owned es = owned es' + mset (hash_elem_clear_ptr old)"
  by (induction k es arbitrary: es' rule: chain_del.induct) (fastforce split: if_splits)+

lemma owned_update:
  assumes "i < length t"
  shows "owned (concat (t[i := es])) + owned (t ! i) = owned (concat t) + owned es"
  using concat_update(1) [OF assms] concat_update(2) [OF assms, of es] by (simp add: add_ac)

lemma mset_balance:
  assumes "U + T = C + E" and "E + q = T + p"
  shows "U + q = C + (p :: 'a multiset)"
proof -
  have "(U + q) + (T + E) = (U + T) + (E + q)" by (simp only: add_ac)
  also have "\<dots> = (C + E) + (T + p)" by (simp only: assms)
  also have "\<dots> = (C + p) + (T + E)" by (simp only: add_ac)
  finally show ?thesis by (simp only: add_right_cancel)
qed

lemma owned_map_Nil [simp]: "owned (concat (map (\<lambda>_. []) t)) = {#}"
  by (induction t) auto

lemma ht_set_owned:
  assumes "ht_shape h" and "hf k (ht_slots h) < ht_slots h" and "ht_set hf mem k p h = (fin, h', old)"
  shows "ht_shape h' \<and> ht_slots h' = ht_slots h \<and>
    owned (concat (ht_rows h')) + (case old of None \<Rightarrow> {#} | Some q \<Rightarrow> mset (hash_elem_clear_ptr q))
      = owned (concat (ht_rows h)) + (if fin then mset (hash_elem_clear_ptr p) else {#})"
proof (cases "ht_table h = None \<and> \<not> mem True")
  case True
  then show ?thesis using assms(1,3) by (auto simp: ht_set_def)
next
  case False
  let ?t = "ht_rows h" and ?i = "hf k (ht_slots h)"
  have tab: "(case ht_table h of Some t \<Rightarrow> Some t
      | None \<Rightarrow> if mem True then Some (replicate (ht_slots h) []) else None) = Some ?t"
    using False by (auto simp: ht_rows_def split: option.splits)
  have i: "?i < length ?t" using assms(1,2) by (simp add: ht_shape_def)
  show ?thesis
  proof (cases "chain_set k p (?t ! ?i)")
    case None
    show ?thesis
    proof (cases "mem False")
      case True
      then have "fin" "old = None" "ht_rows h' = ?t[?i := (k, p) # ?t ! ?i]" "ht_slots h' = ht_slots h"
        using assms(3) None by (auto simp: ht_set_def tab Let_def ht_rows_def [of h'])
      then show ?thesis using owned_update [OF i, of "(k, p) # ?t ! ?i"] assms(1) by (simp add: ht_shape_def)
    next
      case False
      then have "\<not> fin" "old = None" "ht_rows h' = ?t" "ht_slots h' = ht_slots h"
        using assms(3) None by (auto simp: ht_set_def tab Let_def ht_rows_def [of h'])
      then show ?thesis using assms(1) by (simp add: ht_shape_def)
    qed
  next
    case (Some x)
    obtain es q where x: "x = (es, q)" by (cases x)
    have "fin" "old = Some q" "ht_rows h' = ?t[?i := es]" "ht_slots h' = ht_slots h"
      using assms(3) Some x by (auto simp: ht_set_def tab Let_def ht_rows_def [of h'])
    moreover have "owned (concat (?t[?i := es])) + mset (hash_elem_clear_ptr q)
        = owned (concat ?t) + mset (hash_elem_clear_ptr p)"
      by (rule mset_balance [OF owned_update [OF i] owned_set [OF Some [unfolded x]]])
    ultimately show ?thesis using assms(1) by (simp add: ht_shape_def)
  qed
qed

lemma ht_remove_owned:
  assumes "ht_shape h" and "hf k (ht_slots h) < ht_slots h" and "ht_remove hf k h = (fin, h', old)"
  shows "ht_shape h' \<and> ht_slots h' = ht_slots h \<and>
    owned (concat (ht_rows h')) + (case old of None \<Rightarrow> {#} | Some q \<Rightarrow> mset (hash_elem_clear_ptr q))
      = owned (concat (ht_rows h))"
proof (cases "ht_table h")
  case None
  then show ?thesis using assms by (auto simp: ht_remove_def)
next
  case (Some t)
  let ?i = "hf k (ht_slots h)"
  have t: "ht_rows h = t" using Some by (simp add: ht_rows_def)
  have i: "?i < length t" using assms(1,2) t by (simp add: ht_shape_def)
  show ?thesis
  proof (cases "chain_del k (t ! ?i)")
    case None
    then show ?thesis using assms(1,3) Some by (auto simp: ht_remove_def)
  next
    case (Some x)
    obtain es q where x: "x = (es, q)" by (cases x)
    have "old = Some q" "ht_rows h' = t[?i := es]" "ht_slots h' = ht_slots h"
      using assms(3) Some x \<open>ht_table h = Some t\<close> by (auto simp: ht_remove_def Let_def ht_rows_def [of h'])
    moreover have "owned (concat (t[?i := es])) + mset (hash_elem_clear_ptr q) = owned (concat t)"
      using mset_balance [OF owned_update [OF i], of es _ "{#}"] owned_del [OF Some [unfolded x]] by simp
    ultimately show ?thesis using assms(1) t by (simp add: ht_shape_def)
  qed
qed

lemma ht_clear_owned:
  assumes "ht_shape h" and "ht_clear h = (h', gone)"
  shows "ht_shape h' \<and> ht_slots h' = ht_slots h \<and> owned (concat (ht_rows h')) = {#} \<and> owned (concat (ht_rows h)) = owned gone"
  using assms by (auto simp: ht_clear_def ht_shape_def ht_rows_def split: option.splits)

lemma concat_map_filter: "concat (map (filter P) t) = filter P (concat t)"
  by (induction t) auto

lemma clean_if_owned:
  assumes "ht_shape h" and "curl_hash_clean_with_criterium crit h = (h', gone)"
  shows "ht_shape h' \<and> ht_slots h' = ht_slots h \<and> owned (concat (ht_rows h)) = owned (concat (ht_rows h')) + mset gone"
proof (cases "ht_table h")
  case None
  then show ?thesis using assms by (auto simp: curl_hash_clean_with_criterium_def)
next
  case (Some t)
  define goes where "goes = (\<lambda>e :: string \<times> ('a, 'b) hpay. case crit of None \<Rightarrow> True | Some f \<Rightarrow> f (fst (snd e)))"
  have "ht_rows h' = map (filter (\<lambda>e. \<not> goes e)) t" "mset gone = owned (filter goes (concat t))"
    "ht_slots h' = ht_slots h" "ht_rows h = t"
    using assms(2) Some
    by (auto simp: curl_hash_clean_with_criterium_def Let_def goes_def owned_def ht_rows_def)
  then show ?thesis
    using assms(1) owned_filter [of "concat t" goes] by (simp add: ht_shape_def concat_map_filter add_ac)
qed

lemma hash_step_owned:
  assumes "ht_shape h" and "hash_step oper h = (h', t, g)"
  shows "ht_shape h' \<and> owned (concat (ht_rows h')) + mset g = owned (concat (ht_rows h)) + mset t"
proof -
  have less: "curl_hash_str k (ht_slots h) < ht_slots h" for k
    using assms(1) by (simp add: ht_shape_def curl_hash_str_less)
  show ?thesis
  proof (cases oper)
    case (HAdd mem k p d)
    obtain fin h1 old where s: "ht_set curl_hash_str mem k (p, d) h = (fin, h1, old)" by (metis prod_cases3)
    have "h' = h1" "t = own d (if fin then p else None)"
      "g = (case old of None \<Rightarrow> [] | Some q \<Rightarrow> hash_elem_clear_ptr q)"
      using assms(2) HAdd s by (auto simp: curl_hash_add2_def)
    with ht_set_owned [OF assms(1) less s] show ?thesis
      by (cases old; cases fin) (auto simp: own_def hash_elem_clear_ptr_def)
  next
    case (HDelete k)
    obtain fin h1 old where s: "ht_remove curl_hash_str k h = (fin, h1, old)" by (metis prod_cases3)
    have "h' = h1" "t = []" "g = (case old of None \<Rightarrow> [] | Some q \<Rightarrow> hash_elem_clear_ptr q)"
      using assms(2) HDelete s by (auto simp: curl_hash_delete_def)
    with ht_remove_owned [OF assms(1) less s] show ?thesis by (cases old) auto
  next
    case HClean
    obtain h1 gone where s: "ht_clear h = (h1, gone)" by fastforce
    with assms(2) HClean have "h' = h1" "t = []" "mset g = owned gone"
      by (auto simp: curl_hash_clean_def owned_def)
    with ht_clear_owned [OF assms(1) s] show ?thesis by simp
  next
    case (HCleanIf crit)
    obtain h1 gone where s: "curl_hash_clean_with_criterium crit h = (h1, gone)" by (metis surj_pair)
    with assms(2) HCleanIf have "h' = h1" "t = []" "g = gone" by auto
    with clean_if_owned [OF assms(1) s] show ?thesis by simp
  qed
qed

lemma hash_run_owned:
  "ht_shape h \<Longrightarrow> hash_run opers h = (h', t, g) \<Longrightarrow>
     ht_shape h' \<and> owned (concat (ht_rows h')) + mset g = owned (concat (ht_rows h)) + mset t"
proof (induction opers arbitrary: h h' t g)
  case (Cons oper opers)
  obtain h1 t1 g1 where s: "hash_step oper h = (h1, t1, g1)" by (metis prod_cases3)
  obtain t2 g2 where r: "hash_run opers h1 = (h', t2, g2)" "t = t1 @ t2" "g = g1 @ g2"
    using Cons.prems(2) s by (auto split: prod.splits)
  note a = hash_step_owned [OF Cons.prems(1) s]
  have b: "ht_shape h' \<and> owned (concat (ht_rows h')) + mset g2 = owned (concat (ht_rows h1)) + mset t2"
    by (rule Cons.IH [OF conjunct1 [OF a] r(1)])
  have "owned (concat (ht_rows h')) + mset g = (owned (concat (ht_rows h1)) + mset t2) + mset g1"
    using b r(3) by (simp add: add_ac)
  also have "\<dots> = (owned (concat (ht_rows h1)) + mset g1) + mset t2" by (simp add: add_ac)
  also have "\<dots> = owned (concat (ht_rows h)) + mset t" using a r(2) by (simp add: add_ac)
  finally show ?case using b by simp
qed auto

text \<open>
  The general hash table neither loses nor frees twice what it owns: over any history
  of additions (overwriting ones and ones that find no memory included), deletions and
  cleanings, followed by \<open>Curl_hash_destroy\<close>, every pointer the table accepted is given to
  its destructor, its own or the table's, exactly once, and no other pointer is.
\<close>

theorem hash_ownership:
  assumes "0 < slots" and "hash_run opers (ht_init slots) = (h, taken, gone)"
  shows "mset taken = mset (gone @ snd (curl_hash_destroy h))"
proof -
  have "ht_shape (ht_init slots)" using assms(1) by (simp add: ht_shape_def ht_rows_def ht_init_def)
  note r = hash_run_owned [OF this assms(2)]
  have i: "owned (concat (ht_rows (ht_init slots :: ('a, 'b) chash))) = {#}"
    by (simp add: ht_rows_def ht_init_def)
  have "mset (snd (curl_hash_destroy h)) = owned (concat (ht_rows h))"
    by (auto simp: curl_hash_destroy_def ht_destroy_def ht_clear_def ht_rows_def owned_def split: option.splits)
  with r i show ?thesis by (simp add: add_ac)
qed

theorem hash_ownership_witness:
  "\<exists>h. hash_run [HAdd (\<lambda>_. True) ''k'' (Some (1::nat)) None, HAdd (\<lambda>_. True) ''k'' (Some 2) (Some True)]
       (ht_init 1) = (h, [(None, 1), (Some True, 2)], [(None, 1)])
     \<and> mset [(None, 1), (Some True, 2)] = mset ([(None, 1)] @ snd (curl_hash_destroy h))"
proof -
  define h :: "(nat, bool) chash"
    where "h = \<lparr> ht_table = Some [[(''k'', (Some 2, Some True))]], ht_size = 1, ht_slots = 1 \<rparr>"
  have r: "hash_run [HAdd (\<lambda>_. True) ''k'' (Some (1::nat)) None, HAdd (\<lambda>_. True) ''k'' (Some 2) (Some True)]
      (ht_init 1) = (h, [(None, 1), (Some True, 2)], [(None, 1)])"
    by (simp add: h_def ht_init_def curl_hash_add2_def ht_set_def curl_hash_str_def own_def
        hash_elem_clear_ptr_def Let_def)
  have "(0 :: nat) < 1" by simp
  from hash_ownership [OF this r] r show ?thesis by blast
qed

end
