(* ===== verification/CurlList.thy ===== *)
theory CurlList
  imports Prelude
begin

text \<open>
  libcurl's intrusive doubly linked lists, \<open>lib/llist.c\<close>.  The nodes live in a heap and
  point to each other and to their list; a node or a list is known by its address, a
  number.  \<open>dlist h l xs\<close> says that the list \<open>l\<close> of the heap \<open>h\<close> holds the nodes and
  pointers \<open>xs\<close>, in order; every operation on the heap is an operation on \<open>xs\<close>.
\<close>

section \<open>Nodes, lists and their heap\<close>

type_synonym addr = nat

record 'p llist_node =
  nd_list :: "addr option"
  nd_ptr :: "'p option"
  nd_prev :: "addr option"
  nd_next :: "addr option"

record llist =
  ll_head :: "addr option"
  ll_tail :: "addr option"
  ll_size :: nat

record 'p lheap =
  lh_list :: "addr \<Rightarrow> llist"
  lh_node :: "addr \<Rightarrow> 'p llist_node"

definition on_list :: "addr \<Rightarrow> (llist \<Rightarrow> llist) \<Rightarrow> 'p lheap \<Rightarrow> 'p lheap" where
  "on_list l f h = h\<lparr>lh_list := (lh_list h)(l := f (lh_list h l))\<rparr>"

definition on_node :: "addr \<Rightarrow> ('p llist_node \<Rightarrow> 'p llist_node) \<Rightarrow> 'p lheap \<Rightarrow> 'p lheap" where
  "on_node e f h = h\<lparr>lh_node := (lh_node h)(e := f (lh_node h e))\<rparr>"

lemma on_list_sel [simp]:
  "lh_list (on_list l f h) = (lh_list h)(l := f (lh_list h l))"
  "lh_node (on_list l f h) = lh_node h"
  "lh_list (on_node e g h) = lh_list h"
  "lh_node (on_node e g h) = (lh_node h)(e := g (lh_node h e))"
  by (simp_all add: on_list_def on_node_def)

section \<open>Operations\<close>

definition llist_init :: "addr \<Rightarrow> 'p lheap \<Rightarrow> 'p lheap" where
  "llist_init l h = on_list l (\<lambda>_. \<lparr> ll_head = None, ll_tail = None, ll_size = 0 \<rparr>) h"

text \<open>Linking \<open>ne\<close> behind \<open>e\<close> in a list that has elements, or first without \<open>e\<close>.\<close>

definition link_after :: "addr \<Rightarrow> addr option \<Rightarrow> addr \<Rightarrow> 'p lheap \<Rightarrow> 'p lheap" where
  "link_after l e ne h =
     (let enext = (case e of Some a \<Rightarrow> nd_next (lh_node h a) | None \<Rightarrow> ll_head (lh_list h l));
          h1 = on_node ne (\<lambda>n. n\<lparr>nd_next := enext, nd_prev := e\<rparr>) h
      in case e of
           None \<Rightarrow>
             (case ll_head (lh_list h l) of
                Some a \<Rightarrow> on_list l (\<lambda>r. r\<lparr>ll_head := Some ne\<rparr>) (on_node a (\<lambda>n. n\<lparr>nd_prev := Some ne\<rparr>) h1)
              | None \<Rightarrow> on_list l (\<lambda>r. r\<lparr>ll_head := Some ne\<rparr>) h1)
         | Some a \<Rightarrow>
             on_node a (\<lambda>n. n\<lparr>nd_next := Some ne\<rparr>)
               (case nd_next (lh_node h a) of
                  Some b \<Rightarrow> on_node b (\<lambda>n. n\<lparr>nd_prev := Some ne\<rparr>) h1
                | None \<Rightarrow> on_list l (\<lambda>r. r\<lparr>ll_tail := Some ne\<rparr>) h1))"

definition llist_insert_next :: "addr \<Rightarrow> addr option \<Rightarrow> 'p option \<Rightarrow> addr \<Rightarrow> 'p lheap \<Rightarrow> 'p lheap" where
  "llist_insert_next l e p ne h =
     (let h1 = on_node ne (\<lambda>n. n\<lparr>nd_ptr := p, nd_list := Some l\<rparr>) h;
          h2 = (if ll_size (lh_list h l) = 0
                then on_list l (\<lambda>r. r\<lparr>ll_head := Some ne, ll_tail := Some ne\<rparr>)
                       (on_node ne (\<lambda>n. n\<lparr>nd_prev := None, nd_next := None\<rparr>) h1)
                else link_after l e ne h1)
      in on_list l (\<lambda>r. r\<lparr>ll_size := ll_size r + 1\<rparr>) h2)"

definition llist_append :: "addr \<Rightarrow> 'p option \<Rightarrow> addr \<Rightarrow> 'p lheap \<Rightarrow> 'p lheap" where
  "llist_append l p ne h = llist_insert_next l (ll_tail (lh_list h l)) p ne h"

definition unlink_node :: "addr \<Rightarrow> addr \<Rightarrow> 'p lheap \<Rightarrow> 'p lheap" where
  "unlink_node l e h =
     (let p = nd_prev (lh_node h e); n = nd_next (lh_node h e);
          h1 = (if ll_head (lh_list h l) = Some e
                then let h0 = on_list l (\<lambda>r. r\<lparr>ll_head := n\<rparr>) h
                     in case n of
                          None \<Rightarrow> on_list l (\<lambda>r. r\<lparr>ll_tail := None\<rparr>) h0
                        | Some b \<Rightarrow> on_node b (\<lambda>x. x\<lparr>nd_prev := None\<rparr>) h0
                else let h0 = (case p of Some a \<Rightarrow> on_node a (\<lambda>x. x\<lparr>nd_next := n\<rparr>) h | None \<Rightarrow> h)
                     in case n of
                          None \<Rightarrow> on_list l (\<lambda>r. r\<lparr>ll_tail := p\<rparr>) h0
                        | Some b \<Rightarrow> on_node b (\<lambda>x. x\<lparr>nd_prev := p\<rparr>) h0)
      in on_list l (\<lambda>r. r\<lparr>ll_size := ll_size r - 1\<rparr>) h1)"

definition node_take_elem :: "addr option \<Rightarrow> 'p lheap \<Rightarrow> 'p option \<times> 'p lheap" where
  "node_take_elem e h = (case e of
      None \<Rightarrow> (None, h)
    | Some a \<Rightarrow>
        (let h1 = (case nd_list (lh_node h a) of Some l \<Rightarrow> unlink_node l a h | None \<Rightarrow> h)
         in (nd_ptr (lh_node h1 a),
             on_node a (\<lambda>_. \<lparr> nd_list = None, nd_ptr = None, nd_prev = None, nd_next = None \<rparr>) h1)))"

text \<open>The pointers given to the list's destructor are returned.\<close>

definition node_uremove :: "addr option \<Rightarrow> 'p lheap \<Rightarrow> 'p option list \<times> 'p lheap" where
  "node_uremove e h = (case e of
      None \<Rightarrow> ([], h)
    | Some a \<Rightarrow>
        (case nd_list (lh_node h a) of
           None \<Rightarrow> ([], h)
         | Some l \<Rightarrow> (case node_take_elem (Some a) h of (p, h') \<Rightarrow> ([p], h'))))"

text \<open>\<open>while(list->_size > 0)\<close>; \<open>None\<close> is a loop that never ends.\<close>

partial_function (option) llist_destroy :: "addr \<Rightarrow> 'p lheap \<Rightarrow> ('p option list \<times> 'p lheap) option" where
  "llist_destroy l h =
     (if ll_size (lh_list h l) > 0
      then (case node_uremove (ll_tail (lh_list h l)) h of
              (ps, h') \<Rightarrow> Option.bind (llist_destroy l h') (\<lambda>(qs, h''). Some (ps @ qs, h'')))
      else Some ([], h))"

definition llist_head :: "addr \<Rightarrow> 'p lheap \<Rightarrow> addr option" where
  "llist_head l h = ll_head (lh_list h l)"

definition llist_tail :: "addr \<Rightarrow> 'p lheap \<Rightarrow> addr option" where
  "llist_tail l h = ll_tail (lh_list h l)"

definition llist_count :: "addr \<Rightarrow> 'p lheap \<Rightarrow> nat" where
  "llist_count l h = ll_size (lh_list h l)"

definition node_elem :: "addr \<Rightarrow> 'p lheap \<Rightarrow> 'p option" where
  "node_elem e h = nd_ptr (lh_node h e)"

definition node_next :: "addr \<Rightarrow> 'p lheap \<Rightarrow> addr option" where
  "node_next e h = nd_next (lh_node h e)"

definition node_prev :: "addr \<Rightarrow> 'p lheap \<Rightarrow> addr option" where
  "node_prev e h = nd_prev (lh_node h e)"

definition node_llist :: "addr \<Rightarrow> 'p lheap \<Rightarrow> addr option" where
  "node_llist e h = nd_list (lh_node h e)"

section \<open>Lists in the heap\<close>

definition firsta :: "(addr \<times> 'p option) list \<Rightarrow> addr option" where
  "firsta xs = (case xs of [] \<Rightarrow> None | x # _ \<Rightarrow> Some (fst x))"

definition lasta :: "(addr \<times> 'p option) list \<Rightarrow> addr option" where
  "lasta xs = (if xs = [] then None else Some (fst (last xs)))"

definition orelse :: "'a option \<Rightarrow> 'a option \<Rightarrow> 'a option" where
  "orelse a b = (case a of None \<Rightarrow> b | Some x \<Rightarrow> Some x)"

lemma ends_simps [simp]:
  "firsta [] = None" "firsta (x # xs) = Some (fst x)" "lasta [] = None" "lasta (xs @ [x]) = Some (fst x)"
  "lasta [x] = Some (fst x)" "lasta (x # y # ys) = lasta (y # ys)"
  "orelse None q = q" "orelse (Some a) q = Some a" "orelse q None = q"
  by (simp_all add: firsta_def lasta_def orelse_def split: option.split)

lemma lasta_append [simp]: "lasta (xs @ y # ys) = lasta (y # ys)"
  by (simp add: lasta_def)

lemma firsta_append: "firsta (xs @ ys) = orelse (firsta xs) (firsta ys)"
  by (cases xs) auto

text \<open>A run of nodes between the node before it and the node behind it.\<close>

fun seg :: "'p lheap \<Rightarrow> addr \<Rightarrow> addr option \<Rightarrow> (addr \<times> 'p option) list \<Rightarrow> addr option \<Rightarrow> bool" where
  "seg h l before [] behind \<longleftrightarrow> True"
| "seg h l before (x # xs) behind \<longleftrightarrow>
     lh_node h (fst x) = \<lparr> nd_list = Some l, nd_ptr = snd x, nd_prev = before,
                           nd_next = orelse (firsta xs) behind \<rparr>
     \<and> seg h l (Some (fst x)) xs behind"

definition dlist :: "'p lheap \<Rightarrow> addr \<Rightarrow> (addr \<times> 'p option) list \<Rightarrow> bool" where
  "dlist h l xs \<longleftrightarrow> distinct (map fst xs) \<and> seg h l None xs None
     \<and> lh_list h l = \<lparr> ll_head = firsta xs, ll_tail = lasta xs, ll_size = length xs \<rparr>"

lemma seg_append:
  "seg h l b (xs @ ys) n \<longleftrightarrow> seg h l b xs (orelse (firsta ys) n) \<and> seg h l (orelse (lasta xs) b) ys n"
proof (induction xs arbitrary: b)
  case (Cons x xs)
  show ?case
  proof (cases xs)
    case (Cons y zs)
    then show ?thesis using Cons.IH [of "Some (fst x)"] by (simp add: lasta_def)
  qed (simp add: lasta_def)
qed simp

lemma seg_cong:
  "seg h l b xs n \<Longrightarrow> (\<And>a. a \<in> fst ` set xs \<Longrightarrow> lh_node h' a = lh_node h a) \<Longrightarrow> seg h' l b xs n"
  by (induction xs arbitrary: b) auto

lemma seg_list: "seg h l b xs n \<Longrightarrow> a \<in> fst ` set xs \<Longrightarrow> nd_list (lh_node h a) = Some l"
  by (induction xs arbitrary: b) auto

lemma seg_before:
  assumes "seg h l b ys n" and "distinct (map fst ys)"
    and "\<And>y zs. ys = y # zs \<Longrightarrow> lh_node h' (fst y) = (lh_node h (fst y))\<lparr>nd_prev := b'\<rparr>"
    and "\<And>a. a \<in> fst ` set (tl ys) \<Longrightarrow> lh_node h' a = lh_node h a"
  shows "seg h' l b' ys n"
proof (cases ys)
  case (Cons y zs)
  then have "seg h l (Some (fst y)) zs n" using assms(1) by simp
  then have "seg h' l (Some (fst y)) zs n" by (rule seg_cong) (use assms(4) Cons in simp)
  then show ?thesis using assms(1,3) Cons by simp
qed simp

lemma seg_behind:
  assumes "seg h l b (ys @ [y]) n"
    and "lh_node h' (fst y) = (lh_node h (fst y))\<lparr>nd_next := n'\<rparr>"
    and "\<And>a. a \<in> fst ` set ys \<Longrightarrow> lh_node h' a = lh_node h a"
  shows "seg h' l b (ys @ [y]) n'"
proof -
  have "seg h l b ys (Some (fst y))" using assms(1) by (simp add: seg_append)
  then have "seg h' l b ys (Some (fst y))" by (rule seg_cong) (rule assms(3))
  then show ?thesis using assms(1,2) by (simp add: seg_append)
qed

lemma dlist_middle:
  "dlist h l (as @ (e, v) # bs) \<longleftrightarrow>
     distinct (map fst as @ e # map fst bs) \<and> seg h l None as (Some e) \<and> seg h l (Some e) bs None
     \<and> lh_node h e = \<lparr> nd_list = Some l, nd_ptr = v, nd_prev = lasta as, nd_next = firsta bs \<rparr>
     \<and> lh_list h l = \<lparr> ll_head = orelse (firsta as) (Some e), ll_tail = orelse (lasta bs) (Some e),
                       ll_size = length as + 1 + length bs \<rparr>"
proof -
  have "lasta (as @ (e, v) # bs) = orelse (lasta bs) (Some e)"
    by (cases bs rule: rev_cases) (simp_all add: lasta_def)
  then show ?thesis by (auto simp: dlist_def seg_append firsta_append)
qed

lemma firsta_mem: "firsta xs = Some a \<Longrightarrow> a \<in> fst ` set xs"
  by (cases xs) auto

lemma lasta_mem: "lasta xs = Some a \<Longrightarrow> a \<in> fst ` set xs"
  by (cases xs rule: rev_cases) auto

lemma insert_after:
  assumes "dlist h l (as @ (e, v) # bs)" and "ne \<notin> fst ` set (as @ (e, v) # bs)"
  shows "dlist (llist_insert_next l (Some e) p ne h) l (as @ (e, v) # (ne, p) # bs)"
proof -
  let ?h = "llist_insert_next l (Some e) p ne h"
  note d = assms(1) [unfolded dlist_middle]
  have fresh: "ne \<noteq> e" "ne \<notin> fst ` set as" "ne \<notin> fst ` set bs" using assms(2) by auto
  have eb: "e \<notin> fst ` set bs" "e \<notin> fst ` set as" using d by auto
  have bf: "firsta bs \<noteq> Some ne" "firsta bs \<noteq> Some e" using fresh(3) eb by (cases bs; auto)+
  define g where "g = (case firsta bs of Some b \<Rightarrow> (lh_node h)(b := (lh_node h b)\<lparr>nd_prev := Some ne\<rparr>) | None \<Rightarrow> lh_node h)"
  have node: "lh_node ?h = g(ne := \<lparr> nd_list = Some l, nd_ptr = p, nd_prev = Some e, nd_next = firsta bs \<rparr>,
      e := \<lparr> nd_list = Some l, nd_ptr = v, nd_prev = lasta as, nd_next = Some ne \<rparr>)"
    using d fresh bf
    by (auto simp: llist_insert_next_def link_after_def Let_def g_def fun_eq_iff split: option.splits)
  have lst: "lh_list ?h l = \<lparr> ll_head = orelse (firsta as) (Some e), ll_tail = orelse (lasta bs) (Some ne),
      ll_size = length as + 2 + length bs \<rparr>"
    using d fresh bf
    by (cases bs)
       (auto simp: llist_insert_next_def link_after_def Let_def lasta_def split: option.splits)
  have other: "lh_node ?h a = lh_node h a" if "a \<noteq> ne" "a \<noteq> e" "firsta bs \<noteq> Some a" for a
    using that by (auto simp: node g_def split: option.split)
  have "seg ?h l None as (Some e)"
  proof (rule seg_cong)
    show "lh_node ?h a = lh_node h a" if "a \<in> fst ` set as" for a
      using that d fresh eb by (intro other) (auto dest: firsta_mem)
  qed (use d in blast)
  moreover have "seg ?h l (Some ne) bs None"
  proof (rule seg_before)
    show "lh_node ?h (fst y) = (lh_node h (fst y))\<lparr>nd_prev := Some ne\<rparr>" if "bs = y # zs" for y zs
      using that fresh eb by (auto simp: node g_def)
    show "lh_node ?h a = lh_node h a" if "a \<in> fst ` set (tl bs)" for a
      using that d fresh eb by (intro other) (cases bs; auto)+
  qed (use d in auto)
  moreover have "lh_node ?h e = \<lparr> nd_list = Some l, nd_ptr = v, nd_prev = lasta as, nd_next = Some ne \<rparr>"
    "lh_node ?h ne = \<lparr> nd_list = Some l, nd_ptr = p, nd_prev = Some e, nd_next = firsta bs \<rparr>"
    using fresh by (simp_all add: node)
  moreover have "orelse (lasta ((ne, p) # bs)) (Some e) = orelse (lasta bs) (Some ne)"
    by (cases bs) (simp_all add: lasta_def)
  ultimately show ?thesis
    using d fresh lst unfolding dlist_middle by auto
qed

lemma insert_first:
  assumes "dlist h l xs" and "ne \<notin> fst ` set xs"
  shows "dlist (llist_insert_next l None p ne h) l ((ne, p) # xs)"
proof -
  let ?h = "llist_insert_next l None p ne h"
  have d: "distinct (map fst xs)" "seg h l None xs None"
    "lh_list h l = \<lparr> ll_head = firsta xs, ll_tail = lasta xs, ll_size = length xs \<rparr>"
    using assms(1) by (simp_all add: dlist_def)
  show ?thesis
  proof (cases xs)
    case Nil
    then show ?thesis
      using d(3) by (simp add: dlist_def llist_insert_next_def Let_def)
  next
    case (Cons y zs)
    have lst: "ll_head (lh_list h l) = Some (fst y)" "ll_size (lh_list h l) \<noteq> 0" using d(3) Cons by simp_all
    have ne: "ne \<noteq> fst y" "ne \<notin> fst ` set zs" using assms(2) Cons by auto
    have node: "lh_node ?h = (lh_node h)(ne := \<lparr> nd_list = Some l, nd_ptr = p, nd_prev = None, nd_next = Some (fst y) \<rparr>,
        fst y := (lh_node h (fst y))\<lparr>nd_prev := Some ne\<rparr>)"
      using lst ne(1) by (simp add: llist_insert_next_def link_after_def Let_def fun_eq_iff)
    have "seg ?h l (Some ne) xs None"
    proof (rule seg_before [OF d(2,1)])
      show "lh_node ?h (fst y') = (lh_node h (fst y'))\<lparr>nd_prev := Some ne\<rparr>" if "xs = y' # zs'" for y' zs'
        using that Cons by (simp add: node)
      show "lh_node ?h a = lh_node h a" if "a \<in> fst ` set (tl xs)" for a
      proof -
        have a: "a \<in> fst ` set zs" using that Cons by simp
        have "fst y \<notin> fst ` set zs" using d(1) Cons by simp
        with a have "a \<noteq> fst y" "a \<noteq> ne" using ne(2) by metis+
        then show ?thesis by (simp add: node)
      qed
    qed
    moreover have "lh_list ?h l = \<lparr> ll_head = Some ne, ll_tail = lasta ((ne, p) # xs), ll_size = length xs + 1 \<rparr>"
      using lst d(3) Cons by (simp add: llist_insert_next_def link_after_def Let_def lasta_def)
    ultimately show ?thesis using d(1) assms(2) Cons ne node by (simp add: dlist_def)
  qed
qed

lemma append_last:
  assumes "dlist h l xs" and "ne \<notin> fst ` set xs"
  shows "dlist (llist_append l p ne h) l (xs @ [(ne, p)])"
proof (cases xs rule: rev_cases)
  case Nil
  then have "lasta xs = None" by simp
  then show ?thesis using insert_first [OF assms] assms(1) Nil by (simp add: llist_append_def dlist_def)
next
  case (snoc ys y)
  then have "ll_tail (lh_list h l) = Some (fst y)" using assms(1) by (simp add: dlist_def)
  then show ?thesis
    using insert_after [of h l ys "fst y" "snd y" "[]" ne p] assms snoc by (simp add: llist_append_def)
qed

lemma take_elem:
  assumes "dlist h l (as @ (e, v) # bs)"
  shows "\<exists>h'. node_take_elem (Some e) h = (v, h') \<and> dlist h' l (as @ bs) \<and> nd_list (lh_node h' e) = None
    \<and> (\<forall>a. a \<notin> fst ` set (as @ (e, v) # bs) \<longrightarrow> lh_node h' a = lh_node h a)
    \<and> (\<forall>m. m \<noteq> l \<longrightarrow> lh_list h' m = lh_list h m)"
proof -
  note d = assms [unfolded dlist_middle]
  define h' where "h' = snd (node_take_elem (Some e) h)"
  have eb: "e \<notin> fst ` set as" "e \<notin> fst ` set bs" using d by auto
  have headas: "orelse (firsta as) (Some e) = Some e \<longleftrightarrow> as = []" using eb by (cases as) auto
  have bf: "firsta bs \<noteq> Some e" "lasta as \<noteq> Some e"
    using eb by (auto dest: firsta_mem lasta_mem)
  have disj: "a \<notin> fst ` set bs" if "a \<in> fst ` set as" for a using d that by auto
  have val: "node_take_elem (Some e) h = (v, h')"
    using d bf by (auto simp: node_take_elem_def h'_def Let_def unlink_node_def split: option.splits)
  have h': "h' = on_node e (\<lambda>_. \<lparr> nd_list = None, nd_ptr = None, nd_prev = None, nd_next = None \<rparr>) (unlink_node l e h)"
    using d by (simp add: h'_def node_take_elem_def Let_def)
  have links: "nd_prev (lh_node h e) = lasta as" "nd_next (lh_node h e) = firsta bs"
    "ll_head (lh_list h l) = Some e \<longleftrightarrow> as = []"
    using d headas by simp_all
  have lf: "firsta bs \<noteq> Some a" if "lasta as = Some a" for a
    using that disj firsta_mem lasta_mem by metis
  have node: "lh_node (unlink_node l e h) a =
      (if lasta as = Some a then (lh_node h a)\<lparr>nd_next := firsta bs\<rparr>
       else if firsta bs = Some a then (lh_node h a)\<lparr>nd_prev := lasta as\<rparr> else lh_node h a)" for a
    using links lf [of a] by (auto simp: unlink_node_def Let_def split: option.splits)
  have lst: "lh_list h' l = \<lparr> ll_head = firsta (as @ bs), ll_tail = lasta (as @ bs), ll_size = length (as @ bs) \<rparr>"
    using d links
    by (cases as; cases bs) (auto simp: h' unlink_node_def Let_def lasta_def split: option.splits)
  have A: "seg h' l None as (firsta bs)"
  proof (cases as rule: rev_cases)
    case (snoc ys y)
    have "seg h l None (ys @ [y]) (Some e)" using d snoc by simp
    then show ?thesis unfolding snoc
    proof (rule seg_behind)
      show "lh_node h' (fst y) = (lh_node h (fst y))\<lparr>nd_next := firsta bs\<rparr>"
        using snoc eb by (auto simp: h' node)
      show "lh_node h' a = lh_node h a" if "a \<in> fst ` set ys" for a
      proof -
        have "fst y \<notin> fst ` set ys" using d snoc by simp
        with that have "a \<in> fst ` set as" "a \<noteq> fst y" using snoc by (simp, metis)
        then have "a \<noteq> e" "firsta bs \<noteq> Some a" "lasta as \<noteq> Some a"
          using eb disj firsta_mem snoc by (metis, metis, simp)
        then show ?thesis by (simp add: h' node)
      qed
    qed
  qed simp
  have B: "seg h' l (lasta as) bs None"
  proof (rule seg_before)
    show "seg h l (Some e) bs None" "distinct (map fst bs)" using d by simp_all
    show "lh_node h' (fst y) = (lh_node h (fst y))\<lparr>nd_prev := lasta as\<rparr>" if "bs = y # zs" for y zs
      using that eb lf [of "fst y"] by (auto simp: h' node)
    show "lh_node h' a = lh_node h a" if "a \<in> fst ` set (tl bs)" for a
    proof -
      have "a \<in> fst ` set bs" "firsta bs \<noteq> Some a" using that d by (cases bs; auto)+
      then have "a \<noteq> e" "lasta as \<noteq> Some a" using eb disj lasta_mem by metis+
      with \<open>firsta bs \<noteq> Some a\<close> show ?thesis by (simp add: h' node)
    qed
  qed
  have frame: "lh_node h' a = lh_node h a" if "a \<notin> fst ` set (as @ (e, v) # bs)" for a
  proof -
    have "a \<noteq> e" "a \<notin> fst ` set as" "a \<notin> fst ` set bs" using that by auto
    then have "lasta as \<noteq> Some a" "firsta bs \<noteq> Some a" using firsta_mem lasta_mem by metis+
    with \<open>a \<noteq> e\<close> show ?thesis by (simp add: h' node)
  qed
  have lists: "lh_list h' m = lh_list h m" if "m \<noteq> l" for m
    using that by (auto simp: h' unlink_node_def Let_def split: option.splits)
  have "dlist h' l (as @ bs)" using d A B lst by (simp add: dlist_def seg_append)
  moreover have "nd_list (lh_node h' e) = None" by (simp add: h')
  ultimately show ?thesis using val frame lists by blast
qed

section \<open>Histories\<close>

datatype 'p list_op =
    LAppend addr "'p option"
  | LFirst addr "'p option"
  | LAfter addr addr "'p option"
  | LTake addr

fun heap_step :: "addr \<Rightarrow> 'p list_op \<Rightarrow> 'p lheap \<Rightarrow> 'p lheap" where
  "heap_step l (LAppend n p) h = llist_append l p n h"
| "heap_step l (LFirst n p) h = llist_insert_next l None p n h"
| "heap_step l (LAfter e n p) h = llist_insert_next l (Some e) p n h"
| "heap_step l (LTake e) h = snd (node_take_elem (Some e) h)"

fun list_step :: "'p list_op \<Rightarrow> (addr \<times> 'p option) list \<Rightarrow> (addr \<times> 'p option) list" where
  "list_step (LAppend n p) xs = xs @ [(n, p)]"
| "list_step (LFirst n p) xs = (n, p) # xs"
| "list_step (LAfter e n p) xs = concat (map (\<lambda>x. if fst x = e then [x, (n, p)] else [x]) xs)"
| "list_step (LTake e) xs = filter (\<lambda>x. fst x \<noteq> e) xs"

text \<open>What the callers see to: a node inserted is in no list yet, a node removed or
  inserted behind is in this one.\<close>

fun step_ok :: "'p list_op \<Rightarrow> (addr \<times> 'p option) list \<Rightarrow> bool" where
  "step_ok (LAppend n p) xs \<longleftrightarrow> n \<notin> set (map fst xs)"
| "step_ok (LFirst n p) xs \<longleftrightarrow> n \<notin> set (map fst xs)"
| "step_ok (LAfter e n p) xs \<longleftrightarrow> e \<in> set (map fst xs) \<and> n \<notin> set (map fst xs)"
| "step_ok (LTake e) xs \<longleftrightarrow> e \<in> set (map fst xs)"

fun steps_ok :: "'p list_op list \<Rightarrow> (addr \<times> 'p option) list \<Rightarrow> bool" where
  "steps_ok [] xs \<longleftrightarrow> True"
| "steps_ok (oper # opers) xs \<longleftrightarrow> step_ok oper xs \<and> steps_ok opers (list_step oper xs)"

lemma concat_id: "e \<notin> fst ` set xs \<Longrightarrow> concat (map (\<lambda>x. if fst x = e then [x, y] else [x]) xs) = xs"
  by (induction xs) auto

lemma filter_id: "e \<notin> fst ` set xs \<Longrightarrow> filter (\<lambda>x. fst x \<noteq> e) xs = xs"
  by (induction xs) auto

lemma split_at:
  assumes "dlist h l xs" and "e \<in> set (map fst xs)"
  obtains as v bs where "xs = as @ (e, v) # bs" "e \<notin> fst ` set as" "e \<notin> fst ` set bs"
proof -
  from assms(2) obtain v where "(e, v) \<in> set xs" by auto
  then obtain as bs where xs: "xs = as @ (e, v) # bs" by (meson split_list)
  with assms(1) have "e \<notin> fst ` set as" "e \<notin> fst ` set bs" by (auto simp: dlist_middle)
  with xs that show thesis by blast
qed

lemma heap_step_refines:
  assumes "dlist h l xs" and "step_ok oper xs"
  shows "dlist (heap_step l oper h) l (list_step oper xs)"
proof (cases oper)
  case (LAfter e n p)
  with assms(2) have "e \<in> set (map fst xs)" by simp
  from split_at [OF assms(1) this] obtain as v bs
    where s: "xs = as @ (e, v) # bs" "e \<notin> fst ` set as" "e \<notin> fst ` set bs" by metis
  then show ?thesis using LAfter assms insert_after [of h l as e v bs n p] by (auto simp: concat_id)
next
  case (LTake e)
  with assms(2) have "e \<in> set (map fst xs)" by simp
  from split_at [OF assms(1) this] obtain as v bs
    where s: "xs = as @ (e, v) # bs" "e \<notin> fst ` set as" "e \<notin> fst ` set bs" by metis
  then show ?thesis using LTake take_elem assms(1) by (fastforce simp: filter_id)
qed (use assms append_last insert_first in auto)

lemma heap_steps_refine:
  "dlist h l xs \<Longrightarrow> steps_ok opers xs \<Longrightarrow> dlist (fold (heap_step l) opers h) l (fold list_step opers xs)"
  by (induction opers arbitrary: h xs) (auto simp: heap_step_refines)

lemma destroy_refines:
  "dlist h l xs \<Longrightarrow> \<exists>h'. llist_destroy l h = Some (map snd (rev xs), h') \<and> dlist h' l []"
proof (induction xs arbitrary: h rule: rev_induct)
  case Nil
  then show ?case by (subst llist_destroy.simps) (simp add: dlist_def)
next
  case (snoc x xs)
  obtain e v where x: "x = (e, v)" by fastforce
  have h: "ll_tail (lh_list h l) = Some e" "ll_size (lh_list h l) > 0" "nd_list (lh_node h e) = Some l"
    using snoc.prems x by (simp_all add: dlist_def seg_append)
  obtain h1 where t: "node_take_elem (Some e) h = (v, h1)" "dlist h1 l xs"
    using take_elem [of h l xs e v "[]"] snoc.prems x by auto
  obtain h' where "llist_destroy l h1 = Some (map snd (rev xs), h')" "dlist h' l []"
    using snoc.IH [OF t(2)] by blast
  then show ?case
    using h t x by (subst llist_destroy.simps) (simp add: node_uremove_def)
qed

lemma dlist_walk:
  assumes "dlist h l xs" and "i < length xs"
  shows "node_elem (fst (xs ! i)) h = snd (xs ! i) \<and> node_llist (fst (xs ! i)) h = Some l
    \<and> node_next (fst (xs ! i)) h = (if i + 1 < length xs then Some (fst (xs ! (i + 1))) else None)
    \<and> node_prev (fst (xs ! i)) h = (if i = 0 then None else Some (fst (xs ! (i - 1))))"
proof -
  have "xs = take i xs @ (fst (xs ! i), snd (xs ! i)) # drop (Suc i) xs"
    using assms(2) by (simp add: id_take_nth_drop)
  then have "lh_node h (fst (xs ! i)) = \<lparr> nd_list = Some l, nd_ptr = snd (xs ! i),
      nd_prev = lasta (take i xs), nd_next = firsta (drop (Suc i) xs) \<rparr>"
    using assms(1) dlist_middle by metis
  moreover have "firsta (drop (Suc i) xs) = (if i + 1 < length xs then Some (fst (xs ! (i + 1))) else None)"
    by (simp add: firsta_def Cons_nth_drop_Suc [symmetric])
  moreover have "lasta (take i xs) = (if i = 0 then None else Some (fst (xs ! (i - 1))))"
    using assms(2) by (auto simp: lasta_def last_conv_nth)
  ultimately show ?thesis by (simp add: node_elem_def node_llist_def node_next_def node_prev_def)
qed

lemma init_dlist: "dlist (llist_init l h) l []"
  by (simp add: dlist_def llist_init_def)

text \<open>
  A list is a sequence of nodes with their pointers: after \<open>Curl_llist_init\<close> and any
  history of insertions (first, last, behind a node) of nodes that are in no list and
  removals of nodes that are in it, the heap holds exactly the sequence this history
  gives.  Head, tail, count, the links of every node and its pointer agree with the
  sequence, and \<open>Curl_llist_destroy\<close> ends, with the destructor called on every pointer
  once, from the last to the first, and the list empty.
\<close>

theorem list_histories:
  assumes "steps_ok opers []"
  shows "let g = fold (heap_step l) opers (llist_init l h); xs = fold list_step opers []
    in llist_count l g = length xs \<and> llist_head l g = firsta xs \<and> llist_tail l g = lasta xs
      \<and> (\<forall>i < length xs. node_elem (fst (xs ! i)) g = snd (xs ! i)
            \<and> node_llist (fst (xs ! i)) g = Some l
            \<and> node_next (fst (xs ! i)) g = (if i + 1 < length xs then Some (fst (xs ! (i + 1))) else None)
            \<and> node_prev (fst (xs ! i)) g = (if i = 0 then None else Some (fst (xs ! (i - 1)))))
      \<and> (\<exists>g'. llist_destroy l g = Some (map snd (rev xs), g') \<and> llist_count l g' = 0 \<and> llist_head l g' = None)"
proof -
  have d: "dlist (fold (heap_step l) opers (llist_init l h)) l (fold list_step opers [])"
    by (rule heap_steps_refine [OF init_dlist assms])
  show ?thesis
    using d dlist_walk [OF d] destroy_refines [OF d]
    by (auto simp: Let_def dlist_def llist_count_def llist_head_def llist_tail_def)
qed

definition list_example :: "nat list_op list" where
  "list_example = [LAppend 10 (Some 1), LFirst 20 (Some 2), LAfter 20 30 None, LAppend 40 (Some 4), LTake 10]"

theorem list_histories_witness:
  "\<exists>g'. llist_destroy 0 (fold (heap_step 0) list_example (llist_init 0 \<lparr> lh_list = \<lambda>_. \<lparr> ll_head = None, ll_tail = None, ll_size = 0 \<rparr>,
       lh_node = \<lambda>_. \<lparr> nd_list = None, nd_ptr = None, nd_prev = None, nd_next = None \<rparr> \<rparr>))
     = Some ([Some 4, None, Some 2], g') \<and> llist_count 0 g' = 0 \<and> llist_head 0 g' = None"
proof -
  have ok: "steps_ok list_example []" by (simp add: list_example_def)
  have "fold list_step list_example [] = [(20, Some 2), (30, None), (40, Some 4)]"
    by (simp add: list_example_def)
  then show ?thesis using list_histories [OF ok] by (simp add: Let_def)
qed

end
