(* ===== verification/CurlBase64.thy ===== *)
theory CurlBase64
  imports CurlBuffer
begin

text \<open>
  Base64 as libcurl has it (\<open>lib/curlx/base64.c\<close>).  \<open>mem n\<close> tells whether an allocation
  of \<open>n\<close> bytes succeeds; what the code writes through \<open>outptr\<close> and \<open>outlen\<close> is the result,
  a string with its length (the empty one for a null pointer).
\<close>

section \<open>Alphabets\<close>

definition base64encdec :: string where
  "base64encdec = ''ABCDEFGHIJKLMNOPQRSTUVWXYZabcdefghijklmnopqrstuvwxyz0123456789+/''"

definition base64url :: string where
  "base64url = ''ABCDEFGHIJKLMNOPQRSTUVWXYZabcdefghijklmnopqrstuvwxyz0123456789-_''"

definition decodetable :: "nat list" where
  "decodetable = [
    62, 255, 255, 255, 63, 52, 53, 54, 55, 56, 57, 58, 59, 60, 61, 255,
    255, 255, 255, 255, 255, 255, 0, 1, 2, 3, 4, 5, 6, 7, 8, 9,
    10, 11, 12, 13, 14, 15, 16, 17, 18, 19, 20, 21, 22, 23, 24, 25,
    255, 255, 255, 255, 255, 255, 26, 27, 28, 29, 30, 31, 32, 33, 34, 35,
    36, 37, 38, 39, 40, 41, 42, 43, 44, 45, 46, 47, 48, 49, 50, 51]"

text \<open>\<open>lookup\<close>: all 0xff but for the table copied to where \<open>'+'\<close> is.\<close>

definition b64_lookup :: "char \<Rightarrow> nat" where
  "b64_lookup c = (if 43 \<le> cc c \<and> cc c < 43 + length decodetable then decodetable ! (cc c - 43) else 255)"

definition byte :: "nat \<Rightarrow> char" where
  "byte x = char_of (x AND 255)"

section \<open>Decoding\<close>

text \<open>The trailing equal signs counted, two at most; \<open>rev\<close> is the text from its end.\<close>

fun count_padding :: "nat \<Rightarrow> string \<Rightarrow> nat option" where
  "count_padding n [] = Some n"
| "count_padding n (c # cs) =
     (if c = CHR ''='' then (if n + 1 > 2 then None else count_padding (n + 1) cs) else Some n)"

fun quantum_bits :: "nat \<Rightarrow> string \<Rightarrow> nat option" where
  "quantum_bits x [] = Some x"
| "quantum_bits x (c # cs) =
     (if b64_lookup c = 255 then None else quantum_bits (push_bit 6 x OR b64_lookup c) cs)"

text \<open>The complete quantums: what they decode to and what is left.\<close>

fun decode_quantums :: "nat \<Rightarrow> string \<Rightarrow> (string \<times> string) option" where
  "decode_quantums 0 src = Some ([], src)"
| "decode_quantums (Suc n) src =
     (case quantum_bits 0 (take 4 src) of
        None \<Rightarrow> None
      | Some x \<Rightarrow>
          (case decode_quantums n (drop 4 src) of
             None \<Rightarrow> None
           | Some (out, rest) \<Rightarrow> Some ([byte (drop_bit 16 x), byte (drop_bit 8 x), byte x] @ out, rest)))"

text \<open>The last quantum, with \<open>padding\<close> equal signs in it.\<close>

fun padded_bits :: "nat \<Rightarrow> nat \<Rightarrow> nat \<Rightarrow> string \<Rightarrow> nat option" where
  "padded_bits padding padc x [] = Some x"
| "padded_bits padding padc x (c # cs) =
     (if c = CHR ''=''
      then if padc + 1 > padding then None else padded_bits padding (padc + 1) (push_bit 6 x) cs
      else if b64_lookup c = 255 then None
      else padded_bits padding padc (push_bit 6 x OR b64_lookup c) cs)"

definition base64_decode :: "(nat \<Rightarrow> bool) \<Rightarrow> string \<Rightarrow> curle + string" where
  "base64_decode mem src0 =
     (let src = c_string src0; srclen = length src
      in if srclen = 0 \<or> srclen mod 4 \<noteq> 0 then Inl CURLE_BAD_CONTENT_ENCODING
         else case count_padding 0 (rev src) of
           None \<Rightarrow> Inl CURLE_BAD_CONTENT_ENCODING
         | Some padding \<Rightarrow>
             (let numQuantums = srclen div 4;
                  fullQuantums = numQuantums - (if padding \<noteq> 0 then 1 else 0);
                  rawlen = numQuantums * 3 - padding
              in if \<not> mem (rawlen + 1) then Inl CURLE_OUT_OF_MEMORY
                 else case decode_quantums fullQuantums src of
                   None \<Rightarrow> Inl CURLE_BAD_CONTENT_ENCODING
                 | Some (out, rest) \<Rightarrow>
                     (if padding = 0 then Inr out
                      else case padded_bits padding 0 0 (take 4 rest) of
                        None \<Rightarrow> Inl CURLE_BAD_CONTENT_ENCODING
                      | Some x \<Rightarrow>
                          Inr (out @ byte (drop_bit 16 x)
                                 # (if padding = 1 then [byte (drop_bit 8 x)] else [])))))"

section \<open>Encoding\<close>

definition max_base64_input :: nat where
  "max_base64_input = 16000000"

text \<open>\<open>padbyte\<close> is the character that fills the last quantum, if one does.\<close>

fun encode_loop :: "string \<Rightarrow> string \<Rightarrow> string \<Rightarrow> string" where
  "encode_loop table64 padbyte (a # b # c # rest) =
     [table64 ! drop_bit 2 (cc a),
      table64 ! (push_bit 4 (cc a AND 0x03) OR drop_bit 4 (cc b)),
      table64 ! (push_bit 2 (cc b AND 0x0F) OR drop_bit 6 (cc c AND 0xC0)),
      table64 ! (cc c AND 0x3F)] @ encode_loop table64 padbyte rest"
| "encode_loop table64 padbyte [a, b] =
     [table64 ! drop_bit 2 (cc a),
      table64 ! (push_bit 4 (cc a AND 0x03) OR drop_bit 4 (cc b AND 0xF0)),
      table64 ! push_bit 2 (cc b AND 0x0F)] @ padbyte"
| "encode_loop table64 padbyte [a] =
     [table64 ! drop_bit 2 (cc a), table64 ! push_bit 4 (cc a AND 0x03)] @ padbyte @ padbyte"
| "encode_loop table64 padbyte [] = []"

definition base64_encode_with :: "string \<Rightarrow> string \<Rightarrow> (nat \<Rightarrow> bool) \<Rightarrow> string \<Rightarrow> curle + string" where
  "base64_encode_with table64 padbyte mem inp =
     (if length inp = 0 then Inr []
      else if length inp > max_base64_input then Inl CURLE_TOO_LARGE
      else if \<not> mem ((length inp + 2) div 3 * 4 + 1) then Inl CURLE_OUT_OF_MEMORY
      else Inr (encode_loop table64 padbyte inp))"

definition base64_encode :: "(nat \<Rightarrow> bool) \<Rightarrow> string \<Rightarrow> curle + string" where
  "base64_encode mem inp = base64_encode_with base64encdec ''='' mem inp"

definition base64url_encode :: "(nat \<Rightarrow> bool) \<Rightarrow> string \<Rightarrow> curle + string" where
  "base64url_encode mem inp = base64_encode_with base64url [] mem inp"

section \<open>Arithmetic of the quantums\<close>

lemma lookup_table: "i < 64 \<Longrightarrow> b64_lookup (base64encdec ! i) = i"
proof -
  have "map b64_lookup base64encdec = [0..<64]"
    by (simp add: b64_lookup_def base64encdec_def decodetable_def cc_def upt_conv_Cons)
  then have "\<And>i. i < 64 \<Longrightarrow> map b64_lookup base64encdec ! i = i" by simp
  moreover have "length base64encdec = 64" by (simp add: base64encdec_def)
  ultimately show "i < 64 \<Longrightarrow> b64_lookup (base64encdec ! i) = i" by (metis nth_map)
qed

lemma lookup_not_pad: "b64_lookup CHR ''='' = 255" "b64_lookup CHR 0x00 = 255"
  by (simp_all add: b64_lookup_def cc_def decodetable_def)

lemma table_char:
  assumes "i < 64"
  shows "base64encdec ! i \<noteq> CHR ''=''" and "base64encdec ! i \<noteq> CHR 0x00"
  using lookup_table [OF assms] lookup_not_pad assms by auto

lemma masks:
  "x AND 0x03 = x mod 4" "x AND 0x0F = x mod 16" "x AND 0x3F = x mod 64" "x AND 255 = x mod (256 :: nat)"
  using take_bit_eq_mask [of 2 x] take_bit_eq_mask [of 4 x] take_bit_eq_mask [of 6 x] take_bit_eq_mask [of 8 x]
  by (simp_all add: take_bit_eq_mod mask_eq_exp_minus_1)

lemma high_mask:
  assumes "(x :: nat) < 256"
  shows "drop_bit 6 (x AND 0xC0) = x div 64" and "drop_bit 4 (x AND 0xF0) = x div 16"
proof -
  have "drop_bit 6 (x AND 0xC0) = drop_bit 6 x AND drop_bit 6 0xC0"
    "drop_bit 4 (x AND 0xF0) = drop_bit 4 x AND drop_bit 4 0xF0"
    by (simp_all only: drop_bit_and)
  moreover have "drop_bit 6 (0xC0 :: nat) = mask 2" "drop_bit 4 (0xF0 :: nat) = mask 4"
    by (simp_all add: mask_eq_exp_minus_1 drop_bit_eq_div)
  ultimately have "drop_bit 6 (x AND 0xC0) = take_bit 2 (drop_bit 6 x)"
    "drop_bit 4 (x AND 0xF0) = take_bit 4 (drop_bit 4 x)"
    by (simp_all only: take_bit_eq_mask)
  then have "drop_bit 6 (x AND 0xC0) = take_bit 2 (x div 64)" "drop_bit 4 (x AND 0xF0) = take_bit 4 (x div 16)"
    by (simp_all add: drop_bit_eq_div [of _ x])
  moreover have "x div 64 < 4" "x div 16 < 16" using assms by auto
  ultimately show "drop_bit 6 (x AND 0xC0) = x div 64" and "drop_bit 4 (x AND 0xF0) = x div 16"
    by (simp_all add: take_bit_nat_eq_self)
qed

lemma byte_mod: "byte x = char_of (x mod 256)"
  by (simp add: byte_def masks)

lemma indices:
  assumes "a < 256" "b < 256" "c < (256 :: nat)"
  shows "drop_bit 2 a = a div 4" "push_bit 4 (a AND 0x03) OR drop_bit 4 b = a mod 4 * 16 + b div 16"
    "push_bit 2 (b AND 0x0F) OR drop_bit 6 (c AND 0xC0) = b mod 16 * 4 + c div 64"
    "push_bit 4 (a AND 0x03) OR drop_bit 4 (b AND 0xF0) = a mod 4 * 16 + b div 16"
    "push_bit 4 (a AND 0x03) = a mod 4 * 16" "push_bit 2 (b AND 0x0F) = b mod 16 * 4"
proof -
  have "b div 16 < 2 ^ 4" "c div 64 < 2 ^ 2" using assms by auto
  then show "push_bit 4 (a AND 0x03) OR drop_bit 4 b = a mod 4 * 16 + b div 16"
    "push_bit 2 (b AND 0x0F) OR drop_bit 6 (c AND 0xC0) = b mod 16 * 4 + c div 64"
    "push_bit 4 (a AND 0x03) OR drop_bit 4 (b AND 0xF0) = a mod 4 * 16 + b div 16"
    unfolding high_mask(1) [OF assms(3)] high_mask(2) [OF assms(2)] masks
    by (simp_all add: or_low drop_bit_eq_div)
qed (simp_all add: drop_bit_eq_div push_bit_eq_mult masks)

lemma quantum_four:
  assumes "i < 64" "j < 64" "k < 64" "m < 64"
  shows "quantum_bits 0 [base64encdec ! i, base64encdec ! j, base64encdec ! k, base64encdec ! m]
    = Some (((i * 64 + j) * 64 + k) * 64 + m)"
  using assms by (simp add: lookup_table or_low)

lemma bytes_of_sum:
  assumes "a < 256" "b < 256" "c < (256 :: nat)"
  shows "drop_bit 16 (a * 65536 + b * 256 + c) = a" "drop_bit 8 (a * 65536 + b * 256 + c) mod 256 = b"
    "(a * 65536 + b * 256 + c) mod 256 = c"
proof -
  define n where "n = a * 256 + b"
  have s: "a * 65536 + b * 256 + c = n * 256 + c" by (simp add: n_def)
  have "(n * 256 + c) div 256 = n" "(n * 256 + c) mod 256 = c" using assms(3) by simp_all
  moreover have "n mod 256 = b" "n div 256 = a" using assms(2) by (simp_all add: n_def)
  ultimately show "drop_bit 16 (a * 65536 + b * 256 + c) = a"
    "drop_bit 8 (a * 65536 + b * 256 + c) mod 256 = b" "(a * 65536 + b * 256 + c) mod 256 = c"
    unfolding s using div_mult2_eq [of "n * 256 + c" 256 256] by (simp_all add: drop_bit_eq_div)
qed

abbreviation enc :: "string \<Rightarrow> string" where
  "enc \<equiv> encode_loop base64encdec ''=''"

lemma enc_simps:
  "enc (a # b # c # rest) = [base64encdec ! (cc a div 4), base64encdec ! (cc a mod 4 * 16 + cc b div 16),
     base64encdec ! (cc b mod 16 * 4 + cc c div 64), base64encdec ! (cc c mod 64)] @ enc rest"
  "enc [a, b] = [base64encdec ! (cc a div 4), base64encdec ! (cc a mod 4 * 16 + cc b div 16),
     base64encdec ! (cc b mod 16 * 4), CHR ''='']"
  "enc [a] = [base64encdec ! (cc a div 4), base64encdec ! (cc a mod 4 * 16), CHR ''='', CHR ''='']"
  using indices [of "cc a" "cc b" "cc c"] by (simp_all add: masks)

declare encode_loop.simps [simp del] quantum_bits.simps [simp del]

lemma enc_Nil [simp]: "enc [] = []"
  by (simp add: encode_loop.simps)

lemma index_less:
  "cc a div 4 < 64" "cc a mod 4 * 16 + cc b div 16 < 64" "cc b mod 16 * 4 + cc c div 64 < 64"
  "cc c mod 64 < 64" "cc b mod 16 * 4 < 64" "cc a mod 4 * 16 < 64"
proof -
  have "cc a mod 4 \<le> 3" "cc b mod 16 \<le> 15" by simp_all
  moreover have "cc a div 4 < 64" "cc b div 16 < 16" "cc c div 64 < 4"
    by (simp_all add: less_mult_imp_div_less)
  ultimately show "cc a div 4 < 64" "cc a mod 4 * 16 + cc b div 16 < 64" "cc b mod 16 * 4 + cc c div 64 < 64"
    "cc c mod 64 < 64" "cc b mod 16 * 4 < 64" "cc a mod 4 * 16 < 64" by simp_all
qed

lemma recombine:
  "((cc a div 4 * 64 + (cc a mod 4 * 16 + cc b div 16)) * 64 + (cc b mod 16 * 4 + cc c div 64)) * 64 + cc c mod 64
     = cc a * 65536 + cc b * 256 + cc c"
  "((cc a div 4 * 64 + (cc a mod 4 * 16 + cc b div 16)) * 64 + cc b mod 16 * 4) * 64
     = cc a * 65536 + cc b * 256"
  "(cc a div 4 * 64 + cc a mod 4 * 16) * 4096 = cc a * 65536"
proof -
  define a1 a2 b1 b2 c1 c2 where "a1 = cc a div 4" "a2 = cc a mod 4" "b1 = cc b div 16" "b2 = cc b mod 16"
    "c1 = cc c div 64" "c2 = cc c mod 64"
  note d = this
  have e: "cc a = 4 * a1 + a2" "cc b = 16 * b1 + b2" "cc c = 64 * c1 + c2" by (simp_all add: d)
  show "((cc a div 4 * 64 + (cc a mod 4 * 16 + cc b div 16)) * 64 + (cc b mod 16 * 4 + cc c div 64)) * 64
      + cc c mod 64 = cc a * 65536 + cc b * 256 + cc c"
    unfolding d [symmetric] using e by simp
  show "((cc a div 4 * 64 + (cc a mod 4 * 16 + cc b div 16)) * 64 + cc b mod 16 * 4) * 64
      = cc a * 65536 + cc b * 256"
    unfolding d [symmetric] using e by simp
  show "(cc a div 4 * 64 + cc a mod 4 * 16) * 4096 = cc a * 65536"
    unfolding d [symmetric] using e by simp
qed

lemma decode_enc_full:
  "decode_quantums n (enc (xs @ ys)) = Some (xs, enc ys)" if "length xs = 3 * n"
  using that
proof (induction n arbitrary: xs)
  case (Suc n)
  then obtain a b c zs where xs: "xs = a # b # c # zs" "length zs = 3 * n"
    by (cases xs rule: remdups_adj.cases; cases "tl (tl xs)") auto
  note q = quantum_four [OF index_less(1) [of a] index_less(2) [of a b] index_less(3) [of b c] index_less(4) [of c]]
  note s = bytes_of_sum [OF cc_less [of a] cc_less [of b] cc_less [of c]]
  show ?case
    using Suc.IH [OF xs(2)] by (simp add: xs(1) enc_simps q [unfolded recombine] s byte_mod)
qed simp

lemma enc_induct [case_names Three Two One Nil]:
  assumes "\<And>a b c rest. P rest \<Longrightarrow> P (a # b # c # rest)"
    and "\<And>a b. P [a, b]" and "\<And>a. P [a]" and "P []"
  shows "P (xs :: string)"
  by (rule encode_loop.induct [of "\<lambda>_ _. P"]) (use assms in blast)+

lemma table_set: "i < 64 \<Longrightarrow> base64encdec ! i \<in> set base64encdec"
  by (rule nth_mem) (simp add: base64encdec_def)

lemma enc_chars: "set (enc xs) \<subseteq> set base64encdec \<union> {CHR ''=''}"
  by (induction xs rule: enc_induct)
     (simp_all add: enc_simps table_set index_less)

lemma enc_length: "length (enc xs) = (length xs + 2) div 3 * 4"
  by (induction xs rule: enc_induct)
     (simp_all add: enc_simps, presburger)

lemma enc_shape:
  "xs \<noteq> [] \<Longrightarrow> \<exists>ys c. enc xs = ys @ c # replicate ((3 - length xs mod 3) mod 3) CHR ''='' \<and> c \<noteq> CHR ''=''"
  (is "_ \<Longrightarrow> ?P xs")
proof (induction xs rule: enc_induct)
  case (Three a b c rest)
  let ?four = "[base64encdec ! (cc a div 4), base64encdec ! (cc a mod 4 * 16 + cc b div 16),
     base64encdec ! (cc b mod 16 * 4 + cc c div 64), base64encdec ! (cc c mod 64)]"
  show ?case
  proof (cases "rest = []")
    case True
    have "enc (a # b # c # rest) = butlast ?four @ last ?four # replicate 0 CHR ''=''"
      using True by (simp add: enc_simps)
    moreover have "last ?four \<noteq> CHR ''=''" using table_char(1) index_less(4) [of c] by simp
    ultimately show ?thesis using True by (intro exI [of _ "butlast ?four"] exI [of _ "last ?four"]) simp
  next
    case False
    with Three obtain ys d where "enc rest = ys @ d # replicate ((3 - length rest mod 3) mod 3) CHR ''=''"
      "d \<noteq> CHR ''=''" by blast
    moreover have "length (a # b # c # rest) mod 3 = length rest mod 3" by simp
    ultimately show ?thesis by (intro exI [of _ "?four @ ys"] exI [of _ d]) (simp add: enc_simps)
  qed
next
  case (Two a b)
  show ?case
    by (intro exI [of _ "[base64encdec ! (cc a div 4), base64encdec ! (cc a mod 4 * 16 + cc b div 16)]"]
        exI [of _ "base64encdec ! (cc b mod 16 * 4)"]) (simp add: enc_simps table_char index_less)
next
  case (One a)
  show ?case
    by (intro exI [of _ "[base64encdec ! (cc a div 4)]"] exI [of _ "base64encdec ! (cc a mod 4 * 16)"])
       (simp add: enc_simps table_char index_less numeral_2_eq_2)
qed simp

lemma count_padding_shape:
  "c \<noteq> CHR ''='' \<Longrightarrow> n + k \<le> 2 \<Longrightarrow> count_padding n (replicate k CHR ''='' @ c # cs) = Some (n + k)"
  by (induction k arbitrary: n) auto

lemma padding_of_enc:
  assumes "xs \<noteq> []"
  shows "count_padding 0 (rev (enc xs)) = Some ((3 - length xs mod 3) mod 3)"
proof -
  obtain ys c where s: "enc xs = ys @ c # replicate ((3 - length xs mod 3) mod 3) CHR ''=''" "c \<noteq> CHR ''=''"
    using enc_shape [OF assms] by blast
  have "(3 - length xs mod 3) mod 3 \<le> 2" by simp
  then show ?thesis using count_padding_shape [OF s(2), of 0 "(3 - length xs mod 3) mod 3" "rev ys"] s(1) by simp
qed

lemma c_string_enc: "c_string (enc xs) = enc xs"
proof -
  have "CHR 0x00 \<notin> set base64encdec \<union> {CHR ''=''}" by (simp add: base64encdec_def)
  then show ?thesis using enc_chars [of xs] by (auto simp: c_string_def takeWhile_eq_all_conv)
qed

lemma padded_last:
  assumes "i < 64" "j < 64"
  shows "k < 64 \<Longrightarrow> padded_bits 1 0 0 [base64encdec ! i, base64encdec ! j, base64encdec ! k, CHR ''='']
      = Some (((i * 64 + j) * 64 + k) * 64)"
    and "padded_bits 2 0 0 [base64encdec ! i, base64encdec ! j, CHR ''='', CHR ''=''] = Some ((i * 64 + j) * 4096)"
  using assms by (simp_all add: lookup_table table_char or_low) (simp_all add: push_bit_eq_mult)

lemma padded_two: "padded_bits 1 0 0 (enc [a, b]) = Some (cc a * 65536 + cc b * 256)"
  using padded_last(1) [OF index_less(1) [of a] index_less(2) [of a b] index_less(5) [of b]]
  unfolding enc_simps recombine .

lemma padded_one: "padded_bits 2 0 0 (enc [a]) = Some (cc a * 65536)"
  using padded_last(2) [OF index_less(1) [of a] index_less(6) [of a]] unfolding enc_simps recombine .

lemma decode_encode:
  assumes "xs \<noteq> []" and "mem (length xs + 1)"
  shows "base64_decode mem (enc xs) = Inr xs"
proof -
  define n r where "n = length xs div 3" and "r = length xs mod 3"
  define us vs where "us = take (3 * n) xs" and "vs = drop (3 * n) xs"
  have xs: "xs = us @ vs" and us: "length us = 3 * n" and vs: "length vs = r" and len: "length xs = n * 3 + r"
    by (simp_all add: us_def vs_def n_def r_def minus_mult_div_eq_mod)
  have r: "r < 3" by (simp add: r_def)
  note dec = decode_enc_full [OF us, of vs, folded xs]
  note pad = padding_of_enc [OF assms(1), folded r_def]
  have l: "length (enc xs) = (length xs + 2) div 3 * 4" by (rule enc_length)
  have pos: "length (enc xs) \<noteq> 0" using assms(1) by (simp add: l) (cases xs; simp)
  consider "r = 0" | "r = 1" | "r = 2" using r by linarith
  then show ?thesis
  proof cases
    case 1
    then have "vs = []" "length (enc xs) div 4 = n" using vs len by (simp_all add: l)
    then show ?thesis
      using pos dec pad 1 l assms(2) len xs by (simp add: base64_decode_def c_string_enc)
  next
    case 2
    then obtain a where "vs = [a]" using vs by (cases vs) auto
    moreover have "length (enc xs) div 4 = n + 1" using 2 len by (simp add: l)
    ultimately show ?thesis
      using pos dec pad 2 l assms(2) len xs padded_one [of a] bytes_of_sum(1) [of "cc a" 0 0]
      by (simp add: base64_decode_def c_string_enc enc_simps byte_mod)
  next
    case 3
    then obtain a b where "vs = [a, b]" using vs by (cases vs; cases "tl vs") auto
    moreover have "length (enc xs) div 4 = n + 1" using 3 len by (simp add: l)
    ultimately show ?thesis
      using pos dec pad 3 l assms(2) len xs padded_two [of a b] bytes_of_sum [of "cc a" "cc b" 0]
      by (simp add: base64_decode_def c_string_enc enc_simps byte_mod)
  qed
qed

text \<open>
  Base64 round trip: given memory, every nonempty input of at most 16000000 bytes is
  encoded, in four characters of the alphabet (or the equal sign) for every three bytes
  begun, and \<open>curlx_base64_decode\<close> returns the input, whether the last quantum is full
  or has one or two equal signs.
\<close>

theorem base64_roundtrip:
  assumes "xs \<noteq> []" and "length xs \<le> max_base64_input" and "\<And>n. mem n"
  shows "\<exists>s. base64_encode mem xs = Inr s \<and> length s = (length xs + 2) div 3 * 4
    \<and> set s \<subseteq> set base64encdec \<union> {CHR ''=''} \<and> base64_decode mem s = Inr xs"
proof -
  have "base64_encode mem xs = Inr (enc xs)"
    using assms by (simp add: base64_encode_def base64_encode_with_def)
  then show ?thesis using enc_length [of xs] enc_chars [of xs] decode_encode [OF assms(1), of mem] assms(3) by blast
qed

theorem base64_roundtrip_witness:
  "\<exists>s. base64_encode (\<lambda>_. True) ''user:pass'' = Inr s \<and> length s = 12 \<and> base64_decode (\<lambda>_. True) s = Inr ''user:pass''"
  using base64_roundtrip [of "''user:pass''" "\<lambda>_. True"] by (auto simp: max_base64_input_def)

end
