(* ===== verification/CurlBufq.thy ===== *)
theory CurlBufq
  imports CurlBuffer
begin

text \<open>
  libcurl's buffer queues, \<open>lib/bufq.c\<close>: the bytes received from or sent to a
  connection, in a list of chunks of one size, with the spare chunks of the queue or of a
  pool.  \<open>bq_head\<close> is the list of chunks from the one read to the one written, which is
  the last (\<open>tail\<close> in the code); chunks keep their whole memory.  \<open>mem n\<close> tells whether
  an allocation of \<open>n\<close> bytes succeeds.  A reader or writer callback is a function of its
  own state.  What a client relies on is the locale \<open>byte_queue\<close>.
\<close>

section \<open>The contract\<close>

text \<open>\<open>put xs q\<close> tells how many bytes of \<open>xs\<close> it took, \<open>get n q\<close> which bytes it gave.\<close>

datatype queue_op = Enq string | Deq nat

locale byte_queue =
  fixes inv :: "'q \<Rightarrow> bool"
    and content :: "'q \<Rightarrow> string"
    and put :: "string \<Rightarrow> 'q \<Rightarrow> nat \<times> 'q"
    and get :: "nat \<Rightarrow> 'q \<Rightarrow> string \<times> 'q"
  assumes put_ok: "inv q \<Longrightarrow> put xs q = (n, q') \<Longrightarrow> inv q' \<and> n \<le> length xs \<and> content q' = content q @ take n xs"
    and get_ok: "inv q \<Longrightarrow> get n q = (out, q') \<Longrightarrow> inv q' \<and> out = take n (content q) \<and> content q' = drop n (content q)"
begin

text \<open>A history, with all it took and all it gave.\<close>

fun run :: "queue_op list \<Rightarrow> 'q \<Rightarrow> string \<times> string \<times> 'q" where
  "run [] q = ([], [], q)"
| "run (Enq xs # opers) q = (case put xs q of (n, q1) \<Rightarrow>
     (case run opers q1 of (i, out, q') \<Rightarrow> (take n xs @ i, out, q')))"
| "run (Deq n # opers) q = (case get n q of (xs, q1) \<Rightarrow>
     (case run opers q1 of (i, out, q') \<Rightarrow> (i, xs @ out, q')))"

lemma run_fifo: "inv q \<Longrightarrow> run opers q = (i, out, q') \<Longrightarrow> inv q' \<and> content q @ i = out @ content q'"
proof (induction opers q arbitrary: i out q' rule: run.induct)
  case (2 xs opers q)
  obtain n q1 where p: "put xs q = (n, q1)" by fastforce
  obtain i1 out1 q2 where r: "run opers q1 = (i1, out1, q2)" by (metis prod_cases3)
  have e: "i = take n xs @ i1" "out = out1" "q' = q2" using "2.prems"(2) by (simp_all add: p r)
  note ok = put_ok [OF "2.prems"(1) p]
  have "inv q2 \<and> content q1 @ i1 = out1 @ content q2"
    by (rule "2.IH" [OF p [symmetric] _ r]) (use ok in blast)
  moreover have "content q1 @ i1 = content q @ i" using ok by (simp only: e append_assoc)
  ultimately show ?case by (simp only: e)
next
  case (3 n opers q)
  obtain xs q1 where g: "get n q = (xs, q1)" by fastforce
  obtain i1 out1 q2 where r: "run opers q1 = (i1, out1, q2)" by (metis prod_cases3)
  have e: "i = i1" "out = xs @ out1" "q' = q2" using "3.prems"(2) by (simp_all add: g r)
  note ok = get_ok [OF "3.prems"(1) g]
  have "inv q2 \<and> content q1 @ i1 = out1 @ content q2"
    by (rule "3.IH" [OF g [symmetric] _ r]) (use ok in blast)
  moreover have "content q = xs @ content q1" using ok append_take_drop_id [of n "content q"] by metis
  ultimately show ?case by (simp only: e append_assoc simp_thms)
qed simp

end

section \<open>Chunks\<close>

record buf_chunk =
  ck_data :: string
  ck_dlen :: nat
  ck_r :: nat
  ck_w :: nat

definition new_chunk :: "nat \<Rightarrow> buf_chunk" where
  "new_chunk n = \<lparr> ck_data = replicate n CHR 0x00, ck_dlen = n, ck_r = 0, ck_w = 0 \<rparr>"

definition chunk_is_empty :: "buf_chunk \<Rightarrow> bool" where
  "chunk_is_empty c \<longleftrightarrow> ck_w c \<le> ck_r c"

definition chunk_is_full :: "buf_chunk \<Rightarrow> bool" where
  "chunk_is_full c \<longleftrightarrow> ck_dlen c \<le> ck_w c"

definition chunk_len :: "buf_chunk \<Rightarrow> nat" where
  "chunk_len c = ck_w c - ck_r c"

definition chunk_reset :: "buf_chunk \<Rightarrow> buf_chunk" where
  "chunk_reset c = c\<lparr>ck_r := 0, ck_w := 0\<rparr>"

text \<open>\<open>memcpy\<close> into and out of the chunk's memory.\<close>

definition store :: "nat \<Rightarrow> string \<Rightarrow> string \<Rightarrow> string" where
  "store at xs d = take at d @ xs @ drop (at + length xs) d"

definition load :: "nat \<Rightarrow> nat \<Rightarrow> string \<Rightarrow> string" where
  "load at n d = take n (drop at d)"

definition chunk_append :: "buf_chunk \<Rightarrow> string \<Rightarrow> nat \<times> buf_chunk" where
  "chunk_append c buf =
     (let n = ck_dlen c - ck_w c
      in if n = 0 then (0, c)
         else (let m = min n (length buf)
               in (m, c\<lparr>ck_data := store (ck_w c) (take m buf) (ck_data c), ck_w := ck_w c + m\<rparr>)))"

definition chunk_read :: "buf_chunk \<Rightarrow> nat \<Rightarrow> nat \<times> string \<times> buf_chunk" where
  "chunk_read c len =
     (let n = ck_w c - ck_r c
      in if n = 0 then (0, [], c)
         else if n \<le> len then (n, load (ck_r c) n (ck_data c), c\<lparr>ck_r := 0, ck_w := 0\<rparr>)
         else (len, load (ck_r c) len (ck_data c), c\<lparr>ck_r := ck_r c + len\<rparr>))"

type_synonym 'r reader = "'r \<Rightarrow> nat \<Rightarrow> curle \<times> string \<times> 'r"
type_synonym 'w writer = "'w \<Rightarrow> string \<Rightarrow> curle \<times> nat \<times> 'w"

definition chunk_slurpn :: "buf_chunk \<Rightarrow> nat \<Rightarrow> 'r reader \<Rightarrow> 'r \<Rightarrow> curle \<times> nat \<times> buf_chunk \<times> 'r" where
  "chunk_slurpn c max_len reader ctx =
     (let n = ck_dlen c - ck_w c
      in if n = 0 then (CURLE_AGAIN, 0, c, ctx)
         else case reader ctx (if max_len \<noteq> 0 \<and> n > max_len then max_len else n) of
                (result, xs, ctx') \<Rightarrow>
                  (result, length xs,
                   if result = CURLE_OK
                   then c\<lparr>ck_data := store (ck_w c) xs (ck_data c), ck_w := ck_w c + length xs\<rparr> else c, ctx'))"

definition chunk_peek :: "buf_chunk \<Rightarrow> string" where
  "chunk_peek c = load (ck_r c) (ck_w c - ck_r c) (ck_data c)"

definition chunk_peek_at :: "buf_chunk \<Rightarrow> nat \<Rightarrow> string" where
  "chunk_peek_at c offset = load (offset + ck_r c) (ck_w c - (offset + ck_r c)) (ck_data c)"

definition chunk_skip :: "buf_chunk \<Rightarrow> nat \<Rightarrow> nat \<times> buf_chunk" where
  "chunk_skip c amount =
     (let n = ck_w c - ck_r c
      in if n = 0 then (0, c)
         else (let m = min n amount; r = ck_r c + m
               in (m, if r = ck_w c then c\<lparr>ck_r := 0, ck_w := 0\<rparr> else c\<lparr>ck_r := r\<rparr>)))"

section \<open>Pools\<close>

record bufc_pool =
  bp_spare :: "buf_chunk list"
  bp_chunk_size :: nat
  bp_spare_count :: nat
  bp_spare_max :: nat

definition bufcp_init :: "nat \<Rightarrow> nat \<Rightarrow> bufc_pool" where
  "bufcp_init chunk_size spare_max =
     \<lparr> bp_spare = [], bp_chunk_size = chunk_size, bp_spare_count = 0, bp_spare_max = spare_max \<rparr>"

definition sizeof_chunk :: nat where
  "sizeof_chunk = 40"

text \<open>A new chunk, unless its size overflows or there is no memory.\<close>

definition alloc_chunk :: "(nat \<Rightarrow> bool) \<Rightarrow> nat \<Rightarrow> buf_chunk option" where
  "alloc_chunk mem chunk_size =
     (if chunk_size > size_max - sizeof_chunk then None
      else if \<not> mem (sizeof_chunk + chunk_size) then None
      else Some (new_chunk chunk_size))"

definition bufcp_take :: "(nat \<Rightarrow> bool) \<Rightarrow> bufc_pool \<Rightarrow> curle \<times> buf_chunk option \<times> bufc_pool" where
  "bufcp_take mem p = (case bp_spare p of
      c # cs \<Rightarrow> (CURLE_OK, Some (chunk_reset c), p\<lparr>bp_spare := cs, bp_spare_count := bp_spare_count p - 1\<rparr>)
    | [] \<Rightarrow> (case alloc_chunk mem (bp_chunk_size p) of
               None \<Rightarrow> (CURLE_OUT_OF_MEMORY, None, p)
             | Some c \<Rightarrow> (CURLE_OK, Some c, p)))"

definition bufcp_put :: "bufc_pool \<Rightarrow> buf_chunk \<Rightarrow> bufc_pool" where
  "bufcp_put p c =
     (if bp_spare_count p \<ge> bp_spare_max p then p
      else p\<lparr>bp_spare := chunk_reset c # bp_spare p, bp_spare_count := bp_spare_count p + 1\<rparr>)"

definition bufcp_free :: "bufc_pool \<Rightarrow> bufc_pool" where
  "bufcp_free p = p\<lparr>bp_spare := [], bp_spare_count := 0\<rparr>"

section \<open>Queues\<close>

record bufq =
  bq_head :: "buf_chunk list"
  bq_spare :: "buf_chunk list"
  bq_pool :: "bufc_pool option"
  bq_chunk_count :: nat
  bq_max_chunks :: nat
  bq_chunk_size :: nat
  bq_soft_limit :: bool
  bq_no_spares :: bool

definition bufq_init0 :: "bufc_pool option \<Rightarrow> nat \<Rightarrow> nat \<Rightarrow> bool \<Rightarrow> bool \<Rightarrow> bufq" where
  "bufq_init0 pool chunk_size max_chunks soft_limit no_spares =
     \<lparr> bq_head = [], bq_spare = [], bq_pool = pool, bq_chunk_count = 0, bq_max_chunks = max_chunks,
       bq_chunk_size = chunk_size, bq_soft_limit = soft_limit, bq_no_spares = no_spares \<rparr>"

definition bufq_init2 :: "nat \<Rightarrow> nat \<Rightarrow> bool \<Rightarrow> bool \<Rightarrow> bufq" where
  "bufq_init2 chunk_size max_chunks soft_limit no_spares = bufq_init0 None chunk_size max_chunks soft_limit no_spares"

definition bufq_init :: "nat \<Rightarrow> nat \<Rightarrow> bufq" where
  "bufq_init chunk_size max_chunks = bufq_init0 None chunk_size max_chunks False False"

definition bufq_initp :: "bufc_pool \<Rightarrow> nat \<Rightarrow> bool \<Rightarrow> bool \<Rightarrow> bufq" where
  "bufq_initp pool max_chunks soft_limit no_spares =
     bufq_init0 (Some pool) (bp_chunk_size pool) max_chunks soft_limit no_spares"

definition bufq_free :: "bufq \<Rightarrow> bufq" where
  "bufq_free q = q\<lparr>bq_head := [], bq_spare := [], bq_chunk_count := 0\<rparr>"

text \<open>The chunks go to the spare list one by one, unchanged, with or without a pool.\<close>

definition bufq_reset :: "bufq \<Rightarrow> bufq" where
  "bufq_reset q = q\<lparr>bq_head := [], bq_spare := rev (bq_head q) @ bq_spare q\<rparr>"

definition bufq_len :: "bufq \<Rightarrow> nat" where
  "bufq_len q = sum_list (map chunk_len (bq_head q))"

definition bufq_is_empty :: "bufq \<Rightarrow> bool" where
  "bufq_is_empty q \<longleftrightarrow> bq_head q = [] \<or> chunk_is_empty (hd (bq_head q))"

definition bufq_is_full :: "bufq \<Rightarrow> bool" where
  "bufq_is_full q =
     (if bq_head q = [] \<or> bq_spare q \<noteq> [] then False
      else if bq_chunk_count q < bq_max_chunks q then False
      else if bq_chunk_count q > bq_max_chunks q then True
      else chunk_is_full (last (bq_head q)))"

definition get_spare :: "(nat \<Rightarrow> bool) \<Rightarrow> bufq \<Rightarrow> buf_chunk option \<times> bufq" where
  "get_spare mem q = (case bq_spare q of
      c # cs \<Rightarrow> (Some (chunk_reset c), q\<lparr>bq_spare := cs\<rparr>)
    | [] \<Rightarrow>
        (if bq_chunk_count q \<ge> bq_max_chunks q \<and> \<not> bq_soft_limit q then (None, q)
         else case bq_pool q of
           Some pool \<Rightarrow>
             (case bufcp_take mem pool of
                (CURLE_OK, c, pool') \<Rightarrow> (c, q\<lparr>bq_pool := Some pool', bq_chunk_count := bq_chunk_count q + 1\<rparr>)
              | (_, _, pool') \<Rightarrow> (None, q\<lparr>bq_pool := Some pool'\<rparr>))
         | None \<Rightarrow>
             (case alloc_chunk mem (bq_chunk_size q) of
                None \<Rightarrow> (None, q)
              | Some c \<Rightarrow> (Some c, q\<lparr>bq_chunk_count := bq_chunk_count q + 1\<rparr>))))"

text \<open>Where an emptied chunk goes.\<close>

definition retire :: "buf_chunk \<Rightarrow> bufq \<Rightarrow> bufq" where
  "retire c q = (case bq_pool q of
      Some pool \<Rightarrow> q\<lparr>bq_pool := Some (bufcp_put pool c), bq_chunk_count := bq_chunk_count q - 1\<rparr>
    | None \<Rightarrow>
        (if bq_chunk_count q > bq_max_chunks q \<or> bq_no_spares q
         then q\<lparr>bq_chunk_count := bq_chunk_count q - 1\<rparr>
         else q\<lparr>bq_spare := c # bq_spare q\<rparr>))"

function prune_head :: "bufq \<Rightarrow> bufq" where
  "prune_head q = (case bq_head q of
      [] \<Rightarrow> q
    | c # cs \<Rightarrow> if chunk_is_empty c then prune_head (retire c (q\<lparr>bq_head := cs\<rparr>)) else q)"
  by pat_completeness auto
termination
  by (relation "measure (\<lambda>q. length (bq_head q))") (auto simp: retire_def split: option.splits)

declare prune_head.simps [simp del]

text \<open>The chunk to write to: it becomes the last one of the queue.\<close>

definition get_non_full_tail :: "(nat \<Rightarrow> bool) \<Rightarrow> bufq \<Rightarrow> buf_chunk option \<times> bufq" where
  "get_non_full_tail mem q =
     (if bq_head q \<noteq> [] \<and> \<not> chunk_is_full (last (bq_head q)) then (Some (last (bq_head q)), q)
      else case get_spare mem q of
             (None, q') \<Rightarrow> (None, q')
           | (Some c, q') \<Rightarrow> (Some c, q'\<lparr>bq_head := bq_head q' @ [c]\<rparr>))"

definition set_tail :: "buf_chunk \<Rightarrow> bufq \<Rightarrow> bufq" where
  "set_tail c q = q\<lparr>bq_head := butlast (bq_head q) @ [c]\<rparr>"

definition set_head :: "buf_chunk \<Rightarrow> bufq \<Rightarrow> bufq" where
  "set_head c q = q\<lparr>bq_head := c # tl (bq_head q)\<rparr>"

text \<open>The loop of \<open>Curl_bufq_write\<close>, which returns or leaves the loop (\<open>None\<close>), with
  the number of bytes written so far.\<close>

function write_loop :: "(nat \<Rightarrow> bool) \<Rightarrow> string \<Rightarrow> nat \<Rightarrow> bufq \<Rightarrow> curle option \<times> nat \<times> string \<times> bufq" where
  "write_loop mem buf nw q =
     (if buf = [] then (None, nw, buf, q)
      else case get_non_full_tail mem q of
        (None, q1) \<Rightarrow>
          (if bq_chunk_count q1 < bq_max_chunks q1 \<or> bq_soft_limit q1
           then (Some CURLE_OUT_OF_MEMORY, nw, buf, q1) else (None, nw, buf, q1))
      | (Some tail, q1) \<Rightarrow>
          (case chunk_append tail buf of
             (n, tail') \<Rightarrow>
               if n = 0 then (None, nw, buf, q1)
               else write_loop mem (drop n buf) (nw + n) (set_tail tail' q1)))"
  by pat_completeness auto
termination
  by (relation "measure (\<lambda>(mem, buf, nw, q). length buf)") auto

declare write_loop.simps [simp del]

definition bufq_write :: "(nat \<Rightarrow> bool) \<Rightarrow> string \<Rightarrow> bufq \<Rightarrow> curle \<times> nat \<times> bufq" where
  "bufq_write mem buf q = (case write_loop mem buf 0 q of
      (Some e, nw, _, q') \<Rightarrow> (e, nw, q')
    | (None, nw, rest, q') \<Rightarrow> (if nw = 0 \<and> rest \<noteq> [] then CURLE_AGAIN else CURLE_OK, nw, q'))"

definition bufq_cwrite :: "(nat \<Rightarrow> bool) \<Rightarrow> string \<Rightarrow> bufq \<Rightarrow> curle \<times> nat \<times> bufq" where
  "bufq_cwrite mem buf q = bufq_write mem buf q"

lemma bq_head_retire [simp]: "bq_head (retire c q) = bq_head q"
  by (auto simp: retire_def split: option.split)

lemma prune_head_head: "bq_head (prune_head q) = dropWhile chunk_is_empty (bq_head q)"
proof (induction q rule: prune_head.induct)
  case (1 q)
  then show ?case by (subst prune_head.simps) (auto split: list.split)
qed

lemma prune_head_length: "length (bq_head (prune_head q)) \<le> length (bq_head q)"
  by (simp add: prune_head_head length_dropWhile_le)

lemma prune_head_less:
  "bq_head q \<noteq> [] \<Longrightarrow> chunk_is_empty (hd (bq_head q)) \<Longrightarrow> length (bq_head (prune_head q)) < length (bq_head q)"
  by (cases "bq_head q") (auto simp: prune_head_head less_Suc_eq_le length_dropWhile_le)

lemma set_head_simps [simp]:
  "bq_head (set_head c q) = c # tl (bq_head q)"
  "bq_head (set_tail c q) = butlast (bq_head q) @ [c]"
  by (simp_all add: set_head_def set_tail_def)

text \<open>Reading and skipping: every round takes bytes or drops an empty chunk.\<close>

lemma chunk_read_progress:
  assumes "chunk_read c len = (n, xs, c')" and "0 < len"
  shows "n \<le> len \<and> (n = len \<or> chunk_is_empty c')"
  using assms by (auto simp: chunk_read_def Let_def chunk_is_empty_def split: if_splits)

lemma chunk_skip_progress:
  assumes "chunk_skip c amount = (n, c')" and "0 < amount"
  shows "n \<le> amount \<and> (n = amount \<or> chunk_is_empty c')"
  using assms by (auto simp: chunk_skip_def Let_def chunk_is_empty_def min_def split: if_splits)

lemma prune_set_head:
  assumes "bq_head q \<noteq> []" and "chunk_is_empty c"
  shows "length (bq_head (prune_head (set_head c q))) < length (bq_head q)"
proof -
  have "length (bq_head (set_head c q)) = length (bq_head q)" using assms(1) by (cases "bq_head q") auto
  with prune_head_less [of "set_head c q"] assms(2) show ?thesis by simp
qed

lemma prune_set_head_le:
  "bq_head q \<noteq> [] \<Longrightarrow> length (bq_head (prune_head (set_head c q))) \<le> length (bq_head q)"
  using prune_head_length [of "set_head c q"] by (cases "bq_head q") auto

function read_loop :: "nat \<Rightarrow> nat \<Rightarrow> string \<Rightarrow> bufq \<Rightarrow> nat \<times> string \<times> bufq" where
  "read_loop len nread out q =
     (if len = 0 \<or> bq_head q = [] then (nread, out, q)
      else case chunk_read (hd (bq_head q)) len of
             (n, xs, c') \<Rightarrow> read_loop (len - n) (nread + n) (out @ xs) (prune_head (set_head c' q)))"
  by pat_completeness auto
termination
proof (relation "measure (\<lambda>(len, nread, out, q). len + length (bq_head q))")
  fix len nread n :: nat and out xs :: string and q :: bufq and p c'
  assume a: "\<not> (len = 0 \<or> bq_head q = [])" "(n, p) = chunk_read (hd (bq_head q)) len" "(xs, c') = p"
  then have pr: "n \<le> len \<and> (n = len \<or> chunk_is_empty c')"
    using chunk_read_progress [of "hd (bq_head q)" len n xs c'] by simp
  have le: "length (bq_head (prune_head (set_head c' q))) \<le> length (bq_head q)"
    using a(1) prune_set_head_le by simp
  have "len - n + length (bq_head (prune_head (set_head c' q))) < len + length (bq_head q)"
  proof (cases "n = len")
    case True
    with a(1) le show ?thesis by simp
  next
    case False
    with pr a(1) prune_set_head [of q c'] show ?thesis by simp
  qed
  then show "((len - n, nread + n, out @ xs, prune_head (set_head c' q)), len, nread, out, q)
      \<in> measure (\<lambda>(len, nread, out, q). len + length (bq_head q))" by simp
qed simp

declare read_loop.simps [simp del]

definition bufq_read :: "nat \<Rightarrow> bufq \<Rightarrow> curle \<times> nat \<times> string \<times> bufq" where
  "bufq_read len q = (case read_loop len 0 [] q of
      (n, out, q') \<Rightarrow> (if n = 0 then CURLE_AGAIN else CURLE_OK, n, out, q'))"

definition bufq_cread :: "nat \<Rightarrow> bufq \<Rightarrow> curle \<times> nat \<times> string \<times> bufq" where
  "bufq_cread len q = bufq_read len q"

definition bufq_peek :: "bufq \<Rightarrow> string option \<times> bufq" where
  "bufq_peek q =
     (let q1 = (if bq_head q \<noteq> [] \<and> chunk_is_empty (hd (bq_head q)) then prune_head q else q)
      in if bq_head q1 \<noteq> [] \<and> \<not> chunk_is_empty (hd (bq_head q1))
         then (Some (chunk_peek (hd (bq_head q1))), q1) else (None, q1))"

fun peek_at_loop :: "buf_chunk list \<Rightarrow> nat \<Rightarrow> string option" where
  "peek_at_loop [] offset = None"
| "peek_at_loop (c # cs) offset =
     (let clen = chunk_len c
      in if clen = 0 then None
         else if offset \<ge> clen then peek_at_loop cs (offset - clen)
         else Some (chunk_peek_at c offset))"

definition bufq_peek_at :: "nat \<Rightarrow> bufq \<Rightarrow> string option" where
  "bufq_peek_at offset q = peek_at_loop (bq_head q) offset"

function bufq_skip :: "nat \<Rightarrow> bufq \<Rightarrow> bufq" where
  "bufq_skip amount q =
     (if amount = 0 \<or> bq_head q = [] then q
      else case chunk_skip (hd (bq_head q)) amount of
             (n, c') \<Rightarrow> bufq_skip (amount - n) (prune_head (set_head c' q)))"
  by pat_completeness auto
termination
proof (relation "measure (\<lambda>(amount, q). amount + length (bq_head q))")
  fix amount n :: nat and q :: bufq and c'
  assume a: "\<not> (amount = 0 \<or> bq_head q = [])" "(n, c') = chunk_skip (hd (bq_head q)) amount"
  then have pr: "n \<le> amount \<and> (n = amount \<or> chunk_is_empty c')"
    using chunk_skip_progress [of "hd (bq_head q)" amount n c'] by simp
  have le: "length (bq_head (prune_head (set_head c' q))) \<le> length (bq_head q)"
    using a(1) prune_set_head_le by simp
  have "amount - n + length (bq_head (prune_head (set_head c' q))) < amount + length (bq_head q)"
  proof (cases "n = amount")
    case True
    with a(1) le show ?thesis by simp
  next
    case False
    with pr a(1) prune_set_head [of q c'] show ?thesis by simp
  qed
  then show "((amount - n, prune_head (set_head c' q)), amount, q)
      \<in> measure (\<lambda>(amount, q). amount + length (bq_head q))" by simp
qed simp

declare bufq_skip.simps [simp del]

text \<open>What a skip leaves behind; passing on makes the queue shorter.\<close>

lemma sum_dropWhile_empty: "sum_list (map chunk_len (dropWhile chunk_is_empty cs)) = sum_list (map chunk_len cs)"
  by (induction cs) (auto simp: chunk_is_empty_def chunk_len_def)

lemma bufq_len_prune [simp]: "bufq_len (prune_head q) = bufq_len q"
  by (simp add: bufq_len_def prune_head_head sum_dropWhile_empty)

lemma chunk_skip_len: "chunk_skip c amount = (n, c') \<Longrightarrow> n = min (chunk_len c) amount \<and> chunk_len c' = chunk_len c - n"
  by (auto simp: chunk_skip_def chunk_len_def Let_def split: if_splits)

lemma bufq_skip_len: "bufq_len (bufq_skip amount q) = bufq_len q - amount"
proof (induction amount q rule: bufq_skip.induct)
  case (1 amount q)
  show ?case
  proof (cases "amount = 0 \<or> bq_head q = []")
    case True
    then show ?thesis by (subst bufq_skip.simps) (auto simp: bufq_len_def)
  next
    case False
    then obtain c cs where h: "bq_head q = c # cs" by (cases "bq_head q") auto
    obtain n c' where s: "chunk_skip c amount = (n, c')" by fastforce
    have l: "bufq_len (set_head c' q) = bufq_len q - n"
      using chunk_skip_len [OF s] h by (simp add: bufq_len_def)
    have "bufq_len (bufq_skip (amount - n) (prune_head (set_head c' q))) = bufq_len (set_head c' q) - (amount - n)"
      using "1.IH" [OF False, of n c'] s h by simp
    also have "\<dots> = bufq_len q - amount" using l chunk_skip_len [OF s] by simp
    finally show ?thesis using False h s by (subst bufq_skip.simps) simp
  qed
qed

lemma bufq_peek_len: "bufq_peek q = (Some xs, q1) \<Longrightarrow> bufq_len q1 = bufq_len q \<and> 0 < bufq_len q1"
  by (cases "bq_head q1")
     (auto simp: bufq_peek_def Let_def bufq_len_def chunk_len_def chunk_is_empty_def prune_head_head sum_dropWhile_empty
        dest: arg_cong [of _ _ "\<lambda>xs. sum_list (map chunk_len xs)"] split: if_splits)

text \<open>Passing the queue on to a writer; the count of what it took comes back.\<close>

function pass_loop :: "'w writer \<Rightarrow> 'w \<Rightarrow> nat \<Rightarrow> bufq \<Rightarrow> curle \<times> nat \<times> bufq \<times> 'w" where
  "pass_loop writer ctx nw q = (case bufq_peek q of
      (None, q1) \<Rightarrow> (CURLE_OK, nw, q1, ctx)
    | (Some buf, q1) \<Rightarrow>
        (case writer ctx buf of (result, n, ctx') \<Rightarrow>
           if result \<noteq> CURLE_OK
           then (if result = CURLE_AGAIN \<and> nw \<noteq> 0 then CURLE_OK else result, nw, q1, ctx')
           else if n = 0 then (if nw = 0 then CURLE_AGAIN else CURLE_OK, nw, q1, ctx')
           else pass_loop writer ctx' (nw + n) (bufq_skip n q1)))"
  by pat_completeness auto
termination
proof (relation "measure (\<lambda>(writer, ctx, nw, q). bufq_len q)")
  fix writer :: "'w writer" and ctx ctx' :: 'w and nw n :: nat and q q1 :: bufq and buf r p pk o'
  assume "(o', q1) = bufq_peek q" "o' = Some buf" "n \<noteq> 0"
  then show "((writer, ctx', nw + n, bufq_skip n q1), writer, ctx, nw, q)
      \<in> measure (\<lambda>(writer, ctx, nw, q). bufq_len q)"
    using bufq_peek_len [of q buf q1] by (simp add: bufq_skip_len)
qed simp

declare pass_loop.simps [simp del]

definition bufq_pass :: "'w writer \<Rightarrow> 'w \<Rightarrow> bufq \<Rightarrow> curle \<times> nat \<times> bufq \<times> 'w" where
  "bufq_pass writer ctx q = pass_loop writer ctx 0 q"

function write_pass_loop :: "(nat \<Rightarrow> bool) \<Rightarrow> string \<Rightarrow> 'w writer \<Rightarrow> 'w \<Rightarrow> nat \<Rightarrow> bufq
    \<Rightarrow> curle \<times> nat \<times> bufq \<times> 'w" where
  "write_pass_loop mem buf writer ctx nw q =
     (let fin = (\<lambda>q ctx. (if nw = 0 \<and> buf \<noteq> [] then CURLE_AGAIN else CURLE_OK, nw, q, ctx))
      in if buf = [] then fin q ctx
         else case (if bufq_is_full q then bufq_pass writer ctx q else (CURLE_OK, 0, q, ctx)) of
           (result, _, q1, ctx1) \<Rightarrow>
             if result = CURLE_AGAIN then fin q1 ctx1
             else if result \<noteq> CURLE_OK then (result, nw, q1, ctx1)
             else case bufq_write mem buf q1 of
               (result2, n, q2) \<Rightarrow>
                 if result2 = CURLE_AGAIN then (if nw \<noteq> 0 then CURLE_OK else CURLE_AGAIN, nw, q2, ctx1)
                 else if result2 \<noteq> CURLE_OK then (result2, nw, q2, ctx1)
                 else if n = 0 then fin q2 ctx1
                 else write_pass_loop mem (drop n buf) writer ctx1 (nw + n) q2)"
  by pat_completeness auto
termination
  by (relation "measure (\<lambda>(mem, buf, writer, ctx, nw, q). length buf)") auto

declare write_pass_loop.simps [simp del]

definition bufq_write_pass :: "(nat \<Rightarrow> bool) \<Rightarrow> string \<Rightarrow> 'w writer \<Rightarrow> 'w \<Rightarrow> bufq \<Rightarrow> curle \<times> nat \<times> bufq \<times> 'w" where
  "bufq_write_pass mem buf writer ctx q = write_pass_loop mem buf writer ctx 0 q"

definition bufq_sipn :: "(nat \<Rightarrow> bool) \<Rightarrow> nat \<Rightarrow> 'r reader \<Rightarrow> 'r \<Rightarrow> bufq \<Rightarrow> curle \<times> nat \<times> bufq \<times> 'r" where
  "bufq_sipn mem max_len reader ctx q = (case get_non_full_tail mem q of
      (None, q1) \<Rightarrow> (if bq_chunk_count q1 < bq_max_chunks q1 then CURLE_OUT_OF_MEMORY else CURLE_AGAIN, 0, q1, ctx)
    | (Some tail, q1) \<Rightarrow>
        (case chunk_slurpn tail max_len reader ctx of
           (result, n, tail', ctx') \<Rightarrow> (result, n, set_tail tail' q1, ctx')))"

text \<open>\<open>while(1)\<close>: \<open>None\<close> is a loop that never ends.\<close>

partial_function (option) slurp_loop :: "(nat \<Rightarrow> bool) \<Rightarrow> nat \<Rightarrow> 'r reader \<Rightarrow> 'r \<Rightarrow> nat \<Rightarrow> bufq
    \<Rightarrow> (curle \<times> nat \<times> bufq \<times> 'r) option" where
  "slurp_loop mem max_len reader ctx nr q =
     (case bufq_sipn mem max_len reader ctx q of (result, n, q1, ctx1) \<Rightarrow>
        if result \<noteq> CURLE_OK
        then Some (if nr = 0 \<or> result \<noteq> CURLE_AGAIN then result else CURLE_OK, nr, q1, ctx1)
        else if n = 0 then Some (CURLE_OK, nr, q1, ctx1)
        else if max_len \<noteq> 0 \<and> max_len - n = 0 then Some (CURLE_OK, nr + n, q1, ctx1)
        else if bq_head q1 \<noteq> [] \<and> \<not> chunk_is_full (last (bq_head q1)) then Some (CURLE_OK, nr + n, q1, ctx1)
        else slurp_loop mem (max_len - n) reader ctx1 (nr + n) q1)"

definition bufq_slurpn :: "(nat \<Rightarrow> bool) \<Rightarrow> nat \<Rightarrow> 'r reader \<Rightarrow> 'r \<Rightarrow> bufq \<Rightarrow> (curle \<times> nat \<times> bufq \<times> 'r) option" where
  "bufq_slurpn mem max_len reader ctx q = slurp_loop mem max_len reader ctx 0 q"

definition bufq_slurp :: "(nat \<Rightarrow> bool) \<Rightarrow> 'r reader \<Rightarrow> 'r \<Rightarrow> bufq \<Rightarrow> (curle \<times> nat \<times> bufq \<times> 'r) option" where
  "bufq_slurp mem reader ctx q = bufq_slurpn mem 0 reader ctx q"

section \<open>The state of a queue\<close>

definition chunk_ok :: "nat \<Rightarrow> buf_chunk \<Rightarrow> bool" where
  "chunk_ok sz c \<longleftrightarrow> ck_dlen c = sz \<and> length (ck_data c) = sz \<and> ck_r c \<le> ck_w c \<and> ck_w c \<le> sz"

definition chunk_live :: "buf_chunk \<Rightarrow> bool" where
  "chunk_live c \<longleftrightarrow> ck_r c < ck_w c \<or> ck_r c = 0 \<and> ck_w c = 0"

definition pool_ok :: "nat \<Rightarrow> bufc_pool \<Rightarrow> bool" where
  "pool_ok sz p \<longleftrightarrow> bp_chunk_size p = sz \<and> bp_spare_count p = length (bp_spare p)
     \<and> (\<forall>c \<in> set (bp_spare p). chunk_ok sz c)"

text \<open>Behind a chunk that is not the last one there is no room, and nothing is empty.\<close>

definition bufq_ok :: "bufq \<Rightarrow> bool" where
  "bufq_ok q \<longleftrightarrow> 0 < bq_chunk_size q
     \<and> (\<forall>c \<in> set (bq_head q). chunk_ok (bq_chunk_size q) c \<and> chunk_live c)
     \<and> (\<forall>c \<in> set (butlast (bq_head q)). ck_w c = bq_chunk_size q)
     \<and> (\<forall>c \<in> set (bq_spare q). chunk_ok (bq_chunk_size q) c)
     \<and> bq_chunk_count q = length (bq_head q) + length (bq_spare q)
     \<and> (\<forall>p. bq_pool q = Some p \<longrightarrow> pool_ok (bq_chunk_size q) p)"

definition bufq_bytes :: "bufq \<Rightarrow> string" where
  "bufq_bytes q = concat (map chunk_peek (bq_head q))"

lemma chunk_peek_length: "chunk_ok sz c \<Longrightarrow> length (chunk_peek c) = chunk_len c"
  by (auto simp: chunk_ok_def chunk_peek_def load_def chunk_len_def)

lemma chunk_peek_empty: "chunk_is_empty c \<Longrightarrow> chunk_peek c = []"
  by (simp add: chunk_is_empty_def chunk_peek_def load_def)

lemma chunk_empty_iff: "chunk_live c \<Longrightarrow> chunk_is_empty c \<longleftrightarrow> ck_w c = 0"
  by (auto simp: chunk_live_def chunk_is_empty_def)

lemma load_store:
  assumes "r \<le> w" and "w + length ys \<le> length d"
  shows "load r (w + length ys - r) (store w ys d) = load r (w - r) d @ ys"
proof -
  have l: "length (take w d) = w" using assms(2) by simp
  have "drop r (store w ys d) = drop r (take w d) @ ys @ drop (w + length ys) d"
    using assms(1) l by (simp add: store_def)
  moreover have "length (drop r (take w d) @ ys) = w + length ys - r" using assms(1) l by simp
  ultimately have "load r (w + length ys - r) (store w ys d) = drop r (take w d) @ ys"
    unfolding load_def by (metis append.assoc append_eq_conv_conj)
  also have "drop r (take w d) = load r (w - r) d" by (simp add: load_def drop_take)
  finally show ?thesis .
qed

lemma chunk_append_ok:
  assumes "chunk_ok sz c" and "chunk_live c" and "chunk_append c buf = (n, c')"
  shows "chunk_ok sz c' \<and> chunk_live c' \<and> n = min (sz - ck_w c) (length buf) \<and> ck_w c' = ck_w c + n
    \<and> chunk_peek c' = chunk_peek c @ take n buf"
proof (cases "sz - ck_w c = 0")
  case True
  then show ?thesis using assms by (simp add: chunk_append_def chunk_ok_def Let_def)
next
  case False
  let ?m = "min (sz - ck_w c) (length buf)"
  have n: "n = ?m" and c': "c' = c\<lparr>ck_data := store (ck_w c) (take n buf) (ck_data c), ck_w := ck_w c + n\<rparr>"
    using assms False by (auto simp: chunk_append_def chunk_ok_def Let_def)
  have "chunk_peek c' = chunk_peek c @ take n buf"
  proof -
    have "ck_w c + n \<le> sz" "length (take n buf) = n" using n assms(1) by (auto simp: chunk_ok_def)
    then show ?thesis
      using assms(1) load_store [of "ck_r c" "ck_w c" "take n buf" "ck_data c"]
      by (simp add: c' chunk_peek_def chunk_ok_def)
  qed
  then show ?thesis
    using assms(1,2) n by (auto simp: c' chunk_ok_def chunk_live_def store_def)
qed

lemma load_drop: "r + m \<le> w \<Longrightarrow> load (r + m) (w - (r + m)) d = drop m (load r (w - r) d)"
  by (simp add: load_def drop_take add.commute)

lemma load_take: "m \<le> n \<Longrightarrow> load r m d = take m (load r n d)"
  by (simp add: load_def min_def)

lemma load_length: "r + n \<le> length d \<Longrightarrow> length (load r n d) = n"
  by (simp add: load_def)

lemma chunk_read_ok:
  assumes "chunk_ok sz c" and "chunk_live c" and "chunk_read c len = (n, xs, c')" and "0 < len"
  shows "chunk_ok sz c' \<and> chunk_live c' \<and> n = min (chunk_len c) len \<and> xs = take len (chunk_peek c)
    \<and> chunk_peek c' = drop len (chunk_peek c) \<and> (ck_w c' = ck_w c \<or> chunk_is_empty c')"
proof -
  have l: "length (chunk_peek c) = ck_w c - ck_r c"
    using chunk_peek_length [OF assms(1)] by (simp add: chunk_len_def)
  consider "ck_w c - ck_r c = 0" | "0 < ck_w c - ck_r c" "ck_w c - ck_r c \<le> len" | "len < ck_w c - ck_r c" by linarith
  then show ?thesis
  proof cases
    case 1
    with l have "chunk_peek c = []" by simp
    with 1 assms show ?thesis by (simp add: chunk_read_def chunk_len_def)
  next
    case 2
    then have "n = ck_w c - ck_r c" "xs = chunk_peek c" "c' = c\<lparr>ck_r := 0, ck_w := 0\<rparr>"
      using assms(3) by (auto simp: chunk_read_def Let_def chunk_peek_def)
    with 2 l assms(1) show ?thesis
      by (simp add: chunk_ok_def chunk_live_def chunk_len_def chunk_is_empty_def chunk_peek_def [of "c\<lparr>ck_r := 0, ck_w := 0\<rparr>"]
          load_def)
  next
    case 3
    then have "\<not> ck_w c - ck_r c \<le> len" "ck_w c - ck_r c \<noteq> 0" by simp_all
    then have r: "n = len" "xs = load (ck_r c) len (ck_data c)" "c' = c\<lparr>ck_r := ck_r c + len\<rparr>"
      using assms(3) by (auto simp: chunk_read_def Let_def)
    have "xs = take len (chunk_peek c)" using 3 by (simp add: r chunk_peek_def load_take [symmetric])
    moreover have "chunk_peek c' = drop len (chunk_peek c)"
      using 3 load_drop [of "ck_r c" len "ck_w c" "ck_data c"] by (simp add: r chunk_peek_def)
    moreover have "ck_r c + len < ck_w c" using 3 by linarith
    ultimately show ?thesis
      using 3 assms(1) r by (simp add: chunk_ok_def chunk_live_def chunk_len_def)
  qed
qed

lemma chunk_skip_ok:
  assumes "chunk_ok sz c" and "chunk_live c" and "chunk_skip c amount = (n, c')"
  shows "chunk_ok sz c' \<and> chunk_live c' \<and> n = min (chunk_len c) amount
    \<and> chunk_peek c' = drop amount (chunk_peek c) \<and> (ck_w c' = ck_w c \<or> chunk_is_empty c')"
proof -
  have l: "length (chunk_peek c) = ck_w c - ck_r c"
    using chunk_peek_length [OF assms(1)] by (simp add: chunk_len_def)
  have rw: "ck_r c \<le> ck_w c" using assms(1) by (simp add: chunk_ok_def)
  consider "ck_w c - ck_r c = 0" | "0 < ck_w c - ck_r c" "ck_w c - ck_r c \<le> amount" | "amount < ck_w c - ck_r c" by linarith
  then show ?thesis
  proof cases
    case 1
    with l have "chunk_peek c = []" by simp
    with 1 assms show ?thesis by (simp add: chunk_skip_def chunk_len_def)
  next
    case 2
    then have "n = ck_w c - ck_r c" "c' = c\<lparr>ck_r := 0, ck_w := 0\<rparr>"
      using assms(3) rw by (simp_all add: chunk_skip_def Let_def min_def split: if_splits)
    with 2 l assms(1) show ?thesis
      by (simp add: chunk_ok_def chunk_live_def chunk_len_def chunk_is_empty_def chunk_peek_def [of "c\<lparr>ck_r := 0, ck_w := 0\<rparr>"]
          load_def)
  next
    case 3
    then have r: "n = amount" "c' = c\<lparr>ck_r := ck_r c + amount\<rparr>"
      using assms(3) by (auto simp: chunk_skip_def Let_def min_def split: if_splits)
    have "chunk_peek c' = drop amount (chunk_peek c)"
      using 3 load_drop [of "ck_r c" amount "ck_w c" "ck_data c"] by (simp add: r chunk_peek_def)
    moreover have "ck_r c + amount < ck_w c" using 3 by linarith
    ultimately show ?thesis using 3 assms(1) r by (simp add: chunk_ok_def chunk_live_def chunk_len_def)
  qed
qed

lemma alloc_chunk_ok: "alloc_chunk mem sz = Some c \<Longrightarrow> chunk_ok sz c \<and> ck_r c = 0 \<and> ck_w c = 0"
  by (auto simp: alloc_chunk_def new_chunk_def chunk_ok_def split: if_splits)

lemma chunk_reset_ok: "chunk_ok sz c \<Longrightarrow> chunk_ok sz (chunk_reset c) \<and> ck_r (chunk_reset c) = 0 \<and> ck_w (chunk_reset c) = 0"
  by (simp add: chunk_reset_def chunk_ok_def)

lemma bufcp_take_ok:
  assumes "pool_ok sz p" and "bufcp_take mem p = (e, r, p')"
  shows "pool_ok sz p' \<and> (case r of None \<Rightarrow> e = CURLE_OUT_OF_MEMORY
    | Some c \<Rightarrow> e = CURLE_OK \<and> chunk_ok sz c \<and> ck_r c = 0 \<and> ck_w c = 0)"
proof (cases "bp_spare p")
  case Nil
  have sz: "bp_chunk_size p = sz" using assms(1) by (simp add: pool_ok_def)
  show ?thesis
  proof (cases "alloc_chunk mem sz")
    case None
    with Nil assms sz show ?thesis by (auto simp: bufcp_take_def pool_ok_def)
  next
    case (Some c)
    then have "r = Some c" "e = CURLE_OK" "p' = p" using Nil assms(2) sz by (simp_all add: bufcp_take_def)
    with alloc_chunk_ok [OF Some] assms(1) show ?thesis by simp
  qed
next
  case (Cons c cs)
  then show ?thesis
    using assms chunk_reset_ok [of sz c] by (auto simp: bufcp_take_def pool_ok_def)
qed

lemma bufcp_put_ok: "pool_ok sz p \<Longrightarrow> chunk_ok sz c \<Longrightarrow> pool_ok sz (bufcp_put p c)"
  using chunk_reset_ok [of sz c] by (auto simp: pool_ok_def bufcp_put_def)

text \<open>A chunk to write to: fresh and counted, with nothing else changed, or refused.\<close>

definition same_but_store :: "bufq \<Rightarrow> bufq \<Rightarrow> bool" where
  "same_but_store q q' \<longleftrightarrow> bq_head q' = bq_head q \<and> bq_chunk_size q' = bq_chunk_size q
     \<and> bq_max_chunks q' = bq_max_chunks q \<and> bq_soft_limit q' = bq_soft_limit q \<and> bq_no_spares q' = bq_no_spares q"

lemma get_spare_ok:
  assumes "bufq_ok q" and "get_spare mem q = (r, q')"
  shows "same_but_store q q' \<and> (\<forall>c \<in> set (bq_spare q'). chunk_ok (bq_chunk_size q) c)
    \<and> (\<forall>p. bq_pool q' = Some p \<longrightarrow> pool_ok (bq_chunk_size q) p)
    \<and> (case r of
         None \<Rightarrow> bq_chunk_count q' = length (bq_head q) + length (bq_spare q') \<and> bq_spare q = []
       | Some c \<Rightarrow> bq_chunk_count q' = length (bq_head q) + length (bq_spare q') + 1
           \<and> chunk_ok (bq_chunk_size q) c \<and> ck_r c = 0 \<and> ck_w c = 0)"
proof -
  have spare: "\<forall>c \<in> set (bq_spare q). chunk_ok (bq_chunk_size q) c"
    and count: "bq_chunk_count q = length (bq_head q) + length (bq_spare q)"
    and pool: "\<And>p. bq_pool q = Some p \<Longrightarrow> pool_ok (bq_chunk_size q) p"
    using assms(1) by (simp_all add: bufq_ok_def)
  show ?thesis
  proof (cases "bq_spare q")
    case (Cons c cs)
    then show ?thesis
      using assms(2) spare count pool chunk_reset_ok [of "bq_chunk_size q" c]
      by (auto simp: get_spare_def same_but_store_def)
  next
    case Nil
    show ?thesis
    proof (cases "bq_chunk_count q \<ge> bq_max_chunks q \<and> \<not> bq_soft_limit q")
      case True
      then show ?thesis
        using assms(2) spare count pool Nil by (auto simp: get_spare_def same_but_store_def)
    next
      case False
      show ?thesis
      proof (cases "bq_pool q")
        case None
        then show ?thesis
          using assms(2) spare count Nil False
          by (auto simp: get_spare_def same_but_store_def dest: alloc_chunk_ok split: option.splits)
      next
        case (Some p)
        note ok = pool [OF Some]
        obtain e r1 p' where t: "bufcp_take mem p = (e, r1, p')" by (metis prod_cases3)
        from bufcp_take_ok [OF ok t] show ?thesis
          using assms(2) spare count Nil False Some t
          by (auto simp: get_spare_def same_but_store_def split: curle.splits option.splits)
      qed
    qed
  qed
qed

lemma get_non_full_tail_ok:
  assumes "bufq_ok q" and "get_non_full_tail mem q = (r, q')"
  shows "bufq_ok q' \<and> bufq_bytes q' = bufq_bytes q \<and> bq_chunk_size q' = bq_chunk_size q
    \<and> bq_max_chunks q' = bq_max_chunks q \<and> bq_soft_limit q' = bq_soft_limit q
    \<and> (case r of None \<Rightarrow> True | Some c \<Rightarrow> bq_head q' \<noteq> [] \<and> last (bq_head q') = c \<and> ck_w c < bq_chunk_size q)"
proof (cases "bq_head q \<noteq> [] \<and> \<not> chunk_is_full (last (bq_head q))")
  case True
  then have "chunk_ok (bq_chunk_size q) (last (bq_head q))" using assms(1) by (simp add: bufq_ok_def)
  then have "ck_w (last (bq_head q)) < bq_chunk_size q" using True by (simp add: chunk_is_full_def chunk_ok_def)
  with True assms show ?thesis by (auto simp: get_non_full_tail_def)
next
  case False
  obtain r1 q1 where g: "get_spare mem q = (r1, q1)" by fastforce
  note ok = get_spare_ok [OF assms(1) g]
  have full: "c \<in> set (bq_head q) \<Longrightarrow> ck_w c = bq_chunk_size q" for c
  proof (cases "bq_head q" rule: rev_cases)
    case (snoc cs d)
    have "ck_w d = bq_chunk_size q"
      using False snoc assms(1) by (auto simp: bufq_ok_def chunk_is_full_def chunk_ok_def)
    then show "c \<in> set (bq_head q) \<Longrightarrow> ck_w c = bq_chunk_size q" using snoc assms(1) by (auto simp: bufq_ok_def)
  qed simp
  show ?thesis
  proof (cases r1)
    case None
    then have "r = None" "q' = q1" using assms(2) False g by (auto simp: get_non_full_tail_def)
    with ok None assms(1) show ?thesis by (auto simp: bufq_ok_def bufq_bytes_def same_but_store_def)
  next
    case (Some c)
    then have q': "r = Some c" "q' = q1\<lparr>bq_head := bq_head q1 @ [c]\<rparr>"
      using assms(2) False g by (auto simp: get_non_full_tail_def)
    have c: "chunk_peek c = []" "chunk_live c" "ck_w c = 0"
      using ok Some by (simp_all add: chunk_peek_def load_def chunk_live_def)
    have "0 < bq_chunk_size q" using assms(1) by (simp add: bufq_ok_def)
    with ok Some q' c full assms(1) show ?thesis
      by (auto simp: bufq_ok_def bufq_bytes_def same_but_store_def)
  qed
qed

lemma set_tail_ok:
  assumes "bufq_ok q" and "bq_head q \<noteq> []" and "chunk_ok (bq_chunk_size q) c" and "chunk_live c"
    and "chunk_peek c = chunk_peek (last (bq_head q)) @ xs"
  shows "bufq_ok (set_tail c q) \<and> bufq_bytes (set_tail c q) = bufq_bytes q @ xs
    \<and> bq_chunk_size (set_tail c q) = bq_chunk_size q
    \<and> bq_max_chunks (set_tail c q) = bq_max_chunks q \<and> bq_soft_limit (set_tail c q) = bq_soft_limit q"
proof -
  obtain cs d where h: "bq_head q = cs @ [d]" using assms(2) by (meson rev_exhaust)
  with assms show ?thesis by (auto simp: bufq_ok_def bufq_bytes_def set_tail_def)
qed

lemma write_loop_ok:
  "bufq_ok q \<Longrightarrow> write_loop mem buf nw q = (e, nw', rest, q') \<Longrightarrow>
     bufq_ok q' \<and> (\<exists>n \<le> length buf. nw' = nw + n \<and> rest = drop n buf \<and> bufq_bytes q' = bufq_bytes q @ take n buf)
     \<and> bq_chunk_size q' = bq_chunk_size q \<and> bq_max_chunks q' = bq_max_chunks q \<and> bq_soft_limit q' = bq_soft_limit q"
proof (induction mem buf nw q arbitrary: nw' rest q' rule: write_loop.induct)
  case (1 mem buf nw q)
  show ?case
  proof (cases "buf = []")
    case True
    then show ?thesis using "1.prems" by (subst (asm) write_loop.simps) auto
  next
    case False
    obtain r q1 where g: "get_non_full_tail mem q = (r, q1)" by fastforce
    note ok1 = get_non_full_tail_ok [OF "1.prems"(1) g]
    show ?thesis
    proof (cases r)
      case None
      then have "nw' = nw" "rest = buf" "q' = q1"
        using "1.prems"(2) False g by (subst (asm) write_loop.simps; auto split: if_splits)+
      with ok1 show ?thesis by auto
    next
      case (Some c)
      obtain n c' where a: "chunk_append c buf = (n, c')" by fastforce
      have c: "chunk_ok (bq_chunk_size q1) c" "chunk_live c" using ok1 Some by (auto simp: bufq_ok_def)
      note ap = chunk_append_ok [OF c a]
      have pos: "n \<noteq> 0" using ap ok1 Some False by auto
      have st: "bufq_ok (set_tail c' q1) \<and> bufq_bytes (set_tail c' q1) = bufq_bytes q1 @ take n buf
          \<and> bq_chunk_size (set_tail c' q1) = bq_chunk_size q1
          \<and> bq_max_chunks (set_tail c' q1) = bq_max_chunks q1 \<and> bq_soft_limit (set_tail c' q1) = bq_soft_limit q1"
        by (rule set_tail_ok) (use ok1 ap Some in auto)
      have "write_loop mem (drop n buf) (nw + n) (set_tail c' q1) = (e, nw', rest, q')"
        using "1.prems"(2) False g Some a pos by (subst (asm) write_loop.simps) simp
      from "1.IH" [OF False g [symmetric] Some a [symmetric] pos _ this] st
      obtain k where k: "k \<le> length (drop n buf)" "nw' = nw + n + k" "rest = drop k (drop n buf)"
        "bufq_bytes q' = bufq_bytes q @ take n buf @ take k (drop n buf)" and okq: "bufq_ok q'"
        "bq_chunk_size q' = bq_chunk_size q" "bq_max_chunks q' = bq_max_chunks q" "bq_soft_limit q' = bq_soft_limit q"
        using ok1 by auto
      have "n \<le> length buf" using ap by simp
      then have "n + k \<le> length buf" "take (n + k) buf = take n buf @ take k (drop n buf)"
        using k(1) by (simp_all add: take_add)
      then show ?thesis using k okq by (intro conjI exI [of _ "n + k"]) (simp_all add: add.commute)
    qed
  qed
qed

definition same_conf :: "bufq \<Rightarrow> bufq \<Rightarrow> bool" where
  "same_conf q q' \<longleftrightarrow> bq_chunk_size q' = bq_chunk_size q
     \<and> bq_max_chunks q' = bq_max_chunks q \<and> bq_soft_limit q' = bq_soft_limit q"

lemma same_conf_trans: "same_conf q q1 \<Longrightarrow> same_conf q1 q2 \<Longrightarrow> same_conf q q2"
  by (simp add: same_conf_def)

lemma same_conf_refl [simp]: "same_conf q q"
  by (simp add: same_conf_def)

lemma retire_ok:
  assumes "bufq_ok q" and "bq_head q = c # cs" and "chunk_ok (bq_chunk_size q) c'"
  shows "bufq_ok (retire c' (q\<lparr>bq_head := cs\<rparr>)) \<and> same_conf q (retire c' (q\<lparr>bq_head := cs\<rparr>))"
proof (cases "bq_pool q")
  case None
  with assms show ?thesis
    by (cases "cs = []") (auto simp: retire_def bufq_ok_def same_conf_def split: if_splits)
next
  case (Some p)
  then have "pool_ok (bq_chunk_size q) (bufcp_put p c')"
    using assms(1,3) by (simp add: bufq_ok_def bufcp_put_ok)
  with Some assms show ?thesis
    by (cases "cs = []") (auto simp: retire_def bufq_ok_def same_conf_def)
qed

lemma prune_head_ok:
  "bufq_ok q \<Longrightarrow> bufq_ok (prune_head q) \<and> bufq_bytes (prune_head q) = bufq_bytes q \<and> same_conf q (prune_head q)"
proof (induction q rule: prune_head.induct)
  case (1 q)
  show ?case
  proof (cases "bq_head q")
    case Nil
    then show ?thesis using "1.prems" by (simp add: prune_head.simps)
  next
    case (Cons c cs)
    show ?thesis
    proof (cases "chunk_is_empty c")
      case False
      then show ?thesis using Cons "1.prems" by (simp add: prune_head.simps)
    next
      case True
      let ?q = "retire c (q\<lparr>bq_head := cs\<rparr>)"
      have "chunk_ok (bq_chunk_size q) c" using "1.prems" Cons by (simp add: bufq_ok_def)
      note r = retire_ok [OF "1.prems" Cons this]
      have "prune_head q = prune_head ?q" using Cons True by (subst prune_head.simps) simp
      moreover have "bufq_bytes ?q = bufq_bytes q"
        using Cons True by (simp add: bufq_bytes_def chunk_peek_empty)
      ultimately show ?thesis using "1.IH" [OF Cons True] r by (auto simp: same_conf_def)
    qed
  qed
qed

lemma prune_set_head_ok:
  assumes "bufq_ok q" and "bq_head q = c # cs" and "chunk_ok (bq_chunk_size q) c'" and "chunk_live c'"
    and "ck_w c' = ck_w c \<or> chunk_is_empty c'"
  shows "bufq_ok (prune_head (set_head c' q))
    \<and> bufq_bytes (prune_head (set_head c' q)) = chunk_peek c' @ concat (map chunk_peek cs)
    \<and> same_conf q (prune_head (set_head c' q))"
proof (cases "chunk_is_empty c'")
  case False
  then have "ck_w c' = ck_w c" using assms(5) by simp
  with assms have "bufq_ok (set_head c' q)"
    by (cases "cs = []") (auto simp: bufq_ok_def set_head_def)
  moreover have "prune_head (set_head c' q) = set_head c' q"
    using False by (subst prune_head.simps) simp
  ultimately show ?thesis using assms(2) by (simp add: bufq_bytes_def same_conf_def set_head_def)
next
  case True
  let ?q = "retire c' (q\<lparr>bq_head := cs\<rparr>)"
  have "prune_head (set_head c' q) = prune_head (retire c' ((set_head c' q)\<lparr>bq_head := cs\<rparr>))"
    using True assms(2) by (subst prune_head.simps) simp
  also have "(set_head c' q)\<lparr>bq_head := cs\<rparr> = q\<lparr>bq_head := cs\<rparr>" by (simp add: set_head_def)
  finally have p: "prune_head (set_head c' q) = prune_head ?q" .
  note r = retire_ok [OF assms(1,2,3)]
  have "bufq_bytes ?q = chunk_peek c' @ concat (map chunk_peek cs)"
    using True by (simp add: bufq_bytes_def chunk_peek_empty)
  with prune_head_ok [OF conjunct1 [OF r]] r show ?thesis
    unfolding p using same_conf_trans by metis
qed

lemma bufq_len_ok: "bufq_ok q \<Longrightarrow> bufq_len q = length (bufq_bytes q)"
proof -
  assume "bufq_ok q"
  then have "\<forall>c \<in> set (bq_head q). length (chunk_peek c) = chunk_len c"
    using chunk_peek_length by (auto simp: bufq_ok_def)
  then have "map chunk_len (bq_head q) = map (\<lambda>c. length (chunk_peek c)) (bq_head q)" by simp
  then show "bufq_len q = length (bufq_bytes q)"
    unfolding bufq_len_def bufq_bytes_def length_concat map_map comp_def by (simp only:)
qed

lemma bytes_Cons: "bq_head q = c # cs \<Longrightarrow> bufq_bytes q = chunk_peek c @ concat (map chunk_peek cs)"
  by (simp add: bufq_bytes_def)

lemma head_ok:
  "bufq_ok q \<Longrightarrow> bq_head q = c # cs \<Longrightarrow> chunk_ok (bq_chunk_size q) c \<and> chunk_live c"
  by (simp add: bufq_ok_def)

lemma read_loop_ok:
  "bufq_ok q \<Longrightarrow> read_loop len nread out q = (n, out', q') \<Longrightarrow>
     bufq_ok q' \<and> out' = out @ take len (bufq_bytes q) \<and> bufq_bytes q' = drop len (bufq_bytes q)
     \<and> n = nread + min len (length (bufq_bytes q)) \<and> same_conf q q'"
proof (induction len nread out q arbitrary: n out' q' rule: read_loop.induct)
  case (1 len nread out q)
  show ?case
  proof (cases "len = 0 \<or> bq_head q = []")
    case True
    then show ?thesis using "1.prems" by (subst (asm) read_loop.simps) (auto simp: bufq_bytes_def)
  next
    case False
    then obtain c cs where h: "bq_head q = c # cs" by (cases "bq_head q") auto
    obtain m xs c' where r: "chunk_read c len = (m, xs, c')" by (metis prod_cases3)
    have len: "0 < len" using False by simp
    note c = head_ok [OF "1.prems"(1) h]
    note rd = chunk_read_ok [OF conjunct1 [OF c] conjunct2 [OF c] r len]
    let ?q = "prune_head (set_head c' q)"
    have p: "bufq_ok ?q \<and> bufq_bytes ?q = chunk_peek c' @ concat (map chunk_peek cs) \<and> same_conf q ?q"
      by (rule prune_set_head_ok [OF "1.prems"(1) h]) (use rd in auto)
    have "read_loop (len - m) (nread + m) (out @ xs) ?q = (n, out', q')"
      using "1.prems"(2) False h r by (subst (asm) read_loop.simps) simp
    from "1.IH" [OF False, unfolded h list.sel, OF r [symmetric] refl _ this] p
    have ih: "bufq_ok q' \<and> out' = (out @ xs) @ take (len - m) (bufq_bytes ?q)
      \<and> bufq_bytes q' = drop (len - m) (bufq_bytes ?q)
      \<and> n = nread + m + min (len - m) (length (bufq_bytes ?q)) \<and> same_conf ?q q'" by blast
    have l: "length (chunk_peek c) = chunk_len c" by (rule chunk_peek_length [OF conjunct1 [OF c]])
    show ?thesis
      using ih p rd l same_conf_trans [of q ?q q'] unfolding bytes_Cons [OF h]
      by (auto simp: min_def)
  qed
qed

lemma skip_ok:
  "bufq_ok q \<Longrightarrow> bufq_ok (bufq_skip amount q) \<and> bufq_bytes (bufq_skip amount q) = drop amount (bufq_bytes q)
     \<and> same_conf q (bufq_skip amount q)"
proof (induction amount q rule: bufq_skip.induct)
  case (1 amount q)
  show ?case
  proof (cases "amount = 0 \<or> bq_head q = []")
    case True
    then show ?thesis using "1.prems" by (subst (1 2 3) bufq_skip.simps) (auto simp: bufq_bytes_def)
  next
    case False
    then obtain c cs where h: "bq_head q = c # cs" by (cases "bq_head q") auto
    obtain m c' where r: "chunk_skip c amount = (m, c')" by fastforce
    note c = head_ok [OF "1.prems" h]
    note sk = chunk_skip_ok [OF conjunct1 [OF c] conjunct2 [OF c] r]
    let ?q = "prune_head (set_head c' q)"
    have p: "bufq_ok ?q \<and> bufq_bytes ?q = chunk_peek c' @ concat (map chunk_peek cs) \<and> same_conf q ?q"
      by (rule prune_set_head_ok [OF "1.prems" h]) (use sk in auto)
    from "1.IH" [OF False, unfolded h list.sel, OF r [symmetric]] p
    have ih: "bufq_ok (bufq_skip (amount - m) ?q)
      \<and> bufq_bytes (bufq_skip (amount - m) ?q) = drop (amount - m) (bufq_bytes ?q)
      \<and> same_conf ?q (bufq_skip (amount - m) ?q)" by blast
    have l: "length (chunk_peek c) = chunk_len c" by (rule chunk_peek_length [OF conjunct1 [OF c]])
    have e: "bufq_skip amount q = bufq_skip (amount - m) ?q"
      using False h r by (subst bufq_skip.simps) simp
    show ?thesis
      using ih p sk l same_conf_trans [of q ?q] unfolding e bytes_Cons [OF h]
      by (auto simp: min_def)
  qed
qed

lemma peek_ok:
  assumes "bufq_ok q" and "bufq_peek q = (r, q')"
  shows "bufq_ok q' \<and> bufq_bytes q' = bufq_bytes q \<and> same_conf q q'
    \<and> (case r of None \<Rightarrow> bufq_bytes q = [] | Some xs \<Rightarrow> xs \<noteq> [] \<and> prefix xs (bufq_bytes q))"
proof -
  define q1 where "q1 = (if bq_head q \<noteq> [] \<and> chunk_is_empty (hd (bq_head q)) then prune_head q else q)"
  have ok: "bufq_ok q1" "bufq_bytes q1 = bufq_bytes q" "same_conf q q1"
    using prune_head_ok [OF assms(1)] assms(1) by (simp_all add: q1_def)
  have hd: "bq_head q1 = [] \<or> \<not> chunk_is_empty (hd (bq_head q1))"
    using hd_dropWhile [of chunk_is_empty "bq_head q"] by (auto simp: q1_def prune_head_head)
  show ?thesis
  proof (cases "bq_head q1")
    case Nil
    then have "r = None" "q' = q1" using assms(2) by (simp_all add: bufq_peek_def q1_def [symmetric] Let_def)
    with Nil ok show ?thesis by (simp add: bufq_bytes_def)
  next
    case (Cons c cs)
    with hd have r: "r = Some (chunk_peek c)" "q' = q1"
      using assms(2) by (simp_all add: bufq_peek_def q1_def [symmetric] Let_def)
    have "0 < length (chunk_peek c)"
      using head_ok [OF ok(1) Cons] chunk_peek_length [of _ c] hd Cons
      by (auto simp: chunk_len_def chunk_is_empty_def)
    then have "chunk_peek c \<noteq> []" by auto
    moreover have "prefix (chunk_peek c) (bufq_bytes q1)" by (simp add: bytes_Cons [OF Cons])
    ultimately show ?thesis using r ok by simp
  qed
qed

lemma peek_at_loop_ok:
  assumes "\<forall>c \<in> set cs. chunk_ok sz c" and "\<forall>c \<in> set (butlast cs). \<not> chunk_is_empty c"
  shows "case peek_at_loop cs offset of
      None \<Rightarrow> length (concat (map chunk_peek cs)) \<le> offset
    | Some xs \<Rightarrow> xs \<noteq> [] \<and> prefix xs (drop offset (concat (map chunk_peek cs)))"
  using assms
proof (induction cs offset rule: peek_at_loop.induct)
  case (2 c cs offset)
  have c: "chunk_ok sz c" using "2.prems" by simp
  have l: "length (chunk_peek c) = chunk_len c" by (rule chunk_peek_length [OF c])
  consider "chunk_len c = 0" | "0 < chunk_len c" "chunk_len c \<le> offset" | "offset < chunk_len c" by linarith
  then show ?case
  proof cases
    case 1
    then have "cs = []" using "2.prems"(2) by (cases cs) (auto simp: chunk_is_empty_def chunk_len_def)
    with 1 l show ?thesis by simp
  next
    case 2
    have "\<forall>c \<in> set (butlast cs). \<not> chunk_is_empty c" using "2.prems"(2) by (cases cs) auto
    then show ?thesis
      using "2.IH" [OF refl] "2.prems"(1) 2 l by (auto split: option.splits)
  next
    case 3
    have "chunk_peek_at c offset = drop offset (chunk_peek c)"
      using 3 load_drop [of "ck_r c" offset "ck_w c" "ck_data c"]
      by (simp add: chunk_peek_at_def chunk_peek_def chunk_len_def add.commute)
    with 3 l show ?thesis by (auto simp: Let_def)
  qed
qed simp

lemma peek_at_ok:
  assumes "bufq_ok q"
  shows "case bufq_peek_at offset q of
      None \<Rightarrow> length (bufq_bytes q) \<le> offset
    | Some xs \<Rightarrow> xs \<noteq> [] \<and> prefix xs (drop offset (bufq_bytes q))"
proof -
  have "\<not> chunk_is_empty c" if "c \<in> set (butlast (bq_head q))" for c
  proof -
    have "ck_w c = bq_chunk_size q" "0 < bq_chunk_size q" "chunk_live c"
      using that assms in_set_butlastD by (fastforce simp: bufq_ok_def)+
    then show ?thesis by (simp add: chunk_empty_iff)
  qed
  then show ?thesis
    unfolding bufq_peek_at_def bufq_bytes_def
    by (intro peek_at_loop_ok [of _ "bq_chunk_size q"]) (use assms in \<open>auto simp: bufq_ok_def\<close>)
qed

lemma write_ok:
  assumes "bufq_ok q" and "bufq_write mem buf q = (e, n, q')"
  shows "bufq_ok q' \<and> n \<le> length buf \<and> bufq_bytes q' = bufq_bytes q @ take n buf \<and> same_conf q q'"
proof -
  obtain e1 nw rest q1 where w: "write_loop mem buf 0 q = (e1, nw, rest, q1)" by (metis prod_cases4)
  then have "n = nw" "q' = q1" using assms(2) by (auto simp: bufq_write_def split: option.splits)
  with write_loop_ok [OF assms(1) w] show ?thesis by (auto simp: same_conf_def)
qed

lemma read_ok:
  assumes "bufq_ok q" and "bufq_read len q = (e, n, out, q')"
  shows "bufq_ok q' \<and> out = take len (bufq_bytes q) \<and> bufq_bytes q' = drop len (bufq_bytes q) \<and> n = length out
    \<and> (e = CURLE_AGAIN \<longleftrightarrow> out = []) \<and> (e = CURLE_OK \<longleftrightarrow> out \<noteq> []) \<and> same_conf q q'"
proof -
  obtain m xs q1 where r: "read_loop len 0 [] q = (m, xs, q1)" by (metis prod_cases3)
  note ok = read_loop_ok [OF assms(1) r]
  have e: "e = (if m = 0 then CURLE_AGAIN else CURLE_OK)" "n = m" "out = xs" "q' = q1"
    using assms(2) r by (auto simp: bufq_read_def)
  have m: "m = length out" using ok e by (simp add: min.commute)
  then have "m = 0 \<longleftrightarrow> out = []" by simp
  then have "(e = CURLE_AGAIN \<longleftrightarrow> out = []) \<and> (e = CURLE_OK \<longleftrightarrow> out \<noteq> [])" using e(1) by simp
  with ok e(2-4) m show ?thesis by simp
qed

text \<open>Writing stores a byte at least, unless there is nothing to write or no room.\<close>

lemma write_loop_code:
  "write_loop mem buf nw q = (e, nw', rest, q') \<Longrightarrow> e = None \<or> e = Some CURLE_OUT_OF_MEMORY"
proof (induction mem buf nw q arbitrary: e nw' rest q' rule: write_loop.induct)
  case (1 mem buf nw q)
  obtain r q1 where g: "get_non_full_tail mem q = (r, q1)" by fastforce
  obtain n c' where a: "chunk_append (the r) buf = (n, c')" by fastforce
  show ?case
    using "1.prems" "1.IH" [OF _ g [symmetric] _ a [symmetric]] g a
    by (subst (asm) write_loop.simps) (auto split: if_splits option.splits)
qed

lemma write_code:
  assumes "bufq_write mem buf q = (e, n, q')"
  shows "e = CURLE_OK \<or> e = CURLE_AGAIN \<and> n = 0 \<or> e = CURLE_OUT_OF_MEMORY"
proof -
  obtain e1 nw rest q1 where w: "write_loop mem buf 0 q = (e1, nw, rest, q1)" by (metis prod_cases4)
  from write_loop_code [OF w] assms show ?thesis by (auto simp: bufq_write_def w split: if_splits)
qed

section \<open>Callbacks\<close>

text \<open>A writer that takes at most what it is offered, with a log of what it took; a reader
  that gives at most what it is asked for, with a log of what it gave.\<close>

definition honest_writer :: "'w writer \<Rightarrow> ('w \<Rightarrow> string) \<Rightarrow> bool" where
  "honest_writer writer log \<longleftrightarrow> (\<forall>ctx buf. case writer ctx buf of (e, n, ctx') \<Rightarrow>
     if e = CURLE_OK then n \<le> length buf \<and> log ctx' = log ctx @ take n buf else log ctx' = log ctx)"

definition honest_reader :: "'r reader \<Rightarrow> ('r \<Rightarrow> string) \<Rightarrow> bool" where
  "honest_reader reader log \<longleftrightarrow> (\<forall>ctx m. case reader ctx m of (e, xs, ctx') \<Rightarrow>
     if e = CURLE_OK then length xs \<le> m \<and> log ctx' = log ctx @ xs else log ctx' = log ctx)"

lemma honest_writerD:
  "honest_writer writer log \<Longrightarrow> writer ctx buf = (e, n, ctx') \<Longrightarrow>
     (if e = CURLE_OK then n \<le> length buf \<and> log ctx' = log ctx @ take n buf else log ctx' = log ctx)"
  unfolding honest_writer_def by (metis (mono_tags, lifting) case_prod_conv)

lemma honest_readerD:
  "honest_reader reader log \<Longrightarrow> reader ctx m = (e, xs, ctx') \<Longrightarrow>
     (if e = CURLE_OK then length xs \<le> m \<and> log ctx' = log ctx @ xs else log ctx' = log ctx)"
  unfolding honest_reader_def by (metis (mono_tags, lifting) case_prod_conv)

lemma pass_loop_ok:
  "honest_writer writer log \<Longrightarrow> bufq_ok q \<Longrightarrow> pass_loop writer ctx nw q = (e, nw', q', ctx') \<Longrightarrow>
    bufq_ok q' \<and> same_conf q q' \<and> log ctx' @ bufq_bytes q' = log ctx @ bufq_bytes q
      \<and> nw + length (bufq_bytes q) = nw' + length (bufq_bytes q')"
proof (induction writer ctx nw q arbitrary: nw' q' ctx' rule: pass_loop.induct)
  case (1 writer ctx nw q)
  obtain r q1 where p: "bufq_peek q = (r, q1)" by fastforce
  note pk = peek_ok [OF "1.prems"(2) p]
  show ?case
  proof (cases r)
    case None
    then have "nw' = nw" "q' = q1" "ctx' = ctx"
      using "1.prems"(3) p by (subst (asm) pass_loop.simps; simp)+
    then show ?thesis using pk by simp
  next
    case (Some buf)
    obtain e1 n c1 where w: "writer ctx buf = (e1, n, c1)" by (metis prod_cases3)
    note hw = honest_writerD [OF "1.prems"(1) w]
    show ?thesis
    proof (cases "e1 = CURLE_OK \<and> n \<noteq> 0")
      case False
      then have "nw' = nw" "q' = q1" "ctx' = c1"
        using "1.prems"(3) p Some w by (subst (asm) pass_loop.simps; auto split: if_splits)+
      moreover have "log c1 = log ctx" using hw False by (auto split: if_splits)
      ultimately show ?thesis using pk by simp
    next
      case True
      then have l: "log c1 = log ctx @ take n buf" "n \<le> length buf" using hw by simp_all
      obtain zs where z: "bufq_bytes q = buf @ zs" using pk Some by (auto simp: prefix_def)
      note sk = skip_ok [of q1 n]
      have sk: "bufq_ok (bufq_skip n q1)" "bufq_bytes (bufq_skip n q1) = drop n (bufq_bytes q)"
        "same_conf q (bufq_skip n q1)"
        using skip_ok [of q1 n] pk same_conf_trans by auto
      have "pass_loop writer c1 (nw + n) (bufq_skip n q1) = (e, nw', q', ctx')"
        using "1.prems"(3) p Some w True by (subst (asm) pass_loop.simps) simp
      from "1.IH" [OF p [symmetric] Some w [symmetric] refl _ _ "1.prems"(1) sk(1) this] True
      have ih: "bufq_ok q' \<and> same_conf (bufq_skip n q1) q'
          \<and> log ctx' @ bufq_bytes q' = log c1 @ bufq_bytes (bufq_skip n q1)
          \<and> nw + n + length (bufq_bytes (bufq_skip n q1)) = nw' + length (bufq_bytes q')" by simp
      have "log c1 @ drop n (bufq_bytes q) = log ctx @ bufq_bytes q" using l z by simp
      moreover have "n \<le> length (bufq_bytes q)" using l z by simp
      ultimately show ?thesis using ih sk same_conf_trans by auto
    qed
  qed
qed

lemma write_pass_loop_ok:
  "honest_writer writer log \<Longrightarrow> bufq_ok q \<Longrightarrow> write_pass_loop mem buf writer ctx nw q = (e, nw', q', ctx') \<Longrightarrow>
    e \<noteq> CURLE_OUT_OF_MEMORY \<Longrightarrow>
    bufq_ok q' \<and> same_conf q q' \<and> nw \<le> nw' \<and> nw' - nw \<le> length buf
      \<and> log ctx' @ bufq_bytes q' = log ctx @ bufq_bytes q @ take (nw' - nw) buf"
proof (induction mem buf writer ctx nw q arbitrary: nw' q' ctx' rule: write_pass_loop.induct)
  case (1 mem buf writer ctx nw q)
  show ?case
  proof (cases "buf = []")
    case True
    then have "nw' = nw" "q' = q" "ctx' = ctx"
      using "1.prems"(3) by (subst (asm) write_pass_loop.simps; simp)+
    then show ?thesis using "1.prems"(2) by simp
  next
    case False
    obtain e1 n1 q1 c1 where p: "(if bufq_is_full q then bufq_pass writer ctx q else (CURLE_OK, 0, q, ctx)) = (e1, n1, q1, c1)"
      by (metis prod_cases4)
    have ok1: "bufq_ok q1" "same_conf q q1" "log c1 @ bufq_bytes q1 = log ctx @ bufq_bytes q"
      using p "1.prems"(1,2) pass_loop_ok [OF "1.prems"(1,2), of ctx 0 e1 n1 q1 c1]
      by (auto simp: bufq_pass_def split: if_splits)
    show ?thesis
    proof (cases "e1 = CURLE_OK")
      case ne: False
      then have "nw' = nw" "q' = q1" "ctx' = c1"
        using "1.prems"(3) False p by (subst (asm) write_pass_loop.simps; auto simp: Let_def split: if_splits)+
      then show ?thesis using ok1 by simp
    next
      case True
      obtain e2 n q2 where w: "bufq_write mem buf q1 = (e2, n, q2)" by (metis prod_cases3)
      note ok2 = write_ok [OF ok1(1) w] and code = write_code [OF w]
      show ?thesis
      proof (cases "e2 = CURLE_OK \<and> n \<noteq> 0")
        case ne: False
        have "e2 \<noteq> CURLE_OUT_OF_MEMORY"
          using "1.prems"(3,4) False p True w by (subst (asm) write_pass_loop.simps) (auto simp: Let_def)
        with ne code have "n = 0" by auto
        moreover have "nw' = nw" "q' = q2" "ctx' = c1"
          using "1.prems"(3) False p True w ne
          by (subst (asm) write_pass_loop.simps; auto simp: Let_def split: if_splits)+
        ultimately show ?thesis using ok1 ok2 same_conf_trans by auto
      next
        case ok: True
        have "write_pass_loop mem (drop n buf) writer c1 (nw + n) q2 = (e, nw', q', ctx')"
          using "1.prems"(3) False p True w ok by (subst (asm) write_pass_loop.simps) (simp add: Let_def)
        from "1.IH" [OF refl False p [symmetric] refl refl _ _ w [symmetric] refl _ _ _ "1.prems"(1) _ this "1.prems"(4)]
        have ih: "bufq_ok q' \<and> same_conf q2 q' \<and> nw + n \<le> nw' \<and> nw' - (nw + n) \<le> length (drop n buf)
          \<and> log ctx' @ bufq_bytes q' = log c1 @ bufq_bytes q2 @ take (nw' - (nw + n)) (drop n buf)"
          using True ok ok2 by simp
        then obtain k where k: "nw' = nw + n + k" by (metis le_iff_add)
        have "log ctx' @ bufq_bytes q' = log c1 @ bufq_bytes q2 @ take k (drop n buf)" using ih k by simp
        also have "\<dots> = (log c1 @ bufq_bytes q1) @ take n buf @ take k (drop n buf)" using ok2 by simp
        also have "\<dots> = log ctx @ bufq_bytes q @ take (n + k) buf" unfolding ok1(3) by (simp add: take_add)
        finally have "log ctx' @ bufq_bytes q' = log ctx @ bufq_bytes q @ take (nw' - nw) buf"
          using k by simp
        moreover have "same_conf q q'" using ih ok1(2) ok2 same_conf_trans by blast
        moreover have "nw \<le> nw'" "nw' - nw \<le> length buf" using ih ok2 k by auto
        ultimately show ?thesis using ih by blast
      qed
    qed
  qed
qed

section \<open>Capacity\<close>

definition bufq_within :: "bufq \<Rightarrow> bool" where
  "bufq_within q \<longleftrightarrow> bq_soft_limit q \<or> bq_chunk_count q \<le> bq_max_chunks q"

lemma get_spare_within: "bufq_within q \<Longrightarrow> get_spare mem q = (r, q') \<Longrightarrow> bufq_within q'"
  by (auto simp: bufq_within_def get_spare_def split: list.splits option.splits if_splits prod.splits curle.splits)

lemma get_non_full_tail_within:
  "bufq_within q \<Longrightarrow> get_non_full_tail mem q = (r, q') \<Longrightarrow> bufq_within q'"
proof (cases "bq_head q \<noteq> [] \<and> \<not> chunk_is_full (last (bq_head q))")
  case False
  assume q: "bufq_within q" and t: "get_non_full_tail mem q = (r, q')"
  obtain r1 q1 where g: "get_spare mem q = (r1, q1)" by fastforce
  have "bq_chunk_count q' = bq_chunk_count q1 \<and> bq_max_chunks q' = bq_max_chunks q1 \<and> bq_soft_limit q' = bq_soft_limit q1"
    using t False g by (cases r1) (auto simp: get_non_full_tail_def)
  with get_spare_within [OF q g] show "bufq_within q'" by (simp add: bufq_within_def)
qed (simp add: get_non_full_tail_def)

lemma set_within [simp]:
  "bufq_within (set_tail c q) = bufq_within q" "bufq_within (set_head c q) = bufq_within q"
  by (simp_all add: bufq_within_def set_tail_def set_head_def)

lemma write_loop_within:
  "bufq_within q \<Longrightarrow> write_loop mem buf nw q = (e, nw', rest, q') \<Longrightarrow> bufq_within q'"
proof (induction mem buf nw q arbitrary: e nw' rest q' rule: write_loop.induct)
  case (1 mem buf nw q)
  obtain r q1 where g: "get_non_full_tail mem q = (r, q1)" by fastforce
  obtain n c' where a: "chunk_append (the r) buf = (n, c')" by fastforce
  note w = get_non_full_tail_within [OF "1.prems"(1) g]
  show ?case
    using "1.prems" "1.IH" [OF _ g [symmetric] _ a [symmetric]] g a w
    by (subst (asm) write_loop.simps) (auto split: if_splits option.splits)
qed

lemma write_within: "bufq_within q \<Longrightarrow> bufq_write mem buf q = (e, n, q') \<Longrightarrow> bufq_within q'"
  by (auto simp: bufq_write_def split: prod.splits option.splits dest: write_loop_within)

lemma prune_head_within: "bufq_within q \<Longrightarrow> bufq_within (prune_head q)"
proof (induction q rule: prune_head.induct)
  case (1 q)
  show ?case
  proof (cases "bq_head q")
    case (Cons c cs)
    have "bufq_within (retire c (q\<lparr>bq_head := cs\<rparr>))"
      using "1.prems" by (auto simp: bufq_within_def retire_def split: option.split)
    then show ?thesis using "1.IH" [OF Cons] "1.prems" Cons by (subst prune_head.simps) simp
  qed (use "1.prems" in \<open>simp add: prune_head.simps\<close>)
qed

lemma read_loop_within: "bufq_within q \<Longrightarrow> read_loop len nread out q = (n, out', q') \<Longrightarrow> bufq_within q'"
proof (induction len nread out q arbitrary: n out' q' rule: read_loop.induct)
  case (1 len nread out q)
  obtain m xs c' where r: "chunk_read (hd (bq_head q)) len = (m, xs, c')" by (metis prod_cases3)
  have "bufq_within (prune_head (set_head c' q))" using "1.prems"(1) by (simp add: prune_head_within)
  then show ?case
    using "1.prems" "1.IH" [OF _ r [symmetric] refl] r by (subst (asm) read_loop.simps) (auto split: if_splits)
qed

lemma read_within: "bufq_within q \<Longrightarrow> bufq_read len q = (e, n, out, q') \<Longrightarrow> bufq_within q'"
  by (auto simp: bufq_read_def split: prod.splits dest: read_loop_within)

lemma chunk_sum:
  assumes "bufq_ok q"
  shows "sum_list (map ck_w (bq_head q)) \<le> length (bq_head q) * bq_chunk_size q"
proof -
  have "\<forall>c \<in> set cs. ck_w c \<le> sz \<Longrightarrow> sum_list (map ck_w cs) \<le> length cs * sz" for cs sz
    by (induction cs) (auto simp: add_mono)
  moreover have "\<forall>c \<in> set (bq_head q). ck_w c \<le> bq_chunk_size q" using assms by (auto simp: bufq_ok_def chunk_ok_def)
  ultimately show ?thesis by blast
qed

lemma capacity:
  assumes "bufq_ok q" and "bufq_within q" and "\<not> bq_soft_limit q"
  shows "sum_list (map ck_w (bq_head q)) \<le> bq_max_chunks q * bq_chunk_size q"
    and "length (bufq_bytes q) \<le> bq_max_chunks q * bq_chunk_size q"
proof -
  have "length (bq_head q) \<le> bq_max_chunks q" using assms by (simp add: bufq_ok_def bufq_within_def)
  then have "length (bq_head q) * bq_chunk_size q \<le> bq_max_chunks q * bq_chunk_size q" by simp
  with chunk_sum [OF assms(1)] show s: "sum_list (map ck_w (bq_head q)) \<le> bq_max_chunks q * bq_chunk_size q"
    by (rule order_trans)
  have "bufq_len q \<le> sum_list (map ck_w (bq_head q))"
    unfolding bufq_len_def by (rule sum_list_mono) (simp add: chunk_len_def)
  with s show "length (bufq_bytes q) \<le> bq_max_chunks q * bq_chunk_size q"
    by (simp add: bufq_len_ok [OF assms(1), symmetric])
qed

section \<open>The queue meets its contract\<close>

definition bufq_put :: "(nat \<Rightarrow> bool) \<Rightarrow> string \<Rightarrow> bufq \<Rightarrow> nat \<times> bufq" where
  "bufq_put mem xs q = snd (bufq_write mem xs q)"

definition bufq_get :: "nat \<Rightarrow> bufq \<Rightarrow> string \<times> bufq" where
  "bufq_get n q = snd (snd (bufq_read n q))"

definition bufq_inv :: "nat \<Rightarrow> nat \<Rightarrow> bool \<Rightarrow> bufq \<Rightarrow> bool" where
  "bufq_inv sz mx soft q \<longleftrightarrow> bufq_ok q \<and> bufq_within q \<and> bq_chunk_size q = sz \<and> bq_max_chunks q = mx
     \<and> bq_soft_limit q = soft"

interpretation bufq: byte_queue "bufq_inv sz mx soft" bufq_bytes "bufq_put mem" bufq_get
proof unfold_locales
  fix q q' xs n
  assume inv: "bufq_inv sz mx soft q" and p: "bufq_put mem xs q = (n, q')"
  then obtain e where w: "bufq_write mem xs q = (e, n, q')" by (metis bufq_put_def prod.collapse)
  show "bufq_inv sz mx soft q' \<and> n \<le> length xs \<and> bufq_bytes q' = bufq_bytes q @ take n xs"
    using write_ok [OF _ w] write_within [OF _ w] inv by (simp add: bufq_inv_def same_conf_def)
next
  fix q q' n out
  assume inv: "bufq_inv sz mx soft q" and g: "bufq_get n q = (out, q')"
  then obtain e m where r: "bufq_read n q = (e, m, out, q')" by (metis bufq_get_def prod.collapse)
  show "bufq_inv sz mx soft q' \<and> out = take n (bufq_bytes q) \<and> bufq_bytes q' = drop n (bufq_bytes q)"
    using read_ok [OF _ r] read_within [OF _ r] inv by (simp add: bufq_inv_def same_conf_def)
qed

lemma init_inv:
  assumes "0 < sz" and "0 < mx"
  shows "bufq_inv sz mx soft (bufq_init2 sz mx soft no_spares)" and "bufq_bytes (bufq_init2 sz mx soft no_spares) = []"
  using assms by (simp_all add: bufq_inv_def bufq_init2_def bufq_init0_def bufq_ok_def bufq_within_def bufq_bytes_def)

section \<open>Slurping\<close>

lemma chunk_slurpn_ok:
  assumes "honest_reader reader log" and "chunk_ok sz c" and "chunk_live c" and "ck_w c < sz"
    and "chunk_slurpn c max_len reader ctx = (e, n, c', ctx')"
  obtains xs where "chunk_ok sz c'" "chunk_live c'" "chunk_peek c' = chunk_peek c @ xs" "ck_w c' = ck_w c + length xs"
    "log ctx' = log ctx @ xs" "if e = CURLE_OK then n = length xs else xs = []"
    "max_len \<noteq> 0 \<Longrightarrow> length xs \<le> max_len"
proof -
  define m where "m = (if max_len \<noteq> 0 \<and> sz - ck_w c > max_len then max_len else sz - ck_w c)"
  obtain e1 xs c1 where r: "reader ctx m = (e1, xs, c1)" by (metis prod_cases3)
  have sz: "ck_dlen c = sz" using assms(2) by (simp add: chunk_ok_def)
  have res: "e = e1" "n = length xs" "ctx' = c1"
    "c' = (if e1 = CURLE_OK then c\<lparr>ck_data := store (ck_w c) xs (ck_data c), ck_w := ck_w c + length xs\<rparr> else c)"
    using assms(4,5) r unfolding chunk_slurpn_def sz Let_def m_def by auto
  note h = honest_readerD [OF assms(1) r]
  show thesis
  proof (cases "e1 = CURLE_OK")
    case True
    have m: "ck_w c + length xs \<le> sz" "max_len \<noteq> 0 \<Longrightarrow> length xs \<le> max_len"
      using h True assms(4) by (auto simp: m_def split: if_splits)
    have c': "c' = c\<lparr>ck_data := store (ck_w c) xs (ck_data c), ck_w := ck_w c + length xs\<rparr>" using res True by simp
    have "chunk_ok sz c'" "chunk_live c'"
      using assms(2,3) m by (auto simp: c' chunk_ok_def chunk_live_def store_def)
    moreover have "chunk_peek c' = chunk_peek c @ xs"
      using assms(2) m load_store [of "ck_r c" "ck_w c" xs "ck_data c"] by (simp add: c' chunk_peek_def chunk_ok_def)
    ultimately show thesis using that [of xs] m h True res by (simp add: c')
  next
    case False
    with that [of "[]"] res h assms(2,3) show thesis by simp
  qed
qed

lemma get_non_full_tail_sum:
  assumes "bufq_ok q" and "get_non_full_tail mem q = (r, q')"
  shows "sum_list (map ck_w (bq_head q')) = sum_list (map ck_w (bq_head q))"
proof (cases "bq_head q \<noteq> [] \<and> \<not> chunk_is_full (last (bq_head q))")
  case True
  with assms(2) show ?thesis by (auto simp: get_non_full_tail_def)
next
  case False
  obtain r1 q1 where g: "get_spare mem q = (r1, q1)" by fastforce
  with get_spare_ok [OF assms(1) g] False assms(2) show ?thesis
    by (cases r1) (auto simp: get_non_full_tail_def same_but_store_def)
qed

lemma sipn_ok:
  assumes "honest_reader reader log" and "bufq_ok q" and "bufq_sipn mem max_len reader ctx q = (e, n, q', ctx')"
  obtains xs where "bufq_ok q'" "same_conf q q'" "bufq_within q \<Longrightarrow> bufq_within q'"
    "bufq_bytes q' = bufq_bytes q @ xs" "log ctx' = log ctx @ xs" "if e = CURLE_OK then n = length xs else xs = []"
    "sum_list (map ck_w (bq_head q')) = sum_list (map ck_w (bq_head q)) + length xs"
    "max_len \<noteq> 0 \<Longrightarrow> length xs \<le> max_len"
proof -
  obtain r q1 where g: "get_non_full_tail mem q = (r, q1)" by fastforce
  note ok = get_non_full_tail_ok [OF assms(2) g] and sum = get_non_full_tail_sum [OF assms(2) g]
    and win = get_non_full_tail_within [OF _ g]
  show thesis
  proof (cases r)
    case None
    then have "q' = q1" "ctx' = ctx" "e \<noteq> CURLE_OK"
      using assms(3) g by (auto simp: bufq_sipn_def split: if_splits)
    with that [of "[]"] ok sum win show thesis by (simp add: same_conf_def)
  next
    case (Some c)
    obtain c' where s: "chunk_slurpn c max_len reader ctx = (e, n, c', ctx')" and q': "q' = set_tail c' q1"
      using assms(3) g Some by (auto simp: bufq_sipn_def split: prod.splits)
    have c: "chunk_ok (bq_chunk_size q) c" "chunk_live c" "ck_w c < bq_chunk_size q" "bq_head q1 \<noteq> []" "last (bq_head q1) = c"
      using ok Some by (auto simp: bufq_ok_def)
    obtain xs where x: "chunk_ok (bq_chunk_size q) c'" "chunk_live c'" "chunk_peek c' = chunk_peek c @ xs"
      "ck_w c' = ck_w c + length xs" "log ctx' = log ctx @ xs" "if e = CURLE_OK then n = length xs else xs = []"
      "max_len \<noteq> 0 \<Longrightarrow> length xs \<le> max_len"
      using chunk_slurpn_ok [OF assms(1) c(1-3) s] by metis
    have st: "bufq_ok (set_tail c' q1) \<and> bufq_bytes (set_tail c' q1) = bufq_bytes q1 @ xs
      \<and> bq_chunk_size (set_tail c' q1) = bq_chunk_size q1
      \<and> bq_max_chunks (set_tail c' q1) = bq_max_chunks q1 \<and> bq_soft_limit (set_tail c' q1) = bq_soft_limit q1"
      by (rule set_tail_ok) (use ok c x in auto)
    have "bq_head q1 = butlast (bq_head q1) @ [c]" using c(4,5) by (metis append_butlast_last_id)
    then have "sum_list (map ck_w (bq_head q1)) = sum_list (map ck_w (butlast (bq_head q1))) + ck_w c"
      by (metis (no_types) list.map map_append sum_list.Cons sum_list.Nil sum_list_append add.right_neutral)
    then have "sum_list (map ck_w (bq_head q')) = sum_list (map ck_w (bq_head q)) + length xs"
      using sum x(4) by (simp add: q')
    with that [of xs] st ok x win show thesis by (simp add: q' same_conf_def)
  qed
qed

lemma slurp_loop_returns:
  assumes "honest_reader reader log"
  shows "bufq_inv sz mx False q \<Longrightarrow> \<exists>e q' ctx' xs. slurp_loop mem max_len reader ctx nr q = Some (e, nr + length xs, q', ctx')
    \<and> bufq_inv sz mx False q' \<and> bufq_bytes q' = bufq_bytes q @ xs \<and> log ctx' = log ctx @ xs
    \<and> (max_len \<noteq> 0 \<longrightarrow> length xs \<le> max_len)"
proof (induction "mx * sz - sum_list (map ck_w (bq_head q))" arbitrary: q ctx nr max_len rule: less_induct)
  case less
  obtain e n q1 c1 where s: "bufq_sipn mem max_len reader ctx q = (e, n, q1, c1)" by (metis prod_cases4)
  have ok: "bufq_ok q" "bufq_within q" using less.prems by (simp_all add: bufq_inv_def)
  obtain xs where x: "bufq_ok q1" "same_conf q q1" "bufq_within q1"
    "bufq_bytes q1 = bufq_bytes q @ xs" "log c1 = log ctx @ xs" "if e = CURLE_OK then n = length xs else xs = []"
    "sum_list (map ck_w (bq_head q1)) = sum_list (map ck_w (bq_head q)) + length xs"
    "max_len \<noteq> 0 \<Longrightarrow> length xs \<le> max_len"
    using sipn_ok [OF assms ok(1) s] ok(2) by metis
  have inv: "bufq_inv sz mx False q1" using less.prems x by (simp add: bufq_inv_def same_conf_def)
  show ?case
  proof (cases "e = CURLE_OK \<and> n \<noteq> 0 \<and> \<not> (max_len \<noteq> 0 \<and> max_len - n = 0)
      \<and> \<not> (bq_head q1 \<noteq> [] \<and> \<not> chunk_is_full (last (bq_head q1)))")
    case False
    then have "\<exists>e'. slurp_loop mem max_len reader ctx nr q = Some (e', nr + length xs, q1, c1)"
      using s x(6) by (subst slurp_loop.simps) (auto split: if_splits)
    then show ?thesis using inv x(4,5,8) by blast
  next
    case True
    then have n: "e = CURLE_OK" "n = length xs" "0 < length xs" "max_len \<noteq> 0 \<Longrightarrow> max_len - n \<noteq> 0" using x(6) by auto
    have step: "slurp_loop mem max_len reader ctx nr q = slurp_loop mem (max_len - n) reader c1 (nr + n) q1"
      using s True by (subst slurp_loop.simps) auto
    have "sum_list (map ck_w (bq_head q1)) \<le> mx * sz"
      using capacity(1) [OF x(1,3)] inv by (simp add: bufq_inv_def)
    then have "mx * sz - sum_list (map ck_w (bq_head q1)) < mx * sz - sum_list (map ck_w (bq_head q))"
      using x(7) n(3) by linarith
    from less.hyps [OF this inv, of "max_len - n" c1 "nr + n"]
    obtain e' q' c' ys where r: "slurp_loop mem (max_len - n) reader c1 (nr + n) q1 = Some (e', nr + n + length ys, q', c')"
      "bufq_inv sz mx False q'" "bufq_bytes q' = bufq_bytes q1 @ ys" "log c' = log c1 @ ys"
      "max_len - n \<noteq> 0 \<longrightarrow> length ys \<le> max_len - n" by blast
    have "slurp_loop mem max_len reader ctx nr q = Some (e', nr + length (xs @ ys), q', c')"
      using r(1) n(2) by (simp add: step)
    moreover have "bufq_bytes q' = bufq_bytes q @ xs @ ys" "log c' = log ctx @ xs @ ys" using r(3,4) x(4,5) by simp_all
    moreover have "max_len \<noteq> 0 \<longrightarrow> length (xs @ ys) \<le> max_len" using r(5) n(2,4) x(8) by auto
    ultimately show ?thesis using r(2) by blast
  qed
qed

text \<open>
  C36. Reading into a queue ends: with a hard limit, \<open>Curl_bufq_slurp\<close> returns after
  finitely many calls of any reader that delivers at most what it is asked for, whatever
  it answers (more data, end of file, blocked, an error) and whatever memory there is.
  All bytes the reader delivered, and no others, are at the end of the queue, in order, the
  reported count is theirs, and the queue still holds within its chunks.
\<close>

theorem bufq_slurp_returns:
  assumes "honest_reader reader log" and "bufq_inv sz mx False q"
  shows "\<exists>e q' ctx' xs. bufq_slurp mem reader ctx q = Some (e, length xs, q', ctx')
    \<and> bufq_bytes q' = bufq_bytes q @ xs \<and> log ctx' = log ctx @ xs \<and> length (bufq_bytes q') \<le> mx * sz"
proof -
  obtain e q' ctx' xs where r: "slurp_loop mem 0 reader ctx 0 q = Some (e, 0 + length xs, q', ctx')"
    "bufq_inv sz mx False q'" "bufq_bytes q' = bufq_bytes q @ xs" "log ctx' = log ctx @ xs"
    using slurp_loop_returns [OF assms, of mem 0 ctx 0] by blast
  moreover have "length (bufq_bytes q') \<le> mx * sz" using capacity(2) [of q'] r(2) by (simp add: bufq_inv_def)
  ultimately show ?thesis by (auto simp: bufq_slurp_def bufq_slurpn_def)
qed

text \<open>A reader that delivers a source as fast as asked, and then blocks.\<close>

definition source_reader :: "(string \<times> string) reader" where
  "source_reader ctx m = (case ctx of (src, seen) \<Rightarrow>
     if src = [] then (CURLE_AGAIN, [], ctx) else (CURLE_OK, take m src, (drop m src, seen @ take m src)))"

lemma source_reader_honest: "honest_reader source_reader snd"
  by (auto simp: honest_reader_def source_reader_def split: prod.splits)

theorem bufq_slurp_returns_witness:
  "\<exists>e q' ctx' xs. bufq_slurp (\<lambda>_. True) source_reader (''hello world'', []) (bufq_init2 4 2 False False) = Some (e, length xs, q', ctx')
    \<and> bufq_bytes q' = bufq_bytes (bufq_init2 4 2 False False) @ xs \<and> snd ctx' = [] @ xs \<and> length (bufq_bytes q') \<le> 2 * 4"
  using bufq_slurp_returns [OF source_reader_honest init_inv(1) [of 4 2 False False], of "\<lambda>_. True" "(''hello world'', [])"]
  by simp

lemma is_empty_ok:
  assumes "bufq_ok q"
  shows "bufq_is_empty q \<longleftrightarrow> bufq_bytes q = []"
proof (cases "bq_head q")
  case Nil
  then show ?thesis by (simp add: bufq_is_empty_def bufq_bytes_def)
next
  case (Cons c cs)
  note c = head_ok [OF assms Cons]
  have l: "length (chunk_peek c) = chunk_len c" by (rule chunk_peek_length [OF conjunct1 [OF c]])
  show ?thesis
  proof (cases "chunk_is_empty c")
    case True
    then have "ck_w c = 0" using c chunk_empty_iff by blast
    then have "cs = []" using assms Cons by (cases cs) (auto simp: bufq_ok_def)
    with True Cons show ?thesis by (simp add: bufq_is_empty_def bufq_bytes_def chunk_peek_empty)
  next
    case False
    with l have "chunk_peek c \<noteq> []" by (auto simp: chunk_is_empty_def chunk_len_def)
    with False Cons show ?thesis by (simp add: bufq_is_empty_def bytes_Cons)
  qed
qed

fun bufq_run :: "(nat \<Rightarrow> bool) \<Rightarrow> queue_op list \<Rightarrow> bufq \<Rightarrow> string \<times> string \<times> bufq" where
  "bufq_run mem [] q = ([], [], q)"
| "bufq_run mem (Enq xs # opers) q = (case bufq_write mem xs q of (_, n, q1) \<Rightarrow>
     (case bufq_run mem opers q1 of (i, out, q') \<Rightarrow> (take n xs @ i, out, q')))"
| "bufq_run mem (Deq n # opers) q = (case bufq_read n q of (_, _, xs, q1) \<Rightarrow>
     (case bufq_run mem opers q1 of (i, out, q') \<Rightarrow> (i, xs @ out, q')))"

lemma bufq_run_eq: "bufq_run mem opers q = bufq.run mem opers q"
proof (induction mem opers q rule: bufq_run.induct)
  case (2 mem xs opers q)
  obtain e n q1 where w: "bufq_write mem xs q = (e, n, q1)" by (metis prod_cases3)
  then have "bufq_put mem xs q = (n, q1)" by (simp add: bufq_put_def)
  with "2.IH" [OF w [symmetric] refl] w show ?case by simp
next
  case (3 mem n opers q)
  obtain e m xs q1 where r: "bufq_read n q = (e, m, xs, q1)" by (metis prod_cases4)
  then have "bufq_get n q = (xs, q1)" by (simp add: bufq_get_def)
  with "3.IH" [OF r [symmetric] refl refl] r show ?case by simp
qed simp

text \<open>
  C35. A buffer queue is a queue of bytes: over any history of writes and reads, whatever
  chunk size, limits, spare handling and memory, the bytes read followed by those still
  queued are exactly the bytes the writes reported as taken, in order.  Length and
  emptiness are those of the queued bytes, and without the soft limit there are never
  more of them than fit into \<open>max_chunks\<close> chunks.
\<close>

theorem bufq_fifo:
  assumes "0 < sz" and "0 < mx"
    and "bufq_run mem opers (bufq_init2 sz mx soft no_spares) = (taken, given, q)"
  shows "taken = given @ bufq_bytes q \<and> bufq_len q = length (bufq_bytes q)
    \<and> (bufq_is_empty q \<longleftrightarrow> bufq_bytes q = []) \<and> (\<not> soft \<longrightarrow> bufq_len q \<le> mx * sz)"
proof -
  note i = init_inv [OF assms(1,2), of soft no_spares]
  have r: "bufq_inv sz mx soft q \<and> bufq_bytes (bufq_init2 sz mx soft no_spares) @ taken = given @ bufq_bytes q"
    using bufq.run_fifo [OF i(1) assms(3) [unfolded bufq_run_eq]] by simp
  then have ok: "bufq_ok q" "bufq_within q" "bq_soft_limit q = soft" "bq_max_chunks q * bq_chunk_size q = mx * sz"
    by (simp_all add: bufq_inv_def)
  show ?thesis
    using r i(2) bufq_len_ok [OF ok(1)] is_empty_ok [OF ok(1)] capacity(2) [OF ok(1,2)] ok(3,4) by simp
qed

theorem bufq_fifo_witness:
  "\<exists>taken given q. bufq_run (\<lambda>_. True) [Enq ''hello'', Deq 2, Enq ''abcdef''] (bufq_init2 4 2 False False) = (taken, given, q)
    \<and> taken = given @ bufq_bytes q \<and> bufq_len q \<le> 2 * 4"
proof -
  obtain taken given q where r:
    "bufq_run (\<lambda>_. True) [Enq ''hello'', Deq 2, Enq ''abcdef''] (bufq_init2 4 2 False False) = (taken, given, q)"
    by (metis prod_cases3)
  have "0 < (4 :: nat)" "0 < (2 :: nat)" by simp_all
  from bufq_fifo [OF this r] r show ?thesis by blast
qed

text \<open>
  Writing through a queue loses nothing: with a writer that takes at most what it is
  offered, what \<open>Curl_bufq_write_pass\<close> (and the \<open>Curl_bufq_pass\<close> inside it) makes of a
  call is that the bytes the writer has taken, followed by those still queued, are what
  they were before, followed by the part of the input reported as written, unless memory
  ran out.  \<open>Curl_bufq_pass\<close> alone moves bytes from the front of the queue to the writer
  and reports how many.
\<close>

theorem bufq_pass_through:
  assumes "honest_writer writer log" and "bufq_ok q"
  shows "(bufq_pass writer ctx q = (e, n, q', ctx') \<longrightarrow>
      log ctx' @ bufq_bytes q' = log ctx @ bufq_bytes q \<and> n + length (bufq_bytes q') = length (bufq_bytes q) \<and> bufq_ok q')
    \<and> (bufq_write_pass mem buf writer ctx q = (e, n, q', ctx') \<and> e \<noteq> CURLE_OUT_OF_MEMORY \<longrightarrow>
      log ctx' @ bufq_bytes q' = log ctx @ bufq_bytes q @ take n buf \<and> n \<le> length buf \<and> bufq_ok q')"
  using pass_loop_ok [OF assms, of ctx 0 e n q' ctx'] write_pass_loop_ok [OF assms, of mem buf ctx 0 e n q' ctx']
  by (auto simp: bufq_pass_def bufq_write_pass_def)

text \<open>A writer that takes three bytes at a time.\<close>

definition three_writer :: "string writer" where
  "three_writer seen buf = (CURLE_OK, min 3 (length buf), seen @ take 3 buf)"

lemma three_writer_honest: "honest_writer three_writer (\<lambda>seen. seen)"
  by (auto simp: honest_writer_def three_writer_def min_def)

theorem bufq_pass_through_witness:
  "\<exists>e n q' ctx'. bufq_write_pass (\<lambda>_. True) ''hello'' three_writer [] (bufq_init2 2 1 False False) = (e, n, q', ctx')
    \<and> (e \<noteq> CURLE_OUT_OF_MEMORY \<longrightarrow> ctx' @ bufq_bytes q' = take n ''hello'')"
proof -
  obtain e n q' ctx' where w:
    "bufq_write_pass (\<lambda>_. True) ''hello'' three_writer [] (bufq_init2 2 1 False False) = (e, n, q', ctx')"
    by (metis prod_cases4)
  have i: "bufq_ok (bufq_init2 2 1 False False)" "bufq_bytes (bufq_init2 2 1 False False) = []"
    using init_inv [of 2 1 False False] by (simp_all add: bufq_inv_def)
  from bufq_pass_through [OF three_writer_honest i(1), of "[]" e n q' ctx' "\<lambda>_. True" "''hello''"] w i(2)
  show ?thesis by auto
qed

end
