(* ===== verification/CurlChunks.thy ===== *)
theory CurlChunks
  imports CurlBufq
begin

text \<open>
  HTTP/1.1 chunked transfer coding, \<open>lib/http_chunks.c\<close>: the decoder of response bodies,
  a state machine that is fed whatever the network delivers, and the encoder of request
  bodies, which builds chunks in a buffer queue.  The client's write callback, the reader
  below the encoder and the trailer callback are functions of their own state; \<open>env\<close>
  holds what the decoder takes from the transfer.
\<close>

section \<open>The decoder's state\<close>

datatype chunky_state =
    CHUNK_HEX | CHUNK_LF | CHUNK_DATA | CHUNK_POSTLF | CHUNK_STOP | CHUNK_TRAILER
  | CHUNK_TRAILER_CR | CHUNK_TRAILER_POSTCR | CHUNK_DONE | CHUNK_FAILED

datatype chunk_code =
    CHUNKE_OK | CHUNKE_TOO_LONG_HEX | CHUNKE_ILLEGAL_HEX | CHUNKE_BAD_CHUNK
  | CHUNKE_BAD_ENCODING | CHUNKE_OUT_OF_MEMORY | CHUNKE_PASSTHRU_ERROR

definition chunk_maxnum_len :: nat where
  "chunk_maxnum_len = 16"

text \<open>\<open>ch_hex\<close> is \<open>hexbuffer\<close> up to \<open>hexindex\<close>.\<close>

record chunker =
  ch_datasize :: nat
  ch_state :: chunky_state
  ch_last_code :: chunk_code
  ch_trailer :: dynbuf
  ch_hex :: string
  ch_ignore_body :: bool

definition dyn_h1_trailer :: nat where
  "dyn_h1_trailer = 4096"

text \<open>\<open>Curl_httpchunk_init\<close> leaves \<open>datasize\<close> as it was.\<close>

definition httpchunk_init :: "nat \<Rightarrow> bool \<Rightarrow> chunker" where
  "httpchunk_init datasize ignore_body =
     \<lparr> ch_datasize = datasize, ch_state = CHUNK_HEX, ch_last_code = CHUNKE_OK,
       ch_trailer = dyn_init dyn_h1_trailer, ch_hex = [], ch_ignore_body = ignore_body \<rparr>"

definition httpchunk_reset :: "chunker \<Rightarrow> bool \<Rightarrow> chunker" where
  "httpchunk_reset ch ignore_body =
     ch\<lparr>ch_state := CHUNK_HEX, ch_last_code := CHUNKE_OK, ch_trailer := dyn_reset (ch_trailer ch),
        ch_hex := [], ch_ignore_body := ignore_body\<rparr>"

definition httpchunk_free :: "chunker \<Rightarrow> chunker" where
  "httpchunk_free ch = ch\<lparr>ch_trailer := dyn_free (ch_trailer ch)\<rparr>"

definition httpchunk_is_done :: "chunker \<Rightarrow> bool" where
  "httpchunk_is_done ch \<longleftrightarrow> ch_state ch = CHUNK_DONE"

datatype wtype = CLIENTWRITE_BODY | CLIENTWRITE_TRAILER

record 'w chunk_env =
  ce_te_skip :: bool
  ce_headerline :: nat
  ce_mem :: "nat \<Rightarrow> bool"
  ce_write :: "'w \<Rightarrow> wtype \<Rightarrow> string \<Rightarrow> curle \<times> 'w"

section \<open>Header lines\<close>

text \<open>\<open>Curl_verify_header\<close> of \<open>lib/http.c\<close>.\<close>

definition verify_header :: "nat \<Rightarrow> string \<Rightarrow> curle" where
  "verify_header headerline h =
     (if CHR 0x00 \<in> set h then CURLE_WEIRD_SERVER_REPLY
      else if length h > 2 \<and> CHR 0x0D \<in> set (take (length h - 2) h) then CURLE_WEIRD_SERVER_REPLY
      else if headerline < 2 then CURLE_OK
      else if h \<noteq> [] \<and> (hd h = CHR '' '' \<or> hd h = CHR 0x09) \<and> headerline > 2 then CURLE_OK
      else if CHR '':'' \<notin> set h then CURLE_WEIRD_SERVER_REPLY
      else CURLE_OK)"

section \<open>Decoding\<close>

definition chunk_fail :: "chunker \<Rightarrow> chunk_code \<Rightarrow> chunker" where
  "chunk_fail ch code = ch\<lparr>ch_state := CHUNK_FAILED, ch_last_code := code\<rparr>"

text \<open>One round of the loop, on input that is not empty: the result if it returns, how
  much it consumed, the decoder and the client.\<close>

definition hex_step :: "chunker \<Rightarrow> 'w \<Rightarrow> char \<Rightarrow> curle option \<times> nat \<times> chunker \<times> 'w" where
  "hex_step ch w c =
     (if is_xdigit c
      then if length (ch_hex ch) \<ge> chunk_maxnum_len
           then (Some CURLE_RECV_ERROR, 0, chunk_fail ch CHUNKE_TOO_LONG_HEX, w)
           else (None, 1, ch\<lparr>ch_hex := ch_hex ch @ [c]\<rparr>, w)
      else if ch_hex ch = [] then (Some CURLE_RECV_ERROR, 0, chunk_fail ch CHUNKE_ILLEGAL_HEX, w)
      else case str_hex (ch_hex ch) curl_off_t_max of
             Inl _ \<Rightarrow> (Some CURLE_RECV_ERROR, 0, chunk_fail ch CHUNKE_ILLEGAL_HEX, w)
           | Inr (n, _) \<Rightarrow> (None, 0, ch\<lparr>ch_datasize := n, ch_state := CHUNK_LF\<rparr>, w))"

definition lf_step :: "chunker \<Rightarrow> 'w \<Rightarrow> char \<Rightarrow> curle option \<times> nat \<times> chunker \<times> 'w" where
  "lf_step ch w c =
     (None, 1,
      if c = LF then ch\<lparr>ch_state := if ch_datasize ch = 0 then CHUNK_TRAILER else CHUNK_DATA\<rparr> else ch, w)"

definition data_step :: "'w chunk_env \<Rightarrow> chunker \<Rightarrow> 'w \<Rightarrow> string \<Rightarrow> curle option \<times> nat \<times> chunker \<times> 'w" where
  "data_step env ch w buf =
     (let piece = (if ch_datasize ch < length buf then ch_datasize ch else length buf)
      in case (if \<not> ce_te_skip env \<and> \<not> ch_ignore_body ch
               then ce_write env w CLIENTWRITE_BODY (take piece buf) else (CURLE_OK, w)) of
           (result, w') \<Rightarrow>
             if result \<noteq> CURLE_OK then (Some result, 0, chunk_fail ch CHUNKE_PASSTHRU_ERROR, w')
             else (None, piece,
                   ch\<lparr>ch_datasize := ch_datasize ch - piece,
                      ch_state := if ch_datasize ch - piece = 0 then CHUNK_POSTLF else ch_state ch\<rparr>, w'))"

definition postlf_step :: "chunker \<Rightarrow> 'w \<Rightarrow> char \<Rightarrow> curle option \<times> nat \<times> chunker \<times> 'w" where
  "postlf_step ch w c =
     (if c = LF then (None, 1, httpchunk_reset ch (ch_ignore_body ch), w)
      else if c \<noteq> CR then (Some CURLE_RECV_ERROR, 0, chunk_fail ch CHUNKE_BAD_CHUNK, w)
      else (None, 1, ch, w))"

text \<open>A trailer line is complete: it is verified, written and dropped.\<close>

definition trailer_line :: "'w chunk_env \<Rightarrow> chunker \<Rightarrow> 'w \<Rightarrow> char \<Rightarrow> curle option \<times> nat \<times> chunker \<times> 'w" where
  "trailer_line env ch w c =
     (case dyn_addn (ce_mem env) (ch_trailer ch) [CR, LF] 2 of
        (result, tr) \<Rightarrow>
          if result \<noteq> CURLE_OK
          then (Some result, 0, chunk_fail (ch\<lparr>ch_trailer := tr\<rparr>) CHUNKE_OUT_OF_MEMORY, w)
          else let line = db_data tr; verdict = verify_header (ce_headerline env) line
               in if verdict \<noteq> CURLE_OK
                  then (Some verdict, 0, chunk_fail (ch\<lparr>ch_trailer := tr\<rparr>) CHUNKE_BAD_CHUNK, w)
                  else case (if \<not> ce_te_skip env then ce_write env w CLIENTWRITE_TRAILER line else (CURLE_OK, w)) of
                    (result2, w') \<Rightarrow>
                      if result2 \<noteq> CURLE_OK
                      then (Some result2, 0, chunk_fail (ch\<lparr>ch_trailer := tr\<rparr>) CHUNKE_PASSTHRU_ERROR, w')
                      else (None, if c = LF then 0 else 1,
                            ch\<lparr>ch_trailer := dyn_reset tr, ch_state := CHUNK_TRAILER_CR\<rparr>, w'))"

definition trailer_step :: "'w chunk_env \<Rightarrow> chunker \<Rightarrow> 'w \<Rightarrow> char \<Rightarrow> curle option \<times> nat \<times> chunker \<times> 'w" where
  "trailer_step env ch w c =
     (if c = CR \<or> c = LF
      then if dyn_ptr (ch_trailer ch) \<noteq> None then trailer_line env ch w c
           else (None, 0, ch\<lparr>ch_state := CHUNK_TRAILER_POSTCR\<rparr>, w)
      else case dyn_addn (ce_mem env) (ch_trailer ch) [c] 1 of
             (result, tr) \<Rightarrow>
               if result \<noteq> CURLE_OK
               then (Some result, 0, chunk_fail (ch\<lparr>ch_trailer := tr\<rparr>) CHUNKE_OUT_OF_MEMORY, w)
               else (None, 1, ch\<lparr>ch_trailer := tr\<rparr>, w))"

definition trailer_cr_step :: "chunker \<Rightarrow> 'w \<Rightarrow> char \<Rightarrow> curle option \<times> nat \<times> chunker \<times> 'w" where
  "trailer_cr_step ch w c =
     (if c = LF then (None, 1, ch\<lparr>ch_state := CHUNK_TRAILER_POSTCR\<rparr>, w)
      else (Some CURLE_RECV_ERROR, 0, chunk_fail ch CHUNKE_BAD_CHUNK, w))"

definition trailer_postcr_step :: "chunker \<Rightarrow> 'w \<Rightarrow> char \<Rightarrow> curle option \<times> nat \<times> chunker \<times> 'w" where
  "trailer_postcr_step ch w c =
     (if c \<noteq> CR \<and> c \<noteq> LF then (None, 0, ch\<lparr>ch_state := CHUNK_TRAILER\<rparr>, w)
      else (None, if c = CR then 1 else 0, ch\<lparr>ch_state := CHUNK_STOP\<rparr>, w))"

definition stop_step :: "chunker \<Rightarrow> 'w \<Rightarrow> string \<Rightarrow> curle option \<times> nat \<times> chunker \<times> 'w" where
  "stop_step ch w buf =
     (if hd buf = LF
      then (Some CURLE_OK, 1, ch\<lparr>ch_datasize := length buf - 1, ch_state := CHUNK_DONE\<rparr>, w)
      else (Some CURLE_RECV_ERROR, 0, chunk_fail ch CHUNKE_BAD_CHUNK, w))"

definition chunk_step :: "'w chunk_env \<Rightarrow> chunker \<Rightarrow> 'w \<Rightarrow> string \<Rightarrow> curle option \<times> nat \<times> chunker \<times> 'w" where
  "chunk_step env ch w buf = (case ch_state ch of
      CHUNK_HEX \<Rightarrow> hex_step ch w (hd buf)
    | CHUNK_LF \<Rightarrow> lf_step ch w (hd buf)
    | CHUNK_DATA \<Rightarrow> data_step env ch w buf
    | CHUNK_POSTLF \<Rightarrow> postlf_step ch w (hd buf)
    | CHUNK_TRAILER \<Rightarrow> trailer_step env ch w (hd buf)
    | CHUNK_TRAILER_CR \<Rightarrow> trailer_cr_step ch w (hd buf)
    | CHUNK_TRAILER_POSTCR \<Rightarrow> trailer_postcr_step ch w (hd buf)
    | CHUNK_STOP \<Rightarrow> stop_step ch w buf
    | CHUNK_DONE \<Rightarrow> (Some CURLE_OK, 0, ch, w)
    | CHUNK_FAILED \<Rightarrow> (Some CURLE_RECV_ERROR, 0, ch, w))"

text \<open>Rounds that consume nothing go forward in the states.\<close>

definition state_rank :: "chunky_state \<Rightarrow> char \<Rightarrow> nat" where
  "state_rank s c = (case s of
      CHUNK_HEX \<Rightarrow> 1 | CHUNK_DATA \<Rightarrow> 1 | CHUNK_TRAILER \<Rightarrow> if c = CR \<or> c = LF then 2 else 0
    | CHUNK_TRAILER_POSTCR \<Rightarrow> 1 | _ \<Rightarrow> 0)"

lemma chunk_step_progress:
  assumes "chunk_step env ch w buf = (None, n, ch', w')" and "buf \<noteq> []"
  shows "0 < n \<or> state_rank (ch_state ch') (hd buf) < state_rank (ch_state ch) (hd buf)"
  using assms
  by (cases "ch_state ch")
     (auto simp: chunk_step_def hex_step_def lf_step_def data_step_def postlf_step_def trailer_step_def
        trailer_line_def trailer_cr_step_def trailer_postcr_step_def stop_step_def Let_def state_rank_def
        split: if_splits sum.splits prod.splits)

function chunk_loop :: "'w chunk_env \<Rightarrow> chunker \<Rightarrow> 'w \<Rightarrow> string \<Rightarrow> nat \<Rightarrow> curle \<times> nat \<times> chunker \<times> 'w" where
  "chunk_loop env ch w buf consumed =
     (if buf = [] then (CURLE_OK, consumed, ch, w)
      else case chunk_step env ch w buf of
             (Some result, n, ch', w') \<Rightarrow> (result, consumed + n, ch', w')
           | (None, n, ch', w') \<Rightarrow> chunk_loop env ch' w' (drop n buf) (consumed + n))"
  by pat_completeness auto
termination
proof (relation "measures [\<lambda>(env, ch, w, buf, k). length buf, \<lambda>(env, ch, w, buf, k). state_rank (ch_state ch) (hd buf)]")
  fix env :: "'w chunk_env" and ch ch' :: chunker and w w' :: 'w and buf :: string and consumed n :: nat
    and o' p q
  assume "buf \<noteq> []" "(o', p) = chunk_step env ch w buf" "o' = None" "(n, q) = p" "(ch', w') = q"
  then have s: "chunk_step env ch w buf = (None, n, ch', w')" by simp
  from chunk_step_progress [OF s \<open>buf \<noteq> []\<close>] \<open>buf \<noteq> []\<close>
  show "((env, ch', w', drop n buf, consumed + n), env, ch, w, buf, consumed)
      \<in> measures [\<lambda>(env, ch, w, buf, k). length buf, \<lambda>(env, ch, w, buf, k). state_rank (ch_state ch) (hd buf)]"
    by (cases "n = 0") auto
qed simp

declare chunk_loop.simps [simp del]

definition httpchunk_readwrite :: "'w chunk_env \<Rightarrow> chunker \<Rightarrow> 'w \<Rightarrow> string \<Rightarrow> curle \<times> nat \<times> chunker \<times> 'w" where
  "httpchunk_readwrite env ch w buf =
     (if ch_state ch = CHUNK_DONE then (CURLE_OK, 0, ch, w)
      else if ch_state ch = CHUNK_FAILED then (CURLE_RECV_ERROR, 0, ch, w)
      else case (if ce_te_skip env \<and> \<not> ch_ignore_body ch
                 then ce_write env w CLIENTWRITE_BODY buf else (CURLE_OK, w)) of
             (result, w') \<Rightarrow>
               if result \<noteq> CURLE_OK then (result, 0, chunk_fail ch CHUNKE_PASSTHRU_ERROR, w')
               else chunk_loop env ch w' buf 0)"

definition chunked_strerror :: "chunk_code \<Rightarrow> string" where
  "chunked_strerror code = (case code of
      CHUNKE_TOO_LONG_HEX \<Rightarrow> ''Too long hexadecimal number''
    | CHUNKE_ILLEGAL_HEX \<Rightarrow> ''Illegal or missing hexadecimal sequence''
    | CHUNKE_BAD_CHUNK \<Rightarrow> ''Malformed encoding found''
    | CHUNKE_PASSTHRU_ERROR \<Rightarrow> ''Error writing data to client''
    | CHUNKE_BAD_ENCODING \<Rightarrow> ''Bad content-encoding found''
    | CHUNKE_OUT_OF_MEMORY \<Rightarrow> ''Out of memory''
    | CHUNKE_OK \<Rightarrow> ''OK'')"

text \<open>\<open>cw_chunked_write\<close>: what is not body goes on to \<open>other\<close>, the next writer.  The
  result tells whether the download is done.\<close>

definition cw_chunked_write :: "'w chunk_env \<Rightarrow> ('w \<Rightarrow> string \<Rightarrow> curle \<times> 'w) \<Rightarrow> bool \<Rightarrow> bool \<Rightarrow> bool
    \<Rightarrow> chunker \<Rightarrow> 'w \<Rightarrow> string \<Rightarrow> curle \<times> bool \<times> chunker \<times> 'w" where
  "cw_chunked_write env other is_body is_eos no_body ch w buf =
     (if \<not> is_body then (case other w buf of (e, w') \<Rightarrow> (e, False, ch, w'))
      else case httpchunk_readwrite env ch w buf of
        (result, consumed, ch', w') \<Rightarrow>
          if result \<noteq> CURLE_OK then (result, False, ch', w')
          else if ch_state ch' = CHUNK_DONE then (CURLE_OK, True, ch', w')
          else if is_eos \<and> \<not> no_body then (CURLE_PARTIAL_FILE, False, ch', w')
          else (CURLE_OK, False, ch', w'))"

section \<open>Encoding\<close>

definition curl_chunked_minlen :: nat where "curl_chunked_minlen = 1024"
definition curl_chunked_maxlen :: nat where "curl_chunked_maxlen = 64 * 1024"

record chunked_reader =
  cr_chunkbuf :: bufq
  cr_read_eos :: bool
  cr_eos :: bool

definition cr_chunked_init :: chunked_reader where
  "cr_chunked_init =
     \<lparr> cr_chunkbuf = bufq_init2 curl_chunked_maxlen 2 True False, cr_read_eos = False, cr_eos = False \<rparr>"

definition cr_chunked_close :: "chunked_reader \<Rightarrow> chunked_reader" where
  "cr_chunked_close ctx = ctx\<lparr>cr_chunkbuf := bufq_free (cr_chunkbuf ctx)\<rparr>"

text \<open>Bytes into the chunk buffer, in several writes up to the first error.\<close>

fun cr_put :: "(nat \<Rightarrow> bool) \<Rightarrow> string list \<Rightarrow> chunked_reader \<Rightarrow> curle \<times> chunked_reader" where
  "cr_put mem [] ctx = (CURLE_OK, ctx)"
| "cr_put mem (xs # xss) ctx = (case bufq_cwrite mem xs (cr_chunkbuf ctx) of
     (e, _, q) \<Rightarrow> if e \<noteq> CURLE_OK then (e, ctx\<lparr>cr_chunkbuf := q\<rparr>)
                  else cr_put mem xss (ctx\<lparr>cr_chunkbuf := q\<rparr>))"

definition good_trailer :: "string \<Rightarrow> bool" where
  "good_trailer t = (case dropWhile (\<lambda>c. c \<noteq> CHR '':'') t of
      _ # c # _ \<Rightarrow> c = CHR '' '' | _ \<Rightarrow> False)"

text \<open>\<open>cb\<close> is what the trailer callback, if there is one, answers.\<close>

definition add_last_chunk :: "(nat \<Rightarrow> bool) \<Rightarrow> (bool \<times> string list) option \<Rightarrow> chunked_reader \<Rightarrow> curle \<times> chunked_reader" where
  "add_last_chunk mem cb ctx = (case cb of
      None \<Rightarrow> cr_put mem [''0'' @ [CR, LF, CR, LF]] ctx
    | Some (ok, trailers) \<Rightarrow>
        (case cr_put mem [''0'' @ [CR, LF]] ctx of
           (e, ctx1) \<Rightarrow>
             if e \<noteq> CURLE_OK then (e, ctx1)
             else if \<not> ok then (CURLE_ABORTED_BY_CALLBACK, ctx1)
             else cr_put mem (concat (map (\<lambda>t. if good_trailer t then [t, [CR, LF]] else []) trailers) @ [[CR, LF]]) ctx1))"

type_synonym 'r creader = "'r \<Rightarrow> nat \<Rightarrow> curle \<times> string \<times> bool \<times> 'r"

definition hex_digit :: "nat \<Rightarrow> char" where
  "hex_digit d = ldigits ! d"

fun nat_hex :: "nat \<Rightarrow> string" where
  "nat_hex n = (if n < 16 then [hex_digit n] else nat_hex (n div 16) @ [hex_digit (n mod 16)])"

declare nat_hex.simps [simp del]

definition add_chunk :: "(nat \<Rightarrow> bool) \<Rightarrow> 'r creader \<Rightarrow> (bool \<times> string list) option \<Rightarrow> chunked_reader \<Rightarrow> 'r \<Rightarrow> nat
    \<Rightarrow> curle \<times> chunked_reader \<times> 'r" where
  "add_chunk mem reader cb ctx r blen0 =
     (let blen1 = min blen0 curl_chunked_maxlen;
          blen = (if blen1 < curl_chunked_minlen then curl_chunked_minlen else blen1 - (8 + 2 + 2))
      in case reader r blen of
           (result, xs, eos, r') \<Rightarrow>
             if result \<noteq> CURLE_OK then (result, ctx, r')
             else let ctx1 = (if eos then ctx\<lparr>cr_read_eos := True\<rparr> else ctx)
                  in case (if xs = [] then (CURLE_OK, ctx1)
                           else cr_put mem [take 10 (nat_hex (length xs) @ [CR, LF]), xs, [CR, LF]] ctx1) of
                       (e, ctx2) \<Rightarrow>
                         if e \<noteq> CURLE_OK then (e, ctx2, r')
                         else if cr_read_eos ctx2
                         then (case add_last_chunk mem cb ctx2 of (e2, ctx3) \<Rightarrow> (e2, ctx3, r'))
                         else (CURLE_OK, ctx2, r'))"

text \<open>A read of at most \<open>blen\<close> bytes: the bytes, and whether this is the end.\<close>

definition cr_chunked_read :: "(nat \<Rightarrow> bool) \<Rightarrow> 'r creader \<Rightarrow> (bool \<times> string list) option \<Rightarrow> chunked_reader \<Rightarrow> 'r \<Rightarrow> nat
    \<Rightarrow> curle \<times> string \<times> bool \<times> chunked_reader \<times> 'r" where
  "cr_chunked_read mem reader cb ctx r blen =
     (if cr_eos ctx then (CURLE_OK, [], True, ctx, r)
      else case (if \<not> cr_read_eos ctx \<and> bufq_is_empty (cr_chunkbuf ctx)
                 then add_chunk mem reader cb ctx r blen else (CURLE_OK, ctx, r)) of
        (e, ctx1, r1) \<Rightarrow>
          if e \<noteq> CURLE_OK then (e, [], False, ctx1, r1)
          else if \<not> bufq_is_empty (cr_chunkbuf ctx1)
          then (case bufq_cread blen (cr_chunkbuf ctx1) of
                  (e2, _, out, q) \<Rightarrow>
                    if e2 = CURLE_OK \<and> cr_read_eos ctx1 \<and> bufq_is_empty q
                    then (e2, out, True, ctx1\<lparr>cr_chunkbuf := q, cr_eos := True\<rparr>, r1)
                    else (e2, out, False, ctx1\<lparr>cr_chunkbuf := q\<rparr>, r1))
          else (CURLE_OK, [], False, ctx1, r1))"

definition cr_chunked_total_length :: int where
  "cr_chunked_total_length = -1"

section \<open>Independence of the pieces\<close>

lemma chunk_loop_Nil [simp]: "chunk_loop env ch w [] k = (CURLE_OK, k, ch, w)"
  by (simp add: chunk_loop.simps)

text \<open>A client that takes all it is given; \<open>body\<close> is what it has of the body.\<close>

definition takes_all :: "'w chunk_env \<Rightarrow> ('w \<Rightarrow> string) \<Rightarrow> bool" where
  "takes_all env body \<longleftrightarrow> (\<forall>w k xs. fst (ce_write env w k xs) = CURLE_OK
     \<and> body (snd (ce_write env w k xs)) = body w @ (if k = CLIENTWRITE_BODY then xs else []))"

lemma takes_allD:
  assumes "takes_all env body" and "ce_write env w k xs = (e, w')"
  shows "e = CURLE_OK \<and> body w' = body w @ (if k = CLIENTWRITE_BODY then xs else [])"
proof -
  have "fst (ce_write env w k xs) = CURLE_OK
     \<and> body (snd (ce_write env w k xs)) = body w @ (if k = CLIENTWRITE_BODY then xs else [])"
    using assms(1) unfolding takes_all_def by blast
  then show ?thesis by (simp add: assms(2))
qed

definition seen :: "('w \<Rightarrow> string) \<Rightarrow> 'e \<times> nat \<times> chunker \<times> 'w \<Rightarrow> 'e \<times> nat \<times> chunker \<times> string" where
  "seen body x = (case x of (e, n, ch, w) \<Rightarrow> (e, n, ch, body w))"

lemma seen_simps [simp]: "seen body (e, n, ch, w) = (e, n, ch, body w)"
  by (simp add: seen_def)

lemma data_step_seen:
  assumes "takes_all env body"
  shows "seen body (data_step env ch w buf) =
    (let piece = min (ch_datasize ch) (length buf)
     in (None, piece, ch\<lparr>ch_datasize := ch_datasize ch - piece,
           ch_state := if ch_datasize ch - piece = 0 then CHUNK_POSTLF else ch_state ch\<rparr>,
         body w @ (if ce_te_skip env \<or> ch_ignore_body ch then [] else take piece buf)))"
proof -
  let ?p = "if ch_datasize ch < length buf then ch_datasize ch else length buf"
  obtain e w' where w: "ce_write env w CLIENTWRITE_BODY (take ?p buf) = (e, w')" by fastforce
  have "min (ch_datasize ch) (length buf) = ?p" by simp
  with takes_allD [OF assms w] w show ?thesis by (auto simp: data_step_def Let_def)
qed

lemma trailer_line_seen:
  assumes "takes_all env body" and "body w = body v"
  shows "seen body (trailer_line env ch w c) = seen body (trailer_line env ch v c)"
proof -
  obtain e tr where t: "dyn_addn (ce_mem env) (ch_trailer ch) [CR, LF] 2 = (e, tr)" by fastforce
  obtain e1 w1 where w: "ce_write env w CLIENTWRITE_TRAILER (db_data tr) = (e1, w1)" by fastforce
  obtain e2 v1 where v: "ce_write env v CLIENTWRITE_TRAILER (db_data tr) = (e2, v1)" by fastforce
  show ?thesis
    using takes_allD [OF assms(1) w] takes_allD [OF assms(1) v] assms(2) t w v
    by (auto simp: trailer_line_def Let_def)
qed

lemma chunk_step_seen:
  assumes "takes_all env body" and "body w = body v"
  shows "seen body (chunk_step env ch w buf) = seen body (chunk_step env ch v buf)"
  using data_step_seen [OF assms(1), of ch w buf] data_step_seen [OF assms(1), of ch v buf]
    trailer_line_seen [OF assms] assms(2)
  by (cases "ch_state ch")
     (auto simp: chunk_step_def hex_step_def lf_step_def postlf_step_def trailer_step_def
        trailer_cr_step_def trailer_postcr_step_def stop_step_def split: sum.splits prod.splits)

lemma chunk_loop_seen:
  "takes_all env body \<Longrightarrow> body w = body v \<Longrightarrow>
     seen body (chunk_loop env ch w buf k) = seen body (chunk_loop env ch v buf k)"
proof (induction env ch w buf k arbitrary: v rule: chunk_loop.induct)
  case (1 env ch w buf k)
  show ?case
  proof (cases "buf = []")
    case True
    then show ?thesis using "1.prems" by (simp add: chunk_loop.simps)
  next
    case False
    obtain r n ch1 w1 where sw: "chunk_step env ch w buf = (r, n, ch1, w1)" by (metis prod_cases4)
    obtain r2 n2 ch2 v1 where sv: "chunk_step env ch v buf = (r2, n2, ch2, v1)" by (metis prod_cases4)
    have e: "r2 = r" "n2 = n" "ch2 = ch1" "body w1 = body v1"
      using chunk_step_seen [OF "1.prems", of ch buf] by (simp_all add: sw sv)
    show ?thesis
    proof (cases r)
      case None
      then have "seen body (chunk_loop env ch1 w1 (drop n buf) (k + n)) = seen body (chunk_loop env ch1 v1 (drop n buf) (k + n))"
        using "1.IH" [OF False sw [symmetric] _ refl refl "1.prems"(1) e(4)] by simp
      then show ?thesis using False sw sv e None by (simp add: chunk_loop.simps [of env ch])
    next
      case (Some x)
      then show ?thesis using False sw sv e by (simp add: chunk_loop.simps [of env ch])
    qed
  qed
qed

text \<open>Unless it is at the end, the decoder takes a buffer whole, and does on two buffers
  what it does on their concatenation.\<close>

lemma chunk_step_append:
  assumes "xs \<noteq> []" and "ch_state ch \<noteq> CHUNK_DATA" and "ch_state ch \<noteq> CHUNK_STOP"
  shows "chunk_step env ch w (xs @ ys) = chunk_step env ch w xs"
  using assms by (cases "ch_state ch") (auto simp: chunk_step_def)

lemma chunk_step_consumed:
  assumes "chunk_step env ch w xs = (r, n, ch', w')" and "xs \<noteq> []"
  shows "n \<le> length xs"
proof -
  have "1 \<le> length xs" using assms(2) by (cases xs) auto
  then show ?thesis
    using assms
    by (cases "ch_state ch")
       (auto simp: chunk_step_def hex_step_def lf_step_def data_step_def postlf_step_def trailer_step_def
          trailer_line_def trailer_cr_step_def trailer_postcr_step_def stop_step_def Let_def
          split: if_splits sum.splits prod.splits)
qed

lemma data_step_append:
  assumes "ch_datasize ch \<le> length xs"
  shows "data_step env ch w (xs @ ys) = data_step env ch w xs"
proof -
  have "(if ch_datasize ch < length (xs @ ys) then ch_datasize ch else length (xs @ ys)) = ch_datasize ch"
    "(if ch_datasize ch < length xs then ch_datasize ch else length xs) = ch_datasize ch"
    "take (ch_datasize ch) (xs @ ys) = take (ch_datasize ch) xs"
    using assms by auto
  then show ?thesis by (simp only: data_step_def Let_def)
qed

lemma chunk_loop_append:
  "takes_all env body \<Longrightarrow> chunk_loop env ch w xs k = (CURLE_OK, n, ch1, w1) \<Longrightarrow> ch_state ch1 \<noteq> CHUNK_DONE \<Longrightarrow>
     n = k + length xs \<and> seen body (chunk_loop env ch w (xs @ ys) k) = seen body (chunk_loop env ch1 w1 ys n)"
proof (induction env ch w xs k arbitrary: n ch1 w1 rule: chunk_loop.induct)
  case (1 env ch w xs k)
  show ?case
  proof (cases "xs = []")
    case True
    then show ?thesis using "1.prems"(2) by simp
  next
    case False
    obtain r m ch2 w2 where s: "chunk_step env ch w xs = (r, m, ch2, w2)" by (metis prod_cases4)
    have m: "m \<le> length xs" by (rule chunk_step_consumed [OF s False])
    show ?thesis
    proof (cases r)
      case (Some e)
      then have "e = CURLE_OK" "ch1 = ch2" using "1.prems"(2) False s by (simp_all add: chunk_loop.simps [of env ch])
      then have "ch_state ch1 = CHUNK_DONE"
        using s Some
        by (cases "ch_state ch")
           (auto simp: chunk_step_def hex_step_def lf_step_def data_step_def postlf_step_def trailer_step_def
              trailer_line_def trailer_cr_step_def trailer_postcr_step_def stop_step_def Let_def chunk_fail_def
              split: if_splits sum.splits prod.splits)
      with "1.prems"(3) show ?thesis by simp
    next
      case None
      have rest: "chunk_loop env ch2 w2 (drop m xs) (k + m) = (CURLE_OK, n, ch1, w1)"
        using "1.prems"(2) False s None by (simp add: chunk_loop.simps [of env ch])
      have ih: "n = k + m + length (drop m xs) \<and>
          seen body (chunk_loop env ch2 w2 (drop m xs @ ys) (k + m)) = seen body (chunk_loop env ch1 w1 ys n)"
        by (rule "1.IH" [OF False s [symmetric] None refl refl "1.prems"(1) rest "1.prems"(3)])
      show ?thesis
      proof (cases "ch_state ch = CHUNK_DATA \<and> length xs < ch_datasize ch")
        case False
        have "chunk_step env ch w (xs @ ys) = chunk_step env ch w xs"
        proof (cases "ch_state ch = CHUNK_DATA")
          case True
          then show ?thesis using False data_step_append [of ch xs env w ys] by (simp add: chunk_step_def)
        next
          case nd: False
          have "ch_state ch \<noteq> CHUNK_STOP"
            using s None by (auto simp: chunk_step_def stop_step_def split: if_splits)
          with nd show ?thesis by (rule chunk_step_append [OF \<open>xs \<noteq> []\<close>])
        qed
        then have "chunk_loop env ch w (xs @ ys) k = chunk_loop env ch2 w2 (drop m (xs @ ys)) (k + m)"
          using s None \<open>xs \<noteq> []\<close> by (simp add: chunk_loop.simps [of env ch])
        then show ?thesis using ih m by simp
      next
        case True
        let ?ds = "ch_datasize ch"
        define out where "out = (\<lambda>zs :: string. if ce_te_skip env \<or> ch_ignore_body ch then [] else zs)"
        have out: "out (us @ vs) = out us @ out vs" for us vs by (simp add: out_def)
        have sd: "chunk_step env ch w us = data_step env ch w us" for us using True by (simp add: chunk_step_def)
        have 2: "m = length xs" "ch2 = ch\<lparr>ch_datasize := ?ds - length xs\<rparr>" "body w2 = body w @ out xs"
          using data_step_seen [OF "1.prems"(1), of ch w xs] s [unfolded sd] True
          by (simp_all add: Let_def out_def)
        have 1: "n = k + length xs" "ch1 = ch2" "w1 = w2" using rest 2(1) by (simp_all add: chunk_loop.simps [of env ch2])
        show ?thesis
        proof (cases "ys = []")
          case True
          then show ?thesis using "1.prems"(2) 1 by (simp add: chunk_loop.simps [of env ch2 w2 "[]"])
        next
          case ys: False
          define p where "p = min (?ds - length xs) (length ys)"
          have pl: "min ?ds (length (xs @ ys)) = length xs + p" using True by (auto simp: p_def min_def)
          obtain r3 n3 ch3 w3 where s3: "chunk_step env ch w (xs @ ys) = (r3, n3, ch3, w3)" by (metis prod_cases4)
          have 3: "r3 = None" "n3 = length xs + p" "body w3 = body w @ out (xs @ take p ys)"
            "ch3 = ch\<lparr>ch_datasize := ?ds - (length xs + p), ch_state := if ?ds - (length xs + p) = 0 then CHUNK_POSTLF else ch_state ch\<rparr>"
            using data_step_seen [OF "1.prems"(1), of ch w "xs @ ys"] s3 [unfolded sd] unfolding pl
            by (simp_all add: Let_def out_def)
          obtain r4 n4 ch4 w4 where s4: "chunk_step env ch2 w2 ys = (r4, n4, ch4, w4)" by (metis prod_cases4)
          have sd2: "chunk_step env ch2 w2 ys = data_step env ch2 w2 ys" using True 2(2) by (simp add: chunk_step_def)
          have 4: "r4 = None" "n4 = p" "body w4 = body w2 @ out (take p ys)" "ch4 = ch3"
            using data_step_seen [OF "1.prems"(1), of ch2 w2 ys] s4 [unfolded sd2] 3(4) True unfolding 2(2)
            by (simp_all add: Let_def out_def p_def)
          have "seen body (chunk_loop env ch w (xs @ ys) k) = seen body (chunk_loop env ch3 w3 (drop (length xs + p) (xs @ ys)) (k + (length xs + p)))"
            using s3 3(1,2) ys by (simp add: chunk_loop.simps [of env ch w])
          also have "\<dots> = seen body (chunk_loop env ch3 w4 (drop p ys) (n + p))"
            using chunk_loop_seen [OF "1.prems"(1), of w3 w4 ch3 "drop p ys" "n + p"] 3(3) 4(3) 2(3) 1(1) out
            by (simp add: add.assoc)
          also have "\<dots> = seen body (chunk_loop env ch2 w2 ys n)"
            using s4 4(1,2,4) ys by (simp add: chunk_loop.simps [of env ch2 w2 ys])
          finally show ?thesis using 1 by simp
        qed
      qed
    qed
  qed
qed

section \<open>Chunks on the wire\<close>

lemma xdigit_base: "is_xdigit c \<Longrightarrow> base_digit_of 16 c"
proof -
  assume "is_xdigit c"
  then have x: "48 \<le> cc c \<and> cc c \<le> 57 \<or> 97 \<le> cc c \<and> cc c \<le> 102 \<or> 65 \<le> cc c \<and> cc c \<le> 70"
    by (simp add: is_xdigit_def is_digit_def cc_def)
  then have c: "48 \<le> cc c" "cc c \<le> 102" by auto
  have c3: "cc c - 48 \<in> set ([0..<10] @ [17..<23] @ [49..<55])"
    unfolding set_append set_upt Un_iff atLeastLessThan_iff using x by presburger
  have "list_all (\<lambda>k. hexasciitable ! k \<noteq> 0) ([0..<10] @ [17..<23] @ [49..<55])" by code_simp
  with c3 have "hexasciitable ! (cc c - 48) \<noteq> 0" unfolding list_all_iff by blast
  with c show ?thesis by (simp add: base_digit_of_def valid_digit_def largest_digit_def cc_def)
qed

lemma str_hex_all:
  assumes "hs \<noteq> []" and "\<forall>c \<in> set hs. is_xdigit c" and "digits_val 16 0 hs \<le> curl_off_t_max"
  shows "str_hex hs curl_off_t_max = Inr (digits_val 16 0 hs, [])"
proof -
  have t: "takeWhile (base_digit_of 16) hs = hs" "dropWhile (base_digit_of 16) hs = []"
    using assms(2) xdigit_base by (simp_all add: takeWhile_eq_all_conv dropWhile_eq_Nil_conv)
  obtain c cs where hs: "hs = c # cs" using assms(1) by (cases hs) auto
  then have "valid_digit c (largest_digit 16)" using assms(2) xdigit_base by (simp add: base_digit_of_def)
  moreover have "(16 :: nat) \<le> curl_off_t_max" by (simp add: curl_off_t_max_def)
  ultimately show ?thesis
    using num_loop_eq [of 16 curl_off_t_max 0 hs] assms(3) hs t
    by (simp add: str_hex_def str_num_base_def Let_def)
qed

text \<open>A chunk as a server may send it: hexadecimal digits, anything up to the line's end
  (a carriage return, an extension), the data.\<close>

type_synonym wire_chunk = "string \<times> string \<times> string"

definition size_line_ok :: "string \<Rightarrow> string \<Rightarrow> nat \<Rightarrow> bool" where
  "size_line_ok hs ext n \<longleftrightarrow> hs \<noteq> [] \<and> length hs \<le> chunk_maxnum_len \<and> (\<forall>c \<in> set hs. is_xdigit c)
     \<and> digits_val 16 0 hs = n \<and> n \<le> curl_off_t_max \<and> LF \<notin> set ext \<and> (ext \<noteq> [] \<longrightarrow> \<not> is_xdigit (hd ext))"

fun chunk_wf :: "wire_chunk \<Rightarrow> bool" where
  "chunk_wf (hs, ext, dat) \<longleftrightarrow> dat \<noteq> [] \<and> size_line_ok hs ext (length dat)"

fun chunk_text :: "wire_chunk \<Rightarrow> string" where
  "chunk_text (hs, ext, dat) = hs @ ext @ [LF] @ dat @ [CR, LF]"

fun chunk_data :: "wire_chunk \<Rightarrow> string" where
  "chunk_data (hs, ext, dat) = dat"

lemma loop_Go:
  assumes "chunk_step env ch w (c # cs) = (None, n, ch', w')"
  shows "chunk_loop env ch w (c # cs) k = chunk_loop env ch' w' (drop n (c # cs)) (k + n)"
  using assms by (simp add: chunk_loop.simps [of env ch])

lemma loop_hex:
  assumes "ch_state ch = CHUNK_HEX" and "\<forall>c \<in> set hs. is_xdigit c" and "length (ch_hex ch) + length hs \<le> chunk_maxnum_len"
  shows "chunk_loop env ch w (hs @ rest) k = chunk_loop env (ch\<lparr>ch_hex := ch_hex ch @ hs\<rparr>) w rest (k + length hs)"
  using assms
proof (induction hs arbitrary: ch k)
  case (Cons c cs)
  have "chunk_step env ch w (c # (cs @ rest)) = (None, 1, ch\<lparr>ch_hex := ch_hex ch @ [c]\<rparr>, w)"
    using Cons.prems by (simp add: chunk_step_def hex_step_def)
  from loop_Go [OF this, of k] Cons.IH [of "ch\<lparr>ch_hex := ch_hex ch @ [c]\<rparr>" "k + 1"] Cons.prems
  show ?case by simp
qed simp

lemma loop_lf:
  assumes "ch_state ch = CHUNK_LF" and "LF \<notin> set ext"
  shows "chunk_loop env ch w (ext @ LF # rest) k = chunk_loop env
    (ch\<lparr>ch_state := if ch_datasize ch = 0 then CHUNK_TRAILER else CHUNK_DATA\<rparr>) w rest (k + length ext + 1)"
  using assms(2)
proof (induction ext arbitrary: k)
  case Nil
  have "chunk_step env ch w (LF # rest)
      = (None, 1, ch\<lparr>ch_state := if ch_datasize ch = 0 then CHUNK_TRAILER else CHUNK_DATA\<rparr>, w)"
    using assms(1) by (simp add: chunk_step_def lf_step_def)
  from loop_Go [OF this, of k] show ?case by simp
next
  case (Cons c cs)
  have "chunk_step env ch w (c # (cs @ LF # rest)) = (None, 1, ch, w)"
    using assms(1) Cons.prems by (auto simp: chunk_step_def lf_step_def)
  from loop_Go [OF this, of k] Cons.IH [of "k + 1"] Cons.prems show ?case by simp
qed

lemma loop_size_line:
  assumes "ch_state ch = CHUNK_HEX" and "ch_hex ch = []" and "size_line_ok hs ext n"
  shows "chunk_loop env ch w (hs @ ext @ LF # rest) k = chunk_loop env
    (ch\<lparr>ch_hex := hs, ch_datasize := n, ch_state := if n = 0 then CHUNK_TRAILER else CHUNK_DATA\<rparr>) w rest
    (k + length hs + length ext + 1)"
proof -
  have s: "hs \<noteq> []" "length hs \<le> chunk_maxnum_len" "\<forall>c \<in> set hs. is_xdigit c"
    "digits_val 16 0 hs = n" "n \<le> curl_off_t_max" "LF \<notin> set ext" "ext \<noteq> [] \<longrightarrow> \<not> is_xdigit (hd ext)"
    using assms(3) by (auto simp: size_line_ok_def)
  let ?ch1 = "ch\<lparr>ch_hex := hs\<rparr>"
  obtain d ds where e: "ext @ LF # rest = d # ds" by (cases ext) auto
  have "\<not> is_xdigit LF" by (simp add: is_xdigit_def is_digit_def cc_def)
  then have d: "\<not> is_xdigit d" using e s(7) by (cases ext) auto
  have "str_hex hs curl_off_t_max = Inr (n, [])" using str_hex_all [OF s(1,3)] s(4,5) by simp
  then have st: "chunk_step env ?ch1 w (d # ds) = (None, 0, ?ch1\<lparr>ch_datasize := n, ch_state := CHUNK_LF\<rparr>, w)"
    using assms(1) d s(1) by (simp add: chunk_step_def hex_step_def)
  have "chunk_loop env ch w (hs @ ext @ LF # rest) k = chunk_loop env ?ch1 w (d # ds) (k + length hs)"
    using loop_hex [OF assms(1) s(3)] assms(2) s(2) by (simp add: e)
  also have "\<dots> = chunk_loop env (?ch1\<lparr>ch_datasize := n, ch_state := CHUNK_LF\<rparr>) w (ext @ LF # rest) (k + length hs)"
    using loop_Go [OF st] by (simp add: e)
  also have "\<dots> = chunk_loop env
    (ch\<lparr>ch_hex := hs, ch_datasize := n, ch_state := if n = 0 then CHUNK_TRAILER else CHUNK_DATA\<rparr>) w rest
    (k + length hs + length ext + 1)"
    using loop_lf [of "?ch1\<lparr>ch_datasize := n, ch_state := CHUNK_LF\<rparr>" ext env w rest "k + length hs"] s(6)
    by (cases "n = 0") (simp_all add: add.assoc)
  finally show ?thesis .
qed

lemma loop_data:
  assumes "takes_all env body" and "ch_state ch = CHUNK_DATA" and "ch_datasize ch = length dat" and "dat \<noteq> []"
    and "\<not> ce_te_skip env" and "\<not> ch_ignore_body ch"
  shows "\<exists>w'. body w' = body w @ dat \<and> chunk_loop env ch w (dat @ rest) k
    = chunk_loop env (ch\<lparr>ch_datasize := 0, ch_state := CHUNK_POSTLF\<rparr>) w' rest (k + length dat)"
proof -
  obtain r n ch' w' where s: "chunk_step env ch w (dat @ rest) = (r, n, ch', w')" by (metis prod_cases4)
  have m: "min (ch_datasize ch) (length (dat @ rest)) = length dat" using assms(3) by simp
  have r: "r = None" "n = length dat" "ch' = ch\<lparr>ch_datasize := 0, ch_state := CHUNK_POSTLF\<rparr>" "body w' = body w @ dat"
    using data_step_seen [OF assms(1), of ch w "dat @ rest"] s assms(2-6) unfolding m
    by (simp_all add: chunk_step_def Let_def)
  have "chunk_loop env ch w (dat @ rest) k = chunk_loop env ch' w' (drop n (dat @ rest)) (k + n)"
    using s r(1) assms(4) by (simp add: chunk_loop.simps [of env ch])
  with r show ?thesis by auto
qed

lemma loop_postlf:
  assumes "ch_state ch = CHUNK_POSTLF"
  shows "chunk_loop env ch w ([CR, LF] @ rest) k = chunk_loop env (httpchunk_reset ch (ch_ignore_body ch)) w rest (k + 2)"
proof -
  have 1: "chunk_step env ch w (CR # LF # rest) = (None, 1, ch, w)"
    and 2: "chunk_step env ch w (LF # rest) = (None, 1, httpchunk_reset ch (ch_ignore_body ch), w)"
    using assms by (simp_all add: chunk_step_def postlf_step_def)
  from loop_Go [OF 1, of k] loop_Go [OF 2, of "k + 1"] show ?thesis by simp
qed

text \<open>The decoder between chunks.\<close>

definition between :: "chunker \<Rightarrow> bool" where
  "between ch \<longleftrightarrow> ch_state ch = CHUNK_HEX \<and> ch_hex ch = [] \<and> \<not> ch_ignore_body ch
     \<and> db_allc (ch_trailer ch) = 0"

lemma loop_chunk:
  assumes "takes_all env body" and "\<not> ce_te_skip env" and "between ch" and "chunk_wf c"
  shows "\<exists>ch' w'. between ch' \<and> body w' = body w @ chunk_data c
    \<and> chunk_loop env ch w (chunk_text c @ rest) k = chunk_loop env ch' w' rest (k + length (chunk_text c))"
proof -
  obtain hs ext dat where c: "c = (hs, ext, dat)" by (metis prod_cases3)
  have b: "ch_state ch = CHUNK_HEX" "ch_hex ch = []" "\<not> ch_ignore_body ch" "db_allc (ch_trailer ch) = 0"
    using assms(3) by (simp_all add: between_def)
  have d: "dat \<noteq> []" "size_line_ok hs ext (length dat)" using assms(4) c by simp_all
  define ch1 where "ch1 = ch\<lparr>ch_hex := hs, ch_datasize := length dat, ch_state := CHUNK_DATA\<rparr>"
  define k1 where "k1 = k + length hs + length ext + 1"
  have 1: "chunk_loop env ch w (chunk_text c @ rest) k = chunk_loop env ch1 w (dat @ [CR, LF] @ rest) k1"
    using loop_size_line [OF b(1,2) d(2), of env w "dat @ [CR, LF] @ rest" k] d(1)
    by (simp add: c ch1_def k1_def)
  have "ch_state ch1 = CHUNK_DATA" "ch_datasize ch1 = length dat" "\<not> ch_ignore_body ch1"
    using b(3) by (simp_all add: ch1_def)
  from loop_data [OF assms(1) this(1,2) d(1) assms(2) this(3), of w "[CR, LF] @ rest" k1]
  obtain w' where w': "body w' = body w @ dat" and 2: "chunk_loop env ch1 w (dat @ [CR, LF] @ rest) k1
      = chunk_loop env (ch1\<lparr>ch_datasize := 0, ch_state := CHUNK_POSTLF\<rparr>) w' ([CR, LF] @ rest) (k1 + length dat)" by blast
  let ?ch2 = "ch1\<lparr>ch_datasize := 0, ch_state := CHUNK_POSTLF\<rparr>"
  have 3: "chunk_loop env ?ch2 w' ([CR, LF] @ rest) (k1 + length dat)
      = chunk_loop env (httpchunk_reset ?ch2 (ch_ignore_body ?ch2)) w' rest (k + length (chunk_text c))"
    using loop_postlf [of ?ch2 env w' rest "k1 + length dat"] by (simp add: c k1_def add_ac)
  have "between (httpchunk_reset ?ch2 (ch_ignore_body ?ch2))"
    using b by (simp add: between_def httpchunk_reset_def ch1_def dyn_reset_def)
  with 1 2 3 w' c show ?thesis by (metis chunk_data.simps)
qed

lemma loop_chunks:
  assumes "takes_all env body" and "\<not> ce_te_skip env" and "between ch" and "\<forall>c \<in> set cs. chunk_wf c"
  shows "\<exists>ch' w'. between ch' \<and> body w' = body w @ concat (map chunk_data cs)
    \<and> chunk_loop env ch w (concat (map chunk_text cs) @ rest) k
        = chunk_loop env ch' w' rest (k + length (concat (map chunk_text cs)))"
  using assms(3,4)
proof (induction cs arbitrary: ch w k)
  case (Cons c cs)
  obtain ch1 w1 where 1: "between ch1" "body w1 = body w @ chunk_data c"
    "chunk_loop env ch w (chunk_text c @ concat (map chunk_text cs) @ rest) k
       = chunk_loop env ch1 w1 (concat (map chunk_text cs) @ rest) (k + length (chunk_text c))"
    using loop_chunk [OF assms(1,2) Cons.prems(1), of c w "concat (map chunk_text cs) @ rest" k] Cons.prems(2) by auto
  obtain ch2 w2 where "between ch2" "body w2 = body w1 @ concat (map chunk_data cs)"
    "chunk_loop env ch1 w1 (concat (map chunk_text cs) @ rest) (k + length (chunk_text c))
       = chunk_loop env ch2 w2 rest (k + length (chunk_text c) + length (concat (map chunk_text cs)))"
    using Cons.IH [OF 1(1)] Cons.prems(2) by (metis list.set_intros(2))
  with 1 show ?case by (intro exI [of _ ch2] exI [of _ w2]) (simp add: add.assoc)
qed auto

definition last_text :: "string \<Rightarrow> string \<Rightarrow> string" where
  "last_text hs ext = hs @ ext @ [LF, CR, LF]"

lemma loop_last:
  assumes "between ch" and "size_line_ok hs ext 0"
  shows "\<exists>ch'. ch_state ch' = CHUNK_DONE \<and> ch_datasize ch' = length rest
    \<and> chunk_loop env ch w (last_text hs ext @ rest) k = (CURLE_OK, k + length (last_text hs ext), ch', w)"
proof -
  have b: "ch_state ch = CHUNK_HEX" "ch_hex ch = []" "db_allc (ch_trailer ch) = 0"
    using assms(1) by (simp_all add: between_def)
  define ch1 where "ch1 = ch\<lparr>ch_hex := hs, ch_datasize := 0, ch_state := CHUNK_TRAILER\<rparr>"
  let ?k = "k + length hs + length ext + 1"
  have 1: "chunk_loop env ch w (last_text hs ext @ rest) k = chunk_loop env ch1 w (CR # LF # rest) ?k"
    using loop_size_line [OF b(1,2) assms(2), of env w "CR # LF # rest" k] by (simp add: last_text_def ch1_def)
  have s1: "chunk_step env ch1 w (CR # LF # rest) = (None, 0, ch1\<lparr>ch_state := CHUNK_TRAILER_POSTCR\<rparr>, w)"
    using b(3) by (simp add: chunk_step_def trailer_step_def ch1_def dyn_ptr_def)
  let ?ch2 = "ch1\<lparr>ch_state := CHUNK_TRAILER_POSTCR\<rparr>"
  have s2: "chunk_step env ?ch2 w (CR # LF # rest) = (None, 1, ?ch2\<lparr>ch_state := CHUNK_STOP\<rparr>, w)"
    by (simp add: chunk_step_def trailer_postcr_step_def)
  let ?ch3 = "?ch2\<lparr>ch_state := CHUNK_STOP\<rparr>"
  have s3: "chunk_step env ?ch3 w (LF # rest)
      = (Some CURLE_OK, 1, ?ch3\<lparr>ch_datasize := length rest, ch_state := CHUNK_DONE\<rparr>, w)"
    by (simp add: chunk_step_def stop_step_def)
  have "chunk_loop env ?ch3 w (LF # rest) (?k + 1) = (CURLE_OK, ?k + 2, ?ch3\<lparr>ch_datasize := length rest, ch_state := CHUNK_DONE\<rparr>, w)"
    using s3 by (subst chunk_loop.simps) simp
  with 1 loop_Go [OF s1, of ?k] loop_Go [OF s2, of ?k] show ?thesis
    by (simp add: last_text_def add.assoc)
qed

text \<open>Buffers handed to \<open>Curl_httpchunk_read\<close> one after the other, until one fails.\<close>

fun feed :: "'w chunk_env \<Rightarrow> chunker \<Rightarrow> 'w \<Rightarrow> string list \<Rightarrow> curle \<times> nat \<times> chunker \<times> 'w" where
  "feed env ch w [] = (CURLE_OK, 0, ch, w)"
| "feed env ch w (b # bs) = (case httpchunk_readwrite env ch w b of
     (result, n, ch1, w1) \<Rightarrow>
       if result \<noteq> CURLE_OK then (result, n, ch1, w1)
       else case feed env ch1 w1 bs of (result2, m, ch2, w2) \<Rightarrow> (result2, n + m, ch2, w2))"

lemma feed_done: "ch_state ch = CHUNK_DONE \<Longrightarrow> feed env ch w bs = (CURLE_OK, 0, ch, w)"
  by (induction bs) (simp_all add: httpchunk_readwrite_def)

lemma chunk_loop_count: "chunk_loop env ch w buf k = (e, n, ch', w') \<Longrightarrow>
    chunk_loop env ch w buf (j + k) = (e, j + n, ch', w')"
proof (induction env ch w buf k arbitrary: rule: chunk_loop.induct)
  case (1 env ch w buf k)
  show ?case
  proof (cases "buf = []")
    case True
    then show ?thesis using "1.prems" by simp
  next
    case False
    obtain r m ch1 w1 where s: "chunk_step env ch w buf = (r, m, ch1, w1)" by (metis prod_cases4)
    show ?thesis
    proof (cases r)
      case None
      then have "chunk_loop env ch1 w1 (drop m buf) (k + m) = (e, n, ch', w')"
        using "1.prems" False s by (simp add: chunk_loop.simps [of env ch w])
      from "1.IH" [OF False s [symmetric] None refl refl this]
      show ?thesis using False s None by (simp add: chunk_loop.simps [of env ch w] add.assoc)
    next
      case (Some x)
      then show ?thesis using "1.prems" False s by (auto simp: chunk_loop.simps [of env ch w])
    qed
  qed
qed

lemma chunk_step_failed:
  assumes "chunk_step env ch w xs = (r, n, ch1, w1)" and "ch_state ch \<noteq> CHUNK_FAILED"
    and "ch_state ch1 = CHUNK_FAILED"
  shows "r \<noteq> None \<and> r \<noteq> Some CURLE_OK"
  using assms
  by (cases "ch_state ch")
     (auto simp: chunk_step_def hex_step_def lf_step_def data_step_def postlf_step_def trailer_step_def
        httpchunk_reset_def trailer_line_def trailer_cr_step_def trailer_postcr_step_def stop_step_def Let_def
        split: if_splits sum.splits prod.splits)

lemma chunk_loop_failed:
  "chunk_loop env ch w buf k = (CURLE_OK, n, ch', w') \<Longrightarrow> ch_state ch \<noteq> CHUNK_FAILED \<Longrightarrow> ch_state ch' \<noteq> CHUNK_FAILED"
proof (induction env ch w buf k rule: chunk_loop.induct)
  case (1 env ch w buf k)
  show ?case
  proof (cases "buf = []")
    case True
    then show ?thesis using "1.prems" by simp
  next
    case False
    obtain r m ch1 w1 where s: "chunk_step env ch w buf = (r, m, ch1, w1)" by (metis prod_cases4)
    note st = chunk_step_failed [OF s "1.prems"(2)]
    show ?thesis
    proof (cases r)
      case None
      then have l: "chunk_loop env ch1 w1 (drop m buf) (k + m) = (CURLE_OK, n, ch', w')"
        using "1.prems" False s by (simp add: chunk_loop.simps [of env ch w])
      have "ch_state ch1 \<noteq> CHUNK_FAILED" using st None by blast
      with "1.IH" [OF False s [symmetric] None refl refl l] show ?thesis by blast
    next
      case (Some x)
      then have "x = CURLE_OK" "ch' = ch1" using "1.prems" False s by (simp_all add: chunk_loop.simps [of env ch w])
      then show ?thesis using st Some by blast
    qed
  qed
qed

text \<open>What ends the decoding of a buffer ends it with more data behind.\<close>

lemma chunk_loop_halt:
  "takes_all env body \<Longrightarrow> chunk_loop env ch w xs k = (e, n, ch1, w1) \<Longrightarrow> e \<noteq> CURLE_OK \<or> ch_state ch1 = CHUNK_DONE \<Longrightarrow>
     \<exists>ch2. chunk_loop env ch w (xs @ ys) k = (e, n, ch2, w1) \<and> ch_state ch2 = ch_state ch1"
proof (induction env ch w xs k rule: chunk_loop.induct)
  case (1 env ch w xs k)
  show ?case
  proof (cases "xs = []")
    case True
    then have "ch_state ch = CHUNK_DONE" "e = CURLE_OK" "n = k" "ch1 = ch" "w1 = w" using "1.prems"(2,3) by auto
    then show ?thesis using True by (cases "ys = []") (simp_all add: chunk_loop.simps [of env ch w ys] chunk_step_def)
  next
    case False
    obtain r m ch2 w2 where s: "chunk_step env ch w xs = (r, m, ch2, w2)" by (metis prod_cases4)
    have m: "m \<le> length xs" by (rule chunk_step_consumed [OF s False])
    show ?thesis
    proof (cases r)
      case (Some x)
      then have eq: "e = x" "n = k + m" "ch1 = ch2" "w1 = w2"
        using "1.prems"(2) False s by (simp_all add: chunk_loop.simps [of env ch w])
      have "ch_state ch \<noteq> CHUNK_DATA"
        using s Some data_step_seen [OF "1.prems"(1), of ch w xs] by (auto simp: chunk_step_def Let_def)
      then have "\<exists>ch3. chunk_step env ch w (xs @ ys) = (r, m, ch3, w2) \<and> ch_state ch3 = ch_state ch2"
      proof (cases "ch_state ch = CHUNK_STOP")
        case True
        then show ?thesis using s False by (auto simp: chunk_step_def stop_step_def split: if_splits)
      next
        case ns: False
        assume nd: "ch_state ch \<noteq> CHUNK_DATA"
        show ?thesis using chunk_step_append [OF False nd ns, of env w ys] s by simp
      qed
      then show ?thesis using eq Some False by (auto simp: chunk_loop.simps [of env ch w "xs @ ys"])
    next
      case None
      have rest: "chunk_loop env ch2 w2 (drop m xs) (k + m) = (e, n, ch1, w1)"
        using "1.prems"(2) False s None by (simp add: chunk_loop.simps [of env ch w])
      have small: "\<not> (ch_state ch = CHUNK_DATA \<and> length xs < ch_datasize ch)"
      proof
        assume big: "ch_state ch = CHUNK_DATA \<and> length xs < ch_datasize ch"
        then have "m = length xs" "ch_state ch2 = CHUNK_DATA"
          using data_step_seen [OF "1.prems"(1), of ch w xs] s by (simp_all add: chunk_step_def Let_def)
        with rest "1.prems"(3) show False by auto
      qed
      have "chunk_step env ch w (xs @ ys) = chunk_step env ch w xs"
      proof (cases "ch_state ch = CHUNK_DATA")
        case True
        then show ?thesis using small data_step_append [of ch xs env w ys] by (simp add: chunk_step_def)
      next
        case nd: False
        have "ch_state ch \<noteq> CHUNK_STOP"
          using s None by (auto simp: chunk_step_def stop_step_def split: if_splits)
        with nd show ?thesis by (rule chunk_step_append [OF False])
      qed
      then have "chunk_loop env ch w (xs @ ys) k = chunk_loop env ch2 w2 (drop m xs @ ys) (k + m)"
        using s None False m by (simp add: chunk_loop.simps [of env ch w "xs @ ys"])
      with "1.IH" [OF False s [symmetric] None refl refl "1.prems"(1) rest "1.prems"(3)] show ?thesis by simp
    qed
  qed
qed

text \<open>Feeding pieces is feeding the whole.\<close>

lemma feed_concat:
  assumes "takes_all env body" and "\<not> ce_te_skip env"
  shows "ch_state ch \<noteq> CHUNK_DONE \<Longrightarrow> ch_state ch \<noteq> CHUNK_FAILED \<Longrightarrow>
    chunk_loop env ch w (concat bs) 0 = (CURLE_OK, n, ch', w') \<Longrightarrow> ch_state ch' = CHUNK_DONE \<Longrightarrow>
    \<exists>ch2 w2. feed env ch w bs = (CURLE_OK, n, ch2, w2) \<and> ch_state ch2 = CHUNK_DONE \<and> body w2 = body w'"
proof (induction bs arbitrary: ch w n w')
  case Nil
  then show ?case by simp
next
  case (Cons b bs)
  obtain e m ch1 w1 where l: "chunk_loop env ch w b 0 = (e, m, ch1, w1)" by (metis prod_cases4)
  have rw: "httpchunk_readwrite env ch w b = (e, m, ch1, w1)"
    using Cons.prems(1,2) assms(2) l by (simp add: httpchunk_readwrite_def)
  show ?case
  proof (cases "e \<noteq> CURLE_OK \<or> ch_state ch1 = CHUNK_DONE")
    case True
    from chunk_loop_halt [OF assms(1) l True, of "concat bs"] Cons.prems(3,4)
    have "e = CURLE_OK" "m = n" "w1 = w'" "ch_state ch1 = CHUNK_DONE" by auto
    then show ?thesis using rw feed_done [of ch1 env w1 bs] by simp
  next
    case False
    then have e: "e = CURLE_OK" and nd: "ch_state ch1 \<noteq> CHUNK_DONE" by auto
    have nf: "ch_state ch1 \<noteq> CHUNK_FAILED" using chunk_loop_failed l e Cons.prems(2) by metis
    obtain e2 n2 ch2 w2 where l2: "chunk_loop env ch1 w1 (concat bs) 0 = (e2, n2, ch2, w2)" by (metis prod_cases4)
    from chunk_loop_append [OF assms(1) l [unfolded e] nd, of "concat bs"] Cons.prems(3) chunk_loop_count [OF l2, of m]
    have r: "e2 = CURLE_OK" "n = m + n2" "ch2 = ch'" "body w2 = body w'" by auto
    have "chunk_loop env ch1 w1 (concat bs) 0 = (CURLE_OK, n2, ch', w2)" using l2 r by simp
    from Cons.IH [OF nd nf this Cons.prems(4)] obtain ch3 w3 where
      "feed env ch1 w1 bs = (CURLE_OK, n2, ch3, w3)" "ch_state ch3 = CHUNK_DONE" "body w3 = body w2" by blast
    then show ?thesis using rw e r by simp
  qed
qed

lemma feed_message:
  assumes "takes_all env body" and "\<not> ce_te_skip env"
    and "\<forall>c \<in> set cs. chunk_wf c" and "size_line_ok hs ext 0"
    and "concat bufs = concat (map chunk_text cs) @ last_text hs ext @ rest"
  shows "\<exists>ch w'. feed env (httpchunk_init 0 False) w bufs
      = (CURLE_OK, length (concat (map chunk_text cs) @ last_text hs ext), ch, w')
    \<and> httpchunk_is_done ch \<and> body w' = body w @ concat (map chunk_data cs)"
proof -
  have b: "between (httpchunk_init 0 False)" by (simp add: between_def httpchunk_init_def dyn_init_def)
  obtain ch1 w1 where 1: "between ch1" "body w1 = body w @ concat (map chunk_data cs)"
    "chunk_loop env (httpchunk_init 0 False) w (concat (map chunk_text cs) @ last_text hs ext @ rest) 0
      = chunk_loop env ch1 w1 (last_text hs ext @ rest) (0 + length (concat (map chunk_text cs)))"
    using loop_chunks [OF assms(1,2) b assms(3)] by blast
  obtain ch2 where 2: "ch_state ch2 = CHUNK_DONE" "chunk_loop env ch1 w1 (last_text hs ext @ rest) (0 + length (concat (map chunk_text cs)))
      = (CURLE_OK, length (concat (map chunk_text cs) @ last_text hs ext), ch2, w1)"
    using loop_last [OF 1(1) assms(4)] by fastforce
  have "ch_state (httpchunk_init 0 False) = CHUNK_HEX" by (simp add: httpchunk_init_def)
  with feed_concat [OF assms(1,2), of "httpchunk_init 0 False" w bufs] 1 2 assms(5) show ?thesis
    by (fastforce simp: httpchunk_is_done_def)
qed

definition log_env :: "string chunk_env" where
  "log_env = \<lparr> ce_te_skip = False, ce_headerline = 0, ce_mem = (\<lambda>_. True),
     ce_write = (\<lambda>w k xs. (CURLE_OK, if k = CLIENTWRITE_BODY then w @ xs else w)) \<rparr>"

lemma log_env_takes_all: "takes_all log_env (\<lambda>w. w)"
  by (simp add: takes_all_def log_env_def)

lemma size_lines:
  "size_line_ok ''0'' [CR] 0" "size_line_ok ''5'' [CR] 5"
proof -
  have "hexval (CHR ''0'') = 0 \<and> hexval (CHR ''5'') = 5" by code_simp
  then show "size_line_ok ''0'' [CR] 0" "size_line_ok ''5'' [CR] 5"
    by (simp_all add: size_line_ok_def chunk_maxnum_len_def curl_off_t_max_def digits_val_def is_xdigit_def is_digit_def cc_def)
qed

section \<open>What a call consumes\<close>

lemma chunk_step_outcome:
  assumes "chunk_step env ch w buf = (r, n, ch1, w1)" and "buf \<noteq> []" and "ch_state ch \<noteq> CHUNK_FAILED"
    and "ch_state ch \<noteq> CHUNK_DONE"
  shows "(case r of None \<Rightarrow> ch_state ch1 \<noteq> CHUNK_FAILED \<and> ch_state ch1 \<noteq> CHUNK_DONE
     | Some e \<Rightarrow> if e = CURLE_OK then ch_state ch1 = CHUNK_DONE \<and> ch_datasize ch1 = length buf - n
                 else ch_state ch1 = CHUNK_FAILED \<and> ch_last_code ch1 \<noteq> CHUNKE_OK)"
  using assms
  by (cases "ch_state ch")
     (auto simp: chunk_step_def hex_step_def lf_step_def data_step_def postlf_step_def trailer_step_def chunk_fail_def
        httpchunk_reset_def trailer_line_def trailer_cr_step_def trailer_postcr_step_def stop_step_def Let_def
        split: if_splits sum.splits prod.splits)

lemma chunk_loop_outcome:
  "chunk_loop env ch w buf k = (e, n, ch', w') \<Longrightarrow> ch_state ch \<noteq> CHUNK_FAILED \<Longrightarrow> ch_state ch \<noteq> CHUNK_DONE \<Longrightarrow>
     k \<le> n \<and> n \<le> k + length buf \<and>
     (if e \<noteq> CURLE_OK then ch_state ch' = CHUNK_FAILED \<and> ch_last_code ch' \<noteq> CHUNKE_OK
      else ch_state ch' \<noteq> CHUNK_FAILED
        \<and> (if ch_state ch' = CHUNK_DONE then ch_datasize ch' = k + length buf - n else n = k + length buf))"
proof (induction env ch w buf k rule: chunk_loop.induct)
  case (1 env ch w buf k)
  show ?case
  proof (cases "buf = []")
    case True
    then show ?thesis using "1.prems" by simp
  next
    case False
    obtain r m ch1 w1 where s: "chunk_step env ch w buf = (r, m, ch1, w1)" by (metis prod_cases4)
    note st = chunk_step_outcome [OF s False "1.prems"(2,3)]
    have m: "m \<le> length buf" by (rule chunk_step_consumed [OF s False])
    show ?thesis
    proof (cases r)
      case None
      then have "chunk_loop env ch1 w1 (drop m buf) (k + m) = (e, n, ch', w')"
        using "1.prems" False s by (simp add: chunk_loop.simps [of env ch w])
      from "1.IH" [OF False s [symmetric] None refl refl this] st None m show ?thesis by auto
    next
      case (Some x)
      then have "x = e" "ch' = ch1" "n = k + m" using "1.prems" False s by (simp_all add: chunk_loop.simps [of env ch w])
      then show ?thesis using st Some m by (auto split: if_splits)
    qed
  qed
qed

text \<open>
  A call of \<open>Curl_httpchunk_read\<close>, whatever the server sent and whatever the client's
  write callback answers, consumes no more than the buffer; an error, and nothing else, leaves
  the decoder failed; success consumes the whole buffer unless the message ended in it, and
  then \<open>datasize\<close> is the number of bytes behind it.
\<close>

theorem chunked_consumes:
  assumes "httpchunk_readwrite env ch w buf = (e, n, ch', w')"
    and "ch_state ch \<noteq> CHUNK_DONE" and "ch_state ch \<noteq> CHUNK_FAILED"
  shows "n \<le> length buf \<and> (e \<noteq> CURLE_OK \<longleftrightarrow> ch_state ch' = CHUNK_FAILED)
    \<and> (e \<noteq> CURLE_OK \<longrightarrow> ch_last_code ch' \<noteq> CHUNKE_OK)
    \<and> (e = CURLE_OK \<longrightarrow> (if httpchunk_is_done ch' then ch_datasize ch' = length buf - n else n = length buf))"
proof -
  obtain e0 w0 where w0: "(if ce_te_skip env \<and> \<not> ch_ignore_body ch
                 then ce_write env w CLIENTWRITE_BODY buf else (CURLE_OK, w)) = (e0, w0)" by fastforce
  show ?thesis
  proof (cases "e0 = CURLE_OK")
    case True
    then have "chunk_loop env ch w0 buf 0 = (e, n, ch', w')"
      using assms w0 by (simp add: httpchunk_readwrite_def split: if_splits)
    from chunk_loop_outcome [OF this assms(3,2)] show ?thesis by (auto simp: httpchunk_is_done_def split: if_splits)
  next
    case False
    then show ?thesis using assms w0
      by (auto simp: httpchunk_readwrite_def chunk_fail_def split: if_splits)
  qed
qed

theorem chunked_consumes_witness:
  "\<exists>n ch' w'. httpchunk_readwrite log_env (httpchunk_init 0 False) [] (''0'' @ [CR, LF, CR, LF] @ ''GET'') = (CURLE_OK, n, ch', w')
     \<and> n \<le> 8 \<and> (if httpchunk_is_done ch' then ch_datasize ch' = 8 - n else n = 8)"
proof -
  have "between (httpchunk_init 0 False)" by (simp add: between_def httpchunk_init_def dyn_init_def)
  from loop_last [OF this size_lines(1), of "''GET''" log_env "[]" 0] obtain n ch' w' where
    r: "httpchunk_readwrite log_env (httpchunk_init 0 False) [] (''0'' @ [CR, LF, CR, LF] @ ''GET'') = (CURLE_OK, n, ch', w')"
    by (auto simp: httpchunk_readwrite_def httpchunk_init_def log_env_def last_text_def)
  show ?thesis using chunked_consumes [OF r] r by (simp add: httpchunk_init_def eval_nat_numeral)
qed

end
