(* ===== verification/CurlChunkCodec.thy ===== *)
theory CurlChunkCodec
  imports CurlChunks
begin

text \<open>
  The chunked encoder and decoder of \<open>lib/http_chunks.c\<close> together: whatever pieces the
  client's reader delivers and whatever buffers the transfer reads into, what the encoder
  puts on the wire ends, is a chunked message, and decodes to the body.
\<close>

section \<open>A queue with room\<close>

abbreviation all_mem :: "nat \<Rightarrow> bool" where "all_mem \<equiv> \<lambda>_. True"

definition roomy :: "bufq \<Rightarrow> bool" where
  "roomy q \<longleftrightarrow> bufq_ok q \<and> bq_soft_limit q \<and> bq_pool q = None \<and> bq_chunk_size q \<le> size_max - sizeof_chunk"

lemma get_spare_roomy:
  assumes "roomy q" and "get_spare all_mem q = (r, q')"
  shows "r \<noteq> None \<and> bq_pool q' = None"
  using assms by (auto simp: get_spare_def roomy_def alloc_chunk_def split: list.splits option.splits if_splits)

lemma get_non_full_tail_roomy:
  assumes "roomy q" and "get_non_full_tail all_mem q = (r, q')"
  shows "r \<noteq> None \<and> bq_pool q' = None"
proof (cases "bq_head q \<noteq> [] \<and> \<not> chunk_is_full (last (bq_head q))")
  case True
  then show ?thesis using assms by (auto simp: get_non_full_tail_def roomy_def)
next
  case False
  obtain r1 q1 where g: "get_spare all_mem q = (r1, q1)" by fastforce
  from get_spare_roomy [OF assms(1) g] False assms(2) g show ?thesis by (auto simp: get_non_full_tail_def)
qed

lemma write_loop_roomy:
  "roomy q \<Longrightarrow> write_loop all_mem buf nw q = (e, nw', rest, q') \<Longrightarrow> e = None \<and> rest = [] \<and> bq_pool q' = None"
proof (induction all_mem buf nw q arbitrary: e nw' rest q' rule: write_loop.induct)
  case (1 buf nw q)
  show ?case
  proof (cases "buf = []")
    case True
    then show ?thesis using "1.prems" by (subst (asm) write_loop.simps) (auto simp: roomy_def)
  next
    case False
    obtain r q1 where g: "get_non_full_tail all_mem q = (r, q1)" by fastforce
    have q: "bufq_ok q" using "1.prems"(1) by (simp add: roomy_def)
    note ok1 = get_non_full_tail_ok [OF q g]
    obtain c where Some: "r = Some c" and p: "bq_pool q1 = None"
      using get_non_full_tail_roomy [OF "1.prems"(1) g] by blast
    obtain n c' where a: "chunk_append c buf = (n, c')" by fastforce
    have c: "chunk_ok (bq_chunk_size q1) c" "chunk_live c" using ok1 Some by (auto simp: bufq_ok_def)
    note ap = chunk_append_ok [OF c a]
    have pos: "n \<noteq> 0" using ap ok1 Some False by auto
    have st: "bufq_ok (set_tail c' q1) \<and> bufq_bytes (set_tail c' q1) = bufq_bytes q1 @ take n buf
        \<and> bq_chunk_size (set_tail c' q1) = bq_chunk_size q1
        \<and> bq_max_chunks (set_tail c' q1) = bq_max_chunks q1 \<and> bq_soft_limit (set_tail c' q1) = bq_soft_limit q1"
      by (rule set_tail_ok) (use ok1 ap Some in auto)
    have "roomy (set_tail c' q1)" using "1.prems"(1) ok1 st p by (simp add: roomy_def set_tail_def)
    moreover have "write_loop all_mem (drop n buf) (nw + n) (set_tail c' q1) = (e, nw', rest, q')"
      using "1.prems"(2) False g Some a pos by (subst (asm) write_loop.simps) simp
    ultimately show ?thesis using "1.hyps" [OF False g [symmetric] Some a [symmetric] pos] by blast
  qed
qed

lemma write_roomy:
  assumes "roomy q"
  shows "\<exists>q'. bufq_cwrite all_mem buf q = (CURLE_OK, length buf, q') \<and> roomy q' \<and> bufq_bytes q' = bufq_bytes q @ buf"
proof -
  have ok: "bufq_ok q" using assms by (simp add: roomy_def)
  obtain e nw rest q' where w: "write_loop all_mem buf 0 q = (e, nw, rest, q')" by (metis prod_cases4)
  note r = write_loop_roomy [OF assms w]
  from write_loop_ok [OF ok w] r have n: "nw = length buf" "bufq_bytes q' = bufq_bytes q @ buf" and q': "bufq_ok q'"
    "bq_chunk_size q' = bq_chunk_size q" "bq_soft_limit q' = bq_soft_limit q" by auto
  have "bufq_cwrite all_mem buf q = (CURLE_OK, length buf, q')"
    using w r n by (simp add: bufq_cwrite_def bufq_write_def)
  moreover have "roomy q'" using assms r q' by (simp add: roomy_def)
  ultimately show ?thesis using n by blast
qed

lemma prune_head_pool: "bq_pool q = None \<Longrightarrow> bq_pool (prune_head q) = None"
proof (induction q rule: prune_head.induct)
  case (1 q)
  then show ?case by (subst prune_head.simps) (auto simp: retire_def split: list.split)
qed

lemma read_loop_pool: "bq_pool q = None \<Longrightarrow> read_loop len nread out q = (n, out', q') \<Longrightarrow> bq_pool q' = None"
proof (induction len nread out q arbitrary: n out' q' rule: read_loop.induct)
  case (1 len nread out q)
  obtain m xs c' where c: "chunk_read (hd (bq_head q)) len = (m, xs, c')" by (metis prod_cases3)
  have p: "bq_pool (prune_head (set_head c' q)) = None" using "1.prems"(1) by (simp add: set_head_def prune_head_pool)
  show ?case
  proof (cases "len = 0 \<or> bq_head q = []")
    case True
    then show ?thesis using "1.prems" by (simp add: read_loop.simps [of len nread out q])
  next
    case False
    then have "read_loop (len - m) (nread + m) (out @ xs) (prune_head (set_head c' q)) = (n, out', q')"
      using "1.prems"(2) c by (simp add: read_loop.simps [of len nread out q])
    from "1.IH" [OF False c [symmetric] refl p this] show ?thesis .
  qed
qed

lemma read_roomy:
  assumes "roomy q" and "bufq_bytes q \<noteq> []" and "0 < n"
  shows "\<exists>m q'. bufq_cread n q = (CURLE_OK, m, take n (bufq_bytes q), q') \<and> roomy q' \<and> bufq_bytes q' = drop n (bufq_bytes q)"
proof -
  have ok: "bufq_ok q" using assms(1) by (simp add: roomy_def)
  obtain e m out q' where r: "bufq_read n q = (e, m, out, q')" by (metis prod_cases4)
  note rd = read_ok [OF ok r]
  have "take n (bufq_bytes q) \<noteq> []" using assms(2,3) by simp
  with rd have "e = CURLE_OK" by simp
  moreover have "bq_pool q' = None"
    using assms(1) r read_loop_pool [of q n 0 "[]"] by (auto simp: bufq_read_def roomy_def split: prod.splits)
  ultimately show ?thesis using rd r assms(1) by (auto simp: bufq_cread_def roomy_def same_conf_def)
qed

lemma put_roomy:
  "roomy (cr_chunkbuf ctx) \<Longrightarrow> \<exists>q. cr_put all_mem xss ctx = (CURLE_OK, ctx\<lparr>cr_chunkbuf := q\<rparr>) \<and> roomy q
     \<and> bufq_bytes q = bufq_bytes (cr_chunkbuf ctx) @ concat xss"
proof (induction xss arbitrary: ctx)
  case Nil
  then show ?case by (intro exI [of _ "cr_chunkbuf ctx"]) simp
next
  case (Cons xs xss)
  obtain q where q: "bufq_cwrite all_mem xs (cr_chunkbuf ctx) = (CURLE_OK, length xs, q)" "roomy q"
    "bufq_bytes q = bufq_bytes (cr_chunkbuf ctx) @ xs" using write_roomy [OF Cons.prems, of xs] by blast
  from Cons.IH [of "ctx\<lparr>cr_chunkbuf := q\<rparr>"] q show ?case by auto
qed

section \<open>Chunk sizes\<close>

lemma hex_digit_ok: "d < 16 \<Longrightarrow> is_xdigit (hex_digit d) \<and> hexval (hex_digit d) = d"
proof -
  have "list_all (\<lambda>d. is_xdigit (hex_digit d) \<and> hexval (hex_digit d) = d) [0..<16]" by code_simp
  then show "d < 16 \<Longrightarrow> is_xdigit (hex_digit d) \<and> hexval (hex_digit d) = d" by (simp add: list_all_iff)
qed

lemma digits_val_append: "digits_val base acc (xs @ ys) = digits_val base (digits_val base acc xs) ys"
  by (simp add: digits_val_def)

lemma nat_hex_ok: "nat_hex n \<noteq> [] \<and> (\<forall>c \<in> set (nat_hex n). is_xdigit c) \<and> digits_val 16 0 (nat_hex n) = n"
proof (induction n rule: nat_hex.induct)
  case (1 n)
  then show ?case
    using hex_digit_ok [of n] hex_digit_ok [of "n mod 16"]
    by (subst (1 2 3) nat_hex.simps) (auto simp: digits_val_append digits_val_def)
qed

lemma nat_hex_length: "n < 16 ^ k \<Longrightarrow> 0 < k \<Longrightarrow> length (nat_hex n) \<le> k"
proof (induction k arbitrary: n)
  case (Suc k)
  show ?case
  proof (cases "n < 16")
    case True
    then show ?thesis by (subst nat_hex.simps) simp
  next
    case False
    then have "0 < k" using Suc.prems by (cases k) auto
    moreover have "n div 16 < 16 ^ k" using Suc.prems by (simp add: less_mult_imp_div_less mult.commute)
    ultimately show ?thesis using Suc.IH False by (subst nat_hex.simps) auto
  qed
qed simp

definition sent_chunk :: "string \<Rightarrow> wire_chunk" where
  "sent_chunk xs = (nat_hex (length xs), [CR], xs)"

lemma sent_chunk_wf:
  assumes "xs \<noteq> []" and "length xs \<le> curl_chunked_maxlen"
  shows "chunk_wf (sent_chunk xs)" and "length (nat_hex (length xs)) \<le> 5"
proof -
  have l: "length xs < 16 ^ 5" using assms(2) by (simp add: curl_chunked_maxlen_def)
  show "length (nat_hex (length xs)) \<le> 5" using nat_hex_length [OF l] by simp
  moreover have "\<not> is_xdigit CR" by (simp add: is_xdigit_def is_digit_def cc_def)
  ultimately show "chunk_wf (sent_chunk xs)"
    using assms nat_hex_ok [of "length xs"]
    by (simp add: sent_chunk_def size_line_ok_def chunk_maxnum_len_def curl_off_t_max_def curl_chunked_maxlen_def)
qed

section \<open>Reading the encoder\<close>

text \<open>A client's reader: pieces that are delivered as they come, cut to the buffer, the end
  of the body being told with the last piece, or after it when there is none.\<close>

definition pieces_reader :: "string list creader" where
  "pieces_reader ps n = (case ps of
      [] \<Rightarrow> (CURLE_OK, [], True, [])
    | p # ps' \<Rightarrow> if length p \<le> n then (CURLE_OK, p, ps' = [], ps')
                else (CURLE_OK, take n p, False, drop n p # ps'))"

text \<open>Reads into buffers of the given sizes, until an error or the end.\<close>

fun read_run :: "(nat \<Rightarrow> bool) \<Rightarrow> 'r creader \<Rightarrow> (bool \<times> string list) option \<Rightarrow> nat list \<Rightarrow> chunked_reader \<Rightarrow> 'r
    \<Rightarrow> curle \<times> string \<times> bool" where
  "read_run mem reader cb [] ctx r = (CURLE_OK, [], False)"
| "read_run mem reader cb (n # ns) ctx r = (case cr_chunked_read mem reader cb ctx r n of
     (e, out, eos, ctx1, r1) \<Rightarrow>
       if e \<noteq> CURLE_OK \<or> eos then (e, out, eos)
       else case read_run mem reader cb ns ctx1 r1 of (e2, out2, eos2) \<Rightarrow> (e2, out @ out2, eos2))"

definition sent :: "string \<Rightarrow> string" where
  "sent xs = (if xs = [] then [] else chunk_text (sent_chunk xs))"

definition sent_end :: string where
  "sent_end = last_text ''0'' [CR]"

lemma sent_length: "length xs \<le> curl_chunked_maxlen \<Longrightarrow> length (sent xs) \<le> 10 * length xs"
  using sent_chunk_wf(2) [of xs] by (cases xs) (auto simp: sent_def sent_chunk_def)

lemma sent_end_length: "length sent_end = 5"
  by (simp add: sent_end_def last_text_def)

lemma add_chunk_pieces:
  assumes "roomy (cr_chunkbuf ctx)" and "\<not> cr_read_eos ctx"
  shows "\<exists>b xs eos ps' q. b \<le> curl_chunked_maxlen \<and> 0 < b \<and> pieces_reader ps b = (CURLE_OK, xs, eos, ps')
    \<and> add_chunk all_mem pieces_reader None ctx ps n = (CURLE_OK, ctx\<lparr>cr_chunkbuf := q, cr_read_eos := eos\<rparr>, ps')
    \<and> roomy q \<and> bufq_bytes q = bufq_bytes (cr_chunkbuf ctx) @ sent xs @ (if eos then sent_end else [])"
proof -
  define b where "b = (let blen1 = min n curl_chunked_maxlen
    in if blen1 < curl_chunked_minlen then curl_chunked_minlen else blen1 - (8 + 2 + 2))"
  have b: "b \<le> curl_chunked_maxlen" "0 < b"
    by (auto simp: b_def Let_def curl_chunked_maxlen_def curl_chunked_minlen_def)
  obtain xs eos ps' where r: "pieces_reader ps b = (CURLE_OK, xs, eos, ps')"
  proof -
    obtain e xs eos ps' where r: "pieces_reader ps b = (e, xs, eos, ps')" by (metis prod_cases4)
    then have "e = CURLE_OK" by (auto simp: pieces_reader_def split: list.splits if_splits)
    with r show ?thesis by (intro that) simp
  qed
  define ctx1 where "ctx1 = (if eos then ctx\<lparr>cr_read_eos := True\<rparr> else ctx)"
  have ctx1: "cr_chunkbuf ctx1 = cr_chunkbuf ctx" "cr_read_eos ctx1 = eos" "ctx1 = ctx\<lparr>cr_read_eos := eos\<rparr>"
    using assms(2) by (cases ctx; simp add: ctx1_def)+
  have l: "length xs \<le> curl_chunked_maxlen"
    using r b by (auto simp: pieces_reader_def split: list.splits if_splits)
  have t: "xs \<noteq> [] \<Longrightarrow> take 10 (nat_hex (length xs) @ [CR, LF]) = nat_hex (length xs) @ [CR, LF]"
    using sent_chunk_wf(2) [OF _ l] by simp
  have p: "roomy (cr_chunkbuf ctx1)" using ctx1 assms(1) by simp
  obtain q1 where q1: "(if xs = [] then (CURLE_OK, ctx1)
       else cr_put all_mem [take 10 (nat_hex (length xs) @ [CR, LF]), xs, [CR, LF]] ctx1) = (CURLE_OK, ctx1\<lparr>cr_chunkbuf := q1\<rparr>)"
    "roomy q1" "bufq_bytes q1 = bufq_bytes (cr_chunkbuf ctx) @ sent xs"
  proof (cases "xs = []")
    case True
    then show ?thesis using that [of "cr_chunkbuf ctx1"] p ctx1 by (simp add: sent_def)
  next
    case False
    from put_roomy [OF p, of "[take 10 (nat_hex (length xs) @ [CR, LF]), xs, [CR, LF]]"] False t ctx1
    show ?thesis by (auto simp: sent_def sent_chunk_def intro: that)
  qed
  obtain q where q: "(if eos then cr_put all_mem [''0'' @ [CR, LF, CR, LF]] (ctx1\<lparr>cr_chunkbuf := q1\<rparr>)
      else (CURLE_OK, ctx1\<lparr>cr_chunkbuf := q1\<rparr>)) = (CURLE_OK, ctx1\<lparr>cr_chunkbuf := q\<rparr>)"
    "roomy q" "bufq_bytes q = bufq_bytes q1 @ (if eos then sent_end else [])"
  proof (cases eos)
    case True
    with put_roomy [of "ctx1\<lparr>cr_chunkbuf := q1\<rparr>" "[''0'' @ [CR, LF, CR, LF]]"] q1(2)
    show ?thesis by (auto simp: sent_end_def last_text_def intro: that)
  next
    case False
    then show ?thesis using that [of q1] q1(2) by simp
  qed
  define F where "F = (\<lambda>(result, xs, eos, r' :: string list).
    if result \<noteq> CURLE_OK then (result, ctx, r')
    else let ctx1 = (if eos then ctx\<lparr>cr_read_eos := True\<rparr> else ctx)
         in case (if xs = [] then (CURLE_OK, ctx1)
                  else cr_put all_mem [take 10 (nat_hex (length xs) @ [CR, LF]), xs, [CR, LF]] ctx1) of
              (e, ctx2) \<Rightarrow>
                if e \<noteq> CURLE_OK then (e, ctx2, r')
                else if cr_read_eos ctx2
                then (case add_last_chunk all_mem None ctx2 of (e2, ctx3) \<Rightarrow> (e2, ctx3, r'))
                else (CURLE_OK, ctx2, r'))"
  have "add_chunk all_mem pieces_reader None ctx ps n = F (pieces_reader ps b)"
    by (simp only: add_chunk_def b_def F_def Let_def)
  also have "\<dots> = (CURLE_OK, ctx1\<lparr>cr_chunkbuf := q\<rparr>, ps')"
    using q1(1) q(1) ctx1(2) unfolding F_def r prod.case ctx1_def [symmetric] Let_def
    by (simp add: add_last_chunk_def del: cr_put.simps take_append split: if_splits)
  finally have "add_chunk all_mem pieces_reader None ctx ps n = (CURLE_OK, ctx1\<lparr>cr_chunkbuf := q\<rparr>, ps')" .
  moreover have "ctx1\<lparr>cr_chunkbuf := q\<rparr> = ctx\<lparr>cr_chunkbuf := q, cr_read_eos := eos\<rparr>" by (simp add: ctx1(3))
  ultimately have "add_chunk all_mem pieces_reader None ctx ps n = (CURLE_OK, ctx\<lparr>cr_chunkbuf := q, cr_read_eos := eos\<rparr>, ps')"
    by simp
  moreover have "bufq_bytes q = bufq_bytes (cr_chunkbuf ctx) @ sent xs @ (if eos then sent_end else [])"
    by (simp add: q(3) q1(3))
  ultimately show ?thesis using b r q(2) by blast
qed

text \<open>How many reads are enough, and what they bring.\<close>

fun cost :: "string list \<Rightarrow> nat" where
  "cost ps = 6 + sum_list (map (\<lambda>p. 11 * length p + 1) ps)"

definition reads_left :: "chunked_reader \<Rightarrow> string list \<Rightarrow> nat" where
  "reads_left ctx ps = length (bufq_bytes (cr_chunkbuf ctx)) + (if cr_read_eos ctx then 0 else cost ps)"

definition brings :: "string \<Rightarrow> bool \<Rightarrow> string list \<Rightarrow> string \<Rightarrow> bool" where
  "brings buffered read_eos ps out \<longleftrightarrow> (if read_eos then out = buffered
     else \<exists>cs. (\<forall>c \<in> set cs. chunk_wf c) \<and> concat (map chunk_data cs) = concat ps
       \<and> out = buffered @ concat (map chunk_text cs) @ sent_end)"

lemma pieces_brings:
  assumes "pieces_reader ps b = (CURLE_OK, xs, eos, ps')" and "b \<le> curl_chunked_maxlen" and "0 < b"
    and "brings (buffered @ sent xs @ (if eos then sent_end else [])) eos ps' out"
  shows "brings buffered False ps out"
proof -
  have l: "length xs \<le> curl_chunked_maxlen"
    using assms(1,2) by (auto simp: pieces_reader_def split: list.splits if_splits)
  have c: "concat ps = xs @ (if eos then [] else concat ps')"
    using assms(1) by (auto simp: pieces_reader_def split: list.splits if_splits)
  define c0 where "c0 = (if xs = [] then [] else [sent_chunk xs])"
  have c0: "\<forall>c \<in> set c0. chunk_wf c" "concat (map chunk_data c0) = xs" "concat (map chunk_text c0) = sent xs"
    using sent_chunk_wf(1) [OF _ l] by (auto simp: c0_def sent_def sent_chunk_def)
  show ?thesis
  proof (cases eos)
    case True
    then have key: "(\<forall>c \<in> set c0. chunk_wf c) \<and> concat (map chunk_data c0) = concat ps
      \<and> out = buffered @ concat (map chunk_text c0) @ sent_end" using assms(4) c c0 by (simp add: brings_def)
    show ?thesis unfolding brings_def by (simp only: if_False) (rule exI, rule key)
  next
    case False
    then obtain cs where "\<forall>c \<in> set cs. chunk_wf c" "concat (map chunk_data cs) = concat ps'"
      "out = buffered @ sent xs @ concat (map chunk_text cs) @ sent_end"
      using assms(4) by (auto simp: brings_def)
    then have key: "(\<forall>c \<in> set (c0 @ cs). chunk_wf c) \<and> concat (map chunk_data (c0 @ cs)) = concat ps
      \<and> out = buffered @ concat (map chunk_text (c0 @ cs)) @ sent_end" using False c c0 by auto
    show ?thesis unfolding brings_def by (simp only: if_False) (rule exI, rule key)
  qed
qed

lemma pieces_cost:
  assumes "pieces_reader ps b = (CURLE_OK, xs, eos, ps')" and "b \<le> curl_chunked_maxlen" and "0 < b"
  shows "length (sent xs @ (if eos then sent_end else [])) + (if eos then 0 else cost ps') < cost ps"
proof (cases ps)
  case Nil
  then show ?thesis using assms by (simp add: pieces_reader_def sent_def sent_end_length)
next
  case (Cons p ps1)
  have l: "length (sent xs) \<le> 10 * length xs"
    using assms by (intro sent_length) (auto simp: pieces_reader_def split: list.splits if_splits)
  show ?thesis
  proof (cases "length p \<le> b")
    case True
    then show ?thesis using Cons assms l by (auto simp: pieces_reader_def sent_end_length)
  next
    case False
    then have "xs = take b p" "ps' = drop b p # ps1" "\<not> eos" using Cons assms by (auto simp: pieces_reader_def)
    then show ?thesis using Cons assms(3) l False by simp
  qed
qed

text \<open>The second half of a read, on a buffer that may have been filled just before.\<close>

lemma read_buffered:
  assumes "roomy (cr_chunkbuf ctx)" and "\<not> cr_eos ctx" and ne: "bufq_bytes (cr_chunkbuf ctx) \<noteq> []" and "0 < n"
  shows "\<exists>q. roomy q \<and> bufq_bytes q = drop n (bufq_bytes (cr_chunkbuf ctx))
    \<and> cr_chunked_read all_mem reader cb ctx r n
      = (CURLE_OK, take n (bufq_bytes (cr_chunkbuf ctx)), cr_read_eos ctx \<and> bufq_bytes q = [],
         ctx\<lparr>cr_chunkbuf := q, cr_eos := (cr_read_eos ctx \<and> bufq_bytes q = [])\<rparr>, r)"
proof -
  have ok: "bufq_ok (cr_chunkbuf ctx)" using assms(1) by (simp add: roomy_def)
  obtain m q where rd: "bufq_cread n (cr_chunkbuf ctx) = (CURLE_OK, m, take n (bufq_bytes (cr_chunkbuf ctx)), q)"
    "roomy q" "bufq_bytes q = drop n (bufq_bytes (cr_chunkbuf ctx))" using read_roomy [OF assms(1) ne assms(4)] by blast
  have "bufq_is_empty q \<longleftrightarrow> bufq_bytes q = []" "\<not> bufq_is_empty (cr_chunkbuf ctx)"
    using rd(2) is_empty_ok [of q] is_empty_ok [OF ok] ne by (auto simp: roomy_def)
  then show ?thesis using rd assms(2) by (intro exI [of _ q]) (auto simp: cr_chunked_read_def)
qed

text \<open>One read brings bytes of what is left, or the end.\<close>

definition read_to :: "chunked_reader \<Rightarrow> string list \<Rightarrow> string \<Rightarrow> bool \<Rightarrow> chunked_reader \<Rightarrow> string list \<Rightarrow> bool" where
  "read_to ctx ps out eos ctx' ps' \<longleftrightarrow>
     (if eos then brings (bufq_bytes (cr_chunkbuf ctx)) (cr_read_eos ctx) ps out
      else roomy (cr_chunkbuf ctx') \<and> \<not> cr_eos ctx' \<and> (cr_read_eos ctx' \<longrightarrow> bufq_bytes (cr_chunkbuf ctx') \<noteq> [])
        \<and> reads_left ctx' ps' < reads_left ctx ps
        \<and> (\<forall>rest. brings (bufq_bytes (cr_chunkbuf ctx')) (cr_read_eos ctx') ps' rest
             \<longrightarrow> brings (bufq_bytes (cr_chunkbuf ctx)) (cr_read_eos ctx) ps (out @ rest)))"

lemma brings_drop: "brings (drop n b) e ps rest \<Longrightarrow> brings b e ps (take n b @ rest)"
  by (auto simp: brings_def split: if_splits)

lemma read_to_buffered:
  assumes "roomy (cr_chunkbuf ctx)" and "\<not> cr_eos ctx" and "bufq_bytes (cr_chunkbuf ctx) \<noteq> []" and "0 < n"
  shows "\<exists>out eos ctx'. cr_chunked_read all_mem reader cb ctx r n = (CURLE_OK, out, eos, ctx', r)
    \<and> read_to ctx ps out eos ctx' ps"
proof -
  obtain q where q: "roomy q" "bufq_bytes q = drop n (bufq_bytes (cr_chunkbuf ctx))"
    "cr_chunked_read all_mem reader cb ctx r n
      = (CURLE_OK, take n (bufq_bytes (cr_chunkbuf ctx)), cr_read_eos ctx \<and> bufq_bytes q = [],
         ctx\<lparr>cr_chunkbuf := q, cr_eos := (cr_read_eos ctx \<and> bufq_bytes q = [])\<rparr>, r)"
    using read_buffered [OF assms, of reader cb r] by (elim exE conjE)
  have less: "length (bufq_bytes q) < length (bufq_bytes (cr_chunkbuf ctx))" using q(2) assms(3,4) by (simp add: length_greater_0_conv [symmetric] del: length_greater_0_conv)
  have "read_to ctx ps (take n (bufq_bytes (cr_chunkbuf ctx))) (cr_read_eos ctx \<and> bufq_bytes q = [])
      (ctx\<lparr>cr_chunkbuf := q, cr_eos := (cr_read_eos ctx \<and> bufq_bytes q = [])\<rparr>) ps"
  proof (cases "cr_read_eos ctx \<and> bufq_bytes q = []")
    case True
    then show ?thesis using q(2) by (simp add: read_to_def brings_def)
  next
    case False
    then show ?thesis using q(1,2) less brings_drop [of n] by (auto simp: read_to_def reads_left_def)
  qed
  with q(3) show ?thesis by blast
qed

lemma read_to_step:
  assumes "roomy (cr_chunkbuf ctx)" and "\<not> cr_eos ctx" and "cr_read_eos ctx \<longrightarrow> bufq_bytes (cr_chunkbuf ctx) \<noteq> []"
    and "0 < n"
  shows "\<exists>out eos ctx' ps'. cr_chunked_read all_mem pieces_reader None ctx ps n = (CURLE_OK, out, eos, ctx', ps')
    \<and> read_to ctx ps out eos ctx' ps'"
proof (cases "bufq_bytes (cr_chunkbuf ctx) = []")
  case False
  from read_to_buffered [OF assms(1,2) False assms(4), of pieces_reader None ps ps] show ?thesis by blast
next
  case True
  then have ne: "\<not> cr_read_eos ctx" using assms(3) by blast
  obtain b xs eos ps' q where b: "b \<le> curl_chunked_maxlen" "0 < b" and p: "pieces_reader ps b = (CURLE_OK, xs, eos, ps')"
    and ac: "add_chunk all_mem pieces_reader None ctx ps n = (CURLE_OK, ctx\<lparr>cr_chunkbuf := q, cr_read_eos := eos\<rparr>, ps')"
    and q: "roomy q" "bufq_bytes q = sent xs @ (if eos then sent_end else [])"
    using add_chunk_pieces [OF assms(1) ne, of ps n] True by auto
  define ctx1 where "ctx1 = ctx\<lparr>cr_chunkbuf := q, cr_read_eos := eos\<rparr>"
  have ctx1: "cr_chunkbuf ctx1 = q" "cr_read_eos ctx1 = eos" "\<not> cr_eos ctx1" using assms(2) by (simp_all add: ctx1_def)
  have emp: "bufq_is_empty (cr_chunkbuf ctx)" "bufq_is_empty q \<longleftrightarrow> bufq_bytes q = []"
    using is_empty_ok assms(1) q(1) True by (auto simp: roomy_def)
  have less: "reads_left ctx1 ps' < reads_left ctx ps"
    using pieces_cost [OF p b] ne True q(2) ctx1 by (simp add: reads_left_def)
  have br: "brings (bufq_bytes q) eos ps' rest \<Longrightarrow> brings [] False ps rest" for rest
    using pieces_brings [OF p b, of "[]" rest] q(2) by simp
  show ?thesis
  proof (cases "bufq_bytes q = []")
    case e: True
    then have "\<not> eos" using q(2) by (auto simp: sent_end_def last_text_def)
    moreover have "cr_chunked_read all_mem pieces_reader None ctx ps n = (CURLE_OK, [], False, ctx1, ps')"
      using ac emp e ne assms(2) ctx1_def by (simp add: cr_chunked_read_def)
    ultimately show ?thesis using less br q(1) ctx1 e True ne by (intro exI conjI) (auto simp: read_to_def)
  next
    case False
    have "cr_chunked_read all_mem pieces_reader None ctx ps n = cr_chunked_read all_mem pieces_reader None ctx1 ps' n"
      using ac emp False ne assms(2) ctx1_def by (simp add: cr_chunked_read_def)
    moreover obtain out e ctx2 where
      r: "cr_chunked_read all_mem pieces_reader None ctx1 ps' n = (CURLE_OK, out, e, ctx2, ps')" "read_to ctx1 ps' out e ctx2 ps'"
      using read_to_buffered [of ctx1 n pieces_reader None ps' ps'] ctx1 q(1) False assms(4) by auto
    moreover have "read_to ctx ps out e ctx2 ps'"
      using r(2) less br ctx1 True ne by (auto simp: read_to_def split: if_splits)
    ultimately show ?thesis by auto
  qed
qed

lemma read_run_brings:
  assumes "roomy (cr_chunkbuf ctx)" and "\<not> cr_eos ctx" and "cr_read_eos ctx \<longrightarrow> bufq_bytes (cr_chunkbuf ctx) \<noteq> []"
    and "\<forall>n \<in> set ns. 0 < n" and "reads_left ctx ps \<le> length ns"
  shows "\<exists>out. read_run all_mem pieces_reader None ns ctx ps = (CURLE_OK, out, True)
    \<and> brings (bufq_bytes (cr_chunkbuf ctx)) (cr_read_eos ctx) ps out"
  using assms
proof (induction ns arbitrary: ctx ps)
  case Nil
  then show ?case by (auto simp: reads_left_def split: if_splits)
next
  case (Cons n ns)
  have n: "0 < n" using Cons.prems(4) by simp
  obtain out eos ctx' ps' where r: "cr_chunked_read all_mem pieces_reader None ctx ps n = (CURLE_OK, out, eos, ctx', ps')"
    "read_to ctx ps out eos ctx' ps'" using read_to_step [OF Cons.prems(1-3) n] by blast
  show ?case
  proof (cases eos)
    case True
    with r show ?thesis by (simp add: read_to_def)
  next
    case False
    then have t: "roomy (cr_chunkbuf ctx')" "\<not> cr_eos ctx'" "cr_read_eos ctx' \<longrightarrow> bufq_bytes (cr_chunkbuf ctx') \<noteq> []"
      "reads_left ctx' ps' < reads_left ctx ps" using r(2) by (simp_all add: read_to_def)
    have "\<forall>n \<in> set ns. 0 < n" "reads_left ctx' ps' \<le> length ns" using t(4) Cons.prems(4,5) by simp_all
    from Cons.IH [OF t(1-3) this] obtain out' where
      "read_run all_mem pieces_reader None ns ctx' ps' = (CURLE_OK, out', True)"
      "brings (bufq_bytes (cr_chunkbuf ctx')) (cr_read_eos ctx') ps' out'" by blast
    with r False show ?thesis by (simp add: read_to_def)
  qed
qed

text \<open>
  C34. A body sent chunked arrives: whatever pieces the client's reader delivers, empty ones
  included, and whatever sizes, one byte or more, the transfer reads with, the encoder reaches
  the end of the message without an error within a number of reads that is linear in the body,
  and the decoder, on what was read, however it is cut into buffers, delivers the body, byte
  by byte, and is done.
\<close>

theorem chunked_roundtrip:
  assumes "\<forall>n \<in> set ns. 0 < n" and "cost ps \<le> length ns" and "takes_all env body" and "\<not> ce_te_skip env"
  shows "\<exists>wire. read_run all_mem pieces_reader None ns cr_chunked_init ps = (CURLE_OK, wire, True)
    \<and> (\<forall>bufs w. concat bufs = wire \<longrightarrow>
         (\<exists>ch w'. feed env (httpchunk_init 0 False) w bufs = (CURLE_OK, length wire, ch, w')
           \<and> httpchunk_is_done ch \<and> body w' = body w @ concat ps))"
proof -
  have i: "roomy (cr_chunkbuf cr_chunked_init)" "bufq_bytes (cr_chunkbuf cr_chunked_init) = []"
    by (simp_all add: roomy_def cr_chunked_init_def bufq_init2_def bufq_init0_def bufq_ok_def bufq_bytes_def
        curl_chunked_maxlen_def size_max_def sizeof_chunk_def)
  have "reads_left cr_chunked_init ps \<le> length ns" using assms(2) i(2) by (simp add: reads_left_def cr_chunked_init_def)
  with read_run_brings [OF i(1) _ _ assms(1)] obtain wire where
    wire: "read_run all_mem pieces_reader None ns cr_chunked_init ps = (CURLE_OK, wire, True)" "brings [] False ps wire"
    using i(2) by (auto simp: cr_chunked_init_def)
  then obtain cs where cs: "\<forall>c \<in> set cs. chunk_wf c" "concat (map chunk_data cs) = concat ps"
    "wire = concat (map chunk_text cs) @ last_text ''0'' [CR]" by (auto simp: brings_def sent_end_def)
  have "concat bufs = wire \<Longrightarrow> \<exists>ch w'. feed env (httpchunk_init 0 False) w bufs = (CURLE_OK, length wire, ch, w')
           \<and> httpchunk_is_done ch \<and> body w' = body w @ concat ps" for bufs w
    using feed_message [OF assms(3,4) cs(1) size_lines(1), of bufs "[]" w] cs(2,3) by simp
  with wire(1) show ?thesis by blast
qed

theorem chunked_roundtrip_witness:
  "\<exists>wire. read_run all_mem pieces_reader None (replicate 100 3) cr_chunked_init [''hel'', [], ''lo''] = (CURLE_OK, wire, True)
    \<and> (\<exists>ch w'. feed log_env (httpchunk_init 0 False) [] [wire] = (CURLE_OK, length wire, ch, w')
           \<and> httpchunk_is_done ch \<and> w' = ''hello'')"
proof -
  have "\<forall>n \<in> set (replicate 100 (3 :: nat)). 0 < n" by simp
  from chunked_roundtrip [OF this _ log_env_takes_all, of "[''hel'', [], ''lo'']"] obtain wire where
    w: "read_run all_mem pieces_reader None (replicate 100 3) cr_chunked_init [''hel'', [], ''lo''] = (CURLE_OK, wire, True)"
    "\<forall>bufs w. concat bufs = wire \<longrightarrow> (\<exists>ch w'. feed log_env (httpchunk_init 0 False) w bufs = (CURLE_OK, length wire, ch, w')
           \<and> httpchunk_is_done ch \<and> w' = w @ concat [''hel'', [], ''lo''])" by (auto simp: log_env_def)
  have "concat [wire] = wire" by simp
  with w(2) have "\<exists>ch w'. feed log_env (httpchunk_init 0 False) [] [wire] = (CURLE_OK, length wire, ch, w')
           \<and> httpchunk_is_done ch \<and> w' = [] @ concat [''hel'', [], ''lo'']" by blast
  with w(1) show ?thesis by simp
qed

end
