(* ===== verification/Spec2Isabelle.thy ===== *)
theory Spec2Isabelle
  imports Id8 YamlAlias YamlSystem YamlScalarRound IndexedSink PatternPipeline HttpClient CurlHash CurlList CurlBase64 CurlChunkCodec
begin

text \<open>
  This is a verification library for UEMPPlugin: three C++ modules under \<open>common/\<close>
  (\<open>logger\<close>, \<open>yamltool\<close>, \<open>httpclient\<close>) and the parts of the third-party sources under
  \<open>3rd/source/\<close> that carry what the modules promise.  Every definition is translated from the
  sources and can be evaluated; every theorem is about these definitions.

  \<^bold>\<open>The program and how its parts interact.\<close>
  A caller logs through \<open>Logger\<close>, a thin front of \<open>LogPrivate\<close>
  (\<open>common/private/logger/logger_p.cpp\<close>).  \<open>LogPrivate\<close> reads a YAML file with \<open>YamlTool\<close>, builds a
  \<open>spdlog\<close> logger with the sinks the file lists, or installs and writes a default
  configuration, and passes every message to the sinks; two of the sinks are its own and rotate
  their files by lines and by day and size; callbacks are sinks under generated identifiers.
  \<open>HttpsClient\<close> (\<open>common/private/httpclient/httpclient_p.cpp\<close>) sets the options of a libcurl
  handle, runs the transfer and collects the response through two callbacks.  libcurl's buffers,
  queues, lists, tables and codings do the work below.

  \<^bold>\<open>Theories and the code they model.\<close>
  \<^item> \<open>Prelude\<close>: shared types (\<open>u32\<close>, \<open>u64\<close>), sums as results (\<open>rbind\<close>), decimal rendering,
    general lemmas.
  \<^item> \<open>Filesystem\<close>: files as a map from paths to contents, the operations of
    \<open>std::filesystem\<close> and \<open>file_helper\<close> the sinks call, and the renaming chain as the locale
    \<open>backup_chain\<close>, which both sinks interpret on their own rename loops.
  \<^item> \<open>CountSink\<close>: \<open>count_rotating_file_mt_sink.hpp\<close>, \<open>count_rotating_file_mt\<close>; the record
    \<open>count_sink\<close> holds the members, \<open>c_sink_it\<close> is \<open>sink_it_\<close> with every step it takes.
  \<^item> \<open>Id8\<close>: \<open>id8generator.hpp\<close>, on \<open>64 word\<close>.
  \<^item> \<open>DateTime\<close>, \<open>DailySizeSink\<close>: \<open>daily_size_rotating_file_mt_sink.hpp\<close>, the date formatter and
    the sink, \<open>d_sink_it\<close>; the time zone is the parameter \<open>tz\<close>, the clock an argument.
  \<^item> \<open>IndexedSink\<close>: \<open>daily_count_rotating_file_sink.hpp\<close>, an earlier daily sink that nothing
    includes; a reading of the directory is an argument.
  \<^item> \<open>YamlTool\<close>: \<open>yamltool_p.cpp\<close>, \<open>yamltool.cpp\<close>, \<open>yamlnode.cpp\<close> and the node operations and scalar
    conversions of yaml-cpp they use; exceptions are values of \<open>yexn\<close>.
  \<^item> \<open>LogConfig\<close>: loading, default configuration and path changes of \<open>logger_p.cpp\<close>, with the
    constructors of the spdlog sinks and what they do to the log files; the record \<open>log_state\<close>
    holds the members of \<open>LogPrivate\<close> and all files, \<open>env\<close> what comes from outside.  The clock is
    read as one instant while a configuration is loaded.
  \<^item> \<open>Logging\<close>: \<open>logImpl\<close>, \<open>linkString\<close>, \<open>anyToString\<close>, \<open>setStreamOutPut\<close> and the callback
    registry; reachable states are the inductive predicate \<open>reach\<close>.
  \<^item> \<open>Pipeline\<close>: a log call down to the files, \<open>spdlog::logger\<close> included.
  \<^item> \<open>SpdRotating\<close>, \<open>SpdDaily\<close>: spdlog's own file sinks (\<open>sinks/basic_file_sink-inl.h\<close>,
    \<open>rotating_file_sink-inl.h\<close>, \<open>daily_file_sink.h\<close>) on \<open>details/file_helper-inl.h\<close>, and the ring
    buffer \<open>details/circular_q.h\<close>, which interprets the locale \<open>ring\<close> the daily sink uses.
  \<^item> \<open>LiveSinks\<close>: all file sinks of a configuration at work; each interprets the locale
    \<open>file_sink\<close>: it keeps to its own files and reads no others.
  \<^item> \<open>PatternFormatter\<close>: \<open>pattern_formatter-inl.h\<close> with \<open>details/fmt_helper.h\<close>: compiling a pattern to a
    list of values of the datatype \<open>formatter\<close>, paddings, every flag, and the caches of a formatter
    object.  \<open>PatternLines\<close>, \<open>PatternLayout\<close> and \<open>PatternPipeline\<close> hold its lemmas and put it
    between the log calls and the sinks.
  \<^item> \<open>YamlRegex\<close>, \<open>YamlScalarOut\<close>, \<open>YamlScalarIn\<close>: strings in a YAML text.  The expressions of
    \<open>exp.h\<close> as a datatype with the matcher of \<open>regeximpl.h\<close> and the input of \<open>stream.cpp\<close>; the
    writing of strings (\<open>emitterutils.cpp\<close>); escapes (\<open>exp.cpp\<close>), \<open>ScanScalar\<close> and the scalar tokens
    (\<open>scantoken.cpp\<close>, \<open>scanner.cpp\<close>).  \<open>YamlScalarRead\<close> and \<open>YamlScalarBlock\<close> hold the lemmas on each
    kind of scalar, \<open>YamlScalarRound\<close> puts writing and reading together.
  \<^item> \<open>CurlStrerror\<close>, \<open>CurlText\<close>, \<open>CurlBuffer\<close>: \<open>strerror.c\<close>; \<open>strcase.c\<close>, \<open>strequal.c\<close>,
    \<open>curlx/strparse.c\<close>, \<open>curl_ctype.h\<close>; \<open>curlx/dynbuf.c\<close>, \<open>slist.c\<close>, \<open>escape.c\<close>.
  \<^item> \<open>HttpClient\<close>: \<open>httpclient_p.cpp\<close>; the transfer is the parameter \<open>transport\<close>.
  \<^item> \<open>CurlHash\<close>, \<open>CurlList\<close>, \<open>CurlBase64\<close>, \<open>CurlBufq\<close>: \<open>hash.c\<close> and \<open>uint-hash.c\<close> (both
    interpretations of the locale \<open>map_store\<close>), \<open>llist.c\<close> on an explicit heap,
    \<open>curlx/base64.c\<close>, \<open>bufq.c\<close> (an interpretation of the locale \<open>byte_queue\<close>).
  \<^item> \<open>CurlChunks\<close>, \<open>CurlChunkCodec\<close>: \<open>http_chunks.c\<close>, the decoder as a state machine fed buffer by
    buffer, the encoder on a buffer queue, and both together.
  \<^item> \<open>YamlHeap\<close>, \<open>YamlEvents\<close>: the objects behind the handles of the YAML layer: nodes, references,
    data and memories of yaml-cpp (\<open>node/detail/node.h\<close>, \<open>node_ref.h\<close>, \<open>node_data.cpp\<close>,
    \<open>memory.cpp\<close>) as the record \<open>yheap\<close>, addresses being numbers; the operations of the layer on
    handles; writing a node out as events with anchors (\<open>nodeevents.cpp\<close>) and building nodes
    from events (\<open>nodebuilder.cpp\<close>), so that saving and loading need only the text from outside.
  \<^item> \<open>YamlStore\<close>, \<open>YamlRefine\<close>: when a heap is well-formed, which tree of \<open>YamlTool\<close> a node
    stands for (\<open>rep\<close>), which data a step may change (\<open>okstep\<close>), and that every operation on
    handles does on the heap what \<open>YamlTool\<close> says of the tree.
  \<^item> \<open>YamlAlias\<close>, \<open>YamlClone\<close>, \<open>YamlMemory\<close>, \<open>YamlSystem\<close>: handles that share nodes; the round trip
    through events; which memories own the nodes; a client with any number of handles as the state
    machine \<open>client_reach\<close>.
  \<^bold>\<open>What the lemmas show.\<close>
  The sinks: the files of a rotation chain hold the newest text in order and only the oldest is
  lost, line and size limits hold in every run, the files of other days are left alone.  The
  logger: what a configuration becomes and how it fails, which sink gets which line, that
  callbacks and identifiers correspond in every reachable state; with \<open>Pipeline\<close> the properties
  at the end of this theory follow a call down to the files, and with \<open>LiveSinks\<close> sinks with
  different files do what each would do alone (\<open>sinks_as_alone\<close>).  spdlog's rotating sink
  keeps everything or more than its limit, its daily sink exactly the last files.  The formatter:
  its caches cannot be seen, so that \<open>Pipeline\<close> may take it as a function, a message without line
  breaks gives one line, which makes the line limit of the sink a limit of messages, an escaped
  text stands for itself, and a padded field has its width.  YAML: what reads with a default
  answer, that what is stored reads back, and that the scanner takes a written string for that
  string (\<open>written_string_scanned\<close>, with the texts that are not kept beside it).  The client: when a response is \<open>ok\<close>, which headers
  it has, that a form body decodes to its pairs.  libcurl: histories of the tables, lists and queues
  refine maps, sequences and byte queues; ownership of table entries; round trips of base64,
  escaping and chunked coding; bounds of the number parser and the growing buffer.
  On the heap of nodes: sequences of writes refine the tree, a handle from \<open>getNode\<close> or given to
  \<open>addNode\<close> shares its node with the parent, emission ends on cyclic graphs as well, saving and
  loading copy the tree whatever is shared; a client that keeps its handles owns every node there
  is, so that none is freed under it, every handle is a good one, and a short list of exceptions
  is left to catch.
  \<^bold>\<open>Bounds and fuel.\<close>
  Integers have the width of the code where it matters: \<open>64 word\<close> for identifiers and
  \<open>size_t\<close> arguments of the sinks, \<open>32 word\<close> for the \<open>int\<close> product of \<open>max_size\<close> and for table
  keys.  Sizes of files and buffers are \<open>nat\<close>: they stay below \<open>2 ^ 64\<close>.  No definition takes
  fuel.  Loops are structural recursion or \<open>function\<close> with a measure; walks over node graphs
  count what is not visited yet.  Two are a \<open>partial_function\<close>: \<open>bufq_slurpn\<close>, which may run
  forever with a soft limit and returns with a hard one (\<open>bufq_slurp_returns\<close>), and \<open>emit_all\<close>,
  which ends on every well-formed heap (\<open>emission_ends\<close>).  Reading the chunked encoder needs at most \<open>cost\<close>
  reads, which \<open>chunked_roundtrip\<close> proves to be enough.

  \<^bold>\<open>Parameters.\<close>
  What lies outside of the sources is an argument: the clock and the time zone, memory (\<open>mem n\<close>
  tells whether an allocation succeeds), the YAML parser and emitter (\<open>env\<close> in \<open>LogConfig\<close>), the
  transfer, the client's callbacks.  Hypotheses on them are named (\<open>takes_all\<close>,
  \<open>honest_reader\<close>) and each property with a hypothesis has a witness with concrete functions.

  \<^bold>\<open>Not modelled.\<close>
  Console output and locking; failures of renames and removals (the code ignores their error
  codes); marks, tags and styles of YAML nodes, and the release of nodes after a client dropped a
  handle (\<open>push_back_orphans\<close> shows where a memory then loses one too early; while the handles
  are kept nothing is released, \<open>handles_stay_good\<close>); the configuration of the logger works on trees,
  which the operations on handles refine; floating point and wide strings in log messages and
  YAML; failing writes of spdlog's sinks, their event handlers and the strftime names of its daily
  sink, which nothing uses.  Of the vendored sources:
  the YAML scanner, parser and emitter but for strings, YAML input in UTF-16 or UTF-32 or with a
  byte 4, custom flags of the formatter and the fmt library, the protocols and connections of libcurl, all of OpenSSL and of nlohmann-json, which are large and only called.
  Tests, scripts and build files have no behaviour of the program.
\<close>

section \<open>From log calls to files\<close>

text \<open>
  C1. From the log calls to the files of a count-rotating sink: whatever is logged through a
  logger that has the sink beside console, stream and callback sinks, the sink's files, from the
  oldest backup to the current one, hold the newest of the lines that the logger's and the
  sink's level admit, after what they held before, in order, none lost but the oldest, the last
  one at the end; and with strict counting no file exceeds the line limit.
\<close>

theorem log_to_count_file:
  assumes "m_logger st = Some lg" and "lg_sinks lg = pre @ \<lparr>sk_level = k, sk_kind = CountRotating s\<rparr> # post"
    and "list_all no_file pre" and "list_all no_file post"
    and s: "s = make_count_sink file max_count max_files rotate_on_open strict" and "0 < max_files"
    and "log_calls z fmt calls (st, m) = Some (st', m')"
  defines "written \<equiv> map (formatted fmt) (sink_lines st lg k calls)"
  shows "suffix (c_text s m') (c_text s m @ concat written)
    \<and> (written \<noteq> [] \<longrightarrow> suffix (last written) (c_text s m'))
    \<and> (strict \<and> 0 < max_count \<and> (\<forall>b \<in> set written. is_line b)
        \<and> (\<forall>p \<in> set (chain_slots (c_base_path s) (c_rotated_path s) max_files). line_count (content m p) \<le> max_count)
       \<longrightarrow> (\<forall>p \<in> set (chain_slots (c_base_path s) (c_rotated_path s) max_files). line_count (content m' p) \<le> max_count))"
proof -
  have f: "c_max_count s = max_count" "c_max_files s = max_files" "c_strict_count_on_open s = strict"
    "\<not> c_opened s" "c_log_count s = 0" "c_fd s = None" by (simp_all add: s make_count_sink_def Let_def)
  obtain s' where r: "c_run written (s, m) = (s', m')"
    using log_calls_one [OF assms(3,4,1,2,7)] unfolding fold_count written_def by (metis prod.exhaust_sel prod.inject)
  have h: "0 < c_max_files s" "c_handle_ok s" using f assms(6) by (simp_all add: c_handle_ok_def)
  have t: "suffix (c_text s m') (c_text s m @ concat written)" "written \<noteq> [] \<longrightarrow> suffix (last written) (c_text s m')"
    using c_run_text [OF h r] c_run_keeps_paths by metis+
  have "\<forall>p \<in> set (chain_slots (c_base_path s) (c_rotated_path s) max_files). line_count (content m' p) \<le> max_count"
    if a: strict "0 < max_count" "\<forall>b \<in> set written. is_line b"
      "\<forall>p \<in> set (chain_slots (c_base_path s) (c_rotated_path s) max_files). line_count (content m p) \<le> max_count"
  proof -
    have "s = make_count_sink file max_count max_files rotate_on_open True" using s a(1) by simp
    from log_calls_count_limit [OF assms(1-4) this assms(6) a(2) assms(7) a(3) [unfolded written_def] a(4)] show ?thesis .
  qed
  with t show ?thesis by blast
qed

definition line_fmt :: fmt where
  "line_fmt tp l t = t @ [CHR 0x0A]"

definition demo_logger :: "sink_kind \<Rightarrow> logger" where
  "demo_logger k = \<lparr>lg_name = ''x'', lg_async = False,
      lg_sinks = [\<lparr>sk_level = Off, sk_kind = OstreamSink True\<rparr>, \<lparr>sk_level = Info, sk_kind = k\<rparr>, \<lparr>sk_level = Trace, sk_kind = StdoutColor\<rparr>],
      lg_level = Debug, lg_flush_on = Trace, lg_pattern = []\<rparr>"

definition demo_state :: "sink_kind \<Rightarrow> log_state" where
  "demo_state k = initial_state 0 Map.empty\<lparr>m_logger := Some (demo_logger k)\<rparr>"

definition demo_calls :: "log_call list" where
  "demo_calls = [(1, Warn, ''a.cpp'', 7, ''f'', [MString ''one'']), (2, Debug, ''a.cpp'', 8, ''f'', [MString ''two'']),
     (3, Err, ''a.cpp'', 9, ''f'', [MString ''three''])]"

lemma demo_lines:
  "map (formatted line_fmt) (sink_lines (demo_state k) (demo_logger k) Info demo_calls)
     = [''[a.cpp:7][f]one'' @ [CHR 0x0A], ''[a.cpp:9][f]three'' @ [CHR 0x0A]]"
proof -
  have d: "nat_dec 7 = ''7''" "nat_dec 8 = ''8''" "nat_dec 9 = ''9''" by code_simp+
  have "max Debug Info \<le> Warn" "\<not> max Debug Info \<le> Debug" "max Debug Info \<le> Err"
    by (simp_all add: less_eq_level_def max_def)
  then show ?thesis
    by (simp add: sink_lines_def admitted_def formatted_def line_fmt_def demo_state_def demo_logger_def demo_calls_def
        call_lines_def any_to_string_def convert_any_def log_text_def code_line_def int_dec_def d show_line_of_def
        initial_state_def default_flags_def)
qed

theorem log_to_count_file_witness:
  "\<exists>st' m'. log_calls tz_utc_day line_fmt demo_calls (demo_state (CountRotating (make_count_sink ''app'' 1 2 False True)), Map.empty) = Some (st', m')
    \<and> suffix (''[a.cpp:9][f]three'' @ [CHR 0x0A]) (c_text (make_count_sink ''app'' 1 2 False True) m')
    \<and> line_count (content m' (c_base_path (make_count_sink ''app'' 1 2 False True))) \<le> 1"
proof -
  let ?s = "make_count_sink ''app'' 1 2 False True"
  let ?st = "demo_state (CountRotating ?s)"
  obtain st' m' where r: "log_calls tz_utc_day line_fmt demo_calls (?st, Map.empty) = Some (st', m')"
    by (cases "fold (write_line tz_utc_day line_fmt) (concat (map (call_lines (m_show ?st)) demo_calls)) (demo_logger (CountRotating ?s), Map.empty)")
       (auto simp: log_calls_def demo_state_def)
  have lg: "m_logger ?st = Some (demo_logger (CountRotating ?s))" by (simp add: demo_state_def)
  have sinks: "lg_sinks (demo_logger (CountRotating ?s)) = [\<lparr>sk_level = Off, sk_kind = OstreamSink True\<rparr>]
      @ \<lparr>sk_level = Info, sk_kind = CountRotating ?s\<rparr> # [\<lparr>sk_level = Trace, sk_kind = StdoutColor\<rparr>]"
    by (simp add: demo_logger_def)
  have lines: "is_line (''[a.cpp:7][f]one'' @ [CHR 0x0A])" "is_line (''[a.cpp:9][f]three'' @ [CHR 0x0A])"
    by (auto simp: is_line_def)
  have slots: "c_base_path ?s \<in> set (chain_slots (c_base_path ?s) (c_rotated_path ?s) 2)"
    by (simp add: chain_slots_def)
  have e: "line_count (content Map.empty p) = 0" for p by (simp add: content_def line_count_def newlines_def)
  from log_to_count_file [OF lg sinks _ _ refl _ r] lines slots r show ?thesis
    unfolding demo_lines by (auto simp: no_file_def e)
qed

text \<open>
  C2. From the log calls to the files of a daily sink: the last admitted line of any series of
  calls, through a logger with the sink beside console, stream and callback sinks, stands at the
  end of the current file of its day, which is open, within the size limit unless that line
  alone is larger, and is the one named by the sink for the clock of that line.
\<close>

theorem log_to_daily_file:
  assumes "m_logger st = Some lg" and "lg_sinks lg = pre @ \<lparr>sk_level = k, sk_kind = DailySize s\<rparr> # post"
    and "list_all no_file pre" and "list_all no_file post"
    and "make_daily_sink z tp0 dir pat dfmt h mi bits n roo = Inr s"
    and "log_calls z fmt calls (st, m) = Some (st', m')" and "sink_lines st lg k calls = lns @ [(tp, l, text)]"
  shows "\<exists>s'. m_logger st' = Some (lg\<lparr>lg_sinks := pre @ \<lparr>sk_level = k, sk_kind = DailySize s'\<rparr> # post\<rparr>)
    \<and> d_opened s' \<and> fs_exists m' (d_base_path s') \<and> suffix (fmt tp l text) (content m' (d_base_path s'))
    \<and> tp < d_next_rotation s'
    \<and> (n = 0 \<or> length (content m' (d_base_path s')) \<le> max (unat (bits_to_bytes bits)) (length (fmt tp l text)))"
proof -
  let ?evs = "map (\<lambda>ln. (fst ln, formatted fmt ln))"
  have e: "?evs (sink_lines st lg k calls) = ?evs lns @ [(tp, fmt tp l text)]" by (simp add: assms(7) formatted_def)
  obtain s' where lg': "m_logger st' = Some (lg\<lparr>lg_sinks := pre @ \<lparr>sk_level = k, sk_kind = DailySize s'\<rparr> # post\<rparr>)"
    and r: "d_run z (?evs lns @ [(tp, fmt tp l text)]) (s, m) = (s', m')"
  proof -
    obtain kd' where f: "fold (\<lambda>ln. write_kind z (fst ln) (formatted fmt ln)) (sink_lines st lg k calls) (DailySize s, m) = (kd', m')"
      "m_logger st' = Some (lg\<lparr>lg_sinks := pre @ \<lparr>sk_level = k, sk_kind = kd'\<rparr> # post\<rparr>)"
      using log_calls_one [OF assms(3,4,1,2,6)] by blast
    obtain s1 n1 where d: "d_run z (?evs lns @ [(tp, fmt tp l text)]) (s, m) = (s1, n1)" by fastforce
    from f(1) have "kd' = DailySize s1" "m' = n1" unfolding fold_daily e d by simp_all
    with f(2) d show ?thesis by (intro that) simp_all
  qed
  obtain s1 m1 where 1: "d_run z (?evs lns) (s, m) = (s1, m1)" by fastforce
  have "d_handle_ok s m" using make_daily_sink_fresh [OF assms(5)] by simp
  from d_run_handle [OF this 1] make_daily_sink_fresh [OF assms(5)]
  have hd: "d_handle_ok s1 m1" "d_max_files s1 = n" "d_max_size_bytes s1 = unat (bits_to_bytes bits)" by auto
  have "d_sink_it z tp (fmt tp l text) (s1, m1) = (s', m')" using r 1 by (simp add: d_run_def)
  from d_sink_it_current [OF hd(1) this] hd lg' show ?thesis by auto
qed

theorem log_to_daily_file_witness:
  "\<exists>s st' m' s'. make_daily_sink tz_utc_day 0 ''logs'' ''{date}'' ''yyyy'' 0 0 800 3 False = Inr s
    \<and> log_calls tz_utc_day line_fmt demo_calls (demo_state (DailySize s), Map.empty) = Some (st', m')
    \<and> suffix (''[a.cpp:9][f]three'' @ [CHR 0x0A]) (content m' (d_base_path s'))
    \<and> length (content m' (d_base_path s')) \<le> 100"
proof -
  obtain s where s: "make_daily_sink tz_utc_day 0 ''logs'' ''{date}'' ''yyyy'' 0 0 800 3 False = Inr s"
    by (simp add: make_daily_sink_def bits_to_bytes_def)
  let ?st = "demo_state (DailySize s)"
  obtain st' m' where r: "log_calls tz_utc_day line_fmt demo_calls (?st, Map.empty) = Some (st', m')"
    by (cases "fold (write_line tz_utc_day line_fmt) (concat (map (call_lines (m_show ?st)) demo_calls)) (demo_logger (DailySize s), Map.empty)")
       (auto simp: log_calls_def demo_state_def)
  have lg: "m_logger ?st = Some (demo_logger (DailySize s))" by (simp add: demo_state_def)
  have sinks: "lg_sinks (demo_logger (DailySize s)) = [\<lparr>sk_level = Off, sk_kind = OstreamSink True\<rparr>]
      @ \<lparr>sk_level = Info, sk_kind = DailySize s\<rparr> # [\<lparr>sk_level = Trace, sk_kind = StdoutColor\<rparr>]"
    by (simp add: demo_logger_def)
  obtain lns x where l: "sink_lines ?st (demo_logger (DailySize s)) Info demo_calls = lns @ [x]"
    and x: "formatted line_fmt x = ''[a.cpp:9][f]three'' @ [CHR 0x0A]"
    using demo_lines [of "DailySize s"]
    by (cases "sink_lines ?st (demo_logger (DailySize s)) Info demo_calls" rule: rev_cases) auto
  obtain tp lv t where x': "x = (tp, lv, t)" by (metis prod_cases3)
  from log_to_daily_file [OF lg sinks _ _ s r l [unfolded x']] x show ?thesis
    using s r by (auto simp: no_file_def formatted_def x' bits_to_bytes_def)
qed

end
